(* ===== verification/QLSA_Prelude.thy ===== *)
theory QLSA_Prelude
  imports Main "HOL-Library.Word" "HOL-Library.Signed_Division"
begin

unbundle bit_operations_syntax

text \<open>
  Shared vocabulary of the development: names for the machine types of the Rust sources,
  the collections of rewrite rules the component theories extend, and the generic facts on
  truncated remainders, modular arithmetic, sums and array updates that several components use.
\<close>

section \<open>Types\<close>

text \<open>
  \<open>i64\<close> values are integers: every theory that does \<open>i64\<close> arithmetic proves range lemmas
  that keep its intermediate values inside \<open>i64_ok\<close>, so the wrap-around of a release build is
  never reached. Unsigned types whose bits are manipulated are words of their width. \<open>usize\<close>
  indices are naturals.
\<close>

type_synonym i64 = int
type_synonym u8 = "8 word"
type_synonym u32 = "32 word"
type_synonym u64 = "64 word"
type_synonym u128 = "128 word"
type_synonym usize = nat
type_synonym bytes = "8 word list"

definition i64_ok :: "int \<Rightarrow> bool" where
  "i64_ok x \<longleftrightarrow> - (2 ^ 63) \<le> x \<and> x < 2 ^ 63"

named_theorems consts_simps \<open>values of the numeric constants of the sources\<close>
named_theorems range_intros \<open>range facts of the field operations\<close>
named_theorems zq_simps \<open>operations of the sources as arithmetic modulo a prime\<close>
named_theorems len_simps \<open>lengths of the arrays the operations return\<close>

section \<open>Truncated remainder\<close>

text \<open>Rust's \<open>%\<close> on signed integers truncates towards zero; \<open>rem_euclid\<close> is \<open>mod\<close>.\<close>

lemma smod_nonneg:
  fixes a b :: int
  assumes "0 \<le> a" "0 < b"
  shows "a smod b = a mod b"
  using assms by (cases "a = 0") (simp_all add: modulo_int_def signed_modulo_int_def signed_divide_int_def divide_int_def
      sgn_if minus_div_mult_eq_mod [symmetric])

lemma smod_adjust_mod:
  fixes a b :: int
  assumes "0 < b"
  shows "(if a smod b < 0 then a smod b + b else a smod b) = a mod b"
proof (cases "0 \<le> a")
  case True
  with assms have "a smod b = a mod b" "0 \<le> a mod b" by (simp_all add: smod_nonneg)
  then show ?thesis by simp
next
  case False
  then have sm: "a smod b = - ((- a) mod b)"
    using assms by (simp add: signed_modulo_int_def signed_divide_int_def minus_div_mult_eq_mod [symmetric] sgn_if)
  show ?thesis
  proof (cases "(- a) mod b = 0")
    case True
    then have "b dvd a" by (simp add: mod_eq_0_iff_dvd)
    with True sm show ?thesis by simp
  next
    case False
    then have "a mod b = b - (- a) mod b"
      using zmod_zminus1_eq_if [of "- a" b] by simp
    moreover have "0 < (- a) mod b" using False assms by (simp add: order_less_le)
    ultimately show ?thesis by (simp add: sm)
  qed
qed

end
