(* ===== verification/Prime_Mod.thy ===== *)
theory Prime_Mod
  imports QLSA_Prelude Complex_Main
begin

text \<open>
  Arithmetic modulo a prime, for the two primes of the program (the ML-DSA modulus and the
  Mersenne prime of the STARK field): Euclid's lemma, Fermat's little theorem, trial division,
  and cancellation. Square-and-multiply loops and inverses of the sources rest on it.
\<close>

definition is_prime :: "nat \<Rightarrow> bool" where
  "is_prime p \<longleftrightarrow> 1 < p \<and> (\<forall>d\<in>{2..<p}. \<not> d dvd p)"

lemma is_primeD: "is_prime p \<Longrightarrow> d dvd p \<Longrightarrow> d = 1 \<or> d = p"
proof -
  assume p: "is_prime p" and d: "d dvd p"
  then have "0 < p" by (simp add: is_prime_def)
  with d have "0 < d" "d \<le> p" by (auto intro: dvd_imp_le dvd_pos_nat)
  moreover have "d \<notin> {2..<p}" using p d by (auto simp: is_prime_def)
  ultimately show ?thesis by auto
qed

lemma is_prime_gt1: "is_prime p \<Longrightarrow> 1 < p"
  by (simp add: is_prime_def)

lemma prime_coprime: "is_prime p \<Longrightarrow> \<not> p dvd a \<Longrightarrow> coprime p a"
  by (metis coprime_iff_gcd_eq_1 gcd_dvd1 gcd_dvd2 is_primeD)

lemma prime_dvd_mult: "is_prime p \<Longrightarrow> p dvd a * b \<Longrightarrow> p dvd a \<or> p dvd b" for a b :: nat
  using prime_coprime coprime_dvd_mult_right_iff by blast

lemma prime_dvd_mult_int:
  fixes a b :: int
  assumes "is_prime p" "int p dvd a * b"
  shows "int p dvd a \<or> int p dvd b"
  using assms prime_dvd_mult [of p "nat \<bar>a\<bar>" "nat \<bar>b\<bar>"]
  by (simp add: nat_abs_mult_distrib flip: dvd_nat_abs_iff) 

subsection \<open>Fermat\<close>

lemma prime_dvd_binomial:
  assumes p: "is_prime p" and k: "0 < k" "k < p"
  shows "p dvd (p choose k)"
proof -
  have "k * (p choose k) = p * ((p - 1) choose (k - 1))"
    using k by (metis Suc_diff_1 binomial_absorption)
  then have "p dvd k * (p choose k)" by simp
  then have "p dvd k \<or> p dvd (p choose k)" by (rule prime_dvd_mult [OF p])
  with k show ?thesis by (auto dest: dvd_imp_le)
qed

lemma freshman:
  assumes p: "is_prime p"
  shows "(a + 1) ^ p mod p = (a ^ p + 1) mod p"
proof -
  have p0: "0 < p" using p by (simp add: is_prime_def)
  have "(a + 1) ^ p = (\<Sum>k\<le>p. (p choose k) * a ^ k)"
    using binomial_ring [of a 1 p] by simp
  also have "{..p} = insert 0 (insert p {1..<p})" using p0 by auto
  also have "(\<Sum>k\<in>insert 0 (insert p {1..<p}). (p choose k) * a ^ k)
      = 1 + (a ^ p + (\<Sum>k\<in>{1..<p}. (p choose k) * a ^ k))"
    using p0 by simp
  finally have e: "(a + 1) ^ p = a ^ p + 1 + (\<Sum>k\<in>{1..<p}. (p choose k) * a ^ k)" by simp
  have "p dvd (\<Sum>k\<in>{1..<p}. (p choose k) * a ^ k)"
    by (rule dvd_sum) (auto intro!: dvd_mult2 prime_dvd_binomial [OF p])
  then show ?thesis unfolding e by (metis mod_add_right_eq dvd_imp_mod_0 add_0_right)
qed

lemma fermat_nat: "is_prime p \<Longrightarrow> a ^ p mod p = a mod p"
proof (induction a)
  case 0
  then show ?case using is_prime_gt1 [of p] by (simp add: power_0_left)
next
  case (Suc a)
  have "Suc a ^ p mod p = (a ^ p + 1) mod p" using freshman [OF Suc.prems, of a] by simp
  also have "\<dots> = (a mod p + 1) mod p" using Suc by (metis mod_add_left_eq)
  finally show ?case by (simp add: mod_add_left_eq mod_Suc_eq)
qed

lemma fermat_int:
  fixes a :: int
  assumes p: "is_prime p"
  shows "a ^ p mod int p = a mod int p"
proof -
  have p0: "0 < int p" using is_prime_gt1 [OF p] by simp
  define b where "b = nat (a mod int p)"
  have b: "int b = a mod int p" using p0 by (simp add: b_def)
  have "a ^ p mod int p = int b ^ p mod int p" by (simp add: b power_mod)
  also have "\<dots> = int (b ^ p mod p)" by (simp add: zmod_int)
  also have "\<dots> = int (b mod p)" using fermat_nat [OF p] by simp
  finally show ?thesis by (simp add: zmod_int b)
qed

lemma prime_cancel:
  fixes a x y :: int
  assumes p: "is_prime p" and a: "\<not> int p dvd a"
    and e: "a * x mod int p = a * y mod int p"
  shows "x mod int p = y mod int p"
proof -
  have "int p dvd a * (x - y)"
    using e by (simp add: mod_eq_dvd_iff right_diff_distrib)
  then have "int p dvd x - y" using prime_dvd_mult_int [OF p] a by blast
  then show ?thesis by (simp add: mod_eq_dvd_iff)
qed

lemma fermat_little:
  fixes a :: int
  assumes p: "is_prime p" and a: "\<not> int p dvd a"
  shows "a ^ (p - 1) mod int p = 1"
proof -
  have p1: "1 < p" using is_prime_gt1 [OF p] .
  have "a * a ^ (p - 1) mod int p = a * 1 mod int p"
    using fermat_int [OF p, of a] p1 by (simp flip: power_Suc)
  from prime_cancel [OF p a this] p1 show ?thesis by simp
qed

subsection \<open>Powers at numeral exponents\<close>

text \<open>Square-and-multiply over the binary numeral of the exponent: evaluates by \<open>simp\<close>.\<close>

primrec pow_num :: "int \<Rightarrow> int \<Rightarrow> num \<Rightarrow> int" where
  "pow_num p b num.One = b mod p"
| "pow_num p b (num.Bit0 n) = (let r = pow_num p b n in r * r mod p)"
| "pow_num p b (num.Bit1 n) = (let r = pow_num p b n in (r * r mod p) * b mod p)"

lemma pow_num_mod: "b ^ numeral n mod p = pow_num p b n"
proof (induction n)
  case (Bit0 n)
  have "b ^ numeral (num.Bit0 n) mod p = (b ^ numeral n mod p) * (b ^ numeral n mod p) mod p"
    unfolding numeral_Bit0 power_add mod_mult_eq ..
  with Bit0 show ?case by (simp add: Let_def)
next
  case (Bit1 n)
  have "b ^ numeral (num.Bit1 n) mod p = ((b ^ numeral n mod p) * (b ^ numeral n mod p) mod p) * b mod p"
    unfolding numeral_Bit1 power_add power_one_right by (metis mod_mult_eq mod_mult_left_eq)
  with Bit1 show ?case by (simp add: Let_def)
qed simp

subsection \<open>Primality from the order of an element\<close>

text \<open>
  If some power of \<open>a\<close> is one modulo the modulus, the exponent shares its order with every
  prime factor \<open>r\<close>; few candidates for \<open>r\<close> remain below the square root.
\<close>

lemma pow_gcd_one:
  fixes a :: int
  assumes x: "a ^ x mod m = 1" and y: "a ^ y mod m = 1" and x0: "x \<noteq> 0" and m: "1 < m"
  shows "a ^ gcd x y mod m = 1"
proof -
  obtain u v where "x * u = y * v + gcd x y" using bezout_nat [OF x0] by blast
  then have "(a ^ x) ^ u = (a ^ y) ^ v * a ^ gcd x y"
    by (metis power_add power_mult)
  moreover have "(a ^ x) ^ u mod m = 1" "(a ^ y) ^ v mod m = 1"
    using x y m by (metis power_mod power_one mod_pos_pos_trivial zero_le_one)+
  ultimately show ?thesis by (metis mod_mult_left_eq mult_1)
qed

lemma prime_factor_exists: "1 < n \<Longrightarrow> \<exists>r. is_prime r \<and> r dvd n \<and> (n = r \<or> r * r \<le> n)"
proof -
  assume n: "1 < n"
  define r where "r = (LEAST d. 1 < d \<and> d dvd n)"
  have r: "1 < r \<and> r dvd n" unfolding r_def by (rule LeastI [of _ n]) (use n in simp)
  have least: "r \<le> d" if "1 < d" "d dvd n" for d unfolding r_def using that by (simp add: Least_le)
  have "is_prime r"
    unfolding is_prime_def using r least by (fastforce dest: dvd_trans)
  moreover have "n = r \<or> r * r \<le> n"
  proof -
    obtain e where e: "n = r * e" using r by blast
    show ?thesis
    proof (cases "e = 1")
      case False
      with e n have "1 < e" by (cases e) auto
      then have "r \<le> e" using least [of e] e by simp
      then show ?thesis using e by simp
    qed (simp add: e)
  qed
  ultimately show ?thesis using r by blast
qed

lemma is_prime_by_factors:
  assumes n: "1 < n" and f: "\<And>r. is_prime r \<Longrightarrow> r dvd n \<Longrightarrow> r * r \<le> n \<Longrightarrow> False"
  shows "is_prime n"
  using prime_factor_exists [OF n] f by blast

lemma mod_dvd_one:
  fixes x :: int
  assumes "x mod n = 1" "r dvd n" "1 < r"
  shows "x mod r = 1"
  using assms by (metis mod_mod_cancel mod_pos_pos_trivial zero_le_one)

lemma order_dvd_prime:
  fixes a :: int
  assumes r: "is_prime r" "r dvd n" and x: "a ^ x mod int n = 1" "x \<noteq> 0"
  shows "a ^ gcd x (r - 1) mod int r = 1"
proof -
  have r1: "1 < int r" using is_prime_gt1 [OF r(1)] by simp
  have "a ^ x mod int r = 1" using mod_dvd_one [OF x(1) _ r1] r(2) by simp
  moreover have "\<not> int r dvd a"
  proof
    assume "int r dvd a"
    then have "int r dvd a ^ x" using x(2) by (cases x) simp_all
    with calculation show False by simp
  qed
  then have "a ^ (r - 1) mod int r = 1" by (rule fermat_little [OF r(1)])
  ultimately show ?thesis using x(2) r1 by (simp add: pow_gcd_one)
qed

lemma dvd_pow2_Suc: "d dvd 2 ^ Suc n \<Longrightarrow> d dvd 2 ^ n \<or> d = 2 ^ Suc n" for d :: nat
proof -
  assume "d dvd 2 ^ Suc n"
  then obtain e where e: "2 ^ Suc n = d * e" by blast
  show ?thesis
  proof (cases "even e")
    case True
    then obtain e' where "e = 2 * e'" by blast
    with e have "2 ^ n = d * e'" by simp
    then show ?thesis by simp
  next
    case False
    then have "coprime e (2 ^ Suc n)" by simp
    moreover have "e dvd 2 ^ Suc n" unfolding e by simp
    ultimately have "e = 1" by (metis coprime_common_divisor_nat dvd_refl)
    with e show ?thesis by simp
  qed
qed

end
