(* ===== verification/MLDSA_Field.thy ===== *)
theory MLDSA_Field
  imports Prime_Mod
begin

text \<open>
  The ML-DSA-65 constants (\<open>mldsa/mod.rs\<close>, \<open>mldsa/params.rs\<close>) and the arithmetic of
  \<open>Z_q\<close> (\<open>mldsa/field.rs\<close>). The \<open>debug_assert!\<close> range checks of \<open>add\<close>, \<open>sub\<close> and \<open>mul\<close> are
  not compiled into a release build; the lemmas in \<open>range_intros\<close> show that results stay in
  \<open>[0, Q)\<close>, so that the assertions hold at every call the development models.
\<close>

section \<open>Constants\<close>

definition Q :: int where "Q = 8380417"
definition N :: nat where "N = 256"
definition ZETA :: int where "ZETA = 1753"
definition N_INV :: int where "N_INV = 8347681"

definition K :: nat where "K = 6"
definition L :: nat where "L = 5"
definition ETA :: int where "ETA = 4"
definition TAU :: nat where "TAU = 49"
definition BETA :: int where "BETA = 196"
definition GAMMA1 :: int where "GAMMA1 = push_bit 19 1"
definition GAMMA2 :: int where "GAMMA2 = (Q - 1) sdiv 32"
definition D :: nat where "D = 13"
definition LAMBDA :: nat where "LAMBDA = 192"
definition LAMBDA_BYTES :: nat where "LAMBDA_BYTES = LAMBDA div 4"
definition OMEGA :: nat where "OMEGA = 55"
definition M :: int where "M = (Q - 1) sdiv (2 * GAMMA2)"
definition T1_BITS :: nat where "T1_BITS = 10"
definition Z_BITS :: nat where "Z_BITS = 20"
definition W1_BITS :: nat where "W1_BITS = 4"
definition PK_BYTES :: nat where "PK_BYTES = 32 + K * (N * T1_BITS div 8)"
definition SIG_BYTES :: nat where
  "SIG_BYTES = LAMBDA_BYTES + L * (N * Z_BITS div 8) + OMEGA + K"

lemma Q_val [consts_simps]: "Q = 8380417" by (simp add: Q_def)
lemma N_val [consts_simps]: "N = 256" by (simp add: N_def)
lemma GAMMA1_val [consts_simps]: "GAMMA1 = 524288" by (simp add: GAMMA1_def)
lemma GAMMA2_val [consts_simps]: "GAMMA2 = 261888"
  by (simp add: GAMMA2_def Q_def signed_divide_int_def)
lemma M_val [consts_simps]: "M = 16"
  by (simp add: M_def GAMMA2_val Q_def signed_divide_int_def)
lemma LAMBDA_BYTES_val [consts_simps]: "LAMBDA_BYTES = 48"
  by (simp add: LAMBDA_BYTES_def LAMBDA_def)
lemma PK_BYTES_val [consts_simps]: "PK_BYTES = 1952"
  by (simp add: PK_BYTES_def K_def N_def T1_BITS_def)
lemma SIG_BYTES_val [consts_simps]: "SIG_BYTES = 3309"
  by (simp add: SIG_BYTES_def LAMBDA_BYTES_val L_def N_def Z_BITS_def OMEGA_def K_def)

lemmas dim_defs = K_def L_def N_def TAU_def BETA_def D_def OMEGA_def
  T1_BITS_def Z_BITS_def W1_BITS_def

lemma Q_pos [simp, intro]: "0 < Q" "0 \<le> Q" "1 < Q" by (simp_all add: Q_def)

lemma N_pos [simp, intro]: "0 < N" by (simp add: N_def)

section \<open>Operations\<close>

definition field_reduce :: "i64 \<Rightarrow> i64" where
  "field_reduce a = (let r = a smod Q in if r < 0 then r + Q else r)"

definition reduce_centered :: "i64 \<Rightarrow> i64" where
  "reduce_centered a = (let r = field_reduce a in if r > Q sdiv 2 then r - Q else r)"

definition field_add :: "i64 \<Rightarrow> i64 \<Rightarrow> i64" where
  "field_add a b = (let r = a + b in if r \<ge> Q then r - Q else r)"

definition field_sub :: "i64 \<Rightarrow> i64 \<Rightarrow> i64" where
  "field_sub a b = (let r = a - b in if r < 0 then r + Q else r)"

definition field_mul :: "i64 \<Rightarrow> i64 \<Rightarrow> i64" where
  "field_mul a b = (a * b) smod Q"

text \<open>The loop of \<open>pow\<close>; the exponent is a \<open>u64\<close>, so \<open>& 1\<close> and \<open>>>= 1\<close> are its parity and half.\<close>

function field_pow_loop :: "i64 \<Rightarrow> i64 \<Rightarrow> nat \<Rightarrow> i64" where
  "field_pow_loop result base e =
     (if e > 0
      then field_pow_loop (if e AND 1 = 1 then (result * base) smod Q else result)
             ((base * base) smod Q) (drop_bit 1 e)
      else result)"
  by pat_completeness auto
termination
  by (relation "measure (\<lambda>(r, b, e). e)") (simp_all add: drop_bit_Suc drop_bit_eq_div)

definition field_pow :: "i64 \<Rightarrow> nat \<Rightarrow> i64" where
  "field_pow base e = field_pow_loop 1 (field_reduce base) e"

text \<open>\<open>inv\<close> asserts that its argument is not zero; a failed assertion is \<open>None\<close>.\<close>

definition field_inv :: "i64 \<Rightarrow> i64 option" where
  "field_inv a = (let a = field_reduce a in
     if a \<noteq> 0 then Some (field_pow a (nat (Q - 2))) else None)"

declare field_pow_loop.simps [simp del]

section \<open>The field operations are arithmetic modulo q\<close>

definition in_zq :: "int \<Rightarrow> bool" where
  "in_zq a \<longleftrightarrow> 0 \<le> a \<and> a < Q"

lemma in_zqI [intro?]: "0 \<le> a \<Longrightarrow> a < Q \<Longrightarrow> in_zq a" by (simp add: in_zq_def)

lemma in_zq_mod [simp, range_intros]: "in_zq (a mod Q)" by (simp add: in_zq_def)

lemma in_zq_zero [simp, range_intros]: "in_zq 0" by (simp add: in_zq_def)

lemma mod_in_zq [simp]: "in_zq a \<Longrightarrow> a mod Q = a" by (simp add: in_zq_def)

lemma in_zq_eqI: "in_zq a \<Longrightarrow> in_zq b \<Longrightarrow> a mod Q = b mod Q \<Longrightarrow> a = b"
  by simp

lemma field_reduce_mod [zq_simps]: "field_reduce a = a mod Q"
  using smod_adjust_mod [of Q a] by (simp add: field_reduce_def Let_def)

lemma field_add_mod [zq_simps]: "in_zq a \<Longrightarrow> in_zq b \<Longrightarrow> field_add a b = (a + b) mod Q"
proof -
  assume "in_zq a" "in_zq b"
  then have "(a + b) mod Q = (if Q \<le> a + b then a + b - Q else a + b)"
    unfolding in_zq_def
    by (smt (verit) minus_mod_self2 mod_pos_pos_trivial)
  then show ?thesis by (simp add: field_add_def Let_def)
qed

lemma field_sub_mod [zq_simps]: "in_zq a \<Longrightarrow> in_zq b \<Longrightarrow> field_sub a b = (a - b) mod Q"
proof -
  assume "in_zq a" "in_zq b"
  then have "(a - b) mod Q = (if a - b < 0 then a - b + Q else a - b)"
    unfolding in_zq_def
    by (smt (verit) mod_add_self2 mod_pos_pos_trivial)
  then show ?thesis by (simp add: field_sub_def Let_def)
qed

lemma field_mul_mod [zq_simps]: "in_zq a \<Longrightarrow> in_zq b \<Longrightarrow> field_mul a b = (a * b) mod Q"
  by (simp add: field_mul_def in_zq_def smod_nonneg)

lemma field_ranges [range_intros]:
  "in_zq (field_reduce a)"
  "in_zq a \<Longrightarrow> in_zq b \<Longrightarrow> in_zq (field_add a b)"
  "in_zq a \<Longrightarrow> in_zq b \<Longrightarrow> in_zq (field_sub a b)"
  "in_zq a \<Longrightarrow> in_zq b \<Longrightarrow> in_zq (field_mul a b)"
  by (simp_all add: zq_simps)

lemma field_mul_i64: "in_zq a \<Longrightarrow> in_zq b \<Longrightarrow> i64_ok (a * b)"
proof -
  assume ab: "in_zq a" "in_zq b"
  then have "a * b \<le> Q * Q" "0 \<le> a * b" by (auto simp: in_zq_def intro!: mult_mono)
  then show ?thesis by (simp add: i64_ok_def Q_def)
qed

section \<open>Centered representatives\<close>

lemma reduce_centered_cong: "reduce_centered a mod Q = a mod Q"
  by (simp add: reduce_centered_def zq_simps Let_def)

lemma Q_sdiv_2 [consts_simps]: "Q sdiv 2 = 4190208"
  by (simp add: Q_def signed_divide_int_def)

lemma reduce_centered_range: "- (Q div 2) \<le> reduce_centered a \<and> reduce_centered a \<le> Q div 2"
proof -
  have "a mod Q < Q" "0 \<le> a mod Q" by simp_all
  then show ?thesis
    by (auto simp: reduce_centered_def zq_simps Let_def Q_sdiv_2) (simp_all add: Q_def)
qed

section \<open>Exponentiation and inverses\<close>

lemma field_pow_loop_mod:
  "in_zq base \<Longrightarrow> in_zq result \<Longrightarrow>
   field_pow_loop result base e = (result * base ^ e) mod Q"
proof (induction result base e rule: field_pow_loop.induct)
  case (1 result base e)
  show ?case
  proof (cases "e > 0")
    case False
    with 1 show ?thesis by (simp add: field_pow_loop.simps)
  next
    case True
    define r' where "r' = (if e AND 1 = 1 then (result * base) smod Q else result)"
    define b' where "b' = (base * base) smod Q"
    have b': "b' = base\<^sup>2 mod Q" and zb: "in_zq b'"
      using field_mul_mod [OF "1.prems"(1) "1.prems"(1)]
      by (simp_all add: b'_def field_mul_def power2_eq_square)
    have zr: "in_zq r'" and r': "r' = (if odd e then result * base mod Q else result)"
      using field_mul_mod [OF "1.prems"(2) "1.prems"(1)] "1.prems"
      by (auto simp: r'_def field_mul_def and_one_eq odd_iff_mod_2_eq_one)
    have "field_pow_loop result base e = field_pow_loop r' b' (drop_bit 1 e)"
      using True by (subst field_pow_loop.simps) (simp add: r'_def b'_def)
    also have "\<dots> = (r' * b' ^ (drop_bit 1 e)) mod Q"
      using "1.IH" [OF True] zb zr by (simp add: r'_def b'_def)
    also have "\<dots> = (r' * base ^ (2 * (e div 2))) mod Q"
      unfolding b' drop_bit_eq_div power_mult [of base 2]
      by (metis mod_mult_right_eq power_mod power_one_right)
    also have "\<dots> = (result * base ^ e) mod Q"
    proof (cases "odd e")
      case True
      then have "base ^ e = base * base ^ (2 * (e div 2))"
        by (metis odd_two_times_div_two_succ power_Suc Suc_eq_plus1)
      with True show ?thesis by (simp add: r' mod_mult_left_eq mult.assoc)
    qed (simp add: r')
    finally show ?thesis .
  qed
qed

lemma field_pow_mod [zq_simps]: "field_pow base e = base ^ e mod Q"
proof -
  have "in_zq 1" by (simp add: in_zq_def)
  then show ?thesis
    by (simp add: field_pow_def field_reduce_mod field_pow_loop_mod power_mod)
qed

lemma field_pow_range [range_intros]: "in_zq (field_pow base e)"
  by (simp add: zq_simps)

lemma zeta_256: "ZETA ^ 256 mod Q = Q - 1"
  unfolding pow_num_mod by (simp add: ZETA_def Q_def)

lemma zeta_512: "ZETA ^ 512 mod Q = 1"
  unfolding pow_num_mod by (simp add: ZETA_def Q_def)

text \<open>
  \<open>q\<close> is prime: \<open>ZETA\<close> has order 512 modulo every prime factor \<open>r\<close>, so \<open>r = 512 k + 1\<close>,
  and none of these below the square root divides \<open>q\<close>.
\<close>

lemma Q_prime: "is_prime (nat Q)"
proof (rule is_prime_by_factors)
  show "1 < nat Q" by (simp add: Q_def)
next
  fix r assume r: "is_prime r" "r dvd nat Q" "r * r \<le> nat Q"
  have r1: "1 < r" using is_prime_gt1 [OF r(1)] .
  have g: "ZETA ^ gcd 512 (r - 1) mod int r = 1"
    by (rule order_dvd_prime [OF r(1,2)]) (use zeta_512 in \<open>simp_all add: Q_def\<close>)
  have "\<not> gcd 512 (r - 1) dvd 256"
  proof
    assume "gcd 512 (r - 1) dvd 256"
    then obtain k where "256 = gcd 512 (r - 1) * k" by blast
    then have "ZETA ^ 256 mod int r = 1"
      using g r1 by (metis mod_pos_pos_trivial of_nat_1 of_nat_less_iff
          power_mod power_mult power_one zero_le_one)
    then have "int r dvd ZETA ^ 256 - 1"
      using r1 by (metis mod_eq_dvd_iff mod_pos_pos_trivial of_nat_1 of_nat_less_iff zero_le_one)
    moreover have "int r dvd ZETA ^ 256 + 1"
    proof -
      have "(ZETA ^ 256 + 1) mod Q = 0"
        using zeta_256 by (metis diff_add_cancel mod_add_left_eq mod_self)
      then have "Q dvd ZETA ^ 256 + 1" by (rule mod_0_imp_dvd)
      moreover have "int r dvd Q" using r(2) by (metis Q_pos(2) int_dvd_int_iff nat_0_le)
      ultimately show ?thesis by (rule dvd_trans [rotated])
    qed
    ultimately have "int r dvd (ZETA ^ 256 + 1) - (ZETA ^ 256 - 1)" by (rule dvd_diff [rotated])
    then have "int r dvd 2" by simp
    then have "r = 2" using r1 by (auto dest!: zdvd_imp_le)
    with r(2) show False by (simp add: Q_def)
  qed
  then have "gcd 512 (r - 1) = 512" using dvd_pow2_Suc [of "gcd 512 (r - 1)" 8] by simp
  then have "512 dvd r - 1" by (metis gcd_dvd2)
  then obtain k where k: "r = 512 * k + 1" using r1 by (metis dvdE le_add_diff_inverse2 less_imp_le)
  have "k < 6"
  proof (rule ccontr)
    assume "\<not> k < 6"
    then have "3073 \<le> r" using k by simp
    from mult_le_mono [OF this this] r(3) show False by (simp add: Q_def)
  qed
  then have "k \<in> {0, 1, 2, 3, 4, 5}" by auto
  with k r1 r(2) show False by (auto simp: Q_def)
qed

lemma field_inv_Some:
  assumes "a mod Q \<noteq> 0"
  obtains b where "field_inv a = Some b" "in_zq b" "a * b mod Q = 1"
proof -
  have Qn: "int (nat Q) = Q" by simp
  have "\<not> int (nat Q) dvd a" using assms by (simp add: dvd_eq_mod_eq_0)
  from fermat_little [OF Q_prime this] have f: "a ^ (nat Q - 1) mod Q = 1" by simp
  have "a * (a ^ nat (Q - 2)) = a ^ (nat Q - 1)"
    by (simp add: Q_def flip: power_Suc)
  with f have "a * field_pow (field_reduce a) (nat (Q - 2)) mod Q = 1"
    by (simp add: zq_simps power_mod mod_mult_right_eq)
  then show thesis
    using assms that [of "field_pow (field_reduce a) (nat (Q - 2))"]
    by (simp add: field_inv_def zq_simps Let_def)
qed

lemma field_inv_None: "field_inv a = None \<longleftrightarrow> Q dvd a"
  by (simp add: field_inv_def zq_simps Let_def dvd_eq_mod_eq_0)

section \<open>Properties\<close>

text \<open>
  \<open>inv\<close> panics exactly on the multiples of \<open>q\<close>; on every other argument it returns the
  canonical representative of the inverse (its exponent \<open>q - 2\<close> is right because \<open>q\<close> is prime).
\<close>

lemma field_inv_correct:
  "case field_inv a of None \<Rightarrow> Q dvd a | Some b \<Rightarrow> in_zq b \<and> a * b mod Q = 1"
proof (cases "a mod Q = 0")
  case True
  then have "field_inv a = None" "Q dvd a" by (simp_all add: field_inv_None mod_0_imp_dvd)
  then show ?thesis by simp
next
  case False
  then obtain b where "field_inv a = Some b" "in_zq b" "a * b mod Q = 1" by (rule field_inv_Some)
  then show ?thesis by simp
qed

end
