(* ===== verification/MLDSA_NTT.thy ===== *)
theory MLDSA_NTT
  imports MLDSA_Field
begin

text \<open>
  The forward and inverse number-theoretic transforms of \<open>mldsa/ntt.rs\<close>: the twiddle tables,
  the in-place butterfly loops and the pointwise product, followed by the functional description
  of one stage (\<open>ct_stage\<close>, \<open>gs_stage\<close>) and the proof that the nested loops compute the
  composition of the eight stages.
\<close>

section \<open>Twiddle tables\<close>

text \<open>\<open>u8::reverse_bits\<close> on the value of a byte.\<close>

definition u8_reverse_bits :: "nat \<Rightarrow> nat" where
  "u8_reverse_bits k = foldl (\<lambda>acc i. 2 * acc + k div 2 ^ i mod 2) 0 [0..<8]"

definition zeta_fwd :: "i64 list" where
  "zeta_fwd = map (\<lambda>k. field_pow ZETA (u8_reverse_bits k)) [0..<256]"

definition zeta_inv :: "i64 list" where
  "zeta_inv = map (\<lambda>k. field_pow ZETA ((512 - u8_reverse_bits k) mod 512)) [0..<256]"

section \<open>The loops\<close>

text \<open>Body of the innermost loop of \<open>ntt\<close>: assignments in the order of the source.\<close>

definition ct_butterfly :: "i64 \<Rightarrow> usize \<Rightarrow> i64 list \<Rightarrow> usize \<Rightarrow> i64 list" where
  "ct_butterfly zeta len f j =
     (let t = field_mul zeta (f ! (j + len));
          fj = f ! j;
          f = f[j := fj + t];
          f = (if f ! j \<ge> Q then f[j := f ! j - Q] else f);
          f = f[j + len := fj - t]
      in if f ! (j + len) < 0 then f[j + len := f ! (j + len) + Q] else f)"

text \<open>
  The loop over \<open>start\<close> of one stage; it returns the running twiddle index with the array. The
  guard \<open>0 < len\<close> is the condition of the enclosing loop, which alone makes the step positive.
\<close>

function ntt_blocks :: "i64 list \<Rightarrow> usize \<Rightarrow> usize \<Rightarrow> usize \<Rightarrow> i64 list \<Rightarrow> usize \<times> i64 list" where
  "ntt_blocks zetas len start k f =
     (if start < N \<and> 0 < len
      then ntt_blocks zetas len (start + 2 * len) (k + 1)
             (foldl (ct_butterfly (zetas ! k) len) f [start..<start + len])
      else (k, f))"
  by pat_completeness auto
termination
  by (relation "measure (\<lambda>(zetas, len, start, k, f). N - start)") auto

function ntt_stages :: "i64 list \<Rightarrow> usize \<Rightarrow> usize \<Rightarrow> i64 list \<Rightarrow> i64 list" where
  "ntt_stages zetas len k f =
     (if len \<ge> 1
      then (let (k', f') = ntt_blocks zetas len 0 k f in ntt_stages zetas (drop_bit 1 len) k' f')
      else f)"
  by pat_completeness auto
termination
  by (relation "measure (\<lambda>(zetas, len, k, f). len)") (simp_all add: drop_bit_Suc drop_bit_eq_div)

definition ntt :: "i64 list \<Rightarrow> i64 list" where
  "ntt f = ntt_stages zeta_fwd 128 1 f"

definition gs_butterfly :: "i64 \<Rightarrow> usize \<Rightarrow> i64 list \<Rightarrow> usize \<Rightarrow> i64 list" where
  "gs_butterfly zeta_inv_k len f j =
     (let t = f ! j;
          f = f[j := t + f ! (j + len)];
          f = (if f ! j \<ge> Q then f[j := f ! j - Q] else f);
          diff = t - f ! (j + len);
          diff = (if diff < 0 then diff + Q else diff)
      in f[j + len := field_mul zeta_inv_k diff])"

function ntt_inv_blocks :: "i64 list \<Rightarrow> usize \<Rightarrow> usize \<Rightarrow> usize \<Rightarrow> i64 list \<Rightarrow> i64 list" where
  "ntt_inv_blocks inv_zetas len start k f =
     (if start < N \<and> 0 < len
      then ntt_inv_blocks inv_zetas len (start + 2 * len) (k + 1)
             (foldl (gs_butterfly (inv_zetas ! k) len) f [start..<start + len])
      else f)"
  by pat_completeness auto
termination
  by (relation "measure (\<lambda>(zetas, len, start, k, f). N - start)") auto

text \<open>
  The loop over \<open>len\<close> of \<open>ntt_inv\<close> doubles \<open>len\<close> while it is at most 128; it is entered with
  \<open>len = 1\<close>, so the guard \<open>0 < len\<close> holds throughout.
\<close>

function ntt_inv_stages :: "i64 list \<Rightarrow> usize \<Rightarrow> i64 list \<Rightarrow> i64 list" where
  "ntt_inv_stages inv_zetas len f =
     (if len \<le> 128 \<and> 0 < len
      then ntt_inv_stages inv_zetas (push_bit 1 len)
             (ntt_inv_blocks inv_zetas len 0 (N div (2 * len)) f)
      else f)"
  by pat_completeness auto
termination
  by (relation "measure (\<lambda>(zetas, len, f). 129 - len)") (auto simp: push_bit_eq_mult)

definition ntt_inv :: "i64 list \<Rightarrow> i64 list" where
  "ntt_inv f = map (\<lambda>c. field_mul c N_INV) (ntt_inv_stages zeta_inv 1 f)"

definition pointwise_mul :: "i64 list \<Rightarrow> i64 list \<Rightarrow> i64 list" where
  "pointwise_mul a b = map (\<lambda>i. field_mul (a ! i) (b ! i)) [0..<256]"

declare ntt_blocks.simps [simp del] ntt_stages.simps [simp del]
  ntt_inv_blocks.simps [simp del] ntt_inv_stages.simps [simp del]

section \<open>Arrays of field elements\<close>

definition zq_poly :: "int list \<Rightarrow> bool" where
  "zq_poly f \<longleftrightarrow> length f = 256 \<and> (\<forall>x\<in>set f. in_zq x)"

lemma zq_poly_length [len_simps]: "zq_poly f \<Longrightarrow> length f = 256"
  by (simp add: zq_poly_def)

lemma zq_poly_nth [range_intros]: "zq_poly f \<Longrightarrow> i < 256 \<Longrightarrow> in_zq (f ! i)"
  by (simp add: zq_poly_def)

lemma zq_poly_map [range_intros]:
  "(\<And>i. i < 256 \<Longrightarrow> in_zq (g i)) \<Longrightarrow> zq_poly (map g [0..<256])"
  by (auto simp: zq_poly_def)

lemma zq_poly_update [range_intros]: "zq_poly f \<Longrightarrow> in_zq x \<Longrightarrow> zq_poly (f[i := x])"
  by (auto simp: zq_poly_def dest: set_update_subset_insert [THEN subsetD])

lemma zq_poly_eqI:
  assumes "length f = 256" "length g = 256" "\<And>i. i < 256 \<Longrightarrow> f ! i = g ! i"
  shows "f = g"
  using assms by (simp add: list_eq_iff_nth_eq)

section \<open>Loops of disjoint pair updates\<close>

text \<open>
  Both butterflies read the pair at \<open>j\<close> and \<open>j + len\<close> and write the same two cells. A loop over
  \<open>len\<close> consecutive \<open>j\<close> touches each pair once, so every cell ends with a value computed from the
  array the loop started with.
\<close>

definition pair_update :: "(int \<Rightarrow> int \<Rightarrow> int) \<Rightarrow> (int \<Rightarrow> int \<Rightarrow> int) \<Rightarrow> nat \<Rightarrow> int list \<Rightarrow> nat \<Rightarrow> int list" where
  "pair_update g h len f j = f[j := g (f ! j) (f ! (j + len)), j + len := h (f ! j) (f ! (j + len))]"

definition pair_at :: "(int \<Rightarrow> int \<Rightarrow> int) \<Rightarrow> (int \<Rightarrow> int \<Rightarrow> int) \<Rightarrow> nat \<Rightarrow> int list \<Rightarrow> nat \<Rightarrow> int" where
  "pair_at g h len f i =
     (if i mod (2 * len) < len then g (f ! i) (f ! (i + len)) else h (f ! (i - len)) (f ! i))"

lemma length_pair_update [simp]: "length (pair_update g h len f j) = length f"
  by (simp add: pair_update_def)

lemma length_pair_loop [simp]: "length (foldl (pair_update g h len) f js) = length f"
  by (induction js arbitrary: f) simp_all

lemma pair_loop_nth:
  assumes "m \<le> len" "start + len + m \<le> length f" "i < length f"
  shows "foldl (pair_update g h len) f [start..<start + m] ! i =
    (if start \<le> i \<and> i < start + m then g (f ! i) (f ! (i + len))
     else if start + len \<le> i \<and> i < start + len + m then h (f ! (i - len)) (f ! i)
     else f ! i)"
  using assms
proof (induction m arbitrary: i)
  case 0
  then show ?case by simp
next
  case (Suc m)
  define F where "F = foldl (pair_update g h len) f [start..<start + m]"
  have len: "length F = length f" by (simp add: F_def)
  have l: "F ! (start + m) = f ! (start + m)" "F ! (start + m + len) = f ! (start + m + len)"
    using Suc by (simp_all add: F_def)
  have step: "foldl (pair_update g h len) f [start..<start + Suc m] =
    F[start + m := g (f ! (start + m)) (f ! (start + m + len)),
      start + m + len := h (f ! (start + m)) (f ! (start + m + len))]"
    using l by (simp add: F_def pair_update_def)
  have "F ! i = (if start \<le> i \<and> i < start + m then g (f ! i) (f ! (i + len))
     else if start + len \<le> i \<and> i < start + len + m then h (f ! (i - len)) (f ! i) else f ! i)"
    unfolding F_def by (rule Suc.IH) (use Suc.prems in auto)
  then show ?case unfolding step
    using Suc.prems len by (auto simp: nth_list_update)
qed

text \<open>One full block, addressed by the offset within it.\<close>

lemma pair_block_nth:
  assumes len: "0 < len" and s: "2 * len dvd start" and b: "start + 2 * len \<le> length f"
    and i: "i < length f"
  shows "foldl (pair_update g h len) f [start..<start + len] ! i =
    (if start \<le> i \<and> i < start + 2 * len then pair_at g h len f i else f ! i)"
proof -
  have m: "i mod (2 * len) = i - start" if "start \<le> i" "i < start + 2 * len"
  proof -
    obtain q where "start = 2 * len * q" using s by blast
    with that have "i = (i - start) + (2 * len) * q" "i - start < 2 * len" by auto
    then show ?thesis by (metis mod_less mod_mult_self2)
  qed
  show ?thesis
    using assms m by (subst pair_loop_nth) (auto simp: pair_at_def)
qed


text \<open>
  All blocks of a stage, with the pair functions indexed by the twiddle counter \<open>k\<close>: the common
  shape of the block loops of \<open>ntt\<close> and \<open>ntt_inv\<close>.
\<close>

function pair_blocks ::
  "(nat \<Rightarrow> int \<Rightarrow> int \<Rightarrow> int) \<Rightarrow> (nat \<Rightarrow> int \<Rightarrow> int \<Rightarrow> int) \<Rightarrow> nat \<Rightarrow> nat \<Rightarrow> nat \<Rightarrow> int list \<Rightarrow> int list" where
  "pair_blocks g h len start k f =
     (if start < N \<and> 0 < len
      then pair_blocks g h len (start + 2 * len) (k + 1)
             (foldl (pair_update (g k) (h k) len) f [start..<start + len])
      else f)"
  by pat_completeness auto
termination
  by (relation "measure (\<lambda>(g, h, len, start, k, f). N - start)") auto

declare pair_blocks.simps [simp del]

lemma length_pair_blocks [simp]: "length (pair_blocks g h len start k f) = length f"
proof (induction g h len start k f rule: pair_blocks.induct)
  case (1 g h len start k f)
  then show ?case by (subst pair_blocks.simps) simp
qed

lemma pair_at_cong:
  assumes "0 < len" "2 * len dvd 256" "i < 256"
    and eq: "\<And>j. j < 256 \<Longrightarrow> j div (2 * len) = i div (2 * len) \<Longrightarrow> F ! j = f ! j"
  shows "pair_at g h len F i = pair_at g h len f i"
proof -
  define b r where "b = i div (2 * len)" and "r = i mod (2 * len)"
  have i: "i = 2 * len * b + r" and r: "r < 2 * len" using assms(1) by (simp_all add: b_def r_def)
  obtain m where m: "256 = 2 * len * m" using assms(2) by blast
  have "b < m" using assms(1,3) i r m by (metis add_lessD1 mult_less_cancel1)
  then have top: "2 * len * b + 2 * len \<le> 256"
    using m by (metis Suc_leI mult_Suc_right mult_le_mono2 add.commute)
  have blk: "(2 * len * b + s) div (2 * len) = b" if "s < 2 * len" for s using that assms(1) by simp
  show ?thesis
  proof (cases "r < len")
    case True
    then have "F ! i = f ! i" "F ! (i + len) = f ! (i + len)"
      using top i r blk [of "r + len"] assms(3) by (auto intro!: eq simp: b_def [symmetric] add.assoc)
    with True show ?thesis by (simp add: pair_at_def r_def [symmetric])
  next
    case False
    then have e: "i - len = 2 * len * b + (r - len)" using i by simp
    have "F ! i = f ! i" "F ! (i - len) = f ! (i - len)"
      using assms(3) i r blk [of "r - len"] unfolding e by (auto intro!: eq simp: b_def [symmetric])
    with False show ?thesis by (simp add: pair_at_def r_def [symmetric])
  qed
qed

lemma pair_blocks_nth:
  assumes "0 < len" "2 * len dvd start" "2 * len dvd 256" "length f = 256" "i < 256"
  shows "pair_blocks g h len start k f ! i =
    (if start \<le> i
     then pair_at (g (k + (i - start) div (2 * len))) (h (k + (i - start) div (2 * len))) len f i
     else f ! i)"
  using assms
proof (induction g h len start k f rule: pair_blocks.induct)
  case (1 g h len start k f)
  show ?case
  proof (cases "start < 256")
    case False
    then show ?thesis using 1 by (subst pair_blocks.simps) (simp add: N_def)
  next
    case True
    define F where "F = foldl (pair_update (g k) (h k) len) f [start..<start + len]"
    have fit: "start + 2 * len \<le> 256"
      using True "1.prems" by (metis add.commute dvd_imp_le dvd_diff_nat zero_less_diff le_diff_conv2 less_or_eq_imp_le)
    have F: "F ! j = (if start \<le> j \<and> j < start + 2 * len then pair_at (g k) (h k) len f j else f ! j)"
      if "j < 256" for j
      unfolding F_def by (rule pair_block_nth) (use "1.prems" fit that in auto)
    have "pair_blocks g h len start k f ! i = pair_blocks g h len (start + 2 * len) (k + 1) F ! i"
      using True "1.prems"(1) by (subst pair_blocks.simps) (simp add: F_def N_def)
    also have "\<dots> = (if start + 2 * len \<le> i
       then pair_at (g (k + 1 + (i - (start + 2 * len)) div (2 * len)))
              (h (k + 1 + (i - (start + 2 * len)) div (2 * len))) len F i
       else F ! i)"
      unfolding F_def by (rule "1.IH") (use True "1.prems" in \<open>auto simp: N_def\<close>)
    also have "\<dots> = (if start \<le> i
     then pair_at (g (k + (i - start) div (2 * len))) (h (k + (i - start) div (2 * len))) len f i
     else f ! i)"
    proof (cases "start + 2 * len \<le> i")
      case True
      have "(i - start) div (2 * len) = Suc ((i - (start + 2 * len)) div (2 * len))"
        using True "1.prems"(1) by (subst le_div_geq) auto
      moreover have "pair_at u v len F i = pair_at u v len f i" for u v
      proof (rule pair_at_cong)
        fix j assume j: "j < 256" "j div (2 * len) = i div (2 * len)"
        obtain q where "start = 2 * len * q" using "1.prems"(2) by blast
        with True j "1.prems"(1) have "start + 2 * len \<le> j"
          using div_le_mono [OF True, of "2 * len"] by (simp flip: j(2))
            (metis add.commute le_trans mult.commute mult_Suc times_div_less_eq_dividend mult_le_mono2)
        then show "F ! j = f ! j" using F [OF j(1)] by simp
      qed (use "1.prems" in auto)
      ultimately show ?thesis using True by simp
    next
      case False
      then show ?thesis using F [OF "1.prems"(5)] by auto
    qed
    finally show ?thesis .
  qed
qed


section \<open>Stages\<close>

text \<open>
  \<open>ct_stage len f\<close> and \<open>gs_stage len f\<close> describe one pass of the transforms over an array of
  field elements; block \<open>b\<close> of a stage uses the twiddle number \<open>N / (2 len) + b\<close>.
\<close>

definition ct_up :: "int \<Rightarrow> int \<Rightarrow> int \<Rightarrow> int" where
  "ct_up z u v = (u + z * v) mod Q"

definition ct_dn :: "int \<Rightarrow> int \<Rightarrow> int \<Rightarrow> int" where
  "ct_dn z u v = (u - z * v) mod Q"

definition gs_up :: "int \<Rightarrow> int \<Rightarrow> int \<Rightarrow> int" where
  "gs_up z u v = (u + v) mod Q"

definition gs_dn :: "int \<Rightarrow> int \<Rightarrow> int \<Rightarrow> int" where
  "gs_dn z u v = z * (u - v) mod Q"

definition stage :: "(int \<Rightarrow> int \<Rightarrow> int \<Rightarrow> int) \<Rightarrow> (int \<Rightarrow> int \<Rightarrow> int \<Rightarrow> int) \<Rightarrow> int list \<Rightarrow> nat \<Rightarrow> int list \<Rightarrow> int list" where
  "stage g h zs len f =
     map (\<lambda>i. let z = zs ! (128 div len + i div (2 * len)) in pair_at (g z) (h z) len f i) [0..<256]"

definition ct_stage :: "nat \<Rightarrow> int list \<Rightarrow> int list" where
  "ct_stage = stage ct_up ct_dn zeta_fwd"

definition gs_stage :: "nat \<Rightarrow> int list \<Rightarrow> int list" where
  "gs_stage = stage gs_up gs_dn zeta_inv"

definition stage_lens :: "nat list" where
  "stage_lens = [128, 64, 32, 16, 8, 4, 2, 1]"

lemma length_stage [simp]: "length (stage g h zs len f) = 256"
  by (simp add: stage_def)

lemma length_ct_gs_stage [simp]: "length (ct_stage len f) = 256" "length (gs_stage len f) = 256"
  by (simp_all add: ct_stage_def gs_stage_def)

lemma zeta_fwd_nth: "k < 256 \<Longrightarrow> zeta_fwd ! k = ZETA ^ u8_reverse_bits k mod Q"
  by (simp add: zeta_fwd_def zq_simps)

lemma zeta_inv_nth: "k < 256 \<Longrightarrow> zeta_inv ! k = ZETA ^ ((512 - u8_reverse_bits k) mod 512) mod Q"
  by (simp add: zeta_inv_def zq_simps)

lemma zq_poly_zeta [range_intros]: "zq_poly zeta_fwd" "zq_poly zeta_inv"
  unfolding zeta_fwd_def zeta_inv_def by (intro zq_poly_map; simp add: range_intros)+

lemma zq_poly_stage:
  assumes "\<And>z u v. in_zq (g z u v)" "\<And>z u v. in_zq (h z u v)"
  shows "zq_poly (stage g h zs len f)"
  unfolding stage_def by (intro zq_poly_map) (simp add: pair_at_def Let_def assms)

lemma zq_poly_ct_stage [range_intros]: "zq_poly (ct_stage len f)"
  unfolding ct_stage_def by (intro zq_poly_stage) (simp_all add: ct_up_def ct_dn_def)

lemma zq_poly_gs_stage [range_intros]: "zq_poly (gs_stage len f)"
  unfolding gs_stage_def by (intro zq_poly_stage) (simp_all add: gs_up_def gs_dn_def)

section \<open>The butterflies are pair updates\<close>

lemma ct_butterfly_pair:
  assumes "zq_poly f" "in_zq z" "0 < len" "j + len < 256"
  shows "ct_butterfly z len f j = pair_update (ct_up z) (ct_dn z) len f j"
proof -
  define t where "t = field_mul z (f ! (j + len))"
  have l: "j < length f" "j + len < length f" using assms by (simp_all add: zq_poly_length)
  have t: "in_zq t" "t = z * f ! (j + len) mod Q" and fj: "in_zq (f ! j)"
    using assms by (simp_all add: t_def zq_simps zq_poly_nth)
  have "ct_butterfly z len f j = f[j := field_add (f ! j) t, j + len := field_sub (f ! j) t]"
    using l assms(3) by (simp add: ct_butterfly_def t_def [symmetric] field_add_def field_sub_def Let_def)
  then show ?thesis
    using t fj by (simp add: pair_update_def ct_up_def ct_dn_def zq_simps mod_add_right_eq mod_diff_right_eq)
qed

lemma gs_butterfly_pair:
  assumes "zq_poly f" "in_zq z" "0 < len" "j + len < 256"
  shows "gs_butterfly z len f j = pair_update (gs_up z) (gs_dn z) len f j"
proof -
  have l: "j < length f" "j + len < length f" using assms by (simp_all add: zq_poly_length)
  have fj: "in_zq (f ! j)" "in_zq (f ! (j + len))"
    using assms by (simp_all add: zq_poly_nth)
  have "gs_butterfly z len f j =
      f[j := field_add (f ! j) (f ! (j + len)), j + len := field_mul z (field_sub (f ! j) (f ! (j + len)))]"
    using l assms(3) by (simp add: gs_butterfly_def field_add_def field_sub_def Let_def)
  then show ?thesis
    using fj assms(2)
    by (simp add: pair_update_def gs_up_def gs_dn_def zq_simps mod_mult_right_eq)
qed

lemma pair_loop_cong:
  assumes B: "\<And>f j. zq_poly f \<Longrightarrow> j + len < 256 \<Longrightarrow> B f j = pair_update g h len f j"
    and r: "\<And>u v. in_zq (g u v)" "\<And>u v. in_zq (h u v)"
    and f: "zq_poly f" and js: "\<And>j. j \<in> set js \<Longrightarrow> j + len < 256"
  shows "foldl B f js = foldl (pair_update g h len) f js \<and> zq_poly (foldl B f js)"
  using f js
proof (induction js arbitrary: f)
  case (Cons j js)
  have "B f j = pair_update g h len f j" using Cons.prems by (simp add: B)
  moreover have "zq_poly (pair_update g h len f j)"
    using Cons.prems r by (simp add: pair_update_def zq_poly_update)
  moreover have "foldl B (pair_update g h len f j) js = foldl (pair_update g h len) (pair_update g h len f j) js
      \<and> zq_poly (foldl B (pair_update g h len f j) js)"
    using calculation Cons.prems by (intro Cons.IH) simp_all
  ultimately show ?case by (metis foldl_Cons)
qed simp

text \<open>One stage of the loops, from the first block on.\<close>

lemma stage_eq_pair_blocks:
  assumes "0 < len" "2 * len dvd 256" "length f = 256"
  shows "pair_blocks (\<lambda>k. g (zs ! k)) (\<lambda>k. h (zs ! k)) len 0 (128 div len) f = stage g h zs len f"
  by (rule zq_poly_eqI) (use assms in \<open>simp_all add: pair_blocks_nth stage_def Let_def\<close>)

lemma block_fits: "start < 256 \<Longrightarrow> 2 * len dvd start \<Longrightarrow> 2 * len dvd 256 \<Longrightarrow> start + 2 * len \<le> 256"
  for start len :: nat
  by (metis add.commute dvd_imp_le dvd_diff_nat zero_less_diff le_diff_conv2 less_or_eq_imp_le)


lemma ntt_blocks_eq:
  assumes "zq_poly f" "0 < len" "2 * len dvd 256" "2 * len dvd start" "start \<le> 256"
    "k + (256 - start) div (2 * len) \<le> 256"
  shows "ntt_blocks zeta_fwd len start k f =
    (k + (256 - start) div (2 * len),
     pair_blocks (\<lambda>k. ct_up (zeta_fwd ! k)) (\<lambda>k. ct_dn (zeta_fwd ! k)) len start k f)"
  using assms
proof (induction "zeta_fwd" len start k f rule: ntt_blocks.induct)
  case (1 len start k f)
  show ?case
  proof (cases "start < 256")
    case False
    then show ?thesis using 1
      by (subst ntt_blocks.simps, subst pair_blocks.simps) (simp add: N_def)
  next
    case True
    have fit: "start + 2 * len \<le> 256" using block_fits True "1.prems" by blast
    have n: "(256 - start) div (2 * len) = Suc ((256 - (start + 2 * len)) div (2 * len))"
      using fit "1.prems"(2) by (subst le_div_geq) auto
    have z: "in_zq (zeta_fwd ! k)"
      using n "1.prems" by (intro zq_poly_nth zq_poly_zeta) simp
    have fold: "foldl (ct_butterfly (zeta_fwd ! k) len) f [start..<start + len] =
        foldl (pair_update (ct_up (zeta_fwd ! k)) (ct_dn (zeta_fwd ! k)) len) f [start..<start + len]
      \<and> zq_poly (foldl (ct_butterfly (zeta_fwd ! k) len) f [start..<start + len])"
      by (rule pair_loop_cong [OF ct_butterfly_pair])
        (use z "1.prems" fit in \<open>auto simp: ct_up_def ct_dn_def\<close>)
    have ih: "ntt_blocks zeta_fwd len (start + 2 * len) (k + 1)
        (foldl (ct_butterfly (zeta_fwd ! k) len) f [start..<start + len]) =
      (k + 1 + (256 - (start + 2 * len)) div (2 * len),
       pair_blocks (\<lambda>k. ct_up (zeta_fwd ! k)) (\<lambda>k. ct_dn (zeta_fwd ! k)) len (start + 2 * len) (k + 1)
        (foldl (ct_butterfly (zeta_fwd ! k) len) f [start..<start + len]))"
      by (rule "1.hyps") (use True fold fit n "1.prems" in \<open>auto simp: N_def\<close>)
    show ?thesis
      using True "1.prems"(2) ih fold n
      by (subst ntt_blocks.simps, subst pair_blocks.simps) (simp add: N_def)
  qed
qed

lemma ntt_inv_blocks_eq:
  assumes "zq_poly f" "0 < len" "2 * len dvd 256" "2 * len dvd start" "start \<le> 256"
    "k + (256 - start) div (2 * len) \<le> 256"
  shows "ntt_inv_blocks zeta_inv len start k f =
     pair_blocks (\<lambda>k. gs_up (zeta_inv ! k)) (\<lambda>k. gs_dn (zeta_inv ! k)) len start k f"
  using assms
proof (induction "zeta_inv" len start k f rule: ntt_inv_blocks.induct)
  case (1 len start k f)
  show ?case
  proof (cases "start < 256")
    case False
    then show ?thesis using 1
      by (subst ntt_inv_blocks.simps, subst pair_blocks.simps) (simp add: N_def)
  next
    case True
    have fit: "start + 2 * len \<le> 256" using block_fits True "1.prems" by blast
    have n: "(256 - start) div (2 * len) = Suc ((256 - (start + 2 * len)) div (2 * len))"
      using fit "1.prems"(2) by (subst le_div_geq) auto
    have z: "in_zq (zeta_inv ! k)"
      using n "1.prems" by (intro zq_poly_nth zq_poly_zeta) simp
    have fold: "foldl (gs_butterfly (zeta_inv ! k) len) f [start..<start + len] =
        foldl (pair_update (gs_up (zeta_inv ! k)) (gs_dn (zeta_inv ! k)) len) f [start..<start + len]
      \<and> zq_poly (foldl (gs_butterfly (zeta_inv ! k) len) f [start..<start + len])"
      by (rule pair_loop_cong [OF gs_butterfly_pair])
        (use z "1.prems" fit in \<open>auto simp: gs_up_def gs_dn_def\<close>)
    have ih: "ntt_inv_blocks zeta_inv len (start + 2 * len) (k + 1)
        (foldl (gs_butterfly (zeta_inv ! k) len) f [start..<start + len]) =
       pair_blocks (\<lambda>k. gs_up (zeta_inv ! k)) (\<lambda>k. gs_dn (zeta_inv ! k)) len (start + 2 * len) (k + 1)
        (foldl (gs_butterfly (zeta_inv ! k) len) f [start..<start + len])"
      by (rule "1.hyps") (use True fold fit n "1.prems" in \<open>auto simp: N_def\<close>)
    show ?thesis
      using True "1.prems"(2) ih fold n
      by (subst ntt_inv_blocks.simps, subst pair_blocks.simps) (simp add: N_def)
  qed
qed

section \<open>The transforms are the composition of their stages\<close>

lemma stage_lens_cases: "len \<in> set stage_lens \<Longrightarrow> 0 < len \<and> 2 * len dvd 256 \<and> 256 div (2 * len) = 128 div len
    \<and> 2 * (128 div len) \<le> 256 \<and> len \<le> 128"
  by (auto simp: stage_lens_def)

lemma ntt_stages_step:
  assumes "zq_poly f" "len \<in> set stage_lens"
  shows "ntt_stages zeta_fwd len (128 div len) f =
    ntt_stages zeta_fwd (len div 2) (2 * (128 div len)) (ct_stage len f)"
proof -
  note l = stage_lens_cases [OF assms(2)]
  have "ntt_blocks zeta_fwd len 0 (128 div len) f = (2 * (128 div len), ct_stage len f)"
    using l assms(1) by (subst ntt_blocks_eq)
      (simp_all add: stage_eq_pair_blocks zq_poly_length ct_stage_def flip: mult_2)
  then show ?thesis
    using l by (subst ntt_stages.simps) (simp add: drop_bit_eq_div)
qed

lemma ntt_inv_stages_step:
  assumes "zq_poly f" "len \<in> set stage_lens"
  shows "ntt_inv_stages zeta_inv len f = ntt_inv_stages zeta_inv (2 * len) (gs_stage len f)"
proof -
  note l = stage_lens_cases [OF assms(2)]
  have "ntt_inv_blocks zeta_inv len 0 (N div (2 * len)) f = gs_stage len f"
    using l assms(1) by (subst ntt_inv_blocks_eq)
      (simp_all add: stage_eq_pair_blocks zq_poly_length gs_stage_def N_def flip: mult_2)
  then show ?thesis
    using l by (subst ntt_inv_stages.simps) (simp add: push_bit_eq_mult mult.commute)
qed

lemma ntt_stages_done: "ntt_stages zs 0 k f = f"
  by (subst ntt_stages.simps) simp

lemma ntt_inv_stages_done: "ntt_inv_stages zs 256 f = f"
  by (subst ntt_inv_stages.simps) simp

lemma ntt_eq_stages: "zq_poly f \<Longrightarrow> ntt f = foldl (\<lambda>f len. ct_stage len f) f stage_lens"
  using ntt_stages_step [of f 128] ntt_stages_step [of _ 64] ntt_stages_step [of _ 32]
    ntt_stages_step [of _ 16] ntt_stages_step [of _ 8] ntt_stages_step [of _ 4]
    ntt_stages_step [of _ 2] ntt_stages_step [of _ 1]
  by (simp add: ntt_def stage_lens_def zq_poly_ct_stage ntt_stages_done)

lemma ntt_inv_eq_stages:
  "zq_poly f \<Longrightarrow> ntt_inv f =
     map (\<lambda>c. c * N_INV mod Q) (foldl (\<lambda>f len. gs_stage len f) f (rev stage_lens))"
proof -
  assume f: "zq_poly f"
  have "ntt_inv_stages zeta_inv 1 f = foldl (\<lambda>f len. gs_stage len f) f (rev stage_lens)"
    using f ntt_inv_stages_step [of f 1] ntt_inv_stages_step [of _ 2] ntt_inv_stages_step [of _ 4]
      ntt_inv_stages_step [of _ 8] ntt_inv_stages_step [of _ 16] ntt_inv_stages_step [of _ 32]
      ntt_inv_stages_step [of _ 64] ntt_inv_stages_step [of _ 128]
    by (simp add: stage_lens_def zq_poly_gs_stage ntt_inv_stages_done)
  moreover have "zq_poly (foldl (\<lambda>f len. gs_stage len f) f (rev stage_lens))"
    by (simp add: stage_lens_def zq_poly_gs_stage)
  moreover have "in_zq N_INV" by (simp add: in_zq_def N_INV_def Q_def)
  ultimately show ?thesis
    by (simp add: ntt_inv_def zq_poly_def field_mul_mod cong: map_cong)
qed

lemma zq_poly_ntt [range_intros]: "zq_poly f \<Longrightarrow> zq_poly (ntt f)"
  by (simp add: ntt_eq_stages stage_lens_def zq_poly_ct_stage)

lemma zq_poly_ntt_inv [range_intros]: "zq_poly f \<Longrightarrow> zq_poly (ntt_inv f)"
  by (simp add: ntt_inv_eq_stages stage_lens_def) (simp add: zq_poly_def)

lemma zq_poly_pointwise [range_intros]:
  "zq_poly f \<Longrightarrow> zq_poly g \<Longrightarrow> zq_poly (pointwise_mul f g)"
  unfolding pointwise_mul_def by (intro zq_poly_map field_ranges zq_poly_nth)

end
