(* ===== verification/MLDSA_NTT_Correct.thy ===== *)
theory MLDSA_NTT_Correct
  imports MLDSA_NTT
begin

text \<open>
  Correctness of the transforms of \<open>mldsa/ntt.rs\<close>: every stage of the inverse undoes the matching
  stage of the forward transform up to a factor two, so the transforms are mutually inverse; and
  the forward transform evaluates its input at the 256 odd powers of \<open>ZETA\<close>, the roots of
  \<open>X^256 + 1\<close>.
\<close>

section \<open>Twiddle factors\<close>

abbreviation tw :: "nat \<Rightarrow> int" where
  "tw k \<equiv> ZETA ^ u8_reverse_bits k"

lemma u8_reverse_bits_expand:
  "u8_reverse_bits k = 128 * (k mod 2) + 64 * (k div 2 mod 2) + 32 * (k div 4 mod 2)
     + 16 * (k div 8 mod 2) + 8 * (k div 16 mod 2) + 4 * (k div 32 mod 2)
     + 2 * (k div 64 mod 2) + k div 128 mod 2"
  by (simp add: u8_reverse_bits_def upt_rec)

lemma u8_reverse_bits_bound: "u8_reverse_bits k < 256"
proof -
  have "k div d mod 2 \<le> 1" for d :: nat by (simp add: less_Suc_eq_le [symmetric] numeral_2_eq_2 [symmetric])
  from this [of 1] this [of 2] this [of 4] this [of 8] this [of 16] this [of 32] this [of 64] this [of 128]
  show ?thesis unfolding u8_reverse_bits_expand by (simp only: div_by_1)
qed

lemma u8_reverse_bits_double:
  assumes "k < 128"
  shows "2 * u8_reverse_bits (2 * k) = u8_reverse_bits k"
    and "2 * u8_reverse_bits (2 * k + 1) = u8_reverse_bits k + 256"
proof -
  have d: "(2 * k) div 2 = k" "(2 * k) div 4 = k div 2" "(2 * k) div 8 = k div 4"
    "(2 * k) div 16 = k div 8" "(2 * k) div 32 = k div 16" "(2 * k) div 64 = k div 32"
    "(2 * k) div 128 = k div 64" "k div 128 = 0"
    "(2 * k + 1) div 2 = k" "(2 * k + 1) div 4 = k div 2" "(2 * k + 1) div 8 = k div 4"
    "(2 * k + 1) div 16 = k div 8" "(2 * k + 1) div 32 = k div 16" "(2 * k + 1) div 64 = k div 32"
    "(2 * k + 1) div 128 = k div 64"
    using assms by linarith+
  show "2 * u8_reverse_bits (2 * k) = u8_reverse_bits k"
    unfolding u8_reverse_bits_expand d by simp
  show "2 * u8_reverse_bits (2 * k + 1) = u8_reverse_bits k + 256"
    unfolding u8_reverse_bits_expand d by simp
qed

lemma tw_sq_even: "k < 128 \<Longrightarrow> tw (2 * k) ^ 2 mod Q = tw k mod Q"
  by (metis power_mult mult.commute u8_reverse_bits_double(1))

lemma tw_sq_odd: "k < 128 \<Longrightarrow> tw (2 * k + 1) ^ 2 mod Q = (- tw k) mod Q"
proof -
  assume k: "k < 128"
  have "tw (2 * k + 1) ^ 2 = tw k * ZETA ^ 256"
    using u8_reverse_bits_double(2) [OF k] by (simp add: power_mult [symmetric] mult.commute power_add [symmetric])
  then have "tw (2 * k + 1) ^ 2 mod Q = tw k * (Q - 1) mod Q"
    by (metis mod_mult_right_eq zeta_256)
  also have "\<dots> = (- tw k + tw k * Q) mod Q" by (simp add: right_diff_distrib)
  finally show ?thesis unfolding mod_mult_self1 .
qed

lemma tw_one: "tw 1 ^ 2 mod Q = (- 1) mod Q"
proof -
  have "u8_reverse_bits 1 = 128" by (simp add: u8_reverse_bits_expand)
  then have "tw 1 ^ 2 mod Q = ZETA ^ 256 mod Q" by (simp flip: power_mult)
  then show ?thesis using zeta_256 by (simp add: Q_def)
qed

lemma zeta_tables_inverse:
  assumes "k < 256"
  shows "zeta_fwd ! k * zeta_inv ! k mod Q = 1"
proof -
  have "(512 - u8_reverse_bits k) mod 512 + u8_reverse_bits k = (if u8_reverse_bits k = 0 then 0 else 512)"
    using u8_reverse_bits_bound [of k] by auto
  then have "tw k * ZETA ^ ((512 - u8_reverse_bits k) mod 512) mod Q = 1"
    using zeta_512 by (simp add: power_add [symmetric] add.commute Q_def split: if_splits)
  then show ?thesis using assms by (simp add: zeta_fwd_nth zeta_inv_nth mod_mult_eq)
qed

section \<open>Stages that undo each other\<close>

text \<open>
  The contract between the two transforms: stage \<open>B\<close> undoes stage \<open>A\<close> up to a factor two and is
  linear. A tower of stages then undoes the mirrored tower up to a power of two.
\<close>

definition scale_all :: "int \<Rightarrow> int list \<Rightarrow> int list" where
  "scale_all c f = map (\<lambda>x. c * x mod Q) f"

lemma scale_all_scale_all: "scale_all c (scale_all d f) = scale_all (c * d) f"
  by (simp add: scale_all_def o_def mod_mult_right_eq mult.assoc)

lemma length_scale_all [simp]: "length (scale_all c f) = length f"
  by (simp add: scale_all_def)

lemma zq_poly_scale_all [range_intros]: "zq_poly f \<Longrightarrow> zq_poly (scale_all c f)"
  by (auto simp: scale_all_def zq_poly_def)

lemma scale_all_one: "zq_poly f \<Longrightarrow> scale_all 1 f = f"
  unfolding scale_all_def by (rule map_idI) (simp add: zq_poly_def)

locale stage_tower =
  fixes A B :: "nat \<Rightarrow> int list \<Rightarrow> int list"
  assumes zq_A: "zq_poly (A len f)"
    and undo: "zq_poly f \<Longrightarrow> len \<in> set stage_lens \<Longrightarrow> B len (A len f) = scale_all 2 f"
    and linear: "zq_poly f \<Longrightarrow> len \<in> set stage_lens \<Longrightarrow> B len (scale_all c f) = scale_all c (B len f)"
begin

lemma tower:
  "zq_poly f \<Longrightarrow> set ls \<subseteq> set stage_lens \<Longrightarrow>
   foldl (\<lambda>f len. B len f) (foldl (\<lambda>f len. A len f) f ls) (rev ls) = scale_all (2 ^ length ls) f"
proof (induction ls arbitrary: f)
  case Nil
  then show ?case by (simp add: scale_all_one)
next
  case (Cons l ls)
  have "foldl (\<lambda>f len. B len f) (foldl (\<lambda>f len. A len f) f (l # ls)) (rev (l # ls))
      = B l (scale_all (2 ^ length ls) (A l f))"
    using Cons zq_A by simp
  also have "\<dots> = scale_all (2 ^ length ls) (scale_all 2 f)"
    using Cons.prems zq_A by (simp add: linear undo)
  finally show ?case by (simp add: scale_all_scale_all mult.commute)
qed

end

lemma stage_nth:
  "i < 256 \<Longrightarrow> stage g h zs len f ! i =
     pair_at (g (zs ! (128 div len + i div (2 * len)))) (h (zs ! (128 div len + i div (2 * len)))) len f i"
  by (simp add: stage_def Let_def)

text \<open>Positions of a stage: the partner of an upper cell is \<open>len\<close> below it in the same block.\<close>

lemma stage_index:
  assumes l: "len \<in> set stage_lens" and i: "i < 256"
  shows "128 div len + i div (2 * len) < 256"
    and "i mod (2 * len) < len \<Longrightarrow> i + len < 256 \<and> (i + len) mod (2 * len) = i mod (2 * len) + len
          \<and> (i + len) div (2 * len) = i div (2 * len)"
    and "\<not> i mod (2 * len) < len \<Longrightarrow> len \<le> i \<and> (i - len) mod (2 * len) = i mod (2 * len) - len
          \<and> (i - len) div (2 * len) = i div (2 * len)"
proof -
  note L = stage_lens_cases [OF l]
  define b r where "b = i div (2 * len)" and "r = i mod (2 * len)"
  have e: "i = 2 * len * b + r" and r: "r < 2 * len" using L by (simp_all add: b_def r_def)
  obtain m where m: "256 = 2 * len * m" using L by blast
  have bm: "b < m" using L i e r m by (metis add_lessD1 mult_less_cancel1)
  then have top: "2 * len * b + 2 * len \<le> 256"
    using m by (metis Suc_leI mult_Suc_right mult_le_mono2 add.commute)
  have "128 div len = m" using m L by (metis nonzero_mult_div_cancel_left mult_is_0 zero_neq_numeral)
  moreover have "m \<le> 128" using m L by (cases len) auto
  ultimately show "128 div len + i div (2 * len) < 256" using bm by (simp add: b_def)
  have blk: "(2 * len * b + s) div (2 * len) = b \<and> (2 * len * b + s) mod (2 * len) = s" if "s < 2 * len" for s
    using that L by simp
  show "i + len < 256 \<and> (i + len) mod (2 * len) = i mod (2 * len) + len
          \<and> (i + len) div (2 * len) = i div (2 * len)" if "i mod (2 * len) < len"
    using that top e r blk [of "r + len"] by (simp add: b_def [symmetric] r_def [symmetric] add.assoc)
  show "len \<le> i \<and> (i - len) mod (2 * len) = i mod (2 * len) - len
          \<and> (i - len) div (2 * len) = i div (2 * len)" if "\<not> i mod (2 * len) < len"
  proof -
    have "len \<le> r" using that by (simp add: r_def)
    then have "i - len = 2 * len * b + (r - len)" "len \<le> i" unfolding e by simp_all
    then show ?thesis using r blk [of "r - len"] by (simp add: b_def [symmetric] r_def [symmetric])
  qed
qed


lemma gs_ct_cell:
  assumes z: "z * zi mod Q = 1"
  shows "gs_up zi (ct_up z u v) (ct_dn z u v) = 2 * u mod Q"
    and "gs_dn zi (ct_up z u v) (ct_dn z u v) = 2 * v mod Q"
proof -
  show "gs_up zi (ct_up z u v) (ct_dn z u v) = 2 * u mod Q"
    by (simp add: gs_up_def ct_up_def ct_dn_def mod_add_eq)
  have "gs_dn zi (ct_up z u v) (ct_dn z u v) = zi * (u + z * v - (u - z * v)) mod Q"
    unfolding gs_dn_def ct_up_def ct_dn_def by (metis mod_diff_eq mod_mult_right_eq)
  also have "zi * (u + z * v - (u - z * v)) = z * zi * (2 * v)" by (simp add: algebra_simps)
  also have "\<dots> mod Q = 2 * v mod Q" by (metis mod_mult_left_eq mult_1 z)
  finally show "gs_dn zi (ct_up z u v) (ct_dn z u v) = 2 * v mod Q" .
qed

lemma ct_gs_cell:
  assumes z: "z * zi mod Q = 1"
  shows "ct_up z (gs_up zi u v) (gs_dn zi u v) = 2 * u mod Q"
    and "ct_dn z (gs_up zi u v) (gs_dn zi u v) = 2 * v mod Q"
proof -
  have e: "z * (zi * (u - v) mod Q) mod Q = (u - v) mod Q"
  proof -
    have "z * (zi * (u - v) mod Q) mod Q = z * zi * (u - v) mod Q"
      by (simp add: mod_mult_right_eq mult.assoc)
    then show ?thesis by (metis mod_mult_left_eq mult_1 z)
  qed
  have "ct_up z (gs_up zi u v) (gs_dn zi u v) = ((u + v) + (u - v)) mod Q"
    unfolding gs_up_def ct_up_def gs_dn_def by (metis e mod_add_eq mod_mod_trivial)
  then show "ct_up z (gs_up zi u v) (gs_dn zi u v) = 2 * u mod Q" by (simp add: algebra_simps)
  have "ct_dn z (gs_up zi u v) (gs_dn zi u v) = ((u + v) - (u - v)) mod Q"
    unfolding gs_up_def ct_dn_def gs_dn_def by (metis e mod_diff_eq mod_mod_trivial)
  then show "ct_dn z (gs_up zi u v) (gs_dn zi u v) = 2 * v mod Q" by (simp add: algebra_simps)
qed

lemma stage_undo:
  assumes f: "zq_poly f" and l: "len \<in> set stage_lens"
    and up: "\<And>k u v. k < 256 \<Longrightarrow> g (zs ! k) (g' (zs' ! k) u v) (h' (zs' ! k) u v) = 2 * u mod Q"
    and dn: "\<And>k u v. k < 256 \<Longrightarrow> h (zs ! k) (g' (zs' ! k) u v) (h' (zs' ! k) u v) = 2 * v mod Q"
  shows "stage g h zs len (stage g' h' zs' len f) = scale_all 2 f"
proof (rule zq_poly_eqI)
  fix i :: nat assume i: "i < 256"
  note ix = stage_index [OF l i]
  show "stage g h zs len (stage g' h' zs' len f) ! i = scale_all 2 f ! i"
  proof (cases "i mod (2 * len) < len")
    case True
    then show ?thesis using i ix f up [OF ix(1)] 
      by (simp add: stage_nth pair_at_def scale_all_def zq_poly_length)
  next
    case False
    then show ?thesis using i ix f dn [OF ix(1)] stage_lens_cases [OF l]
      by (simp add: stage_nth pair_at_def scale_all_def zq_poly_length)
        (metis le_add_diff_inverse2 mod_less_divisor less_diff_conv2 mult_2 nat_0_less_mult_iff not_less pos2)
  qed
qed (use f in \<open>simp_all add: zq_poly_length\<close>)

lemma stage_linear:
  assumes f: "zq_poly f" and l: "len \<in> set stage_lens"
    and g: "\<And>z u v. g z (c * u mod Q) (c * v mod Q) = c * g z u v mod Q"
    and h: "\<And>z u v. h z (c * u mod Q) (c * v mod Q) = c * h z u v mod Q"
  shows "stage g h zs len (scale_all c f) = scale_all c (stage g h zs len f)"
proof (rule zq_poly_eqI)
  fix i :: nat assume i: "i < 256"
  note ix = stage_index [OF l i]
  show "stage g h zs len (scale_all c f) ! i = scale_all c (stage g h zs len f) ! i"
    using i ix f g h by (cases "i mod (2 * len) < len")
      (simp_all add: stage_nth pair_at_def scale_all_def zq_poly_length)
qed (use f in \<open>simp_all add: zq_poly_length\<close>)

lemma cell_linear:
  "ct_up z (c * u mod Q) (c * v mod Q) = c * ct_up z u v mod Q"
  "ct_dn z (c * u mod Q) (c * v mod Q) = c * ct_dn z u v mod Q"
  "gs_up z (c * u mod Q) (c * v mod Q) = c * gs_up z u v mod Q"
  "gs_dn z (c * u mod Q) (c * v mod Q) = c * gs_dn z u v mod Q"
proof -
  have m: "z * (c * v mod Q) mod Q = c * (z * v) mod Q" for v
    by (metis mod_mult_right_eq mult.left_commute)
  show "ct_up z (c * u mod Q) (c * v mod Q) = c * ct_up z u v mod Q"
    unfolding ct_up_def mod_mult_right_eq distrib_left by (metis m mod_add_eq mod_add_left_eq)
  show "ct_dn z (c * u mod Q) (c * v mod Q) = c * ct_dn z u v mod Q"
    unfolding ct_dn_def mod_mult_right_eq right_diff_distrib by (metis m mod_diff_eq mod_diff_left_eq)
  show "gs_up z (c * u mod Q) (c * v mod Q) = c * gs_up z u v mod Q"
    unfolding gs_up_def mod_mult_right_eq distrib_left by (rule mod_add_eq)
  show "gs_dn z (c * u mod Q) (c * v mod Q) = c * gs_dn z u v mod Q"
    unfolding gs_dn_def by (metis m mod_diff_eq mod_mult_right_eq right_diff_distrib)
qed

interpretation intt_ntt: stage_tower ct_stage gs_stage
proof unfold_locales
  show "gs_stage len (ct_stage len f) = scale_all 2 f" if "zq_poly f" "len \<in> set stage_lens" for f len
    unfolding ct_stage_def gs_stage_def
    by (rule stage_undo) (use that gs_ct_cell zeta_tables_inverse in auto)
  show "gs_stage len (scale_all c f) = scale_all c (gs_stage len f)"
    if "zq_poly f" "len \<in> set stage_lens" for c f len
    unfolding gs_stage_def by (rule stage_linear) (use that cell_linear in auto)
qed (rule zq_poly_ct_stage)

interpretation ntt_intt: stage_tower gs_stage ct_stage
proof unfold_locales
  show "ct_stage len (gs_stage len f) = scale_all 2 f" if "zq_poly f" "len \<in> set stage_lens" for f len
    unfolding ct_stage_def gs_stage_def
    by (rule stage_undo) (use that ct_gs_cell zeta_tables_inverse in auto)
  show "ct_stage len (scale_all c f) = scale_all c (ct_stage len f)"
    if "zq_poly f" "len \<in> set stage_lens" for c f len
    unfolding ct_stage_def by (rule stage_linear) (use that cell_linear in auto)
qed (rule zq_poly_gs_stage)

section \<open>Round trips\<close>

lemma scale_all_N: "zq_poly f \<Longrightarrow> scale_all N_INV (scale_all 256 f) = f"
proof -
  assume f: "zq_poly f"
  have "scale_all (N_INV * 256) f = scale_all 1 f"
    unfolding scale_all_def
  proof (rule map_cong [OF refl])
    fix x
    have "N_INV * 256 * x mod Q = (N_INV * 256 mod Q) * x mod Q" by (simp add: mod_mult_left_eq)
    also have "N_INV * 256 mod Q = 1" by (simp add: N_INV_def Q_def)
    finally show "N_INV * 256 * x mod Q = 1 * x mod Q" .
  qed
  with f show ?thesis by (simp add: scale_all_scale_all scale_all_one)
qed

lemma ntt_inv_scale: "zq_poly f \<Longrightarrow>
  ntt_inv f = scale_all N_INV (foldl (\<lambda>f len. gs_stage len f) f (rev stage_lens))"
  by (simp add: ntt_inv_eq_stages scale_all_def mult.commute)

lemma ntt_inv_ntt: "zq_poly f \<Longrightarrow> ntt_inv (ntt f) = f"
  using intt_ntt.tower [of f stage_lens]
  by (simp add: ntt_inv_scale zq_poly_ntt) (simp add: ntt_eq_stages scale_all_N stage_lens_def)

lemma foldl_ct_linear:
  "zq_poly f \<Longrightarrow> set ls \<subseteq> set stage_lens \<Longrightarrow>
   foldl (\<lambda>f len. ct_stage len f) (scale_all c f) ls = scale_all c (foldl (\<lambda>f len. ct_stage len f) f ls)"
  by (induction ls arbitrary: f) (simp_all add: ntt_intt.linear zq_poly_ct_stage)

lemma ntt_ntt_inv: "zq_poly f \<Longrightarrow> ntt (ntt_inv f) = f"
proof -
  assume f: "zq_poly f"
  define g where "g = foldl (\<lambda>f len. gs_stage len f) f (rev stage_lens)"
  have g: "zq_poly g" by (simp add: g_def stage_lens_def zq_poly_gs_stage)
  have "ntt (ntt_inv f) = scale_all N_INV (foldl (\<lambda>f len. ct_stage len f) g stage_lens)"
    using f g by (simp add: ntt_inv_scale g_def [symmetric] ntt_eq_stages zq_poly_scale_all foldl_ct_linear)
  also have "foldl (\<lambda>f len. ct_stage len f) g stage_lens = scale_all (2 ^ length stage_lens) f"
    using ntt_intt.tower [OF f, of "rev stage_lens"] by (simp add: g_def)
  finally show ?thesis using f by (simp add: stage_lens_def scale_all_N)
qed

section \<open>Properties\<close>

text \<open>
  C6. The forward and the inverse transform are mutually inverse on arrays of 256 canonical
  residues, and the forward transform stays inside them.
\<close>

theorem ntt_roundtrip:
  assumes "zq_poly f"
  shows "ntt_inv (ntt f) = f \<and> ntt (ntt_inv f) = f \<and> zq_poly (ntt f)"
  using assms by (simp add: ntt_inv_ntt ntt_ntt_inv zq_poly_ntt)

theorem ntt_roundtrip_witness:
  "ntt_inv (ntt (replicate 256 5)) = replicate 256 5"
  using ntt_roundtrip [of "replicate 256 5"] by (simp add: zq_poly_def in_zq_def Q_def)

end
