(* ===== verification/MLDSA_NTT_Eval.thy ===== *)
theory MLDSA_NTT_Eval
  imports MLDSA_NTT_Correct
begin

text \<open>
  The forward transform as evaluation: entry \<open>i\<close> of \<open>ntt f\<close> is the value of the polynomial \<open>f\<close> at
  \<open>ntt_point i\<close>, a root of \<open>X^256 + 1\<close>. Pointwise products therefore correspond to products in
  \<open>Z_q[X] / (X^256 + 1)\<close>.
\<close>

section \<open>Congruences of sums\<close>

lemma sum_mod_cong:
  fixes f g :: "'a \<Rightarrow> int"
  assumes "\<And>i. i \<in> A \<Longrightarrow> f i mod m = g i mod m"
  shows "sum f A mod m = sum g A mod m"
  using assms by (metis (no_types, lifting) mod_sum_eq sum.cong)

lemma mod_pow_cong: "(a :: int) mod m = b mod m \<Longrightarrow> a ^ n mod m = b ^ n mod m"
  by (metis power_mod)

lemma mod_mult_cong2: "(a :: int) mod m = b mod m \<Longrightarrow> c * a mod m = c * b mod m"
  by (metis mod_mult_right_eq)

section \<open>The tree of roots\<close>

text \<open>
  Block \<open>b\<close> of the arrays before a stage of half-length \<open>len\<close> is the node \<open>m = 128 / len + b\<close> of a
  binary tree: it holds the input modulo \<open>X^(2 len) - node_root m\<close>. Node \<open>m\<close> has the children
  \<open>2 m\<close> and \<open>2 m + 1\<close>; the leaves are the nodes \<open>256 + i\<close>.
\<close>

definition node_root :: "nat \<Rightarrow> int" where
  "node_root m = (if m = 1 then - 1 else if even m then tw (m div 2) else - tw (m div 2))"

definition ntt_point :: "nat \<Rightarrow> int" where
  "ntt_point i = node_root (256 + i)"

lemma node_root_sq:
  assumes "2 \<le> m" "m < 512"
  shows "node_root m ^ 2 mod Q = node_root (m div 2) mod Q"
proof -
  define n where "n = m div 2"
  have sq: "node_root m ^ 2 = tw n ^ 2" using assms by (simp add: node_root_def n_def)
  have n: "1 \<le> n" "n < 256" using assms by (simp_all add: n_def)
  show ?thesis
  proof (cases "n = 1")
    case True
    then show ?thesis using tw_one sq by (simp add: node_root_def n_def [symmetric])
  next
    case False
    define k where "k = n div 2"
    have k: "n = 2 * k \<or> n = 2 * k + 1" "k < 128" using n by (auto simp: k_def)
    with False have "node_root n mod Q = (if even n then tw k else - tw k) mod Q"
      by (auto simp: node_root_def)
    moreover have "tw n ^ 2 mod Q = (if even n then tw k else - tw k) mod Q"
      using k tw_sq_even [of k] tw_sq_odd [of k] by auto
    ultimately show ?thesis by (simp add: sq n_def [symmetric])
  qed
qed

lemma ntt_point_pow:
  assumes "i < 256" "s \<le> 8"
  shows "ntt_point i ^ (2 ^ s) mod Q = node_root ((256 + i) div 2 ^ s) mod Q"
  using assms(2)
proof (induction s)
  case 0
  then show ?case by (simp add: ntt_point_def)
next
  case (Suc s)
  define m where "m = (256 + i) div 2 ^ s"
  have "(2::nat) ^ s \<le> 2 ^ 7" using Suc.prems by (intro power_increasing) auto
  then have "2 * 2 ^ s \<le> 256 + i" by simp
  then have "2 \<le> m" unfolding m_def by (simp add: less_eq_div_iff_mult_less_eq)
  moreover have "m < 512" using assms(1) div_le_dividend [of "256 + i" "2 ^ s"] unfolding m_def by linarith
  ultimately have "node_root m ^ 2 mod Q = node_root (m div 2) mod Q" by (rule node_root_sq)
  moreover have "ntt_point i ^ 2 ^ Suc s mod Q = node_root m ^ 2 mod Q"
    using mod_pow_cong [OF Suc.IH, of 2] Suc.prems by (simp add: m_def power_mult [symmetric] mult.commute)
  moreover have "m div 2 = (256 + i) div 2 ^ Suc s"
    unfolding m_def by (simp add: div_mult2_eq [symmetric] mult.commute)
  ultimately show ?case by simp
qed

lemma ntt_point_256: "i < 256 \<Longrightarrow> ntt_point i ^ 256 mod Q = (- 1) mod Q"
  using ntt_point_pow [of i 8] by (simp add: node_root_def)

section \<open>Evaluation of blocks\<close>

definition peval :: "int list \<Rightarrow> int \<Rightarrow> int" where
  "peval f x = (\<Sum>j<length f. f ! j * x ^ j)"

definition block_eval :: "int list \<Rightarrow> nat \<Rightarrow> nat \<Rightarrow> int \<Rightarrow> int" where
  "block_eval f len b x = (\<Sum>j<len. f ! (len * b + j) * x ^ j)"

lemma block_eval_split:
  "block_eval f (2 * len) b x =
     (\<Sum>j<len. (f ! (2 * len * b + j) + x ^ len * f ! (2 * len * b + j + len)) * x ^ j)"
proof -
  have "{..<2 * len} = {..<len} \<union> {len..<2 * len}" "{..<len} \<inter> {len..<2 * len} = {}" by auto
  then have "block_eval f (2 * len) b x = (\<Sum>j<len. f ! (2 * len * b + j) * x ^ j)
      + (\<Sum>j=len..<2 * len. f ! (2 * len * b + j) * x ^ j)"
    unfolding block_eval_def by (simp add: sum.union_disjoint)
  also have "(\<Sum>j=len..<2 * len. f ! (2 * len * b + j) * x ^ j)
      = (\<Sum>j<len. f ! (2 * len * b + j + len) * x ^ (j + len))"
    using sum.shift_bounds_nat_ivl [of "\<lambda>j. f ! (2 * len * b + j) * x ^ j" 0 len len]
    by (simp add: mult_2 atLeast0LessThan add.assoc)
  finally show ?thesis
    by (simp add: sum.distrib [symmetric] algebra_simps power_add)
qed

lemma ct_stage_block:
  assumes l: "len \<in> set stage_lens" and b: "b < 128 div len" and j: "j < len"
  shows "ct_stage len f ! (2 * len * b + j) =
      ct_up (zeta_fwd ! (128 div len + b)) (f ! (2 * len * b + j)) (f ! (2 * len * b + j + len))"
    and "ct_stage len f ! (2 * len * b + len + j) =
      ct_dn (zeta_fwd ! (128 div len + b)) (f ! (2 * len * b + j)) (f ! (2 * len * b + j + len))"
proof -
  note L = stage_lens_cases [OF l]
  have "2 * len * Suc b \<le> 2 * len * (128 div len)" using b by (intro mult_le_mono2) simp
  also have "\<dots> \<le> 256" using times_div_less_eq_dividend [of len 128] by (simp add: mult.assoc)
  finally have top: "2 * len * b + 2 * len \<le> 256" by simp
  have blk: "(2 * len * b + s) div (2 * len) = b \<and> (2 * len * b + s) mod (2 * len) = s" if "s < 2 * len" for s
    using that L by simp
  show "ct_stage len f ! (2 * len * b + j) =
      ct_up (zeta_fwd ! (128 div len + b)) (f ! (2 * len * b + j)) (f ! (2 * len * b + j + len))"
    using top j blk [of j] by (simp add: ct_stage_def stage_nth pair_at_def)
  define i where "i = 2 * len * b + len + j"
  have "i < 256" "i - len = 2 * len * b + j" "i = 2 * len * b + j + len"
    using top j by (simp_all add: i_def)
  moreover have "i div (2 * len) = b" "i mod (2 * len) = len + j"
    using blk [of "len + j"] j by (simp_all add: i_def add.assoc)
  ultimately show "ct_stage len f ! i =
      ct_dn (zeta_fwd ! (128 div len + b)) (f ! (2 * len * b + j)) (f ! (2 * len * b + j + len))"
    by (simp add: ct_stage_def stage_nth pair_at_def)
qed

lemma ct_stage_eval:
  assumes l: "len \<in> set stage_lens" and c: "c div 2 < 128 div len"
    and x: "x ^ len mod Q = node_root (2 * (128 div len) + c) mod Q"
  shows "block_eval (ct_stage len f) len c x mod Q = block_eval f (2 * len) (c div 2) x mod Q"
proof -
  note L = stage_lens_cases [OF l]
  define b where "b = c div 2"
  define m where "m = 128 div len + b"
  have m: "1 \<le> m" "m < 256" using c L unfolding m_def b_def by linarith+
  have n2: "(2 * (128 div len) + c) div 2 = m" by (simp add: m_def b_def)
  have nz: "2 * (128 div len) + c \<noteq> 1" using c by linarith
  have z: "zeta_fwd ! m = tw m mod Q" using m by (simp add: zeta_fwd_nth)
  have e: "(u + x ^ len * v) mod Q = (if even c then ct_up (zeta_fwd ! m) u v else ct_dn (zeta_fwd ! m) u v)" for u v
  proof (cases "even c")
    case True
    then have "x ^ len mod Q = zeta_fwd ! m mod Q" using x nz n2 by (simp add: node_root_def z)
    then have "x ^ len * v mod Q = zeta_fwd ! m * v mod Q" by (metis mod_mult_left_eq)
    with True show ?thesis unfolding ct_up_def by (metis mod_add_right_eq)
  next
    case False
    then have "x ^ len mod Q = (- (zeta_fwd ! m)) mod Q" using x nz n2 by (simp add: node_root_def z mod_minus_eq)
    then have "x ^ len * v mod Q = (- (zeta_fwd ! m * v)) mod Q" by (metis mod_mult_left_eq mult_minus_left)
    then have "(u + x ^ len * v) mod Q = (u + - (zeta_fwd ! m * v)) mod Q" by (metis mod_add_right_eq)
    with False show ?thesis unfolding ct_dn_def by simp
  qed
  have cell: "ct_stage len f ! (len * c + j) = (if even c
      then ct_up (zeta_fwd ! m) (f ! (2 * len * b + j)) (f ! (2 * len * b + j + len))
      else ct_dn (zeta_fwd ! m) (f ! (2 * len * b + j)) (f ! (2 * len * b + j + len)))" if "j < len" for j
  proof (cases "even c")
    case True
    then have e': "len * c + j = 2 * len * b + j" by (auto simp: b_def elim!: evenE)
    from True show ?thesis unfolding e' using ct_stage_block(1) [OF l _ that, of b f] c
      by (simp add: m_def b_def [symmetric])
  next
    case False
    then have "len * c + j = 2 * len * b + len + j" by (auto simp: b_def elim!: oddE)
    with False show ?thesis using ct_stage_block(2) [OF l _ that, of b f] c
      by (simp add: m_def b_def [symmetric])
  qed
  have "block_eval f (2 * len) b x mod Q = block_eval (ct_stage len f) len c x mod Q"
    unfolding block_eval_split unfolding block_eval_def
  proof (rule sum_mod_cong)
    fix j assume "j \<in> {..<len}"
    then have "ct_stage len f ! (len * c + j) = (f ! (2 * len * b + j) + x ^ len * f ! (2 * len * b + j + len)) mod Q"
      using cell [of j] e by auto
    then show "(f ! (2 * len * b + j) + x ^ len * f ! (2 * len * b + j + len)) * x ^ j mod Q
      = ct_stage len f ! (len * c + j) * x ^ j mod Q"
      by (simp add: mod_mult_left_eq)
  qed
  then show ?thesis by (simp add: b_def)
qed


text \<open>Every stage keeps the value of the block that contains position \<open>i\<close> at the point of \<open>i\<close>.\<close>

lemma ct_stage_eval_at:
  assumes i: "i < 256" and s: "s < 8"
  shows "block_eval (ct_stage (2 ^ s) f) (2 ^ s) (i div 2 ^ s) (ntt_point i) mod Q =
    block_eval f (2 ^ Suc s) (i div 2 ^ Suc s) (ntt_point i) mod Q"
proof -
  have s8: "s \<in> {0, 1, 2, 3, 4, 5, 6, 7}" using s by auto
  have l: "2 ^ s \<in> set stage_lens" using s8 by (auto simp: stage_lens_def)
  have d: "i div 2 ^ s div 2 = i div 2 ^ Suc s" by (simp add: div_mult2_eq [symmetric] mult.commute)
  have c: "i div 2 ^ s div 2 < 128 div 2 ^ s"
    using i s8 by (auto simp: d div_less_iff_less_mult mult.commute)
  have "2 * (128 div 2 ^ s) + i div 2 ^ s = (256 + i) div 2 ^ s"
    using s8 by auto
  then have "ntt_point i ^ 2 ^ s mod Q = node_root (2 * (128 div 2 ^ s) + i div 2 ^ s) mod Q"
    using ntt_point_pow [OF i, of s] s by simp
  from ct_stage_eval [OF l c this, of f] show ?thesis unfolding d by simp
qed

lemma ntt_evaluates:
  assumes f: "zq_poly f" and i: "i < 256"
  shows "ntt f ! i = peval f (ntt_point i) mod Q"
proof -
  let ?x = "ntt_point i"
  have "block_eval (ntt f) 1 i ?x mod Q = block_eval f 256 0 ?x mod Q"
    using ct_stage_eval_at [OF i, of 7 f] ct_stage_eval_at [OF i, of 6] ct_stage_eval_at [OF i, of 5]
      ct_stage_eval_at [OF i, of 4] ct_stage_eval_at [OF i, of 3] ct_stage_eval_at [OF i, of 2]
      ct_stage_eval_at [OF i, of 1] ct_stage_eval_at [OF i, of 0] i
    by (simp add: ntt_eq_stages [OF f] stage_lens_def)
  moreover have "block_eval (ntt f) 1 i ?x = ntt f ! i" by (simp add: block_eval_def)
  moreover have "block_eval f 256 0 ?x = peval f ?x"
    by (simp add: block_eval_def peval_def zq_poly_length [OF f])
  ultimately show ?thesis
    using zq_poly_nth [OF zq_poly_ntt [OF f] i] by simp
qed

lemma ntt_inj: "zq_poly f \<Longrightarrow> zq_poly g \<Longrightarrow> ntt f = ntt g \<Longrightarrow> f = g"
  by (metis ntt_inv_ntt)

section \<open>Products modulo X^256 + 1\<close>

text \<open>Coefficient \<open>s\<close> of the product of two polynomials with 256 coefficients.\<close>

definition conv :: "int list \<Rightarrow> int list \<Rightarrow> nat \<Rightarrow> int" where
  "conv a b s = (\<Sum>i<256. \<Sum>j<256. if i + j = s then a ! i * b ! j else 0)"

definition negacyclic :: "int list \<Rightarrow> int list \<Rightarrow> int list" where
  "negacyclic a b = map (\<lambda>s. (conv a b s - conv a b (s + 256)) mod Q) [0..<256]"

lemma conv_eval:
  "(\<Sum>s<512. conv a b s * x ^ s) = (\<Sum>i<256. a ! i * x ^ i) * (\<Sum>j<256. b ! j * x ^ j)"
proof -
  have "(\<Sum>s<512. conv a b s * x ^ s)
      = (\<Sum>s<512. \<Sum>i<256. \<Sum>j<256. if i + j = s then a ! i * b ! j * x ^ s else 0)"
    by (simp add: conv_def sum_distrib_right if_distrib [of "\<lambda>y. y * _"] cong: if_cong)
  also have "\<dots> = (\<Sum>i<256. \<Sum>j<256. \<Sum>s<512. if i + j = s then a ! i * b ! j * x ^ s else 0)"
    by (subst sum.swap, rule sum.cong [OF refl], subst sum.swap, rule refl)
  also have "\<dots> = (\<Sum>i<256. \<Sum>j<256. a ! i * b ! j * x ^ (i + j))"
    by (intro sum.cong refl) (simp add: sum.delta')
  finally show ?thesis by (simp add: sum_product power_add algebra_simps)
qed

lemma zq_poly_negacyclic [range_intros]: "zq_poly (negacyclic a b)"
  unfolding negacyclic_def by (intro zq_poly_map) simp

lemma negacyclic_eval:
  assumes "length a = 256" "length b = 256" and x: "x ^ 256 mod Q = (- 1) mod Q"
  shows "peval (negacyclic a b) x mod Q = peval a x * peval b x mod Q"
proof -
  have "peval (negacyclic a b) x mod Q = (\<Sum>s<256. (conv a b s - conv a b (s + 256)) * x ^ s) mod Q"
    unfolding peval_def by (simp add: negacyclic_def) (rule sum_mod_cong, simp add: mod_mult_left_eq)
  also have "\<dots> = (\<Sum>s<256. conv a b s * x ^ s + conv a b (s + 256) * x ^ (s + 256)) mod Q"
  proof (rule sum_mod_cong)
    fix s
    have "conv a b (s + 256) * x ^ s * x ^ 256 mod Q = - (conv a b (s + 256) * x ^ s) mod Q"
      using mod_mult_cong2 [OF x, of "conv a b (s + 256) * x ^ s"] by simp
    then have "(conv a b s * x ^ s + conv a b (s + 256) * x ^ s * x ^ 256) mod Q =
        (conv a b s * x ^ s + - (conv a b (s + 256) * x ^ s)) mod Q"
      by (metis mod_add_right_eq)
    then show "(conv a b s - conv a b (s + 256)) * x ^ s mod Q =
        (conv a b s * x ^ s + conv a b (s + 256) * x ^ (s + 256)) mod Q"
      by (simp add: algebra_simps power_add)
  qed
  also have "(\<Sum>s<256. conv a b s * x ^ s + conv a b (s + 256) * x ^ (s + 256)) = (\<Sum>s<512. conv a b s * x ^ s)"
  proof -
    have "{..<512::nat} = {..<256} \<union> {256..<512}" "{..<256::nat} \<inter> {256..<512} = {}" by auto
    then have "(\<Sum>s<512. conv a b s * x ^ s) = (\<Sum>s<256. conv a b s * x ^ s) + (\<Sum>s=256..<512. conv a b s * x ^ s)"
      by (simp add: sum.union_disjoint)
    also have "(\<Sum>s=256..<512. conv a b s * x ^ s) = (\<Sum>s<256. conv a b (s + 256) * x ^ (s + 256))"
      using sum.shift_bounds_nat_ivl [of "\<lambda>s. conv a b s * x ^ s" 0 256 256] by (simp add: atLeast0LessThan)
    finally show ?thesis by (simp add: sum.distrib)
  qed
  also have "\<dots> = peval a x * peval b x" unfolding conv_eval peval_def by (simp add: assms)
  finally show ?thesis .
qed

text \<open>The transform turns the product of the ring into the pointwise product.\<close>

lemma ntt_negacyclic:
  assumes a: "zq_poly a" and b: "zq_poly b"
  shows "ntt (negacyclic a b) = pointwise_mul (ntt a) (ntt b)"
proof (rule zq_poly_eqI)
  fix i :: nat assume i: "i < 256"
  have "ntt (negacyclic a b) ! i = peval a (ntt_point i) * peval b (ntt_point i) mod Q"
    using negacyclic_eval [OF _ _ ntt_point_256 [OF i]] a b
    by (simp add: ntt_evaluates [OF zq_poly_negacyclic i] zq_poly_length)
  also have "\<dots> = ntt a ! i * ntt b ! i mod Q"
    by (simp add: ntt_evaluates [OF a i] ntt_evaluates [OF b i] mod_mult_eq)
  also have "\<dots> = pointwise_mul (ntt a) (ntt b) ! i"
    using i a b by (simp add: pointwise_mul_def zq_simps zq_poly_nth zq_poly_ntt)
  finally show "ntt (negacyclic a b) ! i = pointwise_mul (ntt a) (ntt b) ! i" .
qed (use a b in \<open>auto intro!: zq_poly_length range_intros\<close>)

theorem ntt_product:
  "zq_poly a \<Longrightarrow> zq_poly b \<Longrightarrow> ntt_inv (pointwise_mul (ntt a) (ntt b)) = negacyclic a b"
  using ntt_negacyclic [of a b] ntt_inv_ntt [OF zq_poly_negacyclic, of a b] by simp

section \<open>Properties\<close>

text \<open>
  C8. Entry \<open>i\<close> of the transform is the value of the polynomial at a root of \<open>X^256 + 1\<close>.
\<close>

theorem ntt_is_evaluation:
  assumes "zq_poly f" "i < 256"
  shows "ntt f ! i = peval f (ntt_point i) mod Q \<and> ntt_point i ^ 256 mod Q = Q - 1"
proof -
  have "(- 1) mod Q = Q - 1" by (simp add: Q_def)
  then show ?thesis using assms by (simp add: ntt_evaluates ntt_point_256)
qed

theorem ntt_is_evaluation_witness:
  "ntt (replicate 256 7) ! 3 = peval (replicate 256 7) (ntt_point 3) mod Q"
  using ntt_is_evaluation [of "replicate 256 7" 3] by (simp add: zq_poly_def in_zq_def Q_def)

end
