(* ===== verification/MLDSA_Poly.thy ===== *)
theory MLDSA_Poly
  imports MLDSA_NTT_Eval
begin

text \<open>
  The polynomial types of \<open>mldsa/poly.rs\<close> with their operations, the equality of the NTT product
  with the schoolbook product, and the ring laws of \<open>poly_mul\<close>.
\<close>

section \<open>Types and operations\<close>

record Poly =
  coeffs :: "i64 list"

record NTTPoly =
  ncoeffs :: "i64 list"

definition poly_zero :: Poly where
  "poly_zero = \<lparr>coeffs = replicate N 0\<rparr>"

definition from_coeffs :: "i64 list \<Rightarrow> Poly" where
  "from_coeffs cs = \<lparr>coeffs = cs\<rparr>"

definition poly_reduce :: "Poly \<Rightarrow> Poly" where
  "poly_reduce p = p\<lparr>coeffs := map field_reduce (coeffs p)\<rparr>"

definition poly_add :: "Poly \<Rightarrow> Poly \<Rightarrow> Poly" where
  "poly_add p q = \<lparr>coeffs = map (\<lambda>i. field_add (coeffs p ! i) (coeffs q ! i)) [0..<N]\<rparr>"

definition poly_sub :: "Poly \<Rightarrow> Poly \<Rightarrow> Poly" where
  "poly_sub p q = \<lparr>coeffs = map (\<lambda>i. field_sub (coeffs p ! i) (coeffs q ! i)) [0..<N]\<rparr>"

definition poly_scale :: "Poly \<Rightarrow> i64 \<Rightarrow> Poly" where
  "poly_scale p s = (let s = field_reduce s in
     \<lparr>coeffs = map (\<lambda>i. field_mul (coeffs p ! i) s) [0..<N]\<rparr>)"

text \<open>\<open>.max().unwrap_or(0)\<close>\<close>

definition max_or_zero :: "i64 list \<Rightarrow> i64" where
  "max_or_zero xs = (case xs of [] \<Rightarrow> 0 | y # ys \<Rightarrow> foldl max y ys)"

definition poly_norm_inf :: "Poly \<Rightarrow> i64" where
  "poly_norm_inf p = max_or_zero (map (\<lambda>c. \<bar>reduce_centered c\<bar>) (coeffs p))"

definition poly_ntt :: "Poly \<Rightarrow> NTTPoly" where
  "poly_ntt p = \<lparr>ncoeffs = ntt (coeffs p)\<rparr>"

text \<open>The two nested loops of \<open>mul_naive\<close> accumulate into \<open>tmp\<close>; then \<open>X^256 = -1\<close> folds it.\<close>

definition mul_naive_tmp :: "i64 list \<Rightarrow> i64 list \<Rightarrow> i64 list" where
  "mul_naive_tmp a b =
     foldl (\<lambda>tmp i. foldl (\<lambda>tmp j. tmp[i + j := tmp ! (i + j) + a ! i * b ! j]) tmp [0..<N])
       (replicate (2 * N) 0) [0..<N]"

definition mul_naive :: "Poly \<Rightarrow> Poly \<Rightarrow> Poly" where
  "mul_naive p q = (let tmp = mul_naive_tmp (coeffs p) (coeffs q) in
     \<lparr>coeffs = map (\<lambda>i. field_reduce (tmp ! i - tmp ! (i + N))) [0..<N]\<rparr>)"

definition nttpoly_mul :: "NTTPoly \<Rightarrow> NTTPoly \<Rightarrow> NTTPoly" where
  "nttpoly_mul p q = \<lparr>ncoeffs = pointwise_mul (ncoeffs p) (ncoeffs q)\<rparr>"

definition nttpoly_add :: "NTTPoly \<Rightarrow> NTTPoly \<Rightarrow> NTTPoly" where
  "nttpoly_add p q = \<lparr>ncoeffs = map (\<lambda>i. field_add (ncoeffs p ! i) (ncoeffs q ! i)) [0..<N]\<rparr>"

definition nttpoly_intt :: "NTTPoly \<Rightarrow> Poly" where
  "nttpoly_intt p = \<lparr>coeffs = ntt_inv (ncoeffs p)\<rparr>"

definition poly_mul :: "Poly \<Rightarrow> Poly \<Rightarrow> Poly" where
  "poly_mul a b = nttpoly_intt (nttpoly_mul (poly_ntt a) (poly_ntt b))"

section \<open>Well-formed polynomials\<close>

definition wf_poly :: "Poly \<Rightarrow> bool" where
  "wf_poly p \<longleftrightarrow> zq_poly (coeffs p)"

definition wf_nttpoly :: "NTTPoly \<Rightarrow> bool" where
  "wf_nttpoly p \<longleftrightarrow> zq_poly (ncoeffs p)"

lemma wf_poly_ops [range_intros]:
  "wf_poly poly_zero"
  "wf_poly p \<Longrightarrow> wf_poly q \<Longrightarrow> wf_poly (poly_add p q)"
  "wf_poly p \<Longrightarrow> wf_poly q \<Longrightarrow> wf_poly (poly_sub p q)"
  "wf_poly p \<Longrightarrow> wf_poly (poly_scale p s)"
  "wf_poly (mul_naive p q)"
  "length (coeffs p) = N \<Longrightarrow> wf_poly (poly_reduce p)"
  by (auto simp: wf_poly_def poly_zero_def poly_add_def poly_sub_def poly_scale_def mul_naive_def
      poly_reduce_def N_def Let_def zq_poly_def zq_simps)

lemma wf_nttpoly_ops [range_intros]:
  "wf_poly p \<Longrightarrow> wf_nttpoly (poly_ntt p)"
  "wf_nttpoly u \<Longrightarrow> wf_poly (nttpoly_intt u)"
  "wf_nttpoly u \<Longrightarrow> wf_nttpoly v \<Longrightarrow> wf_nttpoly (nttpoly_mul u v)"
  "wf_nttpoly u \<Longrightarrow> wf_nttpoly v \<Longrightarrow> wf_nttpoly (nttpoly_add u v)"
  by (simp_all add: wf_poly_def wf_nttpoly_def poly_ntt_def nttpoly_intt_def nttpoly_mul_def
      nttpoly_add_def zq_poly_ntt zq_poly_ntt_inv zq_poly_pointwise)
    (auto simp: zq_poly_def N_def zq_simps)

lemma wf_poly_mul [range_intros]: "wf_poly p \<Longrightarrow> wf_poly q \<Longrightarrow> wf_poly (poly_mul p q)"
  by (simp add: poly_mul_def wf_nttpoly_ops)

lemma max_or_zero_less:
  assumes "0 < B"
  shows "max_or_zero xs < B \<longleftrightarrow> (\<forall>x\<in>set xs. x < B)"
proof -
  have "foldl max y ys < B \<longleftrightarrow> y < B \<and> (\<forall>x\<in>set ys. x < B)" for y :: int and ys
    by (induction ys arbitrary: y) auto
  with assms show ?thesis by (simp add: max_or_zero_def split: list.splits)
qed

lemma poly_norm_inf_less:
  "0 < B \<Longrightarrow> poly_norm_inf p < B \<longleftrightarrow> (\<forall>c\<in>set (coeffs p). \<bar>reduce_centered c\<bar> < B)"
  by (simp add: poly_norm_inf_def max_or_zero_less)

section \<open>The schoolbook loops\<close>

lemma accum_loop_nth:
  assumes "\<forall>j\<in>set js. p j < length t" "s < length t"
  shows "foldl (\<lambda>t j. t[p j := t ! p j + (v j :: int)]) t js ! s =
     t ! s + (\<Sum>j\<leftarrow>js. if p j = s then v j else 0)"
  using assms by (induction js arbitrary: t) (auto simp: nth_list_update)

lemma length_accum_loop [simp]:
  "length (foldl (\<lambda>t j. t[p j := t ! p j + (v j :: int)]) t js) = length t"
  by (induction js arbitrary: t) auto

lemma outer_accum_nth:
  assumes "\<forall>i\<in>set is. i < 256" "s < 512" "length t = 512"
  shows "foldl (\<lambda>tmp i. foldl (\<lambda>tmp j. tmp[i + j := tmp ! (i + j) + (v i j :: int)]) tmp [0..<256]) t is ! s =
     t ! s + (\<Sum>i\<leftarrow>is. \<Sum>j<256. if i + j = s then v i j else 0)"
  using assms
proof (induction "is" arbitrary: t)
  case (Cons i "is")
  define t' where "t' = foldl (\<lambda>tmp j. tmp[i + j := tmp ! (i + j) + v i j]) t [0..<256]"
  have "t' ! s = t ! s + (\<Sum>j<256. if i + j = s then v i j else 0)"
    unfolding t'_def
    by (subst accum_loop_nth) (use Cons.prems in \<open>auto simp: interv_sum_list_conv_sum_set_nat atLeast0LessThan\<close>)
  moreover have "length t' = 512" using Cons.prems by (simp add: t'_def)
  ultimately show ?case using Cons by (simp add: t'_def [symmetric])
qed simp

lemma mul_naive_tmp_nth: "s < 512 \<Longrightarrow> mul_naive_tmp a b ! s = conv a b s"
  unfolding mul_naive_tmp_def N_def
  by (subst outer_accum_nth)
    (auto simp: conv_def interv_sum_list_conv_sum_set_nat atLeast0LessThan)

lemma mul_naive_negacyclic: "coeffs (mul_naive p q) = negacyclic (coeffs p) (coeffs q)"
  by (simp add: mul_naive_def negacyclic_def N_def mul_naive_tmp_nth zq_simps Let_def)

text \<open>The product computed through the transform is the schoolbook product of the ring.\<close>

lemma poly_mul_naive: "wf_poly p \<Longrightarrow> wf_poly q \<Longrightarrow> poly_mul p q = mul_naive p q"
  by (simp add: wf_poly_def poly_mul_def nttpoly_intt_def nttpoly_mul_def poly_ntt_def ntt_product
      flip: mul_naive_negacyclic)

text \<open>The accumulators of the schoolbook product stay far inside the \<open>i64\<close> range.\<close>

lemma conv_bound:
  assumes "zq_poly a" "zq_poly b"
  shows "0 \<le> conv a b s \<and> conv a b s \<le> 65536 * (Q * Q)"
proof -
  have t: "0 \<le> (if i + j = s then a ! i * b ! j else 0) \<and> (if i + j = s then a ! i * b ! j else 0) \<le> Q * Q"
    if "i < 256" "j < 256" for i j
    using zq_poly_nth [OF assms(1) that(1)] zq_poly_nth [OF assms(2) that(2)]
    by (auto simp: in_zq_def intro: mult_mono)
  have "conv a b s \<le> (\<Sum>i<256::nat. \<Sum>j<256::nat. Q * Q)"
    unfolding conv_def by (intro sum_mono) (use t in auto)
  moreover have "0 \<le> conv a b s" unfolding conv_def by (intro sum_nonneg) (use t in auto)
  ultimately show ?thesis by simp
qed

section \<open>Ring laws through the transform\<close>

lemma ntt_poly_mul: "wf_poly p \<Longrightarrow> wf_poly q \<Longrightarrow> ntt (coeffs (poly_mul p q)) = pointwise_mul (ntt (coeffs p)) (ntt (coeffs q))"
  by (simp add: wf_poly_def poly_mul_def nttpoly_intt_def nttpoly_mul_def poly_ntt_def
      ntt_ntt_inv zq_poly_ntt zq_poly_pointwise)

lemma peval_add:
  "zq_poly f \<Longrightarrow> zq_poly g \<Longrightarrow>
   peval (map (\<lambda>i. (f ! i + g ! i) mod Q) [0..<256]) x mod Q = (peval f x + peval g x) mod Q"
  unfolding peval_def
  by (simp add: zq_poly_length sum.distrib [symmetric] distrib_right [symmetric])
    (rule sum_mod_cong, simp add: mod_mult_left_eq)

lemma coeffs_poly_add:
  "wf_poly p \<Longrightarrow> wf_poly q \<Longrightarrow> coeffs (poly_add p q) = map (\<lambda>i. (coeffs p ! i + coeffs q ! i) mod Q) [0..<256]"
  by (simp add: wf_poly_def poly_add_def N_def zq_simps zq_poly_nth cong: map_cong)

lemma ntt_poly_add:
  assumes "wf_poly p" "wf_poly q"
  shows "ntt (coeffs (poly_add p q)) =
    map (\<lambda>i. (ntt (coeffs p) ! i + ntt (coeffs q) ! i) mod Q) [0..<256]"
proof (rule zq_poly_eqI)
  have z: "zq_poly (coeffs p)" "zq_poly (coeffs q)" "zq_poly (coeffs (poly_add p q))"
    using assms wf_poly_ops(2) by (auto simp: wf_poly_def)
  then show "length (ntt (coeffs (poly_add p q))) = 256" by (intro zq_poly_length zq_poly_ntt)
  fix i :: nat assume i: "i < 256"
  then show "ntt (coeffs (poly_add p q)) ! i =
     map (\<lambda>i. (ntt (coeffs p) ! i + ntt (coeffs q) ! i) mod Q) [0..<256] ! i"
    using z assms by (simp add: ntt_evaluates) (simp add: coeffs_poly_add peval_add mod_add_eq)
qed simp

lemma poly_eqI_ntt:
  assumes "wf_poly p" "wf_poly q" "\<And>i. i < 256 \<Longrightarrow> ntt (coeffs p) ! i = ntt (coeffs q) ! i"
  shows "p = q"
proof -
  have "ntt (coeffs p) = ntt (coeffs q)"
    using assms by (intro zq_poly_eqI) (auto simp: wf_poly_def intro!: zq_poly_length zq_poly_ntt)
  then show ?thesis using assms(1,2) by (metis wf_poly_def ntt_inj Poly.equality unit.exhaust)
qed

lemma ntt_poly_mul_nth:
  assumes "wf_poly p" "wf_poly q" "i < 256"
  shows "ntt (coeffs (poly_mul p q)) ! i = ntt (coeffs p) ! i * ntt (coeffs q) ! i mod Q"
  using assms by (simp add: ntt_poly_mul pointwise_mul_def wf_poly_def zq_simps zq_poly_nth zq_poly_ntt)

lemmas ring_via_ntt = ntt_poly_mul_nth ntt_poly_add wf_poly_mul wf_poly_ops

lemma poly_mul_commute: "wf_poly p \<Longrightarrow> wf_poly q \<Longrightarrow> poly_mul p q = poly_mul q p"
  by (rule poly_eqI_ntt) (simp_all add: ring_via_ntt mult.commute)

lemma poly_mul_assoc:
  "wf_poly p \<Longrightarrow> wf_poly q \<Longrightarrow> wf_poly r \<Longrightarrow> poly_mul (poly_mul p q) r = poly_mul p (poly_mul q r)"
  by (rule poly_eqI_ntt) (simp_all add: ring_via_ntt mod_mult_left_eq mod_mult_right_eq mult.assoc)

lemma poly_mul_distrib:
  "wf_poly p \<Longrightarrow> wf_poly q \<Longrightarrow> wf_poly r \<Longrightarrow>
   poly_mul p (poly_add q r) = poly_add (poly_mul p q) (poly_mul p r)"
  by (rule poly_eqI_ntt)
    (simp_all add: ring_via_ntt mod_mult_right_eq mod_add_eq distrib_left)

section \<open>Properties\<close>

text \<open>
  C3. Multiplication through the transform returns what the reference routine \<open>mul_naive\<close>
  returns, the product in \<open>Z_q[X]/(X^256 + 1)\<close>.
\<close>

theorem poly_mul_schoolbook:
  assumes "wf_poly p" "wf_poly q"
  shows "poly_mul p q = mul_naive p q"
  using assms by (rule poly_mul_naive)

theorem poly_mul_schoolbook_witness:
  "poly_mul (from_coeffs (replicate 256 2)) (from_coeffs (replicate 256 3))
     = mul_naive (from_coeffs (replicate 256 2)) (from_coeffs (replicate 256 3))"
  by (rule poly_mul_schoolbook) (simp_all add: wf_poly_def from_coeffs_def zq_poly_def in_zq_def Q_def)

text \<open>
  \<open>poly_mul\<close> is commutative and associative, and distributes over \<open>poly_add\<close>, on well-formed
  polynomials, and its result is well formed.
\<close>

lemma poly_mul_ring_laws:
  assumes "wf_poly p" "wf_poly q" "wf_poly r"
  shows "poly_mul p q = poly_mul q p \<and> poly_mul (poly_mul p q) r = poly_mul p (poly_mul q r)
    \<and> poly_mul p (poly_add q r) = poly_add (poly_mul p q) (poly_mul p r) \<and> wf_poly (poly_mul p q)"
  using assms poly_mul_commute [of p q] poly_mul_assoc [of p q r] poly_mul_distrib [of p q r] wf_poly_mul [of p q]
  by blast

theorem poly_mul_ring_laws_witness:
  "poly_mul poly_zero (poly_add (from_coeffs (replicate 256 1)) poly_zero)
     = poly_add (poly_mul poly_zero (from_coeffs (replicate 256 1))) (poly_mul poly_zero poly_zero)"
proof -
  have "wf_poly (from_coeffs (replicate 256 1))"
    by (simp add: wf_poly_def from_coeffs_def zq_poly_def in_zq_def Q_def)
  then show ?thesis
    using poly_mul_ring_laws [of poly_zero "from_coeffs (replicate 256 1)" poly_zero] by (simp add: wf_poly_ops)
qed

text \<open>
  No accumulator of \<open>mul_naive\<close> overflows an \<open>i64\<close>: each ends between 0 and \<open>65536 q^2 < 2^63\<close>,
  and the terms it adds up are nonnegative.
\<close>

lemma mul_naive_no_overflow:
  assumes "wf_poly p" "wf_poly q" "s < 512"
  shows "0 \<le> mul_naive_tmp (coeffs p) (coeffs q) ! s
    \<and> mul_naive_tmp (coeffs p) (coeffs q) ! s \<le> 65536 * (Q * Q) \<and> i64_ok (65536 * (Q * Q))"
  using assms conv_bound [of "coeffs p" "coeffs q" s]
  by (simp add: wf_poly_def mul_naive_tmp_nth i64_ok_def Q_def)

theorem mul_naive_no_overflow_witness:
  "0 \<le> mul_naive_tmp (coeffs poly_zero) (coeffs poly_zero) ! 511"
  using mul_naive_no_overflow [of poly_zero poly_zero 511] by (simp add: wf_poly_ops)

end
