(* ===== verification/MLDSA_PolyVec.thy ===== *)
theory MLDSA_PolyVec
  imports MLDSA_Poly
begin

text \<open>
  Vectors and matrices of polynomials and the rounding helpers of \<open>mldsa/polyvec.rs\<close>. The length
  assertions of \<open>add\<close>, \<open>sub\<close>, \<open>use_hint\<close> and \<open>mul_vec\<close>, and the index check on a hint vector, are
  the \<open>None\<close> results (a panic).
\<close>

section \<open>Decompose, UseHint, Power2Round on one coefficient\<close>

definition power2round_val :: "i64 \<Rightarrow> nat \<Rightarrow> i64 \<times> i64" where
  "power2round_val r d =
     (let half = push_bit (d - 1) 1;
          modulus = push_bit d 1;
          r0 = (r smod modulus + modulus) smod modulus;
          r0_centered = (if r0 > half then r0 - modulus else r0);
          r1 = drop_bit d (r - r0_centered)
      in (r1, r0_centered))"

definition decompose_val :: "i64 \<Rightarrow> i64 \<times> i64" where
  "decompose_val r =
     (let alpha = 2 * GAMMA2;
          r = field_reduce r;
          r0 = (let rem = r smod alpha in if rem > GAMMA2 then rem - alpha else rem);
          r1 = (if r - r0 = Q - 1 then 0 else (r - r0) sdiv alpha);
          r0_final = (if r - r0 = Q - 1 then r0 - 1 else r0)
      in (r1, r0_final))"

definition high_bits_val :: "i64 \<Rightarrow> i64" where
  "high_bits_val r = fst (decompose_val r)"

definition low_bits_val :: "i64 \<Rightarrow> i64" where
  "low_bits_val r = snd (decompose_val r)"

definition use_hint_val :: "bool \<Rightarrow> i64 \<Rightarrow> i64" where
  "use_hint_val h r =
     (let (r1, r0) = decompose_val r in
      if \<not> h then r1
      else if r0 > 0 then (r1 + 1) smod M
      else (r1 - 1 + M) smod M)"

section \<open>Vectors and matrices\<close>

datatype PolyVec = PolyVec (pv_polys: "Poly list")
datatype NTTPolyVec = NTTPolyVec (npv_polys: "NTTPoly list")

record NTTMatrix =
  rows :: "NTTPolyVec list"

definition pv_zeros :: "usize \<Rightarrow> PolyVec" where
  "pv_zeros n = PolyVec (replicate n poly_zero)"

definition pv_len :: "PolyVec \<Rightarrow> usize" where
  "pv_len v = length (pv_polys v)"

definition pv_add :: "PolyVec \<Rightarrow> PolyVec \<Rightarrow> PolyVec option" where
  "pv_add v w = (if pv_len v = pv_len w
     then Some (PolyVec (map (\<lambda>(a, b). poly_add a b) (zip (pv_polys v) (pv_polys w)))) else None)"

definition pv_sub :: "PolyVec \<Rightarrow> PolyVec \<Rightarrow> PolyVec option" where
  "pv_sub v w = (if pv_len v = pv_len w
     then Some (PolyVec (map (\<lambda>(a, b). poly_sub a b) (zip (pv_polys v) (pv_polys w)))) else None)"

definition pv_norm_inf :: "PolyVec \<Rightarrow> i64" where
  "pv_norm_inf v = max_or_zero (map poly_norm_inf (pv_polys v))"

definition pv_ntt :: "PolyVec \<Rightarrow> NTTPolyVec" where
  "pv_ntt v = NTTPolyVec (map poly_ntt (pv_polys v))"

definition scale_power2 :: "PolyVec \<Rightarrow> nat \<Rightarrow> PolyVec" where
  "scale_power2 v d = (let factor = push_bit d 1 in PolyVec (map (\<lambda>p. poly_scale p factor) (pv_polys v)))"

definition power2round :: "PolyVec \<Rightarrow> nat \<Rightarrow> PolyVec \<times> PolyVec" where
  "power2round v d =
     (PolyVec (map (\<lambda>p. from_coeffs (map (\<lambda>c. fst (power2round_val c d)) (coeffs p))) (pv_polys v)),
      PolyVec (map (\<lambda>p. from_coeffs (map (\<lambda>c. field_reduce (snd (power2round_val c d))) (coeffs p))) (pv_polys v)))"

definition high_bits :: "PolyVec \<Rightarrow> PolyVec" where
  "high_bits v = PolyVec (map (\<lambda>p. from_coeffs (map high_bits_val (coeffs p))) (pv_polys v))"

text \<open>\<open>h[i]\<close> panics when the hint vector is shorter than the polynomial.\<close>

definition use_hint_poly :: "Poly \<Rightarrow> bool list \<Rightarrow> Poly option" where
  "use_hint_poly p h = (if length (coeffs p) \<le> length h
     then Some (from_coeffs (map (\<lambda>(i, c). use_hint_val (h ! i) c) (enumerate 0 (coeffs p)))) else None)"

fun all_some :: "'a option list \<Rightarrow> 'a list option" where
  "all_some [] = Some []"
| "all_some (x # xs) = (case x of None \<Rightarrow> None | Some y \<Rightarrow> map_option (Cons y) (all_some xs))"

definition use_hint :: "PolyVec \<Rightarrow> bool list list \<Rightarrow> PolyVec option" where
  "use_hint v hints = (if pv_len v = length hints
     then map_option PolyVec (all_some (map (\<lambda>(p, h). use_hint_poly p h) (zip (pv_polys v) hints)))
     else None)"

definition npv_zeros :: "usize \<Rightarrow> NTTPolyVec" where
  "npv_zeros n = NTTPolyVec (replicate n \<lparr>ncoeffs = replicate N 0\<rparr>)"

definition npv_len :: "NTTPolyVec \<Rightarrow> usize" where
  "npv_len v = length (npv_polys v)"

definition npv_add :: "NTTPolyVec \<Rightarrow> NTTPolyVec \<Rightarrow> NTTPolyVec option" where
  "npv_add v w = (if npv_len v = npv_len w
     then Some (NTTPolyVec (map (\<lambda>(a, b). nttpoly_add a b) (zip (npv_polys v) (npv_polys w)))) else None)"

definition npv_sub :: "NTTPolyVec \<Rightarrow> NTTPolyVec \<Rightarrow> NTTPolyVec option" where
  "npv_sub v w = (if npv_len v = npv_len w
     then Some (NTTPolyVec (map (\<lambda>(a, b).
        \<lparr>ncoeffs = map (\<lambda>i. field_sub (ncoeffs a ! i) (ncoeffs b ! i)) [0..<N]\<rparr>)
        (zip (npv_polys v) (npv_polys w)))) else None)"

definition scale_poly :: "NTTPolyVec \<Rightarrow> NTTPoly \<Rightarrow> NTTPolyVec" where
  "scale_poly v c = NTTPolyVec (map (\<lambda>p. nttpoly_mul p c) (npv_polys v))"

definition npv_intt :: "NTTPolyVec \<Rightarrow> PolyVec" where
  "npv_intt v = PolyVec (map nttpoly_intt (npv_polys v))"

text \<open>
  One row of \<open>mul_vec\<close>: the accumulator \<open>result.0[i]\<close> starts at zero and adds the products in
  the order of \<open>j\<close>; the row length is asserted first.
\<close>

definition mul_vec_row :: "NTTPolyVec \<Rightarrow> NTTPolyVec \<Rightarrow> NTTPoly option" where
  "mul_vec_row row v = (if npv_len row = npv_len v
     then Some (foldl (\<lambda>acc j. nttpoly_add acc (nttpoly_mul (npv_polys row ! j) (npv_polys v ! j)))
       \<lparr>ncoeffs = replicate N 0\<rparr> [0..<npv_len v])
     else None)"

definition mul_vec :: "NTTMatrix \<Rightarrow> NTTPolyVec \<Rightarrow> NTTPolyVec option" where
  "mul_vec A v = map_option NTTPolyVec (all_some (map (\<lambda>row. mul_vec_row row v) (rows A)))"

section \<open>Decompose\<close>

lemma decompose_val_unfold:
  "decompose_val r =
     (let r = r mod Q; rem = r mod 523776; r0 = (if rem > 261888 then rem - 523776 else rem)
      in if r - r0 = Q - 1 then (0, r0 - 1) else ((r - r0) div 523776, r0))"
proof -
  have nn: "0 \<le> r mod Q" by simp
  define r0 where "r0 = (if r mod Q mod 523776 > 261888 then r mod Q mod 523776 - 523776 else r mod Q mod 523776)"
  have "0 \<le> r mod Q - r0"
  proof (cases "r mod Q mod 523776 > 261888")
    case False
    then show ?thesis using nn zmod_le_nonneg_dividend [OF nn, of 523776] by (simp add: r0_def)
  next
    case True
    moreover have "r mod Q mod 523776 < 523776" by simp
    ultimately show ?thesis using nn unfolding r0_def by (simp only: if_True)
  qed
  then have "(r mod Q - r0) sdiv 523776 = (r mod Q - r0) div 523776"
    by (simp add: signed_divide_int_def sgn_if)
  moreover have "2 * GAMMA2 = 523776" by (simp add: GAMMA2_val)
  moreover have "r mod Q smod 523776 = r mod Q mod 523776" by (simp add: smod_nonneg)
  ultimately show ?thesis
    unfolding decompose_val_def Let_def field_reduce_mod r0_def [symmetric]
    by (simp only: GAMMA2_val r0_def [symmetric]) simp
qed

text \<open>Facts on the quotient and remainder by \<open>2 * GAMMA2\<close>, for the bounds below.\<close>

lemma decompose_cases:
  assumes "decompose_val r = (r1, r0)"
  obtains (special) "r1 = 0" "r0 = r mod Q - Q" "- 261888 \<le> r0" "r0 \<le> - 1"
  | (regular) "r mod Q = r1 * 523776 + r0" "0 \<le> r1" "r1 < 16" "- 261888 < r0" "r0 \<le> 261888"
proof -
  define x q m where "x = r mod Q" and "q = x div 523776" and "m = x mod 523776"
  have x: "0 \<le> x" "x < 8380417" by (simp_all add: x_def Q_def)
  have e: "x = 523776 * q + m" and m: "0 \<le> m" "m < 523776" by (simp_all add: q_def m_def)
  have q: "0 \<le> q" "q \<le> 16" using x e m by linarith+
  show thesis
  proof (cases "m > 261888")
    case True
    then have d: "x - (m - 523776) = (q + 1) * 523776" using e by simp
    show thesis
    proof (cases "x - (m - 523776) = Q - 1")
      case t: True
      then have "r1 = 0" "r0 = m - 523776 - 1"
        using assms True by (auto simp: decompose_val_unfold x_def [symmetric] m_def [symmetric] Let_def)
      with t m True special show thesis by (simp add: x_def [symmetric])
    next
      case f: False
      then have "r1 = q + 1" "r0 = m - 523776"
        using assms True d by (auto simp: decompose_val_unfold x_def [symmetric] m_def [symmetric] Let_def)
      moreover have "q + 1 \<noteq> 16" using f d by (auto simp: Q_def)
      ultimately show thesis using regular m True d q x e by (simp add: x_def [symmetric])
    qed
  next
    case False
    then have d: "x - m = q * 523776" using e by simp
    show thesis
    proof (cases "x - m = Q - 1")
      case t: True
      then have "r1 = 0" "r0 = m - 1"
        using assms False by (auto simp: decompose_val_unfold x_def [symmetric] m_def [symmetric] Let_def)
      moreover have "m = 0" using t x m by (simp add: Q_def)
      ultimately show thesis using t special by (simp add: x_def [symmetric])
    next
      case f: False
      then have "r1 = q" "r0 = m"
        using assms False d by (auto simp: decompose_val_unfold x_def [symmetric] m_def [symmetric] Let_def)
      moreover have "q \<noteq> 16" using f d by (auto simp: Q_def)
      ultimately show thesis using regular m False d q e by (simp add: x_def [symmetric])
    qed
  qed
qed

lemma decompose_congruence:
  assumes "decompose_val r = (r1, r0)"
  shows "(r1 * (2 * GAMMA2) + r0) mod Q = r mod Q"
  using assms by (cases rule: decompose_cases) (simp_all add: consts_simps)

lemma decompose_bounds:
  assumes "decompose_val r = (r1, r0)"
  shows "0 \<le> r1 \<and> r1 < M" "- GAMMA2 \<le> r0 \<and> r0 \<le> GAMMA2"
  using assms by (cases rule: decompose_cases; simp add: consts_simps)+

lemma use_hint_val_cases:
  "use_hint_val h r = (if \<not> h then high_bits_val r
     else if low_bits_val r > 0 then (high_bits_val r + 1) mod M else (high_bits_val r - 1) mod M)"
proof -
  obtain r1 r0 where d: "decompose_val r = (r1, r0)" by force
  note b = decompose_bounds(1) [OF d]
  then have "(r1 + 1) smod M = (r1 + 1) mod M" "(r1 - 1 + M) smod M = (r1 - 1 + M) mod M"
    by (simp_all add: smod_nonneg M_val)
  then have "(r1 + 1) smod M = (r1 + 1) mod M" "(r1 - 1 + M) smod M = (r1 - 1) mod M"
    by simp_all
  then show ?thesis by (simp add: use_hint_val_def high_bits_val_def low_bits_val_def d)
qed

lemma use_hint_val_range: "0 \<le> use_hint_val h r \<and> use_hint_val h r < M"
  using decompose_bounds(1) [of r] by (cases "decompose_val r")
    (simp add: use_hint_val_cases high_bits_val_def M_val)


text \<open>The decomposition is the only pair in its ranges that represents \<open>r\<close> modulo \<open>q\<close>.\<close>

lemma decompose_uniqueI:
  assumes x: "r mod Q = (k * 523776 + t) mod Q" and k: "0 \<le> k" "k < 16"
    and t: "- 261888 \<le> t" "t \<le> 261888" "0 < k \<longrightarrow> - 261888 < t"
  shows "decompose_val r = (k, t)"
proof -
  obtain r1 r0 where d: "decompose_val r = (r1, r0)" by force
  have kt: "(k * 523776 + t) mod Q = (if k * 523776 + t < 0 then t + Q else k * 523776 + t)"
  proof (cases "k * 523776 + t < 0")
    case True
    with k t have "k = 0" by linarith
    moreover have "t mod Q = (t + Q) mod Q" by simp
    moreover have "(t + Q) mod Q = t + Q" using t True \<open>k = 0\<close> by (simp add: Q_def del: mod_add_self2)
    ultimately show ?thesis using True by simp
  next
    case False
    then show ?thesis using k t by (simp add: Q_def)
  qed
  from d show ?thesis
  proof (cases rule: decompose_cases)
    case special
    then have "(if k * 523776 + t < 0 then t + Q else k * 523776 + t) = r0 + Q" using x kt by simp
    then show ?thesis using special k t d by (simp add: Q_def split: if_splits)
  next
    case regular
    have "(if k * 523776 + t < 0 then t + Q else k * 523776 + t) = r1 * 523776 + r0"
      using x kt regular by simp
    then have "k * 523776 + t = r1 * 523776 + r0" and "0 < k \<or> t \<noteq> - 261888"
      using regular k t by (auto simp: Q_def split: if_splits)
    moreover have "\<not> k < r1" "\<not> r1 < k" using calculation regular k t by linarith+
    ultimately show ?thesis using d by simp
  qed
qed

text \<open>
  \<open>UseHint\<close> recovers the high bits of \<open>r + z\<close> from \<open>r\<close> and one bit, for every small \<open>z\<close>: the
  bit that says whether the high bits changed.
\<close>

lemma use_hint_recovers:
  assumes z: "\<bar>z\<bar> \<le> GAMMA2"
  shows "use_hint_val (high_bits_val (r + z) \<noteq> high_bits_val r) r = high_bits_val (r + z)"
proof -
  obtain r1 r0 where d: "decompose_val r = (r1, r0)" by force
  have b: "0 \<le> r1" "r1 < 16" "- 261888 \<le> r0" "r0 \<le> 261888" "0 < r1 \<longrightarrow> - 261888 < r0"
    and c: "r mod Q = (r1 * 523776 + r0) mod Q"
    using decompose_congruence [OF d] d by (auto simp: consts_simps elim: decompose_cases)
  have zb: "- 261888 \<le> z" "z \<le> 261888" using z by (simp_all add: GAMMA2_val)
  have rz: "(r + z) mod Q = (r1 * 523776 + (r0 + z)) mod Q"
    using c by (metis add.assoc mod_add_left_eq)
  consider (same) "- 261888 \<le> r0 + z" "r0 + z \<le> 261888" "0 < r1 \<longrightarrow> - 261888 < r0 + z"
    | (up) "261888 < r0 + z" | (dn) "r0 + z < - 261888 \<or> 0 < r1 \<and> r0 + z = - 261888" by linarith
  then show ?thesis
  proof cases
    case same
    then have "high_bits_val (r + z) = r1"
      unfolding high_bits_val_def by (subst decompose_uniqueI [OF rz]) (use b in simp_all)
    then show ?thesis using d by (simp add: use_hint_val_cases high_bits_val_def)
  next
    case up
    then have pos: "0 < r0" using zb by linarith
    have "high_bits_val (r + z) = (r1 + 1) mod 16"
    proof (cases "r1 = 15")
      case True
      have "(r + z) mod Q = (0 * 523776 + (r0 + z - 523776 - 1)) mod Q"
        unfolding rz True by (simp add: Q_def mod_eq_dvd_iff)
      from decompose_uniqueI [OF this] show ?thesis
        using b zb up True unfolding high_bits_val_def by simp
    next
      case False
      have "(r + z) mod Q = ((r1 + 1) * 523776 + (r0 + z - 523776)) mod Q" unfolding rz by (simp add: algebra_simps)
      from decompose_uniqueI [OF this] show ?thesis
        using b zb up False unfolding high_bits_val_def by simp
    qed
    moreover have "(r1 + 1) mod 16 \<noteq> r1" using b by (cases "r1 = 15") simp_all
    ultimately show ?thesis using d pos
      by (simp add: use_hint_val_cases high_bits_val_def low_bits_val_def M_val)
  next
    case dn
    then have neg: "\<not> 0 < r0" using zb by linarith
    have "high_bits_val (r + z) = (r1 - 1) mod 16"
    proof (cases "r1 = 0")
      case True
      have "(r + z) mod Q = (15 * 523776 + (r0 + z + 523776 + 1)) mod Q"
        unfolding rz True by (simp add: Q_def mod_eq_dvd_iff)
      from decompose_uniqueI [OF this] show ?thesis
        using b zb dn True unfolding high_bits_val_def by simp
    next
      case False
      have "(r + z) mod Q = ((r1 - 1) * 523776 + (r0 + z + 523776)) mod Q" unfolding rz by (simp add: algebra_simps)
      from decompose_uniqueI [OF this] show ?thesis
        using b zb dn False unfolding high_bits_val_def by auto
    qed
    moreover have "(r1 - 1) mod 16 \<noteq> r1" using b by (cases "r1 = 0") simp_all
    ultimately show ?thesis using d neg
      by (simp add: use_hint_val_cases high_bits_val_def low_bits_val_def M_val)
  qed
qed

section \<open>Power2Round\<close>

lemma power2round_correct:
  assumes "power2round_val r d = (r1, r0)" "1 \<le> d"
  shows "r = r1 * 2 ^ d + r0" "- (2 ^ (d - 1)) < r0" "r0 \<le> 2 ^ (d - 1)"
proof -
  have half: "2 * 2 ^ (d - 1) = (2 ^ d :: int)" using assms(2) by (simp flip: power_Suc)
  define m where "m = r mod 2 ^ d"
  have m: "0 \<le> m" "m < 2 ^ d" by (simp_all add: m_def)
  have "(r smod 2 ^ d + 2 ^ d) smod 2 ^ d = m"
  proof -
    have "- (2 ^ d) < r smod 2 ^ d"
      by (simp add: signed_modulo_int_def signed_divide_int_def minus_div_mult_eq_mod sgn_if)
        (smt (verit) minus_mult_div_eq_mod mult.commute mult_minus_left pos_mod_bound pos_mod_sign zero_less_power)
    then have "0 \<le> r smod 2 ^ d + 2 ^ d" by linarith
    then have "(r smod 2 ^ d + 2 ^ d) smod 2 ^ d = (r smod 2 ^ d + 2 ^ d) mod 2 ^ d"
      by (simp add: smod_nonneg)
    also have "\<dots> = (if r smod 2 ^ d < 0 then r smod 2 ^ d + 2 ^ d else r smod 2 ^ d) mod 2 ^ d" by simp
    also have "\<dots> = m" unfolding m_def by (subst smod_adjust_mod) simp_all
    finally show ?thesis .
  qed
  then have r0: "r0 = (if m > 2 ^ (d - 1) then m - 2 ^ d else m)" and r1: "r1 = (r - r0) div 2 ^ d"
    using assms(1) by (auto simp: power2round_val_def push_bit_eq_mult drop_bit_eq_div Let_def)
  have "2 ^ d dvd r - r0" unfolding r0 by (auto simp: m_def mod_eq_dvd_iff [symmetric])
  then show "r = r1 * 2 ^ d + r0" by (simp add: r1)
  show "- (2 ^ (d - 1)) < r0" "r0 \<le> 2 ^ (d - 1)" using m half by (auto simp: r0)
qed

section \<open>Properties\<close>

text \<open>
  \<open>decompose\<close> returns the one pair \<open>(r1, r0)\<close> with \<open>r = r1 2 gamma2 + r0\<close> modulo \<open>q\<close>,
  \<open>0 <= r1 < m\<close> and \<open>r0\<close> in the centred range: it satisfies the equation and the bounds, and it
  returns every pair that does.
\<close>

lemma decompose_unique:
  "(r mod Q = (k * (2 * GAMMA2) + t) mod Q \<and> 0 \<le> k \<and> k < M \<and> - GAMMA2 \<le> t \<and> t \<le> GAMMA2 \<and> (k = 0 \<or> - GAMMA2 < t))
    = (decompose_val r = (k, t))"
proof
  assume a: "r mod Q = (k * (2 * GAMMA2) + t) mod Q \<and> 0 \<le> k \<and> k < M \<and> - GAMMA2 \<le> t \<and> t \<le> GAMMA2 \<and> (k = 0 \<or> - GAMMA2 < t)"
  show "decompose_val r = (k, t)"
    by (rule decompose_uniqueI) (use a in \<open>auto simp: GAMMA2_val M_val\<close>)
next
  assume d: "decompose_val r = (k, t)"
  have "k = 0 \<or> - GAMMA2 < t" using d by (cases rule: decompose_cases) (simp_all add: GAMMA2_val)
  then show "r mod Q = (k * (2 * GAMMA2) + t) mod Q \<and> 0 \<le> k \<and> k < M \<and> - GAMMA2 \<le> t \<and> t \<le> GAMMA2 \<and> (k = 0 \<or> - GAMMA2 < t)"
    using decompose_congruence [OF d] decompose_bounds [OF d] by simp
qed

text \<open>
  C5. One hint bit recovers the high bits of \<open>r + z\<close> from \<open>r\<close>, for every \<open>z\<close> of absolute value at
  most \<open>gamma2\<close>: the property the hints of a signature rest on.
\<close>

theorem use_hint_recovers_high_bits:
  assumes "\<bar>z\<bar> \<le> GAMMA2"
  shows "use_hint_val (high_bits_val (r + z) \<noteq> high_bits_val r) r = high_bits_val (r + z)"
  using assms by (rule use_hint_recovers)

theorem use_hint_recovers_high_bits_witness:
  "use_hint_val (high_bits_val (261888 + 5) \<noteq> high_bits_val 261888) 261888 = high_bits_val (261888 + 5)"
  by (rule use_hint_recovers_high_bits) (simp add: GAMMA2_val)

text \<open>
  \<open>power2round\<close> splits every \<open>r\<close> as \<open>r1 2^d + r0\<close> with \<open>r0\<close> in \<open>(-2^(d-1), 2^(d-1)]\<close>.
\<close>

lemma power2round_splits:
  assumes "1 \<le> d"
  shows "case power2round_val r d of (r1, r0) \<Rightarrow> r = r1 * 2 ^ d + r0 \<and> - (2 ^ (d - 1)) < r0 \<and> r0 \<le> 2 ^ (d - 1)"
  using power2round_correct [of r d] assms by (cases "power2round_val r d") simp

theorem power2round_splits_witness:
  "case power2round_val (-12345) 13 of (r1, r0) \<Rightarrow> -12345 = r1 * 8192 + r0"
  using power2round_splits [of 13 "-12345"] by (simp add: case_prod_beta)

text \<open>
  The documentation of \<open>decompose_val\<close> puts \<open>r0\<close> in \<open>(-gamma2, gamma2]\<close>; the special case
  \<open>r - r0 = q - 1\<close> also returns \<open>-gamma2\<close>.
\<close>

lemma decompose_lower_bound_reached: "decompose_val (Q - 1 - 261887) = (0, - GAMMA2)"
  by (rule decompose_uniqueI) (simp_all add: Q_def GAMMA2_val)

end
