(* ===== verification/MLDSA_Encoding.thy ===== *)
theory MLDSA_Encoding
  imports MLDSA_PolyVec
begin

unbundle bit_operations_syntax

text \<open>
  Bit packing and the key and signature codecs of \<open>mldsa/encoding.rs\<close>. Errors are the values of
  \<open>decode_error\<close>, one constructor per \<open>Err\<close> of the source, with the numbers its message prints.
\<close>

section \<open>Low-level bit packing\<close>

text \<open>One step of the loop of \<open>pack_bits\<close>: the output buffer and the running bit position.\<close>

definition pack_bit :: "bytes \<times> nat \<Rightarrow> bool \<Rightarrow> bytes \<times> nat" where
  "pack_bit st b = (case st of (out, pos) \<Rightarrow>
     (if b then out[pos div 8 := out ! (pos div 8) OR push_bit (pos mod 8) 1] else out, pos + 1))"

definition pack_bits :: "i64 list \<Rightarrow> nat \<Rightarrow> bytes" where
  "pack_bits values bits =
     (let total_bits = length values * bits;
          out = replicate ((total_bits + 7) div 8) 0
      in fst (foldl (\<lambda>st v. foldl (\<lambda>st b. pack_bit st (drop_bit b v AND 1 = 1)) st [0..<bits]) (out, 0) values))"

definition unpack_bit :: "bytes \<Rightarrow> i64 \<times> nat \<Rightarrow> nat \<Rightarrow> i64 \<times> nat" where
  "unpack_bit bs st b = (case st of (val, pos) \<Rightarrow>
     (if pos div 8 < length bs \<and> drop_bit (pos mod 8) (bs ! (pos div 8)) AND 1 = 1
      then val OR push_bit b 1 else val, pos + 1))"

text \<open>The outer loop fills \<open>out\<close> left to right; \<open>n\<close> values remain.\<close>

fun unpack_loop :: "bytes \<Rightarrow> nat \<Rightarrow> nat \<Rightarrow> nat \<Rightarrow> i64 list" where
  "unpack_loop bs bits pos 0 = []"
| "unpack_loop bs bits pos (Suc n) =
     (let (val, pos') = foldl (unpack_bit bs) (0, pos) [0..<bits]
      in val # unpack_loop bs bits pos' n)"

definition unpack_bits :: "bytes \<Rightarrow> nat \<Rightarrow> nat \<Rightarrow> i64 list" where
  "unpack_bits bs bits cnt = unpack_loop bs bits 0 cnt"

definition simple_bit_pack :: "i64 list \<Rightarrow> nat \<Rightarrow> bytes" where
  "simple_bit_pack w bits = pack_bits w bits"

definition simple_bit_unpack :: "bytes \<Rightarrow> nat \<Rightarrow> i64 list" where
  "simple_bit_unpack v bits = unpack_bits v bits N"

definition bit_pack :: "i64 list \<Rightarrow> i64 \<Rightarrow> nat \<Rightarrow> bytes" where
  "bit_pack w upper bits = pack_bits (map (\<lambda>c. upper - c) w) bits"

definition bit_unpack :: "bytes \<Rightarrow> i64 \<Rightarrow> nat \<Rightarrow> i64 list" where
  "bit_unpack v upper bits = map (\<lambda>x. upper - x) (unpack_bits v bits N)"

section \<open>Key and signature codecs\<close>

datatype decode_error =
    PkLength nat | SigLength nat | HintLength nat
  | HintOffset nat nat nat | HintOrder nat | HintPadding nat

definition pk_decode :: "bytes \<Rightarrow> decode_error + bytes \<times> PolyVec" where
  "pk_decode pk =
     (if length pk \<noteq> PK_BYTES then Inl (PkLength (length pk))
      else let rho = take 32 pk;
               t1_stride = N * T1_BITS div 8;
               t1_polys = map (\<lambda>i. from_coeffs
                 (simple_bit_unpack (take t1_stride (drop (32 + i * t1_stride) pk)) T1_BITS)) [0..<K]
           in Inr (rho, PolyVec t1_polys))"

text \<open>
  The index loop of one polynomial: positions \<open>k..ki\<close> of the index bytes, the previous index and
  the hint bits set so far.
\<close>

fun hint_indices :: "bytes \<Rightarrow> usize \<Rightarrow> usize list \<Rightarrow> u8 \<Rightarrow> bool list \<Rightarrow> decode_error + bool list" where
  "hint_indices y k [] prev hi = Inr hi"
| "hint_indices y k (idx_pos # ps) prev hi =
     (let idx = y ! idx_pos in
      if idx_pos > k \<and> idx \<le> prev then Inl (HintOrder idx_pos)
      else hint_indices y k ps idx (hi[unat idx := True]))"

fun hint_polys :: "bytes \<Rightarrow> usize list \<Rightarrow> usize \<Rightarrow> bool list list \<Rightarrow> decode_error + usize \<times> bool list list" where
  "hint_polys y [] k h = Inr (k, h)"
| "hint_polys y (i # is) k h =
     (let ki = unat (y ! (OMEGA + i)) in
      if ki < k \<or> ki > OMEGA then Inl (HintOffset i ki k)
      else case hint_indices y k [k..<ki] 0 (h ! i) of
          Inl e \<Rightarrow> Inl e
        | Inr hi \<Rightarrow> hint_polys y is ki (h[i := hi]))"

definition hint_bit_unpack :: "bytes \<Rightarrow> decode_error + bool list list" where
  "hint_bit_unpack y =
     (if length y \<noteq> OMEGA + K then Inl (HintLength (length y))
      else case hint_polys y [0..<K] 0 (replicate K (replicate N False)) of
          Inl e \<Rightarrow> Inl e
        | Inr (k, h) \<Rightarrow>
            (case find (\<lambda>j. y ! j \<noteq> 0) [k..<OMEGA] of
               Some j \<Rightarrow> Inl (HintPadding j)
             | None \<Rightarrow> Inr h))"

definition sig_decode :: "bytes \<Rightarrow> decode_error + bytes \<times> PolyVec \<times> bool list list" where
  "sig_decode sig =
     (if length sig \<noteq> SIG_BYTES then Inl (SigLength (length sig))
      else let c_tilde = take LAMBDA_BYTES sig;
               z_stride = N * Z_BITS div 8;
               z_polys = map (\<lambda>j. from_coeffs
                 (bit_unpack (take z_stride (drop (LAMBDA_BYTES + j * z_stride) sig)) GAMMA1 Z_BITS)) [0..<L];
               hint_off = LAMBDA_BYTES + L * z_stride
           in case hint_bit_unpack (take (OMEGA + K) (drop hint_off sig)) of
                Inl e \<Rightarrow> Inl e
              | Inr hints \<Rightarrow> Inr (c_tilde, PolyVec z_polys, hints))"

definition w1_encode :: "PolyVec \<Rightarrow> bytes" where
  "w1_encode w1 = foldl (\<lambda>out p. out @ simple_bit_pack (coeffs p) W1_BITS) [] (pv_polys w1)"

section \<open>Bytes as bit streams\<close>

lemma concat_map_nth:
  assumes "\<And>x. x \<in> set xs \<Longrightarrow> length (f x) = n" "i < length xs" "j < n"
  shows "concat (map f xs) ! (i * n + j) = f (xs ! i) ! j"
  using assms
proof (induction xs arbitrary: i)
  case (Cons x xs)
  then show ?case by (cases i) (simp_all add: nth_append add.assoc)
qed simp

lemma length_concat_map:
  "(\<And>x. x \<in> set xs \<Longrightarrow> length (f x) = n) \<Longrightarrow> length (concat (map f xs)) = length xs * n"
  by (induction xs) auto


definition bit_at :: "bytes \<Rightarrow> nat \<Rightarrow> bool" where
  "bit_at bs p = bit (bs ! (p div 8)) (p mod 8)"

lemma and_one_bit: "(drop_bit n w AND 1 = 1) = bit w n" for w :: "'a::len word"
  by (simp add: bit_iff_odd_drop_bit and_one_eq odd_iff_mod_2_eq_one)

lemma and_one_bit_int: "(drop_bit n v AND 1 = 1) = bit v n" for v :: int
  by (simp add: bit_iff_odd_drop_bit and_one_eq odd_iff_mod_2_eq_one)

lemma bytes_eq_bits:
  assumes "length xs = length ys" "\<And>p. p < 8 * length xs \<Longrightarrow> bit_at xs p = bit_at ys p"
  shows "xs = ys"
proof (rule nth_equalityI)
  fix i assume i: "i < length xs"
  show "xs ! i = ys ! i"
  proof (rule bit_word_eqI)
    fix n assume "n < LENGTH(8)"
    then show "bit (xs ! i) n = bit (ys ! i) n"
      using assms(2) [of "8 * i + n"] i by (simp add: bit_at_def)
  qed
qed (fact assms(1))

lemma pack_stream:
  assumes "pos + length bs \<le> 8 * length out" "p < 8 * length out"
    "\<And>q. pos \<le> q \<Longrightarrow> q < 8 * length out \<Longrightarrow> \<not> bit_at out q"
  shows "snd (foldl pack_bit (out, pos) bs) = pos + length bs"
    and "length (fst (foldl pack_bit (out, pos) bs)) = length out"
    and "bit_at (fst (foldl pack_bit (out, pos) bs)) p =
      (if pos \<le> p \<and> p < pos + length bs then bs ! (p - pos) else bit_at out p)"
proof -
  have "snd (foldl pack_bit (out, pos) bs) = pos + length bs \<and>
    length (fst (foldl pack_bit (out, pos) bs)) = length out \<and>
    bit_at (fst (foldl pack_bit (out, pos) bs)) p =
      (if pos \<le> p \<and> p < pos + length bs then bs ! (p - pos) else bit_at out p)"
    using assms
  proof (induction bs arbitrary: out pos)
    case (Cons b bs)
    define out' where "out' = (if b then out[pos div 8 := out ! (pos div 8) OR push_bit (pos mod 8) 1] else out)"
    have len: "length out' = length out" by (simp add: out'_def)
    have q: "bit_at out' q = (if q = pos then b else bit_at out q)" if "q < 8 * length out" for q
    proof -
      have "\<not> bit_at out pos" using Cons.prems by simp
      moreover have "q = pos \<longleftrightarrow> q div 8 = pos div 8 \<and> q mod 8 = pos mod 8"
        by (metis div_mult_mod_eq)
      ultimately show ?thesis using that Cons.prems
        by (auto simp: out'_def bit_at_def nth_list_update bit_simps)
    qed
    have "pos + 1 + length bs \<le> 8 * length out'" "p < 8 * length out'"
      using Cons.prems len by simp_all
    from Cons.IH [OF this] q len Cons.prems(3)
    have "snd (foldl pack_bit (out', pos + 1) bs) = pos + 1 + length bs \<and>
      length (fst (foldl pack_bit (out', pos + 1) bs)) = length out' \<and>
      bit_at (fst (foldl pack_bit (out', pos + 1) bs)) p =
      (if pos + 1 \<le> p \<and> p < pos + 1 + length bs then bs ! (p - (pos + 1)) else bit_at out' p)"
      by simp
    moreover have "foldl pack_bit (out, pos) (b # bs) = foldl pack_bit (out', pos + 1) bs"
      by (simp add: pack_bit_def out'_def)
    ultimately show ?case using q [of p] Cons.prems len by (auto simp: nth_Cons')
  qed auto
  then show "snd (foldl pack_bit (out, pos) bs) = pos + length bs"
    "length (fst (foldl pack_bit (out, pos) bs)) = length out"
    "bit_at (fst (foldl pack_bit (out, pos) bs)) p =
      (if pos \<le> p \<and> p < pos + length bs then bs ! (p - pos) else bit_at out p)" by blast+
qed


definition bit_stream :: "i64 list \<Rightarrow> nat \<Rightarrow> bool list" where
  "bit_stream vs bits = concat (map (\<lambda>v. map (bit v) [0..<bits]) vs)"

lemma length_bit_stream [simp]: "length (bit_stream vs bits) = length vs * bits"
  unfolding bit_stream_def by (rule length_concat_map) simp

lemma bit_stream_nth: "i < length vs \<Longrightarrow> j < bits \<Longrightarrow> bit_stream vs bits ! (i * bits + j) = bit (vs ! i) j"
  unfolding bit_stream_def by (subst concat_map_nth [where n = bits]) simp_all

lemma pack_bits_stream:
  "pack_bits vs bits = fst (foldl pack_bit (replicate ((length vs * bits + 7) div 8) 0, 0) (bit_stream vs bits))"
proof -
  have "foldl (\<lambda>st b. pack_bit st (bit v b)) st bs = foldl pack_bit st (map (bit v) bs)" for st bs and v :: int
    by (simp add: foldl_map)
  then have "foldl (\<lambda>st v. foldl (\<lambda>st b. pack_bit st (bit v b)) st [0..<bits]) st vs
      = foldl pack_bit st (bit_stream vs bits)" for st
    by (induction vs arbitrary: st) (simp_all add: bit_stream_def)
  then show ?thesis by (simp add: pack_bits_def and_one_bit_int Let_def)
qed

lemma length_pack_bits [len_simps]: "length (pack_bits vs bits) = (length vs * bits + 7) div 8"
proof -
  have "length (fst (foldl pack_bit st bs)) = length (fst st)" for st bs
    by (induction bs arbitrary: st) (simp_all add: pack_bit_def split: prod.split)
  then show ?thesis unfolding pack_bits_stream by simp
qed

lemma pack_bits_bit:
  assumes "p < 8 * ((length vs * bits + 7) div 8)"
  shows "bit_at (pack_bits vs bits) p = (p < length vs * bits \<and> bit_stream vs bits ! p)"
proof -
  have z: "\<not> bit_at (replicate ((length vs * bits + 7) div 8) 0) q"
    if "q < 8 * ((length vs * bits + 7) div 8)" for q
    using that by (simp add: bit_at_def)
  show ?thesis unfolding pack_bits_stream
    by (subst pack_stream(3)) (use assms z in auto)
qed

lemma unpack_value:
  assumes "pos + bits \<le> 8 * length bs"
  shows "snd (foldl (unpack_bit bs) (0, pos) [0..<bits]) = pos + bits"
    and "bit (fst (foldl (unpack_bit bs) (0, pos) [0..<bits])) n = (n < bits \<and> bit_at bs (pos + n))"
proof -
  have "snd (foldl (unpack_bit bs) (0, pos) [0..<bits]) = pos + bits \<and>
    bit (fst (foldl (unpack_bit bs) (0, pos) [0..<bits])) n = (n < bits \<and> bit_at bs (pos + n))"
    using assms
  proof (induction bits arbitrary: n)
    case (Suc b)
    define r where "r = foldl (unpack_bit bs) (0, pos) [0..<b]"
    have r: "snd r = pos + b" "\<And>n. bit (fst r) n = (n < b \<and> bit_at bs (pos + n))"
      using Suc by (simp_all add: r_def)
    have "(pos + b) div 8 < length bs" using Suc.prems by (simp add: div_less_iff_less_mult)
    then have "foldl (unpack_bit bs) (0, pos) [0..<Suc b] =
        (if bit_at bs (pos + b) then fst r OR push_bit b 1 else fst r, pos + b + 1)"
      using r(1) by (simp add: r_def [symmetric] unpack_bit_def case_prod_beta and_one_bit bit_at_def)
    then show ?case by (auto simp: r(2) bit_or_iff bit_exp_iff less_Suc_eq)
  qed simp
  then show "snd (foldl (unpack_bit bs) (0, pos) [0..<bits]) = pos + bits"
    and "bit (fst (foldl (unpack_bit bs) (0, pos) [0..<bits])) n = (n < bits \<and> bit_at bs (pos + n))" by blast+
qed

lemma unpack_loop_eq:
  "pos + n * bits \<le> 8 * length bs \<Longrightarrow>
   unpack_loop bs bits pos n =
     map (\<lambda>i. fst (foldl (unpack_bit bs) (0, pos + i * bits) [0..<bits])) [0..<n]"
proof (induction n arbitrary: pos)
  case (Suc n)
  have s: "snd (foldl (unpack_bit bs) (0, pos) [0..<bits]) = pos + bits"
    using Suc.prems by (intro unpack_value) simp
  have "unpack_loop bs bits pos (Suc n) = fst (foldl (unpack_bit bs) (0, pos) [0..<bits]) # unpack_loop bs bits (pos + bits) n"
    using s by (simp add: case_prod_beta Let_def)
  also have "\<dots> = fst (foldl (unpack_bit bs) (0, pos) [0..<bits]) #
      map (\<lambda>i. fst (foldl (unpack_bit bs) (0, pos + bits + i * bits) [0..<bits])) [0..<n]"
    using Suc by simp
  also have "\<dots> = map (\<lambda>i. fst (foldl (unpack_bit bs) (0, pos + i * bits) [0..<bits])) [0..<Suc n]"
    by (simp add: upt_conv_Cons map_Suc_upt [symmetric] add.assoc del: upt_Suc)
  finally show ?case .
qed simp

lemma length_unpack_loop: "length (unpack_loop bs bits pos n) = n"
  by (induction n arbitrary: pos) (simp_all add: case_prod_beta Let_def)

lemma length_unpack_bits [len_simps]: "length (unpack_bits bs bits n) = n"
  by (simp add: unpack_bits_def length_unpack_loop)

lemma unpack_bits_bit:
  assumes "n * bits \<le> 8 * length bs" "i < n"
  shows "bit (unpack_bits bs bits n ! i) b = (b < bits \<and> bit_at bs (i * bits + b))"
proof -
  have "i * bits + bits \<le> n * bits" using assms(2) by (metis Suc_leI add.commute mult_Suc mult_le_mono1)
  with assms show ?thesis
    by (simp add: unpack_bits_def unpack_loop_eq unpack_value)
qed

lemma unpack_bits_range:
  assumes "n * bits \<le> 8 * length bs" "i < n"
  shows "0 \<le> unpack_bits bs bits n ! i \<and> unpack_bits bs bits n ! i < 2 ^ bits"
proof -
  have "take_bit bits (unpack_bits bs bits n ! i) = unpack_bits bs bits n ! i"
    by (rule bit_eqI) (auto simp: bit_take_bit_iff unpack_bits_bit [OF assms])
  then show ?thesis by (metis take_bit_nonnegative take_bit_int_less_exp)
qed

section \<open>Round trips of the bit packing\<close>

lemma unpack_pack_bits:
  assumes "\<And>v. v \<in> set vs \<Longrightarrow> 0 \<le> v \<and> v < 2 ^ bits"
  shows "unpack_bits (pack_bits vs bits) bits (length vs) = vs"
proof (rule nth_equalityI)
  fix i assume "i < length (unpack_bits (pack_bits vs bits) bits (length vs))"
  then have i: "i < length vs" by (simp add: len_simps)
  have fit: "length vs * bits \<le> 8 * length (pack_bits vs bits)" by (simp add: len_simps)
  have top: "i * bits + bits \<le> length vs * bits" using i by (metis Suc_leI add.commute mult_Suc mult_le_mono1)
  show "unpack_bits (pack_bits vs bits) bits (length vs) ! i = vs ! i"
  proof (rule bit_eqI)
    fix b
    have "take_bit bits (vs ! i) = vs ! i" using assms i by (simp add: take_bit_int_eq_self_iff)
    then have "bit (vs ! i) b = (b < bits \<and> bit (vs ! i) b)" by (metis bit_take_bit_iff)
    moreover have "bit_at (pack_bits vs bits) (i * bits + b) = bit (vs ! i) b" if "b < bits"
      using that top i by (subst pack_bits_bit) (auto simp: bit_stream_nth)
    ultimately show "bit (unpack_bits (pack_bits vs bits) bits (length vs) ! i) b = bit (vs ! i) b"
      using fit i by (auto simp: unpack_bits_bit)
  qed
qed (simp add: len_simps)

lemma pack_unpack_bits:
  assumes "n * bits = 8 * length bs" "0 < bits"
  shows "pack_bits (unpack_bits bs bits n) bits = bs"
proof (rule bytes_eq_bits)
  have l: "(n * bits + 7) div 8 = length bs" using assms by simp
  then show "length (pack_bits (unpack_bits bs bits n) bits) = length bs" by (simp add: len_simps)
  fix p assume "p < 8 * length (pack_bits (unpack_bits bs bits n) bits)"
  then have p: "p < n * bits" using l assms by (simp add: len_simps)
  define i b where "i = p div bits" and "b = p mod bits"
  have ib: "p = i * bits + b" "b < bits" "i < n"
    using p assms(2) by (simp_all add: i_def b_def div_less_iff_less_mult)
  have "bit_at (pack_bits (unpack_bits bs bits n) bits) p = bit (unpack_bits bs bits n ! i) b"
    using p l assms ib by (subst pack_bits_bit) (simp_all add: len_simps bit_stream_nth)
  then show "bit_at (pack_bits (unpack_bits bs bits n) bits) p = bit_at bs p"
    using ib assms by (simp add: unpack_bits_bit)
qed

text \<open>\<open>bit_unpack\<close> yields coefficients in \<open>(upper - 2^bits, upper]\<close> and inverts \<open>bit_pack\<close> there.\<close>

lemma length_bit_unpack [len_simps]: "length (bit_unpack v upper bits) = 256" "length (simple_bit_unpack v bits) = 256"
  by (simp_all add: bit_unpack_def simple_bit_unpack_def len_simps N_def)

lemma bit_unpack_range:
  assumes "256 * bits \<le> 8 * length v" "c \<in> set (bit_unpack v upper bits)"
  shows "upper - 2 ^ bits < c \<and> c \<le> upper"
  using assms unpack_bits_range [of 256 bits v]
  by (auto simp: bit_unpack_def N_def in_set_conv_nth len_simps)

lemma bit_unpack_pack:
  assumes "length w = 256" "\<And>c. c \<in> set w \<Longrightarrow> upper - 2 ^ bits < c \<and> c \<le> upper"
  shows "bit_unpack (bit_pack w upper bits) upper bits = w"
proof -
  have "unpack_bits (pack_bits (map (\<lambda>c. upper - c) w) bits) bits (length (map (\<lambda>c. upper - c) w))
      = map (\<lambda>c. upper - c) w"
    by (rule unpack_pack_bits) (use assms(2) in fastforce)
  then show ?thesis by (simp add: bit_unpack_def bit_pack_def N_def assms(1) map_idI)
qed

lemma bit_pack_unpack:
  assumes "256 * bits = 8 * length v" "0 < bits"
  shows "bit_pack (bit_unpack v upper bits) upper bits = v"
  using pack_unpack_bits [OF assms] by (simp add: bit_unpack_def bit_pack_def N_def o_def)

lemma simple_bit_pack_unpack:
  "256 * bits = 8 * length v \<Longrightarrow> 0 < bits \<Longrightarrow> simple_bit_pack (simple_bit_unpack v bits) bits = v"
  by (simp add: simple_bit_pack_def simple_bit_unpack_def N_def pack_unpack_bits)

lemma simple_bit_unpack_pack:
  "length w = 256 \<Longrightarrow> (\<And>c. c \<in> set w \<Longrightarrow> 0 \<le> c \<and> c < 2 ^ bits) \<Longrightarrow>
   simple_bit_unpack (simple_bit_pack w bits) bits = w"
  using unpack_pack_bits [of w bits] by (simp add: simple_bit_pack_def simple_bit_unpack_def N_def)


section \<open>The hint encoding is canonical\<close>

definition hint_idx :: "bool list \<Rightarrow> nat list" where
  "hint_idx hi = filter (\<lambda>j. hi ! j) [0..<256]"

definition set_hints :: "bytes \<Rightarrow> nat list \<Rightarrow> bool list \<Rightarrow> bool list" where
  "set_hints y ps hi = foldl (\<lambda>hi q. hi[unat (y ! q) := True]) hi ps"

lemma length_set_hints [simp]: "length (set_hints y ps hi) = length hi"
  unfolding set_hints_def by (induction ps arbitrary: hi) simp_all

lemma set_hints_nth:
  "j < length hi \<Longrightarrow> set_hints y ps hi ! j \<longleftrightarrow> hi ! j \<or> j \<in> (\<lambda>q. unat (y ! q)) ` set ps"
proof (induction ps arbitrary: hi)
  case (Cons a ps)
  have "set_hints y (a # ps) hi = set_hints y ps (hi[unat (y ! a) := True])" by (simp add: set_hints_def)
  with Cons show ?case by (cases "j = unat (y ! a)") auto
qed (simp add: set_hints_def)

lemma upt_head: "p < ki \<Longrightarrow> [p..<ki] = p # [Suc p..<ki]"
  by (rule upt_conv_Cons)

lemma sorted_wrt_upt_step:
  fixes f :: "nat \<Rightarrow> 'a::linorder"
  assumes "p < ki"
  shows "sorted_wrt (<) (map f [p..<ki]) \<longleftrightarrow>
    (Suc p < ki \<longrightarrow> f p < f (Suc p)) \<and> sorted_wrt (<) (map f [Suc p..<ki])"
proof (cases "Suc p < ki")
  case True
  then show ?thesis unfolding upt_head [OF assms] upt_head [OF True] by auto
next
  case False
  with assms show ?thesis by (simp add: upt_head)
qed

lemma hint_indices_Inr:
  assumes "k \<le> p"
  shows "hint_indices y k [p..<ki] prev hi = Inr hi' \<longleftrightarrow>
    sorted_wrt (<) (map ((!) y) [p..<ki]) \<and> (k < p \<and> p < ki \<longrightarrow> prev < y ! p)
    \<and> hi' = set_hints y [p..<ki] hi"
  using assms
proof (induction "ki - p" arbitrary: p prev hi)
  case 0
  then show ?case by (auto simp: set_hints_def)
next
  case (Suc n)
  then have p: "p < ki" by simp
  have "hint_indices y k [p..<ki] prev hi = Inr hi' \<longleftrightarrow>
      \<not> (k < p \<and> y ! p \<le> prev) \<and> hint_indices y k [Suc p..<ki] (y ! p) (hi[unat (y ! p) := True]) = Inr hi'"
    by (simp add: upt_head [OF p] Let_def)
  also have "hint_indices y k [Suc p..<ki] (y ! p) (hi[unat (y ! p) := True]) = Inr hi' \<longleftrightarrow>
      sorted_wrt (<) (map ((!) y) [Suc p..<ki]) \<and> (k < Suc p \<and> Suc p < ki \<longrightarrow> y ! p < y ! Suc p)
      \<and> hi' = set_hints y [Suc p..<ki] (hi[unat (y ! p) := True])"
    by (rule Suc.hyps(1)) (use Suc in simp_all)
  finally show ?case
    using Suc.prems p sorted_wrt_upt_step [OF p, of "(!) y"]
    by (auto simp: set_hints_def upt_head [OF p])
qed

lemma sorted_wrt_unat: "sorted_wrt (<) (map unat ws) \<longleftrightarrow> sorted_wrt (<) ws" for ws :: "u8 list"
  by (induction ws) (simp_all add: word_less_nat_alt)

lemma sorted_hint_idx: "sorted_wrt (<) (hint_idx hi)"
  unfolding hint_idx_def by (rule sorted_wrt_filter) simp

lemma set_hint_idx: "set (hint_idx hi) = {j. j < 256 \<and> hi ! j}"
  by (auto simp: hint_idx_def)

lemma strict_sorted_eqI:
  "sorted_wrt (<) xs \<Longrightarrow> sorted_wrt (<) ys \<Longrightarrow> set xs = set ys \<Longrightarrow> xs = ys" for xs ys :: "nat list"
  using sorted_distinct_set_unique strict_sorted_iff by blast

text \<open>A segment decodes exactly when it is the increasing list of the indices of its polynomial.\<close>

lemma hint_indices_canonical:
  "hint_indices y k [k..<ki] 0 (replicate 256 False) = Inr hi \<longleftrightarrow>
     length hi = 256 \<and> map (\<lambda>q. unat (y ! q)) [k..<ki] = hint_idx hi"
proof
  assume "hint_indices y k [k..<ki] 0 (replicate 256 False) = Inr hi"
  then have s: "sorted_wrt (<) (map ((!) y) [k..<ki])" and hi: "hi = set_hints y [k..<ki] (replicate 256 False)"
    by (simp_all add: hint_indices_Inr)
  have "map (\<lambda>q. unat (y ! q)) [k..<ki] = hint_idx hi"
  proof (rule strict_sorted_eqI [OF _ sorted_hint_idx])
    show "sorted_wrt (<) (map (\<lambda>q. unat (y ! q)) [k..<ki])"
      using s sorted_wrt_unat [of "map ((!) y) [k..<ki]"] by (simp add: o_def)
    have "unat (y ! q) < 256" for q using unsigned_less [of "y ! q", where 'a = nat] by simp
    then show "set (map (\<lambda>q. unat (y ! q)) [k..<ki]) = set (hint_idx hi)"
      by (auto simp: set_hint_idx hi set_hints_nth)
  qed
  then show "length hi = 256 \<and> map (\<lambda>q. unat (y ! q)) [k..<ki] = hint_idx hi" by (simp add: hi)
next
  assume a: "length hi = 256 \<and> map (\<lambda>q. unat (y ! q)) [k..<ki] = hint_idx hi"
  then have "sorted_wrt (<) (map ((!) y) [k..<ki])"
    using sorted_wrt_unat [of "map ((!) y) [k..<ki]"] sorted_hint_idx [of hi] by (simp add: o_def)
  moreover have "hi = set_hints y [k..<ki] (replicate 256 False)"
  proof (rule nth_equalityI)
    fix j assume "j < length hi"
    then have j: "j < 256" using a by simp
    have "(\<lambda>q. unat (y ! q)) ` set [k..<ki] = set (hint_idx hi)" using a by (metis set_map)
    then show "hi ! j = set_hints y [k..<ki] (replicate 256 False) ! j"
      using j by (simp add: set_hints_nth set_hint_idx)
  qed (use a in simp)
  ultimately show "hint_indices y k [k..<ki] 0 (replicate 256 False) = Inr hi"
    by (simp add: hint_indices_Inr)
qed

text \<open>
  \<open>hint_code y i k hs k'\<close>: from polynomial \<open>i\<close> and index position \<open>k\<close> on, the bytes \<open>y\<close> are the
  encoding of the hint vectors \<open>hs\<close>, whose index bytes end at \<open>k'\<close>.
\<close>

fun hint_code :: "bytes \<Rightarrow> nat \<Rightarrow> nat \<Rightarrow> bool list list \<Rightarrow> nat \<Rightarrow> bool" where
  "hint_code y i k [] k' \<longleftrightarrow> k' = k"
| "hint_code y i k (hi # hs) k' \<longleftrightarrow>
     (let ki = unat (y ! (OMEGA + i)) in
      k \<le> ki \<and> ki \<le> OMEGA \<and> length hi = 256 \<and> map (\<lambda>q. unat (y ! q)) [k..<ki] = hint_idx hi
      \<and> hint_code y (Suc i) ki hs k')"

lemma hint_polys_code:
  assumes "i \<le> K" "length h = K" "drop i h = replicate (K - i) (replicate 256 False)"
  shows "hint_polys y [i..<K] k h = Inr (k', h') \<longleftrightarrow>
    length h' = K \<and> take i h' = take i h \<and> hint_code y i k (drop i h') k'"
  using assms
proof (induction "K - i" arbitrary: i k h)
  case 0
  then show ?case by auto
next
  case (Suc n)
  then have i: "i < K" by simp
  have hi: "h ! i = replicate 256 False"
    using Suc.prems i by (metis Cons_nth_drop_Suc nth_Cons_0 nth_replicate zero_less_diff nth_drop add.right_neutral le_refl)
  define ki where "ki = unat (y ! (OMEGA + i))"
  have dr: "drop (Suc i) (h[i := hi']) = replicate (K - Suc i) (replicate 256 False)" for hi'
    using Suc.prems(3) by (metis Cons_nth_drop_Suc Suc.prems(2) Suc_diff_Suc drop_update_cancel i lessI list.inject replicate_Suc)
  have ih: "hint_polys y [Suc i..<K] ki (h[i := hi']) = Inr (k', h') \<longleftrightarrow>
      length h' = K \<and> take (Suc i) h' = take (Suc i) (h[i := hi']) \<and> hint_code y (Suc i) ki (drop (Suc i) h') k'" for hi'
    by (rule Suc.hyps(1)) (use Suc i dr in simp_all)
  have tk: "take (Suc i) h' = take (Suc i) (h[i := hi']) \<longleftrightarrow> take i h' = take i h \<and> h' ! i = hi'"
    if "length h' = K" for hi'
    using i that Suc.prems(2) by (simp add: take_Suc_conv_app_nth)
  have h_rec: "hint_polys y [i..<K] k h = Inr (k', h') \<longleftrightarrow>
      \<not> (ki < k \<or> ki > OMEGA) \<and>
      (\<exists>hi'. hint_indices y k [k..<ki] 0 (h ! i) = Inr hi' \<and> hint_polys y [Suc i..<K] ki (h[i := hi']) = Inr (k', h'))"
    by (simp add: upt_head [OF i] Let_def ki_def split: sum.split)
  show ?case
  proof (cases "length h' = K")
    case False
    then show ?thesis unfolding h_rec ih by simp
  next
    case True
    have "drop i h' = h' ! i # drop (Suc i) h'" using i True by (simp add: Cons_nth_drop_Suc)
    then have c: "hint_code y i k (drop i h') k' \<longleftrightarrow> k \<le> ki \<and> ki \<le> OMEGA \<and> length (h' ! i) = 256
        \<and> map (\<lambda>q. unat (y ! q)) [k..<ki] = hint_idx (h' ! i) \<and> hint_code y (Suc i) ki (drop (Suc i) h') k'"
      by (simp only: hint_code.simps Let_def ki_def [symmetric])
    show ?thesis unfolding h_rec ih hi hint_indices_canonical c tk [OF True]
      using True by (simp only: not_less not_le simp_thms de_Morgan_disj) blast
  qed
qed

lemma hint_bit_unpack_code:
  "hint_bit_unpack y = Inr h \<longleftrightarrow>
     length y = OMEGA + K \<and> length h = K \<and>
     (\<exists>k. hint_code y 0 0 h k \<and> (\<forall>j\<in>{k..<OMEGA}. y ! j = 0))"
proof -
  have p: "hint_polys y [0..<K] 0 (replicate K (replicate N False)) = Inr (k, h') \<longleftrightarrow>
      length h' = K \<and> hint_code y 0 0 h' k" for k h'
    using hint_polys_code [of 0 "replicate K (replicate N False)" y 0 k h'] by (simp add: N_def)
  have f: "find (\<lambda>j. y ! j \<noteq> 0) [k..<OMEGA] = None \<longleftrightarrow> (\<forall>j\<in>{k..<OMEGA}. y ! j = 0)" for k
    by (auto simp: find_None_iff)
  have "hint_bit_unpack y = Inr h \<longleftrightarrow> length y = OMEGA + K \<and>
      (\<exists>k. hint_polys y [0..<K] 0 (replicate K (replicate N False)) = Inr (k, h)
         \<and> find (\<lambda>j. y ! j \<noteq> 0) [k..<OMEGA] = None)"
    by (auto simp: hint_bit_unpack_def split: sum.split option.split)
  then show ?thesis by (auto simp only: p f)
qed

lemma hint_code_weight:
  "hint_code y i k hs k' \<Longrightarrow> k \<le> k' \<and> sum_list (map (\<lambda>hi. length (hint_idx hi)) hs) = k' - k
     \<and> (k \<le> OMEGA \<longrightarrow> k' \<le> OMEGA) \<and> (\<forall>hi\<in>set hs. length hi = 256)"
proof (induction y i k hs k' rule: hint_code.induct)
  case (2 y i k hi hs k')
  define ki where "ki = unat (y ! (OMEGA + i))"
  have c: "k \<le> ki" "ki \<le> OMEGA" "length hi = 256" "hint_code y (Suc i) ki hs k'"
    "map (\<lambda>q. unat (y ! q)) [k..<ki] = hint_idx hi"
    using "2.prems" by (simp_all add: ki_def Let_def)
  have "length (hint_idx hi) = ki - k" by (metis c(5) length_map length_upt)
  with "2.IH" [of ki] c show ?case by (simp add: ki_def)
qed simp

lemma hint_code_inj:
  "hint_code y i k hs k1 \<Longrightarrow> hint_code z i k hs k2 \<Longrightarrow>
   k1 = k2 \<and> (\<forall>j\<in>{k..<k1}. y ! j = z ! j) \<and> (\<forall>j\<in>{i..<i + length hs}. y ! (OMEGA + j) = z ! (OMEGA + j))"
proof (induction y i k hs k1 rule: hint_code.induct)
  case (2 y i k hi hs k1)
  define ki where "ki = unat (y ! (OMEGA + i))"
  define kj where "kj = unat (z ! (OMEGA + i))"
  have a: "k \<le> ki" "map (\<lambda>q. unat (y ! q)) [k..<ki] = hint_idx hi" "hint_code y (Suc i) ki hs k1"
    using "2.prems"(1) by (simp_all add: ki_def Let_def)
  have b: "k \<le> kj" "map (\<lambda>q. unat (z ! q)) [k..<kj] = hint_idx hi" "hint_code z (Suc i) kj hs k2"
    using "2.prems"(2) by (simp_all add: kj_def Let_def)
  have "ki - k = kj - k" using a(2) b(2) by (metis length_map length_upt)
  then have e: "ki = kj" using a(1) b(1) by simp
  then have off: "y ! (OMEGA + i) = z ! (OMEGA + i)" by (simp add: ki_def kj_def word_unat_eq_iff)
  have seg: "y ! q = z ! q" if "q \<in> {k..<ki}" for q
  proof -
    have "map (\<lambda>q. unat (y ! q)) [k..<ki] = map (\<lambda>q. unat (z ! q)) [k..<ki]"
      using a(2) b(2) unfolding e by (rule trans [OF _ sym])
    then have "unat (y ! q) = unat (z ! q)" unfolding map_eq_conv set_upt using that by blast
    then show ?thesis by (rule word_unat_eq_iff [THEN iffD2])
  qed
  have ih: "k1 = k2 \<and> (\<forall>j\<in>{ki..<k1}. y ! j = z ! j) \<and> (\<forall>j\<in>{Suc i..<Suc i + length hs}. y ! (OMEGA + j) = z ! (OMEGA + j))"
    by (rule "2.IH" [OF ki_def a(3) b(3) [folded e]])
  have "j \<in> {k..<ki} \<or> j \<in> {ki..<k1}" if "j \<in> {k..<k1}" for j using that by fastforce
  moreover have "j = i \<or> j \<in> {Suc i..<Suc i + length hs}" if "j \<in> {i..<i + length (hi # hs)}" for j
    using that by fastforce
  ultimately show ?case using ih seg off by metis
qed simp

lemma hint_bit_unpack_inj:
  assumes "hint_bit_unpack y = Inr h" "hint_bit_unpack z = Inr h"
  shows "y = z"
proof -
  obtain k1 k2 where y: "length y = OMEGA + K" "length h = K" "hint_code y 0 0 h k1" "\<forall>j\<in>{k1..<OMEGA}. y ! j = 0"
    and z: "length z = OMEGA + K" "hint_code z 0 0 h k2" "\<forall>j\<in>{k2..<OMEGA}. z ! j = 0"
    using assms unfolding hint_bit_unpack_code by blast
  have c: "k1 = k2" "\<And>j. j < k1 \<Longrightarrow> y ! j = z ! j" "\<And>j. j < K \<Longrightarrow> y ! (OMEGA + j) = z ! (OMEGA + j)"
    using hint_code_inj [OF y(3) z(2)] y(2) by auto
  show ?thesis
  proof (rule nth_equalityI)
    fix j assume "j < length y"
    then consider "j < k1" | "k1 \<le> j" "j < OMEGA" | i where "j = OMEGA + i" "i < K"
      using y(1) by (metis add_less_cancel_left le_iff_add not_less)
    then show "y ! j = z ! j" using c y(4) z(3) by cases auto
  qed (simp add: y z)
qed

lemma hint_bit_unpack_shape:
  assumes "hint_bit_unpack y = Inr h"
  shows "length h = K \<and> (\<forall>hi\<in>set h. length hi = N)
    \<and> sum_list (map (\<lambda>hi. length (filter id hi)) h) \<le> OMEGA"
proof -
  obtain k where c: "length h = K" "hint_code y 0 0 h k" using assms hint_bit_unpack_code by blast
  note w = hint_code_weight [OF c(2)]
  have "length (filter id hi) = length (hint_idx hi)" if "length hi = 256" for hi
  proof -
    have "filter id (map ((!) hi) [0..<256]) = map ((!) hi) (hint_idx hi)" by (simp add: hint_idx_def filter_map o_def)
    then show ?thesis using that by (metis length_map map_nth)
  qed
  then have "map (\<lambda>hi. length (filter id hi)) h = map (\<lambda>hi. length (hint_idx hi)) h"
    using w by (intro map_cong refl) auto
  then have "sum_list (map (\<lambda>hi. length (filter id hi)) h) = sum_list (map (\<lambda>hi. length (hint_idx hi)) h)"
    by (rule arg_cong)
  also have "\<dots> \<le> OMEGA" using w by simp
  finally show ?thesis using w c(1) by (simp add: N_def)
qed


section \<open>The key and signature codecs lose no information\<close>

lemma chunk_eqD:
  assumes "i < n" "\<forall>i<n. take s (drop (a + i * s) xs) = take s (drop (a + i * s) ys)"
    "length xs = length ys" "j < s" "a + i * s + j < length xs"
  shows "xs ! (a + i * s + j) = ys ! (a + i * s + j)"
proof -
  have "take s (drop (a + i * s) xs) ! j = take s (drop (a + i * s) ys) ! j" using assms(1,2) by simp
  with assms(3-5) show ?thesis by (simp add: add.assoc)
qed

lemma chunks_eqI:
  assumes "length xs = a + n * s" "length ys = a + n * s" "take a xs = take a ys"
    "\<forall>i<n. take s (drop (a + i * s) xs) = take s (drop (a + i * s) ys)"
  shows "xs = ys"
proof (rule nth_equalityI)
  fix p assume p: "p < length xs"
  show "xs ! p = ys ! p"
  proof (cases "p < a")
    case True
    then show ?thesis using assms(3) by (metis nth_take)
  next
    case False
    define i j where "i = (p - a) div s" and "j = (p - a) mod s"
    have "0 < s" using False p assms(1) by (cases "s = 0") auto
    moreover have "p - a < n * s" using p assms(1) False by linarith
    ultimately have "i < n" "j < s" by (simp_all add: i_def j_def div_less_iff_less_mult)
    moreover have "p = a + i * s + j" using False by (simp add: i_def j_def)
    ultimately show ?thesis using chunk_eqD [OF _ assms(4), of i j] assms(1,2) p by simp
  qed
qed (use assms in simp)

lemma length_chunk: "a + (i + 1) * s \<le> length xs \<Longrightarrow> length (take s (drop (a + i * s) xs)) = s"
  by simp

lemma chunk_fits: "i < n \<Longrightarrow> (i + 1) * s \<le> n * s" for i n s :: nat
  by (rule mult_le_mono1) simp

lemma sizes:
  "PK_BYTES = 32 + K * 320" "N * T1_BITS div 8 = 320" "SIG_BYTES = 48 + L * 640 + (OMEGA + K)"
  "N * Z_BITS div 8 = 640" "LAMBDA_BYTES = 48"
  by (simp_all add: PK_BYTES_def T1_BITS_def N_def SIG_BYTES_def LAMBDA_BYTES_val Z_BITS_def K_def L_def OMEGA_def)

lemma pk_decode_eq:
  "pk_decode pk =
     (if length pk \<noteq> 32 + K * 320 then Inl (PkLength (length pk))
      else Inr (take 32 pk, PolyVec (map (\<lambda>i. from_coeffs (simple_bit_unpack (take 320 (drop (32 + i * 320) pk)) 10)) [0..<K])))"
  unfolding pk_decode_def Let_def sizes by (simp add: T1_BITS_def)

lemma sig_decode_eq:
  "sig_decode sig =
     (if length sig \<noteq> 48 + L * 640 + (OMEGA + K) then Inl (SigLength (length sig))
      else case hint_bit_unpack (drop (48 + L * 640) sig) of
          Inl e \<Rightarrow> Inl e
        | Inr hints \<Rightarrow> Inr (take 48 sig,
            PolyVec (map (\<lambda>j. from_coeffs (bit_unpack (take 640 (drop (48 + j * 640) sig)) GAMMA1 20)) [0..<L]), hints))"
  unfolding sig_decode_def Let_def sizes unfolding Z_BITS_def by simp

lemma from_coeffs_inj: "from_coeffs a = from_coeffs b \<longleftrightarrow> a = b"
  by (simp add: from_coeffs_def)

lemma simple_bit_unpack_inj:
  "256 * bits = 8 * length a \<Longrightarrow> 256 * bits = 8 * length b \<Longrightarrow> 0 < bits \<Longrightarrow>
   simple_bit_unpack a bits = simple_bit_unpack b bits \<Longrightarrow> a = b"
  by (metis simple_bit_pack_unpack)

lemma bit_unpack_inj:
  "256 * bits = 8 * length a \<Longrightarrow> 256 * bits = 8 * length b \<Longrightarrow> 0 < bits \<Longrightarrow>
   bit_unpack a upper bits = bit_unpack b upper bits \<Longrightarrow> a = b"
  by (metis bit_pack_unpack)

lemma pk_decode_inj_aux:
  assumes "pk_decode a = Inr x" "pk_decode b = Inr x"
  shows "a = b"
proof -
  have la: "length a = 32 + K * 320" and lb: "length b = 32 + K * 320"
    using assms unfolding pk_decode_eq by (auto split: if_splits)
  have e: "(take 32 a, PolyVec (map (\<lambda>i. from_coeffs (simple_bit_unpack (take 320 (drop (32 + i * 320) a)) 10)) [0..<K]))
      = (take 32 b, PolyVec (map (\<lambda>i. from_coeffs (simple_bit_unpack (take 320 (drop (32 + i * 320) b)) 10)) [0..<K]))"
    using assms la lb unfolding pk_decode_eq by (simp only: if_False simp_thms sum.inject) 
  then have c: "simple_bit_unpack (take 320 (drop (32 + i * 320) a)) 10 = simple_bit_unpack (take 320 (drop (32 + i * 320) b)) 10"
    if "i < K" for i using that by (simp add: from_coeffs_inj)
  show ?thesis
  proof (rule chunks_eqI [OF la lb])
    show "take 32 a = take 32 b" using e by simp
    show "\<forall>i<K. take 320 (drop (32 + i * 320) a) = take 320 (drop (32 + i * 320) b)"
    proof (intro allI impI)
      fix i assume i: "i < K"
      from c [OF i] show "take 320 (drop (32 + i * 320) a) = take 320 (drop (32 + i * 320) b)"
        by (rule simple_bit_unpack_inj [rotated 3]) (use chunk_fits [OF i, of 320] la lb in simp_all)
    qed
  qed
qed

lemma pk_decode_shape:
  assumes "pk_decode pk = Inr (rho, t1)"
  shows "length rho = 32" "length (pv_polys t1) = K"
    "\<And>p. p \<in> set (pv_polys t1) \<Longrightarrow> length (coeffs p) = 256 \<and> (\<forall>c\<in>set (coeffs p). 0 \<le> c \<and> c < 1024)"
proof -
  have l: "length pk = 32 + K * 320" and r: "rho = take 32 pk"
    and t: "t1 = PolyVec (map (\<lambda>i. from_coeffs (simple_bit_unpack (take 320 (drop (32 + i * 320) pk)) 10)) [0..<K])"
    using assms unfolding pk_decode_eq by (auto split: if_splits)
  show "length rho = 32" "length (pv_polys t1) = K" using l by (simp_all add: r t)
  fix p assume "p \<in> set (pv_polys t1)"
  then obtain i where i: "i < K" and p: "p = from_coeffs (simple_bit_unpack (take 320 (drop (32 + i * 320) pk)) 10)"
    by (auto simp: t)
  have "length (take 320 (drop (32 + i * 320) pk)) = 320" using chunk_fits [OF i, of 320] l by simp
  then have "0 \<le> unpack_bits (take 320 (drop (32 + i * 320) pk)) 10 256 ! k
      \<and> unpack_bits (take 320 (drop (32 + i * 320) pk)) 10 256 ! k < 1024" if "k < 256" for k
    using unpack_bits_range [of 256 10 "take 320 (drop (32 + i * 320) pk)" k] that by simp
  then show "length (coeffs p) = 256 \<and> (\<forall>c\<in>set (coeffs p). 0 \<le> c \<and> c < 1024)"
    by (auto simp: p from_coeffs_def len_simps in_set_conv_nth simple_bit_unpack_def N_def)
qed

lemma sig_decode_InrD:
  assumes "sig_decode sig = Inr (c, z, h)"
  shows "length sig = 48 + L * 640 + (OMEGA + K)" "c = take 48 sig"
    "z = PolyVec (map (\<lambda>j. from_coeffs (bit_unpack (take 640 (drop (48 + j * 640) sig)) GAMMA1 20)) [0..<L])"
    "hint_bit_unpack (drop (48 + L * 640) sig) = Inr h"
  using assms unfolding sig_decode_eq by (auto split: if_splits sum.splits)

lemma sig_decode_shape:
  assumes "sig_decode sig = Inr (c, z, h)"
  shows "length c = 48" "length (pv_polys z) = L"
    "\<And>p. p \<in> set (pv_polys z) \<Longrightarrow> length (coeffs p) = 256 \<and> (\<forall>x\<in>set (coeffs p). - GAMMA1 < x \<and> x \<le> GAMMA1)"
    "length h = K" "\<forall>hi\<in>set h. length hi = N" "sum_list (map (\<lambda>hi. length (filter id hi)) h) \<le> OMEGA"
proof -
  note d = sig_decode_InrD [OF assms]
  show "length c = 48" "length (pv_polys z) = L" using d by simp_all
  show "length h = K" "\<forall>hi\<in>set h. length hi = N" "sum_list (map (\<lambda>hi. length (filter id hi)) h) \<le> OMEGA"
    using hint_bit_unpack_shape [OF d(4)] by blast+
  fix p assume "p \<in> set (pv_polys z)"
  then obtain i where i: "i < L" and p: "p = from_coeffs (bit_unpack (take 640 (drop (48 + i * 640) sig)) GAMMA1 20)"
    by (auto simp: d(3))
  have "length (take 640 (drop (48 + i * 640) sig)) = 640" using chunk_fits [OF i, of 640] d(1) by simp
  then show "length (coeffs p) = 256 \<and> (\<forall>x\<in>set (coeffs p). - GAMMA1 < x \<and> x \<le> GAMMA1)"
    using bit_unpack_range [of 20 "take 640 (drop (48 + i * 640) sig)" _ GAMMA1]
    by (auto simp: p from_coeffs_def len_simps GAMMA1_def)
qed

lemma sig_decode_inj_aux:
  assumes "sig_decode a = Inr x" "sig_decode b = Inr x"
  shows "a = b"
proof -
  obtain c z h where x: "x = (c, z, h)" by (cases x) auto
  note d = sig_decode_InrD [OF assms(1) [unfolded x]] and e = sig_decode_InrD [OF assms(2) [unfolded x]]
  have tail: "drop (48 + L * 640) a = drop (48 + L * 640) b" using d(4) e(4) by (rule hint_bit_unpack_inj)
  have c: "bit_unpack (take 640 (drop (48 + i * 640) a)) GAMMA1 20 = bit_unpack (take 640 (drop (48 + i * 640) b)) GAMMA1 20"
    if "i < L" for i using that d(3) e(3) by (simp add: from_coeffs_inj)
  have "take (48 + L * 640) a = take (48 + L * 640) b"
  proof (rule chunks_eqI)
    show "length (take (48 + L * 640) a) = 48 + L * 640" "length (take (48 + L * 640) b) = 48 + L * 640"
      using d(1) e(1) by simp_all
    show "take 48 (take (48 + L * 640) a) = take 48 (take (48 + L * 640) b)" using d(2) e(2) by (simp add: min_def)
    show "\<forall>i<L. take 640 (drop (48 + i * 640) (take (48 + L * 640) a)) = take 640 (drop (48 + i * 640) (take (48 + L * 640) b))"
    proof (intro allI impI)
      fix i assume i: "i < L"
      have "take 640 (drop (48 + i * 640) a) = take 640 (drop (48 + i * 640) b)"
        using c [OF i] by (rule bit_unpack_inj [rotated 3]) (use chunk_fits [OF i, of 640] d(1) e(1) in simp_all)
      moreover have "take 640 (drop (48 + i * 640) (take (48 + L * 640) xs)) = take 640 (drop (48 + i * 640) xs)" for xs :: bytes
        using chunk_fits [OF i, of 640] by (simp add: drop_take min_def)
      ultimately show "take 640 (drop (48 + i * 640) (take (48 + L * 640) a)) = take 640 (drop (48 + i * 640) (take (48 + L * 640) b))"
        by simp
    qed
  qed
  with tail show ?thesis by (metis append_take_drop_id)
qed

section \<open>The commitment encoding\<close>

lemma w1_encode_concat: "w1_encode w = concat (map (\<lambda>p. simple_bit_pack (coeffs p) 4) (pv_polys w))"
proof -
  have "foldl (\<lambda>out p. out @ simple_bit_pack (coeffs p) 4) acc ps = acc @ concat (map (\<lambda>p. simple_bit_pack (coeffs p) 4) ps)"
    for acc and ps :: "Poly list" by (induction ps arbitrary: acc) simp_all
  then show ?thesis by (simp add: w1_encode_def W1_BITS_def)
qed

definition w1_wf :: "PolyVec \<Rightarrow> bool" where
  "w1_wf w \<longleftrightarrow> length (pv_polys w) = K \<and>
     (\<forall>p\<in>set (pv_polys w). length (coeffs p) = 256 \<and> (\<forall>c\<in>set (coeffs p). 0 \<le> c \<and> c < 16))"

lemma length_w1_encode: "w1_wf w \<Longrightarrow> length (w1_encode w) = K * 128"
  unfolding w1_encode_concat
  by (subst length_concat_map [where n = 128]) (auto simp: w1_wf_def simple_bit_pack_def len_simps)

lemma w1_encode_inj_aux:
  assumes "w1_wf a" "w1_wf b" "w1_encode a = w1_encode b"
  shows "a = b"
proof -
  let ?f = "\<lambda>p. simple_bit_pack (coeffs p) 4"
  have l: "\<forall>x\<in>set (pv_polys a). length (?f x) = 128" "\<forall>x\<in>set (pv_polys b). length (?f x) = 128"
    using assms by (auto simp: w1_wf_def simple_bit_pack_def len_simps)
  have inj: "p = q" if "p \<in> set (pv_polys a)" "q \<in> set (pv_polys b)" "?f p = ?f q" for p q
  proof -
    have rt: "simple_bit_unpack (?f r) 4 = coeffs r" if "r \<in> set (pv_polys a) \<or> r \<in> set (pv_polys b)" for r
      using that assms(1,2) by (intro simple_bit_unpack_pack) (auto simp: w1_wf_def)
    then have "coeffs p = coeffs q" using that by metis
    then show ?thesis by simp
  qed
  have m: "map ?f xs = map ?f ys \<and> length xs = length ys"
    if "concat (map ?f xs) = concat (map ?f ys)" "\<forall>x\<in>set xs. length (?f x) = 128" "\<forall>x\<in>set ys. length (?f x) = 128"
    for xs ys using that
  proof (induction xs arbitrary: ys)
    case Nil
    then show ?case by (cases ys) auto
  next
    case (Cons x xs)
    then show ?case by (cases ys) (auto simp: append_eq_append_conv)
  qed
  have "pv_polys a = pv_polys b"
    using m [OF assms(3) [unfolded w1_encode_concat] l] inj
    by (metis (no_types, lifting) length_map nth_equalityI nth_map nth_mem)
  then show ?thesis by (cases a; cases b) simp
qed

section \<open>Properties\<close>

text \<open>
  \<open>bit_unpack\<close> inverts \<open>bit_pack\<close> on the coefficients the format represents, and every byte
  string of the right length is the packing of what it unpacks to.
\<close>

lemma bit_pack_roundtrip:
  assumes "length w = 256" "\<forall>c\<in>set w. upper - 2 ^ bits < c \<and> c \<le> upper" "256 * bits = 8 * length v" "0 < bits"
  shows "bit_unpack (bit_pack w upper bits) upper bits = w \<and> bit_pack (bit_unpack v upper bits) upper bits = v"
  using bit_unpack_pack [of w upper bits] bit_pack_unpack [of bits v upper] assms by blast

text \<open>
  C4. Signature encodings are not malleable: two byte strings that \<open>sig_decode\<close> accepts with the
  same result are equal. The hint section has one encoding only, since offsets must not
  decrease, indices must increase and the padding must be zero.
\<close>

theorem sig_decode_canonical:
  assumes "sig_decode a = Inr x" "sig_decode b = Inr x"
  shows "a = b"
  using assms by (rule sig_decode_inj_aux)

text \<open>
  C9. What \<open>sig_decode\<close> accepts has the shape the verifier relies on: 48 hash bytes, five
  polynomials with coefficients in \<open>(-gamma1, gamma1]\<close>, six hint vectors of 256 bits, at most
  \<open>omega\<close> of them set.
\<close>

theorem sig_decode_type:
  assumes "sig_decode sig = Inr (c, z, h)"
  shows "length c = 48 \<and> length (pv_polys z) = L \<and> length h = K
    \<and> (\<forall>p\<in>set (pv_polys z). length (coeffs p) = 256 \<and> (\<forall>x\<in>set (coeffs p). - GAMMA1 < x \<and> x \<le> GAMMA1))
    \<and> (\<forall>hi\<in>set h. length hi = N) \<and> sum_list (map (\<lambda>hi. length (filter id hi)) h) \<le> OMEGA"
  using sig_decode_shape [OF assms] by blast

text \<open>
  Public keys decode to \<open>K\<close> polynomials with 10-bit coefficients, and no two keys decode alike.
\<close>

lemma pk_decode_canonical:
  assumes "pk_decode a = Inr (rho, t1)" "pk_decode b = Inr (rho, t1)"
  shows "a = b \<and> length rho = 32 \<and> (\<forall>p\<in>set (pv_polys t1). \<forall>c\<in>set (coeffs p). 0 \<le> c \<and> c < 1024)"
  using pk_decode_inj_aux [OF assms] pk_decode_shape [OF assms(1)] by blast

text \<open>
  \<open>w1_encode\<close> is injective on vectors of \<open>K\<close> polynomials with 4-bit coefficients, so the
  commitment hash binds the whole vector.
\<close>

lemma w1_encode_injective:
  assumes "w1_wf a" "w1_wf b" "w1_encode a = w1_encode b"
  shows "a = b"
  using assms by (rule w1_encode_inj_aux)

section \<open>A signature encoding to instantiate the properties\<close>

text \<open>48 zero bytes, five zero polynomials (each coefficient is stored as \<open>gamma1 - 0\<close>), no hints.\<close>

definition zero_z_bytes :: bytes where
  "zero_z_bytes = bit_pack (replicate 256 0) GAMMA1 20"

definition sample_sig :: bytes where
  "sample_sig = replicate 48 0 @ concat (replicate L zero_z_bytes) @ replicate (OMEGA + K) 0"

definition no_hints :: "bool list list" where
  "no_hints = replicate K (replicate 256 False)"

definition sample_z :: PolyVec where
  "sample_z = PolyVec (replicate L (from_coeffs (replicate 256 0)))"

lemma length_zero_z: "length zero_z_bytes = 640"
  by (simp add: zero_z_bytes_def bit_pack_def len_simps)

lemma hint_unpack_zeros: "hint_bit_unpack (replicate (OMEGA + K) 0) = Inr no_hints"
proof -
  have i: "hint_idx (replicate 256 False) = []" by (simp add: hint_idx_def filter_empty_conv)
  have "i + n = K \<Longrightarrow> hint_code (replicate (OMEGA + K) 0) i 0 (replicate n (replicate 256 False)) 0" for i n
    by (induction n arbitrary: i) (simp_all add: i Let_def)
  then have "hint_code (replicate (OMEGA + K) 0) 0 0 no_hints 0" unfolding no_hints_def by simp
  then show ?thesis unfolding hint_bit_unpack_code by (auto simp: no_hints_def)
qed

lemma replicate_chunk:
  "length b = s \<Longrightarrow> j < n \<Longrightarrow> take s (drop (length a + j * s) (a @ concat (replicate n b) @ c)) = b"
proof -
  assume b: "length b = s" and j: "j < n"
  then have "replicate n b = replicate j b @ b # replicate (n - Suc j) b"
    by (metis Suc_diff_Suc append_Cons replicate_Suc replicate_add le_add_diff_inverse less_imp_le)
  then show ?thesis using b by (simp add: length_concat sum_list_replicate mult.commute)
qed

lemma sig_decode_sample: "sig_decode sample_sig = Inr (replicate 48 0, sample_z, no_hints)"
proof -
  have l: "length (concat (replicate L zero_z_bytes)) = L * 640"
    by (simp add: length_concat length_zero_z sum_list_replicate)
  have tail: "drop (48 + L * 640) sample_sig = replicate (OMEGA + K) 0"
    using l by (simp add: sample_sig_def)
  have c: "take 640 (drop (48 + j * 640) sample_sig) = zero_z_bytes" if "j < L" for j
    using replicate_chunk [OF length_zero_z that, of "replicate 48 0" "replicate (OMEGA + K) 0"]
    by (simp add: sample_sig_def)
  have u: "bit_unpack zero_z_bytes GAMMA1 20 = replicate 256 0"
    unfolding zero_z_bytes_def by (rule bit_unpack_pack) (simp_all add: GAMMA1_val)
  have "map (\<lambda>j. from_coeffs (bit_unpack (take 640 (drop (48 + j * 640) sample_sig)) GAMMA1 20)) [0..<L]
      = replicate L (from_coeffs (replicate 256 0))"
    by (rule nth_equalityI) (simp_all add: c u)
  moreover have "length sample_sig = 48 + L * 640 + (OMEGA + K)" using l by (simp add: sample_sig_def)
  moreover have "take 48 sample_sig = replicate 48 0" by (simp add: sample_sig_def)
  ultimately show ?thesis unfolding sig_decode_eq tail hint_unpack_zeros by (simp add: sample_z_def)
qed

lemma pk_decode_sample: "\<exists>t1. pk_decode (replicate 1952 0) = Inr (replicate 32 0, t1)"
  by (simp add: pk_decode_eq K_def)

theorem sig_decode_canonical_witness:
  "{b. sig_decode b = Inr (replicate 48 0, sample_z, no_hints)} = {sample_sig}"
  using sig_decode_canonical [OF _ sig_decode_sample] sig_decode_sample by blast

theorem sig_decode_type_witness: "sum_list (map (\<lambda>hi. length (filter id hi)) no_hints) \<le> OMEGA"
  using sig_decode_type [OF sig_decode_sample] by blast

end
