(* ===== verification/MLDSA_XOF.thy ===== *)
theory MLDSA_XOF
  imports MLDSA_PolyVec "HOL-Library.Monad_Syntax"
begin

unbundle bit_operations_syntax

text \<open>
  Sampling and hashing of \<open>mldsa/xof.rs\<close>. The crate \<open>sha3\<close> is not part of the repository: its two
  extendable output functions are the parameters \<open>shake128\<close> and \<open>shake256\<close> of every definition
  below, each a function from the absorbed bytes to the endless output stream; a reader is the
  stream with the position of the next byte. A rejection loop that never finds its samples
  returns \<open>None\<close>.
\<close>

type_synonym xof = "bytes \<Rightarrow> nat \<Rightarrow> u8"
type_synonym xof_stream = "nat \<Rightarrow> u8"

section \<open>Definitions\<close>

text \<open>The candidate read from three bytes at position \<open>pos\<close>.\<close>

definition rej_candidate :: "xof_stream \<Rightarrow> nat \<Rightarrow> i64" where
  "rej_candidate s pos =
     uint (s pos) OR push_bit 8 (uint (s (pos + 1))) OR push_bit 16 (uint (s (pos + 2) AND 0x7F))"

partial_function (option) rej_loop :: "xof_stream \<Rightarrow> nat \<Rightarrow> i64 list \<Rightarrow> usize \<Rightarrow> i64 list option" where
  "rej_loop s pos cs j =
     (if j < N then
        (if rej_candidate s pos < Q then rej_loop s (pos + 3) (cs[j := rej_candidate s pos]) (j + 1)
         else rej_loop s (pos + 3) cs j)
      else Some cs)"

definition rej_ntt_poly :: "xof \<Rightarrow> bytes \<Rightarrow> i64 list option" where
  "rej_ntt_poly shake128 seed = rej_loop (shake128 seed) 0 (replicate N 0) 0"

definition expand_a_entry :: "xof \<Rightarrow> bytes \<Rightarrow> usize \<Rightarrow> usize \<Rightarrow> NTTPoly option" where
  "expand_a_entry shake128 rho i j =
     (let seed = rho @ [word_of_nat j] @ [word_of_nat i]
      in map_option (\<lambda>cs. \<lparr>ncoeffs = cs\<rparr>) (rej_ntt_poly shake128 seed))"

definition expand_a :: "xof \<Rightarrow> bytes \<Rightarrow> NTTMatrix option" where
  "expand_a shake128 rho =
     map_option (\<lambda>rs. \<lparr>rows = rs\<rparr>)
       (all_some (map (\<lambda>i. map_option NTTPolyVec
          (all_some (map (expand_a_entry shake128 rho i) [0..<L]))) [0..<K]))"

text \<open>The inner loop of \<open>sample_in_ball\<close>: one byte at a time until it is at most \<open>i\<close>.\<close>

partial_function (option) sample_index :: "xof_stream \<Rightarrow> nat \<Rightarrow> nat \<Rightarrow> (nat \<times> nat) option" where
  "sample_index s i pos =
     (if unat (s pos) \<le> i then Some (unat (s pos), pos + 1) else sample_index s i (pos + 1))"

definition from_le_bytes :: "bytes \<Rightarrow> u64" where
  "from_le_bytes bs = foldr (\<lambda>b acc. ucast b OR push_bit 8 acc) bs 0"

fun ball_loop :: "xof_stream \<Rightarrow> nat list \<Rightarrow> nat \<Rightarrow> u64 \<Rightarrow> i64 list \<Rightarrow> i64 list option" where
  "ball_loop s [] pos signs c = Some c"
| "ball_loop s (i # is) pos signs c =
     do {
       (j, pos') \<leftarrow> sample_index s i pos;
       let c' = c[i := c ! j];
       let c'' = c'[j := 1 - 2 * uint (signs AND 1)];
       ball_loop s is pos' (drop_bit 1 signs) c''
     }"

definition sample_in_ball :: "xof \<Rightarrow> bytes \<Rightarrow> Poly option" where
  "sample_in_ball shake256 c_tilde =
     (let s = shake256 c_tilde;
          signs = from_le_bytes (map s [0..<8])
      in map_option (\<lambda>c. from_coeffs (map (\<lambda>x. if x < 0 then x + Q else x) c))
           (ball_loop s [N - TAU..<N] 8 signs (replicate N 0)))"

definition shake256_bytes :: "xof \<Rightarrow> bytes \<Rightarrow> usize \<Rightarrow> bytes" where
  "shake256_bytes shake256 inp out_bytes = map (shake256 inp) [0..<out_bytes]"

definition hash_pk :: "xof \<Rightarrow> bytes \<Rightarrow> bytes" where
  "hash_pk shake256 pk = shake256_bytes shake256 pk 64"

definition hash_mu :: "xof \<Rightarrow> bytes \<Rightarrow> bytes \<Rightarrow> bytes" where
  "hash_mu shake256 tr msg = shake256_bytes shake256 (tr @ msg) 64"

definition hash_commit :: "xof \<Rightarrow> bytes \<Rightarrow> bytes \<Rightarrow> usize \<Rightarrow> bytes" where
  "hash_commit shake256 mu w1_enc out_len = shake256_bytes shake256 (mu @ w1_enc) out_len"

section \<open>Lists of results\<close>

lemma all_some_Some: "all_some xs = Some ys \<longleftrightarrow> xs = map Some ys"
proof (induction xs arbitrary: ys)
  case (Cons x xs)
  then show ?case by (cases x; cases ys) auto
qed auto

lemma all_some_map_Some:
  "all_some (map f xs) = Some ys \<longleftrightarrow> length ys = length xs \<and> (\<forall>i<length xs. f (xs ! i) = Some (ys ! i))"
  unfolding all_some_Some list_eq_iff_nth_eq by auto

lemma all_some_exists: "(\<And>x. x \<in> set xs \<Longrightarrow> \<exists>y. f x = Some y) \<Longrightarrow> \<exists>ys. all_some (map f xs) = Some ys"
  by (induction xs) fastforce+

section \<open>Rejection sampling of NTT polynomials\<close>

lemma rej_candidate_nonneg: "0 \<le> rej_candidate s pos"
  by (simp add: rej_candidate_def)

definition accepted :: "xof_stream \<Rightarrow> nat \<Rightarrow> nat \<Rightarrow> i64 list" where
  "accepted s pos n = filter (\<lambda>z. z < Q) (map (\<lambda>k. rej_candidate s (pos + 3 * k)) [0..<n])"

lemma accepted_0 [simp]: "accepted s pos 0 = []" by (simp add: accepted_def)

lemma accepted_Suc:
  "accepted s pos (Suc n) =
     (if rej_candidate s pos < Q then [rej_candidate s pos] else []) @ accepted s (pos + 3) n"
proof -
  have "map (\<lambda>k. rej_candidate s (pos + 3 * k)) [0..<Suc n] =
      rej_candidate s pos # map (\<lambda>k. rej_candidate s (pos + 3 + 3 * k)) [0..<n]"
    by (subst upt_conv_Cons) (simp_all add: map_Suc_upt [symmetric] add.assoc del: upt_Suc)
  then show ?thesis by (simp add: accepted_def)
qed

text \<open>Once enough candidates are accepted the loop ends with them, in the order of the stream.\<close>

lemma rej_loop_accepts:
  assumes "j \<le> N" "length cs = N" "N - j \<le> length (accepted s pos n)"
  shows "rej_loop s pos cs j = Some (take j cs @ take (N - j) (accepted s pos n))"
  using assms
proof (induction n arbitrary: pos cs j)
  case 0
  then show ?case by (simp add: rej_loop.simps)
next
  case (Suc n)
  show ?case
  proof (cases "j < N")
    case True
    have t: "take (Suc j) (cs[j := z]) = take j cs @ [z]" for z
      using True Suc.prems(2) by (simp add: take_Suc_conv_app_nth)
    have d: "N - j = Suc (N - Suc j)" using True by simp
    show ?thesis
    proof (cases "rej_candidate s pos < Q")
      case c: True
      have "rej_loop s (pos + 3) (cs[j := rej_candidate s pos]) (Suc j) =
          Some (take (Suc j) (cs[j := rej_candidate s pos]) @ take (N - Suc j) (accepted s (pos + 3) n))"
        by (rule Suc.IH) (use Suc.prems True c in \<open>auto simp: accepted_Suc\<close>)
      then show ?thesis using True c
        by (subst rej_loop.simps) (simp add: t accepted_Suc d)
    next
      case c: False
      have "rej_loop s (pos + 3) cs j = Some (take j cs @ take (N - j) (accepted s (pos + 3) n))"
        by (rule Suc.IH) (use Suc.prems c in \<open>auto simp: accepted_Suc\<close>)
      then show ?thesis using True c
        by (subst rej_loop.simps) (simp add: accepted_Suc)
    qed
  next
    case False
    then show ?thesis using Suc.prems by (subst rej_loop.simps) simp
  qed
qed

text \<open>Whenever the loop returns, it has accepted exactly enough candidates.\<close>

lemma rej_loop_returns:
  assumes "rej_loop s pos cs j = Some r" "j \<le> N"
  shows "\<exists>n. length (accepted s pos n) = N - j"
proof -
  have "j \<le> N \<longrightarrow> (\<exists>n. length (accepted s pos n) = N - j)"
  proof (rule rej_loop.raw_induct [OF _ assms(1), where P = "\<lambda>s pos cs j r. j \<le> N \<longrightarrow> (\<exists>n. length (accepted s pos n) = N - j)"])
    fix rec s pos cs j r
    assume ih: "\<And>s pos cs j r. rec s pos cs j = Some r \<Longrightarrow> j \<le> N \<longrightarrow> (\<exists>n. length (accepted s pos n) = N - j)"
      and b: "(if j < N then
        (if rej_candidate s pos < Q then rec s (pos + 3) (cs[j := rej_candidate s pos]) (j + 1)
         else rec s (pos + 3) cs j) else Some cs) = Some r"
    show "j \<le> N \<longrightarrow> (\<exists>n. length (accepted s pos n) = N - j)"
    proof (intro impI)
      assume "j \<le> N"
      show "\<exists>n. length (accepted s pos n) = N - j"
      proof (cases "j < N")
        case False
        then have "length (accepted s pos 0) = N - j" by simp
        then show ?thesis by blast
      next
        case True
        obtain n where "length (accepted s (pos + 3) n) = N - (if rej_candidate s pos < Q then Suc j else j)"
          using b True ih by (cases "rej_candidate s pos < Q") fastforce+
        then have "length (accepted s pos (Suc n)) = N - j"
          using True by (auto simp: accepted_Suc split: if_splits)
        then show ?thesis by blast
      qed
    qed
  qed
  with assms(2) show ?thesis by blast
qed

lemma rej_ntt_poly_iff:
  "rej_ntt_poly shake128 seed = Some cs \<longleftrightarrow> (\<exists>n. cs = accepted (shake128 seed) 0 n \<and> length cs = N)"
proof
  assume r: "rej_ntt_poly shake128 seed = Some cs"
  then obtain n where n: "length (accepted (shake128 seed) 0 n) = N"
    using rej_loop_returns [of "shake128 seed" 0 _ 0 cs] by (auto simp: rej_ntt_poly_def)
  with r have "cs = accepted (shake128 seed) 0 n"
    using rej_loop_accepts [of 0 "replicate N 0" "shake128 seed" 0 n] by (simp add: rej_ntt_poly_def)
  with n show "\<exists>n. cs = accepted (shake128 seed) 0 n \<and> length cs = N" by blast
next
  assume "\<exists>n. cs = accepted (shake128 seed) 0 n \<and> length cs = N"
  then obtain n where "cs = accepted (shake128 seed) 0 n" "length cs = N" by blast
  then show "rej_ntt_poly shake128 seed = Some cs"
    using rej_loop_accepts [of 0 "replicate N 0" "shake128 seed" 0 n] by (simp add: rej_ntt_poly_def)
qed

lemma accepted_in_zq: "z \<in> set (accepted s pos n) \<Longrightarrow> in_zq z"
  by (auto simp: accepted_def in_zq_def rej_candidate_nonneg)

text \<open>
  What the documentation of SHAKE-128 gives the loop: among the candidates at positions
  \<open>0, 3, 6, ...\<close> of the stream, 256 are below \<open>q\<close>.
\<close>

definition rej_productive :: "xof_stream \<Rightarrow> bool" where
  "rej_productive s \<longleftrightarrow> (\<exists>n. N \<le> length (accepted s 0 n))"

lemma rej_ntt_poly_total: "rej_productive (shake128 seed) \<Longrightarrow> \<exists>cs. rej_ntt_poly shake128 seed = Some cs"
  using rej_loop_accepts [of 0 "replicate N 0" "shake128 seed" 0] by (auto simp: rej_productive_def rej_ntt_poly_def)

lemma rej_ntt_poly_zq: "rej_ntt_poly shake128 seed = Some cs \<Longrightarrow> zq_poly cs"
  by (auto simp: rej_ntt_poly_iff zq_poly_def N_def intro: accepted_in_zq)

section \<open>The matrix\<close>

definition a_seed :: "bytes \<Rightarrow> usize \<Rightarrow> usize \<Rightarrow> bytes" where
  "a_seed rho i j = rho @ [word_of_nat j] @ [word_of_nat i]"

lemma expand_a_total:
  assumes "\<And>i j. i < K \<Longrightarrow> j < L \<Longrightarrow> rej_productive (shake128 (a_seed rho i j))"
  shows "\<exists>A. expand_a shake128 rho = Some A"
proof -
  have "\<exists>cs. expand_a_entry shake128 rho i j = Some cs" if "i < K" "j < L" for i j
    using rej_ntt_poly_total [of shake128 "a_seed rho i j"] assms [OF that] by (auto simp: expand_a_entry_def a_seed_def Let_def)
  then have "\<exists>r. map_option NTTPolyVec (all_some (map (expand_a_entry shake128 rho i) [0..<L])) = Some r" if "i < K" for i
    using all_some_exists [of "[0..<L]" "expand_a_entry shake128 rho i"] that by fastforce
  then show ?thesis
    unfolding expand_a_def
    using all_some_exists [of "[0..<K]" "\<lambda>i. map_option NTTPolyVec (all_some (map (expand_a_entry shake128 rho i) [0..<L]))"]
    by fastforce
qed

lemma expand_a_entry_nth:
  assumes "expand_a shake128 rho = Some A"
  shows "length (rows A) = K"
    and "i < K \<Longrightarrow> npv_len (rows A ! i) = L"
    and "i < K \<Longrightarrow> j < L \<Longrightarrow> expand_a_entry shake128 rho i j = Some (npv_polys (rows A ! i) ! j)"
proof -
  obtain rs where rs: "all_some (map (\<lambda>i. map_option NTTPolyVec
      (all_some (map (expand_a_entry shake128 rho i) [0..<L]))) [0..<K]) = Some rs" and A: "A = \<lparr>rows = rs\<rparr>"
    using assms by (auto simp: expand_a_def)
  have l: "length rs = K" and r: "\<And>i. i < K \<Longrightarrow> map_option NTTPolyVec
      (all_some (map (expand_a_entry shake128 rho i) [0..<L])) = Some (rs ! i)"
    using rs by (auto simp: all_some_map_Some)
  show "length (rows A) = K" using l by (simp add: A)
  have row: "npv_len (rows A ! i) = L \<and> (j < L \<longrightarrow> expand_a_entry shake128 rho i j = Some (npv_polys (rows A ! i) ! j))"
    if i: "i < K" for i j
  proof -
    obtain ps where "all_some (map (expand_a_entry shake128 rho i) [0..<L]) = Some ps" "rs ! i = NTTPolyVec ps"
      using r [OF i] by auto
    then show ?thesis by (auto simp: A npv_len_def all_some_map_Some)
  qed
  then show "i < K \<Longrightarrow> npv_len (rows A ! i) = L"
    and "i < K \<Longrightarrow> j < L \<Longrightarrow> expand_a_entry shake128 rho i j = Some (npv_polys (rows A ! i) ! j)" by blast+
qed

lemma expand_a_wf:
  assumes "expand_a shake128 rho = Some A" "i < K" "j < L"
  shows "wf_nttpoly (npv_polys (rows A ! i) ! j)"
proof -
  obtain cs where "rej_ntt_poly shake128 (a_seed rho i j) = Some cs" "npv_polys (rows A ! i) ! j = \<lparr>ncoeffs = cs\<rparr>"
    using expand_a_entry_nth(3) [OF assms] unfolding expand_a_entry_def a_seed_def Let_def by auto
  then show ?thesis by (simp add: wf_nttpoly_def rej_ntt_poly_zq)
qed

section \<open>SampleInBall\<close>

lemma sample_index_le:
  assumes "sample_index s i pos = Some (j, p)"
  shows "j \<le> i"
proof -
  have "fst (j, p) \<le> i"
    by (rule sample_index.raw_induct [OF _ assms, where P = "\<lambda>s i pos r. fst r \<le> i"]) (auto split: if_splits)
  then show ?thesis by simp
qed

lemma sample_index_total: "unat (s (pos + n)) \<le> i \<Longrightarrow> \<exists>j p. sample_index s i pos = Some (j, p)"
proof (induction n arbitrary: pos)
  case 0
  then show ?case by (subst sample_index.simps) simp
next
  case (Suc n)
  then have "\<exists>j p. sample_index s i (pos + 1) = Some (j, p)" by simp
  then show ?case by (subst sample_index.simps) simp
qed

text \<open>The stream never runs out of bytes small enough for the first, tightest, rejection bound.\<close>

definition ball_productive :: "xof_stream \<Rightarrow> bool" where
  "ball_productive s \<longleftrightarrow> (\<forall>p. \<exists>n. unat (s (p + n)) \<le> N - TAU)"

lemma ball_loop_total:
  assumes "ball_productive s" "\<forall>i\<in>set is. N - TAU \<le> i"
  shows "\<exists>c'. ball_loop s is pos signs c = Some c'"
  using assms(2)
proof (induction "is" arbitrary: pos signs c)
  case (Cons i "is")
  obtain n where "unat (s (pos + n)) \<le> N - TAU" using assms(1) by (auto simp: ball_productive_def)
  then have "unat (s (pos + n)) \<le> i" using Cons.prems by simp
  then obtain j p where "sample_index s i pos = Some (j, p)" using sample_index_total by blast
  then show ?case using Cons by (simp add: Let_def)
qed simp

definition nonzeros :: "i64 list \<Rightarrow> nat set" where
  "nonzeros c = {k. k < length c \<and> c ! k \<noteq> 0}"

lemma finite_nonzeros [simp]: "finite (nonzeros c)"
  by (simp add: nonzeros_def)

definition ball_inv :: "nat \<Rightarrow> nat \<Rightarrow> i64 list \<Rightarrow> bool" where
  "ball_inv i m c \<longleftrightarrow> length c = N \<and> set c \<subseteq> {-1, 0, 1} \<and> (\<forall>k. i \<le> k \<and> k < N \<longrightarrow> c ! k = 0) \<and> card (nonzeros c) = m"

lemma ball_step:
  assumes c: "ball_inv i m c" and i: "i < N" and j: "j \<le> i" and v: "v = 1 \<or> v = - 1"
  shows "ball_inv (Suc i) (Suc m) ((c[i := c ! j])[j := v])"
proof -
  have l: "length c = N" and z: "\<And>k. i \<le> k \<Longrightarrow> k < N \<Longrightarrow> c ! k = 0" and m: "card (nonzeros c) = m"
    and s: "set c \<subseteq> {-1, 0, 1}" using c by (auto simp: ball_inv_def)
  have out: "i \<notin> nonzeros c" using z i by (simp add: nonzeros_def)
  have "nonzeros ((c[i := c ! j])[j := v]) = (if c ! j = 0 then insert j (nonzeros c) else insert i (nonzeros c))"
    using l i j v z by (auto simp: nonzeros_def nth_list_update)
  moreover have "c ! j = 0 \<Longrightarrow> j \<notin> nonzeros c" by (simp add: nonzeros_def)
  ultimately have "card (nonzeros ((c[i := c ! j])[j := v])) = Suc m" using m out by simp
  moreover have "set ((c[i := c ! j])[j := v]) \<subseteq> {-1, 0, 1}"
  proof -
    have "c ! j \<in> set c" using l i j by simp
    then have "set (c[i := c ! j]) \<subseteq> {-1, 0, 1}" using s by (meson insert_subset order_trans set_update_subset_insert subsetD)
    then show ?thesis using v set_update_subset_insert [of "c[i := c ! j]" j v] by auto
  qed
  ultimately show ?thesis using l z j by (auto simp: ball_inv_def nth_list_update)
qed

lemma sign_values: "1 - 2 * uint (w AND 1) = 1 \<or> 1 - 2 * uint (w AND 1) = - 1" for w :: u64
  by (auto simp: and_one_eq mod_2_eq_odd)

lemma ball_loop_inv:
  "ball_loop s [i..<i + n] pos signs c = Some c' \<Longrightarrow> ball_inv i m c \<Longrightarrow> i + n \<le> N \<Longrightarrow> ball_inv (i + n) (m + n) c'"
proof (induction n arbitrary: i pos signs c m)
  case (Suc n)
  obtain j p where jp: "sample_index s i pos = Some (j, p)"
    and rest: "ball_loop s [Suc i..<Suc i + n] p (drop_bit 1 signs) ((c[i := c ! j])[j := 1 - 2 * uint (signs AND 1)]) = Some c'"
    using Suc.prems(1) by (auto simp: upt_conv_Cons bind_eq_Some_conv Let_def simp del: upt_Suc)
  have "ball_inv (Suc i) (Suc m) ((c[i := c ! j])[j := 1 - 2 * uint (signs AND 1)])"
    by (rule ball_step) (use Suc.prems sample_index_le [OF jp] sign_values in auto)
  from Suc.IH [OF rest this] show ?case using Suc.prems(3) by simp
qed simp

lemma sample_in_ball_total: "ball_productive (shake256 ct) \<Longrightarrow> \<exists>c. sample_in_ball shake256 ct = Some c"
  using ball_loop_total [of "shake256 ct" "[N - TAU..<N]"] by (fastforce simp: sample_in_ball_def Let_def)

lemma sample_in_ball_spec:
  assumes "sample_in_ball shake256 ct = Some p"
  shows "length (coeffs p) = N" "set (coeffs p) \<subseteq> {0, 1, Q - 1}" "card (nonzeros (coeffs p)) = TAU"
proof -
  let ?f = "\<lambda>x::int. if x < 0 then x + Q else x"
  obtain signs c where c: "ball_loop (shake256 ct) [N - TAU..<N] 8 signs (replicate N 0) = Some c"
    and p: "coeffs p = map ?f c"
    using assms by (auto simp: sample_in_ball_def from_coeffs_def Let_def)
  have nz: "nonzeros (replicate N 0) = {}" by (simp add: nonzeros_def)
  have "N = N - TAU + TAU" by (simp add: N_def TAU_def)
  then have "ball_inv (N - TAU + TAU) (0 + TAU) c"
    using c by (intro ball_loop_inv [of "shake256 ct" "N - TAU" TAU 8 signs "replicate N 0" c 0]) (auto simp: ball_inv_def nz)
  then have i: "length c = N" "set c \<subseteq> {-1, 0, 1}" "card (nonzeros c) = TAU" by (simp_all add: ball_inv_def)
  show "length (coeffs p) = N" using i(1) by (simp add: p)
  show "set (coeffs p) \<subseteq> {0, 1, Q - 1}" using i(2) by (auto simp: p)
  have "?f (c ! k) \<noteq> 0 \<longleftrightarrow> c ! k \<noteq> 0" if "k < length c" for k
    using nth_mem [OF that] i(2) by (auto simp: Q_def)
  then have "nonzeros (map ?f c) = nonzeros c" by (auto simp: nonzeros_def)
  then show "card (nonzeros (coeffs p)) = TAU" using i(3) by (simp add: p)
qed

lemma sample_in_ball_wf: "sample_in_ball shake256 ct = Some p \<Longrightarrow> wf_poly p"
  using sample_in_ball_spec(1,2) [of shake256 ct p]
  by (auto simp: wf_poly_def zq_poly_def N_def in_zq_def Q_def)

section \<open>Hashes\<close>

lemma length_hashes [len_simps]:
  "length (hash_pk sh pk) = 64" "length (hash_mu sh tr msg) = 64" "length (hash_commit sh mu w n) = n"
  by (simp_all add: hash_pk_def hash_mu_def hash_commit_def shake256_bytes_def)

section \<open>Properties\<close>

text \<open>
  \<open>rej_ntt_poly\<close> returns exactly when the stream yields 256 candidates below \<open>q\<close>, and then
  the first 256 of them in stream order, which are canonical residues.
\<close>

lemma rej_ntt_poly_correct:
  "(rej_ntt_poly shake128 seed = Some cs) = (zq_poly cs \<and> (\<exists>n. cs = accepted (shake128 seed) 0 n))"
  using rej_ntt_poly_iff [of shake128 seed cs] by (auto simp: zq_poly_def N_def intro: accepted_in_zq)

text \<open>
  C7. \<open>sample_in_ball\<close> returns a polynomial with coefficients 0, 1 and \<open>q - 1\<close>, exactly \<open>tau\<close> of
  them not zero, whatever the stream, as soon as the stream keeps offering bytes of at most 207.
\<close>

theorem sample_in_ball_correct:
  assumes "ball_productive (shake256 ct)"
  shows "\<exists>p. sample_in_ball shake256 ct = Some p \<and> length (coeffs p) = N
    \<and> set (coeffs p) \<subseteq> {0, 1, Q - 1} \<and> card (nonzeros (coeffs p)) = TAU"
  using sample_in_ball_total [of shake256 ct] sample_in_ball_spec [of shake256 ct] assms by blast

theorem sample_in_ball_correct_witness:
  "\<exists>p. sample_in_ball (\<lambda>inp n. word_of_nat (n div 2)) [1] = Some p \<and> card (nonzeros (coeffs p)) = 49"
proof -
  have "unat (word_of_nat ((p + n) div 2) :: 8 word) \<le> N - TAU"
    if "n = (512 - p mod 512)" for p n :: nat
  proof -
    define q r where "q = p div 512" and "r = p mod 512"
    have "p = 512 * q + r" "r < 512" by (simp_all add: q_def r_def)
    then have "p + n = 512 * (p div 512 + 1)"
      using that unfolding q_def [symmetric] r_def [symmetric] by simp
    then have "(p + n) div 2 = 256 * (p div 512 + 1)" by simp
    then have "(word_of_nat ((p + n) div 2) :: 8 word) = 0" unfolding word_of_nat_eq_0_iff by simp
    then show ?thesis by simp
  qed
  then have "ball_productive ((\<lambda>inp n. word_of_nat (n div 2)) [1 :: u8])"
    unfolding ball_productive_def by blast
  from sample_in_ball_correct [OF this] show ?thesis by (auto simp: TAU_def)
qed

end
