(* ===== verification/MLDSA_Verify.thy ===== *)
theory MLDSA_Verify
  imports MLDSA_Encoding MLDSA_XOF
begin

text \<open>
  Signature verification, \<open>mldsa/verify.rs\<close>. \<open>ml_dsa_verify\<close> returns \<open>Some b\<close> when the Rust
  function returns \<open>b\<close>, and \<open>None\<close> when it would panic or loop forever.
\<close>

section \<open>Definitions\<close>

definition z_norm :: "PolyVec \<Rightarrow> i64" where
  "z_norm z = max_or_zero (map abs (concat (map coeffs (pv_polys z))))"

definition z_reduced :: "PolyVec \<Rightarrow> PolyVec" where
  "z_reduced z = PolyVec (map (\<lambda>p. from_coeffs (map field_reduce (coeffs p))) (pv_polys z))"

text \<open>Step 4: \<open>w = INTT(A NTT(z) - NTT(c) NTT(t1 2^d))\<close>.\<close>

definition recompute_w :: "NTTMatrix \<Rightarrow> Poly \<Rightarrow> PolyVec \<Rightarrow> PolyVec \<Rightarrow> PolyVec option" where
  "recompute_w a_hat c z t1 =
     do {
       let c_hat = poly_ntt c;
       let z_hat = pv_ntt (z_reduced z);
       let t1_scaled_hat = pv_ntt (scale_power2 t1 D);
       az_hat \<leftarrow> mul_vec a_hat z_hat;
       let ct1_hat = scale_poly t1_scaled_hat c_hat;
       w_hat \<leftarrow> npv_sub az_hat ct1_hat;
       Some (npv_intt w_hat)
     }"

definition ml_dsa_verify :: "xof \<Rightarrow> xof \<Rightarrow> bytes \<Rightarrow> bytes \<Rightarrow> bytes \<Rightarrow> bool option" where
  "ml_dsa_verify shake128 shake256 pk msg sig =
     (if length pk \<noteq> PK_BYTES \<or> length sig \<noteq> SIG_BYTES then Some False
      else case pk_decode pk of
        Inl _ \<Rightarrow> Some False
      | Inr (rho, t1) \<Rightarrow>
          (case sig_decode sig of
             Inl _ \<Rightarrow> Some False
           | Inr (c_tilde, z, hints) \<Rightarrow>
               if z_norm z \<ge> GAMMA1 - BETA then Some False
               else do {
                 a_hat \<leftarrow> expand_a shake128 rho;
                 c \<leftarrow> sample_in_ball shake256 c_tilde;
                 w \<leftarrow> recompute_w a_hat c z t1;
                 w1_prime \<leftarrow> use_hint w hints;
                 let tr = hash_pk shake256 pk;
                 let m_prime = [0, 0] @ msg;
                 let mu = hash_mu shake256 tr m_prime;
                 let w1_enc = w1_encode w1_prime;
                 let c_tilde_prime = hash_commit shake256 mu w1_enc LAMBDA_BYTES;
                 Some (c_tilde = c_tilde_prime)
               }))"

section \<open>The transform is a homomorphism on vectors\<close>

lemma poly_eq_coeffsI: "coeffs p = coeffs q \<Longrightarrow> p = q" for p q :: Poly
  by simp

lemma poly_ntt_add: "wf_poly p \<Longrightarrow> wf_poly q \<Longrightarrow> poly_ntt (poly_add p q) = nttpoly_add (poly_ntt p) (poly_ntt q)"
  by (simp add: poly_ntt_def nttpoly_add_def ntt_poly_add N_def zq_simps wf_poly_def zq_poly_ntt zq_poly_nth cong: map_cong)

lemma poly_ntt_mul: "wf_poly p \<Longrightarrow> wf_poly q \<Longrightarrow> poly_ntt (mul_naive p q) = nttpoly_mul (poly_ntt p) (poly_ntt q)"
  by (simp add: poly_ntt_def nttpoly_mul_def ntt_poly_mul flip: poly_mul_naive)

lemma intt_poly_ntt: "wf_poly p \<Longrightarrow> nttpoly_intt (poly_ntt p) = p"
  by (simp add: nttpoly_intt_def poly_ntt_def wf_poly_def ntt_inv_ntt)

lemma poly_ntt_intt: "wf_nttpoly u \<Longrightarrow> poly_ntt (nttpoly_intt u) = u"
  by (simp add: nttpoly_intt_def poly_ntt_def wf_nttpoly_def ntt_ntt_inv)

lemma poly_sub_add_cancel: "wf_poly p \<Longrightarrow> wf_poly q \<Longrightarrow> poly_add (poly_sub p q) q = p"
proof -
  assume w: "wf_poly p" "wf_poly q"
  have "coeffs (poly_add (poly_sub p q) q) = coeffs p"
    by (rule nth_equalityI)
      (use w in \<open>auto simp: poly_add_def poly_sub_def wf_poly_def N_def zq_simps zq_poly_nth zq_poly_length mod_simps\<close>)
  then show ?thesis by (rule poly_eq_coeffsI)
qed

definition nttpoly_sub :: "NTTPoly \<Rightarrow> NTTPoly \<Rightarrow> NTTPoly" where
  "nttpoly_sub a b = \<lparr>ncoeffs = map (\<lambda>i. field_sub (ncoeffs a ! i) (ncoeffs b ! i)) [0..<N]\<rparr>"

lemma nttpoly_add_sub_cancel: "wf_nttpoly u \<Longrightarrow> wf_nttpoly v \<Longrightarrow> nttpoly_sub (nttpoly_add u v) v = u"
proof -
  assume w: "wf_nttpoly u" "wf_nttpoly v"
  have "ncoeffs (nttpoly_sub (nttpoly_add u v) v) = ncoeffs u"
    by (rule nth_equalityI)
      (use w in \<open>auto simp: nttpoly_add_def nttpoly_sub_def wf_nttpoly_def N_def zq_simps zq_poly_nth zq_poly_length mod_simps\<close>)
  then show ?thesis by simp
qed

lemma poly_ntt_sub:
  assumes "wf_poly p" "wf_poly q"
  shows "poly_ntt (poly_sub p q) = nttpoly_sub (poly_ntt p) (poly_ntt q)"
proof -
  have w: "wf_poly (poly_sub p q)" using assms by (rule wf_poly_ops)
  have "poly_ntt p = nttpoly_add (poly_ntt (poly_sub p q)) (poly_ntt q)"
    using poly_ntt_add [OF w assms(2)] poly_sub_add_cancel [OF assms] by simp
  then show ?thesis using nttpoly_add_sub_cancel [of "poly_ntt (poly_sub p q)" "poly_ntt q"] assms w
    by (simp add: wf_nttpoly_ops)
qed

section \<open>What the verifier computes\<close>

text \<open>
  FIPS 204, Algorithm 8, step 9, with every product the schoolbook product of the ring:
  \<open>w_i = sum_j A_ij z_j - c t1_i 2^d\<close>.
\<close>

definition az_spec :: "(nat \<Rightarrow> Poly) \<Rightarrow> (nat \<Rightarrow> Poly) \<Rightarrow> nat list \<Rightarrow> Poly" where
  "az_spec a z js = foldl (\<lambda>acc j. poly_add acc (mul_naive (a j) (z j))) poly_zero js"

definition w_spec :: "NTTMatrix \<Rightarrow> Poly \<Rightarrow> PolyVec \<Rightarrow> PolyVec \<Rightarrow> nat \<Rightarrow> Poly" where
  "w_spec A c z t1 i =
     poly_sub (az_spec (\<lambda>j. nttpoly_intt (npv_polys (rows A ! i) ! j)) (\<lambda>j. poly_reduce (pv_polys z ! j)) [0..<L])
       (mul_naive c (poly_scale (pv_polys t1 ! i) (2 ^ D)))"

lemma poly_ntt_zero: "poly_ntt poly_zero = \<lparr>ncoeffs = replicate N 0\<rparr>"
proof -
  have z: "zq_poly (replicate 256 0)" by (simp add: zq_poly_def)
  have "ntt (replicate 256 0) = replicate 256 0"
    by (rule zq_poly_eqI) (use z in \<open>simp_all add: ntt_evaluates peval_def zq_poly_length zq_poly_ntt\<close>)
  then show ?thesis by (simp add: poly_ntt_def poly_zero_def N_def)
qed

lemma az_row:
  assumes "\<forall>j\<in>set js. wf_nttpoly (a j) \<and> wf_poly (z j)"
  shows "foldl (\<lambda>acc j. nttpoly_add acc (nttpoly_mul (a j) (poly_ntt (z j)))) \<lparr>ncoeffs = replicate N 0\<rparr> js
     = poly_ntt (az_spec (\<lambda>j. nttpoly_intt (a j)) z js) \<and> wf_poly (az_spec (\<lambda>j. nttpoly_intt (a j)) z js)"
  using assms
proof (induction js rule: rev_induct)
  case Nil
  then show ?case by (simp add: az_spec_def poly_ntt_zero wf_poly_ops)
next
  case (snoc j js)
  define s where "s = az_spec (\<lambda>j. nttpoly_intt (a j)) z js"
  have ih: "foldl (\<lambda>acc j. nttpoly_add acc (nttpoly_mul (a j) (poly_ntt (z j)))) \<lparr>ncoeffs = replicate N 0\<rparr> js = poly_ntt s"
    "wf_poly s" using snoc by (simp_all add: s_def)
  have w: "wf_poly (nttpoly_intt (a j))" "wf_poly (z j)" "wf_nttpoly (a j)" using snoc.prems by (simp_all add: wf_nttpoly_ops)
  have "az_spec (\<lambda>j. nttpoly_intt (a j)) z (js @ [j]) = poly_add s (mul_naive (nttpoly_intt (a j)) (z j))"
    by (simp add: az_spec_def s_def)
  with ih w show ?case by (simp add: poly_ntt_add poly_ntt_mul poly_ntt_intt wf_poly_ops)
qed

lemma wf_poly_reduce: "length (coeffs p) = 256 \<Longrightarrow> wf_poly (poly_reduce p)"
  by (simp add: wf_poly_ops(6) N_def)

text \<open>The shapes the decoders and the samplers guarantee.\<close>

definition verify_shapes :: "NTTMatrix \<Rightarrow> Poly \<Rightarrow> PolyVec \<Rightarrow> PolyVec \<Rightarrow> bool" where
  "verify_shapes A c z t1 \<longleftrightarrow>
     length (rows A) = K \<and> (\<forall>i<K. npv_len (rows A ! i) = L \<and> (\<forall>j<L. wf_nttpoly (npv_polys (rows A ! i) ! j)))
     \<and> wf_poly c \<and> pv_len z = L \<and> (\<forall>j<L. length (coeffs (pv_polys z ! j)) = 256) \<and> pv_len t1 = K
     \<and> (\<forall>i<K. wf_poly (pv_polys t1 ! i))"

lemma mul_vec_spec:
  assumes "verify_shapes A c z t1"
  shows "mul_vec A (pv_ntt (z_reduced z)) = Some (NTTPolyVec (map (\<lambda>i. poly_ntt
     (az_spec (\<lambda>j. nttpoly_intt (npv_polys (rows A ! i) ! j)) (\<lambda>j. poly_reduce (pv_polys z ! j)) [0..<L])) [0..<K]))"
proof -
  have l: "npv_len (pv_ntt (z_reduced z)) = L"
    using assms by (simp add: verify_shapes_def npv_len_def pv_ntt_def z_reduced_def pv_len_def)
  have zj: "npv_polys (pv_ntt (z_reduced z)) ! j = poly_ntt (poly_reduce (pv_polys z ! j))" if "j < L" for j
    using assms that
    by (simp add: verify_shapes_def pv_ntt_def z_reduced_def pv_len_def poly_ntt_def from_coeffs_def poly_reduce_def)
  have row: "mul_vec_row (rows A ! i) (pv_ntt (z_reduced z)) = Some (poly_ntt
     (az_spec (\<lambda>j. nttpoly_intt (npv_polys (rows A ! i) ! j)) (\<lambda>j. poly_reduce (pv_polys z ! j)) [0..<L]))" if i: "i < K" for i
  proof -
    have "foldl (\<lambda>acc j. nttpoly_add acc (nttpoly_mul (npv_polys (rows A ! i) ! j) (npv_polys (pv_ntt (z_reduced z)) ! j))) x [0..<L]
        = foldl (\<lambda>acc j. nttpoly_add acc (nttpoly_mul (npv_polys (rows A ! i) ! j) (poly_ntt (poly_reduce (pv_polys z ! j))))) x [0..<L]" for x
      by (rule foldl_cong) (simp_all add: zj)
    moreover have "\<forall>j\<in>set [0..<L]. wf_nttpoly (npv_polys (rows A ! i) ! j) \<and> wf_poly (poly_reduce (pv_polys z ! j))"
      using assms i by (simp add: verify_shapes_def wf_poly_reduce)
    ultimately show ?thesis using az_row assms i by (simp add: mul_vec_row_def l verify_shapes_def)
  qed
  have "map (\<lambda>row. mul_vec_row row (pv_ntt (z_reduced z))) (rows A) = map Some (map (\<lambda>i. poly_ntt
     (az_spec (\<lambda>j. nttpoly_intt (npv_polys (rows A ! i) ! j)) (\<lambda>j. poly_reduce (pv_polys z ! j)) [0..<L])) [0..<K])"
    by (rule nth_equalityI) (use assms row in \<open>auto simp: verify_shapes_def\<close>)
  then show ?thesis unfolding mul_vec_def by (simp only: all_some_Some [THEN iffD2] option.map)
qed

lemma recompute_w_spec:
  assumes "verify_shapes A c z t1"
  shows "recompute_w A c z t1 = Some (PolyVec (map (w_spec A c z t1) [0..<K]))"
proof -
  let ?az = "\<lambda>i. az_spec (\<lambda>j. nttpoly_intt (npv_polys (rows A ! i) ! j)) (\<lambda>j. poly_reduce (pv_polys z ! j)) [0..<L]"
  have az: "wf_poly (?az i)" if "i < K" for i
    using az_row [of "[0..<L]" "\<lambda>j. npv_polys (rows A ! i) ! j" "\<lambda>j. poly_reduce (pv_polys z ! j)"] assms that
    by (simp add: verify_shapes_def wf_poly_reduce)
  have c: "wf_poly c" using assms by (simp add: verify_shapes_def)
  define ct where "ct = scale_poly (pv_ntt (scale_power2 t1 D)) (poly_ntt c)"
  have ct_len: "npv_len ct = K"
    using assms by (simp add: ct_def npv_len_def scale_poly_def pv_ntt_def scale_power2_def verify_shapes_def pv_len_def)
  have t1: "wf_poly (poly_scale (pv_polys t1 ! i) (2 ^ D))" if "i < K" for i
    using assms that by (simp add: verify_shapes_def wf_poly_ops)
  have ct_nth: "npv_polys ct ! i = poly_ntt (mul_naive c (poly_scale (pv_polys t1 ! i) (2 ^ D)))" if "i < K" for i
  proof -
    have "npv_polys ct ! i = nttpoly_mul (poly_ntt (poly_scale (pv_polys t1 ! i) (2 ^ D))) (poly_ntt c)"
      using assms that
      by (simp add: ct_def scale_poly_def pv_ntt_def scale_power2_def verify_shapes_def pv_len_def push_bit_eq_mult Let_def)
    also have "\<dots> = poly_ntt (poly_mul (poly_scale (pv_polys t1 ! i) (2 ^ D)) c)"
      using c t1 [OF that] by (simp add: poly_mul_naive poly_ntt_mul)
    also have "\<dots> = poly_ntt (poly_mul c (poly_scale (pv_polys t1 ! i) (2 ^ D)))"
      using c t1 [OF that] by (simp add: poly_mul_commute)
    finally show ?thesis using c t1 [OF that] by (simp add: poly_mul_naive)
  qed
  have "npv_sub (NTTPolyVec (map (\<lambda>i. poly_ntt (?az i)) [0..<K])) ct
      = Some (NTTPolyVec (map (\<lambda>i. poly_ntt (w_spec A c z t1 i)) [0..<K]))"
  proof -
    have "map (\<lambda>(a, b). \<lparr>ncoeffs = map (\<lambda>i. field_sub (ncoeffs a ! i) (ncoeffs b ! i)) [0..<N]\<rparr>)
        (zip (map (\<lambda>i. poly_ntt (?az i)) [0..<K]) (npv_polys ct)) = map (\<lambda>i. poly_ntt (w_spec A c z t1 i)) [0..<K]"
    proof (rule nth_equalityI)
      show "length (map (\<lambda>(a, b). \<lparr>ncoeffs = map (\<lambda>i. field_sub (ncoeffs a ! i) (ncoeffs b ! i)) [0..<N]\<rparr>)
        (zip (map (\<lambda>i. poly_ntt (?az i)) [0..<K]) (npv_polys ct))) = length (map (\<lambda>i. poly_ntt (w_spec A c z t1 i)) [0..<K])"
        using ct_len by (simp add: npv_len_def)
      fix i assume "i < length (map (\<lambda>(a, b). \<lparr>ncoeffs = map (\<lambda>i. field_sub (ncoeffs a ! i) (ncoeffs b ! i)) [0..<N]\<rparr>)
        (zip (map (\<lambda>i. poly_ntt (?az i)) [0..<K]) (npv_polys ct)))"
      then have i: "i < K" "i < length (npv_polys ct)" using ct_len by (simp_all add: npv_len_def)
      then have "poly_ntt (w_spec A c z t1 i) = nttpoly_sub (poly_ntt (?az i)) (npv_polys ct ! i)"
        unfolding w_spec_def ct_nth [OF i(1)] by (intro poly_ntt_sub az wf_poly_ops(5))
      with i show "map (\<lambda>(a, b). \<lparr>ncoeffs = map (\<lambda>i. field_sub (ncoeffs a ! i) (ncoeffs b ! i)) [0..<N]\<rparr>)
        (zip (map (\<lambda>i. poly_ntt (?az i)) [0..<K]) (npv_polys ct)) ! i = map (\<lambda>i. poly_ntt (w_spec A c z t1 i)) [0..<K] ! i"
        by (simp add: nttpoly_sub_def)
    qed
    then show ?thesis unfolding npv_sub_def using ct_len by (simp add: npv_len_def)
  qed
  moreover have "npv_intt (NTTPolyVec (map (\<lambda>i. poly_ntt (w_spec A c z t1 i)) [0..<K]))
      = PolyVec (map (w_spec A c z t1) [0..<K])"
  proof -
    have "wf_poly (w_spec A c z t1 i)" if "i < K" for i
      unfolding w_spec_def by (intro wf_poly_ops az that)
    then show ?thesis by (simp add: npv_intt_def intt_poly_ntt)
  qed
  ultimately show ?thesis
    unfolding recompute_w_def Let_def mul_vec_spec [OF assms] ct_def [symmetric] by simp
qed

section \<open>The decision\<close>

lemma wf_w_spec:
  assumes "verify_shapes A c z t1" "i < K"
  shows "wf_poly (w_spec A c z t1 i)"
proof -
  have "wf_poly (az_spec (\<lambda>j. nttpoly_intt (npv_polys (rows A ! i) ! j)) (\<lambda>j. poly_reduce (pv_polys z ! j)) [0..<L])"
    using az_row [of "[0..<L]" "\<lambda>j. npv_polys (rows A ! i) ! j" "\<lambda>j. poly_reduce (pv_polys z ! j)"] assms
    by (simp add: verify_shapes_def wf_poly_reduce)
  then show ?thesis unfolding w_spec_def by (intro wf_poly_ops)
qed

text \<open>\<open>UseHint\<close> applied coefficientwise; no index of the hint vectors is out of range.\<close>

definition hinted :: "Poly \<Rightarrow> bool list \<Rightarrow> Poly" where
  "hinted p h = from_coeffs (map (\<lambda>k. use_hint_val (h ! k) (coeffs p ! k)) [0..<N])"

lemma use_hint_poly_hinted:
  "wf_poly p \<Longrightarrow> length h = N \<Longrightarrow> use_hint_poly p h = Some (hinted p h)"
  by (auto simp: use_hint_poly_def hinted_def wf_poly_def zq_poly_length N_def from_coeffs_def list_eq_iff_nth_eq nth_enumerate_eq)

lemma use_hint_hinted:
  assumes "pv_len v = length hs" "\<forall>p\<in>set (pv_polys v). wf_poly p" "\<forall>h\<in>set hs. length h = N"
  shows "use_hint v hs = Some (PolyVec (map (\<lambda>i. hinted (pv_polys v ! i) (hs ! i)) [0..<length hs]))"
proof -
  have "map (\<lambda>(p, h). use_hint_poly p h) (zip (pv_polys v) hs)
      = map Some (map (\<lambda>i. hinted (pv_polys v ! i) (hs ! i)) [0..<length hs])"
    by (rule nth_equalityI) (use assms in \<open>auto simp: pv_len_def use_hint_poly_hinted\<close>)
  then show ?thesis using assms(1) unfolding use_hint_def by (simp only: simp_thms if_True all_some_Some [THEN iffD2] option.map)
qed

lemma w1_wf_hinted: "w1_wf (PolyVec (map (\<lambda>i. hinted (f i) (g i)) [0..<K]))"
  using use_hint_val_range by (auto simp: w1_wf_def hinted_def from_coeffs_def N_def M_val)

definition z_short :: "PolyVec \<Rightarrow> bool" where
  "z_short z \<longleftrightarrow> (\<forall>p\<in>set (pv_polys z). \<forall>x\<in>set (coeffs p). \<bar>x\<bar> < GAMMA1 - BETA)"

lemma z_norm_short: "z_norm z < GAMMA1 - BETA \<longleftrightarrow> z_short z"
  by (auto simp: z_norm_def z_short_def max_or_zero_less GAMMA1_val BETA_def)

text \<open>The commitment hash the verifier compares with: \<open>H(mu || w1Encode(UseHint(h, w)))\<close>.\<close>

definition expected_c_tilde :: "xof \<Rightarrow> bytes \<Rightarrow> bytes \<Rightarrow> (nat \<Rightarrow> Poly) \<Rightarrow> bool list list \<Rightarrow> bytes" where
  "expected_c_tilde shake256 pk msg w h =
     hash_commit shake256 (hash_mu shake256 (hash_pk shake256 pk) ([0, 0] @ msg))
       (w1_encode (PolyVec (map (\<lambda>i. hinted (w i) (h ! i)) [0..<K]))) LAMBDA_BYTES"

lemma decoded_shapes:
  assumes "pk_decode pk = Inr (rho, t1)" "sig_decode sig = Inr (ct, z, h)"
    "expand_a shake128 rho = Some A" "sample_in_ball shake256 ct = Some c"
  shows "verify_shapes A c z t1"
proof -
  have "wf_poly (pv_polys t1 ! i)" if "i < K" for i
    using pk_decode_shape(2) [OF assms(1)] pk_decode_shape(3) [OF assms(1), of "pv_polys t1 ! i"] that
    by (fastforce simp: wf_poly_def zq_poly_def in_zq_def Q_def)
  moreover have "length (coeffs (pv_polys z ! j)) = 256" if "j < L" for j
    using sig_decode_shape(2) [OF assms(2)] sig_decode_shape(3) [OF assms(2), of "pv_polys z ! j"] that by simp
  ultimately show ?thesis
    using expand_a_entry_nth [OF assms(3)] expand_a_wf [OF assms(3)] sample_in_ball_wf [OF assms(4)]
      pk_decode_shape(2) [OF assms(1)] sig_decode_shape(2) [OF assms(2)]
    by (simp add: verify_shapes_def pv_len_def)
qed

lemma verify_decision_aux:
  assumes pk: "pk_decode pk = Inr (rho, t1)" and sig: "sig_decode sig = Inr (ct, z, h)"
    and A: "expand_a shake128 rho = Some A" and c: "sample_in_ball shake256 ct = Some c"
  shows "ml_dsa_verify shake128 shake256 pk msg sig =
    Some (z_short z \<and> ct = expected_c_tilde shake256 pk msg (w_spec A c z t1) h)"
proof -
  have sh: "verify_shapes A c z t1" using assms by (rule decoded_shapes)
  have len: "length pk = PK_BYTES" "length sig = SIG_BYTES"
    using pk sig unfolding pk_decode_def sig_decode_def by (auto split: if_splits)
  have h: "length h = K" "\<forall>hi\<in>set h. length hi = N" using sig_decode_shape(4,5) [OF sig] .
  have "use_hint (PolyVec (map (w_spec A c z t1) [0..<K])) h
      = Some (PolyVec (map (\<lambda>i. hinted (pv_polys (PolyVec (map (w_spec A c z t1) [0..<K])) ! i) (h ! i)) [0..<length h]))"
    by (rule use_hint_hinted) (use h wf_w_spec [OF sh] in \<open>auto simp: pv_len_def\<close>)
  also have "\<dots> = Some (PolyVec (map (\<lambda>i. hinted (w_spec A c z t1 i) (h ! i)) [0..<K]))" using h by simp
  finally have uh: "use_hint (PolyVec (map (w_spec A c z t1) [0..<K])) h
      = Some (PolyVec (map (\<lambda>i. hinted (w_spec A c z t1 i) (h ! i)) [0..<K]))" .
  show ?thesis
    unfolding ml_dsa_verify_def
    by (simp add: len pk sig A c recompute_w_spec [OF sh] uh expected_c_tilde_def z_norm_short [symmetric] not_le)
qed

lemma verify_cases:
  "ml_dsa_verify shake128 shake256 pk msg sig = Some False
   \<or> (\<exists>rho t1 ct z h. pk_decode pk = Inr (rho, t1) \<and> sig_decode sig = Inr (ct, z, h))"
  unfolding ml_dsa_verify_def by (auto split: sum.split)

lemma verify_total_aux:
  assumes "\<And>rho i j. i < K \<Longrightarrow> j < L \<Longrightarrow> rej_productive (shake128 (a_seed rho i j))"
    and "\<And>ct. ball_productive (shake256 ct)"
  shows "\<exists>b. ml_dsa_verify shake128 shake256 pk msg sig = Some b"
proof (cases "ml_dsa_verify shake128 shake256 pk msg sig = Some False")
  case False
  then obtain rho t1 ct z h where d: "pk_decode pk = Inr (rho, t1)" "sig_decode sig = Inr (ct, z, h)"
    using verify_cases by blast
  obtain A c where "expand_a shake128 rho = Some A" "sample_in_ball shake256 ct = Some c"
    using expand_a_total [of shake128 rho] assms sample_in_ball_total by blast
  from verify_decision_aux [OF d this] show ?thesis by blast
qed blast

lemma verify_accept_aux:
  assumes "ml_dsa_verify shake128 shake256 pk msg sig = Some True"
  obtains rho t1 ct z h A c where "pk_decode pk = Inr (rho, t1)" "sig_decode sig = Inr (ct, z, h)"
    "expand_a shake128 rho = Some A" "sample_in_ball shake256 ct = Some c"
    "z_short z" "ct = expected_c_tilde shake256 pk msg (w_spec A c z t1) h"
proof -
  obtain rho t1 ct z h where d: "pk_decode pk = Inr (rho, t1)" "sig_decode sig = Inr (ct, z, h)"
    using verify_cases [of shake128 shake256 pk msg sig] assms by auto
  have "length pk = PK_BYTES" "length sig = SIG_BYTES"
    using d unfolding pk_decode_def sig_decode_def by (auto split: if_splits)
  then obtain A c where s: "expand_a shake128 rho = Some A" "sample_in_ball shake256 ct = Some c"
    using assms d unfolding ml_dsa_verify_def by (auto simp: bind_eq_Some_conv split: if_splits)
  show thesis using that [OF d s] verify_decision_aux [OF d s, of msg] assms by simp
qed

section \<open>Properties\<close>

text \<open>
  C2. Verification decides. For every key, message and signature it returns a boolean, without a
  panic and without looping, when the SHAKE streams do not starve the rejection loops; its
  length assertions and index accesses never fail.
\<close>

theorem ml_dsa_verify_total:
  assumes "\<forall>rho. \<forall>i<K. \<forall>j<L. rej_productive (shake128 (a_seed rho i j))"
    and "\<forall>ct. ball_productive (shake256 ct)"
  shows "\<exists>b. ml_dsa_verify shake128 shake256 pk msg sig = Some b"
  using verify_total_aux [of shake128 shake256 pk msg sig] assms by blast

text \<open>
  C1. The decision is the one of FIPS 204: on decoded inputs the verifier accepts exactly when
  \<open>z\<close> is short and the challenge is the hash of the message representative and of
  \<open>w1Encode(UseHint(h, A z - c t1 2^d))\<close>, with every product the schoolbook product of the ring.
\<close>

theorem ml_dsa_verify_decision:
  assumes "pk_decode pk = Inr (rho, t1)" "sig_decode sig = Inr (ct, z, h)"
    and "expand_a shake128 rho = Some A" "sample_in_ball shake256 ct = Some c"
  shows "ml_dsa_verify shake128 shake256 pk msg sig =
    Some (z_short z \<and> ct = expected_c_tilde shake256 pk msg (w_spec A c z t1) h)"
  using assms by (rule verify_decision_aux)

text \<open>
  An accepted signature has the sizes of ML-DSA-65, decodes, has every coefficient of \<open>z\<close> below
  \<open>gamma1 - beta\<close>, at most \<open>omega\<close> hints, and carries the hash the verifier recomputed.
\<close>

lemma ml_dsa_verify_accepts:
  assumes "ml_dsa_verify shake128 shake256 pk msg sig = Some True"
  shows "length pk = 1952 \<and> length sig = 3309 \<and> (\<exists>ct z h w. sig_decode sig = Inr (ct, z, h) \<and> z_short z
    \<and> sum_list (map (\<lambda>hi. length (filter id hi)) h) \<le> OMEGA \<and> ct = expected_c_tilde shake256 pk msg w h)"
proof -
  obtain rho t1 ct z h A c where d: "pk_decode pk = Inr (rho, t1)" "sig_decode sig = Inr (ct, z, h)"
    "z_short z" "ct = expected_c_tilde shake256 pk msg (w_spec A c z t1) h"
    using assms by (rule verify_accept_aux)
  have "length pk = 1952" "length sig = 3309"
    using d(1,2) by (auto simp: pk_decode_def sig_decode_def PK_BYTES_val SIG_BYTES_val split: if_splits)
  then show ?thesis using d sig_decode_shape(6) [OF d(2)] by blast
qed

section \<open>Instances\<close>

text \<open>Zero streams are productive; the sample signature then carries the right challenge.\<close>

definition zero_xof :: xof where
  "zero_xof inp n = 0"

lemma zero_xof_productive: "rej_productive (zero_xof inp)" "ball_productive (zero_xof inp)"
proof -
  have "rej_candidate (zero_xof inp) p = 0" for p by (simp add: rej_candidate_def zero_xof_def)
  then have "length (accepted (zero_xof inp) 0 N) = N" by (simp add: accepted_def Q_def)
  then show "rej_productive (zero_xof inp)" unfolding rej_productive_def by (metis order_refl)
  show "ball_productive (zero_xof inp)" by (simp add: ball_productive_def zero_xof_def)
qed

theorem ml_dsa_verify_total_witness:
  "\<exists>b. ml_dsa_verify zero_xof zero_xof (replicate 1952 0) [1, 2] sample_sig = Some b"
  by (rule ml_dsa_verify_total) (simp_all add: zero_xof_productive)

lemma expected_c_tilde_zero: "expected_c_tilde zero_xof pk msg w h = replicate 48 0"
  by (rule nth_equalityI)
    (simp_all add: expected_c_tilde_def hash_commit_def shake256_bytes_def LAMBDA_BYTES_val zero_xof_def)

lemma sample_z_short: "z_short sample_z"
  by (simp add: z_short_def sample_z_def from_coeffs_def GAMMA1_val BETA_def)

lemma zero_xof_samples: "\<exists>A c. expand_a zero_xof rho = Some A \<and> sample_in_ball zero_xof ct = Some c"
  using expand_a_total [of zero_xof rho] sample_in_ball_total [of zero_xof ct] zero_xof_productive by blast

theorem ml_dsa_verify_decision_witness:
  "ml_dsa_verify zero_xof zero_xof (replicate 1952 0) [7] sample_sig = Some True"
proof -
  obtain t1 A c where s: "pk_decode (replicate 1952 0) = Inr (replicate 32 0, t1)"
    "expand_a zero_xof (replicate 32 0) = Some A" "sample_in_ball zero_xof (replicate 48 0) = Some c"
    using pk_decode_sample zero_xof_samples by blast
  from ml_dsa_verify_decision [OF s(1) sig_decode_sample s(2,3)] show ?thesis
    by (simp add: expected_c_tilde_zero sample_z_short)
qed

lemma sample_accepted: "ml_dsa_verify zero_xof zero_xof (replicate 1952 0) [] sample_sig = Some True"
proof -
  obtain t1 A c where s: "pk_decode (replicate 1952 0) = Inr (replicate 32 0, t1)"
    "expand_a zero_xof (replicate 32 0) = Some A" "sample_in_ball zero_xof (replicate 48 0) = Some c"
    using pk_decode_sample zero_xof_samples by blast
  from verify_decision_aux [OF s(1) sig_decode_sample s(2,3)] show ?thesis
    by (simp add: expected_c_tilde_zero sample_z_short)
qed

end
