(* ===== verification/M31_Field.thy ===== *)
theory M31_Field
  imports Prime_Mod
begin

unbundle bit_operations_syntax

text \<open>
  The Mersenne field \<open>M31\<close> as the crate implements it twice: on \<open>u64\<close> values in
  \<open>poseidon2.rs\<close> and on \<open>u32\<close> values in \<open>vfri2_bridge.rs\<close>. The locale \<open>m31_ops\<close> is the contract
  both share: on canonical words the operations are addition, subtraction and multiplication
  modulo \<open>2^31 - 1\<close>. The field laws and the injectivity of the S-box are proved in it once.
\<close>

section \<open>The modulus is prime\<close>

definition P31 :: int where "P31 = 2147483647"

lemma P31_pos [simp, intro]: "0 < P31" "0 \<le> P31" "1 < P31" by (simp_all add: P31_def)

lemma pow2_31: "2 ^ 31 mod P31 = (1::int)" by (simp add: P31_def)

lemma pow7_331: "1761855083 ^ 331 mod P31 = 1"
  unfolding pow_num_mod by (simp add: P31_def)

lemma trial_division:
  assumes "list_all (\<lambda>d. n mod d \<noteq> 0) [2..<n]" "0 < n" "d dvd n"
  shows "d = 1 \<or> d = n"
proof (rule ccontr)
  assume "\<not> (d = 1 \<or> d = n)"
  moreover have "d \<le> n" "d \<noteq> 0" using assms(2,3) by (auto dest: dvd_imp_le)
  ultimately have "d \<in> set [2..<n]" by simp
  then have "n mod d \<noteq> 0" using assms(1) unfolding list_all_iff by blast
  then show False using assms(3) by (metis dvd_imp_mod_0)
qed

lemma trial_331: "d dvd 331 \<Longrightarrow> d = 1 \<or> d = 331" for d :: nat
  by (rule trial_division) simp_all

lemma trial_31: "d dvd 31 \<Longrightarrow> d = 1 \<or> d = 31" for d :: nat
  by (rule trial_division) simp_all

lemma order_factor: "31 dvd n \<Longrightarrow> 331 dvd n \<Longrightarrow> 2 dvd n \<Longrightarrow> 20522 dvd n" for n :: nat
proof -
  assume n: "31 dvd n" "331 dvd n" "2 dvd n"
  have c: "coprime 31 (331::nat)" "coprime 2 (31 * 331 :: nat)"
    by (simp_all add: coprime_iff_gcd_eq_1 gcd_non_0_nat)
  have "31 * 331 dvd n" using n(1,2) c(1) by (rule divides_mult)
  with n(3) have "2 * (31 * 331) dvd n" using c(2) by (rule divides_mult)
  then show ?thesis by simp
qed

text \<open>
  A prime factor \<open>r\<close> is odd, 2 has order 31 modulo \<open>r\<close>, and 1761855083 has order 331: so \<open>r - 1\<close> is a
  multiple of \<open>2 * 31 * 331\<close>, and no such \<open>r\<close> up to the square root divides \<open>2^31 - 1\<close>.
\<close>

lemma P31_prime: "is_prime (nat P31)"
proof (rule is_prime_by_factors)
  show "1 < nat P31" by (simp add: P31_def)
next
  fix r assume r: "is_prime r" "r dvd nat P31" "r * r \<le> nat P31"
  have r1: "1 < r" using is_prime_gt1 [OF r(1)] .
  have not1: False if "int r dvd x" "x * y mod P31 = 1" for x y
  proof -
    have "int r dvd P31" using r(2) by (metis P31_pos(2) int_dvd_int_iff nat_0_le)
    then have "int r dvd P31 * (x * y div P31)" by simp
    moreover have "int r dvd x * y" using that(1) by simp
    moreover have "x * y = P31 * (x * y div P31) + 1" using that(2) by (metis mult_div_mod_eq)
    ultimately have "int r dvd 1" by (metis dvd_add_right_iff)
    then show False using r1 by simp
  qed
  have o: "n dvd r - 1" if "a ^ n mod P31 = 1" "\<And>d. d dvd n \<Longrightarrow> d = 1 \<or> d = n" "(a - 1) * c mod P31 = 1" "n \<noteq> 0" for a c n
  proof -
    have g: "a ^ gcd n (r - 1) mod int r = 1"
      by (rule order_dvd_prime [OF r(1,2)]) (use that(1,4) in simp_all)
    have "gcd n (r - 1) \<noteq> 1"
    proof
      assume "gcd n (r - 1) = 1"
      with g have "a mod int r = 1 mod int r" using r1 by simp
      then have "int r dvd a - 1" by (simp add: mod_eq_dvd_iff)
      then show False using not1 that(3) by blast
    qed
    with that(2) [of "gcd n (r - 1)"] have "gcd n (r - 1) = n" by simp
    then show ?thesis by (metis gcd_dvd2)
  qed
  have "31 dvd r - 1" by (rule o [of 2 31 1]) (use trial_31 in \<open>simp_all add: P31_def\<close>)
  moreover have "331 dvd r - 1"
  proof (rule o [OF pow7_331])
    show "(1761855083 - 1) * 1924809196 mod P31 = 1" by (simp add: P31_def)
  qed (fact trial_331, simp)
  moreover have "2 dvd r - 1"
  proof -
    have "odd r" using r(2) dvd_trans [of 2 r "nat P31"] by (auto simp: P31_def)
    then show ?thesis using r1 by simp
  qed
  ultimately have "20522 dvd r - 1" by (rule order_factor)
  then obtain k where k: "r = 20522 * k + 1" using r1 by (metis dvdE le_add_diff_inverse2 less_imp_le)
  have "k < 3"
  proof (rule ccontr)
    assume "\<not> k < 3"
    then have "61567 \<le> r" using k by simp
    from mult_le_mono [OF this this] r(3) show False by (simp add: P31_def)
  qed
  then have "k = 0 \<or> k = 1 \<or> k = 2" by linarith
  with k r1 r(2) show False by (auto simp: P31_def)
qed

lemma int_P31: "int (nat P31) = P31" by simp

lemma P31_dvd_mult: "P31 dvd a * b \<longleftrightarrow> P31 dvd a \<or> P31 dvd b"
  using prime_dvd_mult_int [OF P31_prime, unfolded int_P31, of a b] by auto

lemma P31_cancel_num: "P31 dvd a * b \<Longrightarrow> \<not> P31 dvd a \<Longrightarrow> P31 dvd b"
  by (simp add: P31_dvd_mult)

lemma fermat_P31: "a ^ 2147483647 mod P31 = a mod P31"
  using fermat_int [OF P31_prime, of a] by (simp add: P31_def)

lemma P31_pow_step: "a ^ (1 + k * 2147483646) mod P31 = a mod P31"
proof (induction k)
  case (Suc k)
  have "1 + Suc k * 2147483646 = k * 2147483646 + 2147483647" by simp
  then have "a ^ (1 + Suc k * 2147483646) = a ^ (k * 2147483646) * a ^ 2147483647"
    by (simp only: power_add)
  then have "a ^ (1 + Suc k * 2147483646) mod P31 = a ^ (k * 2147483646) * (a mod P31) mod P31"
    by (metis fermat_P31 mod_mult_right_eq)
  also have "\<dots> = a ^ (1 + k * 2147483646) mod P31" by (simp add: mod_mult_left_eq mult.commute)
  finally show ?case using Suc.IH by simp
qed simp

text \<open>\<open>5\<close> is coprime to \<open>2^31 - 2\<close>, so \<open>x^5\<close> has the inverse \<open>x^1717986917\<close>.\<close>

lemma pow5_inj_mod:
  assumes "a ^ 5 mod P31 = b ^ 5 mod P31"
  shows "a mod P31 = b mod P31"
proof -
  have "(a ^ 5) ^ 1717986917 mod P31 = (b ^ 5) ^ 1717986917 mod P31"
    using assms by (metis power_mod)
  then have "a ^ (1 + 4 * 2147483646) mod P31 = b ^ (1 + 4 * 2147483646) mod P31"
    by (simp flip: power_mult)
  then show ?thesis by (simp only: P31_pow_step)
qed

section \<open>The contract of an implementation\<close>

locale m31_ops =
  fixes val :: "'a \<Rightarrow> int" and add :: "'a \<Rightarrow> 'a \<Rightarrow> 'a" and sub :: "'a \<Rightarrow> 'a \<Rightarrow> 'a" and mul :: "'a \<Rightarrow> 'a \<Rightarrow> 'a"
  assumes val_inj: "val a = val b \<Longrightarrow> a = b"
    and val_nonneg: "0 \<le> val a"
    and add_val: "val a < P31 \<Longrightarrow> val b < P31 \<Longrightarrow> val (add a b) = (val a + val b) mod P31"
    and sub_val: "val a < P31 \<Longrightarrow> val b < P31 \<Longrightarrow> val (sub a b) = (val a - val b) mod P31"
    and mul_val: "val a < P31 \<Longrightarrow> val b < P31 \<Longrightarrow> val (mul a b) = (val a * val b) mod P31"
begin

lemma closed:
  "val a < P31 \<Longrightarrow> val b < P31 \<Longrightarrow> val (add a b) < P31"
  "val a < P31 \<Longrightarrow> val b < P31 \<Longrightarrow> val (sub a b) < P31"
  "val a < P31 \<Longrightarrow> val b < P31 \<Longrightarrow> val (mul a b) < P31"
  by (simp_all add: add_val sub_val mul_val)

lemma eqI: "val a < P31 \<Longrightarrow> val b < P31 \<Longrightarrow> val a mod P31 = val b mod P31 \<Longrightarrow> a = b"
  using val_nonneg [of a] val_nonneg [of b] val_inj [of a b] by simp

lemmas ring_eqI = eqI [OF closed(1) closed(1)] eqI [OF closed(3) closed(3)]

lemma add_commute: "val a < P31 \<Longrightarrow> val b < P31 \<Longrightarrow> add a b = add b a"
  by (rule eqI) (simp_all add: closed add_val add.commute)

lemma mul_commute: "val a < P31 \<Longrightarrow> val b < P31 \<Longrightarrow> mul a b = mul b a"
  by (rule eqI) (simp_all add: closed mul_val mult.commute)

lemma add_assoc: "val a < P31 \<Longrightarrow> val b < P31 \<Longrightarrow> val c < P31 \<Longrightarrow> add (add a b) c = add a (add b c)"
  by (rule eqI) (simp_all add: closed add_val mod_simps add.assoc)

lemma mul_assoc: "val a < P31 \<Longrightarrow> val b < P31 \<Longrightarrow> val c < P31 \<Longrightarrow> mul (mul a b) c = mul a (mul b c)"
  by (rule eqI) (simp_all add: closed mul_val mod_simps mult.assoc)

lemma distrib: "val a < P31 \<Longrightarrow> val b < P31 \<Longrightarrow> val c < P31 \<Longrightarrow> mul a (add b c) = add (mul a b) (mul a c)"
  by (rule eqI) (simp_all add: closed mul_val add_val mod_simps distrib_left)

lemma sub_add_cancel: "val a < P31 \<Longrightarrow> val b < P31 \<Longrightarrow> add (sub a b) b = a"
  by (rule eqI) (simp_all add: closed sub_val add_val mod_simps)

lemma add_right_inj: "val a < P31 \<Longrightarrow> val b < P31 \<Longrightarrow> val c < P31 \<Longrightarrow> add a c = add b c \<Longrightarrow> a = b"
proof -
  assume v: "val a < P31" "val b < P31" "val c < P31" and e: "add a c = add b c"
  then have "(val a + val c) mod P31 = (val b + val c) mod P31" using add_val by metis
  then have "val a mod P31 = val b mod P31" by (simp add: mod_eq_dvd_iff)
  with v show "a = b" by (intro eqI)
qed

lemma pow5_val: "val x < P31 \<Longrightarrow> val (mul (mul (mul x x) (mul x x)) x) = val x ^ 5 mod P31"
  by (simp add: mul_val closed mod_simps) (simp add: power_numeral_reduce mult.assoc)

lemma pow5_inj:
  assumes "val x < P31" "val y < P31"
    "mul (mul (mul x x) (mul x x)) x = mul (mul (mul y y) (mul y y)) y"
  shows "x = y"
proof (rule eqI [OF assms(1,2)])
  show "val x mod P31 = val y mod P31"
    by (rule pow5_inj_mod) (metis assms pow5_val)
qed

end

section \<open>Folding modulo a Mersenne number\<close>

lemma mersenne_fold:
  fixes r :: int
  assumes "0 \<le> r" "r < P31 * 2 ^ 31"
  shows "(if r mod 2 ^ 31 + r div 2 ^ 31 \<ge> P31 then r mod 2 ^ 31 + r div 2 ^ 31 - P31
      else r mod 2 ^ 31 + r div 2 ^ 31) = r mod P31"
proof -
  define lo hi where "lo = r mod 2 ^ 31" and "hi = r div 2 ^ 31"
  have lo: "0 \<le> lo" "lo \<le> P31" by (simp_all add: lo_def P31_def)
  have hi: "0 \<le> hi" "hi < P31" using assms by (simp_all add: hi_def div_less_iff_less_mult)
  have "r = hi * 2 ^ 31 + lo" by (simp add: lo_def hi_def)
  also have "\<dots> = (lo + hi) + P31 * hi" by (simp add: P31_def)
  finally have "r mod P31 = (lo + hi) mod P31" by simp
  moreover have "(lo + hi) mod P31 = (if lo + hi \<ge> P31 then lo + hi - P31 else lo + hi)"
  proof (cases "lo + hi \<ge> P31")
    case True
    have "(lo + hi) mod P31 = (lo + hi - P31) mod P31" by simp
    also have "\<dots> = lo + hi - P31" by (rule mod_pos_pos_trivial) (use True lo hi in linarith)+
    finally show ?thesis using True by simp
  qed (use lo hi in simp)
  ultimately show ?thesis by (simp add: lo_def hi_def)
qed

lemma uint_add_small: "uint a + uint b < 2 ^ LENGTH('a) \<Longrightarrow> uint (a + b) = uint a + uint b" for a b :: "'a::len word"
  by (simp add: uint_word_ariths)

lemma uint_mult_small: "uint a * uint b < 2 ^ LENGTH('a) \<Longrightarrow> uint (a * b) = uint a * uint b" for a b :: "'a::len word"
  by (simp add: uint_word_ariths)

lemma uint_sub_small: "uint b \<le> uint a \<Longrightarrow> uint (a - b) = uint a - uint b" for a b :: "'a::len word"
  using uint_minus_simple_alt [of b a] by (simp add: word_le_def)

section \<open>The \<open>u64\<close> implementation of \<open>poseidon2.rs\<close>\<close>

definition M31_P :: u64 where "M31_P = (push_bit 31 1) - 1"

definition m31_add :: "u64 \<Rightarrow> u64 \<Rightarrow> u64" where
  "m31_add a b = (let s = a + b in if s \<ge> M31_P then s - M31_P else s)"

definition m31_sub :: "u64 \<Rightarrow> u64 \<Rightarrow> u64" where
  "m31_sub a b = (if a \<ge> b then a - b else a + M31_P - b)"

definition m31_mul :: "u64 \<Rightarrow> u64 \<Rightarrow> u64" where
  "m31_mul a b =
     (let r = a * b;
          lo = r AND M31_P;
          hi = drop_bit 31 r;
          s = lo + hi
      in if s \<ge> M31_P then s - M31_P else s)"

definition canon :: "u64 \<Rightarrow> bool" where
  "canon a \<longleftrightarrow> a < M31_P"

lemma M31_P_val: "M31_P = 2147483647" by (simp add: M31_P_def)

lemma uint_M31_P: "uint M31_P = P31" by (simp add: M31_P_val P31_def)

lemma canon_uint: "canon a \<longleftrightarrow> uint a < P31"
  by (simp add: canon_def word_less_def uint_M31_P)

lemma cond_sub_u64: "uint (if s \<ge> M31_P then s - M31_P else s) = (if uint s \<ge> P31 then uint s - P31 else uint s)"
  by (simp add: word_le_def uint_M31_P uint_sub_small)

lemma m31_add_uint: "uint a < P31 \<Longrightarrow> uint b < P31 \<Longrightarrow> uint (m31_add a b) = (uint a + uint b) mod P31"
proof -
  assume ab: "uint a < P31" "uint b < P31"
  then have s: "uint (a + b) = uint a + uint b" by (intro uint_add_small) (simp add: P31_def)
  have "(uint a + uint b) mod P31 = (if uint a + uint b \<ge> P31 then uint a + uint b - P31 else uint a + uint b)"
    using ab by (smt (verit) minus_mod_self2 mod_pos_pos_trivial uint_nonnegative)
  then show ?thesis unfolding m31_add_def Let_def cond_sub_u64 s by simp
qed

lemma m31_sub_uint: "uint a < P31 \<Longrightarrow> uint b < P31 \<Longrightarrow> uint (m31_sub a b) = (uint a - uint b) mod P31"
proof -
  assume ab: "uint a < P31" "uint b < P31"
  show ?thesis
  proof (cases "uint b \<le> uint a")
    case True
    have "(uint a - uint b) mod P31 = uint a - uint b"
      by (rule mod_pos_pos_trivial) (use True ab uint_nonnegative [of b] in linarith)+
    then show ?thesis using True by (simp add: m31_sub_def word_le_def uint_sub_small)
  next
    case False
    have s: "uint (a + M31_P) = uint a + P31"
      using ab by (subst uint_add_small) (simp_all add: uint_M31_P P31_def)
    have "uint (a + M31_P - b) = uint a + P31 - uint b"
      using ab False uint_nonnegative [of a] by (subst uint_sub_small) (unfold s, linarith+)
    moreover have "(uint a - uint b) mod P31 = (uint a - uint b + P31) mod P31" by simp
    moreover have "(uint a - uint b + P31) mod P31 = uint a - uint b + P31"
      by (rule mod_pos_pos_trivial) (use False ab uint_nonnegative [of a] in linarith)+
    ultimately show ?thesis using False by (simp add: m31_sub_def word_le_def)
  qed
qed

lemma uint_low31: "uint (r AND M31_P) = uint r mod 2 ^ 31" for r :: u64
proof -
  have "M31_P = mask 31" by (simp add: M31_P_val mask_eq_exp_minus_1)
  then have "r AND M31_P = take_bit 31 r" by (simp add: take_bit_eq_mask)
  then show ?thesis by (simp add: take_bit_eq_mod uint_mod)
qed

lemma uint_high31: "uint (drop_bit 31 r) = uint r div 2 ^ 31" for r :: u64
  by (simp add: drop_bit_eq_div uint_div)

lemma fold_u64:
  assumes "uint r < P31 * 2 ^ 31"
  shows "uint (let lo = r AND M31_P; hi = drop_bit 31 r; s = lo + hi in if s \<ge> M31_P then s - M31_P else s) = uint r mod P31"
proof -
  have "uint r mod 2 ^ 31 < 2 ^ 31" by simp
  moreover have "uint r div 2 ^ 31 < P31" using assms by (simp add: div_less_iff_less_mult)
  ultimately have s: "uint ((r AND M31_P) + drop_bit 31 r) = uint r mod 2 ^ 31 + uint r div 2 ^ 31"
    by (subst uint_add_small) (simp_all add: uint_low31 uint_high31 P31_def)
  show ?thesis unfolding Let_def cond_sub_u64 s by (rule mersenne_fold [OF uint_nonnegative assms])
qed

lemma m31_prod_bound: "0 \<le> x \<Longrightarrow> x < P31 \<Longrightarrow> 0 \<le> y \<Longrightarrow> y < P31 \<Longrightarrow> x * y < P31 * 2 ^ 31"
proof -
  assume "0 \<le> x" "x < P31" "0 \<le> y" "y < P31"
  then have "x * y \<le> P31 * P31" by (intro mult_mono) auto
  then show ?thesis by (simp add: P31_def)
qed

lemma m31_mul_uint: "uint a < P31 \<Longrightarrow> uint b < P31 \<Longrightarrow> uint (m31_mul a b) = (uint a * uint b) mod P31"
proof -
  assume ab: "uint a < P31" "uint b < P31"
  then have p: "uint a * uint b < P31 * 2 ^ 31" by (intro m31_prod_bound) simp_all
  then have r: "uint (a * b) = uint a * uint b" by (intro uint_mult_small) (simp add: P31_def)
  with p have "uint (a * b) < P31 * 2 ^ 31" by simp
  from fold_u64 [OF this] show ?thesis unfolding m31_mul_def Let_def r .
qed

interpretation m64: m31_ops "uint :: u64 \<Rightarrow> int" m31_add m31_sub m31_mul
  by unfold_locales (simp_all add: m31_add_uint m31_sub_uint m31_mul_uint word_uint_eq_iff)

end
