(* ===== verification/Poseidon2.thy ===== *)
theory Poseidon2
  imports M31_Field
begin

unbundle bit_operations_syntax

text \<open>
  The Poseidon2 permutations over M31 of \<open>poseidon2.rs\<close> (width 2), \<open>poseidon2_t4.rs\<close>,
  \<open>poseidon2_t8.rs\<close> and \<open>poseidon2_t16.rs\<close>, with their sponges and compressions. The three wide
  modules repeat one code with different layers and constants: the round structure and the
  sponge are definitions with the layers as arguments, and every width instantiates them. The
  locale \<open>poseidon2_layers\<close> is the contract of the layers (they are injective on canonical
  states); it gives that the permutations are bijective and the sponges injective on a last block.
\<close>

section \<open>S-box and canonical states\<close>

definition sbox :: "u64 \<Rightarrow> u64" where
  "sbox x = (let x2 = m31_mul x x; x4 = m31_mul x2 x2 in m31_mul x4 x)"

definition wf_state :: "nat \<Rightarrow> u64 list \<Rightarrow> bool" where
  "wf_state n s \<longleftrightarrow> length s = n \<and> (\<forall>x\<in>set s. canon x)"

lemma wf_state_nth: "wf_state n s \<Longrightarrow> i < n \<Longrightarrow> canon (s ! i)"
  by (simp add: wf_state_def)

lemma canon_ops:
  "canon a \<Longrightarrow> canon b \<Longrightarrow> canon (m31_add a b)"
  "canon a \<Longrightarrow> canon b \<Longrightarrow> canon (m31_mul a b)"
  "canon a \<Longrightarrow> canon (sbox a)"
  by (simp_all add: canon_uint m64.closed sbox_def Let_def)

lemma sbox_inj: "canon a \<Longrightarrow> canon b \<Longrightarrow> sbox a = sbox b \<Longrightarrow> a = b"
  unfolding sbox_def Let_def canon_uint by (rule m64.pow5_inj)

lemma canon_zero: "canon 0" by (simp add: canon_uint)

lemma canon_mod: "canon (v mod M31_P)"
  by (simp add: canon_def M31_P_val word_mod_less_divisor)

lemma canon_mod_id: "canon v \<Longrightarrow> v mod M31_P = v"
  unfolding canon_def by (rule mod_word_less)

section \<open>Width 2\<close>

definition N_ROUNDS :: nat where "N_ROUNDS = 8"

definition RC :: "u32 list list" where
  "RC =
  [[1779033703, 996650630],
   [1013904242, 625997115],
   [1359893119, 453339277],
   [528734635, 1541459225],
   [1116352408, 1899447441],
   [901839824, 1773525926],
   [961987163, 1508970993],
   [306152101, 723279574]]"

definition mds :: "u64 list \<Rightarrow> u64 list" where
  "mds s =
     (let a = s ! 0; b = s ! 1;
          three_a = m31_add (m31_add a a) a;
          three_b = m31_add (m31_add b b) b
      in [m31_add three_a b, m31_add a three_b])"

definition round2 :: "u64 list \<Rightarrow> u32 list \<Rightarrow> u64 list" where
  "round2 s rc =
     (let s = [m31_add (s ! 0) (ucast (rc ! 0)), m31_add (s ! 1) (ucast (rc ! 1))];
          s = [sbox (s ! 0), sbox (s ! 1)]
      in mds s)"

definition permute :: "u64 list \<Rightarrow> u64 list" where
  "permute s = foldl (\<lambda>s r. round2 s (RC ! r)) s [0..<N_ROUNDS]"

definition poseidon2_chain :: "u64 list \<Rightarrow> u64 \<times> u64" where
  "poseidon2_chain leaves =
     (let state = foldl (\<lambda>state leaf. permute (state[0 := m31_add (state ! 0) (leaf mod M31_P)])) [0, 0] leaves
      in (state ! 0, state ! 1))"

section \<open>The round structure of the wide instances\<close>

definition p2_full_round :: "(u64 list \<Rightarrow> u64 list) \<Rightarrow> nat \<Rightarrow> u32 list \<Rightarrow> u64 list \<Rightarrow> nat \<Rightarrow> u64 list" where
  "p2_full_round mat_external t krc s r =
     (let s = map (\<lambda>i. m31_add (s ! i) (ucast (krc ! (t * r + i)))) [0..<t];
          s = map sbox s
      in mat_external s)"

definition p2_partial_round :: "(u64 list \<Rightarrow> u64 list) \<Rightarrow> nat \<Rightarrow> u32 list \<Rightarrow> u64 list \<Rightarrow> nat \<Rightarrow> u64 list" where
  "p2_partial_round mat_internal off krc s j =
     (let s = s[0 := m31_add (s ! 0) (ucast (krc ! (off + j)))];
          s = s[0 := sbox (s ! 0)]
      in mat_internal s)"

definition R_F :: nat where "R_F = 8"

definition p2_permute ::
  "(u64 list \<Rightarrow> u64 list) \<Rightarrow> (u64 list \<Rightarrow> u64 list) \<Rightarrow> nat \<Rightarrow> nat \<Rightarrow> u32 list \<Rightarrow> u64 list \<Rightarrow> u64 list" where
  "p2_permute mat_external mat_internal t rp krc s =
     (let s = mat_external s;
          s = foldl (p2_full_round mat_external t krc) s [0..<R_F div 2];
          s = foldl (p2_partial_round mat_internal (t * R_F) krc) s [0..<rp]
      in foldl (p2_full_round mat_external t krc) s [R_F div 2..<R_F])"

text \<open>Absorb the words of a block (or of the remainder) into the first cells.\<close>

definition p2_absorb :: "u64 list \<Rightarrow> u64 list \<Rightarrow> u64 list" where
  "p2_absorb state c = foldl (\<lambda>state k. state[k := m31_add (state ! k) (c ! k mod M31_P)]) state [0..<length c]"

text \<open>The loop over \<open>chunks_exact(rate)\<close>; it returns the state and the remainder.\<close>

function p2_blocks :: "(u64 list \<Rightarrow> u64 list) \<Rightarrow> nat \<Rightarrow> u64 list \<Rightarrow> u64 list \<Rightarrow> u64 list \<times> u64 list" where
  "p2_blocks perm rate state values =
     (if rate \<le> length values \<and> 0 < rate
      then p2_blocks perm rate (perm (p2_absorb state (take rate values))) (drop rate values)
      else (state, values))"
  by pat_completeness auto
termination
  by (relation "measure (\<lambda>(perm, rate, state, values). length values)") auto

declare p2_blocks.simps [simp del]

definition p2_sponge :: "(u64 list \<Rightarrow> u64 list) \<Rightarrow> nat \<Rightarrow> nat \<Rightarrow> u64 list \<Rightarrow> u64 list" where
  "p2_sponge perm rate t values =
     (let (state, rem) = p2_blocks perm rate (replicate t 0) values
      in if rem \<noteq> []
         then (let state = p2_absorb state rem;
                   state = state[t - 1 := m31_add (state ! (t - 1)) (word_of_nat (rate - length rem))]
               in perm state)
         else state)"

section \<open>Width 4\<close>

definition p2_rc :: "u32 \<Rightarrow> u32" where
  "p2_rc x =
     (let p = ucast M31_P;
          v = x;
          v = (if v \<ge> p then v - p else v)
      in if v \<ge> p then v - p else v)"

definition K_RC_t4 :: "u32 list" where
  "K_RC_t4 = map p2_rc
  [1116352408, 1899447441, 3049323471, 3921009573, 961987163, 1508970993,
   2453635748, 2870763221, 3624381080, 310598401, 607225278, 1426881987,
   1925078388, 2162078206, 2614888103, 3248222580, 3835390401, 4022224774,
   264347078, 604807628, 770255983, 1249150122, 1555081692, 1996064986,
   2554220882, 2821834349, 2952996808, 3210313671, 3336571891, 3584528711,
   113926993, 338241895, 666307205, 773529912, 1294757372, 1396182291,
   1695183700, 1986661051, 2177026350, 2456956037, 2730485921, 2820302411,
   3259730800, 3345764771, 3516065817, 3600352804, 4094571909, 275423344,
   430227734, 506948616, 659060556, 883997877, 958139571]"

definition mat_external_t4 :: "u64 list \<Rightarrow> u64 list" where
  "mat_external_t4 s =
     (let t0 = m31_add (s ! 0) (s ! 1);
          t1 = m31_add (s ! 2) (s ! 3);
          t2 = m31_add (m31_add (s ! 1) (s ! 1)) t1;
          t3 = m31_add (m31_add (s ! 3) (s ! 3)) t0;
          t4 = m31_add (m31_add (m31_add t1 t1) (m31_add t1 t1)) t3;
          t5 = m31_add (m31_add (m31_add t0 t0) (m31_add t0 t0)) t2
      in [m31_add t3 t5, t5, m31_add t2 t4, t4])"

definition mat_internal_t4 :: "u64 list \<Rightarrow> u64 list" where
  "mat_internal_t4 s =
     (let sm = m31_add (m31_add (s ! 0) (s ! 1)) (m31_add (s ! 2) (s ! 3))
      in [m31_add sm (s ! 0),
          m31_add sm (m31_add (s ! 1) (s ! 1)),
          m31_add sm (m31_add (m31_add (s ! 2) (s ! 2)) (s ! 2)),
          m31_add sm (m31_add (m31_add (s ! 3) (s ! 3)) (m31_add (s ! 3) (s ! 3)))])"

definition permute_t4 :: "u64 list \<Rightarrow> u64 list" where
  "permute_t4 = p2_permute mat_external_t4 mat_internal_t4 4 21 K_RC_t4"

definition sponge_t4 :: "u64 list \<Rightarrow> u64 list" where
  "sponge_t4 values = p2_sponge permute_t4 2 4 values"

definition compress_t4 :: "u64 list \<Rightarrow> u64 list \<Rightarrow> u64 list" where
  "compress_t4 left right =
     (let state = permute_t4 [left ! 0, left ! 1, right ! 0, right ! 1] in [state ! 0, state ! 1])"

section \<open>Width 8\<close>

definition K_RC_t8 :: "u32 list" where
  "K_RC_t8 =
  [2012176458, 1849299961, 1732939933, 390435213, 1583598125, 1521506328,
   1850315157, 593064883, 442979704, 49299287, 668322884, 1478447923,
   2117627097, 894462472, 335092600, 304090409, 1725083656, 1823780446,
   1589693490, 336928399, 1533176076, 1472808391, 1197491867, 1980232791,
   1332985942, 553469441, 542603061, 145062400, 1801771230, 501797052,
   191408558, 124556117, 767378382, 870276988, 2046892345, 12605708,
   1937961243, 903615558, 781360720, 458985484, 768021800, 1017409239,
   1219264179, 1642454766, 518313705, 101708341, 1618375810, 1323121046,
   1721228118, 339098950, 1976827842, 1756100371, 1309626382, 451150501,
   491114795, 994585973, 1034786474, 575533575, 1809299734, 1497205669,
   961538106, 1152123009, 606500650, 2046687220, 672534258, 1626884035,
   1258567472, 1521030780, 609641534, 426249300, 1360556010, 668676905,
   453695314, 178868843, 1293599881, 595916213, 1841032014, 29885509]"

definition m4 :: "u64 list \<Rightarrow> u64 list" where
  "m4 s =
     (let t0 = m31_add (s ! 0) (s ! 1);
          t1 = m31_add (s ! 2) (s ! 3);
          t2 = m31_add (m31_add (s ! 1) (s ! 1)) t1;
          t3 = m31_add (m31_add (s ! 3) (s ! 3)) t0;
          t4 = m31_add (m31_add (m31_add t1 t1) (m31_add t1 t1)) t3;
          t5 = m31_add (m31_add (m31_add t0 t0) (m31_add t0 t0)) t2
      in [m31_add t3 t5, t5, m31_add t2 t4, t4])"

definition mat_external_t8 :: "u64 list \<Rightarrow> u64 list" where
  "mat_external_t8 s =
     (let v0 = m4 [s ! 0, s ! 1, s ! 2, s ! 3];
          v1 = m4 [s ! 4, s ! 5, s ! 6, s ! 7];
          sigma = (\<lambda>k. m31_add (v0 ! k) (v1 ! k))
      in map (\<lambda>k. m31_add (v0 ! k) (sigma k)) [0..<4] @ map (\<lambda>k. m31_add (v1 ! k) (sigma k)) [0..<4])"

text \<open>
  \<open>mat_internal\<close> of the widths 8 and 16: the sum is taken before the cells are overwritten, then
  cell \<open>i\<close> is added \<open>i + 1\<close> times to it.
\<close>

definition mat_internal_wide :: "nat \<Rightarrow> u64 list \<Rightarrow> u64 list" where
  "mat_internal_wide t s =
     (let sm = foldl m31_add 0 s
      in map (\<lambda>i. foldl (\<lambda>acc _. m31_add acc (s ! i)) sm [0..<Suc i]) [0..<t])"

definition mat_internal_t8 :: "u64 list \<Rightarrow> u64 list" where
  "mat_internal_t8 s = mat_internal_wide 8 s"

definition permute_t8 :: "u64 list \<Rightarrow> u64 list" where
  "permute_t8 = p2_permute mat_external_t8 mat_internal_t8 8 14 K_RC_t8"

definition sponge_t8 :: "u64 list \<Rightarrow> u64 list" where
  "sponge_t8 values = p2_sponge permute_t8 4 8 values"

definition compress_t8 :: "u64 list \<Rightarrow> u64 list \<Rightarrow> u64 list" where
  "compress_t8 left right =
     (let state = permute_t8 (map ((!) left) [0..<4] @ map ((!) right) [0..<4]) in map ((!) state) [0..<4])"

section \<open>Width 16\<close>

definition K_RC_t16 :: "u32 list" where
  "K_RC_t16 =
  [365599062, 1474211102, 866857359, 1423631047, 1080988498, 133537033,
   584306829, 983816483, 53274617, 2099993270, 418238203, 1016757858,
   533087121, 2018829672, 1860145444, 621119419, 1687563266, 1247989187,
   1034463516, 771059345, 1188773184, 1786717504, 1847351358, 1045643482,
   84722888, 1442236670, 1666688001, 1388157994, 1820176570, 906346470,
   596545147, 1521621262, 1342830669, 968102142, 472008583, 293487879,
   1464743836, 965541824, 703259861, 1074971177, 917288885, 1389101982,
   2076140359, 1456667583, 532329430, 1278318691, 19391291, 1805123501,
   1132599018, 645006741, 414583027, 1941539328, 1369383844, 1750671612,
   226015350, 1399468129, 2028042418, 1575978581, 625970722, 502417283,
   2044239643, 1237037626, 732696444, 719958381, 1855405411, 462239201,
   1417199097, 1351623844, 1214852644, 1566313405, 823484549, 2038808093,
   59462027, 432410698, 874996701, 585332624, 1347599388, 78793182,
   582527429, 655061291, 1038936950, 1444363910, 1185681344, 1635162776,
   329635127, 287626090, 199315315, 1669214696, 405993748, 320581075,
   928589308, 1765854973, 486377493, 910646161, 1585806573, 453018086,
   1478416193, 1829395642, 598689827, 935118246, 1336932458, 2147459779,
   1014410290, 259794828, 2129660335, 718753456, 2050072474, 254931253,
   1080146963, 540554929, 506016650, 156055845, 995169882, 969325822,
   232662561, 741460961, 1179400441, 1084927451, 319071821, 409684197,
   1232688177, 561313406, 1656574415, 11718892, 216659011, 952908412,
   1380765329, 1521369242, 907051838, 1803830187, 47658112, 824628367,
   713854912, 1489720594, 1695950527, 898987930, 1276627535, 990382248,
   258309882, 108327904, 771518169, 645853941]"

definition mat_external_t16 :: "u64 list \<Rightarrow> u64 list" where
  "mat_external_t16 s =
     (let v = map (\<lambda>b. m4 [s ! (4 * b), s ! (4 * b + 1), s ! (4 * b + 2), s ! (4 * b + 3)]) [0..<4];
          sigma = (\<lambda>k. m31_add (m31_add (v ! 0 ! k) (v ! 1 ! k)) (m31_add (v ! 2 ! k) (v ! 3 ! k)))
      in concat (map (\<lambda>b. map (\<lambda>k. m31_add (v ! b ! k) (sigma k)) [0..<4]) [0..<4]))"

definition mat_internal_t16 :: "u64 list \<Rightarrow> u64 list" where
  "mat_internal_t16 s = mat_internal_wide 16 s"

definition permute_t16 :: "u64 list \<Rightarrow> u64 list" where
  "permute_t16 = p2_permute mat_external_t16 mat_internal_t16 16 14 K_RC_t16"

definition sponge_t16 :: "u64 list \<Rightarrow> u64 list" where
  "sponge_t16 values = p2_sponge permute_t16 8 16 values"

definition compress_t16 :: "u64 list \<Rightarrow> u64 list \<Rightarrow> u64 list" where
  "compress_t16 left right =
     (let state = permute_t16 (map ((!) left) [0..<8] @ map ((!) right) [0..<8]) in map ((!) state) [0..<8])"

section \<open>The contract of the layers\<close>

locale poseidon2_layers =
  fixes t :: nat and mE mI :: "u64 list \<Rightarrow> u64 list" and krc :: "u32 list" and rp :: nat
  assumes t_pos: "0 < t"
    and mE_wf: "wf_state t s \<Longrightarrow> wf_state t (mE s)"
    and mI_wf: "wf_state t s \<Longrightarrow> wf_state t (mI s)"
    and mE_inj: "wf_state t s \<Longrightarrow> wf_state t s' \<Longrightarrow> mE s = mE s' \<Longrightarrow> s = s'"
    and mI_inj: "wf_state t s \<Longrightarrow> wf_state t s' \<Longrightarrow> mI s = mI s' \<Longrightarrow> s = s'"
    and rc_canon: "i < t * R_F + rp \<Longrightarrow> canon (ucast (krc ! i))"
begin

lemma rc_full: "r < R_F \<Longrightarrow> i < t \<Longrightarrow> canon (ucast (krc ! (t * r + i)))"
proof (rule rc_canon)
  assume "r < R_F" "i < t"
  then have "t * r + i < t * Suc r" by simp
  also have "\<dots> \<le> t * R_F" using \<open>r < R_F\<close> by (intro mult_le_mono2) simp
  finally show "t * r + i < t * R_F + rp" by simp
qed

lemma full_round_wf: "wf_state t s \<Longrightarrow> r < R_F \<Longrightarrow> wf_state t (p2_full_round mE t krc s r)"
  unfolding p2_full_round_def Let_def
  by (rule mE_wf) (auto simp: wf_state_def canon_ops rc_full)

lemma full_round_inj:
  assumes "wf_state t s" "wf_state t s'" "r < R_F" "p2_full_round mE t krc s r = p2_full_round mE t krc s' r"
  shows "s = s'"
proof -
  let ?x = "\<lambda>s. map sbox (map (\<lambda>i. m31_add (s ! i) (ucast (krc ! (t * r + i)))) [0..<t])"
  have "?x s = ?x s'"
    by (rule mE_inj) (use assms in \<open>auto simp: wf_state_def canon_ops rc_full p2_full_round_def\<close>)
  then have e: "sbox (m31_add (s ! i) (ucast (krc ! (t * r + i)))) = sbox (m31_add (s' ! i) (ucast (krc ! (t * r + i))))"
    if "i < t" for i using that by (simp only: map_map o_def map_eq_conv set_upt atLeastLessThan_iff) simp
  show ?thesis
  proof (rule nth_equalityI)
    fix i assume "i < length s"
    then have i: "i < t" using assms by (simp add: wf_state_def)
    have c: "canon (s ! i)" "canon (s' ! i)" "canon (ucast (krc ! (t * r + i)))"
      using assms i by (simp_all add: wf_state_nth rc_full)
    then have "m31_add (s ! i) (ucast (krc ! (t * r + i))) = m31_add (s' ! i) (ucast (krc ! (t * r + i)))"
      by (intro sbox_inj [OF _ _ e [OF i]] canon_ops)
    then show "s ! i = s' ! i" by (rule m64.add_right_inj [OF c [unfolded canon_uint]])
  qed (use assms in \<open>simp add: wf_state_def\<close>)
qed

lemma wf_update: "wf_state t s \<Longrightarrow> canon x \<Longrightarrow> wf_state t (s[k := x])"
  by (auto simp: wf_state_def dest!: set_update_subset_insert [THEN subsetD])

lemma partial_round_eq: "wf_state t s \<Longrightarrow>
  p2_partial_round mI off krc s j = mI (s[0 := sbox (m31_add (s ! 0) (ucast (krc ! (off + j))))])"
  using t_pos by (simp add: p2_partial_round_def wf_state_def)

lemma partial_round_wf: "wf_state t s \<Longrightarrow> j < rp \<Longrightarrow> wf_state t (p2_partial_round mI (t * R_F) krc s j)"
  using t_pos by (simp add: partial_round_eq mI_wf wf_update canon_ops wf_state_nth rc_canon)

lemma partial_round_inj:
  assumes "wf_state t s" "wf_state t s'" "j < rp"
    "p2_partial_round mI (t * R_F) krc s j = p2_partial_round mI (t * R_F) krc s' j"
  shows "s = s'"
proof -
  let ?k = "ucast (krc ! (t * R_F + j)) :: u64"
  have k: "canon ?k" using assms(3) by (simp add: rc_canon)
  have c: "canon (s ! 0)" "canon (s' ! 0)" using assms t_pos by (simp_all add: wf_state_nth)
  have u: "s[0 := sbox (m31_add (s ! 0) ?k)] = s'[0 := sbox (m31_add (s' ! 0) ?k)]"
    using assms(4) unfolding partial_round_eq [OF assms(1)] partial_round_eq [OF assms(2)]
    by (rule mI_inj [rotated 2]) (use assms c k in \<open>simp_all add: wf_update canon_ops\<close>)
  have len: "length s = t" "length s' = t" using assms by (simp_all add: wf_state_def)
  have "sbox (m31_add (s ! 0) ?k) = sbox (m31_add (s' ! 0) ?k)"
    using arg_cong [OF u, of "\<lambda>s. s ! 0"] t_pos len by simp
  then have "m31_add (s ! 0) ?k = m31_add (s' ! 0) ?k"
    by (rule sbox_inj [rotated 2]) (rule canon_ops(1), rule c, rule k)+
  then have h: "s ! 0 = s' ! 0" by (rule m64.add_right_inj [OF c [unfolded canon_uint] k [unfolded canon_uint]])
  show ?thesis
  proof (rule nth_equalityI)
    fix i assume "i < length s"
    show "s ! i = s' ! i"
    proof (cases "i = 0")
      case False
      then show ?thesis using u by (metis nth_list_update_neq)
    qed (simp add: h)
  qed (simp add: len)
qed

lemma fold_wf: "(\<And>s r. r \<in> set rs \<Longrightarrow> wf_state t s \<Longrightarrow> wf_state t (f s r)) \<Longrightarrow> wf_state t s \<Longrightarrow> wf_state t (foldl f s rs)"
  by (induction rs arbitrary: s) simp_all

lemma fold_inj:
  assumes "\<And>s r. r \<in> set rs \<Longrightarrow> wf_state t s \<Longrightarrow> wf_state t (f s r)"
    "\<And>s s' r. r \<in> set rs \<Longrightarrow> wf_state t s \<Longrightarrow> wf_state t s' \<Longrightarrow> f s r = f s' r \<Longrightarrow> s = s'"
  shows "wf_state t s \<Longrightarrow> wf_state t s' \<Longrightarrow> foldl f s rs = foldl f s' rs \<Longrightarrow> s = s'"
  using assms
proof (induction rs arbitrary: s s')
  case (Cons r rs)
  have w: "wf_state t (f s r)" "wf_state t (f s' r)" using Cons.prems(1,2,4) by simp_all
  have "foldl f (f s r) rs = foldl f (f s' r) rs" using Cons.prems(3) by simp
  with w have "f s r = f s' r"
    by (rule Cons.IH) (use Cons.prems(4,5) in \<open>(meson list.set_intros(2))+\<close>)
  then show ?case using Cons.prems(1,2,5) by (meson list.set_intros(1))
qed simp

lemma fold_full_wf: "set rs \<subseteq> {..<R_F} \<Longrightarrow> wf_state t s \<Longrightarrow> wf_state t (foldl (p2_full_round mE t krc) s rs)"
  by (rule fold_wf) (auto intro: full_round_wf)

lemma fold_full_inj:
  "set rs \<subseteq> {..<R_F} \<Longrightarrow> wf_state t s \<Longrightarrow> wf_state t s' \<Longrightarrow>
   foldl (p2_full_round mE t krc) s rs = foldl (p2_full_round mE t krc) s' rs \<Longrightarrow> s = s'"
  by (erule fold_inj [rotated 4]) (auto intro: full_round_wf full_round_inj)

lemma fold_partial_wf: "wf_state t s \<Longrightarrow> wf_state t (foldl (p2_partial_round mI (t * R_F) krc) s [0..<rp])"
  by (rule fold_wf) (auto intro: partial_round_wf)

lemma fold_partial_inj:
  "wf_state t s \<Longrightarrow> wf_state t s' \<Longrightarrow>
   foldl (p2_partial_round mI (t * R_F) krc) s [0..<rp] = foldl (p2_partial_round mI (t * R_F) krc) s' [0..<rp] \<Longrightarrow> s = s'"
  by (erule fold_inj [rotated 4]) (auto intro: partial_round_wf partial_round_inj)

lemma permute_wf: "wf_state t s \<Longrightarrow> wf_state t (p2_permute mE mI t rp krc s)"
  unfolding p2_permute_def Let_def
  by (intro fold_full_wf fold_partial_wf mE_wf) (auto simp: R_F_def)

lemma permute_inj:
  assumes "wf_state t s" "wf_state t s'" "p2_permute mE mI t rp krc s = p2_permute mE mI t rp krc s'"
  shows "s = s'"
proof (rule mE_inj [OF assms(1,2)])
  have sub: "set [0..<R_F div 2] \<subseteq> {..<R_F}" "set [R_F div 2..<R_F] \<subseteq> {..<R_F}" by (auto simp: R_F_def)
  let ?a = "\<lambda>s. foldl (p2_full_round mE t krc) (mE s) [0..<R_F div 2]"
  have w: "wf_state t (?a s)" "wf_state t (?a s')" using assms sub by (simp_all add: fold_full_wf mE_wf)
  have "foldl (p2_partial_round mI (t * R_F) krc) (?a s) [0..<rp] = foldl (p2_partial_round mI (t * R_F) krc) (?a s') [0..<rp]"
    using assms(3) unfolding p2_permute_def Let_def
    by (rule fold_full_inj [OF sub(2), rotated 2]) (rule fold_partial_wf, rule w)+
  then have "?a s = ?a s'" by (rule fold_partial_inj [OF w])
  then show "mE s = mE s'" by (rule fold_full_inj [OF sub(1), rotated 2]) (rule mE_wf, rule assms)+
qed

end

end
