(* ===== verification/Poseidon2_Perm.thy ===== *)
theory Poseidon2_Perm
  imports Poseidon2
begin

unbundle bit_operations_syntax

text \<open>
  The contract \<open>poseidon2_layers\<close> holds for the layers of the widths 4, 8 and 16: the matrices
  are computed modulo \<open>2^31 - 1\<close>, each is injective since its determinant is not a multiple of the
  modulus, and every round constant is canonical. Width 2 is treated directly.
\<close>

section \<open>Kernels of the matrices\<close>

lemma P31_dvd_num: "P31 dvd numeral n * x \<Longrightarrow> \<not> P31 dvd numeral n \<Longrightarrow> P31 dvd x"
  by (rule P31_cancel_num)

lemma mod_diff_dvd: "a mod P31 = b mod P31 \<longleftrightarrow> P31 dvd a - b"
  by (rule mod_eq_dvd_iff)

lemma m4_kernel:
  assumes "P31 dvd 5 * a + 7 * b + c + 3 * d" "P31 dvd 4 * a + 6 * b + c + d"
    "P31 dvd a + 3 * b + 5 * c + 7 * d" "P31 dvd a + b + 4 * c + 6 * d"
  shows "P31 dvd a \<and> P31 dvd b \<and> P31 dvd c \<and> P31 dvd d"
proof -
  let ?e = "\<lambda>p q r s. p * (5 * a + 7 * b + c + 3 * d) + q * (4 * a + 6 * b + c + d)
     + r * (a + 3 * b + 5 * c + 7 * d) + s * (a + b + 4 * c + 6 * d)"
  have e: "P31 dvd ?e p q r s" for p q r s
    by (rule dvd_add [OF dvd_add [OF dvd_add [OF dvd_mult dvd_mult] dvd_mult] dvd_mult]) (fact assms)+
  have "?e (-1) 3 (-6) 7 = 8 * a" "?e 1 (-1) 4 (-5) = 8 * b" "?e (-6) 7 (-1) 3 = 8 * c" "?e 4 (-5) 1 (-1) = 8 * d"
    by (simp_all add: algebra_simps)
  with e [of "-1" 3 "-6" 7] e [of 1 "-1" 4 "-5"] e [of "-6" 7 "-1" 3] e [of 4 "-5" 1 "-1"]
  have "P31 dvd 8 * a" "P31 dvd 8 * b" "P31 dvd 8 * c" "P31 dvd 8 * d" by simp_all
  moreover have "\<not> P31 dvd 8" by (simp add: P31_def)
  ultimately show ?thesis by (meson P31_dvd_num)
qed

text \<open>\<open>J + diag(1, ..., n)\<close>: the kernel is trivial when \<open>L + sum_i L/(i+1)\<close> is not a multiple of the modulus.\<close>

lemma internal_kernel:
  fixes x :: "nat \<Rightarrow> int"
  assumes d: "\<forall>i<n. P31 dvd (\<Sum>j<n. x j) + int (i + 1) * x i"
    and l: "\<forall>i<n. \<exists>q. l = int (i + 1) * q i" and q: "\<forall>i<n. l = int (i + 1) * q i"
    and nz: "\<not> P31 dvd l + (\<Sum>i<n. q i)" and small: "\<forall>i<n. \<not> P31 dvd int (i + 1)"
  shows "\<forall>i<n. P31 dvd x i"
proof -
  let ?S = "\<Sum>j<n. x j"
  have "P31 dvd (\<Sum>i<n. q i * (?S + int (i + 1) * x i))"
    using d by (intro dvd_sum) simp
  also have "(\<Sum>i<n. q i * (?S + int (i + 1) * x i)) = (\<Sum>i<n. q i * ?S) + (\<Sum>i<n. l * x i)"
    unfolding sum.distrib [symmetric] by (rule sum.cong) (use q in \<open>auto simp: algebra_simps\<close>)
  also have "\<dots> = (l + (\<Sum>i<n. q i)) * ?S"
    by (simp only: sum_distrib_right [symmetric] sum_distrib_left [symmetric] distrib_right add.commute)
  finally have "P31 dvd ?S" using nz by (simp add: P31_dvd_mult)
  then have "P31 dvd int (i + 1) * x i" if "i < n" for i using d that by (meson dvd_add_right_iff)
  then show ?thesis using small by (meson P31_cancel_num)
qed

section \<open>Layers modulo the prime\<close>

lemma len4: "length s = 4 \<longleftrightarrow> (\<exists>a b c d. s = [a, b, c, d])"
  by (auto simp: length_Suc_conv numeral_eq_Suc)

lemma wf_state_4: "wf_state 4 [a, b, c, d] \<longleftrightarrow> canon a \<and> canon b \<and> canon c \<and> canon d"
  by (simp add: wf_state_def)

lemmas add64 = m31_add_uint m64.closed

lemma m4_uint:
  assumes "canon a" "canon b" "canon c" "canon d"
  shows "map uint (m4 [a, b, c, d]) =
    [(5 * uint a + 7 * uint b + uint c + 3 * uint d) mod P31, (4 * uint a + 6 * uint b + uint c + uint d) mod P31,
     (uint a + 3 * uint b + 5 * uint c + 7 * uint d) mod P31, (uint a + uint b + 4 * uint c + 6 * uint d) mod P31]"
  using assms unfolding canon_uint
  by (simp add: m4_def Let_def add64 mod_simps) (simp add: algebra_simps)

lemma m4_wf: "wf_state 4 s \<Longrightarrow> wf_state 4 (m4 s)"
  by (auto simp: wf_state_def len4 m4_def Let_def canon_ops)

lemma wf_state_uint_inj: "wf_state n s \<Longrightarrow> wf_state n s' \<Longrightarrow> (\<And>i. i < n \<Longrightarrow> P31 dvd uint (s ! i) - uint (s' ! i)) \<Longrightarrow> s = s'"
proof (rule nth_equalityI)
  assume w: "wf_state n s" "wf_state n s'" and d: "\<And>i. i < n \<Longrightarrow> P31 dvd uint (s ! i) - uint (s' ! i)"
  fix i assume "i < length s"
  then have i: "i < n" using w by (simp add: wf_state_def)
  have "uint (s ! i) mod P31 = uint (s' ! i) mod P31" using d [OF i] unfolding mod_diff_dvd .
  then show "s ! i = s' ! i"
    by (rule m64.eqI [rotated 2]) (use w i wf_state_nth in \<open>simp_all add: canon_uint [symmetric]\<close>)
qed (simp add: wf_state_def)

lemma less4: "(i::nat) < 4 \<Longrightarrow> i = 0 \<or> i = 1 \<or> i = 2 \<or> i = 3" by linarith

lemma m4_inj:
  assumes "wf_state 4 s" "wf_state 4 s'" "m4 s = m4 s'"
  shows "s = s'"
proof -
  obtain a b c d where s: "s = [a, b, c, d]" using assms(1) by (auto simp: wf_state_def len4)
  obtain a' b' c' d' where s': "s' = [a', b', c', d']" using assms(2) by (auto simp: wf_state_def len4)
  have w: "canon a" "canon b" "canon c" "canon d" "canon a'" "canon b'" "canon c'" "canon d'"
    using assms unfolding s s' wf_state_4 by simp_all
  have "map uint (m4 [a, b, c, d]) = map uint (m4 [a', b', c', d'])" using assms(3) by (simp add: s s')
  then have e: "P31 dvd 5 * (uint a - uint a') + 7 * (uint b - uint b') + (uint c - uint c') + 3 * (uint d - uint d')"
    "P31 dvd 4 * (uint a - uint a') + 6 * (uint b - uint b') + (uint c - uint c') + (uint d - uint d')"
    "P31 dvd (uint a - uint a') + 3 * (uint b - uint b') + 5 * (uint c - uint c') + 7 * (uint d - uint d')"
    "P31 dvd (uint a - uint a') + (uint b - uint b') + 4 * (uint c - uint c') + 6 * (uint d - uint d')"
    unfolding m4_uint [OF w(1-4)] m4_uint [OF w(5-8)] by (simp_all add: mod_diff_dvd algebra_simps)
  show ?thesis
    by (rule wf_state_uint_inj [OF assms(1,2)])
      (use m4_kernel [OF e] in \<open>auto simp: s s' dest!: less4\<close>)
qed

subsection \<open>Width 2\<close>

lemma mds_uint:
  assumes "canon a" "canon b"
  shows "map uint (mds [a, b]) = [(3 * uint a + uint b) mod P31, (uint a + 3 * uint b) mod P31]"
  using assms unfolding canon_uint
  by (simp add: mds_def Let_def add64 mod_simps)

lemma len2: "length s = 2 \<longleftrightarrow> (\<exists>a b. s = [a, b])"
  by (auto simp: length_Suc_conv numeral_eq_Suc)

lemma mds_wf: "wf_state 2 s \<Longrightarrow> wf_state 2 (mds s)"
  by (auto simp: wf_state_def len2 mds_def Let_def canon_ops)

lemma mds_inj:
  assumes "wf_state 2 s" "wf_state 2 s'" "mds s = mds s'"
  shows "s = s'"
proof -
  obtain a b a' b' where s: "s = [a, b]" and s': "s' = [a', b']" using assms(1,2) by (auto simp: wf_state_def len2)
  have w: "canon a" "canon b" "canon a'" "canon b'" using assms by (simp_all add: s s' wf_state_def)
  have "map uint (mds [a, b]) = map uint (mds [a', b'])" using assms(3) by (simp add: s s')
  then have e: "P31 dvd 3 * (uint a - uint a') + (uint b - uint b')" "P31 dvd (uint a - uint a') + 3 * (uint b - uint b')"
    unfolding mds_uint [OF w(1-2)] mds_uint [OF w(3-4)] by (simp_all add: mod_diff_dvd algebra_simps)
  have "P31 dvd 3 * (3 * (uint a - uint a') + (uint b - uint b')) - ((uint a - uint a') + 3 * (uint b - uint b'))"
    by (rule dvd_diff [OF dvd_mult]) (fact e)+
  moreover have "P31 dvd 3 * ((uint a - uint a') + 3 * (uint b - uint b')) - (3 * (uint a - uint a') + (uint b - uint b'))"
    by (rule dvd_diff [OF dvd_mult]) (fact e)+
  ultimately have "P31 dvd 8 * (uint a - uint a')" "P31 dvd 8 * (uint b - uint b')" by (simp_all add: algebra_simps)
  moreover have "\<not> P31 dvd 8" by (simp add: P31_def)
  ultimately have "P31 dvd uint a - uint a'" "P31 dvd uint b - uint b'" by (meson P31_dvd_num)+
  then show ?thesis
    by (intro wf_state_uint_inj [OF assms(1,2)]) (auto simp: s s' less_Suc_eq numeral_2_eq_2)
qed

lemma RC_canon: "r < 8 \<Longrightarrow> i < 2 \<Longrightarrow> canon (ucast (RC ! r ! i))"
proof -
  assume "r < 8" "i < 2"
  moreover have "list_all (\<lambda>row. length row = 2 \<and> list_all (\<lambda>x. canon (ucast x)) row) RC" "length RC = 8"
    by (simp_all add: RC_def canon_def M31_P_val)
  ultimately show ?thesis by (simp add: list_all_length)
qed

lemma round2_wf: "wf_state 2 s \<Longrightarrow> r < 8 \<Longrightarrow> wf_state 2 (round2 s (RC ! r))"
  unfolding round2_def Let_def
  by (rule mds_wf) (simp add: wf_state_def canon_ops RC_canon)

lemma round2_inj:
  assumes "wf_state 2 s" "wf_state 2 s'" "r < 8" "round2 s (RC ! r) = round2 s' (RC ! r)"
  shows "s = s'"
proof -
  have c: "canon (s ! i)" "canon (s' ! i)" "canon (ucast (RC ! r ! i))" if "i < 2" for i
    using assms that by (simp_all add: wf_state_nth RC_canon)
  have "[sbox (m31_add (s ! 0) (ucast (RC ! r ! 0))), sbox (m31_add (s ! 1) (ucast (RC ! r ! 1)))]
      = [sbox (m31_add (s' ! 0) (ucast (RC ! r ! 0))), sbox (m31_add (s' ! 1) (ucast (RC ! r ! 1)))]"
    by (rule mds_inj) (use assms(4) c in \<open>simp_all add: wf_state_def canon_ops round2_def\<close>)
  then have "sbox (m31_add (s ! i) (ucast (RC ! r ! i))) = sbox (m31_add (s' ! i) (ucast (RC ! r ! i)))" if "i < 2" for i
    using that by (auto simp: less_2_cases_iff)
  then have "m31_add (s ! i) (ucast (RC ! r ! i)) = m31_add (s' ! i) (ucast (RC ! r ! i))" if "i < 2" for i
    using that c by (intro sbox_inj [OF canon_ops(1) canon_ops(1)])
  then have e: "s ! i = s' ! i" if "i < 2" for i
    using that c by (intro m64.add_right_inj [of "s ! i" "s' ! i" "ucast (RC ! r ! i)"]) (simp_all add: canon_uint [symmetric])
  show ?thesis by (rule nth_equalityI) (use assms(1,2) e in \<open>simp_all add: wf_state_def\<close>)
qed

lemma permute_wf_inj:
  "wf_state 2 s \<Longrightarrow> wf_state 2 s' \<Longrightarrow> set rs \<subseteq> {..<8} \<Longrightarrow>
    wf_state 2 (foldl (\<lambda>s r. round2 s (RC ! r)) s rs) \<and>
    (foldl (\<lambda>s r. round2 s (RC ! r)) s rs = foldl (\<lambda>s r. round2 s (RC ! r)) s' rs \<longrightarrow> s = s')"
proof (induction rs arbitrary: s s')
  case (Cons r rs)
  have w: "wf_state 2 (round2 s (RC ! r))" "wf_state 2 (round2 s' (RC ! r))" using Cons.prems by (simp_all add: round2_wf)
  from Cons.IH [OF this] Cons.prems round2_inj [of s s' r] show ?case by auto
qed simp

subsection \<open>Width 4\<close>

lemma p2_rc_canon: "canon (ucast (p2_rc x))"
proof -
  have p: "uint (ucast M31_P :: u32) = P31" by (simp add: M31_P_val P31_def)
  have c: "uint (if v \<ge> ucast M31_P then v - ucast M31_P else v) = (if uint v \<ge> P31 then uint v - P31 else uint v)" for v :: u32
    by (simp add: word_le_def p uint_sub_small)
  have "uint x < 2 ^ 32" using unsigned_less [of x, where 'a = int] by simp
  then have "uint (p2_rc x) < 2 \<or> uint (p2_rc x) < P31" unfolding p2_rc_def Let_def c by (auto simp: P31_def)
  then have "uint (p2_rc x) < P31" by (auto simp: P31_def)
  then show ?thesis by (simp add: canon_uint uint_up_ucast is_up)
qed

lemma mat_external_t4_m4: "mat_external_t4 = m4"
  by (rule ext) (simp add: mat_external_t4_def m4_def)

lemma mat_internal_t4_uint:
  assumes "canon a" "canon b" "canon c" "canon d"
  shows "map uint (mat_internal_t4 [a, b, c, d]) =
    [(uint a + uint b + uint c + uint d + 1 * uint a) mod P31, (uint a + uint b + uint c + uint d + 2 * uint b) mod P31,
     (uint a + uint b + uint c + uint d + 3 * uint c) mod P31, (uint a + uint b + uint c + uint d + 4 * uint d) mod P31]"
  using assms unfolding canon_uint
  by (simp add: mat_internal_t4_def Let_def add64 mod_simps)

lemma mat_internal_t4_wf: "wf_state 4 s \<Longrightarrow> wf_state 4 (mat_internal_t4 s)"
  by (auto simp: wf_state_def len4 mat_internal_t4_def Let_def canon_ops)

lemma internal_inj:
  assumes w: "wf_state n s" "wf_state n s'" and e: "m s = m s'"
    and u: "\<And>i. i < n \<Longrightarrow> uint (m s ! i :: u64) = ((\<Sum>j<n. uint (s ! j)) + int (i + 1) * uint (s ! i)) mod P31"
    and u': "\<And>i. i < n \<Longrightarrow> uint (m s' ! i :: u64) = ((\<Sum>j<n. uint (s' ! j)) + int (i + 1) * uint (s' ! i)) mod P31"
    and q: "\<forall>i<n. l = int (i + 1) * q i" and nz: "\<not> P31 dvd l + (\<Sum>i<n. q i)" and n: "n \<le> 100"
  shows "s = s'"
proof (rule wf_state_uint_inj [OF w])
  let ?x = "\<lambda>i. uint (s ! i) - uint (s' ! i)"
  have "P31 dvd (\<Sum>j<n. ?x j) + int (i + 1) * ?x i" if "i < n" for i
  proof -
    have "((\<Sum>j<n. uint (s ! j)) + int (i + 1) * uint (s ! i)) mod P31
        = ((\<Sum>j<n. uint (s' ! j)) + int (i + 1) * uint (s' ! i)) mod P31"
      using u [OF that] u' [OF that] e by simp
    then have "P31 dvd ((\<Sum>j<n. uint (s ! j)) + int (i + 1) * uint (s ! i)) - ((\<Sum>j<n. uint (s' ! j)) + int (i + 1) * uint (s' ! i))"
      unfolding mod_diff_dvd .
    then show ?thesis by (simp add: sum_subtractf algebra_simps)
  qed
  moreover have "\<not> P31 dvd int (i + 1)" if "i < n" for i
    using that n by (auto dest!: zdvd_imp_le simp: P31_def)
  ultimately show "P31 dvd ?x i" if "i < n" for i
    using internal_kernel [of n ?x l q] q nz that by blast
qed

lemma sum_4: "(\<Sum>i<4::nat. f i) = f 0 + f 1 + f 2 + (f 3 :: int)"
  by (simp add: eval_nat_numeral)

lemma mat_internal_t4_inj:
  assumes "wf_state 4 s" "wf_state 4 s'" "mat_internal_t4 s = mat_internal_t4 s'"
  shows "s = s'"
proof (rule internal_inj [OF assms, where l = 12 and q = "\<lambda>i. [12, 6, 4, 3] ! i"])
  have u: "uint (mat_internal_t4 s ! i) = ((\<Sum>j<4. uint (s ! j)) + int (i + 1) * uint (s ! i)) mod P31"
    if s: "wf_state 4 s" and i: "i < 4" for s i
  proof -
    obtain a b c d where e: "s = [a, b, c, d]" using s by (auto simp: wf_state_def len4)
    have w: "canon a" "canon b" "canon c" "canon d" using s by (simp_all add: e wf_state_4)
    have "length (mat_internal_t4 s) = 4" using mat_internal_t4_wf [OF s] by (simp add: wf_state_def)
    then have "uint (mat_internal_t4 s ! i) = map uint (mat_internal_t4 s) ! i" using i by simp
    then show ?thesis using less4 [OF i] by (auto simp: e mat_internal_t4_uint [OF w] sum_4)
  qed
  show "uint (mat_internal_t4 s ! i) = ((\<Sum>j<4. uint (s ! j)) + int (i + 1) * uint (s ! i)) mod P31"
    "uint (mat_internal_t4 s' ! i) = ((\<Sum>j<4. uint (s' ! j)) + int (i + 1) * uint (s' ! i)) mod P31"
    if "i < 4" for i using u that assms by blast+
qed (auto simp: sum_4 P31_def dest!: less4)

lemma K_RC_t4_canon: "i < 53 \<Longrightarrow> canon (ucast (K_RC_t4 ! i))"
proof -
  assume i: "i < 53"
  have "length K_RC_t4 = 53" by (simp add: K_RC_t4_def)
  then have "K_RC_t4 ! i \<in> set K_RC_t4" using i by simp
  then show ?thesis by (auto simp only: K_RC_t4_def set_map image_iff p2_rc_canon)
qed

interpretation t4: poseidon2_layers 4 mat_external_t4 mat_internal_t4 K_RC_t4 21
proof
  show "canon (ucast (K_RC_t4 ! i))" if "i < 4 * R_F + 21" for i
    using that by (intro K_RC_t4_canon) (simp add: R_F_def)
  show "s = s'" if "wf_state 4 s" "wf_state 4 s'" "mat_external_t4 s = mat_external_t4 s'" for s s'
    using that unfolding mat_external_t4_m4 by (rule m4_inj)
  show "s = s'" if "wf_state 4 s" "wf_state 4 s'" "mat_internal_t4 s = mat_internal_t4 s'" for s s'
    using that by (rule mat_internal_t4_inj)
qed (simp_all add: mat_external_t4_m4 m4_wf mat_internal_t4_wf)

subsection \<open>Widths 8 and 16\<close>

lemma fold_add_uint:
  "canon a \<Longrightarrow> \<forall>x\<in>set xs. canon x \<Longrightarrow>
   canon (foldl m31_add a xs) \<and> uint (foldl m31_add a xs) = (uint a + (\<Sum>x\<leftarrow>xs. uint x)) mod P31"
proof (induction xs arbitrary: a)
  case (Cons x xs)
  then have "canon (m31_add a x)" by (simp add: canon_ops)
  with Cons show ?case by (simp add: canon_uint m31_add_uint mod_simps add.assoc)
qed (simp add: canon_uint)

lemma fold_same_uint:
  "canon a \<Longrightarrow> canon x \<Longrightarrow>
   canon (foldl (\<lambda>acc _. m31_add acc x) a ks) \<and>
   uint (foldl (\<lambda>acc _. m31_add acc x) a ks) = (uint a + int (length ks) * uint x) mod P31"
proof (induction ks arbitrary: a)
  case (Cons k ks)
  then have "canon (m31_add a x)" by (simp add: canon_ops)
  with Cons show ?case by (simp add: canon_uint m31_add_uint mod_simps algebra_simps)
qed (simp add: canon_uint)

lemma mat_internal_wide_wf: "wf_state n s \<Longrightarrow> wf_state n (mat_internal_wide n s)"
  using fold_add_uint [OF canon_zero, of s]
  by (auto simp: wf_state_def mat_internal_wide_def Let_def simp del: upt_Suc foldl_append
      intro!: fold_same_uint [THEN conjunct1])

lemma mat_internal_wide_uint:
  assumes "wf_state n s" "i < n"
  shows "uint (mat_internal_wide n s ! i) = ((\<Sum>j<n. uint (s ! j)) + int (i + 1) * uint (s ! i)) mod P31"
proof -
  have c: "\<forall>x\<in>set s. canon x" "length s = n" "canon (s ! i)" using assms by (auto simp: wf_state_def)
  have "(\<Sum>x\<leftarrow>s. uint x) = (\<Sum>j<n. uint (s ! j))"
    using c(2) by (simp add: sum_list_sum_nth atLeast0LessThan)
  then have "uint (foldl m31_add 0 s) = (\<Sum>j<n. uint (s ! j)) mod P31" "canon (foldl m31_add 0 s)"
    using fold_add_uint [OF canon_zero c(1)] by simp_all
  then show ?thesis
    using fold_same_uint [of "foldl m31_add 0 s" "s ! i" "[0..<Suc i]"] c(3) assms(2)
    by (simp add: mat_internal_wide_def Let_def mod_simps del: upt_Suc)
qed

lemma mat_internal_wide_inj:
  assumes w: "wf_state n s" "wf_state n s'" and e: "mat_internal_wide n s = mat_internal_wide n s'"
    and l: "list_all (\<lambda>i. int (i + 1) * (l div int (i + 1)) = l) [0..<n]"
    and nz: "\<not> P31 dvd l + (\<Sum>i\<leftarrow>[0..<n]. l div int (i + 1))" and n: "n \<le> 100"
  shows "s = s'"
proof (rule internal_inj [where q = "\<lambda>i. l div int (i + 1)", OF w e mat_internal_wide_uint [OF w(1)] mat_internal_wide_uint [OF w(2)] _ _ n])
  show "\<forall>i<n. l = int (i + 1) * (l div int (i + 1))" using l by (simp add: list_all_iff)
  show "\<not> P31 dvd l + (\<Sum>i<n. l div int (i + 1))"
    using nz by (simp add: interv_sum_list_conv_sum_set_nat atLeast0LessThan)
qed

lemma m4_pair_kernel:
  assumes "P31 dvd 2 * a + b" "P31 dvd a + 2 * b"
  shows "P31 dvd a \<and> P31 dvd b"
proof -
  have "P31 dvd 2 * (2 * a + b) - (a + 2 * b)" "P31 dvd 2 * (a + 2 * b) - (2 * a + b)"
    by (rule dvd_diff [OF dvd_mult], fact assms, fact assms)+
  then have "P31 dvd 3 * a" "P31 dvd 3 * b" by (simp_all add: algebra_simps)
  moreover have "\<not> P31 dvd 3" by (simp add: P31_def)
  ultimately show ?thesis by (meson P31_dvd_num)
qed

lemma m4_quad_kernel:
  assumes "P31 dvd a + (a + b + c + d)" "P31 dvd b + (a + b + c + d)" "P31 dvd c + (a + b + c + d)" "P31 dvd d + (a + b + c + d)"
  shows "P31 dvd a \<and> P31 dvd b \<and> P31 dvd c \<and> P31 dvd d"
proof -
  have "P31 dvd (a + (a + b + c + d)) + (b + (a + b + c + d)) + (c + (a + b + c + d)) + (d + (a + b + c + d))"
    by (intro dvd_add [OF dvd_add [OF dvd_add]] assms)
  then have "P31 dvd 5 * (a + b + c + d)" by (simp add: algebra_simps)
  moreover have "\<not> P31 dvd 5" by (simp add: P31_def)
  ultimately have "P31 dvd a + b + c + d" by (meson P31_dvd_num)
  then show ?thesis using assms by (meson dvd_add_left_iff)
qed

text \<open>Block \<open>b\<close> of a state.\<close>

definition blk :: "nat \<Rightarrow> u64 list \<Rightarrow> u64 list" where
  "blk b s = [s ! (4 * b), s ! (4 * b + 1), s ! (4 * b + 2), s ! (4 * b + 3)]"

lemma blk_wf: "wf_state n s \<Longrightarrow> 4 * b + 3 < n \<Longrightarrow> wf_state 4 (blk b s)"
  by (simp add: blk_def wf_state_4 wf_state_nth)

lemma blk_nth: "k < 4 \<Longrightarrow> blk b s ! k = s ! (4 * b + k)"
  by (auto simp: blk_def dest!: less4)

lemma blocks_eqI:
  assumes "wf_state (4 * m) s" "wf_state (4 * m) s'" "\<And>b. b < m \<Longrightarrow> blk b s = blk b s'"
  shows "s = s'"
proof (rule nth_equalityI)
  fix i assume "i < length s"
  then have "i div 4 < m" using assms(1) by (simp add: wf_state_def div_less_iff_less_mult mult.commute)
  then have "blk (i div 4) s ! (i mod 4) = blk (i div 4) s' ! (i mod 4)" using assms(3) by simp
  then show "s ! i = s' ! i" by (simp add: blk_nth)
qed (use assms in \<open>simp add: wf_state_def\<close>)

lemma add2_uint: "canon x \<Longrightarrow> canon y \<Longrightarrow> canon z \<Longrightarrow> uint (m31_add x (m31_add y z)) = (uint x + (uint y + uint z)) mod P31"
  unfolding canon_uint by (simp add: add64 mod_simps)

lemma mat_external_t8_eq:
  "mat_external_t8 s = map (\<lambda>k. m31_add (m4 (blk 0 s) ! k) (m31_add (m4 (blk 0 s) ! k) (m4 (blk 1 s) ! k))) [0..<4]
     @ map (\<lambda>k. m31_add (m4 (blk 1 s) ! k) (m31_add (m4 (blk 0 s) ! k) (m4 (blk 1 s) ! k))) [0..<4]"
  by (simp add: mat_external_t8_def blk_def Let_def numeral_2_eq_2 [symmetric])

lemma mat_external_t8_wf: "wf_state 8 s \<Longrightarrow> wf_state 8 (mat_external_t8 s)"
proof -
  assume s: "wf_state 8 s"
  have "wf_state 4 (m4 (blk 0 s))" "wf_state 4 (m4 (blk 1 s))" using s by (auto intro!: m4_wf blk_wf)
  then show ?thesis unfolding mat_external_t8_eq by (auto simp: wf_state_def canon_ops)
qed

lemma mat_external_t8_inj:
  assumes w: "wf_state 8 s" "wf_state 8 s'" and e: "mat_external_t8 s = mat_external_t8 s'"
  shows "s = s'"
proof -
  define v where "v b s = m4 (blk b s)" for b s
  have wv: "wf_state 4 (v b s)" "wf_state 4 (v b s')" if "b < 2" for b
    using w that unfolding v_def by (auto intro!: m4_wf blk_wf)
  have "P31 dvd uint (v 0 s ! k) - uint (v 0 s' ! k) \<and> P31 dvd uint (v 1 s ! k) - uint (v 1 s' ! k)" if k: "k < 4" for k
  proof -
    have c: "canon (v b s ! k)" "canon (v b s' ! k)" if "b < 2" for b using wv [OF that] k by (auto simp: wf_state_nth)
    have "m31_add (v 0 s ! k) (m31_add (v 0 s ! k) (v 1 s ! k)) = m31_add (v 0 s' ! k) (m31_add (v 0 s' ! k) (v 1 s' ! k))"
      "m31_add (v 1 s ! k) (m31_add (v 0 s ! k) (v 1 s ! k)) = m31_add (v 1 s' ! k) (m31_add (v 0 s' ! k) (v 1 s' ! k))"
      using e k unfolding mat_external_t8_eq v_def [symmetric] append_eq_append_conv [OF disjI1] by auto
    from arg_cong [OF this(1), of uint] arg_cong [OF this(2), of uint]
    show ?thesis using c by (intro m4_pair_kernel) (simp_all add: add2_uint mod_diff_dvd algebra_simps)
  qed
  then have d: "P31 dvd uint (v b s ! k) - uint (v b s' ! k)" if "b < 2" "k < 4" for b k
    using that by (auto simp: less_2_cases_iff)
  have "blk b s = blk b s'" if b: "b < 2" for b
  proof (rule m4_inj)
    show "m4 (blk b s) = m4 (blk b s')"
      using wf_state_uint_inj [OF wv [OF b] d [OF b]] by (simp add: v_def)
  qed (use w b in \<open>auto intro!: blk_wf\<close>)
  then show ?thesis
    by (rule blocks_eqI [of 2, rotated 2]) (use w in simp_all)
qed

lemma mat_internal_t8_inj:
  "wf_state 8 s \<Longrightarrow> wf_state 8 s' \<Longrightarrow> mat_internal_t8 s = mat_internal_t8 s' \<Longrightarrow> s = s'"
  unfolding mat_internal_t8_def
  by (erule (2) mat_internal_wide_inj [where l = 840]) (simp_all add: upt_conv_Cons P31_def)

lemma K_RC_t8_canon: "i < 78 \<Longrightarrow> canon (ucast (K_RC_t8 ! i))"
proof -
  assume "i < 78"
  moreover have "list_all (\<lambda>x. canon (ucast x)) K_RC_t8" "length K_RC_t8 = 78"
    by (simp_all add: K_RC_t8_def canon_def M31_P_val)
  ultimately show ?thesis by (simp add: list_all_length)
qed

interpretation t8: poseidon2_layers 8 mat_external_t8 mat_internal_t8 K_RC_t8 14
proof
  show "canon (ucast (K_RC_t8 ! i))" if "i < 8 * R_F + 14" for i
    using that by (intro K_RC_t8_canon) (simp add: R_F_def)
  show "wf_state 8 (mat_internal_t8 s)" if "wf_state 8 s" for s
    using that unfolding mat_internal_t8_def by (rule mat_internal_wide_wf)
  show "s = s'" if "wf_state 8 s" "wf_state 8 s'" "mat_external_t8 s = mat_external_t8 s'" for s s'
    using that by (rule mat_external_t8_inj)
  show "s = s'" if "wf_state 8 s" "wf_state 8 s'" "mat_internal_t8 s = mat_internal_t8 s'" for s s'
    using that by (rule mat_internal_t8_inj)
qed (simp_all add: mat_external_t8_wf)

definition sigma16 :: "u64 list \<Rightarrow> nat \<Rightarrow> u64" where
  "sigma16 s k = m31_add (m31_add (m4 (blk 0 s) ! k) (m4 (blk 1 s) ! k)) (m31_add (m4 (blk 2 s) ! k) (m4 (blk 3 s) ! k))"

lemma mat_external_t16_eq:
  "mat_external_t16 s =
     map (\<lambda>k. m31_add (m4 (blk 0 s) ! k) (sigma16 s k)) [0..<4] @ map (\<lambda>k. m31_add (m4 (blk 1 s) ! k) (sigma16 s k)) [0..<4]
     @ map (\<lambda>k. m31_add (m4 (blk 2 s) ! k) (sigma16 s k)) [0..<4] @ map (\<lambda>k. m31_add (m4 (blk 3 s) ! k) (sigma16 s k)) [0..<4]"
proof -
  have "map f [0..<4] = [f 0, f 1, f 2, f 3]" for f :: "nat \<Rightarrow> u64 list"
    by (simp add: upt_conv_Cons numeral_2_eq_2 numeral_3_eq_3)
  then have m: "concat (map f [0..<4]) = f 0 @ f 1 @ f 2 @ f 3" for f :: "nat \<Rightarrow> u64 list" by simp
  have n: "map f [0..<4] ! b = f b" if "b < 4" for f :: "nat \<Rightarrow> u64 list" and b using that by simp
  show ?thesis unfolding mat_external_t16_def Let_def m sigma16_def blk_def by (simp add: n)
qed

lemma wf_blocks16: "wf_state 16 s \<Longrightarrow> b < 4 \<Longrightarrow> wf_state 4 (m4 (blk b s))"
  by (auto intro!: m4_wf blk_wf)

lemma mat_external_t16_wf: "wf_state 16 s \<Longrightarrow> wf_state 16 (mat_external_t16 s)"
proof -
  assume s: "wf_state 16 s"
  have "canon (m4 (blk b s) ! k)" if "b < 4" "k < 4" for b k
    using wf_blocks16 [OF s that(1)] that by (simp add: wf_state_nth)
  then show ?thesis unfolding mat_external_t16_eq by (auto simp: wf_state_def sigma16_def canon_ops)
qed

lemma add16_uint:
  "canon x \<Longrightarrow> canon a \<Longrightarrow> canon b \<Longrightarrow> canon c \<Longrightarrow> canon d \<Longrightarrow>
   uint (m31_add x (m31_add (m31_add a b) (m31_add c d))) = (uint x + (uint a + uint b + uint c + uint d)) mod P31"
  unfolding canon_uint by (simp add: add64 mod_simps add.assoc)

lemma mat_external_t16_inj:
  assumes w: "wf_state 16 s" "wf_state 16 s'" and e: "mat_external_t16 s = mat_external_t16 s'"
  shows "s = s'"
proof -
  define v where "v b s = m4 (blk b s)" for b s
  have wv: "wf_state 4 (v b s)" "wf_state 4 (v b s')" if "b < 4" for b
    using w that unfolding v_def by (auto intro!: wf_blocks16)
  define d where "d b k = uint (v b s ! k) - uint (v b s' ! k)" for b k
  have "P31 dvd d 0 k \<and> P31 dvd d 1 k \<and> P31 dvd d 2 k \<and> P31 dvd d 3 k" if k: "k < 4" for k
  proof -
    have c: "canon (v b s ! k)" "canon (v b s' ! k)" if "b < 4" for b using wv [OF that] k by (auto simp: wf_state_nth)
    have q: "m31_add (v b s ! k) (sigma16 s k) = m31_add (v b s' ! k) (sigma16 s' k)" if "b < 4" for b
      using e k less4 [OF that] unfolding mat_external_t16_eq v_def [symmetric] append_eq_append_conv [OF disjI1] by auto
    have "P31 dvd d b k + (d 0 k + d 1 k + d 2 k + d 3 k)" if b: "b < 4" for b
      using arg_cong [OF q [OF b], of uint] c b
      by (simp add: sigma16_def v_def [symmetric] add16_uint mod_diff_dvd d_def algebra_simps)
    from m4_quad_kernel [OF this [of 0] this [of 1] this [of 2] this [of 3]] show ?thesis by simp
  qed
  then have d0: "P31 dvd uint (v b s ! k) - uint (v b s' ! k)" if "b < 4" "k < 4" for b k
    using that(2) less4 [OF that(1)] unfolding d_def by auto
  have "blk b s = blk b s'" if b: "b < 4" for b
  proof (rule m4_inj)
    show "m4 (blk b s) = m4 (blk b s')"
      using wf_state_uint_inj [OF wv [OF b] d0 [OF b]] by (simp add: v_def)
  qed (use w b in \<open>auto intro!: blk_wf\<close>)
  then show ?thesis
    by (rule blocks_eqI [of 4, rotated 2]) (use w in simp_all)
qed

lemma mat_internal_t16_inj:
  "wf_state 16 s \<Longrightarrow> wf_state 16 s' \<Longrightarrow> mat_internal_t16 s = mat_internal_t16 s' \<Longrightarrow> s = s'"
  unfolding mat_internal_t16_def
  by (erule (2) mat_internal_wide_inj [where l = 720720]) (simp_all add: upt_conv_Cons P31_def)

lemma K_RC_t16_canon: "i < 142 \<Longrightarrow> canon (ucast (K_RC_t16 ! i))"
proof -
  assume "i < 142"
  moreover have "list_all (\<lambda>x. canon (ucast x)) K_RC_t16" "length K_RC_t16 = 142"
    by (simp_all add: K_RC_t16_def canon_def M31_P_val)
  ultimately show ?thesis by (simp add: list_all_length)
qed

interpretation t16: poseidon2_layers 16 mat_external_t16 mat_internal_t16 K_RC_t16 14
proof
  show "canon (ucast (K_RC_t16 ! i))" if "i < 16 * R_F + 14" for i
    using that by (intro K_RC_t16_canon) (simp add: R_F_def)
  show "wf_state 16 (mat_internal_t16 s)" if "wf_state 16 s" for s
    using that unfolding mat_internal_t16_def by (rule mat_internal_wide_wf)
  show "s = s'" if "wf_state 16 s" "wf_state 16 s'" "mat_external_t16 s = mat_external_t16 s'" for s s'
    using that by (rule mat_external_t16_inj)
  show "s = s'" if "wf_state 16 s" "wf_state 16 s'" "mat_internal_t16 s = mat_internal_t16 s'" for s s'
    using that by (rule mat_internal_t16_inj)
qed (simp_all add: mat_external_t16_wf)

lemmas perm_wf = t4.permute_wf [folded permute_t4_def] t8.permute_wf [folded permute_t8_def] t16.permute_wf [folded permute_t16_def]
lemmas perm_inj = t4.permute_inj [folded permute_t4_def] t8.permute_inj [folded permute_t8_def] t16.permute_inj [folded permute_t16_def]

end
