(* ===== verification/Poseidon2_Sponge.thy ===== *)
theory Poseidon2_Sponge
  imports Poseidon2_Perm
begin

unbundle bit_operations_syntax

text \<open>
  The sponges and compressions over the permutations. The locale \<open>sponge_perm\<close> is what a sponge
  needs from its permutation; it gives that two inputs which differ only in their last block
  (whole or partial, of different lengths included) never give the same state.
\<close>

section \<open>Bijectivity\<close>

lemma finite_wf_state: "finite {s. wf_state n s}"
proof (rule finite_subset)
  show "{s. wf_state n s} \<subseteq> {s. set s \<subseteq> UNIV \<and> length s = n}" by (auto simp: wf_state_def)
  show "finite {s :: u64 list. set s \<subseteq> UNIV \<and> length s = n}" by (rule finite_lists_length_eq) simp
qed

lemma bij_wf_stateI:
  assumes "\<And>s. wf_state n s \<Longrightarrow> wf_state n (f s)"
    "\<And>s s'. wf_state n s \<Longrightarrow> wf_state n s' \<Longrightarrow> f s = f s' \<Longrightarrow> s = s'"
  shows "bij_betw f {s. wf_state n s} {s. wf_state n s}"
proof -
  have i: "inj_on f {s. wf_state n s}" using assms(2) by (auto simp: inj_on_def)
  have "f ` {s. wf_state n s} = {s. wf_state n s}"
    by (rule endo_inj_surj [OF finite_wf_state _ i]) (use assms(1) in auto)
  with i show ?thesis by (simp add: bij_betw_def)
qed

lemma permute_t2_wf: "wf_state 2 s \<Longrightarrow> wf_state 2 (permute s)"
  using permute_wf_inj [of s s "[0..<8]"] by (simp add: permute_def N_ROUNDS_def subset_eq)

lemma permute_t2_inj: "wf_state 2 s \<Longrightarrow> wf_state 2 s' \<Longrightarrow> permute s = permute s' \<Longrightarrow> s = s'"
  using permute_wf_inj [of s s' "[0..<8]"] by (simp add: permute_def N_ROUNDS_def subset_eq)

section \<open>Absorption\<close>

lemma length_absorb [simp]: "length (p2_absorb s c) = length s"
proof -
  have "length (foldl (\<lambda>state k. state[k := m31_add (state ! k) (c ! k mod M31_P)]) s ks) = length s" for ks
    by (induction ks arbitrary: s) simp_all
  then show ?thesis by (simp add: p2_absorb_def)
qed

lemma absorb_nth:
  assumes "length c \<le> length s" "k < length s"
  shows "p2_absorb s c ! k = (if k < length c then m31_add (s ! k) (c ! k mod M31_P) else s ! k)"
proof -
  have "n \<le> length s \<Longrightarrow> foldl (\<lambda>state k. state[k := m31_add (state ! k) (c ! k mod M31_P)]) s [0..<n] ! k
      = (if k < n then m31_add (s ! k) (c ! k mod M31_P) else s ! k)
      \<and> length (foldl (\<lambda>state k. state[k := m31_add (state ! k) (c ! k mod M31_P)]) s [0..<n]) = length s" for n
  proof (induction n)
    case (Suc n)
    have "foldl (\<lambda>state k. state[k := m31_add (state ! k) (c ! k mod M31_P)]) s [0..<n] ! n = s ! n"
      if "Suc n \<le> length s"
    proof -
      have "i \<le> n \<Longrightarrow> foldl (\<lambda>state k. state[k := m31_add (state ! k) (c ! k mod M31_P)]) s [0..<i] ! n = s ! n" for i
        by (induction i) simp_all
      then show ?thesis by simp
    qed
    with Suc assms(2) show ?case by (auto simp: nth_list_update less_Suc_eq)
  qed simp
  with assms show ?thesis by (simp add: p2_absorb_def)
qed

lemma absorb_wf: "wf_state t s \<Longrightarrow> length c \<le> t \<Longrightarrow> wf_state t (p2_absorb s c)"
  by (auto simp: wf_state_def in_set_conv_nth absorb_nth intro!: canon_ops canon_mod)
    (use nth_mem less_le_trans in blast)+

locale sponge_perm =
  fixes perm :: "u64 list \<Rightarrow> u64 list" and rate t :: nat
  assumes rate_pos: "0 < rate" and rate_less: "rate < t" and rate_small: "rate < 1000"
    and perm_wf: "wf_state t s \<Longrightarrow> wf_state t (perm s)"
    and perm_inj: "wf_state t s \<Longrightarrow> wf_state t s' \<Longrightarrow> perm s = perm s' \<Longrightarrow> s = s'"
begin

lemma blocks_prefix:
  "length p = n * rate \<Longrightarrow> wf_state t s \<Longrightarrow>
   \<exists>s'. wf_state t s' \<and> (\<forall>u. p2_blocks perm rate s (p @ u) = p2_blocks perm rate s' u)"
proof (induction n arbitrary: p s)
  case (Suc n)
  define s1 where "s1 = perm (p2_absorb s (take rate p))"
  have l: "length (drop rate p) = n * rate" "rate \<le> length p" using Suc.prems by simp_all
  have w: "wf_state t s1"
    unfolding s1_def by (intro perm_wf absorb_wf Suc.prems) (use rate_less in simp)
  obtain s' where s': "wf_state t s'" "\<And>u. p2_blocks perm rate s1 (drop rate p @ u) = p2_blocks perm rate s' u"
    using Suc.IH [OF l(1) w] by blast
  have "p2_blocks perm rate s (p @ u) = p2_blocks perm rate s1 (drop rate p @ u)" for u
    using l rate_pos by (subst p2_blocks.simps) (simp add: s1_def)
  with s' show ?case by auto
qed auto

text \<open>The state before the last permutation; a whole block is a block with pad zero.\<close>

definition last_state :: "u64 list \<Rightarrow> u64 list \<Rightarrow> u64 list" where
  "last_state s u = (p2_absorb s u)[t - 1 := m31_add (s ! (t - 1)) (word_of_nat (rate - length u))]"

lemma pad_uint: "uint (word_of_nat (rate - n) :: u64) = int (rate - n)"
proof -
  have "rate - n < 2 ^ 64" using rate_small by simp
  then show ?thesis by (simp add: unsigned_of_nat take_bit_nat_eq_self)
qed

lemma pad_canon: "canon (word_of_nat (rate - n))"
  using rate_small unfolding canon_uint pad_uint by (simp add: P31_def)

lemma sponge_last:
  assumes "length p = n * rate"
  shows "\<exists>s. wf_state t s \<and> (\<forall>u. 0 < length u \<and> length u \<le> rate \<longrightarrow> p2_sponge perm rate t (p @ u) = perm (last_state s u))"
proof -
  have "wf_state t (replicate t 0)" by (simp add: wf_state_def canon_zero)
  from blocks_prefix [OF assms this] obtain s where s: "wf_state t s"
    and b: "\<And>u. p2_blocks perm rate (replicate t 0) (p @ u) = p2_blocks perm rate s u" by blast
  have "p2_sponge perm rate t (p @ u) = perm (last_state s u)" if u: "0 < length u" "length u \<le> rate" for u
  proof -
    have at: "p2_absorb s u ! (t - 1) = s ! (t - 1)"
      using s u rate_less by (subst absorb_nth) (auto simp: wf_state_def)
    show ?thesis
    proof (cases "length u = rate")
      case True
      have "m31_add (s ! (t - 1)) 0 = s ! (t - 1)"
        using wf_state_nth [OF s, of "t - 1"] rate_less m64.eqI [of "m31_add (s ! (t - 1)) 0" "s ! (t - 1)"]
        by (simp add: canon_uint m31_add_uint P31_def m64.closed)
      then have "last_state s u = (p2_absorb s u)[t - 1 := p2_absorb s u ! (t - 1)]"
        using True unfolding last_state_def at by simp
      then have "last_state s u = p2_absorb s u" by simp
      moreover have "p2_blocks perm rate s u = (perm (p2_absorb s u), [])"
        using True rate_pos by (subst p2_blocks.simps, subst p2_blocks.simps) simp
      ultimately show ?thesis by (simp add: p2_sponge_def b)
    next
      case False
      then have "p2_blocks perm rate s u = (s, u)" using u by (subst p2_blocks.simps) simp
      then show ?thesis using u at by (simp add: p2_sponge_def b Let_def last_state_def)
    qed
  qed
  with s show ?thesis by blast
qed

lemma last_state_wf: "wf_state t s \<Longrightarrow> length u \<le> rate \<Longrightarrow> wf_state t (last_state s u)"
proof -
  assume s: "wf_state t s" and u: "length u \<le> rate"
  have w: "wf_state t (p2_absorb s u)" using absorb_wf [OF s] u rate_less by simp
  have "canon (m31_add (s ! (t - 1)) (word_of_nat (rate - length u)))"
    using wf_state_nth [OF s, of "t - 1"] rate_less pad_canon by (simp add: canon_ops)
  with w show ?thesis by (auto simp: last_state_def wf_state_def dest!: set_update_subset_insert [THEN subsetD])
qed

lemma last_state_inj:
  assumes s: "wf_state t s" and u: "0 < length u" "length u \<le> rate" "\<forall>x\<in>set u. canon x"
    and v: "0 < length v" "length v \<le> rate" "\<forall>x\<in>set v. canon x" and e: "last_state s u = last_state s v"
  shows "u = v"
proof (rule nth_equalityI)
  have l: "length s = t" using s by (simp add: wf_state_def)
  have c: "canon (s ! k)" if "k < t" for k using s that by (simp add: wf_state_nth)
  have "last_state s u ! (t - 1) = last_state s v ! (t - 1)" using e by simp
  then have "m31_add (word_of_nat (rate - length u)) (s ! (t - 1)) = m31_add (word_of_nat (rate - length v)) (s ! (t - 1))"
    using l rate_less c [of "t - 1"] pad_canon by (simp add: last_state_def m64.add_commute canon_uint)
  then have "word_of_nat (rate - length u) = (word_of_nat (rate - length v) :: u64)"
    by (rule m64.add_right_inj [rotated 3]) (use c [of "t - 1"] rate_less pad_canon in \<open>simp_all add: canon_uint\<close>)
  then have "uint (word_of_nat (rate - length u) :: u64) = uint (word_of_nat (rate - length v) :: u64)" by simp
  then show len: "length u = length v" using u v unfolding pad_uint by simp
  fix k assume k: "k < length u"
  then have kt: "k < t - 1" using u rate_less by simp
  have "last_state s u ! k = last_state s v ! k" using e by simp
  then have "m31_add (s ! k) (u ! k) = m31_add (s ! k) (v ! k)"
    using k kt l len u v rate_less by (simp add: last_state_def absorb_nth canon_mod_id)
  then have "m31_add (u ! k) (s ! k) = m31_add (v ! k) (s ! k)"
    using k kt len u(3) v(3) c [of k] by (simp add: m64.add_commute canon_uint)
  then show "u ! k = v ! k"
    by (rule m64.add_right_inj [rotated 3]) (use k kt len u(3) v(3) c [of k] in \<open>simp_all add: canon_uint\<close>)
qed

lemma sponge_last_block_inj:
  assumes "rate dvd length p" "0 < length u" "length u \<le> rate" "\<forall>x\<in>set u. canon x"
    "0 < length v" "length v \<le> rate" "\<forall>x\<in>set v. canon x"
    "p2_sponge perm rate t (p @ u) = p2_sponge perm rate t (p @ v)"
  shows "u = v"
proof -
  obtain n where "length p = n * rate" using assms(1) by (metis dvdE mult.commute)
  then obtain s where s: "wf_state t s"
    and e: "\<And>u. 0 < length u \<Longrightarrow> length u \<le> rate \<Longrightarrow> p2_sponge perm rate t (p @ u) = perm (last_state s u)"
    using sponge_last by blast
  have "last_state s u = last_state s v"
    using assms(8) e assms(2,3,5,6) by (intro perm_inj [OF last_state_wf last_state_wf] s) simp_all
  with s assms(2-7) show ?thesis by (rule last_state_inj)
qed

end

interpretation s4: sponge_perm permute_t4 2 4
  by unfold_locales (simp_all add: perm_wf perm_inj)

interpretation s8: sponge_perm permute_t8 4 8
  by unfold_locales (simp_all add: perm_wf perm_inj)

interpretation s16: sponge_perm permute_t16 8 16
  by unfold_locales (simp_all add: perm_wf perm_inj)

section \<open>Compression\<close>

lemma compress_t8_take:
  "wf_state 4 left \<Longrightarrow> wf_state 4 right \<Longrightarrow> compress_t8 left right = take 4 (permute_t8 (left @ right))"
proof -
  assume w: "wf_state 4 left" "wf_state 4 right"
  have m: "map ((!) left) [0..<4] = left" "map ((!) right) [0..<4] = right"
    using w by (metis map_nth wf_state_def)+
  have "wf_state 8 (left @ right)" using w by (auto simp: wf_state_def)
  then have "length (permute_t8 (left @ right)) = 8" using perm_wf(2) by (simp add: wf_state_def)
  then show ?thesis unfolding compress_t8_def Let_def m by (simp add: list_eq_iff_nth_eq)
qed

lemma compress_t8_wf: "wf_state 4 left \<Longrightarrow> wf_state 4 right \<Longrightarrow> wf_state 4 (compress_t8 left right)"
proof -
  assume w: "wf_state 4 left" "wf_state 4 right"
  then have "wf_state 8 (permute_t8 (left @ right))" by (intro perm_wf) (auto simp: wf_state_def)
  then show ?thesis using w by (auto simp: compress_t8_take wf_state_def dest: in_set_takeD)
qed

section \<open>Properties\<close>

text \<open>
  Every Poseidon2 permutation of the crate (widths 2, 4, 8 and 16) is a bijection of its
  canonical states: the S-box is invertible, every layer matrix has a determinant prime to
  \<open>2^31 - 1\<close>, and adding a round constant is invertible.
\<close>

lemma permutations_bijective:
  "bij_betw permute {s. wf_state 2 s} {s. wf_state 2 s} \<and> bij_betw permute_t4 {s. wf_state 4 s} {s. wf_state 4 s}
   \<and> bij_betw permute_t8 {s. wf_state 8 s} {s. wf_state 8 s} \<and> bij_betw permute_t16 {s. wf_state 16 s} {s. wf_state 16 s}"
  by (intro conjI bij_wf_stateI)
    (simp_all only: permute_t2_wf perm_wf, (rule permute_t2_inj perm_inj, assumption+)+)

text \<open>
  The production sponge separates last blocks: after the same whole blocks, two last blocks
  of one to four canonical words give the same state only when they are equal, so in particular
  \<open>[x]\<close> and \<open>[x, 0]\<close> never collide.
\<close>

lemma sponge_t8_last_block_injective:
  assumes "4 dvd length p" "0 < length u" "length u \<le> 4" "\<forall>x\<in>set u. canon x"
    "0 < length v" "length v \<le> 4" "\<forall>x\<in>set v. canon x" "sponge_t8 (p @ u) = sponge_t8 (p @ v)"
  shows "u = v"
  using s8.sponge_last_block_inj [of p u v] assms by (simp add: sponge_t8_def)

text \<open>The same for the wide sponge of width 16, whose blocks have eight words.\<close>

lemma sponge_t16_last_block_injective:
  assumes "8 dvd length p" "0 < length u" "length u \<le> 8" "\<forall>x\<in>set u. canon x"
    "0 < length v" "length v \<le> 8" "\<forall>x\<in>set v. canon x" "sponge_t16 (p @ u) = sponge_t16 (p @ v)"
  shows "u = v"
  using s16.sponge_last_block_inj [of p u v] assms by (simp add: sponge_t16_def)

end
