(* ===== verification/Merkle_T8.thy ===== *)
theory Merkle_T8
  imports Poseidon2_Sponge
begin

unbundle bit_operations_syntax

text \<open>
  Merkle nodes over Poseidon2 of width 8, from \<open>vfri2_bridge.rs\<close>: the 32-byte node format, the leaf
  and pair hashes, and the facts on Merkle paths the batch tree and the nonce tree share. A path is
  folded from the leaf upwards; a direction bit says that the node is the right child.
\<close>

section \<open>Definitions\<close>

definition u32_from_be :: "bytes \<Rightarrow> u32" where
  "u32_from_be bs = foldl (\<lambda>acc b. push_bit 8 acc OR ucast b) 0 bs"

definition u32_to_be :: "u32 \<Rightarrow> bytes" where
  "u32_to_be w = map (\<lambda>i. ucast (drop_bit (24 - 8 * i) w)) [0..<4]"

definition p2t8_node_words :: "bytes \<Rightarrow> u64 list" where
  "p2t8_node_words node = map (\<lambda>k. ucast (u32_from_be (take 4 (drop (16 + 4 * k) node)))) [0..<4]"

definition p2t8_pack :: "u64 list \<Rightarrow> bytes" where
  "p2t8_pack words = replicate 16 0 @ concat (map (\<lambda>k. u32_to_be (ucast (words ! k))) [0..<4])"

definition hash_leaf_cols_p2t8 :: "u32 list \<Rightarrow> bytes" where
  "hash_leaf_cols_p2t8 col_values =
     (let s = sponge_t8 (map ucast col_values) in p2t8_pack [s ! 0, s ! 1, s ! 2, s ! 3])"

definition hash_pair_p2t8 :: "bytes \<Rightarrow> bytes \<Rightarrow> bytes" where
  "hash_pair_p2t8 left right = p2t8_pack (compress_t8 (p2t8_node_words left) (p2t8_node_words right))"

text \<open>One step of the tree loops over \<open>chunks(2)\<close>; a last chunk of one node is paired with itself.\<close>

fun next_level :: "('n \<Rightarrow> 'n \<Rightarrow> 'n) \<Rightarrow> 'n list \<Rightarrow> 'n list" where
  "next_level H [] = []"
| "next_level H [x] = [H x x]"
| "next_level H (x # y # xs) = H x y # next_level H xs"

lemma length_next_level: "length (next_level H xs) = (length xs + 1) div 2"
  by (induction H xs rule: next_level.induct) simp_all

lemma next_level_Nil_iff: "next_level H xs = [] \<longleftrightarrow> xs = []"
  by (cases "(H, xs)" rule: next_level.cases) simp_all

text \<open>The loop \<open>while level.len() > 1\<close>: the list of levels, the given one first.\<close>

function tree_levels :: "('n \<Rightarrow> 'n \<Rightarrow> 'n) \<Rightarrow> 'n list \<Rightarrow> 'n list list" where
  "tree_levels H level = level # (if length level > 1 then tree_levels H (next_level H level) else [])"
  by pat_completeness auto
termination
  by (relation "measure (\<lambda>(H, level). length level)") (auto simp: length_next_level)

declare tree_levels.simps [simp del]

text \<open>\<open>build_tree_p2t8\<close> asserts a power of two (\<open>None\<close> is the panic), so no level is odd.\<close>

definition build_tree_p2t8 :: "bytes list \<Rightarrow> bytes list list option" where
  "build_tree_p2t8 leaves =
     (if leaves \<noteq> [] \<and> length leaves AND (length leaves - 1) = 0
      then Some (tree_levels hash_pair_p2t8 leaves) else None)"

text \<open>Folding a path.\<close>

definition path_step :: "('n \<Rightarrow> 'n \<Rightarrow> 'n) \<Rightarrow> 'n \<Rightarrow> 'n \<times> bool \<Rightarrow> 'n" where
  "path_step H cur sb = (if snd sb then H (fst sb) cur else H cur (fst sb))"

definition fold_path :: "('n \<Rightarrow> 'n \<Rightarrow> 'n) \<Rightarrow> 'n \<Rightarrow> 'n list \<Rightarrow> bool list \<Rightarrow> 'n" where
  "fold_path H leaf sibs bits = foldl (path_step H) leaf (zip sibs bits)"

section \<open>The node format\<close>

lemma u32_be_nth: "i < 4 \<Longrightarrow> u32_to_be w ! i = ucast (drop_bit (24 - 8 * i) w)"
  by (simp add: u32_to_be_def)

lemma length_u32_to_be [simp]: "length (u32_to_be w) = 4"
  by (simp add: u32_to_be_def)

lemma u32_to_be_list: "u32_to_be w = [ucast (drop_bit 24 w), ucast (drop_bit 16 w), ucast (drop_bit 8 w), ucast w]"
  by (simp add: u32_to_be_def upt_conv_Cons)

lemma u32_from_to_be: "u32_from_be (u32_to_be w) = w"
proof (rule bit_word_eqI)
  fix n assume "n < LENGTH(32)"
  then consider "n < 8" | "8 \<le> n" "n < 16" | "16 \<le> n" "n < 24" | "24 \<le> n" "n < 32" by fastforce
  then show "bit (u32_from_be (u32_to_be w)) n = bit w n"
    by cases (auto simp: u32_from_be_def u32_to_be_list bit_simps)
qed

lemma u32_to_from_be: "length bs = 4 \<Longrightarrow> u32_to_be (u32_from_be bs) = bs"
proof -
  assume "length bs = 4"
  then obtain a b c d where bs: "bs = [a, b, c, d]" by (auto simp: length_Suc_conv numeral_eq_Suc)
  have "ucast (drop_bit 24 (u32_from_be bs)) = a" "ucast (drop_bit 16 (u32_from_be bs)) = b"
    "ucast (drop_bit 8 (u32_from_be bs)) = c" "ucast (u32_from_be bs) = d"
    by (rule bit_word_eqI; auto simp: bs u32_from_be_def bit_simps dest: bit_imp_le_length)+
  then show ?thesis by (simp add: u32_to_be_list bs)
qed

lemma length_p2t8_pack [simp]: "length (p2t8_pack w) = 32"
  by (simp add: p2t8_pack_def upt_conv_Cons)

lemma length_p2t8_node_words [simp]: "length (p2t8_node_words n) = 4"
  by (simp add: p2t8_node_words_def)

lemma ucast_u32_u64: "w < 2 ^ 32 \<Longrightarrow> ucast (ucast w :: u32) = w" for w :: u64
proof -
  assume "w < 2 ^ 32"
  then have "uint w < 2 ^ 32" by (simp add: word_less_def)
  then have "uint (take_bit 32 w) = uint w" by (simp add: unsigned_take_bit_eq take_bit_int_eq_self_iff)
  then have t: "take_bit 32 w = w" by (simp add: word_uint_eq_iff)
  show ?thesis
  proof (rule bit_word_eqI)
    fix n assume "n < LENGTH(64)"
    have "bit w n \<Longrightarrow> n < 32" using t by (metis bit_take_bit_iff)
    then show "bit (ucast (ucast w :: u32) :: u64) n = bit w n" using \<open>n < LENGTH(64)\<close> by (auto simp: bit_simps)
  qed
qed

lemma node_words_pack:
  assumes "length w = 4" "\<forall>x\<in>set w. x < 2 ^ 32"
  shows "p2t8_node_words (p2t8_pack w) = w"
proof -
  obtain a b c d where w: "w = [a, b, c, d]" using assms(1) by (auto simp: len4)
  have "\<And>x. x \<in> set w \<Longrightarrow> ucast (u32_from_be (u32_to_be (ucast x))) = x"
    using assms(2) by (simp add: u32_from_to_be ucast_u32_u64)
  then show ?thesis by (simp add: w p2t8_node_words_def p2t8_pack_def upt_conv_Cons)
qed

lemma canon_lt: "canon x \<Longrightarrow> x < 2 ^ 32"
  by (simp add: canon_def M31_P_val word_less_def)

lemma node_words_pack_canon: "wf_state 4 w \<Longrightarrow> p2t8_node_words (p2t8_pack w) = w"
  by (rule node_words_pack) (simp add: wf_state_def, simp only: wf_state_def canon_lt ball_simps, blast intro: canon_lt)

lemma pack_inj: "wf_state 4 v \<Longrightarrow> wf_state 4 w \<Longrightarrow> p2t8_pack v = p2t8_pack w \<Longrightarrow> v = w"
  by (metis node_words_pack_canon)

text \<open>A node: 16 zero bytes, then four canonical words.\<close>

definition wf_node :: "bytes \<Rightarrow> bool" where
  "wf_node n \<longleftrightarrow> (\<exists>w. wf_state 4 w \<and> n = p2t8_pack w)"

lemma wf_node_words: "wf_node n \<Longrightarrow> wf_state 4 (p2t8_node_words n)"
  by (auto simp: wf_node_def node_words_pack_canon)

lemma wf_node_pack_words: "wf_node n \<Longrightarrow> p2t8_pack (p2t8_node_words n) = n"
  by (auto simp: wf_node_def node_words_pack_canon)

lemma wf_node_pair: "wf_node l \<Longrightarrow> wf_node r \<Longrightarrow> wf_node (hash_pair_p2t8 l r)"
  unfolding hash_pair_p2t8_def wf_node_def [of "p2t8_pack _"]
  using compress_t8_wf wf_node_words by blast

section \<open>Paths\<close>

lemma fold_path_Nil [simp]: "fold_path H leaf [] [] = leaf" "fold_path H leaf [] bits = leaf"
  by (simp_all add: fold_path_def)

lemma fold_path_Cons [simp]:
  "fold_path H leaf (s # sibs) (b # bits) = fold_path H (if b then H s leaf else H leaf s) sibs bits"
  by (simp add: fold_path_def path_step_def)

text \<open>The pairs of nodes hashed along a path, and two lists of pairs that show a collision at some place.\<close>

fun path_pairs :: "('n \<Rightarrow> 'n \<Rightarrow> 'n) \<Rightarrow> 'n \<Rightarrow> 'n list \<Rightarrow> bool list \<Rightarrow> ('n \<times> 'n) list" where
  "path_pairs H cur (s # sibs) (b # bits) =
     (if b then (s, cur) # path_pairs H (H s cur) sibs bits else (cur, s) # path_pairs H (H cur s) sibs bits)"
| "path_pairs H cur sibs bits = []"

fun clash :: "('n \<Rightarrow> 'n \<Rightarrow> 'n) \<Rightarrow> ('n \<times> 'n) list \<Rightarrow> ('n \<times> 'n) list \<Rightarrow> bool" where
  "clash H ((l, r) # ps) ((l', r') # qs) = ((l, r) \<noteq> (l', r') \<and> H l r = H l' r' \<or> clash H ps qs)"
| "clash H ps qs = False"

text \<open>
  Two paths with the same directions and the same root are equal, leaf and siblings, or show a
  collision of the pair hash among the pairs they hash.
\<close>

lemma fold_path_inj:
  assumes "fold_path H a sibs bits = fold_path H b sibs' bits" "length sibs = length bits" "length sibs' = length bits"
  shows "clash H (path_pairs H a sibs bits) (path_pairs H b sibs' bits) \<or> a = b \<and> sibs = sibs'"
  using assms
proof (induction bits arbitrary: sibs sibs' a b)
  case (Cons d bits)
  obtain s ss t ts where st: "sibs = s # ss" "sibs' = t # ts" using Cons.prems by (cases sibs; cases sibs') auto
  have l: "length ss = length bits" "length ts = length bits" using Cons.prems st by simp_all
  show ?case
  proof (cases d)
    case True
    have "fold_path H (H s a) ss bits = fold_path H (H t b) ts bits" using Cons.prems(1) True by (simp add: st)
    from Cons.IH [OF this l] show ?thesis using True by (auto simp: st)
  next
    case False
    have "fold_path H (H a s) ss bits = fold_path H (H b t) ts bits" using Cons.prems(1) False by (simp add: st)
    from Cons.IH [OF this l] show ?thesis using False by (auto simp: st)
  qed
qed simp

lemma next_level_nth:
  "i < length xs \<Longrightarrow> next_level H xs ! (i div 2) =
     (if odd i then H (xs ! (i - 1)) (xs ! i) else H (xs ! i) (xs ! min (i + 1) (length xs - 1)))"
proof (induction H xs arbitrary: i rule: next_level.induct)
  case (3 H x y xs)
  show ?case
  proof (cases "i < 2")
    case True
    then have "i = 0 \<or> i = 1" by linarith
    then show ?thesis by auto
  next
    case False
    then obtain k where k: "i = k + 2" by (metis add.commute le_Suc_ex not_less)
    then have kl: "k < length xs" using "3.prems" by simp
    have "min (k + 3) (length xs + 1) = Suc (Suc (min (k + 1) (length xs - 1)))" using kl by (simp add: min_def) linarith
    then have "min (k + 2 + 1) (length (x # y # xs) - 1) = Suc (Suc (min (k + 1) (length xs - 1)))" by simp
    then have e: "(x # y # xs) ! min (k + 2 + 1) (length (x # y # xs) - 1) = xs ! min (k + 1) (length xs - 1)"
      by (simp only: nth_Cons_Suc)
    have o: "odd k \<Longrightarrow> (x # y # xs) ! (k + 2 - 1) = xs ! (k - 1)" by (cases k) simp_all
    have "next_level H (x # y # xs) ! ((k + 2) div 2) = next_level H xs ! (k div 2)" by simp
    then show ?thesis unfolding k e using "3.IH" [OF kl] o by simp
  qed
qed auto

text \<open>The path of a leaf: at each level but the last, its sibling and whether it is a right child.\<close>

fun tree_path :: "'n list list \<Rightarrow> nat \<Rightarrow> 'n list \<times> bool list" where
  "tree_path [] idx = ([], [])"
| "tree_path (level # levels) idx =
     (let (sibs, bits) = tree_path levels (idx div 2)
      in (level ! min (idx XOR 1) (length level - 1) # sibs, (idx AND 1 = 1) # bits))"

lemma xor_one: "(idx XOR 1 :: nat) = (if odd idx then idx - 1 else idx + 1)"
  unfolding xor_one_eq by simp

lemma and_one_odd: "(idx AND 1 = (1::nat)) \<longleftrightarrow> odd idx"
  by (simp add: and_one_eq odd_iff_mod_2_eq_one)

lemma tree_levels_not_Nil [simp]: "tree_levels H level \<noteq> []"
  by (subst tree_levels.simps) simp

lemma butlast_tree_levels:
  "butlast (tree_levels H level) = (if length level > 1 then level # butlast (tree_levels H (next_level H level)) else [])"
  by (subst tree_levels.simps) simp

lemma last_tree_levels:
  "last (tree_levels H level) = (if length level > 1 then last (tree_levels H (next_level H level)) else level)"
  by (subst tree_levels.simps) simp

lemma length_last_level: "level \<noteq> [] \<Longrightarrow> length (last (tree_levels H level)) = 1"
proof (induction H level rule: tree_levels.induct)
  case (1 H level)
  show ?case
  proof (cases "length level > 1")
    case True
    then have "next_level H level \<noteq> []" using "1.prems" by (simp add: next_level_Nil_iff)
    then show ?thesis using 1 True by (simp add: last_tree_levels [of H level])
  next
    case False
    then show ?thesis using "1.prems" last_tree_levels [of H level] by (cases level) simp_all
  qed
qed

text \<open>Folding the path of a leaf gives the root.\<close>

lemma fold_tree_path:
  "idx < length level \<Longrightarrow> tree_path (butlast (tree_levels H level)) idx = (sibs, bits) \<Longrightarrow>
   fold_path H (level ! idx) sibs bits = last (tree_levels H level) ! 0
   \<and> length sibs = length bits \<and> length bits = length (tree_levels H level) - 1"
proof (induction H level arbitrary: idx sibs bits rule: tree_levels.induct)
  case (1 H level)
  show ?case
  proof (cases "length level > 1")
    case True
    obtain ss bs where p: "tree_path (butlast (tree_levels H (next_level H level))) (idx div 2) = (ss, bs)" by force
    define sb where "sb = level ! min (idx XOR 1) (length level - 1)"
    have e: "sibs = sb # ss" "bits = odd idx # bs"
      unfolding sb_def using "1.prems"(2) True p by (simp_all add: butlast_tree_levels [of H level] and_one_eq odd_iff_mod_2_eq_one)
    have i: "idx div 2 < length (next_level H level)" using "1.prems"(1) by (simp add: length_next_level)
    have "(if odd idx then H sb (level ! idx) else H (level ! idx) sb) = next_level H level ! (idx div 2)"
      unfolding sb_def next_level_nth [OF "1.prems"(1)] xor_one using "1.prems"(1) by (auto simp: min_def)
    then have "fold_path H (level ! idx) sibs bits = fold_path H (next_level H level ! (idx div 2)) ss bs"
      unfolding e by simp
    then show ?thesis
      using "1.IH" [OF True i p] True e tree_levels.simps [of H level] by simp
  next
    case False
    then have "idx = 0" "length level = 1" using "1.prems"(1) by linarith+
    then show ?thesis using "1.prems"(2) False
      using tree_levels.simps [of H level] by simp
  qed
qed

text \<open>
  The duplication of the last node of an odd level: a list of odd length above 1 and the list with
  its last element repeated have the same next level, hence the same root.
\<close>

lemma next_level_dup: "odd (length xs) \<Longrightarrow> next_level H (xs @ [last xs]) = next_level H xs"
proof (induction H xs rule: next_level.induct)
  case (3 H x y xs)
  then have "xs \<noteq> []" by (cases xs) auto
  with 3 show ?case by simp
qed simp_all

lemma root_dup:
  assumes "odd (length xs)" "1 < length xs"
  shows "last (tree_levels H (xs @ [last xs])) = last (tree_levels H xs)"
proof -
  have "last (tree_levels H (xs @ [last xs])) = last (tree_levels H (next_level H (xs @ [last xs])))"
    using assms by (subst last_tree_levels) (cases xs, simp_all)
  moreover have "last (tree_levels H xs) = last (tree_levels H (next_level H xs))"
    using assms by (subst last_tree_levels) simp
  ultimately show ?thesis using assms by (simp add: next_level_dup)
qed

end
