(* ===== verification/Batch_Tree.thy ===== *)
theory Batch_Tree
  imports Merkle_T8
begin

unbundle bit_operations_syntax

text \<open>
  The batch Merkle tree of \<open>batch_tree.rs\<close>: the encoding of leaf bytes as field words, the leaves
  that bind a transaction to its trace roots, the tree with the duplicated last node of an odd
  level, and inclusion proofs.
\<close>

section \<open>Definitions\<close>

datatype batch_error =
    LeafTooLong nat
  | NoLeaves
  | TooManyLeaves nat
  | LeafIndex nat nat

definition BYTES_PER_WORD :: nat where "BYTES_PER_WORD = 3"
definition MAX_LEAF_BYTES :: nat where "MAX_LEAF_BYTES = push_bit 30 1"
definition MAX_LEAVES :: nat where "MAX_LEAVES = push_bit 20 1"

text \<open>\<open>data.chunks(n)\<close>: chunks of \<open>n\<close> elements, the last one shorter when \<open>n\<close> does not divide the length.\<close>

function chunks :: "nat \<Rightarrow> 'a list \<Rightarrow> 'a list list" where
  "chunks n xs = (if xs = [] \<or> n = 0 then [] else take n xs # chunks n (drop n xs))"
  by pat_completeness auto
termination
  by (relation "measure (\<lambda>(n, xs). length xs)") auto

declare chunks.simps [simp del]

text \<open>The loop over one chunk: \<open>w |= (b as u32) << (8 * i)\<close>.\<close>

definition chunk_word :: "bytes \<Rightarrow> u32" where
  "chunk_word chunk = foldl (\<lambda>w (i, b). w OR push_bit (8 * i) (ucast b)) 0 (enumerate 0 chunk)"

definition bytes_to_m31_words :: "bytes \<Rightarrow> batch_error + u32 list" where
  "bytes_to_m31_words data =
     (if length data \<ge> MAX_LEAF_BYTES then Inl (LeafTooLong (length data))
      else Inr (map chunk_word (chunks BYTES_PER_WORD data) @ [word_of_nat (length data)]))"

definition batch_leaf_hash :: "bytes \<Rightarrow> batch_error + bytes" where
  "batch_leaf_hash data = map_sum id hash_leaf_cols_p2t8 (bytes_to_m31_words data)"

definition node_words :: "bytes \<Rightarrow> u64 list" where
  "node_words node = p2t8_node_words node"

record BatchTree =
  levels :: "bytes list list"

definition bt_root :: "BatchTree \<Rightarrow> bytes" where
  "bt_root t = last (levels t) ! 0"

definition bt_leaf_count :: "BatchTree \<Rightarrow> usize" where
  "bt_leaf_count t = length (levels t ! 0)"

definition bt_depth :: "BatchTree \<Rightarrow> usize" where
  "bt_depth t = length (levels t) - 1"

definition bt_membership_proof :: "BatchTree \<Rightarrow> usize \<Rightarrow> batch_error + bytes list \<times> bool list" where
  "bt_membership_proof t index =
     (if index \<ge> bt_leaf_count t then Inl (LeafIndex index (bt_leaf_count t))
      else Inr (tree_path (butlast (levels t)) index))"

text \<open>\<open>collect::<Result<_, _>>()\<close>: the first error, or all the values.\<close>

fun collect_results :: "('e + 'a) list \<Rightarrow> 'e + 'a list" where
  "collect_results [] = Inr []"
| "collect_results (r # rs) =
     (case r of Inl e \<Rightarrow> Inl e
      | Inr x \<Rightarrow> (case collect_results rs of Inl e \<Rightarrow> Inl e | Inr xs \<Rightarrow> Inr (x # xs)))"

definition build_batch_tree :: "bytes list \<Rightarrow> batch_error + BatchTree" where
  "build_batch_tree leaves =
     (if leaves = [] then Inl NoLeaves
      else if length leaves > MAX_LEAVES then Inl (TooManyLeaves (length leaves))
      else case collect_results (map batch_leaf_hash leaves) of
          Inl e \<Rightarrow> Inl e
        | Inr level \<Rightarrow> Inr \<lparr>levels = tree_levels hash_pair_p2t8 level\<rparr>)"

definition verify_batch_membership :: "bytes \<Rightarrow> bytes \<Rightarrow> bytes list \<Rightarrow> bool list \<Rightarrow> bool" where
  "verify_batch_membership rt leaf sibs bits =
     (if length sibs \<noteq> length bits then False
      else fold_path hash_pair_p2t8 leaf sibs bits = rt)"

definition LEAF_DOMAIN :: "u64 list" where
  "LEAF_DOMAIN = [1421959497, 1730427068, 1993284430, 1732805141]"

text \<open>The first 16 bytes as a little-endian \<open>u128\<close>, cut into four words of 31 bits.\<close>

definition words_from_hash :: "bytes \<Rightarrow> u64 list" where
  "words_from_hash digest =
     (let bits = foldl (\<lambda>bits (i, b). bits OR push_bit (8 * i) (ucast b)) (0 :: u128) (enumerate 0 (take 16 digest))
      in map (\<lambda>i. ucast (drop_bit (31 * i) bits AND 0x7fffffff)) [0..<4])"

definition batch_leaf :: "u64 list \<Rightarrow> u64 list \<Rightarrow> bytes" where
  "batch_leaf tx_id trace_root =
     (let inner = compress_t8 tx_id trace_root in p2t8_pack (compress_t8 LEAF_DOMAIN inner))"

definition build_batch_tree_bound :: "(u64 list \<times> u64 list) list \<Rightarrow> batch_error + BatchTree" where
  "build_batch_tree_bound pairs =
     (if pairs = [] then Inl NoLeaves
      else if length pairs > MAX_LEAVES then Inl (TooManyLeaves (length pairs))
      else Inr \<lparr>levels = tree_levels hash_pair_p2t8 (map (\<lambda>(t, r). batch_leaf t r) pairs)\<rparr>)"

definition batch_leaf_dual :: "u64 list \<Rightarrow> u64 list \<Rightarrow> u64 list \<Rightarrow> bytes" where
  "batch_leaf_dual tx_id tr10 tr8 =
     (let inner2 = compress_t8 tr10 tr8;
          inner = compress_t8 tx_id inner2
      in p2t8_pack (compress_t8 LEAF_DOMAIN inner))"

definition build_batch_tree_dual :: "(u64 list \<times> u64 list \<times> u64 list) list \<Rightarrow> batch_error + BatchTree" where
  "build_batch_tree_dual triples =
     (if triples = [] then Inl NoLeaves
      else if length triples > MAX_LEAVES then Inl (TooManyLeaves (length triples))
      else Inr \<lparr>levels = tree_levels hash_pair_p2t8 (map (\<lambda>(t, a, b). batch_leaf_dual t a b) triples)\<rparr>)"

section \<open>The leaf encoding is injective\<close>

lemma chunk_word_bit:
  assumes "length c \<le> 3"
  shows "bit (chunk_word c) n = (n < 8 * length c \<and> bit (c ! (n div 8)) (n mod 8))"
proof -
  consider "c = []" | x where "c = [x]" | x y where "c = [x, y]" | x y z where "c = [x, y, z]"
    using assms by (cases c; cases "tl c"; cases "tl (tl c)"; cases "tl (tl (tl c))") auto
  then show ?thesis
  proof cases
    case 4
    consider "n < 8" | "8 \<le> n" "n < 16" | "16 \<le> n" "n < 24" | "24 \<le> n" by linarith
    then show ?thesis
      by cases (auto simp: 4 chunk_word_def bit_simps nth_Cons' div_less_iff_less_mult le_div_geq le_mod_geq
        dest: bit_imp_le_length)
  next
    case 3
    consider "n < 8" | "8 \<le> n" "n < 16" | "16 \<le> n" by linarith
    then show ?thesis
      by cases (auto simp: 3 chunk_word_def bit_simps nth_Cons' le_div_geq le_mod_geq dest: bit_imp_le_length)
  next
    case 2
    have "bit x n \<Longrightarrow> n < 8" by (auto dest: bit_imp_le_length)
    then show ?thesis by (cases "n < 8") (auto simp: 2 chunk_word_def bit_simps)
  next
    case 1
    then show ?thesis by (simp add: chunk_word_def)
  qed
qed

lemma chunk_word_inj:
  assumes "length c = length d" "length c \<le> 3" "chunk_word c = chunk_word d"
  shows "c = d"
proof (rule nth_equalityI [OF assms(1)])
  fix i assume i: "i < length c"
  show "c ! i = d ! i"
  proof (rule bit_word_eqI)
    fix n assume "n < LENGTH(8)"
    then have n: "n < 8" by simp
    have "bit (chunk_word c) (8 * i + n) = bit (chunk_word d) (8 * i + n)" using assms(3) by simp
    then show "bit (c ! i) n = bit (d ! i) n"
      using chunk_word_bit [of c "8 * i + n"] chunk_word_bit [of d "8 * i + n"] assms(1,2) i n by simp
  qed
qed

lemma chunks_inj:
  "length xs = length ys \<Longrightarrow> map chunk_word (chunks 3 xs) = map chunk_word (chunks 3 ys) \<Longrightarrow> xs = ys"
proof (induction "length xs" arbitrary: xs ys rule: less_induct)
  case less
  show ?case
  proof (cases "xs = []")
    case True
    then show ?thesis using less.prems by simp
  next
    case False
    then have ne: "ys \<noteq> []" using less.prems by auto
    have e: "chunk_word (take 3 xs) = chunk_word (take 3 ys)"
      "map chunk_word (chunks 3 (drop 3 xs)) = map chunk_word (chunks 3 (drop 3 ys))"
      using less.prems(2) False ne by (simp_all add: chunks.simps [of 3 xs] chunks.simps [of 3 ys])
    have "take 3 xs = take 3 ys" by (rule chunk_word_inj) (use e(1) less.prems(1) in simp_all)
    moreover have "drop 3 xs = drop 3 ys"
      by (rule less.hyps) (use False ne less.prems(1) e(2) in auto)
    ultimately show ?thesis by (metis append_take_drop_id)
  qed
qed

lemma bytes_to_m31_words_inj_aux:
  assumes "bytes_to_m31_words xs = Inr w" "bytes_to_m31_words ys = Inr w"
  shows "xs = ys"
proof -
  have l: "length xs < 2 ^ 30" "length ys < 2 ^ 30"
    and e: "map chunk_word (chunks 3 xs) @ [word_of_nat (length xs)] = map chunk_word (chunks 3 ys) @ [word_of_nat (length ys)]"
    using assms by (auto simp: bytes_to_m31_words_def MAX_LEAF_BYTES_def BYTES_PER_WORD_def push_bit_eq_mult split: if_splits)
  have "unat (word_of_nat (length xs) :: u32) = unat (word_of_nat (length ys) :: u32)" using e by simp
  then have "length xs = length ys" using l by (simp add: unsigned_of_nat take_bit_nat_eq_self)
  with e show ?thesis by (intro chunks_inj) simp_all
qed

text \<open>Every word is canonical: chunks fit 24 bits and the length fits 30.\<close>

lemma chunk_word_small: "length c \<le> 3 \<Longrightarrow> chunk_word c < 2 ^ 24"
proof -
  assume c: "length c \<le> 3"
  have "take_bit 24 (chunk_word c) = chunk_word c"
    by (rule bit_word_eqI) (use c in \<open>auto simp: bit_take_bit_iff chunk_word_bit\<close>)
  then have "unat (chunk_word c) < 2 ^ 24"
    by (metis unsigned_take_bit_eq take_bit_nat_less_exp)
  then show ?thesis by (simp add: word_less_nat_alt)
qed

lemma in_chunks: "c \<in> set (chunks n xs) \<Longrightarrow> length c \<le> n"
  by (induction n xs rule: chunks.induct) (subst (asm) (2) chunks.simps, auto split: if_splits)

lemma bytes_words_canon:
  assumes "bytes_to_m31_words xs = Inr w" "x \<in> set w"
  shows "uint x < P31"
proof -
  have l: "length xs < 2 ^ 30" and w: "w = map chunk_word (chunks 3 xs) @ [word_of_nat (length xs)]"
    using assms by (auto simp: bytes_to_m31_words_def MAX_LEAF_BYTES_def BYTES_PER_WORD_def push_bit_eq_mult split: if_splits)
  consider c where "c \<in> set (chunks 3 xs)" "x = chunk_word c" | "x = word_of_nat (length xs)"
    using assms(2) by (auto simp: w)
  then show ?thesis
  proof cases
    case 1
    then show ?thesis using chunk_word_small [of c] in_chunks [of c 3 xs] by (simp add: word_less_def P31_def)
  next
    case 2
    then show ?thesis using l by (simp add: unsigned_of_nat take_bit_nat_eq_self P31_def)
  qed
qed

section \<open>Inclusion proofs\<close>

lemma collect_results_Inr: "collect_results rs = Inr xs \<longleftrightarrow> rs = map Inr xs"
proof (induction rs arbitrary: xs)
  case (Cons r rs)
  then show ?case by (cases r; cases xs; cases "collect_results rs") auto
qed auto

text \<open>A tree is built from its leaf level by \<open>tree_levels\<close>.\<close>

definition built_from :: "bytes list \<Rightarrow> BatchTree \<Rightarrow> bool" where
  "built_from level t \<longleftrightarrow> level \<noteq> [] \<and> levels t = tree_levels hash_pair_p2t8 level"

lemma build_batch_tree_built:
  "build_batch_tree leaves = Inr t \<Longrightarrow> \<exists>level. built_from level t \<and> map batch_leaf_hash leaves = map Inr level"
  by (auto simp: build_batch_tree_def built_from_def collect_results_Inr split: if_splits sum.splits)

lemma build_batch_tree_bound_built:
  "build_batch_tree_bound pairs = Inr t \<Longrightarrow> built_from (map (\<lambda>(t, r). batch_leaf t r) pairs) t"
  by (auto simp: build_batch_tree_bound_def built_from_def split: if_splits)

lemma build_batch_tree_dual_built:
  "build_batch_tree_dual triples = Inr t \<Longrightarrow> built_from (map (\<lambda>(t, a, b). batch_leaf_dual t a b) triples) t"
  by (auto simp: build_batch_tree_dual_def built_from_def split: if_splits)

lemma built_leaf_count: "built_from level t \<Longrightarrow> bt_leaf_count t = length level"
  unfolding built_from_def bt_leaf_count_def using tree_levels.simps [of hash_pair_p2t8 level] by simp

lemma membership_complete:
  assumes "built_from level t" "index < length level"
  obtains sibs bits where "bt_membership_proof t index = Inr (sibs, bits)"
    "verify_batch_membership (bt_root t) (level ! index) sibs bits"
    "length sibs = bt_depth t"
proof -
  obtain sibs bits where p: "tree_path (butlast (tree_levels hash_pair_p2t8 level)) index = (sibs, bits)" by force
  have lv: "levels t = tree_levels hash_pair_p2t8 level" using assms(1) by (simp add: built_from_def)
  show thesis
  proof (rule that)
    show "bt_membership_proof t index = Inr (sibs, bits)"
      using assms p by (simp add: bt_membership_proof_def built_leaf_count lv)
    show "verify_batch_membership (bt_root t) (level ! index) sibs bits" "length sibs = bt_depth t"
      using fold_tree_path [OF assms(2) p] by (simp_all add: verify_batch_membership_def bt_root_def lv bt_depth_def)
  qed
qed

lemma membership_sound:
  assumes "verify_batch_membership rt a sibs bits" "verify_batch_membership rt b sibs' bits" "a \<noteq> b"
  shows "clash hash_pair_p2t8 (path_pairs hash_pair_p2t8 a sibs bits) (path_pairs hash_pair_p2t8 b sibs' bits)"
  using assms fold_path_inj [of hash_pair_p2t8 a sibs bits b sibs']
  by (auto simp: verify_batch_membership_def split: if_splits)

section \<open>Two defects of the tree\<close>

text \<open>
  The word \<open>2^31 - 1\<close> is zero in the field, and \<open>words_from_hash\<close> can return it: as the first word of
  a transaction identifier it is hashed like the word 0.
\<close>

lemma add_P: "canon b \<Longrightarrow> m31_add M31_P b = b" "canon b \<Longrightarrow> m31_add 0 b = b"
proof -
  assume b: "canon b"
  then have "uint b < P31" by (simp add: canon_uint)
  then have s: "uint (M31_P + b) = P31 + uint b" by (subst uint_add_small) (simp_all add: uint_M31_P P31_def)
  have "uint (m31_add M31_P b) = uint b"
    unfolding m31_add_def Let_def cond_sub_u64 s using uint_nonnegative [of b] by simp
  then show "m31_add M31_P b = b" by (simp add: word_uint_eq_iff)
  show "m31_add 0 b = b" using b by (auto simp: m31_add_def canon_def)
qed

lemma m4_P: "canon b \<Longrightarrow> m4 [M31_P, b, c, d] = m4 [0, b, c, d]"
  by (simp add: m4_def Let_def add_P)

lemma compress_t8_P:
  assumes "canon b"
  shows "compress_t8 [M31_P, b, c, d] r = compress_t8 [0, b, c, d] r"
proof -
  have "mat_external_t8 (map ((!) [M31_P, b, c, d]) [0..<4] @ map ((!) r) [0..<4])
      = mat_external_t8 (map ((!) [0, b, c, d]) [0..<4] @ map ((!) r) [0..<4])"
    using m4_P [OF assms] by (simp add: mat_external_t8_def upt_conv_Cons)
  then show ?thesis by (simp add: compress_t8_def permute_t8_def p2_permute_def)
qed

definition digest_p :: bytes where
  "digest_p = [255, 255, 255, 127] @ replicate 28 0"

lemma fold_zero_bytes:
  "foldl (\<lambda>bits (i, b). bits OR push_bit (8 * i) (ucast b)) acc (enumerate k (replicate n (0 :: u8))) = (acc :: u128)"
  by (induction n arbitrary: k) simp_all

lemma digest_bits:
  "foldl (\<lambda>bits (i, b). bits OR push_bit (8 * i) (ucast b)) (0 :: u128) (enumerate 0 [255 :: u8, 255, 255, 127]) = 2147483647"
  by (simp add: numeral_2_eq_2 [symmetric] numeral_3_eq_3 [symmetric])

lemma words_from_digests:
  "words_from_hash digest_p = [M31_P, 0, 0, 0]" "words_from_hash (replicate 32 0) = [0, 0, 0, 0]"
proof -
  have t: "take 16 digest_p = [255, 255, 255, 127] @ replicate 12 0" by (simp add: digest_p_def)
  show "words_from_hash digest_p = [M31_P, 0, 0, 0]"
    unfolding words_from_hash_def Let_def t enumerate_append_eq foldl_append digest_bits fold_zero_bytes
    by (simp add: upt_conv_Cons M31_P_val)
  show "words_from_hash (replicate 32 0) = [0, 0, 0, 0]"
    unfolding words_from_hash_def Let_def take_replicate fold_zero_bytes by (simp add: upt_conv_Cons)
qed

section \<open>Properties\<close>

text \<open>
  \<open>bytes_to_m31_words\<close> is injective, and every word it produces is canonical: different leaf
  bytes give different field words.
\<close>

lemma bytes_to_m31_words_injective:
  assumes "bytes_to_m31_words xs = Inr w" "bytes_to_m31_words ys = Inr w"
  shows "xs = ys \<and> (\<forall>x\<in>set w. uint x < P31)"
  using bytes_to_m31_words_inj_aux [OF assms] bytes_words_canon [OF assms(1)] by blast

lemma words_of_abcd: "bytes_to_m31_words [1, 2, 3, 0] = Inr [197121, 0, 4]"
  by (simp add: bytes_to_m31_words_def MAX_LEAF_BYTES_def BYTES_PER_WORD_def push_bit_eq_mult chunks.simps chunk_word_def
      numeral_2_eq_2 [symmetric])

text \<open>
  Inclusion proofs are complete: for every leaf of a built batch tree the proof exists, has one
  sibling per level below the root, and verifies against the root.
\<close>

lemma batch_membership_complete:
  assumes "build_batch_tree_dual triples = Inr t" "i < length triples"
  shows "\<exists>sibs bits. bt_membership_proof t i = Inr (sibs, bits) \<and> length sibs = bt_depth t
    \<and> verify_batch_membership (bt_root t) (case triples ! i of (tx, a, b) \<Rightarrow> batch_leaf_dual tx a b) sibs bits"
  using membership_complete [OF build_batch_tree_dual_built [OF assms(1)], of i] assms(2)
  by (simp add: nth_map) metis

text \<open>
  C10. Inclusion proofs are sound up to collisions: two different leaves that verify against one root
  with the same directions hash, at some level of their two paths, two different pairs of nodes to
  the same node.
\<close>

theorem batch_membership_sound:
  assumes "verify_batch_membership rt a sibs bits" "verify_batch_membership rt b sibs' bits" "a \<noteq> b"
  shows "clash hash_pair_p2t8 (path_pairs hash_pair_p2t8 a sibs bits) (path_pairs hash_pair_p2t8 b sibs' bits)"
  using assms by (rule membership_sound)

text \<open>Bytes 0 to 15 of a node are ignored by the pair hash, which gives an instance.\<close>

theorem batch_membership_sound_witness:
  "clash hash_pair_p2t8 (path_pairs hash_pair_p2t8 (replicate 32 0) [replicate 32 0] [False])
    (path_pairs hash_pair_p2t8 (1 # replicate 31 0) [replicate 32 0] [False])"
proof (rule batch_membership_sound)
  let ?a = "replicate 32 (0 :: u8)" and ?b = "1 # replicate 31 (0 :: u8)"
  have n: "p2t8_node_words ?b = p2t8_node_words ?a" by (simp add: p2t8_node_words_def upt_conv_Cons)
  show "verify_batch_membership (hash_pair_p2t8 ?a ?a) ?a [?a] [False]" by (simp add: verify_batch_membership_def)
  show "verify_batch_membership (hash_pair_p2t8 ?a ?a) ?b [?a] [False]"
    by (simp add: verify_batch_membership_def hash_pair_p2t8_def n)
  have "?a ! 0 \<noteq> ?b ! 0" by simp
  then show "?a \<noteq> ?b" by metis
qed

text \<open>
  A batch of odd size above one and the batch with its last transaction repeated have the same
  root: duplicating the last node of an odd level makes the root ambiguous.
\<close>

lemma batch_root_duplication:
  assumes "odd (length triples)" "1 < length triples" "build_batch_tree_dual triples = Inr t"
    "build_batch_tree_dual (triples @ [last triples]) = Inr t'"
  shows "bt_root t = bt_root t'"
proof -
  let ?f = "\<lambda>(tx, a, b). batch_leaf_dual tx a b"
  have "levels t = tree_levels hash_pair_p2t8 (map ?f triples)"
    "levels t' = tree_levels hash_pair_p2t8 (map ?f triples @ [last (map ?f triples)])"
    using assms build_batch_tree_dual_built [OF assms(3)] build_batch_tree_dual_built [OF assms(4)]
    by (auto simp: built_from_def last_map)
  then show ?thesis using root_dup [of "map ?f triples" hash_pair_p2t8] assms(1,2) by (simp add: bt_root_def)
qed

text \<open>
  Two different 32-byte digests, differing in their first 31 bits, give the same batch leaf:
  \<open>words_from_hash\<close> maps one of them to the word \<open>2^31 - 1\<close>, which the field identifies with 0.
\<close>

lemma words_from_hash_collision:
  "digest_p \<noteq> replicate 32 0 \<and> words_from_hash digest_p \<noteq> words_from_hash (replicate 32 0)
   \<and> batch_leaf_dual (words_from_hash digest_p) tr10 tr8 = batch_leaf_dual (words_from_hash (replicate 32 0)) tr10 tr8"
proof -
  have "digest_p ! 0 \<noteq> replicate 32 0 ! 0" by (simp add: digest_p_def)
  then have "digest_p \<noteq> replicate 32 0" by metis
  moreover have "[M31_P, 0, 0, 0] \<noteq> [0, 0, 0, 0]" by (simp add: M31_P_val)
  ultimately show ?thesis
    unfolding words_from_digests batch_leaf_dual_def Let_def compress_t8_P [OF canon_zero] by simp
qed

end
