(* ===== verification/Nonce_Tree.thy ===== *)
theory Nonce_Tree
  imports Batch_Tree "HOL-Library.Product_Lexorder" "HOL-Library.Multiset"
begin

unbundle bit_operations_syntax

text \<open>
  The nonce accumulator of \<open>nonce_tree.rs\<close>: a sparse Merkle tree of nonce slots with an ordered map
  of the occupied slots, the updates of a batch in canonical order, and the reference verification
  of a chain of transitions. Slot indices are \<open>u32\<close> values below \<open>2^28\<close>, written as naturals; the
  operations on them stay below \<open>2^28\<close>. The locale \<open>ordered_map\<close> states what the tree uses of
  \<open>BTreeMap\<close>; a strictly sorted association list implements it.
\<close>

section \<open>The ordered map\<close>

text \<open>\<open>BTreeMap<u32, u64>\<close>: \<open>get\<close>, \<open>insert\<close>, and the first entry of \<open>range(lo..)\<close>.\<close>

type_synonym btree_map = "(nat \<times> u64) list"

definition bm_get :: "btree_map \<Rightarrow> nat \<Rightarrow> u64 option" where
  "bm_get m k = map_of m k"

fun bm_insert :: "nat \<Rightarrow> u64 \<Rightarrow> btree_map \<Rightarrow> btree_map" where
  "bm_insert k v [] = [(k, v)]"
| "bm_insert k v ((k', v') # m) =
     (if k < k' then (k, v) # (k', v') # m
      else if k = k' then (k, v) # m
      else (k', v') # bm_insert k v m)"

definition bm_first_from :: "btree_map \<Rightarrow> nat \<Rightarrow> (nat \<times> u64) option" where
  "bm_first_from m lo = find (\<lambda>(k, v). lo \<le> k) m"

definition bm_inv :: "btree_map \<Rightarrow> bool" where
  "bm_inv m \<longleftrightarrow> sorted_wrt (<) (map fst m)"

section \<open>Definitions\<close>

datatype nonce_error =
    DepthRange nat
  | IndexRange nat nat
  | NotIncreasing nat u64 u64

definition NONCE_DOMAIN :: "u64 list" where
  "NONCE_DOMAIN = [1561581812, 1974539750, 1096381643, 823873995]"

definition MAX_DEPTH :: nat where "MAX_DEPTH = 28"
definition LIMB_BITS :: nat where "LIMB_BITS = 30"
definition LIMB_MASK :: u64 where "LIMB_MASK = push_bit LIMB_BITS 1 - 1"

definition nonce_words :: "u64 \<Rightarrow> u64 list" where
  "nonce_words nonce =
     [nonce AND LIMB_MASK,
      drop_bit LIMB_BITS nonce AND LIMB_MASK,
      drop_bit (2 * LIMB_BITS) nonce AND LIMB_MASK,
      0]"

definition nonce_leaf :: "u64 \<Rightarrow> bytes" where
  "nonce_leaf nonce = p2t8_pack (compress_t8 NONCE_DOMAIN (nonce_words nonce))"

definition u32_from_le :: "bytes \<Rightarrow> u32" where
  "u32_from_le bs = foldr (\<lambda>b acc. push_bit 8 acc OR ucast b) bs 0"

definition slot_index :: "bytes \<Rightarrow> nat \<Rightarrow> nonce_error + nat" where
  "slot_index sender_hash d =
     (if d = 0 \<or> d > MAX_DEPTH then Inl (DepthRange d)
      else let raw = u32_from_le [sender_hash ! 0, sender_hash ! 1, sender_hash ! 2, sender_hash ! 3]
           in Inr (unat (raw AND (push_bit d 1 - 1))))"

record NonceTree =
  depth :: nat
  slots :: btree_map
  empties :: "bytes list"

text \<open>The loop that fills \<open>empty\<close> bottom-up.\<close>

definition empty_roots :: "nat \<Rightarrow> bytes list" where
  "empty_roots d =
     foldl (\<lambda>empty k. let below = empty ! k in empty @ [hash_pair_p2t8 below below]) [nonce_leaf 0] [0..<d]"

definition nt_new :: "nat \<Rightarrow> nonce_error + NonceTree" where
  "nt_new d =
     (if d = 0 \<or> d > MAX_DEPTH then Inl (DepthRange d)
      else Inr \<lparr>depth = d, slots = [], empties = empty_roots d\<rparr>)"

definition nt_get :: "NonceTree \<Rightarrow> nat \<Rightarrow> u64" where
  "nt_get t index = (case bm_get (slots t) index of Some v \<Rightarrow> v | None \<Rightarrow> 0)"

definition slot_count :: "NonceTree \<Rightarrow> nat" where
  "slot_count t = push_bit (depth t) 1"

definition nt_set :: "NonceTree \<Rightarrow> nat \<Rightarrow> u64 \<Rightarrow> nonce_error + NonceTree" where
  "nt_set t index nonce =
     (if index \<ge> slot_count t then Inl (IndexRange index (depth t))
      else let current = nt_get t index
           in if nonce \<le> current then Inl (NotIncreasing index current nonce)
              else Inr (t\<lparr>slots := bm_insert index nonce (slots t)\<rparr>))"

fun nt_node :: "NonceTree \<Rightarrow> nat \<Rightarrow> nat \<Rightarrow> bytes" where
  "nt_node t 0 index = nonce_leaf (nt_get t index)"
| "nt_node t (Suc h) index =
     (let span = 2 ^ Suc h;
          lo = index * span;
          hi = lo + span
      in if \<not> (case bm_first_from (slots t) (min lo (2 ^ 32 - 1)) of Some (k, _) \<Rightarrow> k < hi | None \<Rightarrow> False)
         then empties t ! Suc h
         else hash_pair_p2t8 (nt_node t h (index * 2)) (nt_node t h (index * 2 + 1)))"

definition nt_root :: "NonceTree \<Rightarrow> bytes" where
  "nt_root t = nt_node t (depth t) 0"

definition root_words :: "NonceTree \<Rightarrow> u64 list" where
  "root_words t = p2t8_node_words (nt_root t)"

text \<open>The loop over the heights below \<open>d\<close>, from height \<open>h\<close>.\<close>

fun proof_loop :: "NonceTree \<Rightarrow> nat list \<Rightarrow> nat \<Rightarrow> bytes list \<times> bool list" where
  "proof_loop t [] idx = ([], [])"
| "proof_loop t (height # heights) idx =
     (let is_right = idx AND 1 = 1;
          sib_idx = (if is_right then idx - 1 else idx + 1);
          (sibs, bits) = proof_loop t heights (idx div 2)
      in (nt_node t height sib_idx # sibs, is_right # bits))"

definition nt_membership_proof :: "NonceTree \<Rightarrow> nat \<Rightarrow> nonce_error + bytes list \<times> bool list" where
  "nt_membership_proof t index =
     (if index \<ge> slot_count t then Inl (IndexRange index (depth t))
      else Inr (proof_loop t [0..<depth t] index))"

record NonceTransition =
  tr_index :: nat
  old_nonce :: u64
  new_nonce :: u64
  tr_sibs :: "bytes list"
  tr_bits :: "bool list"
  pre_root :: bytes
  post_root :: bytes

text \<open>
  \<open>apply_updates\<close> mutates its tree: the model returns the tree it leaves behind together with the
  result, also when the result is an error.
\<close>

definition apply_update :: "NonceTree \<Rightarrow> nat \<times> u64 \<Rightarrow> nonce_error + NonceTree \<times> NonceTransition" where
  "apply_update t u =
     (let (index, nonce) = u;
          old = nt_get t index
      in case nt_membership_proof t index of
          Inl e \<Rightarrow> Inl e
        | Inr (sibs, bits) \<Rightarrow>
            (case nt_set t index nonce of
               Inl e \<Rightarrow> Inl e
             | Inr t' \<Rightarrow>
                 Inr (t', \<lparr>tr_index = index, old_nonce = old, new_nonce = nonce, tr_sibs = sibs, tr_bits = bits,
                          pre_root = nt_root t, post_root = nt_root t'\<rparr>)))"

fun apply_loop :: "NonceTree \<Rightarrow> (nat \<times> u64) list \<Rightarrow> NonceTree \<times> (nonce_error + NonceTransition list)" where
  "apply_loop t [] = (t, Inr [])"
| "apply_loop t (u # us) =
     (case apply_update t u of
        Inl e \<Rightarrow> (t, Inl e)
      | Inr (t', tr) \<Rightarrow>
          (case apply_loop t' us of
             (t'', Inl e) \<Rightarrow> (t'', Inl e)
           | (t'', Inr trs) \<Rightarrow> (t'', Inr (tr # trs))))"

definition indexed_updates :: "nat \<Rightarrow> (bytes \<times> u64) list \<Rightarrow> nonce_error + (nat \<times> u64) list" where
  "indexed_updates d updates =
     collect_results (map (\<lambda>(sender_hash, nonce). map_sum id (\<lambda>i. (i, nonce)) (slot_index sender_hash d)) updates)"

definition apply_updates ::
  "NonceTree \<Rightarrow> (bytes \<times> u64) list \<Rightarrow> NonceTree \<times> (nonce_error + bytes \<times> bytes \<times> NonceTransition list)" where
  "apply_updates t updates =
     (case indexed_updates (depth t) updates of
        Inl e \<Rightarrow> (t, Inl e)
      | Inr indexed \<Rightarrow>
          (case apply_loop t (sort indexed) of
             (t', Inl e) \<Rightarrow> (t', Inl e)
           | (t', Inr trs) \<Rightarrow> (t', Inr (nt_root t, nt_root t', trs))))"

definition verify_transition :: "NonceTransition \<Rightarrow> bool" where
  "verify_transition t =
     (if new_nonce t \<le> old_nonce t then False
      else if length (tr_sibs t) \<noteq> length (tr_bits t) then False
      else verify_batch_membership (pre_root t) (nonce_leaf (old_nonce t)) (tr_sibs t) (tr_bits t)
         \<and> verify_batch_membership (post_root t) (nonce_leaf (new_nonce t)) (tr_sibs t) (tr_bits t))"

text \<open>The loop of \<open>verify_chain\<close> over the links, each compared with its successor.\<close>

fun chain_loop :: "NonceTransition list \<Rightarrow> bool" where
  "chain_loop [] = True"
| "chain_loop [t] = verify_transition t"
| "chain_loop (t # t' # ts) =
     (if \<not> verify_transition t then False
      else if post_root t \<noteq> pre_root t' then False
      else chain_loop (t' # ts))"

definition verify_chain :: "NonceTransition list \<Rightarrow> bytes \<Rightarrow> bytes \<Rightarrow> bool" where
  "verify_chain transitions old_root new_root =
     (if transitions = [] then old_root = new_root
      else if pre_root (transitions ! 0) \<noteq> old_root then False
      else if post_root (transitions ! (length transitions - 1)) \<noteq> new_root then False
      else chain_loop transitions)"

section \<open>The ordered map interface\<close>

text \<open>
  What the tree relies on: lookups after an insertion, an invariant every insertion keeps, and the
  first entry from a key on.
\<close>

locale ordered_map =
  fixes lookup :: "'m \<Rightarrow> nat \<Rightarrow> u64 option"
    and ins :: "nat \<Rightarrow> u64 \<Rightarrow> 'm \<Rightarrow> 'm"
    and first_from :: "'m \<Rightarrow> nat \<Rightarrow> (nat \<times> u64) option"
    and ok :: "'m \<Rightarrow> bool"
  assumes lookup_ins: "ok m \<Longrightarrow> lookup (ins k v m) k' = (if k' = k then Some v else lookup m k')"
    and ok_ins: "ok m \<Longrightarrow> ok (ins k v m)"
    and first_None: "ok m \<Longrightarrow> first_from m lo = None \<Longrightarrow> lo \<le> k \<Longrightarrow> lookup m k = None"
    and first_Some: "ok m \<Longrightarrow> first_from m lo = Some (k, v) \<Longrightarrow> lo \<le> k \<and> lookup m k = Some v"
    and first_least: "ok m \<Longrightarrow> first_from m lo = Some (k, v) \<Longrightarrow> lo \<le> j \<Longrightarrow> j < k \<Longrightarrow> lookup m j = None"
begin

lemma occupied_iff:
  assumes "ok m"
  shows "(case first_from m lo of Some (k, _) \<Rightarrow> k < hi | None \<Rightarrow> False)
     \<longleftrightarrow> (\<exists>k. lo \<le> k \<and> k < hi \<and> lookup m k \<noteq> None)"
proof (cases "first_from m lo")
  case None
  then show ?thesis using first_None [OF assms None] by auto
next
  case (Some p)
  obtain k v where p: "p = (k, v)" by force
  have k: "lo \<le> k" "lookup m k = Some v" using first_Some [OF assms Some [unfolded p]] by simp_all
  have "k \<le> j" if "lo \<le> j" "lookup m j \<noteq> None" for j
    using first_least [OF assms Some [unfolded p] that(1)] that(2) by force
  with k show ?thesis by (auto simp: Some p intro: le_less_trans)
qed

end

lemma bm_insert_keys: "set (map fst (bm_insert k v m)) = insert k (set (map fst m))"
  by (induction k v m rule: bm_insert.induct) auto

lemma bm_insert_sorted: "bm_inv m \<Longrightarrow> bm_inv (bm_insert k v m)"
  unfolding bm_inv_def
proof (induction k v m rule: bm_insert.induct)
  case (2 k v k' v' m)
  then show ?case using bm_insert_keys [of k v m] by (auto simp flip: set_map)
qed simp

lemma bm_get_insert: "bm_get (bm_insert k v m) k' = (if k' = k then Some v else bm_get m k')"
  unfolding bm_get_def by (induction k v m rule: bm_insert.induct) auto

lemma bm_sorted_get: "bm_inv m \<Longrightarrow> (k, v) \<in> set m \<Longrightarrow> bm_get m k = Some v"
  unfolding bm_inv_def bm_get_def by (rule map_of_is_SomeI) (simp_all add: strict_sorted_iff)

lemma bm_first_least:
  "bm_inv m \<Longrightarrow> bm_first_from m lo = Some (k, v) \<Longrightarrow> lo \<le> j \<Longrightarrow> j < k \<Longrightarrow> bm_get m j = None"
  unfolding bm_inv_def bm_first_from_def bm_get_def
proof (induction m)
  case (Cons p m)
  obtain a b where p: "p = (a, b)" by force
  show ?case
  proof (cases "lo \<le> a")
    case True
    with Cons.prems have "k = a" by (simp add: p)
    then have "\<forall>x\<in>set (map fst m). k < x" "k = a" using Cons.prems(1) by (simp_all add: p)
    then have "j \<notin> fst ` set m" "j \<noteq> a" using Cons.prems(4) by auto
    then show ?thesis by (simp add: p map_of_eq_None_iff)
  next
    case False
    with Cons show ?thesis by (simp add: p)
  qed
qed simp

interpretation bm: ordered_map bm_get bm_insert bm_first_from bm_inv
proof
  fix m lo k v assume m: "bm_inv m"
  { assume "bm_first_from m lo = Some (k, v)"
    then have "(k, v) \<in> set m \<and> lo \<le> k" by (auto simp: bm_first_from_def find_Some_iff in_set_conv_nth)
    then show "lo \<le> k \<and> bm_get m k = Some v" using bm_sorted_get [OF m] by blast }
  { assume "bm_first_from m lo = None" "lo \<le> k"
    then have "k \<notin> fst ` set m" by (auto simp: bm_first_from_def find_None_iff)
    then show "bm_get m k = None" by (simp add: bm_get_def map_of_eq_None_iff) }
qed (auto simp: bm_get_insert bm_insert_sorted intro: bm_first_least)

section \<open>Nonces as words\<close>

lemma LIMB_MASK_val: "LIMB_MASK = mask 30"
  by (simp add: LIMB_MASK_def LIMB_BITS_def mask_eq_exp_minus_1 push_bit_eq_mult)

lemma nonce_words_masks:
  "nonce_words n = [take_bit 30 n, take_bit 30 (drop_bit 30 n), take_bit 30 (drop_bit 60 n), 0]"
  by (simp add: nonce_words_def LIMB_MASK_val LIMB_BITS_def take_bit_eq_mask)

lemma nonce_words_eqD: "nonce_words a = nonce_words b \<Longrightarrow> a = b"
proof (rule bit_word_eqI)
  fix n assume e: "nonce_words a = nonce_words b" and n: "n < LENGTH(64)"
  have w: "bit (take_bit 30 (drop_bit j a)) m = bit (take_bit 30 (drop_bit j b)) m" if "j \<in> {0, 30, 60}" for j m
    using e that by (auto simp: nonce_words_masks)
  consider "n < 30" | "30 \<le> n" "n < 60" | "60 \<le> n" by linarith
  then show "bit a n = bit b n"
  proof cases
    case 1 then show ?thesis using w [of 0 n] by (simp add: bit_simps)
  next
    case 2
    then have "n - 30 < 30" "n - 30 + 30 = n" by simp_all
    then show ?thesis using w [of 30 "n - 30"] by (simp add: bit_simps)
  next
    case 3
    then have "n - 60 < 30" "n - 60 + 60 = n" using n by simp_all
    then show ?thesis using w [of 60 "n - 60"] by (simp add: bit_simps)
  qed
qed

lemma take30_canon: "canon (take_bit 30 w)" for w :: u64
proof -
  have "uint (take_bit 30 w) < 2 ^ 30" unfolding unsigned_take_bit_eq by (rule take_bit_int_less_exp)
  then show ?thesis by (simp add: canon_uint P31_def)
qed

lemma wf_nonce_words: "wf_state 4 (nonce_words n)"
  by (simp add: wf_state_def nonce_words_masks take30_canon canon_zero)

lemma wf_nonce_domain: "wf_state 4 NONCE_DOMAIN"
  by (simp add: wf_state_def NONCE_DOMAIN_def canon_uint P31_def)

text \<open>Two nonces with one leaf show a collision of the compression under the nonce domain tag.\<close>

lemma nonce_leaf_eq:
  assumes "nonce_leaf a = nonce_leaf b"
  shows "compress_t8 NONCE_DOMAIN (nonce_words a) = compress_t8 NONCE_DOMAIN (nonce_words b)"
  using assms unfolding nonce_leaf_def
  by (intro pack_inj compress_t8_wf wf_nonce_domain wf_nonce_words)

lemma wf_nonce_leaf: "wf_node (nonce_leaf n)"
  unfolding nonce_leaf_def wf_node_def using compress_t8_wf [OF wf_nonce_domain wf_nonce_words] by blast

section \<open>The dense tree\<close>

text \<open>
  The reference: the complete tree over a nonce for every slot. \<open>dense f h i\<close> is the node of height
  \<open>h\<close> and index \<open>i\<close>; its subtree covers the slots \<open>j\<close> with \<open>j div 2 ^ h = i\<close>.
\<close>

fun dense :: "(nat \<Rightarrow> u64) \<Rightarrow> nat \<Rightarrow> nat \<Rightarrow> bytes" where
  "dense f 0 i = nonce_leaf (f i)"
| "dense f (Suc h) i = hash_pair_p2t8 (dense f h (i * 2)) (dense f h (i * 2 + 1))"

fun dense_sibs :: "(nat \<Rightarrow> u64) \<Rightarrow> nat \<Rightarrow> nat \<Rightarrow> nat \<Rightarrow> bytes list" where
  "dense_sibs f h 0 idx = []"
| "dense_sibs f h (Suc n) idx = dense f h (if odd idx then idx - 1 else idx + 1) # dense_sibs f (Suc h) n (idx div 2)"

fun idx_bits :: "nat \<Rightarrow> nat \<Rightarrow> bool list" where
  "idx_bits 0 idx = []"
| "idx_bits (Suc n) idx = odd idx # idx_bits n (idx div 2)"

fun bits_idx :: "bool list \<Rightarrow> nat" where
  "bits_idx [] = 0"
| "bits_idx (b # bs) = (if b then 1 else 0) + 2 * bits_idx bs"

lemma bits_idx_less: "bits_idx bs < 2 ^ length bs"
  by (induction bs) auto

lemma idx_bits_idx [simp]: "idx_bits (length bs) (bits_idx bs) = bs"
  by (induction bs) auto

lemma length_idx_bits [simp]: "length (idx_bits n idx) = n"
  by (induction n arbitrary: idx) auto

lemma length_dense_sibs [simp]: "length (dense_sibs f h n idx) = n"
  by (induction n arbitrary: h idx) auto

lemma div_pow_Suc: "j div 2 ^ Suc h = j div 2 ^ h div 2" for j :: nat
  by (simp only: power_Suc2 div_mult2_eq)

lemma div_child: "j div 2 ^ h = i * 2 + c \<Longrightarrow> c < 2 \<Longrightarrow> j div 2 ^ Suc h = i" for j h i c :: nat
  unfolding div_pow_Suc by simp

lemma dense_cong: "(\<And>j. j div 2 ^ h = i \<Longrightarrow> f j = g j) \<Longrightarrow> dense f h i = dense g h i"
proof (induction h arbitrary: i)
  case (Suc h)
  have "dense f h (i * 2 + c) = dense g h (i * 2 + c)" if "c < 2" for c
    using Suc.prems div_child [OF _ that] by (intro Suc.IH) simp
  from this [of 0] this [of 1] show ?case by simp
qed simp

lemma dense_const: "dense (\<lambda>_. c) h i = dense (\<lambda>_. c) h 0"
proof (induction h arbitrary: i)
  case (Suc h)
  show ?case using Suc.IH [of "i * 2"] Suc.IH [of "i * 2 + 1"] Suc.IH [of 1] by simp
qed simp

lemma dense_zero: "(\<And>j. j div 2 ^ h = i \<Longrightarrow> f j = 0) \<Longrightarrow> dense f h i = dense (\<lambda>_. 0) h 0"
  using dense_cong [of h i f "\<lambda>_. 0"] dense_const [of 0 h i] by simp

lemma wf_dense: "wf_node (dense f h i)"
  by (induction h arbitrary: i) (simp_all add: wf_nonce_leaf wf_node_pair)

lemma fold_dense:
  "fold_path hash_pair_p2t8 (dense f h idx) (dense_sibs f h n idx) (idx_bits n idx) = dense f (h + n) (idx div 2 ^ n)"
proof (induction n arbitrary: h idx)
  case (Suc n)
  have "(if odd idx then hash_pair_p2t8 (dense f h (idx - 1)) (dense f h idx)
      else hash_pair_p2t8 (dense f h idx) (dense f h (idx + 1))) = dense f (Suc h) (idx div 2)"
    by (cases "odd idx") (auto elim!: oddE evenE simp: mult.commute)
  then show ?case using Suc.IH [of "Suc h" "idx div 2"] by (auto simp: div_mult2_eq)
qed simp

text \<open>A sibling path does not depend on the slots below its node.\<close>

lemma dense_sibs_cong:
  "(\<And>j. j div 2 ^ h \<noteq> idx \<Longrightarrow> f j = g j) \<Longrightarrow> dense_sibs f h n idx = dense_sibs g h n idx"
proof (induction n arbitrary: h idx)
  case (Suc n)
  have "dense f h (if odd idx then idx - 1 else idx + 1) = dense g h (if odd idx then idx - 1 else idx + 1)"
    by (rule dense_cong, rule Suc.prems) (auto elim!: oddE)
  moreover have "dense_sibs f (Suc h) n (idx div 2) = dense_sibs g (Suc h) n (idx div 2)"
    by (rule Suc.IH, rule Suc.prems) (auto simp only: div_pow_Suc)
  ultimately show ?case by simp
qed simp

text \<open>The dense tree is the tree \<open>build_tree_p2t8\<close> builds over all the leaves.\<close>

lemma next_level_pairs:
  "next_level H (map g [0..<2 * n]) = map (\<lambda>i. H (g (i * 2)) (g (i * 2 + 1))) [0..<n]"
proof (induction n arbitrary: g)
  case (Suc n)
  have u: "[0..<2 * Suc n] = 0 # 1 # map (\<lambda>i. i + 2) [0..<2 * n]"
    by (rule nth_equalityI) (auto simp: nth_Cons' nth_append)
  have v: "[0..<Suc n] = 0 # map Suc [0..<n]" by (simp add: upt_conv_Cons map_Suc_upt)
  have "next_level H (map g [0..<2 * Suc n]) = H (g 0) (g 1) # next_level H (map (\<lambda>i. g (i + 2)) [0..<2 * n])"
    unfolding u by (simp add: comp_def)
  also have "\<dots> = map (\<lambda>i. H (g (i * 2)) (g (i * 2 + 1))) [0..<Suc n]"
    unfolding Suc.IH v by (simp add: comp_def)
  finally show ?case .
qed simp

lemma last_dense_levels:
  "last (tree_levels hash_pair_p2t8 (map (dense f h) [0..<2 ^ k])) = [dense f (h + k) 0]"
proof (induction k arbitrary: h)
  case 0
  then show ?case by (subst last_tree_levels) simp
next
  case (Suc k)
  have "1 < length (map (dense f h) [0..<2 ^ Suc k])" using one_less_power [of "2 :: nat" "Suc k"] by simp
  moreover have "next_level hash_pair_p2t8 (map (dense f h) [0..<2 ^ Suc k]) = map (dense f (Suc h)) [0..<2 ^ k]"
    using next_level_pairs [of hash_pair_p2t8 "dense f h" "2 ^ k"] by simp
  ultimately show ?case using Suc.IH [of "Suc h"] by (subst last_tree_levels) (simp only: if_True add_Suc add_Suc_right)
qed

section \<open>The invariant\<close>

text \<open>
  Occupied slots are in range and hold nonzero nonces, the slot map is sorted, and the precomputed
  nodes are the roots of the empty subtrees.
\<close>

definition nt_wf :: "NonceTree \<Rightarrow> bool" where
  "nt_wf t \<longleftrightarrow> 0 < depth t \<and> depth t \<le> MAX_DEPTH \<and> bm_inv (slots t)
     \<and> (\<forall>(k, v)\<in>set (slots t). k < 2 ^ depth t \<and> v \<noteq> 0)
     \<and> empties t = map (\<lambda>h. dense (\<lambda>_. 0) h 0) [0..<Suc (depth t)]"

lemma slot_count_val: "slot_count t = 2 ^ depth t"
  by (simp add: slot_count_def push_bit_eq_mult)

lemma empty_roots_dense: "empty_roots d = map (\<lambda>h. dense (\<lambda>_. 0) h 0) [0..<Suc d]"
proof (induction d)
  case (Suc d)
  have "empty_roots (Suc d) = (let below = empty_roots d ! d in empty_roots d @ [hash_pair_p2t8 below below])"
    by (simp add: empty_roots_def)
  also have "empty_roots d ! d = dense (\<lambda>_. 0) d 0" using Suc by (simp del: upt_Suc add: nth_map)
  finally show ?case using Suc dense_const [of 0 d 1] by (simp add: Let_def)
qed (simp add: empty_roots_def)

lemma nt_new_wf: "nt_new d = Inr t \<Longrightarrow> nt_wf t"
  by (auto simp: nt_new_def nt_wf_def empty_roots_dense bm_inv_def split: if_splits)

lemma nt_get_new: "nt_new d = Inr t \<Longrightarrow> nt_get t i = 0 \<and> depth t = d"
  by (auto simp: nt_new_def nt_get_def bm_get_def split: if_splits)

lemma bm_get_slot: "nt_wf t \<Longrightarrow> bm_get (slots t) k \<noteq> None \<longleftrightarrow> nt_get t k \<noteq> 0"
  unfolding nt_wf_def nt_get_def bm_get_def
  by (auto split: option.splits dest: map_of_SomeD)

lemma nt_get_range: "nt_wf t \<Longrightarrow> 2 ^ depth t \<le> k \<Longrightarrow> nt_get t k = 0"
  unfolding nt_wf_def nt_get_def bm_get_def
  by (force split: option.splits dest: map_of_SomeD)

text \<open>\<open>nt_set\<close> is the update of a total map, refused outside the range and without a strict increase.\<close>

lemma nt_set_get:
  assumes "nt_wf t" "nt_set t i n = Inr t'"
  shows "nt_get t' = (nt_get t)(i := n)" "depth t' = depth t" "i < 2 ^ depth t" "nt_get t i < n"
proof -
  have b: "bm_inv (slots t)" using assms(1) by (simp add: nt_wf_def)
  have t': "t' = t\<lparr>slots := bm_insert i n (slots t)\<rparr>" and r: "i < 2 ^ depth t" "nt_get t i < n"
    using assms(2) by (auto simp: nt_set_def slot_count_val Let_def split: if_splits)
  show "nt_get t' = (nt_get t)(i := n)" unfolding t' by (simp add: nt_get_def bm.lookup_ins [OF b] fun_eq_iff)
  show "depth t' = depth t" by (simp add: t')
  show "i < 2 ^ depth t" "nt_get t i < n" using r .
qed

lemma nt_set_Inr_iff: "(\<exists>t'. nt_set t i n = Inr t') \<longleftrightarrow> i < 2 ^ depth t \<and> nt_get t i < n"
  by (auto simp: nt_set_def slot_count_val Let_def)

lemma bm_insert_in: "(a, b) \<in> set (bm_insert k v m) \<Longrightarrow> (a, b) = (k, v) \<or> (a, b) \<in> set m"
  by (induction k v m rule: bm_insert.induct) (auto split: if_splits)

lemma nt_set_wf:
  assumes "nt_wf t" "nt_set t i n = Inr t'"
  shows "nt_wf t'"
proof -
  have b: "bm_inv (slots t)" using assms(1) by (simp add: nt_wf_def)
  have t': "t' = t\<lparr>slots := bm_insert i n (slots t)\<rparr>"
    using assms(2) by (auto simp: nt_set_def Let_def split: if_splits)
  have r: "i < 2 ^ depth t" "n \<noteq> 0" using nt_set_get(3,4) [OF assms] by auto
  have "\<forall>(k, v)\<in>set (slots t'). k < 2 ^ depth t \<and> v \<noteq> 0"
    using assms(1) r by (auto simp: t' nt_wf_def dest!: bm_insert_in)
  with assms(1) bm.ok_ins [OF b, of i n] show ?thesis by (simp add: nt_wf_def t')
qed

section \<open>The sparse tree is the dense tree\<close>

lemma div_range: "j div m = i \<longleftrightarrow> i * m \<le> j \<and> j < i * m + m" if "0 < m" for m j i :: nat
proof
  assume "j div m = i"
  then have "i * m + j mod m = j" by (metis div_mult_mod_eq)
  with mod_less_divisor [OF that, of j] show "i * m \<le> j \<and> j < i * m + m" by linarith
qed (auto intro: div_nat_eqI simp: mult.commute)

lemma nt_node_dense:
  "nt_wf t \<Longrightarrow> h \<le> depth t \<Longrightarrow> i < 2 ^ (depth t - h) \<Longrightarrow> nt_node t h i = dense (nt_get t) h i"
proof (induction h arbitrary: i)
  case (Suc h)
  let ?s = "2 ^ Suc h :: nat"
  have b: "bm_inv (slots t)" and d: "depth t \<le> 28" and e: "empties t ! Suc h = dense (\<lambda>_. 0) (Suc h) 0"
    using Suc.prems by (simp_all add: nt_wf_def MAX_DEPTH_def nth_map del: upt_Suc dense.simps)
  have "i * ?s < 2 ^ (depth t - Suc h) * ?s" using Suc.prems(3) by simp
  also have "2 ^ (depth t - Suc h) * ?s = 2 ^ depth t" using Suc.prems(2) by (metis le_add_diff_inverse2 power_add)
  also have "(2 :: nat) ^ depth t \<le> 2 ^ 28" using d by (intro power_increasing) simp_all
  finally have m: "min (i * ?s) (2 ^ 32 - 1) = i * ?s" by simp
  define Occ where "Occ = (\<exists>k. k div ?s = i \<and> nt_get t k \<noteq> 0)"
  have occ: "(case bm_first_from (slots t) (i * ?s) of Some (k, _) \<Rightarrow> k < i * ?s + ?s | None \<Rightarrow> False)
      \<longleftrightarrow> Occ"
    unfolding Occ_def bm.occupied_iff [OF b] bm_get_slot [OF Suc.prems(1)] using div_range [of ?s _ i] by auto
  have n: "nt_node t (Suc h) i = (if Occ
      then hash_pair_p2t8 (nt_node t h (i * 2)) (nt_node t h (i * 2 + 1)) else dense (\<lambda>_. 0) (Suc h) 0)"
    unfolding nt_node.simps Let_def m occ e by (cases Occ) simp_all
  have p: "(2 :: nat) ^ (depth t - h) = 2 * 2 ^ (depth t - Suc h)"
    using Suc.prems(2) by (simp flip: power_Suc add: Suc_diff_Suc)
  show ?case
  proof (cases Occ)
    case True
    then show ?thesis unfolding n using Suc.IH [of "i * 2"] Suc.IH [of "i * 2 + 1"] Suc.prems p by simp
  next
    case False
    then have "dense (nt_get t) (Suc h) i = dense (\<lambda>_. 0) (Suc h) 0" unfolding Occ_def by (intro dense_zero) blast
    then show ?thesis unfolding n using False by simp
  qed
qed simp

lemma nt_root_dense: "nt_wf t \<Longrightarrow> nt_root t = dense (nt_get t) (depth t) 0"
  by (simp add: nt_root_def nt_node_dense)

lemma proof_loop_dense:
  assumes "nt_wf t"
  shows "h + n = depth t \<Longrightarrow> idx < 2 ^ n \<Longrightarrow>
    proof_loop t [h..<depth t] idx = (dense_sibs (nt_get t) h n idx, idx_bits n idx)"
proof (induction n arbitrary: h idx)
  case (Suc n)
  have u: "[h..<depth t] = h # [Suc h..<depth t]" using Suc.prems by (intro upt_conv_Cons) simp
  let ?sib = "if odd idx then idx - 1 else idx + 1"
  have "?sib < 2 * 2 ^ n" using Suc.prems(2) by (auto elim!: evenE)
  also have "2 * 2 ^ n = (2 :: nat) ^ (depth t - h)" by (simp flip: Suc.prems(1))
  finally have "?sib < 2 ^ (depth t - h)" .
  then have s: "nt_node t h ?sib = dense (nt_get t) h ?sib" using Suc.prems(1) by (intro nt_node_dense [OF assms]) simp_all
  have i: "idx div 2 < 2 ^ n" using Suc.prems(2) by simp
  have l: "proof_loop t [Suc h..<depth t] (idx div 2) = (dense_sibs (nt_get t) (Suc h) n (idx div 2), idx_bits n (idx div 2))"
    using Suc.prems(1) i by (intro Suc.IH) simp_all
  show ?case unfolding u proof_loop.simps l and_one_odd Let_def using s by simp
qed simp

lemma nt_membership_proof_dense:
  "nt_wf t \<Longrightarrow> i < 2 ^ depth t \<Longrightarrow>
   nt_membership_proof t i = Inr (dense_sibs (nt_get t) 0 (depth t) i, idx_bits (depth t) i)"
  by (simp add: nt_membership_proof_def slot_count_val proof_loop_dense)

section \<open>Updates\<close>

lemma apply_update_ok:
  assumes "nt_wf t"
  shows "(\<exists>r. apply_update t (i, n) = Inr r) \<longleftrightarrow> i < 2 ^ depth t \<and> nt_get t i < n"
    "apply_update t (i, n) = Inr (t', tr) \<Longrightarrow> nt_wf t' \<and> depth t' = depth t \<and> nt_get t' = (nt_get t)(i := n)
       \<and> i < 2 ^ depth t \<and> nt_get t i < n
       \<and> tr = \<lparr>tr_index = i, old_nonce = nt_get t i, new_nonce = n, tr_sibs = dense_sibs (nt_get t) 0 (depth t) i,
           tr_bits = idx_bits (depth t) i, pre_root = nt_root t, post_root = nt_root t'\<rparr>"
proof -
  show "(\<exists>r. apply_update t (i, n) = Inr r) \<longleftrightarrow> i < 2 ^ depth t \<and> nt_get t i < n"
  proof (cases "i < 2 ^ depth t")
    case True
    with nt_membership_proof_dense [OF assms True] nt_set_Inr_iff [of t i n] show ?thesis
      by (auto simp: apply_update_def split: sum.splits)
  next
    case False
    then show ?thesis by (simp add: apply_update_def nt_membership_proof_def slot_count_val)
  qed
  assume a: "apply_update t (i, n) = Inr (t', tr)"
  then have i: "i < 2 ^ depth t"
    by (auto simp: apply_update_def nt_membership_proof_def slot_count_val split: if_splits)
  then have "nt_set t i n = Inr t'"
    using a nt_membership_proof_dense [OF assms i] by (auto simp: apply_update_def split: sum.splits)
  from nt_set_wf [OF assms this] nt_set_get [OF assms this] this
  show "nt_wf t' \<and> depth t' = depth t \<and> nt_get t' = (nt_get t)(i := n) \<and> i < 2 ^ depth t \<and> nt_get t i < n
       \<and> tr = \<lparr>tr_index = i, old_nonce = nt_get t i, new_nonce = n, tr_sibs = dense_sibs (nt_get t) 0 (depth t) i,
           tr_bits = idx_bits (depth t) i, pre_root = nt_root t, post_root = nt_root t'\<rparr>"
    using a nt_membership_proof_dense [OF assms i] by (auto simp: apply_update_def)
qed

text \<open>The debug assertion of \<open>apply_updates\<close> holds: an update leaves the sibling path of its slot.\<close>

lemma path_unchanged:
  assumes "nt_wf t" "apply_update t (i, n) = Inr (t', tr)"
  shows "nt_membership_proof t' i = nt_membership_proof t i"
proof -
  note u = apply_update_ok(2) [OF assms]
  then have w: "nt_wf t'" "depth t' = depth t" "nt_get t' = (nt_get t)(i := n)" "i < 2 ^ depth t" by simp_all
  have "dense_sibs ((nt_get t)(i := n)) 0 (depth t) i = dense_sibs (nt_get t) 0 (depth t) i"
    by (rule dense_sibs_cong) simp
  with nt_membership_proof_dense [OF assms(1) w(4)] nt_membership_proof_dense [of t' i] w show ?thesis by simp
qed

text \<open>A whole run over total maps: each nonce must exceed the stored one.\<close>

fun run_updates :: "(nat \<Rightarrow> u64) \<Rightarrow> (nat \<times> u64) list \<Rightarrow> nat \<Rightarrow> (nat \<Rightarrow> u64) option" where
  "run_updates f [] d = Some f"
| "run_updates f ((i, n) # us) d = (if i < 2 ^ d \<and> f i < n then run_updates (f(i := n)) us d else None)"

lemma apply_loop_run:
  "nt_wf t \<Longrightarrow> apply_loop t us = (t', r) \<Longrightarrow>
   nt_wf t' \<and> depth t' = depth t \<and> run_updates (nt_get t) us (depth t) = (case r of Inl e \<Rightarrow> None | Inr trs \<Rightarrow> Some (nt_get t'))"
proof (induction us arbitrary: t t' r)
  case (Cons u us)
  obtain i n where u: "u = (i, n)" by force
  show ?case
  proof (cases "apply_update t u")
    case (Inl e)
    then have "\<not> (i < 2 ^ depth t \<and> nt_get t i < n)" using apply_update_ok(1) [OF Cons.prems(1), of i n] u by auto
    then show ?thesis using Cons.prems Inl by (auto simp: u)
  next
    case (Inr p)
    obtain t1 tr where p: "p = (t1, tr)" by force
    obtain t2 r2 where l: "apply_loop t1 us = (t2, r2)" by force
    note s = apply_update_ok(2) [OF Cons.prems(1) Inr [unfolded p u]]
    have t': "t' = t2" "r = (case r2 of Inl e \<Rightarrow> Inl e | Inr trs \<Rightarrow> Inr (tr # trs))"
      using Cons.prems(2) by (auto simp: Inr p l split: sum.splits)
    have "nt_wf t2 \<and> depth t2 = depth t1 \<and>
        run_updates (nt_get t1) us (depth t1) = (case r2 of Inl e \<Rightarrow> None | Inr trs \<Rightarrow> Some (nt_get t2))"
      by (rule Cons.IH [OF _ l]) (use s in simp)
    with s show ?thesis by (auto simp: t' u split: sum.splits)
  qed
qed simp

text \<open>A run over sorted updates succeeds when they are distinct and exceed the nonces of the start.\<close>

lemma run_updates_sorted:
  "sorted us \<Longrightarrow> run_updates f us d \<noteq> None \<longleftrightarrow> distinct us \<and> (\<forall>(i, n)\<in>set us. i < 2 ^ d \<and> f i < n)"
proof (induction us arbitrary: f)
  case (Cons u us)
  obtain i n where u: "u = (i, n)" by force
  have s: "sorted us" and le: "\<And>m. (i, m) \<in> set us \<Longrightarrow> n \<le> m"
    using Cons.prems by (auto simp: u)
  have "(\<forall>(j, m)\<in>set us. j < 2 ^ d \<and> (f(i := n)) j < m) \<longleftrightarrow>
      (i, n) \<notin> set us \<and> (\<forall>(j, m)\<in>set us. j < 2 ^ d \<and> f j < m)" if "f i < n"
  proof -
    have "(f(i := n)) j < m \<longleftrightarrow> f j < m \<and> (j, m) \<noteq> (i, n)" if "(j, m) \<in> set us" for j m
      using le [of m] that \<open>f i < n\<close> by (cases "j = i") auto
    then show ?thesis by auto
  qed
  note eq = this
  show ?case
  proof (cases "i < 2 ^ d \<and> f i < n")
    case True
    have "run_updates f (u # us) d \<noteq> None \<longleftrightarrow> run_updates (f(i := n)) us d \<noteq> None" using True by (simp add: u)
    also have "\<dots> \<longleftrightarrow> distinct us \<and> (i, n) \<notin> set us \<and> (\<forall>(j, m)\<in>set us. j < 2 ^ d \<and> f j < m)"
      unfolding Cons.IH [OF s] eq [OF conjunct2 [OF True]] ..
    finally show ?thesis using True by (auto simp: u)
  next
    case False
    then have "run_updates f (u # us) d = None" by (auto simp: u)
    moreover have "\<not> (\<forall>(j, m)\<in>set (u # us). j < 2 ^ d \<and> f j < m)" using False by (auto simp: u)
    ultimately show ?thesis by blast
  qed
qed simp

lemma run_updates_value:
  "run_updates f us d = Some g \<Longrightarrow> g i = Max (insert (f i) {n. (i, n) \<in> set us})"
proof (induction us arbitrary: f)
  case (Cons u us)
  obtain j n where u: "u = (j, n)" by force
  have r: "f j < n" "run_updates (f(j := n)) us d = Some g" using Cons.prems by (auto simp: u split: if_splits)
  have fin: "finite {n. (i, n) \<in> set us}" by (rule finite_subset [of _ "snd ` set us"]) force+
  have ih: "g i = Max (insert ((f(j := n)) i) {n. (i, n) \<in> set us})" by (rule Cons.IH [OF r(2)])
  show ?case
  proof (cases "i = j")
    case True
    then have "{m. (i, m) \<in> set (u # us)} = insert n {m. (i, m) \<in> set us}" by (auto simp: u)
    moreover have "Max (insert (f i) (insert n {m. (i, m) \<in> set us})) = max (f i) (Max (insert n {m. (i, m) \<in> set us}))"
      using fin by (intro Max_insert) simp_all
    moreover have "max (f i) (Max (insert n {m. (i, m) \<in> set us})) = Max (insert n {m. (i, m) \<in> set us})"
    proof (rule max_absorb2)
      have "n \<le> Max (insert n {m. (i, m) \<in> set us})" using fin by simp
      moreover have "f i < n" using r(1) True by simp
      ultimately show "f i \<le> Max (insert n {m. (i, m) \<in> set us})" by (rule order.trans [OF less_imp_le, rotated])
    qed
    ultimately show ?thesis using ih True by simp
  next
    case False
    then have "{m. (i, m) \<in> set (u # us)} = {m. (i, m) \<in> set us}" by (auto simp: u)
    then show ?thesis using ih False by simp
  qed
qed simp

section \<open>Chains\<close>

lemma apply_loop_chain:
  "nt_wf t \<Longrightarrow> apply_loop t us = (t', Inr trs) \<Longrightarrow> verify_chain trs (nt_root t) (nt_root t')"
proof (induction us arbitrary: t trs)
  case (Cons u us)
  obtain i n where u: "u = (i, n)" by force
  obtain t1 tr rest where s: "apply_update t (i, n) = Inr (t1, tr)" "apply_loop t1 us = (t', Inr rest)" "trs = tr # rest"
    using Cons.prems(2) by (auto simp: u split: sum.splits prod.splits)
  note a = apply_update_ok(2) [OF Cons.prems(1) s(1)]
  then have w: "nt_wf t1" "depth t1 = depth t" "nt_get t1 = (nt_get t)(i := n)" "i < 2 ^ depth t" "nt_get t i < n"
    and tr: "tr = \<lparr>tr_index = i, old_nonce = nt_get t i, new_nonce = n, tr_sibs = dense_sibs (nt_get t) 0 (depth t) i,
           tr_bits = idx_bits (depth t) i, pre_root = nt_root t, post_root = nt_root t1\<rparr>"
    by simp_all
  have f: "fold_path hash_pair_p2t8 (nonce_leaf (g i)) (dense_sibs g 0 (depth t) i) (idx_bits (depth t) i) = dense g (depth t) 0" for g
    using fold_dense [of g 0 i "depth t"] w(4) by simp
  have sib: "dense_sibs (nt_get t) 0 (depth t) i = dense_sibs (nt_get t1) 0 (depth t) i"
    by (rule dense_sibs_cong) (simp add: w(3))
  have v: "verify_transition tr"
    unfolding verify_transition_def verify_batch_membership_def
    using w f [of "nt_get t"] f [of "nt_get t1", folded sib]
    by (simp add: tr nt_root_dense [OF Cons.prems(1)] nt_root_dense [OF w(1)])
  from Cons.IH [OF w(1) s(2)] v show ?case
    by (cases rest) (auto simp: s(3) verify_chain_def tr split: if_splits)
qed (simp add: verify_chain_def)

text \<open>
  A link that verifies from the root of a dense tree: it is the update of the slot its directions
  address, or its old path and the honest path show a collision, or two nonces share a leaf.
\<close>

definition link_clash :: "(nat \<Rightarrow> u64) \<Rightarrow> NonceTransition \<Rightarrow> bool" where
  "link_clash f tr \<longleftrightarrow>
     (let i = bits_idx (tr_bits tr);
          honest = dense_sibs f 0 (length (tr_bits tr)) i
      in clash hash_pair_p2t8 (path_pairs hash_pair_p2t8 (nonce_leaf (old_nonce tr)) (tr_sibs tr) (tr_bits tr))
           (path_pairs hash_pair_p2t8 (nonce_leaf (f i)) honest (tr_bits tr))
         \<or> old_nonce tr \<noteq> f i \<and> compress_t8 NONCE_DOMAIN (nonce_words (old_nonce tr)) = compress_t8 NONCE_DOMAIN (nonce_words (f i)))"

fun chain_clash :: "(nat \<Rightarrow> u64) \<Rightarrow> NonceTransition list \<Rightarrow> bool" where
  "chain_clash f [] = False"
| "chain_clash f (tr # trs) = (link_clash f tr \<or> chain_clash (f(bits_idx (tr_bits tr) := new_nonce tr)) trs)"

lemma link_sound:
  assumes "verify_transition tr" "pre_root tr = dense f d 0" "length (tr_bits tr) = d" "\<not> link_clash f tr"
  defines "i \<equiv> bits_idx (tr_bits tr)"
  shows "i < 2 ^ d" "f i = old_nonce tr" "f i < new_nonce tr" "post_root tr = dense (f(i := new_nonce tr)) d 0"
proof -
  have v: "old_nonce tr < new_nonce tr" "length (tr_sibs tr) = d"
    "fold_path hash_pair_p2t8 (nonce_leaf (old_nonce tr)) (tr_sibs tr) (tr_bits tr) = dense f d 0"
    "fold_path hash_pair_p2t8 (nonce_leaf (new_nonce tr)) (tr_sibs tr) (tr_bits tr) = post_root tr"
    using assms(1-3) by (auto simp: verify_transition_def verify_batch_membership_def split: if_splits)
  show i: "i < 2 ^ d" unfolding i_def using bits_idx_less [of "tr_bits tr"] assms(3) by simp
  have b: "idx_bits d i = tr_bits tr" using idx_bits_idx [of "tr_bits tr"] assms(3) i_def by simp
  have h: "fold_path hash_pair_p2t8 (nonce_leaf (g i)) (dense_sibs g 0 d i) (tr_bits tr) = dense g d 0" for g
    using fold_dense [of g 0 i d] i b by simp
  have "fold_path hash_pair_p2t8 (nonce_leaf (old_nonce tr)) (tr_sibs tr) (tr_bits tr)
      = fold_path hash_pair_p2t8 (nonce_leaf (f i)) (dense_sibs f 0 d i) (tr_bits tr)"
    using v(3) h by simp
  from fold_path_inj [OF this] v(2) assms(3,4)
  have e: "nonce_leaf (old_nonce tr) = nonce_leaf (f i)" "tr_sibs tr = dense_sibs f 0 d i"
    by (auto simp: link_clash_def Let_def i_def)
  from nonce_leaf_eq [OF e(1)] assms(4) show f: "f i = old_nonce tr" by (auto simp: link_clash_def Let_def i_def)
  with v(1) show "f i < new_nonce tr" by simp
  have "dense_sibs (f(i := new_nonce tr)) 0 d i = dense_sibs f 0 d i" by (rule dense_sibs_cong) simp
  with h [of "f(i := new_nonce tr)"] v(4) e(2) show "post_root tr = dense (f(i := new_nonce tr)) d 0" by simp
qed

lemma verify_chain_Cons:
  "verify_chain (tr # trs) r r' \<longleftrightarrow> pre_root tr = r \<and> verify_transition tr \<and> verify_chain trs (post_root tr) r'"
  by (cases trs) (auto simp: verify_chain_def)

lemma chain_sound:
  "nt_wf t \<Longrightarrow> verify_chain trs (nt_root t) r \<Longrightarrow> \<forall>tr\<in>set trs. length (tr_bits tr) = depth t \<Longrightarrow>
   \<not> chain_clash (nt_get t) trs \<Longrightarrow>
   \<exists>t' trs'. apply_loop t (map (\<lambda>tr. (bits_idx (tr_bits tr), new_nonce tr)) trs) = (t', Inr trs') \<and> nt_root t' = r"
proof (induction trs arbitrary: t)
  case (Cons tr trs)
  let ?i = "bits_idx (tr_bits tr)"
  have v: "verify_transition tr" "pre_root tr = nt_root t" "verify_chain trs (post_root tr) r"
    using Cons.prems(2) by (simp_all add: verify_chain_Cons)
  have p: "pre_root tr = dense (nt_get t) (depth t) 0" using v(2) nt_root_dense [OF Cons.prems(1)] by simp
  have c: "\<not> link_clash (nt_get t) tr" "length (tr_bits tr) = depth t" using Cons.prems(3,4) by simp_all
  note l = link_sound [OF v(1) p c(2,1)]
  obtain t1 tr1 where a: "apply_update t (?i, new_nonce tr) = Inr (t1, tr1)"
    using apply_update_ok(1) [OF Cons.prems(1)] l(1,3) by force
  have w: "nt_wf t1" "depth t1 = depth t" "nt_get t1 = (nt_get t)(?i := new_nonce tr)"
    using apply_update_ok(2) [OF Cons.prems(1) a] by simp_all
  have "nt_root t1 = post_root tr" using l(4) nt_root_dense [OF w(1)] w by simp
  then obtain t' trs' where "apply_loop t1 (map (\<lambda>tr. (bits_idx (tr_bits tr), new_nonce tr)) trs) = (t', Inr trs')" "nt_root t' = r"
    using Cons.IH [OF w(1)] v(3) Cons.prems(3,4) w(2,3) by (auto simp del: fun_upd_apply)
  with a show ?case by auto
qed (simp add: verify_chain_def)

text \<open>The field \<open>index\<close> is not part of what is verified: the slot is the one the directions address.\<close>

lemma verify_transition_index: "verify_transition (tr\<lparr>tr_index := j\<rparr>) = verify_transition tr"
  by (simp add: verify_transition_def)

section \<open>Batches of updates\<close>

definition sender_slot :: "nat \<Rightarrow> bytes \<Rightarrow> nat" where
  "sender_slot d h = unat (u32_from_le [h ! 0, h ! 1, h ! 2, h ! 3] AND (push_bit d 1 - 1))"

lemma slot_index_ok: "0 < d \<Longrightarrow> d \<le> MAX_DEPTH \<Longrightarrow> slot_index h d = Inr (sender_slot d h)"
  by (simp add: slot_index_def sender_slot_def)

lemma sender_slot_less: "d \<le> MAX_DEPTH \<Longrightarrow> sender_slot d h < 2 ^ d"
proof -
  assume "d \<le> MAX_DEPTH"
  then have "push_bit d 1 - 1 = (mask d :: u32)" by (simp add: mask_eq_exp_minus_1 push_bit_eq_mult)
  then have "sender_slot d h = unat (take_bit d (u32_from_le [h ! 0, h ! 1, h ! 2, h ! 3]))"
    by (simp add: sender_slot_def take_bit_eq_mask)
  also have "\<dots> < 2 ^ d" by (simp add: unsigned_take_bit_eq)
  finally show ?thesis .
qed

lemma indexed_updates_ok:
  "0 < d \<Longrightarrow> d \<le> MAX_DEPTH \<Longrightarrow> indexed_updates d us = Inr (map (\<lambda>(h, n). (sender_slot d h, n)) us)"
  unfolding indexed_updates_def collect_results_Inr by (auto simp: slot_index_ok)

lemma apply_updates_run:
  assumes "nt_wf t" "apply_updates t us = (t', r)"
  defines "xs \<equiv> sort (map (\<lambda>(h, n). (sender_slot (depth t) h, n)) us)"
  obtains l where "apply_loop t xs = (t', l)" "r = map_sum id (\<lambda>trs. (nt_root t, nt_root t', trs)) l"
    "nt_wf t'" "depth t' = depth t"
    "run_updates (nt_get t) xs (depth t) = (case l of Inl e \<Rightarrow> None | Inr trs \<Rightarrow> Some (nt_get t'))"
proof -
  obtain t1 l where l: "apply_loop t xs = (t1, l)" by force
  have "t1 = t'" "r = map_sum id (\<lambda>trs. (nt_root t, nt_root t', trs)) l"
    using assms(1,2) l by (auto simp: apply_updates_def indexed_updates_ok nt_wf_def xs_def split: sum.splits)
  with apply_loop_run [OF assms(1) l] l that show thesis by auto
qed

lemma apply_updates_Inr_iff:
  assumes "nt_wf t"
  shows "(\<exists>t' r. apply_updates t us = (t', Inr r)) \<longleftrightarrow>
    distinct (map (\<lambda>(h, n). (sender_slot (depth t) h, n)) us) \<and> (\<forall>(h, n)\<in>set us. nt_get t (sender_slot (depth t) h) < n)"
proof -
  define xs where "xs = map (\<lambda>(h, n). (sender_slot (depth t) h, n)) us"
  obtain t' r where a: "apply_updates t us = (t', r)" by force
  obtain l where l: "r = map_sum id (\<lambda>trs. (nt_root t, nt_root t', trs)) l"
    "run_updates (nt_get t) (sort xs) (depth t) = (case l of Inl e \<Rightarrow> None | Inr trs \<Rightarrow> Some (nt_get t'))"
    by (rule apply_updates_run [OF assms a, folded xs_def])
  have "(\<exists>t' r. apply_updates t us = (t', Inr r)) \<longleftrightarrow> run_updates (nt_get t) (sort xs) (depth t) \<noteq> None"
    unfolding l(2) using a l(1) by (cases l) auto
  also have "\<dots> \<longleftrightarrow> distinct xs \<and> (\<forall>(i, n)\<in>set xs. i < 2 ^ depth t \<and> nt_get t i < n)"
    using run_updates_sorted [of "sort xs" "nt_get t" "depth t"] by simp
  also have "\<dots> \<longleftrightarrow> distinct xs \<and> (\<forall>(h, n)\<in>set us. nt_get t (sender_slot (depth t) h) < n)"
    using sender_slot_less assms by (auto simp: xs_def nt_wf_def)
  finally show ?thesis unfolding xs_def .
qed

lemma apply_updates_value:
  assumes "nt_wf t" "apply_updates t us = (t', Inr r)"
  shows "nt_get t' i = Max (insert (nt_get t i) {n. \<exists>h. (h, n) \<in> set us \<and> sender_slot (depth t) h = i})"
    "nt_wf t'" "depth t' = depth t"
proof -
  obtain l where "apply_loop t (sort (map (\<lambda>(h, n). (sender_slot (depth t) h, n)) us)) = (t', l)" and l: "Inr r = map_sum id (\<lambda>trs. (nt_root t, nt_root t', trs)) l" "nt_wf t'" "depth t' = depth t"
    "run_updates (nt_get t) (sort (map (\<lambda>(h, n). (sender_slot (depth t) h, n)) us)) (depth t)
      = (case l of Inl e \<Rightarrow> None | Inr trs \<Rightarrow> Some (nt_get t'))"
    by (rule apply_updates_run [OF assms])
  then have "run_updates (nt_get t) (sort (map (\<lambda>(h, n). (sender_slot (depth t) h, n)) us)) (depth t) = Some (nt_get t')"
    by (cases l) auto
  from run_updates_value [OF this, of i]
  have "nt_get t' i = Max (insert (nt_get t i) {n. (i, n) \<in> set (map (\<lambda>(h, n). (sender_slot (depth t) h, n)) us)})"
    by simp
  also have "{n. (i, n) \<in> set (map (\<lambda>(h, n). (sender_slot (depth t) h, n)) us)}
      = {n. \<exists>h. (h, n) \<in> set us \<and> sender_slot (depth t) h = i}" by force
  finally show "nt_get t' i = Max (insert (nt_get t i) {n. \<exists>h. (h, n) \<in> set us \<and> sender_slot (depth t) h = i})" .
  show "nt_wf t'" "depth t' = depth t" using l by simp_all
qed

lemma apply_updates_wf: "nt_wf t \<Longrightarrow> apply_updates t us = (t', r) \<Longrightarrow> nt_wf t'"
  by (metis apply_updates_run)

text \<open>The states a caller can reach: every outcome of \<open>apply_updates\<close> leaves a tree, also an error.\<close>

inductive nt_reach :: "NonceTree \<Rightarrow> bool" where
  reach_new: "nt_new d = Inr t \<Longrightarrow> nt_reach t"
| reach_set: "nt_reach t \<Longrightarrow> nt_set t i n = Inr t' \<Longrightarrow> nt_reach t'"
| reach_apply: "nt_reach t \<Longrightarrow> apply_updates t us = (t', r) \<Longrightarrow> nt_reach t'"

lemma reach_wf: "nt_reach t \<Longrightarrow> nt_wf t"
  by (induction rule: nt_reach.induct) (blast intro: nt_new_wf nt_set_wf apply_updates_wf)+

lemma new_tree: "\<exists>t. nt_new 2 = Inr t \<and> depth t = 2 \<and> nt_reach t \<and> (\<forall>i. nt_get t i = 0)"
proof -
  obtain t where t: "nt_new 2 = Inr t" by (simp add: nt_new_def MAX_DEPTH_def)
  with nt_get_new [OF t] reach_new [OF t] show ?thesis by simp
qed

text \<open>A batch used by the examples: slots 1 and 2, slot 1 twice.\<close>

definition batch_ex :: "(bytes \<times> u64) list" where
  "batch_ex = [(1 # replicate 31 0, 9), (2 # replicate 31 7, 4), (1 # replicate 31 0, 5)]"

lemma batch_slots: "map (\<lambda>(h, n). (sender_slot 2 h, n)) batch_ex = [(1, 9), (2, 4), (1, 5)]"
proof -
  have "sender_slot 2 (1 # replicate 31 0) = 1" "sender_slot 2 (2 # replicate 31 7) = 2"
    by (simp_all add: sender_slot_def u32_from_le_def push_bit_eq_mult)
  then show ?thesis by (simp add: batch_ex_def)
qed

lemma batch_applies:
  obtains t t' r0 r1 trs where "nt_new 2 = Inr t" "depth t = 2" "nt_reach t" "nt_wf t" "\<forall>i. nt_get t i = 0"
    "apply_updates t batch_ex = (t', Inr (r0, r1, trs))"
proof -
  obtain t where t: "nt_new 2 = Inr t" "depth t = 2" "nt_reach t" "\<forall>i. nt_get t i = 0" using new_tree by blast
  have "\<exists>t' r. apply_updates t batch_ex = (t', Inr r)"
    unfolding apply_updates_Inr_iff [OF reach_wf [OF t(3)]] t(2) batch_slots by (auto simp: t(4) batch_ex_def)
  then show thesis using that t reach_wf [OF t(3)] by (metis prod_cases3)
qed

section \<open>Properties\<close>

text \<open>
  C11. Every reachable nonce tree is well formed: the slot map is strictly sorted, its keys are in
  range, its nonces nonzero, the depth within bounds, and the cached nodes are the roots of the
  empty subtrees; failed batches keep this too.
\<close>

theorem nonce_tree_invariant: "nt_reach t \<Longrightarrow> nt_wf t"
  by (rule reach_wf)

theorem nonce_tree_invariant_witness:
  "\<exists>t t' r. nt_new 2 = Inr t \<and> apply_updates t batch_ex = (t', Inr r) \<and> nt_wf t'"
proof (rule batch_applies)
  fix t t' r0 r1 trs assume "nt_new 2 = Inr t" "nt_reach t" "apply_updates t batch_ex = (t', Inr (r0, r1, trs))"
  moreover from this(2,3) have "nt_wf t'" by (intro nonce_tree_invariant) (rule reach_apply)
  ultimately show ?thesis by blast
qed

text \<open>
  C12. The sparse tree is exact: the root of a reachable tree is the root \<open>build_tree_p2t8\<close> computes
  over the leaves of all \<open>2^depth\<close> slots.
\<close>

theorem nonce_root_dense:
  assumes "nt_reach t"
  shows "\<exists>lv. build_tree_p2t8 (map (\<lambda>i. nonce_leaf (nt_get t i)) [0..<2 ^ depth t]) = Some lv \<and> last lv = [nt_root t]"
proof -
  let ?leaves = "map (\<lambda>i. nonce_leaf (nt_get t i)) [0..<2 ^ depth t]"
  have "(2 :: nat) ^ depth t AND (2 ^ depth t - 1) = 0"
  proof -
    have "take_bit (depth t) ((2 :: nat) ^ depth t) = 0" by (simp add: take_bit_eq_mod)
    then show ?thesis unfolding take_bit_eq_mask mask_eq_exp_minus_1 .
  qed
  then have "build_tree_p2t8 ?leaves = Some (tree_levels hash_pair_p2t8 ?leaves)" by (simp add: build_tree_p2t8_def)
  moreover have "map (dense (nt_get t) 0) = map (\<lambda>i. nonce_leaf (nt_get t i))" by (simp add: fun_eq_iff)
  ultimately show ?thesis
    using last_dense_levels [of "nt_get t" 0 "depth t"] nt_root_dense [OF reach_wf [OF assms]] by simp
qed

theorem nonce_root_dense_witness:
  "\<exists>t lv. nt_new 2 = Inr t \<and> build_tree_p2t8 (map (\<lambda>i. nonce_leaf (nt_get t i)) [0..<2 ^ 2]) = Some lv \<and> last lv = [nt_root t]"
proof -
  obtain t where t: "nt_new 2 = Inr t" "depth t = 2" "nt_reach t" using new_tree by blast
  from nonce_root_dense [OF t(3)] t show ?thesis by auto
qed

text \<open>
  C13. A batch refines the pointwise maximum: after \<open>apply_updates\<close> succeeds, a slot holds the largest
  of its old nonce and the nonces the batch has for it, and the returned roots are those of the tree
  before and after.
\<close>

theorem apply_updates_refines:
  assumes "nt_reach t" "apply_updates t us = (t', Inr (r0, r1, trs))"
  shows "nt_get t' i = Max (insert (nt_get t i) {n. \<exists>h. (h, n) \<in> set us \<and> slot_index h (depth t) = Inr i})
    \<and> r0 = nt_root t \<and> r1 = nt_root t' \<and> depth t' = depth t"
proof -
  note w = reach_wf [OF assms(1)]
  have s: "slot_index h (depth t) = Inr i \<longleftrightarrow> sender_slot (depth t) h = i" for h
    using slot_index_ok [of "depth t" h] w by (simp add: nt_wf_def)
  have "r0 = nt_root t" "r1 = nt_root t'"
    using assms(2) by (auto simp: apply_updates_def split: sum.splits prod.splits)
  with apply_updates_value [OF w assms(2)] show ?thesis by (simp add: s)
qed

theorem apply_updates_refines_witness:
  "\<exists>t t' r. nt_new 2 = Inr t \<and> apply_updates t batch_ex = (t', Inr r) \<and> nt_get t' 1 = 9"
proof (rule batch_applies)
  fix t t' r0 r1 trs
  assume t: "nt_new 2 = Inr t" "depth t = 2" "nt_reach t" "\<forall>i. nt_get t i = 0" "apply_updates t batch_ex = (t', Inr (r0, r1, trs))"
  have s: "slot_index h 2 = Inr (sender_slot 2 h)" for h by (rule slot_index_ok) (simp_all add: MAX_DEPTH_def)
  have "{n. \<exists>h. (h, n) \<in> set batch_ex \<and> slot_index h 2 = Inr 1} = {n. (1, n) \<in> set (map (\<lambda>(h, n). (sender_slot 2 h, n)) batch_ex)}"
    by (force simp: s)
  also have "\<dots> = {9, 5}" unfolding batch_slots by auto
  finally have "nt_get t' 1 = 9" using apply_updates_refines [OF t(3,5), of 1] t(2,4) by simp
  with t show ?thesis by blast
qed

text \<open>
  C14. \<open>apply_updates\<close> succeeds exactly when the batch repeats no nonce for a slot and every nonce
  exceeds the one its slot holds.
\<close>

theorem apply_updates_succeeds_iff:
  assumes "nt_reach t"
  shows "(\<exists>t' r. apply_updates t us = (t', Inr r)) \<longleftrightarrow>
    distinct (map (\<lambda>(h, n). (slot_index h (depth t), n)) us)
    \<and> (\<forall>h n i. (h, n) \<in> set us \<longrightarrow> slot_index h (depth t) = Inr i \<longrightarrow> nt_get t i < n)"
proof -
  note w = reach_wf [OF assms]
  have s: "slot_index h (depth t) = Inr (sender_slot (depth t) h)" for h
    using slot_index_ok w by (simp add: nt_wf_def)
  have "map (\<lambda>(h, n). (slot_index h (depth t), n)) us
      = map (\<lambda>(i, n). (Inr i, n)) (map (\<lambda>(h, n). (sender_slot (depth t) h, n)) us)"
    by (simp add: s split_def)
  moreover have "inj_on (\<lambda>(i, n). (Inr i :: nonce_error + nat, n :: u64)) X" for X by (auto simp: inj_on_def)
  ultimately have "distinct (map (\<lambda>(h, n). (slot_index h (depth t), n)) us)
      = distinct (map (\<lambda>(h, n). (sender_slot (depth t) h, n)) us)"
    by (simp only: distinct_map [of "\<lambda>(i, n). (Inr i, n)"] simp_thms)
  then show ?thesis unfolding apply_updates_Inr_iff [OF w] by (auto simp: s)
qed

theorem apply_updates_succeeds_iff_witness:
  "\<exists>t. nt_new 2 = Inr t \<and> \<not> (\<exists>t' r. apply_updates t (batch_ex @ batch_ex) = (t', Inr r))"
proof -
  obtain t where t: "nt_new 2 = Inr t" "nt_reach t" using new_tree by blast
  have "\<not> distinct (map (\<lambda>(h, n). (slot_index h (depth t), n)) (batch_ex @ batch_ex))" by (simp add: batch_ex_def)
  with apply_updates_succeeds_iff [OF t(2)] t(1) show ?thesis by blast
qed

text \<open>
  No replay: after a batch succeeded, every batch that contains one of its updates again fails.
\<close>

lemma no_replay:
  assumes "nt_reach t" "apply_updates t us = (t', Inr r)" "u \<in> set us" "u \<in> set vs"
  shows "\<exists>t'' e. apply_updates t' vs = (t'', Inl e)"
proof -
  obtain h n where u: "u = (h, n)" by force
  note w = reach_wf [OF assms(1)] and v = apply_updates_value [OF reach_wf [OF assms(1)] assms(2)]
  let ?i = "sender_slot (depth t) h"
  let ?S = "{n. \<exists>h. (h, n) \<in> set us \<and> sender_slot (depth t) h = ?i}"
  have "finite ?S" by (rule finite_subset [of _ "snd ` set us"]) force+
  then have "n \<le> nt_get t' ?i" unfolding v(1) using assms(3) by (intro Max_ge) (auto simp: u)
  then have "\<not> (\<exists>t'' r. apply_updates t' vs = (t'', Inr r))"
    unfolding apply_updates_Inr_iff [OF v(2)] v(3) using assms(4) by (force simp: u)
  then show ?thesis by (metis obj_sumE surj_pair)
qed

text \<open>
  The order of the batch does not matter: batches with the same updates leave the same tree and
  give the same roots, transitions and error.
\<close>

lemma apply_updates_canonical:
  assumes "nt_reach t" "mset us = mset vs"
  shows "apply_updates t us = apply_updates t vs"
proof -
  have d: "0 < depth t" "depth t \<le> MAX_DEPTH" using reach_wf [OF assms(1)] by (simp_all add: nt_wf_def)
  let ?f = "\<lambda>(h, n). (sender_slot (depth t) h, n)"
  have "mset (map ?f us) = mset (map ?f vs)" using assms(2) by simp
  then have "sort (map ?f us) = sort (map ?f vs)" by (intro properties_for_sort) simp_all
  then show ?thesis by (simp add: apply_updates_def indexed_updates_ok [OF d])
qed

text \<open>
  The transitions of a successful batch verify as a chain from the old root to the new one.
\<close>

lemma apply_updates_chain_verifies:
  assumes "nt_reach t" "apply_updates t us = (t', Inr (r0, r1, trs))"
  shows "verify_chain trs r0 r1"
proof -
  have "\<exists>xs. apply_loop t xs = (t', Inr trs) \<and> r0 = nt_root t \<and> r1 = nt_root t'"
    using assms(2) by (auto simp: apply_updates_def split: sum.splits prod.splits)
  then show ?thesis using apply_loop_chain [OF reach_wf [OF assms(1)]] by blast
qed

text \<open>
  Chains are sound up to collisions: if \<open>verify_chain\<close> accepts transitions with paths of the
  tree's depth from the root of a reachable tree, then the updates they name (the slot addressed by
  the direction bits and the new nonce) are applied by the tree and give the claimed root, unless a
  link shows a collision of the node hash on its path or of the leaf hash.
\<close>

lemma verify_chain_sound:
  assumes "nt_reach t" "verify_chain trs (nt_root t) r" "\<forall>tr\<in>set trs. length (tr_bits tr) = depth t"
  shows "(\<exists>t' trs'. apply_loop t (map (\<lambda>tr. (bits_idx (tr_bits tr), new_nonce tr)) trs) = (t', Inr trs') \<and> nt_root t' = r)
    \<or> chain_clash (nt_get t) trs"
  using chain_sound [OF reach_wf [OF assms(1)] assms(2,3)] by blast

text \<open>
  Membership proofs exist for every slot and verify: the leaf of the stored nonce, under the root.
\<close>

lemma nonce_membership_verifies:
  assumes "nt_reach t" "i < slot_count t"
  shows "\<exists>sibs bits. nt_membership_proof t i = Inr (sibs, bits) \<and> length bits = depth t
    \<and> verify_batch_membership (nt_root t) (nonce_leaf (nt_get t i)) sibs bits"
proof -
  note w = reach_wf [OF assms(1)]
  have i: "i < 2 ^ depth t" using assms(2) by (simp add: slot_count_val)
  show ?thesis
    using nt_membership_proof_dense [OF w i] fold_dense [of "nt_get t" 0 i "depth t"] i nt_root_dense [OF w]
    by (simp add: verify_batch_membership_def)
qed

end
