(* ===== verification/M31_Ext.thy ===== *)
theory M31_Ext
  imports M31_Field
begin

unbundle bit_operations_syntax

text \<open>
  The extension fields of \<open>vfri2_bridge.rs\<close>: \<open>M31\<close> on \<open>u32\<close>, \<open>CM31 = M31(i)\<close> packed in a \<open>u64\<close>, and
  \<open>QM31 = CM31(u)\<close> with \<open>u\<^sup>2 = 2 + i\<close> packed in a \<open>u128\<close>. On canonical words (every component below
  \<open>2^31 - 1\<close>) the operations are those of a field; the type \<open>qf\<close> of canonical \<open>u128\<close> values is
  an instance of the class \<open>field\<close> with them. The names of the \<open>u32\<close> operations carry the suffix
  \<open>32\<close> where \<open>poseidon2.rs\<close> has \<open>u64\<close> operations of the same name.
\<close>

section \<open>Definitions\<close>

definition PR :: u64 where "PR = 2147483647"

definition m31_reduce :: "u64 \<Rightarrow> u32" where
  "m31_reduce x =
     (let r = (x AND PR) + drop_bit 31 x
      in if r \<ge> PR then ucast (r - PR) else ucast r)"

definition m31_add32 :: "u32 \<Rightarrow> u32 \<Rightarrow> u32" where
  "m31_add32 a b = m31_reduce (ucast a + ucast b)"

definition m31_sub32 :: "u32 \<Rightarrow> u32 \<Rightarrow> u32" where
  "m31_sub32 a b =
     (let a = ucast a :: u64; b = ucast b :: u64
      in if a \<ge> b then ucast (a - b) else ucast (a + PR - b))"

definition m31_mul32 :: "u32 \<Rightarrow> u32 \<Rightarrow> u32" where
  "m31_mul32 a b = m31_reduce (ucast a * ucast b)"

function m31_pow_loop :: "u32 \<Rightarrow> u32 \<Rightarrow> u64 \<Rightarrow> u32" where
  "m31_pow_loop r a e =
     (if e > 0
      then let r = (if e AND 1 = 1 then m31_mul32 r a else r);
               a = m31_mul32 a a
           in m31_pow_loop r a (drop_bit 1 e)
      else r)"
  by pat_completeness auto
termination
proof (relation "measure (\<lambda>(r, a, e). unat e)", simp)
  fix r a e ra aa assume "0 < (e :: u64)"
  then have "0 < unat e" by (simp add: unat_gt_0)
  then show "((ra, aa, drop_bit 1 e), r, a, e) \<in> measure (\<lambda>(r, a, e). unat e)"
    by (simp add: drop_bit_eq_div unat_div)
qed

declare m31_pow_loop.simps [simp del]

definition m31_pow :: "u32 \<Rightarrow> u64 \<Rightarrow> u32" where
  "m31_pow a e = m31_pow_loop 1 a e"

definition m31_inv :: "u32 \<Rightarrow> u32" where
  "m31_inv a = m31_pow a (PR - 2)"

definition m31_neg :: "u32 \<Rightarrow> u32" where
  "m31_neg a = (if a = 0 then 0 else ucast PR - a)"

definition cm31_pack :: "u32 \<Rightarrow> u32 \<Rightarrow> u64" where
  "cm31_pack re im = push_bit 32 (ucast re) OR ucast im"

definition cm31_re :: "u64 \<Rightarrow> u32" where "cm31_re x = ucast (drop_bit 32 x)"
definition cm31_im :: "u64 \<Rightarrow> u32" where "cm31_im x = ucast x"

definition cm31_add :: "u64 \<Rightarrow> u64 \<Rightarrow> u64" where
  "cm31_add x y = cm31_pack (m31_add32 (cm31_re x) (cm31_re y)) (m31_add32 (cm31_im x) (cm31_im y))"

definition cm31_sub :: "u64 \<Rightarrow> u64 \<Rightarrow> u64" where
  "cm31_sub x y = cm31_pack (m31_sub32 (cm31_re x) (cm31_re y)) (m31_sub32 (cm31_im x) (cm31_im y))"

definition cm31_mul :: "u64 \<Rightarrow> u64 \<Rightarrow> u64" where
  "cm31_mul x y =
     (let (a, b, c, d) = (cm31_re x, cm31_im x, cm31_re y, cm31_im y)
      in cm31_pack (m31_sub32 (m31_mul32 a c) (m31_mul32 b d)) (m31_add32 (m31_mul32 a d) (m31_mul32 b c)))"

definition cm31_neg :: "u64 \<Rightarrow> u64" where
  "cm31_neg x = cm31_pack (m31_neg (cm31_re x)) (m31_neg (cm31_im x))"

definition cm31_scale :: "u64 \<Rightarrow> u32 \<Rightarrow> u64" where
  "cm31_scale x s = cm31_pack (m31_mul32 (cm31_re x) s) (m31_mul32 (cm31_im x) s)"

definition cm31_inv :: "u64 \<Rightarrow> u64" where
  "cm31_inv x =
     (let (a, b) = (cm31_re x, cm31_im x);
          norm = m31_inv (m31_add32 (m31_mul32 a a) (m31_mul32 b b))
      in cm31_pack (m31_mul32 a norm) (m31_mul32 (m31_neg b) norm))"

definition r_cm31 :: u64 where "r_cm31 = cm31_pack 2 1"

definition qm31_c0 :: "u128 \<Rightarrow> u64" where "qm31_c0 q = ucast (drop_bit 64 q)"
definition qm31_c1 :: "u128 \<Rightarrow> u64" where "qm31_c1 q = ucast q"

definition qm31_pack_c :: "u64 \<Rightarrow> u64 \<Rightarrow> u128" where
  "qm31_pack_c c0 c1 = push_bit 64 (ucast c0) OR ucast c1"

definition qm31_add :: "u128 \<Rightarrow> u128 \<Rightarrow> u128" where
  "qm31_add x y = qm31_pack_c (cm31_add (qm31_c0 x) (qm31_c0 y)) (cm31_add (qm31_c1 x) (qm31_c1 y))"

definition qm31_sub :: "u128 \<Rightarrow> u128 \<Rightarrow> u128" where
  "qm31_sub x y = qm31_pack_c (cm31_sub (qm31_c0 x) (qm31_c0 y)) (cm31_sub (qm31_c1 x) (qm31_c1 y))"

definition qm31_mul :: "u128 \<Rightarrow> u128 \<Rightarrow> u128" where
  "qm31_mul x y =
     (let r = r_cm31;
          (a, b, c, d) = (qm31_c0 x, qm31_c1 x, qm31_c0 y, qm31_c1 y);
          c0 = cm31_add (cm31_mul a c) (cm31_mul r (cm31_mul b d));
          c1 = cm31_add (cm31_mul a d) (cm31_mul b c)
      in qm31_pack_c c0 c1)"

definition qm31_neg :: "u128 \<Rightarrow> u128" where
  "qm31_neg x = qm31_pack_c (cm31_neg (qm31_c0 x)) (cm31_neg (qm31_c1 x))"

definition qm31_scale_m31 :: "u128 \<Rightarrow> u32 \<Rightarrow> u128" where
  "qm31_scale_m31 x s =
     (let c0 = cm31_scale (qm31_c0 x) s;
          c1 = cm31_scale (qm31_c1 x) s
      in qm31_pack_c c0 c1)"

definition qm31_inv :: "u128 \<Rightarrow> u128" where
  "qm31_inv x =
     (let r = r_cm31;
          (a, b) = (qm31_c0 x, qm31_c1 x);
          norm = cm31_sub (cm31_mul a a) (cm31_mul r (cm31_mul b b));
          ni = cm31_inv norm
      in qm31_pack_c (cm31_mul a ni) (cm31_mul (cm31_neg b) ni))"

definition qm31_div :: "u128 \<Rightarrow> u128 \<Rightarrow> u128" where
  "qm31_div x y = qm31_mul x (qm31_inv y)"

definition qm31_from_m31 :: "u32 \<Rightarrow> u128" where
  "qm31_from_m31 v = qm31_pack_c (cm31_pack v 0) 0"

definition qm31_words :: "u128 \<Rightarrow> u32 list" where
  "qm31_words v = [ucast (drop_bit 96 v), ucast (drop_bit 64 v), ucast (drop_bit 32 v), ucast v]"

definition qm31_sub_m31 :: "u128 \<Rightarrow> u32 \<Rightarrow> u128" where
  "qm31_sub_m31 q m = qm31_sub q (qm31_from_m31 m)"

definition qm31_mul_m31 :: "u128 \<Rightarrow> u32 \<Rightarrow> u128" where
  "qm31_mul_m31 q m = qm31_scale_m31 q m"

section \<open>The \<open>u32\<close> operations\<close>

definition canon32 :: "u32 \<Rightarrow> bool" where
  "canon32 a \<longleftrightarrow> uint a < P31"

lemma uint_PR: "uint PR = P31" by (simp add: PR_def P31_def)

lemma PR_M31_P: "PR = M31_P" by (simp add: PR_def M31_P_val)

lemma ucast_up_uint: "uint (ucast a :: u64) = uint a" for a :: u32
  by (rule uint_up_ucast) (simp add: is_up)

lemma ucast_down_uint: "uint x < 2 ^ 32 \<Longrightarrow> uint (ucast x :: u32) = uint x" for x :: u64
  by (simp add: unsigned_ucast_eq take_bit_int_eq_self_iff)

lemma m31_reduce_uint:
  assumes "uint x < P31 * 2 ^ 31"
  shows "uint (m31_reduce x) = uint x mod P31"
proof -
  have f: "uint (let lo = x AND M31_P; hi = drop_bit 31 x; s = lo + hi in if s \<ge> M31_P then s - M31_P else s) = uint x mod P31"
    by (rule fold_u64 [OF assms])
  have "m31_reduce x = ucast (let lo = x AND M31_P; hi = drop_bit 31 x; s = lo + hi in if s \<ge> M31_P then s - M31_P else s)"
    by (simp add: m31_reduce_def PR_M31_P Let_def)
  moreover have "uint x mod P31 < 2 ^ 32" by (rule less_trans [of _ P31]) (simp_all add: P31_def)
  ultimately show ?thesis using f by (simp add: ucast_down_uint)
qed

lemma m31_add32_uint: "uint a < P31 \<Longrightarrow> uint b < P31 \<Longrightarrow> uint (m31_add32 a b) = (uint a + uint b) mod P31"
proof -
  assume ab: "uint a < P31" "uint b < P31"
  have s: "uint (ucast a + ucast b :: u64) = uint a + uint b"
    by (subst uint_add_small) (use ab in \<open>simp_all add: ucast_up_uint P31_def\<close>)
  show ?thesis unfolding m31_add32_def
    by (subst m31_reduce_uint) (use ab in \<open>simp_all add: s P31_def\<close>)
qed

lemma m31_mul32_uint: "uint a < P31 \<Longrightarrow> uint b < P31 \<Longrightarrow> uint (m31_mul32 a b) = (uint a * uint b) mod P31"
proof -
  assume ab: "uint a < P31" "uint b < P31"
  then have p: "uint a * uint b < P31 * 2 ^ 31" by (intro m31_prod_bound) simp_all
  then have s: "uint (ucast a * ucast b :: u64) = uint a * uint b"
    by (subst uint_mult_small) (simp_all add: ucast_up_uint P31_def)
  show ?thesis unfolding m31_mul32_def by (subst m31_reduce_uint) (use p s in simp_all)
qed

lemma m31_sub32_uint: "uint a < P31 \<Longrightarrow> uint b < P31 \<Longrightarrow> uint (m31_sub32 a b) = (uint a - uint b) mod P31"
proof -
  assume ab: "uint a < P31" "uint b < P31"
  have "m31_sub32 a b = ucast (m31_sub (ucast a) (ucast b))"
    by (simp add: m31_sub32_def m31_sub_def PR_M31_P Let_def)
  moreover have "uint (m31_sub (ucast a) (ucast b)) = (uint a - uint b) mod P31"
    using m31_sub_uint [of "ucast a" "ucast b"] ab by (simp only: ucast_up_uint)
  moreover have "(uint a - uint b) mod P31 < 2 ^ 32" by (rule less_trans [of _ P31]) (simp_all add: P31_def)
  ultimately show ?thesis by (simp add: ucast_down_uint)
qed

interpretation m32: m31_ops "uint :: u32 \<Rightarrow> int" m31_add32 m31_sub32 m31_mul32
  by unfold_locales (simp_all add: m31_add32_uint m31_sub32_uint m31_mul32_uint word_uint_eq_iff)

lemma m31_neg_uint: "uint a < P31 \<Longrightarrow> uint (m31_neg a) = (- uint a) mod P31"
proof -
  assume a: "uint a < P31"
  show ?thesis
  proof (cases "a = 0")
    case False
    then have pos: "0 < uint a" by (simp add: uint_0_iff less_le)
    have P: "uint (ucast PR :: u32) = P31" by (simp add: PR_def P31_def)
    have "uint (ucast PR - a) = P31 - uint a" using a by (subst uint_sub_small) (simp_all add: P)
    moreover have "(- uint a) mod P31 = (P31 - uint a) mod P31" by (simp add: mod_simps)
    moreover have "(P31 - uint a) mod P31 = P31 - uint a" using a pos by (intro mod_pos_pos_trivial) simp_all
    ultimately show ?thesis using False by (simp add: m31_neg_def)
  qed (simp add: m31_neg_def)
qed

lemma and_one_word_odd: "(e AND 1 = 1) = odd (unat e)" for e :: u64
  by (simp add: word_unat_eq_iff and_one_eq unat_mod odd_iff_mod_2_eq_one)

lemma m31_pow_loop_uint:
  "uint r < P31 \<Longrightarrow> uint a < P31 \<Longrightarrow> uint (m31_pow_loop r a e) = uint r * uint a ^ unat e mod P31"
proof (induction r a e rule: m31_pow_loop.induct)
  case (1 r a e)
  show ?case
  proof (cases "e > 0")
    case False
    then show ?thesis using 1 by (subst m31_pow_loop.simps) (simp add: word_gt_0)
  next
    case True
    let ?r = "if e AND 1 = 1 then m31_mul32 r a else r"
    have n: "unat (drop_bit 1 e) = unat e div 2" by (simp add: drop_bit_eq_div unat_div)
    note o = and_one_word_odd [of e]
    have r: "uint ?r = uint r * uint a ^ (unat e mod 2) mod P31"
      using "1.prems" by (auto simp: o m31_mul32_uint odd_iff_mod_2_eq_one even_iff_mod_2_eq_zero)
    have a: "uint (m31_mul32 a a) = uint a ^ 2 mod P31" using "1.prems" by (simp add: m31_mul32_uint power2_eq_square)
    have "uint (m31_pow_loop r a e) = uint (m31_pow_loop ?r (m31_mul32 a a) (drop_bit 1 e))"
      using True by (subst m31_pow_loop.simps) (simp add: Let_def)
    also have "\<dots> = uint ?r * uint (m31_mul32 a a) ^ (unat e div 2) mod P31"
      using "1.IH" [OF True refl refl] "1.prems" by (simp add: n [unfolded One_nat_def] m32.closed)
    also have "\<dots> = uint r * (uint a ^ (unat e mod 2) * (uint a ^ 2) ^ (unat e div 2)) mod P31"
      unfolding r a by (metis (no_types) mod_mult_eq mult.assoc power_mod mod_mod_trivial)
    also have "uint a ^ (unat e mod 2) * (uint a ^ 2) ^ (unat e div 2) = uint a ^ unat e"
      by (simp flip: power_mult power_add)
    finally show ?thesis .
  qed
qed

lemma m31_pow_uint: "uint a < P31 \<Longrightarrow> uint (m31_pow a e) = uint a ^ unat e mod P31"
  by (simp add: m31_pow_def m31_pow_loop_uint P31_def)

lemma P31_fermat: "\<not> P31 dvd a \<Longrightarrow> a ^ 2147483646 mod P31 = 1"
  using fermat_little [OF P31_prime, of a, unfolded int_P31] by (simp add: P31_def)

lemma m31_inv_uint: "uint a < P31 \<Longrightarrow> uint (m31_inv a) = uint a ^ 2147483645 mod P31"
  by (simp add: m31_inv_def m31_pow_uint PR_def)

lemma m31_inv_correct: "\<not> P31 dvd a \<Longrightarrow> a * (a ^ 2147483645 mod P31) mod P31 = 1" for a :: int
  using P31_fermat [of a] by (simp add: mod_mult_right_eq flip: power_Suc)

section \<open>Packing\<close>

lemma cm31_re_pack [simp]: "cm31_re (cm31_pack a b) = a"
  unfolding cm31_re_def cm31_pack_def by (rule bit_word_eqI) (auto simp: bit_simps dest: bit_imp_le_length)

lemma cm31_im_pack [simp]: "cm31_im (cm31_pack a b) = b"
  unfolding cm31_im_def cm31_pack_def by (rule bit_word_eqI) (auto simp: bit_simps)

lemma cm31_pack_re_im [simp]: "cm31_pack (cm31_re x) (cm31_im x) = x"
  unfolding cm31_re_def cm31_im_def cm31_pack_def by (rule bit_word_eqI) (auto simp: bit_simps)

lemma qm31_c0_pack [simp]: "qm31_c0 (qm31_pack_c a b) = a"
  unfolding qm31_c0_def qm31_pack_c_def by (rule bit_word_eqI) (auto simp: bit_simps dest: bit_imp_le_length)

lemma qm31_c1_pack [simp]: "qm31_c1 (qm31_pack_c a b) = b"
  unfolding qm31_c1_def qm31_pack_c_def by (rule bit_word_eqI) (auto simp: bit_simps)

lemma qm31_pack_c0_c1 [simp]: "qm31_pack_c (qm31_c0 x) (qm31_c1 x) = x"
  unfolding qm31_c0_def qm31_c1_def qm31_pack_c_def by (rule bit_word_eqI) (auto simp: bit_simps)

lemma qm31_words_parts:
  "qm31_words q = [cm31_re (qm31_c0 q), cm31_im (qm31_c0 q), cm31_re (qm31_c1 q), cm31_im (qm31_c1 q)]"
proof -
  have "ucast (drop_bit 96 q) = cm31_re (qm31_c0 q)" "ucast (drop_bit 64 q) = cm31_im (qm31_c0 q)"
    "ucast (drop_bit 32 q) = cm31_re (qm31_c1 q)" "ucast q = cm31_im (qm31_c1 q)"
    unfolding cm31_re_def cm31_im_def qm31_c0_def qm31_c1_def by (rule bit_word_eqI; auto simp: bit_simps)+
  then show ?thesis by (simp add: qm31_words_def)
qed

lemma cm31_eqI: "cm31_re x = cm31_re y \<Longrightarrow> cm31_im x = cm31_im y \<Longrightarrow> x = y"
  by (metis cm31_pack_re_im)

lemma qm31_eqI: "qm31_c0 x = qm31_c0 y \<Longrightarrow> qm31_c1 x = qm31_c1 y \<Longrightarrow> x = y"
  by (metis qm31_pack_c0_c1)

section \<open>The integers with \<open>i\<close> and \<open>u\<close>\<close>

text \<open>
  The ring \<open>Z[i][u]\<close>, \<open>u\<^sup>2 = 2 + i\<close>: the operations are polynomial in the components, so ring
  identities are proved once over the integers. A canonical \<open>u128\<close> is read as such a value, and the
  operations agree with it modulo \<open>2^31 - 1\<close>.
\<close>

datatype qz = QZ int int int int

instantiation qz :: comm_ring_1
begin

definition zero_qz :: qz where "zero_qz = QZ 0 0 0 0"
definition one_qz :: qz where "one_qz = QZ 1 0 0 0"

fun plus_qz :: "qz \<Rightarrow> qz \<Rightarrow> qz" where
  "plus_qz (QZ a b c d) (QZ a' b' c' d') = QZ (a + a') (b + b') (c + c') (d + d')"

fun minus_qz :: "qz \<Rightarrow> qz \<Rightarrow> qz" where
  "minus_qz (QZ a b c d) (QZ a' b' c' d') = QZ (a - a') (b - b') (c - c') (d - d')"

fun uminus_qz :: "qz \<Rightarrow> qz" where
  "uminus_qz (QZ a b c d) = QZ (- a) (- b) (- c) (- d)"

fun times_qz :: "qz \<Rightarrow> qz \<Rightarrow> qz" where
  "times_qz (QZ a b c d) (QZ a' b' c' d') =
     (let s = c * c' - d * d'; t = c * d' + d * c'
      in QZ (a * a' - b * b' + (2 * s - t)) (a * b' + b * a' + (2 * t + s))
           (a * c' - b * d' + (c * a' - d * b')) (a * d' + b * c' + (c * b' + d * a')))"

instance
proof
  fix a b c :: qz
  show "a + b + c = a + (b + c)" by (cases a; cases b; cases c) simp
  show "a + b = b + a" by (cases a; cases b) simp
  show "0 + a = a" by (cases a) (simp add: zero_qz_def)
  show "- a + a = 0" by (cases a) (simp add: zero_qz_def)
  show "a - b = a + - b" by (cases a; cases b) simp
  show "a * b * c = a * (b * c)" by (cases a; cases b; cases c) (simp add: Let_def algebra_simps)
  show "a * b = b * a" by (cases a; cases b) (simp add: Let_def algebra_simps)
  show "1 * a = a" by (cases a) (simp add: one_qz_def)
  show "(a + b) * c = a * c + b * c" by (cases a; cases b; cases c) (simp add: Let_def algebra_simps)
  show "(0 :: qz) \<noteq> 1" by (simp add: zero_qz_def one_qz_def)
qed

end

definition canon_c :: "u64 \<Rightarrow> bool" where
  "canon_c x \<longleftrightarrow> canon32 (cm31_re x) \<and> canon32 (cm31_im x)"

definition canon_q :: "u128 \<Rightarrow> bool" where
  "canon_q q \<longleftrightarrow> canon_c (qm31_c0 q) \<and> canon_c (qm31_c1 q)"

definition qval :: "u128 \<Rightarrow> qz" where
  "qval q = QZ (uint (cm31_re (qm31_c0 q))) (uint (cm31_im (qm31_c0 q))) (uint (cm31_re (qm31_c1 q))) (uint (cm31_im (qm31_c1 q)))"

fun qmod :: "qz \<Rightarrow> qz" where
  "qmod (QZ a b c d) = QZ (a mod P31) (b mod P31) (c mod P31) (d mod P31)"

lemma qmod_add_multiple: "qmod (x + QZ P31 0 0 0 * k) = qmod x"
  by (cases x; cases k) simp

lemma qmod_decomp: "\<exists>k. qmod x = x + QZ P31 0 0 0 * k"
proof (cases x)
  case (QZ a b c d)
  have "m mod P31 = m + P31 * (- (m div P31))" for m by (simp add: minus_mult_div_eq_mod)
  then have "qmod x = x + QZ P31 0 0 0 * QZ (- (a div P31)) (- (b div P31)) (- (c div P31)) (- (d div P31))"
    unfolding QZ by simp
  then show ?thesis ..
qed

lemma qmod_op:
  assumes "\<And>k. \<exists>l. f (x + QZ P31 0 0 0 * k) = f x + QZ P31 0 0 0 * l"
  shows "qmod (f (qmod x)) = qmod (f x)"
proof -
  obtain k where "qmod x = x + QZ P31 0 0 0 * k" using qmod_decomp by blast
  then show ?thesis using assms [of k] by (auto simp: qmod_add_multiple)
qed

lemma qmod_simps [simp]:
  "qmod (qmod x + y) = qmod (x + y)" "qmod (x + qmod y) = qmod (x + y)"
  "qmod (qmod x - y) = qmod (x - y)" "qmod (x - qmod y) = qmod (x - y)"
  "qmod (- qmod x) = qmod (- x)"
  "qmod (qmod x * y) = qmod (x * y)" "qmod (x * qmod y) = qmod (x * y)"
  "qmod (qmod x) = qmod x"
proof -
  show "qmod (qmod x + y) = qmod (x + y)"
  proof (rule qmod_op [of "\<lambda>x. x + y"])
    fix x' k :: qz
    show "\<exists>l. (\<lambda>x. x + y) (x' + QZ P31 0 0 0 * k) = (\<lambda>x. x + y) x' + QZ P31 0 0 0 * l"
      by (rule exI [of _ "k"]) (simp add: algebra_simps)
  qed
  show "qmod (x + qmod y) = qmod (x + y)"
  proof (rule qmod_op [of "\<lambda>y. x + y"])
    fix x' k :: qz
    show "\<exists>l. (\<lambda>y. x + y) (x' + QZ P31 0 0 0 * k) = (\<lambda>y. x + y) x' + QZ P31 0 0 0 * l"
      by (rule exI [of _ "k"]) (simp add: algebra_simps)
  qed
  show "qmod (qmod x - y) = qmod (x - y)"
  proof (rule qmod_op [of "\<lambda>x. x - y"])
    fix x' k :: qz
    show "\<exists>l. (\<lambda>x. x - y) (x' + QZ P31 0 0 0 * k) = (\<lambda>x. x - y) x' + QZ P31 0 0 0 * l"
      by (rule exI [of _ "k"]) (simp add: algebra_simps)
  qed
  show "qmod (x - qmod y) = qmod (x - y)"
  proof (rule qmod_op [of "\<lambda>y. x - y"])
    fix x' k :: qz
    show "\<exists>l. (\<lambda>y. x - y) (x' + QZ P31 0 0 0 * k) = (\<lambda>y. x - y) x' + QZ P31 0 0 0 * l"
      by (rule exI [of _ "- k"]) (simp add: algebra_simps)
  qed
  show "qmod (- qmod x) = qmod (- x)"
  proof (rule qmod_op [of "uminus"])
    fix x' k :: qz
    show "\<exists>l. (uminus) (x' + QZ P31 0 0 0 * k) = (uminus) x' + QZ P31 0 0 0 * l"
      by (rule exI [of _ "- k"]) (simp add: algebra_simps)
  qed
  show "qmod (qmod x * y) = qmod (x * y)"
  proof (rule qmod_op [of "\<lambda>x. x * y"])
    fix x' k :: qz
    show "\<exists>l. (\<lambda>x. x * y) (x' + QZ P31 0 0 0 * k) = (\<lambda>x. x * y) x' + QZ P31 0 0 0 * l"
      by (rule exI [of _ "k * y"]) (simp add: algebra_simps)
  qed
  show "qmod (x * qmod y) = qmod (x * y)"
  proof (rule qmod_op [of "\<lambda>y. x * y"])
    fix x' k :: qz
    show "\<exists>l. (\<lambda>y. x * y) (x' + QZ P31 0 0 0 * k) = (\<lambda>y. x * y) x' + QZ P31 0 0 0 * l"
      by (rule exI [of _ "x * k"]) (simp add: algebra_simps)
  qed
  show "qmod (qmod x) = qmod x" by (cases x) simp
qed

lemma canon_c_ops:
  assumes "canon_c x" "canon_c y"
  shows "canon_c (cm31_add x y)" "canon_c (cm31_sub x y)" "canon_c (cm31_mul x y)"
  using assms by (simp_all add: canon_c_def canon32_def cm31_add_def cm31_sub_def cm31_mul_def m32.closed)

lemma cm31_uint:
  assumes "canon_c x" "canon_c y"
  shows "uint (cm31_re (cm31_add x y)) = (uint (cm31_re x) + uint (cm31_re y)) mod P31"
    "uint (cm31_im (cm31_add x y)) = (uint (cm31_im x) + uint (cm31_im y)) mod P31"
    "uint (cm31_re (cm31_sub x y)) = (uint (cm31_re x) - uint (cm31_re y)) mod P31"
    "uint (cm31_im (cm31_sub x y)) = (uint (cm31_im x) - uint (cm31_im y)) mod P31"
    "uint (cm31_re (cm31_mul x y)) = (uint (cm31_re x) * uint (cm31_re y) - uint (cm31_im x) * uint (cm31_im y)) mod P31"
    "uint (cm31_im (cm31_mul x y)) = (uint (cm31_re x) * uint (cm31_im y) + uint (cm31_im x) * uint (cm31_re y)) mod P31"
  using assms
  by (simp_all add: canon_c_def canon32_def cm31_add_def cm31_sub_def cm31_mul_def m32.closed
      m31_add32_uint m31_sub32_uint m31_mul32_uint mod_simps)

lemma canon_neg: "canon32 a \<Longrightarrow> canon32 (m31_neg a)"
  by (simp add: canon32_def m31_neg_uint)

lemma canon_inv: "canon32 a \<Longrightarrow> canon32 (m31_inv a)"
  by (simp add: canon32_def m31_inv_uint)

lemma canon_c_neg: "canon_c x \<Longrightarrow> canon_c (cm31_neg x)"
  by (simp add: canon_c_def cm31_neg_def canon_neg)

lemma cm31_neg_uint:
  "canon_c x \<Longrightarrow> uint (cm31_re (cm31_neg x)) = (- uint (cm31_re x)) mod P31"
  "canon_c x \<Longrightarrow> uint (cm31_im (cm31_neg x)) = (- uint (cm31_im x)) mod P31"
  by (simp_all add: canon_c_def canon32_def cm31_neg_def m31_neg_uint)

lemma canon_c_scale: "canon_c x \<Longrightarrow> canon32 s \<Longrightarrow> canon_c (cm31_scale x s)"
  by (simp add: canon_c_def canon32_def cm31_scale_def m32.closed)

lemma cm31_scale_uint:
  "canon_c x \<Longrightarrow> canon32 s \<Longrightarrow> uint (cm31_re (cm31_scale x s)) = uint (cm31_re x) * uint s mod P31"
  "canon_c x \<Longrightarrow> canon32 s \<Longrightarrow> uint (cm31_im (cm31_scale x s)) = uint (cm31_im x) * uint s mod P31"
  by (simp_all add: canon_c_def canon32_def cm31_scale_def m31_mul32_uint)

lemma cm31_inv_facts:
  assumes "canon_c x"
  defines "m \<equiv> (uint (cm31_re x) ^ 2 + uint (cm31_im x) ^ 2) ^ 2147483645 mod P31"
  shows "canon_c (cm31_inv x)" "uint (cm31_re (cm31_inv x)) = uint (cm31_re x) * m mod P31"
    "uint (cm31_im (cm31_inv x)) = - uint (cm31_im x) * m mod P31"
proof -
  let ?a = "uint (cm31_re x)" and ?b = "uint (cm31_im x)"
  let ?n = "m31_inv (m31_add32 (m31_mul32 (cm31_re x) (cm31_re x)) (m31_mul32 (cm31_im x) (cm31_im x)))"
  have c: "?a < P31" "?b < P31" using assms by (simp_all add: canon_c_def canon32_def)
  have n: "uint ?n = m"
    using c by (simp add: m31_inv_uint m32.closed m31_add32_uint m31_mul32_uint m_def power2_eq_square mod_simps)
  have lt: "uint ?n < P31" unfolding n m_def by simp
  have g: "uint (m31_neg (cm31_im x)) = (- ?b) mod P31" "uint (m31_neg (cm31_im x)) < P31"
    using c by (simp_all add: m31_neg_uint)
  show "canon_c (cm31_inv x)"
    using c lt g by (simp add: cm31_inv_def Let_def canon_c_def canon32_def m32.closed)
  show "uint (cm31_re (cm31_inv x)) = ?a * m mod P31" "uint (cm31_im (cm31_inv x)) = - ?b * m mod P31"
    using c lt g n by (simp_all add: cm31_inv_def Let_def m31_mul32_uint mod_simps)
qed

lemma canon_r: "canon_c r_cm31" and r_uint: "uint (cm31_re r_cm31) = 2" "uint (cm31_im r_cm31) = 1"
  by (simp_all add: canon_c_def canon32_def r_cm31_def P31_def)

lemma two_mod:
  "(2 * (s mod P31) - t) mod P31 = (2 * s - t) mod P31" "(2 * (s mod P31) + t) mod P31 = (2 * s + t) mod P31"
  by (metis mod_diff_left_eq mod_mult_right_eq) (metis mod_add_left_eq mod_mult_right_eq)

section \<open>The \<open>u128\<close> operations are those of the ring modulo \<open>2^31 - 1\<close>\<close>

lemma canon_q_ops:
  assumes "canon_q x" "canon_q y"
  shows "canon_q (qm31_add x y)" "canon_q (qm31_sub x y)" "canon_q (qm31_mul x y)"
  using assms by (simp_all add: canon_q_def qm31_add_def qm31_sub_def qm31_mul_def Let_def canon_c_ops canon_r)

lemma canon_q_neg: "canon_q x \<Longrightarrow> canon_q (qm31_neg x)"
  by (simp add: canon_q_def qm31_neg_def canon_c_neg)

lemma canon_q_scale: "canon_q x \<Longrightarrow> canon32 s \<Longrightarrow> canon_q (qm31_scale_m31 x s)"
  by (simp add: canon_q_def qm31_scale_m31_def Let_def canon_c_scale)

lemma canon_q_inv: "canon_q x \<Longrightarrow> canon_q (qm31_inv x)"
  by (simp add: canon_q_def qm31_inv_def Let_def canon_c_ops canon_r cm31_inv_facts canon_c_neg)

lemma canon_q_div: "canon_q x \<Longrightarrow> canon_q y \<Longrightarrow> canon_q (qm31_div x y)"
  by (simp add: qm31_div_def canon_q_ops canon_q_inv)

lemma zero_parts [simp]: "qm31_c0 0 = 0" "qm31_c1 0 = 0" "cm31_re 0 = 0" "cm31_im 0 = 0"
  by (simp_all add: qm31_c0_def qm31_c1_def cm31_re_def cm31_im_def)

lemma canon_q_from: "canon32 v \<Longrightarrow> canon_q (qm31_from_m31 v)"
  by (simp add: canon_q_def qm31_from_m31_def canon_c_def canon32_def P31_def)

lemma canon_q_zero [simp]: "canon_q 0"
  by (simp add: canon_q_def canon_c_def canon32_def P31_def)

lemma qval_ops:
  assumes "canon_q x" "canon_q y"
  shows "qval (qm31_add x y) = qmod (qval x + qval y)" "qval (qm31_sub x y) = qmod (qval x - qval y)"
    "qval (qm31_mul x y) = qmod (qval x * qval y)"
  using assms
  by (simp_all add: canon_q_def qval_def qm31_add_def qm31_sub_def qm31_mul_def Let_def canon_c_ops canon_r cm31_uint
      r_uint mod_simps two_mod del: right_diff_distrib_numeral distrib_left_numeral)

lemma qval_neg: "canon_q x \<Longrightarrow> qval (qm31_neg x) = qmod (- qval x)"
  by (simp add: canon_q_def qval_def qm31_neg_def cm31_neg_uint)

lemma qval_scale: "canon_q x \<Longrightarrow> canon32 s \<Longrightarrow> qval (qm31_scale_m31 x s) = qmod (qval x * QZ (uint s) 0 0 0)"
  by (simp add: canon_q_def qval_def qm31_scale_m31_def Let_def cm31_scale_uint mod_simps)

lemma qval_from: "qval (qm31_from_m31 v) = QZ (uint v) 0 0 0"
  by (simp add: qval_def qm31_from_m31_def)

lemma qval_zero [simp]: "qval 0 = 0"
  by (simp add: qval_def zero_qz_def)

lemma qval_qmod: "canon_q x \<Longrightarrow> qmod (qval x) = qval x"
  by (simp add: qval_def canon_q_def canon_c_def canon32_def)

lemma qval_inj: "qval x = qval y \<Longrightarrow> x = y"
  by (intro qm31_eqI cm31_eqI) (simp_all add: qval_def word_uint_eq_iff)

section \<open>Inverses\<close>

text \<open>\<open>-1\<close> and \<open>5\<close> are not squares modulo \<open>2^31 - 1\<close>, so the norm forms of both extensions vanish only at zero.\<close>

lemma pow_half: "(x ^ 2) ^ 1073741823 = x ^ 2147483646" for x :: int
  by (simp flip: power_mult)

lemma sum_squares_P31:
  assumes "P31 dvd x ^ 2 + y ^ 2"
  shows "P31 dvd x \<and> P31 dvd y"
proof -
  have "P31 dvd x \<or> P31 dvd y"
  proof (rule ccontr)
    assume n: "\<not> (P31 dvd x \<or> P31 dvd y)"
    have "x ^ 2 mod P31 = (- (y ^ 2)) mod P31" using assms by (simp add: mod_eq_dvd_iff)
    then have "(x ^ 2) ^ 1073741823 mod P31 = (- (y ^ 2)) ^ 1073741823 mod P31" by (metis power_mod)
    moreover have "(- (y ^ 2)) ^ 1073741823 = - (y ^ 2147483646)"
    proof -
      have "(- (y ^ 2)) ^ 1073741823 = - ((y ^ 2) ^ 1073741823)" by (rule power_minus_odd) simp
      then show ?thesis unfolding pow_half .
    qed
    ultimately have "x ^ 2147483646 mod P31 = (- (y ^ 2147483646)) mod P31" unfolding pow_half by simp
    moreover have "x ^ 2147483646 mod P31 = 1" "y ^ 2147483646 mod P31 = 1" using n by (simp_all add: P31_fermat)
    ultimately have "1 = (- (1 :: int)) mod P31" by (metis mod_minus_eq)
    then show False by (simp add: P31_def)
  qed
  then show ?thesis
  proof
    assume "P31 dvd x"
    then have "P31 dvd y ^ 2" using assms by (metis dvd_add_right_iff dvd_power zero_less_numeral dvd_trans)
    then show ?thesis using \<open>P31 dvd x\<close> by (simp add: power2_eq_square P31_dvd_mult)
  next
    assume "P31 dvd y"
    then have "P31 dvd x ^ 2" using assms by (metis dvd_add_left_iff dvd_power zero_less_numeral dvd_trans)
    then show ?thesis using \<open>P31 dvd y\<close> by (simp add: power2_eq_square P31_dvd_mult)
  qed
qed

lemma five_power: "5 ^ 1073741823 mod 2147483647 = (2147483646 :: int)"
  unfolding pow_num_mod by simp

lemma five_nonresidue: "5 ^ 1073741823 mod P31 = P31 - 1"
  unfolding P31_def five_power by simp

lemma five_squares_P31:
  assumes "P31 dvd x ^ 2 - 5 * y ^ 2"
  shows "P31 dvd x \<and> P31 dvd y"
proof -
  have y: "P31 dvd y"
  proof (rule ccontr)
    assume n: "\<not> P31 dvd y"
    have "x ^ 2 mod P31 = (5 * y ^ 2) mod P31" using assms by (simp add: mod_eq_dvd_iff)
    then have "(x ^ 2) ^ 1073741823 mod P31 = (5 * y ^ 2) ^ 1073741823 mod P31" by (metis power_mod)
    then have "x ^ 2147483646 mod P31 = 5 ^ 1073741823 * y ^ 2147483646 mod P31"
      by (simp only: pow_half power_mult_distrib)
    also have "\<dots> = (5 ^ 1073741823 mod P31) * (y ^ 2147483646 mod P31) mod P31" by (simp only: mod_mult_eq)
    also have "\<dots> = P31 - 1" unfolding five_nonresidue P31_fermat [OF n] by (simp add: P31_def)
    finally have x: "x ^ 2147483646 mod P31 = P31 - 1" .
    show False
    proof (cases "P31 dvd x")
      case True
      then have "P31 dvd x ^ 2147483646" by (rule dvd_trans) (rule dvd_power, simp)
      then show False using x by (simp add: P31_def)
    next
      case False
      then show False using x P31_fermat [OF False] by (simp add: P31_def)
    qed
  qed
  then have "P31 dvd 5 * y ^ 2" by (simp add: power2_eq_square)
  then have "P31 dvd x ^ 2" using assms by (metis diff_add_cancel dvd_add)
  then show ?thesis using y by (simp add: power2_eq_square P31_dvd_mult)
qed

text \<open>The norm from \<open>Z[i][u]\<close> to \<open>Z[i]\<close>, and to \<open>Z\<close>.\<close>

definition norm_re :: "qz \<Rightarrow> int" where
  "norm_re z = (case z of QZ a b c d \<Rightarrow> a * a - b * b - (2 * (c * c - d * d) - (c * d + d * c)))"

definition norm_im :: "qz \<Rightarrow> int" where
  "norm_im z = (case z of QZ a b c d \<Rightarrow> a * b + b * a - (2 * (c * d + d * c) + (c * c - d * d)))"

lemma norm_P31:
  assumes "P31 dvd norm_re (QZ a b c d) ^ 2 + norm_im (QZ a b c d) ^ 2"
  shows "P31 dvd a \<and> P31 dvd b \<and> P31 dvd c \<and> P31 dvd d"
proof -
  let ?x0 = "a * a - b * b" and ?x1 = "2 * (a * b)"
  let ?y0 = "2 * (c * c - d * d) - 2 * (c * d)" and ?y1 = "4 * (c * d) + (c * c - d * d)"
  have "P31 dvd norm_re (QZ a b c d)" "P31 dvd norm_im (QZ a b c d)" using sum_squares_P31 [OF assms] by simp_all
  then have "P31 dvd ?x0 - ?y0" "P31 dvd ?x1 - ?y1" by (simp_all add: norm_re_def norm_im_def algebra_simps)
  then have "P31 dvd (?x0 - ?y0) * (?x0 + ?y0) + (?x1 - ?y1) * (?x1 + ?y1)" by simp
  also have "(?x0 - ?y0) * (?x0 + ?y0) + (?x1 - ?y1) * (?x1 + ?y1) = (a ^ 2 + b ^ 2) ^ 2 - 5 * (c ^ 2 + d ^ 2) ^ 2"
    by (simp add: algebra_simps power2_eq_square)
  finally have "P31 dvd a ^ 2 + b ^ 2 \<and> P31 dvd c ^ 2 + d ^ 2" by (rule five_squares_P31)
  then show ?thesis using sum_squares_P31 by blast
qed

lemma norm_product:
  "QZ a b c d * (QZ a b (- c) (- d) * QZ (norm_re (QZ a b c d)) (- norm_im (QZ a b c d)) 0 0)
    = QZ (norm_re (QZ a b c d) ^ 2 + norm_im (QZ a b c d) ^ 2) 0 0 0"
proof -
  have "QZ a b c d * QZ a b (- c) (- d) = QZ (norm_re (QZ a b c d)) (norm_im (QZ a b c d)) 0 0"
    by (simp add: norm_re_def norm_im_def Let_def algebra_simps)
  then show ?thesis unfolding mult.assoc [symmetric] by (simp add: power2_eq_square)
qed

definition qc :: "u64 \<Rightarrow> qz" where
  "qc x = QZ (uint (cm31_re x)) (uint (cm31_im x)) 0 0"

lemma qval_qc: "qval (qm31_pack_c a b) = qc a + QZ 0 0 1 0 * qc b"
  by (simp add: qval_def qc_def)

lemma qc_mul: "canon_c x \<Longrightarrow> canon_c y \<Longrightarrow> qc (cm31_mul x y) = qmod (qc x * qc y)"
  by (simp add: qc_def cm31_uint)

lemma qc_neg: "canon_c x \<Longrightarrow> qc (cm31_neg x) = qmod (- qc x)"
  by (simp add: qc_def cm31_neg_uint)

lemma neg_mod_mult: "- (a mod P31) * (b mod P31) mod P31 = - a * b mod P31"
proof -
  have "(- (a mod P31 * (b mod P31))) mod P31 = (- ((a mod P31 * (b mod P31)) mod P31)) mod P31" by (simp only: mod_minus_eq)
  also have "\<dots> = (- (a * b)) mod P31" by (simp only: mod_mult_eq mod_minus_eq)
  finally show ?thesis by simp
qed

lemma squares_pow_mod: "((a mod P31) ^ 2 + (b mod P31) ^ 2) ^ k mod P31 = (a ^ 2 + b ^ 2) ^ k mod P31"
proof -
  have "((a mod P31) ^ 2 + (b mod P31) ^ 2) mod P31 = (a ^ 2 + b ^ 2) mod P31"
    by (intro mod_add_cong power_mod)
  then show ?thesis by (metis power_mod)
qed

lemma qval_inv:
  assumes "canon_q x"
  defines "m \<equiv> (norm_re (qval x) ^ 2 + norm_im (qval x) ^ 2) ^ 2147483645"
  shows "qval (qm31_inv x) = qmod ((case qval x of QZ a b c d \<Rightarrow> QZ a b (- c) (- d))
    * QZ (norm_re (qval x)) (- norm_im (qval x)) 0 0 * QZ m 0 0 0)"
proof -
  let ?a = "qm31_c0 x" and ?b = "qm31_c1 x"
  define nm where "nm = cm31_sub (cm31_mul ?a ?a) (cm31_mul r_cm31 (cm31_mul ?b ?b))"
  have c: "canon_c ?a" "canon_c ?b" using assms by (simp_all add: canon_q_def)
  then have cn: "canon_c nm" by (simp add: nm_def canon_c_ops canon_r)
  have n: "uint (cm31_re nm) = norm_re (qval x) mod P31" "uint (cm31_im nm) = norm_im (qval x) mod P31"
    using c by (simp_all add: nm_def canon_c_ops canon_r cm31_uint r_uint mod_simps two_mod norm_re_def norm_im_def qval_def
      del: right_diff_distrib_numeral distrib_left_numeral) (simp_all only: mult.commute [of "uint (cm31_im ?b)" "uint (cm31_re ?b)"])
  have m: "(uint (cm31_re nm) ^ 2 + uint (cm31_im nm) ^ 2) ^ 2147483645 mod P31 = m mod P31"
    unfolding n m_def by (rule squares_pow_mod)
  have "uint (cm31_re (cm31_inv nm)) = uint (cm31_re nm) * (m mod P31) mod P31"
    "uint (cm31_im (cm31_inv nm)) = - uint (cm31_im nm) * (m mod P31) mod P31"
    by (fact cm31_inv_facts(2,3) [OF cn, unfolded m])+
  then have i: "canon_c (cm31_inv nm)" "uint (cm31_re (cm31_inv nm)) = norm_re (qval x) * m mod P31"
    "uint (cm31_im (cm31_inv nm)) = - norm_im (qval x) * m mod P31"
    using cm31_inv_facts(1) [OF cn] unfolding n by (simp_all only: neg_mod_mult mod_mult_eq)
  have "qm31_inv x = qm31_pack_c (cm31_mul ?a (cm31_inv nm)) (cm31_mul (cm31_neg ?b) (cm31_inv nm))"
    by (simp add: qm31_inv_def nm_def Let_def)
  then have "qval (qm31_inv x) = qc (cm31_mul ?a (cm31_inv nm)) + QZ 0 0 1 0 * qc (cm31_mul (cm31_neg ?b) (cm31_inv nm))"
    by (simp add: qval_qc)
  also have "\<dots> = qmod (qc ?a * qc (cm31_inv nm)) + QZ 0 0 1 0 * qmod (qmod (- qc ?b) * qc (cm31_inv nm))"
    using c i(1) by (simp only: qc_mul qc_neg canon_c_neg)
  finally have "qval (qm31_inv x) = qmod (qc ?a * qc (cm31_inv nm) + QZ 0 0 1 0 * (- qc ?b * qc (cm31_inv nm)))"
    using qval_qmod [OF canon_q_inv [OF assms(1)]] by (metis qmod_simps(1,2,6,7))
  also have "qc ?a * qc (cm31_inv nm) + QZ 0 0 1 0 * (- qc ?b * qc (cm31_inv nm)) = (qc ?a + QZ 0 0 1 0 * - qc ?b) * qc (cm31_inv nm)"
    by (simp only: algebra_simps)
  also have "qc ?a + QZ 0 0 1 0 * - qc ?b = (case qval x of QZ a b c d \<Rightarrow> QZ a b (- c) (- d))"
    by (simp add: qval_def qc_def)
  also have "qc (cm31_inv nm) = qmod (QZ (norm_re (qval x)) (- norm_im (qval x)) 0 0 * QZ m 0 0 0)"
    unfolding qc_def i by simp
  finally show ?thesis by (simp only: qmod_simps mult.assoc)
qed

lemma qval_one: "qval (qm31_from_m31 1) = 1"
  by (simp add: qval_from one_qz_def)

lemma qm31_mul_inv:
  assumes "canon_q x" "x \<noteq> 0"
  shows "qm31_mul x (qm31_inv x) = qm31_from_m31 1"
proof (rule qval_inj)
  obtain a b c d where z: "qval x = QZ a b c d" by (cases "qval x")
  have m: "a mod P31 = a" "b mod P31 = b" "c mod P31 = c" "d mod P31 = d"
    using qval_qmod [OF assms(1)] by (simp_all add: z)
  define n where "n = norm_re (QZ a b c d) ^ 2 + norm_im (QZ a b c d) ^ 2"
  have "\<not> P31 dvd n"
  proof
    assume "P31 dvd n"
    then have "P31 dvd a \<and> P31 dvd b \<and> P31 dvd c \<and> P31 dvd d" unfolding n_def by (rule norm_P31)
    then have "QZ a b c d = 0" using m by (simp add: zero_qz_def mod_eq_0_iff_dvd)
    then have "qval x = qval 0" by (simp add: z)
    then show False using assms(2) qval_inj by blast
  qed
  then have one: "n ^ 2147483646 mod P31 = 1" by (rule P31_fermat)
  have "qval (qm31_mul x (qm31_inv x)) = qmod (QZ a b c d * (QZ a b (- c) (- d)
      * QZ (norm_re (QZ a b c d)) (- norm_im (QZ a b c d)) 0 0 * QZ (n ^ 2147483645) 0 0 0))"
    unfolding qval_ops(3) [OF assms(1) canon_q_inv [OF assms(1)]] qval_inv [OF assms(1)] z qz.case n_def
    by (simp only: qmod_simps)
  also have "\<dots> = qmod (QZ n 0 0 0 * QZ (n ^ 2147483645) 0 0 0)"
    unfolding n_def norm_product [symmetric] by (simp only: mult.assoc)
  also have "\<dots> = QZ (n ^ 2147483646 mod P31) 0 0 0" by (simp flip: power_Suc)
  finally show "qval (qm31_mul x (qm31_inv x)) = qval (qm31_from_m31 1)" unfolding one qval_one by (simp add: one_qz_def)
qed

lemma qm31_inv_zero: "qm31_inv 0 = 0"
proof (rule qval_inj)
  have "qval (qm31_inv 0) = qmod (QZ 0 0 0 0)"
    by (simp add: qval_inv norm_re_def norm_im_def zero_qz_def zero_power)
  then show "qval (qm31_inv 0) = qval 0" by (simp add: zero_qz_def)
qed

section \<open>Canonical values form a field\<close>

typedef qf = "{q. canon_q q}"
  by (rule exI [of _ 0]) simp

setup_lifting type_definition_qf

instantiation qf :: field
begin

lift_definition zero_qf :: qf is 0 by simp
lift_definition one_qf :: qf is "qm31_from_m31 1" by (rule canon_q_from) (simp add: canon32_def P31_def)
lift_definition plus_qf :: "qf \<Rightarrow> qf \<Rightarrow> qf" is qm31_add by (rule canon_q_ops)
lift_definition minus_qf :: "qf \<Rightarrow> qf \<Rightarrow> qf" is qm31_sub by (rule canon_q_ops)
lift_definition uminus_qf :: "qf \<Rightarrow> qf" is qm31_neg by (rule canon_q_neg)
lift_definition times_qf :: "qf \<Rightarrow> qf \<Rightarrow> qf" is qm31_mul by (rule canon_q_ops)
lift_definition inverse_qf :: "qf \<Rightarrow> qf" is qm31_inv by (rule canon_q_inv)
lift_definition divide_qf :: "qf \<Rightarrow> qf \<Rightarrow> qf" is qm31_div by (rule canon_q_div)

instance
proof
  fix a b c :: qf
  show "a * b * c = a * (b * c)"
    by transfer (rule qval_inj, simp add: qval_ops canon_q_ops mult.assoc)
  show "a * b = b * a"
    by transfer (rule qval_inj, simp add: qval_ops canon_q_ops mult.commute)
  show "1 * a = a"
    by transfer (rule qval_inj, simp add: qval_ops canon_q_from canon32_def P31_def qval_one qval_qmod)
  show "a + b + c = a + (b + c)"
    by transfer (rule qval_inj, simp add: qval_ops canon_q_ops add.assoc)
  show "a + b = b + a"
    by transfer (rule qval_inj, simp add: qval_ops canon_q_ops add.commute)
  show "0 + a = a"
    by transfer (rule qval_inj, simp add: qval_ops qval_qmod)
  show "- a + a = 0"
  proof transfer
    fix x assume "canon_q x"
    moreover have "qmod (- qval x + qval x) = qval 0" by (simp add: zero_qz_def)
    ultimately show "qm31_add (qm31_neg x) x = 0" by (intro qval_inj) (simp add: qval_ops qval_neg canon_q_neg)
  qed
  show "a - b = a + - b"
    by transfer (rule qval_inj, simp add: qval_ops qval_neg canon_q_neg)
  show "(a + b) * c = a * c + b * c"
    by transfer (rule qval_inj, simp add: qval_ops canon_q_ops distrib_right)
  show "(0 :: qf) \<noteq> 1"
  proof transfer
    show "0 \<noteq> qm31_from_m31 1" by (metis qval_one qval_zero zero_neq_one)
  qed
  show "a \<noteq> 0 \<Longrightarrow> inverse a * a = 1"
  proof transfer
    fix x assume "canon_q x" "x \<noteq> 0"
    then have "qm31_mul (qm31_inv x) x = qm31_mul x (qm31_inv x)"
      by (intro qval_inj) (simp add: qval_ops canon_q_inv mult.commute)
    with \<open>canon_q x\<close> \<open>x \<noteq> 0\<close> show "qm31_mul (qm31_inv x) x = qm31_from_m31 1" by (simp add: qm31_mul_inv)
  qed
  show "a div b = a * inverse b" by transfer (simp add: qm31_div_def)
  show "inverse (0 :: qf) = 0" by transfer (rule qm31_inv_zero)
qed

end

text \<open>
  Readings in the field: \<open>fq\<close> of a \<open>u128\<close>, \<open>fm\<close> of a \<open>u32\<close>. On canonical words they turn the operations
  of the code into those of the field.
\<close>

definition fq :: "u128 \<Rightarrow> qf" where "fq q = Abs_qf q"
definition fm :: "u32 \<Rightarrow> qf" where "fm v = fq (qm31_from_m31 v)"

lemma fq_inj: "canon_q x \<Longrightarrow> canon_q y \<Longrightarrow> fq x = fq y \<longleftrightarrow> x = y"
  by (simp add: fq_def Abs_qf_inject)

lemma fq_ops:
  assumes "canon_q x" "canon_q y"
  shows "fq (qm31_add x y) = fq x + fq y" "fq (qm31_sub x y) = fq x - fq y" "fq (qm31_mul x y) = fq x * fq y"
    "fq (qm31_div x y) = fq x / fq y"
  using assms by (simp_all add: fq_def plus_qf.abs_eq minus_qf.abs_eq times_qf.abs_eq divide_qf.abs_eq eq_onp_def)

lemma fq_neg: "canon_q x \<Longrightarrow> fq (qm31_neg x) = - fq x"
  by (simp add: fq_def uminus_qf.abs_eq eq_onp_def)

lemma fq_inv: "canon_q x \<Longrightarrow> fq (qm31_inv x) = inverse (fq x)"
  by (simp add: fq_def inverse_qf.abs_eq eq_onp_def)

lemma fq_0 [simp]: "fq 0 = 0"
  by (simp add: fq_def zero_qf_def)

lemma fq_eq_0: "canon_q x \<Longrightarrow> fq x = 0 \<longleftrightarrow> x = 0"
  using fq_inj [of x 0] by simp

lemma fq_surj: "\<exists>x. canon_q x \<and> fq x = a"
  by (cases a) (auto simp: fq_def)

lemma fm_0 [simp]: "fm 0 = 0"
proof -
  have "qm31_from_m31 0 = 0" by (rule qval_inj) (simp add: qval_from zero_qz_def)
  then show ?thesis by (simp add: fm_def)
qed

lemma fm_1 [simp]: "fm 1 = 1"
  by (simp add: fm_def fq_def one_qf_def)

lemma canon32_01 [simp]: "canon32 0" "canon32 1"
  by (simp_all add: canon32_def P31_def)

lemma canon32_ops:
  assumes "canon32 a" "canon32 b"
  shows "canon32 (m31_add32 a b)" "canon32 (m31_sub32 a b)" "canon32 (m31_mul32 a b)"
  using assms by (simp_all add: canon32_def m32.closed)

lemma fm_inj: "canon32 a \<Longrightarrow> canon32 b \<Longrightarrow> fm a = fm b \<longleftrightarrow> a = b"
proof -
  assume c: "canon32 a" "canon32 b"
  have "qm31_from_m31 a = qm31_from_m31 b \<longleftrightarrow> a = b"
    by (metis qval_from qz.inject word_uint_eq_iff)
  then show ?thesis by (simp add: fm_def fq_inj canon_q_from c)
qed

lemma fm_eq_0: "canon32 a \<Longrightarrow> fm a = 0 \<longleftrightarrow> a = 0"
  using fm_inj [of a 0] by simp

lemma from_ops:
  assumes "canon32 a" "canon32 b"
  shows "qm31_from_m31 (m31_add32 a b) = qm31_add (qm31_from_m31 a) (qm31_from_m31 b)"
    "qm31_from_m31 (m31_sub32 a b) = qm31_sub (qm31_from_m31 a) (qm31_from_m31 b)"
    "qm31_from_m31 (m31_mul32 a b) = qm31_mul (qm31_from_m31 a) (qm31_from_m31 b)"
proof -
  note v = qval_ops [OF canon_q_from [OF assms(1)] canon_q_from [OF assms(2)]]
  have u: "uint a < P31" "uint b < P31" using assms by (simp_all add: canon32_def)
  show "qm31_from_m31 (m31_add32 a b) = qm31_add (qm31_from_m31 a) (qm31_from_m31 b)"
    "qm31_from_m31 (m31_sub32 a b) = qm31_sub (qm31_from_m31 a) (qm31_from_m31 b)"
    "qm31_from_m31 (m31_mul32 a b) = qm31_mul (qm31_from_m31 a) (qm31_from_m31 b)"
    by (rule qval_inj, unfold v, simp add: qval_from m31_add32_uint m31_sub32_uint m31_mul32_uint u)+
qed

lemma fm_ops:
  assumes "canon32 a" "canon32 b"
  shows "fm (m31_add32 a b) = fm a + fm b" "fm (m31_sub32 a b) = fm a - fm b" "fm (m31_mul32 a b) = fm a * fm b"
  using assms by (simp_all add: fm_def from_ops fq_ops canon_q_from)

lemma fm_neg: "canon32 a \<Longrightarrow> fm (m31_neg a) = - fm a"
proof -
  assume c: "canon32 a"
  have "qm31_from_m31 (m31_neg a) = qm31_neg (qm31_from_m31 a)"
    by (rule qval_inj) (use c in \<open>simp add: qval_neg canon_q_from qval_from m31_neg_uint canon32_def\<close>)
  then show ?thesis by (simp add: fm_def fq_neg canon_q_from c)
qed

lemma fm_inv: "canon32 a \<Longrightarrow> fm (m31_inv a) = inverse (fm a)"
proof (cases "a = 0")
  case True
  have "m31_inv 0 = 0" by (simp add: word_uint_eq_iff m31_inv_uint P31_def zero_power)
  with True show ?thesis by simp
next
  case False
  assume c: "canon32 a"
  then have "\<not> P31 dvd uint a"
    using False zdvd_imp_le [of P31 "uint a"] by (auto simp: canon32_def uint_0_iff less_le)
  then have "m31_mul32 a (m31_inv a) = 1"
    using c m31_inv_correct [of "uint a"]
    by (simp add: word_uint_eq_iff m31_mul32_uint m31_inv_uint canon32_def)
  then have "fm a * fm (m31_inv a) = 1" using c fm_ops(3) [of a "m31_inv a"] by (simp add: canon_inv)
  then show ?thesis by (rule inverse_unique [symmetric])
qed

lemma fq_scale: "canon_q x \<Longrightarrow> canon32 s \<Longrightarrow> fq (qm31_scale_m31 x s) = fq x * fm s"
proof -
  assume c: "canon_q x" "canon32 s"
  have "qm31_scale_m31 x s = qm31_mul x (qm31_from_m31 s)"
    by (rule qval_inj) (use c in \<open>simp add: qval_ops canon_q_from qval_scale qval_from\<close>)
  then show ?thesis using c by (simp add: fq_ops canon_q_from fm_def)
qed

lemma fq_mul_m31: "canon_q x \<Longrightarrow> canon32 s \<Longrightarrow> fq (qm31_mul_m31 x s) = fq x * fm s"
  by (simp add: qm31_mul_m31_def fq_scale)

lemma fq_sub_m31: "canon_q x \<Longrightarrow> canon32 s \<Longrightarrow> fq (qm31_sub_m31 x s) = fq x - fm s"
  by (simp add: qm31_sub_m31_def fq_ops canon_q_from fm_def)

lemma canon_q_m31: "canon_q x \<Longrightarrow> canon32 s \<Longrightarrow> canon_q (qm31_mul_m31 x s)" "canon_q x \<Longrightarrow> canon32 s \<Longrightarrow> canon_q (qm31_sub_m31 x s)"
  by (simp_all add: qm31_mul_m31_def qm31_sub_m31_def canon_q_scale canon_q_ops canon_q_from)

lemmas canon_intros = canon_q_ops canon_q_neg canon_q_scale canon_q_inv canon_q_div canon_q_from canon_q_zero canon_q_m31
  canon32_ops canon_neg canon_inv canon32_01

lemmas field_reading = fq_ops fq_neg fq_inv fq_scale fq_mul_m31 fq_sub_m31 fm_ops fm_neg fm_inv

text \<open>The unit \<open>i\<close>.\<close>

definition qi :: u128 where "qi = qm31_pack_c (cm31_pack 0 1) 0"

lemma canon_qi: "canon_q qi"
  by (simp add: canon_q_def qi_def canon_c_def canon32_def P31_def)

lemma fq_qi: "fq qi * fq qi = - 1"
proof -
  have "qm31_mul qi qi = qm31_neg (qm31_from_m31 1)"
    by (rule qval_inj) (simp add: qval_ops qval_neg canon_qi canon_q_from qval_from, simp add: qval_def qi_def)
  then have "fq (qm31_mul qi qi) = fq (qm31_neg (qm31_from_m31 1))" by simp
  then show ?thesis by (simp add: fq_ops fq_neg canon_qi canon_q_from flip: fm_def)
qed

text \<open>A complex number is determined by its components.\<close>

lemma complex_inj:
  assumes "canon32 a" "canon32 b" "canon32 c" "canon32 d" "fm a + fq qi * fm b = fm c + fq qi * fm d"
  shows "a = c \<and> b = d"
proof -
  have v: "qval (qm31_add (qm31_from_m31 x) (qm31_mul qi (qm31_from_m31 y))) = QZ (uint x) (uint y) 0 0"
    if "canon32 x" "canon32 y" for x y
    using that by (simp add: qval_ops canon_intros canon_qi qval_from, simp add: qval_def qi_def canon32_def)
  have "fq (qm31_add (qm31_from_m31 x) (qm31_mul qi (qm31_from_m31 y))) = fm x + fq qi * fm y"
    if "canon32 x" "canon32 y" for x y
    using that by (simp add: fq_ops canon_intros canon_qi fm_def)
  with assms have "qm31_add (qm31_from_m31 a) (qm31_mul qi (qm31_from_m31 b)) = qm31_add (qm31_from_m31 c) (qm31_mul qi (qm31_from_m31 d))"
    by (subst fq_inj [symmetric]) (simp_all add: canon_intros canon_qi)
  with v assms show ?thesis by (metis qz.inject word_uint_eq_iff)
qed

section \<open>Properties\<close>

text \<open>
  On canonical words the operations of \<open>QM31\<close> are those of a field: they return canonical words,
  addition and multiplication are commutative and associative, multiplication distributes, and
  \<open>qm31_inv\<close> and \<open>qm31_div\<close> invert multiplication by every value but zero.
\<close>

lemma qm31_field_laws:
  assumes "canon_q x" "canon_q y" "canon_q z"
  shows "(canon_q (qm31_add x y) \<and> canon_q (qm31_sub x y) \<and> canon_q (qm31_mul x y) \<and> canon_q (qm31_inv x))
    \<and> (qm31_add x y = qm31_add y x \<and> qm31_add (qm31_add x y) z = qm31_add x (qm31_add y z) \<and> qm31_add (qm31_sub x y) y = x)
    \<and> (qm31_mul x y = qm31_mul y x \<and> qm31_mul (qm31_mul x y) z = qm31_mul x (qm31_mul y z))
    \<and> qm31_mul x (qm31_add y z) = qm31_add (qm31_mul x y) (qm31_mul x z)
    \<and> (y \<noteq> 0 \<longrightarrow> qm31_mul y (qm31_inv y) = qm31_from_m31 1 \<and> qm31_mul (qm31_div x y) y = x)"
proof -
  note c = assms canon_q_ops [OF assms(1,2)] canon_q_ops [OF assms(2,3)] canon_q_ops [OF assms(1,3)]
    canon_q_inv canon_q_div canon_q_ops
  have s: "canon_q (qm31_add x y) \<and> canon_q (qm31_sub x y) \<and> canon_q (qm31_mul x y) \<and> canon_q (qm31_inv x)"
    using c by simp
  have eq: "a = b" if "fq a = fq b" "canon_q a" "canon_q b" for a b using that fq_inj by blast
  have a: "qm31_add x y = qm31_add y x \<and> qm31_add (qm31_add x y) z = qm31_add x (qm31_add y z) \<and> qm31_add (qm31_sub x y) y = x"
    by (intro conjI eq) (use c in \<open>simp_all add: fq_ops algebra_simps\<close>)
  have m: "qm31_mul x y = qm31_mul y x \<and> qm31_mul (qm31_mul x y) z = qm31_mul x (qm31_mul y z)"
    by (intro conjI eq) (use c in \<open>simp_all add: fq_ops algebra_simps\<close>)
  have d: "qm31_mul x (qm31_add y z) = qm31_add (qm31_mul x y) (qm31_mul x z)"
    by (intro eq) (use c in \<open>simp_all add: fq_ops algebra_simps\<close>)
  have i: "qm31_mul y (qm31_inv y) = qm31_from_m31 1 \<and> qm31_mul (qm31_div x y) y = x" if "y \<noteq> 0"
  proof -
    have "fq y \<noteq> 0" using assms(2) that by (simp add: fq_eq_0)
    then have "qm31_mul (qm31_div x y) y = x" by (intro eq) (use c in \<open>simp_all add: fq_ops\<close>)
    with qm31_mul_inv [OF assms(2) that] show ?thesis by blast
  qed
  from s a m d i show ?thesis by blast
qed

end
