(* ===== verification/Circle_Fold.thy ===== *)
theory Circle_Fold
  imports M31_Ext
begin

unbundle bit_operations_syntax

text \<open>
  The circle group and the folds of \<open>vfri2_bridge.rs\<close>: points of the circle over \<open>M31\<close>, the coset of
  a domain, the circle and line folds of FRI and their twiddles. A point \<open>(x, y)\<close> is read as the
  complex number \<open>x + i y\<close> of the field \<open>qf\<close>; then the group operation is multiplication.
\<close>

section \<open>Definitions\<close>

definition LOG_ORDER :: nat where "LOG_ORDER = 31"
definition GEN_X :: u32 where "GEN_X = 2"
definition GEN_Y :: u32 where "GEN_Y = 1268011823"

definition circle_add :: "u32 \<Rightarrow> u32 \<Rightarrow> u32 \<Rightarrow> u32 \<Rightarrow> u32 \<times> u32" where
  "circle_add x1 y1 x2 y2 =
     (let nx = m31_sub32 (m31_mul32 x1 x2) (m31_mul32 y1 y2);
          ny = m31_add32 (m31_mul32 x1 y2) (m31_mul32 x2 y1)
      in (nx, ny))"

definition circle_double :: "u32 \<Rightarrow> u32 \<Rightarrow> u32 \<times> u32" where
  "circle_double x y =
     (let x2 = m31_mul32 x x;
          nx = m31_sub32 (m31_add32 x2 x2) 1;
          ny = m31_add32 (m31_mul32 x y) (m31_mul32 x y)
      in (nx, ny))"

function gen_mul_loop :: "u64 \<Rightarrow> u32 \<times> u32 \<Rightarrow> u32 \<times> u32 \<Rightarrow> u32 \<times> u32" where
  "gen_mul_loop s (rx, ry) (cx, cy) =
     (if s > 0
      then let (rx, ry) = (if s AND 1 = 1 then circle_add rx ry cx cy else (rx, ry));
               (cx, cy) = circle_double cx cy
           in gen_mul_loop (drop_bit 1 s) (rx, ry) (cx, cy)
      else (rx, ry))"
  by pat_completeness auto
termination
proof (relation "measure (\<lambda>(s, r, c). unat s)", simp)
  fix s :: u64 and rx ry cx cy ra :: u32 and rp :: "u32 \<times> u32" and rb a b c d
  assume "0 < s"
  then have "0 < unat s" by (simp add: unat_gt_0)
  then show "((drop_bit 1 s, (a, b), (c, d)), s, (rx, ry), (cx, cy)) \<in> measure (\<lambda>(s, r, c). unat s)"
    by (simp add: drop_bit_eq_div unat_div)
qed

declare gen_mul_loop.simps [simp del]

definition gen_mul :: "u64 \<Rightarrow> u32 \<times> u32" where
  "gen_mul s =
     (let mask = push_bit LOG_ORDER 1 - 1
      in gen_mul_loop (s AND mask) (1, 0) (GEN_X, GEN_Y))"

definition coset_at :: "nat \<Rightarrow> u64 \<Rightarrow> u32 \<times> u32" where
  "coset_at log_n idx =
     (let mask = push_bit LOG_ORDER 1 - 1;
          initial = push_bit (30 - log_n) 1;
          step = push_bit (31 - log_n) 1;
          coset_index = (initial + idx * step) AND mask
      in gen_mul coset_index)"

definition antipodal_of :: "nat \<Rightarrow> nat \<Rightarrow> nat" where
  "antipodal_of idx tree_depth =
     (let half = push_bit (tree_depth - 1) 1;
          domain = push_bit tree_depth 1
      in (idx + half) AND (domain - 1))"

definition circle_fold :: "u128 \<Rightarrow> u128 \<Rightarrow> u128 \<Rightarrow> u32 \<Rightarrow> u128" where
  "circle_fold f_plus f_minus alpha y_inv =
     (let sum = qm31_add f_plus f_minus;
          diff = qm31_sub f_plus f_minus;
          scaled = qm31_scale_m31 diff y_inv
      in qm31_add sum (qm31_mul alpha scaled))"

definition line_fold :: "u128 \<Rightarrow> u128 \<Rightarrow> u128 \<Rightarrow> u32 \<Rightarrow> u128" where
  "line_fold g_plus g_minus alpha x_inv =
     (let sum = qm31_add g_plus g_minus;
          diff = qm31_sub g_plus g_minus;
          scaled = qm31_scale_m31 diff x_inv
      in qm31_add sum (qm31_mul alpha scaled))"

definition chebyshev_twiddle :: "u32 \<Rightarrow> nat \<Rightarrow> u32" where
  "chebyshev_twiddle x k =
     foldl (\<lambda>t _. let t2 = m31_mul32 t t in m31_sub32 (m31_add32 t2 t2) 1) x [0..<k]"

section \<open>Points as complex numbers\<close>

definition canon_pt :: "u32 \<times> u32 \<Rightarrow> bool" where
  "canon_pt p \<longleftrightarrow> canon32 (fst p) \<and> canon32 (snd p)"

definition pt :: "u32 \<times> u32 \<Rightarrow> qf" where
  "pt p = fm (fst p) + fq qi * fm (snd p)"

definition on_circle :: "u32 \<times> u32 \<Rightarrow> bool" where
  "on_circle p \<longleftrightarrow> fm (fst p) * fm (fst p) + fm (snd p) * fm (snd p) = 1"

lemma pt_inj: "canon_pt p \<Longrightarrow> canon_pt r \<Longrightarrow> pt p = pt r \<Longrightarrow> p = r"
  using complex_inj [of "fst p" "snd p" "fst r" "snd r"] by (simp add: canon_pt_def pt_def prod_eq_iff)

lemma canon_circle_add: "canon32 a \<Longrightarrow> canon32 b \<Longrightarrow> canon32 c \<Longrightarrow> canon32 d \<Longrightarrow> canon_pt (circle_add a b c d)"
  by (simp add: canon_pt_def circle_add_def Let_def canon_intros)

lemma canon_circle_double: "canon32 a \<Longrightarrow> canon32 b \<Longrightarrow> canon_pt (circle_double a b)"
  by (simp add: canon_pt_def circle_double_def Let_def canon_intros)

lemma qi_mult: "fq qi * (fq qi * z) = - z"
  using fq_qi by (metis mult.assoc mult_minus1)

lemma pt_circle_add:
  "canon32 a \<Longrightarrow> canon32 b \<Longrightarrow> canon32 c \<Longrightarrow> canon32 d \<Longrightarrow> pt (circle_add a b c d) = pt (a, b) * pt (c, d)"
  by (simp add: pt_def circle_add_def Let_def canon_intros field_reading distrib_left distrib_right mult.left_commute
      mult.assoc qi_mult)

lemma pt_circle_double:
  assumes "canon32 a" "canon32 b" "on_circle (a, b)"
  shows "pt (circle_double a b) = pt (a, b) ^ 2"
proof -
  have o: "fm b * fm b = 1 - fm a * fm a" using assms(3) by (simp add: on_circle_def algebra_simps)
  have "pt (a, b) ^ 2 = fm a * fm a - fm b * fm b + fq qi * (fm a * fm b + fm a * fm b)"
    using fq_qi by (simp add: pt_def power2_eq_square algebra_simps qi_mult)
  then show ?thesis using assms(1,2)
    by (simp add: o pt_def circle_double_def Let_def canon_intros field_reading)
qed

lemma on_circle_add:
  assumes "canon32 a" "canon32 b" "canon32 c" "canon32 d" "on_circle (a, b)" "on_circle (c, d)"
  shows "on_circle (circle_add a b c d)"
proof -
  have "on_circle (circle_add a b c d) \<longleftrightarrow> (fm a * fm a + fm b * fm b) * (fm c * fm c + fm d * fm d) = 1"
    using assms(1-4) by (simp add: on_circle_def circle_add_def Let_def canon_intros field_reading algebra_simps)
  then show ?thesis using assms(5,6) by (simp add: on_circle_def)
qed

lemma on_circle_double:
  assumes "canon32 a" "canon32 b" "on_circle (a, b)"
  shows "on_circle (circle_double a b)"
proof -
  have o: "fm b * fm b = 1 - fm a * fm a" using assms(3) by (simp add: on_circle_def algebra_simps)
  have "on_circle (circle_double a b) \<longleftrightarrow> (2 * (fm a * fm a) - 1) * (2 * (fm a * fm a) - 1) + 4 * (fm a * fm a) * (fm b * fm b) = 1"
    using assms(1,2) by (simp add: on_circle_def circle_double_def Let_def canon_intros field_reading algebra_simps)
  then show ?thesis unfolding o by (simp add: algebra_simps)
qed

section \<open>Multiples of the generator\<close>

definition G :: qf where "G = pt (GEN_X, GEN_Y)"

lemma canon_gen: "canon32 GEN_X" "canon32 GEN_Y"
  by (simp_all add: canon32_def GEN_X_def GEN_Y_def P31_def)

lemma gen_on_circle: "on_circle (GEN_X, GEN_Y)"
proof -
  have "m31_add32 (m31_mul32 GEN_X GEN_X) (m31_mul32 GEN_Y GEN_Y) = 1"
    by (simp add: word_uint_eq_iff m31_add32_uint m31_mul32_uint GEN_X_def GEN_Y_def P31_def)
  then have "fm (m31_add32 (m31_mul32 GEN_X GEN_X) (m31_mul32 GEN_Y GEN_Y)) = fm 1" by (rule arg_cong)
  then show ?thesis by (simp add: on_circle_def canon_gen canon_intros field_reading)
qed

lemma gen_mul_loop_pt:
  "canon_pt r \<Longrightarrow> on_circle r \<Longrightarrow> canon_pt c \<Longrightarrow> on_circle c \<Longrightarrow>
   canon_pt (gen_mul_loop s r c) \<and> on_circle (gen_mul_loop s r c) \<and> pt (gen_mul_loop s r c) = pt r * pt c ^ unat s"
proof (induction s r c rule: gen_mul_loop.induct)
  case (1 s rx ry cx cy)
  show ?case
  proof (cases "s > 0")
    case False
    then have "unat s = 0" by (simp add: word_gt_0)
    then show ?thesis using 1 False by (subst (1 2 3) gen_mul_loop.simps) simp
  next
    case True
    let ?r = "if s AND 1 = 1 then circle_add rx ry cx cy else (rx, ry)"
    let ?c = "circle_double cx cy"
    have cs: "canon32 rx" "canon32 ry" "canon32 cx" "canon32 cy" using "1.prems" by (simp_all add: canon_pt_def)
    have st: "gen_mul_loop s (rx, ry) (cx, cy) = gen_mul_loop (drop_bit 1 s) ?r ?c"
      using True by (subst gen_mul_loop.simps) (simp add: Let_def split_def)
    have r: "canon_pt ?r" "on_circle ?r" "pt ?r = pt (rx, ry) * pt (cx, cy) ^ (unat s mod 2)"
      using "1.prems" cs by (auto simp: and_one_word_odd canon_circle_add on_circle_add pt_circle_add odd_iff_mod_2_eq_one)
    have c: "canon_pt ?c" "on_circle ?c" "pt ?c = pt (cx, cy) ^ 2"
      using "1.prems" cs by (simp_all add: canon_circle_double on_circle_double pt_circle_double)
    have n: "unat (drop_bit 1 s) = unat s div 2" by (simp add: drop_bit_eq_div unat_div)
    have e: "pt (cx, cy) ^ (unat s mod 2) * (pt (cx, cy) ^ 2) ^ (unat s div 2) = pt (cx, cy) ^ unat s"
      by (simp flip: power_mult power_add)
    have "canon_pt (gen_mul_loop (drop_bit 1 s) ?r ?c) \<and> on_circle (gen_mul_loop (drop_bit 1 s) ?r ?c)
        \<and> pt (gen_mul_loop (drop_bit 1 s) ?r ?c) = pt ?r * pt ?c ^ unat (drop_bit 1 s)"
      using "1.IH" [OF True refl _ refl, of "fst ?r" "snd ?r" "fst ?c" "snd ?c"] r c by simp
    then show ?thesis unfolding st n r(3) c(3) using e by (simp add: mult.assoc)
  qed
qed

section \<open>The generator has order \<open>2^31\<close>\<close>

fun dbls :: "nat \<Rightarrow> int \<Rightarrow> int \<Rightarrow> int \<times> int" where
  "dbls 0 x y = (x, y)"
| "dbls (Suc n) x y = dbls n ((2 * (x * x) - 1) mod 2147483647) (2 * (x * y) mod 2147483647)"

lemma dbls_numeral:
  "dbls (numeral k) x y = dbls (pred_numeral k) ((2 * (x * x) - 1) mod 2147483647) (2 * (x * y) mod 2147483647)"
  by (simp add: numeral_eq_Suc)

lemma dbls_generator: "dbls 30 2 1268011823 = (2147483646, 0)"
  by (simp add: dbls_numeral)

lemma dbls_pt:
  "canon_pt p \<Longrightarrow> on_circle p \<Longrightarrow> dbls n (uint (fst p)) (uint (snd p)) = (a, b) \<Longrightarrow>
   pt p ^ (2 ^ n) = pt (word_of_int a, word_of_int b)"
proof (induction n arbitrary: p)
  case (Suc n)
  obtain x y where p: "p = (x, y)" by force
  have c: "canon32 x" "canon32 y" using Suc.prems(1) by (simp_all add: p canon_pt_def)
  let ?d = "circle_double x y"
  have "uint (fst ?d) = (2 * (uint x * uint x) - 1) mod P31" "uint (snd ?d) = 2 * (uint x * uint y) mod P31"
    using c by (simp_all add: circle_double_def Let_def canon32_def m32.closed m31_add32_uint m31_mul32_uint
        m31_sub32_uint P31_def [symmetric] mod_simps)
  then have "pt ?d ^ (2 ^ n) = pt (word_of_int a, word_of_int b)"
    using Suc.prems c by (intro Suc.IH) (simp_all add: p canon_circle_double on_circle_double P31_def)
  then show ?case using pt_circle_double [OF c] Suc.prems(2) by (simp add: p flip: power_mult)
next
  case 0
  then have "p = (word_of_int a, word_of_int b)" by (auto simp: prod_eq_iff)
  then show ?case by simp
qed

lemma fm_minus_one: "fm 2147483646 = - 1"
proof -
  have "(2147483646 :: u32) = m31_neg 1" by (simp add: m31_neg_def PR_def)
  then show ?thesis using fm_neg [of 1] by simp
qed

lemma G_half: "G ^ (2 ^ 30) = - 1"
proof -
  have "uint GEN_X = 2" "uint GEN_Y = 1268011823" by (simp_all add: GEN_X_def GEN_Y_def)
  then have "G ^ (2 ^ 30) = pt (word_of_int 2147483646, word_of_int 0)"
    unfolding G_def using canon_gen gen_on_circle dbls_generator
    by (intro dbls_pt) (simp_all add: canon_pt_def)
  also have "\<dots> = - 1" by (simp add: pt_def fm_minus_one)
  finally show ?thesis .
qed

lemma minus_one_qf: "(- 1 :: qf) \<noteq> 1"
proof
  assume "(- 1 :: qf) = 1"
  then have "fm 2147483646 = fm 1" by (simp add: fm_minus_one)
  then show False by (subst (asm) fm_inj) (simp_all add: canon32_def P31_def)
qed

lemma two_qf: "(2 :: qf) \<noteq> 0"
  using minus_one_qf by (metis add.inverse_unique one_add_one)

lemma G_full: "G ^ (2 ^ 31) = 1"
proof -
  have "G ^ (2 ^ 31) = (G ^ (2 ^ 30)) ^ 2" by (simp flip: power_mult)
  then show ?thesis by (simp only: G_half) simp
qed

lemma G_pow_mod: "G ^ (n mod 2 ^ 31) = G ^ n"
proof -
  have "G ^ n = G ^ (2 ^ 31 * (n div 2 ^ 31) + n mod 2 ^ 31)" by simp
  also have "\<dots> = G ^ (n mod 2 ^ 31)" unfolding power_add power_mult G_full by simp
  finally show ?thesis by simp
qed

lemma G_nonzero: "G \<noteq> 0"
  using G_full by (metis power_0_left zero_neq_one power_not_zero zero_power zero_less_numeral zero_less_power)

lemma G_order: "G ^ n = 1 \<longleftrightarrow> 2 ^ 31 dvd n"
proof
  assume n: "G ^ n = 1"
  have "k \<le> 31 \<Longrightarrow> 2 ^ k dvd n" for k
  proof (induction k)
    case (Suc k)
    then obtain m where m: "n = 2 ^ k * m" by (auto elim: dvdE)
    have "even m"
    proof (rule ccontr)
      assume "odd m"
      have "(G ^ (2 ^ 30)) ^ m = (G ^ n) ^ (2 ^ (30 - k))"
      proof -
        have "2 ^ 30 * m = n * 2 ^ (30 - k)" using Suc.prems unfolding m by (simp flip: power_add add: mult.assoc mult.left_commute)
        then show ?thesis by (simp only: power_mult [symmetric])
      qed
      then have "(- 1 :: qf) ^ m = 1" unfolding G_half n by simp
      then show False using \<open>odd m\<close> minus_one_qf by (simp add: power_minus_odd)
    qed
    then show ?case unfolding m by (auto elim!: evenE)
  qed simp
  then show "2 ^ 31 dvd n" by blast
next
  assume "2 ^ 31 dvd n"
  then show "G ^ n = 1" using G_pow_mod [of n] by (simp add: dvd_eq_mod_eq_0)
qed

lemma G_eq: "G ^ a = G ^ b \<longleftrightarrow> a mod 2 ^ 31 = b mod 2 ^ 31"
proof
  have g: "G ^ a = G ^ b \<Longrightarrow> b \<le> a \<Longrightarrow> a mod 2 ^ 31 = b mod 2 ^ 31" for a b
  proof -
    assume e: "G ^ a = G ^ b" and le: "b \<le> a"
    then have "G ^ b * G ^ (a - b) = G ^ b * 1" by (simp flip: power_add)
    then have "G ^ (a - b) = 1" using G_nonzero by (simp only: mult_cancel_left) simp
    then have "2 ^ 31 dvd a - b" by (simp only: G_order)
    then show ?thesis using le by (simp add: mod_eq_dvd_iff_nat)
  qed
  assume "G ^ a = G ^ b"
  then show "a mod 2 ^ 31 = b mod 2 ^ 31" using g [of a b] g [of b a] by (cases "b \<le> a") (metis nat_le_linear)+
next
  assume "a mod 2 ^ 31 = b mod 2 ^ 31"
  then show "G ^ a = G ^ b" by (metis G_pow_mod)
qed

section \<open>The points of a domain\<close>

lemma unat_mask31: "unat (s AND mask 31) = unat s mod 2 ^ 31" for s :: u64
  unfolding take_bit_eq_mask [symmetric] unsigned_take_bit_eq by (rule take_bit_eq_mod)

lemma pt_gen_mul: "canon_pt (gen_mul s) \<and> on_circle (gen_mul s) \<and> pt (gen_mul s) = G ^ unat s"
proof -
  have m: "push_bit LOG_ORDER 1 - 1 = (mask 31 :: u64)" by (simp add: LOG_ORDER_def mask_eq_exp_minus_1 push_bit_eq_mult)
  note u = unat_mask31 [of s]
  have "canon_pt (1, 0) \<and> on_circle (1, 0) \<and> pt (1, 0) = 1" by (simp add: canon_pt_def on_circle_def pt_def)
  then show ?thesis
    using gen_mul_loop_pt [of "(1, 0)" "(GEN_X, GEN_Y)" "s AND mask 31"] gen_on_circle canon_gen G_pow_mod [of "unat s"]
    unfolding gen_mul_def Let_def m by (simp add: u canon_pt_def flip: G_def)
qed

lemma unat_pow2: "n < 64 \<Longrightarrow> unat (push_bit n 1 :: u64) = 2 ^ n"
proof -
  assume "n < 64"
  then have "(2 :: nat) ^ n < 2 ^ 64" by (intro power_strict_increasing) simp_all
  then have "unat (word_of_nat (2 ^ n) :: u64) = 2 ^ n" unfolding unat_of_nat by (simp add: take_bit_nat_eq_self)
  moreover have "push_bit n 1 = (word_of_nat (2 ^ n) :: u64)" by (simp add: push_bit_eq_mult)
  ultimately show ?thesis by simp
qed

lemma pt_coset_at:
  assumes "d \<le> 30"
  shows "canon_pt (coset_at d idx)" "on_circle (coset_at d idx)" "pt (coset_at d idx) = G ^ ((2 * unat idx + 1) * 2 ^ (30 - d))"
proof -
  let ?i = "push_bit (30 - d) 1 + idx * push_bit (31 - d) 1 :: u64"
  have m: "push_bit LOG_ORDER 1 - 1 = (mask 31 :: u64)" by (simp add: LOG_ORDER_def mask_eq_exp_minus_1 push_bit_eq_mult)
  have s: "(2 :: nat) ^ (31 - d) = 2 * 2 ^ (30 - d)" using assms by (simp flip: power_Suc add: Suc_diff_le)
  have "unat ?i = (2 ^ (30 - d) + unat idx * 2 ^ (31 - d)) mod 2 ^ 64"
    using assms by (simp only: unat_word_ariths unat_pow2 mod_simps) (simp add: unat_pow2 mod_simps del: push_bit_of_1)
  moreover have "(2 :: nat) ^ 31 dvd 2 ^ 64" by (rule le_imp_power_dvd) simp
  ultimately have "unat ?i mod 2 ^ 31 = (2 ^ (30 - d) + unat idx * 2 ^ (31 - d)) mod 2 ^ 31" by (simp only: mod_mod_cancel)
  also have "2 ^ (30 - d) + unat idx * 2 ^ (31 - d) = (2 * unat idx + 1) * 2 ^ (30 - d)"
    unfolding s by (simp add: algebra_simps)
  finally have u: "unat (?i AND mask 31) = (2 * unat idx + 1) * 2 ^ (30 - d) mod 2 ^ 31"
    by (simp only: unat_mask31)
  show "canon_pt (coset_at d idx)" "on_circle (coset_at d idx)" "pt (coset_at d idx) = G ^ ((2 * unat idx + 1) * 2 ^ (30 - d))"
    using pt_gen_mul [of "?i AND mask 31"] unfolding u G_pow_mod coset_at_def Let_def m by simp_all
qed

lemma antipodal_val:
  assumes "0 < d" "idx < 2 ^ d"
  shows "antipodal_of idx d = (idx + 2 ^ (d - 1)) mod 2 ^ d"
proof -
  have "push_bit d 1 - 1 = (mask d :: nat)" by (simp add: mask_eq_exp_minus_1 push_bit_eq_mult)
  then show ?thesis by (simp add: antipodal_of_def Let_def push_bit_eq_mult flip: take_bit_eq_mask take_bit_eq_mod)
qed

lemma antipodal_less: "0 < d \<Longrightarrow> idx < 2 ^ d \<Longrightarrow> antipodal_of idx d < 2 ^ d"
  by (simp add: antipodal_val)

lemma unat_of_nat_small: "d \<le> 30 \<Longrightarrow> i < 2 ^ d \<Longrightarrow> unat (word_of_nat i :: u64) = i"
proof -
  assume "d \<le> 30" "i < 2 ^ d"
  moreover have "(2 :: nat) ^ d \<le> 2 ^ 30" using \<open>d \<le> 30\<close> by (intro power_increasing) simp_all
  ultimately have "i < 2 ^ 64" by simp
  then show ?thesis by (simp add: unat_of_nat take_bit_nat_eq_self)
qed

lemma domain_size: "d \<le> 30 \<Longrightarrow> 2 ^ d * 2 ^ (30 - d) = (2 :: nat) ^ 30"
  by (simp flip: power_add)

lemma odd_scale_mod: "(2 * (x mod D) + 1) * K mod (2 * D * K) = (2 * x + 1) * K mod (2 * D * K)" for x D K :: nat
proof -
  have "(2 * (x mod D) + 1) mod (2 * D) = (2 * x + 1) mod (2 * D)"
    unfolding mult_mod_right by (rule mod_add_left_eq)
  then show ?thesis by (simp only: mod_mult_mult2)
qed

text \<open>The point at the antipodal index is the point negated.\<close>

lemma coset_antipodal:
  assumes "0 < d" "d \<le> 30" "idx < 2 ^ d"
  shows "coset_at d (word_of_nat (antipodal_of idx d)) = map_prod m31_neg m31_neg (coset_at d (word_of_nat idx))"
proof (rule pt_inj)
  let ?p = "coset_at d (word_of_nat idx)" and ?a = "antipodal_of idx d"
  have c: "canon32 (fst ?p)" "canon32 (snd ?p)" using pt_coset_at(1) [OF assms(2)] by (simp_all add: canon_pt_def)
  show "canon_pt (coset_at d (word_of_nat ?a))" using pt_coset_at(1) [OF assms(2)] .
  show "canon_pt (map_prod m31_neg m31_neg ?p)" using c by (simp add: canon_pt_def canon_neg)
  have h: "2 * 2 ^ (d - 1) = (2 :: nat) ^ d" using assms(1) by (cases d) simp_all
  have f: "(2 * 2 ^ d) * 2 ^ (30 - d) = (2 :: nat) ^ 31" using domain_size [OF assms(2)] by simp
  have "(2 * ?a + 1) * 2 ^ (30 - d) mod 2 ^ 31 = (2 * (idx + 2 ^ (d - 1)) + 1) * 2 ^ (30 - d) mod 2 ^ 31"
    unfolding antipodal_val [OF assms(1,3)] f [symmetric] by (rule odd_scale_mod)
  also have "(2 * (idx + 2 ^ (d - 1)) + 1) * 2 ^ (30 - d) = (2 * idx + 1) * 2 ^ (30 - d) + 2 ^ 30"
    using h domain_size [OF assms(2)] by (simp add: distrib_left distrib_right)
  finally have "G ^ ((2 * ?a + 1) * 2 ^ (30 - d)) = G ^ ((2 * idx + 1) * 2 ^ (30 - d) + 2 ^ 30)" unfolding G_eq .
  also have "\<dots> = - (G ^ ((2 * idx + 1) * 2 ^ (30 - d)))" unfolding power_add G_half by simp
  finally have "pt (coset_at d (word_of_nat ?a)) = - pt ?p"
    unfolding pt_coset_at(3) [OF assms(2)] unat_of_nat_small [OF assms(2,3)]
      unat_of_nat_small [OF assms(2) antipodal_less [OF assms(1,3)]] .
  then show "pt (coset_at d (word_of_nat ?a)) = pt (map_prod m31_neg m31_neg ?p)"
    using c by (simp add: pt_def fm_neg)
qed

text \<open>The point at the mirrored index is the point with \<open>y\<close> negated.\<close>

lemma on_circle_conj: "canon32 x \<Longrightarrow> canon32 y \<Longrightarrow> on_circle (x, y) \<Longrightarrow> pt (x, m31_neg y) * pt (x, y) = 1"
proof -
  assume c: "canon32 x" "canon32 y" and o: "on_circle (x, y)"
  have "pt (x, m31_neg y) * pt (x, y) = fm x * fm x + fm y * fm y"
    using c by (simp add: pt_def fm_neg algebra_simps fq_qi)
  then show ?thesis using o by (simp add: on_circle_def)
qed

lemma coset_mirror:
  assumes "d \<le> 30" "idx < 2 ^ d"
  shows "coset_at d (word_of_nat (2 ^ d - 1 - idx)) = map_prod id m31_neg (coset_at d (word_of_nat idx))"
proof (rule pt_inj)
  let ?p = "coset_at d (word_of_nat idx)" and ?m = "2 ^ d - 1 - idx"
  have c: "canon32 (fst ?p)" "canon32 (snd ?p)" using pt_coset_at(1) [OF assms(1)] by (simp_all add: canon_pt_def)
  show "canon_pt (coset_at d (word_of_nat ?m))" using pt_coset_at(1) [OF assms(1)] .
  show "canon_pt (map_prod id m31_neg ?p)" using c by (simp add: canon_pt_def canon_neg)
  have m: "?m < 2 ^ d" using assms(2) by linarith
  have "(2 * ?m + 1) * 2 ^ (30 - d) + (2 * idx + 1) * 2 ^ (30 - d) = (2 * ?m + 1 + (2 * idx + 1)) * 2 ^ (30 - d)"
    by (simp only: distrib_right)
  also have "2 * ?m + 1 + (2 * idx + 1) = 2 * 2 ^ d" using assms(2) by (simp add: algebra_simps)
  also have "2 * 2 ^ d * 2 ^ (30 - d) = (2 :: nat) ^ 31" using domain_size [OF assms(1)] by simp
  finally have "pt (coset_at d (word_of_nat ?m)) * pt ?p = 1"
    unfolding pt_coset_at(3) [OF assms(1)] unat_of_nat_small [OF assms] unat_of_nat_small [OF assms(1) m]
      power_add [symmetric] by (simp only: G_full)
  moreover have "pt (map_prod id m31_neg ?p) * pt ?p = 1"
    using on_circle_conj [OF c] pt_coset_at(2) [OF assms(1)] by (simp add: map_prod_def split_def)
  ultimately show "pt (coset_at d (word_of_nat ?m)) = pt (map_prod id m31_neg ?p)"
    by (metis mult_right_cancel mult_zero_right zero_neq_one)
qed

lemma coset_inj:
  assumes "d \<le> 30" "i < 2 ^ d" "j < 2 ^ d" "coset_at d (word_of_nat i) = coset_at d (word_of_nat j)"
  shows "i = j"
proof -
  have lt: "(2 * k + 1) * 2 ^ (30 - d) < 2 ^ 31" if "k < 2 ^ d" for k :: nat
  proof -
    have "(2 * k + 1) * 2 ^ (30 - d) < (2 * 2 ^ d) * 2 ^ (30 - d)" using that by (intro mult_strict_right_mono) simp_all
    also have "\<dots> = 2 ^ 31" using domain_size [OF assms(1)] by simp
    finally show ?thesis .
  qed
  have "G ^ ((2 * i + 1) * 2 ^ (30 - d)) = G ^ ((2 * j + 1) * 2 ^ (30 - d))"
    using assms(4) pt_coset_at(3) [OF assms(1)] unat_of_nat_small [OF assms(1,2)] unat_of_nat_small [OF assms(1,3)] by metis
  then have "(2 * i + 1) * 2 ^ (30 - d) = (2 * j + 1) * 2 ^ (30 - d)"
    unfolding G_eq using lt [OF assms(2)] lt [OF assms(3)] by (simp only: mod_less)
  then show ?thesis by simp
qed

text \<open>The \<open>x\<close> coordinates of the first half of a domain are distinct.\<close>

lemma square_eq_qf: "a * a = b * b \<Longrightarrow> a = b \<or> a = - b" for a b :: qf
proof -
  assume "a * a = b * b"
  then have "(a - b) * (a + b) = 0" by (simp add: algebra_simps)
  then show ?thesis by (auto simp: add_eq_0_iff)
qed

lemma half_domain_distinct:
  assumes "0 < d" "d \<le> 30" "i < 2 ^ (d - 1)" "j < 2 ^ (d - 1)"
    "fst (coset_at d (word_of_nat i)) = fst (coset_at d (word_of_nat j))"
  shows "i = j"
proof -
  have h: "2 * 2 ^ (d - 1) = (2 :: nat) ^ d" using assms(1) by (cases d) simp_all
  have l: "i < 2 ^ d" "j < 2 ^ d" using assms(3,4) h by linarith+
  let ?p = "coset_at d (word_of_nat i)" and ?r = "coset_at d (word_of_nat j)"
  have c: "canon32 (snd ?p)" "canon32 (snd ?r)" using pt_coset_at(1) [OF assms(2)] by (simp_all add: canon_pt_def)
  have "on_circle ?p" "on_circle ?r" using pt_coset_at(2) [OF assms(2)] by simp_all
  then have "fm (snd ?p) * fm (snd ?p) = fm (snd ?r) * fm (snd ?r)"
    unfolding on_circle_def using assms(5) by (metis add_left_cancel)
  then have "fm (snd ?p) = fm (snd ?r) \<or> fm (snd ?p) = fm (m31_neg (snd ?r))"
    using square_eq_qf c fm_neg by metis
  then have "snd ?p = snd ?r \<or> snd ?p = m31_neg (snd ?r)" using c by (simp add: fm_inj canon_neg)
  then show ?thesis
  proof
    assume "snd ?p = snd ?r"
    then show ?thesis using assms(5) coset_inj [OF assms(2) l] by (simp add: prod_eq_iff)
  next
    assume "snd ?p = m31_neg (snd ?r)"
    then have "?p = coset_at d (word_of_nat (2 ^ d - 1 - j))"
      unfolding coset_mirror [OF assms(2) l(2)] using assms(5) by (simp add: prod_eq_iff)
    then have "i = 2 ^ d - 1 - j" using coset_inj [OF assms(2) l(1)] by simp
    then show ?thesis using assms(3,4) h by linarith
  qed
qed

section \<open>Twiddles\<close>

lemma chebyshev_Suc:
  "chebyshev_twiddle x (Suc k) = (let t = chebyshev_twiddle x k; t2 = m31_mul32 t t in m31_sub32 (m31_add32 t2 t2) 1)"
  by (simp add: chebyshev_twiddle_def Let_def)

text \<open>The twiddle is the \<open>x\<close> coordinate of the point doubled \<open>k\<close> times.\<close>

lemma chebyshev_double:
  assumes "canon_pt p" "on_circle p"
  shows "\<exists>y. canon_pt (chebyshev_twiddle (fst p) k, y) \<and> on_circle (chebyshev_twiddle (fst p) k, y)
    \<and> pt (chebyshev_twiddle (fst p) k, y) = pt p ^ (2 ^ k)"
proof (induction k)
  case 0
  then show ?case using assms by (intro exI [of _ "snd p"]) (simp add: chebyshev_twiddle_def)
next
  case (Suc k)
  then obtain y where y: "canon_pt (chebyshev_twiddle (fst p) k, y)" "on_circle (chebyshev_twiddle (fst p) k, y)"
    "pt (chebyshev_twiddle (fst p) k, y) = pt p ^ (2 ^ k)" by blast
  let ?t = "chebyshev_twiddle (fst p) k"
  have c: "canon32 ?t" "canon32 y" using y(1) by (simp_all add: canon_pt_def)
  have d: "circle_double ?t y = (chebyshev_twiddle (fst p) (Suc k), snd (circle_double ?t y))"
    by (simp add: circle_double_def chebyshev_Suc Let_def)
  show ?case
    using canon_circle_double [OF c] on_circle_double [OF c y(2)] pt_circle_double [OF c y(2)] y(3)
    unfolding d [symmetric] by (intro exI [of _ "snd (circle_double ?t y)"]) (simp flip: d power_mult add: mult.commute)
qed

lemma canon_twiddle: "canon32 x \<Longrightarrow> canon32 (chebyshev_twiddle x k)"
  by (induction k) (simp_all add: chebyshev_twiddle_def Let_def canon_intros)

text \<open>
  A point with a zero coordinate has a power that is one: its square is \<open>1\<close> or \<open>-1\<close>. So no point of a
  domain has \<open>y = 0\<close>, and the twiddles of the folds of a domain are not zero.
\<close>

lemma zero_y: "on_circle (x, y) \<Longrightarrow> fm y = 0 \<Longrightarrow> pt (x, y) ^ 2 = 1"
  by (simp add: on_circle_def pt_def power2_eq_square)

lemma zero_x: "on_circle (x, y) \<Longrightarrow> fm x = 0 \<Longrightarrow> pt (x, y) ^ 2 = - 1"
  using fq_qi by (simp add: on_circle_def pt_def power2_eq_square algebra_simps qi_mult)

lemma odd_pow2_mod: "odd m \<Longrightarrow> a < b \<Longrightarrow> \<not> 2 ^ b dvd m * 2 ^ a" for m a b :: nat
proof
  assume "odd m" "a < b" "2 ^ b dvd m * 2 ^ a"
  moreover have "2 ^ b = 2 ^ (b - a) * (2 :: nat) ^ a" using \<open>a < b\<close> by (simp flip: power_add)
  ultimately have "2 ^ (b - a) dvd m" by simp
  moreover have "2 dvd (2 :: nat) ^ (b - a)" using \<open>a < b\<close> by simp
  ultimately show False using \<open>odd m\<close> dvd_trans by blast
qed

lemma coset_y_nonzero:
  assumes "0 < d" "d \<le> 30" "idx < 2 ^ d"
  shows "snd (coset_at d (word_of_nat idx)) \<noteq> 0"
proof
  let ?p = "coset_at d (word_of_nat idx)"
  assume "snd ?p = 0"
  then have "pt ?p ^ 2 = 1" using pt_coset_at(2) [OF assms(2), of "word_of_nat idx"] zero_y [of "fst ?p" "snd ?p"] by (metis fm_0 prod.collapse)
  then have "G ^ ((2 * idx + 1) * 2 ^ (30 - d) * 2) = 1"
    unfolding pt_coset_at(3) [OF assms(2)] unat_of_nat_small [OF assms(2,3)] power_mult .
  then have dv: "2 ^ 31 dvd (2 * idx + 1) * 2 ^ Suc (30 - d)" unfolding G_order by (simp only: power_Suc ac_simps)
  have lt: "Suc (30 - d) < 31" using assms(1,2) by simp
  show False by (rule notE [OF odd_pow2_mod [OF _ lt] dv]) simp
qed

lemma twiddle_nonzero:
  assumes "0 < d" "d \<le> 30" "idx < 2 ^ d" "k + 1 < d"
  shows "chebyshev_twiddle (fst (coset_at d (word_of_nat idx))) k \<noteq> 0"
proof
  let ?p = "coset_at d (word_of_nat idx)"
  let ?e = "(2 * idx + 1) * 2 ^ (30 - d)"
  obtain y where y: "on_circle (chebyshev_twiddle (fst ?p) k, y)" "pt (chebyshev_twiddle (fst ?p) k, y) = pt ?p ^ (2 ^ k)"
    using chebyshev_double pt_coset_at(1,2) [OF assms(2)] by blast
  assume "chebyshev_twiddle (fst ?p) k = 0"
  then have "(pt ?p ^ (2 ^ k)) ^ 2 = - 1" using zero_x [OF y(1)] y(2) by simp
  then have "((pt ?p ^ (2 ^ k)) ^ 2) ^ 2 = 1" by simp
  then have "G ^ (?e * 2 ^ k * 2 * 2) = 1"
    unfolding pt_coset_at(3) [OF assms(2)] unat_of_nat_small [OF assms(2,3)] by (simp only: power_mult)
  moreover have "?e * 2 ^ k * 2 * 2 = (2 * idx + 1) * 2 ^ (30 - d + k + 2)" by (simp only: power_add mult.assoc) simp
  ultimately have dv: "2 ^ 31 dvd (2 * idx + 1) * 2 ^ (30 - d + k + 2)" by (simp only: G_order)
  have lt: "30 - d + k + 2 < 31" using assms(2,4) by simp
  show False by (rule notE [OF odd_pow2_mod [OF _ lt] dv]) simp
qed

section \<open>The folds\<close>

lemma canon_fold:
  "canon_q a \<Longrightarrow> canon_q b \<Longrightarrow> canon_q alpha \<Longrightarrow> canon32 w \<Longrightarrow> canon_q (circle_fold a b alpha w)"
  "canon_q a \<Longrightarrow> canon_q b \<Longrightarrow> canon_q alpha \<Longrightarrow> canon32 w \<Longrightarrow> canon_q (line_fold a b alpha w)"
  by (simp_all add: circle_fold_def line_fold_def Let_def canon_intros)

lemma fq_fold:
  assumes "canon_q a" "canon_q b" "canon_q alpha" "canon32 w"
  shows "fq (circle_fold a b alpha w) = fq a + fq b + fq alpha * ((fq a - fq b) * fm w)"
    "fq (line_fold a b alpha w) = fq a + fq b + fq alpha * ((fq a - fq b) * fm w)"
  using assms by (simp_all add: circle_fold_def line_fold_def Let_def canon_intros field_reading)

section \<open>Properties\<close>

text \<open>
  The domain of depth \<open>d\<close> is symmetric: the point at the antipodal index is the point negated, and
  the point at the mirrored index has the same \<open>x\<close> and the negated \<open>y\<close>.
\<close>

lemma domain_symmetry:
  assumes "0 < d" "d \<le> 30" "idx < 2 ^ d"
  shows "coset_at d (word_of_nat (antipodal_of idx d)) = map_prod m31_neg m31_neg (coset_at d (word_of_nat idx))
    \<and> coset_at d (word_of_nat (2 ^ d - 1 - idx)) = map_prod id m31_neg (coset_at d (word_of_nat idx))"
  using coset_antipodal [OF assms] coset_mirror [OF assms(2,3)] by blast

text \<open>
  No point of a domain has \<open>y = 0\<close>, and no twiddle of a fold round \<open>k < d - 1\<close> is zero, so the
  inverses the folds take exist and the zero-twiddle error is never returned.
\<close>

lemma fold_divisors_nonzero:
  assumes "0 < d" "d \<le> 30" "idx < 2 ^ d"
  shows "snd (coset_at d (word_of_nat idx)) \<noteq> 0
    \<and> (\<forall>k. k + 1 < d \<longrightarrow> chebyshev_twiddle (fst (coset_at d (word_of_nat idx))) k \<noteq> 0)"
  using coset_y_nonzero [OF assms] twiddle_nonzero [OF assms] by blast+

text \<open>
  A circle fold splits a function into its parts: from the values \<open>e + y o\<close> and \<open>e - y o\<close> at two
  conjugate points it computes \<open>2 (e + alpha o)\<close>; the line fold does the same with \<open>x\<close>.
\<close>

lemma fold_even_odd:
  assumes "canon_q e" "canon_q od" "canon_q alpha" "canon32 y" "y \<noteq> 0"
  defines "s \<equiv> qm31_mul_m31 od y" and "t \<equiv> qm31_add e (qm31_mul alpha od)"
  shows "circle_fold (qm31_add e s) (qm31_sub e s) alpha (m31_inv y) = qm31_add t t
    \<and> line_fold (qm31_add e s) (qm31_sub e s) alpha (m31_inv y) = qm31_add t t"
proof -
  have c: "canon_q s" "canon_q t" "canon_q (qm31_add e s)" "canon_q (qm31_sub e s)" "canon32 (m31_inv y)"
    using assms(1-4) by (simp_all add: s_def t_def canon_intros)
  have f: "fq (qm31_add e s) = fq e + fq od * fm y" "fq (qm31_sub e s) = fq e - fq od * fm y" "fm (m31_inv y) = inverse (fm y)"
    "fq (qm31_add t t) = 2 * (fq e + fq alpha * fq od)"
    using assms(1-4) c by (simp_all add: s_def t_def canon_intros field_reading)
  have y: "fm y \<noteq> 0" using assms(4,5) by (simp add: fm_eq_0)
  have "fq (circle_fold (qm31_add e s) (qm31_sub e s) alpha (m31_inv y)) = fq (qm31_add t t)"
    unfolding fq_fold(1) [OF c(3,4) assms(3) c(5)] f using y by (simp add: field_simps)
  moreover have "line_fold (qm31_add e s) (qm31_sub e s) alpha (m31_inv y) = circle_fold (qm31_add e s) (qm31_sub e s) alpha (m31_inv y)"
    by (simp add: line_fold_def circle_fold_def)
  moreover have "canon_q (qm31_add t t)" using c(2) by (simp add: canon_intros)
  ultimately show ?thesis using canon_fold(1) [OF c(3,4) assms(3) c(5)] fq_inj by metis
qed

end
