(* ===== verification/Barycentric.thy ===== *)
theory Barycentric
  imports Circle_Fold
begin

text \<open>
  Barycentric interpolation of \<open>vfri2_bridge.rs\<close>: the weights of the nodes, the evaluation of the
  interpolant at a point of \<open>QM31\<close>, and the evaluation of the even part of a circle polynomial from
  its values on a domain. The reference is the Lagrange form over an arbitrary field.
\<close>

section \<open>Definitions\<close>

text \<open>The inner loop of \<open>precompute_bary_weights\<close>; a repeated node breaks with the product 0.\<close>

fun bary_prod :: "u32 \<Rightarrow> u32 list \<Rightarrow> nat \<Rightarrow> nat list \<Rightarrow> u32 \<Rightarrow> u32" where
  "bary_prod xi xs i [] pr = pr"
| "bary_prod xi xs i (j # js) pr =
     (if j \<noteq> i
      then let diff = m31_sub32 xi (xs ! j)
           in if diff = 0 then 0 else bary_prod xi xs i js (m31_mul32 pr diff)
      else bary_prod xi xs i js pr)"

definition precompute_bary_weights :: "u32 list \<Rightarrow> u32 list" where
  "precompute_bary_weights domain_xs =
     map (\<lambda>i. let pr = bary_prod (domain_xs ! i) domain_xs i [0..<length domain_xs] 1
              in if pr = 0 then 0 else m31_inv pr) [0..<length domain_xs]"

fun bary_loop :: "u32 list \<Rightarrow> u32 list \<Rightarrow> u32 list \<Rightarrow> u128 \<Rightarrow> nat list \<Rightarrow> u128 \<Rightarrow> u128 \<Rightarrow> u128" where
  "bary_loop vals domain_xs weights z [] num den = qm31_div num den"
| "bary_loop vals domain_xs weights z (i # is) num den =
     (let zi = qm31_sub_m31 z (domain_xs ! i)
      in if zi = 0 then qm31_from_m31 (vals ! i)
         else let inv_zi = qm31_inv zi;
                  wi_inv = qm31_mul_m31 inv_zi (weights ! i);
                  num = qm31_add num (qm31_mul_m31 wi_inv (vals ! i));
                  den = qm31_add den wi_inv
              in bary_loop vals domain_xs weights z is num den)"

definition eval_bary :: "u32 list \<Rightarrow> u32 list \<Rightarrow> u32 list \<Rightarrow> u128 \<Rightarrow> u128" where
  "eval_bary vals domain_xs weights z = bary_loop vals domain_xs weights z [0..<length vals] 0 0"

definition eval_circle_even :: "u32 list \<Rightarrow> u32 list \<Rightarrow> u32 list \<Rightarrow> u128 \<Rightarrow> u128" where
  "eval_circle_even col xs_half weights_half z =
     (let half = length xs_half;
          n = length col;
          two_inv = m31_inv 2;
          col_even = map (\<lambda>k. m31_mul32 (m31_add32 (col ! k) (col ! (n - 1 - k))) two_inv) [0..<half]
      in eval_bary col_even xs_half weights_half z)"

section \<open>Lagrange interpolation\<close>

definition lagrange :: "(nat \<Rightarrow> 'a::field) \<Rightarrow> nat set \<Rightarrow> nat \<Rightarrow> 'a \<Rightarrow> 'a" where
  "lagrange x S i z = (\<Prod>j\<in>S - {i}. (z - x j) / (x i - x j))"

fun poly_eval :: "'a::field list \<Rightarrow> 'a \<Rightarrow> 'a" where
  "poly_eval [] z = 0"
| "poly_eval (c # cs) z = c + z * poly_eval cs z"

lemma lagrange_remove:
  assumes "finite S" "k \<in> S" "i \<in> S" "k \<noteq> i" "inj_on x S"
  shows "(z - x k) * lagrange x (S - {k}) i z = (x i - x k) * lagrange x S i z"
proof -
  have "S - {i} = insert k (S - {k} - {i})" using assms by auto
  then have "lagrange x S i z = (z - x k) / (x i - x k) * lagrange x (S - {k}) i z"
    using assms(1) by (simp add: lagrange_def)
  moreover have "x i \<noteq> x k" using assms by (metis inj_on_def)
  ultimately show ?thesis by simp
qed

lemma lagrange_sum: "finite S \<Longrightarrow> S \<noteq> {} \<Longrightarrow> inj_on x S \<Longrightarrow> (\<Sum>i\<in>S. lagrange x S i z) = 1"
proof (induction "card S" arbitrary: S rule: less_induct)
  case less
  show ?case
  proof (cases "\<exists>a. S = {a}")
    case True
    then show ?thesis by (auto simp: lagrange_def)
  next
    case False
    then obtain a b where ab: "a \<in> S" "b \<in> S" "a \<noteq> b" using less.prems(2) by blast
    have "card (S - {k}) < card S" if "k \<in> S" for k using less.prems(1) that by (rule card_Diff1_less)
    then have ih: "(\<Sum>i\<in>S - {k}. lagrange x (S - {k}) i z) = 1" if "k \<in> S" "S - {k} \<noteq> {}" for k
      using less.hyps [of "S - {k}"] less.prems that by (auto intro: inj_on_subset)
    have ne: "S - {a} \<noteq> {}" "S - {b} \<noteq> {}" using ab by auto
    have step: "(z - x k) * (\<Sum>i\<in>S - {k}. lagrange x (S - {k}) i z) = (\<Sum>i\<in>S. (x i - x k) * lagrange x S i z)" if "k \<in> S" for k
    proof -
      have "(z - x k) * (\<Sum>i\<in>S - {k}. lagrange x (S - {k}) i z) = (\<Sum>i\<in>S - {k}. (x i - x k) * lagrange x S i z)"
        unfolding sum_distrib_left
        by (rule sum.cong) (use lagrange_remove [OF less.prems(1) that _ _ less.prems(3)] in auto)
      also have "\<dots> = (\<Sum>i\<in>S. (x i - x k) * lagrange x S i z)"
        using less.prems(1) that by (subst sum.remove [of S k]) simp_all
      finally show ?thesis .
    qed
    have "(z - x a) - (z - x b) = (\<Sum>i\<in>S. (x i - x a) * lagrange x S i z) - (\<Sum>i\<in>S. (x i - x b) * lagrange x S i z)"
      using step [OF ab(1)] step [OF ab(2)] ih [OF ab(1) ne(1)] ih [OF ab(2) ne(2)] by simp
    also have "\<dots> = (x b - x a) * (\<Sum>i\<in>S. lagrange x S i z)"
      by (simp add: sum_subtractf [symmetric] sum_distrib_left algebra_simps)
    finally have "(x b - x a) * 1 = (x b - x a) * (\<Sum>i\<in>S. lagrange x S i z)" by simp
    moreover have "x b - x a \<noteq> 0" using less.prems(3) ab by (auto simp: inj_on_def)
    ultimately show ?thesis by (metis mult_left_cancel)
  qed
qed

lemma poly_quotient:
  "\<exists>qs. length qs = length cs - 1 \<and> (\<forall>z. poly_eval cs z - poly_eval cs a = (z - a) * poly_eval qs z)"
proof (induction cs)
  case (Cons c cs)
  then obtain qs where q: "length qs = length cs - 1" "\<And>z. poly_eval cs z - poly_eval cs a = (z - a) * poly_eval qs z" by blast
  have add: "\<exists>rs. length rs = length ps \<and> (\<forall>z. poly_eval rs z = poly_eval ps z + a * poly_eval qs z)"
    if "length qs \<le> length ps" for ps qs :: "'a list"
    using that
  proof (induction ps arbitrary: qs)
    case (Cons p ps)
    obtain rs where r: "length rs = length ps" "\<And>z. poly_eval rs z = poly_eval ps z + a * poly_eval (tl qs) z"
    proof -
      have "length (tl qs) \<le> length ps" using Cons.prems by simp
      from Cons.IH [OF this] that show thesis by blast
    qed
    show ?case
    proof (cases qs)
      case Nil
      then show ?thesis by (intro exI [of _ "p # ps"]) simp
    next
      case (Cons q qs')
      then show ?thesis using r by (intro exI [of _ "(p + a * q) # rs"]) (simp add: algebra_simps)
    qed
  qed simp
  obtain rs where r: "length rs = length cs" "\<And>z. poly_eval rs z = poly_eval cs z + a * poly_eval qs z"
    using add [of qs cs] q(1) by auto
  have "poly_eval (c # cs) z - poly_eval (c # cs) a = (z - a) * poly_eval rs z" for z
  proof -
    have "poly_eval (c # cs) z - poly_eval (c # cs) a = (z - a) * poly_eval cs z + a * (poly_eval cs z - poly_eval cs a)"
      by (simp add: algebra_simps)
    also have "\<dots> = (z - a) * poly_eval rs z" unfolding q(2) r(2) by (simp add: algebra_simps)
    finally show ?thesis .
  qed
  with r(1) show ?case by auto
qed auto

text \<open>A polynomial with at most as many coefficients as nodes is its Lagrange interpolant.\<close>

lemma lagrange_poly:
  "finite S \<Longrightarrow> S \<noteq> {} \<Longrightarrow> inj_on x S \<Longrightarrow> length cs \<le> card S \<Longrightarrow>
   (\<Sum>i\<in>S. poly_eval cs (x i) * lagrange x S i z) = poly_eval cs z"
proof (induction "card S" arbitrary: S cs rule: less_induct)
  case less
  obtain k where k: "k \<in> S" using less.prems(2) by blast
  obtain qs where q: "length qs = length cs - 1" "\<And>z. poly_eval cs z - poly_eval cs (x k) = (z - x k) * poly_eval qs z"
    using poly_quotient by blast
  have "(\<Sum>i\<in>S. (poly_eval cs (x i) - poly_eval cs (x k)) * lagrange x S i z)
      = (\<Sum>i\<in>S - {k}. (x i - x k) * lagrange x S i z * poly_eval qs (x i))"
    using less.prems(1) k by (subst sum.remove [of S k]) (simp_all add: q(2) algebra_simps)
  also have "\<dots> = (\<Sum>i\<in>S - {k}. (z - x k) * lagrange x (S - {k}) i z * poly_eval qs (x i))"
    by (rule sum.cong) (use lagrange_remove [OF less.prems(1) k _ _ less.prems(3)] in auto)
  also have "\<dots> = (z - x k) * (\<Sum>i\<in>S - {k}. poly_eval qs (x i) * lagrange x (S - {k}) i z)"
    by (simp add: sum_distrib_left ac_simps)
  also have "(z - x k) * (\<Sum>i\<in>S - {k}. poly_eval qs (x i) * lagrange x (S - {k}) i z) = (z - x k) * poly_eval qs z"
  proof (cases "S = {k}")
    case True
    then have "qs = []" using q(1) less.prems(4) by (simp add: length_0_conv [symmetric] del: length_0_conv)
    then show ?thesis using True by simp
  next
    case False
    then have "S - {k} \<noteq> {}" using k by auto
    moreover have "length qs \<le> card (S - {k})" using q(1) less.prems(1,4) k by simp
    ultimately show ?thesis
      using less.hyps [of "S - {k}" qs] card_Diff1_less [OF less.prems(1) k] less.prems(1,3)
      by (auto intro: inj_on_subset)
  qed
  also have "(z - x k) * poly_eval qs z = poly_eval cs z - poly_eval cs (x k)" by (simp only: q(2))
  also have "(\<Sum>i\<in>S. (poly_eval cs (x i) - poly_eval cs (x k)) * lagrange x S i z)
      = (\<Sum>i\<in>S. poly_eval cs (x i) * lagrange x S i z) - poly_eval cs (x k) * (\<Sum>i\<in>S. lagrange x S i z)"
    by (simp add: left_diff_distrib sum_subtractf sum_distrib_left)
  finally have "(\<Sum>i\<in>S. poly_eval cs (x i) * lagrange x S i z) - poly_eval cs (x k) * (\<Sum>i\<in>S. lagrange x S i z)
      = poly_eval cs z - poly_eval cs (x k)" .
  then show ?case using lagrange_sum [OF less.prems(1-3)] by simp
qed

section \<open>The code computes the Lagrange form\<close>

definition canon_list :: "u32 list \<Rightarrow> bool" where
  "canon_list xs \<longleftrightarrow> (\<forall>x\<in>set xs. canon32 x)"

lemma canon_list_nth: "canon_list xs \<Longrightarrow> i < length xs \<Longrightarrow> canon32 (xs ! i)"
  by (simp add: canon_list_def)

lemma bary_prod_val:
  assumes "canon_list xs" "distinct xs" "i < length xs"
  shows "set js \<subseteq> {..<length xs} \<Longrightarrow> canon32 p \<Longrightarrow> p \<noteq> 0 \<Longrightarrow>
    canon32 (bary_prod (xs ! i) xs i js p) \<and> bary_prod (xs ! i) xs i js p \<noteq> 0
    \<and> fm (bary_prod (xs ! i) xs i js p) = fm p * prod_list (map (\<lambda>j. fm (xs ! i) - fm (xs ! j)) (filter (\<lambda>j. j \<noteq> i) js))"
proof (induction js arbitrary: p)
  case (Cons j js)
  show ?case
  proof (cases "j = i")
    case True
    then show ?thesis using Cons by simp
  next
    case False
    let ?d = "m31_sub32 (xs ! i) (xs ! j)"
    have j: "j < length xs" using Cons.prems(1) by simp
    have c: "canon32 (xs ! i)" "canon32 (xs ! j)" using assms j by (simp_all add: canon_list_nth)
    have d: "canon32 ?d" "fm ?d = fm (xs ! i) - fm (xs ! j)" using c by (simp_all add: canon_intros field_reading)
    have "xs ! i \<noteq> xs ! j" using assms(2,3) j False by (simp add: nth_eq_iff_index_eq)
    then have "fm ?d \<noteq> 0" using c d by (simp add: fm_inj)
    then have nz: "?d \<noteq> 0" "m31_mul32 p ?d \<noteq> 0"
      using d Cons.prems by (auto simp: fm_eq_0 field_reading canon_intros simp flip: fm_eq_0 [of "m31_mul32 p ?d"])
    have m: "canon32 (m31_mul32 p ?d)" "fm (m31_mul32 p ?d) = fm p * (fm (xs ! i) - fm (xs ! j))"
      using Cons.prems d by (simp_all add: canon_intros field_reading)
    have "bary_prod (xs ! i) xs i (j # js) p = bary_prod (xs ! i) xs i js (m31_mul32 p ?d)"
      using False nz(1) by (simp add: Let_def)
    with Cons.IH [OF _ m(1) nz(2)] Cons.prems(1) m(2) False show ?thesis by (simp add: mult.assoc)
  qed
qed simp

lemma prod_list_filter:
  "prod_list (map f (filter (\<lambda>j. j \<noteq> i) [0..<n])) = (\<Prod>j\<in>{..<n} - {i}. f j)" for f :: "nat \<Rightarrow> 'a::field"
proof -
  have "prod_list (map f (filter (\<lambda>j. j \<noteq> i) [0..<n])) = prod f (set (filter (\<lambda>j. j \<noteq> i) [0..<n]))"
    by (subst prod.distinct_set_conv_list) simp_all
  also have "set (filter (\<lambda>j. j \<noteq> i) [0..<n]) = {..<n} - {i}" by auto
  finally show ?thesis .
qed

lemma weights_val:
  assumes "canon_list xs" "distinct xs" "i < length xs"
  shows "canon32 (precompute_bary_weights xs ! i)"
    "fm (precompute_bary_weights xs ! i) = inverse (\<Prod>j\<in>{..<length xs} - {i}. fm (xs ! i) - fm (xs ! j))"
proof -
  have "set [0..<length xs] \<subseteq> {..<length xs}" by auto
  from bary_prod_val [OF assms this, of 1]
  have p: "canon32 (bary_prod (xs ! i) xs i [0..<length xs] 1)" "bary_prod (xs ! i) xs i [0..<length xs] 1 \<noteq> 0"
    "fm (bary_prod (xs ! i) xs i [0..<length xs] 1) = (\<Prod>j\<in>{..<length xs} - {i}. fm (xs ! i) - fm (xs ! j))"
    by (simp_all add: prod_list_filter)
  have "precompute_bary_weights xs ! i = m31_inv (bary_prod (xs ! i) xs i [0..<length xs] 1)"
    using assms(3) p(2) by (simp add: precompute_bary_weights_def Let_def)
  with p show "canon32 (precompute_bary_weights xs ! i)"
    "fm (precompute_bary_weights xs ! i) = inverse (\<Prod>j\<in>{..<length xs} - {i}. fm (xs ! i) - fm (xs ! j))"
    by (simp_all add: canon_inv fm_inv)
qed

lemma length_weights [simp]: "length (precompute_bary_weights xs) = length xs"
  by (simp add: precompute_bary_weights_def)

lemma bary_loop_val:
  assumes "canon_list vals" "canon_list xs" "canon_list ws" "length xs = length vals" "length ws = length vals" "canon_q z"
    "\<forall>i<length vals. fq z \<noteq> fm (xs ! i)"
  shows "set is \<subseteq> {..<length vals} \<Longrightarrow> canon_q num \<Longrightarrow> canon_q den \<Longrightarrow>
    canon_q (bary_loop vals xs ws z is num den) \<and>
    fq (bary_loop vals xs ws z is num den)
      = (fq num + (\<Sum>i\<leftarrow>is. inverse (fq z - fm (xs ! i)) * fm (ws ! i) * fm (vals ! i)))
        / (fq den + (\<Sum>i\<leftarrow>is. inverse (fq z - fm (xs ! i)) * fm (ws ! i)))"
proof (induction "is" arbitrary: num den)
  case (Cons i js)
  have i: "i < length vals" using Cons.prems(1) by simp
  then have c: "canon32 (xs ! i)" "canon32 (ws ! i)" "canon32 (vals ! i)" using assms by (simp_all add: canon_list_nth)
  let ?zi = "qm31_sub_m31 z (xs ! i)"
  have z: "canon_q ?zi" "fq ?zi = fq z - fm (xs ! i)" using assms(6) c by (simp_all add: canon_intros field_reading)
  have "fq ?zi \<noteq> 0" using z(2) assms(7) i by simp
  then have nz: "?zi \<noteq> 0" by auto
  let ?w = "qm31_mul_m31 (qm31_inv ?zi) (ws ! i)"
  have w: "canon_q ?w" "fq ?w = inverse (fq z - fm (xs ! i)) * fm (ws ! i)"
    using z c by (simp_all add: canon_intros field_reading)
  have "bary_loop vals xs ws z (i # js) num den = bary_loop vals xs ws z js (qm31_add num (qm31_mul_m31 ?w (vals ! i))) (qm31_add den ?w)"
    using nz by (simp add: Let_def)
  with Cons.IH [of "qm31_add num (qm31_mul_m31 ?w (vals ! i))" "qm31_add den ?w"] Cons.prems w c
  show ?case by (simp add: canon_intros field_reading add.assoc)
qed (simp add: canon_q_div fq_ops)

lemma bary_loop_node:
  assumes "canon_list xs" "distinct xs" "canon_q z" "k < length xs" "fq z = fm (xs ! k)"
  shows "k \<in> set is \<Longrightarrow> set is \<subseteq> {..<length xs} \<Longrightarrow> bary_loop vals xs ws z is num den = qm31_from_m31 (vals ! k)"
proof (induction "is" arbitrary: num den)
  case (Cons i js)
  have c: "canon32 (xs ! i)" "canon32 (xs ! k)" using assms Cons.prems by (simp_all add: canon_list_nth)
  let ?zi = "qm31_sub_m31 z (xs ! i)"
  have z: "canon_q ?zi" "fq ?zi = fm (xs ! k) - fm (xs ! i)" using assms(3,5) c by (simp_all add: canon_intros field_reading)
  have "?zi = 0 \<longleftrightarrow> xs ! k = xs ! i" using z c by (simp add: fm_inj flip: fq_eq_0)
  also have "\<dots> \<longleftrightarrow> k = i" using assms(2,4) Cons.prems(2) by (simp add: nth_eq_iff_index_eq)
  finally show ?case using Cons by (cases "k = i") (auto simp: Let_def)
qed simp

lemma inj_nodes: "canon_list xs \<Longrightarrow> distinct xs \<Longrightarrow> inj_on (\<lambda>i. fm (xs ! i)) {..<length xs}"
  by (rule inj_onI) (simp add: fm_inj canon_list_nth nth_eq_iff_index_eq)

lemma eval_bary_lagrange:
  assumes "canon_list vals" "canon_list xs" "distinct xs" "length vals = length xs" "xs \<noteq> []" "canon_q z"
  shows "canon_q (eval_bary vals xs (precompute_bary_weights xs) z)"
    "fq (eval_bary vals xs (precompute_bary_weights xs) z)
      = (\<Sum>i<length xs. fm (vals ! i) * lagrange (\<lambda>i. fm (xs ! i)) {..<length xs} i (fq z))"
proof -
  let ?ws = "precompute_bary_weights xs" and ?n = "length xs" and ?S = "{..<length xs}"
  let ?x = "\<lambda>i. fm (xs ! i)"
  note inj = inj_nodes [OF assms(2,3)]
  have ne: "?S \<noteq> {}" "finite ?S" using assms(5) by auto
  have "canon_q (eval_bary vals xs ?ws z) \<and> fq (eval_bary vals xs ?ws z) = (\<Sum>i<?n. fm (vals ! i) * lagrange ?x ?S i (fq z))"
  proof (cases "\<exists>k<?n. fq z = ?x k")
    case True
    then obtain k where k: "k < ?n" "fq z = ?x k" by blast
    have e: "eval_bary vals xs ?ws z = qm31_from_m31 (vals ! k)"
      unfolding eval_bary_def using bary_loop_node [OF assms(2,3,6) k] k(1) assms(4) by (simp add: atLeast0LessThan subset_eq)
    have l: "lagrange ?x ?S i (fq z) = (if i = k then 1 else 0)" if "i < ?n" for i
    proof (cases "i = k")
      case True
      have "?x k - ?x j \<noteq> 0" if "j \<in> ?S - {k}" for j using inj k(1) that by (auto simp: inj_on_def)
      then show ?thesis using True by (simp add: lagrange_def k(2))
    next
      case False
      then have "k \<in> ?S - {i}" using k(1) by simp
      then have "(\<Prod>j\<in>?S - {i}. (?x k - ?x j) / (?x i - ?x j)) = 0"
        by (intro prod_zero) (auto intro!: bexI [of _ k])
      then show ?thesis using False by (simp add: lagrange_def k(2))
    qed
    have "(\<Sum>i<?n. fm (vals ! i) * lagrange ?x ?S i (fq z)) = (\<Sum>i<?n. if i = k then fm (vals ! k) else 0)"
      by (rule sum.cong) (simp_all add: l)
    also have "\<dots> = fm (vals ! k)" using k(1) by simp
    finally show ?thesis using canon_list_nth [OF assms(1)] k(1) assms(4) by (simp add: e canon_q_from fm_def)
  next
    case False
    then have nz: "fq z - ?x i \<noteq> 0" if "i < ?n" for i using that by auto
    have wc: "canon_list ?ws"
      using weights_val(1) [OF assms(2,3)] by (auto simp: canon_list_def in_set_conv_nth)
    define Pz where "Pz = (\<Prod>j\<in>?S. fq z - ?x j)"
    have Pz: "Pz \<noteq> 0" unfolding Pz_def using nz by simp
    have tm: "inverse (fq z - ?x i) * fm (?ws ! i) = lagrange ?x ?S i (fq z) / Pz" if "i < ?n" for i
    proof -
      have "Pz = (fq z - ?x i) * (\<Prod>j\<in>?S - {i}. fq z - ?x j)" unfolding Pz_def using that by (simp add: prod.remove)
      then have "(\<Prod>j\<in>?S - {i}. fq z - ?x j) = Pz / (fq z - ?x i)" using nz [OF that] by simp
      then have "lagrange ?x ?S i (fq z) = Pz / (fq z - ?x i) * fm (?ws ! i)"
        unfolding lagrange_def prod_dividef weights_val(2) [OF assms(2,3) that] by (simp add: divide_inverse)
      then show ?thesis using Pz by (simp add: divide_inverse)
    qed
    have "canon_q (eval_bary vals xs ?ws z) \<and> fq (eval_bary vals xs ?ws z) =
       (\<Sum>i\<leftarrow>[0..<?n]. inverse (fq z - ?x i) * fm (?ws ! i) * fm (vals ! i)) / (\<Sum>i\<leftarrow>[0..<?n]. inverse (fq z - ?x i) * fm (?ws ! i))"
      unfolding eval_bary_def
      using bary_loop_val [OF assms(1,2) wc, of z "[0..<?n]" 0 0] assms(4,6) False by (simp add: atLeast0LessThan subset_eq)
    moreover have "(\<Sum>i\<leftarrow>[0..<?n]. inverse (fq z - ?x i) * fm (?ws ! i)) = 1 / Pz"
      using lagrange_sum [OF ne(2,1) inj, of "fq z"] tm
      by (simp add: interv_sum_list_conv_sum_set_nat atLeast0LessThan flip: sum_divide_distrib)
    moreover have "(\<Sum>i\<leftarrow>[0..<?n]. inverse (fq z - ?x i) * fm (?ws ! i) * fm (vals ! i))
        = (\<Sum>i<?n. fm (vals ! i) * lagrange ?x ?S i (fq z)) / Pz"
      using tm by (simp add: interv_sum_list_conv_sum_set_nat atLeast0LessThan sum_divide_distrib mult.commute)
    ultimately show ?thesis using Pz by simp
  qed
  then show "canon_q (eval_bary vals xs ?ws z)" "fq (eval_bary vals xs ?ws z) = (\<Sum>i<?n. fm (vals ! i) * lagrange ?x ?S i (fq z))"
    by simp_all
qed

text \<open>On the values of a polynomial with no more coefficients than nodes, it returns the polynomial's value.\<close>

lemma eval_bary_poly:
  assumes "canon_list vals" "canon_list xs" "distinct xs" "length vals = length xs" "xs \<noteq> []" "canon_q z"
    "length cs \<le> length xs" "\<forall>i<length xs. fm (vals ! i) = poly_eval cs (fm (xs ! i))"
  shows "fq (eval_bary vals xs (precompute_bary_weights xs) z) = poly_eval cs (fq z)"
proof -
  have "{..<length xs} \<noteq> {}" using assms(5) by auto
  from lagrange_poly [OF finite_lessThan this inj_nodes [OF assms(2,3)], of cs "fq z"]
  show ?thesis unfolding eval_bary_lagrange(2) [OF assms(1-6)] using assms(7,8) by simp
qed

text \<open>The even part of a circle polynomial \<open>a(x) + y b(x)\<close> from its values on a domain.\<close>

definition half_xs :: "nat \<Rightarrow> u32 list" where
  "half_xs d = map (\<lambda>k. fst (coset_at d (word_of_nat k))) [0..<2 ^ d div 2]"

lemma half_xs_facts:
  assumes "0 < d" "d \<le> 30"
  shows "canon_list (half_xs d)" "distinct (half_xs d)" "length (half_xs d) = 2 ^ (d - 1)"
proof -
  have h: "2 ^ d div 2 = (2 :: nat) ^ (d - 1)" using assms(1) by (cases d) simp_all
  show "canon_list (half_xs d)" using pt_coset_at(1) [OF assms(2)] by (auto simp: canon_list_def half_xs_def canon_pt_def)
  show "length (half_xs d) = 2 ^ (d - 1)" by (simp add: half_xs_def h)
  show "distinct (half_xs d)"
    unfolding half_xs_def h distinct_map using half_domain_distinct [OF assms] by (auto intro!: inj_onI)
qed

lemma eval_circle_even_poly:
  assumes "0 < d" "d \<le> 30" "canon_list col" "length col = 2 ^ d" "canon_q z" "length as \<le> 2 ^ (d - 1)"
    "\<forall>k<2 ^ d. case coset_at d (word_of_nat k) of (x, y) \<Rightarrow> fm (col ! k) = poly_eval as (fm x) + fm y * poly_eval bs (fm x)"
  shows "fq (eval_circle_even col (half_xs d) (precompute_bary_weights (half_xs d)) z) = poly_eval as (fq z)"
proof -
  note x = half_xs_facts [OF assms(1,2)]
  have h: "2 * 2 ^ (d - 1) = (2 :: nat) ^ d" using assms(1) by (cases d) simp_all
  let ?half = "(2 :: nat) ^ (d - 1)"
  let ?col = "map (\<lambda>k. m31_mul32 (m31_add32 (col ! k) (col ! (length col - 1 - k))) (m31_inv 2)) [0..<?half]"
  have two: "canon32 2" "fm 2 = 2"
  proof -
    show "canon32 2" by (simp add: canon32_def P31_def)
    have "(2 :: u32) = m31_add32 1 1" by (simp add: word_uint_eq_iff m31_add32_uint P31_def)
    then show "fm 2 = 2" using fm_ops(1) [of 1 1] by simp
  qed
  have v: "canon32 (?col ! k) \<and> fm (?col ! k) = poly_eval as (fm (half_xs d ! k))" if "k < ?half" for k
  proof -
    have k: "k < 2 ^ d" "2 ^ d - 1 - k < (2 :: nat) ^ d" using that h by linarith+
    obtain p q where pq: "coset_at d (word_of_nat k) = (p, q)" by force
    have m: "coset_at d (word_of_nat (2 ^ d - 1 - k)) = (p, m31_neg q)" using coset_mirror [OF assms(2) k(1)] pq by simp
    have c: "canon32 q" "canon32 (col ! k)" "canon32 (col ! (2 ^ d - 1 - k))"
      using pt_coset_at(1) [OF assms(2), of "word_of_nat k"] pq k assms(3,4) by (simp_all add: canon_pt_def canon_list_nth)
    have "fm (col ! k) = poly_eval as (fm p) + fm q * poly_eval bs (fm p)"
      "fm (col ! (2 ^ d - 1 - k)) = poly_eval as (fm p) - fm q * poly_eval bs (fm p)"
      using assms(7) [rule_format, OF k(1), unfolded pq] assms(7) [rule_format, OF k(2), unfolded m] c(1)
      by (simp_all add: fm_neg)
    then have "fm (?col ! k) = poly_eval as (fm p)"
      using c two two_qf that assms(4) by (simp add: canon_intros field_reading field_simps)
    moreover have "half_xs d ! k = p" using that h pq by (simp add: half_xs_def flip: h)
    ultimately show ?thesis using c two that assms(4) by (simp add: canon_intros)
  qed
  have "fq (eval_bary ?col (half_xs d) (precompute_bary_weights (half_xs d)) z) = poly_eval as (fq z)"
  proof (rule eval_bary_poly)
    show "canon_list ?col" unfolding canon_list_def in_set_conv_nth using v by auto
  qed (use x v assms(5,6) in auto)
  then show ?thesis by (simp only: eval_circle_even_def Let_def x(3))
qed

section \<open>Properties\<close>

text \<open>
  C15. Out-of-domain evaluation is exact: if the column holds the values of \<open>a(x) + y b(x)\<close> on the domain
  of depth \<open>d\<close>, with at most \<open>2^(d-1)\<close> coefficients in \<open>a\<close>, then \<open>eval_circle_even\<close> returns \<open>a(z)\<close> at
  every point \<open>z\<close>, also at a node.
\<close>

theorem eval_circle_even_exact:
  assumes "0 < d" "d \<le> 30" "canon_list col" "length col = 2 ^ d" "canon_q z" "length as \<le> 2 ^ (d - 1)"
    "\<forall>k<2 ^ d. fm (col ! k) = poly_eval as (fm (fst (coset_at d (word_of_nat k))))
      + fm (snd (coset_at d (word_of_nat k))) * poly_eval bs (fm (fst (coset_at d (word_of_nat k))))"
  shows "fq (eval_circle_even col (half_xs d) (precompute_bary_weights (half_xs d)) z) = poly_eval as (fq z)"
  by (rule eval_circle_even_poly [OF assms(1-6)]) (use assms(7) in \<open>auto simp: split_def\<close>)

theorem eval_circle_even_exact_witness:
  "fq (eval_circle_even [9, 9, 9, 9] (half_xs 2) (precompute_bary_weights (half_xs 2)) 0) = fm 9"
proof -
  have "fq (eval_circle_even [9, 9, 9, 9] (half_xs 2) (precompute_bary_weights (half_xs 2)) 0) = poly_eval [fm 9] (fq 0)"
  proof (rule eval_circle_even_exact [where bs = "[]"])
    have "[9, 9, 9, 9] ! k = (9 :: u32)" if "k < 4" for k
      using that by (cases k; cases "k - 1"; cases "k - 2"; cases "k - 3") (auto simp: nth_Cons')
    then show "\<forall>k<2 ^ 2. fm ([9, 9, 9, 9] ! k) = poly_eval [fm 9] (fm (fst (coset_at 2 (word_of_nat k))))
      + fm (snd (coset_at 2 (word_of_nat k))) * poly_eval [] (fm (fst (coset_at 2 (word_of_nat k))))" by simp
  qed (simp_all add: canon_list_def canon32_def P31_def)
  then show ?thesis by simp
qed

end
