(* ===== verification/Channels.thy ===== *)
theory Channels
  imports Merkle_T8 M31_Ext
begin

unbundle bit_operations_syntax

text \<open>
  The hash backends of \<open>vfri2_bridge.rs\<close>: Merkle nodes of width 4 and 16 and over Blake2s, and the
  Fiat-Shamir channels over Blake2s and over Poseidon2 of width 4, 8 and 16; with the channel state
  of \<open>recursive/channel_t8_air.rs\<close>, which runs a transcript given as a list of steps. Blake2s is code
  of another crate: a function from bytes to digests, an argument of the definitions that use it.
\<close>

section \<open>Nodes and trees\<close>

definition be_word :: "bytes \<Rightarrow> nat \<Rightarrow> u32" where
  "be_word node off = u32_from_be (take 4 (drop off node))"

definition pack_p2t4 :: "u64 \<Rightarrow> u64 \<Rightarrow> bytes" where
  "pack_p2t4 s0 s1 = replicate 24 0 @ u32_to_be (ucast s0) @ u32_to_be (ucast s1)"

definition hash_leaf_cols_p2t4 :: "u32 list \<Rightarrow> bytes" where
  "hash_leaf_cols_p2t4 col_values =
     (let s = sponge_t4 (map ucast col_values) in pack_p2t4 (s ! 0) (s ! 1))"

definition hash_pair_p2t4 :: "bytes \<Rightarrow> bytes \<Rightarrow> bytes" where
  "hash_pair_p2t4 left right =
     (let l0 = ucast (be_word left 24); l1 = ucast (be_word left 28);
          r0 = ucast (be_word right 24); r1 = ucast (be_word right 28);
          s = compress_t4 [l0, l1] [r0, r1]
      in pack_p2t4 (s ! 0) (s ! 1))"

definition hash_leaf_qm31_p2t4 :: "u128 \<Rightarrow> bytes" where
  "hash_leaf_qm31_p2t4 value =
     (let s = sponge_t4 (map ucast (qm31_words value)) in pack_p2t4 (s ! 0) (s ! 1))"

text \<open>\<open>build_tree*\<close> assert a power of two (\<open>None\<close> is the panic).\<close>

definition build_tree_with :: "(bytes \<Rightarrow> bytes \<Rightarrow> bytes) \<Rightarrow> bytes list \<Rightarrow> bytes list list option" where
  "build_tree_with hash_pair leaves =
     (if leaves \<noteq> [] \<and> length leaves AND (length leaves - 1) = 0
      then Some (tree_levels hash_pair leaves) else None)"

definition build_tree_p2t4 :: "bytes list \<Rightarrow> bytes list list option" where
  "build_tree_p2t4 leaves = build_tree_with hash_pair_p2t4 leaves"

definition hash_leaf_qm31_p2t8 :: "u128 \<Rightarrow> bytes" where
  "hash_leaf_qm31_p2t8 value =
     (let s = sponge_t8 (map ucast (qm31_words value)) in p2t8_pack [s ! 0, s ! 1, s ! 2, s ! 3])"

definition p2t16_node_words :: "bytes \<Rightarrow> u64 list" where
  "p2t16_node_words node = map (\<lambda>k. ucast (be_word node (4 * k))) [0..<8]"

definition p2t16_pack :: "u64 list \<Rightarrow> bytes" where
  "p2t16_pack words = concat (map (\<lambda>k. u32_to_be (ucast (words ! k))) [0..<8])"

definition hash_leaf_cols_p2t16 :: "u32 list \<Rightarrow> bytes" where
  "hash_leaf_cols_p2t16 col_values =
     (let s = sponge_t16 (map ucast col_values)
      in p2t16_pack [s ! 0, s ! 1, s ! 2, s ! 3, s ! 4, s ! 5, s ! 6, s ! 7])"

definition hash_pair_p2t16 :: "bytes \<Rightarrow> bytes \<Rightarrow> bytes" where
  "hash_pair_p2t16 left right = p2t16_pack (compress_t16 (p2t16_node_words left) (p2t16_node_words right))"

definition hash_leaf_qm31_p2t16 :: "u128 \<Rightarrow> bytes" where
  "hash_leaf_qm31_p2t16 value =
     (let s = sponge_t16 (map ucast (qm31_words value))
      in p2t16_pack [s ! 0, s ! 1, s ! 2, s ! 3, s ! 4, s ! 5, s ! 6, s ! 7])"

definition build_tree_p2t16 :: "bytes list \<Rightarrow> bytes list list option" where
  "build_tree_p2t16 leaves = build_tree_with hash_pair_p2t16 leaves"

text \<open>Blake2s leaves and nodes.\<close>

definition u32_to_le :: "u32 \<Rightarrow> bytes" where
  "u32_to_le w = map (\<lambda>i. ucast (drop_bit (8 * i) w)) [0..<4]"

definition u32_of_le :: "bytes \<Rightarrow> u32" where
  "u32_of_le bs = foldr (\<lambda>b acc. push_bit 8 acc OR ucast b) bs 0"

definition hash_leaf_cols :: "(bytes \<Rightarrow> bytes) \<Rightarrow> u32 list \<Rightarrow> bytes" where
  "hash_leaf_cols blake2s col_values = blake2s (concat (map u32_to_le col_values))"

definition hash_leaf_qm31 :: "(bytes \<Rightarrow> bytes) \<Rightarrow> u128 \<Rightarrow> bytes" where
  "hash_leaf_qm31 blake2s value = blake2s (concat (map u32_to_le (qm31_words value)))"

definition hash_pair :: "(bytes \<Rightarrow> bytes) \<Rightarrow> bytes \<Rightarrow> bytes \<Rightarrow> bytes" where
  "hash_pair blake2s left right = blake2s (left @ right)"

definition build_tree :: "(bytes \<Rightarrow> bytes) \<Rightarrow> bytes list \<Rightarrow> bytes list list option" where
  "build_tree blake2s leaves = build_tree_with (hash_pair blake2s) leaves"

text \<open>Siblings from the leaf level up to the level below the root; an index out of range panics.\<close>

fun proof_path_loop :: "bytes list list \<Rightarrow> nat \<Rightarrow> bytes list option" where
  "proof_path_loop [] index = Some []"
| "proof_path_loop (level # levels) index =
     (if index XOR 1 < length level
      then map_option (\<lambda>siblings. level ! (index XOR 1) # siblings) (proof_path_loop levels (drop_bit 1 index))
      else None)"

definition proof_path :: "bytes list list \<Rightarrow> nat \<Rightarrow> bytes list option" where
  "proof_path levels index =
     (if levels = [] then None else proof_path_loop (take (length levels - 1) levels) index)"

section \<open>The Blake2s channel\<close>

record Channel =
  digest :: bytes
  ch_draws :: u32

definition blake2s_m31_hash :: "(bytes \<Rightarrow> bytes) \<Rightarrow> bytes \<Rightarrow> bytes" where
  "blake2s_m31_hash blake2s data =
     (let raw = blake2s data
      in concat (map (\<lambda>i. let w = u32_of_le (take 4 (drop (i * 4) raw));
                             r = (w AND 0x7FFFFFFF) + drop_bit 31 w;
                             r = (if r \<ge> ucast PR then r - ucast PR else r)
                         in u32_to_le r) [0..<8]))"

definition channel_init :: Channel where
  "channel_init = \<lparr>digest = replicate 32 0, ch_draws = 0\<rparr>"

definition channel_mix_root :: "(bytes \<Rightarrow> bytes) \<Rightarrow> bytes \<Rightarrow> Channel \<Rightarrow> Channel" where
  "channel_mix_root blake2s rt c = c\<lparr>digest := blake2s_m31_hash blake2s (digest c @ rt), ch_draws := 0\<rparr>"

definition channel_mix_u32s :: "(bytes \<Rightarrow> bytes) \<Rightarrow> u32 list \<Rightarrow> Channel \<Rightarrow> Channel" where
  "channel_mix_u32s blake2s words c =
     c\<lparr>digest := blake2s_m31_hash blake2s (digest c @ concat (map u32_to_le words)), ch_draws := 0\<rparr>"

definition channel_draw_raw :: "(bytes \<Rightarrow> bytes) \<Rightarrow> Channel \<Rightarrow> bytes \<times> Channel" where
  "channel_draw_raw blake2s c =
     (let result = blake2s_m31_hash blake2s (digest c @ u32_to_le (ch_draws c) @ [0])
      in (result, c\<lparr>ch_draws := ch_draws c + 1\<rparr>))"

definition channel_draw_secure_felt :: "(bytes \<Rightarrow> bytes) \<Rightarrow> Channel \<Rightarrow> u128 \<times> Channel" where
  "channel_draw_secure_felt blake2s c =
     (let (raw, c) = channel_draw_raw blake2s c;
          w0 = u32_of_le (take 4 raw);
          w1 = u32_of_le (take 4 (drop 4 raw));
          w2 = u32_of_le (take 4 (drop 8 raw));
          w3 = u32_of_le (take 4 (drop 12 raw))
      in (qm31_pack_c (cm31_pack w0 w1) (cm31_pack w2 w3), c))"

text \<open>
  \<open>draw_queries\<close>: each draw gives eight words; the loop over \<open>raw.chunks(4)\<close> breaks when \<open>n\<close> queries
  are collected.
\<close>

definition query_mask :: "nat \<Rightarrow> u32" where
  "query_mask log_domain_size = ucast (push_bit log_domain_size 1 - 1 :: u64)"

fun channel_push :: "u32 \<Rightarrow> nat \<Rightarrow> bytes \<Rightarrow> nat list \<Rightarrow> nat list \<Rightarrow> nat list" where
  "channel_push m n raw [] queries = queries"
| "channel_push m n raw (i # is) queries =
     (if length queries \<ge> n then queries
      else channel_push m n raw is (queries @ [unat (u32_of_le (take 4 (drop (4 * i) raw)) AND m)]))"

lemma channel_push_grows: "length queries < n \<Longrightarrow> length queries < length (channel_push m n raw (i # is) queries)"
proof -
  have "length qs \<le> length (channel_push m n raw js qs)" for js qs
    by (induction m n raw js qs rule: channel_push.induct) auto
  from this [of "queries @ [unat (u32_of_le (take 4 (drop (4 * i) raw)) AND m)]" "is"] show ?thesis
    if "length queries < n" using that by simp
qed

function channel_query_loop :: "(bytes \<Rightarrow> bytes) \<Rightarrow> u32 \<Rightarrow> nat \<Rightarrow> nat list \<Rightarrow> Channel \<Rightarrow> nat list \<times> Channel" where
  "channel_query_loop blake2s m n queries c =
     (if length queries < n
      then let (raw, c) = channel_draw_raw blake2s c
           in channel_query_loop blake2s m n (channel_push m n raw [0..<8] queries) c
      else (queries, c))"
  by pat_completeness auto
termination
proof (relation "measure (\<lambda>(b, m, n, queries, c). n - length queries)", simp)
  fix blake2s :: "bytes \<Rightarrow> bytes" and m n and queries :: "nat list" and c x raw c'
  assume "length queries < n"
  moreover have "[0..<8] = 0 # [1..<8]" by (simp add: upt_conv_Cons)
  ultimately have "length queries < length (channel_push m n raw [0..<8] queries)" using channel_push_grows by metis
  with \<open>length queries < n\<close>
  show "((blake2s, m, n, channel_push m n raw [0..<8] queries, c'), blake2s, m, n, queries, c)
      \<in> measure (\<lambda>(b, m, n, queries, c). n - length queries)" by simp
qed

declare channel_query_loop.simps [simp del]

definition channel_draw_queries :: "(bytes \<Rightarrow> bytes) \<Rightarrow> nat \<Rightarrow> nat \<Rightarrow> Channel \<Rightarrow> nat list \<times> Channel" where
  "channel_draw_queries blake2s log_domain_size n c = channel_query_loop blake2s (query_mask log_domain_size) n [] c"

section \<open>The Poseidon2 channels\<close>

text \<open>The state of \<open>P2T4Channel\<close>, \<open>P2T8Channel\<close> and \<open>P2T16Channel\<close>: the cells and the draw counter.\<close>

record P2TChannel =
  cells :: "u64 list"
  n_draws :: u32

definition reduce_word :: "u32 \<Rightarrow> u64" where
  "reduce_word word =
     (let w = ucast word;
          w = (if w \<ge> M31_P then w - M31_P else w)
      in if w \<ge> M31_P then w - M31_P else w)"

definition reset_draws :: "P2TChannel \<Rightarrow> P2TChannel" where
  "reset_draws c = c\<lparr>n_draws := 0\<rparr>"

definition root_word_list :: "bytes \<Rightarrow> nat list \<Rightarrow> u32 list" where
  "root_word_list rt offsets = map (be_word rt) offsets"

text \<open>\<open>draw_pair\<close> and what is built on it, for a permutation.\<close>

definition chan_draw_pair :: "(u64 list \<Rightarrow> u64 list) \<Rightarrow> P2TChannel \<Rightarrow> (u32 \<times> u32) \<times> P2TChannel" where
  "chan_draw_pair perm c =
     (let s = cells c;
          w0 = ucast (s ! 0);
          w1 = ucast (s ! 1);
          s = s[0 := m31_add (s ! 0) (ucast (n_draws c))]
      in ((w0, w1), \<lparr>cells = perm s, n_draws = n_draws c + 1\<rparr>))"

definition chan_draw_secure_felt :: "(u64 list \<Rightarrow> u64 list) \<Rightarrow> P2TChannel \<Rightarrow> u128 \<times> P2TChannel" where
  "chan_draw_secure_felt perm c =
     (let ((w0, w1), c) = chan_draw_pair perm c;
          ((w2, w3), c) = chan_draw_pair perm c
      in (qm31_pack_c (cm31_pack w0 w1) (cm31_pack w2 w3), c))"

function chan_query_loop :: "(u64 list \<Rightarrow> u64 list) \<Rightarrow> u32 \<Rightarrow> nat \<Rightarrow> nat list \<Rightarrow> P2TChannel \<Rightarrow> nat list \<times> P2TChannel" where
  "chan_query_loop perm m n queries c =
     (if length queries < n
      then let ((w0, w1), c) = chan_draw_pair perm c;
               queries = queries @ [unat (w0 AND m)];
               queries = (if length queries < n then queries @ [unat (w1 AND m)] else queries)
           in chan_query_loop perm m n queries c
      else (queries, c))"
  by pat_completeness auto
termination
  by (relation "measure (\<lambda>(perm, m, n, queries, c). n - length queries)") auto

declare chan_query_loop.simps [simp del]

definition chan_draw_queries :: "(u64 list \<Rightarrow> u64 list) \<Rightarrow> nat \<Rightarrow> nat \<Rightarrow> P2TChannel \<Rightarrow> nat list \<times> P2TChannel" where
  "chan_draw_queries perm log_domain_size n c =
     (let (queries, c) = chan_query_loop perm (query_mask log_domain_size) n [] c
      in (take n queries, c))"

text \<open>The rate-1 absorption of width 4 and 8.\<close>

definition chan_absorb :: "(u64 list \<Rightarrow> u64 list) \<Rightarrow> u32 \<Rightarrow> P2TChannel \<Rightarrow> P2TChannel" where
  "chan_absorb perm word c =
     (let s = cells c in c\<lparr>cells := perm (s[0 := m31_add (s ! 0) (reduce_word word)])\<rparr>)"

definition chan_mix_u32s :: "(u64 list \<Rightarrow> u64 list) \<Rightarrow> u32 list \<Rightarrow> P2TChannel \<Rightarrow> P2TChannel" where
  "chan_mix_u32s perm words c = reset_draws (foldl (\<lambda>c w. chan_absorb perm w c) c words)"

definition t4_init :: P2TChannel where "t4_init = \<lparr>cells = replicate 4 0, n_draws = 0\<rparr>"

definition t4_absorb :: "u32 \<Rightarrow> P2TChannel \<Rightarrow> P2TChannel" where
  "t4_absorb word c = chan_absorb permute_t4 word c"

definition t4_mix_root :: "bytes \<Rightarrow> P2TChannel \<Rightarrow> P2TChannel" where
  "t4_mix_root rt c = reset_draws (t4_absorb (be_word rt 28) c)"

definition t4_mix_root_w :: "bytes \<Rightarrow> P2TChannel \<Rightarrow> P2TChannel" where
  "t4_mix_root_w rt c = chan_mix_u32s permute_t4 (root_word_list rt [24, 28]) c"

definition t4_mix_root_full :: "bytes \<Rightarrow> P2TChannel \<Rightarrow> P2TChannel" where
  "t4_mix_root_full rt c = chan_mix_u32s permute_t4 (root_word_list rt (map ((*) 4) [0..<8])) c"

definition t4_mix_u32s :: "u32 list \<Rightarrow> P2TChannel \<Rightarrow> P2TChannel" where
  "t4_mix_u32s words c = chan_mix_u32s permute_t4 words c"

definition t4_draw_pair :: "P2TChannel \<Rightarrow> (u32 \<times> u32) \<times> P2TChannel" where
  "t4_draw_pair c = chan_draw_pair permute_t4 c"

definition t4_draw_secure_felt :: "P2TChannel \<Rightarrow> u128 \<times> P2TChannel" where
  "t4_draw_secure_felt c = chan_draw_secure_felt permute_t4 c"

definition t4_draw_queries :: "nat \<Rightarrow> nat \<Rightarrow> P2TChannel \<Rightarrow> nat list \<times> P2TChannel" where
  "t4_draw_queries log_domain_size n c = chan_draw_queries permute_t4 log_domain_size n c"

definition t8_init :: P2TChannel where "t8_init = \<lparr>cells = replicate 8 0, n_draws = 0\<rparr>"

definition t8_absorb :: "u32 \<Rightarrow> P2TChannel \<Rightarrow> P2TChannel" where
  "t8_absorb word c = chan_absorb permute_t8 word c"

definition t8_mix_root :: "bytes \<Rightarrow> P2TChannel \<Rightarrow> P2TChannel" where
  "t8_mix_root rt c = reset_draws (t8_absorb (be_word rt 28) c)"

definition t8_mix_root_w :: "bytes \<Rightarrow> P2TChannel \<Rightarrow> P2TChannel" where
  "t8_mix_root_w rt c = chan_mix_u32s permute_t8 (root_word_list rt (map (\<lambda>k. 16 + 4 * k) [0..<4])) c"

definition t8_mix_root_full :: "bytes \<Rightarrow> P2TChannel \<Rightarrow> P2TChannel" where
  "t8_mix_root_full rt c = chan_mix_u32s permute_t8 (root_word_list rt (map ((*) 4) [0..<8])) c"

definition t8_mix_u32s :: "u32 list \<Rightarrow> P2TChannel \<Rightarrow> P2TChannel" where
  "t8_mix_u32s words c = chan_mix_u32s permute_t8 words c"

definition t8_draw_pair :: "P2TChannel \<Rightarrow> (u32 \<times> u32) \<times> P2TChannel" where
  "t8_draw_pair c = chan_draw_pair permute_t8 c"

definition t8_draw_secure_felt :: "P2TChannel \<Rightarrow> u128 \<times> P2TChannel" where
  "t8_draw_secure_felt c = chan_draw_secure_felt permute_t8 c"

definition t8_draw_queries :: "nat \<Rightarrow> nat \<Rightarrow> P2TChannel \<Rightarrow> nat list \<times> P2TChannel" where
  "t8_draw_queries log_domain_size n c = chan_draw_queries permute_t8 log_domain_size n c"

text \<open>The rate-8 absorption of width 16: a block of at most 8 words, its length padded into cell 15.\<close>

definition t16_init :: P2TChannel where "t16_init = \<lparr>cells = replicate 16 0, n_draws = 0\<rparr>"

definition absorb_cells :: "u64 list \<Rightarrow> u32 list \<Rightarrow> u64 list" where
  "absorb_cells s words = foldl (\<lambda>s (k, word). s[k := m31_add (s ! k) (reduce_word word)]) s (enumerate 0 words)"

definition t16_absorb_block :: "u32 list \<Rightarrow> P2TChannel \<Rightarrow> P2TChannel" where
  "t16_absorb_block words c =
     (let s = absorb_cells (cells c) words;
          s = (if length words < 8 then s[15 := m31_add (s ! 15) (word_of_nat (8 - length words))] else s)
      in c\<lparr>cells := permute_t16 s\<rparr>)"

function t16_absorb_words :: "u32 list \<Rightarrow> P2TChannel \<Rightarrow> P2TChannel" where
  "t16_absorb_words words c =
     (if words = [] then c else t16_absorb_words (drop 8 words) (t16_absorb_block (take 8 words) c))"
  by pat_completeness auto
termination
  by (relation "measure (\<lambda>(words, c). length words)") auto

declare t16_absorb_words.simps [simp del]

definition t16_mix_root :: "bytes \<Rightarrow> P2TChannel \<Rightarrow> P2TChannel" where
  "t16_mix_root rt c = reset_draws (t16_absorb_block [be_word rt 28] c)"

definition t16_mix_root_full :: "bytes \<Rightarrow> P2TChannel \<Rightarrow> P2TChannel" where
  "t16_mix_root_full rt c = reset_draws (t16_absorb_block (root_word_list rt (map ((*) 4) [0..<8])) c)"

definition t16_mix_root_w :: "bytes \<Rightarrow> P2TChannel \<Rightarrow> P2TChannel" where
  "t16_mix_root_w rt c = t16_mix_root_full rt c"

definition t16_mix_u32s :: "u32 list \<Rightarrow> P2TChannel \<Rightarrow> P2TChannel" where
  "t16_mix_u32s words c = reset_draws (t16_absorb_words words c)"

definition t16_draw_pair :: "P2TChannel \<Rightarrow> (u32 \<times> u32) \<times> P2TChannel" where
  "t16_draw_pair c = chan_draw_pair permute_t16 c"

definition t16_draw_secure_felt :: "P2TChannel \<Rightarrow> u128 \<times> P2TChannel" where
  "t16_draw_secure_felt c = chan_draw_secure_felt permute_t16 c"

definition t16_draw_queries :: "nat \<Rightarrow> nat \<Rightarrow> P2TChannel \<Rightarrow> nat list \<times> P2TChannel" where
  "t16_draw_queries log_domain_size n c = chan_draw_queries permute_t16 log_domain_size n c"

text \<open>
  The channel state of the recursion, with the draw counter reset by every absorption, and its run
  over a transcript.
\<close>

datatype Step = Absorb u32 | Draw

definition step_absorb :: "u32 \<Rightarrow> P2TChannel \<Rightarrow> P2TChannel" where
  "step_absorb word c = reset_draws (chan_absorb permute_t8 word c)"

definition step_draw :: "P2TChannel \<Rightarrow> (u32 \<times> u32) \<times> P2TChannel" where
  "step_draw c = chan_draw_pair permute_t8 c"

definition absorb_all :: "u32 list \<Rightarrow> P2TChannel \<Rightarrow> P2TChannel" where
  "absorb_all words c = foldl (\<lambda>c w. step_absorb w c) c words"

fun run_steps :: "Step list \<Rightarrow> P2TChannel \<Rightarrow> (u32 \<times> u32) list \<times> P2TChannel" where
  "run_steps [] c = ([], c)"
| "run_steps (Absorb w # steps) c = run_steps steps (step_absorb w c)"
| "run_steps (Draw # steps) c =
     (let (p, c) = step_draw c;
          (drawn, c) = run_steps steps c
      in (p # drawn, c))"

fun step_addends_from :: "u32 \<Rightarrow> Step list \<Rightarrow> u64 list" where
  "step_addends_from nd [] = []"
| "step_addends_from nd (Absorb w # steps) = reduce_word w # step_addends_from 0 steps"
| "step_addends_from nd (Draw # steps) = ucast nd # step_addends_from (nd + 1) steps"

definition step_addends :: "Step list \<Rightarrow> u64 list" where
  "step_addends steps = step_addends_from 0 steps"

fun step_states_from :: "P2TChannel \<Rightarrow> Step list \<Rightarrow> u64 list list" where
  "step_states_from c [] = []"
| "step_states_from c (Absorb w # steps) = (let c = step_absorb w c in cells c # step_states_from c steps)"
| "step_states_from c (Draw # steps) = (let c = snd (step_draw c) in cells c # step_states_from c steps)"

definition step_states :: "Step list \<Rightarrow> u64 list list" where
  "step_states steps = cells t8_init # step_states_from t8_init steps"

section \<open>Well-formed channels\<close>

text \<open>Canonical cells, and at most \<open>k\<close> draws since the last absorption.\<close>

definition wf_chan :: "nat \<Rightarrow> nat \<Rightarrow> P2TChannel \<Rightarrow> bool" where
  "wf_chan t k c \<longleftrightarrow> wf_state t (cells c) \<and> unat (n_draws c) \<le> k"

lemma reduce_word_uint: "uint (reduce_word w) = uint w mod P31"
proof -
  have u: "uint (ucast w :: u64) = uint w" by (rule ucast_up_uint)
  have lt: "uint w < 2 ^ 32" using uint_bounded [of w] by simp
  have "uint (reduce_word w) = (let a = uint w; b = (if a \<ge> P31 then a - P31 else a) in if b \<ge> P31 then b - P31 else b)"
    by (simp add: reduce_word_def Let_def cond_sub_u64 u)
  also have "\<dots> = uint w mod P31"
  proof (cases "uint w < P31")
    case False
    have "(uint w - P31) mod P31 = (if uint w - P31 \<ge> P31 then uint w - P31 - P31 else uint w - P31)"
    proof (cases "uint w - P31 \<ge> P31")
      case True
      have "(uint w - P31) mod P31 = (uint w - P31 - P31) mod P31" by (rule minus_mod_self2 [symmetric])
      also have "\<dots> = uint w - P31 - P31" by (rule mod_pos_pos_trivial) (use True lt in \<open>simp_all add: P31_def\<close>)
      finally show ?thesis using True by simp
    next
      case below: False
      show ?thesis using below False by (subst mod_pos_pos_trivial) simp_all
    qed
    moreover have "(uint w - P31) mod P31 = uint w mod P31" by (rule minus_mod_self2)
    ultimately show ?thesis using False by (simp add: Let_def)
  qed (simp add: Let_def)
  finally show ?thesis .
qed

lemma canon_reduce: "canon (reduce_word w)"
  by (simp add: canon_uint reduce_word_uint)

lemma wf_state_update: "wf_state t s \<Longrightarrow> canon x \<Longrightarrow> wf_state t (s[i := x])"
  by (auto simp: wf_state_def dest!: in_set_dropD set_update_subset_insert [THEN subsetD])

lemma wf_state_add: "wf_state t s \<Longrightarrow> i < t \<Longrightarrow> canon x \<Longrightarrow> wf_state t (s[i := m31_add (s ! i) x])"
  by (intro wf_state_update canon_ops wf_state_nth)

lemma canon_ucast32: "canon x \<Longrightarrow> canon32 (ucast x)"
proof -
  assume "canon x"
  then have "uint x < P31" by (simp add: canon_uint)
  then have "uint (ucast x :: u32) = uint x" by (intro ucast_down_uint) (simp add: P31_def)
  with \<open>uint x < P31\<close> show ?thesis by (simp add: canon32_def)
qed

lemma draw_counter_canon: "unat n < 2147483647 \<Longrightarrow> canon (ucast n)" for n :: u32
proof -
  assume "unat n < 2147483647"
  then have "int (unat n) < 2147483647" by linarith
  then have "uint n < 2147483647" by simp
  then show ?thesis by (simp add: canon_uint ucast_up_uint P31_def)
qed

lemma query_mask_less: "k < 32 \<Longrightarrow> unat (w AND query_mask k) < 2 ^ k"
proof -
  assume l: "k < 32"
  have "query_mask k = mask k"
    unfolding query_mask_def by (rule bit_word_eqI) (use l in \<open>auto simp: bit_simps push_bit_eq_mult simp flip: mask_eq_exp_minus_1\<close>)
  then have "w AND query_mask k = take_bit k w" by (simp add: take_bit_eq_mask)
  then show ?thesis by (simp add: unsigned_take_bit_eq)
qed

text \<open>
  The contract of a permutation in a channel; the client lemmas: every operation keeps the cells
  canonical, a felt is a canonical field element, and queries are in range.
\<close>

locale duplex =
  fixes perm :: "u64 list \<Rightarrow> u64 list" and t :: nat
  assumes perm_wf: "wf_state t s \<Longrightarrow> wf_state t (perm s)" and width: "1 < t"
begin

lemma absorption_wf: "wf_chan t k c \<Longrightarrow> wf_chan t k (chan_absorb perm w c)"
  using width by (simp add: wf_chan_def chan_absorb_def Let_def perm_wf wf_state_add canon_reduce)

lemma reset_wf: "wf_chan t k c \<Longrightarrow> wf_chan t 0 (reset_draws c)"
  by (simp add: wf_chan_def reset_draws_def)

lemma mix_wf: "wf_chan t k c \<Longrightarrow> wf_chan t 0 (chan_mix_u32s perm ws c)"
proof -
  assume "wf_chan t k c"
  then have "wf_chan t k (foldl (\<lambda>c w. chan_absorb perm w c) c ws)"
    by (induction ws arbitrary: c) (simp_all add: absorption_wf)
  then show ?thesis unfolding chan_mix_u32s_def by (rule reset_wf)
qed

lemma draw_wf:
  assumes "wf_chan t k c" "k < 2147483647" "chan_draw_pair perm c = ((w0, w1), c')"
  shows "wf_chan t (Suc k) c'" "canon32 w0" "canon32 w1"
proof -
  have s: "wf_state t (cells c)" and n: "unat (n_draws c) \<le> k" using assms(1) by (simp_all add: wf_chan_def)
  have e: "w0 = ucast (cells c ! 0)" "w1 = ucast (cells c ! 1)"
    "c' = \<lparr>cells = perm ((cells c)[0 := m31_add (cells c ! 0) (ucast (n_draws c))]), n_draws = n_draws c + 1\<rparr>"
    using assms(3) by (simp_all add: chan_draw_pair_def Let_def)
  show "canon32 w0" "canon32 w1" using s width by (simp_all add: e canon_ucast32 wf_state_nth)
  have "canon (ucast (n_draws c))" using n assms(2) by (intro draw_counter_canon) simp
  moreover have "unat (n_draws c + 1) \<le> Suc k" using n unat_of_nat [of "unat (n_draws c) + 1", where 'a = 32]
    by (simp add: unat_word_ariths)
  ultimately show "wf_chan t (Suc k) c'" using s width by (simp add: e wf_chan_def perm_wf wf_state_add)
qed

lemma felt_wf:
  assumes "wf_chan t k c" "k + 1 < 2147483647" "chan_draw_secure_felt perm c = (v, c')"
  shows "wf_chan t (k + 2) c'" "canon_q v"
proof -
  obtain w0 w1 c1 where 1: "chan_draw_pair perm c = ((w0, w1), c1)" by (metis surj_pair)
  obtain w2 w3 c2 where 2: "chan_draw_pair perm c1 = ((w2, w3), c2)" by (metis surj_pair)
  have e: "v = qm31_pack_c (cm31_pack w0 w1) (cm31_pack w2 w3)" "c' = c2"
    using assms(3) by (simp_all add: chan_draw_secure_felt_def 1 2)
  note d1 = draw_wf [OF assms(1) _ 1]
  then have "wf_chan t (Suc k) c1" using assms(2) by simp
  note d2 = draw_wf [OF this _ 2]
  show "wf_chan t (k + 2) c'" using d2(1) assms(2) by (simp add: e)
  show "canon_q v" using d1(2,3) d2(2,3) assms(2) by (simp add: e canon_q_def canon_c_def)
qed

lemma query_loop_wf:
  "wf_chan t k c \<Longrightarrow> k + (n - length qs) < 2147483647 \<Longrightarrow> \<forall>q\<in>set qs. q < 2 ^ d \<Longrightarrow> d < 32 \<Longrightarrow> length qs \<le> n \<Longrightarrow>
   chan_query_loop perm (query_mask d) n qs c = (qs', c') \<Longrightarrow>
   length qs' = n \<and> (\<forall>q\<in>set qs'. q < 2 ^ d) \<and> wf_chan t (k + (n - length qs)) c'"
proof (induction "n - length qs" arbitrary: k qs c rule: less_induct)
  case less
  show ?case
  proof (cases "length qs < n")
    case False
    then show ?thesis using less.prems by (subst (asm) chan_query_loop.simps) simp
  next
    case True
    obtain w0 w1 c1 where d: "chan_draw_pair perm c = ((w0, w1), c1)" by (metis surj_pair)
    let ?q1 = "qs @ [unat (w0 AND query_mask d)]"
    let ?qs = "if length ?q1 < n then ?q1 @ [unat (w1 AND query_mask d)] else ?q1"
    have st: "chan_query_loop perm (query_mask d) n ?qs c1 = (qs', c')"
      using less.prems(6) True by (subst (asm) chan_query_loop.simps) (simp add: d Let_def)
    have w: "wf_chan t (Suc k) c1" using draw_wf(1) [OF less.prems(1) _ d] less.prems(2) True by simp
    have r: "\<forall>q\<in>set ?qs. q < 2 ^ d" using less.prems(3) query_mask_less [OF less.prems(4)] by auto
    have l: "length ?qs \<le> n" "n - length ?qs < n - length qs" using True by auto
    have "length qs' = n \<and> (\<forall>q\<in>set qs'. q < 2 ^ d) \<and> wf_chan t (Suc k + (n - length ?qs)) c'"
      by (rule less.hyps [OF l(2) w _ r less.prems(4) l(1) st]) (use less.prems(2) l True in linarith)
    moreover have "Suc k + (n - length ?qs) \<le> k + (n - length qs)" using l(2) by linarith
    ultimately show ?thesis by (auto simp: wf_chan_def)
  qed
qed

lemma queries_wf:
  assumes "wf_chan t k c" "k + n < 2147483647" "d < 32" "chan_draw_queries perm d n c = (qs, c')"
  shows "length qs = n" "\<forall>q\<in>set qs. q < 2 ^ d"
proof -
  obtain qs1 c1 where l: "chan_query_loop perm (query_mask d) n [] c = (qs1, c1)" by force
  have "length qs1 = n \<and> (\<forall>q\<in>set qs1. q < 2 ^ d)"
    using query_loop_wf [OF assms(1) _ _ assms(3) _ l] assms(2) by simp
  with assms(4) show "length qs = n" "\<forall>q\<in>set qs. q < 2 ^ d" by (simp_all add: chan_draw_queries_def l)
qed

end

interpretation d4: duplex permute_t4 4 by unfold_locales (simp_all add: perm_wf)
interpretation d8: duplex permute_t8 8 by unfold_locales (simp_all add: perm_wf)
interpretation d16: duplex permute_t16 16 by unfold_locales (simp_all add: perm_wf)

section \<open>Transcripts as steps\<close>

text \<open>
  Running a list of absorptions is \<open>mix_u32s\<close>, running draws is drawing; the addends and states the
  circuit reads off a transcript are those of the run.
\<close>

lemma run_steps_append:
  "run_steps (xs @ ys) c = (let (d1, c1) = run_steps xs c; (d2, c2) = run_steps ys c1 in (d1 @ d2, c2))"
proof (induction xs arbitrary: c)
  case (Cons st xs)
  show ?case
  proof (cases st)
    case (Absorb w)
    then show ?thesis by (simp add: Cons.IH)
  next
    case Draw
    obtain p c1 where "step_draw c = (p, c1)" by (meson surj_pair)
    then show ?thesis by (simp add: Draw Cons.IH Let_def split_def)
  qed
qed simp

lemma reset_absorb: "chan_absorb perm w (reset_draws c) = reset_draws (chan_absorb perm w c)"
  by (simp add: chan_absorb_def reset_draws_def Let_def)

lemma reset_reset [simp]: "reset_draws (reset_draws c) = reset_draws c"
  by (simp add: reset_draws_def)

lemma absorb_all_mix: "ws \<noteq> [] \<Longrightarrow> absorb_all ws c = chan_mix_u32s permute_t8 ws c"
proof -
  have g: "reset_draws (absorb_all ws c) = chan_mix_u32s permute_t8 ws c" for c
    unfolding absorb_all_def chan_mix_u32s_def
  proof (induction ws arbitrary: c)
    case (Cons w ws)
    have r: "reset_draws (foldl (\<lambda>c w. chan_absorb permute_t8 w c) (reset_draws c) ws)
        = reset_draws (foldl (\<lambda>c w. chan_absorb permute_t8 w c) c ws)" for c
      by (induction ws arbitrary: c) (simp_all add: reset_absorb)
    show ?case using Cons.IH [of "step_absorb w c"] by (simp add: step_absorb_def r)
  qed simp
  assume "ws \<noteq> []"
  then have "reset_draws (absorb_all ws c) = absorb_all ws c"
    by (cases ws rule: rev_cases) (simp_all add: absorb_all_def step_absorb_def)
  with g show ?thesis by metis
qed

lemma run_absorbs: "ws \<noteq> [] \<Longrightarrow> run_steps (map Absorb ws) c = ([], chan_mix_u32s permute_t8 ws c)"
proof -
  have "run_steps (map Absorb ws) c = ([], absorb_all ws c)"
    by (induction ws arbitrary: c) (simp_all add: absorb_all_def)
  then show "ws \<noteq> [] \<Longrightarrow> ?thesis" by (simp add: absorb_all_mix)
qed

lemma length_step_states: "length (step_states steps) = Suc (length steps)"
proof -
  have "length (step_states_from c steps) = length steps" for c
    by (induction c steps rule: step_states_from.induct) (simp_all add: Let_def)
  then show ?thesis by (simp add: step_states_def)
qed

text \<open>Each state is the permutation of the one before with the step's addend in cell 0.\<close>

lemma step_states_chain:
  "i < length steps \<Longrightarrow>
   step_states_from c steps ! i = permute_t8 (((cells c # step_states_from c steps) ! i)[0 := m31_add ((cells c # step_states_from c steps) ! i ! 0)
     (step_addends_from (n_draws c) steps ! i)])"
proof (induction steps arbitrary: c i)
  case (Cons st steps)
  define c1 where "c1 = (case st of Absorb w \<Rightarrow> step_absorb w c | Draw \<Rightarrow> snd (step_draw c))"
  define a where "a = (case st of Absorb w \<Rightarrow> reduce_word w | Draw \<Rightarrow> ucast (n_draws c))"
  have s: "step_states_from c (st # steps) = cells c1 # step_states_from c1 steps"
    by (cases st) (simp_all add: c1_def Let_def)
  have ad: "step_addends_from (n_draws c) (st # steps) = a # step_addends_from (n_draws c1) steps"
    by (cases st) (simp_all add: a_def c1_def step_absorb_def step_draw_def reset_draws_def chan_draw_pair_def Let_def)
  have c1: "cells c1 = permute_t8 ((cells c)[0 := m31_add (cells c ! 0) a])"
    by (cases st) (simp_all add: c1_def a_def step_absorb_def step_draw_def reset_draws_def chan_absorb_def chan_draw_pair_def Let_def)
  show ?case
  proof (cases i)
    case 0
    then show ?thesis by (simp add: s ad c1)
  next
    case (Suc j)
    then show ?thesis using Cons.IH [of j c1] Cons.prems by (simp add: s ad)
  qed
qed simp

end
