(* ===== verification/FRI_Chain.thy ===== *)
theory FRI_Chain
  imports Barycentric Channels Batch_Tree
begin

unbundle bit_operations_syntax

text \<open>
  The Fiat-Shamir and FRI chain of \<open>vfri2_bridge.rs\<close> (\<open>vfri_fri_chain\<close>): the trace commitment, the
  out-of-domain combinations, the composition commitment, the quotient fold, the rounds of line folds
  with their commitments, and the query indices; and the replay of its channel from public data
  (\<open>vfri11_replay_channel\<close>), with the transcript as a list of steps (\<open>vfri11_transcript_steps\<close>).
  A backend is a record of the functions of \<open>P2Chan\<close> and \<open>P2Backend\<close>. The code does not panic where
  the result is a value of the sum type; a panic is the error \<open>Panic\<close>.
\<close>

section \<open>Backends\<close>

record 'c P2Chan =
  ch_init :: 'c
  ch_mix_root_full :: "bytes \<Rightarrow> 'c \<Rightarrow> 'c"
  ch_mix_root_w :: "bytes \<Rightarrow> 'c \<Rightarrow> 'c"
  ch_mix_u32s :: "u32 list \<Rightarrow> 'c \<Rightarrow> 'c"
  ch_draw_secure_felt :: "'c \<Rightarrow> u128 \<times> 'c"
  ch_draw_queries :: "nat \<Rightarrow> nat \<Rightarrow> 'c \<Rightarrow> nat list \<times> 'c"

record 'c P2Backend =
  chan :: "'c P2Chan"
  b_hash_leaf_cols :: "u32 list \<Rightarrow> bytes"
  b_hash_leaf_qm31 :: "u128 \<Rightarrow> bytes"
  b_build_tree :: "bytes list \<Rightarrow> bytes list list option"

definition P2T8Chan :: "P2TChannel P2Chan" where
  "P2T8Chan = \<lparr>ch_init = t8_init, ch_mix_root_full = t8_mix_root_full, ch_mix_root_w = t8_mix_root_w,
     ch_mix_u32s = t8_mix_u32s, ch_draw_secure_felt = t8_draw_secure_felt, ch_draw_queries = t8_draw_queries\<rparr>"

definition P2T16Chan :: "P2TChannel P2Chan" where
  "P2T16Chan = \<lparr>ch_init = t16_init, ch_mix_root_full = t16_mix_root_full, ch_mix_root_w = t16_mix_root_w,
     ch_mix_u32s = t16_mix_u32s, ch_draw_secure_felt = t16_draw_secure_felt, ch_draw_queries = t16_draw_queries\<rparr>"

definition T8Backend :: "P2TChannel P2Backend" where
  "T8Backend = \<lparr>chan = P2T8Chan, b_hash_leaf_cols = hash_leaf_cols_p2t8,
     b_hash_leaf_qm31 = hash_leaf_qm31_p2t8, b_build_tree = build_tree_p2t8\<rparr>"

definition T16Backend :: "P2TChannel P2Backend" where
  "T16Backend = \<lparr>chan = P2T16Chan, b_hash_leaf_cols = hash_leaf_cols_p2t16,
     b_hash_leaf_qm31 = hash_leaf_qm31_p2t16, b_build_tree = build_tree_p2t16\<rparr>"

section \<open>The chain\<close>

datatype fri_error =
    ColsEmpty | RootLength nat | QueryCount nat | TreeDepth nat | ColLength nat nat nat
  | DegenerateDenom nat | ZeroTwiddle nat nat | NumFolds nat nat | NoLayerRoot | TooManyRoots nat
  | NoQueries | ExtractionMismatch nat | Panic

text \<open>The \<open>?\<close> operator.\<close>

definition and_then :: "'e + 'a \<Rightarrow> ('a \<Rightarrow> 'e + 'b) \<Rightarrow> 'e + 'b" where
  "and_then r f = (case r of Inl e \<Rightarrow> Inl e | Inr x \<Rightarrow> f x)"

definition ok_or :: "'e \<Rightarrow> 'a option \<Rightarrow> 'e + 'a" where
  "ok_or e r = (case r of None \<Rightarrow> Inl e | Some x \<Rightarrow> Inr x)"

text \<open>A tree and its root, \<open>levels.last().unwrap()[0]\<close>.\<close>

definition commit :: "'c P2Backend \<Rightarrow> bytes list \<Rightarrow> fri_error + bytes list list \<times> bytes" where
  "commit b leaves =
     and_then (ok_or Panic (b_build_tree b leaves)) (\<lambda>levels.
       if levels = [] \<or> last levels = [] then Inl Panic else Inr (levels, last levels ! 0))"

definition check_cols :: "nat \<Rightarrow> u32 list list \<Rightarrow> fri_error + unit" where
  "check_cols n cols =
     (case filter (\<lambda>(j, col). length col \<noteq> n) (enumerate 0 cols) of
        [] \<Rightarrow> Inr ()
      | (j, col) # _ \<Rightarrow> Inl (ColLength j (length col) n))"

definition trace_root_of :: "'c P2Backend \<Rightarrow> u32 list list \<Rightarrow> nat \<Rightarrow> fri_error + bytes" where
  "trace_root_of b cols tree_depth =
     (let n = 2 ^ tree_depth in
      if cols = [] then Inl ColsEmpty
      else and_then (check_cols n cols) (\<lambda>_.
           and_then (commit b (map (\<lambda>i. b_hash_leaf_cols b (map (\<lambda>c. c ! i) cols)) [0..<n])) (\<lambda>(_, rt).
           Inr rt)))"

definition trace_root_t8 :: "u32 list list \<Rightarrow> nat \<Rightarrow> fri_error + bytes" where
  "trace_root_t8 cols tree_depth = trace_root_of T8Backend cols tree_depth"

text \<open>\<open>\<Sum>j. comp_alpha^j * ev_j\<close>, over extension and base field values.\<close>

definition oods_combo :: "u128 \<Rightarrow> u128 list \<Rightarrow> u128" where
  "oods_combo comp_alpha evs =
     fst (foldl (\<lambda>(acc, ap) ev. (qm31_add acc (qm31_mul ap ev), qm31_mul ap comp_alpha)) (0, qm31_from_m31 1) evs)"

definition comp_value_at :: "u128 \<Rightarrow> u32 list list \<Rightarrow> nat \<Rightarrow> u128" where
  "comp_value_at comp_alpha cols i =
     fst (foldl (\<lambda>(acc, ap) c. (qm31_add acc (qm31_mul_m31 ap (c ! i)), qm31_mul ap comp_alpha))
            (0, qm31_from_m31 1) cols)"

definition combo_words :: "u128 \<Rightarrow> u128 \<Rightarrow> u32 list" where
  "combo_words oods_combo_pos oods_combo_neg =
     (let p = qm31_words oods_combo_pos; nw = qm31_words oods_combo_neg
      in [p ! 0, p ! 1, p ! 2, p ! 3, nw ! 0, nw ! 1, nw ! 2, nw ! 3])"

text \<open>The quotients at a point and at its antipode, folded.\<close>

definition quotient_pos :: "u128 \<Rightarrow> u128 \<Rightarrow> u128 \<Rightarrow> u32 \<Rightarrow> u128" where
  "quotient_pos comp_value combo z_x px = qm31_div (qm31_sub comp_value combo) (qm31_sub (qm31_from_m31 px) z_x)"

definition quotient_neg :: "u128 \<Rightarrow> u128 \<Rightarrow> u128 \<Rightarrow> u32 \<Rightarrow> u128" where
  "quotient_neg comp_value combo z_x px =
     qm31_div (qm31_sub comp_value combo) (qm31_sub (qm31_neg (qm31_from_m31 px)) z_x)"

definition l1_value :: "nat \<Rightarrow> u128 list \<Rightarrow> u128 \<Rightarrow> u128 \<Rightarrow> u128 \<Rightarrow> u128 \<Rightarrow> nat \<Rightarrow> fri_error + u128" where
  "l1_value tree_depth comp_values combo_pos combo_neg z_x fri_alpha q =
     (let anti_q = antipodal_of q tree_depth;
          (px, py) = coset_at tree_depth (word_of_nat q);
          px_qm31 = qm31_from_m31 px;
          denom_pos = qm31_sub px_qm31 z_x;
          denom_neg = qm31_sub (qm31_neg px_qm31) z_x
      in if denom_pos = 0 \<or> denom_neg = 0 then Inl (DegenerateDenom q)
         else let f_plus = qm31_div (qm31_sub (comp_values ! q) combo_pos) denom_pos;
                  f_minus = qm31_div (qm31_sub (comp_values ! anti_q) combo_neg) denom_neg
              in Inr (circle_fold f_plus f_minus fri_alpha (m31_inv py)))"

definition num_folds_of :: "nat \<Rightarrow> nat option \<Rightarrow> fri_error + nat" where
  "num_folds_of tree_depth opt =
     (let max_folds = tree_depth - 1 in
      case opt of None \<Rightarrow> Inr max_folds
      | Some f \<Rightarrow> if f \<ge> 1 \<and> f \<le> max_folds then Inr f else Inl (NumFolds f max_folds))"

text \<open>The rounds of line folds.\<close>

record 'c FoldState =
  fs_chan :: 'c
  fs_values :: "u128 list list"
  fs_levels :: "bytes list list list"
  fs_roots :: "bytes list"
  fs_alphas :: "u128 list"

definition fold_value :: "nat \<Rightarrow> nat \<Rightarrow> u128 \<Rightarrow> u128 list \<Rightarrow> nat \<Rightarrow> nat \<Rightarrow> fri_error + u128" where
  "fold_value tree_depth k alpha_k prev_vals layer_sz j =
     (let x_j = fst (coset_at tree_depth (word_of_nat j));
          twiddle = chebyshev_twiddle x_j k
      in if twiddle = 0 then Inl (ZeroTwiddle k j)
         else Inr (line_fold (prev_vals ! j) (prev_vals ! (j + layer_sz)) alpha_k (m31_inv twiddle)))"

definition fold_round :: "'c P2Backend \<Rightarrow> nat \<Rightarrow> nat \<Rightarrow> 'c FoldState \<Rightarrow> fri_error + 'c FoldState" where
  "fold_round b tree_depth k st =
     (let (alpha_k, c) = ch_draw_secure_felt (chan b) (fs_chan st);
          prev_vals = fs_values st ! k;
          layer_sz = length prev_vals div 2
      in and_then (collect_results (map (fold_value tree_depth k alpha_k prev_vals layer_sz) [0..<layer_sz])) (\<lambda>new_vals.
         and_then (commit b (map (b_hash_leaf_qm31 b) new_vals)) (\<lambda>(new_levels, new_root).
         Inr \<lparr>fs_chan = ch_mix_root_w (chan b) new_root c, fs_values = fs_values st @ [new_vals],
              fs_levels = fs_levels st @ [new_levels], fs_roots = fs_roots st @ [new_root],
              fs_alphas = fs_alphas st @ [alpha_k]\<rparr>)))"

fun fold_rounds :: "'c P2Backend \<Rightarrow> nat \<Rightarrow> nat list \<Rightarrow> 'c FoldState \<Rightarrow> fri_error + 'c FoldState" where
  "fold_rounds b tree_depth [] st = Inr st"
| "fold_rounds b tree_depth (k # ks) st = and_then (fold_round b tree_depth k st) (fold_rounds b tree_depth ks)"

record Vfri11Chain =
  trace_root :: bytes
  z_x :: u128
  comp_alpha :: u128
  oods_combo_pos :: u128
  oods_combo_neg :: u128
  comp_values :: "u128 list"
  comp_levels :: "bytes list list"
  comp_root :: bytes
  fri_alpha :: u128
  fri_alphas :: "u128 list"
  layer_values :: "u128 list list"
  layer_levels :: "bytes list list list"
  layer_roots :: "bytes list"
  num_folds :: nat
  derived_indices :: "nat list"

definition chain_guards :: "u32 list list \<Rightarrow> nat \<Rightarrow> bytes \<Rightarrow> nat \<Rightarrow> fri_error + unit" where
  "chain_guards cols tree_depth batch_merkle_root n_queries =
     (if cols = [] then Inl ColsEmpty
      else if length batch_merkle_root \<noteq> 32 then Inl (RootLength (length batch_merkle_root))
      else if n_queries = 0 \<or> n_queries > 64 then Inl (QueryCount n_queries)
      else if \<not> (2 \<le> tree_depth \<and> tree_depth \<le> 30) then Inl (TreeDepth tree_depth)
      else check_cols (2 ^ tree_depth) cols)"

text \<open>The rounds and the queries, from the committed layer 1 on.\<close>

definition chain_tail ::
  "'c P2Backend \<Rightarrow> nat \<Rightarrow> bytes \<Rightarrow> nat \<Rightarrow> nat option \<Rightarrow> u128 list \<Rightarrow> 'c \<Rightarrow> fri_error + 'c FoldState \<times> nat \<times> nat list" where
  "chain_tail b tree_depth batch_merkle_root n_queries num_folds_opt l1_values c =
     and_then (commit b (map (b_hash_leaf_qm31 b) l1_values)) (\<lambda>(fri_l1_levels, fri_layer1_root).
     let c = ch_mix_root_w (chan b) fri_layer1_root c
     in and_then (num_folds_of tree_depth num_folds_opt) (\<lambda>num_folds.
        and_then (fold_rounds b tree_depth [0..<num_folds]
                    \<lparr>fs_chan = c, fs_values = [l1_values], fs_levels = [fri_l1_levels],
                     fs_roots = [fri_layer1_root], fs_alphas = []\<rparr>) (\<lambda>st.
        let c = ch_mix_root_full (chan b) batch_merkle_root (fs_chan st);
            (derived_indices, c) = ch_draw_queries (chan b) tree_depth n_queries c
        in Inr (st, num_folds, derived_indices))))"

definition vfri_fri_chain ::
  "'c P2Backend \<Rightarrow> u32 list list \<Rightarrow> nat \<Rightarrow> bytes \<Rightarrow> nat \<Rightarrow> nat option \<Rightarrow> fri_error + Vfri11Chain" where
  "vfri_fri_chain b cols tree_depth batch_merkle_root n_queries num_folds_opt =
     and_then (chain_guards cols tree_depth batch_merkle_root n_queries) (\<lambda>_.
     and_then (trace_root_of b cols tree_depth) (\<lambda>trace_root.
     let n = 2 ^ tree_depth;
         c = ch_mix_root_full (chan b) trace_root (ch_init (chan b));
         (z_x, c) = ch_draw_secure_felt (chan b) c;
         (comp_alpha, c) = ch_draw_secure_felt (chan b) c;
         half = n div 2;
         xs_half = map (\<lambda>k. fst (coset_at tree_depth (word_of_nat k))) [0..<half];
         weights_half = precompute_bary_weights xs_half;
         z_neg = qm31_neg z_x;
         oods_evals_pos = map (\<lambda>col. eval_circle_even col xs_half weights_half z_x) cols;
         oods_evals_neg = map (\<lambda>col. eval_circle_even col xs_half weights_half z_neg) cols;
         combo_pos = oods_combo comp_alpha oods_evals_pos;
         combo_neg = oods_combo comp_alpha oods_evals_neg;
         c = ch_mix_u32s (chan b) (combo_words combo_pos combo_neg) c;
         comp_values = map (comp_value_at comp_alpha cols) [0..<n]
     in and_then (commit b (map (b_hash_leaf_qm31 b) comp_values)) (\<lambda>(comp_levels, comp_root).
     let c = ch_mix_root_w (chan b) comp_root c;
         (fri_alpha, c) = ch_draw_secure_felt (chan b) c
     in and_then (collect_results (map (l1_value tree_depth comp_values combo_pos combo_neg z_x fri_alpha) [0..<n])) (\<lambda>l1_values.
        and_then (chain_tail b tree_depth batch_merkle_root n_queries num_folds_opt l1_values c) (\<lambda>(st, num_folds, derived_indices).
        Inr \<lparr>trace_root = trace_root, z_x = z_x, comp_alpha = comp_alpha, oods_combo_pos = combo_pos,
             oods_combo_neg = combo_neg, comp_values = comp_values, comp_levels = comp_levels,
             comp_root = comp_root, fri_alpha = fri_alpha, fri_alphas = fs_alphas st,
             layer_values = fs_values st, layer_levels = fs_levels st, layer_roots = fs_roots st,
             num_folds = num_folds, derived_indices = derived_indices\<rparr>)))))"

definition vfri11_fri_chain :: "u32 list list \<Rightarrow> nat \<Rightarrow> bytes \<Rightarrow> nat \<Rightarrow> nat option \<Rightarrow> fri_error + Vfri11Chain" where
  "vfri11_fri_chain cols tree_depth batch_merkle_root n_queries num_folds_opt =
     vfri_fri_chain T8Backend cols tree_depth batch_merkle_root n_queries num_folds_opt"

section \<open>The channel from public data\<close>

record Vfri11ChannelInputs =
  in_trace_root :: bytes
  in_combo_pos :: u128
  in_combo_neg :: u128
  in_comp_root :: bytes
  in_layer_roots :: "bytes list"
  in_batch_root :: bytes
  in_tree_depth :: nat
  in_n_queries :: nat

record Vfri11ChannelChallenges =
  out_z_x :: u128
  out_comp_alpha :: u128
  out_fri_alpha :: u128
  out_fri_alphas :: "u128 list"
  out_query_indices :: "nat list"

text \<open>One alpha per fold, each followed by the root of the layer it folds into.\<close>

fun replay_rounds :: "'c P2Chan \<Rightarrow> bytes list \<Rightarrow> 'c \<Rightarrow> u128 list \<times> 'c" where
  "replay_rounds ch [] c = ([], c)"
| "replay_rounds ch (rt # roots) c =
     (let (alpha, c) = ch_draw_secure_felt ch c;
          (alphas, c) = replay_rounds ch roots (ch_mix_root_w ch rt c)
      in (alpha # alphas, c))"

definition replay :: "'c P2Chan \<Rightarrow> Vfri11ChannelInputs \<Rightarrow> Vfri11ChannelChallenges \<times> 'c" where
  "replay ch inp =
     (let c = ch_mix_root_full ch (in_trace_root inp) (ch_init ch);
          (z_x, c) = ch_draw_secure_felt ch c;
          (comp_alpha, c) = ch_draw_secure_felt ch c;
          c = ch_mix_u32s ch (combo_words (in_combo_pos inp) (in_combo_neg inp)) c;
          c = ch_mix_root_w ch (in_comp_root inp) c;
          (fri_alpha, c) = ch_draw_secure_felt ch c;
          c = ch_mix_root_w ch (hd (in_layer_roots inp)) c;
          (alphas, c) = replay_rounds ch (tl (in_layer_roots inp)) c;
          c = ch_mix_root_full ch (in_batch_root inp) c;
          (queries, c) = ch_draw_queries ch (in_tree_depth inp) (in_n_queries inp) c
      in (\<lparr>out_z_x = z_x, out_comp_alpha = comp_alpha, out_fri_alpha = fri_alpha, out_fri_alphas = alphas,
           out_query_indices = queries\<rparr>, c))"

definition vfri11_replay_channel :: "Vfri11ChannelInputs \<Rightarrow> fri_error + Vfri11ChannelChallenges" where
  "vfri11_replay_channel inp =
     (if \<not> (2 \<le> in_tree_depth inp \<and> in_tree_depth inp \<le> 30) then Inl (TreeDepth (in_tree_depth inp))
      else if in_n_queries inp = 0 \<or> in_n_queries inp > 64 then Inl (QueryCount (in_n_queries inp))
      else if in_layer_roots inp = [] then Inl NoLayerRoot
      else if length (in_layer_roots inp) > 29 then Inl (TooManyRoots (length (in_layer_roots inp)))
      else Inr (fst (replay P2T8Chan inp)))"

definition full_steps :: "bytes \<Rightarrow> Step list" where
  "full_steps r = map (\<lambda>i. Absorb (be_word r (4 * i))) [0..<8]"

definition wide_steps :: "bytes \<Rightarrow> Step list" where
  "wide_steps r = map (\<lambda>k. Absorb (be_word r (16 + 4 * k))) [0..<4]"

definition felt_steps :: "Step list" where
  "felt_steps = [Draw, Draw]"

definition vfri11_transcript_steps :: "Vfri11ChannelInputs \<Rightarrow> fri_error + Step list" where
  "vfri11_transcript_steps inp =
     (if in_layer_roots inp = [] then Inl NoLayerRoot
      else if in_n_queries inp = 0 then Inl NoQueries
      else Inr (full_steps (in_trace_root inp) @ felt_steps @ felt_steps
                @ map Absorb (combo_words (in_combo_pos inp) (in_combo_neg inp))
                @ wide_steps (in_comp_root inp) @ felt_steps
                @ wide_steps (in_layer_roots inp ! 0)
                @ concat (map (\<lambda>k. felt_steps @ wide_steps (in_layer_roots inp ! (k + 1))) [0..<length (in_layer_roots inp) - 1])
                @ full_steps (in_batch_root inp)
                @ replicate ((in_n_queries inp + 1) div 2) Draw))"

definition chain_inputs :: "Vfri11Chain \<Rightarrow> bytes \<Rightarrow> nat \<Rightarrow> nat \<Rightarrow> Vfri11ChannelInputs" where
  "chain_inputs ch batch_merkle_root tree_depth n_queries =
     \<lparr>in_trace_root = trace_root ch, in_combo_pos = oods_combo_pos ch, in_combo_neg = oods_combo_neg ch,
      in_comp_root = comp_root ch, in_layer_roots = layer_roots ch, in_batch_root = batch_merkle_root,
      in_tree_depth = tree_depth, in_n_queries = n_queries\<rparr>"

section \<open>Results and errors\<close>

lemma and_then_Inr [simp]: "and_then r f = Inr y \<longleftrightarrow> (\<exists>x. r = Inr x \<and> f x = Inr y)"
  by (cases r) (simp_all add: and_then_def)

lemma and_then_Inl: "and_then r f = Inl e \<longleftrightarrow> r = Inl e \<or> (\<exists>x. r = Inr x \<and> f x = Inl e)"
  by (cases r) (simp_all add: and_then_def)

lemma and_then_simps [simp]: "and_then (Inl e) f = Inl e" "and_then (Inr x) f = f x"
  by (simp_all add: and_then_def)

lemma collect_results_Inl: "collect_results rs = Inl e \<Longrightarrow> Inl e \<in> set rs"
  by (induction rs) (auto split: sum.splits)

lemma collect_results_all: "(\<forall>r\<in>set rs. \<exists>x. r = Inr x) \<Longrightarrow> \<exists>xs. collect_results rs = Inr xs"
  by (induction rs) auto

lemma collect_map_Inr: "collect_results (map f xs) = Inr ys \<longleftrightarrow> length ys = length xs \<and> (\<forall>i<length xs. f (xs ! i) = Inr (ys ! i))"
  by (auto simp: collect_results_Inr list_eq_iff_nth_eq)

lemma check_cols_Inr: "check_cols n cols = Inr () \<longleftrightarrow> (\<forall>c\<in>set cols. length c = n)"
proof -
  have "filter (\<lambda>(j, col). length col \<noteq> n) (enumerate k cols) = [] \<longleftrightarrow> (\<forall>c\<in>set cols. length c = n)" for k
    by (induction cols arbitrary: k) auto
  from this [of 0] show ?thesis by (auto simp: check_cols_def split: list.splits)
qed

lemma check_cols_Inl: "check_cols n cols = Inl e \<Longrightarrow> \<exists>j l. e = ColLength j l n"
  by (auto simp: check_cols_def split: list.splits)

section \<open>Specification of the layers\<close>

text \<open>
  \<open>layers_ok b d alphas values trees roots\<close>: layer \<open>k\<close> has \<open>2^(d-k)\<close> values and is committed by its
  tree and root, and layer \<open>k + 1\<close> folds layer \<open>k\<close> with \<open>alphas ! k\<close>.
\<close>

definition fold_of :: "nat \<Rightarrow> nat \<Rightarrow> u128 \<Rightarrow> u128 list \<Rightarrow> nat \<Rightarrow> u128" where
  "fold_of d k alpha vals j =
     line_fold (vals ! j) (vals ! (j + 2 ^ (d - k - 1))) alpha
       (m31_inv (chebyshev_twiddle (fst (coset_at d (word_of_nat j))) k))"

definition layers_ok ::
  "'c P2Backend \<Rightarrow> nat \<Rightarrow> u128 list \<Rightarrow> u128 list list \<Rightarrow> bytes list list list \<Rightarrow> bytes list \<Rightarrow> bool" where
  "layers_ok b d alphas values trees roots \<longleftrightarrow>
     length values = Suc (length alphas) \<and> length trees = length values \<and> length roots = length values
     \<and> (\<forall>k<length values. length (values ! k) = 2 ^ (d - k)
          \<and> commit b (map (b_hash_leaf_qm31 b) (values ! k)) = Inr (trees ! k, roots ! k))
     \<and> (\<forall>k<length alphas. values ! Suc k = map (fold_of d k (alphas ! k) (values ! k)) [0..<2 ^ (d - Suc k)])"

text \<open>The abscissas of the domain, as extension field elements; the out-of-domain point of a chain.\<close>

definition domain_xs :: "nat \<Rightarrow> u128 set" where
  "domain_xs d = (\<lambda>q. qm31_from_m31 (fst (coset_at d (word_of_nat q)))) ` {..<2 ^ d}"

definition oods_point :: "'c P2Backend \<Rightarrow> u32 list list \<Rightarrow> nat \<Rightarrow> u128" where
  "oods_point b cols d =
     (case trace_root_of b cols d of Inl e \<Rightarrow> 0
      | Inr rt \<Rightarrow> fst (ch_draw_secure_felt (chan b) (ch_mix_root_full (chan b) rt (ch_init (chan b)))))"

definition valid_request :: "u32 list list \<Rightarrow> nat \<Rightarrow> bytes \<Rightarrow> nat \<Rightarrow> nat option \<Rightarrow> bool" where
  "valid_request cols d batch_root n_queries opt \<longleftrightarrow>
     cols \<noteq> [] \<and> length batch_root = 32 \<and> 1 \<le> n_queries \<and> n_queries \<le> 64 \<and> 2 \<le> d \<and> d \<le> 30
     \<and> (\<forall>c\<in>set cols. length c = 2 ^ d) \<and> (\<forall>f. opt = Some f \<longrightarrow> 1 \<le> f \<and> f < d)"

definition challenges_of :: "Vfri11Chain \<Rightarrow> Vfri11ChannelChallenges" where
  "challenges_of ch = \<lparr>out_z_x = z_x ch, out_comp_alpha = comp_alpha ch, out_fri_alpha = fri_alpha ch,
     out_fri_alphas = fri_alphas ch, out_query_indices = derived_indices ch\<rparr>"

text \<open>What the chain promises of its result.\<close>

definition chain_ok :: "'c P2Backend \<Rightarrow> u32 list list \<Rightarrow> nat \<Rightarrow> bytes \<Rightarrow> nat \<Rightarrow> Vfri11Chain \<Rightarrow> bool" where
  "chain_ok b cols d batch_root n_queries ch \<longleftrightarrow>
     trace_root_of b cols d = Inr (trace_root ch)
     \<and> oods_combo_pos ch = oods_combo (comp_alpha ch)
          (map (\<lambda>col. eval_circle_even col (half_xs d) (precompute_bary_weights (half_xs d)) (z_x ch)) cols)
     \<and> oods_combo_neg ch = oods_combo (comp_alpha ch)
          (map (\<lambda>col. eval_circle_even col (half_xs d) (precompute_bary_weights (half_xs d)) (qm31_neg (z_x ch))) cols)
     \<and> comp_values ch = map (comp_value_at (comp_alpha ch) cols) [0..<2 ^ d]
     \<and> commit b (map (b_hash_leaf_qm31 b) (comp_values ch)) = Inr (comp_levels ch, comp_root ch)
     \<and> (\<forall>q<2 ^ d. l1_value d (comp_values ch) (oods_combo_pos ch) (oods_combo_neg ch) (z_x ch) (fri_alpha ch) q
          = Inr (layer_values ch ! 0 ! q))
     \<and> layers_ok b d (fri_alphas ch) (layer_values ch) (layer_levels ch) (layer_roots ch)
     \<and> length (fri_alphas ch) = num_folds ch \<and> 1 \<le> num_folds ch \<and> num_folds ch < d
     \<and> length (derived_indices ch) = n_queries \<and> (\<forall>q\<in>set (derived_indices ch). q < 2 ^ d)
     \<and> (\<forall>v\<in>set ([z_x ch, comp_alpha ch, fri_alpha ch] @ fri_alphas ch). canon_q v)
     \<and> fst (replay (chan b) (chain_inputs ch batch_root d n_queries)) = challenges_of ch"

lemma chain_guards_Inr:
  "chain_guards cols d br n = Inr () \<longleftrightarrow> cols \<noteq> [] \<and> length br = 32 \<and> 1 \<le> n \<and> n \<le> 64 \<and> 2 \<le> d \<and> d \<le> 30
     \<and> (\<forall>c\<in>set cols. length c = 2 ^ d)"
  by (auto simp: chain_guards_def check_cols_Inr)

lemma num_folds_Inr: "2 \<le> d \<Longrightarrow> (\<exists>f. num_folds_of d opt = Inr f) \<longleftrightarrow> (\<forall>f. opt = Some f \<longrightarrow> 1 \<le> f \<and> f < d)"
  by (cases opt) (auto simp: num_folds_of_def Let_def split: if_splits)

lemma num_folds_bounds: "num_folds_of d opt = Inr f \<Longrightarrow> 2 \<le> d \<Longrightarrow> 1 \<le> f \<and> f < d"
  by (auto simp: num_folds_of_def Let_def split: option.splits if_splits)

lemma canon_coset: "d \<le> 30 \<Longrightarrow> canon32 (fst (coset_at d q)) \<and> canon32 (snd (coset_at d q))"
  using pt_coset_at(1) [of d q] by (simp add: canon_pt_def)

lemma qm31_sub_eq_0: "canon_q a \<Longrightarrow> canon_q b \<Longrightarrow> qm31_sub a b = 0 \<longleftrightarrow> a = b"
  using fq_eq_0 [of "qm31_sub a b"] fq_inj [of a b] by (simp add: canon_intros fq_ops)

lemma neg_from_m31: "canon32 x \<Longrightarrow> qm31_neg (qm31_from_m31 x) = qm31_from_m31 (m31_neg x)"
  using fq_inj [of "qm31_neg (qm31_from_m31 x)" "qm31_from_m31 (m31_neg x)"] fm_neg [of x]
  by (simp add: canon_intros fq_neg fm_def)

lemma l1_value_Inl:
  assumes "2 \<le> d" "d \<le> 30" "q < 2 ^ d" "canon_q z" "l1_value d cv cp cn z fa q = Inl e"
  shows "e = DegenerateDenom q \<and> z \<in> domain_xs d"
proof -
  let ?x = "fst (coset_at d (word_of_nat q))"
  have c: "canon32 ?x" using canon_coset [OF assms(2)] by simp
  have an: "antipodal_of q d < 2 ^ d" "fst (coset_at d (word_of_nat (antipodal_of q d))) = m31_neg ?x"
    using antipodal_less [of d q] coset_antipodal [of d q] assms(1-3) by simp_all
  from assms(5) have "qm31_sub (qm31_from_m31 ?x) z = 0 \<or> qm31_sub (qm31_neg (qm31_from_m31 ?x)) z = 0"
    and e: "e = DegenerateDenom q"
    by (auto simp: l1_value_def Let_def split_def split: if_splits)
  then have "z = qm31_from_m31 ?x \<or> z = qm31_from_m31 (fst (coset_at d (word_of_nat (antipodal_of q d))))"
    using c assms(4) by (auto simp: qm31_sub_eq_0 canon_intros neg_from_m31 an(2))
  then show ?thesis using e an(1) assms(3) by (auto simp: domain_xs_def)
qed

lemma l1_value_Inr:
  assumes "d \<le> 30" "q < 2 ^ d" "canon_q z" "l1_value d cv cp cn z fa q = Inr v"
  shows "z \<noteq> qm31_from_m31 (fst (coset_at d (word_of_nat q)))"
  using assms canon_coset [OF assms(1), of "word_of_nat q"]
  by (auto simp: l1_value_def Let_def split_def qm31_sub_eq_0 canon_intros split: if_splits)

lemma l1_values_result:
  assumes "2 \<le> d" "d \<le> 30" "canon_q z"
  shows "(\<exists>vs. collect_results (map (l1_value d cv cp cn z fa) [0..<2 ^ d]) = Inr vs) \<and> z \<notin> domain_xs d
    \<or> (\<exists>q. collect_results (map (l1_value d cv cp cn z fa) [0..<2 ^ d]) = Inl (DegenerateDenom q)) \<and> z \<in> domain_xs d"
proof (cases "collect_results (map (l1_value d cv cp cn z fa) [0..<2 ^ d])")
  case (Inl e)
  from collect_results_Inl [OF this] obtain q where "q < 2 ^ d" "l1_value d cv cp cn z fa q = Inl e" by force
  then show ?thesis using l1_value_Inl [OF assms(1,2) _ assms(3)] Inl by blast
next
  case (Inr vs)
  then have "l1_value d cv cp cn z fa q = Inr (vs ! q)" if "q < 2 ^ d" for q using that by (simp add: collect_map_Inr)
  then have "z \<noteq> qm31_from_m31 (fst (coset_at d (word_of_nat q)))" if "q < 2 ^ d" for q
    using l1_value_Inr [OF assms(2) that assms(3)] that by blast
  then have "z \<notin> domain_xs d" by (auto simp: domain_xs_def)
  then show ?thesis using Inr by simp
qed

section \<open>The contract of a backend\<close>

text \<open>
  What the chain needs of a backend: its tree is the binary tree of a pair hash; from a well-formed
  channel with few draws every operation gives a well-formed one, a felt is canonical and queries are in
  range. \<open>wf k c\<close> allows \<open>k\<close> draws since the last absorption.
\<close>

locale p2_backend =
  fixes b :: "'c P2Backend" and hp :: "bytes \<Rightarrow> bytes \<Rightarrow> bytes" and wf :: "nat \<Rightarrow> 'c \<Rightarrow> bool"
  assumes build: "b_build_tree b leaves = build_tree_with hp leaves"
    and init_wf: "wf 0 (ch_init (chan b))"
    and root_wf: "wf k c \<Longrightarrow> wf 0 (ch_mix_root_full (chan b) rt c)"
    and node_wf: "wf k c \<Longrightarrow> wf 0 (ch_mix_root_w (chan b) rt c)"
    and words_wf: "wf k c \<Longrightarrow> wf 0 (ch_mix_u32s (chan b) ws c)"
    and felt_wf: "wf k c \<Longrightarrow> k + 1 < 2147483647 \<Longrightarrow> ch_draw_secure_felt (chan b) c = (v, c') \<Longrightarrow> wf (k + 2) c' \<and> canon_q v"
    and queries_wf: "wf k c \<Longrightarrow> k + n < 2147483647 \<Longrightarrow> d < 32 \<Longrightarrow> ch_draw_queries (chan b) d n c = (qs, c') \<Longrightarrow>
      length qs = n \<and> (\<forall>q\<in>set qs. q < 2 ^ d)"
begin

lemma build_tree_pow2:
  assumes "length leaves = 2 ^ m"
  shows "b_build_tree b leaves = Some (tree_levels hp leaves)"
proof -
  have "length leaves AND (length leaves - 1) = take_bit m (2 ^ m)"
    unfolding assms take_bit_eq_mask mask_eq_exp_minus_1 ..
  then have "length leaves AND (length leaves - 1) = 0" by (simp add: take_bit_eq_mod)
  moreover have "leaves \<noteq> []" using assms by auto
  ultimately show ?thesis by (simp add: build build_tree_with_def)
qed

lemma commit_pow2:
  assumes "length leaves = 2 ^ m"
  shows "commit b leaves = Inr (tree_levels hp leaves, last (tree_levels hp leaves) ! 0)"
proof -
  have "length (last (tree_levels hp leaves)) = 1" by (rule length_last_level) (use assms in auto)
  then have "last (tree_levels hp leaves) \<noteq> []" by auto
  then show ?thesis by (simp add: commit_def build_tree_pow2 [OF assms] ok_or_def)
qed

lemma trace_root_ok: "cols \<noteq> [] \<Longrightarrow> check_cols (2 ^ d) cols = Inr () \<Longrightarrow> \<exists>rt. trace_root_of b cols d = Inr rt"
  using commit_pow2 [of "map (\<lambda>i. b_hash_leaf_cols b (map (\<lambda>c. c ! i) cols)) [0..<2 ^ d]" d]
  by (simp add: trace_root_of_def)

lemma fold_values_ok:
  assumes "d \<le> 30" "k + 1 < d"
  shows "collect_results (map (fold_value d k alpha vals (2 ^ (d - k - 1))) [0..<2 ^ (d - k - 1)])
    = Inr (map (fold_of d k alpha vals) [0..<2 ^ (d - k - 1)])"
proof -
  have "fold_value d k alpha vals (2 ^ (d - k - 1)) j = Inr (fold_of d k alpha vals j)" if "j < 2 ^ (d - k - 1)" for j
  proof -
    have "(2 :: nat) ^ (d - k - 1) \<le> 2 ^ d" by (intro power_increasing) simp_all
    with that have "j < 2 ^ d" by (rule less_le_trans)
    then have "chebyshev_twiddle (fst (coset_at d (word_of_nat j))) k \<noteq> 0"
      using twiddle_nonzero [of d j k] assms by simp
    then show ?thesis by (simp add: fold_value_def fold_of_def Let_def)
  qed
  then show ?thesis by (simp add: collect_map_Inr)
qed

lemma fold_round_ok:
  assumes "d \<le> 30" "k + 1 < d" "layers_ok b d (fs_alphas st) (fs_values st) (fs_levels st) (fs_roots st)"
    "length (fs_alphas st) = k" "wf 0 (fs_chan st)"
  obtains alpha c rt st' where "fold_round b d k st = Inr st'"
    "layers_ok b d (fs_alphas st') (fs_values st') (fs_levels st') (fs_roots st')" "wf 0 (fs_chan st')"
    "ch_draw_secure_felt (chan b) (fs_chan st) = (alpha, c)" "canon_q alpha"
    "fs_alphas st' = fs_alphas st @ [alpha]" "fs_roots st' = fs_roots st @ [rt]"
    "fs_values st' ! 0 = fs_values st ! 0" "fs_chan st' = ch_mix_root_w (chan b) rt c"
proof -
  obtain alpha c where d: "ch_draw_secure_felt (chan b) (fs_chan st) = (alpha, c)" by force
  have w: "wf 2 c" "canon_q alpha" using felt_wf [OF assms(5) _ d] by (simp_all add: numeral_2_eq_2)
  note l = assms(3) [unfolded layers_ok_def]
  have len: "length (fs_values st) = Suc k" using l assms(4) by simp
  have lk: "length (fs_values st ! k) = 2 ^ (d - k)" using l len by simp
  moreover have "d - k = Suc (d - k - 1)" using assms(2) by simp
  ultimately have sz: "length (fs_values st ! k) div 2 = 2 ^ (d - k - 1)" by (metis nonzero_mult_div_cancel_left power_Suc zero_neq_numeral)
  define new where "new = map (fold_of d k alpha (fs_values st ! k)) [0..<2 ^ (d - k - 1)]"
  define tr where "tr = tree_levels hp (map (b_hash_leaf_qm31 b) new)"
  define rt where "rt = last tr ! 0"
  have cm: "commit b (map (b_hash_leaf_qm31 b) new) = Inr (tr, rt)"
    unfolding tr_def rt_def by (rule commit_pow2 [where m = "d - k - 1"]) (simp add: new_def)
  define st' where "st' = \<lparr>fs_chan = ch_mix_root_w (chan b) rt c, fs_values = fs_values st @ [new],
    fs_levels = fs_levels st @ [tr], fs_roots = fs_roots st @ [rt], fs_alphas = fs_alphas st @ [alpha]\<rparr>"
  have "fold_round b d k st = Inr st'"
    by (simp only: fold_round_def d Let_def prod.case sz fold_values_ok [OF assms(1,2)] and_then_simps new_def [symmetric] cm st'_def)
  moreover have "layers_ok b d (fs_alphas st') (fs_values st') (fs_levels st') (fs_roots st')"
    using l assms(4) cm unfolding layers_ok_def st'_def
    by (auto simp: nth_append less_Suc_eq new_def)
  moreover have "fs_values st' ! 0 = fs_values st ! 0" using len by (simp add: st'_def nth_append)
  moreover have "wf 0 (fs_chan st')" using node_wf [OF w(1)] by (simp add: st'_def)
  ultimately show ?thesis using that [of st' alpha c rt] d w(2) by (simp add: st'_def)
qed

lemma fold_rounds_ok:
  assumes "d \<le> 30" "k + n < d" "layers_ok b d (fs_alphas st) (fs_values st) (fs_levels st) (fs_roots st)"
    "length (fs_alphas st) = k" "wf 0 (fs_chan st)"
  shows "\<exists>st' alphas roots. fold_rounds b d [k..<k + n] st = Inr st'
    \<and> layers_ok b d (fs_alphas st') (fs_values st') (fs_levels st') (fs_roots st') \<and> wf 0 (fs_chan st')
    \<and> fs_alphas st' = fs_alphas st @ alphas \<and> fs_roots st' = fs_roots st @ roots \<and> length alphas = n
    \<and> (\<forall>a\<in>set alphas. canon_q a) \<and> fs_values st' ! 0 = fs_values st ! 0
    \<and> replay_rounds (chan b) roots (fs_chan st) = (alphas, fs_chan st')"
  using assms
proof (induction n arbitrary: k st)
  case 0
  then show ?case by (intro exI [of _ st] exI [of _ "[]"]) simp
next
  case (Suc n)
  have k: "k + 1 < d" using Suc.prems(2) by simp
  from fold_round_ok [OF Suc.prems(1) k Suc.prems(3-5)]
  obtain alpha c rt st1 where s: "fold_round b d k st = Inr st1"
    "layers_ok b d (fs_alphas st1) (fs_values st1) (fs_levels st1) (fs_roots st1)" "wf 0 (fs_chan st1)"
    "ch_draw_secure_felt (chan b) (fs_chan st) = (alpha, c)" "canon_q alpha"
    "fs_alphas st1 = fs_alphas st @ [alpha]" "fs_roots st1 = fs_roots st @ [rt]"
    "fs_values st1 ! 0 = fs_values st ! 0" "fs_chan st1 = ch_mix_root_w (chan b) rt c" by metis
  have l: "length (fs_alphas st1) = Suc k" "Suc k + n < d" using s(6) Suc.prems(2,4) by simp_all
  from Suc.IH [OF Suc.prems(1) l(2) s(2) l(1) s(3)]
  obtain st' alphas roots where r: "fold_rounds b d [Suc k..<Suc k + n] st1 = Inr st'"
    "layers_ok b d (fs_alphas st') (fs_values st') (fs_levels st') (fs_roots st')" "wf 0 (fs_chan st')"
    "fs_alphas st' = fs_alphas st1 @ alphas" "fs_roots st' = fs_roots st1 @ roots" "length alphas = n"
    "\<forall>a\<in>set alphas. canon_q a" "fs_values st' ! 0 = fs_values st1 ! 0"
    "replay_rounds (chan b) roots (fs_chan st1) = (alphas, fs_chan st')" by metis
  have "[k..<k + Suc n] = k # [Suc k..<Suc k + n]" by (simp add: upt_conv_Cons)
  then show ?case
    using r s by (intro exI [of _ st'] exI [of _ "alpha # alphas"] exI [of _ "rt # roots"]) simp
qed

lemma chain_tail_result:
  assumes "2 \<le> d" "d \<le> 30" "length l1 = 2 ^ d" "wf k c" "n \<le> 64"
  shows "(\<exists>st f qs rt c1 c2. num_folds_of d opt = Inr f \<and> 1 \<le> f \<and> f < d
      \<and> chain_tail b d br n opt l1 c = Inr (st, f, qs)
      \<and> layers_ok b d (fs_alphas st) (fs_values st) (fs_levels st) (fs_roots st) \<and> fs_values st ! 0 = l1
      \<and> length (fs_alphas st) = f \<and> (\<forall>a\<in>set (fs_alphas st). canon_q a)
      \<and> length qs = n \<and> (\<forall>q\<in>set qs. q < 2 ^ d) \<and> fs_roots st = rt # tl (fs_roots st)
      \<and> replay_rounds (chan b) (tl (fs_roots st)) (ch_mix_root_w (chan b) rt c) = (fs_alphas st, c1)
      \<and> ch_draw_queries (chan b) d n (ch_mix_root_full (chan b) br c1) = (qs, c2))
    \<or> (\<exists>f m. num_folds_of d opt = Inl (NumFolds f m) \<and> chain_tail b d br n opt l1 c = Inl (NumFolds f m))"
proof (cases "num_folds_of d opt")
  case (Inl e)
  then have "\<exists>f m. e = NumFolds f m" by (auto simp: num_folds_of_def Let_def split: option.splits if_splits)
  moreover have "chain_tail b d br n opt l1 c = Inl e"
    using commit_pow2 [of "map (b_hash_leaf_qm31 b) l1" d] assms(3) Inl by (simp add: chain_tail_def Let_def)
  ultimately show ?thesis using Inl by blast
next
  case (Inr f)
  then have f: "1 \<le> f" "f < d" using num_folds_bounds assms(1) by blast+
  obtain tr rt where cm: "commit b (map (b_hash_leaf_qm31 b) l1) = Inr (tr, rt)"
    using commit_pow2 [of "map (b_hash_leaf_qm31 b) l1" d] assms(3) by simp
  define st0 where "st0 = \<lparr>fs_chan = ch_mix_root_w (chan b) rt c, fs_values = [l1], fs_levels = [tr],
    fs_roots = [rt], fs_alphas = []\<rparr>"
  have l0: "layers_ok b d (fs_alphas st0) (fs_values st0) (fs_levels st0) (fs_roots st0)"
    using cm assms(3) by (simp add: layers_ok_def st0_def)
  have "wf 0 (fs_chan st0)" using node_wf [OF assms(4)] by (simp add: st0_def)
  from fold_rounds_ok [OF assms(2) _ l0 _ this, of 0 f] f
  obtain st alphas roots where r: "fold_rounds b d [0..<f] st0 = Inr st"
    "layers_ok b d (fs_alphas st) (fs_values st) (fs_levels st) (fs_roots st)" "wf 0 (fs_chan st)"
    "fs_alphas st = fs_alphas st0 @ alphas" "fs_roots st = fs_roots st0 @ roots" "length alphas = f"
    "\<forall>a\<in>set alphas. canon_q a" "fs_values st ! 0 = fs_values st0 ! 0"
    "replay_rounds (chan b) roots (fs_chan st0) = (alphas, fs_chan st)" by (auto simp: st0_def)
  obtain qs c2 where q: "ch_draw_queries (chan b) d n (ch_mix_root_full (chan b) br (fs_chan st)) = (qs, c2)" by force
  have "length qs = n \<and> (\<forall>q\<in>set qs. q < 2 ^ d)"
    by (rule queries_wf [OF root_wf [OF r(3)] _ _ q]) (use assms(2,5) in simp_all)
  moreover have "chain_tail b d br n opt l1 c = Inr (st, f, qs)"
    using r(1) by (simp add: chain_tail_def cm Inr q Let_def st0_def)
  ultimately show ?thesis using r q f Inr by (auto simp: st0_def)
qed

lemma chain_result:
  "(\<exists>ch. vfri_fri_chain b cols d br n opt = Inr ch \<and> chain_ok b cols d br n ch)
     \<and> valid_request cols d br n opt \<and> oods_point b cols d \<notin> domain_xs d
   \<or> (\<exists>e. vfri_fri_chain b cols d br n opt = Inl e \<and> e \<noteq> Panic \<and> (\<forall>k j. e \<noteq> ZeroTwiddle k j))
     \<and> \<not> (valid_request cols d br n opt \<and> oods_point b cols d \<notin> domain_xs d)"
proof (cases "chain_guards cols d br n")
  case (Inl e)
  then have "e \<noteq> Panic \<and> (\<forall>k j. e \<noteq> ZeroTwiddle k j)"
    by (auto simp: chain_guards_def split: if_splits dest: check_cols_Inl)
  moreover have "\<not> valid_request cols d br n opt"
    using chain_guards_Inr [of cols d br n] Inl by (auto simp: valid_request_def)
  ultimately show ?thesis using Inl by (simp add: vfri_fri_chain_def)
next
  case (Inr u)
  then have g: "chain_guards cols d br n = Inr ()" by simp
  note gs = g [unfolded chain_guards_Inr]
  have d: "2 \<le> d" "d \<le> 30" and n: "n \<le> 64" using gs by simp_all
  obtain rt where rt: "trace_root_of b cols d = Inr rt"
    using trace_root_ok [of cols d] gs by (auto simp: check_cols_Inr)
  define c0 where "c0 = ch_mix_root_full (chan b) rt (ch_init (chan b))"
  obtain z c1 where z: "ch_draw_secure_felt (chan b) c0 = (z, c1)" by force
  obtain ca c2 where ca: "ch_draw_secure_felt (chan b) c1 = (ca, c2)" by force
  have w0: "wf 0 c0" unfolding c0_def by (rule root_wf [OF init_wf])
  have w1: "wf (0 + 2) c1" "canon_q z" using felt_wf [OF w0 _ z] by simp_all
  have w2: "wf (0 + 2 + 2) c2" "canon_q ca" using felt_wf [OF w1(1) _ ca] by simp_all
  have oz: "oods_point b cols d = z" using z by (simp add: oods_point_def rt c0_def)
  define xs where "xs = map (\<lambda>k. fst (coset_at d (word_of_nat k))) [0..<2 ^ d div 2]"
  define ws where "ws = precompute_bary_weights xs"
  define cp where "cp = oods_combo ca (map (\<lambda>col. eval_circle_even col xs ws z) cols)"
  define cn where "cn = oods_combo ca (map (\<lambda>col. eval_circle_even col xs ws (qm31_neg z)) cols)"
  define c3 where "c3 = ch_mix_u32s (chan b) (combo_words cp cn) c2"
  define cv where "cv = map (comp_value_at ca cols) [0..<2 ^ d]"
  obtain tr crt where cm: "commit b (map (b_hash_leaf_qm31 b) cv) = Inr (tr, crt)"
    using commit_pow2 [of "map (b_hash_leaf_qm31 b) cv" d] by (simp add: cv_def)
  obtain fa c5 where fa: "ch_draw_secure_felt (chan b) (ch_mix_root_w (chan b) crt c3) = (fa, c5)" by force
  have w5: "wf (0 + 2) c5" "canon_q fa"
    using felt_wf [OF node_wf [OF words_wf [OF w2(1)]] _ fa [unfolded c3_def]] by simp_all
  have start: "vfri_fri_chain b cols d br n opt =
    and_then (collect_results (map (l1_value d cv cp cn z fa) [0..<2 ^ d])) (\<lambda>l1.
    and_then (chain_tail b d br n opt l1 c5) (\<lambda>(st, f, qs).
    Inr \<lparr>trace_root = rt, z_x = z, comp_alpha = ca, oods_combo_pos = cp, oods_combo_neg = cn, comp_values = cv,
         comp_levels = tr, comp_root = crt, fri_alpha = fa, fri_alphas = fs_alphas st, layer_values = fs_values st,
         layer_levels = fs_levels st, layer_roots = fs_roots st, num_folds = f, derived_indices = qs\<rparr>))"
    by (simp only: vfri_fri_chain_def g rt and_then_simps Let_def prod.case z ca fa cm
        c0_def [symmetric] xs_def [symmetric] ws_def [symmetric] cp_def [symmetric] cn_def [symmetric]
        c3_def [symmetric] cv_def [symmetric])
  have nf: "(\<exists>f. num_folds_of d opt = Inr f) \<longleftrightarrow> valid_request cols d br n opt"
    using num_folds_Inr [OF d(1), of opt] gs by (auto simp: valid_request_def)
  consider q where "collect_results (map (l1_value d cv cp cn z fa) [0..<2 ^ d]) = Inl (DegenerateDenom q)" "z \<in> domain_xs d"
    | l1 where "collect_results (map (l1_value d cv cp cn z fa) [0..<2 ^ d]) = Inr l1" "z \<notin> domain_xs d"
    using l1_values_result [OF d w1(2), of cv cp cn fa] by blast
  then show ?thesis
  proof cases
    case 1
    then show ?thesis using oz by (simp add: start)
  next
    case (2 l1)
    then have l1: "length l1 = 2 ^ d" "\<forall>q<2 ^ d. l1_value d cv cp cn z fa q = Inr (l1 ! q)" by (simp_all add: collect_map_Inr)
    from chain_tail_result [OF d l1(1) w5(1) n, of opt br]
    show ?thesis
    proof (elim disjE exE conjE)
      fix f m assume "num_folds_of d opt = Inl (NumFolds f m)" "chain_tail b d br n opt l1 c5 = Inl (NumFolds f m)"
      then show ?thesis using nf 2 by (simp add: start)
    next
      fix st f qs lrt c6 c7
      assume t: "num_folds_of d opt = Inr f" "1 \<le> f" "f < d" "chain_tail b d br n opt l1 c5 = Inr (st, f, qs)"
        "layers_ok b d (fs_alphas st) (fs_values st) (fs_levels st) (fs_roots st)" "fs_values st ! 0 = l1"
        "length (fs_alphas st) = f" "\<forall>a\<in>set (fs_alphas st). canon_q a" "length qs = n" "\<forall>q\<in>set qs. q < 2 ^ d"
        "fs_roots st = lrt # tl (fs_roots st)"
        "replay_rounds (chan b) (tl (fs_roots st)) (ch_mix_root_w (chan b) lrt c5) = (fs_alphas st, c6)"
        "ch_draw_queries (chan b) d n (ch_mix_root_full (chan b) br c6) = (qs, c7)"
      define ch where "ch = \<lparr>trace_root = rt, z_x = z, comp_alpha = ca, oods_combo_pos = cp, oods_combo_neg = cn,
         comp_values = cv, comp_levels = tr, comp_root = crt, fri_alpha = fa, fri_alphas = fs_alphas st,
         layer_values = fs_values st, layer_levels = fs_levels st, layer_roots = fs_roots st, num_folds = f, derived_indices = qs\<rparr>"
      have "vfri_fri_chain b cols d br n opt = Inr ch" by (simp add: start 2 t(4) ch_def)
      moreover have "hd (fs_roots st) = lrt" using t(11) by (metis list.sel(1))
      then have "fst (replay (chan b) (chain_inputs ch br d n)) = challenges_of ch"
        using t(12,13) z ca fa by (simp add: replay_def chain_inputs_def challenges_of_def ch_def split_def c0_def c3_def)
      then have "chain_ok b cols d br n ch"
        unfolding chain_ok_def using rt cm t l1 w1(2) w2(2) w5(2)
        by (simp add: ch_def cv_def cp_def cn_def ws_def xs_def half_xs_def)
      ultimately show ?thesis using nf t(1) oz 2 by auto
    qed
  qed
qed

end

section \<open>The two backends\<close>

lemma t16_cells_wf: "wf_state 16 s \<Longrightarrow> wf_state 16 (absorb_cells s ws)"
proof -
  have "wf_state 16 (s[k := m31_add (s ! k) (reduce_word w)])" if "wf_state 16 s" for s k w
  proof (cases "k < 16")
    case False
    then have "s[k := m31_add (s ! k) (reduce_word w)] = s" using that by (intro list_update_beyond) (simp add: wf_state_def)
    with that show ?thesis by simp
  qed (simp add: that wf_state_add canon_reduce)
  then have "wf_state 16 s \<Longrightarrow> wf_state 16 (foldl (\<lambda>s (k, word). s[k := m31_add (s ! k) (reduce_word word)]) s xs)" for xs s
    by (induction xs arbitrary: s) auto
  then show "wf_state 16 s \<Longrightarrow> ?thesis" by (simp add: absorb_cells_def)
qed

lemma t16_block_wf: "wf_chan 16 k c \<Longrightarrow> wf_chan 16 k (t16_absorb_block ws c)"
proof -
  define pad :: u64 where "pad = word_of_nat (8 - length ws)"
  have "canon pad" by (simp add: canon_def M31_P_val word_less_nat_alt unat_of_nat pad_def)
  then show "wf_chan 16 k c \<Longrightarrow> ?thesis"
    by (simp add: wf_chan_def t16_absorb_block_def Let_def t16_cells_wf wf_state_add perm_wf flip: pad_def)
qed

lemma t16_words_wf: "wf_chan 16 k c \<Longrightarrow> wf_chan 16 k (t16_absorb_words ws c)"
proof (induction ws c rule: t16_absorb_words.induct)
  case (1 ws c)
  then show ?case using t16_block_wf [OF "1.prems"] by (subst t16_absorb_words.simps) simp
qed

lemma wf_chan_init: "wf_chan 8 0 t8_init" "wf_chan 16 0 t16_init"
  by (simp_all add: wf_chan_def t8_init_def t16_init_def wf_state_def canon_zero)

lemmas t8_defs = T8Backend_def P2T8Chan_def t8_mix_root_full_def t8_mix_root_w_def t8_mix_u32s_def
  t8_draw_secure_felt_def t8_draw_queries_def
lemmas t16_defs = T16Backend_def P2T16Chan_def t16_mix_root_full_def t16_mix_root_w_def t16_mix_u32s_def
  t16_draw_secure_felt_def t16_draw_queries_def

interpretation fri8: p2_backend T8Backend hash_pair_p2t8 "wf_chan 8"
proof
  show "b_build_tree T8Backend leaves = build_tree_with hash_pair_p2t8 leaves" for leaves
    by (simp add: t8_defs build_tree_p2t8_def build_tree_with_def)
next
  fix k c n d qs c'
  assume "wf_chan 8 k c" "k + n < 2147483647" "d < 32" "ch_draw_queries (chan T8Backend) d n c = (qs, c')"
  then show "length qs = n \<and> (\<forall>q\<in>set qs. q < 2 ^ d)" using d8.queries_wf by (simp add: t8_defs)
next
  fix k c v c'
  assume "wf_chan 8 k c" "k + 1 < 2147483647" "ch_draw_secure_felt (chan T8Backend) c = (v, c')"
  then show "wf_chan 8 (k + 2) c' \<and> canon_q v" using d8.felt_wf by (simp add: t8_defs)
qed (simp_all add: t8_defs wf_chan_init d8.mix_wf)

interpretation fri16: p2_backend T16Backend hash_pair_p2t16 "wf_chan 16"
proof
  show "b_build_tree T16Backend leaves = build_tree_with hash_pair_p2t16 leaves" for leaves
    by (simp add: t16_defs build_tree_p2t16_def)
next
  fix k c n d qs c'
  assume "wf_chan 16 k c" "k + n < 2147483647" "d < 32" "ch_draw_queries (chan T16Backend) d n c = (qs, c')"
  then show "length qs = n \<and> (\<forall>q\<in>set qs. q < 2 ^ d)" using d16.queries_wf by (simp add: t16_defs)
next
  fix k c v c'
  assume "wf_chan 16 k c" "k + 1 < 2147483647" "ch_draw_secure_felt (chan T16Backend) c = (v, c')"
  then show "wf_chan 16 (k + 2) c' \<and> canon_q v" using d16.felt_wf by (simp add: t16_defs)
qed (simp_all add: t16_defs wf_chan_init d16.reset_wf [OF t16_block_wf] d16.reset_wf [OF t16_words_wf])

section \<open>Properties\<close>

text \<open>
  C16. The chain never panics and never meets a zero twiddle, on either backend and on any input. When it
  returns a chain, the trace and composition roots commit the columns and the combined values, every
  layer folds the one before and is committed by its tree, the challenges are canonical, the query
  indices are in range and as many as asked, and the channel run again from the public data draws the
  same challenges.
\<close>

theorem fri_chain_result:
  "(case vfri_fri_chain T8Backend cols d br n opt of
      Inr ch \<Rightarrow> chain_ok T8Backend cols d br n ch
    | Inl e \<Rightarrow> e \<noteq> Panic \<and> (\<forall>k j. e \<noteq> ZeroTwiddle k j))
   \<and> (case vfri_fri_chain T16Backend cols d br n opt of
      Inr ch \<Rightarrow> chain_ok T16Backend cols d br n ch
    | Inl e \<Rightarrow> e \<noteq> Panic \<and> (\<forall>k j. e \<noteq> ZeroTwiddle k j))"
  using fri8.chain_result [of cols d br n opt] fri16.chain_result [of cols d br n opt] by auto

text \<open>
  C17. The chain succeeds exactly when the request is valid (columns, a 32-byte root, 1 to 64 queries, a
  depth from 2 to 30, columns of the size of the domain, a number of folds below the depth) and the
  out-of-domain point is not the abscissa of a point of the domain.
\<close>

theorem fri_chain_succeeds_iff:
  "((\<exists>ch. vfri_fri_chain T8Backend cols d br n opt = Inr ch)
     \<longleftrightarrow> valid_request cols d br n opt \<and> oods_point T8Backend cols d \<notin> domain_xs d)
   \<and> ((\<exists>ch. vfri_fri_chain T16Backend cols d br n opt = Inr ch)
     \<longleftrightarrow> valid_request cols d br n opt \<and> oods_point T16Backend cols d \<notin> domain_xs d)"
  using fri8.chain_result [of cols d br n opt] fri16.chain_result [of cols d br n opt] by auto

text \<open>
  C18. The replay of the channel from the public data of a chain (its roots, combinations and the batch
  root) returns the chain's challenges and query indices, if there are at most 28 folds; a chain with 29
  folds, which depth 30 allows and does by default, is rejected by the replay.
\<close>

theorem fri_replay_agrees:
  "and_then (vfri11_fri_chain cols d br n opt) (\<lambda>ch. vfri11_replay_channel (chain_inputs ch br d n))
   = and_then (vfri11_fri_chain cols d br n opt) (\<lambda>ch.
       if num_folds ch \<le> 28 then Inr (challenges_of ch) else Inl (TooManyRoots (Suc (num_folds ch))))"
proof (cases "vfri11_fri_chain cols d br n opt")
  case (Inr ch)
  then have ok: "chain_ok T8Backend cols d br n ch" "valid_request cols d br n opt"
    using fri8.chain_result [of cols d br n opt] by (auto simp: vfri11_fri_chain_def)
  then have "length (layer_roots ch) = Suc (num_folds ch)" by (simp add: chain_ok_def layers_ok_def)
  then show ?thesis
    using Inr ok by (auto simp: vfri11_replay_channel_def chain_inputs_def chain_ok_def valid_request_def T8Backend_def)
qed simp

end
