(* ===== verification/FRI_Degree.thy ===== *)
theory FRI_Degree
  imports FRI_Chain
begin

text \<open>
  What the rounds of line folds do to a polynomial: if layer \<open>0\<close> holds the values of a polynomial in the
  abscissa, layer \<open>k\<close> holds those of a polynomial with \<open>2^k\<close> times fewer coefficients in the abscissa
  doubled \<open>k\<close> times, so enough rounds end in a constant layer.
\<close>

section \<open>Coefficient lists\<close>

fun padd :: "'a::comm_ring_1 list \<Rightarrow> 'a list \<Rightarrow> 'a list" where
  "padd [] ys = ys"
| "padd xs [] = xs"
| "padd (x # xs) (y # ys) = (x + y) # padd xs ys"

lemma length_padd: "length (padd xs ys) = max (length xs) (length ys)"
  by (induction xs ys rule: padd.induct) simp_all

lemma eval_padd: "poly_eval (padd xs ys) x = poly_eval xs x + poly_eval ys x"
  by (induction xs ys rule: padd.induct) (simp_all add: algebra_simps)

lemma eval_scale: "poly_eval (map ((*) c) xs) x = c * poly_eval xs x"
  by (induction xs) (simp_all add: algebra_simps)

text \<open>Even and odd coefficients.\<close>

fun evens :: "'a list \<Rightarrow> 'a list" and odds :: "'a list \<Rightarrow> 'a list" where
  "evens [] = []"
| "evens (x # xs) = x # odds xs"
| "odds [] = []"
| "odds (x # xs) = evens xs"

lemma length_evens_odds: "length (evens xs) = (length xs + 1) div 2" "length (odds xs) = length xs div 2"
  by (induction xs) simp_all

lemma eval_evens_odds: "poly_eval xs x = poly_eval (evens xs) (x * x) + x * poly_eval (odds xs) (x * x)"
  by (induction xs) (simp_all add: algebra_simps)

text \<open>Substitution of an affine argument.\<close>

lemma eval_affine: "\<exists>ys. length ys = length xs \<and> (\<forall>y. poly_eval ys y = poly_eval xs (a * y + b))"
proof (induction xs)
  case (Cons x xs)
  then obtain ys where ys: "length ys = length xs" "\<forall>y. poly_eval ys y = poly_eval xs (a * y + b)" by blast
  have "poly_eval (padd (x # map ((*) a) ys) (map ((*) b) ys)) y = poly_eval (x # xs) (a * y + b)" for y
    using ys(2) by (simp add: eval_padd eval_scale algebra_simps)
  moreover have "length (padd (x # map ((*) a) ys) (map ((*) b) ys)) = length (x # xs)"
    using ys(1) by (simp add: length_padd)
  ultimately show ?case by blast
qed simp

section \<open>One round\<close>

definition tw :: "nat \<Rightarrow> nat \<Rightarrow> nat \<Rightarrow> qf" where
  "tw d k j = fm (chebyshev_twiddle (fst (coset_at d (word_of_nat j))) k)"

lemma tw_Suc:
  assumes "d \<le> 30"
  shows "tw d (Suc k) j = 2 * (tw d k j * tw d k j) - 1"
proof -
  have "canon32 (chebyshev_twiddle (fst (coset_at d (word_of_nat j))) k)"
    using canon_coset [OF assms] by (intro canon_twiddle) simp
  then show ?thesis by (simp add: tw_def chebyshev_Suc Let_def canon_intros field_reading)
qed

text \<open>The two points a round pairs are opposite after \<open>k\<close> doublings.\<close>

lemma tw_opposite:
  assumes "d \<le> 30" "k < d" "j < 2 ^ (d - k - 1)"
  shows "tw d k (j + 2 ^ (d - k - 1)) = - tw d k j"
proof -
  let ?h = "(2 :: nat) ^ (d - k - 1)" and ?p = "\<lambda>j. coset_at d (word_of_nat j)"
  have h: "?h + ?h \<le> 2 ^ d"
  proof -
    have "?h + ?h = 2 ^ Suc (d - k - 1)" by simp
    also have "\<dots> \<le> 2 ^ d" by (rule power_increasing) (use assms(2) in simp_all)
    finally show ?thesis .
  qed
  then have lt: "j < 2 ^ d" "j + ?h < 2 ^ d" using assms(3) by linarith+
  obtain y where y: "canon_pt (chebyshev_twiddle (fst (?p j)) k, y)"
    "pt (chebyshev_twiddle (fst (?p j)) k, y) = pt (?p j) ^ (2 ^ k)"
    using chebyshev_double pt_coset_at(1,2) [OF assms(1)] by blast
  obtain y' where y': "canon_pt (chebyshev_twiddle (fst (?p (j + ?h))) k, y')"
    "pt (chebyshev_twiddle (fst (?p (j + ?h))) k, y') = pt (?p (j + ?h)) ^ (2 ^ k)"
    using chebyshev_double pt_coset_at(1,2) [OF assms(1)] by blast
  have e: "2 * ?h * 2 ^ (30 - d) * 2 ^ k = (2 :: nat) ^ 30"
  proof -
    have "2 * ?h * 2 ^ (30 - d) * 2 ^ k = (2 :: nat) ^ (Suc (d - k - 1) + (30 - d) + k)" by (simp add: power_add)
    also have "Suc (d - k - 1) + (30 - d) + k = 30" using assms(1,2) by simp
    finally show ?thesis .
  qed
  have "pt (?p (j + ?h)) ^ (2 ^ k) = G ^ ((2 * (j + ?h) + 1) * 2 ^ (30 - d) * 2 ^ k)"
    using pt_coset_at(3) [OF assms(1)] unat_of_nat_small [OF assms(1) lt(2)] by (simp add: power_mult)
  also have "(2 * (j + ?h) + 1) * 2 ^ (30 - d) * 2 ^ k = (2 * j + 1) * 2 ^ (30 - d) * 2 ^ k + 2 ^ 30"
    unfolding e [symmetric] by (simp add: algebra_simps)
  also have "G ^ \<dots> = - (pt (?p j) ^ (2 ^ k))"
    unfolding power_add G_half using pt_coset_at(3) [OF assms(1)] unat_of_nat_small [OF assms(1) lt(1)]
    by (simp add: power_mult)
  finally have n: "pt (?p (j + ?h)) ^ (2 ^ k) = - (pt (?p j) ^ (2 ^ k))" .
  have "pt (m31_neg (chebyshev_twiddle (fst (?p j)) k), m31_neg y) = - pt (chebyshev_twiddle (fst (?p j)) k, y)"
    using y(1) by (simp add: pt_def canon_pt_def fm_neg)
  then have "pt (chebyshev_twiddle (fst (?p (j + ?h))) k, y')
      = pt (m31_neg (chebyshev_twiddle (fst (?p j)) k), m31_neg y)"
    unfolding y(2) y'(2) n by (rule sym)
  moreover have "canon_pt (m31_neg (chebyshev_twiddle (fst (?p j)) k), m31_neg y)"
    using y(1) by (simp add: canon_pt_def canon_neg)
  ultimately have "(chebyshev_twiddle (fst (?p (j + ?h))) k, y') = (m31_neg (chebyshev_twiddle (fst (?p j)) k), m31_neg y)"
    using pt_inj [OF y'(1)] by blast
  then have "chebyshev_twiddle (fst (?p (j + ?h))) k = m31_neg (chebyshev_twiddle (fst (?p j)) k)" by (simp only: prod.inject)
  then show ?thesis using y(1) by (simp add: tw_def fm_neg canon_pt_def)
qed

lemma fold_of_eval:
  assumes "d \<le> 30" "k + 1 < d" "canon_q alpha" "\<forall>v\<in>set vals. canon_q v" "length vals = 2 ^ (d - k)"
    "\<forall>j<2 ^ (d - k). fq (vals ! j) = poly_eval cs (tw d k j)" "j < 2 ^ (d - Suc k)"
  shows "canon_q (fold_of d k alpha vals j)"
    "fq (fold_of d k alpha vals j) = 2 * poly_eval (evens cs) (tw d k j * tw d k j)
       + 2 * fq alpha * poly_eval (odds cs) (tw d k j * tw d k j)"
proof -
  let ?h = "(2 :: nat) ^ (d - k - 1)"
  have h: "2 ^ (d - k) = ?h + ?h" using assms(2) by (simp flip: power_Suc mult_2)
  have j: "j < ?h" using assms(7) by simp
  then have lt: "j < 2 ^ (d - k)" "j + ?h < 2 ^ (d - k)" using h by linarith+
  then have c: "canon_q (vals ! j)" "canon_q (vals ! (j + ?h))" using assms(4,5) by simp_all
  let ?t = "chebyshev_twiddle (fst (coset_at d (word_of_nat j))) k"
  have t: "canon32 ?t" using canon_coset [OF assms(1)] by (intro canon_twiddle) simp
  have "?h \<le> 2 ^ d" by (intro power_increasing) simp_all
  then have "j < 2 ^ d" using j by linarith
  then have "?t \<noteq> 0" using twiddle_nonzero [of d j k] assms(1,2) by simp
  then have nz: "tw d k j \<noteq> 0" using t by (simp add: tw_def fm_eq_0)
  show "canon_q (fold_of d k alpha vals j)" using c t assms(3) by (simp add: fold_of_def canon_fold canon_inv)
  have v: "fq (vals ! j) = poly_eval cs (tw d k j)" "fq (vals ! (j + ?h)) = poly_eval cs (- tw d k j)"
    using assms(6) lt tw_opposite [OF assms(1) _ j] assms(2) by simp_all
  have "fq (fold_of d k alpha vals j) = fq (vals ! j) + fq (vals ! (j + ?h))
      + fq alpha * ((fq (vals ! j) - fq (vals ! (j + ?h))) * inverse (tw d k j))"
    unfolding fold_of_def using c t assms(3) by (subst fq_fold) (simp_all add: canon_inv fm_inv tw_def)
  then show "fq (fold_of d k alpha vals j) = 2 * poly_eval (evens cs) (tw d k j * tw d k j)
       + 2 * fq alpha * poly_eval (odds cs) (tw d k j * tw d k j)"
    unfolding v eval_evens_odds [of cs "tw d k j"] eval_evens_odds [of cs "- tw d k j"] using nz by (simp add: field_simps)
qed

section \<open>All rounds\<close>

lemma layers_canonical:
  assumes "d \<le> 30" "layers_ok b d alphas values trees roots" "length alphas < d"
    "\<forall>v\<in>set (values ! 0). canon_q v" "\<forall>a\<in>set alphas. canon_q a" "k \<le> length alphas"
  shows "\<forall>v\<in>set (values ! k). canon_q v"
  using assms(6)
proof (induction k)
  case (Suc k)
  have l: "length (values ! k) = 2 ^ (d - k)" "values ! Suc k = map (fold_of d k (alphas ! k) (values ! k)) [0..<2 ^ (d - Suc k)]"
    using assms(2) Suc.prems by (simp_all add: layers_ok_def)
  have "canon_q (fold_of d k (alphas ! k) (values ! k) j)" if "j < 2 ^ (d - Suc k)" for j
  proof -
    have h: "2 ^ (d - k) = (2 :: nat) ^ (d - k - 1) + 2 ^ (d - k - 1)" using Suc.prems assms(3) by (simp flip: power_Suc mult_2)
    have "j < 2 ^ (d - k)" "j + 2 ^ (d - k - 1) < (2 :: nat) ^ (d - k)" using that unfolding h by simp_all
    then have "canon_q (values ! k ! j)" "canon_q (values ! k ! (j + 2 ^ (d - k - 1)))" "canon_q (alphas ! k)"
      using Suc.IH Suc.prems l(1) assms(5) by simp_all
    then show ?thesis
      using canon_twiddle [of "fst (coset_at d (word_of_nat j))" k] canon_coset [OF assms(1)]
      by (simp add: fold_of_def canon_fold canon_inv)
  qed
  then show ?case by (simp add: l(2))
qed (use assms(4) in simp)

lemma layers_poly:
  assumes "d \<le> 30" "layers_ok b d alphas values trees roots" "length alphas < d"
    "\<forall>v\<in>set (values ! 0). canon_q v" "\<forall>a\<in>set alphas. canon_q a"
    "\<forall>j<2 ^ d. fq (values ! 0 ! j) = poly_eval cs (tw d 0 j)" "length cs \<le> D * 2 ^ length alphas" "k \<le> length alphas"
  shows "\<exists>cs'. length cs' \<le> D * 2 ^ (length alphas - k) \<and> (\<forall>j<2 ^ (d - k). fq (values ! k ! j) = poly_eval cs' (tw d k j))"
  using assms(8)
proof (induction k)
  case (Suc k)
  then obtain cs' where cs': "length cs' \<le> D * 2 ^ (length alphas - k)"
    "\<forall>j<2 ^ (d - k). fq (values ! k ! j) = poly_eval cs' (tw d k j)" by auto
  have l: "length (values ! k) = 2 ^ (d - k)" "values ! Suc k = map (fold_of d k (alphas ! k) (values ! k)) [0..<2 ^ (d - Suc k)]"
    using assms(2) Suc.prems by (simp_all add: layers_ok_def)
  have a: "canon_q (alphas ! k)" using assms(5) Suc.prems by simp
  have c: "\<forall>v\<in>set (values ! k). canon_q v" by (rule layers_canonical [OF assms(1-5)]) (use Suc.prems in simp)
  define q where "q = padd (map ((*) 2) (evens cs')) (map ((*) (2 * fq (alphas ! k))) (odds cs'))"
  obtain ys where ys: "length ys = length q" "\<forall>y. poly_eval ys y = poly_eval q (inverse 2 * y + inverse 2)"
    using eval_affine by blast
  have "fq (values ! Suc k ! j) = poly_eval ys (tw d (Suc k) j)" if j: "j < 2 ^ (d - Suc k)" for j
  proof -
    have "fq (values ! Suc k ! j) = poly_eval q (tw d k j * tw d k j)"
      using fold_of_eval(2) [OF assms(1) _ a c l(1) cs'(2) j] Suc.prems assms(3) j
      by (simp add: l(2) q_def eval_padd eval_scale)
    also have "tw d k j * tw d k j = inverse 2 * tw d (Suc k) j + inverse 2"
      using two_qf by (simp add: tw_Suc [OF assms(1)] field_simps)
    finally show ?thesis using ys(2) by simp
  qed
  moreover have "length ys \<le> D * 2 ^ (length alphas - Suc k)"
  proof -
    have "length alphas - k = Suc (length alphas - Suc k)" using Suc.prems by simp
    then have "length cs' \<le> 2 * (D * 2 ^ (length alphas - Suc k))" using cs'(1) by simp
    then show ?thesis by (simp add: ys(1) q_def length_padd length_evens_odds)
  qed
  ultimately show ?case by blast
qed (use assms(6,7) in auto)

lemma line_fold_zero: "canon32 w \<Longrightarrow> line_fold 0 0 0 w = 0"
proof -
  assume w: "canon32 w"
  have "fq (line_fold 0 0 0 w) = fq 0" using w by (subst fq_fold) (simp_all add: canon_q_zero)
  then show ?thesis using w by (subst (asm) fq_inj) (simp_all add: canon_fold canon_q_zero)
qed

text \<open>The layers of zero values.\<close>

lemma zero_layers:
  "layers_ok T8Backend 2 [0] [replicate 4 0, replicate 2 0]
     (map (\<lambda>n. tree_levels hash_pair_p2t8 (map hash_leaf_qm31_p2t8 (replicate n 0))) [4, 2])
     (map (\<lambda>n. last (tree_levels hash_pair_p2t8 (map hash_leaf_qm31_p2t8 (replicate n 0))) ! 0) [4, 2])"
proof -
  have "commit T8Backend (map hash_leaf_qm31_p2t8 (replicate (2 ^ n) 0)) =
    Inr (tree_levels hash_pair_p2t8 (map hash_leaf_qm31_p2t8 (replicate (2 ^ n) 0)),
      last (tree_levels hash_pair_p2t8 (map hash_leaf_qm31_p2t8 (replicate (2 ^ n) 0))) ! 0)" for n
    by (rule fri8.commit_pow2) simp
  from this [of 2] this [of 1]
  have c: "commit T8Backend (replicate 4 (hash_leaf_qm31_p2t8 0)) =
      Inr (tree_levels hash_pair_p2t8 (replicate 4 (hash_leaf_qm31_p2t8 0)),
        last (tree_levels hash_pair_p2t8 (replicate 4 (hash_leaf_qm31_p2t8 0))) ! 0)"
    "commit T8Backend (replicate 2 (hash_leaf_qm31_p2t8 0)) =
      Inr (tree_levels hash_pair_p2t8 (replicate 2 (hash_leaf_qm31_p2t8 0)),
        last (tree_levels hash_pair_p2t8 (replicate 2 (hash_leaf_qm31_p2t8 0))) ! 0)" by simp_all
  have f: "fold_of 2 0 0 (replicate 4 0) j = 0" if "j < 2" for j
  proof -
    have "canon32 (m31_inv (chebyshev_twiddle (fst (coset_at 2 (word_of_nat j))) 0))"
      by (intro canon_inv canon_twiddle conjunct1 [OF canon_coset]) simp
    then show ?thesis using that by (simp add: fold_of_def line_fold_zero)
  qed
  have "map (fold_of 2 0 0 (replicate 4 0)) [0..<2] = replicate 2 0" by (rule nth_equalityI) (simp_all add: f)
  moreover have h: "b_hash_leaf_qm31 T8Backend = hash_leaf_qm31_p2t8" by (simp add: T8Backend_def)
  ultimately show ?thesis by (auto simp: layers_ok_def less_Suc_eq c)
qed

section \<open>Properties\<close>

text \<open>
  C19. The FRI rounds keep low degree: if layer 0 holds the values of a polynomial in the abscissa with at
  most \<open>D * 2^m\<close> coefficients, the layer after \<open>m\<close> rounds holds those of a polynomial with at most \<open>D\<close>
  coefficients in the abscissa doubled \<open>m\<close> times; for \<open>D = 1\<close> the last layer is constant.
\<close>

theorem fri_folds_low_degree:
  assumes "d \<le> 30" "layers_ok b d alphas values trees roots" "length alphas < d"
    "\<forall>v\<in>set (values ! 0). canon_q v" "\<forall>a\<in>set alphas. canon_q a"
    "\<forall>q<2 ^ d. fq (values ! 0 ! q) = poly_eval cs (fm (fst (coset_at d (word_of_nat q))))"
    "length cs \<le> D * 2 ^ length alphas"
  shows "\<exists>cs'. length cs' \<le> D \<and> (\<forall>j<2 ^ (d - length alphas). fq (values ! length alphas ! j)
     = poly_eval cs' (fm (chebyshev_twiddle (fst (coset_at d (word_of_nat j))) (length alphas))))"
proof -
  have "\<forall>q<2 ^ d. fq (values ! 0 ! q) = poly_eval cs (tw d 0 q)" using assms(6) by (simp add: tw_def chebyshev_twiddle_def)
  from layers_poly [OF assms(1-5) this assms(7) order_refl] show ?thesis by (simp add: tw_def)
qed

theorem fri_folds_low_degree_witness:
  "\<exists>cs'. length cs' \<le> 1 \<and> (\<forall>j<2 ^ (2 - length [0 :: u128]). fq ([replicate 4 0, replicate 2 0] ! length [0 :: u128] ! j)
     = poly_eval cs' (fm (chebyshev_twiddle (fst (coset_at 2 (word_of_nat j))) (length [0 :: u128]))))"
  by (rule fri_folds_low_degree [OF _ zero_layers, where cs = "[]"]) (simp_all add: canon_q_zero)

end
