(* ===== verification/QM31_Limbs.thy ===== *)
theory QM31_Limbs
  imports Circle_Fold Poseidon2
begin

unbundle bit_operations_syntax

text \<open>
  The limb arithmetic of \<open>recursive/qm31_mul_air.rs\<close> and the reference fold of
  \<open>recursive/recursive_verifier.rs\<close>: the same field as \<open>vfri2_bridge.rs\<close>, on four \<open>u64\<close> limbs reduced
  with \<open>%\<close>. On canonical values both implementations agree.
\<close>

section \<open>Definitions\<close>

definition limb_mul :: "u64 \<Rightarrow> u64 \<Rightarrow> u64" where "limb_mul a b = (a * b) mod M31_P"
definition limb_add :: "u64 \<Rightarrow> u64 \<Rightarrow> u64" where "limb_add a b = (a + b) mod M31_P"
definition limb_sub :: "u64 \<Rightarrow> u64 \<Rightarrow> u64" where "limb_sub a b = (a + M31_P - b) mod M31_P"

definition add_limbs :: "u64 list \<Rightarrow> u64 list \<Rightarrow> u64 list" where
  "add_limbs x y = [limb_add (x ! 0) (y ! 0), limb_add (x ! 1) (y ! 1), limb_add (x ! 2) (y ! 2), limb_add (x ! 3) (y ! 3)]"

definition sub_limbs :: "u64 list \<Rightarrow> u64 list \<Rightarrow> u64 list" where
  "sub_limbs x y = [limb_sub (x ! 0) (y ! 0), limb_sub (x ! 1) (y ! 1), limb_sub (x ! 2) (y ! 2), limb_sub (x ! 3) (y ! 3)]"

definition scale_limbs :: "u64 list \<Rightarrow> u64 \<Rightarrow> u64 list" where
  "scale_limbs x s = [limb_mul (x ! 0) s, limb_mul (x ! 1) s, limb_mul (x ! 2) s, limb_mul (x ! 3) s]"

definition MASK32 :: u128 where "MASK32 = 0xFFFFFFFF"

definition limbs :: "u128 \<Rightarrow> u64 list" where
  "limbs q = [ucast (drop_bit 96 q AND MASK32), ucast (drop_bit 64 q AND MASK32),
     ucast (drop_bit 32 q AND MASK32), ucast (q AND MASK32)]"

definition pack :: "u64 list \<Rightarrow> u128" where
  "pack l = push_bit 96 (ucast (l ! 0)) OR push_bit 64 (ucast (l ! 1)) OR push_bit 32 (ucast (l ! 2)) OR ucast (l ! 3)"

definition mul_limbs :: "u64 list \<Rightarrow> u64 list \<Rightarrow> u64 list" where
  "mul_limbs x y =
     (let xa = x ! 0; xb = x ! 1; xc = x ! 2; xd = x ! 3;
          ya = y ! 0; yb = y ! 1; yc = y ! 2; yd = y ! 3;
          u = limb_sub (limb_mul xc yc) (limb_mul xd yd);
          v = limb_add (limb_mul xc yd) (limb_mul xd yc);
          two = (\<lambda>t. limb_add t t);
          z0 = limb_add (limb_sub (limb_mul xa ya) (limb_mul xb yb)) (limb_sub (two u) v);
          z1 = limb_add (limb_add (limb_mul xa yb) (limb_mul xb ya)) (limb_add u (two v));
          z2 = limb_add (limb_sub (limb_mul xa yc) (limb_mul xb yd)) (limb_sub (limb_mul xc ya) (limb_mul xd yb));
          z3 = limb_add (limb_add (limb_mul xa yd) (limb_mul xb yc)) (limb_add (limb_mul xc yb) (limb_mul xd ya))
      in [z0, z1, z2, z3])"

definition fold_two :: "u128 \<Rightarrow> u128 \<Rightarrow> u128 \<Rightarrow> u32 \<Rightarrow> u128" where
  "fold_two a b alpha w =
     (let al = limbs a; bl = limbs b;
          p = scale_limbs (sub_limbs al bl) (ucast w)
      in pack (add_limbs (add_limbs al bl) (mul_limbs (limbs alpha) p)))"

section \<open>Limbs as field elements\<close>

lemma limb_uint:
  assumes "canon a" "canon b"
  shows "uint (limb_mul a b) = uint a * uint b mod P31" "uint (limb_add a b) = (uint a + uint b) mod P31"
    "uint (limb_sub a b) = (uint a - uint b) mod P31"
proof -
  have a: "0 \<le> uint a" "uint a < P31" and b: "0 \<le> uint b" "uint b < P31" using assms by (simp_all add: canon_uint)
  have P: "uint M31_P = P31" by (rule uint_M31_P)
  have "uint a * uint b \<le> 2147483647 * 2147483647" using a b unfolding P31_def by (intro mult_mono) simp_all
  then have "uint (a * b) = uint a * uint b" by (intro uint_mult_small) simp
  then show "uint (limb_mul a b) = uint a * uint b mod P31" by (simp add: limb_mul_def uint_mod P)
  have "uint (a + b) = uint a + uint b" using a b by (intro uint_add_small) (simp add: P31_def)
  then show "uint (limb_add a b) = (uint a + uint b) mod P31" by (simp add: limb_add_def uint_mod P)
  have s: "uint (a + M31_P) = uint a + P31" unfolding P [symmetric] using a by (intro uint_add_small) (simp add: P31_def P)
  have "uint b \<le> uint (a + M31_P)" using a b s by linarith
  then have "uint (a + M31_P - b) = uint a + P31 - uint b" by (simp add: uint_sub_small s)
  then have "uint (limb_sub a b) = (uint a + P31 - uint b) mod P31" by (simp only: limb_sub_def uint_mod P)
  then have "uint (limb_sub a b) = (uint a - uint b + P31) mod P31" by (simp only: add_diff_eq diff_add_eq)
  then show "uint (limb_sub a b) = (uint a - uint b) mod P31" by simp
qed

lemma limb_canon: "canon a \<Longrightarrow> canon b \<Longrightarrow> canon (limb_mul a b)" "canon a \<Longrightarrow> canon b \<Longrightarrow> canon (limb_add a b)"
  "canon a \<Longrightarrow> canon b \<Longrightarrow> canon (limb_sub a b)"
  using P31_pos by (simp_all add: canon_uint limb_uint)

definition canon_limbs :: "u64 list \<Rightarrow> bool" where
  "canon_limbs l \<longleftrightarrow> (\<exists>a b c d. l = [a, b, c, d] \<and> canon a \<and> canon b \<and> canon c \<and> canon d)"

fun lval :: "u64 list \<Rightarrow> qz" where
  "lval [a, b, c, d] = QZ (uint a) (uint b) (uint c) (uint d)"
| "lval _ = 0"

lemma lval_ops:
  assumes "canon_limbs x" "canon_limbs y"
  shows "lval (add_limbs x y) = qmod (lval x + lval y)" "lval (sub_limbs x y) = qmod (lval x - lval y)"
    "lval (mul_limbs x y) = qmod (lval x * lval y)"
    "canon_limbs (add_limbs x y)" "canon_limbs (sub_limbs x y)" "canon_limbs (mul_limbs x y)"
proof -
  obtain a b c d where x: "x = [a, b, c, d]" "canon a" "canon b" "canon c" "canon d" using assms(1) by (auto simp: canon_limbs_def)
  obtain a' b' c' d' where y: "y = [a', b', c', d']" "canon a'" "canon b'" "canon c'" "canon d'" using assms(2) by (auto simp: canon_limbs_def)
  show "lval (add_limbs x y) = qmod (lval x + lval y)" "lval (sub_limbs x y) = qmod (lval x - lval y)"
    "canon_limbs (add_limbs x y)" "canon_limbs (sub_limbs x y)"
    by (simp_all add: x y add_limbs_def sub_limbs_def limb_uint limb_canon canon_limbs_def)
  show "canon_limbs (mul_limbs x y)"
    by (simp add: x y mul_limbs_def Let_def limb_canon canon_limbs_def)
  have "(u + u) mod P31 = 2 * u mod P31" for u by simp
  then show "lval (mul_limbs x y) = qmod (lval x * lval y)"
    by (simp add: x y mul_limbs_def Let_def limb_uint limb_canon mod_simps add.commute del: right_diff_distrib_numeral distrib_left_numeral)
qed

lemma lval_scale:
  assumes "canon_limbs x" "canon s"
  shows "lval (scale_limbs x s) = qmod (lval x * QZ (uint s) 0 0 0)" "canon_limbs (scale_limbs x s)"
  using assms by (auto simp: canon_limbs_def scale_limbs_def limb_uint limb_canon)

lemma limbs_words: "limbs q = map ucast (qm31_words q)"
proof -
  have "ucast (w AND MASK32) = (ucast (ucast w :: u32) :: u64)" for w :: u128
  proof -
    have "MASK32 = mask 32" by (simp add: MASK32_def mask_eq_exp_minus_1)
    show ?thesis unfolding \<open>MASK32 = mask 32\<close> by (rule bit_word_eqI) (auto simp: bit_simps)
  qed
  then show ?thesis by (simp add: limbs_def qm31_words_def)
qed

lemma canon_ucast_up: "canon (ucast w) \<longleftrightarrow> canon32 w" for w :: u32
  by (simp add: canon_uint canon32_def ucast_up_uint)

lemma lval_limbs: "lval (limbs q) = qval q"
  by (simp add: limbs_words qm31_words_parts qval_def ucast_up_uint)

lemma canon_limbs_limbs: "canon_q q \<Longrightarrow> canon_limbs (limbs q)"
  by (simp add: canon_limbs_def limbs_words qm31_words_parts canon_q_def canon_c_def canon_ucast_up)

lemma pack_words: "pack (map ucast [a, b, c, d]) = qm31_pack_c (cm31_pack a b) (cm31_pack c d)" for a b c d :: u32
  unfolding pack_def qm31_pack_c_def cm31_pack_def by (rule bit_word_eqI) (auto simp: bit_simps dest: bit_imp_le_length)

lemma canon_pack:
  assumes "canon_limbs l"
  shows "qval (pack l) = lval l" "canon_q (pack l)"
proof -
  obtain a b c d where l: "l = [a, b, c, d]" "canon a" "canon b" "canon c" "canon d" using assms by (auto simp: canon_limbs_def)
  have u: "ucast (ucast x :: u32) = x" if "canon x" for x :: u64
    using that by (simp add: word_uint_eq_iff canon_uint ucast_up_uint ucast_down_uint P31_def)
  have c: "canon32 (ucast x)" if "canon x" for x :: u64 using u [OF that] that canon_ucast_up by metis
  have "pack l = qm31_pack_c (cm31_pack (ucast a) (ucast b)) (cm31_pack (ucast c) (ucast d))"
    using pack_words [of "ucast a" "ucast b" "ucast c" "ucast d"] by (simp add: l u)
  then show "qval (pack l) = lval l" "canon_q (pack l)"
    using l u by (simp_all add: qval_def canon_q_def canon_c_def c) (metis ucast_up_uint)
qed

text \<open>The limb operations are those of the bridge.\<close>

lemma pack_ops:
  assumes "canon_q x" "canon_q y"
  shows "pack (add_limbs (limbs x) (limbs y)) = qm31_add x y" "pack (sub_limbs (limbs x) (limbs y)) = qm31_sub x y"
    "pack (mul_limbs (limbs x) (limbs y)) = qm31_mul x y"
  using assms lval_ops [OF canon_limbs_limbs [OF assms(1)] canon_limbs_limbs [OF assms(2)]]
  by (auto intro!: qval_inj simp: canon_pack lval_limbs qval_ops)

lemma pack_scale: "canon_q x \<Longrightarrow> canon32 s \<Longrightarrow> pack (scale_limbs (limbs x) (ucast s)) = qm31_scale_m31 x s"
  using lval_scale [OF canon_limbs_limbs, of x "ucast s"]
  by (auto intro!: qval_inj simp: canon_pack lval_limbs qval_scale canon_ucast_up ucast_up_uint)

lemma limbs_pack: "canon_limbs l \<Longrightarrow> limbs (pack l) = l"
proof -
  assume c: "canon_limbs l"
  have "lval x = lval y \<Longrightarrow> canon_limbs x \<Longrightarrow> canon_limbs y \<Longrightarrow> x = y" for x y
    by (auto simp: canon_limbs_def word_uint_eq_iff)
  then show ?thesis using c canon_pack [OF c] canon_limbs_limbs [of "pack l"] lval_limbs [of "pack l"] by simp
qed

lemma limbs_ops:
  assumes "canon_q x" "canon_q y"
  shows "add_limbs (limbs x) (limbs y) = limbs (qm31_add x y)" "sub_limbs (limbs x) (limbs y) = limbs (qm31_sub x y)"
    "mul_limbs (limbs x) (limbs y) = limbs (qm31_mul x y)"
  using assms pack_ops [OF assms] limbs_pack lval_ops(4-6) [OF canon_limbs_limbs canon_limbs_limbs, of x y] by metis+

lemma limbs_scale: "canon_q x \<Longrightarrow> canon32 s \<Longrightarrow> scale_limbs (limbs x) (ucast s) = limbs (qm31_scale_m31 x s)"
  using pack_scale limbs_pack lval_scale(2) [OF canon_limbs_limbs, of x "ucast s"] canon_ucast_up by metis

lemma pack_limbs: "canon_q x \<Longrightarrow> pack (limbs x) = x"
  by (rule qval_inj) (simp add: canon_pack canon_limbs_limbs lval_limbs)

lemma fold_two_eq:
  assumes "canon_q a" "canon_q b" "canon_q alpha" "canon32 w"
  shows "fold_two a b alpha w = line_fold a b alpha w" "fold_two a b alpha w = circle_fold a b alpha w"
  using assms by (simp_all add: fold_two_def line_fold_def circle_fold_def Let_def limbs_ops limbs_scale pack_limbs canon_intros)

end
