(* ===== verification/Merkle_Paths.thy ===== *)
theory Merkle_Paths
  imports Channels
begin

unbundle bit_operations_syntax

text \<open>
  Paths of the complete trees of \<open>vfri2_bridge.rs\<close>: \<open>proof_path\<close> never indexes out of range on a tree
  over \<open>2^m\<close> leaves, its nodes fold to the root along the bits of the index, and on width-8 nodes the
  fold can be computed on the four words of each node.
\<close>

section \<open>Complete trees\<close>

definition index_bits :: "nat \<Rightarrow> nat \<Rightarrow> bool list" where
  "index_bits n idx = map (\<lambda>i. drop_bit i idx AND 1 = 1) [0..<n]"

lemma index_bits_Suc: "index_bits (Suc n) idx = (idx AND 1 = 1) # index_bits n (idx div 2)"
proof -
  have "drop_bit (Suc i) idx = drop_bit i (idx div 2)" for i by (simp add: drop_bit_Suc)
  then have "map (\<lambda>i. drop_bit i idx AND 1 = 1) (map Suc [0..<n]) = index_bits n (idx div 2)"
    by (simp only: index_bits_def map_map o_def)
  then have "map (\<lambda>i. drop_bit i idx AND 1 = 1) [Suc 0..<Suc n] = index_bits n (idx div 2)"
    by (simp only: map_Suc_upt)
  moreover have "[0..<Suc n] = 0 # [Suc 0..<Suc n]" by (simp add: upt_conv_Cons del: upt_Suc)
  ultimately show ?thesis by (simp add: index_bits_def del: upt_Suc)
qed

lemma proof_path_tree:
  "length level = 2 ^ m \<Longrightarrow> idx < 2 ^ m \<Longrightarrow>
   \<exists>sibs. proof_path_loop (butlast (tree_levels H level)) idx = Some sibs \<and> length sibs = m
     \<and> tree_path (butlast (tree_levels H level)) idx = (sibs, index_bits m idx)"
proof (induction m arbitrary: level idx)
  case 0
  then show ?case by (simp add: butlast_tree_levels [of H level] index_bits_def)
next
  case (Suc m)
  have nl: "length (next_level H level) = 2 ^ m" using Suc.prems(1) by (simp add: length_next_level)
  have "(1 :: nat) < 2 ^ Suc m" by (rule one_less_power) simp_all
  then have b: "butlast (tree_levels H level) = level # butlast (tree_levels H (next_level H level))"
    using Suc.prems(1) by (simp only: butlast_tree_levels [of H level] if_True)
  have "idx div 2 < 2 ^ m" using Suc.prems(2) by simp
  from Suc.IH [OF nl this] obtain sibs where s:
    "proof_path_loop (butlast (tree_levels H (next_level H level))) (idx div 2) = Some sibs" "length sibs = m"
    "tree_path (butlast (tree_levels H (next_level H level))) (idx div 2) = (sibs, index_bits m (idx div 2))" by blast
  have x: "idx XOR 1 < 2 ^ Suc m"
  proof (cases "odd idx")
    case False
    then have "idx \<noteq> 2 ^ Suc m - 1" by (metis even_power odd_Suc_minus_one power_Suc_0 even_Suc nat.discI
        One_nat_def Suc_pred' dvd_triv_left less_numeral_extra(1) power_Suc zero_less_numeral zero_less_power)
    then have "idx + 1 < 2 ^ Suc m" using Suc.prems(2) by linarith
    then show ?thesis unfolding xor_one using False by (simp only: if_False)
  next
    case True
    then show ?thesis unfolding xor_one using Suc.prems(2) by simp
  qed
  then have "min (idx XOR 1) (length level - 1) = idx XOR 1" using Suc.prems(1) by simp
  then show ?case using x Suc.prems(1) s by (simp add: b index_bits_Suc drop_bit_Suc)
qed

lemma proof_path_nodes: "proof_path_loop lvls i = Some sibs \<Longrightarrow> x \<in> set sibs \<Longrightarrow> \<exists>lv\<in>set lvls. x \<in> set lv"
proof (induction lvls i arbitrary: sibs rule: proof_path_loop.induct)
  case (2 level lvls index)
  then have i: "index XOR 1 < length level" by (auto split: if_splits)
  with "2.prems"(1) obtain ss where s: "proof_path_loop lvls (drop_bit 1 index) = Some ss" "sibs = level ! (index XOR 1) # ss"
    by auto
  show ?case using "2.IH" [OF i s(1)] "2.prems"(2) i s(2) by auto
qed simp

lemma length_index_bits [simp]: "length (index_bits n idx) = n"
  by (simp add: index_bits_def)

lemma proof_path_opens:
  assumes "length level = 2 ^ m" "idx < 2 ^ m"
  obtains sibs where "proof_path (tree_levels H level) idx = Some sibs" "length sibs = m"
    "fold_path H (level ! idx) sibs (index_bits m idx) = last (tree_levels H level) ! 0"
    "\<forall>x\<in>set sibs. \<exists>lv\<in>set (tree_levels H level). x \<in> set lv"
proof -
  from proof_path_tree [OF assms, of H] obtain sibs where s:
    "proof_path_loop (butlast (tree_levels H level)) idx = Some sibs" "length sibs = m"
    "tree_path (butlast (tree_levels H level)) idx = (sibs, index_bits m idx)" by blast
  have p: "proof_path (tree_levels H level) idx = Some sibs"
    using s(1) by (simp add: proof_path_def butlast_conv_take)
  have "\<forall>x\<in>set sibs. \<exists>lv\<in>set (tree_levels H level). x \<in> set lv"
    using proof_path_nodes [OF s(1)] by (meson in_set_butlastD)
  moreover have "fold_path H (level ! idx) sibs (index_bits m idx) = last (tree_levels H level) ! 0"
    by (rule conjunct1 [OF fold_tree_path [OF _ s(3)]]) (use assms in simp)
  ultimately show ?thesis using that p s(2) by blast
qed

section \<open>Width-8 nodes as words\<close>

lemma next_level_wf: "\<forall>x\<in>set level. wf_node x \<Longrightarrow> \<forall>x\<in>set (next_level hash_pair_p2t8 level). wf_node x"
  by (induction hash_pair_p2t8 level rule: next_level.induct) (simp_all add: wf_node_pair)

lemma tree_levels_wf:
  "\<forall>x\<in>set level. wf_node x \<Longrightarrow> lv \<in> set (tree_levels hash_pair_p2t8 level) \<Longrightarrow> \<forall>x\<in>set lv. wf_node x"
proof (induction hash_pair_p2t8 level rule: tree_levels.induct)
  case (1 level)
  have "lv = level \<or> length level > 1 \<and> lv \<in> set (tree_levels hash_pair_p2t8 (next_level hash_pair_p2t8 level))"
    using "1.prems"(2) tree_levels.simps [of hash_pair_p2t8 level] by (auto split: if_splits)
  then show ?case using "1.hyps" [OF _ next_level_wf] "1.prems"(1) by blast
qed

lemma words_hash_pair:
  "wf_node l \<Longrightarrow> wf_node r \<Longrightarrow> p2t8_node_words (hash_pair_p2t8 l r) = compress_t8 (p2t8_node_words l) (p2t8_node_words r)"
  by (simp add: hash_pair_p2t8_def node_words_pack_canon compress_t8_wf wf_node_words)

lemma fold_path_words:
  assumes "wf_node leaf" "\<forall>x\<in>set sibs. wf_node x" "length sibs = length bits"
  shows "fold_path compress_t8 (p2t8_node_words leaf) (map p2t8_node_words sibs) bits
    = p2t8_node_words (fold_path hash_pair_p2t8 leaf sibs bits)"
  using assms
proof (induction bits arbitrary: leaf sibs)
  case (Cons b bits)
  then obtain s ss where s: "sibs = s # ss" by (cases sibs) auto
  have w: "wf_node (if b then hash_pair_p2t8 s leaf else hash_pair_p2t8 leaf s)" using Cons.prems s by (simp add: wf_node_pair)
  have "length ss = length bits" "\<forall>x\<in>set ss. wf_node x" using Cons.prems s by simp_all
  from Cons.IH [OF w this(2,1)] show ?case using Cons.prems s by (auto simp: words_hash_pair split: if_splits)
qed simp

lemma wf_leaf_qm31: "wf_node (hash_leaf_qm31_p2t8 v)"
proof -
  obtain s where "wf_state 8 s" "\<forall>u. 0 < length u \<and> length u \<le> 4 \<longrightarrow> p2_sponge permute_t8 4 8 ([] @ u) = permute_t8 (s8.last_state s u)"
    using s8.sponge_last [of "[]" 0] by auto
  then have "wf_state 8 (sponge_t8 (map ucast (qm31_words v)))"
    using s8.last_state_wf by (simp add: sponge_t8_def perm_wf qm31_words_def)
  then have "wf_state 4 [sponge_t8 (map ucast (qm31_words v)) ! 0, sponge_t8 (map ucast (qm31_words v)) ! 1,
     sponge_t8 (map ucast (qm31_words v)) ! 2, sponge_t8 (map ucast (qm31_words v)) ! 3]"
    by (simp add: wf_state_def)
  then show ?thesis unfolding wf_node_def hash_leaf_qm31_p2t8_def Let_def by blast
qed

text \<open>A value opens a root along a path of words.\<close>

definition opens :: "u64 list \<Rightarrow> u128 \<Rightarrow> u64 list list \<times> bool list \<Rightarrow> bool" where
  "opens rt v path \<longleftrightarrow> length (fst path) = length (snd path)
     \<and> fold_path compress_t8 (p2t8_node_words (hash_leaf_qm31_p2t8 v)) (fst path) (snd path) = rt"

lemma word_path_opens:
  assumes "length vals = 2 ^ m" "idx < 2 ^ m"
  obtains sibs where "proof_path (tree_levels hash_pair_p2t8 (map hash_leaf_qm31_p2t8 vals)) idx = Some sibs" "length sibs = m"
    "opens (p2t8_node_words (last (tree_levels hash_pair_p2t8 (map hash_leaf_qm31_p2t8 vals)) ! 0)) (vals ! idx)
       (map p2t8_node_words sibs, index_bits m idx)"
proof -
  let ?lv = "map hash_leaf_qm31_p2t8 vals"
  have l: "length ?lv = 2 ^ m" using assms(1) by simp
  obtain sibs where s: "proof_path (tree_levels hash_pair_p2t8 ?lv) idx = Some sibs" "length sibs = m"
    "fold_path hash_pair_p2t8 (?lv ! idx) sibs (index_bits m idx) = last (tree_levels hash_pair_p2t8 ?lv) ! 0"
    "\<forall>x\<in>set sibs. \<exists>lv\<in>set (tree_levels hash_pair_p2t8 ?lv). x \<in> set lv"
    by (rule proof_path_opens [OF l assms(2), of hash_pair_p2t8])
  have "\<forall>x\<in>set ?lv. wf_node x" by (simp add: wf_leaf_qm31)
  then have ws: "\<forall>x\<in>set sibs. wf_node x" using s(4) tree_levels_wf by blast
  have "opens (p2t8_node_words (last (tree_levels hash_pair_p2t8 ?lv) ! 0)) (vals ! idx) (map p2t8_node_words sibs, index_bits m idx)"
  proof -
    have lf: "?lv ! idx = hash_leaf_qm31_p2t8 (vals ! idx)" using assms by simp
    have "fold_path compress_t8 (p2t8_node_words (hash_leaf_qm31_p2t8 (vals ! idx))) (map p2t8_node_words sibs) (index_bits m idx)
        = p2t8_node_words (last (tree_levels hash_pair_p2t8 ?lv) ! 0)"
      unfolding s(3) [unfolded lf, symmetric]
      by (rule fold_path_words [OF wf_leaf_qm31 ws]) (use s(2) in simp)
    then show ?thesis using s(2) by (simp only: opens_def fst_conv snd_conv length_map length_index_bits)
  qed
  with that s show ?thesis by blast
qed

end
