(* ===== verification/Recursion_Inputs.thy ===== *)
theory Recursion_Inputs
  imports FRI_Degree QM31_Limbs Merkle_Paths
begin

unbundle bit_operations_syntax

text \<open>
  The bridge from a FRI chain to the recursion: the reference fold of one query
  (\<open>recursive/recursive_verifier.rs\<close>), the extraction of the recursion inputs from a chain
  (\<open>gen_vfri11_recursion_inputs\<close>, \<open>tree_statement_from_columns\<close> of \<open>vfri2_bridge.rs\<close>), and the
  challenges a transcript produces (\<open>recursive/composition_channel_t8.rs\<close>).
\<close>

section \<open>The reference fold\<close>

text \<open>\<open>StepOp\<close> is \<open>(fPlus, fMinus, px, z_x, comboPos, comboNeg, friAlpha, yInv)\<close>; a round is \<open>(sibling, alpha, xInv)\<close>.\<close>

type_synonym StepOp = "u128 \<times> u128 \<times> u32 \<times> u128 \<times> u128 \<times> u128 \<times> u128 \<times> u32"
type_synonym FoldRound = "u128 \<times> u128 \<times> u32"

fun fold_outs :: "u128 \<Rightarrow> FoldRound list \<Rightarrow> u128 list" where
  "fold_outs input [] = [input]"
| "fold_outs input ((sibling, alpha, x_inv) # rounds) = input # fold_outs (fold_two input sibling alpha x_inv) rounds"

fun recursive_query_ref :: "StepOp \<Rightarrow> FoldRound list \<Rightarrow> u128 list" where
  "recursive_query_ref (f_plus, f_minus, px, zx, cp, cn, fri_al, y_inv) rounds =
     fold_outs (fold_two f_plus f_minus fri_al y_inv) rounds"

definition recursive_query_final :: "StepOp \<Rightarrow> FoldRound list \<Rightarrow> u128" where
  "recursive_query_final step rounds = last (recursive_query_ref step rounds)"

definition recursive_queries_final :: "(StepOp \<times> FoldRound list) list \<Rightarrow> u128 list" where
  "recursive_queries_final queries = map (\<lambda>(step, rounds). recursive_query_final step rounds) queries"

record QueryChallenges =
  qc_px :: u32
  qc_z_x :: u128
  qc_alphas :: "u128 list"
  qc_invs :: "u32 list"
  qc_comp_pos :: u128
  qc_comp_neg :: u128

fun query_challenges :: "StepOp \<Rightarrow> FoldRound list \<Rightarrow> QueryChallenges" where
  "query_challenges (f_plus, f_minus, px, zx, combo_pos, combo_neg, fri_al, y_inv) rounds =
     (let px_q = pack [ucast px, 0, 0, 0];
          neg_px_q = sub_limbs [0, 0, 0, 0] (limbs px_q);
          d_pos = sub_limbs (limbs px_q) (limbs zx);
          d_neg = sub_limbs neg_px_q (limbs zx)
      in \<lparr>qc_px = px, qc_z_x = zx,
          qc_alphas = fri_al # map (\<lambda>(_, alpha, _). alpha) rounds,
          qc_invs = y_inv # map (\<lambda>(_, _, x_inv). x_inv) rounds,
          qc_comp_pos = pack (add_limbs (mul_limbs (limbs f_plus) d_pos) (limbs combo_pos)),
          qc_comp_neg = pack (add_limbs (mul_limbs (limbs f_minus) d_neg) (limbs combo_neg))\<rparr>)"

section \<open>Extraction\<close>

type_synonym CompMembership = "u64 list list \<times> bool list \<times> u64 list list \<times> bool list"

record Vfri11RecursionInputs =
  ri_queries :: "(StepOp \<times> FoldRound list) list"
  ri_paths :: "(u64 list list \<times> bool list) list"
  ri_last_layer_root :: "u64 list"
  ri_comp_paths :: "CompMembership list"
  ri_comp_root :: "u64 list"
  ri_finals :: "u128 list"
  ri_trace_root :: bytes
  ri_channel_inputs :: Vfri11ChannelInputs

text \<open>The rounds of a query, and the index in the last layer.\<close>

fun round_loop :: "Vfri11Chain \<Rightarrow> nat \<Rightarrow> nat list \<Rightarrow> nat \<Rightarrow> FoldRound list \<times> nat" where
  "round_loop ch tree_depth [] cur_idx = ([], cur_idx)"
| "round_loop ch tree_depth (k # ks) cur_idx =
     (let layer_sz = length (layer_values ch ! k) div 2;
          sib_idx = (if cur_idx < layer_sz then cur_idx + layer_sz else cur_idx - layer_sz);
          new_idx = cur_idx AND (layer_sz - 1);
          sib_val = layer_values ch ! k ! sib_idx;
          x_j = fst (coset_at tree_depth (word_of_nat new_idx));
          i = m31_inv (chebyshev_twiddle x_j k);
          inv_oriented = (if cur_idx < layer_sz then i else ucast ((M31_P - ucast i) mod M31_P));
          (rounds, last_idx) = round_loop ch tree_depth ks new_idx
      in ((sib_val, fri_alphas ch ! k, inv_oriented) # rounds, last_idx))"

text \<open>A path of a tree with its nodes as words.\<close>

definition word_path :: "bytes list list \<Rightarrow> nat \<Rightarrow> fri_error + u64 list list \<times> bool list" where
  "word_path lvls idx =
     and_then (ok_or Panic (proof_path lvls idx)) (\<lambda>packed.
     let sibs = map p2t8_node_words packed in Inr (sibs, index_bits (length sibs) idx))"

definition query_step :: "Vfri11Chain \<Rightarrow> nat \<Rightarrow> nat \<Rightarrow> StepOp" where
  "query_step ch tree_depth idx =
     (let anti = antipodal_of idx tree_depth;
          (qp_x, qp_y) = coset_at tree_depth (word_of_nat idx);
          f_plus = quotient_pos (comp_values ch ! idx) (oods_combo_pos ch) (z_x ch) qp_x;
          f_minus = quotient_neg (comp_values ch ! anti) (oods_combo_neg ch) (z_x ch) qp_x
      in (f_plus, f_minus, qp_x, z_x ch, oods_combo_pos ch, oods_combo_neg ch, fri_alpha ch, m31_inv qp_y))"

definition query_inputs ::
  "Vfri11Chain \<Rightarrow> nat \<Rightarrow> nat \<Rightarrow> fri_error + (StepOp \<times> FoldRound list) \<times> (u64 list list \<times> bool list) \<times> CompMembership \<times> u128" where
  "query_inputs ch tree_depth idx =
     (let anti = antipodal_of idx tree_depth;
          step = query_step ch tree_depth idx;
          (rounds, cur_idx) = round_loop ch tree_depth [0..<num_folds ch] idx;
          final_val = recursive_query_final step rounds
      in if final_val \<noteq> layer_values ch ! num_folds ch ! cur_idx then Inl (ExtractionMismatch idx)
         else and_then (word_path (layer_levels ch ! num_folds ch) cur_idx) (\<lambda>path.
              and_then (word_path (comp_levels ch) idx) (\<lambda>(cp_sibs, cp_bits).
              and_then (word_path (comp_levels ch) anti) (\<lambda>(cn_sibs, cn_bits).
              Inr ((step, rounds), path, (cp_sibs, cp_bits, cn_sibs, cn_bits), final_val)))))"

definition gen_vfri11_recursion_inputs ::
  "u32 list list \<Rightarrow> nat \<Rightarrow> bytes \<Rightarrow> nat \<Rightarrow> nat option \<Rightarrow> fri_error + Vfri11RecursionInputs" where
  "gen_vfri11_recursion_inputs cols tree_depth batch_merkle_root n_queries num_folds_opt =
     and_then (vfri11_fri_chain cols tree_depth batch_merkle_root n_queries num_folds_opt) (\<lambda>ch.
     and_then (collect_results (map (query_inputs ch tree_depth) (derived_indices ch))) (\<lambda>qs.
     Inr \<lparr>ri_queries = map fst qs, ri_paths = map (fst \<circ> snd) qs,
          ri_last_layer_root = p2t8_node_words (layer_roots ch ! num_folds ch),
          ri_comp_paths = map (fst \<circ> snd \<circ> snd) qs, ri_comp_root = p2t8_node_words (comp_root ch),
          ri_finals = map (snd \<circ> snd \<circ> snd) qs, ri_trace_root = trace_root ch,
          ri_channel_inputs = chain_inputs ch batch_merkle_root tree_depth n_queries\<rparr>))"

section \<open>Challenges of a transcript\<close>

record ChallengeLayout =
  z_x_at :: nat
  alpha_at :: "nat list"

definition max_draw :: "ChallengeLayout \<Rightarrow> nat" where
  "max_draw l = foldl (\<lambda>m a. max m (a + 1)) (z_x_at l + 1) (alpha_at l)"

definition vfri11_challenge_layout :: "nat \<Rightarrow> ChallengeLayout" where
  "vfri11_challenge_layout folds = \<lparr>z_x_at = 0, alpha_at = map (\<lambda>i. 4 + 2 * i) [0..<1 + folds]\<rparr>"

definition felt_from :: "(u32 \<times> u32) list \<Rightarrow> nat \<Rightarrow> u128" where
  "felt_from drawn i =
     pack [ucast (fst (drawn ! i)), ucast (snd (drawn ! i)), ucast (fst (drawn ! (i + 1))), ucast (snd (drawn ! (i + 1)))]"

record DerivedChallenges =
  dc_z_x :: u128
  dc_alphas :: "u128 list"
  dc_drawn :: "(u32 \<times> u32) list"
  dc_digest :: "u64 list"

datatype derive_error = EmptyTranscript | TranscriptTooLong nat | LayoutOutOfRange nat nat

definition MAX_STEPS :: nat where "MAX_STEPS = 512"

definition derive_challenges :: "Step list \<Rightarrow> ChallengeLayout \<Rightarrow> derive_error + DerivedChallenges" where
  "derive_challenges steps layout =
     (if steps = [] then Inl EmptyTranscript
      else if length steps > MAX_STEPS then Inl (TranscriptTooLong (length steps))
      else let (drawn, c) = run_steps steps t8_init
           in if max_draw layout \<ge> length drawn then Inl (LayoutOutOfRange (max_draw layout) (length drawn))
              else Inr \<lparr>dc_z_x = felt_from drawn (z_x_at layout),
                        dc_alphas = map (felt_from drawn) (alpha_at layout), dc_drawn = drawn, dc_digest = cells c\<rparr>)"

section \<open>Statements of a tree node\<close>

datatype Group = Log10 | Log8

record BatchMembership =
  bm_tx_id :: "u64 list"
  bm_tr10 :: "u64 list"
  bm_tr8 :: "u64 list"
  bm_side :: Group
  bm_sibs :: "u64 list list"
  bm_bits :: "bool list"
  bm_batch_root :: "u64 list"

definition bm_path :: "BatchMembership \<Rightarrow> u64 list list \<times> bool list" where
  "bm_path m =
     (let (first_sib, first_bit) = (case bm_side m of Log10 \<Rightarrow> (bm_tr8 m, False) | Log8 \<Rightarrow> (bm_tr10 m, True))
      in ([first_sib, bm_tx_id m, LEAF_DOMAIN] @ bm_sibs m, [first_bit, True, True] @ bm_bits m))"

definition bm_start :: "BatchMembership \<Rightarrow> u64 list" where
  "bm_start m = (case bm_side m of Log10 \<Rightarrow> bm_tr10 m | Log8 \<Rightarrow> bm_tr8 m)"

definition bm_depth :: "BatchMembership \<Rightarrow> nat" where
  "bm_depth m = 3 + length (bm_sibs m)"

record TreeStatement =
  ts_steps :: "Step list"
  ts_layout :: ChallengeLayout
  ts_queries :: "(StepOp \<times> FoldRound list) list"
  ts_paths :: "(u64 list list \<times> bool list) list"
  ts_comp_paths :: "CompMembership list"
  ts_membership :: "BatchMembership option"
  ts_inputs :: "Vfri11ChannelInputs option"

datatype statement_error =
  ChainError fri_error | DeriveError derive_error | DriftedPoint nat | DriftedAlphas nat
  | WrongTraceRoot "u64 list" "u64 list" | NoQuery

definition map_err :: "('e \<Rightarrow> 'f) \<Rightarrow> 'e + 'a \<Rightarrow> 'f + 'a" where
  "map_err f r = (case r of Inl e \<Rightarrow> Inl (f e) | Inr x \<Rightarrow> Inr x)"

definition check_query :: "DerivedChallenges \<Rightarrow> nat \<times> StepOp \<times> FoldRound list \<Rightarrow> statement_error + unit" where
  "check_query derived = (\<lambda>(q, step, rounds).
     let ch = query_challenges step rounds
     in if qc_z_x ch \<noteq> dc_z_x derived then Inl (DriftedPoint q)
        else if qc_alphas ch \<noteq> dc_alphas derived then Inl (DriftedAlphas q)
        else Inr ())"

definition tree_statement_from_columns ::
  "u32 list list \<Rightarrow> nat \<Rightarrow> bytes \<Rightarrow> nat \<Rightarrow> nat option \<Rightarrow> BatchMembership option \<Rightarrow> statement_error + TreeStatement" where
  "tree_statement_from_columns cols tree_depth batch_merkle_root n_queries num_folds_opt membership =
     and_then (map_err ChainError (gen_vfri11_recursion_inputs cols tree_depth batch_merkle_root n_queries num_folds_opt)) (\<lambda>rec.
     if ri_queries rec = [] then Inl NoQuery
     else let folds = length (snd (ri_queries rec ! 0)) in
     and_then (map_err ChainError (vfri11_transcript_steps (ri_channel_inputs rec))) (\<lambda>steps.
     let layout = vfri11_challenge_layout folds in
     and_then (map_err DeriveError (derive_challenges steps layout)) (\<lambda>derived.
     and_then (collect_results (map (check_query derived) (enumerate 0 (ri_queries rec)))) (\<lambda>_.
     and_then (case membership of None \<Rightarrow> Inr ()
               | Some m \<Rightarrow> let own = p2t8_node_words (ri_trace_root rec)
                           in if bm_start m \<noteq> own then Inl (WrongTraceRoot (bm_start m) own) else Inr ()) (\<lambda>_.
     Inr \<lparr>ts_steps = steps, ts_layout = layout, ts_queries = ri_queries rec, ts_paths = ri_paths rec,
          ts_comp_paths = ri_comp_paths rec, ts_membership = membership,
          ts_inputs = Some (ri_channel_inputs rec)\<rparr>)))))"

section \<open>The extraction agrees with the chain\<close>

lemma eval_circle_even_canon:
  assumes "0 < d" "d \<le> 30" "canon_list col" "length col = 2 ^ d" "canon_q z"
  shows "canon_q (eval_circle_even col (half_xs d) (precompute_bary_weights (half_xs d)) z)"
proof -
  note x = half_xs_facts [OF assms(1,2)]
  have h: "2 * 2 ^ (d - 1) = (2 :: nat) ^ d" using assms(1) by (cases d) simp_all
  define vs where "vs = map (\<lambda>k. m31_mul32 (m31_add32 (col ! k) (col ! (length col - 1 - k))) (m31_inv 2)) [0..<length (half_xs d)]"
  have "canon32 (vs ! k)" if "k < 2 ^ (d - 1)" for k
  proof -
    have "k < 2 ^ d" "2 ^ d - 1 - k < (2 :: nat) ^ d" using that h by linarith+
    then have "canon32 (col ! k)" "canon32 (col ! (length col - 1 - k))" using assms(3,4) by (simp_all add: canon_list_nth)
    moreover have "canon32 (2 :: u32)" by (simp add: canon32_def P31_def)
    ultimately show ?thesis using that x(3) by (simp add: vs_def canon_intros)
  qed
  then have "canon_list vs" unfolding canon_list_def in_set_conv_nth using x(3) by (auto simp: vs_def)
  moreover have "half_xs d \<noteq> []" using x(3) by auto
  ultimately have "canon_q (eval_bary vs (half_xs d) (precompute_bary_weights (half_xs d)) z)"
    using x assms(5) by (intro eval_bary_lagrange(1)) (simp_all add: vs_def)
  then show ?thesis by (simp add: eval_circle_even_def Let_def vs_def)
qed

lemma oods_combo_canon: "canon_q ca \<Longrightarrow> \<forall>e\<in>set evs. canon_q e \<Longrightarrow> canon_q (oods_combo ca evs)"
proof -
  assume ca: "canon_q ca" and e: "\<forall>e\<in>set evs. canon_q e"
  have "canon_q (fst (foldl (\<lambda>(acc, ap) ev. (qm31_add acc (qm31_mul ap ev), qm31_mul ap ca)) (acc, ap) evs))"
    if "canon_q acc" "canon_q ap" for acc ap
    using that e by (induction evs arbitrary: acc ap) (simp_all add: canon_intros ca)
  then show ?thesis by (simp add: oods_combo_def canon_intros)
qed

lemma comp_value_canon: "canon_q ca \<Longrightarrow> \<forall>c\<in>set cols. canon32 (c ! i) \<Longrightarrow> canon_q (comp_value_at ca cols i)"
proof -
  assume ca: "canon_q ca" and e: "\<forall>c\<in>set cols. canon32 (c ! i)"
  have "canon_q (fst (foldl (\<lambda>(acc, ap) c. (qm31_add acc (qm31_mul_m31 ap (c ! i)), qm31_mul ap ca)) (acc, ap) cols))"
    if "canon_q acc" "canon_q ap" for acc ap
    using that e by (induction cols arbitrary: acc ap) (simp_all add: canon_intros ca)
  then show ?thesis by (simp add: comp_value_at_def canon_intros)
qed

text \<open>The facts on a chain over canonical columns that the extraction needs.\<close>

definition good_chain :: "nat \<Rightarrow> nat \<Rightarrow> Vfri11Chain \<Rightarrow> bool" where
  "good_chain d n ch \<longleftrightarrow>
     2 \<le> d \<and> d \<le> 30 \<and> length (comp_values ch) = 2 ^ d \<and> (\<forall>v\<in>set (comp_values ch). canon_q v)
     \<and> (\<forall>v\<in>set ([oods_combo_pos ch, oods_combo_neg ch, z_x ch, comp_alpha ch, fri_alpha ch] @ fri_alphas ch). canon_q v)
     \<and> commit T8Backend (map hash_leaf_qm31_p2t8 (comp_values ch)) = Inr (comp_levels ch, comp_root ch)
     \<and> (\<forall>q<2 ^ d. l1_value d (comp_values ch) (oods_combo_pos ch) (oods_combo_neg ch) (z_x ch) (fri_alpha ch) q
          = Inr (layer_values ch ! 0 ! q))
     \<and> layers_ok T8Backend d (fri_alphas ch) (layer_values ch) (layer_levels ch) (layer_roots ch)
     \<and> length (fri_alphas ch) = num_folds ch \<and> num_folds ch < d
     \<and> length (derived_indices ch) = n \<and> (\<forall>q\<in>set (derived_indices ch). q < 2 ^ d)"

lemma chain_good:
  assumes "vfri11_fri_chain cols d br n opt = Inr ch" "\<forall>c\<in>set cols. canon_list c"
  shows "good_chain d n ch" "fst (replay P2T8Chan (chain_inputs ch br d n)) = challenges_of ch"
    "1 \<le> n" "n \<le> 64" "1 \<le> num_folds ch"
proof -
  have ok: "chain_ok T8Backend cols d br n ch" and v: "valid_request cols d br n opt"
    using fri8.chain_result [of cols d br n opt] assms(1) by (auto simp: vfri11_fri_chain_def)
  note o = ok [unfolded chain_ok_def]
  have d: "2 \<le> d" "d \<le> 30" "\<forall>c\<in>set cols. length c = 2 ^ d" using v by (simp_all add: valid_request_def)
  have c: "canon_q (z_x ch)" "canon_q (comp_alpha ch)" using o by simp_all
  have ev: "canon_q (eval_circle_even c (half_xs d) (precompute_bary_weights (half_xs d)) z)"
    if "c \<in> set cols" "canon_q z" for c z
    using that d assms(2) by (intro eval_circle_even_canon) auto
  have "canon_q (oods_combo_pos ch)" "canon_q (oods_combo_neg ch)"
    using o c ev by (auto intro!: oods_combo_canon simp: canon_intros)
  moreover have "\<forall>v\<in>set (comp_values ch). canon_q v"
    using o c d(3) assms(2) by (auto intro!: comp_value_canon simp: canon_list_nth)
  moreover have "b_hash_leaf_qm31 T8Backend = hash_leaf_qm31_p2t8" "chan T8Backend = P2T8Chan" by (simp_all add: T8Backend_def)
  moreover have "length (comp_values ch) = 2 ^ d" using o by simp
  moreover have "commit T8Backend (map (b_hash_leaf_qm31 T8Backend) (comp_values ch)) = Inr (comp_levels ch, comp_root ch)
     \<and> (\<forall>q<2 ^ d. l1_value d (comp_values ch) (oods_combo_pos ch) (oods_combo_neg ch) (z_x ch) (fri_alpha ch) q
          = Inr (layer_values ch ! 0 ! q))
     \<and> layers_ok T8Backend d (fri_alphas ch) (layer_values ch) (layer_levels ch) (layer_roots ch)
     \<and> length (fri_alphas ch) = num_folds ch \<and> 1 \<le> num_folds ch \<and> num_folds ch < d
     \<and> length (derived_indices ch) = n \<and> (\<forall>q\<in>set (derived_indices ch). q < 2 ^ d)
     \<and> (\<forall>v\<in>set ([z_x ch, comp_alpha ch, fri_alpha ch] @ fri_alphas ch). canon_q v)
     \<and> fst (replay (chan T8Backend) (chain_inputs ch br d n)) = challenges_of ch" using o by blast
  ultimately show "good_chain d n ch" "fst (replay P2T8Chan (chain_inputs ch br d n)) = challenges_of ch" "1 \<le> num_folds ch"
    using d(1,2) by (simp_all add: good_chain_def)
  show "1 \<le> n" "n \<le> 64" using v by (simp_all add: valid_request_def)
qed

lemma step_cases:
  fixes st :: StepOp
  obtains a b c d e f g h where "st = (a, b, c, d, e, f, g, h)"
proof (cases st rule: prod_cases7)
  case (fields a b c d e f gh)
  then show ?thesis using that by (cases gh) simp
qed

lemma quotients:
  "quotient_pos v c z px = qm31_div (qm31_sub v c) (qm31_sub (qm31_from_m31 px) z)"
  "quotient_neg v c z px = qm31_div (qm31_sub v c) (qm31_sub (qm31_neg (qm31_from_m31 px)) z)"
  by (simp_all add: quotient_pos_def quotient_neg_def)

text \<open>The step of a query folds to the value of layer 1, and its composition values are those of the chain.\<close>

lemma query_step_ok:
  assumes "good_chain d n ch" "q < 2 ^ d" "query_step ch d q = (fp, fm', px, z, cp, cn, fa, yi)"
  shows "fold_two fp fm' fa yi = layer_values ch ! 0 ! q" "z = z_x ch" "fa = fri_alpha ch"
    "canon_q fp" "canon_q fm'" "canon32 px" "canon32 yi"
    "qc_comp_pos (query_challenges (fp, fm', px, z, cp, cn, fa, yi) rounds) = comp_values ch ! q"
    "qc_comp_neg (query_challenges (fp, fm', px, z, cp, cn, fa, yi) rounds) = comp_values ch ! antipodal_of q d"
proof -
  note g = assms(1) [unfolded good_chain_def]
  obtain x y where xy: "coset_at d (word_of_nat q) = (x, y)" by force
  have a: "antipodal_of q d < 2 ^ d" using antipodal_less [of d q] g assms(2) by simp
  have e: "fp = quotient_pos (comp_values ch ! q) (oods_combo_pos ch) (z_x ch) x"
    "fm' = quotient_neg (comp_values ch ! antipodal_of q d) (oods_combo_neg ch) (z_x ch) x"
    "px = x" "z = z_x ch" "cp = oods_combo_pos ch" "cn = oods_combo_neg ch" "fa = fri_alpha ch" "yi = m31_inv y"
    using assms(3) by (auto simp: query_step_def Let_def xy)
  have c: "canon_q (comp_values ch ! q)" "canon_q (comp_values ch ! antipodal_of q d)" "canon_q (oods_combo_pos ch)"
    "canon_q (oods_combo_neg ch)" "canon_q (z_x ch)" "canon_q (fri_alpha ch)" "canon32 x" "canon32 y"
    using g a assms(2) canon_coset [of d "word_of_nat q"] xy by simp_all
  show "z = z_x ch" "fa = fri_alpha ch" "canon32 px" "canon32 yi" using e c by (simp_all add: canon_inv)
  show f: "canon_q fp" "canon_q fm'" using c by (simp_all add: e quotients canon_intros)
  have l1: "l1_value d (comp_values ch) (oods_combo_pos ch) (oods_combo_neg ch) (z_x ch) (fri_alpha ch) q = Inr (layer_values ch ! 0 ! q)"
    using g assms(2) by blast
  then have v: "circle_fold fp fm' fa yi = layer_values ch ! 0 ! q"
    and nz: "qm31_sub (qm31_from_m31 x) z \<noteq> 0" "qm31_sub (qm31_neg (qm31_from_m31 x)) z \<noteq> 0"
    by (simp_all add: l1_value_def Let_def xy e quotients split: if_splits)
  show "fold_two fp fm' fa yi = layer_values ch ! 0 ! q"
    using fold_two_eq(2) [OF f, of fa yi] v c by (simp add: e(7,8) canon_inv)
  have pk: "pack [ucast x, 0, 0, 0] = qm31_from_m31 x"
    using pack_words [of x 0 0 0] by (simp add: qm31_from_m31_def)
      (simp add: cm31_pack_def)
  have zero: "[0, 0, 0, 0] = limbs 0" by (simp add: limbs_def)
  have neg: "qm31_sub 0 (qm31_from_m31 x) = qm31_neg (qm31_from_m31 x)"
    using c by (intro iffD1 [OF fq_inj]) (simp_all add: canon_intros field_reading)
  have redo: "qm31_add (qm31_mul (qm31_div (qm31_sub v' k) dn) dn) k = v'" if "canon_q v'" "canon_q k" "canon_q dn" "dn \<noteq> 0" for v' k dn
  proof -
    have "fq dn \<noteq> 0" using that fq_eq_0 by simp
    then show ?thesis using that by (intro iffD1 [OF fq_inj]) (simp_all add: canon_intros field_reading)
  qed
  have dn: "canon_q (qm31_sub (qm31_from_m31 x) z)" "canon_q (qm31_sub (qm31_neg (qm31_from_m31 x)) z)"
    using c by (simp_all add: e canon_intros)
  show "qc_comp_pos (query_challenges (fp, fm', px, z, cp, cn, fa, yi) rounds) = comp_values ch ! q"
    "qc_comp_neg (query_challenges (fp, fm', px, z, cp, cn, fa, yi) rounds) = comp_values ch ! antipodal_of q d"
    using c f dn nz by (simp_all add: Let_def e quotients pk zero limbs_ops canon_intros neg pack_limbs redo)
qed

section \<open>The rounds of a query\<close>

lemma neg_inv_word: "canon32 i \<Longrightarrow> ucast ((M31_P - ucast i) mod M31_P) = m31_neg i" for i :: u32
proof -
  assume c: "canon32 i"
  then have i: "uint (ucast i :: u64) = uint i" "uint i < P31" by (simp_all add: ucast_up_uint canon32_def)
  have "uint (M31_P - ucast i) = P31 - uint i" using i by (subst uint_sub_small) (simp_all add: uint_M31_P)
  then have m: "uint ((M31_P - ucast i) mod M31_P) = (- uint i) mod P31"
    by (simp add: uint_mod uint_M31_P)
  have "uint (ucast ((M31_P - ucast i) mod M31_P) :: u32) = (- uint i) mod P31"
    using m P31_pos by (subst ucast_down_uint) (simp_all add: P31_def)
  then show ?thesis using i by (simp add: word_uint_eq_iff m31_neg_uint)
qed

lemma fold_swap:
  assumes "canon_q a" "canon_q b" "canon_q alpha" "canon32 w"
  shows "line_fold b a alpha (m31_neg w) = line_fold a b alpha w"
  using assms by (intro iffD1 [OF fq_inj]) (simp_all add: canon_fold canon_neg fq_fold fm_neg algebra_simps)

lemma and_low_mod: "i AND (2 ^ m - 1) = i mod 2 ^ m" for i :: nat
  by (simp add: take_bit_eq_mod [symmetric] take_bit_eq_mask mask_eq_exp_minus_1)

lemma fold_outs_not_Nil [simp]: "fold_outs v rounds \<noteq> []"
  by (cases rounds) auto

lemma round_loop_ok:
  assumes g: "good_chain d n ch"
  shows "k + m = num_folds ch \<Longrightarrow> cur < 2 ^ (d - k) \<Longrightarrow> round_loop ch d [k..<k + m] cur = (rounds, last_idx) \<Longrightarrow>
    last (fold_outs (layer_values ch ! k ! cur) rounds) = layer_values ch ! num_folds ch ! last_idx
    \<and> last_idx < 2 ^ (d - num_folds ch) \<and> map (\<lambda>(_, alpha, _). alpha) rounds = drop k (fri_alphas ch)"
proof (induction m arbitrary: k cur rounds last_idx)
  case 0
  then show ?case using g by (simp add: good_chain_def)
next
  case (Suc m)
  note gc = g [unfolded good_chain_def]
  have kd: "k < num_folds ch" "k + 1 < d" "d \<le> 30" using Suc.prems(1) gc by simp_all
  have lay: "layers_ok T8Backend d (fri_alphas ch) (layer_values ch) (layer_levels ch) (layer_roots ch)"
    and na: "length (fri_alphas ch) = num_folds ch" and ca: "\<forall>a\<in>set (fri_alphas ch). canon_q a" using gc by simp_all
  let ?h = "(2 :: nat) ^ (d - k - 1)" and ?vals = "layer_values ch ! k" and ?al = "fri_alphas ch ! k"
  have h2: "2 ^ (d - k) = ?h + ?h" using kd by (simp flip: power_Suc mult_2)
  have len: "length ?vals = ?h + ?h" using lay kd(1) na h2 by (simp add: layers_ok_def)
  have nx: "layer_values ch ! Suc k = map (fold_of d k ?al ?vals) [0..<?h]"
    using lay kd(1) na by (simp add: layers_ok_def)
  have "canon_q v" if "v \<in> set (layer_values ch ! 0)" for v
  proof -
    have "length (layer_values ch ! 0) = 2 ^ d" using lay by (simp add: layers_ok_def)
    with that obtain q where q: "q < 2 ^ d" "v = layer_values ch ! 0 ! q" by (auto simp: in_set_conv_nth)
    obtain fp fm' px z cp cn fa yi where st: "query_step ch d q = (fp, fm', px, z, cp, cn, fa, yi)" by (rule step_cases)
    note s = query_step_ok [OF g q(1) st]
    have "canon_q fa" using gc s(3) by simp
    then show ?thesis using s(1,4,5,7) fold_two_eq(2) canon_fold(1) q(2) by metis
  qed
  then have cv: "\<forall>v\<in>set ?vals. canon_q v" using layers_canonical [OF kd(3) lay _ _ ca, of k] gc kd by auto
  define new where "new = cur mod ?h"
  define sib where "sib = (if cur < ?h then cur + ?h else cur - ?h)"
  have cur: "cur < ?h + ?h" using Suc.prems(2) h2 by simp
  have new: "new < ?h" "cur < ?h \<Longrightarrow> new = cur" "\<not> cur < ?h \<Longrightarrow> new + ?h = cur \<and> sib = new"
  proof -
    show "new < ?h" "cur < ?h \<Longrightarrow> new = cur" by (simp_all add: new_def)
    assume a: "\<not> cur < ?h"
    then have "cur mod ?h = cur - ?h" using cur by (subst le_mod_geq) simp_all
    then show "new + ?h = cur \<and> sib = new" using a by (simp add: new_def sib_def)
  qed
  define t where "t = chebyshev_twiddle (fst (coset_at d (word_of_nat new))) k"
  define w where "w = (if cur < ?h then m31_inv t else ucast ((M31_P - ucast (m31_inv t)) mod M31_P))"
  have ct: "canon32 (m31_inv t)" unfolding t_def by (intro canon_inv canon_twiddle conjunct1 [OF canon_coset] kd)
  obtain rs where rs: "round_loop ch d [Suc k..<Suc k + m] new = (rs, last_idx)" "rounds = (?vals ! sib, ?al, w) # rs"
  proof -
    have hv: "length ?vals div 2 = ?h" using len by simp
    obtain rs li where r: "round_loop ch d [Suc k..<Suc k + m] new = (rs, li)" by (meson surj_pair)
    have u: "[k..<k + Suc m] = k # [Suc k..<Suc k + m]" by (simp add: upt_conv_Cons)
    have "round_loop ch d [k..<k + Suc m] cur = ((?vals ! sib, ?al, w) # rs, li)"
      by (simp only: u round_loop.simps Let_def hv and_low_mod new_def [symmetric] sib_def [symmetric]
          t_def [symmetric] w_def [symmetric] r prod.case)
    with Suc.prems(3) r show ?thesis using that by simp
  qed
  have fold: "fold_two (?vals ! cur) (?vals ! sib) ?al w = layer_values ch ! Suc k ! new"
  proof -
    have al: "canon_q ?al" using ca kd(1) na by simp
    have j: "layer_values ch ! Suc k ! new = line_fold (?vals ! new) (?vals ! (new + ?h)) ?al (m31_inv t)"
      using new(1) by (simp add: nx fold_of_def t_def)
    have c: "canon_q (?vals ! new)" "canon_q (?vals ! (new + ?h))" using cv len new(1) by simp_all
    show ?thesis
    proof (cases "cur < ?h")
      case True
      then show ?thesis using j c al ct new(2) by (simp add: fold_two_eq(1) sib_def w_def)
    next
      case False
      then have "w = m31_neg (m31_inv t)" using neg_inv_word [OF ct] by (simp add: w_def)
      then show ?thesis using j c al ct new(3) [OF False] fold_swap [OF c al ct]
        by (auto simp: fold_two_eq(1) canon_neg)
    qed
  qed
  have "Suc k + m = num_folds ch" "new < 2 ^ (d - Suc k)" using Suc.prems(1) new(1) by simp_all
  from Suc.IH [OF this rs(1)] show ?case
    using fold rs(2) kd(1) na by (simp add: Cons_nth_drop_Suc [symmetric])
qed

section \<open>The inputs of a query\<close>

text \<open>
  What a query of the recursion promises: its final fold opens the last layer root, its two composition
  values open the composition root, and it runs under the challenges of the chain.
\<close>

definition query_ok ::
  "Vfri11Chain \<Rightarrow> nat \<Rightarrow> nat \<Rightarrow> (StepOp \<times> FoldRound list) \<times> (u64 list list \<times> bool list) \<times> CompMembership \<times> u128 \<Rightarrow> bool" where
  "query_ok ch d q = (\<lambda>((step, rounds), path, (ps, pb, ns, nb), v).
     let c = query_challenges step rounds in
     recursive_query_final step rounds = v \<and> length rounds = num_folds ch
     \<and> qc_px c = fst (coset_at d (word_of_nat q)) \<and> qc_z_x c = z_x ch \<and> qc_alphas c = fri_alpha ch # fri_alphas ch
     \<and> opens (p2t8_node_words (layer_roots ch ! num_folds ch)) v path
     \<and> opens (p2t8_node_words (comp_root ch)) (qc_comp_pos c) (ps, pb)
     \<and> opens (p2t8_node_words (comp_root ch)) (qc_comp_neg c) (ns, nb)
     \<and> length ps = d \<and> length ns = d \<and> length (fst path) = d - num_folds ch)"

lemma commit_T8:
  assumes "commit T8Backend (map hash_leaf_qm31_p2t8 vals) = Inr (tr, rt)" "length vals = 2 ^ m"
  shows "tr = tree_levels hash_pair_p2t8 (map hash_leaf_qm31_p2t8 vals)" "rt = last tr ! 0"
  using fri8.commit_pow2 [of "map hash_leaf_qm31_p2t8 vals" m] assms by auto

lemma word_path_ok:
  assumes "commit T8Backend (map hash_leaf_qm31_p2t8 vals) = Inr (tr, rt)" "length vals = 2 ^ m" "idx < 2 ^ m"
  obtains sibs bits where "word_path tr idx = Inr (sibs, bits)" "opens (p2t8_node_words rt) (vals ! idx) (sibs, bits)" "length sibs = m"
proof -
  note e = commit_T8 [OF assms(1,2)]
  obtain sibs where s: "proof_path tr idx = Some sibs" "length sibs = m"
    "opens (p2t8_node_words rt) (vals ! idx) (map p2t8_node_words sibs, index_bits m idx)"
    unfolding e(2) unfolding e(1) by (rule word_path_opens [OF assms(2,3)])
  then have "word_path tr idx = Inr (map p2t8_node_words sibs, index_bits m idx)"
    by (simp add: word_path_def ok_or_def Let_def)
  with s that show ?thesis by simp
qed

lemma query_inputs_ok:
  assumes g: "good_chain d n ch" and q: "q < 2 ^ d"
  shows "\<exists>r. query_inputs ch d q = Inr r \<and> query_ok ch d q r"
proof -
  note gc = g [unfolded good_chain_def]
  obtain fp fm' px z cp cn fa yi where st: "query_step ch d q = (fp, fm', px, z, cp, cn, fa, yi)" by (rule step_cases)
  note s = query_step_ok [OF g q st]
  obtain rounds li where r: "round_loop ch d [0..<num_folds ch] q = (rounds, li)" by (meson surj_pair)
  from round_loop_ok [OF g, of 0 "num_folds ch" q rounds li] r q
  have rl: "last (fold_outs (layer_values ch ! 0 ! q) rounds) = layer_values ch ! num_folds ch ! li"
    "li < 2 ^ (d - num_folds ch)" "map (\<lambda>(_, alpha, _). alpha) rounds = fri_alphas ch" by simp_all
  have fin: "recursive_query_final (fp, fm', px, z, cp, cn, fa, yi) rounds = layer_values ch ! num_folds ch ! li"
    by (simp add: recursive_query_final_def s(1) rl(1))
  have lay: "layers_ok T8Backend d (fri_alphas ch) (layer_values ch) (layer_levels ch) (layer_roots ch)"
    "length (fri_alphas ch) = num_folds ch" using gc by simp_all
  have hb: "b_hash_leaf_qm31 T8Backend = hash_leaf_qm31_p2t8" by (simp add: T8Backend_def)
  have "length (layer_values ch ! num_folds ch) = 2 ^ (d - num_folds ch)"
    "commit T8Backend (map hash_leaf_qm31_p2t8 (layer_values ch ! num_folds ch))
      = Inr (layer_levels ch ! num_folds ch, layer_roots ch ! num_folds ch)"
    using lay by (simp_all add: layers_ok_def hb)
  from word_path_ok [OF this(2,1) rl(2)] obtain sibs bits where p:
    "word_path (layer_levels ch ! num_folds ch) li = Inr (sibs, bits)"
    "opens (p2t8_node_words (layer_roots ch ! num_folds ch)) (layer_values ch ! num_folds ch ! li) (sibs, bits)"
    "length sibs = d - num_folds ch" by blast
  have cm: "commit T8Backend (map hash_leaf_qm31_p2t8 (comp_values ch)) = Inr (comp_levels ch, comp_root ch)"
    "length (comp_values ch) = 2 ^ d" using gc by simp_all
  have a: "antipodal_of q d < 2 ^ d" using antipodal_less [of d q] gc q by simp
  obtain ps pb where pp: "word_path (comp_levels ch) q = Inr (ps, pb)"
    "opens (p2t8_node_words (comp_root ch)) (comp_values ch ! q) (ps, pb)" "length ps = d"
    using word_path_ok [OF cm q] by blast
  obtain ns nb where np: "word_path (comp_levels ch) (antipodal_of q d) = Inr (ns, nb)"
    "opens (p2t8_node_words (comp_root ch)) (comp_values ch ! antipodal_of q d) (ns, nb)" "length ns = d"
    using word_path_ok [OF cm a] by blast
  let ?r = "(((fp, fm', px, z, cp, cn, fa, yi), rounds), (sibs, bits), (ps, pb, ns, nb), layer_values ch ! num_folds ch ! li)"
  have "query_inputs ch d q = Inr ?r"
    by (simp add: query_inputs_def Let_def st r fin p pp np del: recursive_query_ref.simps)
  moreover have "px = fst (coset_at d (word_of_nat q))" using st by (simp add: query_step_def Let_def split_def)
  moreover have "length rounds = num_folds ch" using arg_cong [OF rl(3), of length] lay(2) by simp
  moreover have "qc_px (query_challenges (fp, fm', px, z, cp, cn, fa, yi) rounds) = px"
    "qc_z_x (query_challenges (fp, fm', px, z, cp, cn, fa, yi) rounds) = z"
    "qc_alphas (query_challenges (fp, fm', px, z, cp, cn, fa, yi) rounds) = fa # fri_alphas ch"
    using rl(3) by (simp_all add: Let_def)
  ultimately have "query_ok ch d q ?r"
    using fin p pp np s(2,3) s(8,9) [of rounds] unfolding query_ok_def by (simp add: Let_def del: query_challenges.simps)
  with \<open>query_inputs ch d q = Inr ?r\<close> show ?thesis by blast
qed

lemma recursion_inputs_result:
  assumes "vfri11_fri_chain cols d br n opt = Inr ch" "\<forall>c\<in>set cols. canon_list c"
  obtains qs where "collect_results (map (query_inputs ch d) (derived_indices ch)) = Inr qs" "length qs = n"
    "\<forall>i<n. query_ok ch d (derived_indices ch ! i) (qs ! i)"
proof -
  note g = chain_good [OF assms]
  have di: "length (derived_indices ch) = n" "\<forall>q\<in>set (derived_indices ch). q < 2 ^ d"
    using g(1) by (simp_all add: good_chain_def)
  have "\<forall>r\<in>set (map (query_inputs ch d) (derived_indices ch)). \<exists>x. r = Inr x"
  proof
    fix r assume "r \<in> set (map (query_inputs ch d) (derived_indices ch))"
    then obtain q where "q \<in> set (derived_indices ch)" "r = query_inputs ch d q" by (auto simp del: split_paired_Ex)
    then show "\<exists>x. r = Inr x" using di(2) query_inputs_ok [OF g(1), of q] by blast
  qed
  then obtain qs where qs: "collect_results (map (query_inputs ch d) (derived_indices ch)) = Inr qs"
    using collect_results_all by blast
  then have l: "length qs = n" "\<And>i. i < n \<Longrightarrow> query_inputs ch d (derived_indices ch ! i) = Inr (qs ! i)"
    using di(1) by (simp_all add: collect_map_Inr)
  have "query_ok ch d (derived_indices ch ! i) (qs ! i)" if "i < n" for i
  proof -
    have "derived_indices ch ! i < 2 ^ d" using di that by simp
    from query_inputs_ok [OF g(1) this] l(2) [OF that] show ?thesis by auto
  qed
  with qs l(1) that show ?thesis by blast
qed

section \<open>The transcript as steps\<close>

text \<open>Each operation of the channel is a run of steps.\<close>

definition felt2 :: "u32 \<times> u32 \<Rightarrow> u32 \<times> u32 \<Rightarrow> u128" where
  "felt2 p q = qm31_pack_c (cm31_pack (fst p) (snd p)) (cm31_pack (fst q) (snd q))"

lemma felt_from_felt2: "felt_from drawn i = felt2 (drawn ! i) (drawn ! (i + 1))"
  unfolding felt_from_def felt2_def by (simp flip: pack_words)

lemma run_full_steps: "run_steps (full_steps r) c = ([], t8_mix_root_full r c)"
proof -
  have "full_steps r = map Absorb (root_word_list r (map ((*) 4) [0..<8]))" by (simp add: full_steps_def root_word_list_def)
  then show ?thesis by (simp only:) (subst run_absorbs, simp_all add: root_word_list_def t8_mix_root_full_def)
qed

lemma run_wide_steps: "run_steps (wide_steps r) c = ([], t8_mix_root_w r c)"
proof -
  have "wide_steps r = map Absorb (root_word_list r (map (\<lambda>k. 16 + 4 * k) [0..<4]))" by (simp add: wide_steps_def root_word_list_def)
  then show ?thesis by (simp only:) (subst run_absorbs, simp_all add: root_word_list_def t8_mix_root_w_def)
qed

lemma run_combo_steps: "run_steps (map Absorb (combo_words p m)) c = ([], t8_mix_u32s (combo_words p m) c)"
  by (subst run_absorbs) (simp_all add: combo_words_def Let_def t8_mix_u32s_def)

lemma run_felt_steps:
  assumes "t8_draw_secure_felt c = (v, c')"
  obtains p q where "run_steps felt_steps c = ([p, q], c')" "v = felt2 p q"
proof -
  obtain p c1 where p: "chan_draw_pair permute_t8 c = (p, c1)" by (meson surj_pair)
  obtain q c2 where q: "chan_draw_pair permute_t8 c1 = (q, c2)" by (meson surj_pair)
  have "run_steps felt_steps c = ([p, q], c2)" by (simp add: felt_steps_def step_draw_def p q)
  moreover have "v = felt2 p q" "c' = c2"
    using assms by (simp_all add: t8_draw_secure_felt_def chan_draw_secure_felt_def p q felt2_def split_def)
  ultimately show ?thesis using that by simp
qed

lemma run_round_steps:
  "replay_rounds P2T8Chan roots c = (alphas, c') \<Longrightarrow>
   \<exists>ps. run_steps (concat (map (\<lambda>rt. felt_steps @ wide_steps rt) roots)) c = (ps, c') \<and> length ps = 2 * length roots
     \<and> alphas = map (\<lambda>i. felt_from ps (2 * i)) [0..<length roots]"
proof (induction roots arbitrary: c alphas)
  case (Cons rt roots)
  obtain v c1 where v: "t8_draw_secure_felt c = (v, c1)" by force
  obtain as c2 where as: "replay_rounds P2T8Chan roots (t8_mix_root_w rt c1) = (as, c2)" by force
  have e: "alphas = v # as" "c' = c2" using Cons.prems v as by (simp_all add: P2T8Chan_def)
  obtain p q where pq: "run_steps felt_steps c = ([p, q], c1)" "v = felt2 p q" by (rule run_felt_steps [OF v])
  from Cons.IH [OF as [folded e(2)]] obtain ps where ps: "run_steps (concat (map (\<lambda>rt. felt_steps @ wide_steps rt) roots)) (t8_mix_root_w rt c1) = (ps, c')"
    "length ps = 2 * length roots" "as = map (\<lambda>i. felt_from ps (2 * i)) [0..<length roots]" by blast
  have "[0..<length (rt # roots)] = 0 # map Suc [0..<length roots]" by (simp add: map_Suc_upt upt_conv_Cons del: upt_Suc)
  then have "alphas = map (\<lambda>i. felt_from (p # q # ps) (2 * i)) [0..<length (rt # roots)]"
    by (simp add: e(1) pq(2) ps(3) felt_from_felt2 o_def)
  moreover have "run_steps (concat (map (\<lambda>rt. felt_steps @ wide_steps rt) (rt # roots))) c = (p # q # ps, c')"
    using ps(1) by (simp add: run_steps_append pq run_wide_steps)
  ultimately show ?case using ps(2) by (intro exI [of _ "p # q # ps"]) simp
qed simp

definition query_words :: "nat \<Rightarrow> (u32 \<times> u32) list \<Rightarrow> nat list" where
  "query_words d ps = concat (map (\<lambda>(w0, w1). [unat (w0 AND query_mask d), unat (w1 AND query_mask d)]) ps)"

lemma run_query_loop:
  "length qs \<le> n \<Longrightarrow> chan_query_loop permute_t8 (query_mask d) n qs c = (qs', c') \<Longrightarrow>
   \<exists>ps. run_steps (replicate ((n - length qs + 1) div 2) Draw) c = (ps, c') \<and> length ps = (n - length qs + 1) div 2
     \<and> qs' = qs @ take (n - length qs) (query_words d ps)"
proof (induction "n - length qs" arbitrary: qs c rule: less_induct)
  case less
  show ?case
  proof (cases "length qs < n")
    case False
    then have "n - length qs = 0" by simp
    moreover have "qs' = qs \<and> c' = c" using False less.prems(2) by (subst (asm) chan_query_loop.simps) simp
    ultimately show ?thesis by simp
  next
    case True
    obtain w0 w1 c1 where d: "chan_draw_pair permute_t8 c = ((w0, w1), c1)" by (metis surj_pair)
    let ?q1 = "qs @ [unat (w0 AND query_mask d)]"
    define q2 where "q2 = (if length ?q1 < n then ?q1 @ [unat (w1 AND query_mask d)] else ?q1)"
    have st: "chan_query_loop permute_t8 (query_mask d) n q2 c1 = (qs', c')"
      using less.prems(2) True unfolding q2_def by (subst (asm) chan_query_loop.simps) (simp add: d Let_def)
    have l: "length q2 \<le> n" "n - length q2 < n - length qs" "n - length q2 = n - length qs - 2"
      using True by (auto simp: q2_def)
    have "(r + 1) div 2 = Suc ((r - 2 + 1) div 2)" if "0 < r" for r :: nat using that by (cases r; cases "r - 1") auto
    from this [of "n - length qs"] have half: "(n - length qs + 1) div 2 = Suc ((n - length q2 + 1) div 2)"
      using l(3) True by simp
    from less.hyps [OF l(2,1) st] obtain ps where ps: "run_steps (replicate ((n - length q2 + 1) div 2) Draw) c1 = (ps, c')"
      "length ps = (n - length q2 + 1) div 2" "qs' = q2 @ take (n - length q2) (query_words d ps)" by blast
    have "run_steps (replicate ((n - length qs + 1) div 2) Draw) c = ((w0, w1) # ps, c')"
      unfolding half using ps(1) by (simp add: step_draw_def d)
    moreover have "qs' = qs @ take (n - length qs) (query_words d ((w0, w1) # ps))"
    proof (cases "Suc (length qs) < n")
      case True
      then obtain r where r: "n - length qs = Suc (Suc r)" by (metis Suc_diff_Suc Suc_lessD)
      then have "n - Suc (Suc (length qs)) = r" by linarith
      with r True show ?thesis using ps(3) by (simp add: q2_def query_words_def l(3))
    next
      case False
      then have "n - length qs = 1" using \<open>length qs < n\<close> by simp
      with False show ?thesis using ps(3) by (simp add: q2_def query_words_def l(3))
    qed
    ultimately show ?thesis using ps(2) half by (intro exI [of _ "(w0, w1) # ps"]) simp
  qed
qed

lemma run_queries:
  assumes "t8_draw_queries d n c = (qs, c')"
  obtains ps c2 where "run_steps (replicate ((n + 1) div 2) Draw) c = (ps, c')" "length ps = (n + 1) div 2"
    "qs = take n (query_words d ps)"
proof -
  obtain qs1 c1 where q: "chan_query_loop permute_t8 (query_mask d) n [] c = (qs1, c1)" by force
  have e: "qs = take n qs1" "c' = c1" using assms by (simp_all add: t8_draw_queries_def chan_draw_queries_def q)
  from run_query_loop [OF _ q] that show ?thesis by (auto simp: e)
qed

lemma map_nth_tl: "map (\<lambda>k. f (xs ! (k + 1))) [0..<length xs - 1] = map f (tl xs)"
  by (rule nth_equalityI) (simp_all add: nth_tl)

text \<open>
  The steps of a transcript draw what its replay draws: the pairs of the felts in the order of the layout,
  then those of the queries.
\<close>

lemma replay_steps:
  assumes "in_layer_roots inp \<noteq> []" "1 \<le> in_n_queries inp" "replay P2T8Chan inp = (out, c)"
  obtains steps drawn where "vfri11_transcript_steps inp = Inr steps" "run_steps steps t8_init = (drawn, c)"
    "length steps = 38 + 6 * (length (in_layer_roots inp) - 1) + (in_n_queries inp + 1) div 2"
    "length drawn = 6 + 2 * (length (in_layer_roots inp) - 1) + (in_n_queries inp + 1) div 2"
    "felt_from drawn 0 = out_z_x out" "felt_from drawn 2 = out_comp_alpha out"
    "map (\<lambda>i. felt_from drawn (4 + 2 * i)) [0..<length (in_layer_roots inp)] = out_fri_alpha out # out_fri_alphas out"
    "out_query_indices out = take (in_n_queries inp)
       (query_words (in_tree_depth inp) (drop (6 + 2 * (length (in_layer_roots inp) - 1)) drawn))"
proof -
  let ?roots = "in_layer_roots inp" and ?n = "in_n_queries inp" and ?d = "in_tree_depth inp"
  define c0 where "c0 = t8_mix_root_full (in_trace_root inp) t8_init"
  obtain z c1 where z: "t8_draw_secure_felt c0 = (z, c1)" by force
  obtain ca c2 where ca: "t8_draw_secure_felt c1 = (ca, c2)" by force
  define c3 where "c3 = t8_mix_root_w (in_comp_root inp) (t8_mix_u32s (combo_words (in_combo_pos inp) (in_combo_neg inp)) c2)"
  obtain fa c4 where fa: "t8_draw_secure_felt c3 = (fa, c4)" by force
  obtain as c5 where as: "replay_rounds P2T8Chan (tl ?roots) (t8_mix_root_w (hd ?roots) c4) = (as, c5)" by force
  obtain qs c6 where qs: "t8_draw_queries ?d ?n (t8_mix_root_full (in_batch_root inp) c5) = (qs, c6)" by force
  have out: "out = \<lparr>out_z_x = z, out_comp_alpha = ca, out_fri_alpha = fa, out_fri_alphas = as, out_query_indices = qs\<rparr>" "c = c6"
    using assms(3) z ca fa as qs by (simp_all add: replay_def P2T8Chan_def c0_def c3_def)
  obtain z1 z2 where z': "run_steps felt_steps c0 = ([z1, z2], c1)" "z = felt2 z1 z2" by (rule run_felt_steps [OF z])
  obtain a1 a2 where a': "run_steps felt_steps c1 = ([a1, a2], c2)" "ca = felt2 a1 a2" by (rule run_felt_steps [OF ca])
  obtain f1 f2 where f': "run_steps felt_steps c3 = ([f1, f2], c4)" "fa = felt2 f1 f2" by (rule run_felt_steps [OF fa])
  from run_round_steps [OF as] obtain ps where ps:
    "run_steps (concat (map (\<lambda>rt. felt_steps @ wide_steps rt) (tl ?roots))) (t8_mix_root_w (hd ?roots) c4) = (ps, c5)"
    "length ps = 2 * (length ?roots - 1)" "as = map (\<lambda>i. felt_from ps (2 * i)) [0..<length ?roots - 1]" by auto
  obtain qp where qp: "run_steps (replicate ((?n + 1) div 2) Draw) (t8_mix_root_full (in_batch_root inp) c5) = (qp, c6)"
    "length qp = (?n + 1) div 2" "qs = take ?n (query_words ?d qp)" by (rule run_queries [OF qs])
  define drawn where "drawn = [z1, z2, a1, a2, f1, f2] @ ps @ qp"
  define steps where "steps = full_steps (in_trace_root inp) @ felt_steps @ felt_steps
      @ map Absorb (combo_words (in_combo_pos inp) (in_combo_neg inp)) @ wide_steps (in_comp_root inp) @ felt_steps
      @ wide_steps (hd ?roots) @ concat (map (\<lambda>rt. felt_steps @ wide_steps rt) (tl ?roots))
      @ full_steps (in_batch_root inp) @ replicate ((?n + 1) div 2) Draw"
  have tr: "vfri11_transcript_steps inp = Inr steps"
    using assms(1,2) map_nth_tl [of "\<lambda>rt. felt_steps @ wide_steps rt" ?roots]
    by (simp add: vfri11_transcript_steps_def steps_def hd_conv_nth)
  have run: "run_steps steps t8_init = (drawn, c)"
    unfolding steps_def drawn_def
    by (simp only: run_steps_append run_full_steps run_wide_steps run_combo_steps c0_def [symmetric] z'(1) a'(1) c3_def [symmetric] f'(1) ps(1) qp(1) out(2) Let_def prod.case append_Nil append_Cons append_assoc)
  have ls: "length (concat (map (\<lambda>rt. felt_steps @ wide_steps rt) rs)) = 6 * length rs" for rs
    by (induction rs) (simp_all add: felt_steps_def wide_steps_def)
  have len: "length steps = 38 + 6 * (length ?roots - 1) + (?n + 1) div 2"
    unfolding steps_def length_append ls by (simp add: full_steps_def felt_steps_def wide_steps_def combo_words_def Let_def)
  have ld: "length drawn = 6 + 2 * (length ?roots - 1) + (?n + 1) div 2" using ps(2) qp(2) by (simp add: drawn_def)
  have "felt_from drawn (6 + 2 * i) = felt_from ps (2 * i)" if "i < length ?roots - 1" for i
    using that ps(2) by (simp add: drawn_def felt_from_felt2 nth_append nth_Cons_numeral)
  then have as': "as = map (\<lambda>i. felt_from drawn (6 + 2 * i)) [0..<length ?roots - 1]" by (simp add: ps(3))
  have lr: "[0..<length ?roots] = 0 # map Suc [0..<length ?roots - 1]"
    using assms(1) by (simp add: map_Suc_upt upt_conv_Cons)
  have fas: "map (\<lambda>i. felt_from drawn (4 + 2 * i)) [0..<length ?roots] = fa # as"
    unfolding lr as' by (simp add: o_def) (simp add: drawn_def felt_from_felt2 f'(2))
  have fz: "felt_from drawn 0 = z" "felt_from drawn 2 = ca" by (simp_all add: drawn_def felt_from_felt2 z'(2) a'(2))
  have "drawn = ([z1, z2, a1, a2, f1, f2] @ ps) @ qp" "length ([z1, z2, a1, a2, f1, f2] @ ps) = 6 + 2 * (length ?roots - 1)"
    using ps(2) by (simp_all add: drawn_def)
  then have "drop (6 + 2 * (length ?roots - 1)) drawn = qp" by (metis append_eq_conv_conj)
  then have "qs = take ?n (query_words ?d (drop (6 + 2 * (length ?roots - 1)) drawn))" using qp(3) by simp
  with that [OF tr run len ld] fas fz show ?thesis by (simp add: out(1))
qed

lemma max_draw_layout: "max_draw (vfri11_challenge_layout f) = 5 + 2 * f"
proof -
  have "foldl (\<lambda>m a. max m (a + 1)) m (map (\<lambda>i. 4 + 2 * i) [0..<Suc f]) = max m (5 + 2 * f)" for m f
    by (induction f arbitrary: m) (simp_all add: max_def)
  then show ?thesis by (simp add: max_draw_def vfri11_challenge_layout_def del: upt_Suc)
qed

lemma derive_replay:
  assumes "in_layer_roots inp \<noteq> []" "1 \<le> in_n_queries inp" "in_n_queries inp \<le> 64" "length (in_layer_roots inp) \<le> 30"
  obtains steps dc where "vfri11_transcript_steps inp = Inr steps"
    "derive_challenges steps (vfri11_challenge_layout (length (in_layer_roots inp) - 1)) = Inr dc"
    "dc_z_x dc = out_z_x (fst (replay P2T8Chan inp))"
    "dc_alphas dc = out_fri_alpha (fst (replay P2T8Chan inp)) # out_fri_alphas (fst (replay P2T8Chan inp))"
    "out_query_indices (fst (replay P2T8Chan inp)) = take (in_n_queries inp)
       (query_words (in_tree_depth inp) (drop (6 + 2 * (length (in_layer_roots inp) - 1)) (dc_drawn dc)))"
proof -
  obtain out c where r: "replay P2T8Chan inp = (out, c)" by force
  from replay_steps [OF assms(1,2) r] obtain steps drawn where s: "vfri11_transcript_steps inp = Inr steps"
    "run_steps steps t8_init = (drawn, c)"
    "length steps = 38 + 6 * (length (in_layer_roots inp) - 1) + (in_n_queries inp + 1) div 2"
    "length drawn = 6 + 2 * (length (in_layer_roots inp) - 1) + (in_n_queries inp + 1) div 2"
    "felt_from drawn 0 = out_z_x out"
    "map (\<lambda>i. felt_from drawn (4 + 2 * i)) [0..<length (in_layer_roots inp)] = out_fri_alpha out # out_fri_alphas out"
    "out_query_indices out = take (in_n_queries inp)
       (query_words (in_tree_depth inp) (drop (6 + 2 * (length (in_layer_roots inp) - 1)) drawn))" by metis
  define f where "f = length (in_layer_roots inp) - 1"
  have f: "length (in_layer_roots inp) = 1 + f" using assms(1) by (simp add: f_def)
  have "length steps \<le> MAX_STEPS" "steps \<noteq> []"
    using s(3) assms(3,4) by (auto simp: MAX_STEPS_def)
  moreover have "5 + 2 * f < length drawn" using s(4) assms(2) by (simp add: f_def)
  ultimately have "derive_challenges steps (vfri11_challenge_layout f) = Inr \<lparr>dc_z_x = felt_from drawn 0,
      dc_alphas = map (felt_from drawn) (map (\<lambda>i. 4 + 2 * i) [0..<1 + f]), dc_drawn = drawn, dc_digest = cells c\<rparr>"
    by (simp add: derive_challenges_def s(2) max_draw_layout) (simp add: vfri11_challenge_layout_def)
  then show ?thesis using that s r by (simp add: f f_def [symmetric] o_def)
qed

lemma collect_units: "\<forall>x\<in>set xs. f x = Inr () \<Longrightarrow> collect_results (map f xs) = Inr (replicate (length xs) ())"
  by (induction xs) simp_all

lemma chain_layer_roots: "good_chain d n ch \<Longrightarrow> length (layer_roots ch) = Suc (num_folds ch)"
  by (simp add: good_chain_def layers_ok_def)

text \<open>The statement of a chain: its transcript draws the chain's challenges, which every query runs under.\<close>

definition statement_ok :: "Vfri11Chain \<Rightarrow> nat \<Rightarrow> nat \<Rightarrow> TreeStatement \<Rightarrow> bool" where
  "statement_ok ch d n ts \<longleftrightarrow> length (ts_queries ts) = n \<and> (\<exists>dc. derive_challenges (ts_steps ts) (ts_layout ts) = Inr dc
     \<and> dc_z_x dc = z_x ch \<and> dc_alphas dc = fri_alpha ch # fri_alphas ch
     \<and> derived_indices ch = take n (query_words d (drop (6 + 2 * num_folds ch) (dc_drawn dc)))
     \<and> (\<forall>(step, rounds)\<in>set (ts_queries ts).
          qc_z_x (query_challenges step rounds) = dc_z_x dc \<and> qc_alphas (query_challenges step rounds) = dc_alphas dc))"

lemma recursion_inputs_chain:
  assumes "\<forall>c\<in>set cols. canon_list c"
  shows "(\<exists>e. gen_vfri11_recursion_inputs cols d br n opt = Inl e \<and> vfri11_fri_chain cols d br n opt = Inl e)
   \<or> (\<exists>ri ch. gen_vfri11_recursion_inputs cols d br n opt = Inr ri \<and> vfri11_fri_chain cols d br n opt = Inr ch
      \<and> length (ri_queries ri) = n
      \<and> (\<forall>i<n. query_ok ch d (derived_indices ch ! i) (ri_queries ri ! i, ri_paths ri ! i, ri_comp_paths ri ! i, ri_finals ri ! i))
      \<and> ri_last_layer_root ri = p2t8_node_words (layer_roots ch ! num_folds ch) \<and> ri_comp_root ri = p2t8_node_words (comp_root ch)
      \<and> ri_trace_root ri = trace_root ch \<and> ri_channel_inputs ri = chain_inputs ch br d n)"
proof (cases "vfri11_fri_chain cols d br n opt")
  case (Inl e)
  then show ?thesis by (simp add: gen_vfri11_recursion_inputs_def)
next
  case (Inr ch)
  from recursion_inputs_result [OF Inr assms] obtain qs where
    "collect_results (map (query_inputs ch d) (derived_indices ch)) = Inr qs" "length qs = n"
    "\<forall>i<n. query_ok ch d (derived_indices ch ! i) (qs ! i)" by blast
  then show ?thesis using Inr by (simp add: gen_vfri11_recursion_inputs_def)
qed

section \<open>Properties\<close>

text \<open>
  C20. On columns of canonical words the extraction fails only as the chain does: no final fold differs from
  the layer the tree commits, and every authentication path exists. What it returns are one record per
  query of the chain, whose final fold opens the last layer root, whose two composition values, recomputed
  from the fold's inputs alone, open the composition root at the query and its antipode, and which runs
  under the chain's point and challenges.
\<close>

theorem recursion_inputs_agree:
  assumes "\<forall>c\<in>set cols. canon_list c"
  shows "case gen_vfri11_recursion_inputs cols d br n opt of
      Inl e \<Rightarrow> vfri11_fri_chain cols d br n opt = Inl e
    | Inr ri \<Rightarrow> \<exists>ch. vfri11_fri_chain cols d br n opt = Inr ch \<and> length (ri_queries ri) = n
        \<and> (\<forall>i<n. query_ok ch d (derived_indices ch ! i) (ri_queries ri ! i, ri_paths ri ! i, ri_comp_paths ri ! i, ri_finals ri ! i))
        \<and> ri_last_layer_root ri = p2t8_node_words (layer_roots ch ! num_folds ch)
        \<and> ri_comp_root ri = p2t8_node_words (comp_root ch)
        \<and> ri_trace_root ri = trace_root ch \<and> ri_channel_inputs ri = chain_inputs ch br d n"
  using recursion_inputs_chain [OF assms, of d br n opt] by auto

theorem recursion_inputs_agree_witness:
  "case gen_vfri11_recursion_inputs [replicate 4 0] 2 (replicate 32 0) 1 None of
      Inl e \<Rightarrow> vfri11_fri_chain [replicate 4 0] 2 (replicate 32 0) 1 None = Inl e
    | Inr ri \<Rightarrow> \<exists>ch. vfri11_fri_chain [replicate 4 0] 2 (replicate 32 0) 1 None = Inr ch \<and> length (ri_queries ri) = 1
        \<and> (\<forall>i<1. query_ok ch 2 (derived_indices ch ! i) (ri_queries ri ! i, ri_paths ri ! i, ri_comp_paths ri ! i, ri_finals ri ! i))
        \<and> ri_last_layer_root ri = p2t8_node_words (layer_roots ch ! num_folds ch)
        \<and> ri_comp_root ri = p2t8_node_words (comp_root ch)
        \<and> ri_trace_root ri = trace_root ch \<and> ri_channel_inputs ri = chain_inputs ch (replicate 32 0) 2 1"
  by (rule recursion_inputs_agree) (simp add: canon_list_def canon32_def P31_def)

lemma tree_statement_result:
  assumes "\<forall>c\<in>set cols. canon_list c"
  shows "(\<exists>e. tree_statement_from_columns cols d br n opt m = Inl (ChainError e) \<and> vfri11_fri_chain cols d br n opt = Inl e)
   \<or> (\<exists>ch. vfri11_fri_chain cols d br n opt = Inr ch \<and>
        (if \<exists>b. m = Some b \<and> bm_start b \<noteq> p2t8_node_words (trace_root ch)
         then tree_statement_from_columns cols d br n opt m
            = Inl (WrongTraceRoot (bm_start (the m)) (p2t8_node_words (trace_root ch)))
         else \<exists>ts. tree_statement_from_columns cols d br n opt m = Inr ts \<and> ts_membership ts = m \<and> statement_ok ch d n ts))"
  using recursion_inputs_chain [OF assms, of d br n opt]
proof (elim disjE exE conjE)
  fix e assume "gen_vfri11_recursion_inputs cols d br n opt = Inl e" "vfri11_fri_chain cols d br n opt = Inl e"
  then show ?thesis by (simp add: tree_statement_from_columns_def map_err_def)
next
  fix ri ch
  assume ri: "gen_vfri11_recursion_inputs cols d br n opt = Inr ri" and ch: "vfri11_fri_chain cols d br n opt = Inr ch"
    and nq: "length (ri_queries ri) = n"
    and ok: "\<forall>i<n. query_ok ch d (derived_indices ch ! i) (ri_queries ri ! i, ri_paths ri ! i, ri_comp_paths ri ! i, ri_finals ri ! i)"
    and tr: "ri_trace_root ri = trace_root ch" and ci: "ri_channel_inputs ri = chain_inputs ch br d n"
  note g = chain_good [OF ch assms]
  let ?inp = "chain_inputs ch br d n"
  have lr: "length (in_layer_roots ?inp) = Suc (num_folds ch)" using chain_layer_roots [OF g(1)] by (simp add: chain_inputs_def)
  have "in_layer_roots ?inp \<noteq> []" "1 \<le> in_n_queries ?inp" "in_n_queries ?inp \<le> 64" "length (in_layer_roots ?inp) \<le> 30"
    using lr g by (auto simp: chain_inputs_def good_chain_def)
  then obtain steps dc where dc: "vfri11_transcript_steps ?inp = Inr steps"
    "derive_challenges steps (vfri11_challenge_layout (num_folds ch)) = Inr dc"
    "dc_z_x dc = z_x ch" "dc_alphas dc = fri_alpha ch # fri_alphas ch"
    "derived_indices ch = take n (query_words d (drop (6 + 2 * num_folds ch) (dc_drawn dc)))"
  proof (rule derive_replay)
    fix steps dc
    assume a: "vfri11_transcript_steps ?inp = Inr steps"
      "derive_challenges steps (vfri11_challenge_layout (length (in_layer_roots ?inp) - 1)) = Inr dc"
      "dc_z_x dc = out_z_x (fst (replay P2T8Chan ?inp))"
      "dc_alphas dc = out_fri_alpha (fst (replay P2T8Chan ?inp)) # out_fri_alphas (fst (replay P2T8Chan ?inp))"
      "out_query_indices (fst (replay P2T8Chan ?inp)) = take (in_n_queries ?inp)
         (query_words (in_tree_depth ?inp) (drop (6 + 2 * (length (in_layer_roots ?inp) - 1)) (dc_drawn dc)))"
    have "in_n_queries ?inp = n" "in_tree_depth ?inp = d" by (simp_all add: chain_inputs_def)
    with a have "vfri11_transcript_steps ?inp = Inr steps" "derive_challenges steps (vfri11_challenge_layout (num_folds ch)) = Inr dc"
      "dc_z_x dc = z_x ch" "dc_alphas dc = fri_alpha ch # fri_alphas ch"
      "derived_indices ch = take n (query_words d (drop (6 + 2 * num_folds ch) (dc_drawn dc)))"
      by (simp_all add: lr g(2) challenges_of_def)
    then show thesis by (rule that)
  qed
  have q: "qc_z_x (query_challenges (fst x) (snd x)) = z_x ch" "qc_alphas (query_challenges (fst x) (snd x)) = fri_alpha ch # fri_alphas ch"
    "length (snd x) = num_folds ch" if "x \<in> set (ri_queries ri)" for x
  proof -
    from that nq obtain i where "i < n" "x = ri_queries ri ! i" by (auto simp: in_set_conv_nth)
    then have "query_ok ch d (derived_indices ch ! i) (x, ri_paths ri ! i, ri_comp_paths ri ! i, ri_finals ri ! i)" using ok by blast
    then show "qc_z_x (query_challenges (fst x) (snd x)) = z_x ch" "length (snd x) = num_folds ch"
      "qc_alphas (query_challenges (fst x) (snd x)) = fri_alpha ch # fri_alphas ch"
      by (auto simp: query_ok_def Let_def split: prod.splits)
  qed
  have ne: "ri_queries ri \<noteq> []" using nq g(3) by auto
  then have folds: "length (snd (ri_queries ri ! 0)) = num_folds ch" by (intro q(3)) (cases "ri_queries ri", auto)
  have "check_query dc x = Inr ()" if "x \<in> set (enumerate 0 (ri_queries ri))" for x
  proof -
    obtain i step rounds where x: "x = (i, step, rounds)" by (cases x) auto
    have "(step, rounds) \<in> set (ri_queries ri)" using that nth_mem unfolding x by (fastforce simp: in_set_enumerate_eq)
    from q(1,2) [OF this] show ?thesis by (simp add: check_query_def x dc(3,4))
  qed
  then have chk: "collect_results (map (check_query dc) (enumerate 0 (ri_queries ri))) = Inr (replicate n ())"
    using nq by (subst collect_units) auto
  define ts where "ts = \<lparr>ts_steps = steps, ts_layout = vfri11_challenge_layout (num_folds ch), ts_queries = ri_queries ri,
    ts_paths = ri_paths ri, ts_comp_paths = ri_comp_paths ri, ts_membership = m, ts_inputs = Some ?inp\<rparr>"
  have start: "tree_statement_from_columns cols d br n opt m =
    and_then (case m of None \<Rightarrow> Inr () | Some b \<Rightarrow> if bm_start b \<noteq> p2t8_node_words (trace_root ch)
        then Inl (WrongTraceRoot (bm_start b) (p2t8_node_words (trace_root ch))) else Inr ()) (\<lambda>_. Inr ts)"
    using ne by (simp add: tree_statement_from_columns_def ri map_err_def ci dc(1,2) Let_def folds chk tr ts_def split: option.splits)
  have "statement_ok ch d n ts"
    using nq dc q by (auto simp: statement_ok_def ts_def)
  then show ?thesis using ch start by (cases m) (auto simp: ts_def)
qed

text \<open>
  C21. On columns of canonical words a statement of a tree node is refused only for the chain's own errors,
  or because the batch membership starts at another trace root: deriving the challenges from the transcript
  never fails and no query drifts from them. The statement's transcript draws the chain's point, fold
  challenges and query indices.
\<close>

theorem tree_statement_agrees:
  assumes "\<forall>c\<in>set cols. canon_list c"
  shows "case tree_statement_from_columns cols d br n opt m of
      Inl e \<Rightarrow> (\<exists>ce. e = ChainError ce \<and> vfri11_fri_chain cols d br n opt = Inl ce)
        \<or> (\<exists>ch b. vfri11_fri_chain cols d br n opt = Inr ch \<and> m = Some b \<and> bm_start b \<noteq> p2t8_node_words (trace_root ch)
            \<and> e = WrongTraceRoot (bm_start b) (p2t8_node_words (trace_root ch)))
    | Inr ts \<Rightarrow> \<exists>ch. vfri11_fri_chain cols d br n opt = Inr ch \<and> statement_ok ch d n ts \<and> ts_membership ts = m
        \<and> (\<forall>b. m = Some b \<longrightarrow> bm_start b = p2t8_node_words (trace_root ch))"
  using tree_statement_result [OF assms, of d br n opt m] by (auto split: if_splits)

theorem tree_statement_agrees_witness:
  "case tree_statement_from_columns [replicate 4 0] 2 (replicate 32 0) 1 None None of
      Inl e \<Rightarrow> (\<exists>ce. e = ChainError ce \<and> vfri11_fri_chain [replicate 4 0] 2 (replicate 32 0) 1 None = Inl ce)
        \<or> (\<exists>ch b. vfri11_fri_chain [replicate 4 0] 2 (replicate 32 0) 1 None = Inr ch \<and> None = Some b
            \<and> bm_start b \<noteq> p2t8_node_words (trace_root ch) \<and> e = WrongTraceRoot (bm_start b) (p2t8_node_words (trace_root ch)))
    | Inr ts \<Rightarrow> \<exists>ch. vfri11_fri_chain [replicate 4 0] 2 (replicate 32 0) 1 None = Inr ch \<and> statement_ok ch 2 1 ts
        \<and> ts_membership ts = None \<and> (\<forall>b. None = Some b \<longrightarrow> bm_start b = p2t8_node_words (trace_root ch))"
  by (rule tree_statement_agrees) (simp add: canon_list_def canon32_def P31_def)

section \<open>The batch membership of both heads\<close>

lemma tree_path_nodes:
  "tree_path lvls i = (sibs, bits) \<Longrightarrow> [] \<notin> set lvls \<Longrightarrow> x \<in> set sibs \<Longrightarrow> \<exists>lv\<in>set lvls. x \<in> set lv"
proof (induction lvls i arbitrary: sibs bits rule: tree_path.induct)
  case (2 level levels idx)
  obtain ss bs where s: "tree_path levels (idx div 2) = (ss, bs)" by force
  from "2.prems"(2) have "min (idx XOR 1) (length level - 1) < length level" by (cases level) auto
  then have "level ! min (idx XOR 1) (length level - 1) \<in> set level" by (rule nth_mem)
  then show ?case using "2.IH" [OF s] "2.prems" s by (auto simp: Let_def)
qed simp

lemma tree_levels_nonempty: "level \<noteq> [] \<Longrightarrow> [] \<notin> set (tree_levels H level)"
proof (induction H level rule: tree_levels.induct)
  case (1 H level)
  have "length (next_level H level) = (length level + 1) div 2" by (simp add: length_next_level)
  then have "length level > 1 \<Longrightarrow> next_level H level \<noteq> []" by auto
  then show ?case using 1 tree_levels.simps [of H level] by auto
qed

lemma wf_leaf_domain: "wf_state 4 LEAF_DOMAIN"
  by (simp add: wf_state_def LEAF_DOMAIN_def canon_def M31_P_def)

lemma batch_leaf_dual_words:
  assumes "wf_state 4 tx" "wf_state 4 a" "wf_state 4 b"
  shows "wf_node (batch_leaf_dual tx a b)"
    "p2t8_node_words (batch_leaf_dual tx a b) = compress_t8 LEAF_DOMAIN (compress_t8 tx (compress_t8 a b))"
proof -
  have w: "wf_state 4 (compress_t8 LEAF_DOMAIN (compress_t8 tx (compress_t8 a b)))"
    by (intro compress_t8_wf wf_leaf_domain assms)
  then show "wf_node (batch_leaf_dual tx a b)" unfolding batch_leaf_dual_def Let_def wf_node_def by blast
  show "p2t8_node_words (batch_leaf_dual tx a b) = compress_t8 LEAF_DOMAIN (compress_t8 tx (compress_t8 a b))"
    using w by (simp add: batch_leaf_dual_def node_words_pack_canon)
qed

lemma bm_path_fold:
  "fold_path compress_t8 (bm_start m) (fst (bm_path m)) (snd (bm_path m))
   = fold_path compress_t8 (compress_t8 LEAF_DOMAIN (compress_t8 (bm_tx_id m) (compress_t8 (bm_tr10 m) (bm_tr8 m)))) (bm_sibs m) (bm_bits m)"
  by (cases "bm_side m") (simp_all add: bm_path_def bm_start_def)

text \<open>
  Both heads of an entry reach the batch root: for every entry of a dual batch tree, whose words are
  canonical, the inclusion proof of the tree extended by the three compressions of the leaf leads from the
  trace root of either group to the root, over the depth the statement declares.
\<close>

lemma batch_membership_heads:
  assumes "build_batch_tree_dual triples = Inr t" "i < length triples" "triples ! i = (tx, a, b)"
    "\<forall>(x, y, z)\<in>set triples. wf_state 4 x \<and> wf_state 4 y \<and> wf_state 4 z"
  shows "\<exists>sibs bits. bt_membership_proof t i = Inr (sibs, bits) \<and> (\<forall>side.
    let m = \<lparr>bm_tx_id = tx, bm_tr10 = a, bm_tr8 = b, bm_side = side, bm_sibs = map p2t8_node_words sibs, bm_bits = bits,
             bm_batch_root = p2t8_node_words (bt_root t)\<rparr>
    in length (fst (bm_path m)) = bm_depth m \<and> length (snd (bm_path m)) = bm_depth m
       \<and> fold_path compress_t8 (bm_start m) (fst (bm_path m)) (snd (bm_path m)) = bm_batch_root m)"
proof -
  let ?level = "map (\<lambda>(t, a, b). batch_leaf_dual t a b) triples"
  note bf = build_batch_tree_dual_built [OF assms(1)]
  then have lv: "levels t = tree_levels hash_pair_p2t8 ?level" "?level \<noteq> []" by (simp_all add: built_from_def)
  obtain sibs bits where p: "bt_membership_proof t i = Inr (sibs, bits)"
    "verify_batch_membership (bt_root t) (?level ! i) sibs bits"
    by (rule membership_complete [OF bf, of i]) (use assms(2) in simp_all)
  then have v: "length sibs = length bits" "fold_path hash_pair_p2t8 (?level ! i) sibs bits = bt_root t"
    by (auto simp: verify_batch_membership_def split: if_splits)
  have "\<forall>x\<in>set ?level. wf_node x" using assms(4) by (auto simp: batch_leaf_dual_words(1))
  then have ok: "\<forall>lv\<in>set (levels t). \<forall>x\<in>set lv. wf_node x" using tree_levels_wf unfolding lv(1) by blast
  have tp: "tree_path (butlast (levels t)) i = (sibs, bits)" using p(1) by (auto simp: bt_membership_proof_def split: if_splits)
  have "[] \<notin> set (butlast (levels t))" using tree_levels_nonempty [OF lv(2)] lv(1) by (metis in_set_butlastD)
  then have ws: "\<forall>x\<in>set sibs. wf_node x" using tree_path_nodes [OF tp] ok by (metis in_set_butlastD)
  have w: "wf_state 4 tx" "wf_state 4 a" "wf_state 4 b" using assms(3,4) nth_mem [OF assms(2)] by auto
  have lf: "?level ! i = batch_leaf_dual tx a b" using assms(2,3) by simp
  have "fold_path compress_t8 (compress_t8 LEAF_DOMAIN (compress_t8 tx (compress_t8 a b))) (map p2t8_node_words sibs) bits
      = p2t8_node_words (bt_root t)"
    using fold_path_words [OF batch_leaf_dual_words(1) [OF w] ws v(1)] v(2) by (simp only: lf batch_leaf_dual_words(2) [OF w])
  then show ?thesis
    using p(1) v(1) by (auto simp: bm_path_fold) (auto simp: bm_path_def bm_depth_def split: Group.splits)
qed

end
