(* ===== verification/Circuit_Base.thy ===== *)
theory Circuit_Base
  imports MLDSA_NTT_Correct M31_Field
begin

unbundle bit_operations_syntax

text \<open>
  Vocabulary of the arithmetic circuits (\<open>mldsa_*_air.rs\<close>, \<open>range_check_air.rs\<close>). A circuit is a list of
  constraints over the cells of a row, as its \<open>evaluate\<close> adds them; \<open>evaluate\<close> is generic in the field of
  the cells (\<open>E: EvalAtRow\<close>) and so are the definitions here. A row of the trace satisfies the circuit
  when every constraint, computed on the cells as integers, is zero modulo \<open>2^31 - 1\<close>: the base field of
  the prover. A trace is a list of columns in the order of the rows; the permutation of a column to the
  order of the circle domain and the commitment belong to the prover's library.
\<close>

section \<open>Rows and traces\<close>

definition row_sat :: "(int list \<Rightarrow> int list) \<Rightarrow> int list \<Rightarrow> bool" where
  "row_sat ev row \<longleftrightarrow> (\<forall>c\<in>set (ev row). c mod P31 = 0)"

definition cells_ok :: "int list \<Rightarrow> bool" where
  "cells_ok row \<longleftrightarrow> (\<forall>x\<in>set row. 0 \<le> x \<and> x < P31)"

definition trace_row :: "int list list \<Rightarrow> nat \<Rightarrow> int list" where
  "trace_row cols i = map (\<lambda>c. c ! i) cols"

text \<open>The builders fill their columns row by row: column \<open>j\<close> holds cell \<open>j\<close> of every row.\<close>

definition columns :: "nat \<Rightarrow> int list list \<Rightarrow> int list list" where
  "columns n_cols rows = map (\<lambda>j. map (\<lambda>r. r ! j) rows) [0..<n_cols]"

text \<open>A trace of \<open>n\<close> rows satisfies a circuit whose constraints stay inside a row.\<close>

definition trace_sat :: "(int list \<Rightarrow> int list) \<Rightarrow> int list list \<Rightarrow> nat \<Rightarrow> bool" where
  "trace_sat ev cols n \<longleftrightarrow> (\<forall>i<n. cells_ok (trace_row cols i) \<and> row_sat ev (trace_row cols i))"

lemma trace_row_columns:
  assumes "i < length rows" "length (rows ! i) = n"
  shows "trace_row (columns n rows) i = rows ! i"
  using assms by (intro nth_equalityI) (simp_all add: trace_row_def columns_def)

lemma trace_sat_columns:
  assumes "\<And>r. r \<in> set rows \<Longrightarrow> length r = n \<and> cells_ok r \<and> row_sat ev r"
  shows "trace_sat ev (columns n rows) (length rows)"
  using assms by (auto simp: trace_sat_def trace_row_columns)

lemma trace_sat_map:
  assumes "\<And>i. i < n \<Longrightarrow> length (f i) = w \<and> cells_ok (f i) \<and> row_sat ev (f i)"
  shows "trace_sat ev (columns w (map f [0..<n])) n"
proof -
  have "trace_sat ev (columns w (map f [0..<n])) (length (map f [0..<n]))"
    by (rule trace_sat_columns) (use assms in auto)
  then show ?thesis by simp
qed

lemma row_sat_simps [simp]:
  "cells_ok (xs @ ys) \<longleftrightarrow> cells_ok xs \<and> cells_ok ys"
  "cells_ok (x # ys) \<longleftrightarrow> 0 \<le> x \<and> x < P31 \<and> cells_ok ys"
  "cells_ok []"
  by (auto simp: cells_ok_def)

text \<open>\<open>ev pre row prev\<close>: the constraints over the preprocessed cells, the row and the row before it.\<close>

definition cyclic_sat :: "(int list \<Rightarrow> int list \<Rightarrow> int list \<Rightarrow> int list) \<Rightarrow> int list list \<Rightarrow> int list list \<Rightarrow> nat \<Rightarrow> bool" where
  "cyclic_sat ev pre cols n \<longleftrightarrow> (\<forall>i<n. cells_ok (trace_row cols i)
     \<and> (\<forall>c\<in>set (ev (trace_row pre i) (trace_row cols i) (trace_row cols ((i + n - 1) mod n))). c mod P31 = 0))"

lemma trace_row_nth: "k < length cols \<Longrightarrow> trace_row cols i ! k = cols ! k ! i"
  by (simp add: trace_row_def)

lemma cyclic_prev:
  fixes i n :: nat
  shows "i < n \<Longrightarrow> (i + n - 1) mod n = (if i = 0 then n - 1 else i - 1)"
proof (cases i)
  case (Suc k)
  assume "i < n"
  then have "(k + n) mod n = k" using Suc by simp
  then show ?thesis using Suc by simp
qed simp

text \<open>A selector as a cell.\<close>

definition flag :: "bool \<Rightarrow> int" where
  "flag b = (if b then 1 else 0)"

text \<open>Blocks of equal length.\<close>

lemma concat_blocks:
  assumes "\<forall>xs\<in>set xss. length xs = b"
  shows "length (concat xss) = length xss * b" "q < length xss \<Longrightarrow> r < b \<Longrightarrow> concat xss ! (q * b + r) = xss ! q ! r"
proof -
  show "length (concat xss) = length xss * b" using assms by (induction xss) simp_all
  show "q < length xss \<Longrightarrow> r < b \<Longrightarrow> concat xss ! (q * b + r) = xss ! q ! r" using assms
  proof (induction xss arbitrary: q)
    case (Cons xs xss)
    then show ?case by (cases q) (auto simp: nth_append)
  qed simp
qed

section \<open>Cells\<close>

definition N_BITS :: nat where "N_BITS = 23"

text \<open>\<open>BaseField::from_u32_unchecked(v as u32)\<close> of an \<open>i64\<close>.\<close>

definition bf :: "i64 \<Rightarrow> int" where
  "bf v = v mod 2 ^ 32"

text \<open>The bits \<open>(u >> k) & 1\<close> of \<open>u = v as u32\<close>.\<close>

definition bit_cells :: "i64 \<Rightarrow> int list" where
  "bit_cells v = (let u = v mod 2 ^ 32 in map (\<lambda>k. drop_bit k u AND 1) [0..<N_BITS])"

text \<open>The same by a loop that shifts: \<open>vv & 1; vv >>= 1\<close>.\<close>

fun bit_loop :: "nat \<Rightarrow> int \<Rightarrow> int list" where
  "bit_loop 0 vv = []"
| "bit_loop (Suc n) vv = (vv AND 1) # bit_loop n (drop_bit 1 vv)"

section \<open>Bit decompositions\<close>

text \<open>The sum of weighted bits, from zero and from the first bit.\<close>

definition bit_sum :: "'f::comm_ring_1 list \<Rightarrow> 'f" where
  "bit_sum bits = fst (foldl (\<lambda>(sum, power) b. (sum + b * of_int power, power * 2)) (0, 1) bits)"

definition bit_sum_from :: "'f::comm_ring_1 list \<Rightarrow> 'f" where
  "bit_sum_from bits =
     fst (foldl (\<lambda>(sum, pow2) b. let pow2 = pow2 * 2 in (sum + b * of_int pow2, pow2)) (bits ! 0, 1) (drop 1 bits))"

definition bool_constraints :: "'f::comm_ring_1 list \<Rightarrow> 'f list" where
  "bool_constraints bits = map (\<lambda>b. b * b - b) bits"

text \<open>The value of a list of bits.\<close>

fun bits_value :: "int list \<Rightarrow> int" where
  "bits_value [] = 0"
| "bits_value (b # bs) = b + 2 * bits_value bs"

lemma bit_sum_value [simp]: "bit_sum bits = bits_value bits" for bits :: "int list"
proof -
  have "fst (foldl (\<lambda>(sum, power) b. (sum + b * of_int power, power * 2)) (s, p) bits) = s + p * bits_value bits" for s p :: int
    by (induction bits arbitrary: s p) (simp_all add: algebra_simps)
  then show ?thesis by (simp add: bit_sum_def)
qed

lemma bit_sum_from_value [simp]: "bits \<noteq> [] \<Longrightarrow> bit_sum_from bits = bits_value bits" for bits :: "int list"
proof -
  have "fst (foldl (\<lambda>(sum, pow2) b. let pow2 = pow2 * 2 in (sum + b * of_int pow2, pow2)) (s, p) bs) = s + 2 * p * bits_value bs"
    for s p :: int and bs
    by (induction bs arbitrary: s p) (simp_all add: algebra_simps Let_def)
  then show "bits \<noteq> [] \<Longrightarrow> bit_sum_from bits = bits_value bits" by (cases bits) (simp_all add: bit_sum_from_def)
qed

text \<open>A cell that satisfies the boolean constraint is a bit: the field has no zero divisors.\<close>

lemma bool_cell: "0 \<le> b \<Longrightarrow> b < P31 \<Longrightarrow> (b * b - b) mod P31 = 0 \<Longrightarrow> b = 0 \<or> b = 1"
proof -
  assume b: "0 \<le> b" "b < P31" and z: "(b * b - b) mod P31 = 0"
  have "P31 dvd b * (b - 1)" using z by (simp add: mod_eq_0_iff_dvd algebra_simps)
  then have "P31 dvd b \<or> P31 dvd b - 1"
    using prime_dvd_mult_int [OF P31_prime, of b "b - 1"] by simp
  moreover have "\<not> P31 dvd b" "\<not> P31 dvd b - 1" if "1 < b"
    using that b zdvd_imp_le [of P31 b] zdvd_imp_le [of P31 "b - 1"] by auto
  ultimately have "\<not> 1 < b" by blast
  then show ?thesis using b by linarith
qed

lemma bool_cells:
  "cells_ok bits \<Longrightarrow> \<forall>c\<in>set (bool_constraints bits). c mod P31 = 0 \<Longrightarrow> \<forall>b\<in>set bits. b = 0 \<or> b = 1"
  using bool_cell by (auto simp: bool_constraints_def cells_ok_def)

lemma bits_value_bounds: "\<forall>b\<in>set bits. b = 0 \<or> b = 1 \<Longrightarrow> 0 \<le> bits_value bits \<and> bits_value bits < 2 ^ length bits"
  by (induction bits) auto

lemma bit_loop_bits: "b \<in> set (bit_loop n v) \<Longrightarrow> b = 0 \<or> b = 1"
  by (induction n arbitrary: v) (auto simp: and_one_eq)

lemma bit_loop_value: "0 \<le> v \<Longrightarrow> v < 2 ^ n \<Longrightarrow> bits_value (bit_loop n v) = v"
proof (induction n arbitrary: v)
  case (Suc n)
  then have "bits_value (bit_loop n (v div 2)) = v div 2" by (intro Suc.IH) auto
  then show ?case by (simp add: and_one_eq drop_bit_Suc)
qed simp

lemma length_bit_loop [simp]: "length (bit_loop n v) = n"
  by (induction n arbitrary: v) simp_all

lemma bit_loop_map: "bit_loop n v = map (\<lambda>k. drop_bit k v AND 1) [0..<n]"
proof (induction n arbitrary: v)
  case (Suc n)
  have "[0..<Suc n] = 0 # map Suc [0..<n]" by (simp add: map_Suc_upt upt_conv_Cons del: upt_Suc)
  moreover have "drop_bit k (drop_bit 1 v) = drop_bit (Suc k) v" for k by (simp add: drop_bit_drop_bit)
  ultimately show ?case by (simp add: Suc.IH o_def del: upt_Suc)
qed simp

lemma bit_cells_loop: "0 \<le> v \<Longrightarrow> v < 2 ^ 32 \<Longrightarrow> bit_cells v = bit_loop N_BITS v"
  by (simp add: bit_cells_def bit_loop_map Let_def)

lemma length_bit_cells [simp]: "length (bit_cells v) = N_BITS"
  by (simp add: bit_cells_def Let_def)

lemma bits_sat:
  assumes "\<forall>b\<in>set bits. b = 0 \<or> b = (1 :: int)"
  shows "cells_ok bits" "\<forall>c\<in>set (bool_constraints bits). c mod P31 = 0"
proof -
  show "cells_ok bits" using assms P31_pos by (auto simp: cells_ok_def)
  show "\<forall>c\<in>set (bool_constraints bits). c mod P31 = 0" using assms by (auto simp: bool_constraints_def)
qed

text \<open>The cells of a value of \<open>[0, Q)\<close>, or of any value below \<open>2^23\<close>.\<close>

lemma bit_cells_sat:
  assumes "0 \<le> v" "v < 2 ^ 23"
  shows "bits_value (bit_cells v) = v" "cells_ok (bit_cells v)"
    "\<forall>c\<in>set (bool_constraints (bit_cells v)). c mod P31 = 0"
proof -
  have "bit_cells v = bit_loop 23 v" using assms by (simp add: bit_cells_loop N_BITS_def)
  then show "bits_value (bit_cells v) = v" "cells_ok (bit_cells v)"
    "\<forall>c\<in>set (bool_constraints (bit_cells v)). c mod P31 = 0"
    using assms bits_sat [of "bit_loop 23 v"] bit_loop_bits [of _ 23 v] by (auto simp: bit_loop_value)
qed

lemma bf_small: "0 \<le> v \<Longrightarrow> v < P31 \<Longrightarrow> bf v = v"
  by (simp add: bf_def P31_def)

text \<open>The bits of a row, as the circuits read them.\<close>

definition cells :: "'f list \<Rightarrow> nat \<Rightarrow> nat \<Rightarrow> 'f list" where
  "cells row a n = map (\<lambda>k. row ! (a + k)) [0..<n]"

lemma length_cells [simp]: "length (cells row a n) = n"
  by (simp add: cells_def)

lemma cells_append:
  "length xs = a \<Longrightarrow> length ys = n \<Longrightarrow> cells (xs @ ys @ zs) a n = ys"
  by (rule nth_equalityI) (simp_all add: cells_def nth_append)

lemma cells_take: "a + n \<le> length row \<Longrightarrow> cells row a n = take n (drop a row)"
  by (rule nth_equalityI) (simp_all add: cells_def)

lemma cells_skip: "cells (xs @ ys) (length xs + k) n = cells ys k n"
  by (simp add: cells_def nth_append)

lemma cells_prefix: "a + n \<le> length ys \<Longrightarrow> cells (ys @ zs) a n = cells ys a n"
  by (simp add: cells_def nth_append)

lemma cells_ok_cells: "cells_ok row \<Longrightarrow> a + n \<le> length row \<Longrightarrow> cells_ok (cells row a n)"
  by (auto simp: cells_ok_def cells_def)

lemma cells_ok_nth: "cells_ok row \<Longrightarrow> i < length row \<Longrightarrow> 0 \<le> row ! i \<and> row ! i < P31"
  by (auto simp: cells_ok_def)

text \<open>Two small values equal in the field are equal.\<close>

lemma small_eq: "(x - y) mod P31 = 0 \<Longrightarrow> x - y < P31 \<Longrightarrow> y - x < P31 \<Longrightarrow> x = y"
proof -
  assume "(x - y) mod P31 = 0" "x - y < P31" "y - x < P31"
  then show ?thesis using zdvd_imp_le [of P31 "\<bar>x - y\<bar>"] by (cases "x = y") (auto simp: mod_eq_0_iff_dvd)
qed

end
