(* ===== verification/Circuit_Arith.thy ===== *)
theory Circuit_Arith
  imports Circuit_Base
begin

text \<open>
  The circuits of the coefficientwise operations modulo \<open>Q\<close>: product and sum of polynomials
  (\<open>mldsa_poly_mul_air.rs\<close>, \<open>mldsa_poly_add_air.rs\<close>), range of a coefficient (\<open>range_check_air.rs\<close>,
  \<open>mldsa_range_q_batch_air.rs\<close>), centred norm (\<open>mldsa_norm_check_air.rs\<close>, \<open>mldsa_norm_check_batch_air.rs\<close>)
  and the difference \<open>w' = A z - c t1\<close> (\<open>mldsa_wprime_full_air.rs\<close>): constraints, trace builders, what an
  honest trace satisfies and what a satisfied row implies.
\<close>

section \<open>Products\<close>

definition poly_mul_evaluate :: "'f::comm_ring_1 list \<Rightarrow> 'f list" where
  "poly_mul_evaluate row =
     (let a = row ! 0; b = row ! 1; c = row ! 2; carry = row ! 3;
          c_bits = cells row 4 N_BITS;
          carry_bits = cells row (4 + N_BITS) N_BITS
      in [a * b - c - carry * of_int Q]
         @ [c - bit_sum c_bits] @ bool_constraints c_bits
         @ [carry - bit_sum carry_bits] @ bool_constraints carry_bits)"

definition poly_mul_row :: "i64 \<Rightarrow> i64 \<Rightarrow> int list" where
  "poly_mul_row a b =
     (let prod = a * b; c_val = prod smod Q; carry_v = prod sdiv Q
      in [bf a, bf b, bf c_val, bf carry_v] @ bit_cells c_val @ bit_cells carry_v)"

definition poly_mul_build_trace :: "i64 list \<Rightarrow> i64 list \<Rightarrow> int list list \<times> i64 list" where
  "poly_mul_build_trace a b =
     (columns (4 + 2 * N_BITS) (map (\<lambda>i. poly_mul_row (a ! i) (b ! i)) [0..<N]),
      map (\<lambda>i. (a ! i * b ! i) smod Q) [0..<N])"

section \<open>Sums\<close>

definition poly_add_evaluate :: "'f::comm_ring_1 list \<Rightarrow> 'f list" where
  "poly_add_evaluate row =
     (let a = row ! 0; b = row ! 1; c = row ! 2; carry = row ! 3
      in [a + b - c - carry * of_int Q, carry * carry - carry])"

definition poly_add_row :: "i64 \<Rightarrow> i64 \<Rightarrow> int list" where
  "poly_add_row a b =
     (let raw = a + b; carry = (if raw \<ge> Q then 1 else 0); c_val = raw - carry * Q
      in [bf a, bf b, bf c_val, bf carry])"

definition poly_add_build_trace :: "i64 list \<Rightarrow> i64 list \<Rightarrow> int list list \<times> i64 list" where
  "poly_add_build_trace a b =
     (columns 4 (map (\<lambda>i. poly_add_row (a ! i) (b ! i)) [0..<N]),
      map (\<lambda>i. let raw = a ! i + b ! i; carry = (if raw \<ge> Q then 1 else 0) in raw - carry * Q) [0..<N])"

text \<open>\<open>w' = A z - c t1\<close>: the sum of \<open>A z\<close> and the negated \<open>c t1\<close>, for the \<open>K\<close> rows.\<close>

definition wprime_evaluate :: "'f::comm_ring_1 list \<Rightarrow> 'f list" where
  "wprime_evaluate row =
     concat (map (\<lambda>i.
       let az = row ! (i * 4); ct1_neg = row ! (i * 4 + 1); w_prime = row ! (i * 4 + 2); carry = row ! (i * 4 + 3)
       in [az + ct1_neg - w_prime - carry * of_int Q, carry * carry - carry]) [0..<K])"

definition wprime_cells :: "i64 \<Rightarrow> i64 \<Rightarrow> int list \<times> i64" where
  "wprime_cells a b =
     (let bn = (if b = 0 then 0 else Q - b);
          s = a + bn;
          c = s - (if s \<ge> Q then Q else 0);
          cr = (if s \<ge> Q then 1 else 0)
      in ([bf a, bf bn, bf c, bf cr], c))"

definition wprime_build_trace :: "i64 list list \<Rightarrow> i64 list list \<Rightarrow> int list list \<times> i64 list list" where
  "wprime_build_trace az ct1 =
     (columns (4 * K) (map (\<lambda>p. concat (map (\<lambda>i. fst (wprime_cells (az ! i ! p) (ct1 ! i ! p))) [0..<K])) [0..<N]),
      map (\<lambda>i. map (\<lambda>p. snd (wprime_cells (az ! i ! p) (ct1 ! i ! p))) [0..<N]) [0..<K])"

section \<open>Ranges\<close>

definition range_check_evaluate :: "'f::comm_ring_1 list \<Rightarrow> 'f list" where
  "range_check_evaluate row =
     (let v = row ! 0; b_v = cells row 1 N_BITS;
          d = row ! (1 + N_BITS); b_d = cells row (2 + N_BITS) N_BITS
      in [v - bit_sum_from b_v] @ bool_constraints b_v
         @ [bit_sum_from b_d + v - of_int (Q - 1)] @ bool_constraints b_d)"

definition range_check_row :: "i64 \<Rightarrow> int list" where
  "range_check_row v =
     (let v_clamped = v mod Q; d_clamped = Q - 1 - v_clamped
      in [bf v_clamped] @ bit_loop N_BITS (bf v_clamped) @ [bf d_clamped] @ bit_loop N_BITS (bf d_clamped))"

definition RANGE_COLS :: nat where "RANGE_COLS = 48"

definition range_check_build_trace :: "i64 list \<Rightarrow> int list list \<times> bool" where
  "range_check_build_trace poly =
     (columns RANGE_COLS (map (\<lambda>r. range_check_row (poly ! r)) [0..<N]),
      \<not> list_ex (\<lambda>r. poly ! r < 0 \<or> poly ! r \<ge> Q) [0..<N])"

text \<open>The batch repeats the columns and constraints for \<open>K\<close> polynomials.\<close>

definition range_q_batch_evaluate :: "'f::comm_ring_1 list \<Rightarrow> 'f list" where
  "range_q_batch_evaluate row = concat (map (\<lambda>j. range_check_evaluate (cells row (j * RANGE_COLS) RANGE_COLS)) [0..<K])"

definition range_q_batch_build_trace :: "i64 list list \<Rightarrow> int list list \<times> bool" where
  "range_q_batch_build_trace polys =
     (columns (K * RANGE_COLS) (map (\<lambda>p. concat (map (\<lambda>j. range_check_row (polys ! j ! p)) [0..<K])) [0..<N]),
      \<not> list_ex (\<lambda>p. list_ex (\<lambda>j. polys ! j ! p < 0 \<or> polys ! j ! p \<ge> Q) [0..<K]) [0..<N])"

section \<open>Norms\<close>

definition norm_check_evaluate :: "'f::comm_ring_1 list \<Rightarrow> 'f list" where
  "norm_check_evaluate row =
     (let z = row ! 0; sel = row ! 1; norm = row ! 2
      in [sel * sel - sel, norm - z + sel * z + sel * z - sel * of_int Q])"

definition NORM_BOUND :: int where "NORM_BOUND = 524092"

definition sel_norm :: "i64 \<Rightarrow> i64 \<times> i64" where
  "sel_norm zi = (if zi > (Q - 1) sdiv 2 then (1, Q - zi) else (0, zi))"

definition norm_check_row :: "i64 \<Rightarrow> int list" where
  "norm_check_row zi = (let (sel, norm) = sel_norm zi in [bf zi, bf sel, bf norm])"

definition norm_check_build_trace :: "i64 list \<Rightarrow> int list list \<times> i64 list" where
  "norm_check_build_trace z =
     (columns 3 (map (\<lambda>i. norm_check_row (z ! i)) [0..<N]), map (\<lambda>i. snd (sel_norm (z ! i))) [0..<N])"

definition norm_batch_evaluate :: "'f::comm_ring_1 list \<Rightarrow> 'f list" where
  "norm_batch_evaluate row = concat (map (\<lambda>j. norm_check_evaluate (cells row (j * 3) 3)) [0..<L])"

definition norm_batch_build_trace :: "i64 list list \<Rightarrow> int list list \<times> i64 list list \<times> i64 list" where
  "norm_batch_build_trace z =
     (let norm_out = map (\<lambda>j. map (\<lambda>p. snd (sel_norm (z ! j ! p))) [0..<N]) [0..<L]
      in (columns (L * 3) (map (\<lambda>p. concat (map (\<lambda>j. norm_check_row (z ! j ! p)) [0..<L])) [0..<N]), norm_out,
          map (\<lambda>j. foldl (\<lambda>m p. if norm_out ! j ! p > m then norm_out ! j ! p else m) 0 [0..<N]) [0..<L]))"

section \<open>Rows of blocks\<close>

lemma cells_concat:
  assumes "j < m" "\<And>i. i < m \<Longrightarrow> length (f i) = w"
  shows "cells (concat (map f [0..<m])) (j * w) w = f j"
proof -
  have l: "length (concat (map f [0..<n])) = n * w" if "n \<le> m" for n
    using that assms(2) by (induction n) (simp_all add: algebra_simps)
  have s: "[0..<m] = [0..<j] @ [j] @ [Suc j..<m]"
    using assms(1) upt_add_eq_append [of 0 j "m - j"] by (simp add: upt_conv_Cons)
  have "concat (map f [0..<m]) = concat (map f [0..<j]) @ f j @ concat (map f [Suc j..<m])" by (simp add: s)
  then show ?thesis using l [of j] assms by (simp add: cells_append)
qed

lemma length_concat_upt: "(\<And>i. i < m \<Longrightarrow> length (f i) = w) \<Longrightarrow> length (concat (map f [0..<m])) = m * w"
  by (induction m) (simp_all add: algebra_simps)

lemma cells_ok_concat: "(\<And>i. i < m \<Longrightarrow> cells_ok (f i)) \<Longrightarrow> cells_ok (concat (map f [0..<m]))"
  by (auto simp: cells_ok_def)

lemma row_sat_concat:
  "row_sat (\<lambda>row. concat (map (\<lambda>j. ev (cells row (j * w) w)) [0..<m])) row
   \<longleftrightarrow> (\<forall>j<m. row_sat ev (cells row (j * w) w))"
  by (auto simp: row_sat_def)

lemma wprime_blocks: "wprime_evaluate row = concat (map (\<lambda>j. poly_add_evaluate (cells row (j * 4) 4)) [0..<K])"
  by (simp add: wprime_evaluate_def poly_add_evaluate_def cells_def)

lemma blocks_ok:
  assumes "\<And>j. j < m \<Longrightarrow> length (f j) = w \<and> cells_ok (f j) \<and> row_sat ev (f j)"
  shows "length (concat (map f [0..<m])) = m * w" "cells_ok (concat (map f [0..<m]))"
    "row_sat (\<lambda>row. concat (map (\<lambda>j. ev (cells row (j * w) w)) [0..<m])) (concat (map f [0..<m]))"
  using assms by (auto intro!: length_concat_upt cells_ok_concat simp: row_sat_concat cells_concat)

section \<open>Honest rows\<close>

lemma zq_product:
  assumes "in_zq a" "in_zq b"
  shows "(a * b) smod Q = a * b mod Q" "(a * b) sdiv Q = a * b div Q" "0 \<le> a * b div Q" "a * b div Q < Q"
proof -
  have ab: "0 \<le> a * b" "0 < Q" using assms by (simp_all add: in_zq_def Q_def)
  then show "(a * b) smod Q = a * b mod Q" by (simp add: smod_nonneg)
  show "(a * b) sdiv Q = a * b div Q"
    using ab by (cases "a * b = 0") (auto simp: signed_divide_int_def sgn_if)
  show "0 \<le> a * b div Q" using ab by (simp add: pos_imp_zdiv_nonneg_iff)
  have "a * b \<le> a * (Q - 1)" using assms by (intro mult_left_mono) (simp_all add: in_zq_def)
  also have "\<dots> < Q * Q" using assms by (intro mult_less_le_imp_less) (auto simp: in_zq_def Q_def)
  finally have lt: "a * b < Q * Q" .
  show "a * b div Q < Q"
  proof (rule ccontr)
    assume "\<not> a * b div Q < Q"
    then have "Q * Q \<le> (a * b div Q) * Q" using ab by (intro mult_right_mono) simp_all
    also have "\<dots> \<le> a * b" using ab(2) by (simp add: minus_mod_eq_div_mult [symmetric])
    finally show False using lt by simp
  qed
qed

lemma zq_cell: "in_zq a \<Longrightarrow> bf a = a" "in_zq a \<Longrightarrow> 0 \<le> a \<and> a < P31" "in_zq a \<Longrightarrow> 0 \<le> a \<and> a < 2 ^ 23"
  by (simp_all add: in_zq_def Q_def bf_def P31_def)

lemma cells4: "cells ([w, x, y, z] @ as @ bs) 4 (length as) = as"
  "cells ([w, x, y, z] @ as @ bs) (4 + length as) (length bs) = bs"
  using cells_append [of "[w, x, y, z]" 4 as "length as" bs] cells_append [of "[w, x, y, z] @ as" "4 + length as" bs "length bs" "[]"]
  by simp_all

lemma poly_mul_row_ok:
  assumes "in_zq a" "in_zq b"
  shows "length (poly_mul_row a b) = 4 + 2 * N_BITS" "cells_ok (poly_mul_row a b)" "row_sat poly_mul_evaluate (poly_mul_row a b)"
proof -
  define c where "c = a * b mod Q"
  define cr where "cr = a * b div Q"
  note p = zq_product [OF assms]
  have z: "in_zq c" "in_zq cr" using p by (simp_all add: c_def cr_def in_zq_def [of "a * b div Q"])
  note zc = zq_cell [OF assms(1)] zq_cell [OF assms(2)] zq_cell [OF z(1)] zq_cell [OF z(2)]
  note bc = bit_cells_sat [of c] bit_cells_sat [of cr]
  have r: "poly_mul_row a b = [a, b, c, cr] @ bit_cells c @ bit_cells cr"
    by (simp add: poly_mul_row_def p(1,2) c_def [symmetric] cr_def [symmetric] zc Let_def)
  show "length (poly_mul_row a b) = 4 + 2 * N_BITS" by (simp add: r)
  show "cells_ok (poly_mul_row a b)" using zc bc by (simp add: r)
  have k: "cells (poly_mul_row a b) 4 N_BITS = bit_cells c" "cells (poly_mul_row a b) (4 + N_BITS) N_BITS = bit_cells cr"
    using cells4 [of a b c cr "bit_cells c" "bit_cells cr"] by (simp_all add: r)
  have "a * b - c - cr * Q = 0" by (simp add: c_def cr_def minus_div_mult_eq_mod [symmetric])
  then show "row_sat poly_mul_evaluate (poly_mul_row a b)"
    using zc bc unfolding row_sat_def poly_mul_evaluate_def Let_def k by (auto simp: r)
qed

lemma poly_add_row_ok:
  assumes "in_zq a" "in_zq b"
  shows "length (poly_add_row a b) = 4" "cells_ok (poly_add_row a b)" "row_sat poly_add_evaluate (poly_add_row a b)"
    "(let raw = a + b; carry = (if raw \<ge> Q then 1 else 0) in raw - carry * Q) = (a + b) mod Q"
proof -
  have ab: "0 \<le> a" "a < Q" "0 \<le> b" "b < Q" using assms by (simp_all add: in_zq_def)
  then have P: "bf a = a" "bf b = b" "a < P31" "b < P31" "Q < P31" by (simp_all add: bf_def Q_def P31_def)
  show "(let raw = a + b; carry = (if raw \<ge> Q then 1 else 0) in raw - carry * Q) = (a + b) mod Q"
    using field_add_mod [OF assms] by (simp add: field_add_def Let_def split: if_splits)
  have b: "bf 0 = 0" "bf 1 = 1" "Q \<le> a + b \<Longrightarrow> bf (a + b - Q) = a + b - Q" "\<not> Q \<le> a + b \<Longrightarrow> bf (a + b) = a + b"
    using ab by (simp_all add: bf_def Q_def)
  show "length (poly_add_row a b) = 4" by (simp add: poly_add_row_def Let_def)
  show "cells_ok (poly_add_row a b)" using ab P b by (auto simp: poly_add_row_def Let_def)
  show "row_sat poly_add_evaluate (poly_add_row a b)"
    using ab P b by (auto simp: poly_add_row_def poly_add_evaluate_def row_sat_def Let_def)
qed

lemma wprime_cells_ok:
  assumes "in_zq a" "in_zq b"
  shows "length (fst (wprime_cells a b)) = 4" "cells_ok (fst (wprime_cells a b))"
    "row_sat poly_add_evaluate (fst (wprime_cells a b))" "snd (wprime_cells a b) = (a - b) mod Q"
proof -
  define bn where "bn = (if b = 0 then 0 else Q - b)"
  have bn: "in_zq bn" "(a + bn) mod Q = (a - b) mod Q"
    using assms mod_add_self1 [of Q "a - b"] by (auto simp: bn_def in_zq_def add_diff_eq) (simp add: algebra_simps)
  have w: "wprime_cells a b = (poly_add_row a bn, (let raw = a + bn; carry = (if raw \<ge> Q then 1 else 0) in raw - carry * Q))"
    by (simp add: wprime_cells_def poly_add_row_def Let_def bn_def)
  show "length (fst (wprime_cells a b)) = 4" "cells_ok (fst (wprime_cells a b))"
    "row_sat poly_add_evaluate (fst (wprime_cells a b))" "snd (wprime_cells a b) = (a - b) mod Q"
    unfolding w using poly_add_row_ok [OF assms(1) bn(1)] bn(2) by simp_all
qed

lemma range_check_row_ok:
  "length (range_check_row v) = RANGE_COLS" "cells_ok (range_check_row v)" "row_sat range_check_evaluate (range_check_row v)"
proof -
  define u where "u = v mod Q"
  define d where "d = Q - 1 - u"
  have z: "in_zq u" "in_zq d" using in_zq_mod [of v] unfolding u_def d_def in_zq_def by linarith+
  note zc = zq_cell [OF z(1)] zq_cell [OF z(2)]
  have bc: "bits_value (bit_loop 23 x) = x" "cells_ok (bit_loop 23 x)" "\<forall>c\<in>set (bool_constraints (bit_loop 23 x)). c mod P31 = 0"
    if "0 \<le> x \<and> x < 2 ^ 23" for x
    using that bits_sat [of "bit_loop 23 x"] bit_loop_bits [of _ 23 x] bit_loop_value [of x 23] by auto
  note bu = bc [OF zc(3)] and bd = bc [OF zc(6)]
  have r: "range_check_row v = [u] @ bit_loop 23 u @ [d] @ bit_loop 23 d"
    by (simp add: range_check_row_def u_def [symmetric] d_def [symmetric] zc Let_def N_BITS_def)
  show "length (range_check_row v) = RANGE_COLS" by (simp add: r RANGE_COLS_def)
  show "cells_ok (range_check_row v)" using zc bu bd by (simp add: r)
  have k: "cells (range_check_row v) 1 N_BITS = bit_loop 23 u" "cells (range_check_row v) (2 + N_BITS) N_BITS = bit_loop 23 d"
    using cells_append [of "[u]" 1 "bit_loop 23 u" 23 "[d] @ bit_loop 23 d"]
      cells_append [of "[u] @ bit_loop 23 u @ [d]" 25 "bit_loop 23 d" 23 "[]"] by (simp_all add: r N_BITS_def)
  have ne: "bit_loop 23 x \<noteq> []" for x by (metis length_bit_loop list.size(3) zero_neq_numeral)
  show "row_sat range_check_evaluate (range_check_row v)"
    using bu bd unfolding row_sat_def range_check_evaluate_def Let_def k
    by (simp add: ne) (simp add: r d_def ball_Un)
qed

lemma sel_norm_cases:
  assumes "in_zq z"
  obtains "sel_norm z = (1, Q - z)" "(Q - 1) sdiv 2 < z" | "sel_norm z = (0, z)" "z \<le> (Q - 1) sdiv 2"
  using assms by (cases "z > (Q - 1) sdiv 2") (auto simp: sel_norm_def)

lemma sel_norm_min: "in_zq z \<Longrightarrow> snd (sel_norm z) = min z (Q - z)"
  by (auto simp: sel_norm_def in_zq_def Q_def signed_divide_int_def)

lemma norm_check_row_ok:
  assumes "in_zq z"
  shows "length (norm_check_row z) = 3" "cells_ok (norm_check_row z)" "row_sat norm_check_evaluate (norm_check_row z)"
proof -
  have z: "0 \<le> z" "z < Q" "bf z = z" "bf 0 = 0" "bf 1 = 1" "Q < P31" using assms by (simp_all add: in_zq_def bf_def Q_def P31_def)
  have bq: "(Q - 1) sdiv 2 < z \<Longrightarrow> bf (Q - z) = Q - z" using z by (simp add: bf_def Q_def signed_divide_int_def)
  show "length (norm_check_row z) = 3" by (simp add: norm_check_row_def sel_norm_def)
  show "cells_ok (norm_check_row z)"
    by (rule sel_norm_cases [OF assms]) (use z bq in \<open>auto simp: norm_check_row_def\<close>)
  show "row_sat norm_check_evaluate (norm_check_row z)"
    by (rule sel_norm_cases [OF assms]) (use z bq in \<open>auto simp: norm_check_row_def norm_check_evaluate_def row_sat_def\<close>)
qed

section \<open>What a satisfied row implies\<close>

lemma range_check_sound:
  assumes "length row = RANGE_COLS" "cells_ok row" "row_sat range_check_evaluate row"
  shows "in_zq (row ! 0)"
proof -
  let ?bv = "cells row 1 N_BITS" and ?bd = "cells row (2 + N_BITS) N_BITS" and ?v = "row ! 0"
  have ok: "cells_ok ?bv" "cells_ok ?bd" "0 \<le> ?v" "?v < P31"
    using assms(1,2) by (auto intro!: cells_ok_cells simp: RANGE_COLS_def N_BITS_def cells_ok_nth)
  have s: "\<forall>c\<in>set (bool_constraints ?bv). c mod P31 = 0" "\<forall>c\<in>set (bool_constraints ?bd). c mod P31 = 0"
    "(?v - bit_sum_from ?bv) mod P31 = 0" "(bit_sum_from ?bd + ?v - (Q - 1)) mod P31 = 0"
    using assms(3) by (simp_all add: row_sat_def range_check_evaluate_def Let_def ball_Un)
  have ne: "?bv \<noteq> []" "?bd \<noteq> []" by (simp_all add: cells_def N_BITS_def)
  have b: "0 \<le> bits_value ?bv" "bits_value ?bv < 2 ^ 23" "0 \<le> bits_value ?bd" "bits_value ?bd < 2 ^ 23"
    using bits_value_bounds [OF bool_cells [OF ok(1) s(1)]] bits_value_bounds [OF bool_cells [OF ok(2) s(2)]]
    by (simp_all add: N_BITS_def)
  have P: "P31 = 2147483647" "Q = 8380417" "(2 :: int) ^ 23 = 8388608" by (simp_all add: P31_def Q_def)
  have v: "?v = bits_value ?bv"
    by (rule small_eq [OF s(3) [unfolded bit_sum_from_value [OF ne(1)]]]) (use b ok(3,4) P in linarith)+
  have "bits_value ?bd + ?v = Q - 1"
    by (rule small_eq [OF s(4) [unfolded bit_sum_from_value [OF ne(2)]]]) (use b ok(3,4) v P in linarith)+
  then show ?thesis unfolding in_zq_def using b P v by linarith
qed

lemma add_sound:
  assumes "length row = 4" "cells_ok row" "row_sat poly_add_evaluate row" "in_zq (row ! 0)" "in_zq (row ! 1)" "in_zq (row ! 2)"
  shows "row ! 2 = (row ! 0 + row ! 1) mod Q"
proof -
  let ?a = "row ! 0" and ?b = "row ! 1" and ?c = "row ! 2" and ?k = "row ! 3"
  have k: "0 \<le> ?k" "?k < P31" using assms(1,2) cells_ok_nth [of row 3] by simp_all
  have s: "(?a + ?b - ?c - ?k * Q) mod P31 = 0" "(?k * ?k - ?k) mod P31 = 0"
    using assms(3) by (simp_all add: row_sat_def poly_add_evaluate_def Let_def)
  have "?k = 0 \<or> ?k = 1" using bool_cell [OF k s(2)] .
  have P: "P31 = 2147483647" "Q = 8380417" by (simp_all add: P31_def Q_def)
  have r: "0 \<le> ?a" "?a < Q" "0 \<le> ?b" "?b < Q" "0 \<le> ?c" "?c < Q" using assms(4-6) by (simp_all add: in_zq_def)
  from \<open>?k = 0 \<or> ?k = 1\<close> have e: "?a + ?b = ?c + ?k * Q"
  proof
    assume k0: "?k = 0"
    then have "(?a + ?b - ?c) mod P31 = 0" using s(1) by simp
    then have "?a + ?b = ?c" by (rule small_eq) (use r P in linarith)+
    then show ?thesis using k0 by simp
  next
    assume k1: "?k = 1"
    have "(?a + ?b - (?c + Q)) mod P31 = 0" using s(1) by (simp add: k1 algebra_simps)
    then have "?a + ?b = ?c + Q" by (rule small_eq) (use r P in linarith)+
    then show ?thesis using k1 by simp
  qed
  then show ?thesis using assms(6) by simp
qed

text \<open>A small norm is the distance of the coefficient to 0 or to \<open>Q\<close>, whatever the prover chose.\<close>

lemma norm_sound:
  assumes "length row = 3" "cells_ok row" "row_sat norm_check_evaluate row" "row ! 2 < B" "B \<le> Q"
  shows "row ! 0 = row ! 2 \<or> row ! 0 = Q - row ! 2"
proof -
  let ?z = "row ! 0" and ?s = "row ! 1" and ?n = "row ! 2"
  have c: "0 \<le> ?z" "?z < P31" "0 \<le> ?s" "?s < P31" "0 \<le> ?n" "?n < P31" using assms(1,2) cells_ok_nth [of row] by auto
  have s: "(?s * ?s - ?s) mod P31 = 0" "(?n - ?z + ?s * ?z + ?s * ?z - ?s * Q) mod P31 = 0"
    using assms(3) by (simp_all add: row_sat_def norm_check_evaluate_def Let_def)
  have "?s = 0 \<or> ?s = 1" using bool_cell [OF c(3,4) s(1)] .
  then show ?thesis
  proof
    assume "?s = 0"
    then have "(?n - ?z) mod P31 = 0" using s(2) by simp
    then have "?n = ?z" by (rule small_eq) (use c in linarith)+
    then show ?thesis by simp
  next
    assume "?s = 1"
    then have d: "(?n + ?z - Q) mod P31 = 0" using s(2) by (simp add: algebra_simps)
    have "Q < P31" "0 < Q" by (simp_all add: Q_def P31_def)
    then have "?n + ?z = Q" by (intro small_eq [OF d]) (use c assms(4,5) in linarith)+
    then show ?thesis by simp
  qed
qed

lemma centred_small:
  assumes "0 \<le> n" "n < NORM_BOUND"
  shows "\<bar>reduce_centered n\<bar> = n" "\<bar>reduce_centered (Q - n)\<bar> = n"
proof -
  have n: "n < Q" "n mod Q = n" "n \<le> 4190208" using assms by (simp_all add: NORM_BOUND_def Q_def)
  then show "\<bar>reduce_centered n\<bar> = n" using assms by (simp add: reduce_centered_def zq_simps Q_sdiv_2 Let_def)
  have "n \<noteq> 0 \<Longrightarrow> (Q - n) mod Q = Q - n" using assms n by (intro mod_pos_pos_trivial) auto
  then have "(Q - n) mod Q = (if n = 0 then 0 else Q - n)" by simp
  moreover have "n \<noteq> 0 \<Longrightarrow> 4190208 < Q - n" using assms by (simp add: NORM_BOUND_def Q_def)
  ultimately show "\<bar>reduce_centered (Q - n)\<bar> = n" using assms by (simp add: reduce_centered_def zq_simps Q_sdiv_2 Let_def)
qed

text \<open>
  The product constraint alone does not determine the product: modulo \<open>2^31 - 1\<close>,
  \<open>0 * 0 = 2096895 + 256 * Q\<close>, and both numbers are in \<open>[0, Q)\<close>.
\<close>

lemma fake_product:
  "row_sat poly_mul_evaluate ([0, 0, 2096895, 256] @ bit_cells 2096895 @ bit_cells 256)"
  using bit_cells_sat [of 2096895] bit_cells_sat [of 256] cells4 [of 0 0 2096895 256 "bit_cells 2096895" "bit_cells 256"]
  by (auto simp: row_sat_def poly_mul_evaluate_def Let_def Q_def P31_def N_BITS_def)

section \<open>Properties\<close>

text \<open>
  C22. The traces the builders make satisfy their circuits: for polynomials with coefficients in \<open>[0, Q)\<close>
  the product, sum, range, norm and \<open>w'\<close> traces satisfy every constraint on every row, and the outputs
  returned beside them are the coefficientwise products, sums, norms and differences modulo \<open>Q\<close>.
\<close>

theorem arith_circuits_complete:
  assumes "zq_poly a" "zq_poly b" "\<forall>p\<in>set az. zq_poly p" "\<forall>p\<in>set ct1. zq_poly p" "length az = K" "length ct1 = K"
  shows "trace_sat poly_mul_evaluate (fst (poly_mul_build_trace a b)) N
    \<and> snd (poly_mul_build_trace a b) = map (\<lambda>i. a ! i * b ! i mod Q) [0..<N]
    \<and> trace_sat poly_add_evaluate (fst (poly_add_build_trace a b)) N
    \<and> snd (poly_add_build_trace a b) = map (\<lambda>i. (a ! i + b ! i) mod Q) [0..<N]
    \<and> trace_sat range_check_evaluate (fst (range_check_build_trace a)) N \<and> snd (range_check_build_trace a)
    \<and> trace_sat norm_check_evaluate (fst (norm_check_build_trace a)) N
    \<and> snd (norm_check_build_trace a) = map (\<lambda>i. min (a ! i) (Q - a ! i)) [0..<N]
    \<and> trace_sat wprime_evaluate (fst (wprime_build_trace az ct1)) N
    \<and> snd (wprime_build_trace az ct1) = map (\<lambda>i. map (\<lambda>p. (az ! i ! p - ct1 ! i ! p) mod Q) [0..<N]) [0..<K]"
proof -
  have z: "in_zq (a ! i)" "in_zq (b ! i)" if "i < N" for i using assms(1,2) that by (simp_all add: zq_poly_nth N_def)
  have zz: "in_zq (az ! j ! i)" "in_zq (ct1 ! j ! i)" if "i < N" "j < K" for i j
    using assms(3-6) that by (simp_all add: zq_poly_nth N_def)
  have "trace_sat wprime_evaluate (fst (wprime_build_trace az ct1)) N"
    unfolding wprime_build_trace_def fst_conv
  proof (rule trace_sat_map)
    fix p assume p: "p < N"
    have "j < K \<Longrightarrow> length (fst (wprime_cells (az ! j ! p) (ct1 ! j ! p))) = 4 \<and> cells_ok (fst (wprime_cells (az ! j ! p) (ct1 ! j ! p)))
        \<and> row_sat poly_add_evaluate (fst (wprime_cells (az ! j ! p) (ct1 ! j ! p)))" for j
      using wprime_cells_ok [OF zz [OF p]] by blast
    from blocks_ok [of K "\<lambda>j. fst (wprime_cells (az ! j ! p) (ct1 ! j ! p))", OF this]
    show "length (concat (map (\<lambda>i. fst (wprime_cells (az ! i ! p) (ct1 ! i ! p))) [0..<K])) = 4 * K
        \<and> cells_ok (concat (map (\<lambda>i. fst (wprime_cells (az ! i ! p) (ct1 ! i ! p))) [0..<K]))
        \<and> row_sat wprime_evaluate (concat (map (\<lambda>i. fst (wprime_cells (az ! i ! p) (ct1 ! i ! p))) [0..<K]))"
      by (simp add: wprime_blocks [abs_def])
  qed
  moreover have "trace_sat poly_mul_evaluate (fst (poly_mul_build_trace a b)) N"
    unfolding poly_mul_build_trace_def fst_conv by (intro trace_sat_map conjI poly_mul_row_ok z)
  moreover have "trace_sat poly_add_evaluate (fst (poly_add_build_trace a b)) N"
    unfolding poly_add_build_trace_def fst_conv by (intro trace_sat_map conjI poly_add_row_ok z)
  moreover have "trace_sat range_check_evaluate (fst (range_check_build_trace a)) N"
    unfolding range_check_build_trace_def fst_conv by (intro trace_sat_map conjI range_check_row_ok)
  moreover have "trace_sat norm_check_evaluate (fst (norm_check_build_trace a)) N"
    unfolding norm_check_build_trace_def fst_conv by (intro trace_sat_map conjI norm_check_row_ok z)
  moreover have "snd (poly_mul_build_trace a b) = map (\<lambda>i. a ! i * b ! i mod Q) [0..<N]"
    "snd (norm_check_build_trace a) = map (\<lambda>i. min (a ! i) (Q - a ! i)) [0..<N]"
    using z zq_product(1) by (simp_all add: poly_mul_build_trace_def norm_check_build_trace_def sel_norm_min)
  moreover have "snd (poly_add_build_trace a b) = map (\<lambda>i. (a ! i + b ! i) mod Q) [0..<N]"
    unfolding poly_add_build_trace_def snd_conv using poly_add_row_ok(4) [OF z] by simp
  moreover have "snd (range_check_build_trace a)"
    using z(1) by (auto simp: range_check_build_trace_def list_ex_iff in_zq_def not_less not_le)
  moreover have "snd (wprime_build_trace az ct1) = map (\<lambda>i. map (\<lambda>p. (az ! i ! p - ct1 ! i ! p) mod Q) [0..<N]) [0..<K]"
    using wprime_cells_ok(4) [OF zz] by (simp add: wprime_build_trace_def)
  ultimately show ?thesis by blast
qed

lemma zq_poly_replicate: "in_zq v \<Longrightarrow> zq_poly (replicate 256 v)"
  by (simp add: zq_poly_def in_zq_def)

theorem arith_circuits_complete_witness:
  "trace_sat poly_mul_evaluate (fst (poly_mul_build_trace (replicate 256 8380416) (replicate 256 8380416))) N"
  using arith_circuits_complete [of "replicate 256 8380416" "replicate 256 8380416" "replicate 6 (replicate 256 3)" "replicate 6 (replicate 256 5)"]
  by (simp add: zq_poly_replicate in_zq_def Q_def K_def)

lemma batch_traces_complete:
  assumes "\<forall>p\<in>set z. zq_poly p" "length z = L"
  shows "trace_sat range_q_batch_evaluate (fst (range_q_batch_build_trace polys)) N"
    "trace_sat norm_batch_evaluate (fst (norm_batch_build_trace z)) N"
    "\<And>j. j < L \<Longrightarrow> snd (snd (norm_batch_build_trace z)) ! j
       = foldl (\<lambda>m p. max m (min (z ! j ! p) (Q - z ! j ! p))) 0 [0..<N]"
proof -
  show "trace_sat range_q_batch_evaluate (fst (range_q_batch_build_trace polys)) N"
    unfolding range_q_batch_build_trace_def fst_conv range_q_batch_evaluate_def [abs_def]
  proof (rule trace_sat_map)
    fix p show "length (concat (map (\<lambda>j. range_check_row (polys ! j ! p)) [0..<K])) = K * RANGE_COLS
      \<and> cells_ok (concat (map (\<lambda>j. range_check_row (polys ! j ! p)) [0..<K]))
      \<and> row_sat (\<lambda>row. concat (map (\<lambda>j. range_check_evaluate (cells row (j * RANGE_COLS) RANGE_COLS)) [0..<K]))
          (concat (map (\<lambda>j. range_check_row (polys ! j ! p)) [0..<K]))"
      using blocks_ok [of K "\<lambda>j. range_check_row (polys ! j ! p)" RANGE_COLS range_check_evaluate] range_check_row_ok by blast
  qed
  have zz: "in_zq (z ! j ! i)" if "i < N" "j < L" for i j using assms that by (simp add: zq_poly_nth N_def)
  show "trace_sat norm_batch_evaluate (fst (norm_batch_build_trace z)) N"
    unfolding norm_batch_build_trace_def Let_def fst_conv norm_batch_evaluate_def [abs_def]
  proof (rule trace_sat_map)
    fix p assume p: "p < N"
    show "length (concat (map (\<lambda>j. norm_check_row (z ! j ! p)) [0..<L])) = L * 3
      \<and> cells_ok (concat (map (\<lambda>j. norm_check_row (z ! j ! p)) [0..<L]))
      \<and> row_sat (\<lambda>row. concat (map (\<lambda>j. norm_check_evaluate (cells row (j * 3) 3)) [0..<L]))
          (concat (map (\<lambda>j. norm_check_row (z ! j ! p)) [0..<L]))"
      using blocks_ok [of L "\<lambda>j. norm_check_row (z ! j ! p)" 3 norm_check_evaluate] norm_check_row_ok [OF zz [OF p]] by blast
  qed
  fix j assume j: "j < L"
  have "foldl (\<lambda>m p. if snd (sel_norm (z ! j ! p)) > m then snd (sel_norm (z ! j ! p)) else m) m ps
      = foldl (\<lambda>m p. max m (min (z ! j ! p) (Q - z ! j ! p))) m ps" if "\<forall>p\<in>set ps. p < N" for m ps
    using that zz [OF _ j] by (induction ps arbitrary: m) (auto simp: sel_norm_min max_def)
  moreover have "foldl (\<lambda>m p. if map (\<lambda>p. snd (sel_norm (z ! j ! p))) [0..<N] ! p > m
        then map (\<lambda>p. snd (sel_norm (z ! j ! p))) [0..<N] ! p else m) m ps
      = foldl (\<lambda>m p. if snd (sel_norm (z ! j ! p)) > m then snd (sel_norm (z ! j ! p)) else m) m ps" if "\<forall>p\<in>set ps. p < N" for m ps
    using that by (induction ps arbitrary: m) auto
  ultimately show "snd (snd (norm_batch_build_trace z)) ! j
       = foldl (\<lambda>m p. max m (min (z ! j ! p) (Q - z ! j ! p))) 0 [0..<N]"
    using j by (simp add: norm_batch_build_trace_def Let_def cong: if_cong)
qed

text \<open>
  C23. The range circuit is sound: in every row over the base field that satisfies it, each of the \<open>K\<close>
  coefficients lies in \<open>[0, Q)\<close>.
\<close>

theorem range_batch_sound:
  assumes "length row = K * RANGE_COLS" "cells_ok row" "row_sat range_q_batch_evaluate row" "j < K"
  shows "in_zq (row ! (j * RANGE_COLS))"
proof -
  have le: "j * RANGE_COLS + RANGE_COLS \<le> length row"
    using assms(1,4) mult_le_mono1 [of "Suc j" K RANGE_COLS] by simp
  have "row_sat range_check_evaluate (cells row (j * RANGE_COLS) RANGE_COLS)"
    using assms(3,4) by (simp add: range_q_batch_evaluate_def [abs_def] row_sat_concat)
  then have "in_zq (cells row (j * RANGE_COLS) RANGE_COLS ! 0)"
    by (rule range_check_sound [OF length_cells cells_ok_cells [OF assms(2) le]])
  then show ?thesis by (simp add: cells_def RANGE_COLS_def)
qed

theorem range_batch_sound_witness:
  "in_zq (concat (map (\<lambda>j. range_check_row (int j)) [0..<K]) ! (5 * RANGE_COLS))"
proof (rule range_batch_sound)
  note b = blocks_ok [of K "\<lambda>j. range_check_row (int j)" RANGE_COLS range_check_evaluate, OF conjI [OF range_check_row_ok(1) conjI [OF range_check_row_ok(2,3)]]]
  show "length (concat (map (\<lambda>j. range_check_row (int j)) [0..<K])) = K * RANGE_COLS"
    "cells_ok (concat (map (\<lambda>j. range_check_row (int j)) [0..<K]))" by (rule b)+
  show "row_sat range_q_batch_evaluate (concat (map (\<lambda>j. range_check_row (int j)) [0..<K]))"
    unfolding range_q_batch_evaluate_def [abs_def] by (rule b(3))
qed (simp add: K_def)

text \<open>
  The norm circuit is sound for the bound: the prover chooses the selector and the coefficient may be
  any field element, yet a row that satisfies the circuit with a norm below \<open>gamma1 - beta\<close> holds a
  coefficient closer to 0 modulo \<open>Q\<close> than that bound.
\<close>

lemma norm_batch_sound:
  assumes "length row = L * 3" "cells_ok row" "row_sat norm_batch_evaluate row" "j < L" "row ! (j * 3 + 2) < NORM_BOUND"
  shows "\<bar>reduce_centered (row ! (j * 3))\<bar> = row ! (j * 3 + 2)"
proof -
  let ?b = "cells row (j * 3) 3"
  have le: "j * 3 + 3 \<le> length row" using assms(1,4) by simp
  have b: "?b ! 0 = row ! (j * 3)" "?b ! 2 = row ! (j * 3 + 2)" by (simp_all add: cells_def)
  have "row_sat norm_check_evaluate ?b"
    using assms(3,4) by (simp add: norm_batch_evaluate_def [abs_def] row_sat_concat)
  then have z: "row ! (j * 3) = row ! (j * 3 + 2) \<or> row ! (j * 3) = Q - row ! (j * 3 + 2)"
    using norm_sound [OF length_cells cells_ok_cells [OF assms(2) le], of NORM_BOUND] assms(5)
    unfolding b by (simp add: NORM_BOUND_def Q_def)
  have "0 \<le> row ! (j * 3 + 2)" using cells_ok_nth [OF assms(2), of "j * 3 + 2"] le by simp
  with z assms(5) centred_small show ?thesis by auto
qed

text \<open>
  The sum circuit, and with it the circuit of \<open>w'\<close>, is sound for operands and results in \<open>[0, Q)\<close>;
  without the range of the result it is not: \<open>0 + 0 = P - Q\<close> with carry 1 satisfies it.
\<close>

lemma add_circuit_sound:
  "(\<forall>row. length row = 4 \<and> cells_ok row \<and> row_sat poly_add_evaluate row \<and> in_zq (row ! 0) \<and> in_zq (row ! 1) \<and> in_zq (row ! 2)
      \<longrightarrow> row ! 2 = (row ! 0 + row ! 1) mod Q)
   \<and> row_sat poly_add_evaluate [0, 0, P31 - Q, 1] \<and> cells_ok [0, 0, P31 - Q, 1]"
proof (intro conjI allI impI)
  show "row_sat poly_add_evaluate [0, 0, P31 - Q, 1]" "cells_ok [0, 0, P31 - Q, 1]"
    by (simp_all add: row_sat_def poly_add_evaluate_def P31_def Q_def)
qed (elim conjE, rule add_sound)

text \<open>
  The product circuit is not sound: there is a row whose cells are all in \<open>[0, Q)\<close>, bits included, that
  satisfies every constraint and claims \<open>0 * 0 = 2096895\<close>. Its prover needs no luck: the row is a constant.
\<close>

lemma mul_circuit_accepts_wrong_product:
  "\<exists>row. length row = 4 + 2 * N_BITS \<and> row_sat poly_mul_evaluate row \<and> list_all in_zq row
     \<and> row ! 2 \<noteq> row ! 0 * row ! 1 mod Q"
proof (intro exI conjI)
  let ?row = "[0, 0, 2096895, 256] @ bit_cells 2096895 @ bit_cells 256"
  show "length ?row = 4 + 2 * N_BITS" by simp
  show "row_sat poly_mul_evaluate ?row" by (rule fake_product)
  have "x = 0 \<or> x = 1" if "x \<in> set (bit_cells 2096895) \<union> set (bit_cells 256)" for x
    using that bit_loop_bits [of x 23] by (auto simp: bit_cells_loop N_BITS_def)
  then have "\<forall>x\<in>set (bit_cells 2096895) \<union> set (bit_cells 256). in_zq x" by (fastforce simp: in_zq_def Q_def)
  then show "list_all in_zq ?row" by (auto simp: list_all_iff in_zq_def Q_def)
  show "?row ! 2 \<noteq> ?row ! 0 * ?row ! 1 mod Q" by simp
qed

end
