(* ===== verification/Circuit_Matrix.thy ===== *)
theory Circuit_Matrix
  imports Circuit_Arith MLDSA_PolyVec
begin

text \<open>
  The circuits of the products in the NTT domain: a row of \<open>A z\<close> (\<open>mldsa_az_air.rs\<close>), all its \<open>K\<close> rows
  (\<open>mldsa_az_full_air.rs\<close>) and \<open>c t1\<close> (\<open>mldsa_ct1_full_air.rs\<close>): constraints, trace builders, and what
  honest traces compute.
\<close>

section \<open>The constraints of a row of the product\<close>

text \<open>
  \<open>L\<close> products with their carries, the running sums with theirs, and the bits of products and product
  carries. Both circuits add these constraints in this order.
\<close>

definition decomposition_constraints :: "'f::comm_ring_1 list \<Rightarrow> (nat \<Rightarrow> 'f list) \<Rightarrow> 'f list" where
  "decomposition_constraints v bits = concat (map (\<lambda>j. (v ! j - bit_sum (bits j)) # bool_constraints (bits j)) [0..<L])"

definition az_constraints ::
  "'f::comm_ring_1 list \<Rightarrow> 'f list \<Rightarrow> 'f list \<Rightarrow> 'f list \<Rightarrow> 'f list \<Rightarrow> 'f list \<Rightarrow> (nat \<Rightarrow> 'f list) \<Rightarrow> (nat \<Rightarrow> 'f list) \<Rightarrow> 'f list" where
  "az_constraints a z t ct s cs t_bits ct_bits =
     map (\<lambda>j. a ! j * z ! j - t ! j - ct ! j * of_int Q) [0..<L]
     @ [t ! 0 + t ! 1 - s ! 0 - cs ! 0 * of_int Q, cs ! 0 * cs ! 0 - cs ! 0,
        s ! 0 + t ! 2 - s ! 1 - cs ! 1 * of_int Q, cs ! 1 * cs ! 1 - cs ! 1,
        s ! 1 + t ! 3 - s ! 2 - cs ! 2 * of_int Q, cs ! 2 * cs ! 2 - cs ! 2,
        s ! 2 + t ! 4 - s ! 3 - cs ! 3 * of_int Q, cs ! 3 * cs ! 3 - cs ! 3]
     @ decomposition_constraints t t_bits @ decomposition_constraints ct ct_bits"

definition az_row_evaluate :: "'f::comm_ring_1 list \<Rightarrow> 'f list" where
  "az_row_evaluate row =
     az_constraints (cells row 0 5) (cells row 5 5) (cells row 10 5) (cells row 15 5) (cells row 20 4) (cells row 24 4)
       (\<lambda>j. cells row (28 + j * N_BITS) N_BITS) (\<lambda>j. cells row (28 + 5 * N_BITS + j * N_BITS) N_BITS)"

definition AZ_COLS_PER_ROW :: nat where "AZ_COLS_PER_ROW = 23 + 2 * L * N_BITS"

text \<open>The full circuit reads \<open>z\<close> once, then the block of every row.\<close>

definition az_block_evaluate :: "'f::comm_ring_1 list \<Rightarrow> 'f list \<Rightarrow> 'f list" where
  "az_block_evaluate z blk =
     az_constraints (cells blk 0 5) z (cells blk 5 5) (cells blk 10 5) (cells blk 15 4) (cells blk 19 4)
       (\<lambda>j. cells blk (23 + j * N_BITS) N_BITS) (\<lambda>j. cells blk (23 + 5 * N_BITS + j * N_BITS) N_BITS)"

definition az_full_evaluate :: "'f::comm_ring_1 list \<Rightarrow> 'f list" where
  "az_full_evaluate row =
     concat (map (\<lambda>i. az_block_evaluate (cells row 0 L) (cells row (L + i * AZ_COLS_PER_ROW) AZ_COLS_PER_ROW)) [0..<K])"

section \<open>The trace of a row of the product\<close>

record AzValues =
  tv :: "i64 list"
  ctv :: "i64 list"
  sv :: "i64 list"
  csv :: "i64 list"

definition az_values :: "i64 list \<Rightarrow> i64 list \<Rightarrow> AzValues" where
  "az_values av zv =
     (let t = map (\<lambda>j. (av ! j * zv ! j) smod Q) [0..<L];
          ct = map (\<lambda>j. (av ! j * zv ! j) sdiv Q) [0..<L];
          red = (\<lambda>r. r - (if r \<ge> Q then Q else 0));
          sv0 = red (t ! 0 + t ! 1);
          sv1 = red (sv0 + t ! 2);
          sv2 = red (sv1 + t ! 3);
          sv3 = red (sv2 + t ! 4)
      in \<lparr>tv = t, ctv = ct, sv = [sv0, sv1, sv2, sv3],
          csv = [if t ! 0 + t ! 1 \<ge> Q then 1 else 0, if sv0 + t ! 2 \<ge> Q then 1 else 0,
                 if sv1 + t ! 3 \<ge> Q then 1 else 0, if sv2 + t ! 4 \<ge> Q then 1 else 0]\<rparr>)"

definition az_row_cells :: "i64 list \<Rightarrow> i64 list \<Rightarrow> int list" where
  "az_row_cells av zv =
     (let v = az_values av zv
      in map bf av @ map bf zv @ map bf (tv v) @ map bf (ctv v) @ map bf (sv v) @ map bf (csv v)
         @ concat (map (\<lambda>j. bit_cells (tv v ! j)) [0..<L]) @ concat (map (\<lambda>j. bit_cells (ctv v ! j)) [0..<L]))"

definition az_row_build_trace :: "i64 list list \<Rightarrow> i64 list list \<Rightarrow> int list list \<times> i64 list" where
  "az_row_build_trace a_row z_hat =
     (let a_at = (\<lambda>p. map (\<lambda>j. a_row ! j ! p) [0..<L]); z_at = (\<lambda>p. map (\<lambda>j. z_hat ! j ! p) [0..<L])
      in (columns (28 + 10 * N_BITS) (map (\<lambda>p. az_row_cells (a_at p) (z_at p)) [0..<N]),
          map (\<lambda>p. sv (az_values (a_at p) (z_at p)) ! 3) [0..<N]))"

definition az_block_cells :: "i64 list \<Rightarrow> i64 list \<Rightarrow> int list" where
  "az_block_cells av zv =
     (let v = az_values av zv
      in map bf av @ map bf (tv v) @ map bf (ctv v) @ map bf (sv v) @ map bf (csv v)
         @ concat (map (\<lambda>j. bit_cells (tv v ! j)) [0..<L]) @ concat (map (\<lambda>j. bit_cells (ctv v ! j)) [0..<L]))"

text \<open>\<open>a_hat\<close> holds the \<open>K * L\<close> polynomials row by row; the builder asserts their number.\<close>

definition az_full_build_trace :: "i64 list list \<Rightarrow> i64 list list \<Rightarrow> (int list list \<times> i64 list list) option" where
  "az_full_build_trace a_hat z_hat =
     (if length a_hat \<noteq> K * L then None
      else let a_at = (\<lambda>i p. map (\<lambda>j. a_hat ! (i * L + j) ! p) [0..<L]); z_at = (\<lambda>p. map (\<lambda>j. z_hat ! j ! p) [0..<L])
           in Some (columns (L + K * AZ_COLS_PER_ROW)
                      (map (\<lambda>p. map bf (z_at p) @ concat (map (\<lambda>i. az_block_cells (a_at i p) (z_at p)) [0..<K])) [0..<N]),
                    map (\<lambda>i. map (\<lambda>p. sv (az_values (a_at i p) (z_at p)) ! 3) [0..<N]) [0..<K]))"

section \<open>The challenge product\<close>

definition CT1_COLS_PER_ROW :: nat where "CT1_COLS_PER_ROW = 3 + 2 * N_BITS"

definition ct1_block_evaluate :: "'f::comm_ring_1 \<Rightarrow> 'f list \<Rightarrow> 'f list" where
  "ct1_block_evaluate c_hat blk =
     (let t1 = blk ! 0; ct1 = blk ! 1; carry = blk ! 2;
          ct1_bits = cells blk 3 N_BITS; carry_bits = cells blk (3 + N_BITS) N_BITS
      in [c_hat * t1 - ct1 - carry * of_int Q]
         @ [ct1 - bit_sum ct1_bits] @ bool_constraints ct1_bits
         @ [carry - bit_sum carry_bits] @ bool_constraints carry_bits)"

definition ct1_full_evaluate :: "'f::comm_ring_1 list \<Rightarrow> 'f list" where
  "ct1_full_evaluate row =
     concat (map (\<lambda>i. ct1_block_evaluate (row ! 0) (cells row (1 + i * CT1_COLS_PER_ROW) CT1_COLS_PER_ROW)) [0..<K])"

definition ct1_block_cells :: "i64 \<Rightarrow> i64 \<Rightarrow> int list" where
  "ct1_block_cells cv t =
     (let raw = cv * t; r = raw mod Q; cr = raw div Q
      in [bf t, bf r, bf cr] @ bit_cells r @ bit_cells cr)"

definition ct1_full_build_trace :: "i64 list \<Rightarrow> i64 list list \<Rightarrow> int list list \<times> i64 list list" where
  "ct1_full_build_trace c_hat t1_hat =
     (columns (1 + K * CT1_COLS_PER_ROW)
        (map (\<lambda>p. [bf (c_hat ! p)] @ concat (map (\<lambda>i. ct1_block_cells (c_hat ! p) (t1_hat ! i ! p)) [0..<K])) [0..<N]),
      map (\<lambda>i. map (\<lambda>p. (c_hat ! p * t1_hat ! i ! p) mod Q) [0..<N]) [0..<K])"

section \<open>Honest rows\<close>

lemma add_step:
  assumes "in_zq a" "in_zq b"
  shows "in_zq (a + b - (if Q \<le> a + b then Q else 0))" "a + b - (if Q \<le> a + b then Q else 0) = (a + b) mod Q"
    "a + b - (a + b - (if Q \<le> a + b then Q else 0)) - (if Q \<le> a + b then 1 else 0) * Q = 0"
proof -
  show e: "a + b - (if Q \<le> a + b then Q else 0) = (a + b) mod Q"
    using field_add_mod [OF assms] by (simp add: field_add_def Let_def split: if_splits)
  show "in_zq (a + b - (if Q \<le> a + b then Q else 0))" unfolding e by simp
qed simp

lemma az_values_ok:
  assumes "length av = L" "length zv = L" "\<forall>x\<in>set av. in_zq x" "\<forall>x\<in>set zv. in_zq x"
  shows "length (tv (az_values av zv)) = 5" "length (ctv (az_values av zv)) = 5"
    "length (sv (az_values av zv)) = 4" "length (csv (az_values av zv)) = 4"
    "\<forall>x\<in>set (tv (az_values av zv)) \<union> set (ctv (az_values av zv)) \<union> set (sv (az_values av zv)). in_zq x"
    "\<forall>x\<in>set (csv (az_values av zv)). x = 0 \<or> x = 1"
    "\<And>j. j < 5 \<Longrightarrow> av ! j * zv ! j - tv (az_values av zv) ! j - ctv (az_values av zv) ! j * Q = 0"
    "\<forall>c\<in>set [tv (az_values av zv) ! 0 + tv (az_values av zv) ! 1 - sv (az_values av zv) ! 0 - csv (az_values av zv) ! 0 * Q,
       sv (az_values av zv) ! 0 + tv (az_values av zv) ! 2 - sv (az_values av zv) ! 1 - csv (az_values av zv) ! 1 * Q,
       sv (az_values av zv) ! 1 + tv (az_values av zv) ! 3 - sv (az_values av zv) ! 2 - csv (az_values av zv) ! 2 * Q,
       sv (az_values av zv) ! 2 + tv (az_values av zv) ! 4 - sv (az_values av zv) ! 3 - csv (az_values av zv) ! 3 * Q]. c = 0"
    "sv (az_values av zv) ! 3 = (\<Sum>j<L. av ! j * zv ! j) mod Q"
proof -
  define t where "t j = av ! j * zv ! j mod Q" for j
  have z: "in_zq (av ! j)" "in_zq (zv ! j)" if "j < 5" for j using assms that by (simp_all add: L_def)
  have t: "(av ! j * zv ! j) smod Q = t j" "(av ! j * zv ! j) sdiv Q = av ! j * zv ! j div Q" "in_zq (t j)" "in_zq (av ! j * zv ! j div Q)"
    if "j < 5" for j
    using zq_product [OF z [OF that]] by (simp_all add: t_def in_zq_def [of "_ div _"])
  define red where "red r = r - (if r \<ge> Q then Q else 0)" for r
  define s0 where "s0 = red (t 0 + t 1)"
  define s1 where "s1 = red (s0 + t 2)"
  define s2 where "s2 = red (s1 + t 3)"
  define s3 where "s3 = red (s2 + t 4)"
  define carry where "carry a b = (if a + b \<ge> Q then 1 else 0 :: int)" for a b
  have L5: "[0..<L] = [0, 1, 2, 3, 4]" by (simp add: L_def upt_conv_Cons)
  have v: "az_values av zv = \<lparr>tv = [t 0, t 1, t 2, t 3, t 4],
      ctv = [av ! 0 * zv ! 0 div Q, av ! 1 * zv ! 1 div Q, av ! 2 * zv ! 2 div Q, av ! 3 * zv ! 3 div Q, av ! 4 * zv ! 4 div Q],
      sv = [s0, s1, s2, s3], csv = [carry (t 0) (t 1), carry s0 (t 2), carry s1 (t 3), carry s2 (t 4)]\<rparr>"
    using t(1,2) unfolding az_values_def L5 by (simp add: Let_def red_def s0_def s1_def s2_def s3_def carry_def)
  have r1: "in_zq (red (a + b))" and r2: "red (a + b) = (a + b) mod Q" and r3: "a + b - red (a + b) - carry a b * Q = 0"
    if "in_zq a" "in_zq b" for a b
    using add_step [OF that] by (simp_all add: red_def carry_def)
  have s: "in_zq s0" "in_zq s1" "in_zq s2" "in_zq s3"
    unfolding s0_def s1_def s2_def s3_def by (intro r1 t(3); simp)+
  have e: "s0 = (t 0 + t 1) mod Q" "s1 = (s0 + t 2) mod Q" "s2 = (s1 + t 3) mod Q" "s3 = (s2 + t 4) mod Q"
    using r2 [OF t(3) t(3), of 0 1, folded s0_def] r2 [OF s(1) t(3), of 2, folded s1_def]
      r2 [OF s(2) t(3), of 3, folded s2_def] r2 [OF s(3) t(3), of 4, folded s3_def] by simp_all
  have "s3 = (t 0 + t 1 + t 2 + t 3 + t 4) mod Q"
    unfolding e(4) unfolding e(3) unfolding e(2) unfolding e(1) by (simp only: mod_add_left_eq)
  also have "\<dots> = (\<Sum>j<L. av ! j * zv ! j) mod Q"
  proof -
    have "(\<Sum>j<L. t j) = t 0 + t 1 + t 2 + t 3 + t 4" by (simp add: L_def eval_nat_numeral)
    then show ?thesis using mod_sum_eq [of "\<lambda>j. av ! j * zv ! j" Q "{..<L}"] by (simp add: t_def)
  qed
  finally show "sv (az_values av zv) ! 3 = (\<Sum>j<L. av ! j * zv ! j) mod Q" by (simp add: v)
  show "length (tv (az_values av zv)) = 5" "length (ctv (az_values av zv)) = 5"
    "length (sv (az_values av zv)) = 4" "length (csv (az_values av zv)) = 4" by (simp_all add: v)
  show "\<forall>x\<in>set (tv (az_values av zv)) \<union> set (ctv (az_values av zv)) \<union> set (sv (az_values av zv)). in_zq x"
    using t(3,4) s by (simp add: v)
  show "\<forall>x\<in>set (csv (az_values av zv)). x = 0 \<or> x = 1" by (simp add: v carry_def)
  show "av ! j * zv ! j - tv (az_values av zv) ! j - ctv (az_values av zv) ! j * Q = 0" if "j < 5" for j
  proof -
    have "j = 0 \<or> j = 1 \<or> j = 2 \<or> j = 3 \<or> j = 4" using that by linarith
    then show ?thesis by (auto simp: v t_def minus_div_mult_eq_mod [symmetric])
  qed
  show "\<forall>c\<in>set [tv (az_values av zv) ! 0 + tv (az_values av zv) ! 1 - sv (az_values av zv) ! 0 - csv (az_values av zv) ! 0 * Q,
       sv (az_values av zv) ! 0 + tv (az_values av zv) ! 2 - sv (az_values av zv) ! 1 - csv (az_values av zv) ! 1 * Q,
       sv (az_values av zv) ! 1 + tv (az_values av zv) ! 3 - sv (az_values av zv) ! 2 - csv (az_values av zv) ! 2 * Q,
       sv (az_values av zv) ! 2 + tv (az_values av zv) ! 4 - sv (az_values av zv) ! 3 - csv (az_values av zv) ! 3 * Q]. c = 0"
  proof -
    have "t 0 + t 1 - s0 - carry (t 0) (t 1) * Q = 0" "s0 + t 2 - s1 - carry s0 (t 2) * Q = 0"
      "s1 + t 3 - s2 - carry s1 (t 3) * Q = 0" "s2 + t 4 - s3 - carry s2 (t 4) * Q = 0"
      using r3 [OF t(3) t(3), of 0 1, folded s0_def] r3 [OF s(1) t(3), of 2, folded s1_def]
        r3 [OF s(2) t(3), of 3, folded s2_def] r3 [OF s(3) t(3), of 4, folded s3_def] by simp_all
    then show ?thesis by (simp add: v)
  qed
qed

text \<open>Bits of \<open>L\<close> values after a prefix.\<close>

lemma cells_bits:
  assumes "length pre = a" "j < L"
  shows "cells (pre @ concat (map (\<lambda>j. bit_cells (f j)) [0..<L]) @ rest) (a + j * N_BITS) N_BITS = bit_cells (f j)"
proof -
  have "Suc j * N_BITS \<le> L * N_BITS" using assms(2) by (intro mult_le_mono1) simp
  then have le: "j * N_BITS + N_BITS \<le> length (concat (map (\<lambda>j. bit_cells (f j)) [0..<L]))"
    using length_concat_upt [of L "\<lambda>j. bit_cells (f j)" N_BITS] by simp
  have "cells (pre @ concat (map (\<lambda>j. bit_cells (f j)) [0..<L]) @ rest) (length pre + j * N_BITS) N_BITS
      = cells (concat (map (\<lambda>j. bit_cells (f j)) [0..<L])) (j * N_BITS) N_BITS"
    unfolding cells_skip by (rule cells_prefix [OF le])
  also have "\<dots> = bit_cells (f j)" by (rule cells_concat [OF assms(2)]) simp
  finally show ?thesis using assms(1) by simp
qed

lemma decomposition_sat:
  assumes "\<And>j. j < L \<Longrightarrow> in_zq (v ! j)" "\<And>j. j < L \<Longrightarrow> bits j = bit_cells (v ! j)" "c \<in> set (decomposition_constraints v bits)"
  shows "c mod P31 = 0"
proof -
  from assms(3) obtain j where j: "j < L" "c = v ! j - bit_sum (bits j) \<or> c \<in> set (bool_constraints (bits j))"
    by (auto simp: decomposition_constraints_def)
  have "0 \<le> v ! j" "v ! j < 2 ^ 23" using zq_cell(3) [OF assms(1) [OF j(1)]] by simp_all
  note b = bit_cells_sat [OF this]
  show ?thesis using j(2) b by (auto simp: assms(2) [OF j(1)])
qed

lemma az_constraints_sat:
  assumes ok: "length av = L" "length zv = L" "\<forall>x\<in>set av. in_zq x" "\<forall>x\<in>set zv. in_zq x"
    and v: "v = az_values av zv"
    and tb: "\<And>j. j < L \<Longrightarrow> tb j = bit_cells (tv v ! j)" and cb: "\<And>j. j < L \<Longrightarrow> cb j = bit_cells (ctv v ! j)"
  shows "\<forall>c\<in>set (az_constraints av zv (tv v) (ctv v) (sv v) (csv v) tb cb). c mod P31 = 0"
proof -
  note a = az_values_ok [OF ok, folded v]
  have t: "in_zq (tv v ! j)" "in_zq (ctv v ! j)" if "j < L" for j using that a(1,2,5) by (simp_all add: L_def)
  have d: "\<forall>c\<in>set (decomposition_constraints (tv v) tb). c mod P31 = 0" "\<forall>c\<in>set (decomposition_constraints (ctv v) cb). c mod P31 = 0"
    using decomposition_sat [OF t(1) tb] decomposition_sat [OF t(2) cb] by blast+
  have p: "\<forall>c\<in>set (map (\<lambda>j. av ! j * zv ! j - tv v ! j - ctv v ! j * of_int Q) [0..<L]). c mod P31 = 0"
    using a(7) by (simp add: L_def)
  have k: "(csv v ! i * csv v ! i - csv v ! i) mod P31 = 0" if "i < 4" for i
  proof -
    have "csv v ! i = 0 \<or> csv v ! i = 1" using a(4,6) that by simp
    then show ?thesis by auto
  qed
  show ?thesis
    unfolding az_constraints_def set_append using d p k [of 0] k [of 1] k [of 2] k [of 3] a(8) by (simp add: ball_Un)
qed

lemma bf_map: "\<forall>x\<in>set xs. 0 \<le> x \<and> x < P31 \<Longrightarrow> map bf xs = xs"
  by (simp add: bf_small map_idI)

lemma zq_cells: "\<forall>x\<in>set xs. in_zq x \<Longrightarrow> map bf xs = xs \<and> cells_ok xs"
  using zq_cell(2) by (auto simp: bf_map cells_ok_def)

lemma bool_map: "\<forall>x\<in>set xs. x = 0 \<or> x = 1 \<Longrightarrow> map bf xs = xs \<and> cells_ok xs" for xs :: "int list"
proof -
  assume a: "\<forall>x\<in>set xs. x = 0 \<or> x = 1"
  have "0 \<le> x \<and> x < P31" if "x = 0 \<or> x = 1" for x using that P31_pos(3) by auto
  with a show ?thesis by (auto simp: bf_map cells_ok_def)
qed

lemma bits_block:
  assumes "\<forall>x\<in>set v. in_zq x" "length v = L"
  shows "cells_ok (concat (map (\<lambda>j. bit_cells (v ! j)) [0..<L]))"
    "length (concat (map (\<lambda>j. bit_cells (v ! j)) [0..<L])) = L * N_BITS"
proof -
  have "cells_ok (bit_cells (v ! j))" if "j < L" for j
    using that assms zq_cell(3) [of "v ! j"] by (intro bit_cells_sat(2)) simp_all
  then show "cells_ok (concat (map (\<lambda>j. bit_cells (v ! j)) [0..<L]))" by (rule cells_ok_concat)
  show "length (concat (map (\<lambda>j. bit_cells (v ! j)) [0..<L])) = L * N_BITS" by (rule length_concat_upt) simp
qed

lemma az_block_ok:
  assumes ok: "length av = L" "length zv = L" "\<forall>x\<in>set av. in_zq x" "\<forall>x\<in>set zv. in_zq x"
  shows "length (az_block_cells av zv) = AZ_COLS_PER_ROW" "cells_ok (az_block_cells av zv)"
    "\<forall>c\<in>set (az_block_evaluate zv (az_block_cells av zv)). c mod P31 = 0"
proof -
  define v where "v = az_values av zv"
  note a = az_values_ok [OF ok, folded v_def]
  let ?tb = "concat (map (\<lambda>j. bit_cells (tv v ! j)) [0..<L])" and ?cb = "concat (map (\<lambda>j. bit_cells (ctv v ! j)) [0..<L])"
  have zq: "\<forall>x\<in>set (tv v). in_zq x" "\<forall>x\<in>set (ctv v). in_zq x" "\<forall>x\<in>set (sv v). in_zq x" using a(5) by blast+
  note m = zq_cells [OF ok(3)] zq_cells [OF zq(1)] zq_cells [OF zq(2)] zq_cells [OF zq(3)] bool_map [OF a(6)]
  have l5: "length (tv v) = L" "length (ctv v) = L" using a(1,2) by (simp_all add: L_def)
  note b = bits_block [OF zq(1) l5(1)] bits_block [OF zq(2) l5(2)]
  have r: "az_block_cells av zv = av @ tv v @ ctv v @ sv v @ csv v @ ?tb @ ?cb"
    using m by (simp add: az_block_cells_def v_def [symmetric] Let_def)
  show l: "length (az_block_cells av zv) = AZ_COLS_PER_ROW"
    using a(1-4) ok(1) b by (simp add: r AZ_COLS_PER_ROW_def L_def)
  show "cells_ok (az_block_cells av zv)" using m b by (simp add: r)
  let ?pre = "av @ tv v @ ctv v @ sv v @ csv v"
  have "length ?pre = 23" "length (?pre @ ?tb) = 23 + 5 * N_BITS" using a(1-4) ok(1) b(2) by (simp_all add: L_def)
  then have bits: "\<And>j. j < L \<Longrightarrow> cells (az_block_cells av zv) (23 + j * N_BITS) N_BITS = bit_cells (tv v ! j)"
    "\<And>j. j < L \<Longrightarrow> cells (az_block_cells av zv) (23 + 5 * N_BITS + j * N_BITS) N_BITS = bit_cells (ctv v ! j)"
    using cells_bits [of ?pre 23 _ "\<lambda>j. tv v ! j" ?cb] cells_bits [of "?pre @ ?tb" "23 + 5 * N_BITS" _ "\<lambda>j. ctv v ! j" "[]"]
    by (simp_all add: r)
  have c: "cells (az_block_cells av zv) 0 5 = av" "cells (az_block_cells av zv) 5 5 = tv v" "cells (az_block_cells av zv) 10 5 = ctv v"
    "cells (az_block_cells av zv) 15 4 = sv v" "cells (az_block_cells av zv) 19 4 = csv v"
    using a(1-4) ok(1) l by (simp_all add: cells_take AZ_COLS_PER_ROW_def L_def N_BITS_def) (simp_all add: r L_def)
  show "\<forall>c\<in>set (az_block_evaluate zv (az_block_cells av zv)). c mod P31 = 0"
    unfolding az_block_evaluate_def c by (rule az_constraints_sat [OF ok v_def bits])
qed

lemma az_row_ok:
  assumes ok: "length av = L" "length zv = L" "\<forall>x\<in>set av. in_zq x" "\<forall>x\<in>set zv. in_zq x"
  shows "length (az_row_cells av zv) = 28 + 10 * N_BITS" "cells_ok (az_row_cells av zv)" "row_sat az_row_evaluate (az_row_cells av zv)"
proof -
  define v where "v = az_values av zv"
  note a = az_values_ok [OF ok, folded v_def]
  let ?tb = "concat (map (\<lambda>j. bit_cells (tv v ! j)) [0..<L])" and ?cb = "concat (map (\<lambda>j. bit_cells (ctv v ! j)) [0..<L])"
  have zq: "\<forall>x\<in>set (tv v). in_zq x" "\<forall>x\<in>set (ctv v). in_zq x" "\<forall>x\<in>set (sv v). in_zq x" using a(5) by blast+
  note m = zq_cells [OF ok(3)] zq_cells [OF ok(4)] zq_cells [OF zq(1)] zq_cells [OF zq(2)] zq_cells [OF zq(3)] bool_map [OF a(6)]
  have l5: "length (tv v) = L" "length (ctv v) = L" using a(1,2) by (simp_all add: L_def)
  note b = bits_block [OF zq(1) l5(1)] bits_block [OF zq(2) l5(2)]
  have r: "az_row_cells av zv = av @ zv @ tv v @ ctv v @ sv v @ csv v @ ?tb @ ?cb"
    using m by (simp add: az_row_cells_def v_def [symmetric] Let_def)
  show l: "length (az_row_cells av zv) = 28 + 10 * N_BITS"
    using a(1-4) ok(1,2) b by (simp add: r L_def)
  show "cells_ok (az_row_cells av zv)" using m b by (simp add: r)
  let ?pre = "av @ zv @ tv v @ ctv v @ sv v @ csv v"
  have "length ?pre = 28" "length (?pre @ ?tb) = 28 + 5 * N_BITS" using a(1-4) ok(1,2) b(2) by (simp_all add: L_def)
  then have bits: "\<And>j. j < L \<Longrightarrow> cells (az_row_cells av zv) (28 + j * N_BITS) N_BITS = bit_cells (tv v ! j)"
    "\<And>j. j < L \<Longrightarrow> cells (az_row_cells av zv) (28 + 5 * N_BITS + j * N_BITS) N_BITS = bit_cells (ctv v ! j)"
    using cells_bits [of ?pre 28 _ "\<lambda>j. tv v ! j" ?cb] cells_bits [of "?pre @ ?tb" "28 + 5 * N_BITS" _ "\<lambda>j. ctv v ! j" "[]"]
    by (simp_all add: r)
  have c: "cells (az_row_cells av zv) 0 5 = av" "cells (az_row_cells av zv) 5 5 = zv" "cells (az_row_cells av zv) 10 5 = tv v"
    "cells (az_row_cells av zv) 15 5 = ctv v" "cells (az_row_cells av zv) 20 4 = sv v" "cells (az_row_cells av zv) 24 4 = csv v"
    using a(1-4) ok(1,2) l by (simp_all add: cells_take L_def N_BITS_def) (simp_all add: r L_def)
  show "row_sat az_row_evaluate (az_row_cells av zv)"
    unfolding row_sat_def az_row_evaluate_def c by (rule az_constraints_sat [OF ok v_def bits])
qed

lemma az_full_row_ok:
  assumes "length zv = L" "\<forall>x\<in>set zv. in_zq x" "\<And>i. i < K \<Longrightarrow> length (av i) = L \<and> (\<forall>x\<in>set (av i). in_zq x)"
  shows "length (map bf zv @ concat (map (\<lambda>i. az_block_cells (av i) zv) [0..<K])) = L + K * AZ_COLS_PER_ROW"
    "cells_ok (map bf zv @ concat (map (\<lambda>i. az_block_cells (av i) zv) [0..<K]))"
    "row_sat az_full_evaluate (map bf zv @ concat (map (\<lambda>i. az_block_cells (av i) zv) [0..<K]))"
proof -
  let ?f = "\<lambda>i. az_block_cells (av i) zv"
  note z = zq_cells [OF assms(2)]
  have b: "length (?f i) = AZ_COLS_PER_ROW" "cells_ok (?f i)" "\<forall>c\<in>set (az_block_evaluate zv (?f i)). c mod P31 = 0" if "i < K" for i
    using az_block_ok [of "av i" zv] assms that by simp_all
  have l: "length (concat (map ?f [0..<K])) = K * AZ_COLS_PER_ROW" using b(1) by (rule length_concat_upt)
  show "length (map bf zv @ concat (map ?f [0..<K])) = L + K * AZ_COLS_PER_ROW" using l assms(1) by simp
  show "cells_ok (map bf zv @ concat (map ?f [0..<K]))" using z cells_ok_concat [of K ?f] b(2) by simp
  have "cells (map bf zv @ concat (map ?f [0..<K])) 0 L = zv"
    using z assms(1) by (simp add: cells_take)
  moreover have "cells (map bf zv @ concat (map ?f [0..<K])) (L + i * AZ_COLS_PER_ROW) AZ_COLS_PER_ROW = ?f i" if "i < K" for i
    using cells_skip [of "map bf zv" "concat (map ?f [0..<K])" "i * AZ_COLS_PER_ROW" AZ_COLS_PER_ROW]
      cells_concat [of i K ?f AZ_COLS_PER_ROW] that b(1) assms(1) by simp
  ultimately show "row_sat az_full_evaluate (map bf zv @ concat (map ?f [0..<K]))"
    using b(3) by (auto simp: row_sat_def az_full_evaluate_def)
qed

lemma ct1_block_ok:
  assumes "in_zq cv" "in_zq t"
  shows "length (ct1_block_cells cv t) = CT1_COLS_PER_ROW" "cells_ok (ct1_block_cells cv t)"
    "\<forall>c\<in>set (ct1_block_evaluate cv (ct1_block_cells cv t)). c mod P31 = 0"
proof -
  define r where "r = cv * t mod Q"
  define cr where "cr = cv * t div Q"
  have z: "in_zq r" "in_zq cr" using zq_product [OF assms] by (simp_all add: r_def cr_def in_zq_def [of "cv * t div Q"])
  note zc = zq_cell [OF assms(2)] zq_cell [OF z(1)] zq_cell [OF z(2)]
  note b = bit_cells_sat [of r] bit_cells_sat [of cr]
  have e: "ct1_block_cells cv t = [t, r, cr] @ bit_cells r @ bit_cells cr"
    by (simp add: ct1_block_cells_def Let_def r_def [symmetric] cr_def [symmetric] zc)
  show "length (ct1_block_cells cv t) = CT1_COLS_PER_ROW" by (simp add: e CT1_COLS_PER_ROW_def)
  show "cells_ok (ct1_block_cells cv t)" using zc b by (simp add: e)
  have k: "cells (ct1_block_cells cv t) 3 N_BITS = bit_cells r" "cells (ct1_block_cells cv t) (3 + N_BITS) N_BITS = bit_cells cr"
    using cells_append [of "[t, r, cr]" 3 "bit_cells r" N_BITS "bit_cells cr"]
      cells_append [of "[t, r, cr] @ bit_cells r" "3 + N_BITS" "bit_cells cr" N_BITS "[]"] by (simp_all add: e)
  have "cv * t - r - cr * Q = 0" by (simp add: r_def cr_def minus_div_mult_eq_mod [symmetric])
  then show "\<forall>c\<in>set (ct1_block_evaluate cv (ct1_block_cells cv t)). c mod P31 = 0"
    using zc b unfolding ct1_block_evaluate_def Let_def k by (auto simp: e)
qed

lemma ct1_full_row_ok:
  assumes "in_zq cv" "\<And>i. i < K \<Longrightarrow> in_zq (t i)"
  shows "length ([bf cv] @ concat (map (\<lambda>i. ct1_block_cells cv (t i)) [0..<K])) = 1 + K * CT1_COLS_PER_ROW"
    "cells_ok ([bf cv] @ concat (map (\<lambda>i. ct1_block_cells cv (t i)) [0..<K]))"
    "row_sat ct1_full_evaluate ([bf cv] @ concat (map (\<lambda>i. ct1_block_cells cv (t i)) [0..<K]))"
proof -
  let ?f = "\<lambda>i. ct1_block_cells cv (t i)"
  note b = ct1_block_ok [OF assms(1) assms(2)]
  note l = length_concat_upt [of K ?f CT1_COLS_PER_ROW, OF b(1)]
  show "length ([bf cv] @ concat (map ?f [0..<K])) = 1 + K * CT1_COLS_PER_ROW" using l by simp
  show "cells_ok ([bf cv] @ concat (map ?f [0..<K]))"
    using cells_ok_concat [of K ?f] b(2) zq_cell(1,2) [OF assms(1)] by simp
  have "cells ([bf cv] @ concat (map ?f [0..<K])) (1 + i * CT1_COLS_PER_ROW) CT1_COLS_PER_ROW = ?f i" if "i < K" for i
    using cells_skip [of "[bf cv]" "concat (map ?f [0..<K])" "i * CT1_COLS_PER_ROW" CT1_COLS_PER_ROW]
      cells_concat [of i K ?f CT1_COLS_PER_ROW] that b(1) by simp
  then show "row_sat ct1_full_evaluate ([bf cv] @ concat (map ?f [0..<K]))"
    using b(3) zq_cell(1) [OF assms(1)] by (auto simp: row_sat_def ct1_full_evaluate_def)
qed

section \<open>Properties\<close>

text \<open>
  C24. The traces of one row of \<open>A z\<close>, of all of \<open>A z\<close>, and of \<open>c t1\<close> satisfy their circuits and return those
  products: for a row of \<open>L\<close> polynomials, a matrix of \<open>K * L\<close> (any other number is refused by the assertion), a
  vector and a challenge with coefficients in \<open>[0, Q)\<close>, every row of the three traces satisfies every
  constraint, and the outputs are the sums of products modulo \<open>Q\<close>.
\<close>

theorem matrix_circuits_complete:
  assumes "\<forall>p\<in>set a_hat. zq_poly p" "\<forall>p\<in>set z_hat. zq_poly p" "length z_hat = L" "zq_poly c_hat" "\<forall>p\<in>set t1_hat. zq_poly p" "length t1_hat = K"
    "\<forall>p\<in>set a_row. zq_poly p" "length a_row = L"
  shows "trace_sat az_row_evaluate (fst (az_row_build_trace a_row z_hat)) N
    \<and> snd (az_row_build_trace a_row z_hat) = map (\<lambda>p. (\<Sum>j<L. a_row ! j ! p * z_hat ! j ! p) mod Q) [0..<N]
    \<and> (case az_full_build_trace a_hat z_hat of None \<Rightarrow> length a_hat \<noteq> K * L
      | Some (cols, az) \<Rightarrow> length a_hat = K * L \<and> trace_sat az_full_evaluate cols N
          \<and> az = map (\<lambda>i. map (\<lambda>p. (\<Sum>j<L. a_hat ! (i * L + j) ! p * z_hat ! j ! p) mod Q) [0..<N]) [0..<K])
    \<and> trace_sat ct1_full_evaluate (fst (ct1_full_build_trace c_hat t1_hat)) N
    \<and> snd (ct1_full_build_trace c_hat t1_hat) = map (\<lambda>i. map (\<lambda>p. c_hat ! p * t1_hat ! i ! p mod Q) [0..<N]) [0..<K]"
proof (intro conjI)
  have nth: "in_zq (ps ! j ! p)" if "\<forall>q\<in>set ps. zq_poly q" "j < length ps" "p < N" for ps j p
    using that by (simp add: zq_poly_nth N_def)
  have ix: "i * L + j < K * L" if "i < K" "j < L" for i j
  proof -
    have "i * L + j < Suc i * L" using that(2) by simp
    also have "\<dots> \<le> K * L" using that(1) by (intro mult_le_mono1) simp
    finally show ?thesis .
  qed
  let ?a = "\<lambda>i p. map (\<lambda>j. a_hat ! (i * L + j) ! p) [0..<L]" and ?z = "\<lambda>p. map (\<lambda>j. z_hat ! j ! p) [0..<L]"
  have z: "length (?z p) = L" "\<forall>x\<in>set (?z p). in_zq x" if "p < N" for p using assms(2,3) that by (auto intro!: nth)
  have a: "length (?a i p) = L \<and> (\<forall>x\<in>set (?a i p). in_zq x)" if "length a_hat = K * L" "i < K" "p < N" for i p
    using assms(1) that by (auto intro!: nth simp: ix)
  let ?r = "\<lambda>p. map (\<lambda>j. a_row ! j ! p) [0..<L]"
  have r: "length (?r p) = L" "\<forall>x\<in>set (?r p). in_zq x" if "p < N" for p using assms(7,8) that by (auto intro!: nth)
  show "trace_sat az_row_evaluate (fst (az_row_build_trace a_row z_hat)) N"
    unfolding az_row_build_trace_def Let_def fst_conv
  proof (intro trace_sat_map conjI)
    fix p assume p: "p < N"
    note row = az_row_ok [OF r(1) [OF p] z(1) [OF p] r(2) [OF p] z(2) [OF p]]
    show "length (az_row_cells (?r p) (?z p)) = 28 + 10 * N_BITS" "cells_ok (az_row_cells (?r p) (?z p))"
      "row_sat az_row_evaluate (az_row_cells (?r p) (?z p))" by (rule row)+
  qed
  have "sv (az_values (?r p) (?z p)) ! 3 = (\<Sum>j<L. a_row ! j ! p * z_hat ! j ! p) mod Q" if "p < N" for p
    using az_values_ok(9) [of "?r p" "?z p"] r [OF that] z [OF that] by simp
  then show "snd (az_row_build_trace a_row z_hat) = map (\<lambda>p. (\<Sum>j<L. a_row ! j ! p * z_hat ! j ! p) mod Q) [0..<N]"
    by (simp add: az_row_build_trace_def Let_def)
  show "case az_full_build_trace a_hat z_hat of None \<Rightarrow> length a_hat \<noteq> K * L
      | Some (cols, az) \<Rightarrow> length a_hat = K * L \<and> trace_sat az_full_evaluate cols N
          \<and> az = map (\<lambda>i. map (\<lambda>p. (\<Sum>j<L. a_hat ! (i * L + j) ! p * z_hat ! j ! p) mod Q) [0..<N]) [0..<K]"
  proof (cases "length a_hat = K * L")
    case True
    note row = az_full_row_ok [OF z a [OF True]]
    have "sv (az_values (?a i p) (?z p)) ! 3 = (\<Sum>j<L. a_hat ! (i * L + j) ! p * z_hat ! j ! p) mod Q" if "i < K" "p < N" for i p
      using az_values_ok(9) [of "?a i p" "?z p"] a [OF True that] z [OF that(2)] by simp
    moreover have "trace_sat az_full_evaluate (columns (L + K * AZ_COLS_PER_ROW)
        (map (\<lambda>p. map bf (?z p) @ concat (map (\<lambda>i. az_block_cells (?a i p) (?z p)) [0..<K])) [0..<N])) N"
      using row by (intro trace_sat_map conjI)
    ultimately show ?thesis using True by (simp add: az_full_build_trace_def Let_def)
  qed (simp add: az_full_build_trace_def)
  show "trace_sat ct1_full_evaluate (fst (ct1_full_build_trace c_hat t1_hat)) N"
    unfolding ct1_full_build_trace_def fst_conv using assms(4-6)
    by (intro trace_sat_map conjI ct1_full_row_ok) (simp_all add: nth zq_poly_nth N_def)
qed (simp add: ct1_full_build_trace_def)

theorem matrix_circuits_complete_witness:
  "trace_sat az_row_evaluate (fst (az_row_build_trace (replicate 5 (replicate 256 7)) (replicate 5 (replicate 256 8380416)))) N
   \<and> trace_sat ct1_full_evaluate (fst (ct1_full_build_trace (replicate 256 8380416) (replicate 6 (replicate 256 8380415)))) N"
  using matrix_circuits_complete [of "replicate 30 (replicate 256 7)" "replicate 5 (replicate 256 8380416)" "replicate 256 8380416"
      "replicate 6 (replicate 256 8380415)" "replicate 5 (replicate 256 7)"]
  by (simp add: zq_poly_replicate in_zq_def Q_def K_def L_def)

end
