(* ===== verification/Circuit_Hint.thy ===== *)
theory Circuit_Hint
  imports Circuit_Arith MLDSA_PolyVec
begin

text \<open>
  The circuits of the hints: \<open>UseHint\<close> on one polynomial (\<open>mldsa_use_hint_air.rs\<close>), on the \<open>K\<close> polynomials
  with and without the running weight (\<open>mldsa_use_hint_batch_air.rs\<close>), and the weight of the hint vector
  (\<open>mldsa_hint_weight_air.rs\<close>). The circuits with a running sum read the previous row, cyclically, and
  preprocessed columns.
\<close>

section \<open>UseHint\<close>

definition ALPHA :: int where "ALPHA = 2 * GAMMA2"

definition use_hint_evaluate :: "'f::comm_ring_1 list \<Rightarrow> 'f list" where
  "use_hint_evaluate row =
     (let r = row ! 0; h = row ! 1; r1 = row ! 2; r0_red = row ! 3; sel_neg = row ! 4; sel_sp = row ! 5;
          sel_r0pos = row ! 6; carry_up = row ! 7; carry_dn = row ! 8; w1 = row ! 9;
          decomp = r1 * of_int ALPHA + r0_red - sel_neg * of_int Q - r
      in [h * h - h, sel_neg * sel_neg - sel_neg, sel_sp * sel_sp - sel_sp, sel_r0pos * sel_r0pos - sel_r0pos,
          carry_up * carry_up - carry_up, carry_dn * carry_dn - carry_dn,
          decomp - sel_sp * decomp,
          sel_sp * r1,
          sel_sp * r0_red - sel_sp * r - sel_sp * sel_neg * of_int Q + sel_sp * of_int Q,
          carry_up * r1 - carry_up * of_int (M - 1),
          carry_dn * r1,
          w1 - r1 - h * sel_r0pos - h * sel_r0pos + h + carry_up * of_int M - carry_dn * of_int M])"

definition decompose_val_signed :: "i64 \<Rightarrow> i64 \<times> i64" where
  "decompose_val_signed r =
     (let r = field_reduce r;
          r0 = (let rem = r smod ALPHA in if rem > GAMMA2 then rem - ALPHA else rem)
      in if r - r0 = Q - 1 then (0, r0 - 1) else ((r - r0) sdiv ALPHA, r0))"

text \<open>In these builders \<open>r\<close> is stored as \<open>rem_euclid(Q)\<close>; the other cells are cast.\<close>

definition use_hint_cells :: "i64 \<Rightarrow> bool \<Rightarrow> int list" where
  "use_hint_cells ri hi =
     (let w1_i = use_hint_val hi ri;
          (r1_i, r0_i) = decompose_val_signed ri;
          sel_neg_i = (if r0_i < 0 then 1 else 0);
          r0_red_i = (if r0_i < 0 then r0_i + Q else r0_i);
          r0_adj = (if ri smod ALPHA > GAMMA2 then ri smod ALPHA - ALPHA else ri smod ALPHA);
          sel_sp_i = (if ri - r0_adj = Q - 1 then 1 else 0);
          sel_r0pos_i = (if hi \<and> r0_i > 0 then 1 else 0);
          carry_up_i = (if hi \<and> r0_i > 0 \<and> r1_i = M - 1 then 1 else 0);
          carry_dn_i = (if hi \<and> r0_i \<le> 0 \<and> r1_i = 0 then 1 else 0)
      in [bf (ri mod Q), of_bool hi, bf r1_i, bf r0_red_i, bf sel_neg_i, bf sel_sp_i, bf sel_r0pos_i, bf carry_up_i, bf carry_dn_i, bf w1_i])"

definition use_hint_build_trace :: "i64 list \<Rightarrow> bool list \<Rightarrow> int list list \<times> i64 list" where
  "use_hint_build_trace r h_bits =
     (columns 10 (map (\<lambda>i. use_hint_cells (r ! i) (h_bits ! i)) [0..<N]), map (\<lambda>i. use_hint_val (h_bits ! i) (r ! i)) [0..<N])"

text \<open>The batch repeats the ten columns and the constraints for the \<open>K\<close> polynomials.\<close>

definition use_hint_batch_evaluate :: "'f::comm_ring_1 list \<Rightarrow> 'f list" where
  "use_hint_batch_evaluate row = concat (map (\<lambda>i. use_hint_evaluate (cells row (i * 10) 10)) [0..<K])"

definition use_hint_batch_row :: "i64 list list \<Rightarrow> bool list list \<Rightarrow> nat \<Rightarrow> int list" where
  "use_hint_batch_row w_prime hints p = concat (map (\<lambda>i. use_hint_cells (w_prime ! i ! p) (hints ! i ! p)) [0..<K])"

definition use_hint_batch_build_trace :: "i64 list list \<Rightarrow> bool list list \<Rightarrow> int list list \<times> i64 list list" where
  "use_hint_batch_build_trace w_prime hints =
     (columns (K * 10) (map (use_hint_batch_row w_prime hints) [0..<N]),
      map (\<lambda>i. map (\<lambda>p. use_hint_val (hints ! i ! p) (w_prime ! i ! p)) [0..<N]) [0..<K])"

section \<open>Rows with a predecessor and preprocessed columns\<close>

text \<open>\<open>UseHintBatchV2\<close> adds the running sum of the hints of all rows.\<close>

definition use_hint_v2_evaluate :: "'f::comm_ring_1 list \<Rightarrow> 'f list \<Rightarrow> 'f list \<Rightarrow> 'f list" where
  "use_hint_v2_evaluate pre row prev =
     (let is_init = pre ! 0;
          row_sum = foldl (\<lambda>acc i. acc + row ! (i * 10 + 1)) (row ! 1) [1..<K];
          hw_sum_curr = row ! (K * 10); hw_sum_prev = prev ! (K * 10)
      in use_hint_batch_evaluate row @ [hw_sum_curr - row_sum - hw_sum_prev + is_init * hw_sum_prev])"

definition build_preproc_v2 :: "int list list" where
  "build_preproc_v2 = [(replicate N 0)[0 := 1]]"

text \<open>The sum of the hints of a row, and of all rows up to one.\<close>

definition row_h_sum :: "bool list list \<Rightarrow> nat \<Rightarrow> int" where
  "row_h_sum hints p = foldl (\<lambda>acc i. acc + of_bool (hints ! i ! p)) 0 [0..<K]"

definition running_sum :: "bool list list \<Rightarrow> nat \<Rightarrow> int" where
  "running_sum hints n = foldl (\<lambda>acc p. acc + row_h_sum hints p) 0 [0..<n]"

definition use_hint_v2_build_trace ::
  "i64 list list \<Rightarrow> bool list list \<Rightarrow> int list list \<times> int list list \<times> i64 list list \<times> int" where
  "use_hint_v2_build_trace w_prime hints =
     (columns (K * 10 + 1) (map (\<lambda>p. use_hint_batch_row w_prime hints p @ [bf (running_sum hints (p + 1))]) [0..<N]),
      build_preproc_v2,
      map (\<lambda>i. map (\<lambda>p. use_hint_val (hints ! i ! p) (w_prime ! i ! p)) [0..<N]) [0..<K],
      running_sum hints N)"

section \<open>The weight of the hints\<close>

definition HINT_ROWS :: nat where "HINT_ROWS = K * N"
definition HW_ROWS :: nat where "HW_ROWS = 2 ^ 11"

definition hint_weight_evaluate :: "'f::comm_ring_1 list \<Rightarrow> 'f list \<Rightarrow> 'f list \<Rightarrow> 'f list" where
  "hint_weight_evaluate pre row prev =
     (let is_init = pre ! 0; is_valid = pre ! 1; s_curr = row ! 0; s_prev = prev ! 0; h = row ! 1
      in [h * (1 - h), (1 - is_valid) * h, s_curr - h - s_prev + is_init * s_prev])"

text \<open>A position beyond the \<open>2048\<close> rows is a panic.\<close>

definition h_flat :: "bool list list \<Rightarrow> int list option" where
  "h_flat hints = foldl (\<lambda>flat (pos, bit). case flat of None \<Rightarrow> None
       | Some fl \<Rightarrow> if pos < length fl then Some (fl[pos := (if bit then 1 else 0)]) else None)
     (Some (replicate HW_ROWS 0)) (concat (map (\<lambda>(i, row). map (\<lambda>(j, bit). (i * N + j, bit)) (enumerate 0 row)) (enumerate 0 hints)))"

fun sums_from :: "int \<Rightarrow> int list \<Rightarrow> int list" where
  "sums_from acc [] = []"
| "sums_from acc (h # hs) = (acc + h) # sums_from (acc + h) hs"

definition hint_weight_preproc :: "int list list" where
  "hint_weight_preproc = [(replicate HW_ROWS 0)[0 := 1], map (\<lambda>r. if r < HINT_ROWS then 1 else 0) [0..<HW_ROWS]]"

definition hint_weight_build_trace :: "bool list list \<Rightarrow> (int list list \<times> int list list \<times> int) option" where
  "hint_weight_build_trace hints =
     (case h_flat hints of None \<Rightarrow> None
      | Some fl \<Rightarrow> let s_flat = sums_from 0 fl
          in Some ([map bf s_flat, map bf fl], hint_weight_preproc, last s_flat))"

section \<open>Honest rows of UseHint\<close>

lemma decompose_signed: "decompose_val_signed r = decompose_val r"
  by (simp add: decompose_val_signed_def decompose_val_def ALPHA_def Let_def)

lemma special_flag:
  assumes "in_zq r" "decompose_val r = (r1, r0)"
  shows "(r - (if r smod ALPHA > GAMMA2 then r smod ALPHA - ALPHA else r smod ALPHA) = Q - 1) = (r0 = r - Q)"
proof -
  have r: "r mod Q = r" "0 \<le> r" "r < Q" using assms(1) by (simp_all add: in_zq_def)
  have a: "ALPHA = 523776" "GAMMA2 = 261888" by (simp_all add: ALPHA_def GAMMA2_val)
  have s: "r smod 523776 = r mod 523776" using r by (simp add: smod_nonneg)
  let ?a = "if r mod 523776 > 261888 then r mod 523776 - 523776 else r mod 523776"
  have d: "(if r - ?a = Q - 1 then (0, ?a - 1) else ((r - ?a) div 523776, ?a)) = (r1, r0)"
    using assms(2) unfolding decompose_val_unfold by (simp add: r Let_def)
  show ?thesis
  proof (cases "r - ?a = Q - 1")
    case True
    then show ?thesis using d unfolding a s by auto
  next
    case False
    then have "r0 = ?a" using d by auto
    moreover have "r - ?a \<noteq> Q"
    proof
      assume e: "r - ?a = Q"
      have "?a mod 523776 = r mod 523776" by simp
      then have "(r - ?a) mod 523776 = 0" 
        using mod_diff_eq [of r 523776 ?a] by (simp only: diff_self mod_0)
      then show False unfolding e by (simp add: Q_def)
    qed
    ultimately have "r0 \<noteq> r - Q" by linarith
    then show ?thesis using False unfolding a s by blast
  qed
qed

lemma use_hint_cells_ok:
  assumes "in_zq r"
  shows "length (use_hint_cells r h) = 10" "cells_ok (use_hint_cells r h)" "row_sat use_hint_evaluate (use_hint_cells r h)"
    "use_hint_cells r h ! 1 = of_bool h"
proof -
  obtain r1 r0 where d: "decompose_val r = (r1, r0)" by force
  have r: "r mod Q = r" "0 \<le> r" "r < Q" using assms by (simp_all add: in_zq_def)
  define w where "w = use_hint_val h r"
  have w: "w = (if \<not> h then r1 else if r0 > 0 then (r1 + 1) mod 16 else (r1 - 1) mod 16)"
    by (simp add: w_def use_hint_val_cases high_bits_val_def low_bits_val_def d M_val)
  define sp where "sp = (if r0 = r - Q then 1 else 0 :: int)"
  have cells: "use_hint_cells r h = [bf r, of_bool h, bf r1, bf (if r0 < 0 then r0 + Q else r0), bf (if r0 < 0 then 1 else 0), bf sp,
      bf (if h \<and> r0 > 0 then 1 else 0), bf (if h \<and> r0 > 0 \<and> r1 = 15 then 1 else 0), bf (if h \<and> r0 \<le> 0 \<and> r1 = 0 then 1 else 0), bf w]"
    by (simp only: use_hint_cells_def Let_def decompose_signed d prod.case special_flag [OF assms d] sp_def w_def r M_val)
      simp
  have b: "bf 0 = 0" "bf 1 = 1" "bf r = r" "0 \<le> x \<Longrightarrow> x < Q \<Longrightarrow> bf x = x" for x using r by (simp_all add: bf_def Q_def)
  have Q: "Q = 8380417" "P31 = 2147483647" "ALPHA = 523776" "M = 16" by (simp_all add: Q_def P31_def ALPHA_def GAMMA2_val M_val)
  show "length (use_hint_cells r h) = 10" "use_hint_cells r h ! 1 = of_bool h" by (simp_all add: cells)
  show "cells_ok (use_hint_cells r h)" "row_sat use_hint_evaluate (use_hint_cells r h)"
    using d
  proof (atomize (full), cases rule: decompose_cases)
    case special
    then have e: "r0 = r - Q" "r0 < 0" "sp = 1" using r by (simp_all add: sp_def)
    have "bf w = (if h then 15 else 0)" using special w by (simp add: bf_def)
    then have "use_hint_cells r h = [r, of_bool h, 0, r, 1, 1, 0, 0, of_bool h, if h then 15 else 0]"
      using e special b by (simp add: cells)
    then show "cells_ok (use_hint_cells r h) \<and> row_sat use_hint_evaluate (use_hint_cells r h)"
      using r by (auto simp: row_sat_def use_hint_evaluate_def Q)
  next
    case regular
    have sp: "sp = 0" using regular r by (auto simp: sp_def Q)
    have bs: "bf r1 = r1" "bf (if r0 < 0 then r0 + Q else r0) = (if r0 < 0 then r0 + Q else r0)"
      using regular by (auto intro!: b(4) simp: Q)
    have wb: "bf w = w" using w regular by (auto intro!: b(4) simp: Q)
    have ww: "w = (if \<not> h then r1 else if r0 > 0 then (if r1 = 15 then 0 else r1 + 1) else (if r1 = 0 then 15 else r1 - 1))"
      using w regular by auto
    have c: "use_hint_cells r h = [r, of_bool h, r1, (if r0 < 0 then r0 + Q else r0), (if r0 < 0 then 1 else 0), 0,
      (if h \<and> r0 > 0 then 1 else 0), (if h \<and> r0 > 0 \<and> r1 = 15 then 1 else 0), (if h \<and> r0 \<le> 0 \<and> r1 = 0 then 1 else 0), w]"
      by (simp add: cells bs sp wb b)
    show "cells_ok (use_hint_cells r h) \<and> row_sat use_hint_evaluate (use_hint_cells r h)"
      using regular r ww by (auto simp: c row_sat_def use_hint_evaluate_def Q)
  qed
qed

section \<open>Running sums\<close>

lemma running_total:
  assumes "\<And>i. i < n \<Longrightarrow> 0 \<le> s i \<and> s i < P31" "\<And>i. i < n \<Longrightarrow> 0 \<le> x i \<and> x i \<le> b" "int n * b < P31"
    and step: "\<And>i. i < n \<Longrightarrow> (s i - (x i + (if i = 0 then 0 else s (i - 1)))) mod P31 = 0"
  shows "i < n \<Longrightarrow> s i = (\<Sum>p\<le>i. x p) \<and> s i \<le> int (Suc i) * b"
proof (induction i)
  case 0
  have "x 0 < P31" using assms(2) [OF 0] mult_right_mono [of 1 "int n" b] 0 assms(3) by simp
  moreover have "(s 0 - x 0) mod P31 = 0" using step [OF 0] by simp
  ultimately have "s 0 = x 0" using assms(1,2) [OF 0] by (elim small_eq) linarith+
  then show ?case using assms(2) [OF 0] by simp
next
  case (Suc i)
  then have ih: "s i = (\<Sum>p\<le>i. x p)" "s i \<le> int (Suc i) * b" by simp_all
  have b0: "0 \<le> b" using assms(2) [OF Suc.prems] by linarith
  have le: "x (Suc i) + s i \<le> int (Suc (Suc i)) * b" using ih(2) assms(2) [OF Suc.prems] by (simp add: algebra_simps)
  also have "\<dots> \<le> int n * b" using Suc.prems b0 by (intro mult_right_mono) simp_all
  finally have "x (Suc i) + s i < P31" using assms(3) by simp
  moreover have "0 \<le> x (Suc i) + s i" using assms(1) [of i] assms(2) [OF Suc.prems] Suc.prems by simp
  moreover have "(s (Suc i) - (x (Suc i) + s i)) mod P31 = 0" using step [OF Suc.prems] by simp
  ultimately have "s (Suc i) = x (Suc i) + s i" using assms(1) [OF Suc.prems] by (elim small_eq) linarith+
  then show ?case using ih le by simp
qed

section \<open>The weight circuit\<close>

lemma hint_weight_rows:
  assumes "length cols = 2" "cyclic_sat hint_weight_evaluate hint_weight_preproc cols HW_ROWS" "i < HW_ROWS"
  shows "cols ! 1 ! i = 0 \<or> cols ! 1 ! i = 1" "HINT_ROWS \<le> i \<Longrightarrow> cols ! 1 ! i = 0" "0 \<le> cols ! 0 ! i \<and> cols ! 0 ! i < P31"
    "(cols ! 0 ! i - (cols ! 1 ! i + (if i = 0 then 0 else cols ! 0 ! (i - 1)))) mod P31 = 0"
proof -
  let ?h = "cols ! 1 ! i" and ?s = "cols ! 0 ! i"
  have ok: "cells_ok (trace_row cols i)" and ev: "\<forall>c\<in>set (hint_weight_evaluate (trace_row hint_weight_preproc i) (trace_row cols i)
      (trace_row cols ((i + HW_ROWS - 1) mod HW_ROWS))). c mod P31 = 0" using assms(2,3) by (simp_all add: cyclic_sat_def)
  have c: "0 \<le> ?h" "?h < P31" "0 \<le> ?s" "?s < P31"
    using ok cells_ok_nth [OF ok, of 0] cells_ok_nth [OF ok, of 1] assms(1) by (simp_all add: trace_row_nth trace_row_def)
  have p: "trace_row hint_weight_preproc i ! 0 = (if i = 0 then 1 else 0)" "trace_row hint_weight_preproc i ! 1 = (if i < HINT_ROWS then 1 else 0)"
    using assms(3) by (simp_all add: trace_row_def hint_weight_preproc_def)
  have e: "(?h * (1 - ?h)) mod P31 = 0" "((1 - (if i < HINT_ROWS then 1 else 0)) * ?h) mod P31 = 0"
    "(?s - ?h - cols ! 0 ! ((i + HW_ROWS - 1) mod HW_ROWS)
       + (if i = 0 then 1 else 0) * cols ! 0 ! ((i + HW_ROWS - 1) mod HW_ROWS)) mod P31 = 0"
    using ev assms(1) p by (simp_all add: hint_weight_evaluate_def Let_def trace_row_nth)
  have "(?h * ?h - ?h) mod P31 = 0" using e(1) by (simp add: mod_eq_0_iff_dvd algebra_simps dvd_diff_commute)
  then show h: "?h = 0 \<or> ?h = 1" by (rule bool_cell [OF c(1,2)])
  show "?h = 0" if "HINT_ROWS \<le> i" using e(2) that c(1,2) by simp
  show "0 \<le> ?s \<and> ?s < P31" using c by simp
  show "(?s - (?h + (if i = 0 then 0 else cols ! 0 ! (i - 1)))) mod P31 = 0"
    using e(3) unfolding cyclic_prev [OF assms(3)] by (cases "i = 0") (simp_all add: diff_diff_eq)
qed

lemma hint_weight_total:
  assumes "length cols = 2" "cyclic_sat hint_weight_evaluate hint_weight_preproc cols HW_ROWS"
  shows "cols ! 0 ! (HW_ROWS - 1) = (\<Sum>i<HINT_ROWS. cols ! 1 ! i)"
proof -
  note r = hint_weight_rows [OF assms]
  have "cols ! 0 ! (HW_ROWS - 1) = (\<Sum>p\<le>HW_ROWS - 1. cols ! 1 ! p)"
    using running_total [of HW_ROWS "\<lambda>i. cols ! 0 ! i" "\<lambda>i. cols ! 1 ! i" 1 "HW_ROWS - 1"] r
    by (fastforce simp: HW_ROWS_def P31_def)
  also have "\<dots> = (\<Sum>i<HINT_ROWS. cols ! 1 ! i)"
    by (rule sum.mono_neutral_right) (use r(2) in \<open>auto simp: HW_ROWS_def HINT_ROWS_def K_def N_def\<close>)
  finally show ?thesis .
qed

section \<open>The batch with the running weight\<close>

lemma foldl_sum: "foldl (\<lambda>acc i. acc + f i) a xs = a + sum_list (map f xs)" for a :: int
  by (induction xs arbitrary: a) simp_all

lemma row_sum_eq: "foldl (\<lambda>acc i. acc + f i) (f 0) [1..<K] = (\<Sum>i<K. f i)" for f :: "nat \<Rightarrow> int"
proof -
  have "[0..<K] = 0 # [1..<K]" by (simp add: K_def upt_conv_Cons)
  then have "f 0 + sum_list (map f [1..<K]) = sum_list (map f [0..<K])" by simp
  then show ?thesis by (simp only: foldl_sum) (simp add: interv_sum_list_conv_sum_set_nat atLeast0LessThan)
qed

lemma row_h_sum_eq: "row_h_sum hints p = (\<Sum>i<K. of_bool (hints ! i ! p))"
  by (simp only: row_h_sum_def foldl_sum) (simp add: interv_sum_list_conv_sum_set_nat atLeast0LessThan)

lemma running_sum_Suc [simp]: "running_sum hints 0 = 0" "running_sum hints (Suc n) = running_sum hints n + row_h_sum hints n"
  by (simp_all add: running_sum_def)

lemma running_sum_bound: "0 \<le> running_sum hints n \<and> running_sum hints n \<le> int n * 6"
proof (induction n)
  case (Suc n)
  have "row_h_sum hints n \<le> (\<Sum>i<K. 1)" unfolding row_h_sum_eq by (rule sum_mono) simp
  moreover have "0 \<le> row_h_sum hints n" unfolding row_h_sum_eq by (rule sum_nonneg) simp
  ultimately show ?case using Suc by (simp add: K_def)
qed simp

lemma use_hint_batch_row_ok:
  assumes "\<And>i. i < K \<Longrightarrow> in_zq (w_prime ! i ! p)"
  shows "length (use_hint_batch_row w_prime hints p) = K * 10" "cells_ok (use_hint_batch_row w_prime hints p)"
    "row_sat use_hint_batch_evaluate (use_hint_batch_row w_prime hints p)"
    "i < K \<Longrightarrow> use_hint_batch_row w_prime hints p ! (i * 10 + 1) = of_bool (hints ! i ! p)"
proof -
  let ?f = "\<lambda>i. use_hint_cells (w_prime ! i ! p) (hints ! i ! p)"
  have f: "length (?f i) = 10 \<and> cells_ok (?f i) \<and> row_sat use_hint_evaluate (?f i)" if "i < K" for i
    using use_hint_cells_ok [OF assms [OF that]] by blast
  note b = blocks_ok [of K ?f, OF f]
  show "length (use_hint_batch_row w_prime hints p) = K * 10" "cells_ok (use_hint_batch_row w_prime hints p)"
    "row_sat use_hint_batch_evaluate (use_hint_batch_row w_prime hints p)"
    using b by (simp_all add: use_hint_batch_row_def use_hint_batch_evaluate_def [abs_def])
  assume i: "i < K"
  have "cells (concat (map ?f [0..<K])) (i * 10) 10 = ?f i" using f by (intro cells_concat [OF i]) simp
  then have "cells (concat (map ?f [0..<K])) (i * 10) 10 ! 1 = of_bool (hints ! i ! p)"
    using use_hint_cells_ok(4) [OF assms [OF i]] by simp
  then show "use_hint_batch_row w_prime hints p ! (i * 10 + 1) = of_bool (hints ! i ! p)"
    by (simp add: use_hint_batch_row_def cells_def)
qed

lemma use_hint_v2_rows:
  assumes "length cols = K * 10 + 1" "cyclic_sat use_hint_v2_evaluate build_preproc_v2 cols N" "p < N"
  shows "\<And>i. i < K \<Longrightarrow> cols ! (i * 10 + 1) ! p = 0 \<or> cols ! (i * 10 + 1) ! p = 1"
    "0 \<le> cols ! (K * 10) ! p \<and> cols ! (K * 10) ! p < P31"
    "(cols ! (K * 10) ! p - ((\<Sum>i<K. cols ! (i * 10 + 1) ! p) + (if p = 0 then 0 else cols ! (K * 10) ! (p - 1)))) mod P31 = 0"
proof -
  let ?row = "trace_row cols p" and ?prev = "trace_row cols ((p + N - 1) mod N)"
  have ok: "cells_ok ?row" and ev: "\<forall>c\<in>set (use_hint_v2_evaluate (trace_row build_preproc_v2 p) ?row ?prev). c mod P31 = 0"
    using assms(2,3) by (simp_all add: cyclic_sat_def)
  have ix: "i * 10 + 1 < length cols" "i * 10 + 10 \<le> length ?row" if "i < K" for i using that assms(1) by (simp_all add: trace_row_def)
  show "cols ! (i * 10 + 1) ! p = 0 \<or> cols ! (i * 10 + 1) ! p = 1" if "i < K" for i
  proof -
    let ?h = "cols ! (i * 10 + 1) ! p"
    have "?h * ?h - ?h \<in> set (use_hint_evaluate (cells ?row (i * 10) 10))"
      using ix(1) [OF that] by (simp add: use_hint_evaluate_def Let_def cells_def trace_row_nth)
    then have "?h * ?h - ?h \<in> set (use_hint_batch_evaluate ?row)" using that by (auto simp: use_hint_batch_evaluate_def)
    then have "(?h * ?h - ?h) mod P31 = 0" using ev by (simp add: use_hint_v2_evaluate_def Let_def)
    moreover have "0 \<le> ?h \<and> ?h < P31"
      using cells_ok_nth [OF ok, of "i * 10 + 1"] ix(1) [OF that] by (simp add: trace_row_nth) (simp add: trace_row_def)
    ultimately show ?thesis by (intro bool_cell) simp_all
  qed
  show "0 \<le> cols ! (K * 10) ! p \<and> cols ! (K * 10) ! p < P31"
    using cells_ok_nth [OF ok, of "K * 10"] assms(1) by (simp add: trace_row_nth) (simp add: trace_row_def)
  have pre: "trace_row build_preproc_v2 p ! 0 = (if p = 0 then 1 else 0)"
    using assms(3) by (simp add: trace_row_def build_preproc_v2_def)
  have "?row ! (i * 10 + 1) = cols ! (i * 10 + 1) ! p" if "i < K" for i using ix(1) [OF that] by (rule trace_row_nth)
  then have "(\<Sum>i<K. ?row ! (i * 10 + 1)) = (\<Sum>i<K. cols ! (i * 10 + 1) ! p)" by simp
  then have "foldl (\<lambda>acc i. acc + ?row ! (i * 10 + 1)) (?row ! 1) [1..<K] = (\<Sum>i<K. cols ! (i * 10 + 1) ! p)"
    using row_sum_eq [of "\<lambda>i. ?row ! (i * 10 + 1)"] by simp
  then have "(cols ! (K * 10) ! p - (\<Sum>i<K. cols ! (i * 10 + 1) ! p) - cols ! (K * 10) ! ((p + N - 1) mod N)
      + (if p = 0 then 1 else 0) * cols ! (K * 10) ! ((p + N - 1) mod N)) mod P31 = 0"
    using ev assms(1) unfolding use_hint_v2_evaluate_def Let_def pre by (simp add: trace_row_nth)
  then show "(cols ! (K * 10) ! p - ((\<Sum>i<K. cols ! (i * 10 + 1) ! p) + (if p = 0 then 0 else cols ! (K * 10) ! (p - 1)))) mod P31 = 0"
    unfolding cyclic_prev [OF assms(3)] by (cases "p = 0") (simp_all add: diff_diff_eq)
qed

section \<open>Honest traces\<close>

lemma enumerate_shift: "map (\<lambda>(j, b). (a + j, b)) (enumerate n xs) = enumerate (a + n) xs"
  by (induction xs arbitrary: n) simp_all

lemma hint_positions:
  "\<forall>row\<in>set hints. length row = N \<Longrightarrow>
   concat (map (\<lambda>(i, row). map (\<lambda>(j, bit). (i * N + j, bit)) (enumerate 0 row)) (enumerate n hints)) = enumerate (n * N) (concat hints)"
proof (induction hints arbitrary: n)
  case (Cons row hints)
  then show ?case using enumerate_shift [of "n * N" 0 row] by (simp add: enumerate_append_eq add.commute)
qed simp

lemma flat_updates:
  "k + length bits \<le> length fl \<Longrightarrow>
   foldl (\<lambda>flat (pos, bit). case flat of None \<Rightarrow> None
       | Some fl \<Rightarrow> if pos < length fl then Some (fl[pos := (if bit then 1 else 0)]) else None) (Some fl) (enumerate k bits)
   = Some (take k fl @ map of_bool bits @ drop (k + length bits) fl)" for fl :: "int list"
proof (induction bits arbitrary: k fl)
  case (Cons b bits)
  have "take (Suc k) (fl[k := (if b then 1 else 0)]) = take k fl @ [of_bool b]"
    using Cons.prems by (simp add: take_Suc_conv_app_nth)
  moreover have "drop (Suc k + length bits) (fl[k := (if b then 1 else 0)]) = drop (k + length (b # bits)) fl" by simp
  ultimately show ?case using Cons.IH [of "Suc k" "fl[k := (if b then 1 else 0)]"] Cons.prems by simp
qed simp

lemma length_concat_hints: "\<forall>row\<in>set hints. length row = N \<Longrightarrow> length (concat hints) = length hints * N"
  by (induction hints) simp_all

lemma h_flat_ok:
  assumes "length hints = K" "\<forall>row\<in>set hints. length row = N"
  shows "h_flat hints = Some (map of_bool (concat hints) @ replicate 512 0)"
proof -
  have l: "length (concat hints) = 1536" using length_concat_hints [OF assms(2)] assms(1) by (simp add: K_def N_def)
  then show ?thesis
    using flat_updates [of 0 "concat hints" "replicate HW_ROWS 0"] hint_positions [OF assms(2), of 0] by (simp add: h_flat_def HW_ROWS_def)
qed

lemma sums_from_nth: "i < length hs \<Longrightarrow> sums_from acc hs ! i = acc + sum_list (take (Suc i) hs)"
  by (induction hs arbitrary: acc i) (auto simp: nth_Cons less_Suc_eq_0_disj split: nat.splits)

lemma length_sums_from [simp]: "length (sums_from acc hs) = length hs"
  by (induction hs arbitrary: acc) simp_all

lemma bits_sum_bounds: "\<forall>x\<in>set xs. x = 0 \<or> x = (1 :: int) \<Longrightarrow> 0 \<le> sum_list xs \<and> sum_list xs \<le> int (length xs)"
  by (induction xs) auto

lemma hint_weight_complete:
  assumes "length hints = K" "\<forall>row\<in>set hints. length row = N"
  obtains cols where "hint_weight_build_trace hints = Some (cols, hint_weight_preproc, int (length (filter id (concat hints))))"
    "length cols = 2" "cyclic_sat hint_weight_evaluate hint_weight_preproc cols HW_ROWS"
proof -
  define fl :: "int list" where "fl = map of_bool (concat hints) @ replicate 512 0"
  have l: "length (concat hints) = 1536" using length_concat_hints [OF assms(2)] assms(1) by (simp add: K_def N_def)
  have lf: "length fl = 2048" by (simp add: fl_def l)
  have bits: "\<forall>x\<in>set fl. x = 0 \<or> x = 1" by (auto simp: fl_def)
  define s where "s = sums_from 0 fl"
  have s: "s ! i = sum_list (take (Suc i) fl)" if "i < 2048" for i using that lf by (simp add: s_def sums_from_nth)
  have sb: "0 \<le> s ! i \<and> s ! i < P31" if "i < 2048" for i
  proof -
    have "\<forall>x\<in>set (take (Suc i) fl). x = 0 \<or> x = 1" using bits by (meson in_set_takeD)
    from bits_sum_bounds [OF this] show ?thesis using that by (simp add: s lf P31_def)
  qed
  have ls: "length s = 2048" by (simp add: s_def lf)
  have "\<forall>x\<in>set s. 0 \<le> x \<and> x < P31" using sb ls by (auto simp: in_set_conv_nth)
  then have ms: "map bf s = s" by (simp add: bf_small map_idI)
  have mf: "map bf fl = fl" using bits by (auto simp: bf_small intro!: map_idI)
  have "last s = s ! 2047" using ls by (subst last_conv_nth) auto
  also have "\<dots> = sum_list fl" using s [of 2047] lf by simp
  also have "\<dots> = int (length (filter id (concat hints)))"
  proof -
    have "sum_list (map of_bool bs) = int (length (filter id bs))" for bs by (induction bs) simp_all
    then show ?thesis by (simp add: fl_def sum_list_replicate)
  qed
  finally have b: "hint_weight_build_trace hints = Some ([s, fl], hint_weight_preproc, int (length (filter id (concat hints))))"
    using h_flat_ok [OF assms] ms mf by (simp add: hint_weight_build_trace_def fl_def [symmetric] s_def [symmetric] Let_def)
  have "cyclic_sat hint_weight_evaluate hint_weight_preproc [s, fl] HW_ROWS"
    unfolding cyclic_sat_def
  proof (intro allI impI)
    fix i assume i: "i < HW_ROWS"
    then have i': "i < 2048" by (simp add: HW_ROWS_def)
    have f: "fl ! i = 0 \<or> fl ! i = 1" using bits i' lf by simp
    have v: "1536 \<le> i \<Longrightarrow> fl ! i = 0" using i' l by (simp add: fl_def nth_append)
    have p: "trace_row hint_weight_preproc i ! 0 = (if i = 0 then 1 else 0)" "trace_row hint_weight_preproc i ! 1 = (if i < 1536 then 1 else 0)"
      using i by (simp_all add: trace_row_def hint_weight_preproc_def HINT_ROWS_def K_def N_def)
    have "s ! i - fl ! i - (if i = 0 then 0 else s ! (i - 1)) = 0"
      using s [OF i'] s [of "i - 1"] i' lf by (cases i) (simp_all add: take_Suc_conv_app_nth)
    moreover have "cells_ok (trace_row [s, fl] i)" using sb [OF i'] f P31_pos by (auto simp: trace_row_def)
    ultimately show "cells_ok (trace_row [s, fl] i) \<and> (\<forall>c\<in>set (hint_weight_evaluate (trace_row hint_weight_preproc i) (trace_row [s, fl] i)
        (trace_row [s, fl] ((i + HW_ROWS - 1) mod HW_ROWS))). c mod P31 = 0)"
      using f v p cyclic_prev [OF i] by (auto simp: hint_weight_evaluate_def Let_def trace_row_nth not_less)
  qed
  with b that show ?thesis by simp
qed

lemma use_hint_v2_complete:
  assumes "\<forall>q\<in>set w_prime. zq_poly q" "length w_prime = K"
  shows "cyclic_sat use_hint_v2_evaluate build_preproc_v2 (fst (use_hint_v2_build_trace w_prime hints)) N"
    "length (fst (use_hint_v2_build_trace w_prime hints)) = K * 10 + 1"
proof -
  let ?row = "\<lambda>p. use_hint_batch_row w_prime hints p @ [bf (running_sum hints (p + 1))]"
  let ?cols = "columns (K * 10 + 1) (map ?row [0..<N])"
  have z: "in_zq (w_prime ! i ! p)" if "i < K" "p < N" for i p using assms that by (simp add: zq_poly_nth N_def)
  have r: "length (?row p) = K * 10 + 1" "cells_ok (use_hint_batch_row w_prime hints p)"
    "row_sat use_hint_batch_evaluate (use_hint_batch_row w_prime hints p)"
    "\<And>i. i < K \<Longrightarrow> use_hint_batch_row w_prime hints p ! (i * 10 + 1) = of_bool (hints ! i ! p)" if "p < N" for p
    using use_hint_batch_row_ok [where w_prime = w_prime and p = p and hints = hints, OF z [OF _ that]] by simp_all
  have t: "trace_row ?cols p = ?row p" if "p < N" for p
    using that r(1) by (subst trace_row_columns) simp_all
  have sb: "bf (running_sum hints p) = running_sum hints p" "0 \<le> running_sum hints p \<and> running_sum hints p < P31" if "p \<le> N" for p
    using running_sum_bound [of hints p] that by (simp_all add: N_def P31_def bf_def)
  have "cyclic_sat use_hint_v2_evaluate build_preproc_v2 ?cols N"
    unfolding cyclic_sat_def
  proof (intro allI impI)
    fix p assume p: "p < N"
    define q where "q = (p + N - 1) mod N"
    have q: "q < N" "q = (if p = 0 then N - 1 else p - 1)" using p cyclic_prev [OF p] by (simp_all add: q_def N_def)
    have len: "length (use_hint_batch_row w_prime hints p') = K * 10" if "p' < N" for p' using r(1) [OF that] by simp
    have cur: "?row p ! (K * 10) = running_sum hints (p + 1)" "?row q ! (K * 10) = running_sum hints (q + 1)"
      using len [OF p] len [OF q(1)] sb(1) [of "p + 1"] sb(1) [of "q + 1"] p q(1) by (simp_all add: nth_append)
    have "?row p ! (i * 10 + 1) = of_bool (hints ! i ! p)" if "i < K" for i
      using r(4) [OF p that] len [OF p] that by (simp add: nth_append)
    then have "(\<Sum>i<K. ?row p ! (i * 10 + 1)) = row_h_sum hints p" unfolding row_h_sum_eq by (intro sum.cong) simp_all
    then have hs: "foldl (\<lambda>acc i. acc + ?row p ! (i * 10 + 1)) (?row p ! 1) [1..<K] = row_h_sum hints p"
      using row_sum_eq [of "\<lambda>i. ?row p ! (i * 10 + 1)"] by simp
    have pre: "trace_row build_preproc_v2 p ! 0 = (if p = 0 then 1 else 0)" using p by (simp add: trace_row_def build_preproc_v2_def)
    have last: "running_sum hints (p + 1) - row_h_sum hints p - running_sum hints (q + 1)
        + (if p = 0 then 1 else 0) * running_sum hints (q + 1) = 0"
      using q(2) by (cases "p = 0") simp_all
    have "cells (?row p) (i * 10) 10 = cells (use_hint_batch_row w_prime hints p) (i * 10) 10" if "i < K" for i
      using len [OF p] that by (intro cells_prefix) simp
    then have "use_hint_batch_evaluate (?row p) = use_hint_batch_evaluate (use_hint_batch_row w_prime hints p)"
      unfolding use_hint_batch_evaluate_def by (intro arg_cong [where f = concat] map_cong) auto
    then have "\<forall>c\<in>set (use_hint_batch_evaluate (?row p)). c mod P31 = 0" using r(3) [OF p] by (simp add: row_sat_def)
    moreover have "cells_ok (?row p)" using r(2) [OF p] sb [of "p + 1"] p by simp
    ultimately show "cells_ok (trace_row ?cols p) \<and> (\<forall>c\<in>set (use_hint_v2_evaluate (trace_row build_preproc_v2 p) (trace_row ?cols p)
        (trace_row ?cols ((p + N - 1) mod N))). c mod P31 = 0)"
      unfolding q_def [symmetric] t [OF p] t [OF q(1)] use_hint_v2_evaluate_def Let_def cur hs pre last by simp
  qed
  then show "cyclic_sat use_hint_v2_evaluate build_preproc_v2 (fst (use_hint_v2_build_trace w_prime hints)) N"
    by (simp add: use_hint_v2_build_trace_def)
  show "length (fst (use_hint_v2_build_trace w_prime hints)) = K * 10 + 1" by (simp add: use_hint_v2_build_trace_def columns_def)
qed

section \<open>Properties\<close>

text \<open>
  C25. On polynomials of field elements the \<open>UseHint\<close> circuits accept their own traces: the batch circuit
  on every row, the circuit with the running weight on every row with its preprocessed column, the
  weight circuit on the flattened hints; the outputs are \<open>UseHint\<close> of every coefficient and the reported
  weight is the number of set hints.
\<close>

theorem use_hint_circuits_complete:
  assumes "\<forall>q\<in>set w_prime. zq_poly q" "length w_prime = K" "length hints = K" "\<forall>row\<in>set hints. length row = N"
  shows "trace_sat use_hint_batch_evaluate (fst (use_hint_batch_build_trace w_prime hints)) N
    \<and> cyclic_sat use_hint_v2_evaluate build_preproc_v2 (fst (use_hint_v2_build_trace w_prime hints)) N
    \<and> (\<exists>cols. hint_weight_build_trace hints = Some (cols, hint_weight_preproc, int (length (filter id (concat hints))))
         \<and> cyclic_sat hint_weight_evaluate hint_weight_preproc cols HW_ROWS)
    \<and> snd (use_hint_batch_build_trace w_prime hints) = map2 (map2 (\<lambda>h w. use_hint_val h w)) hints w_prime"
proof (intro conjI)
  have z: "in_zq (w_prime ! i ! p)" if "i < K" "p < N" for i p using assms(1,2) that by (simp add: zq_poly_nth N_def)
  show "trace_sat use_hint_batch_evaluate (fst (use_hint_batch_build_trace w_prime hints)) N"
    unfolding use_hint_batch_build_trace_def fst_conv
  proof (rule trace_sat_map)
    fix p assume "p < N"
    then show "length (use_hint_batch_row w_prime hints p) = K * 10 \<and> cells_ok (use_hint_batch_row w_prime hints p)
        \<and> row_sat use_hint_batch_evaluate (use_hint_batch_row w_prime hints p)"
      using use_hint_batch_row_ok(1-3) [where w_prime = w_prime and p = p and hints = hints, OF z] by blast
  qed
  show "cyclic_sat use_hint_v2_evaluate build_preproc_v2 (fst (use_hint_v2_build_trace w_prime hints)) N"
    by (rule use_hint_v2_complete [OF assms(1,2)])
  show "\<exists>cols. hint_weight_build_trace hints = Some (cols, hint_weight_preproc, int (length (filter id (concat hints))))
      \<and> cyclic_sat hint_weight_evaluate hint_weight_preproc cols HW_ROWS"
    using hint_weight_complete [OF assms(3,4)] by blast
  have l: "length (hints ! i) = N" "length (w_prime ! i) = N" if "i < K" for i
    using assms that by (simp_all add: zq_poly_def N_def)
  show "snd (use_hint_batch_build_trace w_prime hints) = map2 (map2 (\<lambda>h w. use_hint_val h w)) hints w_prime"
    by (rule nth_equalityI) (auto simp: use_hint_batch_build_trace_def assms l intro!: nth_equalityI)
qed

lemma use_hint_circuits_complete_witness:
  "trace_sat use_hint_batch_evaluate (fst (use_hint_batch_build_trace (replicate K (replicate N 1)) (replicate K (replicate N True)))) N"
  using use_hint_circuits_complete [of "replicate K (replicate N 1)" "replicate K (replicate N True)"]
  by (simp add: zq_poly_def in_zq_def N_def Q_def)

text \<open>
  C26. Soundness of the hint weight, against any trace whatever: with the preprocessed columns of the
  program, an accepted trace of the weight circuit has boolean hints, none beyond row \<open>K * N\<close>, and its
  last sum is their number; an accepted trace of the \<open>UseHint\<close> circuit with the running weight has boolean
  hints and its last sum is their number. No sum wraps in the field.
\<close>

theorem hint_weight_circuits_sound:
  assumes "length cols = 2" "cyclic_sat hint_weight_evaluate hint_weight_preproc cols HW_ROWS"
    "length cols2 = K * 10 + 1" "cyclic_sat use_hint_v2_evaluate build_preproc_v2 cols2 N"
  shows "(\<forall>i. i < HINT_ROWS \<longrightarrow> cols ! 1 ! i \<in> {0, 1}) \<and> cols ! 0 ! (HW_ROWS - 1) = (\<Sum>i<HINT_ROWS. cols ! 1 ! i)
    \<and> (\<forall>i p. i < K \<and> p < N \<longrightarrow> cols2 ! (i * 10 + 1) ! p \<in> {0, 1})
    \<and> cols2 ! (K * 10) ! (N - 1) = (\<Sum>p<N. \<Sum>i<K. cols2 ! (i * 10 + 1) ! p)"
proof (intro conjI allI impI)
  show "cols ! 1 ! i \<in> {0, 1}" if "i < HINT_ROWS" for i
    using hint_weight_rows(1) [OF assms(1,2), of i] that by (auto simp: HINT_ROWS_def HW_ROWS_def K_def N_def)
  show "cols ! 0 ! (HW_ROWS - 1) = (\<Sum>i<HINT_ROWS. cols ! 1 ! i)" by (rule hint_weight_total [OF assms(1,2)])
  note r = use_hint_v2_rows [OF assms(3,4)]
  show "cols2 ! (i * 10 + 1) ! p \<in> {0, 1}" if "i < K \<and> p < N" for i p using r(1) that by blast
  let ?x = "\<lambda>p. \<Sum>i<K. cols2 ! (i * 10 + 1) ! p"
  have x: "0 \<le> ?x p \<and> ?x p \<le> 6" if "p < N" for p
  proof -
    have b: "0 \<le> cols2 ! (i * 10 + 1) ! p \<and> cols2 ! (i * 10 + 1) ! p \<le> 1" if "i < K" for i using r(1) [OF \<open>p < N\<close> that] by auto
    have "?x p \<le> (\<Sum>i<K. 1)" using b by (intro sum_mono) simp
    moreover have "0 \<le> ?x p" using b by (intro sum_nonneg) simp
    ultimately show ?thesis by (simp add: K_def)
  qed
  have "cols2 ! (K * 10) ! (N - 1) = (\<Sum>p\<le>N - 1. ?x p) \<and> cols2 ! (K * 10) ! (N - 1) \<le> int (Suc (N - 1)) * 6"
  proof (rule running_total [of N "\<lambda>p. cols2 ! (K * 10) ! p" ?x 6 "N - 1"])
    show "0 \<le> cols2 ! (K * 10) ! p \<and> cols2 ! (K * 10) ! p < P31" "0 \<le> ?x p \<and> ?x p \<le> 6"
      "(cols2 ! (K * 10) ! p - (?x p + (if p = 0 then 0 else cols2 ! (K * 10) ! (p - 1)))) mod P31 = 0" if "p < N" for p
      using r(2,3) x that by blast+
  qed (simp_all add: N_def P31_def)
  then have "cols2 ! (K * 10) ! (N - 1) = (\<Sum>p\<le>N - 1. ?x p)" by simp
  then show "cols2 ! (K * 10) ! (N - 1) = (\<Sum>p<N. ?x p)" by (simp add: N_def lessThan_Suc_atMost [of 255, simplified])
qed

lemma hint_weight_circuits_sound_witness:
  "\<exists>cols. length cols = 2 \<and> cyclic_sat hint_weight_evaluate hint_weight_preproc cols HW_ROWS
     \<and> cols ! 0 ! (HW_ROWS - 1) = (\<Sum>i<HINT_ROWS. cols ! 1 ! i)"
proof -
  let ?h = "replicate K (replicate N True)" and ?w = "replicate K (replicate N (1 :: int))"
  have w: "\<forall>q\<in>set ?w. zq_poly q" "length ?w = K" by (simp_all add: zq_poly_def in_zq_def N_def Q_def)
  have h: "length ?h = K" "\<forall>row\<in>set ?h. length row = N" by simp_all
  obtain cols where c: "length cols = 2" "cyclic_sat hint_weight_evaluate hint_weight_preproc cols HW_ROWS"
    using hint_weight_complete [OF h] by blast
  from hint_weight_circuits_sound [OF c use_hint_v2_complete(2,1) [OF w, of ?h]] c show ?thesis by blast
qed

end
