(* ===== verification/Circuit_NTT.thy ===== *)
theory Circuit_NTT
  imports Circuit_Arith
begin

text \<open>
  The circuits of the number-theoretic transforms: one butterfly per row (\<open>mldsa_ntt_air.rs\<close>,
  \<open>mldsa_intt_air.rs\<close>) and one butterfly of each of \<open>n_polys\<close> polynomials per row with a shared twiddle
  factor (\<open>mldsa_ntt_batch_air.rs\<close>, \<open>mldsa_intt_batch_air.rs\<close>). Their trace builders run the loops of
  \<open>mldsa/ntt.rs\<close> and record every butterfly; the locale \<open>butterfly_loop\<close> says what such a recording loop
  keeps in step with the loop of the transform, once for the four builders.
\<close>

section \<open>The loops over the butterflies\<close>

text \<open>
  The loops over \<open>start\<close> and \<open>len\<close>, with the body of the innermost loop as a parameter: the four builders
  repeat these loops with their own bodies.
\<close>

function loop_blocks :: "(i64 \<Rightarrow> usize \<Rightarrow> 's \<Rightarrow> usize \<Rightarrow> 's) \<Rightarrow> i64 list \<Rightarrow> usize \<Rightarrow> usize \<Rightarrow> usize \<Rightarrow> 's \<Rightarrow> usize \<times> 's" where
  "loop_blocks body zetas len start k st =
     (if start < N \<and> 0 < len
      then loop_blocks body zetas len (start + 2 * len) (k + 1) (foldl (body (zetas ! k) len) st [start..<start + len])
      else (k, st))"
  by pat_completeness auto
termination
  by (relation "measure (\<lambda>(body, zetas, len, start, k, st). N - start)") auto

function ct_stages :: "(i64 \<Rightarrow> usize \<Rightarrow> 's \<Rightarrow> usize \<Rightarrow> 's) \<Rightarrow> i64 list \<Rightarrow> usize \<Rightarrow> usize \<Rightarrow> 's \<Rightarrow> 's" where
  "ct_stages body zetas len k st =
     (if len \<ge> 1
      then (let (k', st') = loop_blocks body zetas len 0 k st in ct_stages body zetas (drop_bit 1 len) k' st')
      else st)"
  by pat_completeness auto
termination
  by (relation "measure (\<lambda>(body, zetas, len, k, st). len)") (simp_all add: drop_bit_Suc drop_bit_eq_div)

function gs_stages :: "(i64 \<Rightarrow> usize \<Rightarrow> 's \<Rightarrow> usize \<Rightarrow> 's) \<Rightarrow> i64 list \<Rightarrow> usize \<Rightarrow> 's \<Rightarrow> 's" where
  "gs_stages body zetas len st =
     (if len \<le> 128 \<and> 0 < len
      then gs_stages body zetas (push_bit 1 len) (snd (loop_blocks body zetas len 0 (N div (2 * len)) st))
      else st)"
  by pat_completeness auto
termination
  by (relation "measure (\<lambda>(body, zetas, len, st). 129 - len)") (auto simp: push_bit_eq_mult)

declare loop_blocks.simps [simp del] ct_stages.simps [simp del] gs_stages.simps [simp del]

section \<open>Forward butterflies\<close>

record ButterflyRow =
  b_a_in :: i64
  b_b_in :: i64
  b_zeta :: i64
  b_t :: i64
  b_carry_t :: i64
  b_a_out :: i64
  b_b_out :: i64
  b_carry_a :: i64
  b_carry_b :: i64

definition compute_butterfly :: "i64 \<Rightarrow> i64 \<Rightarrow> i64 \<Rightarrow> ButterflyRow" where
  "compute_butterfly a_in b_in zeta_k =
     (let product = zeta_k * b_in; t = product smod Q; carry_t = product sdiv Q;
          sum = a_in + t; carry_a = (if sum \<ge> Q then 1 else 0); a_out = sum - carry_a * Q;
          diff = a_in - t; carry_b = (if diff < 0 then 1 else 0); b_out = diff + carry_b * Q
      in \<lparr>b_a_in = a_in, b_b_in = b_in, b_zeta = zeta_k, b_t = t, b_carry_t = carry_t,
          b_a_out = a_out, b_b_out = b_out, b_carry_a = carry_a, b_carry_b = carry_b\<rparr>)"

definition N_BUTTERFLIES :: nat where "N_BUTTERFLIES = 8 * (N div 2)"

definition ntt_step :: "i64 \<Rightarrow> usize \<Rightarrow> i64 list \<times> ButterflyRow list \<Rightarrow> usize \<Rightarrow> i64 list \<times> ButterflyRow list" where
  "ntt_step zeta_k len st j =
     (let (poly, rows) = st; row = compute_butterfly (poly ! j) (poly ! (j + len)) zeta_k
      in (poly[j := b_a_out row, j + len := b_b_out row], rows @ [row]))"

definition enumerate_ntt_butterflies :: "i64 list \<Rightarrow> ButterflyRow list \<times> i64 list" where
  "enumerate_ntt_butterflies f = prod.swap (ct_stages ntt_step zeta_fwd 128 1 (f, []))"

definition ntt_evaluate :: "'f::comm_ring_1 list \<Rightarrow> 'f list" where
  "ntt_evaluate row =
     (let a_in = row ! 0; b_in = row ! 1; zeta = row ! 2; t = row ! 3; carry_t = row ! 4; a_out = row ! 5; b_out = row ! 6;
          carry_a = row ! 7; carry_b = row ! 8;
          t_bits = cells row 9 N_BITS; ct_bits = cells row (9 + N_BITS) N_BITS
      in [zeta * b_in - t - carry_t * of_int Q, a_out - a_in - t + carry_a * of_int Q, carry_a * carry_a - carry_a,
          b_out - a_in + t - carry_b * of_int Q, carry_b * carry_b - carry_b]
         @ [t - bit_sum_from t_bits] @ bool_constraints t_bits
         @ [carry_t - bit_sum_from ct_bits] @ bool_constraints ct_bits)"

definition ntt_row_cells :: "ButterflyRow \<Rightarrow> int list" where
  "ntt_row_cells r =
     [bf (b_a_in r), bf (b_b_in r), bf (b_zeta r), bf (b_t r), bf (b_carry_t r), bf (b_a_out r), bf (b_b_out r),
      bf (b_carry_a r), bf (b_carry_b r)] @ bit_cells (b_t r) @ bit_cells (b_carry_t r)"

text \<open>The columns have \<open>2^10\<close> cells, those after the last butterfly zero.\<close>

definition padded :: "nat \<Rightarrow> int list list \<Rightarrow> int list list" where
  "padded w rows = rows @ replicate (2 ^ 10 - length rows) (replicate w 0)"

definition ntt_build_trace :: "i64 list \<Rightarrow> int list list \<times> i64 list" where
  "ntt_build_trace f =
     (let (butterflies, ntt_out) = enumerate_ntt_butterflies f; n_cols = 9 + 2 * N_BITS
      in (columns n_cols (padded n_cols (map ntt_row_cells butterflies)), ntt_out))"

section \<open>Inverse butterflies\<close>

record InttRow =
  i_a_in :: i64
  i_b_in :: i64
  i_zeta_inv :: i64
  i_diff :: i64
  i_carry_d :: i64
  i_a_out :: i64
  i_carry_a :: i64
  i_b_out :: i64
  i_carry_b :: i64

definition compute_gs_butterfly :: "i64 \<Rightarrow> i64 \<Rightarrow> i64 \<Rightarrow> InttRow" where
  "compute_gs_butterfly a_in b_in zeta_inv_k =
     (let raw_diff = a_in - b_in; carry_d = (if raw_diff < 0 then 1 else 0); diff = raw_diff + carry_d * Q;
          raw_a = a_in + b_in; carry_a = (if raw_a \<ge> Q then 1 else 0); a_out = raw_a - carry_a * Q;
          product = zeta_inv_k * diff; carry_b = product sdiv Q; b_out = product smod Q
      in \<lparr>i_a_in = a_in, i_b_in = b_in, i_zeta_inv = zeta_inv_k, i_diff = diff, i_carry_d = carry_d,
          i_a_out = a_out, i_carry_a = carry_a, i_b_out = b_out, i_carry_b = carry_b\<rparr>)"

definition intt_step :: "i64 \<Rightarrow> usize \<Rightarrow> i64 list \<times> InttRow list \<Rightarrow> usize \<Rightarrow> i64 list \<times> InttRow list" where
  "intt_step zeta_inv_k len st j =
     (let (poly, rows) = st; row = compute_gs_butterfly (poly ! j) (poly ! (j + len)) zeta_inv_k
      in (poly[j := i_a_out row, j + len := i_b_out row], rows @ [row]))"

definition enumerate_intt_butterflies :: "i64 list \<Rightarrow> InttRow list \<times> i64 list" where
  "enumerate_intt_butterflies f = prod.swap (gs_stages intt_step zeta_inv 1 (f, []))"

definition intt_evaluate :: "'f::comm_ring_1 list \<Rightarrow> 'f list" where
  "intt_evaluate row =
     (let a_in = row ! 0; b_in = row ! 1; zeta_i = row ! 2; diff = row ! 3; carry_d = row ! 4; a_out = row ! 5;
          carry_a = row ! 6; b_out = row ! 7; carry_b = row ! 8;
          bo_bits = cells row 9 N_BITS; cb_bits = cells row (9 + N_BITS) N_BITS
      in [diff - a_in + b_in - carry_d * of_int Q, carry_d * carry_d - carry_d,
          a_out - a_in - b_in + carry_a * of_int Q, carry_a * carry_a - carry_a,
          zeta_i * diff - b_out - carry_b * of_int Q]
         @ [b_out - bit_sum bo_bits] @ bool_constraints bo_bits
         @ [carry_b - bit_sum cb_bits] @ bool_constraints cb_bits)"

definition intt_row_cells :: "InttRow \<Rightarrow> int list" where
  "intt_row_cells r =
     [bf (i_a_in r), bf (i_b_in r), bf (i_zeta_inv r), bf (i_diff r), bf (i_carry_d r), bf (i_a_out r), bf (i_carry_a r),
      bf (i_b_out r), bf (i_carry_b r)] @ bit_cells (i_b_out r) @ bit_cells (i_carry_b r)"

definition intt_build_trace :: "i64 list \<Rightarrow> int list list \<times> i64 list" where
  "intt_build_trace f =
     (let (rows, unscaled) = enumerate_intt_butterflies f; n_cols = 9 + 2 * N_BITS
      in (columns n_cols (padded n_cols (map intt_row_cells rows)), map (\<lambda>c. field_mul c N_INV) unscaled))"

section \<open>Batches\<close>

definition NTT_COLS_PER_POLY :: nat where "NTT_COLS_PER_POLY = 8 + 2 * N_BITS"

definition n_cols_for :: "nat \<Rightarrow> nat" where
  "n_cols_for n_polys = 1 + n_polys * NTT_COLS_PER_POLY"

definition ntt_block_evaluate :: "'f::comm_ring_1 \<Rightarrow> 'f list \<Rightarrow> 'f list" where
  "ntt_block_evaluate zeta row =
     (let a_in = row ! 0; b_in = row ! 1; t = row ! 2; carry_t = row ! 3; a_out = row ! 4; b_out = row ! 5;
          carry_a = row ! 6; carry_b = row ! 7;
          t_bits = cells row 8 N_BITS; ct_bits = cells row (8 + N_BITS) N_BITS
      in [zeta * b_in - t - carry_t * of_int Q, a_out - a_in - t + carry_a * of_int Q, carry_a * carry_a - carry_a,
          b_out - a_in + t - carry_b * of_int Q, carry_b * carry_b - carry_b]
         @ [t - bit_sum_from t_bits] @ bool_constraints t_bits
         @ [carry_t - bit_sum_from ct_bits] @ bool_constraints ct_bits)"

definition intt_block_evaluate :: "'f::comm_ring_1 \<Rightarrow> 'f list \<Rightarrow> 'f list" where
  "intt_block_evaluate zeta_i row =
     (let a_in = row ! 0; b_in = row ! 1; diff = row ! 2; carry_d = row ! 3; a_out = row ! 4; carry_a = row ! 5;
          b_out = row ! 6; carry_b = row ! 7;
          bo_bits = cells row 8 N_BITS; cb_bits = cells row (8 + N_BITS) N_BITS
      in [diff - a_in + b_in - carry_d * of_int Q, carry_d * carry_d - carry_d,
          a_out - a_in - b_in + carry_a * of_int Q, carry_a * carry_a - carry_a,
          zeta_i * diff - b_out - carry_b * of_int Q]
         @ [b_out - bit_sum_from bo_bits] @ bool_constraints bo_bits
         @ [carry_b - bit_sum_from cb_bits] @ bool_constraints cb_bits)"

definition batch_evaluate :: "('f \<Rightarrow> 'f list \<Rightarrow> 'f list) \<Rightarrow> nat \<Rightarrow> 'f::comm_ring_1 list \<Rightarrow> 'f list" where
  "batch_evaluate block n_polys row =
     concat (map (\<lambda>j. block (row ! 0) (cells row (1 + j * NTT_COLS_PER_POLY) NTT_COLS_PER_POLY)) [0..<n_polys])"

definition ntt_batch_evaluate :: "nat \<Rightarrow> 'f::comm_ring_1 list \<Rightarrow> 'f list" where
  "ntt_batch_evaluate = batch_evaluate ntt_block_evaluate"

definition intt_batch_evaluate :: "nat \<Rightarrow> 'f::comm_ring_1 list \<Rightarrow> 'f list" where
  "intt_batch_evaluate = batch_evaluate intt_block_evaluate"

definition ntt_block_cells :: "ButterflyRow \<Rightarrow> int list" where
  "ntt_block_cells r =
     [bf (b_a_in r), bf (b_b_in r), bf (b_t r), bf (b_carry_t r), bf (b_a_out r), bf (b_b_out r),
      bf (b_carry_a r), bf (b_carry_b r)] @ bit_cells (b_t r) @ bit_cells (b_carry_t r)"

definition intt_block_cells :: "InttRow \<Rightarrow> int list" where
  "intt_block_cells r =
     [bf (i_a_in r), bf (i_b_in r), bf (i_diff r), bf (i_carry_d r), bf (i_a_out r), bf (i_carry_a r),
      bf (i_b_out r), bf (i_carry_b r)] @ bit_cells (i_b_out r) @ bit_cells (i_carry_b r)"

text \<open>One iteration of the builder: the loop over the polynomials updates their states and fills the row.\<close>

definition ntt_batch_step :: "nat \<Rightarrow> i64 \<Rightarrow> usize \<Rightarrow> i64 list list \<times> int list list \<Rightarrow> usize \<Rightarrow> i64 list list \<times> int list list" where
  "ntt_batch_step n_polys zeta_k len st j_coeff =
     (let (states, rows) = st;
          (states, row) = foldl (\<lambda>(states, row) poly_j.
              let poly = states ! poly_j;
                  r = compute_butterfly (poly ! j_coeff) (poly ! (j_coeff + len)) zeta_k
              in (states[poly_j := poly[j_coeff := b_a_out r, j_coeff + len := b_b_out r]],
                  row @ ntt_block_cells r))
            (states, [bf zeta_k]) [0..<n_polys]
      in (states, rows @ [row]))"

definition intt_batch_step :: "nat \<Rightarrow> i64 \<Rightarrow> usize \<Rightarrow> i64 list list \<times> int list list \<Rightarrow> usize \<Rightarrow> i64 list list \<times> int list list" where
  "intt_batch_step n_polys zeta_inv_k len st j_coeff =
     (let (states, rows) = st;
          (states, row) = foldl (\<lambda>(states, row) poly_j.
              let poly = states ! poly_j;
                  r = compute_gs_butterfly (poly ! j_coeff) (poly ! (j_coeff + len)) zeta_inv_k
              in (states[poly_j := poly[j_coeff := i_a_out r, j_coeff + len := i_b_out r]],
                  row @ intt_block_cells r))
            (states, [bf zeta_inv_k]) [0..<n_polys]
      in (states, rows @ [row]))"

definition ntt_batch_build_trace :: "i64 list list \<Rightarrow> int list list \<times> i64 list list" where
  "ntt_batch_build_trace polys =
     (let n_polys = length polys; n_cols = n_cols_for n_polys;
          (states, rows) = ct_stages (ntt_batch_step n_polys) zeta_fwd 128 1 (polys, [])
      in (columns n_cols (padded n_cols rows), states))"

definition intt_batch_build_trace :: "i64 list list \<Rightarrow> int list list \<times> i64 list list" where
  "intt_batch_build_trace polys =
     (let n_polys = length polys; n_cols = n_cols_for n_polys;
          (states, rows) = gs_stages (intt_batch_step n_polys) zeta_inv 1 (polys, [])
      in (columns n_cols (padded n_cols rows), map (map (\<lambda>v. field_mul v N_INV)) states))"

section \<open>Recording loops\<close>

lemma loop_blocks_ntt: "loop_blocks ct_butterfly zs len start k f = ntt_blocks zs len start k f"
proof (induction zs len start k f rule: ntt_blocks.induct)
  case (1 zs len start k f)
  then show ?case by (subst loop_blocks.simps, subst ntt_blocks.simps) simp
qed

lemma loop_blocks_intt: "snd (loop_blocks gs_butterfly zs len start k f) = ntt_inv_blocks zs len start k f"
proof (induction zs len start k f rule: ntt_inv_blocks.induct)
  case (1 zs len start k f)
  then show ?case by (subst loop_blocks.simps, subst ntt_inv_blocks.simps) simp
qed

lemma ct_stages_ntt: "ct_stages ct_butterfly zs len k f = ntt_stages zs len k f"
proof (induction zs len k f rule: ntt_stages.induct)
  case (1 zs len k f)
  then show ?case
    by (subst ct_stages.simps, subst ntt_stages.simps) (auto simp: loop_blocks_ntt split: prod.splits)
qed

lemma gs_stages_intt: "gs_stages gs_butterfly zs len f = ntt_inv_stages zs len f"
proof (induction zs len f rule: ntt_inv_stages.induct)
  case (1 zs len f)
  then show ?case by (subst gs_stages.simps, subst ntt_inv_stages.simps) (auto simp: loop_blocks_intt)
qed

text \<open>
  \<open>Rel n st f\<close>: after \<open>n\<close> butterflies the recording loop is in state \<open>st\<close> where the loop of the transform has
  the array \<open>f\<close>. A body that keeps the relation for one butterfly keeps it for the whole transform, which
  makes \<open>1024\<close> of them.
\<close>

locale butterfly_loop =
  fixes body :: "i64 \<Rightarrow> usize \<Rightarrow> 's \<Rightarrow> usize \<Rightarrow> 's" and ref :: "i64 \<Rightarrow> usize \<Rightarrow> i64 list \<Rightarrow> usize \<Rightarrow> i64 list"
    and Rel :: "nat \<Rightarrow> 's \<Rightarrow> i64 list \<Rightarrow> bool"
  assumes body_step: "Rel n st f \<Longrightarrow> zq_poly f \<Longrightarrow> in_zq z \<Longrightarrow> 0 < len \<Longrightarrow> j + len < 256 \<Longrightarrow> Rel (Suc n) (body z len st j) (ref z len f j)"
    and ref_range: "zq_poly f \<Longrightarrow> in_zq z \<Longrightarrow> 0 < len \<Longrightarrow> j + len < 256 \<Longrightarrow> zq_poly (ref z len f j)"
begin

lemma inner_loop:
  assumes "Rel n st f" "zq_poly f" "in_zq z" "0 < len" "\<And>j. j \<in> set js \<Longrightarrow> j + len < 256"
  shows "Rel (n + length js) (foldl (body z len) st js) (foldl (ref z len) f js) \<and> zq_poly (foldl (ref z len) f js)"
  using assms
proof (induction js arbitrary: n st f)
  case (Cons j js)
  have "Rel (Suc n) (body z len st j) (ref z len f j)" "zq_poly (ref z len f j)"
    using Cons.prems by (simp_all add: body_step ref_range)
  then have "Rel (Suc n + length js) (foldl (body z len) (body z len st j) js) (foldl (ref z len) (ref z len f j) js)
      \<and> zq_poly (foldl (ref z len) (ref z len f j) js)" by (rule Cons.IH) (use Cons.prems in auto)
  then show ?case by simp
qed simp

lemma blocks:
  assumes "Rel n st f" "zq_poly f" "zq_poly zs" "0 < len" "2 * len dvd 256" "2 * len dvd start" "start \<le> 256"
    "k + (256 - start) div (2 * len) \<le> 256"
  shows "fst (loop_blocks body zs len start k st) = k + (256 - start) div (2 * len)
    \<and> fst (loop_blocks ref zs len start k f) = k + (256 - start) div (2 * len)
    \<and> Rel (n + len * ((256 - start) div (2 * len))) (snd (loop_blocks body zs len start k st)) (snd (loop_blocks ref zs len start k f))
    \<and> zq_poly (snd (loop_blocks ref zs len start k f))"
  using assms
proof (induction "256 - start" arbitrary: n st f start k rule: less_induct)
  case less
  note prems = less.prems
  show ?case
  proof (cases "start < 256")
    case False
    then show ?thesis using prems
      by (subst (1 2 3 4 5) loop_blocks.simps) (simp add: N_def)
  next
    case True
    have fit: "start + 2 * len \<le> 256" using block_fits True prems by blast
    have m: "(256 - start) div (2 * len) = Suc ((256 - (start + 2 * len)) div (2 * len))"
      using fit prems(4) by (subst le_div_geq) auto
    have z: "in_zq (zs ! k)" using m prems by (intro zq_poly_nth) simp_all
    have inner: "Rel (n + len) (foldl (body (zs ! k) len) st [start..<start + len]) (foldl (ref (zs ! k) len) f [start..<start + len])
        \<and> zq_poly (foldl (ref (zs ! k) len) f [start..<start + len])"
      using inner_loop [OF prems(1,2) z prems(4), of "[start..<start + len]"] fit by simp
    have "fst (loop_blocks body zs len (start + 2 * len) (k + 1) (foldl (body (zs ! k) len) st [start..<start + len]))
        = k + 1 + (256 - (start + 2 * len)) div (2 * len)
      \<and> fst (loop_blocks ref zs len (start + 2 * len) (k + 1) (foldl (ref (zs ! k) len) f [start..<start + len]))
        = k + 1 + (256 - (start + 2 * len)) div (2 * len)
      \<and> Rel (n + len + len * ((256 - (start + 2 * len)) div (2 * len)))
          (snd (loop_blocks body zs len (start + 2 * len) (k + 1) (foldl (body (zs ! k) len) st [start..<start + len])))
          (snd (loop_blocks ref zs len (start + 2 * len) (k + 1) (foldl (ref (zs ! k) len) f [start..<start + len])))
      \<and> zq_poly (snd (loop_blocks ref zs len (start + 2 * len) (k + 1) (foldl (ref (zs ! k) len) f [start..<start + len])))"
      by (intro less.hyps) (use True inner fit m prems in auto)
    then show ?thesis
      using True prems(4) m by (subst (1 2 3 4 5) loop_blocks.simps) (simp add: N_def add.assoc)
  qed
qed

lemma ct_loop:
  assumes "zq_poly zs" "s \<le> 7" "Rel n st f" "zq_poly f"
  shows "Rel (n + 128 * Suc s) (ct_stages body zs (2 ^ s) (2 ^ (7 - s)) st) (ct_stages ref zs (2 ^ s) (2 ^ (7 - s)) f)"
  using assms(2-4)
proof (induction s arbitrary: n st f)
  case 0
  have fin: "ct_stages r zs 0 k x = x" for r :: "i64 \<Rightarrow> usize \<Rightarrow> 'z \<Rightarrow> usize \<Rightarrow> 'z" and k x by (subst ct_stages.simps) simp
  have one: "ct_stages r zs 1 128 x = ct_stages r zs 0 (fst (loop_blocks r zs 1 0 128 x)) (snd (loop_blocks r zs 1 0 128 x))"
    for r :: "i64 \<Rightarrow> usize \<Rightarrow> 'z \<Rightarrow> usize \<Rightarrow> 'z" and x by (subst ct_stages.simps) (simp add: case_prod_unfold drop_bit_Suc Let_def)
  show ?case using blocks [OF 0(2,3) assms(1), of 1 0 128] by (simp add: one [simplified] fin)
next
  case (Suc s)
  have "7 - s = Suc (7 - Suc s)" using Suc.prems(1) by simp
  then have dbl: "2 ^ (7 - s) = 2 * (2 :: nat) ^ (7 - Suc s)" by simp
  have step: "ct_stages r zs (2 ^ Suc s) (2 ^ (7 - Suc s)) x
      = ct_stages r zs (2 ^ s) (fst (loop_blocks r zs (2 ^ Suc s) 0 (2 ^ (7 - Suc s)) x)) (snd (loop_blocks r zs (2 ^ Suc s) 0 (2 ^ (7 - Suc s)) x))"
    for r :: "i64 \<Rightarrow> usize \<Rightarrow> 'z \<Rightarrow> usize \<Rightarrow> 'z" and x
    by (subst ct_stages.simps) (simp add: case_prod_unfold drop_bit_eq_div Let_def)
  have pow: "2 * 2 ^ Suc s * 2 ^ (7 - Suc s) = (256 :: nat)"
    using Suc.prems(1) by (simp flip: power_add power_Suc)
  have d: "2 * 2 ^ Suc s dvd (256 :: nat)" by (metis dvd_triv_left pow)
  have q: "256 div (2 * 2 ^ Suc s) = (2 :: nat) ^ (7 - Suc s)" by (metis pow nonzero_mult_div_cancel_left power_not_zero mult_eq_0_iff zero_neq_numeral)
  have k: "2 ^ (7 - Suc s) + 2 ^ (7 - Suc s) = (2 :: nat) ^ (7 - s)" using dbl by simp
  have "(2 :: nat) ^ (7 - s) \<le> 2 ^ 8" by (rule power_increasing) simp_all
  then have kb: "2 ^ (7 - Suc s) + (256 - 0) div (2 * 2 ^ Suc s) \<le> (256 :: nat)" using k q by simp
  have pos: "0 < (2 :: nat) ^ Suc s" by simp
  note b = blocks [OF Suc.prems(2,3) assms(1) pos d dvd_0_right le0 kb, unfolded q minus_nat.diff_0 k]
  have cnt: "2 ^ Suc s * 2 ^ (7 - Suc s) = (128 :: nat)" using pow by simp
  have "Rel (n + 128 + 128 * Suc s)
      (ct_stages body zs (2 ^ s) (2 ^ (7 - s)) (snd (loop_blocks body zs (2 ^ Suc s) 0 (2 ^ (7 - Suc s)) st)))
      (ct_stages ref zs (2 ^ s) (2 ^ (7 - s)) (snd (loop_blocks ref zs (2 ^ Suc s) 0 (2 ^ (7 - Suc s)) f)))"
    using b Suc.prems(1) unfolding cnt by (intro Suc.IH) simp_all
  moreover have "n + 128 * Suc (Suc s) = n + 128 + 128 * Suc s" by simp
  moreover note b [THEN conjunct1] b [THEN conjunct2, THEN conjunct1]
  ultimately show ?case unfolding step by (simp only:)
qed

lemma gs_loop:
  assumes "zq_poly zs" "s \<le> 7" "Rel n st f" "zq_poly f"
  shows "Rel (n + 128 * Suc s) (gs_stages body zs (2 ^ (7 - s)) st) (gs_stages ref zs (2 ^ (7 - s)) f)"
  using assms(2-4)
proof (induction s arbitrary: n st f)
  case 0
  have fin: "gs_stages r zs 256 x = x" for r :: "i64 \<Rightarrow> usize \<Rightarrow> 'z \<Rightarrow> usize \<Rightarrow> 'z" and x by (subst gs_stages.simps) simp
  have one: "gs_stages r zs 128 x = gs_stages r zs 256 (snd (loop_blocks r zs 128 0 1 x))"
    for r :: "i64 \<Rightarrow> usize \<Rightarrow> 'z \<Rightarrow> usize \<Rightarrow> 'z" and x by (subst gs_stages.simps) (simp add: push_bit_Suc N_def)
  show ?case using blocks [OF 0(2,3) assms(1), of 128 0 1] by (simp add: one [simplified] fin)
next
  case (Suc s)
  define l where "l = (2 :: nat) ^ (7 - Suc s)"
  have "7 - s = Suc (7 - Suc s)" using Suc.prems(1) by simp
  then have l: "2 ^ (7 - s) = 2 * l" "0 < l" by (simp_all add: l_def)
  have pow: "2 * l * 2 ^ Suc s = 256" using Suc.prems(1) unfolding l_def by (simp flip: power_add power_Suc)
  have le: "l \<le> 128" unfolding l_def using power_increasing [of "7 - Suc s" 7 "2 :: nat"] by simp
  have step: "gs_stages r zs l x = gs_stages r zs (2 * l) (snd (loop_blocks r zs l 0 (N div (2 * l)) x))"
    for r :: "i64 \<Rightarrow> usize \<Rightarrow> 'z \<Rightarrow> usize \<Rightarrow> 'z" and x using l le
    by (subst gs_stages.simps) (simp add: push_bit_eq_mult mult.commute)
  have d: "2 * l dvd 256" by (metis dvd_triv_left pow)
  have q: "256 div (2 * l) = 2 ^ Suc s" by (metis pow nonzero_mult_div_cancel_left l(2) mult_eq_0_iff zero_neq_numeral less_irrefl)
  have "(2 :: nat) ^ Suc s \<le> 2 ^ 7" using Suc.prems(1) by (intro power_increasing) simp_all
  then have "N div (2 * l) + (256 - 0) div (2 * l) \<le> 256" by (simp add: N_def q)
  note b = blocks [OF Suc.prems(2,3) assms(1) l(2) d _ _ this, simplified]
  have cnt: "l * (256 div (2 * l)) = 128" using pow q by simp
  have "Rel (n + 128 + 128 * Suc s)
      (gs_stages body zs (2 ^ (7 - s)) (snd (loop_blocks body zs l 0 (N div (2 * l)) st)))
      (gs_stages ref zs (2 ^ (7 - s)) (snd (loop_blocks ref zs l 0 (N div (2 * l)) f)))"
    using b Suc.prems(1) cnt by (intro Suc.IH) simp_all
  moreover have "n + 128 * Suc (Suc s) = n + 128 + 128 * Suc s" by simp
  ultimately show ?case unfolding l_def [symmetric] step by (simp only: l(1))
qed

lemma records:
  assumes "Rel 0 st f" "zq_poly f"
  shows "Rel N_BUTTERFLIES (ct_stages body zeta_fwd 128 1 st) (ct_stages ref zeta_fwd 128 1 f)"
    "Rel N_BUTTERFLIES (gs_stages body zeta_inv 1 st) (gs_stages ref zeta_inv 1 f)"
  using ct_loop [OF zq_poly_zeta(1) _ assms, of 7] gs_loop [OF zq_poly_zeta(2) _ assms, of 7]
  by (simp_all add: N_BUTTERFLIES_def N_def)

end

section \<open>One butterfly\<close>

lemma butterfly_values:
  assumes "in_zq a" "in_zq b" "in_zq z" and r: "r = compute_butterfly a b z"
  shows "b_a_in r = a" "b_b_in r = b" "b_zeta r = z" "in_zq (b_t r)" "in_zq (b_carry_t r)" "in_zq (b_a_out r)" "in_zq (b_b_out r)"
    "b_carry_a r = 0 \<or> b_carry_a r = 1" "b_carry_b r = 0 \<or> b_carry_b r = 1"
    "z * b - b_t r - b_carry_t r * Q = 0" "b_a_out r - a - b_t r + b_carry_a r * Q = 0" "b_b_out r - a + b_t r - b_carry_b r * Q = 0"
    "b_a_out r = ct_up z a b" "b_b_out r = ct_dn z a b"
proof -
  note p = zq_product [OF assms(3,2)]
  have t: "b_t r = z * b mod Q" "b_carry_t r = z * b div Q" by (simp_all add: r compute_butterfly_def p(1,2) Let_def)
  have zt: "0 \<le> b_t r" "b_t r < Q" unfolding t by (simp_all add: Q_def)
  have a: "0 \<le> a" "a < Q" using assms(1) by (simp_all add: in_zq_def)
  show "b_a_in r = a" "b_b_in r = b" "b_zeta r = z" "b_carry_a r = 0 \<or> b_carry_a r = 1" "b_carry_b r = 0 \<or> b_carry_b r = 1"
    by (simp_all add: r compute_butterfly_def Let_def)
  show "in_zq (b_t r)" using zt by (simp add: in_zq_def)
  show "in_zq (b_carry_t r)" using p(3,4) by (simp add: t in_zq_def)
  show "z * b - b_t r - b_carry_t r * Q = 0" by (simp add: t minus_div_mult_eq_mod [symmetric])
  have o: "b_a_out r = a + b_t r - (if a + b_t r \<ge> Q then 1 else 0) * Q" "b_b_out r = a - b_t r + (if a - b_t r < 0 then 1 else 0) * Q"
    "b_carry_a r = (if a + b_t r \<ge> Q then 1 else 0)" "b_carry_b r = (if a - b_t r < 0 then 1 else 0)"
    by (simp_all add: r compute_butterfly_def Let_def)
  show "b_a_out r - a - b_t r + b_carry_a r * Q = 0" "b_b_out r - a + b_t r - b_carry_b r * Q = 0" by (simp_all add: o)
  have u: "b_a_out r = (a + b_t r) mod Q" "b_b_out r = (a - b_t r) mod Q"
    using a zt mod_pos_pos_trivial [of "a - b_t r + Q" Q] mod_add_self2 [of "a - b_t r" Q] mod_pos_pos_trivial [of "a + b_t r - Q" Q] minus_mod_self2 [of "a + b_t r" Q]
    by (auto simp: o)
  show "b_a_out r = ct_up z a b" "b_b_out r = ct_dn z a b"
    by (simp_all add: u ct_up_def ct_dn_def t mod_add_right_eq mod_diff_right_eq)
  show "in_zq (b_a_out r)" "in_zq (b_b_out r)" unfolding u by simp_all
qed

lemma gs_butterfly_values:
  assumes "in_zq a" "in_zq b" "in_zq z" and r: "r = compute_gs_butterfly a b z"
  shows "i_a_in r = a" "i_b_in r = b" "i_zeta_inv r = z" "in_zq (i_diff r)" "in_zq (i_a_out r)" "in_zq (i_b_out r)" "in_zq (i_carry_b r)"
    "i_carry_a r = 0 \<or> i_carry_a r = 1" "i_carry_d r = 0 \<or> i_carry_d r = 1"
    "i_diff r - a + b - i_carry_d r * Q = 0" "i_a_out r - a - b + i_carry_a r * Q = 0" "z * i_diff r - i_b_out r - i_carry_b r * Q = 0"
    "i_a_out r = gs_up z a b" "i_b_out r = gs_dn z a b"
proof -
  have ab: "0 \<le> a" "a < Q" "0 \<le> b" "b < Q" using assms(1,2) by (simp_all add: in_zq_def)
  show "i_a_in r = a" "i_b_in r = b" "i_zeta_inv r = z" "i_carry_a r = 0 \<or> i_carry_a r = 1" "i_carry_d r = 0 \<or> i_carry_d r = 1"
    by (simp_all add: r compute_gs_butterfly_def Let_def)
  have o: "i_diff r = a - b + (if a - b < 0 then 1 else 0) * Q" "i_carry_d r = (if a - b < 0 then 1 else 0)"
    "i_a_out r = a + b - (if a + b \<ge> Q then 1 else 0) * Q" "i_carry_a r = (if a + b \<ge> Q then 1 else 0)"
    by (simp_all add: r compute_gs_butterfly_def Let_def)
  show "i_diff r - a + b - i_carry_d r * Q = 0" "i_a_out r - a - b + i_carry_a r * Q = 0" by (simp_all add: o)
  have u: "i_diff r = (a - b) mod Q" "i_a_out r = (a + b) mod Q"
    using ab mod_pos_pos_trivial [of "a - b + Q" Q] mod_add_self2 [of "a - b" Q] mod_pos_pos_trivial [of "a + b - Q" Q] minus_mod_self2 [of "a + b" Q]
    by (auto simp: o)
  show d: "in_zq (i_diff r)" "in_zq (i_a_out r)" unfolding u by simp_all
  note p = zq_product [OF assms(3) d(1)]
  have b: "i_b_out r = z * i_diff r mod Q" "i_carry_b r = z * i_diff r div Q"
    using p(1,2) unfolding o(1) by (simp_all add: r compute_gs_butterfly_def Let_def)
  show "in_zq (i_b_out r)" "in_zq (i_carry_b r)" using p(3,4) by (simp_all add: b) (simp add: in_zq_def)
  show "z * i_diff r - i_b_out r - i_carry_b r * Q = 0" by (simp add: b minus_div_mult_eq_mod [symmetric])
  show "i_a_out r = gs_up z a b" "i_b_out r = gs_dn z a b" by (simp_all add: u b gs_up_def gs_dn_def mod_mult_right_eq)
qed

text \<open>Cells of two decompositions after a prefix.\<close>

lemma cells_two:
  assumes "length pre = a" "length as = N_BITS" "length bs = N_BITS"
  shows "cells (pre @ as @ bs) a N_BITS = as" "cells (pre @ as @ bs) (a + N_BITS) N_BITS = bs"
  using cells_append [OF assms(1,2), of bs] cells_append [of "pre @ as" "a + N_BITS" bs N_BITS "[]"] assms by simp_all

lemma bit_cell: "b = 0 \<or> b = 1 \<Longrightarrow> bf b = b \<and> 0 \<le> b \<and> b < P31"
  by (auto simp: bf_def P31_def)

lemma bit_square: "b = 0 \<or> b = 1 \<Longrightarrow> (b * b - b) mod P31 = 0"
  by auto

lemma ne_bit_cells: "bit_cells v \<noteq> []"
  using length_bit_cells [of v] by (metis N_BITS_def list.size(3) zero_neq_numeral)

lemma ntt_row_ok:
  assumes "in_zq a" "in_zq b" "in_zq z"
  shows "length (ntt_row_cells (compute_butterfly a b z)) = 9 + 2 * N_BITS" "cells_ok (ntt_row_cells (compute_butterfly a b z))"
    "row_sat ntt_evaluate (ntt_row_cells (compute_butterfly a b z))"
    "length (ntt_block_cells (compute_butterfly a b z)) = NTT_COLS_PER_POLY" "cells_ok (ntt_block_cells (compute_butterfly a b z))"
    "row_sat (ntt_block_evaluate z) (ntt_block_cells (compute_butterfly a b z))"
proof -
  define r where "r = compute_butterfly a b z"
  note v = butterfly_values [OF assms r_def]
  note zc = zq_cell [OF assms(1)] zq_cell [OF assms(2)] zq_cell [OF assms(3)] zq_cell [OF v(4)] zq_cell [OF v(5)] zq_cell [OF v(6)]
    zq_cell [OF v(7)] bit_cell [OF v(8)] bit_cell [OF v(9)]
  note bc = bit_cells_sat [of "b_t r"] bit_cells_sat [of "b_carry_t r"]
  note bool = bit_square [OF v(8)] bit_square [OF v(9)]
  have row: "ntt_row_cells r = [a, b, z, b_t r, b_carry_t r, b_a_out r, b_b_out r, b_carry_a r, b_carry_b r] @ bit_cells (b_t r) @ bit_cells (b_carry_t r)"
    "ntt_block_cells r = [a, b, b_t r, b_carry_t r, b_a_out r, b_b_out r, b_carry_a r, b_carry_b r] @ bit_cells (b_t r) @ bit_cells (b_carry_t r)"
    using zc by (simp_all add: ntt_row_cells_def ntt_block_cells_def v(1-3))
  show "length (ntt_row_cells r) = 9 + 2 * N_BITS" "length (ntt_block_cells r) = NTT_COLS_PER_POLY" by (simp_all add: row NTT_COLS_PER_POLY_def)
  show "cells_ok (ntt_row_cells r)" "cells_ok (ntt_block_cells r)" using zc bc by (simp_all add: row)
  have k: "cells (ntt_row_cells r) 9 N_BITS = bit_cells (b_t r)" "cells (ntt_row_cells r) (9 + N_BITS) N_BITS = bit_cells (b_carry_t r)"
    "cells (ntt_block_cells r) 8 N_BITS = bit_cells (b_t r)" "cells (ntt_block_cells r) (8 + N_BITS) N_BITS = bit_cells (b_carry_t r)"
    unfolding row by (rule cells_two; simp)+
  show "row_sat ntt_evaluate (ntt_row_cells r)"
    using zc bc v(10-12) bool unfolding row_sat_def ntt_evaluate_def Let_def k bit_sum_from_value [OF ne_bit_cells]
    by (simp add: row ball_Un)
  show "row_sat (ntt_block_evaluate z) (ntt_block_cells r)"
    using zc bc v(10-12) bool unfolding row_sat_def ntt_block_evaluate_def Let_def k bit_sum_from_value [OF ne_bit_cells]
    by (simp add: row ball_Un)
qed

lemma intt_row_ok:
  assumes "in_zq a" "in_zq b" "in_zq z"
  shows "length (intt_row_cells (compute_gs_butterfly a b z)) = 9 + 2 * N_BITS" "cells_ok (intt_row_cells (compute_gs_butterfly a b z))"
    "row_sat intt_evaluate (intt_row_cells (compute_gs_butterfly a b z))"
    "length (intt_block_cells (compute_gs_butterfly a b z)) = NTT_COLS_PER_POLY" "cells_ok (intt_block_cells (compute_gs_butterfly a b z))"
    "row_sat (intt_block_evaluate z) (intt_block_cells (compute_gs_butterfly a b z))"
proof -
  define r where "r = compute_gs_butterfly a b z"
  note v = gs_butterfly_values [OF assms r_def]
  note zc = zq_cell [OF assms(1)] zq_cell [OF assms(2)] zq_cell [OF assms(3)] zq_cell [OF v(4)] zq_cell [OF v(5)] zq_cell [OF v(6)]
    zq_cell [OF v(7)] bit_cell [OF v(8)] bit_cell [OF v(9)]
  note bc = bit_cells_sat [of "i_b_out r"] bit_cells_sat [of "i_carry_b r"]
  note bool = bit_square [OF v(8)] bit_square [OF v(9)]
  have row: "intt_row_cells r = [a, b, z, i_diff r, i_carry_d r, i_a_out r, i_carry_a r, i_b_out r, i_carry_b r] @ bit_cells (i_b_out r) @ bit_cells (i_carry_b r)"
    "intt_block_cells r = [a, b, i_diff r, i_carry_d r, i_a_out r, i_carry_a r, i_b_out r, i_carry_b r] @ bit_cells (i_b_out r) @ bit_cells (i_carry_b r)"
    using zc by (simp_all add: intt_row_cells_def intt_block_cells_def v(1-3))
  show "length (intt_row_cells r) = 9 + 2 * N_BITS" "length (intt_block_cells r) = NTT_COLS_PER_POLY" by (simp_all add: row NTT_COLS_PER_POLY_def)
  show "cells_ok (intt_row_cells r)" "cells_ok (intt_block_cells r)" using zc bc by (simp_all add: row)
  have k: "cells (intt_row_cells r) 9 N_BITS = bit_cells (i_b_out r)" "cells (intt_row_cells r) (9 + N_BITS) N_BITS = bit_cells (i_carry_b r)"
    "cells (intt_block_cells r) 8 N_BITS = bit_cells (i_b_out r)" "cells (intt_block_cells r) (8 + N_BITS) N_BITS = bit_cells (i_carry_b r)"
    unfolding row by (rule cells_two; simp)+
  show "row_sat intt_evaluate (intt_row_cells r)"
    using zc bc v(10-12) bool unfolding row_sat_def intt_evaluate_def Let_def k bit_sum_value
    by (simp add: row ball_Un)
  show "row_sat (intt_block_evaluate z) (intt_block_cells r)"
    using zc bc v(10-12) bool unfolding row_sat_def intt_block_evaluate_def Let_def k bit_sum_from_value [OF ne_bit_cells]
    by (simp add: row ball_Un)
qed

section \<open>The four builders\<close>

lemma ct_ref_range: "zq_poly f \<Longrightarrow> in_zq z \<Longrightarrow> 0 < len \<Longrightarrow> j + len < 256 \<Longrightarrow> zq_poly (ct_butterfly z len f j)"
  by (simp add: ct_butterfly_pair pair_update_def zq_poly_update ct_up_def ct_dn_def)

lemma gs_ref_range: "zq_poly f \<Longrightarrow> in_zq z \<Longrightarrow> 0 < len \<Longrightarrow> j + len < 256 \<Longrightarrow> zq_poly (gs_butterfly z len f j)"
  by (simp add: gs_butterfly_pair pair_update_def zq_poly_update gs_up_def gs_dn_def)

text \<open>One polynomial: the rows are butterflies of field elements and the array is that of the transform.\<close>

definition ntt_rel :: "nat \<Rightarrow> i64 list \<times> ButterflyRow list \<Rightarrow> i64 list \<Rightarrow> bool" where
  "ntt_rel n st f \<longleftrightarrow> fst st = f \<and> length (snd st) = n
     \<and> (\<forall>r\<in>set (snd st). \<exists>a b z. in_zq a \<and> in_zq b \<and> in_zq z \<and> r = compute_butterfly a b z)"

definition intt_rel :: "nat \<Rightarrow> i64 list \<times> InttRow list \<Rightarrow> i64 list \<Rightarrow> bool" where
  "intt_rel n st f \<longleftrightarrow> fst st = f \<and> length (snd st) = n
     \<and> (\<forall>r\<in>set (snd st). \<exists>a b z. in_zq a \<and> in_zq b \<and> in_zq z \<and> r = compute_gs_butterfly a b z)"

lemma ntt_step_rel:
  assumes "ntt_rel n st f" "zq_poly f" "in_zq z" "0 < len" "j + len < 256"
  shows "ntt_rel (Suc n) (ntt_step z len st j) (ct_butterfly z len f j)"
proof -
  have f: "in_zq (f ! j)" "in_zq (f ! (j + len))" using assms(2,5) by (simp_all add: zq_poly_nth)
  note v = butterfly_values(13,14) [OF f assms(3) refl]
  have "ct_butterfly z len f j = f[j := b_a_out (compute_butterfly (f ! j) (f ! (j + len)) z),
      j + len := b_b_out (compute_butterfly (f ! j) (f ! (j + len)) z)]"
    using assms by (simp add: ct_butterfly_pair pair_update_def v)
  then show ?thesis using assms(1,3) f by (auto simp: ntt_rel_def ntt_step_def Let_def case_prod_unfold)
qed

lemma intt_step_rel:
  assumes "intt_rel n st f" "zq_poly f" "in_zq z" "0 < len" "j + len < 256"
  shows "intt_rel (Suc n) (intt_step z len st j) (gs_butterfly z len f j)"
proof -
  have f: "in_zq (f ! j)" "in_zq (f ! (j + len))" using assms(2,5) by (simp_all add: zq_poly_nth)
  note v = gs_butterfly_values(13,14) [OF f assms(3) refl]
  have "gs_butterfly z len f j = f[j := i_a_out (compute_gs_butterfly (f ! j) (f ! (j + len)) z),
      j + len := i_b_out (compute_gs_butterfly (f ! j) (f ! (j + len)) z)]"
    using assms by (simp add: gs_butterfly_pair pair_update_def v)
  then show ?thesis using assms(1,3) f by (auto simp: intt_rel_def intt_step_def Let_def case_prod_unfold)
qed

interpretation ntt_rows: butterfly_loop ntt_step ct_butterfly ntt_rel
  by unfold_locales (rule ntt_step_rel ct_ref_range; assumption)+

interpretation intt_rows: butterfly_loop intt_step gs_butterfly intt_rel
  by unfold_locales (rule intt_step_rel gs_ref_range; assumption)+

text \<open>The batches: every state is an array of field elements, that of polynomial \<open>j\<close> being that of its transform.\<close>

definition batch_rel ::
  "(int list \<Rightarrow> int list) \<Rightarrow> nat \<Rightarrow> nat \<Rightarrow> nat \<Rightarrow> i64 list list \<times> int list list \<Rightarrow> i64 list \<Rightarrow> bool" where
  "batch_rel ev n_polys j n st f \<longleftrightarrow> length (fst st) = n_polys \<and> (\<forall>q\<in>set (fst st). zq_poly q) \<and> (j < n_polys \<longrightarrow> fst st ! j = f)
     \<and> length (snd st) = n \<and> (\<forall>row\<in>set (snd st). length row = n_cols_for n_polys \<and> cells_ok row \<and> row_sat ev row)"

lemma polys_loop:
  "m \<le> length states \<Longrightarrow> foldl (\<lambda>(states, row) i. (states[i := upd (states ! i)], row @ cl (states ! i))) (states, row) [0..<m]
     = (map upd (take m states) @ drop m states, row @ concat (map (\<lambda>i. cl (states ! i)) [0..<m]))"
proof (induction m)
  case (Suc m)
  then have "(map upd (take m states) @ drop m states) ! m = states ! m" by (simp add: nth_append)
  moreover have "(map upd (take m states) @ drop m states)[m := upd (states ! m)] = map upd (take (Suc m) states) @ drop (Suc m) states"
    using Suc.prems by (simp add: list_update_append take_Suc_conv_app_nth Cons_nth_drop_Suc [symmetric])
  ultimately show ?case using Suc by simp
qed simp

lemma batch_row_ok:
  assumes "in_zq z" "\<And>i. i < m \<Longrightarrow> length (f i) = NTT_COLS_PER_POLY \<and> cells_ok (f i) \<and> row_sat (block z) (f i)"
  shows "length ([bf z] @ concat (map f [0..<m])) = n_cols_for m" "cells_ok ([bf z] @ concat (map f [0..<m]))"
    "row_sat (batch_evaluate block m) ([bf z] @ concat (map f [0..<m]))"
proof -
  have l: "length (concat (map f [0..<m])) = m * NTT_COLS_PER_POLY" using assms(2) by (intro length_concat_upt) simp
  then show "length ([bf z] @ concat (map f [0..<m])) = n_cols_for m" by (simp add: n_cols_for_def)
  show "cells_ok ([bf z] @ concat (map f [0..<m]))"
    using assms zq_cell [OF assms(1)] by (auto intro!: cells_ok_concat)
  have "cells ([bf z] @ concat (map f [0..<m])) (1 + i * NTT_COLS_PER_POLY) NTT_COLS_PER_POLY = f i" if "i < m" for i
    using cells_skip [of "[bf z]" "concat (map f [0..<m])" "i * NTT_COLS_PER_POLY" NTT_COLS_PER_POLY]
      cells_concat [OF that, of f NTT_COLS_PER_POLY] assms(2) by simp
  then show "row_sat (batch_evaluate block m) ([bf z] @ concat (map f [0..<m]))"
    using assms zq_cell [OF assms(1)] by (auto simp: row_sat_def batch_evaluate_def)
qed

text \<open>A step of a batch, given what it computes for one polynomial.\<close>

lemma batch_step_rel:
  assumes rel: "batch_rel (batch_evaluate block m) m i n st f" and z: "in_zq z" and f: "zq_poly f"
    and block: "\<And>q. zq_poly q \<Longrightarrow> length (cl q) = NTT_COLS_PER_POLY \<and> cells_ok (cl q) \<and> row_sat (block z) (cl q)"
    and upd: "\<And>q. zq_poly q \<Longrightarrow> zq_poly (upd q)"
    and step: "st' = (let (states, row) = foldl (\<lambda>(states, row) i. (states[i := upd (states ! i)], row @ cl (states ! i))) (fst st, [bf z]) [0..<m]
      in (states, snd st @ [row]))"
  shows "batch_rel (batch_evaluate block m) m i (Suc n) st' (upd f)"
proof -
  have st: "length (fst st) = m" "\<forall>q\<in>set (fst st). zq_poly q" using rel by (simp_all add: batch_rel_def)
  have "st' = (map upd (fst st), snd st @ [[bf z] @ concat (map (\<lambda>i. cl (fst st ! i)) [0..<m])])"
    using st(1) polys_loop [of m "fst st" upd cl "[bf z]"] by (simp add: step)
  moreover have "length (cl (fst st ! i)) = NTT_COLS_PER_POLY \<and> cells_ok (cl (fst st ! i)) \<and> row_sat (block z) (cl (fst st ! i))"
    if "i < m" for i using block st that by simp
  note batch_row_ok [of z m "\<lambda>i. cl (fst st ! i)" block, OF z this]
  ultimately show ?thesis using rel upd by (auto simp: batch_rel_def)
qed

lemma ntt_batch_step_rel:
  assumes "batch_rel (ntt_batch_evaluate m) m i n st f" "zq_poly f" "in_zq z" "0 < len" "j + len < 256"
  shows "batch_rel (ntt_batch_evaluate m) m i (Suc n) (ntt_batch_step m z len st j) (ct_butterfly z len f j)"
proof -
  let ?r = "\<lambda>q. compute_butterfly (q ! j) (q ! (j + len)) z"
  let ?upd = "\<lambda>q. q[j := b_a_out (?r q), j + len := b_b_out (?r q)]"
  have u: "in_zq (q ! j)" "in_zq (q ! (j + len))" "?upd q = ct_butterfly z len q j" if "zq_poly q" for q
  proof -
    show q: "in_zq (q ! j)" "in_zq (q ! (j + len))" using that assms(5) by (simp_all add: zq_poly_nth)
    show "?upd q = ct_butterfly z len q j"
      using butterfly_values(13,14) [OF q assms(3) refl] that assms by (simp add: ct_butterfly_pair pair_update_def)
  qed
  have "batch_rel (batch_evaluate ntt_block_evaluate m) m i (Suc n) (ntt_batch_step m z len st j) (?upd f)"
  proof (rule batch_step_rel [OF _ assms(3,2), where cl = "\<lambda>q. ntt_block_cells (?r q)"])
    show "batch_rel (batch_evaluate ntt_block_evaluate m) m i n st f" using assms(1) by (simp add: ntt_batch_evaluate_def)
    show "length (ntt_block_cells (?r q)) = NTT_COLS_PER_POLY \<and> cells_ok (ntt_block_cells (?r q))
        \<and> row_sat (ntt_block_evaluate z) (ntt_block_cells (?r q))" if "zq_poly q" for q
      using ntt_row_ok(4-6) [OF u(1,2) [OF that] assms(3)] by blast
    show "zq_poly (?upd q)" if "zq_poly q" for q using u(3) [OF that] ct_ref_range [OF that assms(3-5)] by simp
  qed (simp add: ntt_batch_step_def Let_def case_prod_unfold)
  then show ?thesis using u(3) [OF assms(2)] by (simp add: ntt_batch_evaluate_def)
qed

lemma intt_batch_step_rel:
  assumes "batch_rel (intt_batch_evaluate m) m i n st f" "zq_poly f" "in_zq z" "0 < len" "j + len < 256"
  shows "batch_rel (intt_batch_evaluate m) m i (Suc n) (intt_batch_step m z len st j) (gs_butterfly z len f j)"
proof -
  let ?r = "\<lambda>q. compute_gs_butterfly (q ! j) (q ! (j + len)) z"
  let ?upd = "\<lambda>q. q[j := i_a_out (?r q), j + len := i_b_out (?r q)]"
  have u: "in_zq (q ! j)" "in_zq (q ! (j + len))" "?upd q = gs_butterfly z len q j" if "zq_poly q" for q
  proof -
    show q: "in_zq (q ! j)" "in_zq (q ! (j + len))" using that assms(5) by (simp_all add: zq_poly_nth)
    show "?upd q = gs_butterfly z len q j"
      using gs_butterfly_values(13,14) [OF q assms(3) refl] that assms by (simp add: gs_butterfly_pair pair_update_def)
  qed
  have "batch_rel (batch_evaluate intt_block_evaluate m) m i (Suc n) (intt_batch_step m z len st j) (?upd f)"
  proof (rule batch_step_rel [OF _ assms(3,2), where cl = "\<lambda>q. intt_block_cells (?r q)"])
    show "batch_rel (batch_evaluate intt_block_evaluate m) m i n st f" using assms(1) by (simp add: intt_batch_evaluate_def)
    show "length (intt_block_cells (?r q)) = NTT_COLS_PER_POLY \<and> cells_ok (intt_block_cells (?r q))
        \<and> row_sat (intt_block_evaluate z) (intt_block_cells (?r q))" if "zq_poly q" for q
      using intt_row_ok(4-6) [OF u(1,2) [OF that] assms(3)] by blast
    show "zq_poly (?upd q)" if "zq_poly q" for q using u(3) [OF that] gs_ref_range [OF that assms(3-5)] by simp
  qed (simp add: intt_batch_step_def Let_def case_prod_unfold)
  then show ?thesis using u(3) [OF assms(2)] by (simp add: intt_batch_evaluate_def)
qed

interpretation ntt_batch: butterfly_loop "ntt_batch_step m" ct_butterfly "batch_rel (ntt_batch_evaluate m) m i" for m i
  by unfold_locales (rule ntt_batch_step_rel ct_ref_range; assumption)+

interpretation intt_batch: butterfly_loop "intt_batch_step m" gs_butterfly "batch_rel (intt_batch_evaluate m) m i" for m i
  by unfold_locales (rule intt_batch_step_rel gs_ref_range; assumption)+

section \<open>Properties\<close>

lemma padded_full: "length rows = N_BUTTERFLIES \<Longrightarrow> padded w rows = rows"
  by (simp add: padded_def N_BUTTERFLIES_def N_def)

lemma trace_sat_rows:
  assumes "length rows = N_BUTTERFLIES" "\<And>r. r \<in> set rows \<Longrightarrow> length r = w \<and> cells_ok r \<and> row_sat ev r"
  shows "trace_sat ev (columns w (padded w rows)) N_BUTTERFLIES"
  using trace_sat_columns [of rows w ev] assms by (simp add: padded_full)

text \<open>
  C27. The transform circuits record the transforms: for a polynomial over the field, the \<open>1024\<close> rows of the
  forward and of the inverse trace satisfy every constraint and the outputs returned beside them are
  \<open>ntt\<close> and \<open>ntt_inv\<close> of \<open>mldsa/ntt.rs\<close>.
\<close>

theorem ntt_circuits_complete:
  assumes "zq_poly f"
  shows "trace_sat ntt_evaluate (fst (ntt_build_trace f)) N_BUTTERFLIES \<and> snd (ntt_build_trace f) = ntt f
    \<and> trace_sat intt_evaluate (fst (intt_build_trace f)) N_BUTTERFLIES \<and> snd (intt_build_trace f) = ntt_inv f
    \<and> length (fst (enumerate_ntt_butterflies f)) = 1024 \<and> length (fst (enumerate_intt_butterflies f)) = 1024"
proof -
  obtain g rows where r: "ct_stages ntt_step zeta_fwd 128 1 (f, []) = (g, rows)" by fastforce
  have "ntt_rel N_BUTTERFLIES (g, rows) (ntt f)"
    using ntt_rows.records(1) [of "(f, [])" f] assms unfolding r by (simp add: ntt_rel_def ntt_def ct_stages_ntt)
  then have rows: "g = ntt f" "length rows = N_BUTTERFLIES"
    "\<forall>r\<in>set rows. \<exists>a b z. in_zq a \<and> in_zq b \<and> in_zq z \<and> r = compute_butterfly a b z" by (simp_all add: ntt_rel_def)
  have "trace_sat ntt_evaluate (columns (9 + 2 * N_BITS) (padded (9 + 2 * N_BITS) (map ntt_row_cells rows))) N_BUTTERFLIES"
    by (rule trace_sat_rows) (use rows(2,3) ntt_row_ok(1-3) in fastforce)+
  then have fwd: "trace_sat ntt_evaluate (fst (ntt_build_trace f)) N_BUTTERFLIES" "snd (ntt_build_trace f) = ntt f"
    "length (fst (enumerate_ntt_butterflies f)) = 1024"
    using r rows(1,2) by (simp_all add: ntt_build_trace_def enumerate_ntt_butterflies_def N_BUTTERFLIES_def N_def Let_def)
  obtain g' rows' where r': "gs_stages intt_step zeta_inv 1 (f, []) = (g', rows')" by fastforce
  have "intt_rel N_BUTTERFLIES (g', rows') (ntt_inv_stages zeta_inv 1 f)"
    using intt_rows.records(2) [of "(f, [])" f] assms unfolding r' by (simp add: intt_rel_def gs_stages_intt)
  then have rows': "g' = ntt_inv_stages zeta_inv 1 f" "length rows' = N_BUTTERFLIES"
    "\<forall>r\<in>set rows'. \<exists>a b z. in_zq a \<and> in_zq b \<and> in_zq z \<and> r = compute_gs_butterfly a b z" by (simp_all add: intt_rel_def)
  have "trace_sat intt_evaluate (columns (9 + 2 * N_BITS) (padded (9 + 2 * N_BITS) (map intt_row_cells rows'))) N_BUTTERFLIES"
    by (rule trace_sat_rows) (use rows'(2,3) intt_row_ok(1-3) in fastforce)+
  then have "trace_sat intt_evaluate (fst (intt_build_trace f)) N_BUTTERFLIES" "snd (intt_build_trace f) = ntt_inv f"
    "length (fst (enumerate_intt_butterflies f)) = 1024"
    using r' rows'(1,2) by (simp_all add: intt_build_trace_def enumerate_intt_butterflies_def N_BUTTERFLIES_def N_def ntt_inv_def Let_def)
  with fwd show ?thesis by blast
qed

lemma ntt_circuits_complete_witness:
  "trace_sat ntt_evaluate (fst (ntt_build_trace (replicate 256 7))) N_BUTTERFLIES \<and> snd (ntt_build_trace (replicate 256 7)) = ntt (replicate 256 7)"
  using ntt_circuits_complete [of "replicate 256 7"] by (simp add: zq_poly_def in_zq_def Q_def)

text \<open>
  The batched transform circuits, for any number of polynomials over the field: every row of the shared
  trace satisfies the constraints of all blocks, and the outputs are the transforms of the polynomials.
\<close>

lemma ntt_batch_circuits_complete:
  assumes "\<forall>q\<in>set polys. zq_poly q"
  shows "trace_sat (ntt_batch_evaluate (length polys)) (fst (ntt_batch_build_trace polys)) N_BUTTERFLIES
    \<and> snd (ntt_batch_build_trace polys) = map ntt polys
    \<and> trace_sat (intt_batch_evaluate (length polys)) (fst (intt_batch_build_trace polys)) N_BUTTERFLIES
    \<and> snd (intt_batch_build_trace polys) = map ntt_inv polys"
proof -
  let ?M = "length polys"
  define f where "f = (\<lambda>i. if i < ?M then polys ! i else replicate 256 0)"
  have f: "zq_poly (f i)" for i using assms by (auto simp: f_def zq_poly_def in_zq_def Q_def)
  have start: "batch_rel ev ?M i 0 (polys, []) (f i)" for ev i using assms by (simp add: batch_rel_def f_def)
  obtain states rows where s: "ct_stages (ntt_batch_step ?M) zeta_fwd 128 1 (polys, []) = (states, rows)" by fastforce
  have fwd: "batch_rel (ntt_batch_evaluate ?M) ?M i N_BUTTERFLIES (states, rows) (ntt (f i))" for i
    using ntt_batch.records(1) [OF start f, of i] unfolding s by (simp add: ntt_def ct_stages_ntt)
  have "states = map ntt polys" using fwd by (intro nth_equalityI) (auto simp: batch_rel_def f_def)
  moreover have "trace_sat (ntt_batch_evaluate ?M) (columns (n_cols_for ?M) (padded (n_cols_for ?M) rows)) N_BUTTERFLIES"
    by (rule trace_sat_rows) (use fwd [of 0] in \<open>auto simp: batch_rel_def\<close>)
  moreover obtain states' rows' where s': "gs_stages (intt_batch_step ?M) zeta_inv 1 (polys, []) = (states', rows')" by fastforce
  have inv: "batch_rel (intt_batch_evaluate ?M) ?M i N_BUTTERFLIES (states', rows') (ntt_inv_stages zeta_inv 1 (f i))" for i
    using intt_batch.records(2) [OF start f, of i] unfolding s' by (simp add: gs_stages_intt)
  have "states' = map (ntt_inv_stages zeta_inv 1) polys" using inv by (intro nth_equalityI) (auto simp: batch_rel_def f_def)
  moreover have "trace_sat (intt_batch_evaluate ?M) (columns (n_cols_for ?M) (padded (n_cols_for ?M) rows')) N_BUTTERFLIES"
    by (rule trace_sat_rows) (use inv [of 0] in \<open>auto simp: batch_rel_def\<close>)
  ultimately show ?thesis
    using s s' by (simp add: ntt_batch_build_trace_def intt_batch_build_trace_def ntt_inv_def [abs_def] Let_def o_def)
qed

text \<open>
  What the forward circuit does not show. A row with cells in \<open>[0, Q)\<close> satisfies it although its output
  is not that of the butterfly (\<open>0 + 1753 * 0\<close> gives \<open>2096895\<close>), and the trace of zeros satisfies every row:
  the rows are not tied to each other, to a polynomial or to the twiddle factors.
\<close>

lemma ntt_circuit_accepts_wrong_rows:
  "(\<exists>row. length row = 9 + 2 * N_BITS \<and> row_sat ntt_evaluate row \<and> list_all in_zq row \<and> row ! 2 = ZETA
      \<and> row ! 5 \<noteq> (row ! 0 + row ! 2 * row ! 1) mod Q)
   \<and> trace_sat ntt_evaluate (replicate (9 + 2 * N_BITS) (replicate N_BUTTERFLIES 0)) N_BUTTERFLIES"
proof
  let ?row = "[0, 0, ZETA, 2096895, 256, 2096895, 6283522, 0, 1] @ bit_cells 2096895 @ bit_cells 256"
  have k: "cells ?row 9 N_BITS = bit_cells 2096895" "cells ?row (9 + N_BITS) N_BITS = bit_cells 256" by (rule cells_two; simp)+
  have s: "row_sat ntt_evaluate ?row"
    using bit_cells_sat [of 2096895] bit_cells_sat [of 256] unfolding row_sat_def ntt_evaluate_def Let_def k bit_sum_from_value [OF ne_bit_cells]
    by (simp add: ball_Un Q_def P31_def)
  have "x = 0 \<or> x = 1" if "x \<in> set (bit_cells 2096895) \<union> set (bit_cells 256)" for x
    using that bit_loop_bits [of x 23] by (auto simp: bit_cells_loop N_BITS_def)
  then have "\<forall>x\<in>set (bit_cells 2096895) \<union> set (bit_cells 256). in_zq x" by (fastforce simp: in_zq_def Q_def)
  then have "list_all in_zq ?row" by (auto simp: list_all_iff in_zq_def Q_def ZETA_def)
  with s show "\<exists>row. length row = 9 + 2 * N_BITS \<and> row_sat ntt_evaluate row \<and> list_all in_zq row \<and> row ! 2 = ZETA
      \<and> row ! 5 \<noteq> (row ! 0 + row ! 2 * row ! 1) mod Q" by (intro exI [of _ ?row]) simp
  have z: "bits_value (replicate n 0) = 0" for n by (induction n) simp_all
  let ?zero = "replicate (9 + 2 * N_BITS) (0 :: int)"
  have "cells ?zero 9 N_BITS = replicate N_BITS 0" "cells ?zero (9 + N_BITS) N_BITS = replicate N_BITS 0"
    by (rule nth_equalityI; simp add: cells_def)+
  moreover have "bit_sum_from (replicate N_BITS (0 :: int)) = 0" by (subst bit_sum_from_value) (simp_all add: z N_BITS_def)
  ultimately have "row_sat ntt_evaluate ?zero" "cells_ok ?zero"
    by (simp_all add: row_sat_def ntt_evaluate_def Let_def bool_constraints_def cells_ok_def P31_def)
  moreover have "trace_row (replicate (9 + 2 * N_BITS) (replicate N_BUTTERFLIES 0)) i = ?zero" if "i < N_BUTTERFLIES" for i
    using that by (simp add: trace_row_def)
  ultimately show "trace_sat ntt_evaluate (replicate (9 + 2 * N_BITS) (replicate N_BUTTERFLIES 0)) N_BUTTERFLIES"
    by (simp add: trace_sat_def)
qed

end
