(* ===== verification/Circuit_FRI.thy ===== *)
theory Circuit_FRI
  imports Recursion_Inputs Circuit_Base
begin

text \<open>
  The arithmetic gadgets of the recursion: product in \<open>QM31\<close> (\<open>recursive/qm31_mul_air.rs\<close>), one fold
  (\<open>fold_air.rs\<close>), one out-of-domain quotient (\<open>oods_air.rs\<close>), the step of a query (\<open>query_step_air.rs\<close>) and a
  chain of line folds (\<open>fri_fold_chain_air.rs\<close>). A value of \<open>QM31\<close> is four consecutive cells; a satisfied
  row holds exactly the values of the reference functions on the limbs.
\<close>

section \<open>Constraints\<close>

text \<open>The product of two elements given by four limbs, generic in the limbs as \<open>qmul\<close> and its copies.\<close>

definition qmul :: "'f::comm_ring_1 list \<Rightarrow> 'f list \<Rightarrow> 'f list" where
  "qmul x y =
     (let u = x ! 2 * y ! 2 - x ! 3 * y ! 3;
          v = x ! 2 * y ! 3 + x ! 3 * y ! 2
      in [x ! 0 * y ! 0 - x ! 1 * y ! 1 + u * 2 - v,
          x ! 0 * y ! 1 + x ! 1 * y ! 0 + u + v * 2,
          x ! 0 * y ! 2 - x ! 1 * y ! 3 + x ! 2 * y ! 0 - x ! 3 * y ! 1,
          x ! 0 * y ! 3 + x ! 1 * y ! 2 + x ! 2 * y ! 1 + x ! 3 * y ! 0])"

definition qm31_mul_evaluate :: "'f::comm_ring_1 list \<Rightarrow> 'f list" where
  "qm31_mul_evaluate row =
     (let x = cells row 0 4; y = cells row 4 4; z = cells row 8 4
      in map (\<lambda>k. z ! k - qmul x y ! k) [0..<4])"

definition fold_evaluate :: "'f::comm_ring_1 list \<Rightarrow> 'f list" where
  "fold_evaluate row =
     (let fp = cells row 0 4; fm = cells row 4 4; a = cells row 8 4; inv = row ! 12;
          p = cells row 13 4; folded = cells row 17 4; ap = qmul a p
      in map (\<lambda>k. p ! k - (fp ! k - fm ! k) * inv) [0..<4]
         @ map (\<lambda>k. folded ! k - (fp ! k + fm ! k + ap ! k)) [0..<4])"

definition oods_evaluate :: "'f::comm_ring_1 list \<Rightarrow> 'f list" where
  "oods_evaluate row =
     (let f = cells row 0 4; px = row ! 4; zx = cells row 5 4; cv = cells row 9 4; oc = cells row 13 4;
          d = [px - zx ! 0, 0 - zx ! 1, 0 - zx ! 2, 0 - zx ! 3];
          product = qmul f d
      in map (\<lambda>k. product ! k - (cv ! k - oc ! k)) [0..<4])"

definition query_step_evaluate :: "'f::comm_ring_1 list \<Rightarrow> 'f list" where
  "query_step_evaluate row =
     (let px = row ! 0; zx = cells row 1 4; alpha = cells row 5 4; y_inv = row ! 9;
          fp = cells row 10 4; fm = cells row 14 4; combo_pos = cells row 18 4; combo_neg = cells row 22 4;
          comp_pos = cells row 26 4; comp_neg = cells row 30 4; p = cells row 34 4; folded = cells row 38 4;
          d_pos = [px - zx ! 0, 0 - zx ! 1, 0 - zx ! 2, 0 - zx ! 3];
          d_neg = [(0 - px) - zx ! 0, 0 - zx ! 1, 0 - zx ! 2, 0 - zx ! 3];
          prod_pos = qmul fp d_pos; prod_neg = qmul fm d_neg; ap = qmul alpha p
      in map (\<lambda>k. prod_pos ! k - (comp_pos ! k - combo_pos ! k)) [0..<4]
         @ map (\<lambda>k. prod_neg ! k - (comp_neg ! k - combo_neg ! k)) [0..<4]
         @ map (\<lambda>k. p ! k - (fp ! k - fm ! k) * y_inv) [0..<4]
         @ map (\<lambda>k. folded ! k - (fp ! k + fm ! k + ap ! k)) [0..<4])"

section \<open>References and traces\<close>

text \<open>\<open>BaseField::from_u32_unchecked(l as u32)\<close> of a limb.\<close>

definition cell :: "u64 \<Rightarrow> int" where
  "cell l = uint (ucast l :: u32)"

definition limb_cells :: "u128 \<Rightarrow> int list" where
  "limb_cells q = map cell (limbs q)"

definition fold_ref :: "u128 \<Rightarrow> u128 \<Rightarrow> u128 \<Rightarrow> u32 \<Rightarrow> u128" where
  "fold_ref f_plus f_minus alpha w =
     (let fp = limbs f_plus; fm = limbs f_minus; sum = add_limbs fp fm; diff = sub_limbs fp fm;
          p = scale_limbs diff (ucast w)
      in pack (add_limbs sum (mul_limbs (limbs alpha) p)))"

definition comp_value_ref :: "u128 \<Rightarrow> u32 \<Rightarrow> u128 \<Rightarrow> u128 \<Rightarrow> u128" where
  "comp_value_ref f_p px z oods =
     (let px_q = pack [ucast px, 0, 0, 0]; d = sub_limbs (limbs px_q) (limbs z)
      in pack (add_limbs (mul_limbs (limbs f_p) d) (limbs oods)))"

definition step_ref :: "u128 \<Rightarrow> u128 \<Rightarrow> u32 \<Rightarrow> u128 \<Rightarrow> u128 \<Rightarrow> u128 \<Rightarrow> u128 \<Rightarrow> u32 \<Rightarrow> u128 \<times> u128 \<times> u128 \<times> u128" where
  "step_ref f_plus f_minus px z combo_pos combo_neg fri_al y_inv =
     (let fp = limbs f_plus; fm = limbs f_minus; zx = limbs z;
          px_q = limbs (pack [ucast px, 0, 0, 0]);
          neg_px_q = sub_limbs [0, 0, 0, 0] px_q;
          d_pos = sub_limbs px_q zx; d_neg = sub_limbs neg_px_q zx;
          comp_pos = pack (add_limbs (mul_limbs fp d_pos) (limbs combo_pos));
          comp_neg = pack (add_limbs (mul_limbs fm d_neg) (limbs combo_neg));
          p = scale_limbs (sub_limbs fp fm) (ucast y_inv);
          folded = pack (add_limbs (add_limbs fp fm) (mul_limbs (limbs fri_al) p))
      in (comp_pos, comp_neg, pack p, folded))"

text \<open>
  The builders write row \<open>r\<close> of operation \<open>r\<close> and leave the others zero; more operations than rows is an
  index out of range.
\<close>

definition pad_rows :: "nat \<Rightarrow> nat \<Rightarrow> int list list \<Rightarrow> int list list" where
  "pad_rows n w rows = rows @ replicate (n - length rows) (replicate w 0)"

definition ops_trace :: "nat \<Rightarrow> ('op \<Rightarrow> int list) \<Rightarrow> 'op list \<Rightarrow> nat \<Rightarrow> int list list option" where
  "ops_trace w f ops log_n_rows =
     (let n = 2 ^ log_n_rows
      in if length ops \<le> n then Some (columns w (pad_rows n w (map f ops))) else None)"

definition qm31_mul_row :: "u128 \<times> u128 \<Rightarrow> int list" where
  "qm31_mul_row op =
     (let (x, y) = op; xl = limbs x; yl = limbs y; zl = mul_limbs xl yl
      in map cell xl @ map cell yl @ map cell zl)"

definition qm31_mul_build_trace :: "(u128 \<times> u128) list \<Rightarrow> nat \<Rightarrow> int list list option" where
  "qm31_mul_build_trace = ops_trace 12 qm31_mul_row"

definition fold_row :: "u128 \<times> u128 \<times> u128 \<times> u32 \<Rightarrow> int list" where
  "fold_row op =
     (let (f_plus, f_minus, alpha, w) = op; fp = limbs f_plus; fm = limbs f_minus; al = limbs alpha;
          p = scale_limbs (sub_limbs fp fm) (ucast w);
          folded = add_limbs (add_limbs fp fm) (mul_limbs al p)
      in map cell fp @ map cell fm @ map cell al @ [uint w] @ map cell p @ map cell folded)"

definition fold_build_trace :: "(u128 \<times> u128 \<times> u128 \<times> u32) list \<Rightarrow> nat \<Rightarrow> int list list option" where
  "fold_build_trace = ops_trace 21 fold_row"

definition oods_row :: "u128 \<times> u32 \<times> u128 \<times> u128 \<Rightarrow> int list" where
  "oods_row op =
     (let (f_p, px, z, oods) = op; cv = limbs (comp_value_ref f_p px z oods)
      in limb_cells f_p @ [uint px] @ limb_cells z @ map cell cv @ limb_cells oods)"

definition oods_build_trace :: "(u128 \<times> u32 \<times> u128 \<times> u128) list \<Rightarrow> nat \<Rightarrow> int list list option" where
  "oods_build_trace = ops_trace 17 oods_row"

definition query_step_row :: "StepOp \<Rightarrow> int list" where
  "query_step_row op =
     (let (f_plus, f_minus, px, z, combo_pos, combo_neg, fri_al, y_inv) = op;
          (comp_pos, comp_neg, p, folded) = step_ref f_plus f_minus px z combo_pos combo_neg fri_al y_inv
      in [uint px] @ limb_cells z @ limb_cells fri_al @ [uint y_inv] @ limb_cells f_plus @ limb_cells f_minus
         @ limb_cells combo_pos @ limb_cells combo_neg @ limb_cells comp_pos @ limb_cells comp_neg
         @ limb_cells p @ limb_cells folded)"

definition query_step_build_trace :: "StepOp list \<Rightarrow> nat \<Rightarrow> int list list option" where
  "query_step_build_trace = ops_trace 42 query_step_row"

text \<open>The smallest size that holds the rows, at least one.\<close>

function log_size_loop :: "nat \<Rightarrow> nat \<Rightarrow> nat" where
  "log_size_loop n log_n = (if 2 ^ log_n < max n 1 then log_size_loop n (log_n + 1) else log_n)"
  by pat_completeness auto
termination
  by (relation "measure (\<lambda>(n, l). max n 1 - 2 ^ l)") (auto simp: diff_less_mono2)

declare log_size_loop.simps [simp del]

definition compute_log_size :: "nat \<Rightarrow> nat" where
  "compute_log_size n_ops = log_size_loop n_ops 1"

section \<open>Cells as field elements\<close>

definition l4 :: "int list \<Rightarrow> qz" where
  "l4 x = QZ (x ! 0) (x ! 1) (x ! 2) (x ! 3)"

lemma l4_qmul: "l4 (qmul x y) = l4 x * l4 y"
  by (simp add: l4_def qmul_def Let_def algebra_simps)

lemma upt4: "[0..<4] = [0, 1, 2, 3]"
  by (simp add: upt_rec)

text \<open>Four constraints that vanish modulo \<open>2^31 - 1\<close> are one equation of elements.\<close>

lemma vec4: "(\<forall>c\<in>set (map f [0..<4]). c mod P31 = 0) \<longleftrightarrow> qmod (QZ (f 0) (f 1) (f 2) (f 3)) = 0"
  unfolding upt4 by (auto simp: zero_qz_def)

lemma qmod_diff_0: "qmod (x - y) = 0 \<longleftrightarrow> qmod x = qmod y"
proof
  assume "qmod (x - y) = 0"
  then have "qmod (y + qmod (x - y)) = qmod y" by simp
  then show "qmod x = qmod y" by simp
next
  assume "qmod x = qmod y"
  then have "qmod (x - qmod y) = qmod (x - qmod x)" by simp
  also have "\<dots> = qmod 0" by simp
  finally show "qmod (x - y) = 0" by (simp add: zero_qz_def)
qed

lemma vec4_diff:
  "(\<forall>c\<in>set (map (\<lambda>k. x ! k - y ! k) [0..<4]). c mod P31 = 0) \<longleftrightarrow> qmod (l4 x) = qmod (l4 y)"
proof -
  have "QZ (x ! 0 - y ! 0) (x ! 1 - y ! 1) (x ! 2 - y ! 2) (x ! 3 - y ! 3) = l4 x - l4 y" by (simp add: l4_def)
  then show ?thesis unfolding vec4 by (simp only: qmod_diff_0)
qed

text \<open>The element that four cells hold.\<close>

definition elem :: "int list \<Rightarrow> nat \<Rightarrow> u128" where
  "elem row a = pack (map word_of_int (cells row a 4))"

lemma cells_4: "cells row a 4 = [row ! a, row ! (a + 1), row ! (a + 2), row ! (a + 3)]"
  by (simp add: cells_def upt4)

lemma elem_facts:
  assumes "cells_ok row" "a + 4 \<le> length row"
  shows "qval (elem row a) = l4 (cells row a 4)" "canon_q (elem row a)" "qmod (l4 (cells row a 4)) = l4 (cells row a 4)"
proof -
  have c: "0 \<le> row ! i \<and> row ! i < P31" if "a \<le> i" "i < a + 4" for i
    using cells_ok_nth [OF assms(1), of i] that assms(2) by simp
  have w: "uint (word_of_int (row ! i) :: u64) = row ! i" if "a \<le> i" "i < a + 4" for i
    using c [OF that] by (simp add: uint_word_of_int_eq take_bit_eq_mod P31_def)
  have l: "canon_limbs (map word_of_int (cells row a 4))"
    using w [of a] w [of "a + 1"] w [of "a + 2"] w [of "a + 3"] c [of a] c [of "a + 1"] c [of "a + 2"] c [of "a + 3"]
    by (simp add: cells_4 canon_limbs_def canon_uint)
  from canon_pack [OF l] show "qval (elem row a) = l4 (cells row a 4)" "canon_q (elem row a)"
    using w [of a] w [of "a + 1"] w [of "a + 2"] w [of "a + 3"] by (simp_all add: elem_def l4_def cells_4)
  show "qmod (l4 (cells row a 4)) = l4 (cells row a 4)"
    using c [of a] c [of "a + 1"] c [of "a + 2"] c [of "a + 3"] by (simp add: l4_def cells_4)
qed

lemma qmod_qval: "canon_q x \<Longrightarrow> qmod (qval x) = qval x"
  by (simp add: qval_def canon_q_def canon_c_def canon32_def)

lemma elem_eq_iff:
  assumes "cells_ok row" "a + 4 \<le> length row" "canon_q x"
  shows "elem row a = x \<longleftrightarrow> qmod (l4 (cells row a 4)) = qmod (qval x)"
proof
  assume "qmod (l4 (cells row a 4)) = qmod (qval x)"
  then have "qval (elem row a) = qval x" using elem_facts [OF assms(1,2)] qmod_qval [OF assms(3)] by simp
  then show "elem row a = x" using elem_facts(2) [OF assms(1,2)] assms(3) by (intro qval_inj)
qed (use elem_facts [OF assms(1,2)] in auto)

section \<open>Values of the references\<close>

lemma scalar_limbs:
  assumes "canon32 px"
  shows "canon_q (pack [ucast px, 0, 0, 0])" "qval (pack [ucast px, 0, 0, 0]) = QZ (uint px) 0 0 0"
    "limbs (pack [ucast px, 0, 0, 0]) = [ucast px, 0, 0, 0]"
proof -
  have z: "canon 0" by (simp add: canon_uint P31_def)
  have l: "canon_limbs [ucast px, 0, 0, 0]" using assms z by (simp add: canon_limbs_def canon_ucast_up)
  show "canon_q (pack [ucast px, 0, 0, 0])" "limbs (pack [ucast px, 0, 0, 0]) = [ucast px, 0, 0, 0]"
    using canon_pack(2) [OF l] limbs_pack [OF l] by simp_all
  show "qval (pack [ucast px, 0, 0, 0]) = QZ (uint px) 0 0 0" using canon_pack(1) [OF l] by (simp add: ucast_up_uint)
qed

lemma fold_two_val:
  assumes "canon_q a" "canon_q b" "canon_q al" "canon32 w"
  shows "qval (fold_two a b al w) = qmod (qval a + qval b + qval al * ((qval a - qval b) * QZ (uint w) 0 0 0))" "canon_q (fold_two a b al w)"
proof -
  have "canon_limbs (add_limbs (add_limbs (limbs a) (limbs b)) (mul_limbs (limbs al) (scale_limbs (sub_limbs (limbs a) (limbs b)) (ucast w))))"
    using assms by (intro lval_ops lval_scale canon_limbs_limbs) (simp_all add: canon_ucast_up)
  note p = canon_pack [OF this]
  show "canon_q (fold_two a b al w)" using p(2) by (simp add: fold_two_def Let_def)
  have w: "canon (ucast w)" using assms(4) by (simp add: canon_ucast_up)
  show "qval (fold_two a b al w) = qmod (qval a + qval b + qval al * ((qval a - qval b) * QZ (uint w) 0 0 0))"
    using p(1) assms(1-3) w
    by (simp add: fold_two_def Let_def lval_ops lval_scale canon_limbs_limbs lval_limbs ucast_up_uint)
qed

text \<open>The scaled difference the circuits keep in a helper cell.\<close>

definition scaled_diff :: "u128 \<Rightarrow> u128 \<Rightarrow> u32 \<Rightarrow> u128" where
  "scaled_diff a b w = pack (scale_limbs (sub_limbs (limbs a) (limbs b)) (ucast w))"

lemma scaled_diff_val:
  assumes "canon_q a" "canon_q b" "canon32 w"
  shows "qval (scaled_diff a b w) = qmod ((qval a - qval b) * QZ (uint w) 0 0 0)" "canon_q (scaled_diff a b w)"
proof -
  have w: "canon (ucast w)" using assms(3) by (simp add: canon_ucast_up)
  have "canon_limbs (scale_limbs (sub_limbs (limbs a) (limbs b)) (ucast w))"
    using assms(1,2) w by (intro lval_ops lval_scale canon_limbs_limbs)
  note p = canon_pack [OF this]
  show "qval (scaled_diff a b w) = qmod ((qval a - qval b) * QZ (uint w) 0 0 0)" "canon_q (scaled_diff a b w)"
    using p assms w by (simp_all add: scaled_diff_def lval_ops lval_scale canon_limbs_limbs lval_limbs ucast_up_uint)
qed

text \<open>The composition value at the antipode.\<close>

definition comp_neg_ref :: "u128 \<Rightarrow> u32 \<Rightarrow> u128 \<Rightarrow> u128 \<Rightarrow> u128" where
  "comp_neg_ref f px z combo =
     pack (add_limbs (mul_limbs (limbs f) (sub_limbs (sub_limbs [0, 0, 0, 0] (limbs (pack [ucast px, 0, 0, 0]))) (limbs z))) (limbs combo))"

lemma comp_value_val:
  assumes "canon_q f" "canon32 px" "canon_q z" "canon_q oc"
  shows "qval (comp_value_ref f px z oc) = qmod (qval f * (QZ (uint px) 0 0 0 - qval z) + qval oc)" "canon_q (comp_value_ref f px z oc)"
    "qval (comp_neg_ref f px z oc) = qmod (qval f * (QZ (- uint px) 0 0 0 - qval z) + qval oc)" "canon_q (comp_neg_ref f px z oc)"
proof -
  note s = scalar_limbs [OF assms(2)]
  have c: "canon_limbs (limbs f)" "canon_limbs (limbs z)" "canon_limbs (limbs oc)" "canon_limbs (limbs (pack [ucast px, 0, 0, 0]))"
    using assms(1,3,4) s(1) by (simp_all add: canon_limbs_limbs)
  have "canon 0" by (simp add: canon_uint P31_def)
  then have z: "canon_limbs [0, 0, 0, 0]" by (simp add: canon_limbs_def)
  have lz: "lval [0, 0, 0, 0] = 0" by (simp add: zero_qz_def)
  have "canon_limbs (add_limbs (mul_limbs (limbs f) (sub_limbs (limbs (pack [ucast px, 0, 0, 0])) (limbs z))) (limbs oc))"
    "canon_limbs (add_limbs (mul_limbs (limbs f) (sub_limbs (sub_limbs [0, 0, 0, 0] (limbs (pack [ucast px, 0, 0, 0]))) (limbs z))) (limbs oc))"
    using c z by (intro lval_ops; simp add: lval_ops)+
  note p = canon_pack [OF this(1)] canon_pack [OF this(2)]
  show "qval (comp_value_ref f px z oc) = qmod (qval f * (QZ (uint px) 0 0 0 - qval z) + qval oc)" "canon_q (comp_value_ref f px z oc)"
    using p(1,2) c s(2) by (simp_all add: comp_value_ref_def Let_def lval_ops lval_limbs)
  have "qmod (0 - QZ (uint px) 0 0 0) = qmod (QZ (- uint px) 0 0 0)" by (simp add: zero_qz_def)
  then have e: "qmod (qmod (0 - QZ (uint px) 0 0 0) - qval z) = qmod (QZ (- uint px) 0 0 0 - qval z)" by (metis qmod_simps(3))
  show "canon_q (comp_neg_ref f px z oc)" using p(4) by (simp add: comp_neg_ref_def)
  have "qval (comp_neg_ref f px z oc) = qmod (qmod (qval f * qmod (qmod (0 - QZ (uint px) 0 0 0) - qval z)) + qval oc)"
    using p(3) c z s(2) unfolding comp_neg_ref_def by (simp only: lval_ops lval_limbs lz)
  then show "qval (comp_neg_ref f px z oc) = qmod (qval f * (QZ (- uint px) 0 0 0 - qval z) + qval oc)"
    unfolding e by simp
qed

lemma references:
  "fold_ref = fold_two"
  "step_ref f_plus f_minus px z combo_pos combo_neg al w =
     (comp_value_ref f_plus px z combo_pos, comp_neg_ref f_minus px z combo_neg, scaled_diff f_plus f_minus w, fold_two f_plus f_minus al w)"
  by (simp_all add: fun_eq_iff fold_ref_def fold_two_def step_ref_def comp_value_ref_def comp_neg_ref_def scaled_diff_def Let_def)

section \<open>Groups of constraints as equations\<close>

lemma scale_constraints:
  "(\<forall>c\<in>set (map (\<lambda>k. p ! k - (a ! k - b ! k) * w) [0..<4]). c mod P31 = 0)
   \<longleftrightarrow> qmod (l4 p) = qmod ((l4 a - l4 b) * QZ w 0 0 0)"
proof -
  have "QZ (p ! 0 - (a ! 0 - b ! 0) * w) (p ! 1 - (a ! 1 - b ! 1) * w) (p ! 2 - (a ! 2 - b ! 2) * w) (p ! 3 - (a ! 3 - b ! 3) * w)
      = l4 p - (l4 a - l4 b) * QZ w 0 0 0" by (simp add: l4_def)
  then show ?thesis unfolding vec4 by (simp only: qmod_diff_0)
qed

lemma fold_constraints:
  "(\<forall>c\<in>set (map (\<lambda>k. out ! k - (a ! k + b ! k + qmul al p ! k)) [0..<4]). c mod P31 = 0)
   \<longleftrightarrow> qmod (l4 out) = qmod (l4 a + l4 b + l4 al * l4 p)"
proof -
  have "QZ (out ! 0 - (a ! 0 + b ! 0 + qmul al p ! 0)) (out ! 1 - (a ! 1 + b ! 1 + qmul al p ! 1))
        (out ! 2 - (a ! 2 + b ! 2 + qmul al p ! 2)) (out ! 3 - (a ! 3 + b ! 3 + qmul al p ! 3))
      = l4 out - (l4 a + l4 b + l4 (qmul al p))" by (simp add: l4_def)
  then show ?thesis unfolding vec4 l4_qmul [symmetric] by (simp only: qmod_diff_0)
qed

lemma oods_constraints:
  "(\<forall>c\<in>set (map (\<lambda>k. qmul f [x - zx ! 0, 0 - zx ! 1, 0 - zx ! 2, 0 - zx ! 3] ! k - (cv ! k - oc ! k)) [0..<4]). c mod P31 = 0)
   \<longleftrightarrow> qmod (l4 cv) = qmod (l4 f * (QZ x 0 0 0 - l4 zx) + l4 oc)"
proof -
  let ?d = "[x - zx ! 0, 0 - zx ! 1, 0 - zx ! 2, 0 - zx ! 3]"
  have d: "l4 ?d = QZ x 0 0 0 - l4 zx" by (simp add: l4_def)
  have "QZ (qmul f ?d ! 0 - (cv ! 0 - oc ! 0)) (qmul f ?d ! 1 - (cv ! 1 - oc ! 1)) (qmul f ?d ! 2 - (cv ! 2 - oc ! 2)) (qmul f ?d ! 3 - (cv ! 3 - oc ! 3))
      = (l4 f * (QZ x 0 0 0 - l4 zx) + l4 oc) - l4 cv" unfolding d [symmetric] l4_qmul [symmetric] by (simp add: l4_def)
  then show ?thesis unfolding vec4 by (simp only: qmod_diff_0) (rule eq_commute)
qed

text \<open>The same for the elements of a row.\<close>

lemma canon_cell: "cells_ok row \<Longrightarrow> i < length row \<Longrightarrow> canon32 (word_of_int (row ! i)) \<and> uint (word_of_int (row ! i) :: u32) = row ! i"
  using cells_ok_nth [of row i] by (simp add: canon32_def uint_word_of_int_eq take_bit_eq_mod P31_def)

lemma row_scale_iff:
  assumes "cells_ok row" "a + 4 \<le> length row" "b + 4 \<le> length row" "p + 4 \<le> length row" "i < length row"
  shows "(\<forall>c\<in>set (map (\<lambda>k. cells row p 4 ! k - (cells row a 4 ! k - cells row b 4 ! k) * row ! i) [0..<4]). c mod P31 = 0)
    \<longleftrightarrow> elem row p = scaled_diff (elem row a) (elem row b) (word_of_int (row ! i))"
proof -
  note e = elem_facts [OF assms(1,2)] elem_facts [OF assms(1,3)]
  note w = canon_cell [OF assms(1,5)]
  note v = scaled_diff_val [OF e(2) e(5) w [THEN conjunct1]]
  show ?thesis unfolding scale_constraints elem_eq_iff [OF assms(1,4) v(2)] v(1) using e w by simp
qed

lemma row_fold_iff:
  assumes "cells_ok row" "a + 4 \<le> length row" "b + 4 \<le> length row" "al + 4 \<le> length row" "p + 4 \<le> length row" "out + 4 \<le> length row" "i < length row"
    and p: "elem row p = scaled_diff (elem row a) (elem row b) (word_of_int (row ! i))"
  shows "(\<forall>c\<in>set (map (\<lambda>k. cells row out 4 ! k - (cells row a 4 ! k + cells row b 4 ! k + qmul (cells row al 4) (cells row p 4) ! k)) [0..<4]). c mod P31 = 0)
    \<longleftrightarrow> elem row out = fold_two (elem row a) (elem row b) (elem row al) (word_of_int (row ! i))"
proof -
  note e = elem_facts [OF assms(1,2)] elem_facts [OF assms(1,3)] elem_facts [OF assms(1,4)] elem_facts [OF assms(1,5)]
  note w = canon_cell [OF assms(1,7)]
  note v = fold_two_val [OF e(2) e(5) e(8) w [THEN conjunct1]]
  have "l4 (cells row p 4) = qmod ((qval (elem row a) - qval (elem row b)) * QZ (row ! i) 0 0 0)"
    using e(10) p scaled_diff_val(1) [OF e(2) e(5) w [THEN conjunct1]] w by simp
  then have "qmod (l4 (cells row a 4) + l4 (cells row b 4) + l4 (cells row al 4) * l4 (cells row p 4))
      = qmod (qval (elem row a) + qval (elem row b) + qval (elem row al) * ((qval (elem row a) - qval (elem row b)) * QZ (row ! i) 0 0 0))"
    using e by (metis qmod_simps(2,7))
  then show ?thesis unfolding fold_constraints elem_eq_iff [OF assms(1,6) v(2)] v(1) using w by simp
qed

lemma row_oods_iff:
  assumes "cells_ok row" "f + 4 \<le> length row" "z + 4 \<le> length row" "cv + 4 \<le> length row" "oc + 4 \<le> length row" "i < length row"
  shows "(\<forall>c\<in>set (map (\<lambda>k. qmul (cells row f 4) [row ! i - cells row z 4 ! 0, 0 - cells row z 4 ! 1, 0 - cells row z 4 ! 2, 0 - cells row z 4 ! 3] ! k
        - (cells row cv 4 ! k - cells row oc 4 ! k)) [0..<4]). c mod P31 = 0)
    \<longleftrightarrow> elem row cv = comp_value_ref (elem row f) (word_of_int (row ! i)) (elem row z) (elem row oc)"
    "(\<forall>c\<in>set (map (\<lambda>k. qmul (cells row f 4) [(0 - row ! i) - cells row z 4 ! 0, 0 - cells row z 4 ! 1, 0 - cells row z 4 ! 2, 0 - cells row z 4 ! 3] ! k
        - (cells row cv 4 ! k - cells row oc 4 ! k)) [0..<4]). c mod P31 = 0)
    \<longleftrightarrow> elem row cv = comp_neg_ref (elem row f) (word_of_int (row ! i)) (elem row z) (elem row oc)"
proof -
  note e = elem_facts [OF assms(1,2)] elem_facts [OF assms(1,3)] elem_facts [OF assms(1,5)]
  note w = canon_cell [OF assms(1,6)]
  note v = comp_value_val [OF e(2) w [THEN conjunct1] e(5) e(8)]
  show "(\<forall>c\<in>set (map (\<lambda>k. qmul (cells row f 4) [row ! i - cells row z 4 ! 0, 0 - cells row z 4 ! 1, 0 - cells row z 4 ! 2, 0 - cells row z 4 ! 3] ! k
        - (cells row cv 4 ! k - cells row oc 4 ! k)) [0..<4]). c mod P31 = 0)
    \<longleftrightarrow> elem row cv = comp_value_ref (elem row f) (word_of_int (row ! i)) (elem row z) (elem row oc)"
    unfolding oods_constraints elem_eq_iff [OF assms(1,4) v(2)] v(1) using e w by simp
  show "(\<forall>c\<in>set (map (\<lambda>k. qmul (cells row f 4) [(0 - row ! i) - cells row z 4 ! 0, 0 - cells row z 4 ! 1, 0 - cells row z 4 ! 2, 0 - cells row z 4 ! 3] ! k
        - (cells row cv 4 ! k - cells row oc 4 ! k)) [0..<4]). c mod P31 = 0)
    \<longleftrightarrow> elem row cv = comp_neg_ref (elem row f) (word_of_int (row ! i)) (elem row z) (elem row oc)"
    unfolding oods_constraints elem_eq_iff [OF assms(1,4) v(4)] v(3) using e w by simp
qed

section \<open>The gadgets are exact\<close>

lemma qm31_mul_exact:
  assumes "cells_ok row" "length row = 12"
  shows "row_sat qm31_mul_evaluate row \<longleftrightarrow> elem row 8 = qm31_mul (elem row 0) (elem row 4)"
proof -
  note e = elem_facts [OF assms(1), of 0] elem_facts [OF assms(1), of 4]
  have "qval (qm31_mul (elem row 0) (elem row 4)) = qmod (l4 (cells row 0 4) * l4 (cells row 4 4))" "canon_q (qm31_mul (elem row 0) (elem row 4))"
    using e assms(2) by (simp_all add: qval_ops canon_intros)
  then show ?thesis
    using assms by (simp only: row_sat_def qm31_mul_evaluate_def Let_def vec4_diff l4_qmul) (simp add: elem_eq_iff)
qed

lemma fold_exact:
  assumes "cells_ok row" "length row = 21"
  shows "row_sat fold_evaluate row \<longleftrightarrow> elem row 13 = scaled_diff (elem row 0) (elem row 4) (word_of_int (row ! 12))
    \<and> elem row 17 = circle_fold (elem row 0) (elem row 4) (elem row 8) (word_of_int (row ! 12))"
proof -
  have e: "canon_q (elem row 0)" "canon_q (elem row 4)" "canon_q (elem row 8)" "canon32 (word_of_int (row ! 12))"
    using elem_facts(2) [OF assms(1)] canon_cell [OF assms(1)] assms(2) by simp_all
  note f = fold_two_eq(2) [OF e, symmetric]
  show ?thesis
    unfolding row_sat_def fold_evaluate_def Let_def set_append ball_Un f
    using row_scale_iff [OF assms(1), of 0 4 13 12] row_fold_iff [OF assms(1), of 0 4 8 13 17 12] assms(2) by auto
qed

lemma oods_exact:
  assumes "cells_ok row" "length row = 17"
  shows "row_sat oods_evaluate row \<longleftrightarrow> elem row 9 = comp_value_ref (elem row 0) (word_of_int (row ! 4)) (elem row 5) (elem row 13)"
  unfolding row_sat_def oods_evaluate_def Let_def using row_oods_iff(1) [OF assms(1), of 0 5 9 13 4] assms(2) by simp

lemma query_step_exact:
  assumes "cells_ok row" "length row = 42"
  shows "row_sat query_step_evaluate row \<longleftrightarrow>
    (elem row 26, elem row 30, elem row 34, elem row 38) =
      step_ref (elem row 10) (elem row 14) (word_of_int (row ! 0)) (elem row 1) (elem row 18) (elem row 22) (elem row 5) (word_of_int (row ! 9))"
  unfolding row_sat_def query_step_evaluate_def Let_def set_append ball_Un references
  using row_oods_iff(1) [OF assms(1), of 10 1 26 18 0] row_oods_iff(2) [OF assms(1), of 14 1 30 22 0]
    row_scale_iff [OF assms(1), of 10 14 34 9] row_fold_iff [OF assms(1), of 10 14 5 34 38 9] assms(2)
  by auto

section \<open>Honest rows\<close>

lemma length_limb_cells [simp]: "length (limb_cells q) = 4"
  by (simp add: limb_cells_def limbs_def)

lemma limb_cells_ok:
  assumes "canon_q q"
  shows "cells_ok (limb_cells q)" "pack (map word_of_int (limb_cells q)) = q"
proof -
  obtain a b c d where l: "limbs q = [a, b, c, d]" "canon a" "canon b" "canon c" "canon d"
    using canon_limbs_limbs [OF assms] by (auto simp: canon_limbs_def)
  have c: "cell x = uint x \<and> 0 \<le> uint x \<and> uint x < P31 \<and> word_of_int (uint x) = x" if "canon x" for x
  proof -
    have "uint x < 2 ^ 32" using that by (simp add: canon_uint P31_def)
    then have "uint (ucast x :: u32) = uint x" by (simp add: ucast_down_uint)
    then show ?thesis using that by (simp add: cell_def canon_uint)
  qed
  show "cells_ok (limb_cells q)" using c l by (simp add: limb_cells_def)
  have "map word_of_int (limb_cells q) = limbs q" using c l by (simp add: limb_cells_def)
  then show "pack (map word_of_int (limb_cells q)) = q" using pack_limbs [OF assms] by simp
qed

lemma elem_cells: "cells row a 4 = limb_cells q \<Longrightarrow> canon_q q \<Longrightarrow> elem row a = q"
  by (simp add: elem_def limb_cells_ok)

lemma limb_cells_pack: "canon_limbs l \<Longrightarrow> map cell l = limb_cells (pack l)"
  by (simp add: limb_cells_def limbs_pack)

lemma scalar_cell: "canon32 w \<Longrightarrow> 0 \<le> uint w \<and> uint w < P31 \<and> word_of_int (uint w) = w"
  by (simp add: canon32_def)

lemma qm31_mul_row_ok:
  assumes "canon_q x" "canon_q y"
  shows "length (qm31_mul_row (x, y)) = 12" "cells_ok (qm31_mul_row (x, y))" "row_sat qm31_mul_evaluate (qm31_mul_row (x, y))"
proof -
  have r: "qm31_mul_row (x, y) = limb_cells x @ limb_cells y @ limb_cells (qm31_mul x y)"
    using assms by (simp add: qm31_mul_row_def limb_cells_def limbs_ops)
  have c: "canon_q (qm31_mul x y)" using assms by (simp add: canon_intros)
  show l: "length (qm31_mul_row (x, y)) = 12" and ok: "cells_ok (qm31_mul_row (x, y))"
    using assms c by (simp_all add: r limb_cells_ok)
  have "elem (qm31_mul_row (x, y)) 0 = x" "elem (qm31_mul_row (x, y)) 4 = y" "elem (qm31_mul_row (x, y)) 8 = qm31_mul x y"
    using assms c by (auto intro!: elem_cells simp: r cells_take)
  then show "row_sat qm31_mul_evaluate (qm31_mul_row (x, y))" using qm31_mul_exact [OF ok l] by simp
qed

lemma fold_row_ok:
  assumes "canon_q a" "canon_q b" "canon_q al" "canon32 w"
  shows "length (fold_row (a, b, al, w)) = 21" "cells_ok (fold_row (a, b, al, w))" "row_sat fold_evaluate (fold_row (a, b, al, w))"
    "elem (fold_row (a, b, al, w)) 0 = a" "elem (fold_row (a, b, al, w)) 17 = fold_two a b al w"
    "fold_row (a, b, al, w) = limb_cells a @ limb_cells b @ limb_cells al @ [uint w] @ limb_cells (scaled_diff a b w) @ limb_cells (fold_two a b al w)"
proof -
  have w: "canon (ucast w)" using assms(4) by (simp add: canon_ucast_up)
  have l: "canon_limbs (scale_limbs (sub_limbs (limbs a) (limbs b)) (ucast w))"
    "canon_limbs (add_limbs (add_limbs (limbs a) (limbs b)) (mul_limbs (limbs al) (scale_limbs (sub_limbs (limbs a) (limbs b)) (ucast w))))"
    using assms w by (intro lval_ops lval_scale canon_limbs_limbs; simp)+
  show r: "fold_row (a, b, al, w) = limb_cells a @ limb_cells b @ limb_cells al @ [uint w] @ limb_cells (scaled_diff a b w) @ limb_cells (fold_two a b al w)"
    using limb_cells_pack [OF l(1)] limb_cells_pack [OF l(2)] by (simp add: fold_row_def Let_def scaled_diff_def fold_two_def limb_cells_def)
  note c = scaled_diff_val(2) [OF assms(1,2,4)] fold_two_val(2) [OF assms] scalar_cell [OF assms(4)]
  show len: "length (fold_row (a, b, al, w)) = 21" and ok: "cells_ok (fold_row (a, b, al, w))"
    using assms c by (simp_all add: r limb_cells_ok)
  show el: "elem (fold_row (a, b, al, w)) 0 = a" "elem (fold_row (a, b, al, w)) 17 = fold_two a b al w"
    using assms c by (auto intro!: elem_cells simp: r cells_take)
  have "elem (fold_row (a, b, al, w)) 4 = b" "elem (fold_row (a, b, al, w)) 8 = al"
    "elem (fold_row (a, b, al, w)) 13 = scaled_diff a b w" "fold_row (a, b, al, w) ! 12 = uint w"
    using assms c by (auto intro!: elem_cells simp: r cells_take nth_append)
  with el show "row_sat fold_evaluate (fold_row (a, b, al, w))"
    using fold_exact [OF ok len] c by (simp add: fold_two_eq(2) [OF assms])
qed

lemma oods_row_ok:
  assumes "canon_q f" "canon32 px" "canon_q z" "canon_q oc"
  shows "length (oods_row (f, px, z, oc)) = 17" "cells_ok (oods_row (f, px, z, oc))" "row_sat oods_evaluate (oods_row (f, px, z, oc))"
proof -
  note c = comp_value_val(2) [OF assms] scalar_cell [OF assms(2)]
  have r: "oods_row (f, px, z, oc) = limb_cells f @ [uint px] @ limb_cells z @ limb_cells (comp_value_ref f px z oc) @ limb_cells oc"
    by (simp add: oods_row_def limb_cells_def)
  show len: "length (oods_row (f, px, z, oc)) = 17" and ok: "cells_ok (oods_row (f, px, z, oc))"
    using assms c by (simp_all add: r limb_cells_ok)
  have "elem (oods_row (f, px, z, oc)) 0 = f" "elem (oods_row (f, px, z, oc)) 5 = z" "elem (oods_row (f, px, z, oc)) 9 = comp_value_ref f px z oc"
    "elem (oods_row (f, px, z, oc)) 13 = oc" "oods_row (f, px, z, oc) ! 4 = uint px"
    using assms c by (auto intro!: elem_cells simp: r cells_take nth_append)
  then show "row_sat oods_evaluate (oods_row (f, px, z, oc))" using oods_exact [OF ok len] c by simp
qed

text \<open>A query step whose values are canonical.\<close>

fun canon_step :: "StepOp \<Rightarrow> bool" where
  "canon_step (fp, fmi, px, z, cp, cn, al, w) \<longleftrightarrow>
     canon_q fp \<and> canon_q fmi \<and> canon32 px \<and> canon_q z \<and> canon_q cp \<and> canon_q cn \<and> canon_q al \<and> canon32 w"

lemma query_step_row_ok:
  assumes "canon_step op"
  shows "length (query_step_row op) = 42" "cells_ok (query_step_row op)" "row_sat query_step_evaluate (query_step_row op)"
proof -
  obtain fp fmi px z cp cn al w where op: "op = (fp, fmi, px, z, cp, cn, al, w)" by (metis prod_cases7 prod.exhaust)
  have a: "canon_q fp" "canon_q fmi" "canon32 px" "canon_q z" "canon_q cp" "canon_q cn" "canon_q al" "canon32 w" using assms by (simp_all add: op)
  note c = comp_value_val(2) [OF a(1,3,4,5)] comp_value_val(4) [OF a(2,3,4,6)] scaled_diff_val(2) [OF a(1,2,8)] fold_two_val(2) [OF a(1,2,7,8)]
    scalar_cell [OF a(3)] scalar_cell [OF a(8)]
  have r: "query_step_row op = [uint px] @ limb_cells z @ limb_cells al @ [uint w] @ limb_cells fp @ limb_cells fmi @ limb_cells cp @ limb_cells cn
      @ limb_cells (comp_value_ref fp px z cp) @ limb_cells (comp_neg_ref fmi px z cn) @ limb_cells (scaled_diff fp fmi w) @ limb_cells (fold_two fp fmi al w)"
    by (simp add: query_step_row_def op references)
  show len: "length (query_step_row op) = 42" and ok: "cells_ok (query_step_row op)" using a c by (simp_all add: r limb_cells_ok)
  have "elem (query_step_row op) 1 = z" "elem (query_step_row op) 5 = al" "elem (query_step_row op) 10 = fp" "elem (query_step_row op) 14 = fmi"
    "elem (query_step_row op) 18 = cp" "elem (query_step_row op) 22 = cn" "elem (query_step_row op) 26 = comp_value_ref fp px z cp"
    "elem (query_step_row op) 30 = comp_neg_ref fmi px z cn" "elem (query_step_row op) 34 = scaled_diff fp fmi w"
    "elem (query_step_row op) 38 = fold_two fp fmi al w" "query_step_row op ! 0 = uint px" "query_step_row op ! 9 = uint w"
    using a c by (auto intro!: elem_cells simp: r cells_take nth_append)
  then show "row_sat query_step_evaluate (query_step_row op)" using query_step_exact [OF ok len] c by (simp add: references)
qed

text \<open>Rows of zeros satisfy every gadget.\<close>

lemma cells_zero: "a + n \<le> w \<Longrightarrow> cells (replicate w 0) a n = replicate n (0 :: int)"
  by (simp add: cells_take)

lemma zero_rows:
  "row_sat qm31_mul_evaluate (replicate 12 0)" "row_sat fold_evaluate (replicate 21 0)" "row_sat oods_evaluate (replicate 17 0)"
  "row_sat query_step_evaluate (replicate 42 0)" "cells_ok (replicate w 0)"
  using P31_pos
  by (simp_all add: row_sat_def qm31_mul_evaluate_def fold_evaluate_def oods_evaluate_def query_step_evaluate_def qmul_def Let_def
      cells_zero upt4 cells_ok_def)

lemma ops_trace_sat:
  assumes "length ops \<le> 2 ^ log_n" "\<And>op. op \<in> set ops \<Longrightarrow> length (f op) = w \<and> cells_ok (f op) \<and> row_sat ev (f op)"
    "row_sat ev (replicate w 0)"
  shows "\<exists>cols. ops_trace w f ops log_n = Some cols \<and> trace_sat ev cols (2 ^ log_n)"
proof -
  let ?rows = "pad_rows (2 ^ log_n) w (map f ops)"
  have "trace_sat ev (columns w ?rows) (length ?rows)"
    using assms(2,3) zero_rows(5) [of w] by (intro trace_sat_columns) (auto simp: pad_rows_def)
  moreover have "length ?rows = 2 ^ log_n" using assms(1) by (simp add: pad_rows_def)
  ultimately show ?thesis using assms(1) by (simp add: ops_trace_def Let_def)
qed

lemma log_size_loop_spec:
  "l \<le> log_size_loop n l \<and> max n 1 \<le> 2 ^ log_size_loop n l \<and> (log_size_loop n l = l \<or> 2 ^ (log_size_loop n l - 1) < max n 1)"
proof (induction n l rule: log_size_loop.induct)
  case (1 n l)
  show ?case
  proof (cases "2 ^ l < max n 1")
    case True
    then have s: "log_size_loop n l = log_size_loop n (l + 1)" by (subst log_size_loop.simps) simp
    from 1 [OF True] True show ?thesis unfolding s by auto
  next
    case False
    then have "log_size_loop n l = l" by (subst log_size_loop.simps) simp
    with False show ?thesis by simp
  qed
qed

lemma compute_log_size_spec: "n \<le> 2 ^ compute_log_size n" "1 \<le> compute_log_size n"
  using log_size_loop_spec [of 1 n] by (simp_all add: compute_log_size_def)

section \<open>The chain of line folds\<close>

type_synonym ChainRound = "u128 \<times> u128 \<times> u128 \<times> u32"

definition fold_one :: "u128 \<Rightarrow> u128 \<Rightarrow> u128 \<Rightarrow> u32 \<Rightarrow> u128" where
  "fold_one input sibling alpha x_inv =
     (let inp = limbs input; sib = limbs sibling; diff = sub_limbs inp sib; p = scale_limbs diff (ucast x_inv)
      in pack (add_limbs (add_limbs inp sib) (mul_limbs (limbs alpha) p)))"

definition fold_chain_ref :: "ChainRound list \<Rightarrow> u128 list" where
  "fold_chain_ref rounds =
     foldl (\<lambda>outputs (i, input, sibling, alpha, x_inv).
         let actual_input = (if i = 0 then input else outputs ! (i - 1))
         in outputs @ [fold_one actual_input sibling alpha x_inv]) [] (enumerate 0 rounds)"

definition fold_chain_final :: "ChainRound list \<Rightarrow> u128" where
  "fold_chain_final rounds = (let outputs = fold_chain_ref rounds in if outputs = [] then 0 else last outputs)"

definition fold_chain_evaluate :: "'f::comm_ring_1 list \<Rightarrow> 'f list \<Rightarrow> 'f list \<Rightarrow> 'f list" where
  "fold_chain_evaluate pre row prev =
     (let is_first = pre ! 0;
          inp = cells row 0 4; sib = cells row 4 4; alpha = cells row 8 4; x_inv = row ! 12;
          p = cells row 13 4; out = cells row 17 4; out_prev = cells prev 17 4;
          not_first = 1 - is_first; ap = qmul alpha p
      in map (\<lambda>k. p ! k - (inp ! k - sib ! k) * x_inv) [0..<4]
         @ map (\<lambda>k. out ! k - (inp ! k + sib ! k + ap ! k)) [0..<4]
         @ map (\<lambda>k. not_first * (inp ! k - out_prev ! k)) [0..<4])"

definition fold_chain_preproc :: "nat \<Rightarrow> nat \<Rightarrow> int list list" where
  "fold_chain_preproc num_rounds log_size =
     (let n = 2 ^ log_size; is_first_col = (replicate n 0)[0 := 1]
      in [if num_rounds < n then is_first_col[num_rounds := 1] else is_first_col])"

text \<open>One round of the builder; it carries the output of the previous round.\<close>

definition chain_fill :: "int list list \<times> u128 \<Rightarrow> nat \<times> ChainRound \<Rightarrow> int list list \<times> u128" where
  "chain_fill = (\<lambda>(rows, prev_output) (r, input, sibling, alpha, x_inv).
      let actual_input = (if r = 0 then input else prev_output);
          p_val = scale_limbs (sub_limbs (limbs actual_input) (limbs sibling)) (ucast x_inv);
          output = fold_one actual_input sibling alpha x_inv
      in (rows @ [limb_cells actual_input @ limb_cells sibling @ limb_cells alpha @ [uint x_inv]
                  @ limb_cells (pack p_val) @ limb_cells output], output))"

definition fold_chain_build_trace :: "ChainRound list \<Rightarrow> nat \<Rightarrow> (int list list \<times> int list list) option" where
  "fold_chain_build_trace rounds log_n_rows =
     (let n = 2 ^ log_n_rows;
          (rows, prev_output) = foldl chain_fill ([], 0) (enumerate 0 rounds)
      in if length rounds \<le> n then Some (columns 21 (pad_rows n 21 rows), fold_chain_preproc (length rounds) log_n_rows) else None)"

lemma fold_one_eq: "fold_one = fold_two"
  by (simp add: fun_eq_iff fold_one_def fold_two_def Let_def)

text \<open>The rounds a trace holds.\<close>

definition trace_round :: "int list list \<Rightarrow> nat \<Rightarrow> ChainRound" where
  "trace_round cols r = (let row = trace_row cols r in (elem row 0, elem row 4, elem row 8, word_of_int (row ! 12)))"

definition chain_step :: "(nat \<Rightarrow> ChainRound) \<Rightarrow> u128 list \<Rightarrow> nat \<Rightarrow> u128" where
  "chain_step f outputs i = (case f i of (input, sibling, alpha, x_inv) \<Rightarrow>
     fold_two (if i = 0 then input else outputs ! (i - 1)) sibling alpha x_inv)"

lemma fold_chain_ref_snoc:
  "fold_chain_ref (rounds @ [x]) = fold_chain_ref rounds @ [chain_step (\<lambda>_. x) (fold_chain_ref rounds) (length rounds)]"
  by (cases x) (simp add: fold_chain_ref_def enumerate_append_eq chain_step_def fold_one_eq Let_def)

lemma length_fold_chain_ref [simp]: "length (fold_chain_ref rounds) = length rounds"
  by (induction rounds rule: rev_induct) (simp_all add: fold_chain_ref_snoc, simp add: fold_chain_ref_def)

lemma fold_chain_ref_upt:
  "fold_chain_ref (map f [0..<Suc m]) = fold_chain_ref (map f [0..<m]) @ [chain_step f (fold_chain_ref (map f [0..<m])) m]"
  using fold_chain_ref_snoc [of "map f [0..<m]" "f m"] by (simp add: chain_step_def)

lemma gated_constraints:
  "(\<forall>c\<in>set (map (\<lambda>k. (1 :: int) * f k) [0..<4]). c mod P31 = 0) \<longleftrightarrow> (\<forall>c\<in>set (map f [0..<4]). c mod P31 = 0)"
  "\<forall>c\<in>set (map (\<lambda>k. (0 :: int) * f k) [0..<4]). c mod P31 = 0"
  by simp_all

lemma fold_chain_row_iff:
  assumes "cells_ok row" "length row = 21" "cells_ok prev" "length prev = 21" "pre ! 0 = (if first then 1 else 0)"
  shows "(\<forall>c\<in>set (fold_chain_evaluate pre row prev). c mod P31 = 0) \<longleftrightarrow>
    elem row 13 = scaled_diff (elem row 0) (elem row 4) (word_of_int (row ! 12))
    \<and> elem row 17 = fold_two (elem row 0) (elem row 4) (elem row 8) (word_of_int (row ! 12))
    \<and> (\<not> first \<longrightarrow> elem row 0 = elem prev 17)"
proof -
  have e: "canon_q (elem prev 17)" "qval (elem prev 17) = l4 (cells prev 17 4)" using elem_facts [OF assms(3), of 17] assms(4) by simp_all
  have link: "(\<forall>c\<in>set (map (\<lambda>k. (1 - pre ! 0) * (cells row 0 4 ! k - cells prev 17 4 ! k)) [0..<4]). c mod P31 = 0)
      \<longleftrightarrow> (\<not> first \<longrightarrow> elem row 0 = elem prev 17)"
  proof (cases first)
    case False
    then have "1 - pre ! 0 = 1" using assms(5) by simp
    then show ?thesis using False e elem_eq_iff [OF assms(1), of 0 "elem prev 17"] assms(2)
      by (simp only: gated_constraints vec4_diff) simp
  qed (simp add: assms(5))
  show ?thesis
    unfolding fold_chain_evaluate_def Let_def set_append ball_Un link
    using row_scale_iff [OF assms(1), of 0 4 13 12] row_fold_iff [OF assms(1), of 0 4 8 13 17 12] assms(2) by auto
qed

lemma fold_chain_first: "i < 2 ^ log_size \<Longrightarrow> trace_row (fold_chain_preproc k log_size) i ! 0 = (if i = 0 \<or> i = k then 1 else 0)"
  by (auto simp: trace_row_def fold_chain_preproc_def Let_def nth_list_update)

lemma fold_chain_trace_sound:
  assumes "length cols = 21" "k \<le> 2 ^ log_size" "cyclic_sat fold_chain_evaluate (fold_chain_preproc k log_size) cols (2 ^ log_size)"
  shows "m \<le> k \<Longrightarrow> map (\<lambda>r. elem (trace_row cols r) 17) [0..<m] = fold_chain_ref (map (trace_round cols) [0..<m])"
proof (induction m)
  case (Suc m)
  have ok: "cells_ok (trace_row cols i)" "length (trace_row cols i) = 21" if "i < 2 ^ log_size" for i
    using assms(1,3) that by (simp_all add: cyclic_sat_def) (simp add: trace_row_def)
  have m: "m < 2 ^ log_size" using Suc.prems assms(2) by simp
  define p where "p = (m + 2 ^ log_size - 1) mod 2 ^ log_size"
  have p: "p < 2 ^ log_size" by (simp add: p_def)
  have pm: "m \<noteq> 0 \<Longrightarrow> p = m - 1" using cyclic_prev [OF m] by (simp add: p_def)
  have "\<forall>c\<in>set (fold_chain_evaluate (trace_row (fold_chain_preproc k log_size) m) (trace_row cols m) (trace_row cols p)). c mod P31 = 0"
    using assms(3) m by (simp add: cyclic_sat_def p_def)
  then have r: "elem (trace_row cols m) 17 = fold_two (elem (trace_row cols m) 0) (elem (trace_row cols m) 4) (elem (trace_row cols m) 8)
      (word_of_int (trace_row cols m ! 12))" "m \<noteq> 0 \<Longrightarrow> elem (trace_row cols m) 0 = elem (trace_row cols (m - 1)) 17"
    using fold_chain_row_iff [OF ok [OF m] ok [OF p] fold_chain_first [OF m]] pm Suc.prems by auto
  have ih: "map (\<lambda>r. elem (trace_row cols r) 17) [0..<m] = fold_chain_ref (map (trace_round cols) [0..<m])" using Suc by simp
  have "elem (trace_row cols (m - 1)) 17 = fold_chain_ref (map (trace_round cols) [0..<m]) ! (m - 1)" if "m \<noteq> 0"
    unfolding ih [symmetric] using that by simp
  then have "elem (trace_row cols m) 17 = chain_step (trace_round cols) (fold_chain_ref (map (trace_round cols) [0..<m])) m"
    using r by (simp add: chain_step_def trace_round_def Let_def)
  then show ?case unfolding fold_chain_ref_upt using ih by simp
qed (simp add: fold_chain_ref_def)

fun canon_round :: "ChainRound \<Rightarrow> bool" where
  "canon_round (input, sibling, alpha, x_inv) \<longleftrightarrow> canon_q input \<and> canon_q sibling \<and> canon_q alpha \<and> canon32 x_inv"

definition chain_args :: "ChainRound list \<Rightarrow> nat \<Rightarrow> ChainRound" where
  "chain_args rounds i = (case rounds ! i of (input, sibling, alpha, x_inv) \<Rightarrow>
     (if i = 0 then input else fold_chain_ref rounds ! (i - 1), sibling, alpha, x_inv))"

lemma fold_chain_ref_take: "i < length rounds \<Longrightarrow> fold_chain_ref (rounds @ [x]) ! i = fold_chain_ref rounds ! i"
  by (simp add: fold_chain_ref_snoc nth_append)

lemma fold_chain_ref_nth:
  assumes "i < length rounds"
  shows "fold_chain_ref rounds ! i = (case chain_args rounds i of (input, sibling, alpha, x_inv) \<Rightarrow> fold_two input sibling alpha x_inv)"
  using assms
proof (induction rounds rule: rev_induct)
  case (snoc x rounds)
  show ?case
  proof (cases "i < length rounds")
    case True
    then have "chain_args (rounds @ [x]) i = chain_args rounds i"
      by (simp add: chain_args_def nth_append fold_chain_ref_take split: prod.splits)
    then show ?thesis using snoc.IH True by (simp add: fold_chain_ref_take)
  next
    case False
    then have i: "i = length rounds" using snoc.prems by simp
    have "fold_chain_ref (rounds @ [x]) ! (length rounds - 1) = fold_chain_ref rounds ! (length rounds - 1)" if "rounds \<noteq> []"
      using that by (intro fold_chain_ref_take) simp
    then show ?thesis
      by (cases x) (auto simp: i fold_chain_ref_snoc nth_append chain_step_def chain_args_def)
  qed
qed simp

lemma canon_chain_args:
  assumes "\<forall>r\<in>set rounds. canon_round r"
  shows "i < length rounds \<Longrightarrow> canon_round (chain_args rounds i)"
proof (induction i)
  case 0
  then have "canon_round (rounds ! 0)" using assms by simp
  then show ?case by (cases "rounds ! 0") (simp add: chain_args_def)
next
  case (Suc i)
  then have "canon_round (chain_args rounds i)" by simp
  then have "canon_q (fold_chain_ref rounds ! i)"
    using Suc.prems by (cases "chain_args rounds i") (simp add: fold_chain_ref_nth fold_two_val)
  moreover have "canon_round (rounds ! Suc i)" using assms Suc.prems by simp
  ultimately show ?case by (cases "rounds ! Suc i") (simp add: chain_args_def)
qed

lemma fold_chain_rows:
  assumes "\<forall>r\<in>set rounds. canon_round r"
  shows "foldl chain_fill ([], 0) (enumerate 0 rounds)
    = (map (\<lambda>i. fold_row (chain_args rounds i)) [0..<length rounds], if rounds = [] then 0 else last (fold_chain_ref rounds))"
  using assms
proof (induction rounds rule: rev_induct)
  case (snoc x rounds)
  have ca: "chain_args (rounds @ [x]) i = chain_args rounds i" if "i < length rounds" for i
    using that by (simp add: chain_args_def nth_append fold_chain_ref_take split: prod.splits)
  have last: "fold_chain_ref (rounds @ [x]) ! (length rounds - 1) = last (fold_chain_ref rounds)"
    "fold_chain_ref rounds ! (length rounds - 1) = last (fold_chain_ref rounds)" if "rounds \<noteq> []"
  proof -
    have "fold_chain_ref rounds \<noteq> []" by (metis length_fold_chain_ref length_0_conv that)
    then show "fold_chain_ref rounds ! (length rounds - 1) = last (fold_chain_ref rounds)" by (simp add: last_conv_nth)
    then show "fold_chain_ref (rounds @ [x]) ! (length rounds - 1) = last (fold_chain_ref rounds)"
      using fold_chain_ref_take [of "length rounds - 1" rounds x] that by simp
  qed
  obtain input sibling alpha x_inv where x: "x = (input, sibling, alpha, x_inv)" by (cases x)
  define a where "a = (if rounds = [] then input else last (fold_chain_ref rounds))"
  have args: "chain_args (rounds @ [x]) (length rounds) = (a, sibling, alpha, x_inv)"
    using last(1) by (cases "rounds = []") (simp_all add: chain_args_def x a_def)
  have "canon_round (a, sibling, alpha, x_inv)"
    using canon_chain_args [of "rounds @ [x]" "length rounds"] snoc.prems by (simp add: args)
  then have row: "fold_row (a, sibling, alpha, x_inv) = limb_cells a @ limb_cells sibling @ limb_cells alpha @ [uint x_inv]
      @ limb_cells (scaled_diff a sibling x_inv) @ limb_cells (fold_two a sibling alpha x_inv)" by (intro fold_row_ok) simp_all
  have out: "last (fold_chain_ref (rounds @ [x])) = fold_two a sibling alpha x_inv"
    unfolding fold_chain_ref_snoc using last(2) by (cases "rounds = []") (simp_all add: chain_step_def x a_def)
  have act: "(if length rounds = 0 then input else if rounds = [] then 0 else last (fold_chain_ref rounds)) = a" by (simp add: a_def)
  have step: "chain_fill (rows, prev) (length rounds, x) = (rows @ [fold_row (a, sibling, alpha, x_inv)], fold_two a sibling alpha x_inv)"
    if "(if length rounds = 0 then input else prev) = a" for rows prev
    unfolding chain_fill_def x prod.case that Let_def row by (simp only: fold_one_eq scaled_diff_def)
  have ih: "foldl chain_fill ([], 0) (enumerate 0 rounds)
      = (map (\<lambda>i. fold_row (chain_args rounds i)) [0..<length rounds], if rounds = [] then 0 else last (fold_chain_ref rounds))"
    using snoc by simp
  have "foldl chain_fill ([], 0) (enumerate 0 (rounds @ [x])) = chain_fill (foldl chain_fill ([], 0) (enumerate 0 rounds)) (length rounds, x)"
    by (simp add: enumerate_append_eq)
  also have "\<dots> = (map (\<lambda>i. fold_row (chain_args rounds i)) [0..<length rounds] @ [fold_row (a, sibling, alpha, x_inv)], fold_two a sibling alpha x_inv)"
    unfolding ih by (rule step [OF act])
  also have "map (\<lambda>i. fold_row (chain_args rounds i)) [0..<length rounds] @ [fold_row (a, sibling, alpha, x_inv)]
      = map (\<lambda>i. fold_row (chain_args (rounds @ [x]) i)) [0..<length (rounds @ [x])]"
    using ca args by simp
  finally show ?case by (simp add: out)
qed simp

lemma fold_chain_zero:
  "pre ! 0 = 1 \<or> prev = replicate 21 0 \<Longrightarrow> \<forall>c\<in>set (fold_chain_evaluate pre (replicate 21 0) prev). c mod P31 = 0"
  by (auto simp: fold_chain_evaluate_def qmul_def Let_def cells_zero upt4)

lemma fold_chain_trace_complete:
  assumes "\<forall>r\<in>set rounds. canon_round r" "length rounds \<le> 2 ^ log_n"
  shows "\<exists>cols. fold_chain_build_trace rounds log_n = Some (cols, fold_chain_preproc (length rounds) log_n) \<and> length cols = 21
    \<and> cyclic_sat fold_chain_evaluate (fold_chain_preproc (length rounds) log_n) cols (2 ^ log_n)
    \<and> (\<forall>i<length rounds. elem (trace_row cols i) 17 = fold_chain_ref rounds ! i)"
proof -
  let ?n = "2 ^ log_n :: nat" and ?k = "length rounds"
  let ?rows = "pad_rows ?n 21 (map (\<lambda>i. fold_row (chain_args rounds i)) [0..<?k])"
  let ?cols = "columns 21 ?rows"
  have b: "fold_chain_build_trace rounds log_n = Some (?cols, fold_chain_preproc ?k log_n)"
    using assms(2) by (simp add: fold_chain_build_trace_def fold_chain_rows [OF assms(1)] Let_def)
  have row: "length (fold_row (chain_args rounds i)) = 21 \<and> cells_ok (fold_row (chain_args rounds i)) \<and> row_sat fold_evaluate (fold_row (chain_args rounds i))
      \<and> elem (fold_row (chain_args rounds i)) 0 = fst (chain_args rounds i) \<and> elem (fold_row (chain_args rounds i)) 17 = fold_chain_ref rounds ! i" if "i < ?k" for i
    using canon_chain_args [OF assms(1) that] fold_chain_ref_nth [OF that] fold_row_ok(1-5)
    by (cases "chain_args rounds i") simp
  have len: "length ?rows = ?n" using assms(2) by (simp add: pad_rows_def)
  have at_i: "?rows ! i = (if i < ?k then fold_row (chain_args rounds i) else replicate 21 0)" if "i < ?n" for i
    using that by (simp add: pad_rows_def nth_append)
  have tr: "trace_row ?cols i = (if i < ?k then fold_row (chain_args rounds i) else replicate 21 0)" if "i < ?n" for i
    using that row [of i] at_i [OF that] len by (subst trace_row_columns) (auto split: if_splits)
  have "cyclic_sat fold_chain_evaluate (fold_chain_preproc ?k log_n) ?cols ?n"
    unfolding cyclic_sat_def
  proof (intro allI impI conjI)
    fix i assume i: "i < ?n"
    show "cells_ok (trace_row ?cols i)" using row [of i] zero_rows(5) [of 21] by (simp add: tr [OF i])
    define p where "p = (i + ?n - 1) mod ?n"
    have p: "p < ?n" by (simp add: p_def)
    have pi: "i \<noteq> 0 \<Longrightarrow> p = i - 1" using cyclic_prev [OF i] by (simp add: p_def)
    have ok: "cells_ok (trace_row ?cols p)" "length (trace_row ?cols p) = 21" using row [of p] zero_rows(5) [of 21] by (simp_all add: tr [OF p])
    note fst = fold_chain_first [OF i, of ?k]
    have "\<forall>c\<in>set (fold_chain_evaluate (trace_row (fold_chain_preproc ?k log_n) i) (trace_row ?cols i) (trace_row ?cols p)). c mod P31 = 0"
    proof (cases "i < ?k")
      case True
      note r = row [OF True]
      have "elem (trace_row ?cols i) 0 = elem (trace_row ?cols p) 17" if "i \<noteq> 0"
      proof -
        have pk: "p < ?k" "p = i - 1" using pi [OF that] True by simp_all
        have "trace_row ?cols p = fold_row (chain_args rounds p)" by (simp only: tr [OF p] pk(1) if_True)
        then have "elem (trace_row ?cols p) 17 = fold_chain_ref rounds ! p" using row [OF pk(1)] by (simp only:)
        then have "elem (trace_row ?cols p) 17 = fold_chain_ref rounds ! (i - 1)" by (simp only: pk(2))
        moreover have "elem (trace_row ?cols i) 0 = fst (chain_args rounds i)" using r by (simp only: tr [OF i] True if_True)
        moreover have "fst (chain_args rounds i) = fold_chain_ref rounds ! (i - 1)" using that by (simp add: chain_args_def split: prod.splits)
        ultimately show ?thesis by simp
      qed
      moreover have "elem (trace_row ?cols i) 13 = scaled_diff (elem (trace_row ?cols i) 0) (elem (trace_row ?cols i) 4) (word_of_int (trace_row ?cols i ! 12))
          \<and> elem (trace_row ?cols i) 17 = fold_two (elem (trace_row ?cols i) 0) (elem (trace_row ?cols i) 4) (elem (trace_row ?cols i) 8) (word_of_int (trace_row ?cols i ! 12))"
        using r row_scale_iff [of "trace_row ?cols i" 0 4 13 12] row_fold_iff [of "trace_row ?cols i" 0 4 8 13 17 12] i True
        unfolding row_sat_def fold_evaluate_def Let_def set_append ball_Un by (simp add: tr)
      ultimately show ?thesis
        using fold_chain_row_iff [OF _ _ ok fst] r i True by (simp add: tr)
    next
      case False
      then show ?thesis using fst pi i p fold_chain_zero by (cases "i = ?k") (auto simp: tr)
    qed
    then show "\<forall>c\<in>set (fold_chain_evaluate (trace_row (fold_chain_preproc ?k log_n) i) (trace_row ?cols i) (trace_row ?cols ((i + ?n - 1) mod ?n))). c mod P31 = 0"
      by (simp add: p_def)
  qed
  moreover have "\<forall>i<?k. elem (trace_row ?cols i) 17 = fold_chain_ref rounds ! i" using row assms(2) by (simp add: tr)
  moreover have "length ?cols = 21" by (simp add: columns_def)
  ultimately show ?thesis using b by blast
qed

section \<open>Properties\<close>

text \<open>
  C28. The gadgets are exact: a row of field cells satisfies the product, fold, quotient and query step
  circuits if and only if its cells are the product in \<open>QM31\<close>, the fold of the bridge, the composition value
  and the four values of the reference step of its inputs. Nothing else is accepted and nothing is missing.
\<close>

theorem gadgets_exact:
  assumes "cells_ok row"
  shows "(length row = 12 \<longrightarrow> (row_sat qm31_mul_evaluate row \<longleftrightarrow> elem row 8 = qm31_mul (elem row 0) (elem row 4)))
    \<and> (length row = 21 \<longrightarrow> (row_sat fold_evaluate row \<longleftrightarrow>
          elem row 13 = scaled_diff (elem row 0) (elem row 4) (word_of_int (row ! 12))
          \<and> elem row 17 = circle_fold (elem row 0) (elem row 4) (elem row 8) (word_of_int (row ! 12))))
    \<and> (length row = 17 \<longrightarrow> (row_sat oods_evaluate row \<longleftrightarrow>
          elem row 9 = comp_value_ref (elem row 0) (word_of_int (row ! 4)) (elem row 5) (elem row 13)))
    \<and> (length row = 42 \<longrightarrow> (row_sat query_step_evaluate row \<longleftrightarrow>
          (elem row 26, elem row 30, elem row 34, elem row 38) =
            step_ref (elem row 10) (elem row 14) (word_of_int (row ! 0)) (elem row 1) (elem row 18) (elem row 22) (elem row 5) (word_of_int (row ! 9))))"
  using qm31_mul_exact [OF assms] fold_exact [OF assms] oods_exact [OF assms] query_step_exact [OF assms] by blast

lemma gadgets_exact_witness:
  "row_sat qm31_mul_evaluate [3, 0, 0, 0, 5, 0, 0, 0, 15, 0, 0, 0]
   \<and> elem [3, 0, 0, 0, 5, 0, 0, 0, 15, 0, 0, 0] 8
     = qm31_mul (elem [3, 0, 0, 0, 5, 0, 0, 0, 15, 0, 0, 0] 0) (elem [3, 0, 0, 0, 5, 0, 0, 0, 15, 0, 0, 0] 4)"
proof -
  let ?row = "[3, 0, 0, 0, 5, 0, 0, 0, 15, 0, 0, 0] :: int list"
  have "cells_ok ?row" by (simp add: P31_def)
  moreover have "row_sat qm31_mul_evaluate ?row" by (simp add: row_sat_def qm31_mul_evaluate_def qmul_def cells_4 upt4 Let_def)
  ultimately show ?thesis using gadgets_exact [of ?row] by simp
qed

text \<open>
  On canonical operations every builder succeeds with the size the provers compute, and its trace
  satisfies the circuit on every row, the padding included.
\<close>

lemma gadget_traces_complete:
  assumes "\<forall>(x, y)\<in>set muls. canon_q x \<and> canon_q y"
    "\<forall>(a, b, al, w)\<in>set folds. canon_q a \<and> canon_q b \<and> canon_q al \<and> canon32 w"
    "\<forall>(f, px, z, oc)\<in>set quots. canon_q f \<and> canon32 px \<and> canon_q z \<and> canon_q oc"
    "\<forall>op\<in>set steps. canon_step op"
  shows "(\<exists>cols. qm31_mul_build_trace muls (compute_log_size (length muls)) = Some cols
        \<and> trace_sat qm31_mul_evaluate cols (2 ^ compute_log_size (length muls)))
    \<and> (\<exists>cols. fold_build_trace folds (compute_log_size (length folds)) = Some cols
        \<and> trace_sat fold_evaluate cols (2 ^ compute_log_size (length folds)))
    \<and> (\<exists>cols. oods_build_trace quots (compute_log_size (length quots)) = Some cols
        \<and> trace_sat oods_evaluate cols (2 ^ compute_log_size (length quots)))
    \<and> (\<exists>cols. query_step_build_trace steps (compute_log_size (length steps)) = Some cols
        \<and> trace_sat query_step_evaluate cols (2 ^ compute_log_size (length steps)))"
  unfolding qm31_mul_build_trace_def fold_build_trace_def oods_build_trace_def query_step_build_trace_def
  by (intro conjI ops_trace_sat compute_log_size_spec zero_rows)
    (use assms qm31_mul_row_ok fold_row_ok(1-3) oods_row_ok query_step_row_ok in fastforce)+

text \<open>
  C29. The chain of line folds: whatever the trace, if it satisfies the circuit with the selector column of the
  program, the outputs of its first \<open>k\<close> rows are those of the reference on the rounds it holds; and the trace
  the builder makes of canonical rounds satisfies the circuit and ends with the reference outputs.
\<close>

theorem fold_chain_circuit_correct:
  "(length cols = 21 \<and> k \<le> 2 ^ log_size \<and> cyclic_sat fold_chain_evaluate (fold_chain_preproc k log_size) cols (2 ^ log_size)
      \<longrightarrow> map (\<lambda>r. elem (trace_row cols r) 17) [0..<k] = fold_chain_ref (map (trace_round cols) [0..<k]))
   \<and> ((\<forall>r\<in>set rounds. canon_round r) \<and> length rounds \<le> 2 ^ log_n
      \<longrightarrow> (\<exists>cols. fold_chain_build_trace rounds log_n = Some (cols, fold_chain_preproc (length rounds) log_n)
            \<and> cyclic_sat fold_chain_evaluate (fold_chain_preproc (length rounds) log_n) cols (2 ^ log_n)
            \<and> map (\<lambda>i. elem (trace_row cols i) 17) [0..<length rounds] = fold_chain_ref rounds))"
proof (intro conjI impI)
  assume a: "(\<forall>r\<in>set rounds. canon_round r) \<and> length rounds \<le> 2 ^ log_n"
  obtain cols where c: "fold_chain_build_trace rounds log_n = Some (cols, fold_chain_preproc (length rounds) log_n)"
    "cyclic_sat fold_chain_evaluate (fold_chain_preproc (length rounds) log_n) cols (2 ^ log_n)"
    "\<forall>i<length rounds. elem (trace_row cols i) 17 = fold_chain_ref rounds ! i"
    using fold_chain_trace_complete [of rounds log_n] a by blast
  have "map (\<lambda>i. elem (trace_row cols i) 17) [0..<length rounds] = fold_chain_ref rounds"
    using c(3) by (intro nth_equalityI) simp_all
  with c show "\<exists>cols. fold_chain_build_trace rounds log_n = Some (cols, fold_chain_preproc (length rounds) log_n)
      \<and> cyclic_sat fold_chain_evaluate (fold_chain_preproc (length rounds) log_n) cols (2 ^ log_n)
      \<and> map (\<lambda>i. elem (trace_row cols i) 17) [0..<length rounds] = fold_chain_ref rounds" by blast
qed (use fold_chain_trace_sound in blast)

lemma fold_chain_circuit_correct_witness:
  "\<exists>cols. fold_chain_build_trace [(0, 0, 0, 0)] 1 = Some (cols, fold_chain_preproc 1 1)
     \<and> cyclic_sat fold_chain_evaluate (fold_chain_preproc 1 1) cols 2"
proof -
  have "canon_q 0" "canon32 0"
    by (simp_all add: canon_q_def canon_c_def canon32_def qm31_c0_def qm31_c1_def cm31_re_def cm31_im_def P31_def)
  then show ?thesis using fold_chain_circuit_correct [of "[]" 0 0 "[(0, 0, 0, 0)]" 1] by auto
qed

end
