(* ===== verification/Circuit_Recursion.thy ===== *)
theory Circuit_Recursion
  imports Circuit_FRI
begin

text \<open>
  The circuit of the recursion verifier (\<open>recursive/recursive_verifier.rs\<close>): for each query a block of one
  step row and \<open>K\<close> fold rows. The preprocessed columns carry the selectors and the values the verifier fixes:
  challenges, twiddles, query and out-of-domain points, composition values and final values. A row of the
  trace has the layout of a query step; fold rows leave the quotient cells zero. The builders take the profile of
  the build, which decides whether debug assertions run and whether an overflow panics or wraps.
\<close>

section \<open>Constraints\<close>

definition rv_evaluate :: "'f::comm_ring_1 list \<Rightarrow> 'f list \<Rightarrow> 'f list \<Rightarrow> 'f list" where
  "rv_evaluate pre row prev =
     (let is_step = pre ! 0; chain_on = pre ! 1; is_output = pre ! 2; fin = cells pre 3 4; alpha_p = cells pre 7 4;
          px_p = pre ! 11; zx_p = cells pre 12 4; inv_p = pre ! 16; comp_pin = cells pre 17 4; comp_neg_pin = cells pre 21 4;
          px = row ! 0; zx = cells row 1 4; alpha = cells row 5 4; w = row ! 9; a = cells row 10 4; b = cells row 14 4;
          combo_pos = cells row 18 4; combo_neg = cells row 22 4; comp_pos = cells row 26 4; comp_neg = cells row 30 4;
          p = cells row 34 4; out = cells row 38 4; out_prev = cells prev 38 4;
          zero = px - px;
          d_pos = [px - zx ! 0, zero - zx ! 1, zero - zx ! 2, zero - zx ! 3];
          d_neg = [(zero - px) - zx ! 0, zero - zx ! 1, zero - zx ! 2, zero - zx ! 3];
          ap = qmul alpha p; prod_pos = qmul a d_pos; prod_neg = qmul b d_neg
      in map (\<lambda>k. alpha ! k - alpha_p ! k) [0..<4]
         @ [w - inv_p]
         @ [is_step * (px - px_p)]
         @ map (\<lambda>k. is_step * (zx ! k - zx_p ! k)) [0..<4]
         @ map (\<lambda>k. p ! k - (a ! k - b ! k) * w) [0..<4]
         @ map (\<lambda>k. out ! k - (a ! k + b ! k + ap ! k)) [0..<4]
         @ concat (map (\<lambda>k. [is_step * (prod_pos ! k - (comp_pos ! k - combo_pos ! k)),
                             is_step * (prod_neg ! k - (comp_neg ! k - combo_neg ! k))]) [0..<4])
         @ map (\<lambda>k. chain_on * (a ! k - out_prev ! k)) [0..<4]
         @ concat (map (\<lambda>k. [is_step * (comp_pos ! k - comp_pin ! k),
                             is_step * (comp_neg ! k - comp_neg_pin ! k)]) [0..<4])
         @ map (\<lambda>k. is_output * (out ! k - fin ! k)) [0..<4])"

section \<open>Preprocessed columns\<close>

text \<open>
  Row \<open>r\<close> of the block of a query. The loops of \<open>build_preproc\<close> write each cell of a block once, and the
  blocks do not overlap; \<open>v % (2^31 - 1)\<close> reduces the two words, the limbs are taken as they are.
\<close>

definition preproc_row :: "nat \<Rightarrow> u128 \<Rightarrow> QueryChallenges \<Rightarrow> nat \<Rightarrow> int list" where
  "preproc_row n_folds final_v ch r =
     (let m31 = (\<lambda>v :: u32. uint v mod P31); none = replicate 4 0
      in [if r = 0 then 1 else 0, if r = 0 then 0 else 1, if r = n_folds then 1 else 0]
         @ (if r = n_folds then limb_cells final_v else none)
         @ limb_cells (qc_alphas ch ! r)
         @ [if r = 0 then m31 (qc_px ch) else 0]
         @ (if r = 0 then limb_cells (qc_z_x ch) else none)
         @ [m31 (qc_invs ch ! r)]
         @ (if r = 0 then limb_cells (qc_comp_pos ch) else none)
         @ (if r = 0 then limb_cells (qc_comp_neg ch) else none))"

text \<open>
  The profile of a build. Under \<open>dev\<close> an overflow panics and the debug assertions run; under \<open>release\<close> the
  arithmetic wraps and they do not. \<open>num_folds\<close> is a \<open>usize\<close> that the caller of the verifier chooses, so
  \<open>1 + num_folds\<close> can overflow: it is kept at its 64 bits.
\<close>

datatype build_profile = Dev | Release

definition one_plus :: "build_profile \<Rightarrow> u64 \<Rightarrow> u64 option" where
  "one_plus prof n = (if prof = Dev \<and> 2 ^ 64 \<le> 1 + unat n then None else Some (1 + n))"

text \<open>
  The body of the loop for query \<open>q\<close> does not panic: the debug assertions on the lists hold, the last row
  \<open>base + num_folds\<close> exists (not for the greatest \<open>usize\<close>, as a column has fewer than \<open>2^64\<close> cells; an
  overflow of \<open>base\<close> or of the sum comes after a row of the loop that does not exist), and the lists have an
  entry for every row of the block.
\<close>

definition preproc_block_ok :: "build_profile \<Rightarrow> nat \<Rightarrow> u64 \<Rightarrow> u64 \<Rightarrow> nat \<Rightarrow> QueryChallenges \<Rightarrow> bool" where
  "preproc_block_ok prof n n_folds block q ch \<longleftrightarrow>
     (prof = Dev \<longrightarrow> length (qc_alphas ch) = unat block \<and> length (qc_invs ch) = unat block)
     \<and> q * unat block + unat n_folds < n \<and> unat n_folds < 2 ^ 64 - 1
     \<and> unat block \<le> length (qc_alphas ch) \<and> unat block \<le> length (qc_invs ch)"

definition build_preproc :: "build_profile \<Rightarrow> u128 list \<Rightarrow> QueryChallenges list \<Rightarrow> u64 \<Rightarrow> nat \<Rightarrow> int list list option" where
  "build_preproc prof finals challenges n_folds log_n_rows =
     (if length finals \<noteq> length challenges then None
      else case one_plus prof n_folds of None \<Rightarrow> None
      | Some block \<Rightarrow>
          let n = 2 ^ log_n_rows
          in if list_all (\<lambda>(q, ch). preproc_block_ok prof n n_folds block q ch) (enumerate 0 challenges) then
               Some (columns 25 (pad_rows n 25 (concat (map2 (\<lambda>final_v ch.
                 map (preproc_row (unat n_folds) final_v ch) [0..<unat block]) finals challenges))))
             else None)"

section \<open>The trace\<close>

text \<open>A fold row: the columns that \<open>fill_query_block\<close> does not write keep their cells.\<close>

definition round_row :: "int list \<Rightarrow> u128 \<Rightarrow> FoldRound \<Rightarrow> u128 \<Rightarrow> int list" where
  "round_row row input rd out =
     (let (sibling, alpha, x_inv) = rd; p_r = scale_limbs (sub_limbs (limbs input) (limbs sibling)) (ucast x_inv)
      in take 5 row @ limb_cells alpha @ [uint x_inv] @ limb_cells input @ limb_cells sibling @ take 16 (drop 18 row)
         @ limb_cells (pack p_r) @ limb_cells out)"

text \<open>The debug assertions of \<open>fill_query_block\<close>: every limb and every scalar is below the modulus.\<close>

definition limbs_below :: "u128 \<Rightarrow> bool" where
  "limbs_below q = list_all (\<lambda>l. l < M31_P) (limbs q)"

fun step_canonical :: "StepOp \<Rightarrow> bool" where
  "step_canonical (f_plus, f_minus, px, z, combo_pos, combo_neg, fri_al, y_inv) \<longleftrightarrow>
     list_all limbs_below [f_plus, f_minus, z, combo_pos, combo_neg, fri_al]
     \<and> ucast px < M31_P \<and> ucast y_inv < M31_P"

fun round_canonical :: "FoldRound \<Rightarrow> bool" where
  "round_canonical (sibling, alpha, x_inv) \<longleftrightarrow> list_all limbs_below [sibling, alpha] \<and> ucast x_inv < M31_P"

text \<open>The rows of the block are written in place; a row beyond the trace is an index out of range.\<close>

definition fill_query_block :: "build_profile \<Rightarrow> int list list \<Rightarrow> nat \<Rightarrow> StepOp \<Rightarrow> FoldRound list \<Rightarrow> int list list option" where
  "fill_query_block prof rows base step rounds =
     (if prof = Dev \<and> \<not> (step_canonical step \<and> list_all round_canonical rounds) then None
      else if length rows \<le> base + length rounds then None
      else let outs = recursive_query_ref step rounds;
               rows = rows[base := query_step_row step]
           in Some (foldl (\<lambda>rows (i, rd). let r = base + i + 1
                      in rows[r := round_row (rows ! r) (outs ! i) rd (outs ! (i + 1))]) rows (enumerate 0 rounds)))"

fun fill_blocks :: "build_profile \<Rightarrow> nat \<Rightarrow> int list list \<Rightarrow> (nat \<times> StepOp \<times> FoldRound list) list \<Rightarrow> int list list option" where
  "fill_blocks prof block rows [] = Some rows"
| "fill_blocks prof block rows ((q, step, rounds) # queries) =
     (case fill_query_block prof rows (q * block) step rounds of None \<Rightarrow> None
      | Some rows \<Rightarrow> fill_blocks prof block rows queries)"

definition build_trace_multi_raw :: "build_profile \<Rightarrow> (StepOp \<times> FoldRound list) list \<Rightarrow> nat \<Rightarrow> int list list option" where
  "build_trace_multi_raw prof queries log_n_rows =
     (if queries = [] then None
      else let n = 2 ^ log_n_rows; n_folds = length (snd (queries ! 0)); block = 1 + n_folds
           in if prof = Dev \<and> n < length queries * block then None
              else map_option (columns 42) (fill_blocks prof block (replicate n (replicate 42 0)) (enumerate 0 queries)))"

definition build_trace_multi :: "build_profile \<Rightarrow> (StepOp \<times> FoldRound list) list \<Rightarrow> nat \<Rightarrow> (int list list \<times> int list list) option" where
  "build_trace_multi prof queries log_n_rows =
     (case build_trace_multi_raw prof queries log_n_rows of None \<Rightarrow> None
      | Some cols \<Rightarrow>
          let n_folds = length (snd (queries ! 0)); chs = map (\<lambda>(s, r). query_challenges s r) queries
          in map_option (\<lambda>pre. (cols, pre)) (build_preproc prof (recursive_queries_final queries) chs (of_nat n_folds) log_n_rows))"

text \<open>One query alone.\<close>

definition rv_build_trace :: "build_profile \<Rightarrow> StepOp \<Rightarrow> FoldRound list \<Rightarrow> nat \<Rightarrow> (int list list \<times> int list list) option" where
  "rv_build_trace prof step rounds log_n_rows =
     (if prof = Dev \<and> 2 ^ log_n_rows < 1 + length rounds then None
      else case fill_query_block prof (replicate (2 ^ log_n_rows) (replicate 42 0)) 0 step rounds of None \<Rightarrow> None
      | Some rows \<Rightarrow>
          map_option (\<lambda>pre. (columns 42 rows, pre))
            (build_preproc prof [recursive_query_final step rounds] [query_challenges step rounds] (of_nat (length rounds)) log_n_rows))"

section \<open>A row of the circuit\<close>

lemma gated:
  "(\<forall>c\<in>set (map (\<lambda>k. flag g * f k) [0..<4]). c mod P31 = 0) \<longleftrightarrow> (g \<longrightarrow> (\<forall>c\<in>set (map f [0..<4]). c mod P31 = 0))"
  by (cases g) (simp_all add: flag_def)

lemma interleaved:
  "(\<forall>c\<in>set (concat (map (\<lambda>k. [f k, g k]) ks)). P c) \<longleftrightarrow> (\<forall>c\<in>set (map f ks). P c) \<and> (\<forall>c\<in>set (map g ks). P c)"
  by auto

text \<open>Two groups of four cells are equal modulo the field exactly when they hold the same element.\<close>

lemma elem_diff_iff:
  assumes "cells_ok row" "a + 4 \<le> length row" "cells_ok pre" "b + 4 \<le> length pre"
  shows "(\<forall>c\<in>set (map (\<lambda>k. cells row a 4 ! k - cells pre b 4 ! k) [0..<4]). c mod P31 = 0) \<longleftrightarrow> elem row a = elem pre b"
  unfolding vec4_diff using elem_facts [OF assms(3,4)] elem_eq_iff [OF assms(1,2), of "elem pre b"] by simp

lemma cell_diff_iff:
  assumes "cells_ok row" "i < length row" "cells_ok pre" "j < length pre"
  shows "(row ! i - pre ! j) mod P31 = 0 \<longleftrightarrow> row ! i = pre ! j"
proof -
  have b: "0 \<le> row ! i" "row ! i < P31" "0 \<le> pre ! j" "pre ! j < P31"
    using cells_ok_nth [OF assms(1,2)] cells_ok_nth [OF assms(3,4)] by simp_all
  have "row ! i = pre ! j" if "(row ! i - pre ! j) mod P31 = 0" by (rule small_eq [OF that]) (use b in linarith)+
  then show ?thesis by auto
qed

lemma rv_row_iff:
  assumes r: "cells_ok row" "length row = 42" and v: "cells_ok prev" "length prev = 42" and q: "cells_ok pre" "length pre = 25"
    and f: "pre ! 0 = flag st" "pre ! 1 = flag on" "pre ! 2 = flag ou"
  shows "(\<forall>c\<in>set (rv_evaluate pre row prev). c mod P31 = 0) \<longleftrightarrow>
    elem row 5 = elem pre 7 \<and> row ! 9 = pre ! 16 \<and> (st \<longrightarrow> row ! 0 = pre ! 11) \<and> (st \<longrightarrow> elem row 1 = elem pre 12)
    \<and> elem row 34 = scaled_diff (elem row 10) (elem row 14) (word_of_int (row ! 9))
    \<and> elem row 38 = fold_two (elem row 10) (elem row 14) (elem row 5) (word_of_int (row ! 9))
    \<and> ((st \<longrightarrow> elem row 26 = comp_value_ref (elem row 10) (word_of_int (row ! 0)) (elem row 1) (elem row 18))
        \<and> (st \<longrightarrow> elem row 30 = comp_neg_ref (elem row 14) (word_of_int (row ! 0)) (elem row 1) (elem row 22)))
    \<and> (on \<longrightarrow> elem row 10 = elem prev 38)
    \<and> ((st \<longrightarrow> elem row 26 = elem pre 17) \<and> (st \<longrightarrow> elem row 30 = elem pre 21))
    \<and> (ou \<longrightarrow> elem row 38 = elem pre 3)"
proof -
  have one: "flag g * x mod P31 = 0 \<longleftrightarrow> (g \<longrightarrow> x mod P31 = 0)" for g x by (cases g) (simp_all add: flag_def)
  have single: "(\<forall>c\<in>set [x]. c mod P31 = 0) \<longleftrightarrow> x mod P31 = 0" for x :: int by simp
  have l: "4 + a \<le> length row" if "a \<le> 38" for a using r(2) that by simp
  note e = elem_diff_iff [OF r(1) _ q(1)] elem_diff_iff [OF r(1) _ v(1)] cell_diff_iff [OF r(1) _ q(1)]
    row_scale_iff [OF r(1)] row_oods_iff [OF r(1)]
  show ?thesis
    unfolding rv_evaluate_def Let_def set_append ball_Un interleaved f one gated diff_self single
    by (intro conj_cong imp_cong refl; (rule e row_fold_iff [OF r(1)]; (simp only: r(2) v(2) q(2); simp)?)?)
qed
section \<open>Rows of the columns of the verifier\<close>

text \<open>Canonical challenges of a query with \<open>k\<close> folds.\<close>

definition canon_challenges :: "nat \<Rightarrow> QueryChallenges \<Rightarrow> bool" where
  "canon_challenges k ch \<longleftrightarrow> length (qc_alphas ch) = 1 + k \<and> length (qc_invs ch) = 1 + k
     \<and> canon32 (qc_px ch) \<and> canon_q (qc_z_x ch) \<and> list_all canon_q (qc_alphas ch) \<and> list_all canon32 (qc_invs ch)
     \<and> canon_q (qc_comp_pos ch) \<and> canon_q (qc_comp_neg ch)"

lemma preproc_row_facts:
  assumes "canon_challenges k ch" "canon_q v" "r \<le> k"
  shows "length (preproc_row k v ch r) = 25" "cells_ok (preproc_row k v ch r)"
    "preproc_row k v ch r ! 0 = flag (r = 0)" "preproc_row k v ch r ! 1 = flag (r \<noteq> 0)" "preproc_row k v ch r ! 2 = flag (r = k)"
    "elem (preproc_row k v ch r) 7 = qc_alphas ch ! r" "preproc_row k v ch r ! 16 = uint (qc_invs ch ! r)"
    "r = 0 \<Longrightarrow> preproc_row k v ch r ! 11 = uint (qc_px ch)" "r = 0 \<Longrightarrow> elem (preproc_row k v ch r) 12 = qc_z_x ch"
    "r = 0 \<Longrightarrow> elem (preproc_row k v ch r) 17 = qc_comp_pos ch" "r = 0 \<Longrightarrow> elem (preproc_row k v ch r) 21 = qc_comp_neg ch"
    "r = k \<Longrightarrow> elem (preproc_row k v ch r) 3 = v"
proof -
  have c: "canon_q (qc_alphas ch ! r)" "canon32 (qc_invs ch ! r)" "canon32 (qc_px ch)" "canon_q (qc_z_x ch)"
    "canon_q (qc_comp_pos ch)" "canon_q (qc_comp_neg ch)"
    using assms by (simp_all add: canon_challenges_def list_all_length)
  have m: "uint (qc_invs ch ! r) mod P31 = uint (qc_invs ch ! r)" "uint (qc_px ch) mod P31 = uint (qc_px ch)"
    using scalar_cell [OF c(2)] scalar_cell [OF c(3)] by simp_all
  define gate where "gate g x = (if g then limb_cells x else replicate 4 0)" for g x
  have lg: "length (gate g x) = 4" for g x by (simp add: gate_def)
  have og: "cells_ok (gate g x)" if "canon_q x" for g x using that zero_rows(5) [of 4] by (simp add: gate_def limb_cells_ok)
  have row: "preproc_row k v ch r = [flag (r = 0), flag (r \<noteq> 0), flag (r = k)] @ gate (r = k) v @ limb_cells (qc_alphas ch ! r)
      @ [if r = 0 then uint (qc_px ch) else 0] @ gate (r = 0) (qc_z_x ch) @ [uint (qc_invs ch ! r)]
      @ gate (r = 0) (qc_comp_pos ch) @ gate (r = 0) (qc_comp_neg ch)"
    unfolding preproc_row_def Let_def m gate_def flag_def by simp
  show "length (preproc_row k v ch r) = 25" by (simp add: row lg)
  show "cells_ok (preproc_row k v ch r)"
    using scalar_cell [OF c(2)] scalar_cell [OF c(3)] og [OF c(4)] og [OF c(5)] og [OF c(6)] og [OF assms(2)] limb_cells_ok(1) [OF c(1)] P31_pos
    unfolding row row_sat_simps by (simp add: flag_def)
  show "preproc_row k v ch r ! 0 = flag (r = 0)" "preproc_row k v ch r ! 1 = flag (r \<noteq> 0)" "preproc_row k v ch r ! 2 = flag (r = k)"
    "preproc_row k v ch r ! 16 = uint (qc_invs ch ! r)"
    unfolding row by (simp_all add: nth_append lg)
  show "r = 0 \<Longrightarrow> preproc_row k v ch r ! 11 = uint (qc_px ch)" unfolding row by (simp add: nth_append lg)
  show "elem (preproc_row k v ch r) 7 = qc_alphas ch ! r" by (rule elem_cells [OF _ c(1)]) (simp add: row lg cells_take)
  show "elem (preproc_row k v ch r) 12 = qc_z_x ch" if "r = 0"
    by (rule elem_cells [OF _ c(4)]) (unfold row, use that in \<open>simp add: lg cells_take; simp add: gate_def\<close>)
  show "elem (preproc_row k v ch r) 17 = qc_comp_pos ch" if "r = 0"
    by (rule elem_cells [OF _ c(5)]) (unfold row, use that in \<open>simp add: lg cells_take; simp add: gate_def\<close>)
  show "elem (preproc_row k v ch r) 21 = qc_comp_neg ch" if "r = 0"
    by (rule elem_cells [OF _ c(6)]) (unfold row, use that in \<open>simp add: lg cells_take; simp add: gate_def\<close>)
  show "elem (preproc_row k v ch r) 3 = v" if "r = k"
    by (rule elem_cells [OF _ assms(2)]) (unfold row, use that in \<open>simp add: lg cells_take; simp add: gate_def\<close>)
qed

text \<open>On canonical values that fit, row \<open>r\<close> of block \<open>q\<close> is \<open>preproc_row\<close> and the rows after the blocks are zero.\<close>

lemma block_index: "q < n \<Longrightarrow> r \<le> k \<Longrightarrow> q * (1 + k) + r < n * (1 + (k :: nat))"
proof -
  assume "q < n" "r \<le> k"
  then have "q * (1 + k) + r < Suc q * (1 + k)" by simp
  also have "\<dots> \<le> n * (1 + k)" using \<open>q < n\<close> by (intro mult_right_mono) simp_all
  finally show ?thesis .
qed

lemma unat_one_plus:
  assumes "Suc k < 2 ^ 64"
  shows "unat (of_nat k :: u64) = k" "unat (1 + of_nat k :: u64) = 1 + k" "one_plus prof (of_nat k) = Some (1 + of_nat k)"
proof -
  show u: "unat (of_nat k :: u64) = k" using assms by (simp add: unsigned_of_nat take_bit_nat_eq_self)
  have "unat (of_nat (Suc k) :: u64) = Suc k" using assms by (simp only: unsigned_of_nat) (simp add: take_bit_nat_eq_self)
  then show "unat (1 + of_nat k :: u64) = 1 + k" by simp
  show "one_plus prof (of_nat k) = Some (1 + of_nat k)" using assms by (simp add: one_plus_def u)
qed

definition rv_statement_ok :: "nat \<Rightarrow> nat \<Rightarrow> u128 list \<Rightarrow> QueryChallenges list \<Rightarrow> bool" where
  "rv_statement_ok k log_n finals chs \<longleftrightarrow> length finals = length chs \<and> length finals * (1 + k) \<le> 2 ^ log_n
     \<and> list_all canon_q finals \<and> list_all (canon_challenges k) chs"

lemma build_preproc_rows:
  assumes "rv_statement_ok k log_n finals chs" and k: "Suc k < 2 ^ 64"
  obtains pre where "build_preproc prof finals chs (of_nat k) log_n = Some pre" "length pre = 25"
    "\<And>q r. q < length finals \<Longrightarrow> r \<le> k \<Longrightarrow> trace_row pre (q * (1 + k) + r) = preproc_row k (finals ! q) (chs ! q) r"
    "\<And>i. i < 2 ^ log_n \<Longrightarrow> length finals * (1 + k) \<le> i \<Longrightarrow> trace_row pre i = replicate 25 0"
proof -
  note a = assms(1) [unfolded rv_statement_ok_def]
  let ?b = "1 + k"
  let ?blocks = "map2 (\<lambda>final_v ch. map (preproc_row k final_v ch) [0..<?b]) finals chs"
  let ?rows = "pad_rows (2 ^ log_n) 25 (concat ?blocks)"
  have l: "\<forall>xs\<in>set ?blocks. length xs = ?b" by auto
  have lb: "length ?blocks = length finals" using a by simp
  have len: "length (concat ?blocks) = length finals * ?b" using concat_blocks(1) [OF l] a by simp
  note u = unat_one_plus [OF k]
  have ch: "preproc_block_ok prof (2 ^ log_n) (of_nat k) (1 + of_nat k) q (chs ! q)" if "q < length chs" for q
  proof -
    have "canon_challenges k (chs ! q)" using a that by (simp add: list_all_length)
    moreover have "q * (1 + k) + k < 2 ^ log_n" using block_index [of q "length finals" k k] a that by linarith
    ultimately show ?thesis using k unfolding preproc_block_ok_def u by (simp add: canon_challenges_def)
  qed
  then have ch: "list_all (\<lambda>(q, ch). preproc_block_ok prof (2 ^ log_n) (of_nat k) (1 + of_nat k) q ch) (enumerate 0 chs)"
    by (simp add: list_all_length nth_enumerate_eq)
  have le: "length (concat ?blocks) \<le> 2 ^ log_n" unfolding len using a by linarith
  have lr: "length ?rows = 2 ^ log_n" unfolding pad_rows_def length_append length_replicate len using a by linarith
  have b: "build_preproc prof finals chs (of_nat k) log_n = Some (columns 25 ?rows)"
    using a ch unfolding build_preproc_def u Let_def option.case by (simp only: refl if_True if_False not_not not_True_eq_False)
  have row: "?rows ! (q * ?b + r) = preproc_row k (finals ! q) (chs ! q) r" if "q < length finals" "r \<le> k" for q r
  proof -
    have i: "q * ?b + r < length (concat ?blocks)" using block_index [OF that] len by simp
    then have "?rows ! (q * ?b + r) = concat ?blocks ! (q * ?b + r)" unfolding pad_rows_def by (simp only: nth_append if_True)
    also have "\<dots> = ?blocks ! q ! r" using that lb by (intro concat_blocks(2) [OF l]) simp_all
    finally show ?thesis using that a by (simp del: upt_Suc)
  qed
  have fr: "canon_challenges k (chs ! q)" "canon_q (finals ! q)" if "q < length finals" for q using a that by (simp_all add: list_all_length)
  show ?thesis
  proof (rule that [OF b])
    show "trace_row (columns 25 ?rows) (q * (1 + k) + r) = preproc_row k (finals ! q) (chs ! q) r" if "q < length finals" "r \<le> k" for q r
    proof -
      have "q * ?b + r < length ?rows" using block_index [OF that] a lr by linarith
      then show ?thesis using row [OF that] preproc_row_facts(1) [OF fr [OF that(1)] that(2)] by (subst trace_row_columns) simp_all
    qed
    show "trace_row (columns 25 ?rows) i = replicate 25 0" if "i < 2 ^ log_n" "length finals * (1 + k) \<le> i" for i
    proof -
      have "?rows ! i = replicate 25 0" using that len by (simp add: pad_rows_def nth_append)
      then show ?thesis using that lr by (subst trace_row_columns) simp_all
    qed
  qed (simp add: columns_def)
qed
section \<open>What an accepted trace says\<close>

text \<open>The step and the rounds a trace holds in the block of query \<open>q\<close>.\<close>

definition trace_step :: "int list list \<Rightarrow> nat \<Rightarrow> StepOp" where
  "trace_step cols i = (let row = trace_row cols i in
     (elem row 10, elem row 14, word_of_int (row ! 0), elem row 1, elem row 18, elem row 22, elem row 5, word_of_int (row ! 9)))"

definition trace_fold :: "int list list \<Rightarrow> nat \<Rightarrow> FoldRound" where
  "trace_fold cols i = (let row = trace_row cols i in (elem row 14, elem row 5, word_of_int (row ! 9)))"

definition trace_query :: "nat \<Rightarrow> int list list \<Rightarrow> nat \<Rightarrow> StepOp \<times> FoldRound list" where
  "trace_query k cols q = (trace_step cols (q * (1 + k)), map (\<lambda>r. trace_fold cols (q * (1 + k) + Suc r)) [0..<k])"

lemma fold_outs_map:
  assumes "\<forall>r<k. case f r of (sibling, alpha, w) \<Rightarrow> fold_two (out r) sibling alpha w = out (Suc r)"
  shows "fold_outs (out 0) (map f [0..<k]) = map out [0..<Suc k]"
  using assms
proof (induction k arbitrary: f out)
  case (Suc k)
  have u: "[0..<Suc n] = 0 # map Suc [0..<n]" for n by (simp add: map_Suc_upt upt_conv_Cons del: upt_Suc)
  obtain s a w where f0: "f 0 = (s, a, w)" by (cases "f 0")
  have o1: "fold_two (out 0) s a w = out (Suc 0)" using Suc.prems f0 by auto
  have "\<forall>r<k. case (f \<circ> Suc) r of (sibling, alpha, w) \<Rightarrow> fold_two ((out \<circ> Suc) r) sibling alpha w = (out \<circ> Suc) (Suc r)"
    using Suc.prems by simp
  then have "fold_outs ((out \<circ> Suc) 0) (map (f \<circ> Suc) [0..<k]) = map (out \<circ> Suc) [0..<Suc k]" by (rule Suc.IH)
  then show ?case unfolding u [of k] u [of "Suc k"] by (simp add: f0 o1 del: upt_Suc)
qed simp

lemma last_map_upt: "last (map f [0..<Suc k]) = f k"
  by simp

lemma rv_trace_sound:
  assumes ok: "rv_statement_ok k log_n finals chs" and b: "build_preproc prof finals chs (of_nat k) log_n = Some pre" and k: "Suc k < 2 ^ 64"
    and len: "length cols = 42" and sat: "cyclic_sat rv_evaluate pre cols (2 ^ log_n)" and q: "q < length finals"
    and tq: "trace_query k cols q = (step, rounds)"
  shows "query_challenges step rounds = chs ! q" "recursive_query_final step rounds = finals ! q"
proof -
  let ?n = "2 ^ log_n :: nat" and ?b = "q * (1 + k)"
  obtain pre' where pre': "build_preproc prof finals chs (of_nat k) log_n = Some pre'" and lp: "length pre' = 25"
    and rows: "\<And>q r. q < length finals \<Longrightarrow> r \<le> k \<Longrightarrow> trace_row pre' (q * (1 + k) + r) = preproc_row k (finals ! q) (chs ! q) r"
    using build_preproc_rows [OF ok k] by metis
  then have pre: "trace_row pre (?b + r) = preproc_row k (finals ! q) (chs ! q) r" if "r \<le> k" for r
    using b q that by simp
  have ch: "canon_challenges k (chs ! q)" "canon_q (finals ! q)" using ok q by (simp_all add: rv_statement_ok_def list_all_length)
  have size: "length finals * (1 + k) \<le> ?n" using ok unfolding rv_statement_ok_def by blast
  have cells: "cells_ok (trace_row cols i)" "length (trace_row cols i) = 42" if "i < ?n" for i
    using sat len that by (simp_all add: cyclic_sat_def) (simp add: trace_row_def)
  define row where "row r = trace_row cols (?b + r)" for r
  have i: "?b + r < ?n" if "r \<le> k" for r using block_index [OF q that] size by linarith
  have fact: "elem (row r) 5 = qc_alphas (chs ! q) ! r" "row r ! 9 = uint (qc_invs (chs ! q) ! r)"
    "elem (row r) 38 = fold_two (elem (row r) 10) (elem (row r) 14) (elem (row r) 5) (word_of_int (row r ! 9))"
    "r = k \<Longrightarrow> elem (row r) 38 = finals ! q" "r \<noteq> 0 \<Longrightarrow> elem (row r) 10 = elem (row (r - 1)) 38"
    "r = 0 \<Longrightarrow> row r ! 0 = uint (qc_px (chs ! q)) \<and> elem (row r) 1 = qc_z_x (chs ! q)
      \<and> comp_value_ref (elem (row r) 10) (word_of_int (row r ! 0)) (elem (row r) 1) (elem (row r) 18) = qc_comp_pos (chs ! q)
      \<and> comp_neg_ref (elem (row r) 14) (word_of_int (row r ! 0)) (elem (row r) 1) (elem (row r) 22) = qc_comp_neg (chs ! q)"
    if r: "r \<le> k" for r
  proof -
    define p where "p = (?b + r + ?n - 1) mod ?n"
    have p: "p < ?n" by (simp add: p_def)
    have pr: "trace_row cols p = row (r - 1)" if "r \<noteq> 0"
    proof -
      have "p = ?b + r - 1" unfolding p_def cyclic_prev [OF i [OF r]] using that by simp
      then have "p = ?b + (r - 1)" using that by simp
      then show ?thesis by (simp only: row_def)
    qed
    note f = preproc_row_facts [OF ch r, folded pre [OF r]]
    have s: "\<forall>c\<in>set (rv_evaluate (trace_row pre (?b + r)) (row r) (trace_row cols p)). c mod P31 = 0"
      using sat i [OF r] unfolding cyclic_sat_def row_def p_def by blast
    have c: "cells_ok (row r)" "length (row r) = 42" using cells [OF i [OF r]] by (simp_all add: row_def)
    note w = iffD1 [OF rv_row_iff [OF c cells [OF p] f(2,1,3,4,5)] s]
    show "elem (row r) 5 = qc_alphas (chs ! q) ! r" using w f(6) by simp
    show "row r ! 9 = uint (qc_invs (chs ! q) ! r)" using w f(7) by simp
    show "elem (row r) 38 = fold_two (elem (row r) 10) (elem (row r) 14) (elem (row r) 5) (word_of_int (row r ! 9))"
      using w by blast
    show "elem (row r) 38 = finals ! q" if "r = k" using w f(12) that by metis
    show "elem (row r) 10 = elem (row (r - 1)) 38" if "r \<noteq> 0" using w pr that by metis
    show "row r ! 0 = uint (qc_px (chs ! q)) \<and> elem (row r) 1 = qc_z_x (chs ! q)
      \<and> comp_value_ref (elem (row r) 10) (word_of_int (row r ! 0)) (elem (row r) 1) (elem (row r) 18) = qc_comp_pos (chs ! q)
      \<and> comp_neg_ref (elem (row r) 14) (word_of_int (row r ! 0)) (elem (row r) 1) (elem (row r) 22) = qc_comp_neg (chs ! q)" if "r = 0"
      using w f(8-11) that by metis
  qed
  have st: "step = (elem (row 0) 10, elem (row 0) 14, word_of_int (row 0 ! 0), elem (row 0) 1, elem (row 0) 18, elem (row 0) 22,
      elem (row 0) 5, word_of_int (row 0 ! 9))"
    and rd: "rounds = map (\<lambda>r. (elem (row (Suc r)) 14, elem (row (Suc r)) 5, word_of_int (row (Suc r) ! 9))) [0..<k]"
    using tq by (simp_all add: trace_query_def trace_step_def trace_fold_def row_def Let_def)
  have "fold_outs (elem (row 0) 38) rounds = map (\<lambda>r. elem (row r) 38) [0..<Suc k]"
    unfolding rd by (rule fold_outs_map) (use fact(3,5) in auto)
  then have outs: "recursive_query_ref step rounds = map (\<lambda>r. elem (row r) 38) [0..<Suc k]"
    using fact(3) [of 0] by (simp add: st del: upt_Suc)
  show "recursive_query_final step rounds = finals ! q"
    unfolding recursive_query_final_def outs last_map_upt using fact(4) [of k] by simp
  have lens: "length (qc_alphas (chs ! q)) = Suc k" "length (qc_invs (chs ! q)) = Suc k" using ch by (simp_all add: canon_challenges_def)
  have al: "elem (row 0) 5 # map (\<lambda>(_, alpha, _). alpha) rounds = qc_alphas (chs ! q)"
    by (rule nth_equalityI) (use lens fact(1) in \<open>auto simp: rd nth_Cons split: nat.splits\<close>)
  have w: "word_of_int (row 0 ! 9) # map (\<lambda>(_, _, x_inv). x_inv) rounds = qc_invs (chs ! q)"
    by (rule nth_equalityI) (use lens fact(2) in \<open>auto simp: rd nth_Cons split: nat.splits\<close>)
  have x: "row 0 ! 0 = uint (qc_px (chs ! q))" "elem (row 0) 1 = qc_z_x (chs ! q)" using fact(6) [of 0] by simp_all
  have e: "word_of_int (row 0 ! 0) = qc_px (chs ! q)" by (simp add: x(1))
  have z: "comp_value_ref (elem (row 0) 10) (qc_px (chs ! q)) (qc_z_x (chs ! q)) (elem (row 0) 18) = qc_comp_pos (chs ! q)"
    "comp_neg_ref (elem (row 0) 14) (qc_px (chs ! q)) (qc_z_x (chs ! q)) (elem (row 0) 22) = qc_comp_neg (chs ! q)"
    using fact(6) [of 0] unfolding e x(2) by simp_all
  show "query_challenges step rounds = chs ! q"
    using z x e al w unfolding st query_challenges.simps Let_def
    by (simp add: comp_value_ref_def comp_neg_ref_def Let_def)
qed
section \<open>Honest traces\<close>

text \<open>The rows of a block, and the fill as an insertion of blocks.\<close>

abbreviation zeros :: "int list" where "zeros \<equiv> replicate 42 0"

definition block_rows :: "StepOp \<Rightarrow> FoldRound list \<Rightarrow> int list list" where
  "block_rows step rounds = (let outs = recursive_query_ref step rounds in
     query_step_row step # map (\<lambda>(i, rd). round_row zeros (outs ! i) rd (outs ! (i + 1))) (enumerate 0 rounds))"

lemma length_block_rows [simp]: "length (block_rows step rounds) = 1 + length rounds"
  by (simp add: block_rows_def Let_def)

lemma fill_rounds:
  assumes "length xs = base + m + 1"
  shows "foldl (\<lambda>rows (i, rd). let r = base + i + 1 in rows[r := f (rows ! r) i rd]) (xs @ replicate (length rounds) z @ ys) (enumerate m rounds)
    = xs @ map (\<lambda>(i, rd). f z i rd) (enumerate m rounds) @ ys"
  using assms
proof (induction rounds arbitrary: xs m)
  case (Cons rd rounds)
  have x: "(xs @ z # zs)[base + m + 1 := v] = (xs @ [v]) @ zs" "(xs @ z # zs) ! (base + m + 1) = z" for v zs
    using Cons.prems by (simp_all add: list_update_append nth_append)
  have "length (xs @ [f z m rd]) = base + Suc m + 1" using Cons.prems by simp
  note ih = Cons.IH [OF this]
  show ?case
    unfolding length_Cons replicate_Suc enumerate_simps foldl_Cons prod.case Let_def append_Cons x
    using ih by (simp add: Let_def)
qed simp

lemma limbs_below_canon: "canon_q q \<Longrightarrow> limbs_below q"
  using canon_limbs_limbs [of q] by (auto simp: limbs_below_def canon_limbs_def canon_def)

lemma scalar_below: "canon32 w \<Longrightarrow> ucast w < M31_P"
  using canon_ucast_up [of w] by (simp add: canon_def)

lemma step_canonical_canon: "canon_step step \<Longrightarrow> step_canonical step"
  by (cases step) (auto simp: limbs_below_canon scalar_below)

text \<open>A query of canonical values with \<open>k\<close> folds.\<close>

fun canon_fold :: "FoldRound \<Rightarrow> bool" where
  "canon_fold (sibling, alpha, w) \<longleftrightarrow> canon_q sibling \<and> canon_q alpha \<and> canon32 w"

definition canon_query :: "nat \<Rightarrow> StepOp \<times> FoldRound list \<Rightarrow> bool" where
  "canon_query k = (\<lambda>(step, rounds). canon_step step \<and> length rounds = k \<and> list_all canon_fold rounds)"

lemma rounds_canonical_canon: "list_all canon_fold rounds \<Longrightarrow> list_all round_canonical rounds"
  by (auto simp: list_all_iff limbs_below_canon scalar_below)

lemma fill_query_block_rows:
  assumes "canon_step step" "list_all canon_fold rounds"
  shows "fill_query_block prof (xs @ replicate (1 + length rounds) zeros @ ys) (length xs) step rounds = Some (xs @ block_rows step rounds @ ys)"
proof -
  let ?outs = "recursive_query_ref step rounds"
  have l: "\<not> length (xs @ replicate (1 + length rounds) zeros @ ys) \<le> length xs + length rounds" by simp
  have u: "(xs @ replicate (1 + length rounds) zeros @ ys)[length xs := query_step_row step]
      = (xs @ [query_step_row step]) @ replicate (length rounds) zeros @ ys" by (simp add: list_update_append)
  have "length (xs @ [query_step_row step]) = length xs + 0 + 1" by simp
  from fill_rounds [OF this, where f = "\<lambda>row i rd. round_row row (?outs ! i) rd (?outs ! (i + 1))" and z = zeros and rounds = rounds and ys = ys]
  have *: "foldl (\<lambda>rows (i, rd). let r = length xs + i + 1 in rows[r := round_row (rows ! r) (?outs ! i) rd (?outs ! (i + 1))])
      ((xs @ [query_step_row step]) @ replicate (length rounds) zeros @ ys) (enumerate 0 rounds)
    = (xs @ [query_step_row step]) @ map (\<lambda>(i, rd). round_row zeros (?outs ! i) rd (?outs ! (i + 1))) (enumerate 0 rounds) @ ys" .
  have c: "\<not> (prof = Dev \<and> \<not> (step_canonical step \<and> list_all round_canonical rounds))"
    using step_canonical_canon [OF assms(1)] rounds_canonical_canon [OF assms(2)] by simp
  show ?thesis unfolding fill_query_block_def if_not_P [OF c] if_not_P [OF l] Let_def u block_rows_def using * by simp
qed

lemma fill_blocks_rows:
  assumes "list_all (canon_query k) queries" "length xs = m * (1 + k)"
  shows "fill_blocks prof (1 + k) (xs @ replicate (length queries * (1 + k)) zeros @ ys) (enumerate m queries)
    = Some (xs @ concat (map (\<lambda>(step, rounds). block_rows step rounds) queries) @ ys)"
  using assms
proof (induction queries arbitrary: xs m)
  case (Cons sr queries)
  obtain step rounds where sr: "sr = (step, rounds)" by (cases sr)
  have k: "length rounds = k" and c: "canon_step step" "list_all canon_fold rounds" using Cons.prems(1) by (simp_all add: sr canon_query_def)
  have r: "xs @ replicate (length (sr # queries) * (1 + k)) zeros @ ys
      = xs @ replicate (1 + length rounds) zeros @ replicate (length queries * (1 + k)) zeros @ ys"
    by (simp add: k replicate_add [symmetric] add.commute)
  have f: "fill_query_block prof (xs @ replicate (length (sr # queries) * (1 + k)) zeros @ ys) (m * (1 + k)) step rounds
      = Some (xs @ block_rows step rounds @ replicate (length queries * (1 + k)) zeros @ ys)"
    unfolding r Cons.prems(2) [symmetric] by (rule fill_query_block_rows [OF c])
  have "list_all (canon_query k) queries" "length (xs @ block_rows step rounds) = Suc m * (1 + k)"
    using Cons.prems k by simp_all
  from Cons.IH [OF this] show ?case unfolding enumerate_simps sr fill_blocks.simps f [unfolded sr] by simp
qed simp

lemma length_fold_outs [simp]: "length (fold_outs x rounds) = Suc (length rounds)"
  by (induction x rounds rule: fold_outs.induct) simp_all

lemma fold_outs_nth:
  "i < length rounds \<Longrightarrow> fold_outs x rounds ! Suc i
     = (case rounds ! i of (sibling, alpha, w) \<Rightarrow> fold_two (fold_outs x rounds ! i) sibling alpha w)"
proof (induction x rounds arbitrary: i rule: fold_outs.induct)
  case (2 x s a w rounds)
  then show ?case by (cases i) (auto simp: nth_Cons' split: prod.splits, (cases rounds; force)+)
qed simp

lemma fold_outs_canon: "canon_q x \<Longrightarrow> list_all canon_fold rounds \<Longrightarrow> list_all canon_q (fold_outs x rounds)"
  by (induction x rounds rule: fold_outs.induct) (simp_all add: fold_two_val)

lemma fold_outs_0 [simp]: "fold_outs x rounds ! 0 = x"
  by (cases rounds) auto
lemma round_row_facts:
  assumes "canon_q x" "canon_fold (s, a, w)"
  defines "row \<equiv> round_row zeros x (s, a, w) (fold_two x s a w)"
  shows "length row = 42" "cells_ok row" "elem row 5 = a" "row ! 9 = uint w" "elem row 10 = x" "elem row 14 = s"
    "elem row 34 = scaled_diff x s w" "elem row 38 = fold_two x s a w"
proof -
  have c: "canon_q s" "canon_q a" "canon32 w" using assms(2) by simp_all
  note d = scaled_diff_val(2) [OF assms(1) c(1,3)] fold_two_val(2) [OF assms(1) c] scalar_cell [OF c(3)]
  have row: "row = replicate 5 0 @ limb_cells a @ [uint w] @ limb_cells x @ limb_cells s @ replicate 16 0
      @ limb_cells (scaled_diff x s w) @ limb_cells (fold_two x s a w)"
    unfolding row_def round_row_def by (simp add: scaled_diff_def)
  show "length row = 42" by (simp add: row)
  show "cells_ok row" unfolding row row_sat_simps using d c assms(1) zero_rows(5) by (simp add: limb_cells_ok)
  show "row ! 9 = uint w" by (simp add: row nth_append)
  show "elem row 5 = a" by (rule elem_cells [OF _ c(2)]) (simp add: row cells_take)
  show "elem row 10 = x" by (rule elem_cells [OF _ assms(1)]) (simp add: row cells_take)
  show "elem row 14 = s" by (rule elem_cells [OF _ c(1)]) (simp add: row cells_take)
  show "elem row 34 = scaled_diff x s w" by (rule elem_cells [OF _ d(1)]) (simp add: row cells_take)
  show "elem row 38 = fold_two x s a w" by (rule elem_cells [OF _ d(2)]) (simp add: row cells_take)
qed

lemma query_step_row_facts:
  assumes "canon_step (fp, fmi, px, z, cp, cn, al, w)"
  defines "row \<equiv> query_step_row (fp, fmi, px, z, cp, cn, al, w)"
  shows "row ! 0 = uint px" "elem row 1 = z" "elem row 5 = al" "row ! 9 = uint w" "elem row 10 = fp" "elem row 14 = fmi" "elem row 18 = cp"
    "elem row 22 = cn" "elem row 26 = comp_value_ref fp px z cp" "elem row 30 = comp_neg_ref fmi px z cn"
    "elem row 34 = scaled_diff fp fmi w" "elem row 38 = fold_two fp fmi al w"
proof -
  have a: "canon_q fp" "canon_q fmi" "canon32 px" "canon_q z" "canon_q cp" "canon_q cn" "canon_q al" "canon32 w" using assms(1) by simp_all
  note c = comp_value_val(2) [OF a(1,3,4,5)] comp_value_val(4) [OF a(2,3,4,6)] scaled_diff_val(2) [OF a(1,2,8)] fold_two_val(2) [OF a(1,2,7,8)]
  have r: "row = [uint px] @ limb_cells z @ limb_cells al @ [uint w] @ limb_cells fp @ limb_cells fmi @ limb_cells cp @ limb_cells cn
      @ limb_cells (comp_value_ref fp px z cp) @ limb_cells (comp_neg_ref fmi px z cn) @ limb_cells (scaled_diff fp fmi w) @ limb_cells (fold_two fp fmi al w)"
    by (simp add: row_def query_step_row_def references)
  show "row ! 0 = uint px" "row ! 9 = uint w" by (simp_all add: r nth_append)
  show "elem row 1 = z" "elem row 5 = al" "elem row 10 = fp" "elem row 14 = fmi" "elem row 18 = cp" "elem row 22 = cn"
    "elem row 26 = comp_value_ref fp px z cp" "elem row 30 = comp_neg_ref fmi px z cn"
    "elem row 34 = scaled_diff fp fmi w" "elem row 38 = fold_two fp fmi al w"
    by (rule elem_cells [OF _ a(4)] elem_cells [OF _ a(7)] elem_cells [OF _ a(1)] elem_cells [OF _ a(2)] elem_cells [OF _ a(5)]
        elem_cells [OF _ a(6)] elem_cells [OF _ c(1)] elem_cells [OF _ c(2)] elem_cells [OF _ c(3)] elem_cells [OF _ c(4)],
        simp add: r cells_take)+
qed

lemma query_challenges_fields:
  "qc_px (query_challenges (fp, fmi, px, z, cp, cn, al, w) rounds) = px" "qc_z_x (query_challenges (fp, fmi, px, z, cp, cn, al, w) rounds) = z"
  "qc_alphas (query_challenges (fp, fmi, px, z, cp, cn, al, w) rounds) = al # map (\<lambda>(_, alpha, _). alpha) rounds"
  "qc_invs (query_challenges (fp, fmi, px, z, cp, cn, al, w) rounds) = w # map (\<lambda>(_, _, x_inv). x_inv) rounds"
  "qc_comp_pos (query_challenges (fp, fmi, px, z, cp, cn, al, w) rounds) = comp_value_ref fp px z cp"
  "qc_comp_neg (query_challenges (fp, fmi, px, z, cp, cn, al, w) rounds) = comp_neg_ref fmi px z cn"
  by (simp_all add: Let_def comp_value_ref_def comp_neg_ref_def)

text \<open>Row \<open>r\<close> of the block of a canonical query.\<close>

lemma block_row_facts:
  assumes cq: "canon_query k (step, rounds)" and r: "r \<le> k"
  defines "row \<equiv> block_rows step rounds ! r" and "ch \<equiv> query_challenges step rounds" and "outs \<equiv> recursive_query_ref step rounds"
  shows "length row = 42" "cells_ok row" "elem row 5 = qc_alphas ch ! r" "row ! 9 = uint (qc_invs ch ! r)"
    "elem row 34 = scaled_diff (elem row 10) (elem row 14) (word_of_int (row ! 9))"
    "elem row 38 = fold_two (elem row 10) (elem row 14) (elem row 5) (word_of_int (row ! 9))" "elem row 38 = outs ! r"
    "r \<noteq> 0 \<Longrightarrow> elem row 10 = outs ! (r - 1)"
    "r = 0 \<Longrightarrow> row ! 0 = uint (qc_px ch) \<and> elem row 1 = qc_z_x ch \<and> elem row 26 = qc_comp_pos ch \<and> elem row 30 = qc_comp_neg ch
      \<and> elem row 26 = comp_value_ref (elem row 10) (word_of_int (row ! 0)) (elem row 1) (elem row 18)
      \<and> elem row 30 = comp_neg_ref (elem row 14) (word_of_int (row ! 0)) (elem row 1) (elem row 22)"
proof -
  obtain fp fmi px z cp cn al w where st: "step = (fp, fmi, px, z, cp, cn, al, w)" by (metis prod_cases7 prod.exhaust)
  have c: "canon_step step" "length rounds = k" "list_all canon_fold rounds" using cq by (simp_all add: canon_query_def)
  have outs: "outs = fold_outs (fold_two fp fmi al w) rounds" by (simp add: outs_def st)
  have "list_all canon_q outs" unfolding outs using c by (intro fold_outs_canon fold_two_val) (simp_all add: st)
  then have oc: "canon_q (outs ! i)" if "i \<le> k" for i using that c(2) by (simp add: outs list_all_length)
  note s = query_step_row_facts [OF c(1) [unfolded st]]
  have r0: "row = query_step_row step" if "r = 0" using that by (simp add: row_def block_rows_def Let_def)
  obtain sib a xi where rd: "rounds ! (r - 1) = (sib, a, xi)" by (metis prod.exhaust)
  have cf: "canon_fold (sib, a, xi)" if "r \<noteq> 0"
  proof -
    have "r - 1 < length rounds" using that r c(2) by simp
    then have "canon_fold (rounds ! (r - 1))" using c(3) by (simp only: list_all_length)
    then show ?thesis by (simp only: rd)
  qed
  have on: "outs ! r = fold_two (outs ! (r - 1)) sib a xi" if "r \<noteq> 0"
    using fold_outs_nth [of "r - 1" rounds "fold_two fp fmi al w"] that r c(2) rd by (simp add: outs)
  have rS: "row = round_row zeros (outs ! (r - 1)) (sib, a, xi) (fold_two (outs ! (r - 1)) sib a xi)" if "r \<noteq> 0"
  proof -
    have "r - 1 < length rounds" using that r c(2) by simp
    then show ?thesis using that rd on [OF that]
      by (cases r) (simp_all add: row_def block_rows_def Let_def outs_def [symmetric] nth_enumerate_eq)
  qed
  have le: "r - 1 \<le> k" using r by simp
  have f: "length row = 42" "cells_ok row" "elem row 5 = a" "row ! 9 = uint xi" "elem row 10 = outs ! (r - 1)" "elem row 14 = sib"
    "elem row 34 = scaled_diff (outs ! (r - 1)) sib xi" "elem row 38 = fold_two (outs ! (r - 1)) sib a xi" if "r \<noteq> 0"
    by (simp_all only: rS [OF that] round_row_facts [OF oc [OF le] cf [OF that]])
  have al: "qc_alphas ch ! r = (if r = 0 then al else a)" "qc_invs ch ! r = (if r = 0 then w else xi)"
    using r c(2) rd by (cases r; simp add: ch_def st query_challenges_fields del: query_challenges.simps)+
  have "length row = 42 \<and> cells_ok row \<and> elem row 5 = qc_alphas ch ! r \<and> row ! 9 = uint (qc_invs ch ! r)
    \<and> elem row 34 = scaled_diff (elem row 10) (elem row 14) (word_of_int (row ! 9))
    \<and> elem row 38 = fold_two (elem row 10) (elem row 14) (elem row 5) (word_of_int (row ! 9)) \<and> elem row 38 = outs ! r"
  proof (cases "r = 0")
    case True
    then have "outs ! r = fold_two fp fmi al w" by (simp add: outs)
    then show ?thesis using True query_step_row_ok(1,2) [OF c(1)] unfolding r0 [OF True] al by (simp add: s st)
  next
    case False
    then show ?thesis unfolding f(3-8) [OF False] al on [OF False] using f(1,2) [OF False] by simp
  qed
  then show "length row = 42" "cells_ok row" "elem row 5 = qc_alphas ch ! r" "row ! 9 = uint (qc_invs ch ! r)"
    "elem row 34 = scaled_diff (elem row 10) (elem row 14) (word_of_int (row ! 9))"
    "elem row 38 = fold_two (elem row 10) (elem row 14) (elem row 5) (word_of_int (row ! 9))" "elem row 38 = outs ! r"
    by blast+
  show "elem row 10 = outs ! (r - 1)" if "r \<noteq> 0" by (rule f(5) [OF that])
  show "row ! 0 = uint (qc_px ch) \<and> elem row 1 = qc_z_x ch \<and> elem row 26 = qc_comp_pos ch \<and> elem row 30 = qc_comp_neg ch
      \<and> elem row 26 = comp_value_ref (elem row 10) (word_of_int (row ! 0)) (elem row 1) (elem row 18)
      \<and> elem row 30 = comp_neg_ref (elem row 14) (word_of_int (row ! 0)) (elem row 1) (elem row 22)" if "r = 0"
    unfolding r0 [OF that] ch_def st query_challenges_fields s by simp
qed

lemma canon_query_statement:
  assumes "canon_query k (step, rounds)"
  shows "canon_challenges k (query_challenges step rounds)" "canon_q (recursive_query_final step rounds)"
proof -
  obtain fp fmi px z cp cn al w where st: "step = (fp, fmi, px, z, cp, cn, al, w)" by (metis prod_cases7 prod.exhaust)
  have c: "canon_step step" "length rounds = k" "list_all canon_fold rounds" using assms by (simp_all add: canon_query_def)
  have "list_all canon_q (fold_outs (fold_two fp fmi al w) rounds)" using c by (intro fold_outs_canon fold_two_val) (simp_all add: st)
  moreover have "last (fold_outs (fold_two fp fmi al w) rounds) = fold_outs (fold_two fp fmi al w) rounds ! k"
    using c(2) by (subst last_conv_nth) (auto simp flip: length_greater_0_conv)
  ultimately show "canon_q (recursive_query_final step rounds)" using c(2) by (simp add: recursive_query_final_def st list_all_length)
  have "list_all canon_q (map (\<lambda>(_, alpha, _). alpha) rounds)" "list_all canon32 (map (\<lambda>(_, _, x_inv). x_inv) rounds)"
    using c(3) by (auto simp: list_all_iff)
  then show "canon_challenges k (query_challenges step rounds)"
    using c(1,2) unfolding canon_challenges_def st query_challenges_fields by (simp add: comp_value_val)
qed
lemma rv_zero_row: "\<forall>c\<in>set (rv_evaluate (replicate 25 0) zeros prev). c mod P31 = 0"
proof -
  have z: "cells (replicate 25 (0 :: int)) a 4 = replicate 4 0" if "a + 4 \<le> 25" for a using that by (rule cells_zero)
  have w: "cells zeros a 4 = replicate 4 0" if "a + 4 \<le> 42" for a using that by (rule cells_zero)
  show ?thesis unfolding rv_evaluate_def by (simp add: z w qmul_def Let_def upt4)
qed

text \<open>The challenges and final values the verifier is given for honest queries.\<close>

definition query_statement :: "(StepOp \<times> FoldRound list) list \<Rightarrow> QueryChallenges list" where
  "query_statement queries = map (\<lambda>(step, rounds). query_challenges step rounds) queries"

lemma honest_statement:
  assumes "list_all (canon_query k) queries" "length queries * (1 + k) \<le> 2 ^ log_n"
  shows "rv_statement_ok k log_n (recursive_queries_final queries) (query_statement queries)"
  using assms canon_query_statement
  by (auto simp: rv_statement_ok_def recursive_queries_final_def query_statement_def list_all_iff)

lemma rv_trace_complete:
  assumes c: "list_all (canon_query k) queries" "queries \<noteq> []" and size: "length queries * (1 + k) \<le> 2 ^ log_n" and k64: "Suc k < 2 ^ 64"
  obtains cols pre where "build_trace_multi prof queries log_n = Some (cols, pre)" "length cols = 42"
    "build_preproc prof (recursive_queries_final queries) (query_statement queries) (of_nat k) log_n = Some pre"
    "cyclic_sat rv_evaluate pre cols (2 ^ log_n)"
proof -
  let ?n = "2 ^ log_n :: nat" and ?b = "1 + k" and ?finals = "recursive_queries_final queries" and ?chs = "query_statement queries"
  let ?blocks = "map (\<lambda>(step, rounds). block_rows step rounds) queries"
  let ?rows = "concat ?blocks @ replicate (?n - length queries * ?b) zeros"
  have lf: "length ?finals = length queries" by (simp add: recursive_queries_final_def)
  have k: "\<forall>(step, rounds)\<in>set queries. length rounds = k" using c(1) by (auto simp: list_all_iff canon_query_def)
  have k0: "length (snd (queries ! 0)) = k" using k c(2) by (cases queries) auto
  obtain pre where pre: "build_preproc prof ?finals ?chs (of_nat k) log_n = Some pre" and lp: "length pre = 25"
    and prow: "\<And>q r. q < length queries \<Longrightarrow> r \<le> k \<Longrightarrow> trace_row pre (q * ?b + r) = preproc_row k (?finals ! q) (?chs ! q) r"
    and pzero: "\<And>i. i < ?n \<Longrightarrow> length queries * ?b \<le> i \<Longrightarrow> trace_row pre i = replicate 25 0"
    using build_preproc_rows [OF honest_statement [OF c(1) size] k64] lf by metis
  have "replicate ?n zeros = [] @ replicate (length queries * ?b) zeros @ replicate (?n - length queries * ?b) zeros"
    using size by (simp add: replicate_add [symmetric] del: mult_Suc_right)
  then have fill: "fill_blocks prof ?b (replicate ?n zeros) (enumerate 0 queries) = Some ?rows"
    using fill_blocks_rows [OF c(1), where xs = "[]" and m = 0 and prof = prof and ys = "replicate (?n - length queries * ?b) zeros"] by simp
  let ?cols = "columns 42 ?rows"
  have raw: "build_trace_multi_raw prof queries log_n = Some ?cols" using c(2) fill k0 size by (simp add: build_trace_multi_raw_def Let_def)
  have multi: "build_trace_multi prof queries log_n = Some (?cols, pre)"
    using raw pre k0 by (simp add: build_trace_multi_def Let_def query_statement_def)
  have l: "\<forall>xs\<in>set ?blocks. length xs = ?b" using k by auto
  have lc: "length (concat ?blocks) = length queries * ?b" using concat_blocks(1) [OF l] by simp
  have lr: "length ?rows = ?n" unfolding length_append lc length_replicate using size by linarith
  have brow: "trace_row ?cols (q * ?b + r) = block_rows (fst (queries ! q)) (snd (queries ! q)) ! r"
    and bq: "canon_query k (fst (queries ! q), snd (queries ! q))" if "q < length queries" "r \<le> k" for q r
  proof -
    have i: "q * ?b + r < length (concat ?blocks)" using block_index [OF that] lc by simp
    then have "?rows ! (q * ?b + r) = concat ?blocks ! (q * ?b + r)" by (simp only: nth_append if_True)
    also have "\<dots> = ?blocks ! q ! r" using that by (intro concat_blocks(2) [OF l]) simp_all
    finally have e: "?rows ! (q * ?b + r) = block_rows (fst (queries ! q)) (snd (queries ! q)) ! r"
      using that by (simp add: split_beta)
    show b: "canon_query k (fst (queries ! q), snd (queries ! q))" using c(1) that by (simp add: list_all_length)
    have "q * ?b + r < length ?rows" using i by simp
    then show "trace_row ?cols (q * ?b + r) = block_rows (fst (queries ! q)) (snd (queries ! q)) ! r"
      using block_row_facts(1) [OF b that(2)] by (subst trace_row_columns) (simp_all only: e)
  qed
  have zrow: "trace_row ?cols i = zeros" if "i < ?n" "length queries * ?b \<le> i" for i
  proof -
    have "?rows ! i = zeros" using that by (simp add: nth_append lc [simplified])
    then show ?thesis using that(1) lr by (subst trace_row_columns) simp_all
  qed
  have div: "i div ?b < length queries" "i mod ?b \<le> k" "i = i div ?b * ?b + i mod ?b" if "i < length queries * ?b" for i
  proof -
    show "i div ?b < length queries" using that by (rule less_mult_imp_div_less)
    have "i mod ?b < ?b" by (rule mod_less_divisor) simp
    then show "i mod ?b \<le> k" by linarith
    show "i = i div ?b * ?b + i mod ?b" by (rule div_mult_mod_eq [symmetric])
  qed
  have ok: "cells_ok (trace_row ?cols i)" "length (trace_row ?cols i) = 42" if i: "i < ?n" for i
  proof -
    have "cells_ok (trace_row ?cols i) \<and> length (trace_row ?cols i) = 42"
    proof (cases "i < length queries * ?b")
      case True
      note d = div [OF True]
      show ?thesis using block_row_facts(1,2) [OF bq [OF d(1,2)] d(2)] brow [OF d(1,2)] d(3) by simp
    next
      case False
      then show ?thesis using zrow [OF i] zero_rows(5) by simp
    qed
    then show "cells_ok (trace_row ?cols i)" "length (trace_row ?cols i) = 42" by blast+
  qed
  have "\<forall>c\<in>set (rv_evaluate (trace_row pre i) (trace_row ?cols i) (trace_row ?cols ((i + ?n - 1) mod ?n))). c mod P31 = 0" if i: "i < ?n" for i
  proof (cases "i < length queries * ?b")
    case True
    define q r where "q = i div ?b" and "r = i mod ?b"
    have d: "q < length queries" "r \<le> k" "i = q * ?b + r" using div [OF True] by (simp_all only: q_def r_def)
    let ?q = "queries ! q" and ?p = "(i + ?n - 1) mod ?n"
    have qs: "?finals ! q = recursive_query_final (fst ?q) (snd ?q)" "?chs ! q = query_challenges (fst ?q) (snd ?q)"
      using d(1) by (simp_all add: recursive_queries_final_def query_statement_def split_beta)
    note cq = bq [OF d(1,2)]
    note f = preproc_row_facts [OF canon_query_statement [OF cq] d(2), folded qs, folded prow [OF d(1,2)], folded d(3)]
    note g = block_row_facts [OF cq d(2), folded brow [OF d(1,2)], folded d(3), folded qs(2)]
    have p: "?p < ?n" by simp
    have link: "elem (trace_row ?cols i) 10 = elem (trace_row ?cols ?p) 38" if "r \<noteq> 0"
    proof -
      have "?p = i - 1" using cyclic_prev [OF i] that d(3) by simp
      then have "?p = q * ?b + (r - 1)" using that d(3) by simp
      then show ?thesis using block_row_facts(7) [OF cq, of "r - 1"] brow [OF d(1), of "r - 1"] g(8) [OF that] d(2) by simp
    qed
    have out: "recursive_query_ref (fst ?q) (snd ?q) ! k = ?finals ! q"
    proof -
      have "length (recursive_query_ref (fst ?q) (snd ?q)) = Suc k"
        using cq by (cases "fst ?q") (auto simp: canon_query_def)
      then show ?thesis unfolding qs(1) recursive_query_final_def by (subst last_conv_nth) auto
    qed
    show ?thesis unfolding rv_row_iff [OF ok [OF i] ok [OF p] f(2,1,3,4,5)]
    proof (intro conjI impI)
      let ?row = "trace_row ?cols i" and ?pre = "trace_row pre i"
      show "elem ?row 5 = elem ?pre 7" "?row ! 9 = ?pre ! 16" by (simp_all only: f(6,7) g(3,4))
      show "elem ?row 34 = scaled_diff (elem ?row 10) (elem ?row 14) (word_of_int (?row ! 9))" by (rule g(5))
      show "elem ?row 38 = fold_two (elem ?row 10) (elem ?row 14) (elem ?row 5) (word_of_int (?row ! 9))" by (rule g(6))
      show "elem ?row 10 = elem (trace_row ?cols ?p) 38" if "r \<noteq> 0" by (rule link [OF that])
      show "elem ?row 38 = elem ?pre 3" if "r = k" unfolding g(7) f(12) [OF that] using out that by (simp only:)
      assume r: "r = 0"
      note z = g(9) [OF r]
      show "?row ! 0 = ?pre ! 11" "elem ?row 1 = elem ?pre 12" "elem ?row 26 = elem ?pre 17" "elem ?row 30 = elem ?pre 21"
        unfolding f(8) [OF r] f(9) [OF r] f(10) [OF r] f(11) [OF r] using z by blast+
      show "elem ?row 26 = comp_value_ref (elem ?row 10) (word_of_int (?row ! 0)) (elem ?row 1) (elem ?row 18)"
        "elem ?row 30 = comp_neg_ref (elem ?row 14) (word_of_int (?row ! 0)) (elem ?row 1) (elem ?row 22)" using z by blast+
    qed
  next
    case False
    then show ?thesis using zrow [OF i] pzero [OF i] rv_zero_row by simp
  qed
  then have "cyclic_sat rv_evaluate pre ?cols ?n" using ok by (simp add: cyclic_sat_def)
  then show ?thesis using that [OF multi _ pre] by (simp add: columns_def)
qed
section \<open>The final value is not determined\<close>

lemma qval_surj: "\<exists>x. canon_q x \<and> qval x = qmod z"
proof (cases z)
  case (QZ a b c d)
  let ?row = "[a mod P31, b mod P31, c mod P31, d mod P31]"
  have "cells_ok ?row" by simp
  from elem_facts(1,2) [OF this, of 0] show ?thesis by (intro exI [of _ "elem ?row 0"]) (simp add: QZ l4_def cells_4)
qed

text \<open>Every value is a fold of two equal operands, whatever the challenge and the twiddle.\<close>

lemma fold_of_equal:
  assumes "canon_q v"
  shows "\<exists>x. canon_q x \<and> (\<forall>al w. canon_q al \<longrightarrow> canon32 w \<longrightarrow> fold_two x x al w = v)"
proof -
  obtain x where x: "canon_q x" "qval x = qmod (QZ (2 ^ 30) 0 0 0 * qval v)" using qval_surj by blast
  have "2 ^ 31 * a mod P31 = a mod P31" for a
  proof -
    have "2 ^ 31 * a = P31 * a + a" by (simp add: P31_def)
    then show ?thesis by (simp only: mod_mult_self4)
  qed
  then have one: "qmod (QZ (2 ^ 31) 0 0 0 * y) = qmod y" for y by (cases y) simp
  have sum: "QZ (2 ^ 30) 0 0 0 * y + QZ (2 ^ 30) 0 0 0 * y = QZ (2 ^ 31) 0 0 0 * y" for y by (cases y) simp
  have "qmod (qval x + qval x) = qmod (QZ (2 ^ 30) 0 0 0 * qval v + QZ (2 ^ 30) 0 0 0 * qval v)" unfolding x(2) by (simp only: qmod_simps)
  then have two: "qmod (qval x + qval x) = qval v" unfolding sum one qmod_qval [OF assms] .
  have "fold_two x x al w = v" if "canon_q al" "canon32 w" for al w
  proof (rule qval_inj)
    show "qval (fold_two x x al w) = qval v" using fold_two_val(1) [OF x(1) x(1) that] two by simp
  qed
  then show ?thesis using x(1) by blast
qed

lemma halvings:
  assumes "canon_q v"
  shows "\<exists>xs. length xs = Suc m \<and> list_all canon_q xs \<and> last xs = v
    \<and> (\<forall>i<m. \<forall>al w. canon_q al \<longrightarrow> canon32 w \<longrightarrow> fold_two (xs ! i) (xs ! i) al w = xs ! Suc i)"
proof (induction m)
  case 0
  then show ?case using assms by (intro exI [of _ "[v]"]) simp
next
  case (Suc m)
  then obtain xs where xs: "length xs = Suc m" "list_all canon_q xs" "last xs = v"
    "\<forall>i<m. \<forall>al w. canon_q al \<longrightarrow> canon32 w \<longrightarrow> fold_two (xs ! i) (xs ! i) al w = xs ! Suc i" by blast
  have "canon_q (xs ! 0)" using xs(1,2) by (simp add: list_all_length)
  then obtain x where x: "canon_q x" "\<forall>al w. canon_q al \<longrightarrow> canon32 w \<longrightarrow> fold_two x x al w = xs ! 0" using fold_of_equal by blast
  have "fold_two ((x # xs) ! i) ((x # xs) ! i) al w = (x # xs) ! Suc i" if "i < Suc m" "canon_q al" "canon32 w" for i al w
    using that x xs(4) by (cases i) simp_all
  then show ?case using x(1) xs(1-3) by (intro exI [of _ "x # xs"]) auto
qed

lemma query_for_any_final:
  assumes "canon_challenges k ch" "canon_q v"
  shows "\<exists>step rounds. canon_query k (step, rounds) \<and> query_challenges step rounds = ch \<and> recursive_query_final step rounds = v"
proof -
  obtain xs where xs: "length xs = Suc (Suc k)" "list_all canon_q xs" "last xs = v"
    "\<forall>i<Suc k. \<forall>al w. canon_q al \<longrightarrow> canon32 w \<longrightarrow> fold_two (xs ! i) (xs ! i) al w = xs ! Suc i" using halvings [OF assms(2)] by blast
  have c: "length (qc_alphas ch) = Suc k" "length (qc_invs ch) = Suc k" "canon32 (qc_px ch)" "canon_q (qc_z_x ch)"
    "canon_q (qc_comp_pos ch)" "canon_q (qc_comp_neg ch)" using assms(1) by (simp_all add: canon_challenges_def)
  have cx: "canon_q (xs ! i)" if "i \<le> Suc k" for i using xs(1,2) that by (simp add: list_all_length)
  have ca: "canon_q (qc_alphas ch ! i)" "canon32 (qc_invs ch ! i)" if "i \<le> k" for i
    using assms(1) that by (simp_all add: canon_challenges_def list_all_length)
  obtain cp where cp: "canon_q cp" "qval cp = qmod (qval (qc_comp_pos ch) - qval (xs ! 0) * (QZ (uint (qc_px ch)) 0 0 0 - qval (qc_z_x ch)))"
    using qval_surj by blast
  obtain cn where cn: "canon_q cn" "qval cn = qmod (qval (qc_comp_neg ch) - qval (xs ! 0) * (QZ (- uint (qc_px ch)) 0 0 0 - qval (qc_z_x ch)))"
    using qval_surj by blast
  have x0: "canon_q (xs ! 0)" by (rule cx) simp
  note vp = comp_value_val [OF x0 c(3,4) cp(1)] and vn = comp_value_val [OF x0 c(3,4) cn(1)]
  have pos: "comp_value_ref (xs ! 0) (qc_px ch) (qc_z_x ch) cp = qc_comp_pos ch"
    by (rule qval_inj) (simp add: vp(1) cp(2) qmod_qval [OF c(5)])
  have neg: "comp_neg_ref (xs ! 0) (qc_px ch) (qc_z_x ch) cn = qc_comp_neg ch"
    by (rule qval_inj) (simp add: vn(3) cn(2) qmod_qval [OF c(6)])
  let ?step = "(xs ! 0, xs ! 0, qc_px ch, qc_z_x ch, cp, cn, qc_alphas ch ! 0, qc_invs ch ! 0)"
  let ?rounds = "map (\<lambda>i. (xs ! Suc i, qc_alphas ch ! Suc i, qc_invs ch ! Suc i)) [0..<k]"
  have q: "canon_query k (?step, ?rounds)" using c cp(1) cn(1) x0 ca cx by (simp add: canon_query_def list_all_length)
  have tl: "y ! 0 # map (\<lambda>i. y ! Suc i) [0..<k] = y" if "length y = Suc k" for y :: "'x list"
    using that by (intro nth_equalityI) (auto simp: nth_Cons split: nat.splits)
  have "query_challenges ?step ?rounds = ch"
  proof (rule QueryChallenges.equality)
    show "qc_alphas (query_challenges ?step ?rounds) = qc_alphas ch" "qc_invs (query_challenges ?step ?rounds) = qc_invs ch"
      unfolding query_challenges_fields using tl [OF c(1)] tl [OF c(2)] by (simp_all add: o_def)
  qed (simp_all only: query_challenges_fields pos neg, simp)
  moreover have "recursive_query_final ?step ?rounds = v"
  proof -
    have "fold_outs (xs ! Suc 0) ?rounds = map (\<lambda>i. xs ! Suc i) [0..<Suc k]"
      by (rule fold_outs_map) (use xs(4) ca in auto)
    moreover have "fold_two (xs ! 0) (xs ! 0) (qc_alphas ch ! 0) (qc_invs ch ! 0) = xs ! Suc 0" using xs(4) ca [of 0] by simp
    ultimately have "recursive_query_final ?step ?rounds = xs ! Suc k"
      unfolding recursive_query_final_def by (simp del: upt_Suc) simp
    then show ?thesis using xs(1,3) last_conv_nth [of xs] by (cases xs) auto
  qed
  ultimately show ?thesis using q by blast
qed

end
