(* ===== verification/Recursion_Protocol.thy ===== *)
theory Recursion_Protocol
  imports Circuit_Recursion
begin

text \<open>
  Proving and verifying queries of the recursion (\<open>recursive/recursive_verifier.rs\<close>). The library that commits
  columns, proves and verifies is a parameter: \<open>stark_prove pre cols log_size words\<close> are the bytes of a proof
  or its error, \<open>decode\<close> the proof of bytes, \<open>commitments\<close> its Merkle roots, \<open>preproc_root\<close> the root of the
  preprocessed columns and \<open>stark_verify root0 root1 log_size words proof\<close> the library's answer after the
  roots and the public words are absorbed. Every function takes the profile of the build, and the verifiers take
  \<open>num_folds\<close> at its 64 bits: it comes from the caller, and \<open>1 + num_folds\<close> panics or wraps at the end of the range.
\<close>

definition MIN_LOG_SIZE :: nat where "MIN_LOG_SIZE = 1"
definition MAX_LOG_SIZE :: nat where "MAX_LOG_SIZE = 20"
definition MAX_NUM_FOLDS :: nat where "MAX_NUM_FOLDS = 64"
definition MAX_QUERIES :: nat where "MAX_QUERIES = 4096"

datatype rv_error =
    NoQueries
  | TooManyQueries nat
  | TooManyFolds nat
  | FoldCountsDiffer
  | LogSizeExceeds nat
  | LogSizeRange nat
  | ChallengeCounts
  | LengthMismatch
  | Malformed nat
  | StarkError string

text \<open>\<open>mix_public\<close> and \<open>mix_public_multi\<close>: the words absorbed after the commitments.\<close>

definition public_words :: "u32 list \<Rightarrow> u128 list \<Rightarrow> u32 list" where
  "public_words pxs finals = concat (map2 (\<lambda>px final_v. px # map ucast (limbs final_v)) pxs finals)"

definition compute_log_size_multi :: "nat \<Rightarrow> nat \<Rightarrow> nat" where
  "compute_log_size_multi n_queries n_folds = (let used = n_queries * (1 + n_folds) in log_size_loop used MIN_LOG_SIZE)"

definition step_px :: "StepOp \<Rightarrow> u32" where
  "step_px = (\<lambda>(_, _, px, _). px)"

section \<open>Proving\<close>

type_synonym 'b prover = "int list list \<Rightarrow> int list list \<Rightarrow> nat \<Rightarrow> u32 list \<Rightarrow> string + 'b"

definition prove_recursive_query :: "build_profile \<Rightarrow> 'b prover \<Rightarrow> StepOp \<Rightarrow> FoldRound list \<Rightarrow> (rv_error + 'b \<times> nat \<times> u128) option" where
  "prove_recursive_query prof stark_prove step rounds =
     (if length rounds > MAX_NUM_FOLDS then Some (Inl (TooManyFolds (length rounds)))
      else let log_size = compute_log_size (1 + length rounds) in
        if log_size > MAX_LOG_SIZE then Some (Inl (LogSizeExceeds log_size))
        else let final_value = recursive_query_final step rounds; px = step_px step in
          case rv_build_trace prof step rounds log_size of None \<Rightarrow> None
          | Some (main_trace, pre) \<Rightarrow> Some
              (case stark_prove pre main_trace log_size (public_words [px] [final_value]) of Inl e \<Rightarrow> Inl (StarkError e)
               | Inr bytes \<Rightarrow> Inr (bytes, log_size, final_value)))"

definition prove_recursive_queries :: "build_profile \<Rightarrow> 'b prover \<Rightarrow> (StepOp \<times> FoldRound list) list \<Rightarrow> (rv_error + 'b \<times> nat \<times> u128 list) option" where
  "prove_recursive_queries prof stark_prove queries =
     (if queries = [] then Some (Inl NoQueries)
      else if length queries > MAX_QUERIES then Some (Inl (TooManyQueries (length queries)))
      else let n_folds = length (snd (queries ! 0)) in
        if n_folds > MAX_NUM_FOLDS then Some (Inl (TooManyFolds n_folds))
        else if \<exists>(_, r)\<in>set queries. length r \<noteq> n_folds then Some (Inl FoldCountsDiffer)
        else let log_size = compute_log_size_multi (length queries) n_folds in
          if log_size > MAX_LOG_SIZE then Some (Inl (LogSizeExceeds log_size))
          else let finals = recursive_queries_final queries; pxs = map (\<lambda>(s, _). step_px s) queries in
            case build_trace_multi prof queries log_size of None \<Rightarrow> None
            | Some (main_trace, pre) \<Rightarrow> Some
                (case stark_prove pre main_trace log_size (public_words pxs finals) of Inl e \<Rightarrow> Inl (StarkError e)
                 | Inr bytes \<Rightarrow> Inr (bytes, log_size, finals)))"

section \<open>Verifying\<close>

definition verify_recursive_query ::
  "build_profile \<Rightarrow> ('b \<Rightarrow> string + 'p) \<Rightarrow> ('p \<Rightarrow> 'h list) \<Rightarrow> (int list list \<Rightarrow> nat \<Rightarrow> 'h) \<Rightarrow> ('h \<Rightarrow> 'h \<Rightarrow> nat \<Rightarrow> u32 list \<Rightarrow> 'p \<Rightarrow> bool)
   \<Rightarrow> 'b \<Rightarrow> nat \<Rightarrow> u64 \<Rightarrow> QueryChallenges \<Rightarrow> u32 \<Rightarrow> u128 \<Rightarrow> (rv_error + bool) option" where
  "verify_recursive_query prof decode commitments preproc_root stark_verify proof_bytes log_size n_folds challenges px final_value =
     (if \<not> (MIN_LOG_SIZE \<le> log_size \<and> log_size \<le> MAX_LOG_SIZE) then Some (Inl (LogSizeRange log_size))
      else case one_plus prof n_folds of None \<Rightarrow> None
      | Some block \<Rightarrow>
      if length (qc_alphas challenges) \<noteq> unat block \<or> length (qc_invs challenges) \<noteq> unat block then Some (Inl ChallengeCounts)
      else case decode proof_bytes of Inl e \<Rightarrow> Some (Inl (StarkError e))
      | Inr pf \<Rightarrow>
          if length (commitments pf) < 2 then Some (Inl (Malformed (length (commitments pf))))
          else case build_preproc prof [final_value] [challenges] n_folds log_size of None \<Rightarrow> None
          | Some pre \<Rightarrow>
              if commitments pf ! 0 \<noteq> preproc_root pre log_size then Some (Inr False)
              else Some (Inr (stark_verify (commitments pf ! 0) (commitments pf ! 1) log_size (public_words [px] [final_value]) pf)))"

definition verify_recursive_queries ::
  "build_profile \<Rightarrow> ('b \<Rightarrow> string + 'p) \<Rightarrow> ('p \<Rightarrow> 'h list) \<Rightarrow> (int list list \<Rightarrow> nat \<Rightarrow> 'h) \<Rightarrow> ('h \<Rightarrow> 'h \<Rightarrow> nat \<Rightarrow> u32 list \<Rightarrow> 'p \<Rightarrow> bool)
   \<Rightarrow> 'b \<Rightarrow> nat \<Rightarrow> u64 \<Rightarrow> QueryChallenges list \<Rightarrow> u32 list \<Rightarrow> u128 list \<Rightarrow> (rv_error + bool) option" where
  "verify_recursive_queries prof decode commitments preproc_root stark_verify proof_bytes log_size n_folds challenges pxs finals =
     (if \<not> (MIN_LOG_SIZE \<le> log_size \<and> log_size \<le> MAX_LOG_SIZE) then Some (Inl (LogSizeRange log_size))
      else if length pxs \<noteq> length finals \<or> length challenges \<noteq> length finals then Some (Inl LengthMismatch)
      else if pxs = [] then Some (Inl NoQueries)
      else case decode proof_bytes of Inl e \<Rightarrow> Some (Inl (StarkError e))
      | Inr pf \<Rightarrow>
          if length (commitments pf) < 2 then Some (Inl (Malformed (length (commitments pf))))
          else case build_preproc prof finals challenges n_folds log_size of None \<Rightarrow> None
          | Some pre \<Rightarrow>
              if commitments pf ! 0 \<noteq> preproc_root pre log_size then Some (Inr False)
              else Some (Inr (stark_verify (commitments pf ! 0) (commitments pf ! 1) log_size (public_words pxs finals) pf)))"

section \<open>Sizes\<close>

text \<open>The caps make the size fit: the check of \<open>MAX_LOG_SIZE\<close> never refuses.\<close>

lemma log_size_multi:
  assumes "length queries \<le> MAX_QUERIES" "k \<le> MAX_NUM_FOLDS"
  shows "length queries * (1 + k) \<le> 2 ^ compute_log_size_multi (length queries) k"
    "MIN_LOG_SIZE \<le> compute_log_size_multi (length queries) k" "compute_log_size_multi (length queries) k \<le> MAX_LOG_SIZE"
proof -
  let ?u = "length queries * (1 + k)" and ?l = "compute_log_size_multi (length queries) k"
  have s: "1 \<le> ?l \<and> max ?u 1 \<le> 2 ^ ?l \<and> (?l = 1 \<or> 2 ^ (?l - 1) < max ?u 1)"
    using log_size_loop_spec [of 1 ?u] by (simp only: compute_log_size_multi_def Let_def MIN_LOG_SIZE_def)
  then show "?u \<le> 2 ^ ?l" "MIN_LOG_SIZE \<le> ?l" by (simp_all add: MIN_LOG_SIZE_def)
  have "?u \<le> 4096 * 65" using assms unfolding MAX_QUERIES_def MAX_NUM_FOLDS_def by (intro mult_le_mono) simp_all
  then have u: "max ?u 1 \<le> 2 ^ 19" by simp
  show "?l \<le> MAX_LOG_SIZE"
  proof (rule ccontr)
    assume "\<not> ?l \<le> MAX_LOG_SIZE"
    then have l: "19 \<le> ?l - 1" "?l \<noteq> 1" by (simp_all add: MAX_LOG_SIZE_def)
    have "(2 :: nat) ^ 19 \<le> 2 ^ (?l - 1)" using l(1) by (rule power_increasing) simp
    with s l(2) u show False by linarith
  qed
qed

section \<open>One query is a batch of one\<close>

lemma rv_build_trace_multi: "rv_build_trace prof step rounds log_n = build_trace_multi prof [(step, rounds)] log_n"
  by (simp add: rv_build_trace_def build_trace_multi_def build_trace_multi_raw_def recursive_queries_final_def Let_def
      split: option.splits)

lemma prove_one:
  "length rounds \<le> MAX_NUM_FOLDS \<Longrightarrow> prove_recursive_query prof stark_prove step rounds =
     map_option (map_sum id (\<lambda>(bytes, log_size, finals). (bytes, log_size, finals ! 0))) (prove_recursive_queries prof stark_prove [(step, rounds)])"
  by (auto simp: prove_recursive_query_def prove_recursive_queries_def rv_build_trace_multi recursive_queries_final_def Let_def
      compute_log_size_def compute_log_size_multi_def MIN_LOG_SIZE_def MAX_QUERIES_def split: option.splits sum.splits)
lemma verify_one:
  "one_plus prof k = Some block \<Longrightarrow> length (qc_alphas ch) = unat block \<Longrightarrow> length (qc_invs ch) = unat block \<Longrightarrow>
   verify_recursive_query prof decode commitments preproc_root stark_verify bytes log_size k ch px v =
     verify_recursive_queries prof decode commitments preproc_root stark_verify bytes log_size k [ch] [px] [v]"
  by (simp add: verify_recursive_query_def verify_recursive_queries_def)

section \<open>Panics\<close>

text \<open>The increment inside the range and at its end.\<close>

lemma one_plus_cases:
  fixes k :: u64
  obtains (inside) "Suc (unat k) < 2 ^ 64" "one_plus prof k = Some (1 + k)" "unat (1 + k) = 1 + unat k"
  | (overflow) "unat k = 2 ^ 64 - 1" "prof = Dev" "one_plus prof k = None"
  | (wrapped) "unat k = 2 ^ 64 - 1" "prof = Release" "one_plus prof k = Some 0"
proof (cases "Suc (unat k) < 2 ^ 64")
  case True
  then show thesis using inside unat_one_plus [OF True] by simp
next
  case False
  have "unat k < 2 ^ LENGTH(64)" by (rule unsigned_less)
  then have "unat k < 2 ^ 64" by simp
  with False have k: "unat k = 2 ^ 64 - 1" by linarith
  then have "unat (1 + k) = 0" by (simp add: unat_word_ariths)
  then have "1 + k = 0" by (simp only: unsigned_eq_0_iff)
  then show thesis using overflow wrapped k by (cases prof) (simp_all add: one_plus_def)
qed

lemma build_preproc_Some:
  assumes "build_preproc prof finals chs k log_size = Some pre" "finals \<noteq> []"
  shows "Suc (unat k) < 2 ^ 64"
  using assms by (cases chs) (auto simp: build_preproc_def Let_def preproc_block_ok_def split: if_splits option.splits)

text \<open>The last row of every block exists exactly when the blocks fit.\<close>

lemma blocks_fit: "(\<forall>q<n. q * (1 + k) + k < m) \<longleftrightarrow> n * (1 + k) \<le> m" for n k m :: nat
proof
  assume f: "\<forall>q<n. q * (1 + k) + k < m"
  show "n * (1 + k) \<le> m"
  proof (cases n)
    case (Suc q)
    then show ?thesis using f [rule_format, of q] by simp
  qed simp
next
  assume c: "n * (1 + k) \<le> m"
  show "\<forall>q<n. q * (1 + k) + k < m"
  proof (intro allI impI)
    fix q assume "q < n"
    then show "q * (1 + k) + k < m" using block_index [of q n k k] c by linarith
  qed
qed

text \<open>When the builder of the columns panics, for at least one query and a size the verifiers accept.\<close>

lemma build_preproc_None:
  assumes l: "length finals = length chs" "finals \<noteq> []" and size: "log_size < 64"
  shows "build_preproc prof finals chs k log_size = None \<longleftrightarrow>
    (\<exists>ch\<in>set chs. length (qc_alphas ch) < 1 + unat k \<or> length (qc_invs ch) < 1 + unat k)
    \<or> (prof = Dev \<and> (\<exists>ch\<in>set chs. \<not> (length (qc_alphas ch) = 1 + unat k \<and> length (qc_invs ch) = 1 + unat k)))
    \<or> 2 ^ log_size < length finals * (1 + unat k)"
proof (cases rule: one_plus_cases [of k prof])
  case inside
  let ?good = "\<lambda>ch. (prof = Dev \<longrightarrow> length (qc_alphas ch) = 1 + unat k \<and> length (qc_invs ch) = 1 + unat k)
    \<and> 1 + unat k \<le> length (qc_alphas ch) \<and> 1 + unat k \<le> length (qc_invs ch)"
  let ?fit = "\<lambda>q. q * (1 + unat k) + unat k < 2 ^ log_size"
  note fit = blocks_fit [of "length chs" "unat k" "2 ^ log_size"]
  have "build_preproc prof finals chs k log_size = None \<longleftrightarrow> \<not> ((\<forall>q<length chs. ?fit q) \<and> (\<forall>ch\<in>set chs. ?good ch))"
  proof -
    have "build_preproc prof finals chs k log_size = None
        \<longleftrightarrow> \<not> (\<forall>q<length chs. preproc_block_ok prof (2 ^ log_size) k (1 + k) q (chs ! q))"
      using l(1) inside(2) by (simp add: build_preproc_def Let_def list_all_length nth_enumerate_eq)
    moreover have "preproc_block_ok prof (2 ^ log_size) k (1 + k) q ch \<longleftrightarrow> ?fit q \<and> ?good ch" for q ch
    proof -
      have "unat k < 2 ^ 64 - 1" using inside(1) by simp
      then show ?thesis unfolding preproc_block_ok_def inside(3) by blast
    qed
    ultimately have e: "build_preproc prof finals chs k log_size = None \<longleftrightarrow> \<not> (\<forall>q<length chs. ?fit q \<and> ?good (chs ! q))" by (simp only:)
    have "(\<forall>q<n. A q \<and> B q) \<longleftrightarrow> (\<forall>q<n. A q) \<and> (\<forall>q<n. B q)" for A B and n :: nat by blast
    then show ?thesis unfolding e all_set_conv_all_nth by (simp only:)
  qed
  then show ?thesis unfolding l(1) fit by (auto simp: not_le not_less)
next
  case overflow
  have "(2 :: nat) ^ log_size < 2 ^ 64" using size by (intro power_strict_increasing) simp_all
  also have "\<dots> \<le> length finals * (1 + unat k)" using l(2) overflow(1) by (cases finals) simp_all
  finally show ?thesis using overflow(3) by (simp add: build_preproc_def)
next
  case wrapped
  have "(2 :: nat) ^ log_size < 2 ^ 64" using size by (intro power_strict_increasing) simp_all
  also have "\<dots> \<le> length finals * (1 + unat k)" using l(2) wrapped(1) by (cases finals) simp_all
  finally have "2 ^ log_size < length finals * (1 + unat k)" .
  moreover have "build_preproc prof finals chs k log_size = None"
    using l wrapped by (cases chs) (auto simp: build_preproc_def preproc_block_ok_def)
  ultimately show ?thesis by blast
qed

lemma verify_queries_None:
  "verify_recursive_queries prof decode commitments preproc_root stark_verify bytes log_size k chs pxs finals = None \<longleftrightarrow>
    1 \<le> log_size \<and> log_size \<le> 20 \<and> length pxs = length finals \<and> length chs = length finals \<and> finals \<noteq> []
    \<and> (\<exists>pf. decode bytes = Inr pf \<and> 2 \<le> length (commitments pf)) \<and> build_preproc prof finals chs k log_size = None"
proof -
  have "pxs = [] \<longleftrightarrow> finals = []" if "length pxs = length finals" using that by auto
  then show ?thesis by (auto simp: verify_recursive_queries_def MIN_LOG_SIZE_def MAX_LOG_SIZE_def split: sum.splits option.splits)
qed

lemma verify_query_None:
  "verify_recursive_query prof decode commitments preproc_root stark_verify bytes log_size k ch px v = None \<longleftrightarrow>
    1 \<le> log_size \<and> log_size \<le> 20
    \<and> (case one_plus prof k of None \<Rightarrow> True
       | Some block \<Rightarrow> length (qc_alphas ch) = unat block \<and> length (qc_invs ch) = unat block
           \<and> (\<exists>pf. decode bytes = Inr pf \<and> 2 \<le> length (commitments pf)) \<and> build_preproc prof [v] [ch] k log_size = None)"
  by (auto simp: verify_recursive_query_def MIN_LOG_SIZE_def MAX_LOG_SIZE_def split: sum.splits option.splits)

lemma canon_query_lengths:
  assumes "list_all (canon_query k) queries" "queries \<noteq> []"
  shows "length (snd (queries ! 0)) = k" "\<not> (\<exists>(_, r)\<in>set queries. length r \<noteq> k)"
proof -
  have c: "length r = k" if "(s, r) \<in> set queries" for s r using assms(1) that by (auto simp: list_all_iff canon_query_def)
  have "queries ! 0 \<in> set queries" using assms(2) by (intro nth_mem) simp
  then show "length (snd (queries ! 0)) = k" using c [of "fst (queries ! 0)" "snd (queries ! 0)"] by simp
  show "\<not> (\<exists>(_, r)\<in>set queries. length r \<noteq> k)" using c by auto
qed

text \<open>A query of zeros, for the examples.\<close>

lemma zero_query: "list_all (canon_query 0) [((0, 0, 0, 0, 0, 0, 0, 0), [])]"
  by (simp add: canon_query_def canon_q_def canon_c_def canon32_def qm31_c0_def qm31_c1_def cm31_re_def cm31_im_def P31_def)

section \<open>Properties\<close>

text \<open>
  C38. What the circuit proves. For canonical challenges and final values, take the preprocessed columns of the
  verifier and any columns of field cells that satisfy the circuit with them. Then the steps and rounds these
  columns hold have exactly the given challenges, twiddles, points and composition values, and folding them as
  the reference does ends in the given final values.
\<close>

theorem rv_circuit_sound:
  assumes "rv_statement_ok (unat k) log_n finals chs" "build_preproc prof finals chs k log_n = Some pre" "length cols = 42"
    "cyclic_sat rv_evaluate pre cols (2 ^ log_n)"
  shows "query_statement (map (trace_query (unat k) cols) [0..<length finals]) = chs
    \<and> recursive_queries_final (map (trace_query (unat k) cols) [0..<length finals]) = finals"
proof -
  let ?q = "trace_query (unat k) cols"
  have f: "query_challenges (fst (?q q)) (snd (?q q)) = chs ! q" "recursive_query_final (fst (?q q)) (snd (?q q)) = finals ! q"
    if q: "q < length finals" for q
  proof -
    have k: "Suc (unat k) < 2 ^ 64" by (rule build_preproc_Some [OF assms(2)]) (use q in auto)
    have "build_preproc prof finals chs (of_nat (unat k)) log_n = Some pre" using assms(2) by simp
    note s = rv_trace_sound [OF assms(1) this k assms(3,4) q]
    show "query_challenges (fst (?q q)) (snd (?q q)) = chs ! q" "recursive_query_final (fst (?q q)) (snd (?q q)) = finals ! q"
      by (rule s, simp)+
  qed
  have "length chs = length finals" using assms(1) by (simp add: rv_statement_ok_def)
  then show ?thesis using f by (auto intro!: nth_equalityI simp: query_statement_def recursive_queries_final_def split_beta)
qed

lemma rv_circuit_sound_witness:
  "\<exists>cols. recursive_queries_final (map (trace_query 0 cols) [0..<1]) = recursive_queries_final [((0, 0, 0, 0, 0, 0, 0, 0), [])]"
proof -
  let ?q = "[((0, 0, 0, 0, 0, 0, 0, 0), [])] :: (StepOp \<times> FoldRound list) list"
  have size: "length ?q * (1 + 0) \<le> 2 ^ 1" by simp
  obtain cols pre where t: "length cols = 42" "build_preproc Dev (recursive_queries_final ?q) (query_statement ?q) (of_nat 0) 1 = Some pre"
    "cyclic_sat rv_evaluate pre cols (2 ^ 1)" by (rule rv_trace_complete [OF zero_query _ size, where prof = Dev]) simp_all
  have "length (recursive_queries_final ?q) = 1" by (simp add: recursive_queries_final_def)
  then show ?thesis
    using rv_circuit_sound [of "of_nat 0" 1 "recursive_queries_final ?q" "query_statement ?q" Dev pre cols]
      honest_statement [OF zero_query size] t by auto
qed

text \<open>
  C39. Proving and verifying agree. If the library's prover answers a satisfied circuit with a proof that decodes,
  carries the root of the given preprocessed columns and is accepted, then every batch of one to 4096
  canonical queries of at most 64 folds is proved, without error or panic, and the verifier accepts the bytes
  with the challenges, abscissas and final values of the queries.
\<close>

theorem rv_prove_verify:
  assumes "list_all (canon_query k) queries" "queries \<noteq> []" "length queries \<le> MAX_QUERIES" "k \<le> MAX_NUM_FOLDS"
    and complete: "\<And>pre cols log_n words. length pre = 25 \<Longrightarrow> length cols = 42 \<Longrightarrow> cyclic_sat rv_evaluate pre cols (2 ^ log_n) \<Longrightarrow>
      \<exists>bytes pf root. stark_prove pre cols log_n words = Inr bytes \<and> decode bytes = Inr pf
        \<and> commitments pf = [preproc_root pre log_n, root] \<and> stark_verify (preproc_root pre log_n) root log_n words pf"
  shows "\<exists>bytes log_n. prove_recursive_queries prof stark_prove queries = Some (Inr (bytes, log_n, recursive_queries_final queries))
    \<and> verify_recursive_queries prof decode commitments preproc_root stark_verify bytes log_n (of_nat k) (query_statement queries)
        (map (\<lambda>(s, _). step_px s) queries) (recursive_queries_final queries) = Some (Inr True)"
proof -
  let ?l = "compute_log_size_multi (length queries) k" and ?pxs = "map (\<lambda>(s, _). step_px s) queries" and ?finals = "recursive_queries_final queries"
  note size = log_size_multi [OF assms(3,4)] and lens = canon_query_lengths [OF assms(1,2)]
  have k64: "Suc k < 2 ^ 64" using assms(4) by (simp add: MAX_NUM_FOLDS_def)
  obtain cols pre where t: "build_trace_multi prof queries ?l = Some (cols, pre)" "length cols = 42"
    "build_preproc prof ?finals (query_statement queries) (of_nat k) ?l = Some pre" "cyclic_sat rv_evaluate pre cols (2 ^ ?l)"
    using rv_trace_complete [OF assms(1,2) size(1) k64] by metis
  have "length pre = 25" using build_preproc_rows [OF honest_statement [OF assms(1) size(1)] k64, of prof] t(3) by (metis option.inject)
  from complete [OF this t(2,4)] obtain bytes pf r where
    p: "stark_prove pre cols ?l (public_words ?pxs ?finals) = Inr bytes" "decode bytes = Inr pf"
      "commitments pf = [preproc_root pre ?l, r]" "stark_verify (preproc_root pre ?l) r ?l (public_words ?pxs ?finals) pf" by blast
  have "prove_recursive_queries prof stark_prove queries = Some (Inr (bytes, ?l, ?finals))"
    unfolding prove_recursive_queries_def lens(1) Let_def if_not_P [OF assms(2)] if_not_P [OF lens(2)]
    using assms(3,4) size(3) t(1) p(1) by simp
  moreover have "verify_recursive_queries prof decode commitments preproc_root stark_verify bytes ?l (of_nat k) (query_statement queries) ?pxs ?finals
      = Some (Inr True)"
    using size(2,3) assms(2) t(3) p(2-4) by (simp add: verify_recursive_queries_def query_statement_def recursive_queries_final_def)
  ultimately show ?thesis by blast
qed

lemma rv_prove_verify_witness:
  "\<exists>bytes log_n. prove_recursive_queries Dev (\<lambda>pre cols log_n words. Inr (pre, cols)) [((0, 0, 0, 0, 0, 0, 0, 0), [])]
      = Some (Inr (bytes, log_n, recursive_queries_final [((0, 0, 0, 0, 0, 0, 0, 0), [])]))
    \<and> verify_recursive_queries Dev Inr (\<lambda>(pre, cols). [pre, cols]) (\<lambda>pre log_n. pre)
        (\<lambda>root0 root1 log_n words pf. pf = (root0, root1) \<and> cyclic_sat rv_evaluate root0 root1 (2 ^ log_n))
        bytes log_n 0 (query_statement [((0, 0, 0, 0, 0, 0, 0, 0), [])]) [0] (recursive_queries_final [((0, 0, 0, 0, 0, 0, 0, 0), [])])
      = Some (Inr True)"
  using rv_prove_verify [OF zero_query _ _ _, where prof = Dev and stark_prove = "\<lambda>pre cols log_n words. Inr (pre, cols)" and decode = Inr and commitments = "\<lambda>(pre, cols). [pre, cols]"
      and preproc_root = "\<lambda>pre log_n. pre" and stark_verify = "\<lambda>root0 root1 log_n words pf. pf = (root0, root1) \<and> cyclic_sat rv_evaluate root0 root1 (2 ^ log_n)"]
  by (simp add: MAX_QUERIES_def step_px_def)

text \<open>
  The final value of a query is not determined by what the verifier fixes: for any canonical challenges,
  points and composition values, and any canonical final values, there are canonical queries that have them
  all, so the honest builder makes a trace the circuit accepts.
\<close>

lemma rv_accepts_any_final:
  assumes "rv_statement_ok k log_n finals chs" "finals \<noteq> []" "Suc k < 2 ^ 64"
  shows "\<exists>queries cols pre. query_statement queries = chs \<and> recursive_queries_final queries = finals
    \<and> build_trace_multi prof queries log_n = Some (cols, pre) \<and> build_preproc prof finals chs (of_nat k) log_n = Some pre
    \<and> cyclic_sat rv_evaluate pre cols (2 ^ log_n)"
proof -
  note a = assms(1) [unfolded rv_statement_ok_def]
  have "\<exists>x. canon_query k x \<and> (\<lambda>(s, r). query_challenges s r) x = chs ! q \<and> (\<lambda>(s, r). recursive_query_final s r) x = finals ! q"
    if "q < length finals" for q
    using query_for_any_final [of k "chs ! q" "finals ! q"] a that by (simp add: list_all_length)
  then obtain f where f: "\<And>q. q < length finals \<Longrightarrow> canon_query k (f q) \<and> (\<lambda>(s, r). query_challenges s r) (f q) = chs ! q
      \<and> (\<lambda>(s, r). recursive_query_final s r) (f q) = finals ! q" by metis
  let ?queries = "map f [0..<length finals]"
  have "length finals * (1 + k) \<le> 2 ^ log_n" using a by blast
  then have size: "length ?queries * (1 + k) \<le> 2 ^ log_n" by simp
  have q: "list_all (canon_query k) ?queries" "?queries \<noteq> []" using f assms(2) by (simp_all add: list_all_iff)
  have "query_statement ?queries = chs" "recursive_queries_final ?queries = finals"
    using f a by (auto intro!: nth_equalityI simp: query_statement_def recursive_queries_final_def)
  then show ?thesis using rv_trace_complete [OF q size assms(3)] by metis
qed

text \<open>
  C40. When the verifiers panic, in both profiles. The verifier of a batch panics exactly when its own checks
  pass, the proof decodes with two commitments, and the public arguments still do not fit the preprocessed
  columns: a list of challenges is shorter than a block, or is not of its length while debug assertions run, or
  the blocks exceed the rows of \<open>log_size\<close> (as they do for the greatest \<open>num_folds\<close>). The verifier of one
  query checks the lists, and panics exactly when the rows do not fit; for the greatest \<open>num_folds\<close> it panics
  before decoding where an overflow panics, and where it wraps to 0 it panics after the checks, if the lists
  are empty.
\<close>

theorem rv_verify_panics:
  "(verify_recursive_queries prof decode commitments preproc_root stark_verify bytes log_size k chs pxs finals = None \<longleftrightarrow>
      1 \<le> log_size \<and> log_size \<le> 20 \<and> length pxs = length finals \<and> length chs = length finals \<and> finals \<noteq> []
      \<and> (\<exists>pf. decode bytes = Inr pf \<and> 2 \<le> length (commitments pf))
      \<and> ((\<exists>ch\<in>set chs. length (qc_alphas ch) < 1 + unat k \<or> length (qc_invs ch) < 1 + unat k)
        \<or> (prof = Dev \<and> (\<exists>ch\<in>set chs. \<not> (length (qc_alphas ch) = 1 + unat k \<and> length (qc_invs ch) = 1 + unat k)))
        \<or> 2 ^ log_size < length finals * (1 + unat k)))
   \<and> (verify_recursive_query prof decode commitments preproc_root stark_verify bytes log_size k ch px v = None \<longleftrightarrow>
      1 \<le> log_size \<and> log_size \<le> 20
      \<and> (if unat k = 2 ^ 64 - 1
         then prof = Dev \<or> qc_alphas ch = [] \<and> qc_invs ch = [] \<and> (\<exists>pf. decode bytes = Inr pf \<and> 2 \<le> length (commitments pf))
         else length (qc_alphas ch) = 1 + unat k \<and> length (qc_invs ch) = 1 + unat k
           \<and> (\<exists>pf. decode bytes = Inr pf \<and> 2 \<le> length (commitments pf)) \<and> 2 ^ log_size < 1 + unat k))"
proof (rule conjI, goal_cases)
  case 1
  show ?case unfolding verify_queries_None using build_preproc_None [of finals chs log_size prof k] by auto
next
  case 2
  have l: "log_size < 64" if "log_size \<le> 20" using that by simp
  show ?case
  proof (cases rule: one_plus_cases [of k prof])
    case inside
    then have "unat k \<noteq> 2 ^ 64 - 1" by simp
    then show ?thesis
      unfolding verify_query_None inside(2) option.case inside(3) using build_preproc_None [of "[v]" "[ch]" log_size prof k] l by auto
  next
    case overflow
    then show ?thesis unfolding verify_query_None overflow(3) by simp
  next
    case wrapped
    have "2 ^ log_size < 1 + unat k" if "log_size \<le> 20"
      using power_increasing [OF that, of "2 :: nat"] by (simp add: wrapped(1))
    then have "build_preproc prof [v] [ch] k log_size = None" if "log_size \<le> 20"
      using build_preproc_None [of "[v]" "[ch]" log_size prof k] that by simp
    then show ?thesis unfolding verify_query_None wrapped(3) option.case using wrapped by auto
  qed
qed

text \<open>
  The ends of the range: the greatest \<open>num_folds\<close> with empty lists panics in both profiles, under \<open>dev\<close> also with
  bytes that do not decode. A list that is too long panics only under \<open>dev\<close>.
\<close>

lemma rv_verify_panics_witness:
  "verify_recursive_query Release Inr (\<lambda>_ :: unit. [0, 0]) (\<lambda>_ _. 0 :: nat) (\<lambda>_ _ _ _ _. True) () 1 (2 ^ 64 - 1)
     (QueryChallenges.make 0 0 [] [] 0 0) 0 0 = None
   \<and> verify_recursive_query Dev (\<lambda>_. Inl []) (\<lambda>_ :: unit. [0, 0]) (\<lambda>_ _. 0 :: nat) (\<lambda>_ _ _ _ _. True) () 1 (2 ^ 64 - 1)
     (QueryChallenges.make 0 0 [] [] 0 0) 0 0 = None
   \<and> verify_recursive_queries Dev Inr (\<lambda>_ :: unit. [0, 0]) (\<lambda>_ _. 0 :: nat) (\<lambda>_ _ _ _ _. True) () 1 0
     [QueryChallenges.make 0 0 [0, 0] [0, 0] 0 0] [0] [0] = None
   \<and> verify_recursive_queries Release Inr (\<lambda>_ :: unit. [0, 0]) (\<lambda>_ _. 0 :: nat) (\<lambda>_ _ _ _ _. True) () 1 0
     [QueryChallenges.make 0 0 [0, 0] [0, 0] 0 0] [0] [0] \<noteq> None"
  by (simp add: rv_verify_panics QueryChallenges.make_def)

end
