(* ===== verification/Circuit_Poseidon.thy ===== *)
theory Circuit_Poseidon
  imports Merkle_Paths Circuit_Base
begin

text \<open>
  The circuit of one compression of width 8 (\<open>recursive/poseidon2_t8_air.rs\<close>): one round of the permutation
  per row. The cells of a row are the state before the round, the squares and fifth powers of the state plus
  constants, and the state after the linear layer. The circuit of a Merkle path (\<open>Circuit_Path\<close>) repeats the
  same rounds.
\<close>

section \<open>Linear layers as expressions\<close>

definition m4_expr :: "'f::comm_ring_1 list \<Rightarrow> 'f list" where
  "m4_expr s =
     [s ! 0 * 5 + s ! 1 * 7 + s ! 2 * 1 + s ! 3 * 3,
      s ! 0 * 4 + s ! 1 * 6 + s ! 2 * 1 + s ! 3 * 1,
      s ! 0 * 1 + s ! 1 * 3 + s ! 2 * 5 + s ! 3 * 7,
      s ! 0 * 1 + s ! 1 * 1 + s ! 2 * 4 + s ! 3 * 6]"

definition mat_external_expr :: "'f::comm_ring_1 list \<Rightarrow> 'f list" where
  "mat_external_expr a =
     (let v0 = m4_expr [a ! 0, a ! 1, a ! 2, a ! 3]; v1 = m4_expr [a ! 4, a ! 5, a ! 6, a ! 7]
      in map (\<lambda>k. v0 ! k * 2 + v1 ! k) [0..<4] @ map (\<lambda>k. v0 ! k + v1 ! k * 2) [0..<4])"

definition mat_internal_expr :: "'f::comm_ring_1 list \<Rightarrow> 'f list" where
  "mat_internal_expr a =
     (let sum = foldl (\<lambda>sum j. sum + a ! j) (a ! 0) [1..<8]
      in map (\<lambda>i. sum + a ! i * of_nat (i + 1)) [0..<8])"

section \<open>Constraints\<close>

text \<open>The constraints of a round, on every row.\<close>

definition round_constraints :: "'f::comm_ring_1 list \<Rightarrow> 'f \<Rightarrow> 'f \<Rightarrow> 'f list \<Rightarrow> 'f list \<Rightarrow> 'f list \<Rightarrow> 'f list \<Rightarrow> 'f list" where
  "round_constraints rc is_ext is_int inp sq sbx out =
     (let y = map (\<lambda>i. inp ! i + rc ! i) [0..<8];
          sb_ext = map (\<lambda>i. sbx ! i) [0..<8];
          sb_int = map (\<lambda>i. if i = 0 then sbx ! 0 else inp ! i) [0..<8];
          me = mat_external_expr sb_ext; mi = mat_internal_expr sb_int
      in map (\<lambda>i. sq ! i - y ! i * y ! i) [0..<8]
         @ map (\<lambda>i. sbx ! i - sq ! i * sq ! i * y ! i) [0..<8]
         @ map (\<lambda>i. out ! i - (is_ext * me ! i + is_int * mi ! i)) [0..<8])"

definition compress_evaluate :: "'f::comm_ring_1 list \<Rightarrow> 'f list \<Rightarrow> 'f list \<Rightarrow> 'f list" where
  "compress_evaluate pre row prev =
     (let rc = cells pre 0 8; is_ext = pre ! 8; is_int = pre ! 9; is_first = pre ! 10; raw_pin = cells pre 11 8;
          node_pin = cells pre 19 4; is_node = pre ! 23;
          inp = cells row 0 8; sq = cells row 8 8; sbx = cells row 16 8; out = cells row 24 8; out_prev = cells prev 24 8;
          raw = cells row 32 8;
          me_raw = mat_external_expr raw
      in round_constraints rc is_ext is_int inp sq sbx out
         @ map (\<lambda>i. inp ! i - (is_first * me_raw ! i + (1 - is_first) * out_prev ! i)) [0..<8]
         @ map (\<lambda>i. is_first * (raw ! i - raw_pin ! i)) [0..<8]
         @ map (\<lambda>k. is_node * (out ! k - node_pin ! k)) [0..<4])"

section \<open>Rounds, preprocessed columns and traces\<close>

definition R_P_T8 :: nat where "R_P_T8 = 14"
definition N_REAL_ROWS :: nat where "N_REAL_ROWS = R_F + R_P_T8"

definition round_schedule :: "nat \<Rightarrow> bool \<times> u64 list" where
  "round_schedule row =
     (let rc = replicate 8 0
      in if row < R_F div 2 then (True, map (\<lambda>i. ucast (K_RC_t8 ! (8 * row + i))) [0..<8])
         else if row < R_F div 2 + R_P_T8 then
           (let j = row - R_F div 2 in (False, rc[0 := ucast (K_RC_t8 ! (8 * R_F + j))]))
         else
           (let r = R_F div 2 + (row - R_F div 2 - R_P_T8) in (True, map (\<lambda>i. ucast (K_RC_t8 ! (8 * r + i))) [0..<8])))"

text \<open>\<open>BaseField::from_u32_unchecked((v % M31_P) as u32)\<close>.\<close>

definition m31_cell :: "u64 \<Rightarrow> int" where
  "m31_cell v = uint (ucast (v mod M31_P) :: u32)"

definition round_cells :: "bool \<times> u64 list \<Rightarrow> u64 list \<Rightarrow> u64 list \<times> u64 list \<times> u64 list" where
  "round_cells sched inp =
     (let (is_ext, rc) = sched;
          sq = map (\<lambda>i. let y = m31_add (inp ! i) (rc ! i) in m31_mul y y) [0..<8];
          sbx = map (\<lambda>i. sbox (m31_add (inp ! i) (rc ! i))) [0..<8];
          lin = (if is_ext then mat_external_t8 sbx else mat_internal_t8 (inp[0 := sbx ! 0]))
      in (sq, sbx, lin))"

text \<open>The 22 rows of a compression from the state after the first layer; \<open>rest r\<close> are the other cells of row \<open>r\<close>.\<close>

definition perm_loop :: "(nat \<Rightarrow> int list) \<Rightarrow> u64 list \<Rightarrow> int list list \<times> u64 list" where
  "perm_loop rest state =
     foldl (\<lambda>(rows, inp) row. let (sq, sbx, out) = round_cells (round_schedule row) inp
              in (rows @ [map m31_cell inp @ map m31_cell sq @ map m31_cell sbx @ map m31_cell out @ rest row], out))
       ([], state) [0..<N_REAL_ROWS]"

text \<open>Padding: the first row chains from the last state, then everything is zero.\<close>

fun pad_loop :: "nat \<Rightarrow> nat \<Rightarrow> u64 list \<Rightarrow> int list list" where
  "pad_loop w 0 state = []"
| "pad_loop w (Suc k) state =
     (map m31_cell state @ map (\<lambda>x. m31_cell (m31_mul x x)) state @ map (\<lambda>x. m31_cell (sbox x)) state @ replicate (8 + w) 0)
     # pad_loop w k (replicate 8 0)"

definition compress_build_trace :: "u64 list \<Rightarrow> u64 list \<Rightarrow> nat \<Rightarrow> (int list list \<times> u64 list) option" where
  "compress_build_trace left right log_size =
     (let n = 2 ^ log_size;
          raw = map (\<lambda>k. left ! k mod M31_P) [0..<4] @ map (\<lambda>k. right ! k mod M31_P) [0..<4];
          (rows, state) = perm_loop (\<lambda>row. if row = 0 then map m31_cell raw else replicate 8 0) (mat_external_t8 raw);
          node = map ((!) state) [0..<4]
      in if N_REAL_ROWS \<le> n then Some (columns 40 (rows @ pad_loop 8 (n - N_REAL_ROWS) state), node) else None)"

definition compress_preproc_row :: "u64 list \<Rightarrow> u64 list \<Rightarrow> u64 list \<Rightarrow> nat \<Rightarrow> int list" where
  "compress_preproc_row left right node row =
     (let (is_ext, rc) = round_schedule row
      in map m31_cell rc @ [flag is_ext, flag (\<not> is_ext), flag (row = 0)]
         @ (if row = 0 then map (\<lambda>i. m31_cell (left ! i)) [0..<4] @ map (\<lambda>i. m31_cell (right ! i)) [0..<4] else replicate 8 0)
         @ (if row = N_REAL_ROWS - 1 then map (\<lambda>k. m31_cell (node ! k)) [0..<4] else replicate 4 0)
         @ [flag (row = N_REAL_ROWS - 1)])"

definition compress_build_preproc :: "u64 list \<Rightarrow> u64 list \<Rightarrow> u64 list \<Rightarrow> nat \<Rightarrow> int list list" where
  "compress_build_preproc left right node log_size =
     (let n = 2 ^ log_size
      in columns 24 (map (compress_preproc_row left right node) [0..<min N_REAL_ROWS n] @ replicate (n - N_REAL_ROWS) (replicate 24 0)))"

section \<open>Expressions and layers\<close>

lemma m4_expr_uint:
  assumes "wf_state 4 [a, b, c, d]" "k < 4"
  shows "m4_expr [uint a, uint b, uint c, uint d] ! k mod P31 = uint (m4 [a, b, c, d] ! k)"
proof -
  have c: "canon a" "canon b" "canon c" "canon d" using assms(1) by (simp_all add: wf_state_4)
  have l: "length (m4 [a, b, c, d]) = 4" using m4_wf [OF assms(1)] by (simp add: wf_state_def)
  have "uint (m4 [a, b, c, d] ! k) = map uint (m4 [a, b, c, d]) ! k" using l assms(2) by simp
  also have "\<dots> = m4_expr [uint a, uint b, uint c, uint d] ! k mod P31"
    using assms(2) by (auto simp: m4_uint [OF c] m4_expr_def algebra_simps dest!: less4)
  finally show ?thesis by simp
qed

lemma less8: "(i::nat) < 8 \<Longrightarrow> i < 4 \<or> (\<exists>k<4. i = 4 + k)"
  by presburger

lemma mat_external_expr_uint:
  assumes "wf_state 8 s" "i < 8"
  shows "mat_external_expr (map uint s) ! i mod P31 = uint (mat_external_t8 s ! i)"
proof -
  define v where "v b = m4 (blk b s)" for b
  have w: "wf_state 4 (blk 0 s)" "wf_state 4 (blk 1 s)" using assms(1) by (auto intro!: blk_wf)
  have c: "canon (v 0 ! k)" "canon (v 1 ! k)" if "k < 4" for k
    using m4_wf [OF w(1)] m4_wf [OF w(2)] that by (simp_all add: v_def wf_state_nth)
  let ?e = "\<lambda>b. m4_expr [uint (s ! (4 * b)), uint (s ! (4 * b + 1)), uint (s ! (4 * b + 2)), uint (s ! (4 * b + 3))]"
  have e: "uint (v 0 ! k) = ?e 0 ! k mod P31" "uint (v 1 ! k) = ?e 1 ! k mod P31" if "k < 4" for k
    using m4_expr_uint [OF w(1) [unfolded blk_def] that] m4_expr_uint [OF w(2) [unfolded blk_def] that] by (simp_all add: v_def blk_def)
  have l: "length s = 8" using assms(1) by (simp add: wf_state_def)
  have m: "(a mod P31 + (a mod P31 + b mod P31)) mod P31 = (a * 2 + b) mod P31"
    "(b mod P31 + (a mod P31 + b mod P31)) mod P31 = (a + b * 2) mod P31" for a b
  proof -
    have s: "a * 2 + b = a + (a + b)" "a + b * 2 = b + (a + b)" by simp_all
    show "(a mod P31 + (a mod P31 + b mod P31)) mod P31 = (a * 2 + b) mod P31"
      "(b mod P31 + (a mod P31 + b mod P31)) mod P31 = (a + b * 2) mod P31"
      unfolding s by (intro mod_add_cong mod_mod_trivial)+
  qed
  have x: "mat_external_expr (map uint s) = map (\<lambda>k. ?e 0 ! k * 2 + ?e 1 ! k) [0..<4] @ map (\<lambda>k. ?e 0 ! k + ?e 1 ! k * 2) [0..<4]"
    using l by (simp add: mat_external_expr_def Let_def numeral_2_eq_2)
  have y: "mat_external_t8 s = map (\<lambda>k. m31_add (v 0 ! k) (m31_add (v 0 ! k) (v 1 ! k))) [0..<4]
     @ map (\<lambda>k. m31_add (v 1 ! k) (m31_add (v 0 ! k) (v 1 ! k))) [0..<4]"
    by (simp add: mat_external_t8_eq v_def)
  show ?thesis
    using less8 [OF assms(2)]
  proof
    assume k: "i < 4"
    have "uint (mat_external_t8 s ! i) = (uint (v 0 ! i) + (uint (v 0 ! i) + uint (v 1 ! i))) mod P31"
      using k c [OF k] by (simp add: y nth_append add2_uint)
    also have "\<dots> = (?e 0 ! i * 2 + ?e 1 ! i) mod P31" unfolding e [OF k] by (rule m)
    finally show ?thesis using k by (simp add: x nth_append)
  next
    assume "\<exists>k<4. i = 4 + k"
    then obtain k where k: "k < 4" "i = 4 + k" by blast
    have "uint (mat_external_t8 s ! i) = (uint (v 1 ! k) + (uint (v 0 ! k) + uint (v 1 ! k))) mod P31"
      using k c [OF k(1)] by (simp add: y nth_append add2_uint)
    also have "\<dots> = (?e 0 ! k + ?e 1 ! k * 2) mod P31" unfolding e [OF k(1)] by (rule m)
    finally show ?thesis using k by (simp add: x nth_append)
  qed
qed

lemma mat_internal_expr_uint:
  assumes "wf_state 8 s" "i < 8"
  shows "mat_internal_expr (map uint s) ! i mod P31 = uint (mat_internal_t8 s ! i)"
proof -
  have l: "length s = 8" using assms(1) by (simp add: wf_state_def)
  have "foldl (\<lambda>sum j. sum + map uint s ! j) (map uint s ! 0) [1..<8] = (\<Sum>j<8. uint (s ! j))"
    using l by (simp add: upt_rec [of 1] upt_rec [of "Suc _"] numeral_eq_Suc)
  then have "mat_internal_expr (map uint s) ! i = (\<Sum>j<8. uint (s ! j)) + uint (s ! i) * int (i + 1)"
    using l assms(2) by (simp add: mat_internal_expr_def Let_def)
  then show ?thesis unfolding mat_internal_t8_def mat_internal_wide_uint [OF assms] by (simp add: mult.commute)
qed
section \<open>Rounds\<close>

text \<open>The words that field cells hold.\<close>

definition words :: "int list \<Rightarrow> nat \<Rightarrow> nat \<Rightarrow> u64 list" where
  "words row a n = map word_of_int (cells row a n)"

lemma words_facts:
  assumes "cells_ok row" "a + n \<le> length row"
  shows "wf_state n (words row a n)" "map uint (words row a n) = cells row a n"
proof -
  have c: "0 \<le> x \<and> x < P31" if "x \<in> set (cells row a n)" for x
    using cells_ok_cells [OF assms] that by (auto simp: cells_ok_def)
  have w: "uint (word_of_int x :: u64) = x" if "x \<in> set (cells row a n)" for x
    using c [OF that] by (simp add: uint_word_of_int_eq take_bit_eq_mod P31_def)
  show "map uint (words row a n) = cells row a n" using w by (simp add: words_def map_idI)
  show "wf_state n (words row a n)" using w c by (auto simp: wf_state_def words_def canon_uint)
qed

lemma words_eqI: "cells row a n = map uint w \<Longrightarrow> words row a n = w"
  by (simp add: words_def o_def)

lemma cell_iff: "canon x \<Longrightarrow> (uint x - e) mod P31 = 0 \<longleftrightarrow> uint x = e mod P31"
  unfolding mod_eq_0_iff_dvd mod_eq_dvd_iff [symmetric] by (simp add: canon_uint)

lemma canon_eq_iff: "x = y \<longleftrightarrow> uint x = uint y" for x y :: u64
  by (rule word_uint_eq_iff)

lemma round_schedule_wf:
  assumes "r < N_REAL_ROWS"
  shows "wf_state 8 (snd (round_schedule r))"
proof -
  have c: "canon (ucast (K_RC_t8 ! i))" if "i < 78" for i using that by (rule K_RC_t8_canon)
  have f: "wf_state 8 (map (\<lambda>i. ucast (K_RC_t8 ! (8 * k + i))) [0..<8])" if "k < 8" for k
    using that by (auto simp: wf_state_def intro!: c)
  have p: "wf_state 8 ((replicate 8 0)[0 := ucast (K_RC_t8 ! i)])" if "i < 78" for i
    using c [OF that] canon_zero by (simp add: wf_state_def numeral_eq_Suc)
  show ?thesis using assms by (auto simp: round_schedule_def Let_def N_REAL_ROWS_def R_F_def R_P_T8_def intro!: f p)
qed

lemma round_cells_wf:
  assumes "wf_state 8 s" "wf_state 8 (snd sched)" "round_cells sched s = (q, b, t)"
  shows "wf_state 8 q" "wf_state 8 b" "wf_state 8 t"
proof -
  obtain e rc where sc: "sched = (e, rc)" by (cases sched)
  have c: "canon (s ! i)" "canon (rc ! i)" if "i < 8" for i using assms(1,2) that by (simp_all add: sc wf_state_nth)
  have q: "q = map (\<lambda>i. let y = m31_add (s ! i) (rc ! i) in m31_mul y y) [0..<8]" and b: "b = map (\<lambda>i. sbox (m31_add (s ! i) (rc ! i))) [0..<8]"
    and t: "t = (if e then mat_external_t8 b else mat_internal_t8 (s[0 := b ! 0]))"
    using assms(3) by (auto simp: round_cells_def sc Let_def)
  show "wf_state 8 q" using c by (auto simp: q wf_state_def Let_def canon_ops)
  show wb: "wf_state 8 b" using c by (auto simp: b wf_state_def canon_ops)
  have "wf_state 8 (s[0 := b ! 0])" using assms(1) wf_state_nth [OF wb, of 0] set_update_subset_insert [of s 0 "b ! 0"]
    by (auto simp: wf_state_def)
  then show "wf_state 8 t" using wb by (simp add: t mat_external_t8_wf mat_internal_t8_def mat_internal_wide_wf)
qed

text \<open>The constraints of a round hold exactly when the cells are those of the round; without selector the output is zero.\<close>

lemma round_iff_gen:
  assumes w: "wf_state 8 s" "wf_state 8 rc" "wf_state 8 q" "wf_state 8 b" "wf_state 8 t" and ei: "\<not> (e \<and> g)"
  shows "(\<forall>c\<in>set (round_constraints (map uint rc) (flag e) (flag g) (map uint s) (map uint q) (map uint b) (map uint t)). c mod P31 = 0)
    \<longleftrightarrow> q = map (\<lambda>i. let y = m31_add (s ! i) (rc ! i) in m31_mul y y) [0..<8] \<and> b = map (\<lambda>i. sbox (m31_add (s ! i) (rc ! i))) [0..<8]
      \<and> t = (if e then mat_external_t8 b else if g then mat_internal_t8 (s[0 := b ! 0]) else replicate 8 0)"
proof -
  have l: "length s = 8" "length rc = 8" "length q = 8" "length b = 8" "length t = 8" using w by (simp_all add: wf_state_def)
  define y where "y i = m31_add (s ! i) (rc ! i)" for i
  have cy: "canon (y i)" "uint (y i) = (uint (s ! i) + uint (rc ! i)) mod P31" if "i < 8" for i
    using wf_state_nth [OF w(1) that] wf_state_nth [OF w(2) that] by (simp_all add: y_def canon_ops) (simp add: canon_uint m31_add_uint)
  have mul: "uint (m31_mul x x') = uint x * uint x' mod P31" if "canon x" "canon x'" for x x'
    using that by (simp add: canon_uint m31_mul_uint)
  have Q: "(\<forall>c\<in>set (map (\<lambda>i. map uint q ! i - (map uint s ! i + map uint rc ! i) * (map uint s ! i + map uint rc ! i)) [0..<8]). c mod P31 = 0)
      \<longleftrightarrow> q = map (\<lambda>i. let y = m31_add (s ! i) (rc ! i) in m31_mul y y) [0..<8]"
  proof -
    have "(uint (q ! i) - (uint (s ! i) + uint (rc ! i)) * (uint (s ! i) + uint (rc ! i))) mod P31 = 0 \<longleftrightarrow> q ! i = m31_mul (y i) (y i)"
      if "i < 8" for i
      using cy [OF that] wf_state_nth [OF w(3) that] by (simp add: cell_iff canon_eq_iff mul mod_simps)
    then show ?thesis using l by (auto simp: list_eq_iff_nth_eq Let_def y_def)
  qed
  have B: "(\<forall>c\<in>set (map (\<lambda>i. map uint b ! i - map uint q ! i * map uint q ! i * (map uint s ! i + map uint rc ! i)) [0..<8]). c mod P31 = 0)
      \<longleftrightarrow> b = map (\<lambda>i. sbox (m31_add (s ! i) (rc ! i))) [0..<8]" if q: "q = map (\<lambda>i. let y = m31_add (s ! i) (rc ! i) in m31_mul y y) [0..<8]"
  proof -
    have "(uint (b ! i) - uint (q ! i) * uint (q ! i) * (uint (s ! i) + uint (rc ! i))) mod P31 = 0 \<longleftrightarrow> b ! i = sbox (y i)"
      if i: "i < 8" for i
    proof -
      have q': "q ! i = m31_mul (y i) (y i)" using i by (simp add: q Let_def y_def)
      have "uint (sbox (y i)) = uint (q ! i) * uint (q ! i) mod P31 * uint (y i) mod P31"
        unfolding q' sbox_def Let_def using cy(1) [OF i] by (simp only: mul canon_ops)
      also have "\<dots> = uint (q ! i) * uint (q ! i) * (uint (s ! i) + uint (rc ! i)) mod P31" unfolding cy(2) [OF i] by (simp add: mod_simps)
      finally show ?thesis using wf_state_nth [OF w(4) i] by (simp only: cell_iff canon_eq_iff)
    qed
    then show ?thesis using l by (auto simp: list_eq_iff_nth_eq y_def)
  qed
  have mb: "map (\<lambda>i. map uint b ! i) [0..<8] = map uint b" "map (\<lambda>i. if i = 0 then map uint b ! 0 else map uint s ! i) [0..<8] = map uint (s[0 := b ! 0])"
    using l by (auto simp: list_eq_iff_nth_eq nth_list_update)
  have ws: "wf_state 8 (s[0 := b ! 0])" using w(1) wf_state_nth [OF w(4), of 0] set_update_subset_insert [of s 0 "b ! 0"]
    by (auto simp: wf_state_def)
  have T: "(\<forall>c\<in>set (map (\<lambda>i. map uint t ! i - (flag e * mat_external_expr (map uint b) ! i + flag g * mat_internal_expr (map uint (s[0 := b ! 0])) ! i)) [0..<8]). c mod P31 = 0)
      \<longleftrightarrow> t = (if e then mat_external_t8 b else if g then mat_internal_t8 (s[0 := b ! 0]) else replicate 8 0)"
  proof -
    have lt: "length (mat_external_t8 b) = 8" "length (mat_internal_t8 (s[0 := b ! 0])) = 8"
      using mat_external_t8_wf [OF w(4)] mat_internal_wide_wf [OF ws] by (simp_all add: wf_state_def mat_internal_t8_def)
    have "(uint (t ! j) - (flag e * mat_external_expr (map uint b) ! j + flag g * mat_internal_expr (map uint (s[0 := b ! 0])) ! j)) mod P31 = 0
        \<longleftrightarrow> t ! j = (if e then mat_external_t8 b else if g then mat_internal_t8 (s[0 := b ! 0]) else replicate 8 0) ! j" if "j < 8" for j
      using wf_state_nth [OF w(5) that] mat_external_expr_uint [OF w(4) that] mat_internal_expr_uint [OF ws that] ei that
      by (cases e; cases g) (simp_all only: flag_def if_True if_False mult_1 mult_zero_left add_0 add_0_right cell_iff canon_eq_iff simp_thms, simp)
    then show ?thesis using l lt by (auto simp: list_eq_iff_nth_eq)
  qed
  have yy: "map (\<lambda>i. map uint s ! i + map uint rc ! i) [0..<8] ! i = map uint s ! i + map uint rc ! i" if "i < 8" for i using that by simp
  have C: "set (round_constraints (map uint rc) (flag e) (flag g) (map uint s) (map uint q) (map uint b) (map uint t))
      = set (map (\<lambda>i. map uint q ! i - (map uint s ! i + map uint rc ! i) * (map uint s ! i + map uint rc ! i)) [0..<8])
        \<union> (set (map (\<lambda>i. map uint b ! i - map uint q ! i * map uint q ! i * (map uint s ! i + map uint rc ! i)) [0..<8])
        \<union> set (map (\<lambda>i. map uint t ! i - (flag e * mat_external_expr (map uint b) ! i + flag g * mat_internal_expr (map uint (s[0 := b ! 0])) ! i)) [0..<8]))"
    unfolding round_constraints_def Let_def mb set_append using yy by (intro arg_cong2 [of _ _ _ _ "(\<union>)"] refl) (auto simp: image_def)
  show ?thesis unfolding C ball_Un Q T using B by blast
qed

lemma round_iff:
  assumes "wf_state 8 s" "wf_state 8 rc" "wf_state 8 q" "wf_state 8 b" "wf_state 8 t"
  shows "(\<forall>c\<in>set (round_constraints (map uint rc) (flag e) (flag (\<not> e)) (map uint s) (map uint q) (map uint b) (map uint t)). c mod P31 = 0)
    \<longleftrightarrow> round_cells (e, rc) s = (q, b, t)"
  unfolding round_iff_gen [OF assms, of e "\<not> e", simplified] by (auto simp: round_cells_def Let_def)

text \<open>On a padding row there are no constants and the output is zero.\<close>

lemma round_pad_iff:
  assumes "wf_state 8 s" "wf_state 8 q" "wf_state 8 b" "wf_state 8 t"
  shows "(\<forall>c\<in>set (round_constraints (replicate 8 0) 0 0 (map uint s) (map uint q) (map uint b) (map uint t)). c mod P31 = 0)
    \<longleftrightarrow> q = map (\<lambda>x. m31_mul x x) s \<and> b = map sbox s \<and> t = replicate 8 0"
proof -
  have z: "wf_state 8 (replicate 8 (0 :: u64))" "map uint (replicate 8 (0 :: u64)) = replicate 8 0" "flag False = 0"
    using canon_zero by (simp_all add: wf_state_def flag_def)
  have a: "m31_add x 0 = x" if "canon x" for x using that by (simp add: canon_eq_iff m31_add_uint canon_uint)
  have "map (\<lambda>i. let y = m31_add (s ! i) (replicate 8 0 ! i) in m31_mul y y) [0..<8] = map (\<lambda>x. m31_mul x x) s"
    "map (\<lambda>i. sbox (m31_add (s ! i) (replicate 8 0 ! i))) [0..<8] = map sbox s"
    using assms(1) wf_state_nth [OF assms(1)] by (auto simp: list_eq_iff_nth_eq wf_state_def a Let_def)
  then show ?thesis using round_iff_gen [OF assms(1) z(1) assms(2-4), of False False] unfolding z(2,3) by simp
qed

text \<open>The permutation is the sequence of the 22 rounds.\<close>

definition round_state :: "u64 list \<Rightarrow> nat \<Rightarrow> u64 list" where
  "round_state s r = snd (snd (round_cells (round_schedule r) s))"

definition state_at :: "u64 list \<Rightarrow> nat \<Rightarrow> u64 list" where
  "state_at s r = foldl round_state s [0..<r]"

lemma state_at_simps [simp]: "state_at s 0 = s" "state_at s (Suc r) = round_state (state_at s r) r"
  by (simp_all add: state_at_def)

lemma round_state_wf: "wf_state 8 s \<Longrightarrow> r < N_REAL_ROWS \<Longrightarrow> wf_state 8 (round_state s r)"
  using round_cells_wf [OF _ round_schedule_wf] by (metis prod.collapse round_state_def)

lemma state_at_wf: "wf_state 8 s \<Longrightarrow> r \<le> N_REAL_ROWS \<Longrightarrow> wf_state 8 (state_at s r)"
  by (induction r) (simp_all add: round_state_wf)

lemma update_0: "s[0 := f ((s[0 := a]) ! 0)] = s[0 := f a]"
  by (cases s) simp_all

lemma round_state_full: "r < 4 \<Longrightarrow> round_state s r = p2_full_round mat_external_t8 8 K_RC_t8 s r"
  "4 \<le> k \<Longrightarrow> k < 8 \<Longrightarrow> round_state s (k + 14) = p2_full_round mat_external_t8 8 K_RC_t8 s k"
  by (auto simp: round_state_def round_schedule_def round_cells_def p2_full_round_def R_F_def R_P_T8_def Let_def
      intro!: arg_cong [of _ _ mat_external_t8])

lemma round_state_partial: "j < 14 \<Longrightarrow> round_state s (j + 4) = p2_partial_round mat_internal_t8 (8 * R_F) K_RC_t8 s j"
  by (simp add: round_state_def round_schedule_def round_cells_def p2_partial_round_def R_F_def R_P_T8_def Let_def update_0 add.commute)

lemma permute_rounds: "state_at (mat_external_t8 s) N_REAL_ROWS = permute_t8 s"
proof -
  have u: "[0..<N_REAL_ROWS] = [0..<4] @ map (\<lambda>j. j + 4) [0..<14] @ map (\<lambda>k. k + 14) [4..<8]"
    by (simp add: N_REAL_ROWS_def R_F_def R_P_T8_def map_add_upt upt_conv_Cons)
  have a: "foldl round_state x [0..<4] = foldl (p2_full_round mat_external_t8 8 K_RC_t8) x [0..<4]" for x
    by (rule foldl_cong) (simp_all add: round_state_full)
  have b: "foldl round_state x (map (\<lambda>j. j + 4) [0..<14]) = foldl (p2_partial_round mat_internal_t8 (8 * R_F) K_RC_t8) x [0..<14]" for x
    unfolding foldl_map by (rule foldl_cong) (simp_all add: round_state_partial)
  have c: "foldl round_state x (map (\<lambda>k. k + 14) [4..<8]) = foldl (p2_full_round mat_external_t8 8 K_RC_t8) x [4..<8]" for x
    unfolding foldl_map by (rule foldl_cong [OF refl refl], rule round_state_full(2)) auto
  have "R_F div 2 = 4" "R_F = 8" by (simp_all add: R_F_def)
  then show ?thesis unfolding state_at_def u foldl_append a b c permute_t8_def p2_permute_def Let_def by simp
qed

text \<open>The cells of a row with the state before it, and the rows of the loop.\<close>

definition perm_row :: "(nat \<Rightarrow> int list) \<Rightarrow> bool \<times> u64 list \<Rightarrow> u64 list \<Rightarrow> nat \<Rightarrow> int list" where
  "perm_row rest sched s r = (let (q, b, t) = round_cells sched s
     in map m31_cell s @ map m31_cell q @ map m31_cell b @ map m31_cell t @ rest r)"

lemma perm_loop_rows:
  "perm_loop rest s = (map (\<lambda>r. perm_row rest (round_schedule r) (state_at s r) r) [0..<N_REAL_ROWS], state_at s N_REAL_ROWS)"
proof -
  have "foldl (\<lambda>(rows, inp) row. let (sq, sbx, out) = round_cells (round_schedule row) inp
              in (rows @ [map m31_cell inp @ map m31_cell sq @ map m31_cell sbx @ map m31_cell out @ rest row], out)) ([], s) [0..<n]
     = (map (\<lambda>r. perm_row rest (round_schedule r) (state_at s r) r) [0..<n], state_at s n)" for n
    by (induction n) (simp_all add: perm_row_def round_state_def Let_def split_beta)
  then show ?thesis by (simp add: perm_loop_def)
qed

lemma m31_cell_canon: "canon v \<Longrightarrow> m31_cell v = uint v"
proof -
  assume v: "canon v"
  then have "uint v < 2 ^ 32" by (simp add: canon_uint P31_def)
  then show ?thesis using v by (simp add: m31_cell_def canon_mod_id ucast_down_uint)
qed

lemma map_m31_cell: "wf_state n s \<Longrightarrow> map m31_cell s = map uint s"
  by (auto simp: wf_state_def m31_cell_canon)

lemma uint_cells_ok: "wf_state n s \<Longrightarrow> cells_ok (map uint s)"
  by (auto simp: wf_state_def cells_ok_def canon_uint)

lemma perm_row_facts:
  fixes e :: bool
  assumes s: "wf_state 8 s" "wf_state 8 rc" "length (rest r) = w" "cells_ok (rest r)"
  defines "row \<equiv> perm_row rest (e, rc) s r"
  shows "length row = 32 + w" "cells_ok row" "words row 0 8 = s"
    "round_cells (e, rc) s = (words row 8 8, words row 16 8, words row 24 8)" "cells row 32 w = rest r"
proof -
  obtain q b t where c: "round_cells (e, rc) s = (q, b, t)" by (metis prod_cases3)
  have wf: "wf_state 8 q" "wf_state 8 b" "wf_state 8 t" using round_cells_wf [OF s(1) _ c] s(2) by simp_all
  have row: "row = map uint s @ map uint q @ map uint b @ map uint t @ rest r"
    by (simp add: row_def perm_row_def c map_m31_cell [OF s(1)] map_m31_cell [OF wf(1)] map_m31_cell [OF wf(2)] map_m31_cell [OF wf(3)])
  have l: "length s = 8" "length q = 8" "length b = 8" "length t = 8" using s(1) wf by (simp_all add: wf_state_def)
  show "length row = 32 + w" using l s(3) by (simp add: row)
  show "cells_ok row" unfolding row row_sat_simps using s(1,4) wf uint_cells_ok by blast
  show "words row 0 8 = s" by (rule words_eqI) (use l in \<open>simp add: row cells_take\<close>)
  have "words row 8 8 = q" "words row 16 8 = b" "words row 24 8 = t" by (rule words_eqI, use l in \<open>simp add: row cells_take\<close>)+
  then show "round_cells (e, rc) s = (words row 8 8, words row 16 8, words row 24 8)" by (simp add: c)
  show "cells row 32 w = rest r" using l s(3) by (simp add: row cells_take)
qed

section \<open>Constraints between rows\<close>

lemma in_iff:
  assumes "wf_state 8 s" "wf_state 8 r" "wf_state 8 p"
  shows "(\<forall>c\<in>set (map (\<lambda>i. map uint s ! i - (flag f * mat_external_expr (map uint r) ! i + (1 - flag f) * map uint p ! i)) [0..<8]). c mod P31 = 0)
    \<longleftrightarrow> s = (if f then mat_external_t8 r else p)"
proof -
  have l: "length s = 8" "length p = 8" "length (mat_external_t8 r) = 8" using assms mat_external_t8_wf [OF assms(2)] by (simp_all add: wf_state_def)
  have "(map uint s ! i - (flag f * mat_external_expr (map uint r) ! i + (1 - flag f) * map uint p ! i)) mod P31 = 0
      \<longleftrightarrow> s ! i = (if f then mat_external_t8 r else p) ! i" if "i < 8" for i
  proof -
    have c: "canon (s ! i)" "uint (p ! i) mod P31 = uint (p ! i)"
      using wf_state_nth [OF assms(1) that] wf_state_nth [OF assms(3) that] by (simp_all add: canon_uint)
    have n: "map uint s ! i = uint (s ! i)" "map uint p ! i = uint (p ! i)" using l that by simp_all
    show ?thesis
    proof (cases f)
      case True
      then show ?thesis unfolding n cell_iff [OF c(1)]
        using mat_external_expr_uint [OF assms(2) that] canon_eq_iff [of "s ! i" "mat_external_t8 r ! i"] by (simp add: flag_def)
    next
      case False
      then show ?thesis unfolding n cell_iff [OF c(1)] using c(2) canon_eq_iff [of "s ! i" "p ! i"] by (simp add: flag_def)
    qed
  qed
  then show ?thesis using l by (auto simp: list_eq_iff_nth_eq)
qed

lemma pin_iff:
  assumes "wf_state n a" "wf_state n b"
  shows "(\<forall>c\<in>set (map (\<lambda>i. flag f * (map uint a ! i - map uint b ! i)) [0..<n]). c mod P31 = 0) \<longleftrightarrow> (f \<longrightarrow> a = b)"
proof -
  have l: "length a = n" "length b = n" using assms by (simp_all add: wf_state_def)
  have "(map uint a ! i - map uint b ! i) mod P31 = 0 \<longleftrightarrow> a ! i = b ! i" if "i < n" for i
  proof -
    have c: "canon (a ! i)" "uint (b ! i) mod P31 = uint (b ! i)"
      using wf_state_nth [OF assms(1) that] wf_state_nth [OF assms(2) that] by (simp_all add: canon_uint)
    have n: "map uint a ! i = uint (a ! i)" "map uint b ! i = uint (b ! i)" using l that by simp_all
    show ?thesis unfolding n cell_iff [OF c(1)] c(2) by (rule canon_eq_iff [symmetric])
  qed
  then have e: "(\<forall>i<n. (map uint a ! i - map uint b ! i) mod P31 = 0) \<longleftrightarrow> a = b" using l by (metis nth_equalityI)
  have s: "(\<forall>c\<in>set (map h [0..<n]). P c) \<longleftrightarrow> (\<forall>i<n. P (h i))" for h :: "nat \<Rightarrow> int" and P by auto
  show ?thesis
  proof (cases f)
    case True
    then show ?thesis unfolding s flag_def using e by (simp only: if_True mult_1 True simp_thms)
  qed (simp add: flag_def)
qed
section \<open>One compression\<close>

definition round_ok :: "int list \<Rightarrow> int list \<Rightarrow> bool" where
  "round_ok pre row \<longleftrightarrow> (\<forall>c\<in>set (round_constraints (cells pre 0 8) (pre ! 8) (pre ! 9) (cells row 0 8) (cells row 8 8) (cells row 16 8) (cells row 24 8)).
     c mod P31 = 0)"

lemma round_ok_real:
  assumes "cells_ok row" "32 \<le> length row" "cells pre 0 8 = map uint rc" "wf_state 8 rc" "pre ! 8 = flag e" "pre ! 9 = flag (\<not> e)"
  shows "round_ok pre row \<longleftrightarrow> round_cells (e, rc) (words row 0 8) = (words row 8 8, words row 16 8, words row 24 8)"
proof -
  have w: "wf_state 8 (words row a 8)" "cells row a 8 = map uint (words row a 8)" if "a \<le> 24" for a
    using words_facts [OF assms(1), of a 8] that assms(2) by simp_all
  show ?thesis unfolding round_ok_def assms(3,5,6)
    using round_iff [OF w(1) assms(4) w(1) w(1) w(1), of 0 8 16 24 e] by (simp add: w(2))
qed

lemma round_ok_pad:
  assumes "cells_ok row" "32 \<le> length row" "cells pre 0 8 = replicate 8 0" "pre ! 8 = 0" "pre ! 9 = 0"
  shows "round_ok pre row \<longleftrightarrow> words row 8 8 = map (\<lambda>x. m31_mul x x) (words row 0 8) \<and> words row 16 8 = map sbox (words row 0 8)
    \<and> words row 24 8 = replicate 8 0"
proof -
  have w: "wf_state 8 (words row a 8)" "cells row a 8 = map uint (words row a 8)" if "a \<le> 24" for a
    using words_facts [OF assms(1), of a 8] that assms(2) by simp_all
  show ?thesis unfolding round_ok_def assms(3-5)
    using round_pad_iff [OF w(1) w(1) w(1) w(1), of 0 8 16 24] by (simp add: w(2))
qed

lemma words_take: "words row a 4 = take 4 (words row a 8)"
  by (simp add: words_def cells_def take_map upt_rec)

lemma compress_row_iff:
  assumes r: "cells_ok row" "length row = 40" and v: "cells_ok prev" "length prev = 40"
    and p: "pre ! 10 = flag f" "cells pre 11 8 = map uint rp" "wf_state 8 rp" "cells pre 19 4 = map uint np" "wf_state 4 np" "pre ! 23 = flag nd"
  shows "(\<forall>c\<in>set (compress_evaluate pre row prev). c mod P31 = 0) \<longleftrightarrow>
    round_ok pre row \<and> words row 0 8 = (if f then mat_external_t8 (words row 32 8) else words prev 24 8)
    \<and> (f \<longrightarrow> words row 32 8 = rp) \<and> (nd \<longrightarrow> words row 24 4 = np)"
proof -
  have w: "wf_state n (words row a n)" "cells row a n = map uint (words row a n)" if "a + n \<le> 40" for a n
    using words_facts [OF r(1)] r(2) that by simp_all
  have wv: "wf_state 8 (words prev 24 8)" "cells prev 24 8 = map uint (words prev 24 8)" using words_facts [OF v(1)] v(2) by simp_all
  have k: "map (\<lambda>k. flag nd * (cells row 24 8 ! k - y ! k)) [0..<4] = map (\<lambda>k. flag nd * (cells row 24 4 ! k - y ! k)) [0..<4]" for y
    by (simp add: cells_def)
  show ?thesis
    unfolding compress_evaluate_def Let_def set_append ball_Un round_ok_def [symmetric] p k
    unfolding w(2) [of 0 8, simplified] w(2) [of 32 8, simplified] w(2) [of 24 4, simplified] wv(2)
    using in_iff [OF w(1) [of 0 8] w(1) [of 32 8] wv(1), of f] pin_iff [OF w(1) [of 32 8] p(3), of f]
      pin_iff [OF w(1) [of 24 4] p(5), of nd] by simp
qed

lemma compress_preproc_facts:
  assumes "wf_state 4 left" "wf_state 4 right" "wf_state 4 node" "N_REAL_ROWS \<le> 2 ^ log_size" "i < 2 ^ log_size"
  defines "pre \<equiv> trace_row (compress_build_preproc left right node log_size) i"
  shows "i < N_REAL_ROWS \<Longrightarrow> cells pre 0 8 = map uint (snd (round_schedule i)) \<and> pre ! 8 = flag (fst (round_schedule i))
      \<and> pre ! 9 = flag (\<not> fst (round_schedule i))"
    "\<not> i < N_REAL_ROWS \<Longrightarrow> cells pre 0 8 = replicate 8 0 \<and> pre ! 8 = 0 \<and> pre ! 9 = 0"
    "pre ! 10 = flag (i = 0)" "cells pre 11 8 = map uint (if i = 0 then left @ right else replicate 8 0)"
    "cells pre 19 4 = map uint (if i = N_REAL_ROWS - 1 then node else replicate 4 0)" "pre ! 23 = flag (i = N_REAL_ROWS - 1)"
proof -
  let ?row = "compress_preproc_row left right node i" and ?rows = "map (compress_preproc_row left right node) [0..<N_REAL_ROWS] @ replicate (2 ^ log_size - N_REAL_ROWS) (replicate 24 0)"
  obtain e rc where s: "round_schedule i = (e, rc)" by (cases "round_schedule i")
  have rw: "?rows ! i = (if i < N_REAL_ROWS then ?row else replicate 24 0)" using assms(5) by (simp add: nth_append)
  have four: "map (\<lambda>k. m31_cell (x ! k)) [0..<4] = map uint x" "length x = 4" if "wf_state 4 x" for x
  proof -
    show l: "length x = 4" using that by (simp add: wf_state_def)
    show "map (\<lambda>k. m31_cell (x ! k)) [0..<4] = map uint x" using l wf_state_nth [OF that] by (intro nth_equalityI) (simp_all add: m31_cell_canon)
  qed
  have row: "?row = map uint rc @ [flag e, flag (\<not> e), flag (i = 0)] @ map uint (if i = 0 then left @ right else replicate 8 0)
      @ map uint (if i = N_REAL_ROWS - 1 then node else replicate 4 0) @ [flag (i = N_REAL_ROWS - 1)]" and lrc: "length rc = 8" if "i < N_REAL_ROWS"
  proof -
    have w: "wf_state 8 rc" using round_schedule_wf [OF that] s by simp
    then show "length rc = 8" by (simp add: wf_state_def)
    show "?row = map uint rc @ [flag e, flag (\<not> e), flag (i = 0)] @ map uint (if i = 0 then left @ right else replicate 8 0)
      @ map uint (if i = N_REAL_ROWS - 1 then node else replicate 4 0) @ [flag (i = N_REAL_ROWS - 1)]"
      unfolding compress_preproc_row_def s Let_def prod.case map_m31_cell [OF w] four(1) [OF assms(1)] four(1) [OF assms(2)] four(1) [OF assms(3)] by simp
  qed
  note l = four(2) [OF assms(1)] four(2) [OF assms(2)] four(2) [OF assms(3)]
  have len: "length ?row = 24" if "i < N_REAL_ROWS" unfolding row [OF that] using l lrc [OF that] by simp
  have pre: "pre = (if i < N_REAL_ROWS then ?row else replicate 24 0)"
    unfolding pre_def compress_build_preproc_def Let_def min_absorb1 [OF assms(4)]
    using assms(4,5) len rw by (subst trace_row_columns) auto
  have "i \<noteq> 0 \<and> i \<noteq> N_REAL_ROWS - 1" if "\<not> i < N_REAL_ROWS" using that by (auto simp: N_REAL_ROWS_def R_F_def R_P_T8_def)
  then show "\<not> i < N_REAL_ROWS \<Longrightarrow> cells pre 0 8 = replicate 8 0 \<and> pre ! 8 = 0 \<and> pre ! 9 = 0" by (simp add: pre cells_take)
  show "i < N_REAL_ROWS \<Longrightarrow> cells pre 0 8 = map uint (snd (round_schedule i)) \<and> pre ! 8 = flag (fst (round_schedule i))
      \<and> pre ! 9 = flag (\<not> fst (round_schedule i))"
    using lrc l unfolding pre row s by (simp add: row cells_take nth_append)
  show "pre ! 10 = flag (i = 0)" "pre ! 23 = flag (i = N_REAL_ROWS - 1)"
    using lrc l \<open>\<not> i < N_REAL_ROWS \<Longrightarrow> i \<noteq> 0 \<and> i \<noteq> N_REAL_ROWS - 1\<close> unfolding pre
    by (cases "i < N_REAL_ROWS"; simp add: row nth_append flag_def)+
  show "cells pre 11 8 = map uint (if i = 0 then left @ right else replicate 8 0)"
    "cells pre 19 4 = map uint (if i = N_REAL_ROWS - 1 then node else replicate 4 0)"
    using lrc l \<open>\<not> i < N_REAL_ROWS \<Longrightarrow> i \<noteq> 0 \<and> i \<noteq> N_REAL_ROWS - 1\<close> unfolding pre
    by (cases "i < N_REAL_ROWS"; simp add: row cells_take)+
qed
lemma state_chain:
  assumes "\<And>r. r < n \<Longrightarrow> outs r = round_state (ins r) r" "ins 0 = s" "\<And>r. Suc r < n \<Longrightarrow> ins (Suc r) = outs r"
  shows "r < n \<Longrightarrow> ins r = state_at s r \<and> outs r = state_at s (Suc r)"
proof (induction r)
  case 0
  then show ?case using assms(1) [of 0] assms(2) by simp
next
  case (Suc r)
  then show ?case using assms(1) [of "Suc r"] assms(3) [of r] by simp
qed

lemma round_cells_state: "round_cells (round_schedule r) s = (q, b, t) \<Longrightarrow> t = round_state s r"
  by (simp add: round_state_def)

lemma N_REAL_ROWS_val: "N_REAL_ROWS = 22"
  by (simp add: N_REAL_ROWS_def R_F_def R_P_T8_def)

lemma compress_permute:
  assumes "wf_state 4 left" "wf_state 4 right"
  shows "take 4 (state_at (mat_external_t8 (left @ right)) N_REAL_ROWS) = compress_t8 left right"
  by (simp add: permute_rounds compress_t8_take [OF assms])

lemma compress_trace_sound:
  assumes w: "wf_state 4 left" "wf_state 4 right" "wf_state 4 node" and n: "N_REAL_ROWS \<le> 2 ^ log_size"
    and len: "length cols = 40" and sat: "cyclic_sat compress_evaluate (compress_build_preproc left right node log_size) cols (2 ^ log_size)"
  shows "node = compress_t8 left right"
proof -
  let ?n = "2 ^ log_size :: nat" and ?pre = "\<lambda>i. trace_row (compress_build_preproc left right node log_size) i"
  define row where "row i = trace_row cols i" for i
  have ok: "cells_ok (row i)" "length (row i) = 40" if "i < ?n" for i
    using sat that len by (simp_all add: cyclic_sat_def row_def) (simp add: trace_row_def)
  have w8: "wf_state 8 (if i = 0 then left @ right else replicate 8 0)" for i :: nat using w canon_zero by (auto simp: wf_state_def)
  have w4: "wf_state 4 (if i = N_REAL_ROWS - 1 then node else replicate 4 0)" for i :: nat using w(3) canon_zero by (simp add: wf_state_def)
  have iff: "round_ok (?pre i) (row i) \<and> words (row i) 0 8 = (if i = 0 then mat_external_t8 (words (row i) 32 8) else words (row (i - 1)) 24 8)
      \<and> (i = 0 \<longrightarrow> words (row i) 32 8 = left @ right) \<and> (i = N_REAL_ROWS - 1 \<longrightarrow> words (row i) 24 4 = node)" if i: "i < ?n" for i
  proof -
    define p where "p = (i + ?n - 1) mod ?n"
    have p: "p < ?n" by (simp add: p_def)
    have pi: "i \<noteq> 0 \<Longrightarrow> p = i - 1" using cyclic_prev [OF i] by (simp add: p_def)
    have "\<forall>c\<in>set (compress_evaluate (?pre i) (row i) (row p)). c mod P31 = 0" using sat i by (simp add: cyclic_sat_def row_def p_def)
    note s = iffD1 [OF compress_row_iff [OF ok [OF i] ok [OF p] compress_preproc_facts(3,4) [OF w n i] w8 compress_preproc_facts(5) [OF w n i] w4
        compress_preproc_facts(6) [OF w n i]] this]
    then show ?thesis using pi by (cases "i = 0") simp_all
  qed
  have rnd: "words (row r) 24 8 = round_state (words (row r) 0 8) r" if r: "r < N_REAL_ROWS" for r
  proof -
    have i: "r < ?n" using r n by linarith
    note f = compress_preproc_facts(1) [OF w n i r]
    have "round_cells (round_schedule r) (words (row r) 0 8) = (words (row r) 8 8, words (row r) 16 8, words (row r) 24 8)"
      using round_ok_real [OF ok(1) [OF i] _ _ round_schedule_wf [OF r]] iff [OF i] f ok(2) [OF i] by simp
    then show ?thesis by (rule round_cells_state)
  qed
  have z: "0 < ?n" by simp
  have "words (row (N_REAL_ROWS - 1)) 0 8 = state_at (mat_external_t8 (left @ right)) (N_REAL_ROWS - 1)
      \<and> words (row (N_REAL_ROWS - 1)) 24 8 = state_at (mat_external_t8 (left @ right)) (Suc (N_REAL_ROWS - 1))"
  proof (rule state_chain [where n = N_REAL_ROWS and ins = "\<lambda>r. words (row r) 0 8" and outs = "\<lambda>r. words (row r) 24 8"])
    show "words (row r) 24 8 = round_state (words (row r) 0 8) r" if "r < N_REAL_ROWS" for r by (rule rnd [OF that])
    show "words (row 0) 0 8 = mat_external_t8 (left @ right)" using iff [OF z] by simp
    show "words (row (Suc r)) 0 8 = words (row r) 24 8" if "Suc r < N_REAL_ROWS" for r using iff [of "Suc r"] that n by simp
    show "N_REAL_ROWS - 1 < N_REAL_ROWS" by (simp add: N_REAL_ROWS_val)
  qed
  moreover have "words (row (N_REAL_ROWS - 1)) 24 4 = node" using iff [of "N_REAL_ROWS - 1"] n by (simp add: N_REAL_ROWS_val)
  ultimately show ?thesis using compress_permute [OF w(1,2)] by (simp add: words_take N_REAL_ROWS_val)
qed

text \<open>The rows of padding.\<close>

definition pad_row :: "nat \<Rightarrow> u64 list \<Rightarrow> int list" where
  "pad_row w s = map m31_cell s @ map (\<lambda>x. m31_cell (m31_mul x x)) s @ map (\<lambda>x. m31_cell (sbox x)) s @ replicate (8 + w) 0"

lemma pad_loop_rows: "pad_loop w k s = map (\<lambda>i. pad_row w (if i = 0 then s else replicate 8 0)) [0..<k]"
proof (induction k arbitrary: s)
  case (Suc k)
  have "[0..<Suc k] = 0 # map Suc [0..<k]" by (simp add: map_Suc_upt upt_conv_Cons del: upt_Suc)
  then show ?case by (simp add: Suc.IH pad_row_def del: upt_Suc)
qed simp

lemma pad_row_facts:
  assumes "wf_state 8 s"
  shows "length (pad_row w s) = 32 + w" "cells_ok (pad_row w s)" "words (pad_row w s) 0 8 = s"
    "words (pad_row w s) 8 8 = map (\<lambda>x. m31_mul x x) s" "words (pad_row w s) 16 8 = map sbox s" "words (pad_row w s) 24 8 = replicate 8 0"
    "cells (pad_row w s) 32 w = replicate w 0"
proof -
  have wf: "wf_state 8 (map (\<lambda>x. m31_mul x x) s)" "wf_state 8 (map sbox s)" using assms by (auto simp: wf_state_def canon_ops)
  have l: "length s = 8" using assms by (simp add: wf_state_def)
  have row: "pad_row w s = map uint s @ map uint (map (\<lambda>x. m31_mul x x) s) @ map uint (map sbox s) @ replicate (8 + w) 0"
    using map_m31_cell [OF assms] map_m31_cell [OF wf(1)] map_m31_cell [OF wf(2)] by (simp add: pad_row_def o_def)
  show "length (pad_row w s) = 32 + w" using l by (simp add: row)
  have "cells_ok (replicate (8 + w) 0)" by (simp add: cells_ok_def)
  then show "cells_ok (pad_row w s)" unfolding row row_sat_simps using uint_cells_ok [OF assms] uint_cells_ok [OF wf(1)] uint_cells_ok [OF wf(2)] by blast
  show "words (pad_row w s) 0 8 = s" "words (pad_row w s) 8 8 = map (\<lambda>x. m31_mul x x) s" "words (pad_row w s) 16 8 = map sbox s"
    by (rule words_eqI, use l in \<open>simp add: row cells_take\<close>)+
  show "words (pad_row w s) 24 8 = replicate 8 0" "cells (pad_row w s) 32 w = replicate w 0"
    using l by (simp_all add: words_def row cells_take)
qed

lemma compress_trace_complete:
  assumes w: "wf_state 4 left" "wf_state 4 right" and n: "N_REAL_ROWS \<le> 2 ^ log_size"
  obtains cols where "compress_build_trace left right log_size = Some (cols, compress_t8 left right)" "length cols = 40"
    "cyclic_sat compress_evaluate (compress_build_preproc left right (compress_t8 left right) log_size) cols (2 ^ log_size)"
proof -
  let ?n = "2 ^ log_size :: nat" and ?raw = "left @ right" and ?node = "compress_t8 left right"
  let ?s = "mat_external_t8 ?raw"
  have w3: "wf_state 4 ?node" using w by (rule compress_t8_wf)
  have wr: "wf_state 8 ?raw" using w by (auto simp: wf_state_def)
  note ws = mat_external_t8_wf [OF wr]
  define rest where "rest row = (if row = 0 then map m31_cell ?raw else replicate 8 (0 :: int))" for row :: nat
  have rr: "length (rest r) = 8" "cells_ok (rest r)" for r
    using wr map_m31_cell [OF wr] uint_cells_ok [OF wr] by (auto simp: rest_def wf_state_def cells_ok_def)
  let ?row = "\<lambda>i. if i < N_REAL_ROWS then perm_row rest (round_schedule i) (state_at ?s i) i
      else pad_row 8 (if i = N_REAL_ROWS then state_at ?s N_REAL_ROWS else replicate 8 0)"
  let ?rows = "map ?row [0..<?n]" and ?cols = "columns 40 (map ?row [0..<?n])"
  have raw: "map (\<lambda>k. left ! k mod M31_P) [0..<4] @ map (\<lambda>k. right ! k mod M31_P) [0..<4] = ?raw"
  proof -
    have "map (\<lambda>k. x ! k mod M31_P) [0..<4] = x" if "wf_state 4 x" for x
      using that wf_state_nth [OF that] by (intro nth_equalityI) (simp_all add: canon_mod_id wf_state_def)
    then show ?thesis using w by simp
  qed
  have rows: "map (\<lambda>r. perm_row rest (round_schedule r) (state_at ?s r) r) [0..<N_REAL_ROWS] @ pad_loop 8 (?n - N_REAL_ROWS) (state_at ?s N_REAL_ROWS) = ?rows"
  proof (rule nth_equalityI)
    show "length (map (\<lambda>r. perm_row rest (round_schedule r) (state_at ?s r) r) [0..<N_REAL_ROWS] @ pad_loop 8 (?n - N_REAL_ROWS) (state_at ?s N_REAL_ROWS)) = length ?rows"
      using n by (simp add: pad_loop_rows)
  qed (use n in \<open>auto simp: pad_loop_rows nth_append\<close>)
  have node: "map ((!) (state_at ?s N_REAL_ROWS)) [0..<4] = ?node"
  proof -
    have "length (state_at ?s N_REAL_ROWS) = 8" using state_at_wf [OF ws, of N_REAL_ROWS] by (simp add: wf_state_def)
    then have "map ((!) (state_at ?s N_REAL_ROWS)) [0..<4] = take 4 (state_at ?s N_REAL_ROWS)" by (intro nth_equalityI) simp_all
    then show ?thesis using compress_permute [OF w] by simp
  qed
  have b: "compress_build_trace left right log_size = Some (?cols, ?node)"
    unfolding compress_build_trace_def Let_def raw rest_def [symmetric] perm_loop_rows prod.case rows node using n by simp
  have rt: "trace_row ?cols i = ?row i \<and> length (?row i) = 40 \<and> cells_ok (?row i) \<and> words (?row i) 0 8 =
      (if i \<le> N_REAL_ROWS then state_at ?s i else replicate 8 0)
      \<and> words (?row i) 24 8 = (if i < N_REAL_ROWS then state_at ?s (Suc i) else replicate 8 0)" if i: "i < ?n" for i
  proof -
    have f: "length (?row i) = 40 \<and> cells_ok (?row i) \<and> words (?row i) 0 8 = (if i \<le> N_REAL_ROWS then state_at ?s i else replicate 8 0)
      \<and> words (?row i) 24 8 = (if i < N_REAL_ROWS then state_at ?s (Suc i) else replicate 8 0)"
    proof (cases "i < N_REAL_ROWS")
      case True
      obtain e rc where sc: "round_schedule i = (e, rc)" by (cases "round_schedule i")
      have "wf_state 8 (state_at ?s i)" "wf_state 8 rc" using state_at_wf [OF ws, of i] round_schedule_wf [OF True] True sc by simp_all
      note r = perm_row_facts [where e = e and rest = rest and r = i, OF this rr]
      show ?thesis using True r(1-4) by (simp add: sc round_state_def)
    next
      case False
      have "wf_state 8 (if i = N_REAL_ROWS then state_at ?s N_REAL_ROWS else replicate 8 0)"
        using state_at_wf [OF ws, of N_REAL_ROWS] canon_zero by (simp add: wf_state_def)
      note r = pad_row_facts [OF this, of 8]
      show ?thesis using False r(1-3,6) by simp
    qed
    have e: "?rows ! i = ?row i" using i by (simp only: nth_map_upt) simp
    have "length (?rows ! i) = 40" unfolding e using f by blast
    moreover have "i < length ?rows" using i by simp
    ultimately have "trace_row ?cols i = ?row i" using trace_row_columns [of i ?rows 40] e by (simp only:)
    with f show ?thesis by blast
  qed
  have "cyclic_sat compress_evaluate (compress_build_preproc left right ?node log_size) ?cols ?n"
    unfolding cyclic_sat_def
  proof (intro allI impI conjI)
    fix i assume i: "i < ?n"
    note f = rt [OF i]
    let ?pre = "trace_row (compress_build_preproc left right ?node log_size) i" and ?p = "(i + ?n - 1) mod ?n"
    show "cells_ok (trace_row ?cols i)" using f by simp
    have p: "?p < ?n" by simp
    note g = rt [OF p]
    note pf = compress_preproc_facts [OF w w3 n i]
    have w8: "wf_state 8 (if i = 0 then left @ right else replicate 8 0)" using wr canon_zero by (simp add: wf_state_def)
    have w4: "wf_state 4 (if i = N_REAL_ROWS - 1 then ?node else replicate 4 0)" using w3 canon_zero by (simp add: wf_state_def)
    have ok: "cells_ok (trace_row ?cols i)" "length (trace_row ?cols i) = 40" "cells_ok (trace_row ?cols ?p)" "length (trace_row ?cols ?p) = 40"
      using f g by simp_all
    have rnd: "round_ok ?pre (trace_row ?cols i)"
    proof (cases "i < N_REAL_ROWS")
      case True
      obtain e rc where sc: "round_schedule i = (e, rc)" by (cases "round_schedule i")
      have wf: "wf_state 8 (state_at ?s i)" "wf_state 8 rc" using state_at_wf [OF ws, of i] round_schedule_wf [OF True] True sc by simp_all
      note r = perm_row_facts [where e = e and rest = rest and r = i, OF wf rr]
      have e: "trace_row ?cols i = perm_row rest (e, rc) (state_at ?s i) i" using f True sc by simp
      show ?thesis using round_ok_real [OF ok(1), of ?pre rc e] ok(2) pf(1) [OF True] sc wf(2) r(3,4) e by simp
    next
      case False
      have wf: "wf_state 8 (if i = N_REAL_ROWS then state_at ?s N_REAL_ROWS else replicate 8 0)"
        using state_at_wf [OF ws, of N_REAL_ROWS] canon_zero by (simp add: wf_state_def)
      have e: "trace_row ?cols i = pad_row 8 (if i = N_REAL_ROWS then state_at ?s N_REAL_ROWS else replicate 8 0)" using f False by simp
      show ?thesis using round_ok_pad [OF ok(1), of ?pre] ok(2) pf(2) [OF False] pad_row_facts(3-6) [OF wf, of 8, folded e] by simp
    qed
    have "words (trace_row ?cols i) 32 8 = ?raw" if "i = 0"
    proof -
      obtain e rc where sc: "round_schedule 0 = (e, rc)" by (cases "round_schedule 0")
      have z: "0 < N_REAL_ROWS" by (simp add: N_REAL_ROWS_val)
      have "wf_state 8 (state_at ?s 0)" "wf_state 8 rc" using ws round_schedule_wf [OF z] sc by simp_all
      from perm_row_facts(5) [where e = e and rest = rest and r = 0, OF this rr]
      have "cells (trace_row ?cols i) 32 8 = map uint ?raw" using f that z sc map_m31_cell [OF wr] by (simp add: rest_def)
      then show ?thesis by (rule words_eqI)
    qed
    moreover have "words (trace_row ?cols i) 0 8 = (if i = 0 then ?s else words (trace_row ?cols ?p) 24 8)"
      using f g cyclic_prev [OF i] by auto
    moreover have "words (trace_row ?cols i) 24 4 = ?node" if "i = N_REAL_ROWS - 1"
    proof -
      have "words (trace_row ?cols i) 24 8 = state_at ?s N_REAL_ROWS" using f that by (simp add: N_REAL_ROWS_val)
      then show ?thesis using compress_permute [OF w] by (simp add: words_take)
    qed
    ultimately show "\<forall>c\<in>set (compress_evaluate ?pre (trace_row ?cols i) (trace_row ?cols ?p)). c mod P31 = 0"
      unfolding compress_row_iff [OF ok pf(3,4) w8 pf(5) w4 pf(6)] using rnd by simp
  qed
  then show ?thesis using that [OF b] by (simp add: columns_def)
qed

end
