(* ===== verification/Circuit_Path.thy ===== *)
theory Circuit_Path
  imports Circuit_Poseidon Circuit_FRI
begin

unbundle bit_operations_syntax

text \<open>
  The circuit of Merkle paths of width 8 (\<open>recursive/merkle_path_t8_air.rs\<close>): the 22 rounds of a compression
  per level, chained from the leaf to the root, for one path or for several paths of different depths. Leaf,
  index and root are preprocessed columns the verifier fixes; the siblings are cells of the prover.
\<close>

section \<open>References\<close>

definition norm4 :: "u64 list \<Rightarrow> u64 list" where
  "norm4 v = map (\<lambda>k. v ! k mod M31_P) [0..<4]"

definition merkle_path_root_t8 :: "u64 list \<Rightarrow> u64 list list \<Rightarrow> bool list \<Rightarrow> u64 list option" where
  "merkle_path_root_t8 leaf sibs bits =
     (if length sibs \<noteq> length bits then None
      else Some (foldl (\<lambda>cur i. let s = norm4 (sibs ! i); (l, r) = (if bits ! i then (s, cur) else (cur, s)) in compress_t8 l r)
             (norm4 leaf) [0..<length sibs]))"

definition bits_to_index :: "bool list \<Rightarrow> u32 option" where
  "bits_to_index bits =
     (if length bits \<le> 32 then Some (foldl (\<lambda>idx (i, b). if b then idx OR push_bit i 1 else idx) 0 (enumerate 0 bits)) else None)"

section \<open>Constraints\<close>

definition path_evaluate :: "'f::comm_ring_1 list \<Rightarrow> 'f list \<Rightarrow> 'f list \<Rightarrow> 'f list" where
  "path_evaluate pre row prev =
     (let rc = cells pre 0 8; is_ext = pre ! 8; is_int = pre ! 9; is_first_comp = pre ! 10; is_first_path = pre ! 11;
          idx_bit = pre ! 12; leaf_pin = cells pre 13 4; is_root = pre ! 17; root_pin = cells pre 18 4;
          inp = cells row 0 8; sq = cells row 8 8; sbx = cells row 16 8; out = cells row 24 8; out_prev = cells prev 24 8;
          cur = cells row 32 4; sib = cells row 36 4; bit = row ! 40; leaf = cells row 41 4;
          raw8 = map (\<lambda>i. if i < 4 then bit * sib ! i + (1 - bit) * cur ! i
                          else let k = i - 4 in bit * cur ! k + (1 - bit) * sib ! k) [0..<8];
          me_raw = mat_external_expr raw8
      in round_constraints rc is_ext is_int inp sq sbx out
         @ map (\<lambda>k. let cur_expected = is_first_path * leaf ! k + (1 - is_first_path) * out_prev ! k
                    in is_first_comp * (cur ! k - cur_expected)) [0..<4]
         @ [is_first_comp * (bit * bit - bit)]
         @ [is_first_comp * (bit - idx_bit)]
         @ map (\<lambda>k. is_first_path * (leaf ! k - leaf_pin ! k)) [0..<4]
         @ map (\<lambda>i. inp ! i - (is_first_comp * me_raw ! i + (1 - is_first_comp) * out_prev ! i)) [0..<8]
         @ map (\<lambda>k. is_root * (out ! k - root_pin ! k)) [0..<4])"

section \<open>Sizes and layouts\<close>

definition PATH_MIN_LOG_SIZE :: nat where "PATH_MIN_LOG_SIZE = 5"
definition PATH_MAX_LOG_SIZE :: nat where "PATH_MAX_LOG_SIZE = 24"
definition PATH_MAX_DEPTH :: nat where "PATH_MAX_DEPTH = 28"

definition path_log_size :: "nat \<Rightarrow> nat" where
  "path_log_size depth = (let n_real = max depth 1 * N_REAL_ROWS in log_size_loop n_real PATH_MIN_LOG_SIZE)"

definition compute_log_size_multi_var :: "nat list \<Rightarrow> nat" where
  "compute_log_size_multi_var depths =
     (let comps = max (sum_list (map (\<lambda>d. max d 1) depths)) 1; n_real = comps * N_REAL_ROWS
      in log_size_loop n_real PATH_MIN_LOG_SIZE)"

definition comp_layout :: "nat list \<Rightarrow> (nat \<times> nat) list" where
  "comp_layout depths = concat (map (\<lambda>(path, d). map (\<lambda>j. (path, j)) [0..<d]) (enumerate 0 depths))"

section \<open>Preprocessed columns\<close>

text \<open>Row \<open>r\<close> of level \<open>j\<close> of a path.\<close>

definition comp_preproc_row :: "u64 list \<Rightarrow> u32 \<Rightarrow> u64 list \<Rightarrow> nat \<Rightarrow> nat \<Rightarrow> nat \<Rightarrow> int list" where
  "comp_preproc_row leaf index rt depth j r =
     (let (is_ext, rc) = round_schedule r;
          bit = (if j < 32 then drop_bit j index AND 1 else 0)
      in map m31_cell rc @ [flag is_ext, flag (\<not> is_ext), flag (r = 0), flag (j = 0 \<and> r = 0)]
         @ [if r = 0 then m31_cell (ucast bit) else 0]
         @ (if j = 0 \<and> r = 0 then map (\<lambda>k. m31_cell (leaf ! k)) [0..<4] else replicate 4 0)
         @ [flag (j = depth - 1 \<and> r = N_REAL_ROWS - 1)]
         @ (if j = depth - 1 \<and> r = N_REAL_ROWS - 1 then map (\<lambda>k. m31_cell (rt ! k)) [0..<4] else replicate 4 0))"

definition path_build_preproc :: "u64 list \<Rightarrow> u32 \<Rightarrow> u64 list \<Rightarrow> nat \<Rightarrow> nat \<Rightarrow> int list list" where
  "path_build_preproc leaf index rt depth log_size =
     (let n = 2 ^ log_size; n_comp_real = min depth (n div N_REAL_ROWS)
      in columns 22 (pad_rows n 22 (concat (map (\<lambda>c. map (comp_preproc_row leaf index rt depth c) [0..<N_REAL_ROWS]) [0..<n_comp_real]))))"

definition build_preproc_multi_var :: "u64 list list \<Rightarrow> u32 list \<Rightarrow> u64 list list \<Rightarrow> nat list \<Rightarrow> nat \<Rightarrow> int list list option" where
  "build_preproc_multi_var leaves indices roots depths log_size =
     (if length leaves \<noteq> length indices \<or> length leaves \<noteq> length roots \<or> length leaves \<noteq> length depths \<or> \<not> list_all (\<lambda>d. d \<ge> 1) depths
      then None
      else let layout = comp_layout depths; n = 2 ^ log_size
           in Some (columns 22 (pad_rows n 22 (concat (map (\<lambda>(path, j).
                map (comp_preproc_row (leaves ! path) (indices ! path) (roots ! path) (depths ! path) j) [0..<N_REAL_ROWS])
                (take (n div N_REAL_ROWS) layout))))))"

definition build_preproc_multi :: "u64 list list \<Rightarrow> u32 list \<Rightarrow> u64 list list \<Rightarrow> nat \<Rightarrow> nat \<Rightarrow> int list list option" where
  "build_preproc_multi leaves indices roots depth log_size =
     build_preproc_multi_var leaves indices roots (replicate (length leaves) depth) log_size"

section \<open>Traces\<close>

text \<open>
  One level: the current node, its sibling and the bit on the first row, then the rounds. The first argument is
  the leaf when the level starts a path.
\<close>

definition comp_block :: "u64 list option \<Rightarrow> u64 list \<Rightarrow> u64 list \<Rightarrow> bool \<Rightarrow> int list list \<times> u64 list" where
  "comp_block first_leaf cur sib b =
     (let raw8 = (if b then sib @ cur else cur @ sib);
          rest = (\<lambda>r. if r = 0 then map m31_cell cur @ map m31_cell sib @ [flag b]
                        @ (case first_leaf of Some leaf \<Rightarrow> map (\<lambda>k. m31_cell (leaf ! k)) [0..<4] | None \<Rightarrow> replicate 4 0)
                      else replicate 13 0)
      in perm_loop rest (mat_external_t8 raw8))"

definition path_build_trace :: "u64 list \<Rightarrow> u64 list list \<Rightarrow> bool list \<Rightarrow> nat \<Rightarrow> (int list list \<times> u64 list) option" where
  "path_build_trace leaf sibs bits log_size =
     (if length sibs \<noteq> length bits then None
      else let depth = length sibs; n = 2 ^ log_size;
               (rows, cur, carry_state) = foldl (\<lambda>(rows, cur, carry_state) c.
                  let (block, state) = comp_block (if c = 0 then Some leaf else None) cur (norm4 (sibs ! c)) (bits ! c)
                  in (rows @ block, take 4 state, state)) ([], norm4 leaf, replicate 8 0) [0..<depth]
           in if depth * N_REAL_ROWS \<le> n then Some (columns 45 (rows @ pad_loop 13 (n - depth * N_REAL_ROWS) carry_state), cur) else None)"

definition comp_step :: "u64 list list \<Rightarrow> u64 list list list \<Rightarrow> bool list list \<Rightarrow> nat list
    \<Rightarrow> int list list \<times> u64 list list \<times> u64 list \<times> u64 list \<Rightarrow> nat \<times> nat \<Rightarrow> int list list \<times> u64 list list \<times> u64 list \<times> u64 list" where
  "comp_step leaves sibs bits depths = (\<lambda>(rows, roots, cur, carry_state) (path, j).
     let cur = (if j = 0 then norm4 (leaves ! path) else cur);
         (block, state) = comp_block (if j = 0 then Some (leaves ! path) else None) cur (norm4 (sibs ! path ! j)) (bits ! path ! j);
         cur = take 4 state;
         roots = (if j = depths ! path - 1 then roots @ [cur] else roots)
     in (rows @ block, roots, cur, state))"

definition build_paths_raw :: "u64 list list \<Rightarrow> u64 list list list \<Rightarrow> bool list list \<Rightarrow> nat \<Rightarrow> (int list list \<times> u64 list list) option" where
  "build_paths_raw leaves sibs bits log_size =
     (let num_paths = length leaves; depths = map length sibs
      in if num_paths < 1 \<or> length sibs \<noteq> num_paths \<or> length bits \<noteq> num_paths \<or> \<not> list_all (\<lambda>d. d \<ge> 1) depths
           \<or> \<not> list_all2 (\<lambda>b d. length b = d) bits depths then None
         else let layout = comp_layout depths; n = 2 ^ log_size;
                  (rows, roots, cur, carry_state) = foldl (comp_step leaves sibs bits depths) ([], [], replicate 4 0, replicate 8 0) layout
              in if length layout * N_REAL_ROWS \<le> n
                 then Some (columns 45 (rows @ pad_loop 13 (n - length layout * N_REAL_ROWS) carry_state), roots) else None)"

section \<open>One row\<close>

text \<open>The first row of a level, and any other row.\<close>

lemma path_first_row_iff:
  assumes r: "cells_ok row" "length row = 45" and v: "cells_ok prev" "length prev = 45"
    and p: "pre ! 10 = flag True" "pre ! 11 = flag fp" "pre ! 12 = flag ib" "cells pre 13 4 = map uint lp" "wf_state 4 lp"
      "pre ! 17 = flag rt" "cells pre 18 4 = map uint rp" "wf_state 4 rp"
  shows "(\<forall>c\<in>set (path_evaluate pre row prev). c mod P31 = 0) \<longleftrightarrow>
    round_ok pre row \<and> words row 32 4 = (if fp then words row 41 4 else words prev 24 4)
    \<and> (row ! 40 * row ! 40 - row ! 40) mod P31 = 0 \<and> row ! 40 = flag ib
    \<and> (fp \<longrightarrow> words row 41 4 = lp)
    \<and> words row 0 8 = mat_external_t8 (if ib then words row 36 4 @ words row 32 4 else words row 32 4 @ words row 36 4)
    \<and> (rt \<longrightarrow> words row 24 4 = rp)"
proof -
  have w: "wf_state n (words row a n)" "cells row a n = map uint (words row a n)" if "a + n \<le> 45" for a n
    using words_facts [OF r(1)] r(2) that by simp_all
  have wv: "wf_state n (words prev a n)" "cells prev a n = map uint (words prev a n)" if "a + n \<le> 45" for a n
    using words_facts [OF v(1)] v(2) that by simp_all
  have k: "cells x 24 8 ! k = cells x 24 4 ! k" if "k < 4" for x :: "int list" and k using that by (simp add: cells_def)
  have cur: "(\<forall>c\<in>set (map (\<lambda>k. flag True * (cells row 32 4 ! k - (flag fp * cells row 41 4 ! k + (1 - flag fp) * cells prev 24 8 ! k))) [0..<4]). c mod P31 = 0)
      \<longleftrightarrow> words row 32 4 = (if fp then words row 41 4 else words prev 24 4)"
  proof -
    have m: "map (\<lambda>k. flag True * (cells row 32 4 ! k - (flag fp * cells row 41 4 ! k + (1 - flag fp) * cells prev 24 8 ! k))) [0..<4]
        = map (\<lambda>k. flag True * (map uint (words row 32 4) ! k - map uint (if fp then words row 41 4 else words prev 24 4) ! k)) [0..<4]"
      using k by (cases fp) (simp_all add: flag_def w(2) [symmetric] wv(2) [symmetric])
    have "wf_state 4 (words row 32 4)" "wf_state 4 (if fp then words row 41 4 else words prev 24 4)" using w(1) wv(1) by simp_all
    note i = pin_iff [OF this, of True]
    show ?thesis unfolding m i by (simp only: simp_thms)
  qed
  have bit: "(row ! 40 - flag ib) mod P31 = 0 \<longleftrightarrow> row ! 40 = flag ib"
  proof -
    have b: "0 \<le> row ! 40" "row ! 40 < P31" using cells_ok_nth [OF r(1), of 40] r(2) by simp_all
    have "row ! 40 = flag ib" if "(row ! 40 - flag ib) mod P31 = 0"
      by (rule small_eq [OF that]) (use b in \<open>auto simp: flag_def P31_def\<close>)
    then show ?thesis by auto
  qed
  have raw: "map (\<lambda>i. if i < 4 then row ! 40 * cells row 36 4 ! i + (1 - row ! 40) * cells row 32 4 ! i
        else row ! 40 * cells row 32 4 ! (i - 4) + (1 - row ! 40) * cells row 36 4 ! (i - 4)) [0..<8]
      = map uint (if ib then words row 36 4 @ words row 32 4 else words row 32 4 @ words row 36 4)" if "row ! 40 = flag ib"
  proof -
    have l: "length (words row 36 4) = 4" "length (words row 32 4) = 4" by (simp_all add: words_def)
    show ?thesis unfolding that
      by (rule nth_equalityI) (use l in \<open>auto simp: flag_def w(2) nth_append\<close>)
  qed
  have out: "map (\<lambda>k. flag rt * (cells row 24 8 ! k - y ! k)) [0..<4] = map (\<lambda>k. flag rt * (cells row 24 4 ! k - y ! k)) [0..<4]" for y
    using k by simp
  have one: "flag True * x = x" for x by (simp add: flag_def)
  have wr: "wf_state 8 (if ib then words row 36 4 @ words row 32 4 else words row 32 4 @ words row 36 4)"
    using w(1) [of 36 4] w(1) [of 32 4] by (auto simp: wf_state_def)
  have single: "(\<forall>c\<in>set [x]. c mod P31 = 0) \<longleftrightarrow> x mod P31 = 0" for x :: int by simp
  show ?thesis
    unfolding path_evaluate_def Let_def set_append ball_Un round_ok_def [symmetric] p cur out
    unfolding single
  proof (intro conj_cong refl)
    show "flag True * (row ! 40 * row ! 40 - row ! 40) mod P31 = 0 \<longleftrightarrow> (row ! 40 * row ! 40 - row ! 40) mod P31 = 0" by (simp add: one)
    show "flag True * (row ! 40 - flag ib) mod P31 = 0 \<longleftrightarrow> row ! 40 = flag ib" using bit by (simp add: one)
    show "(\<forall>c\<in>set (map (\<lambda>k. flag fp * (cells row 41 4 ! k - map uint lp ! k)) [0..<4]). c mod P31 = 0) \<longleftrightarrow> (fp \<longrightarrow> words row 41 4 = lp)"
      using pin_iff [OF w(1) [of 41 4] p(5), of fp] by (simp add: w(2))
    show "(\<forall>c\<in>set (map (\<lambda>k. flag rt * (cells row 24 4 ! k - map uint rp ! k)) [0..<4]). c mod P31 = 0) \<longleftrightarrow> (rt \<longrightarrow> words row 24 4 = rp)"
      using pin_iff [OF w(1) [of 24 4] p(8), of rt] by (simp add: w(2))
    assume b: "row ! 40 = flag ib"
    show "(\<forall>c\<in>set (map (\<lambda>i. cells row 0 8 ! i - (flag True * mat_external_expr (map (\<lambda>i. if i < 4 then row ! 40 * cells row 36 4 ! i + (1 - row ! 40) * cells row 32 4 ! i
        else row ! 40 * cells row 32 4 ! (i - 4) + (1 - row ! 40) * cells row 36 4 ! (i - 4)) [0..<8]) ! i + (1 - flag True) * cells prev 24 8 ! i)) [0..<8]). c mod P31 = 0)
      \<longleftrightarrow> words row 0 8 = mat_external_t8 (if ib then words row 36 4 @ words row 32 4 else words row 32 4 @ words row 36 4)"
      unfolding raw [OF b] using in_iff [OF w(1) [of 0 8] wr wv(1) [of 24 8], of True] by (simp add: w(2) wv(2))
  qed
qed

lemma path_row_iff:
  assumes r: "cells_ok row" "length row = 45" and v: "cells_ok prev" "length prev = 45"
    and p: "pre ! 10 = 0" "pre ! 11 = 0" "pre ! 17 = flag rt" "cells pre 18 4 = map uint rp" "wf_state 4 rp"
  shows "(\<forall>c\<in>set (path_evaluate pre row prev). c mod P31 = 0) \<longleftrightarrow>
    round_ok pre row \<and> words row 0 8 = words prev 24 8 \<and> (rt \<longrightarrow> words row 24 4 = rp)"
proof -
  have w: "wf_state n (words row a n)" "cells row a n = map uint (words row a n)" if "a + n \<le> 45" for a n
    using words_facts [OF r(1)] r(2) that by simp_all
  have wv: "wf_state 8 (words prev 24 8)" "cells prev 24 8 = map uint (words prev 24 8)" using words_facts [OF v(1)] v(2) by simp_all
  have out: "map (\<lambda>k. flag rt * (cells row 24 8 ! k - y ! k)) [0..<4] = map (\<lambda>k. flag rt * (map uint (words row 24 4) ! k - y ! k)) [0..<4]" for y
    unfolding w(2) [of 24 4, simplified, symmetric] by (simp add: cells_def)
  have z: "(\<forall>c\<in>set (map (\<lambda>k. 0 * g k) ks). c mod P31 = 0)" "(\<forall>c\<in>set [0 * x]. c mod P31 = 0)" for g :: "nat \<Rightarrow> int" and ks and x :: int by simp_all
  have inp: "(\<forall>c\<in>set (map (\<lambda>i. cells row 0 8 ! i - (0 * h i + (1 - 0) * cells prev 24 8 ! i)) [0..<8]). c mod P31 = 0)
      \<longleftrightarrow> words row 0 8 = words prev 24 8" for h
    using in_iff [OF w(1) [of 0 8] wv(1) wv(1), of False] by (simp add: w(2) wv(2) flag_def)
  show ?thesis
    unfolding path_evaluate_def Let_def set_append ball_Un round_ok_def [symmetric] p z inp out
    using pin_iff [OF w(1) [of 24 4] p(5), of rt] by simp
qed
section \<open>Layouts and preprocessed columns\<close>

lemma comp_layout_snoc: "comp_layout (ds @ [d]) = comp_layout ds @ map (\<lambda>j. (length ds, j)) [0..<d]"
  by (simp add: comp_layout_def enumerate_append_eq)

lemma length_comp_layout [simp]: "length (comp_layout ds) = sum_list ds"
  by (induction ds rule: rev_induct) (simp_all add: comp_layout_snoc, simp add: comp_layout_def)

lemma comp_layout_nth:
  "p < length ds \<Longrightarrow> j < ds ! p \<Longrightarrow> sum_list (take p ds) + j < sum_list ds \<and> comp_layout ds ! (sum_list (take p ds) + j) = (p, j)"
proof (induction ds rule: rev_induct)
  case (snoc d ds)
  show ?case
  proof (cases "p < length ds")
    case True
    then show ?thesis using snoc by (simp add: comp_layout_snoc nth_append)
  next
    case False
    then have "p = length ds" using snoc.prems by simp
    then show ?thesis using snoc.prems by (simp add: comp_layout_snoc nth_append)
  qed
qed simp

lemma comp_layout_cases:
  assumes "c < sum_list ds"
  obtains p j where "p < length ds" "j < ds ! p" "c = sum_list (take p ds) + j" "comp_layout ds ! c = (p, j)"
proof -
  have "\<exists>p j. p < length ds \<and> j < ds ! p \<and> c = sum_list (take p ds) + j" using assms
  proof (induction ds rule: rev_induct)
    case (snoc d ds)
    show ?case
    proof (cases "c < sum_list ds")
      case True
      then obtain p j where "p < length ds" "j < ds ! p" "c = sum_list (take p ds) + j" using snoc.IH by blast
      then show ?thesis by (intro exI [of _ p] exI [of _ j]) (simp add: nth_append)
    next
      case False
      then show ?thesis using snoc.prems by (intro exI [of _ "length ds"] exI [of _ "c - sum_list ds"]) simp
    qed
  qed simp
  then show ?thesis using that comp_layout_nth by metis
qed

lemma index_bit_cell:
  "m31_cell (ucast (if j < 32 then drop_bit j index AND 1 else 0 :: u32)) = flag (drop_bit j (unat index) AND 1 = 1)"
proof -
  have z: "m31_cell 0 = 0" "m31_cell 1 = 1" using m31_cell_canon [of 0] m31_cell_canon [of 1] by (simp_all add: canon_uint P31_def)
  have b: "drop_bit j (unat index) AND 1 = 1 \<longleftrightarrow> bit index j"
    unfolding bit_iff_and_drop_bit_eq_1 [symmetric] by (simp add: bit_unsigned_iff)
  have "drop_bit j index AND 1 = (if bit index j then 1 else 0)"
    by (cases "odd (drop_bit j index)") (simp_all add: bit_iff_odd_drop_bit and_one_eq mod_2_eq_odd)
  moreover have "\<not> j < 32 \<Longrightarrow> \<not> bit index j" using bit_imp_le_length [of index j] by auto
  ultimately show ?thesis unfolding b using z by (auto simp: flag_def)
qed

lemma comp_preproc_row_facts:
  fixes index :: u32 and depth j :: nat
  assumes "wf_state 4 leaf" "wf_state 4 rt" "r < N_REAL_ROWS"
  defines "pre \<equiv> comp_preproc_row leaf index rt depth j r"
  shows "length pre = 22" "cells pre 0 8 = map uint (snd (round_schedule r))" "pre ! 8 = flag (fst (round_schedule r))"
    "pre ! 9 = flag (\<not> fst (round_schedule r))" "pre ! 10 = flag (r = 0)" "pre ! 11 = flag (j = 0 \<and> r = 0)"
    "r = 0 \<Longrightarrow> pre ! 12 = flag (drop_bit j (unat index) AND 1 = 1)"
    "cells pre 13 4 = map uint (if j = 0 \<and> r = 0 then leaf else replicate 4 0)"
    "pre ! 17 = flag (j = depth - 1 \<and> r = N_REAL_ROWS - 1)"
    "cells pre 18 4 = map uint (if j = depth - 1 \<and> r = N_REAL_ROWS - 1 then rt else replicate 4 0)"
proof -
  obtain e rc where s: "round_schedule r = (e, rc)" by (cases "round_schedule r")
  have w: "wf_state 8 rc" using round_schedule_wf [OF assms(3)] s by simp
  have four: "map (\<lambda>k. m31_cell (x ! k)) [0..<4] = map uint x" "length x = 4" if "wf_state 4 x" for x
  proof -
    show l: "length x = 4" using that by (simp add: wf_state_def)
    show "map (\<lambda>k. m31_cell (x ! k)) [0..<4] = map uint x" using l wf_state_nth [OF that] by (intro nth_equalityI) (simp_all add: m31_cell_canon)
  qed
  define lf where "lf = (if j = 0 \<and> r = 0 then leaf else replicate 4 0)"
  define rf where "rf = (if j = depth - 1 \<and> r = N_REAL_ROWS - 1 then rt else replicate 4 0)"
  define bc where "bc = (if r = 0 then flag (drop_bit j (unat index) AND 1 = 1) else 0)"
  have l: "length rc = 8" "length lf = 4" "length rf = 4" using w four(2) [OF assms(1)] four(2) [OF assms(2)] by (simp_all add: lf_def rf_def wf_state_def)
  have pre: "pre = map uint rc @ [flag e, flag (\<not> e), flag (r = 0), flag (j = 0 \<and> r = 0)] @ [bc] @ map uint lf
      @ [flag (j = depth - 1 \<and> r = N_REAL_ROWS - 1)] @ map uint rf"
    unfolding pre_def comp_preproc_row_def s Let_def prod.case map_m31_cell [OF w] four(1) [OF assms(1)] four(1) [OF assms(2)] index_bit_cell
      lf_def rf_def bc_def by (simp add: N_REAL_ROWS_val)
  show "length pre = 22" using l by (simp add: pre)
  show "cells pre 0 8 = map uint (snd (round_schedule r))" using l by (simp add: pre s cells_take)
  show "cells pre 13 4 = map uint (if j = 0 \<and> r = 0 then leaf else replicate 4 0)" unfolding lf_def [symmetric] using l by (simp add: pre cells_take)
  show "cells pre 18 4 = map uint (if j = depth - 1 \<and> r = N_REAL_ROWS - 1 then rt else replicate 4 0)"
    unfolding rf_def [symmetric] using l by (simp add: pre cells_take)
  show "pre ! 8 = flag (fst (round_schedule r))" "pre ! 9 = flag (\<not> fst (round_schedule r))" "pre ! 10 = flag (r = 0)" "pre ! 11 = flag (j = 0 \<and> r = 0)"
    "pre ! 17 = flag (j = depth - 1 \<and> r = N_REAL_ROWS - 1)" using l by (simp_all add: pre s nth_append)
  show "r = 0 \<Longrightarrow> pre ! 12 = flag (drop_bit j (unat index) AND 1 = 1)" using l by (simp add: pre nth_append bc_def)
qed

text \<open>Paths that fit a trace, and their preprocessed columns.\<close>

definition paths_ok :: "nat \<Rightarrow> u64 list list \<Rightarrow> u32 list \<Rightarrow> u64 list list \<Rightarrow> nat list \<Rightarrow> bool" where
  "paths_ok log_size leaves indices roots depths \<longleftrightarrow> length indices = length leaves \<and> length roots = length leaves \<and> length depths = length leaves
     \<and> list_all (wf_state 4) leaves \<and> list_all (wf_state 4) roots \<and> list_all (\<lambda>d. d \<ge> 1) depths
     \<and> sum_list depths * N_REAL_ROWS \<le> 2 ^ log_size"

lemma paths_preproc_rows:
  assumes "paths_ok log_size leaves indices roots depths"
  obtains pre where "build_preproc_multi_var leaves indices roots depths log_size = Some pre" "length pre = 22"
    "\<And>p j r. p < length leaves \<Longrightarrow> j < depths ! p \<Longrightarrow> r < N_REAL_ROWS \<Longrightarrow>
      trace_row pre ((sum_list (take p depths) + j) * N_REAL_ROWS + r) = comp_preproc_row (leaves ! p) (indices ! p) (roots ! p) (depths ! p) j r"
    "\<And>i. i < 2 ^ log_size \<Longrightarrow> sum_list depths * N_REAL_ROWS \<le> i \<Longrightarrow> trace_row pre i = replicate 22 0"
proof -
  note a = assms [unfolded paths_ok_def]
  let ?n = "2 ^ log_size :: nat" and ?layout = "comp_layout depths"
  let ?f = "\<lambda>(path, j). map (comp_preproc_row (leaves ! path) (indices ! path) (roots ! path) (depths ! path) j) [0..<N_REAL_ROWS]"
  let ?rows = "concat (map ?f ?layout)"
  have len: "length ?layout \<le> ?n div N_REAL_ROWS" using a by (simp add: less_eq_div_iff_mult_less_eq N_REAL_ROWS_val)
  have l: "\<forall>xs\<in>set (map ?f ?layout). length xs = N_REAL_ROWS" by auto
  have lr: "length ?rows = sum_list depths * N_REAL_ROWS" using concat_blocks(1) [OF l] by simp
  have lp: "length (pad_rows ?n 22 ?rows) = ?n" using a lr by (simp add: pad_rows_def)
  have b: "build_preproc_multi_var leaves indices roots depths log_size = Some (columns 22 (pad_rows ?n 22 ?rows))"
    using a len by (simp add: build_preproc_multi_var_def Let_def)
  show ?thesis
  proof (rule that [OF b])
    show "length (columns 22 (pad_rows ?n 22 ?rows)) = 22" by (simp add: columns_def)
    show "trace_row (columns 22 (pad_rows ?n 22 ?rows)) ((sum_list (take p depths) + j) * N_REAL_ROWS + r)
        = comp_preproc_row (leaves ! p) (indices ! p) (roots ! p) (depths ! p) j r" if "p < length leaves" "j < depths ! p" "r < N_REAL_ROWS" for p j r
    proof -
      let ?c = "sum_list (take p depths) + j"
      have c: "?c < sum_list depths" "?layout ! ?c = (p, j)" using comp_layout_nth [of p depths j] that a by simp_all
      have "concat (map ?f ?layout) ! (?c * N_REAL_ROWS + r) = map ?f ?layout ! ?c ! r" using c(1) that(3) by (intro concat_blocks(2) [OF l]) simp_all
      also have "\<dots> = comp_preproc_row (leaves ! p) (indices ! p) (roots ! p) (depths ! p) j r" using c that(3) by simp
      finally have e: "?rows ! (?c * N_REAL_ROWS + r) = comp_preproc_row (leaves ! p) (indices ! p) (roots ! p) (depths ! p) j r" .
      have "?c * N_REAL_ROWS + r < Suc ?c * N_REAL_ROWS" using that(3) by simp
      also have "\<dots> \<le> sum_list depths * N_REAL_ROWS" using c(1) by (intro mult_right_mono) simp_all
      finally have i: "?c * N_REAL_ROWS + r < length ?rows" unfolding lr .
      have e2: "pad_rows ?n 22 ?rows ! (?c * N_REAL_ROWS + r) = comp_preproc_row (leaves ! p) (indices ! p) (roots ! p) (depths ! p) j r"
        using i e unfolding pad_rows_def by (simp only: nth_append if_True)
      have "wf_state 4 (leaves ! p)" "wf_state 4 (roots ! p)" using a that(1) by (simp_all add: list_all_length)
      from comp_preproc_row_facts(1) [OF this that(3)] e2 have "length (pad_rows ?n 22 ?rows ! (?c * N_REAL_ROWS + r)) = 22" by simp
      moreover have "?c * N_REAL_ROWS + r < length (pad_rows ?n 22 ?rows)" using i unfolding pad_rows_def length_append by (rule trans_less_add1)
      ultimately have "trace_row (columns 22 (pad_rows ?n 22 ?rows)) (?c * N_REAL_ROWS + r) = pad_rows ?n 22 ?rows ! (?c * N_REAL_ROWS + r)"
        by (intro trace_row_columns)
      then show ?thesis unfolding e2 .
    qed
    show "trace_row (columns 22 (pad_rows ?n 22 ?rows)) i = replicate 22 0" if "i < ?n" "sum_list depths * N_REAL_ROWS \<le> i" for i
    proof -
      have e: "pad_rows ?n 22 ?rows ! i = replicate 22 0" using that by (simp add: pad_rows_def nth_append lr)
      then show ?thesis using trace_row_columns [of i "pad_rows ?n 22 ?rows" 22] that(1) lp by simp
    qed
  qed
qed

section \<open>Soundness\<close>

text \<open>One level of an accepted trace.\<close>

lemma path_level_sound:
  assumes ok: "paths_ok log_size leaves indices roots depths" and pre: "build_preproc_multi_var leaves indices roots depths log_size = Some pre"
    and len: "length cols = 45" and sat: "cyclic_sat path_evaluate pre cols (2 ^ log_size)" and p: "p < length leaves" and j: "j < depths ! p"
  defines "c \<equiv> (sum_list (take p depths) + j) * N_REAL_ROWS" and "ib \<equiv> drop_bit j (unat (indices ! p)) AND 1 = 1"
  shows "wf_state 4 (words (trace_row cols c) 36 4)"
    "words (trace_row cols c) 32 4 = (if j = 0 then leaves ! p else words (trace_row cols (c - 1)) 24 4)"
    "words (trace_row cols (c + (N_REAL_ROWS - 1))) 24 4 = (let s = words (trace_row cols c) 36 4; cur = words (trace_row cols c) 32 4
       in if ib then compress_t8 s cur else compress_t8 cur s)"
    "j = depths ! p - 1 \<Longrightarrow> words (trace_row cols (c + (N_REAL_ROWS - 1))) 24 4 = roots ! p"
proof -
  let ?n = "2 ^ log_size :: nat"
  note a = ok [unfolded paths_ok_def]
  define row where "row i = trace_row cols i" for i
  have wf: "cells_ok (row i)" "length (row i) = 45" if "i < ?n" for i
    using sat that len by (simp_all add: cyclic_sat_def row_def) (simp add: trace_row_def)
  obtain pre' where pre': "build_preproc_multi_var leaves indices roots depths log_size = Some pre'"
    and rows: "\<And>p j r. p < length leaves \<Longrightarrow> j < depths ! p \<Longrightarrow> r < N_REAL_ROWS \<Longrightarrow>
      trace_row pre' ((sum_list (take p depths) + j) * N_REAL_ROWS + r) = comp_preproc_row (leaves ! p) (indices ! p) (roots ! p) (depths ! p) j r"
    using paths_preproc_rows [OF ok] by metis
  have "pre' = pre" using pre pre' by simp
  then have prow: "trace_row pre (c + r) = comp_preproc_row (leaves ! p) (indices ! p) (roots ! p) (depths ! p) j r" if "r < N_REAL_ROWS" for r
    using rows [OF p j that] by (simp add: c_def)
  have wl: "wf_state 4 (leaves ! p)" "wf_state 4 (roots ! p)" using a p by (simp_all add: list_all_length)
  note f = comp_preproc_row_facts [OF wl, where index = "indices ! p" and depth = "depths ! p" and j = j, folded ib_def]
  have bound: "c + r < ?n" if "r < N_REAL_ROWS" for r
  proof -
    have "sum_list (take p depths) + j < sum_list depths" using comp_layout_nth [of p depths j] p j a by simp
    then have "Suc (sum_list (take p depths) + j) * N_REAL_ROWS \<le> sum_list depths * N_REAL_ROWS" by (intro mult_right_mono) simp_all
    also have "\<dots> \<le> ?n" using a by simp
    finally show ?thesis using that unfolding c_def mult_Suc by linarith
  qed
  have con: "\<forall>x\<in>set (path_evaluate (comp_preproc_row (leaves ! p) (indices ! p) (roots ! p) (depths ! p) j r) (row (c + r)) (row ((c + r + ?n - 1) mod ?n))). x mod P31 = 0"
    if "r < N_REAL_ROWS" for r using sat bound [OF that] prow [OF that] by (simp add: cyclic_sat_def row_def)
  have z: "0 < N_REAL_ROWS" "0 \<noteq> N_REAL_ROWS - 1" by (simp_all add: N_REAL_ROWS_val)
  have w4: "wf_state 4 (if b then x else replicate 4 0)" if "wf_state 4 x" for b and x :: "u64 list"
    using that canon_zero by (simp add: wf_state_def)
  define q where "q = (c + 0 + ?n - 1) mod ?n"
  have q: "q < ?n" by (simp add: q_def)
  have first: "round_ok (comp_preproc_row (leaves ! p) (indices ! p) (roots ! p) (depths ! p) j 0) (row c)
      \<and> words (row c) 32 4 = (if j = 0 then words (row c) 41 4 else words (row q) 24 4)
      \<and> (j = 0 \<longrightarrow> words (row c) 41 4 = leaves ! p)
      \<and> words (row c) 0 8 = mat_external_t8 (if ib then words (row c) 36 4 @ words (row c) 32 4 else words (row c) 32 4 @ words (row c) 36 4)"
  proof -
    have b: "c < ?n" using bound [OF z(1)] by simp
    have k: "comp_preproc_row (leaves ! p) (indices ! p) (roots ! p) (depths ! p) j 0 ! 10 = flag True" using f(5) [OF z(1)] by simp
    have m: "comp_preproc_row (leaves ! p) (indices ! p) (roots ! p) (depths ! p) j 0 ! 11 = flag (j = 0)" using f(6) [OF z(1)] by simp
    note i = path_first_row_iff [OF wf [OF b] wf [OF q] k m f(7) [OF z(1) refl] f(8) [OF z(1)] w4 [OF wl(1)] f(9) [OF z(1)] f(10) [OF z(1)] w4 [OF wl(2)]]
    from con [OF z(1)] have "\<forall>x\<in>set (path_evaluate (comp_preproc_row (leaves ! p) (indices ! p) (roots ! p) (depths ! p) j 0) (row c) (row q)). x mod P31 = 0"
      by (simp add: q_def)
    from this [unfolded i] show ?thesis by simp
  qed
  have later: "round_ok (comp_preproc_row (leaves ! p) (indices ! p) (roots ! p) (depths ! p) j (Suc r)) (row (c + Suc r))
      \<and> words (row (c + Suc r)) 0 8 = words (row (c + r)) 24 8 \<and> (j = depths ! p - 1 \<and> Suc r = N_REAL_ROWS - 1 \<longrightarrow> words (row (c + Suc r)) 24 4 = roots ! p)"
    if r: "Suc r < N_REAL_ROWS" for r
  proof -
    have b: "c + Suc r < ?n" "c + r < ?n" using bound [OF r] by simp_all
    have e: "(c + Suc r + ?n - 1) mod ?n = c + r" using b by simp
    have k: "comp_preproc_row (leaves ! p) (indices ! p) (roots ! p) (depths ! p) j (Suc r) ! 10 = 0" using f(5) [OF r] by (simp add: flag_def)
    have m: "comp_preproc_row (leaves ! p) (indices ! p) (roots ! p) (depths ! p) j (Suc r) ! 11 = 0" using f(6) [OF r] by (simp add: flag_def)
    note i = path_row_iff [OF wf [OF b(1)] wf [OF b(2)] k m f(9) [OF r] f(10) [OF r] w4 [OF wl(2)]]
    from con [OF r] have "\<forall>x\<in>set (path_evaluate (comp_preproc_row (leaves ! p) (indices ! p) (roots ! p) (depths ! p) j (Suc r)) (row (c + Suc r)) (row (c + r))). x mod P31 = 0"
      unfolding e .
    from this [unfolded i] show ?thesis by auto
  qed
  have rok: "round_ok (comp_preproc_row (leaves ! p) (indices ! p) (roots ! p) (depths ! p) j r) (row (c + r))" if "r < N_REAL_ROWS" for r
    using first later that by (cases r) simp_all
  have rnd: "words (row (c + r)) 24 8 = round_state (words (row (c + r)) 0 8) r" if r: "r < N_REAL_ROWS" for r
  proof -
    have "round_cells (fst (round_schedule r), snd (round_schedule r)) (words (row (c + r)) 0 8) = (words (row (c + r)) 8 8, words (row (c + r)) 16 8, words (row (c + r)) 24 8)"
      by (rule iffD1 [OF round_ok_real [OF wf(1) [OF bound [OF r]] _ f(2) [OF r] round_schedule_wf [OF r] f(3) [OF r] f(4) [OF r]] rok [OF r]])
        (simp add: wf(2) [OF bound [OF r]])
    then show ?thesis by (intro round_cells_state) simp
  qed
  let ?s = "mat_external_t8 (if ib then words (row c) 36 4 @ words (row c) 32 4 else words (row c) 32 4 @ words (row c) 36 4)"
  have "words (row (c + (N_REAL_ROWS - 1))) 0 8 = state_at ?s (N_REAL_ROWS - 1) \<and> words (row (c + (N_REAL_ROWS - 1))) 24 8 = state_at ?s (Suc (N_REAL_ROWS - 1))"
  proof (rule state_chain [where n = N_REAL_ROWS and ins = "\<lambda>r. words (row (c + r)) 0 8" and outs = "\<lambda>r. words (row (c + r)) 24 8"])
    show "words (row (c + r)) 24 8 = round_state (words (row (c + r)) 0 8) r" if "r < N_REAL_ROWS" for r by (rule rnd [OF that])
    show "words (row (c + 0)) 0 8 = ?s" using first by simp
    show "words (row (c + Suc r)) 0 8 = words (row (c + r)) 24 8" if "Suc r < N_REAL_ROWS" for r using later [OF that] by blast
    show "N_REAL_ROWS - 1 < N_REAL_ROWS" by (simp add: N_REAL_ROWS_val)
  qed
  moreover have "Suc (N_REAL_ROWS - 1) = N_REAL_ROWS" by (simp add: N_REAL_ROWS_val)
  ultimately have out: "words (row (c + (N_REAL_ROWS - 1))) 24 4 = take 4 (state_at ?s N_REAL_ROWS)" by (simp only: words_take)
  have cn: "c < ?n" using bound [OF z(1)] by simp
  have w: "wf_state 4 (words (row c) 36 4)" "wf_state 4 (words (row c) 32 4)"
    using words_facts(1) [OF wf(1) [OF cn], of 36 4] words_facts(1) [OF wf(1) [OF cn], of 32 4] wf(2) [OF cn] by simp_all
  show "wf_state 4 (words (trace_row cols c) 36 4)" using w(1) by (simp add: row_def)
  show "words (trace_row cols (c + (N_REAL_ROWS - 1))) 24 4 = (let s = words (trace_row cols c) 36 4; cur = words (trace_row cols c) 32 4
       in if ib then compress_t8 s cur else compress_t8 cur s)"
    using out compress_permute [OF w] compress_permute [OF w(2,1)] unfolding row_def Let_def by (cases ib) simp_all
  show "words (trace_row cols c) 32 4 = (if j = 0 then leaves ! p else words (trace_row cols (c - 1)) 24 4)"
  proof (cases "j = 0")
    case False
    then have "0 < c" by (simp add: c_def N_REAL_ROWS_val)
    then have "q = c - 1" using cn by (simp add: q_def mod_if)
    then show ?thesis using first False by (simp add: row_def)
  qed (use first in \<open>simp add: row_def\<close>)
  show "words (trace_row cols (c + (N_REAL_ROWS - 1))) 24 4 = roots ! p" if "j = depths ! p - 1"
    using later [of "N_REAL_ROWS - 2"] that by (simp add: row_def N_REAL_ROWS_val)
qed

lemma fold_path_snoc:
  "length sibs = length bits \<Longrightarrow> fold_path H leaf (sibs @ [s]) (bits @ [b]) = (let cur = fold_path H leaf sibs bits in if b then H s cur else H cur s)"
  by (simp add: fold_path_def path_step_def Let_def)

lemma index_bits_snoc: "index_bits (Suc n) idx = index_bits n idx @ [drop_bit n idx AND 1 = 1]"
  by (simp add: index_bits_def)

text \<open>The siblings an accepted trace uses for a path.\<close>

definition trace_sibs :: "int list list \<Rightarrow> nat list \<Rightarrow> nat \<Rightarrow> u64 list list" where
  "trace_sibs cols depths p = map (\<lambda>j. words (trace_row cols ((sum_list (take p depths) + j) * N_REAL_ROWS)) 36 4) [0..<depths ! p]"

lemma paths_trace_sound:
  assumes ok: "paths_ok log_size leaves indices roots depths" and pre: "build_preproc_multi_var leaves indices roots depths log_size = Some pre"
    and len: "length cols = 45" and sat: "cyclic_sat path_evaluate pre cols (2 ^ log_size)" and p: "p < length leaves"
  shows "length (trace_sibs cols depths p) = depths ! p" "list_all (wf_state 4) (trace_sibs cols depths p)"
    "fold_path compress_t8 (leaves ! p) (trace_sibs cols depths p) (index_bits (depths ! p) (unat (indices ! p))) = roots ! p"
proof -
  let ?c = "\<lambda>j. (sum_list (take p depths) + j) * N_REAL_ROWS" and ?last = "N_REAL_ROWS - 1" and ?i = "unat (indices ! p)"
  let ?s = "\<lambda>j. words (trace_row cols (?c j)) 36 4"
  note lev = path_level_sound [OF ok pre len sat p]
  show "length (trace_sibs cols depths p) = depths ! p" by (simp add: trace_sibs_def)
  show "list_all (wf_state 4) (trace_sibs cols depths p)" unfolding list_all_length using lev(1) by (simp add: trace_sibs_def)
  have ind: "words (trace_row cols (?c j + ?last)) 24 4 = fold_path compress_t8 (leaves ! p) (map ?s [0..<Suc j]) (index_bits (Suc j) ?i)"
    if "j < depths ! p" for j using that
  proof (induction j)
    case 0
    show ?case using lev(2,3) [OF 0] by (simp add: index_bits_def Let_def)
  next
    case (Suc j)
    have j: "j < depths ! p" using Suc.prems by simp
    have e: "?c (Suc j) - 1 = ?c j + ?last" by (simp add: N_REAL_ROWS_val)
    have l: "length (map ?s [0..<Suc j]) = length (index_bits (Suc j) ?i)" by simp
    have u: "map ?s [0..<Suc (Suc j)] = map ?s [0..<Suc j] @ [?s (Suc j)]" by simp
    have cur: "words (trace_row cols (?c (Suc j))) 32 4 = fold_path compress_t8 (leaves ! p) (map ?s [0..<Suc j]) (index_bits (Suc j) ?i)"
      using lev(2) [OF Suc.prems] Suc.IH [OF j] unfolding e by simp
    show ?case unfolding lev(3) [OF Suc.prems] u index_bits_snoc [of "Suc j"] fold_path_snoc [OF l] cur Let_def by (rule refl)
  qed
  have d: "1 \<le> depths ! p" using ok p by (simp add: paths_ok_def list_all_length)
  have "fold_path compress_t8 (leaves ! p) (map ?s [0..<Suc (depths ! p - 1)]) (index_bits (Suc (depths ! p - 1)) ?i) = roots ! p"
    using ind [of "depths ! p - 1"] lev(4) [of "depths ! p - 1"] d by simp
  moreover have "Suc (depths ! p - 1) = depths ! p" using d by simp
  ultimately show "fold_path compress_t8 (leaves ! p) (trace_sibs cols depths p) (index_bits (depths ! p) ?i) = roots ! p"
    by (simp only: trace_sibs_def)
qed

section \<open>Completeness\<close>

lemma norm4_wf: "wf_state 4 (norm4 v)"
  by (auto simp: norm4_def wf_state_def canon_mod)

lemma norm4_id: "wf_state 4 v \<Longrightarrow> norm4 v = v"
  unfolding norm4_def by (intro nth_equalityI) (simp_all add: wf_state_def canon_mod_id)

text \<open>The node, the other cells and the first state of level \<open>j\<close> of path \<open>p\<close>.\<close>

definition level_cur :: "u64 list list \<Rightarrow> u64 list list list \<Rightarrow> bool list list \<Rightarrow> nat \<Rightarrow> nat \<Rightarrow> u64 list" where
  "level_cur leaves sibs bits p j = fold_path compress_t8 (norm4 (leaves ! p)) (map norm4 (take j (sibs ! p))) (take j (bits ! p))"

definition level_rest :: "u64 list list \<Rightarrow> u64 list list list \<Rightarrow> bool list list \<Rightarrow> nat \<Rightarrow> nat \<Rightarrow> nat \<Rightarrow> int list" where
  "level_rest leaves sibs bits p j r =
     (if r = 0 then map m31_cell (level_cur leaves sibs bits p j) @ map m31_cell (norm4 (sibs ! p ! j)) @ [flag (bits ! p ! j)]
        @ (if j = 0 then map (\<lambda>k. m31_cell (leaves ! p ! k)) [0..<4] else replicate 4 0)
      else replicate 13 0)"

definition level_in :: "u64 list list \<Rightarrow> u64 list list list \<Rightarrow> bool list list \<Rightarrow> nat \<Rightarrow> nat \<Rightarrow> u64 list" where
  "level_in leaves sibs bits p j = (let cur = level_cur leaves sibs bits p j; s = norm4 (sibs ! p ! j)
     in mat_external_t8 (if bits ! p ! j then s @ cur else cur @ s))"

definition level_out :: "u64 list list \<Rightarrow> u64 list list list \<Rightarrow> bool list list \<Rightarrow> nat \<times> nat \<Rightarrow> u64 list" where
  "level_out leaves sibs bits = (\<lambda>(p, j). state_at (level_in leaves sibs bits p j) N_REAL_ROWS)"

definition level_rows :: "u64 list list \<Rightarrow> u64 list list list \<Rightarrow> bool list list \<Rightarrow> nat \<times> nat \<Rightarrow> int list list" where
  "level_rows leaves sibs bits = (\<lambda>(p, j). map (\<lambda>r. perm_row (level_rest leaves sibs bits p j) (round_schedule r)
     (state_at (level_in leaves sibs bits p j) r) r) [0..<N_REAL_ROWS])"

lemma fold_path_wf:
  "wf_state 4 leaf \<Longrightarrow> list_all (wf_state 4) sibs \<Longrightarrow> length sibs = length bits \<Longrightarrow> wf_state 4 (fold_path compress_t8 leaf sibs bits)"
proof (induction sibs arbitrary: leaf bits)
  case (Cons s sibs)
  then obtain b bs where "bits = b # bs" by (cases bits) auto
  then show ?case using Cons by (simp add: compress_t8_wf)
qed simp

lemma level_cur_wf: "j \<le> length (sibs ! p) \<Longrightarrow> length (bits ! p) = length (sibs ! p) \<Longrightarrow> wf_state 4 (level_cur leaves sibs bits p j)"
  unfolding level_cur_def by (rule fold_path_wf) (auto simp: norm4_wf list_all_iff)

lemma level_in_wf: "j < length (sibs ! p) \<Longrightarrow> length (bits ! p) = length (sibs ! p) \<Longrightarrow> wf_state 8 (level_in leaves sibs bits p j)"
  unfolding level_in_def Let_def using level_cur_wf [of j sibs p bits leaves] norm4_wf [of "sibs ! p ! j"]
  by (intro mat_external_t8_wf) (auto simp: wf_state_def)

lemma level_cur_Suc:
  assumes "j < length (sibs ! p)" "length (bits ! p) = length (sibs ! p)"
  shows "level_cur leaves sibs bits p (Suc j) = take 4 (level_out leaves sibs bits (p, j))"
proof -
  have w: "wf_state 4 (level_cur leaves sibs bits p j)" "wf_state 4 (norm4 (sibs ! p ! j))" using assms by (simp_all add: level_cur_wf norm4_wf)
  have l: "length (map norm4 (take j (sibs ! p))) = length (take j (bits ! p))" using assms by simp
  have "level_cur leaves sibs bits p (Suc j) = (let cur = level_cur leaves sibs bits p j; s = norm4 (sibs ! p ! j)
      in if bits ! p ! j then compress_t8 s cur else compress_t8 cur s)"
    using fold_path_snoc [OF l, of compress_t8] assms by (simp add: level_cur_def take_Suc_conv_app_nth Let_def)
  then show ?thesis using compress_permute [OF w] compress_permute [OF w(2,1)] by (auto simp: level_out_def level_in_def Let_def)
qed

lemma comp_block_eq:
  "comp_block (if j = 0 then Some (leaves ! p) else None) (level_cur leaves sibs bits p j) (norm4 (sibs ! p ! j)) (bits ! p ! j)
     = (level_rows leaves sibs bits (p, j), level_out leaves sibs bits (p, j))"
proof -
  have "(\<lambda>r. if r = 0 then map m31_cell (level_cur leaves sibs bits p j) @ map m31_cell (norm4 (sibs ! p ! j)) @ [flag (bits ! p ! j)]
      @ (case if j = 0 then Some (leaves ! p) else None of Some leaf \<Rightarrow> map (\<lambda>k. m31_cell (leaf ! k)) [0..<4] | None \<Rightarrow> replicate 4 0)
      else replicate 13 0) = level_rest leaves sibs bits p j"
    by (rule ext) (simp add: level_rest_def)
  then show ?thesis unfolding comp_block_def Let_def perm_loop_rows by (simp only: level_rows_def level_out_def level_in_def Let_def prod.case)
qed

lemma level_cur_0: "level_cur leaves sibs bits p 0 = norm4 (leaves ! p)"
  by (simp add: level_cur_def)

text \<open>The steps of one path, then of all paths.\<close>

lemma comp_steps_path:
  assumes "length (bits ! p) = length (sibs ! p)" "depths ! p = length (sibs ! p)" "j < length (sibs ! p)"
  shows "foldl (comp_step leaves sibs bits depths) (rows, roots, cur, st) (map (Pair p) [0..<Suc j]) =
    (rows @ concat (map (\<lambda>j. level_rows leaves sibs bits (p, j)) [0..<Suc j]),
     (if Suc j = depths ! p then roots @ [level_cur leaves sibs bits p (Suc j)] else roots),
     level_cur leaves sibs bits p (Suc j), level_out leaves sibs bits (p, j))"
  using assms(3)
proof (induction j)
  case 0
  have "comp_step leaves sibs bits depths (rows, roots, cur, st) (p, 0) =
     (rows @ level_rows leaves sibs bits (p, 0), (if 0 = depths ! p - 1 then roots @ [level_cur leaves sibs bits p (Suc 0)] else roots),
      level_cur leaves sibs bits p (Suc 0), level_out leaves sibs bits (p, 0))"
    using comp_block_eq [of 0 leaves p sibs bits] level_cur_Suc [OF 0 assms(1)] by (simp add: comp_step_def Let_def level_cur_0)
  moreover have "(0 = depths ! p - 1) = (Suc 0 = depths ! p)" using 0 assms(2) by linarith
  ultimately show ?case by simp
next
  case (Suc j)
  have j: "j < length (sibs ! p)" using Suc.prems by simp
  have u: "map (Pair p) [0..<Suc (Suc j)] = map (Pair p) [0..<Suc j] @ [(p, Suc j)]" by simp
  have "comp_step leaves sibs bits depths (rs, rts, level_cur leaves sibs bits p (Suc j), s) (p, Suc j) =
     (rs @ level_rows leaves sibs bits (p, Suc j), (if Suc j = depths ! p - 1 then rts @ [level_cur leaves sibs bits p (Suc (Suc j))] else rts),
      level_cur leaves sibs bits p (Suc (Suc j)), level_out leaves sibs bits (p, Suc j))" for rs rts s
  proof (cases "Suc j = depths ! p - 1")
    case True
    then have d: "depths ! p = Suc (Suc j)" by simp
    show ?thesis using comp_block_eq [of "Suc j" leaves p sibs bits] level_cur_Suc [OF Suc.prems assms(1), of leaves] by (simp add: comp_step_def Let_def d)
  next
    case False
    then show ?thesis using comp_block_eq [of "Suc j" leaves p sibs bits] level_cur_Suc [OF Suc.prems assms(1), of leaves]
      by (simp add: comp_step_def Let_def)
  qed
  then show ?case unfolding u foldl_append Suc.IH [OF j] using Suc.prems assms(2) by auto
qed

definition path_roots :: "u64 list list \<Rightarrow> u64 list list list \<Rightarrow> bool list list \<Rightarrow> u64 list list" where
  "path_roots leaves sibs bits = map (\<lambda>p. fold_path compress_t8 (leaves ! p) (map norm4 (sibs ! p)) (bits ! p)) [0..<length leaves]"

definition paths_in :: "nat \<Rightarrow> u64 list list \<Rightarrow> u64 list list list \<Rightarrow> bool list list \<Rightarrow> bool" where
  "paths_in log_size leaves sibs bits \<longleftrightarrow> leaves \<noteq> [] \<and> list_all (wf_state 4) leaves \<and> length sibs = length leaves
     \<and> list_all2 (\<lambda>b s. s \<noteq> [] \<and> length b = length s) bits sibs \<and> sum_list (map length sibs) * N_REAL_ROWS \<le> 2 ^ log_size"

lemma comp_layout_upt: "comp_layout ds = concat (map (\<lambda>p. map (Pair p) [0..<ds ! p]) [0..<length ds])"
proof (induction ds rule: rev_induct)
  case (snoc d ds)
  have "map (\<lambda>p. map (Pair p) [0..<(ds @ [d]) ! p]) [0..<length ds] = map (\<lambda>p. map (Pair p) [0..<ds ! p]) [0..<length ds]"
    by (simp add: nth_append)
  then show ?case using snoc by (simp add: comp_layout_snoc del: map_eq_conv)
qed (simp add: comp_layout_def)

lemma comp_steps_paths:
  assumes "m < length depths" "\<And>p. p \<le> m \<Longrightarrow> length (bits ! p) = length (sibs ! p) \<and> depths ! p = length (sibs ! p) \<and> sibs ! p \<noteq> []"
  shows "foldl (comp_step leaves sibs bits depths) ([], [], cur, st) (concat (map (\<lambda>p. map (Pair p) [0..<depths ! p]) [0..<Suc m])) =
    (concat (map (level_rows leaves sibs bits) (concat (map (\<lambda>p. map (Pair p) [0..<depths ! p]) [0..<Suc m]))),
     map (\<lambda>p. level_cur leaves sibs bits p (depths ! p)) [0..<Suc m],
     level_cur leaves sibs bits m (depths ! m), level_out leaves sibs bits (m, depths ! m - 1))"
  using assms
proof (induction m)
  case 0
  have a: "length (bits ! 0) = length (sibs ! 0)" "depths ! 0 = length (sibs ! 0)" "depths ! 0 - 1 < length (sibs ! 0)" "Suc (depths ! 0 - 1) = depths ! 0"
    using 0(2) [of 0] by simp_all
  show ?case using comp_steps_path [OF a(1,2,3), of leaves "[]" "[]" cur st] unfolding a(4) by (simp add: o_def)
next
  case (Suc m)
  have a: "length (bits ! Suc m) = length (sibs ! Suc m)" "depths ! Suc m = length (sibs ! Suc m)" "depths ! Suc m - 1 < length (sibs ! Suc m)"
    "Suc (depths ! Suc m - 1) = depths ! Suc m"
    using Suc.prems(2) [of "Suc m"] by simp_all
  have u: "concat (map (\<lambda>p. map (Pair p) [0..<depths ! p]) [0..<Suc (Suc m)]) =
      concat (map (\<lambda>p. map (Pair p) [0..<depths ! p]) [0..<Suc m]) @ map (Pair (Suc m)) [0..<depths ! Suc m]" by simp
  have ih: "foldl (comp_step leaves sibs bits depths) ([], [], cur, st) (concat (map (\<lambda>p. map (Pair p) [0..<depths ! p]) [0..<Suc m])) =
    (concat (map (level_rows leaves sibs bits) (concat (map (\<lambda>p. map (Pair p) [0..<depths ! p]) [0..<Suc m]))),
     map (\<lambda>p. level_cur leaves sibs bits p (depths ! p)) [0..<Suc m],
     level_cur leaves sibs bits m (depths ! m), level_out leaves sibs bits (m, depths ! m - 1))"
    using Suc.prems by (intro Suc.IH) auto
  show ?case unfolding u foldl_append ih comp_steps_path [OF a(1,2,3), of leaves, unfolded a(4)] by (simp add: o_def)
qed

lemma build_paths_raw_eq:
  assumes "paths_in log_size leaves sibs bits"
  defines "layout \<equiv> comp_layout (map length sibs)"
  shows "build_paths_raw leaves sibs bits log_size =
    Some (columns 45 (concat (map (level_rows leaves sibs bits) layout)
       @ pad_loop 13 (2 ^ log_size - length layout * N_REAL_ROWS) (level_out leaves sibs bits (last layout))), path_roots leaves sibs bits)"
proof -
  note a = assms(1) [unfolded paths_in_def]
  let ?ds = "map length sibs" and ?m = "length leaves - 1"
  have m: "Suc ?m = length leaves" "Suc ?m = length ?ds" using a by (simp_all add: Suc_leI length_greater_0_conv [symmetric] del: length_greater_0_conv)
  have each: "length (bits ! p) = length (sibs ! p) \<and> ?ds ! p = length (sibs ! p) \<and> sibs ! p \<noteq> []" if "p < length leaves" for p
    using a that list_all2_nthD2 [of _ bits sibs p] by fastforce
  have ds1: "list_all (\<lambda>d. d \<ge> 1) ?ds" "list_all2 (\<lambda>b d. length b = d) bits ?ds" "length bits = length leaves"
    using a each by (auto simp: list_all_length list_all2_conv_all_nth Suc_leI)
  have last: "last layout = (?m, ?ds ! ?m - 1)"
  proof -
    have "layout = concat (map (\<lambda>p. map (Pair p) [0..<?ds ! p]) [0..<?m]) @ map (Pair ?m) [0..<?ds ! ?m]"
      unfolding layout_def comp_layout_upt m(2) [symmetric] by simp
    moreover have "?ds ! ?m > 0" using each [of ?m] m(1) by simp
    ultimately show ?thesis by (simp add: last_map)
  qed
  have roots: "map (\<lambda>p. level_cur leaves sibs bits p (?ds ! p)) [0..<length leaves] = path_roots leaves sibs bits"
  proof -
    have "level_cur leaves sibs bits p (?ds ! p) = fold_path compress_t8 (leaves ! p) (map norm4 (sibs ! p)) (bits ! p)" if "p < length leaves" for p
      using each [OF that] a that by (simp add: level_cur_def norm4_id list_all_length)
    then show ?thesis by (simp add: path_roots_def)
  qed
  have "?m < length ?ds" using m by simp
  then have f: "foldl (comp_step leaves sibs bits ?ds) ([], [], replicate 4 0, replicate 8 0) layout =
     (concat (map (level_rows leaves sibs bits) layout), path_roots leaves sibs bits,
      level_cur leaves sibs bits ?m (?ds ! ?m), level_out leaves sibs bits (last layout))"
  proof -
    assume lt: "?m < length ?ds"
    have lay: "layout = concat (map (\<lambda>p. map (Pair p) [0..<?ds ! p]) [0..<length leaves])"
      unfolding layout_def comp_layout_upt m(2) [symmetric] m(1) ..
    show ?thesis unfolding last roots [symmetric] unfolding lay
      by (rule comp_steps_paths [of ?m ?ds bits sibs leaves, OF lt, unfolded m(1)]) (use m in \<open>intro each; linarith\<close>)
  qed
  have g: "\<not> (length leaves < 1 \<or> length sibs \<noteq> length leaves \<or> length bits \<noteq> length leaves \<or> \<not> list_all (\<lambda>d. d \<ge> 1) ?ds
           \<or> \<not> list_all2 (\<lambda>b d. length b = d) bits ?ds)" using a ds1 m by auto
  have fit: "length layout * N_REAL_ROWS \<le> 2 ^ log_size" using a by (simp add: layout_def)
  show ?thesis unfolding build_paths_raw_def Let_def if_not_P [OF g] layout_def [symmetric] f prod.case if_P [OF fit] ..
qed

text \<open>One row of a level.\<close>

lemma level_row_facts:
  assumes "j < length (sibs ! p)" "length (bits ! p) = length (sibs ! p)" "wf_state 4 (leaves ! p)" "r < N_REAL_ROWS"
  defines "row \<equiv> level_rows leaves sibs bits (p, j) ! r" and "s \<equiv> level_in leaves sibs bits p j"
  shows "length row = 45" "cells_ok row" "words row 0 8 = state_at s r" "words row 24 8 = state_at s (Suc r)"
    "round_cells (round_schedule r) (words row 0 8) = (words row 8 8, words row 16 8, words row 24 8)"
    "r = 0 \<Longrightarrow> words row 32 4 = level_cur leaves sibs bits p j" "r = 0 \<Longrightarrow> words row 36 4 = norm4 (sibs ! p ! j)"
    "r = 0 \<Longrightarrow> row ! 40 = flag (bits ! p ! j)" "r = 0 \<Longrightarrow> j = 0 \<Longrightarrow> words row 41 4 = leaves ! p"
proof -
  let ?rest = "level_rest leaves sibs bits p j" and ?cur = "level_cur leaves sibs bits p j" and ?sib = "norm4 (sibs ! p ! j)"
  let ?lf = "if j = 0 then leaves ! p else replicate 4 0"
  obtain e rc where sc: "round_schedule r = (e, rc)" by (cases "round_schedule r")
  have ws: "wf_state 8 s" using level_in_wf assms(1,2) by (simp add: s_def)
  have w: "wf_state 8 (state_at s r)" "wf_state 8 rc" using state_at_wf [OF ws, of r] round_schedule_wf [OF assms(4)] assms(4) sc by simp_all
  have wc: "wf_state 4 ?cur" "wf_state 4 ?sib" using assms(1,2) by (simp_all add: level_cur_wf norm4_wf)
  have wf: "wf_state 4 ?lf" using assms(3) canon_zero by (simp add: wf_state_def)
  have l: "length ?cur = 4" "length ?sib = 4" "length ?lf = 4" using wc wf by (simp_all add: wf_state_def)
  have z: "m31_cell 0 = 0" using m31_cell_canon [OF canon_zero] by simp
  have leaf: "map (\<lambda>k. m31_cell (leaves ! p ! k)) [0..<4] = map m31_cell (leaves ! p)"
    using assms(3) by (intro nth_equalityI) (simp_all add: wf_state_def)
  have rest0: "?rest 0 = map uint ?cur @ map uint ?sib @ [flag (bits ! p ! j)] @ map uint ?lf"
    unfolding map_m31_cell [OF wc(1), symmetric] map_m31_cell [OF wc(2), symmetric] map_m31_cell [OF wf, symmetric] level_rest_def leaf
    by (simp add: z)
  have rr: "length (?rest r) = 13" "cells_ok (?rest r)"
  proof -
    have one: "cells_ok [flag (bits ! p ! j)]" by (simp add: cells_ok_def flag_def P31_def)
    have zeros: "?rest r = replicate 13 0" if "r \<noteq> 0" using that by (simp add: level_rest_def)
    show "length (?rest r) = 13" using l zeros by (cases "r = 0") (simp_all add: rest0)
    have "cells_ok (?rest 0)" using one uint_cells_ok [OF wc(1)] uint_cells_ok [OF wc(2)] uint_cells_ok [OF wf] unfolding rest0 row_sat_simps by blast
    then show "cells_ok (?rest r)" using zeros by (cases "r = 0") (simp_all add: cells_ok_def)
  qed
  have row: "row = perm_row ?rest (e, rc) (state_at s r) r" using assms(4) by (simp add: row_def level_rows_def sc s_def)
  note f = perm_row_facts [where e = e and rest = ?rest and r = r, OF w rr, folded row]
  show "length row = 45" "cells_ok row" "words row 0 8 = state_at s r" using f(1-3) by simp_all
  show rc: "round_cells (round_schedule r) (words row 0 8) = (words row 8 8, words row 16 8, words row 24 8)" using f(3,4) by (simp add: sc)
  then show "words row 24 8 = state_at s (Suc r)" using f(3) by (simp add: round_cells_state)
  have c: "cells row (32 + a) b = cells (cells row 32 13) a b" if "a + b \<le> 13" for a b
    using that by (auto simp: cells_def add.assoc)
  assume r: "r = 0"
  have rest: "cells row 32 13 = map uint ?cur @ map uint ?sib @ [flag (bits ! p ! j)] @ map uint ?lf" using f(5) r rest0 by simp
  show "words row 32 4 = ?cur" by (rule words_eqI) (use c [of 0 4] l in \<open>simp add: rest cells_take\<close>)
  show "words row 36 4 = ?sib" by (rule words_eqI) (use c [of 4 4] l in \<open>simp add: rest cells_take\<close>)
  show "row ! 40 = flag (bits ! p ! j)"
  proof -
    have "row ! 40 = cells row 32 13 ! 8" by (simp add: cells_def)
    then show ?thesis using l by (simp add: rest nth_append)
  qed
  show "words row 41 4 = leaves ! p" if "j = 0" by (rule words_eqI) (use c [of 9 4] l that in \<open>simp add: rest cells_take\<close>)
qed

lemma path_roots_wf: "paths_in log_size leaves sibs bits \<Longrightarrow> list_all (wf_state 4) (path_roots leaves sibs bits)"
  unfolding paths_in_def path_roots_def list_all_length
  by (auto intro!: fold_path_wf simp: norm4_wf list_all_length list_all2_conv_all_nth)

lemma paths_in_ok:
  "paths_in log_size leaves sibs bits \<Longrightarrow> length indices = length leaves \<Longrightarrow>
    paths_ok log_size leaves indices (path_roots leaves sibs bits) (map length sibs)"
  using path_roots_wf [of log_size leaves sibs bits] unfolding paths_in_def paths_ok_def
  by (auto simp: path_roots_def list_all_length list_all2_conv_all_nth Suc_leI)

text \<open>The rows of an honest trace.\<close>

lemma paths_trace_rows:
  assumes i: "paths_in log_size leaves sibs bits"
  obtains cols where "build_paths_raw leaves sibs bits log_size = Some (cols, path_roots leaves sibs bits)" "length cols = 45"
    "\<And>p j r. p < length leaves \<Longrightarrow> j < length (sibs ! p) \<Longrightarrow> r < N_REAL_ROWS \<Longrightarrow>
      trace_row cols ((sum_list (take p (map length sibs)) + j) * N_REAL_ROWS + r) = level_rows leaves sibs bits (p, j) ! r"
    "\<And>k. k < 2 ^ log_size \<Longrightarrow> sum_list (map length sibs) * N_REAL_ROWS \<le> k \<Longrightarrow>
      trace_row cols k = pad_row 13 (if k = sum_list (map length sibs) * N_REAL_ROWS
        then level_out leaves sibs bits (last (comp_layout (map length sibs))) else replicate 8 0)"
    "wf_state 8 (level_out leaves sibs bits (last (comp_layout (map length sibs))))"
proof -
  let ?ds = "map length sibs" and ?n = "2 ^ log_size :: nat"
  let ?T = "sum_list ?ds * N_REAL_ROWS" and ?last = "level_out leaves sibs bits (last (comp_layout ?ds))"
  note a = i [unfolded paths_in_def]
  have each: "length (bits ! p) = length (sibs ! p) \<and> sibs ! p \<noteq> [] \<and> wf_state 4 (leaves ! p)" if "p < length leaves" for p
    using a that by (auto simp: list_all2_conv_all_nth list_all_length)
  have l: "\<forall>xs\<in>set (map (level_rows leaves sibs bits) (comp_layout ?ds)). length xs = N_REAL_ROWS" by (auto simp: level_rows_def)
  let ?R = "concat (map (level_rows leaves sibs bits) (comp_layout ?ds)) @ pad_loop 13 (?n - ?T) ?last"
  have len: "length (concat (map (level_rows leaves sibs bits) (comp_layout ?ds))) = ?T" using concat_blocks(1) [OF l] by simp
  have lp: "length ?R = ?n" using a len by (simp add: pad_loop_rows)
  have pos: "0 < sum_list ?ds"
  proof -
    have z: "0 < length leaves" using a by simp
    then have "length (sibs ! 0) \<in> set ?ds" using a by simp
    then have "length (sibs ! 0) \<le> sum_list ?ds" by (rule member_le_sum_list) simp
    moreover have "0 < length (sibs ! 0)" using each [OF z] by simp
    ultimately show ?thesis by linarith
  qed
  have wl: "wf_state 8 ?last"
  proof -
    have "length (comp_layout ?ds) \<noteq> 0" using pos by (simp only: length_comp_layout)
    then have "comp_layout ?ds \<noteq> []" unfolding length_0_conv .
    from last_conv_nth [OF this] have k: "last (comp_layout ?ds) = comp_layout ?ds ! (sum_list ?ds - 1)" unfolding length_comp_layout .
    have "sum_list ?ds - 1 < sum_list ?ds" using pos by simp
    then obtain p j where pj: "p < length ?ds" "j < ?ds ! p" "comp_layout ?ds ! (sum_list ?ds - 1) = (p, j)" by (rule comp_layout_cases)
    have "j < length (sibs ! p)" "length (bits ! p) = length (sibs ! p)" using pj each [of p] a by simp_all
    from level_in_wf [OF this, of leaves] show ?thesis unfolding k pj(3) by (simp add: level_out_def state_at_wf)
  qed
  have rows: "?R ! ((sum_list (take p ?ds) + j) * N_REAL_ROWS + r) = level_rows leaves sibs bits (p, j) ! r \<and> (sum_list (take p ?ds) + j) * N_REAL_ROWS + r < length ?R"
    if "p < length leaves" "j < length (sibs ! p)" "r < N_REAL_ROWS" for p j r
  proof -
    let ?c = "sum_list (take p ?ds) + j"
    have c: "?c < sum_list ?ds" "comp_layout ?ds ! ?c = (p, j)" using comp_layout_nth [of p ?ds j] that a by simp_all
    have "?c * N_REAL_ROWS + r < Suc ?c * N_REAL_ROWS" using that(3) by simp
    also have "\<dots> \<le> ?T" using c(1) by (intro mult_right_mono) simp_all
    finally have k: "?c * N_REAL_ROWS + r < ?T" .
    have "concat (map (level_rows leaves sibs bits) (comp_layout ?ds)) ! (?c * N_REAL_ROWS + r) = map (level_rows leaves sibs bits) (comp_layout ?ds) ! ?c ! r"
      using c(1) that(3) by (intro concat_blocks(2) [OF l]) simp_all
    also have "\<dots> = level_rows leaves sibs bits (p, j) ! r" using c by simp
    finally have e: "concat (map (level_rows leaves sibs bits) (comp_layout ?ds)) ! (?c * N_REAL_ROWS + r) = level_rows leaves sibs bits (p, j) ! r" .
    have "?T \<le> length ?R" unfolding length_append len by (rule le_add1)
    with k have "?c * N_REAL_ROWS + r < length ?R" by linarith
    then show ?thesis using k e len by (simp only: nth_append if_True simp_thms)
  qed
  have b: "build_paths_raw leaves sibs bits log_size = Some (columns 45 ?R, path_roots leaves sibs bits)"
    using build_paths_raw_eq [OF i] by simp
  show ?thesis
  proof (rule that [OF b])
    show "length (columns 45 ?R) = 45" by (simp add: columns_def)
    show "trace_row (columns 45 ?R) ((sum_list (take p ?ds) + j) * N_REAL_ROWS + r) = level_rows leaves sibs bits (p, j) ! r"
      if "p < length leaves" "j < length (sibs ! p)" "r < N_REAL_ROWS" for p j r
    proof -
      note x = rows [OF that]
      have "length (level_rows leaves sibs bits (p, j) ! r) = 45" using level_row_facts(1) [OF that(2) _ _ that(3)] each [OF that(1)] by blast
      then have "length (?R ! ((sum_list (take p ?ds) + j) * N_REAL_ROWS + r)) = 45" using x by metis
      from trace_row_columns [OF conjunct2 [OF x] this] show ?thesis using x by metis
    qed
    show "trace_row (columns 45 ?R) k = pad_row 13 (if k = ?T then ?last else replicate 8 0)" if "k < ?n" "?T \<le> k" for k
    proof -
      have e: "?R ! k = pad_row 13 (if k = ?T then ?last else replicate 8 0)"
        using that by (simp add: nth_append len pad_loop_rows)
      have "wf_state 8 (if k = ?T then ?last else replicate 8 0)" using wl canon_zero by (simp add: wf_state_def)
      from pad_row_facts(1) [OF this, of 13] have "length (?R ! k) = 45" unfolding e by simp
      moreover have "k < length ?R" using that lp by simp
      ultimately have "trace_row (columns 45 ?R) k = ?R ! k" by (intro trace_row_columns)
      then show ?thesis unfolding e .
    qed
    show "wf_state 8 ?last" by (rule wl)
  qed
qed

text \<open>The honest trace satisfies the circuit with the preprocessed columns of its own statement.\<close>

lemma paths_trace_complete:
  assumes i: "paths_in log_size leaves sibs bits" and li: "length indices = length leaves"
    and idx: "\<And>p. p < length leaves \<Longrightarrow> index_bits (length (sibs ! p)) (unat (indices ! p)) = bits ! p"
  obtains cols pre where "build_paths_raw leaves sibs bits log_size = Some (cols, path_roots leaves sibs bits)" "length cols = 45"
    "build_preproc_multi_var leaves indices (path_roots leaves sibs bits) (map length sibs) log_size = Some pre" "length pre = 22"
    "cyclic_sat path_evaluate pre cols (2 ^ log_size)"
proof -
  let ?ds = "map length sibs" and ?n = "2 ^ log_size :: nat" and ?roots = "path_roots leaves sibs bits"
  let ?T = "sum_list ?ds * N_REAL_ROWS" and ?last = "level_out leaves sibs bits (last (comp_layout ?ds))"
  note a = i [unfolded paths_in_def]
  have each: "length (bits ! p) = length (sibs ! p) \<and> sibs ! p \<noteq> [] \<and> wf_state 4 (leaves ! p) \<and> wf_state 4 (?roots ! p) \<and> ?ds ! p = length (sibs ! p)"
    if "p < length leaves" for p
    using a that path_roots_wf [OF i] by (auto simp: list_all2_conv_all_nth list_all_length path_roots_def)
  obtain cols where b: "build_paths_raw leaves sibs bits log_size = Some (cols, ?roots)" "length cols = 45"
    and real: "\<And>p j r. p < length leaves \<Longrightarrow> j < length (sibs ! p) \<Longrightarrow> r < N_REAL_ROWS \<Longrightarrow>
      trace_row cols ((sum_list (take p ?ds) + j) * N_REAL_ROWS + r) = level_rows leaves sibs bits (p, j) ! r"
    and pad: "\<And>k. k < ?n \<Longrightarrow> ?T \<le> k \<Longrightarrow> trace_row cols k = pad_row 13 (if k = ?T then ?last else replicate 8 0)"
    and wl: "wf_state 8 ?last" by (rule paths_trace_rows [OF i]) (rule that)
  obtain pre where pb: "build_preproc_multi_var leaves indices ?roots ?ds log_size = Some pre" "length pre = 22"
    and preal: "\<And>p j r. p < length leaves \<Longrightarrow> j < ?ds ! p \<Longrightarrow> r < N_REAL_ROWS \<Longrightarrow>
      trace_row pre ((sum_list (take p ?ds) + j) * N_REAL_ROWS + r) = comp_preproc_row (leaves ! p) (indices ! p) (?roots ! p) (?ds ! p) j r"
    and ppad: "\<And>k. k < ?n \<Longrightarrow> ?T \<le> k \<Longrightarrow> trace_row pre k = replicate 22 0"
    by (rule paths_preproc_rows [OF paths_in_ok [OF i li]]) (rule that)
  have zero: "wf_state 4 (replicate 4 0 :: u64 list)" "wf_state 8 (replicate 8 0 :: u64 list)" using canon_zero by (simp_all add: wf_state_def)
  have wp: "wf_state 8 (if k = ?T then ?last else replicate 8 0)" for k :: nat using wl zero(2) by simp
  have split: "k < ?n \<Longrightarrow> (?T \<le> k \<Longrightarrow> thesis) \<Longrightarrow> (\<And>p j r. p < length leaves \<Longrightarrow> j < length (sibs ! p) \<Longrightarrow> r < N_REAL_ROWS
      \<Longrightarrow> k = (sum_list (take p ?ds) + j) * N_REAL_ROWS + r \<Longrightarrow> comp_layout ?ds ! (k div N_REAL_ROWS) = (p, j) \<Longrightarrow> thesis) \<Longrightarrow> thesis" for k thesis
  proof -
    assume "?T \<le> k \<Longrightarrow> thesis" and *: "\<And>p j r. p < length leaves \<Longrightarrow> j < length (sibs ! p) \<Longrightarrow> r < N_REAL_ROWS
      \<Longrightarrow> k = (sum_list (take p ?ds) + j) * N_REAL_ROWS + r \<Longrightarrow> comp_layout ?ds ! (k div N_REAL_ROWS) = (p, j) \<Longrightarrow> thesis"
    show thesis
    proof (cases "?T \<le> k")
      case False
      then have "k div N_REAL_ROWS < sum_list ?ds" by (intro less_mult_imp_div_less) simp
      then obtain p j where pj: "p < length ?ds" "j < ?ds ! p" "k div N_REAL_ROWS = sum_list (take p ?ds) + j" "comp_layout ?ds ! (k div N_REAL_ROWS) = (p, j)"
        by (rule comp_layout_cases)
      have "k = (sum_list (take p ?ds) + j) * N_REAL_ROWS + k mod N_REAL_ROWS" using div_mult_mod_eq [of k N_REAL_ROWS] unfolding pj(3) by simp
      moreover have "k mod N_REAL_ROWS < N_REAL_ROWS" by (simp add: N_REAL_ROWS_val)
      moreover have "p < length leaves" "j < length (sibs ! p)" using pj a by simp_all
      ultimately show thesis using * pj(4) by blast
    qed fact
  qed
  have ok: "cells_ok (trace_row cols k) \<and> length (trace_row cols k) = 45" if k: "k < ?n" for k
    using k
  proof (rule split)
    assume "?T \<le> k"
    from pad [OF k this] show ?thesis using pad_row_facts(1,2) [OF wp, of 13 k] by simp
  next
    fix p j r assume x: "p < length leaves" "j < length (sibs ! p)" "r < N_REAL_ROWS" and e: "k = (sum_list (take p ?ds) + j) * N_REAL_ROWS + r"
    show ?thesis using level_row_facts(1,2) [OF x(2) _ _ x(3), of bits leaves] each [OF x(1)] real [OF x] e by simp
  qed
  have "cyclic_sat path_evaluate pre cols ?n"
    unfolding cyclic_sat_def
  proof (intro allI impI conjI)
    fix k assume k: "k < ?n"
    define q where "q = (k + ?n - 1) mod ?n"
    have q: "q < ?n" by (simp add: q_def)
    have qk: "k \<noteq> 0 \<Longrightarrow> q = k - 1" using cyclic_prev [OF k] by (simp add: q_def)
    show "cells_ok (trace_row cols k)" using ok [OF k] by blast
    have rows: "cells_ok (trace_row cols k)" "length (trace_row cols k) = 45" "cells_ok (trace_row cols q)" "length (trace_row cols q) = 45"
      using ok [OF k] ok [OF q] by simp_all
    have "\<forall>c\<in>set (path_evaluate (trace_row pre k) (trace_row cols k) (trace_row cols q)). c mod P31 = 0" using k
    proof (rule split)
      assume t: "?T \<le> k"
      have ds: "0 < sum_list ?ds"
      proof -
        have "0 < length leaves" using a by simp
        note e = each [OF this]
        then have "length (sibs ! 0) \<in> set ?ds" using \<open>0 < length leaves\<close> a by simp
        then have "length (sibs ! 0) \<le> sum_list ?ds" by (rule member_le_sum_list) simp
        moreover have "0 < length (sibs ! 0)" using e by simp
        ultimately show ?thesis by linarith
      qed
      then have T: "0 < ?T" by (simp add: N_REAL_ROWS_val)
      then have qe: "q = k - 1" "k \<noteq> 0" using t qk by linarith+
      note f = pad_row_facts [OF wp, of 13 k, folded pad [OF k t]]
      have prev: "words (trace_row cols q) 24 8 = (if k = ?T then ?last else replicate 8 0)"
      proof (cases "k = ?T")
        case True
        have "sum_list ?ds - 1 < sum_list ?ds" using ds by simp
        then obtain p j where pj: "p < length ?ds" "j < ?ds ! p" "sum_list ?ds - 1 = sum_list (take p ?ds) + j" "comp_layout ?ds ! (sum_list ?ds - 1) = (p, j)"
          by (rule comp_layout_cases)
        have p: "p < length leaves" "j < length (sibs ! p)" "N_REAL_ROWS - 1 < N_REAL_ROWS" using pj a by (simp_all add: N_REAL_ROWS_val)
        have "sum_list ?ds = Suc (sum_list (take p ?ds) + j)" using pj(3) ds by linarith
        then have "q = (sum_list (take p ?ds) + j) * N_REAL_ROWS + (N_REAL_ROWS - 1)" unfolding qe(1) True by (simp add: N_REAL_ROWS_val)
        moreover have "words (level_rows leaves sibs bits (p, j) ! (N_REAL_ROWS - 1)) 24 8 = level_out leaves sibs bits (p, j)"
        proof -
          have "words (level_rows leaves sibs bits (p, j) ! (N_REAL_ROWS - 1)) 24 8 = state_at (level_in leaves sibs bits p j) (Suc (N_REAL_ROWS - 1))"
            by (rule level_row_facts(4) [OF p(2) _ _ p(3)]) (use each [OF p(1)] in simp_all)
          moreover have "Suc (N_REAL_ROWS - 1) = N_REAL_ROWS" by (simp add: N_REAL_ROWS_val)
          ultimately show ?thesis by (simp only: level_out_def prod.case)
        qed
        moreover have "last (comp_layout ?ds) = (p, j)"
        proof -
          have "length (comp_layout ?ds) \<noteq> 0" using ds by (simp only: length_comp_layout)
          then have "comp_layout ?ds \<noteq> []" unfolding length_0_conv .
          from last_conv_nth [OF this] show ?thesis unfolding length_comp_layout pj(4) .
        qed
        ultimately show ?thesis using real [OF p] True by simp
      next
        case False
        then have "?T \<le> q" using t qe by linarith
        from pad [OF q this] show ?thesis using False pad_row_facts(6) [OF wp, of 13 q] by simp
      qed
      have z: "replicate 22 (0 :: int) ! 10 = 0" "replicate 22 (0 :: int) ! 11 = 0" "replicate 22 (0 :: int) ! 17 = flag False"
        "cells (replicate 22 (0 :: int)) 18 4 = map uint (replicate 4 (0 :: u64))"
        "cells (replicate 22 (0 :: int)) 0 8 = replicate 8 0" "replicate 22 (0 :: int) ! 8 = 0" "replicate 22 (0 :: int) ! 9 = 0"
        by (simp_all add: flag_def cells_take)
      show ?thesis unfolding ppad [OF k t] path_row_iff [OF rows z(1-4) zero(1)]
        using round_ok_pad [OF rows(1) _ z(5-7)] rows(2) f(3-6) prev by simp
    next
      fix p j r assume x: "p < length leaves" "j < length (sibs ! p)" "r < N_REAL_ROWS" and e: "k = (sum_list (take p ?ds) + j) * N_REAL_ROWS + r"
      note h = each [OF x(1)]
      have lb: "length (bits ! p) = length (sibs ! p)" and wf: "wf_state 4 (leaves ! p)" "wf_state 4 (?roots ! p)" and dj: "j < ?ds ! p" using h x(2) by simp_all
      have prow: "trace_row pre k = comp_preproc_row (leaves ! p) (indices ! p) (?roots ! p) (?ds ! p) j r" unfolding e by (rule preal [OF x(1) dj x(3)])
      note pf = comp_preproc_row_facts [OF wf x(3), where index = "indices ! p" and depth = "?ds ! p" and j = j, folded prow]
      note lf = level_row_facts [OF x(2) lb wf(1) x(3), folded real [OF x], folded e]
      have w4: "wf_state 4 (if B then y else replicate 4 0)" if "wf_state 4 y" for B and y :: "u64 list" using that zero(1) by simp
      have rok: "round_ok (trace_row pre k) (trace_row cols k)"
        using round_ok_real [OF rows(1) _ pf(2) round_schedule_wf [OF x(3)] pf(3,4)] rows(2) lf(5) by simp
      have root: "words (trace_row cols k) 24 4 = ?roots ! p" if "j = ?ds ! p - 1 \<and> r = N_REAL_ROWS - 1"
      proof -
        have r: "Suc r = N_REAL_ROWS" "Suc j = length (sibs ! p)" using that h x(2) by (simp_all add: N_REAL_ROWS_val)
        have "words (trace_row cols k) 24 4 = level_cur leaves sibs bits p (Suc j)"
          unfolding level_cur_Suc [OF x(2) lb] words_take lf(4) r(1) by (simp add: level_out_def)
        then show ?thesis using r(2) x(1) lb wf(1) by (simp add: level_cur_def path_roots_def norm4_id)
      qed
      show ?thesis
      proof (cases "r = 0")
        case True
        have d: "j < depths \<Longrightarrow> drop_bit j y AND 1 = 1 \<longleftrightarrow> index_bits depths y ! j" for depths and y :: nat by (simp add: index_bits_def)
        have ib: "(drop_bit j (unat (indices ! p)) AND 1 = 1) = bits ! p ! j" using d [OF x(2)] idx [OF x(1)] by metis
        have k10: "trace_row pre k ! 10 = flag True" "trace_row pre k ! 11 = flag (j = 0)" using pf(5,6) True by simp_all
        have cur: "words (trace_row cols k) 32 4 = (if j = 0 then words (trace_row cols k) 41 4 else words (trace_row cols q) 24 4)"
        proof (cases j)
          case 0
          then show ?thesis using lf(6,9) True wf(1) by (simp add: level_cur_0 norm4_id)
        next
          case (Suc j')
          have j': "j' < length (sibs ! p)" "N_REAL_ROWS - 1 < N_REAL_ROWS" using x(2) Suc by (simp_all add: N_REAL_ROWS_val)
          have "q = (sum_list (take p ?ds) + j') * N_REAL_ROWS + (N_REAL_ROWS - 1)" using qk e Suc True by (simp add: N_REAL_ROWS_val)
          then have tq: "trace_row cols q = level_rows leaves sibs bits (p, j') ! (N_REAL_ROWS - 1)" using real [OF x(1) j'] by simp
          have "Suc (N_REAL_ROWS - 1) = N_REAL_ROWS" by (simp add: N_REAL_ROWS_val)
          then have "words (trace_row cols q) 24 8 = level_out leaves sibs bits (p, j')"
            using level_row_facts(4) [OF j'(1) lb wf(1) j'(2), folded tq] by (simp only: level_out_def prod.case)
          then show ?thesis using lf(6) [OF True] level_cur_Suc [OF j'(1) lb, of leaves] Suc by (simp add: words_take)
        qed
        have s: "words (trace_row cols k) 0 8 = mat_external_t8 (if bits ! p ! j then words (trace_row cols k) 36 4 @ words (trace_row cols k) 32 4
            else words (trace_row cols k) 32 4 @ words (trace_row cols k) 36 4)"
          unfolding lf(3) lf(6) [OF True] lf(7) [OF True] using True by (simp add: level_in_def Let_def)
        have bb: "(trace_row cols k ! 40 * trace_row cols k ! 40 - trace_row cols k ! 40) mod P31 = 0" unfolding lf(8) [OF True] by (simp add: flag_def)
        note iff = path_first_row_iff [OF rows k10 pf(7) [OF True, unfolded ib] pf(8) w4 [OF wf(1)] pf(9) pf(10) w4 [OF wf(2)]]
        show ?thesis unfolding iff using rok cur bb lf(8) [OF True] lf(9) [OF True] s root True by simp
      next
        case False
        have k10: "trace_row pre k ! 10 = 0" "trace_row pre k ! 11 = 0" using pf(5,6) False by (simp_all add: flag_def)
        have "k \<noteq> 0" using e False by simp
        then have "q = (sum_list (take p ?ds) + j) * N_REAL_ROWS + (r - 1)" using qk e False by simp
        then have tq: "trace_row cols q = level_rows leaves sibs bits (p, j) ! (r - 1)" using real [OF x(1,2), of "r - 1"] x(3) by simp
        have "words (trace_row cols q) 24 8 = state_at (level_in leaves sibs bits p j) (Suc (r - 1))"
          using level_row_facts(4) [OF x(2) lb wf(1), of "r - 1", folded tq] x(3) by simp
        then have prev: "words (trace_row cols k) 0 8 = words (trace_row cols q) 24 8" using lf(3) False by simp
        show ?thesis unfolding path_row_iff [OF rows k10 pf(9) pf(10) w4 [OF wf(2)]] using rok prev root by simp
      qed
    qed
    then show "\<forall>c\<in>set (path_evaluate (trace_row pre k) (trace_row cols k) (trace_row cols ((k + ?n - 1) mod ?n))). c mod P31 = 0"
      unfolding q_def .
  qed
  then show ?thesis by (rule that [OF b pb])
qed

section \<open>One path is a batch of one\<close>

lemma comp_layout_one: "comp_layout [d] = map (Pair 0) [0..<d]"
  by (simp add: comp_layout_def)

lemma path_preproc_multi:
  assumes "1 \<le> depth"
  shows "build_preproc_multi_var [leaf] [index] [rt] [depth] log_size = Some (path_build_preproc leaf index rt depth log_size)"
proof -
  have "take k (map (Pair (0 :: nat)) [0..<depth]) = map (Pair 0) [0..<min depth k]" for k
    by (simp add: take_map take_upt min_def)
  then show ?thesis using assms
    by (simp add: build_preproc_multi_var_def path_build_preproc_def Let_def comp_layout_one o_def)
qed

lemma path_trace_multi:
  assumes "sibs \<noteq> []" "length sibs = length bits"
  shows "path_build_trace leaf sibs bits log_size = map_option (\<lambda>(cols, roots). (cols, roots ! 0)) (build_paths_raw [leaf] [sibs] [bits] log_size)"
proof -
  let ?f = "\<lambda>(rows, cur, carry_state) c. let (block, state) = comp_block (if c = 0 then Some leaf else None) cur (norm4 (sibs ! c)) (bits ! c)
    in (rows @ block, take 4 state, state)"
  let ?lv = "\<lambda>j. level_rows [leaf] [sibs] [bits] (0, j)"
  have step: "foldl ?f ([], norm4 leaf, replicate 8 0) [0..<Suc j] =
      (concat (map ?lv [0..<Suc j]), level_cur [leaf] [sibs] [bits] 0 (Suc j), level_out [leaf] [sibs] [bits] (0, j))" if "j < length sibs" for j
    using that
  proof (induction j)
    case 0
    then show ?case using comp_block_eq [of 0 "[leaf]" 0 "[sibs]" "[bits]"] level_cur_Suc [of 0 "[sibs]" 0 "[bits]" "[leaf]"] assms(2)
      by (simp add: level_cur_0)
  next
    case (Suc j)
    have j: "j < length sibs" using Suc.prems by simp
    have u: "[0..<Suc (Suc j)] = [0..<Suc j] @ [Suc j]" by simp
    show ?case unfolding u foldl_append Suc.IH [OF j]
      using comp_block_eq [of "Suc j" "[leaf]" 0 "[sibs]" "[bits]"] level_cur_Suc [of "Suc j" "[sibs]" 0 "[bits]" "[leaf]"] assms(2) Suc.prems by simp
  qed
  have d: "length sibs - 1 < length sibs" "Suc (length sibs - 1) = length sibs" using assms(1) by simp_all
  note one = step [OF d(1), unfolded d(2)]
  have b: "length ([bits] ! 0) = length ([sibs] ! 0)" "[length sibs] ! 0 = length ([sibs] ! 0)" "length sibs - 1 < length ([sibs] ! 0)"
    using assms d(1) by simp_all
  have multi: "foldl (comp_step [leaf] [sibs] [bits] [length sibs]) ([], [], replicate 4 0, replicate 8 0) (comp_layout [length sibs]) =
      (concat (map ?lv [0..<length sibs]), [level_cur [leaf] [sibs] [bits] 0 (length sibs)], level_cur [leaf] [sibs] [bits] 0 (length sibs),
       level_out [leaf] [sibs] [bits] (0, length sibs - 1))"
    using comp_steps_path [OF b, of "[leaf]" "[]" "[]" "replicate 4 0" "replicate 8 0"] unfolding comp_layout_one d(2) by simp
  have g: "\<not> (length [leaf] < 1 \<or> length [sibs] \<noteq> length [leaf] \<or> length [bits] \<noteq> length [leaf] \<or> \<not> list_all (\<lambda>d. d \<ge> 1) (map length [sibs])
           \<or> \<not> list_all2 (\<lambda>b d. length b = d) [bits] (map length [sibs]))" using assms by (cases bits) auto
  have lay: "length (comp_layout [length sibs]) = length sibs" by simp
  have L: "path_build_trace leaf sibs bits log_size =
      (if length sibs * N_REAL_ROWS \<le> 2 ^ log_size then Some (columns 45 (concat (map ?lv [0..<length sibs])
         @ pad_loop 13 (2 ^ log_size - length sibs * N_REAL_ROWS) (level_out [leaf] [sibs] [bits] (0, length sibs - 1))),
        level_cur [leaf] [sibs] [bits] 0 (length sibs)) else None)"
    unfolding path_build_trace_def Let_def [where s = "length sibs"] Let_def [where s = "2 ^ log_size"]
    using assms(2) one by simp
  have R: "build_paths_raw [leaf] [sibs] [bits] log_size =
      (if length sibs * N_REAL_ROWS \<le> 2 ^ log_size then Some (columns 45 (concat (map ?lv [0..<length sibs])
         @ pad_loop 13 (2 ^ log_size - length sibs * N_REAL_ROWS) (level_out [leaf] [sibs] [bits] (0, length sibs - 1))),
        [level_cur [leaf] [sibs] [bits] 0 (length sibs)]) else None)"
    unfolding build_paths_raw_def Let_def list.map if_not_P [OF g [unfolded list.map]] multi prod.case lay ..
  show ?thesis unfolding L R by simp
qed

end
