(* ===== verification/Path_Protocol.thy ===== *)
theory Path_Protocol
  imports Circuit_Path
begin

unbundle bit_operations_syntax

text \<open>
  Proving and verifying one compression and one Merkle path (\<open>prove_compress\<close>, \<open>verify_compress\<close>,
  \<open>prove_merkle_path_t8\<close>, \<open>verify_merkle_path_t8\<close>). The library that commits columns, proves and verifies is a
  parameter, as in \<open>Recursion_Protocol\<close>: \<open>stark_prove pre cols log_size words\<close> are the bytes of a proof or its
  error, \<open>decode\<close> the proof of bytes, \<open>commitments\<close> its Merkle roots, \<open>preproc_root\<close> the root of the
  preprocessed columns and \<open>stark_verify root0 root1 log_size words proof\<close> the library's answer.
\<close>

type_synonym 'b path_prover = "int list list \<Rightarrow> int list list \<Rightarrow> nat \<Rightarrow> u32 list \<Rightarrow> string + 'b"

section \<open>One compression\<close>

definition COMPRESS_LOG_SIZE :: nat where "COMPRESS_LOG_SIZE = 5"

datatype compress_error =
    NotLogSize nat
  | CompressMalformed nat
  | CompressStark string

definition node_words :: "u64 list \<Rightarrow> u32 list" where
  "node_words v = map (\<lambda>k. ucast (v ! k mod M31_P)) [0..<4]"

definition compress_public_words :: "u64 list \<Rightarrow> u64 list \<Rightarrow> u64 list \<Rightarrow> u32 list" where
  "compress_public_words left right node = node_words left @ node_words right @ node_words node"

definition prove_compress :: "'b path_prover \<Rightarrow> u64 list \<Rightarrow> u64 list \<Rightarrow> (compress_error + 'b \<times> nat \<times> u64 list) option" where
  "prove_compress stark_prove left right =
     (let log_size = COMPRESS_LOG_SIZE
      in case compress_build_trace left right log_size of None \<Rightarrow> None
      | Some (main_trace, node) \<Rightarrow>
          if node \<noteq> compress_t8 left right then None
          else let pre = compress_build_preproc left right node log_size
            in Some (case stark_prove pre main_trace log_size (compress_public_words left right node) of
                Inl e \<Rightarrow> Inl (CompressStark e)
              | Inr bytes \<Rightarrow> Inr (bytes, log_size, node)))"

definition verify_compress ::
  "('b \<Rightarrow> string + 'p) \<Rightarrow> ('p \<Rightarrow> 'h list) \<Rightarrow> (int list list \<Rightarrow> nat \<Rightarrow> 'h) \<Rightarrow> ('h \<Rightarrow> 'h \<Rightarrow> nat \<Rightarrow> u32 list \<Rightarrow> 'p \<Rightarrow> bool)
   \<Rightarrow> 'b \<Rightarrow> nat \<Rightarrow> u64 list \<Rightarrow> u64 list \<Rightarrow> u64 list \<Rightarrow> compress_error + bool" where
  "verify_compress decode commitments preproc_root stark_verify proof_bytes log_size left right node =
     (if log_size \<noteq> COMPRESS_LOG_SIZE then Inl (NotLogSize log_size)
      else case decode proof_bytes of Inl e \<Rightarrow> Inl (CompressStark e)
      | Inr pf \<Rightarrow>
          if length (commitments pf) < 2 then Inl (CompressMalformed (length (commitments pf)))
          else if commitments pf ! 0 \<noteq> preproc_root (compress_build_preproc left right node log_size) log_size then Inr False
          else Inr (stark_verify (commitments pf ! 0) (commitments pf ! 1) log_size (compress_public_words left right node) pf))"

section \<open>One path\<close>

datatype path_error =
    SibsBitsMismatch
  | EmptyPath
  | DepthExceeds nat
  | PathLogExceeds nat
  | PathLogRange nat
  | DepthRange nat
  | CapacityExceeded nat nat
  | PathMalformed nat
  | PathStark string

definition path_public_words :: "u64 list \<Rightarrow> u32 \<Rightarrow> u64 list \<Rightarrow> u32 list" where
  "path_public_words leaf index rt = node_words leaf @ [index] @ node_words rt"

definition prove_merkle_path_t8 :: "'b path_prover \<Rightarrow> u64 list \<Rightarrow> u64 list list \<Rightarrow> bool list \<Rightarrow> (path_error + 'b \<times> nat \<times> u64 list) option" where
  "prove_merkle_path_t8 stark_prove leaf sibs bits =
     (if length sibs \<noteq> length bits then Some (Inl SibsBitsMismatch)
      else if sibs = [] then Some (Inl EmptyPath)
      else if length sibs > PATH_MAX_DEPTH then Some (Inl (DepthExceeds (length sibs)))
      else let log_size = path_log_size (length sibs) in
        if log_size > PATH_MAX_LOG_SIZE then Some (Inl (PathLogExceeds log_size))
        else case path_build_trace leaf sibs bits log_size of None \<Rightarrow> None
        | Some (main_cols, rt) \<Rightarrow>
            case bits_to_index bits of None \<Rightarrow> None
            | Some index \<Rightarrow>
                let pre = path_build_preproc leaf index rt (length sibs) log_size
                in Some (case stark_prove pre main_cols log_size (path_public_words leaf index rt) of
                    Inl e \<Rightarrow> Inl (PathStark e)
                  | Inr bytes \<Rightarrow> Inr (bytes, log_size, rt)))"

definition verify_merkle_path_t8 ::
  "('b \<Rightarrow> string + 'p) \<Rightarrow> ('p \<Rightarrow> 'h list) \<Rightarrow> (int list list \<Rightarrow> nat \<Rightarrow> 'h) \<Rightarrow> ('h \<Rightarrow> 'h \<Rightarrow> nat \<Rightarrow> u32 list \<Rightarrow> 'p \<Rightarrow> bool)
   \<Rightarrow> 'b \<Rightarrow> nat \<Rightarrow> nat \<Rightarrow> u64 list \<Rightarrow> u32 \<Rightarrow> u64 list \<Rightarrow> path_error + bool" where
  "verify_merkle_path_t8 decode commitments preproc_root stark_verify proof_bytes log_size depth leaf index rt =
     (if \<not> (PATH_MIN_LOG_SIZE \<le> log_size \<and> log_size \<le> PATH_MAX_LOG_SIZE) then Inl (PathLogRange log_size)
      else if \<not> (1 \<le> depth \<and> depth \<le> PATH_MAX_DEPTH) then Inl (DepthRange depth)
      else if depth * N_REAL_ROWS > 2 ^ log_size then Inl (CapacityExceeded depth log_size)
      else case decode proof_bytes of Inl e \<Rightarrow> Inl (PathStark e)
      | Inr pf \<Rightarrow>
          if length (commitments pf) < 2 then Inl (PathMalformed (length (commitments pf)))
          else if commitments pf ! 0 \<noteq> preproc_root (path_build_preproc leaf index rt depth log_size) log_size then Inr False
          else Inr (stark_verify (commitments pf ! 0) (commitments pf ! 1) log_size (path_public_words leaf index rt) pf))"

section \<open>Indices and roots\<close>

lemma bits_to_index_bits:
  assumes "length bits \<le> 32"
  obtains index where "bits_to_index bits = Some index" "index_bits (length bits) (unat index) = bits"
proof -
  let ?f = "\<lambda>idx (i, b). if b then idx OR push_bit i 1 else idx :: u32"
  have b: "bit (foldl ?f 0 (enumerate 0 bits)) k \<longleftrightarrow> k < length bits \<and> bits ! k" if "k < 32" for k
    using assms
  proof (induction bits rule: rev_induct)
    case (snoc b bits)
    have "bit (push_bit (length bits) 1 :: u32) k \<longleftrightarrow> k = length bits" using that snoc.prems by (auto simp: bit_simps)
    then show ?case using snoc by (auto simp: enumerate_append_eq bit_or_iff nth_append less_Suc_eq)
  qed simp
  let ?index = "foldl ?f 0 (enumerate 0 bits)"
  have "drop_bit k (unat ?index) AND 1 = 1 \<longleftrightarrow> bits ! k" if "k < length bits" for k
    unfolding bit_iff_and_drop_bit_eq_1 [symmetric] using b [of k] that assms by (simp add: bit_unsigned_iff)
  then have "index_bits (length bits) (unat ?index) = bits" by (intro nth_equalityI) (simp_all add: index_bits_def)
  moreover have "bits_to_index bits = Some ?index" using assms by (simp add: bits_to_index_def)
  ultimately show ?thesis by (rule that [rotated])
qed

lemma merkle_path_root_fold:
  assumes "length sibs = length bits"
  shows "merkle_path_root_t8 leaf sibs bits = Some (fold_path compress_t8 (norm4 leaf) (map norm4 sibs) bits)"
proof -
  let ?f = "\<lambda>cur i. let s = norm4 (sibs ! i); (l, r) = (if bits ! i then (s, cur) else (cur, s)) in compress_t8 l r"
  have "foldl ?f (norm4 leaf) [0..<j] = fold_path compress_t8 (norm4 leaf) (map norm4 (take j sibs)) (take j bits)" if "j \<le> length sibs" for j
    using that
  proof (induction j)
    case (Suc j)
    have l: "length (map norm4 (take j sibs)) = length (take j bits)" using assms by simp
    have t: "take (Suc j) sibs = take j sibs @ [sibs ! j]" "take (Suc j) bits = take j bits @ [bits ! j]"
      using Suc.prems assms by (simp_all add: take_Suc_conv_app_nth)
    show ?case unfolding t map_append list.map fold_path_snoc [OF l] using Suc by (simp add: Let_def)
  qed simp
  from this [of "length sibs"] show ?thesis using assms by (simp add: merkle_path_root_t8_def)
qed

lemma path_roots_one:
  "wf_state 4 leaf \<Longrightarrow> length sibs = length bits \<Longrightarrow> merkle_path_root_t8 leaf sibs bits = Some (path_roots [leaf] [sibs] [bits] ! 0)"
  by (simp add: merkle_path_root_fold path_roots_def norm4_id)

text \<open>Every depth the prover takes fits its size.\<close>

lemma path_log_size_fits:
  assumes "1 \<le> depth" "depth \<le> PATH_MAX_DEPTH"
  shows "depth * N_REAL_ROWS \<le> 2 ^ path_log_size depth" "PATH_MIN_LOG_SIZE \<le> path_log_size depth" "path_log_size depth \<le> PATH_MAX_LOG_SIZE"
proof -
  let ?u = "max depth 1 * N_REAL_ROWS" and ?l = "path_log_size depth"
  have s: "5 \<le> ?l \<and> max ?u 1 \<le> 2 ^ ?l \<and> (?l = 5 \<or> 2 ^ (?l - 1) < max ?u 1)"
    using log_size_loop_spec [of 5 ?u] by (simp only: path_log_size_def Let_def PATH_MIN_LOG_SIZE_def)
  have d: "max depth 1 = depth" using assms(1) by simp
  show "depth * N_REAL_ROWS \<le> 2 ^ ?l" "PATH_MIN_LOG_SIZE \<le> ?l" using s unfolding d by (simp_all add: PATH_MIN_LOG_SIZE_def)
  have u: "max ?u 1 \<le> 2 ^ 10" using assms(2) by (simp add: d N_REAL_ROWS_val PATH_MAX_DEPTH_def)
  show "?l \<le> PATH_MAX_LOG_SIZE"
  proof (rule ccontr)
    assume "\<not> ?l \<le> PATH_MAX_LOG_SIZE"
    then have l: "10 \<le> ?l - 1" "?l \<noteq> 5" by (simp_all add: PATH_MAX_LOG_SIZE_def)
    have "(2 :: nat) ^ 10 \<le> 2 ^ (?l - 1)" using l(1) by (rule power_increasing) simp
    with s l(2) u show False by linarith
  qed
qed

text \<open>An honest path of one to 28 levels.\<close>

lemma honest_path:
  assumes "wf_state 4 leaf" "1 \<le> length sibs" "length sibs \<le> PATH_MAX_DEPTH" "length bits = length sibs"
  obtains index cols rt where "bits_to_index bits = Some index" "index_bits (length bits) (unat index) = bits"
    "path_build_trace leaf sibs bits (path_log_size (length sibs)) = Some (cols, rt)" "merkle_path_root_t8 leaf sibs bits = Some rt"
    "length cols = 45" "length (path_build_preproc leaf index rt (length sibs) (path_log_size (length sibs))) = 22"
    "cyclic_sat path_evaluate (path_build_preproc leaf index rt (length sibs) (path_log_size (length sibs))) cols (2 ^ path_log_size (length sibs))"
proof -
  let ?l = "path_log_size (length sibs)"
  obtain rt where rt: "path_roots [leaf] [sibs] [bits] = [rt]" by (simp add: path_roots_def)
  have "length bits \<le> 32" using assms(3,4) by (simp add: PATH_MAX_DEPTH_def)
  then obtain index where i: "bits_to_index bits = Some index" "index_bits (length bits) (unat index) = bits" by (rule bits_to_index_bits)
  have ne: "sibs \<noteq> []" using assms(2) by auto
  have "paths_in ?l [leaf] [sibs] [bits]" using assms path_log_size_fits(1) [OF assms(2,3)] ne by (simp add: paths_in_def)
  from paths_trace_complete [OF this, of "[index]"] obtain cols pre where
    t: "build_paths_raw [leaf] [sibs] [bits] ?l = Some (cols, path_roots [leaf] [sibs] [bits])" "length cols = 45"
      "build_preproc_multi_var [leaf] [index] (path_roots [leaf] [sibs] [bits]) (map length [sibs]) ?l = Some pre" "length pre = 22"
      "cyclic_sat path_evaluate pre cols (2 ^ ?l)" using i(2) assms(4) by (auto simp: less_Suc_eq)
  have "pre = path_build_preproc leaf index rt (length sibs) ?l"
    using t(3) path_preproc_multi [OF assms(2), of leaf index rt ?l] unfolding rt by simp
  moreover have "path_build_trace leaf sibs bits ?l = Some (cols, rt)" using path_trace_multi [OF ne, of bits leaf ?l] assms(4) t(1) unfolding rt by simp
  moreover have "merkle_path_root_t8 leaf sibs bits = Some rt" using path_roots_one [OF assms(1), of sibs bits] assms(4) unfolding rt by simp
  ultimately show ?thesis using that i t(2,4,5) by blast
qed
section \<open>Statements up to reduction\<close>

lemma m31_cell_mod: "m31_cell (v mod M31_P) = m31_cell v"
  by (simp add: m31_cell_def canon_mod_id [OF canon_mod])

lemma comp_preproc_row_norm: "comp_preproc_row (norm4 leaf) index (norm4 rt) depth j r = comp_preproc_row leaf index rt depth j r"
  by (simp add: comp_preproc_row_def norm4_def m31_cell_mod split_beta Let_def)

lemma path_preproc_norm: "path_build_preproc (norm4 leaf) index (norm4 rt) depth log_size = path_build_preproc leaf index rt depth log_size"
  by (simp add: path_build_preproc_def comp_preproc_row_norm [abs_def] Let_def)

lemma comp_preproc_row_index:
  assumes "j < depth" "index_bits depth (unat index) = index_bits depth (unat index')"
  shows "comp_preproc_row leaf index rt depth j = comp_preproc_row leaf index' rt depth j"
proof -
  have "drop_bit j (unat index) AND 1 = 1 \<longleftrightarrow> drop_bit j (unat index') AND 1 = 1"
    using arg_cong [OF assms(2), of "\<lambda>bs. bs ! j"] assms(1) by (simp only: index_bits_def nth_map_upt diff_zero add_0)
  then show ?thesis by (intro ext) (simp only: comp_preproc_row_def index_bit_cell Let_def)
qed

lemma path_preproc_index:
  assumes "index_bits depth (unat index) = index_bits depth (unat index')"
  shows "path_build_preproc leaf index rt depth log_size = path_build_preproc leaf index' rt depth log_size"
proof -
  have "map (\<lambda>c. map (comp_preproc_row leaf index rt depth c) [0..<N_REAL_ROWS]) [0..<min depth k]
      = map (\<lambda>c. map (comp_preproc_row leaf index' rt depth c) [0..<N_REAL_ROWS]) [0..<min depth k]" for k
  proof (rule map_cong [OF refl])
    fix c assume "c \<in> set [0..<min depth k]"
    then have "c < depth" by simp
    from comp_preproc_row_index [OF this assms]
    show "map (comp_preproc_row leaf index rt depth c) [0..<N_REAL_ROWS] = map (comp_preproc_row leaf index' rt depth c) [0..<N_REAL_ROWS]" by simp
  qed
  then show ?thesis unfolding path_build_preproc_def Let_def by (simp only:)
qed

lemma norm4_trace: "list_all (wf_state 4) sibs \<Longrightarrow> map norm4 sibs = sibs"
  by (induction sibs) (simp_all add: norm4_id)

text \<open>The columns a satisfied circuit of one path has.\<close>

lemma path_one_sound:
  assumes "1 \<le> depth" "depth * N_REAL_ROWS \<le> 2 ^ log_size" "length cols = 45"
    and "cyclic_sat path_evaluate (path_build_preproc leaf index rt depth log_size) cols (2 ^ log_size)"
  shows "merkle_path_root_t8 leaf (trace_sibs cols [depth] 0) (index_bits depth (unat index)) = Some (norm4 rt)"
    "length (trace_sibs cols [depth] 0) = depth"
proof -
  have ok: "paths_ok log_size [norm4 leaf] [index] [norm4 rt] [depth]" using assms(1,2) by (simp add: paths_ok_def norm4_wf)
  have pre: "build_preproc_multi_var [norm4 leaf] [index] [norm4 rt] [depth] log_size = Some (path_build_preproc leaf index rt depth log_size)"
    using path_preproc_multi [OF assms(1), of "norm4 leaf" index "norm4 rt" log_size] by (simp add: path_preproc_norm)
  have z: "0 < length [norm4 leaf]" by simp
  note s = paths_trace_sound [OF ok pre assms(3,4) z]
  show "length (trace_sibs cols [depth] 0) = depth" using s(1) by simp
  then show "merkle_path_root_t8 leaf (trace_sibs cols [depth] 0) (index_bits depth (unat index)) = Some (norm4 rt)"
    using s(2,3) by (simp add: merkle_path_root_fold norm4_trace)
qed

section \<open>Properties\<close>

text \<open>
  C37. One compression, exactly. For canonical nodes and a trace with room for the 22 rounds, some columns satisfy
  the circuit with the verifier's preprocessed columns if and only if the node is the compression of the two
  children; and the columns the honest builder makes do.
\<close>

theorem compress_circuit_exact:
  assumes "wf_state 4 left" "wf_state 4 right" "wf_state 4 node" "N_REAL_ROWS \<le> 2 ^ log_size"
  shows "((\<exists>cols. length cols = 40 \<and> cyclic_sat compress_evaluate (compress_build_preproc left right node log_size) cols (2 ^ log_size))
      \<longleftrightarrow> node = compress_t8 left right)
    \<and> (\<exists>cols. compress_build_trace left right log_size = Some (cols, compress_t8 left right)
      \<and> cyclic_sat compress_evaluate (compress_build_preproc left right (compress_t8 left right) log_size) cols (2 ^ log_size))"
proof -
  obtain cols where c: "compress_build_trace left right log_size = Some (cols, compress_t8 left right)" "length cols = 40"
    "cyclic_sat compress_evaluate (compress_build_preproc left right (compress_t8 left right) log_size) cols (2 ^ log_size)"
    by (rule compress_trace_complete [OF assms(1,2,4)])
  then show ?thesis using compress_trace_sound [OF assms] by blast
qed

lemma compress_circuit_exact_witness:
  "\<exists>cols. compress_build_trace [0, 0, 0, 0] [1, 2, 3, 4] 5 = Some (cols, compress_t8 [0, 0, 0, 0] [1, 2, 3, 4])
     \<and> cyclic_sat compress_evaluate (compress_build_preproc [0, 0, 0, 0] [1, 2, 3, 4] (compress_t8 [0, 0, 0, 0] [1, 2, 3, 4]) 5) cols (2 ^ 5)"
proof -
  have "wf_state 4 [0, 0, 0, 0]" "wf_state 4 [1, 2, 3, 4]" "N_REAL_ROWS \<le> 2 ^ 5" by (simp_all add: wf_state_def canon_uint P31_def N_REAL_ROWS_val)
  from compress_circuit_exact [OF this(1,2,1,3)] show ?thesis by blast
qed

text \<open>
  C36. What the circuit of Merkle paths proves. For canonical leaves and roots and paths that fit the trace, take
  the verifier's preprocessed columns and any columns of field cells that satisfy the circuit with them. Then for
  every path the siblings these columns hold, one per level, lead from the leaf to the root along the low bits of
  the index.
\<close>

theorem paths_circuit_sound:
  assumes "paths_ok log_size leaves indices roots depths" "build_preproc_multi_var leaves indices roots depths log_size = Some pre"
    "length cols = 45" "cyclic_sat path_evaluate pre cols (2 ^ log_size)" "p < length leaves"
  shows "length (trace_sibs cols depths p) = depths ! p
    \<and> merkle_path_root_t8 (leaves ! p) (trace_sibs cols depths p) (index_bits (depths ! p) (unat (indices ! p))) = Some (roots ! p)"
proof -
  note s = paths_trace_sound [OF assms]
  have "wf_state 4 (leaves ! p)" using assms(1,5) by (simp add: paths_ok_def list_all_length)
  then show ?thesis using s by (simp add: merkle_path_root_fold norm4_trace norm4_id)
qed

text \<open>Two paths of different depths, for the examples.\<close>

lemma example_paths: "paths_in 7 [[0, 0, 0, 0], [1, 2, 3, 4]] [[[5, 6, 7, 8], [9, 10, 11, 12]], [[3, 2, 1, 0]]] [[True, False], [True]]"
  by (simp add: paths_in_def wf_state_def canon_uint P31_def N_REAL_ROWS_val)

lemma example_bits: "index_bits 2 1 = [True, False]" "index_bits 1 1 = [True]"
  by code_simp+

lemma paths_circuit_sound_witness:
  "\<exists>cols roots. merkle_path_root_t8 [0, 0, 0, 0] (trace_sibs cols [2, 1] 0) (index_bits 2 1) = Some (roots ! 0)
     \<and> length (trace_sibs cols [2, 1] 0) = 2"
proof -
  let ?leaves = "[[0, 0, 0, 0], [1, 2, 3, 4]] :: u64 list list" and ?sibs = "[[[5, 6, 7, 8], [9, 10, 11, 12]], [[3, 2, 1, 0]]] :: u64 list list list" and ?bits = "[[True, False], [True]]"
  have l: "length [1, 1 :: u32] = length ?leaves" by simp
  have b: "index_bits (length (?sibs ! p)) (unat ([1, 1 :: u32] ! p)) = ?bits ! p" if "p < length ?leaves" for p
  proof -
    have "p = 0 \<or> p = 1" using that by auto
    then show ?thesis using example_bits by (auto simp: numeral_2_eq_2)
  qed
  obtain cols pre where "build_paths_raw ?leaves ?sibs ?bits 7 = Some (cols, path_roots ?leaves ?sibs ?bits)" and c: "length cols = 45" "build_preproc_multi_var ?leaves [1, 1] (path_roots ?leaves ?sibs ?bits) (map length ?sibs) 7 = Some pre"
    "length pre = 22" "cyclic_sat path_evaluate pre cols (2 ^ 7)" by (rule paths_trace_complete [OF example_paths l]) (erule b, rule that)
  have "0 < length ?leaves" by simp
  from paths_circuit_sound [OF paths_in_ok [OF example_paths l] c(2,1,4) this] show ?thesis by (auto simp: numeral_2_eq_2)
qed

text \<open>
  Honest paths. For canonical leaves, any siblings of one level or more per path and any directions, when the
  levels fit the trace and each index has the bits of its path: the builder does not panic, its roots are those of
  the reference, and the trace satisfies the circuit with the preprocessed columns of these leaves, indices and
  roots.
\<close>

lemma paths_circuit_complete:
  assumes "paths_in log_size leaves sibs bits" "length indices = length leaves"
    and "\<And>p. p < length leaves \<Longrightarrow> index_bits (length (sibs ! p)) (unat (indices ! p)) = bits ! p"
  shows "\<exists>cols roots pre. build_paths_raw leaves sibs bits log_size = Some (cols, roots)
    \<and> map Some roots = map (\<lambda>p. merkle_path_root_t8 (leaves ! p) (sibs ! p) (bits ! p)) [0..<length leaves]
    \<and> build_preproc_multi_var leaves indices roots (map length sibs) log_size = Some pre
    \<and> cyclic_sat path_evaluate pre cols (2 ^ log_size)"
proof -
  have r: "merkle_path_root_t8 (leaves ! p) (sibs ! p) (bits ! p) = Some (path_roots leaves sibs bits ! p)" if "p < length leaves" for p
  proof -
    have "length (sibs ! p) = length (bits ! p)" "wf_state 4 (leaves ! p)"
      using assms(1) that unfolding paths_in_def list_all2_conv_all_nth list_all_length by simp_all
    then show ?thesis using that by (simp add: merkle_path_root_fold path_roots_def norm4_id)
  qed
  have m: "map Some (path_roots leaves sibs bits) = map (\<lambda>p. merkle_path_root_t8 (leaves ! p) (sibs ! p) (bits ! p)) [0..<length leaves]"
    using r by (intro nth_equalityI) (simp_all add: path_roots_def)
  show ?thesis by (rule paths_trace_complete [OF assms(1,2)]) (erule assms(3), use m in blast)
qed

text \<open>
  Proving and verifying agree. If the library's prover answers a satisfied circuit with a proof that decodes,
  carries the root of the given preprocessed columns and is accepted, then every path of one to 28 levels from a
  canonical leaf is proved, without error or panic, with the root of the reference; and the verifier accepts the
  bytes for this depth, leaf and root, and the index of the directions.
\<close>

lemma path_prove_verify:
  assumes "wf_state 4 leaf" "1 \<le> length sibs" "length sibs \<le> PATH_MAX_DEPTH" "length bits = length sibs"
    and complete: "\<And>pre cols log_size words. length pre = 22 \<Longrightarrow> length cols = 45 \<Longrightarrow> cyclic_sat path_evaluate pre cols (2 ^ log_size) \<Longrightarrow>
      \<exists>bytes pf root. stark_prove pre cols log_size words = Inr bytes \<and> decode bytes = Inr pf
        \<and> commitments pf = [preproc_root pre log_size, root] \<and> stark_verify (preproc_root pre log_size) root log_size words pf"
  shows "\<exists>bytes log_size rt index. prove_merkle_path_t8 stark_prove leaf sibs bits = Some (Inr (bytes, log_size, rt))
    \<and> merkle_path_root_t8 leaf sibs bits = Some rt \<and> bits_to_index bits = Some index
    \<and> verify_merkle_path_t8 decode commitments preproc_root stark_verify bytes log_size (length sibs) leaf index rt = Inr True"
proof -
  let ?l = "path_log_size (length sibs)"
  note fits = path_log_size_fits [OF assms(2,3)]
  obtain index cols rt where h: "bits_to_index bits = Some index" "path_build_trace leaf sibs bits ?l = Some (cols, rt)"
    "merkle_path_root_t8 leaf sibs bits = Some rt" "length cols = 45" "length (path_build_preproc leaf index rt (length sibs) ?l) = 22"
    "cyclic_sat path_evaluate (path_build_preproc leaf index rt (length sibs) ?l) cols (2 ^ ?l)"
    using honest_path [OF assms(1-4)] by metis
  let ?pre = "path_build_preproc leaf index rt (length sibs) ?l"
  from complete [OF h(5,4,6), of "path_public_words leaf index rt"] obtain bytes pf r where
    p: "stark_prove ?pre cols ?l (path_public_words leaf index rt) = Inr bytes" "decode bytes = Inr pf" "commitments pf = [preproc_root ?pre ?l, r]"
      "stark_verify (preproc_root ?pre ?l) r ?l (path_public_words leaf index rt) pf" by blast
  have "sibs \<noteq> []" using assms(2) by auto
  then have "prove_merkle_path_t8 stark_prove leaf sibs bits = Some (Inr (bytes, ?l, rt))"
    using assms(3,4) fits(3) h(1,2) p(1) by (simp add: prove_merkle_path_t8_def Let_def)
  moreover have "verify_merkle_path_t8 decode commitments preproc_root stark_verify bytes ?l (length sibs) leaf index rt = Inr True"
    using assms(2,3) fits p(2-4) by (simp add: verify_merkle_path_t8_def)
  ultimately show ?thesis using h(1,3) by blast
qed

text \<open>A library whose proofs are the columns, for the examples.\<close>

definition plain_verify :: "int list list \<Rightarrow> int list list \<Rightarrow> nat \<Rightarrow> u32 list \<Rightarrow> int list list \<times> int list list \<Rightarrow> bool" where
  "plain_verify root0 root1 log_size ws pf \<longleftrightarrow> pf = (root0, root1) \<and> length root1 = 45 \<and> cyclic_sat path_evaluate root0 root1 (2 ^ log_size)"

text \<open>
  C35. What the verifier's answer means. Let the library be such that the columns \<open>extract pf\<close> of an accepted
  proof \<open>pf\<close> are field cells that satisfy the circuit. Then whenever the verifier accepts, the siblings in these
  columns, one per level, lead from the leaf to the root along the low bits of the index; leaf and root are read
  modulo the prime. It holds for any bytes, sizes and words.
\<close>

theorem path_verify_sound:
  assumes sound: "\<And>pre root log_size ws pf. stark_verify (preproc_root pre log_size) root log_size ws pf \<Longrightarrow>
      length (extract pf) = 45 \<and> cyclic_sat path_evaluate pre (extract pf) (2 ^ log_size)"
    and "verify_merkle_path_t8 decode commitments preproc_root stark_verify bytes log_size depth leaf index rt = Inr True"
  shows "\<exists>pf. decode bytes = Inr pf \<and> length (trace_sibs (extract pf) [depth] 0) = depth
    \<and> merkle_path_root_t8 leaf (trace_sibs (extract pf) [depth] 0) (index_bits depth (unat index)) = Some (norm4 rt)"
proof -
  obtain pf where pf: "decode bytes = Inr pf" "commitments pf ! 0 = preproc_root (path_build_preproc leaf index rt depth log_size) log_size"
    "stark_verify (commitments pf ! 0) (commitments pf ! 1) log_size (path_public_words leaf index rt) pf" and d: "1 \<le> depth" "depth * N_REAL_ROWS \<le> 2 ^ log_size"
    using assms(2) by (auto simp: verify_merkle_path_t8_def split: if_splits sum.splits)
  from pf(3) [unfolded pf(2)] sound have
    "length (extract pf) = 45" "cyclic_sat path_evaluate (path_build_preproc leaf index rt depth log_size) (extract pf) (2 ^ log_size)" by blast+
  from path_one_sound [OF d this] show ?thesis using pf(1) by blast
qed

text \<open>
  High bits of the index are free. The preprocessed columns depend only on as many bits of the index as the
  path has levels, so an honest path is also provable for every index that agrees on them: the verifier accepts
  the leaf at indices outside the tree.
\<close>

lemma path_verify_any_high_bits:
  assumes "wf_state 4 leaf" "1 \<le> length sibs" "length sibs \<le> PATH_MAX_DEPTH" "length bits = length sibs"
    and "index_bits (length sibs) (unat index) = bits"
    and complete: "\<And>pre cols log_size words. length pre = 22 \<Longrightarrow> length cols = 45 \<Longrightarrow> cyclic_sat path_evaluate pre cols (2 ^ log_size) \<Longrightarrow>
      \<exists>bytes pf root. stark_prove pre cols log_size words = Inr bytes \<and> decode bytes = Inr pf
        \<and> commitments pf = [preproc_root pre log_size, root] \<and> stark_verify (preproc_root pre log_size) root log_size words pf"
  shows "\<exists>bytes rt. merkle_path_root_t8 leaf sibs bits = Some rt
    \<and> verify_merkle_path_t8 decode commitments preproc_root stark_verify bytes (path_log_size (length sibs)) (length sibs) leaf index rt = Inr True"
proof -
  let ?l = "path_log_size (length sibs)"
  note fits = path_log_size_fits [OF assms(2,3)]
  obtain index' cols rt where h: "index_bits (length bits) (unat index') = bits"
    "merkle_path_root_t8 leaf sibs bits = Some rt" "length cols = 45" "length (path_build_preproc leaf index' rt (length sibs) ?l) = 22"
    "cyclic_sat path_evaluate (path_build_preproc leaf index' rt (length sibs) ?l) cols (2 ^ ?l)"
    using honest_path [OF assms(1-4)] by metis
  have e: "path_build_preproc leaf index' rt (length sibs) ?l = path_build_preproc leaf index rt (length sibs) ?l"
    by (rule path_preproc_index) (use h(1) assms(4,5) in simp)
  let ?pre = "path_build_preproc leaf index rt (length sibs) ?l"
  from complete [OF h(4) [unfolded e] h(3) h(5) [unfolded e], of "path_public_words leaf index rt"] obtain bytes pf r where
    p: "decode bytes = Inr pf" "commitments pf = [preproc_root ?pre ?l, r]" "stark_verify (preproc_root ?pre ?l) r ?l (path_public_words leaf index rt) pf" by blast
  have "verify_merkle_path_t8 decode commitments preproc_root stark_verify bytes ?l (length sibs) leaf index rt = Inr True"
    using assms(2,3) fits p by (simp add: verify_merkle_path_t8_def)
  then show ?thesis using h(2) by blast
qed

text \<open>The leaf at index 3 of a tree with two leaves.\<close>

lemma path_verify_any_high_bits_witness:
  "\<exists>bytes rt. merkle_path_root_t8 [1, 2, 3, 4] [[3, 2, 1, 0]] [True] = Some rt
    \<and> verify_merkle_path_t8 Inr (\<lambda>(pre, cols). [pre, cols]) (\<lambda>pre log_size. pre) plain_verify bytes (path_log_size 1) 1 [1, 2, 3, 4] 3 rt = Inr True"
proof -
  have w: "wf_state 4 [1, 2, 3, 4]" by (simp add: wf_state_def canon_uint P31_def)
  have i: "index_bits 1 3 = [True]" by code_simp
  show ?thesis
    using path_verify_any_high_bits [OF w, of "[[3, 2, 1, 0]]" "[True]" 3 "\<lambda>pre cols log_size words. Inr (pre, cols)" Inr "\<lambda>(pre, cols). [pre, cols]" "\<lambda>pre log_size. pre" plain_verify] i
    by (simp add: PATH_MAX_DEPTH_def plain_verify_def)
qed

lemma path_verify_sound_witness:
  "\<exists>pre cols rt. verify_merkle_path_t8 Inr (\<lambda>(pre, cols). [pre, cols]) (\<lambda>pre log_size. pre) plain_verify (pre, cols) (path_log_size 1) 1 [1, 2, 3, 4] 1 rt = Inr True
    \<and> merkle_path_root_t8 [1, 2, 3, 4] (trace_sibs cols [1] 0) (index_bits 1 1) = Some (norm4 rt)"
proof -
  have w: "wf_state 4 [1, 2, 3, 4]" and d: "1 \<le> length [[3, 2, 1, 0 :: u64]]" "length [[3, 2, 1, 0 :: u64]] \<le> PATH_MAX_DEPTH" "length [True] = length [[3, 2, 1, 0 :: u64]]"
    by (simp_all add: wf_state_def canon_uint P31_def PATH_MAX_DEPTH_def)
  obtain index cols rt where h: "index_bits (length [True]) (unat (index :: u32)) = [True]" "length cols = 45"
    "cyclic_sat path_evaluate (path_build_preproc [1, 2, 3, 4] index rt 1 (path_log_size 1)) cols (2 ^ path_log_size 1)"
    using honest_path [OF w d] by (metis One_nat_def length_Cons list.size(3))
  have "path_build_preproc [1, 2, 3, 4] index rt 1 (path_log_size 1) = path_build_preproc [1, 2, 3, 4] 1 rt 1 (path_log_size 1)"
    by (rule path_preproc_index) (use h(1) example_bits in simp)
  then have v: "verify_merkle_path_t8 Inr (\<lambda>(pre, cols). [pre, cols]) (\<lambda>pre log_size. pre) plain_verify
      (path_build_preproc [1, 2, 3, 4] 1 rt 1 (path_log_size 1), cols) (path_log_size 1) 1 [1, 2, 3, 4] 1 rt = Inr True"
    using h(2,3) path_log_size_fits [of 1] by (simp add: verify_merkle_path_t8_def plain_verify_def PATH_MAX_DEPTH_def)
  have s: "length (snd pf) = 45 \<and> cyclic_sat path_evaluate pre (snd pf) (2 ^ log_size)" if "plain_verify pre r log_size ws pf" for pre r log_size ws pf
    using that by (auto simp: plain_verify_def)
  have "\<exists>pf. Inr (path_build_preproc [1, 2, 3, 4] 1 rt 1 (path_log_size 1), cols) = (Inr pf :: string + int list list \<times> int list list)
      \<and> length (trace_sibs (snd pf) [1] 0) = 1 \<and> merkle_path_root_t8 [1, 2, 3, 4] (trace_sibs (snd pf) [1] 0) (index_bits 1 (unat (1 :: u32))) = Some (norm4 rt)"
    by (rule path_verify_sound [OF _ v]) (erule s)
  with v show ?thesis unfolding unsigned_1 by auto
qed

end
