(* ===== verification/Circuit_Nonce.thy ===== *)
theory Circuit_Nonce
  imports Path_Protocol
begin

unbundle bit_operations_syntax

text \<open>
  The circuit of nonce updates (\<open>recursive/nonce_update_t8_air.rs\<close>): two lanes of a Merkle path, from the old leaf
  to the old root and from the new leaf to the new root, that read the same sibling and direction cells. Each lane
  is the circuit of \<open>Circuit_Path\<close> on a selection of the columns, so soundness and completeness are those of paths,
  with one list of siblings for both.
\<close>

section \<open>Constraints\<close>

record PinnedUpdate =
  pu_old_leaf :: "u64 list"
  pu_new_leaf :: "u64 list"
  pu_index :: u32
  pu_pre_root :: "u64 list"
  pu_post_root :: "u64 list"

definition N_MAIN_COLS :: nat where "N_MAIN_COLS = 2 * (4 * 8 + 8) + 5"
definition N_PREPROC_COLS :: nat where "N_PREPROC_COLS = 8 + 5 + 8 + 1 + 8"
definition NUT_MIN_LOG_SIZE :: nat where "NUT_MIN_LOG_SIZE = 5"
definition NUT_MAX_LOG_SIZE :: nat where "NUT_MAX_LOG_SIZE = 24"
definition NUT_MAX_DEPTH :: nat where "NUT_MAX_DEPTH = 28"

text \<open>The columns of a lane are \<open>in\<close>, \<open>sq\<close>, \<open>sbox\<close>, \<open>out\<close>, \<open>cur\<close>, \<open>leaf\<close>; the first arguments are the shared cells.\<close>

definition constrain_lane :: "'f::comm_ring_1 list \<Rightarrow> 'f \<Rightarrow> 'f \<Rightarrow> 'f \<Rightarrow> 'f \<Rightarrow> 'f \<Rightarrow> 'f list \<Rightarrow> 'f \<Rightarrow> 'f list \<Rightarrow> 'f list \<Rightarrow> 'f list \<Rightarrow> 'f list \<Rightarrow> 'f list" where
  "constrain_lane rc is_ext is_int is_first_comp is_first_path is_root sib dir l prev leaf_pin root_pin =
     (let inp = cells l 0 8; sq = cells l 8 8; sbx = cells l 16 8; out = cells l 24 8; out_prev = cells prev 24 8;
          cur = cells l 32 4; leaf = cells l 36 4;
          raw8 = map (\<lambda>i. if i < 4 then dir * sib ! i + (1 - dir) * cur ! i
                          else let k = i - 4 in dir * cur ! k + (1 - dir) * sib ! k) [0..<8];
          me_raw = mat_external_expr raw8
      in round_constraints rc is_ext is_int inp sq sbx out
         @ map (\<lambda>k. let cur_expected = is_first_path * leaf ! k + (1 - is_first_path) * out_prev ! k
                    in is_first_comp * (cur ! k - cur_expected)) [0..<4]
         @ map (\<lambda>k. is_first_path * (leaf ! k - leaf_pin ! k)) [0..<4]
         @ map (\<lambda>i. inp ! i - (is_first_comp * me_raw ! i + (1 - is_first_comp) * out_prev ! i)) [0..<8]
         @ map (\<lambda>k. is_root * (out ! k - root_pin ! k)) [0..<4])"

definition nut_evaluate :: "'f::comm_ring_1 list \<Rightarrow> 'f list \<Rightarrow> 'f list \<Rightarrow> 'f list" where
  "nut_evaluate pre row prev =
     (let rc = cells pre 0 8; is_ext = pre ! 8; is_int = pre ! 9; is_first_comp = pre ! 10; is_first_path = pre ! 11;
          idx_bit = pre ! 12; leaf_a = cells pre 13 4; leaf_b = cells pre 17 4; is_root = pre ! 21;
          root_a = cells pre 22 4; root_b = cells pre 26 4;
          a = cells row 0 40; b = cells row 40 40; sib = cells row 80 4; bit = row ! 84
      in [is_first_comp * (bit * bit - bit)]
         @ [is_first_comp * (bit - idx_bit)]
         @ constrain_lane rc is_ext is_int is_first_comp is_first_path is_root sib bit a (cells prev 0 40) leaf_a root_a
         @ constrain_lane rc is_ext is_int is_first_comp is_first_path is_root sib bit b (cells prev 40 40) leaf_b root_b)"

definition nut_log_size :: "nat \<Rightarrow> nat \<Rightarrow> nat" where
  "nut_log_size n_updates depth = (let n_real = max n_updates 1 * max depth 1 * N_REAL_ROWS in log_size_loop n_real NUT_MIN_LOG_SIZE)"

section \<open>Preprocessed columns\<close>

text \<open>Row \<open>r\<close> of level \<open>j\<close> of an update.\<close>

definition nut_preproc_row :: "PinnedUpdate \<Rightarrow> nat \<Rightarrow> nat \<Rightarrow> nat \<Rightarrow> int list" where
  "nut_preproc_row up depth j r =
     (let (is_ext, rc) = round_schedule r;
          first = (\<lambda>v. if j = 0 \<and> r = 0 then map (\<lambda>k. m31_cell (v ! k)) [0..<4] else replicate 4 0);
          root = (\<lambda>v. if j = depth - 1 \<and> r = N_REAL_ROWS - 1 then map (\<lambda>k. m31_cell (v ! k)) [0..<4] else replicate 4 0)
      in map m31_cell rc @ [flag is_ext, flag (\<not> is_ext), flag (r = 0), flag (j = 0 \<and> r = 0)]
         @ [if r = 0 then m31_cell (ucast (drop_bit j (pu_index up) AND 1)) else 0]
         @ first (pu_old_leaf up) @ first (pu_new_leaf up)
         @ [flag (j = depth - 1 \<and> r = N_REAL_ROWS - 1)]
         @ root (pu_pre_root up) @ root (pu_post_root up))"

text \<open>A shift of the index by 32 or more is a panic.\<close>

definition nut_build_preproc :: "PinnedUpdate list \<Rightarrow> nat \<Rightarrow> nat \<Rightarrow> int list list option" where
  "nut_build_preproc updates depth log_size =
     (let n = 2 ^ log_size
      in if \<not> depth \<ge> 1 \<or> \<not> length updates * depth * N_REAL_ROWS \<le> n \<or> (updates \<noteq> [] \<and> depth > 32) then None
         else Some (columns N_PREPROC_COLS (pad_rows n N_PREPROC_COLS (concat (map (\<lambda>up.
                concat (map (\<lambda>j. map (nut_preproc_row up depth j) [0..<N_REAL_ROWS]) [0..<depth])) updates)))))"

section \<open>Traces\<close>

definition fill_compression :: "u64 list \<Rightarrow> (u64 list \<times> u64 list \<times> u64 list \<times> u64 list) list" where
  "fill_compression raw8 = fst (foldl (\<lambda>(rows, state) r. let inp = state; (sq, sbx, lin) = round_cells (round_schedule r) inp
     in (rows @ [(inp, sq, sbx, lin)], lin)) ([], mat_external_t8 raw8) [0..<N_REAL_ROWS])"

definition lane_cells :: "u64 list option \<Rightarrow> u64 list \<Rightarrow> nat \<Rightarrow> u64 list \<times> u64 list \<times> u64 list \<times> u64 list \<Rightarrow> int list" where
  "lane_cells first_leaf c rr = (\<lambda>(inp, sq, sbx, out). map m31_cell inp @ map m31_cell sq @ map m31_cell sbx @ map m31_cell out
     @ (if rr = 0 then map m31_cell c @ (case first_leaf of Some leaf \<Rightarrow> map (\<lambda>k. m31_cell (leaf ! k)) [0..<4] | None \<Rightarrow> replicate 4 0)
        else replicate 8 0))"

text \<open>One level: both lanes, then the shared cells; and the last states of the lanes.\<close>

definition nut_level :: "u64 list option \<Rightarrow> u64 list option \<Rightarrow> u64 list \<Rightarrow> u64 list \<Rightarrow> u64 list \<Rightarrow> bool \<Rightarrow> int list list \<times> u64 list \<times> u64 list" where
  "nut_level leaf_a leaf_b cur_a cur_b sib b =
     (let raw8 = (\<lambda>c. if b then sib @ c else c @ sib);
          ra = fill_compression (raw8 cur_a); rb = fill_compression (raw8 cur_b);
          last_out = (\<lambda>rows. snd (snd (snd (last rows))))
      in (map (\<lambda>rr. lane_cells leaf_a cur_a rr (ra ! rr) @ lane_cells leaf_b cur_b rr (rb ! rr)
            @ (if rr = 0 then map m31_cell sib @ [flag b] else replicate 5 0)) [0..<N_REAL_ROWS], last_out ra, last_out rb))"

definition nut_pad_row :: "u64 list \<Rightarrow> int list" where
  "nut_pad_row v = map m31_cell v @ map (\<lambda>x. m31_cell (m31_mul x x)) v @ map (\<lambda>x. m31_cell (sbox x)) v @ replicate (8 + 8) 0"

fun nut_pad :: "nat \<Rightarrow> u64 list \<Rightarrow> u64 list \<Rightarrow> int list list" where
  "nut_pad 0 carry_a carry_b = []"
| "nut_pad (Suc k) carry_a carry_b =
     (nut_pad_row carry_a @ nut_pad_row carry_b @ replicate 5 0) # nut_pad k (replicate 8 0) (replicate 8 0)"

text \<open>The loop over the levels of update \<open>u\<close>.\<close>

definition nut_update ::
  "u64 list list \<Rightarrow> u64 list list \<Rightarrow> u64 list list list \<Rightarrow> bool list list \<Rightarrow> nat
   \<Rightarrow> int list list \<times> (u64 list \<times> u64 list) list \<times> u64 list \<times> u64 list \<Rightarrow> nat
   \<Rightarrow> int list list \<times> (u64 list \<times> u64 list) list \<times> u64 list \<times> u64 list" where
  "nut_update old_leaves new_leaves sibs bits depth = (\<lambda>(rows, reached, carry_a, carry_b) u.
     let (rows, cur_a, cur_b, carry_a, carry_b) = foldl (\<lambda>(rows, cur_a, cur_b, carry_a, carry_b) j.
           let first = (\<lambda>leaves. if j = 0 then Some (leaves ! u) else None);
               (block, out_a, out_b) = nut_level (first old_leaves) (first new_leaves) cur_a cur_b (norm4 (sibs ! u ! j)) (bits ! u ! j)
           in (rows @ block, take 4 out_a, take 4 out_b, out_a, out_b))
         (rows, norm4 (old_leaves ! u), norm4 (new_leaves ! u), carry_a, carry_b) [0..<depth]
     in (rows, reached @ [(cur_a, cur_b)], carry_a, carry_b))"

definition nut_build_trace_raw ::
  "u64 list list \<Rightarrow> u64 list list \<Rightarrow> u64 list list list \<Rightarrow> bool list list \<Rightarrow> nat \<Rightarrow> (int list list \<times> (u64 list \<times> u64 list) list) option" where
  "nut_build_trace_raw old_leaves new_leaves sibs bits log_size =
     (let n_up = length old_leaves
      in if n_up < 1 \<or> length new_leaves \<noteq> n_up \<or> length sibs \<noteq> n_up \<or> length bits \<noteq> n_up then None
         else let depth = length (sibs ! 0); n = 2 ^ log_size
           in if depth < 1 \<or> \<not> list_all2 (\<lambda>s b. length s = depth \<and> length b = depth) sibs bits \<or> \<not> n_up * depth * N_REAL_ROWS \<le> n then None
              else let (rows, reached, carry_a, carry_b) =
                       foldl (nut_update old_leaves new_leaves sibs bits depth) ([], [], replicate 8 0, replicate 8 0) [0..<n_up]
                in Some (columns N_MAIN_COLS (rows @ nut_pad (n - n_up * depth * N_REAL_ROWS) carry_a carry_b), reached))"

section \<open>Lanes\<close>

definition select :: "nat list \<Rightarrow> 'a list \<Rightarrow> 'a list" where
  "select ks xs = map ((!) xs) ks"

text \<open>The cells lane \<open>k\<close> reads, in the order of the circuit of a path.\<close>

definition lane_main :: "nat \<Rightarrow> nat list" where
  "lane_main k = [40 * k..<40 * k + 36] @ [80..<85] @ [40 * k + 36..<40 * k + 40]"

definition lane_pre :: "nat \<Rightarrow> nat list" where
  "lane_pre k = [0..<13] @ [13 + 4 * k..<17 + 4 * k] @ [21] @ [22 + 4 * k..<26 + 4 * k]"

lemma length_select [simp]: "length (select ks xs) = length ks"
  by (simp add: select_def)

lemma select_nth [simp]: "i < length ks \<Longrightarrow> select ks xs ! i = xs ! (ks ! i)"
  by (simp add: select_def)

lemma lane_lengths: "length (lane_main k) = 45" "length (lane_pre k) = 22"
  by (simp_all add: lane_main_def lane_pre_def)

lemma cells_eqI: "(\<And>i. i < n \<Longrightarrow> xs ! (a + i) = ys ! (b + i)) \<Longrightarrow> cells xs a n = cells ys b n"
  by (simp add: cells_def)

lemma cells_cells: "a + n \<le> m \<Longrightarrow> cells (cells xs b m) a n = cells xs (b + a) n"
  by (auto simp: cells_def add.assoc)

lemma lane_pre_cells:
  "cells (select (lane_pre k) pre) 0 8 = cells pre 0 8" "cells (select (lane_pre k) pre) 13 4 = cells pre (13 + 4 * k) 4"
  "cells (select (lane_pre k) pre) 18 4 = cells pre (22 + 4 * k) 4"
  "select (lane_pre k) pre ! 8 = pre ! 8" "select (lane_pre k) pre ! 9 = pre ! 9" "select (lane_pre k) pre ! 10 = pre ! 10"
  "select (lane_pre k) pre ! 11 = pre ! 11" "select (lane_pre k) pre ! 12 = pre ! 12" "select (lane_pre k) pre ! 17 = pre ! 21"
  by (auto intro!: cells_eqI simp: lane_lengths) (auto simp: lane_pre_def nth_append)

lemma lane_main_cells:
  "cells (select (lane_main k) row) 0 8 = cells row (40 * k) 8" "cells (select (lane_main k) row) 8 8 = cells row (40 * k + 8) 8"
  "cells (select (lane_main k) row) 16 8 = cells row (40 * k + 16) 8" "cells (select (lane_main k) row) 24 8 = cells row (40 * k + 24) 8"
  "cells (select (lane_main k) row) 32 4 = cells row (40 * k + 32) 4" "cells (select (lane_main k) row) 36 4 = cells row 80 4"
  "select (lane_main k) row ! 40 = row ! 84" "cells (select (lane_main k) row) 41 4 = cells row (40 * k + 36) 4"
  by (auto intro!: cells_eqI simp: lane_lengths) (auto simp: lane_main_def nth_append add.assoc add.left_commute add.commute dest!: less4)

text \<open>A row satisfies the circuit exactly when both lanes satisfy the circuit of a path.\<close>

lemma nut_evaluate_lanes:
  "(\<forall>c\<in>set (nut_evaluate pre row prev). c mod P31 = 0) \<longleftrightarrow>
     (\<forall>c\<in>set (path_evaluate (select (lane_pre 0) pre) (select (lane_main 0) row) (select (lane_main 0) prev)). c mod P31 = 0)
   \<and> (\<forall>c\<in>set (path_evaluate (select (lane_pre 1) pre) (select (lane_main 1) row) (select (lane_main 1) prev)). c mod P31 = 0)"
proof -
  have c: "cells (cells x b 40) 0 8 = cells x b 8" "cells (cells x b 40) 8 8 = cells x (b + 8) 8" "cells (cells x b 40) 16 8 = cells x (b + 16) 8"
    "cells (cells x b 40) 24 8 = cells x (b + 24) 8" "cells (cells x b 40) 32 4 = cells x (b + 32) 4" "cells (cells x b 40) 36 4 = cells x (b + 36) 4"
    for x :: "int list" and b by (simp_all add: cells_cells)
  have k: "13 + 4 * (1 :: nat) = 17" "22 + 4 * (1 :: nat) = 26" "13 + 4 * (0 :: nat) = 13" "22 + 4 * (0 :: nat) = 22" "40 * (1 :: nat) = 40" "40 * (0 :: nat) = 0" by simp_all
  show ?thesis
    unfolding nut_evaluate_def path_evaluate_def constrain_lane_def Let_def lane_pre_cells lane_main_cells c k set_append ball_Un
    by (rule iffI; elim conjE; intro conjI; assumption)
qed

lemma trace_row_select:
  assumes "\<forall>x\<in>set ks. x < length cols"
  shows "trace_row (select ks cols) i = select ks (trace_row cols i)"
  using assms by (simp add: trace_row_def select_def)

lemma select_columns:
  assumes "\<forall>x\<in>set ks. x < w"
  shows "select ks (columns w rows) = columns (length ks) (map (select ks) rows)"
proof (rule nth_equalityI)
  show "length (select ks (columns w rows)) = length (columns (length ks) (map (select ks) rows))" by (simp add: columns_def)
  fix i assume "i < length (select ks (columns w rows))"
  then have i: "i < length ks" by simp
  moreover have "ks ! i < w" using assms i by simp
  ultimately show "select ks (columns w rows) ! i = columns (length ks) (map (select ks) rows) ! i" by (simp add: columns_def o_def)
qed

lemma lane_bounds: "k < 2 \<Longrightarrow> \<forall>x\<in>set (lane_main k). x < 85" "k < 2 \<Longrightarrow> \<forall>x\<in>set (lane_pre k). x < 30"
  by (auto simp: lane_main_def lane_pre_def)

lemma lane_cover: "set (lane_main 0) \<union> set (lane_main 1) = {..<85}"
  unfolding lane_main_def set_eq_iff set_append set_upt Un_iff atLeastLessThan_iff lessThan_iff by presburger

lemma lanes_cells_ok:
  assumes "length row = 85"
  shows "cells_ok row \<longleftrightarrow> cells_ok (select (lane_main 0) row) \<and> cells_ok (select (lane_main 1) row)"
proof -
  have s: "cells_ok (select ks row) \<longleftrightarrow> (\<forall>x\<in>set ks. 0 \<le> row ! x \<and> row ! x < P31)" for ks by (auto simp: cells_ok_def select_def)
  have "cells_ok row \<longleftrightarrow> (\<forall>x\<in>{..<85}. 0 \<le> row ! x \<and> row ! x < P31)" using assms by (auto simp: cells_ok_def all_set_conv_all_nth)
  then show ?thesis unfolding s lane_cover [symmetric] by blast
qed

lemma nut_sat_lanes:
  assumes "length cols = 85" "length pre = 30"
  shows "cyclic_sat nut_evaluate pre cols n \<longleftrightarrow>
    cyclic_sat path_evaluate (select (lane_pre 0) pre) (select (lane_main 0) cols) n
    \<and> cyclic_sat path_evaluate (select (lane_pre 1) pre) (select (lane_main 1) cols) n"
proof -
  have b: "\<forall>x\<in>set (lane_main 0). x < length cols" "\<forall>x\<in>set (lane_main 1). x < length cols" "\<forall>x\<in>set (lane_pre 0). x < length pre" "\<forall>x\<in>set (lane_pre 1). x < length pre"
    using lane_bounds [of 0] lane_bounds [of 1] assms by simp_all
  have l: "length (trace_row cols i) = 85" for i using assms(1) by (simp add: trace_row_def)
  show ?thesis
    unfolding cyclic_sat_def trace_row_select [OF b(1)] trace_row_select [OF b(2)] trace_row_select [OF b(3)] trace_row_select [OF b(4)]
      nut_evaluate_lanes lanes_cells_ok [OF l] by blast
qed

section \<open>Preprocessed columns of the lanes\<close>

lemma nut_preproc_row_lane:
  assumes "j < depth" "j < 32" "r < N_REAL_ROWS"
  shows "length (nut_preproc_row up depth j r) = 30"
    "select (lane_pre 0) (nut_preproc_row up depth j r) = comp_preproc_row (pu_old_leaf up) (pu_index up) (pu_pre_root up) depth j r"
    "select (lane_pre 1) (nut_preproc_row up depth j r) = comp_preproc_row (pu_new_leaf up) (pu_index up) (pu_post_root up) depth j r"
proof -
  obtain e rc where s: "round_schedule r = (e, rc)" by (cases "round_schedule r")
  have "wf_state 8 rc" using round_schedule_wf [OF assms(3)] s by simp
  then obtain c0 c1 c2 c3 c4 c5 c6 c7 where rc: "rc = [c0, c1, c2, c3, c4, c5, c6, c7]" by (auto simp: wf_state_def length_Suc_conv numeral_eq_Suc)
  have four: "[0..<4] = [0, 1, 2, 3 :: nat]" "replicate 4 (0 :: int) = [0, 0, 0, 0]" by (simp_all add: upt_rec numeral_eq_Suc)
  have z: "r = 0 \<Longrightarrow> r \<noteq> N_REAL_ROWS - 1" by (simp add: N_REAL_ROWS_val)
  have lanes: "lane_pre 0 = [0, 1, 2, 3, 4, 5, 6, 7, 8, 9, 10, 11, 12, 13, 14, 15, 16, 21, 22, 23, 24, 25]" by code_simp
  have lanes1: "lane_pre 1 = [0, 1, 2, 3, 4, 5, 6, 7, 8, 9, 10, 11, 12, 17, 18, 19, 20, 21, 26, 27, 28, 29]" by code_simp
  show "length (nut_preproc_row up depth j r) = 30" by (simp add: nut_preproc_row_def s rc four)
  show "select (lane_pre 0) (nut_preproc_row up depth j r) = comp_preproc_row (pu_old_leaf up) (pu_index up) (pu_pre_root up) depth j r"
    "select (lane_pre 1) (nut_preproc_row up depth j r) = comp_preproc_row (pu_new_leaf up) (pu_index up) (pu_post_root up) depth j r"
    unfolding lanes lanes1 using assms(2) by (simp_all add: nut_preproc_row_def comp_preproc_row_def s rc four select_def)
qed

lemma concat_map_concat: "concat (map f (concat xss)) = concat (map (\<lambda>xs. concat (map f xs)) xss)"
  by (induction xss) simp_all

lemma map_index: "map f xs = map (\<lambda>p. f (xs ! p)) [0..<length xs]"
  by (intro nth_equalityI) simp_all

lemma select_pad_rows:
  assumes "\<forall>x\<in>set ks. x < w"
  shows "map (select ks) (pad_rows n w rows) = pad_rows n (length ks) (map (select ks) rows)"
proof -
  have "select ks (replicate w (0 :: int)) = replicate (length ks) 0" using assms by (intro nth_equalityI) simp_all
  then show ?thesis by (simp add: pad_rows_def)
qed

lemma comp_layout_uniform: "comp_layout (replicate m d) = concat (map (\<lambda>p. map (Pair p) [0..<d]) [0..<m])"
proof -
  have "map (\<lambda>p. map (Pair p) [0..<replicate m d ! p]) [0..<m] = map (\<lambda>p. map (Pair p) [0..<d]) [0..<m]" by (rule map_cong) simp_all
  then show ?thesis by (simp only: comp_layout_upt length_replicate)
qed

lemma nut_preproc_lanes:
  assumes "nut_build_preproc updates depth log_size = Some pre" "updates \<noteq> []"
  shows "length pre = 30"
    "build_preproc_multi_var (map pu_old_leaf updates) (map pu_index updates) (map pu_pre_root updates) (replicate (length updates) depth) log_size
       = Some (select (lane_pre 0) pre)"
    "build_preproc_multi_var (map pu_new_leaf updates) (map pu_index updates) (map pu_post_root updates) (replicate (length updates) depth) log_size
       = Some (select (lane_pre 1) pre)"
proof -
  let ?n = "2 ^ log_size :: nat" and ?m = "length updates"
  let ?rows = "concat (map (\<lambda>up. concat (map (\<lambda>j. map (nut_preproc_row up depth j) [0..<N_REAL_ROWS]) [0..<depth])) updates)"
  have a: "1 \<le> depth" "?m * depth * N_REAL_ROWS \<le> ?n" "depth \<le> 32" "pre = columns 30 (pad_rows ?n 30 ?rows)"
    using assms by (auto simp: nut_build_preproc_def N_PREPROC_COLS_def Let_def split: if_splits)
  then show "length pre = 30" by (simp add: columns_def)
  have len: "length (comp_layout (replicate ?m depth)) \<le> ?n div N_REAL_ROWS"
    using a(2) by (simp add: sum_list_replicate less_eq_div_iff_mult_less_eq N_REAL_ROWS_val)
  have multi: "build_preproc_multi_var ls (map pu_index updates) rs (replicate ?m depth) log_size =
      Some (columns 22 (pad_rows ?n 22 (concat (map (\<lambda>p. concat (map (\<lambda>j. map (comp_preproc_row (ls ! p) (pu_index (updates ! p)) (rs ! p) depth j)
        [0..<N_REAL_ROWS]) [0..<depth])) [0..<?m]))))" if "length ls = ?m" "length rs = ?m" for ls rs
  proof -
    let ?f = "\<lambda>(path, j). map (comp_preproc_row (ls ! path) (map pu_index updates ! path) (rs ! path) (replicate ?m depth ! path) j) [0..<N_REAL_ROWS]"
    have "concat (map ?f (comp_layout (replicate ?m depth))) = concat (map (\<lambda>p. concat (map ?f (map (Pair p) [0..<depth]))) [0..<?m])"
      unfolding comp_layout_uniform concat_map_concat by (simp add: o_def)
    also have "\<dots> = concat (map (\<lambda>p. concat (map (\<lambda>j. map (comp_preproc_row (ls ! p) (pu_index (updates ! p)) (rs ! p) depth j)
        [0..<N_REAL_ROWS]) [0..<depth])) [0..<?m])" by (intro arg_cong [of _ _ concat] map_cong refl) (simp add: o_def)
    finally have e: "concat (map ?f (comp_layout (replicate ?m depth))) = concat (map (\<lambda>p. concat (map (\<lambda>j. map (comp_preproc_row (ls ! p) (pu_index (updates ! p)) (rs ! p) depth j)
        [0..<N_REAL_ROWS]) [0..<depth])) [0..<?m])" .
    have "\<not> (length ls \<noteq> length (map pu_index updates) \<or> length ls \<noteq> length rs \<or> length ls \<noteq> length (replicate ?m depth) \<or> \<not> list_all (\<lambda>d. d \<ge> 1) (replicate ?m depth))"
      using that a(1) by (simp add: list_all_length)
    then show ?thesis unfolding build_preproc_multi_var_def Let_def take_all [OF len] e by (simp only: if_False)
  qed
  have lane: "columns 22 (pad_rows ?n 22 (concat (map (\<lambda>p. concat (map (\<lambda>j. map (comp_preproc_row (map F updates ! p) (pu_index (updates ! p)) (map G updates ! p) depth j)
        [0..<N_REAL_ROWS]) [0..<depth])) [0..<?m]))) = select (lane_pre k) pre"
    if k: "k < 2" and "\<And>up j r. j < depth \<Longrightarrow> j < 32 \<Longrightarrow> r < N_REAL_ROWS \<Longrightarrow> select (lane_pre k) (nut_preproc_row up depth j r) = comp_preproc_row (F up) (pu_index up) (G up) depth j r" for k F G
  proof -
    have "map (select (lane_pre k)) ?rows = concat (map (\<lambda>up. concat (map (\<lambda>j. map (\<lambda>r. select (lane_pre k) (nut_preproc_row up depth j r)) [0..<N_REAL_ROWS]) [0..<depth])) updates)"
      by (simp add: map_concat o_def)
    also have "\<dots> = concat (map (\<lambda>up. concat (map (\<lambda>j. map (comp_preproc_row (F up) (pu_index up) (G up) depth j) [0..<N_REAL_ROWS]) [0..<depth])) updates)"
      using that(2) a(3) by (intro arg_cong [of _ _ concat] map_cong refl) simp
    also have "\<dots> = concat (map (\<lambda>p. concat (map (\<lambda>j. map (comp_preproc_row (F (updates ! p)) (pu_index (updates ! p)) (G (updates ! p)) depth j) [0..<N_REAL_ROWS]) [0..<depth])) [0..<?m])"
      by (subst map_index) simp
    also have "\<dots> = concat (map (\<lambda>p. concat (map (\<lambda>j. map (comp_preproc_row (map F updates ! p) (pu_index (updates ! p)) (map G updates ! p) depth j) [0..<N_REAL_ROWS]) [0..<depth])) [0..<?m])"
      by (intro arg_cong [of _ _ concat] map_cong refl) simp
    finally show ?thesis unfolding a(4) select_columns [OF lane_bounds(2) [OF k]] select_pad_rows [OF lane_bounds(2) [OF k]] lane_lengths by simp
  qed
  show "build_preproc_multi_var (map pu_old_leaf updates) (map pu_index updates) (map pu_pre_root updates) (replicate ?m depth) log_size = Some (select (lane_pre 0) pre)"
    using multi lane [of 0 pu_old_leaf pu_pre_root] nut_preproc_row_lane(2) by simp
  show "build_preproc_multi_var (map pu_new_leaf updates) (map pu_index updates) (map pu_post_root updates) (replicate ?m depth) log_size = Some (select (lane_pre 1) pre)"
    using multi lane [of 1 pu_new_leaf pu_post_root] nut_preproc_row_lane(3) by simp
qed

section \<open>Soundness\<close>

lemma multi_preproc_norm:
  "length leaves = length indices \<Longrightarrow> length leaves = length roots \<Longrightarrow> length leaves = length depths \<Longrightarrow>
   build_preproc_multi_var (map norm4 leaves) indices (map norm4 roots) depths log_size = build_preproc_multi_var leaves indices roots depths log_size"
proof -
  assume l: "length leaves = length indices" "length leaves = length roots" "length leaves = length depths"
  have "map (\<lambda>(path, j). map (comp_preproc_row (map norm4 leaves ! path) (indices ! path) (map norm4 roots ! path) (depths ! path) j) [0..<N_REAL_ROWS]) (take k (comp_layout depths))
      = map (\<lambda>(path, j). map (comp_preproc_row (leaves ! path) (indices ! path) (roots ! path) (depths ! path) j) [0..<N_REAL_ROWS]) (take k (comp_layout depths))" for k
  proof (rule map_cong [OF refl])
    fix x assume "x \<in> set (take k (comp_layout depths))"
    then have "x \<in> set (comp_layout depths)" by (rule in_set_takeD)
    then obtain p j where x: "x = (p, j)" "p < length depths" by (auto simp: comp_layout_upt)
    then show "(\<lambda>(path, j). map (comp_preproc_row (map norm4 leaves ! path) (indices ! path) (map norm4 roots ! path) (depths ! path) j) [0..<N_REAL_ROWS]) x
      = (\<lambda>(path, j). map (comp_preproc_row (leaves ! path) (indices ! path) (roots ! path) (depths ! path) j) [0..<N_REAL_ROWS]) x"
      using l by (simp add: comp_preproc_row_norm)
  qed
  then show ?thesis using l by (simp only: build_preproc_multi_var_def Let_def length_map)
qed

text \<open>The siblings an accepted trace has for update \<open>u\<close>: one list, read by both lanes.\<close>

definition nut_sibs :: "int list list \<Rightarrow> nat \<Rightarrow> nat \<Rightarrow> u64 list list" where
  "nut_sibs cols depth u = map (\<lambda>j. words (trace_row cols ((u * depth + j) * N_REAL_ROWS)) 80 4) [0..<depth]"

lemma lane_sibs:
  assumes "length cols = 85" "k < 2" "u < m"
  shows "trace_sibs (select (lane_main k) cols) (replicate m depth) u = nut_sibs cols depth u"
proof -
  have b: "\<forall>x\<in>set (lane_main k). x < length cols" using lane_bounds(1) [OF assms(2)] assms(1) by simp
  have s: "sum_list (take u (replicate m depth)) = u * depth" using assms(3) by (simp add: sum_list_replicate)
  have d: "replicate m depth ! u = depth" using assms(3) by simp
  show ?thesis unfolding trace_sibs_def nut_sibs_def trace_row_select [OF b] s d words_def lane_main_cells ..
qed

lemma nut_trace_sound:
  assumes pre: "nut_build_preproc updates depth log_size = Some pre" and len: "length cols = 85"
    and sat: "cyclic_sat nut_evaluate pre cols (2 ^ log_size)" and u: "u < length updates"
  shows "length (nut_sibs cols depth u) = depth" "list_all (wf_state 4) (nut_sibs cols depth u)"
    "fold_path compress_t8 (norm4 (pu_old_leaf (updates ! u))) (nut_sibs cols depth u) (index_bits depth (unat (pu_index (updates ! u)))) = norm4 (pu_pre_root (updates ! u))"
    "fold_path compress_t8 (norm4 (pu_new_leaf (updates ! u))) (nut_sibs cols depth u) (index_bits depth (unat (pu_index (updates ! u)))) = norm4 (pu_post_root (updates ! u))"
proof -
  have ne: "updates \<noteq> []" using u by auto
  let ?m = "length updates"
  have a: "1 \<le> depth" "?m * depth * N_REAL_ROWS \<le> 2 ^ log_size"
    using pre by (auto simp: nut_build_preproc_def Let_def split: if_splits)
  note lanes = nut_preproc_lanes [OF pre ne]
  note s = sat [unfolded nut_sat_lanes [OF len lanes(1)]]
  have ok: "paths_ok log_size (map norm4 (map F updates)) (map pu_index updates) (map norm4 (map G updates)) (replicate ?m depth)" for F G :: "PinnedUpdate \<Rightarrow> u64 list"
    using a by (simp add: paths_ok_def list_all_length norm4_wf sum_list_replicate)
  have b0: "build_preproc_multi_var (map norm4 (map pu_old_leaf updates)) (map pu_index updates) (map norm4 (map pu_pre_root updates)) (replicate ?m depth) log_size = Some (select (lane_pre 0) pre)"
    using lanes(2) by (subst multi_preproc_norm) simp_all
  have b1: "build_preproc_multi_var (map norm4 (map pu_new_leaf updates)) (map pu_index updates) (map norm4 (map pu_post_root updates)) (replicate ?m depth) log_size = Some (select (lane_pre 1) pre)"
    using lanes(3) by (subst multi_preproc_norm) simp_all
  have l: "length (select (lane_main k) cols) = 45" for k by (simp add: lane_lengths)
  have u': "u < length (map norm4 (map F updates))" for F :: "PinnedUpdate \<Rightarrow> u64 list" using u by simp
  note s0 = paths_trace_sound [OF ok b0 l conjunct1 [OF s] u']
  note s1 = paths_trace_sound [OF ok b1 l conjunct2 [OF s] u']
  have e: "trace_sibs (select (lane_main k) cols) (replicate ?m depth) u = nut_sibs cols depth u" if "k < 2" for k
    by (rule lane_sibs [OF len that u])
  have d: "replicate ?m depth ! u = depth" using u by simp
  show "length (nut_sibs cols depth u) = depth" using s0(1) by (simp add: e d)
  show "list_all (wf_state 4) (nut_sibs cols depth u)" using s0(2) by (simp add: e)
  show "fold_path compress_t8 (norm4 (pu_old_leaf (updates ! u))) (nut_sibs cols depth u) (index_bits depth (unat (pu_index (updates ! u)))) = norm4 (pu_pre_root (updates ! u))"
    using s0(3) u by (simp add: e)
  show "fold_path compress_t8 (norm4 (pu_new_leaf (updates ! u))) (nut_sibs cols depth u) (index_bits depth (unat (pu_index (updates ! u)))) = norm4 (pu_post_root (updates ! u))"
    using s1(3) u by (simp add: e)
qed

section \<open>Completeness\<close>

text \<open>A row of the circuit from the rows of two paths with the same shared cells.\<close>

definition join :: "int list \<Rightarrow> int list \<Rightarrow> int list" where
  "join a b = cells a 0 36 @ cells a 41 4 @ cells b 0 36 @ cells b 41 4 @ cells a 36 5"

lemma length_join [simp]: "length (join a b) = 85"
  by (simp add: join_def)

lemma select_lane_join:
  assumes "length a = 45" "length b = 45" "cells a 36 5 = cells b 36 5"
  shows "select (lane_main 0) (join a b) = a" "select (lane_main 1) (join a b) = b"
proof -
  have j: "join a b ! i = (if i < 36 then a ! i else if i < 40 then a ! (i + 5) else if i < 76 then b ! (i - 40)
      else if i < 80 then b ! (i - 35) else a ! (i - 44))" if "i < 85" for i
    using that by (auto simp: join_def nth_append cells_def intro!: arg_cong2 [of _ _ _ _ "(!)"])
  have s: "a ! (36 + i) = b ! (36 + i)" if "i < 5" for i using arg_cong [OF assms(3), of "\<lambda>xs. xs ! i"] that by (simp add: cells_def)
  have m: "lane_main k ! i = (if i < 36 then 40 * k + i else if i < 41 then 44 + i else 40 * k + i - 5)" if "i < 45" for i k
    using that by (auto simp: lane_main_def nth_append simp del: upt_Suc upt_rec_numeral) (simp add: nth_append)?
  show "select (lane_main 0) (join a b) = a"
    by (rule nth_equalityI) (use assms(1) in \<open>auto simp: lane_lengths m j\<close>)
  show "select (lane_main 1) (join a b) = b"
  proof (rule nth_equalityI)
    fix i assume "i < length (select (lane_main 1) (join a b))"
    then have i: "i < 45" by (simp add: lane_lengths)
    show "select (lane_main 1) (join a b) ! i = b ! i"
      using i s [of "i - 36"] by (auto simp: lane_lengths m j)
  qed (simp add: lane_lengths assms)
qed

lemma fill_compression_rows:
  "fill_compression raw8 = map (\<lambda>r. let s = state_at (mat_external_t8 raw8) r; (q, b, t) = round_cells (round_schedule r) s in (s, q, b, t)) [0..<N_REAL_ROWS]"
proof -
  have "foldl (\<lambda>(rows, state) r. let inp = state; (sq, sbx, lin) = round_cells (round_schedule r) inp in (rows @ [(inp, sq, sbx, lin)], lin)) ([], s) [0..<n]
     = (map (\<lambda>r. let s = state_at s r; (q, b, t) = round_cells (round_schedule r) s in (s, q, b, t)) [0..<n], state_at s n)" for s n
    by (induction n) (simp_all add: round_state_def Let_def split_beta)
  then show ?thesis by (simp add: fill_compression_def)
qed

lemma fill_compression_last: "snd (snd (snd (last (fill_compression raw8)))) = state_at (mat_external_t8 raw8) N_REAL_ROWS"
proof -
  have n: "N_REAL_ROWS = Suc (N_REAL_ROWS - 1)" by (simp add: N_REAL_ROWS_val)
  have "last (fill_compression raw8) = (let s = state_at (mat_external_t8 raw8) (N_REAL_ROWS - 1); (q, b, t) = round_cells (round_schedule (N_REAL_ROWS - 1)) s in (s, q, b, t))"
    unfolding fill_compression_rows by (subst n) (simp add: last_map del: One_nat_def)
  then have "snd (snd (snd (last (fill_compression raw8)))) = state_at (mat_external_t8 raw8) (Suc (N_REAL_ROWS - 1))"
    by (simp add: Let_def split_beta round_state_def)
  then show ?thesis using n by simp
qed

text \<open>A level is the two levels of the paths, joined row by row.\<close>

lemma nut_level_eq:
  assumes "length (bits ! u) = length (sibs ! u)" "j < length (sibs ! u)"
  shows "nut_level (if j = 0 then Some (old_leaves ! u) else None) (if j = 0 then Some (new_leaves ! u) else None)
     (level_cur old_leaves sibs bits u j) (level_cur new_leaves sibs bits u j) (norm4 (sibs ! u ! j)) (bits ! u ! j)
   = (map2 join (level_rows old_leaves sibs bits (u, j)) (level_rows new_leaves sibs bits (u, j)),
      level_out old_leaves sibs bits (u, j), level_out new_leaves sibs bits (u, j))"
proof -
  let ?sib = "norm4 (sibs ! u ! j)" and ?b = "bits ! u ! j" and ?ca = "level_cur old_leaves sibs bits u j" and ?cb = "level_cur new_leaves sibs bits u j"
  have wc: "wf_state 4 ?ca" "wf_state 4 ?cb" "wf_state 4 ?sib" using assms by (simp_all add: level_cur_wf norm4_wf)
  have l4: "length ?ca = 4" "length ?cb = 4" "length ?sib = 4" using wc by (simp_all add: wf_state_def)
  have si: "mat_external_t8 (if ?b then ?sib @ level_cur ls sibs bits u j else level_cur ls sibs bits u j @ ?sib) = level_in ls sibs bits u j" for ls
    by (simp add: level_in_def Let_def)
  have row: "lane_cells (if j = 0 then Some (old_leaves ! u) else None) ?ca r (fill_compression (if ?b then ?sib @ ?ca else ?ca @ ?sib) ! r)
      @ lane_cells (if j = 0 then Some (new_leaves ! u) else None) ?cb r (fill_compression (if ?b then ?sib @ ?cb else ?cb @ ?sib) ! r)
      @ (if r = 0 then map m31_cell ?sib @ [flag ?b] else replicate 5 0)
      = join (level_rows old_leaves sibs bits (u, j) ! r) (level_rows new_leaves sibs bits (u, j) ! r)" if r: "r < N_REAL_ROWS" for r
  proof -
    have lr: "level_rows ls sibs bits (u, j) ! r = map m31_cell (state_at (level_in ls sibs bits u j) r)
        @ map m31_cell (fst (round_cells (round_schedule r) (state_at (level_in ls sibs bits u j) r)))
        @ map m31_cell (fst (snd (round_cells (round_schedule r) (state_at (level_in ls sibs bits u j) r))))
        @ map m31_cell (snd (snd (round_cells (round_schedule r) (state_at (level_in ls sibs bits u j) r)))) @ level_rest ls sibs bits u j r" for ls
      using r by (simp add: level_rows_def perm_row_def Let_def split_beta)
    have w: "wf_state 8 (state_at (level_in ls sibs bits u j) r)" for ls
      using level_in_wf [OF assms(2,1)] state_at_wf r by simp
    have len: "length (state_at (level_in ls sibs bits u j) r) = 8" "length (fst (round_cells (round_schedule r) (state_at (level_in ls sibs bits u j) r))) = 8"
      "length (fst (snd (round_cells (round_schedule r) (state_at (level_in ls sibs bits u j) r)))) = 8"
      "length (snd (snd (round_cells (round_schedule r) (state_at (level_in ls sibs bits u j) r)))) = 8" for ls
      using w [of ls] round_cells_wf [OF w [of ls] round_schedule_wf [OF r]] by (simp_all add: wf_state_def prod_eq_iff)
    have app: "cells (p @ q) 0 36 = p @ cells q 0 4" "cells (p @ q) 41 4 = cells q 9 4" "cells (p @ q) 36 5 = cells q 4 5"
      if "length p = 32" "length q = 13" for p q :: "int list"
      using that by (simp_all add: cells_take)
    let ?st = "\<lambda>ls. state_at (level_in ls sibs bits u j) r"
    let ?p = "\<lambda>ls. map m31_cell (?st ls) @ map m31_cell (fst (round_cells (round_schedule r) (?st ls)))
        @ map m31_cell (fst (snd (round_cells (round_schedule r) (?st ls)))) @ map m31_cell (snd (snd (round_cells (round_schedule r) (?st ls))))"
    have lp: "length (?p ls) = 32" for ls using len [of ls] by simp
    have lq: "length (level_rest ls sibs bits u j r) = 13" for ls
      using level_cur_wf [of j sibs u bits ls] assms wc(3) by (simp add: level_rest_def wf_state_def)
    have lr': "level_rows ls sibs bits (u, j) ! r = ?p ls @ level_rest ls sibs bits u j r" for ls unfolding lr by simp
    have rest: "cells (level_rest ls sibs bits u j r) 0 4 = (if r = 0 then map m31_cell (level_cur ls sibs bits u j) else replicate 4 0)"
      "cells (level_rest ls sibs bits u j r) 9 4 = (if j = 0 \<and> r = 0 then map (\<lambda>k. m31_cell (ls ! u ! k)) [0..<4] else replicate 4 0)"
      "cells (level_rest ls sibs bits u j r) 4 5 = (if r = 0 then map m31_cell ?sib @ [flag ?b] else replicate 5 0)" for ls
    proof -
      have "length (level_cur ls sibs bits u j) = 4" using level_cur_wf [of j sibs u bits ls] assms by (simp add: wf_state_def)
      then show "cells (level_rest ls sibs bits u j r) 0 4 = (if r = 0 then map m31_cell (level_cur ls sibs bits u j) else replicate 4 0)"
        "cells (level_rest ls sibs bits u j r) 9 4 = (if j = 0 \<and> r = 0 then map (\<lambda>k. m31_cell (ls ! u ! k)) [0..<4] else replicate 4 0)"
        "cells (level_rest ls sibs bits u j r) 4 5 = (if r = 0 then map m31_cell ?sib @ [flag ?b] else replicate 5 0)"
        using l4(3) by (cases "j = 0"; simp add: level_rest_def cells_take)+
    qed
    have fc: "lane_cells (if j = 0 then Some (ls ! u) else None) (level_cur ls sibs bits u j) r
          (fill_compression (if ?b then ?sib @ level_cur ls sibs bits u j else level_cur ls sibs bits u j @ ?sib) ! r)
        = ?p ls @ cells (level_rest ls sibs bits u j r) 0 4 @ cells (level_rest ls sibs bits u j r) 9 4" for ls
      unfolding fill_compression_rows si rest using r by (simp add: lane_cells_def Let_def split_beta replicate_add [of 4 4, simplified])
    show ?thesis unfolding fc join_def lr' app [OF lp lq] rest by simp
  qed
  have rows: "map (\<lambda>rr. lane_cells (if j = 0 then Some (old_leaves ! u) else None) ?ca rr (fill_compression (if ?b then ?sib @ ?ca else ?ca @ ?sib) ! rr)
      @ lane_cells (if j = 0 then Some (new_leaves ! u) else None) ?cb rr (fill_compression (if ?b then ?sib @ ?cb else ?cb @ ?sib) ! rr)
      @ (if rr = 0 then map m31_cell ?sib @ [flag ?b] else replicate 5 0)) [0..<N_REAL_ROWS]
      = map2 join (level_rows old_leaves sibs bits (u, j)) (level_rows new_leaves sibs bits (u, j))"
  proof (rule nth_equalityI)
    have l: "length (level_rows ls sibs bits (u, j)) = N_REAL_ROWS" for ls by (simp add: level_rows_def)
    show "length (map (\<lambda>rr. lane_cells (if j = 0 then Some (old_leaves ! u) else None) ?ca rr (fill_compression (if ?b then ?sib @ ?ca else ?ca @ ?sib) ! rr)
      @ lane_cells (if j = 0 then Some (new_leaves ! u) else None) ?cb rr (fill_compression (if ?b then ?sib @ ?cb else ?cb @ ?sib) ! rr)
      @ (if rr = 0 then map m31_cell ?sib @ [flag ?b] else replicate 5 0)) [0..<N_REAL_ROWS])
      = length (map2 join (level_rows old_leaves sibs bits (u, j)) (level_rows new_leaves sibs bits (u, j)))" by (simp add: l)
    fix i assume "i < length (map (\<lambda>rr. lane_cells (if j = 0 then Some (old_leaves ! u) else None) ?ca rr (fill_compression (if ?b then ?sib @ ?ca else ?ca @ ?sib) ! rr)
      @ lane_cells (if j = 0 then Some (new_leaves ! u) else None) ?cb rr (fill_compression (if ?b then ?sib @ ?cb else ?cb @ ?sib) ! rr)
      @ (if rr = 0 then map m31_cell ?sib @ [flag ?b] else replicate 5 0)) [0..<N_REAL_ROWS])"
    then have i: "i < N_REAL_ROWS" by simp
    show "map (\<lambda>rr. lane_cells (if j = 0 then Some (old_leaves ! u) else None) ?ca rr (fill_compression (if ?b then ?sib @ ?ca else ?ca @ ?sib) ! rr)
      @ lane_cells (if j = 0 then Some (new_leaves ! u) else None) ?cb rr (fill_compression (if ?b then ?sib @ ?cb else ?cb @ ?sib) ! rr)
      @ (if rr = 0 then map m31_cell ?sib @ [flag ?b] else replicate 5 0)) [0..<N_REAL_ROWS] ! i
      = map2 join (level_rows old_leaves sibs bits (u, j)) (level_rows new_leaves sibs bits (u, j)) ! i"
      using row [OF i] i by (simp add: l)
  qed
  show ?thesis unfolding nut_level_def Let_def rows fill_compression_last si level_out_def prod.case ..
qed

lemma level_row_shared:
  assumes "length (bits ! u) = length (sibs ! u)" "j < length (sibs ! u)" "wf_state 4 (ls ! u)" "r < N_REAL_ROWS"
  shows "cells (level_rows ls sibs bits (u, j) ! r) 36 5 = (if r = 0 then map uint (norm4 (sibs ! u ! j)) @ [flag (bits ! u ! j)] else replicate 5 0)"
proof -
  let ?rest = "level_rest ls sibs bits u j" and ?s = "level_in ls sibs bits u j"
  obtain q b t where c: "round_cells (round_schedule r) (state_at ?s r) = (q, b, t)" by (metis prod_cases3)
  have w: "wf_state 8 (state_at ?s r)" using level_in_wf [OF assms(2,1)] state_at_wf assms(4) by simp
  have l: "length (state_at ?s r) = 8" "length q = 8" "length b = 8" "length t = 8"
    using w round_cells_wf [OF w round_schedule_wf [OF assms(4)] c] by (simp_all add: wf_state_def)
  have lc: "length (level_cur ls sibs bits u j) = 4" "length (norm4 (sibs ! u ! j)) = 4"
    using level_cur_wf [of j sibs u bits ls] norm4_wf [of "sibs ! u ! j"] assms by (simp_all add: wf_state_def)
  have "level_rows ls sibs bits (u, j) ! r = map m31_cell (state_at ?s r) @ map m31_cell q @ map m31_cell b @ map m31_cell t @ ?rest r"
    using assms(4) by (simp add: level_rows_def perm_row_def c)
  then show ?thesis unfolding map_m31_cell [OF norm4_wf, symmetric] using l lc by (simp add: cells_take level_rest_def)
qed

lemma zip_concat_map:
  "(\<And>x. x \<in> set xs \<Longrightarrow> length (g x) = length (h x)) \<Longrightarrow> zip (concat (map g xs)) (concat (map h xs)) = concat (map (\<lambda>x. zip (g x) (h x)) xs)"
  by (induction xs) simp_all

text \<open>The loops over the levels and over the updates.\<close>

lemma nut_update_eq:
  assumes "length (bits ! u) = length (sibs ! u)" "depth = length (sibs ! u)" "1 \<le> depth"
  shows "nut_update old_leaves new_leaves sibs bits depth (rows, reached, ca, cb) u =
    (rows @ concat (map (\<lambda>j. map2 join (level_rows old_leaves sibs bits (u, j)) (level_rows new_leaves sibs bits (u, j))) [0..<depth]),
     reached @ [(level_cur old_leaves sibs bits u depth, level_cur new_leaves sibs bits u depth)],
     level_out old_leaves sibs bits (u, depth - 1), level_out new_leaves sibs bits (u, depth - 1))"
proof -
  let ?f = "\<lambda>(rows, cur_a, cur_b, carry_a, carry_b) j.
           let first = (\<lambda>leaves. if j = 0 then Some (leaves ! u) else None);
               (block, out_a, out_b) = nut_level (first old_leaves) (first new_leaves) cur_a cur_b (norm4 (sibs ! u ! j)) (bits ! u ! j)
           in (rows @ block, take 4 out_a, take 4 out_b, out_a, out_b)"
  let ?B = "\<lambda>j. map2 join (level_rows old_leaves sibs bits (u, j)) (level_rows new_leaves sibs bits (u, j))"
  have step: "?f (rows, level_cur old_leaves sibs bits u j, level_cur new_leaves sibs bits u j, ca, cb) j =
      (rows @ ?B j, level_cur old_leaves sibs bits u (Suc j), level_cur new_leaves sibs bits u (Suc j), level_out old_leaves sibs bits (u, j), level_out new_leaves sibs bits (u, j))"
    if "j < length (sibs ! u)" for rows ca cb j
    using nut_level_eq [OF assms(1) that, of old_leaves new_leaves] level_cur_Suc [OF that assms(1)] by (simp add: Let_def)
  have "foldl ?f (rows, level_cur old_leaves sibs bits u 0, level_cur new_leaves sibs bits u 0, ca, cb) [0..<Suc j] =
      (rows @ concat (map ?B [0..<Suc j]), level_cur old_leaves sibs bits u (Suc j), level_cur new_leaves sibs bits u (Suc j),
       level_out old_leaves sibs bits (u, j), level_out new_leaves sibs bits (u, j))" if "j < length (sibs ! u)" for j
    using that
  proof (induction j)
    case 0
    have u0: "[0..<Suc 0] = [0]" by simp
    show ?case unfolding u0 foldl_Cons foldl_Nil step [OF 0] by simp
  next
    case (Suc j)
    have j: "j < length (sibs ! u)" using Suc.prems by simp
    have us: "[0..<Suc (Suc j)] = [0..<Suc j] @ [Suc j]" by simp
    show ?case unfolding us foldl_append Suc.IH [OF j] foldl_Cons foldl_Nil step [OF Suc.prems] by simp
  qed
  note e = this [of "depth - 1"]
  have d: "depth - 1 < length (sibs ! u)" "Suc (depth - 1) = depth" using assms(2,3) by simp_all
  show ?thesis unfolding nut_update_def Let_def prod.case level_cur_0 [of old_leaves sibs bits u, symmetric] level_cur_0 [of new_leaves sibs bits u, symmetric]
      e [OF d(1), unfolded d(2) Let_def] prod.case ..
qed

lemma nut_updates_eq:
  assumes "1 \<le> depth" "\<And>u. u \<le> m \<Longrightarrow> length (bits ! u) = length (sibs ! u) \<and> depth = length (sibs ! u)"
  shows "foldl (nut_update old_leaves new_leaves sibs bits depth) ([], [], ca, cb) [0..<Suc m] =
    (concat (map (\<lambda>u. concat (map (\<lambda>j. map2 join (level_rows old_leaves sibs bits (u, j)) (level_rows new_leaves sibs bits (u, j))) [0..<depth])) [0..<Suc m]),
     map (\<lambda>u. (level_cur old_leaves sibs bits u depth, level_cur new_leaves sibs bits u depth)) [0..<Suc m],
     level_out old_leaves sibs bits (m, depth - 1), level_out new_leaves sibs bits (m, depth - 1))"
  using assms(2)
proof (induction m)
  case 0
  have a: "length (bits ! 0) = length (sibs ! 0)" "depth = length (sibs ! 0)" using 0 [of 0] by simp_all
  have u0: "[0..<Suc 0] = [0]" by simp
  show ?case unfolding u0 foldl_Cons foldl_Nil nut_update_eq [OF a assms(1)] by simp
next
  case (Suc m)
  have a: "length (bits ! Suc m) = length (sibs ! Suc m)" "depth = length (sibs ! Suc m)" using Suc.prems [of "Suc m"] by simp_all
  have us: "[0..<Suc (Suc m)] = [0..<Suc m] @ [Suc m]" by simp
  have ih: "foldl (nut_update old_leaves new_leaves sibs bits depth) ([], [], ca, cb) [0..<Suc m] =
    (concat (map (\<lambda>u. concat (map (\<lambda>j. map2 join (level_rows old_leaves sibs bits (u, j)) (level_rows new_leaves sibs bits (u, j))) [0..<depth])) [0..<Suc m]),
     map (\<lambda>u. (level_cur old_leaves sibs bits u depth, level_cur new_leaves sibs bits u depth)) [0..<Suc m],
     level_out old_leaves sibs bits (m, depth - 1), level_out new_leaves sibs bits (m, depth - 1))" using Suc.prems by (intro Suc.IH) simp
  show ?case unfolding us foldl_append ih foldl_Cons foldl_Nil nut_update_eq [OF a assms(1)] by simp
qed

lemma nut_pad_join:
  assumes "length a = 8" "length b = 8"
  shows "nut_pad k a b = map2 join (pad_loop 13 k a) (pad_loop 13 k b)"
  using assms
proof (induction k arbitrary: a b)
  case (Suc k)
  have "join (pad_row 13 a) (pad_row 13 b) = nut_pad_row a @ nut_pad_row b @ replicate 5 0"
    using Suc.prems by (simp add: join_def pad_row_def nut_pad_row_def cells_take replicate_add [symmetric] numeral_eq_Suc)
  then show ?case using Suc.IH [of "replicate 8 0" "replicate 8 0"] by (simp add: pad_row_def)
qed simp

lemma map_select_join:
  assumes "length A = length B" "\<And>a b. (a, b) \<in> set (zip A B) \<Longrightarrow> length a = 45 \<and> length b = 45 \<and> cells a 36 5 = cells b 36 5"
  shows "map (select (lane_main 0)) (map2 join A B) = A" "map (select (lane_main 1)) (map2 join A B) = B"
proof -
  have "map (select (lane_main 0)) (map2 join A B) = map fst (zip A B)" using assms(2) select_lane_join(1) by auto
  then show "map (select (lane_main 0)) (map2 join A B) = A" using assms(1) by simp
  have "map (select (lane_main 1)) (map2 join A B) = map snd (zip A B)" using assms(2) select_lane_join(2) by auto
  then show "map (select (lane_main 1)) (map2 join A B) = B" using assms(1) by simp
qed

text \<open>The builder makes the traces of two batches of paths.\<close>

lemma nut_build_lanes:
  assumes "paths_in log_size old_leaves sibs bits" "paths_in log_size new_leaves sibs bits"
    and d: "1 \<le> depth" "\<forall>s\<in>set sibs. length s = depth"
  obtains cols where "nut_build_trace_raw old_leaves new_leaves sibs bits log_size
      = Some (cols, zip (path_roots old_leaves sibs bits) (path_roots new_leaves sibs bits))" "length cols = 85"
    "build_paths_raw old_leaves sibs bits log_size = Some (select (lane_main 0) cols, path_roots old_leaves sibs bits)"
    "build_paths_raw new_leaves sibs bits log_size = Some (select (lane_main 1) cols, path_roots new_leaves sibs bits)"
proof -
  let ?n = "2 ^ log_size :: nat" and ?m = "length old_leaves"
  note a = assms(1) [unfolded paths_in_def] and b = assms(2) [unfolded paths_in_def]
  have lens: "length sibs = ?m" "length new_leaves = ?m" "length bits = ?m" "0 < ?m"
  proof -
    show s: "length sibs = ?m" using a by blast
    have "length sibs = length new_leaves" using b by blast
    then show "length new_leaves = ?m" using s by (rule trans [OF sym])
    have "length bits = length sibs" using a list_all2_lengthD by blast
    then show "length bits = ?m" using s by (rule trans)
    show "0 < ?m" using a by blast
  qed
  have ds: "map length sibs = replicate ?m depth" using d(2) lens(1) by (intro nth_equalityI) simp_all
  have each: "length (bits ! u) = length (sibs ! u)" "depth = length (sibs ! u)" "wf_state 4 (old_leaves ! u)" "wf_state 4 (new_leaves ! u)" if "u < ?m" for u
  proof -
    have "list_all2 (\<lambda>b s. s \<noteq> [] \<and> length b = length s) bits sibs" using a by blast
    from list_all2_nthD [OF this, of u] that show "length (bits ! u) = length (sibs ! u)" unfolding lens(3) by blast
    have "sibs ! u \<in> set sibs" using that lens(1) by simp
    then show "depth = length (sibs ! u)" using d(2) by simp
    have "list_all (wf_state 4) old_leaves" "list_all (wf_state 4) new_leaves" using a b by blast+
    then show "wf_state 4 (old_leaves ! u)" "wf_state 4 (new_leaves ! u)" using that unfolding list_all_length lens(2) by blast+
  qed
  define layout where "layout = comp_layout (map length sibs)"
  have lay: "layout = concat (map (\<lambda>u. map (Pair u) [0..<depth]) [0..<?m])" unfolding layout_def ds comp_layout_uniform ..
  have len: "length layout = ?m * depth" by (simp add: layout_def ds sum_list_replicate)
  have fit: "?m * depth * N_REAL_ROWS \<le> ?n"
  proof -
    have "sum_list (map length sibs) * N_REAL_ROWS \<le> ?n" using a by blast
    then show ?thesis unfolding ds by (simp add: sum_list_replicate)
  qed
  have last: "last layout = (?m - 1, depth - 1)"
  proof -
    obtain k where k: "?m = Suc k" using lens(4) by (metis gr0_implies_Suc)
    show ?thesis unfolding lay k using d(1) by (simp add: last_map)
  qed
  let ?LA = "level_rows old_leaves sibs bits" and ?LB = "level_rows new_leaves sibs bits"
  let ?oa = "level_out old_leaves sibs bits (?m - 1, depth - 1)" and ?ob = "level_out new_leaves sibs bits (?m - 1, depth - 1)"
  let ?pad = "?n - ?m * depth * N_REAL_ROWS"
  have lv: "length (level_rows ls sibs bits x) = N_REAL_ROWS" for ls x by (simp add: level_rows_def split_beta)
  have out: "wf_state 8 (level_out ls sibs bits (?m - 1, depth - 1))" for ls
  proof -
    have "?m - 1 < ?m" using lens(4) by simp
    note e = each(1,2) [OF this]
    have "wf_state 8 (level_in ls sibs bits (?m - 1) (depth - 1))" by (rule level_in_wf) (use e d(1) in simp_all)
    then show ?thesis by (simp add: level_out_def state_at_wf)
  qed
  have lo: "length ?oa = 8" "length ?ob = 8" using out by (simp_all add: wf_state_def)
  let ?A = "concat (map ?LA layout) @ pad_loop 13 ?pad ?oa" and ?B = "concat (map ?LB layout) @ pad_loop 13 ?pad ?ob"
  have zc: "zip (concat (map ?LA layout)) (concat (map ?LB layout)) = concat (map (\<lambda>x. zip (?LA x) (?LB x)) layout)" by (rule zip_concat_map) (simp add: lv)
  have lab: "length (concat (map ?LA layout)) = length (concat (map ?LB layout))" by (simp add: length_concat o_def lv)
  have blocks: "concat (map (\<lambda>u. concat (map (\<lambda>j. map2 join (?LA (u, j)) (?LB (u, j))) [0..<depth])) [0..<?m]) = map2 join (concat (map ?LA layout)) (concat (map ?LB layout))"
  proof -
    have "map2 join (concat (map ?LA layout)) (concat (map ?LB layout)) = concat (map (\<lambda>x. map2 join (?LA x) (?LB x)) layout)"
      unfolding zc by (simp add: map_concat o_def)
    then show ?thesis unfolding lay concat_map_concat by (simp add: o_def)
  qed
  have m: "Suc (?m - 1) = ?m" using lens(4) by simp
  have "foldl (nut_update old_leaves new_leaves sibs bits depth) ([], [], replicate 8 0, replicate 8 0) [0..<Suc (?m - 1)] =
      (concat (map (\<lambda>u. concat (map (\<lambda>j. map2 join (?LA (u, j)) (?LB (u, j))) [0..<depth])) [0..<Suc (?m - 1)]),
       map (\<lambda>u. (level_cur old_leaves sibs bits u depth, level_cur new_leaves sibs bits u depth)) [0..<Suc (?m - 1)], ?oa, ?ob)"
  proof (rule nut_updates_eq [OF d(1)])
    fix u assume "u \<le> ?m - 1"
    then have "u < ?m" using m by linarith
    then show "length (bits ! u) = length (sibs ! u) \<and> depth = length (sibs ! u)" using each(1,2) by blast
  qed
  note f = this [unfolded m blocks]
  have roots: "map (\<lambda>u. (level_cur old_leaves sibs bits u depth, level_cur new_leaves sibs bits u depth)) [0..<?m]
      = zip (path_roots old_leaves sibs bits) (path_roots new_leaves sibs bits)"
  proof (rule nth_equalityI)
    show "length (map (\<lambda>u. (level_cur old_leaves sibs bits u depth, level_cur new_leaves sibs bits u depth)) [0..<?m])
      = length (zip (path_roots old_leaves sibs bits) (path_roots new_leaves sibs bits))" using lens by (simp add: path_roots_def)
    fix u assume "u < length (map (\<lambda>u. (level_cur old_leaves sibs bits u depth, level_cur new_leaves sibs bits u depth)) [0..<?m])"
    then have u: "u < ?m" by simp
    show "map (\<lambda>u. (level_cur old_leaves sibs bits u depth, level_cur new_leaves sibs bits u depth)) [0..<?m] ! u
      = zip (path_roots old_leaves sibs bits) (path_roots new_leaves sibs bits) ! u"
      using u each [OF u] lens by (simp add: path_roots_def level_cur_def norm4_id)
  qed
  let ?cols = "columns 85 (map2 join ?A ?B)"
  have build: "nut_build_trace_raw old_leaves new_leaves sibs bits log_size = Some (?cols, zip (path_roots old_leaves sibs bits) (path_roots new_leaves sibs bits))"
  proof -
    have d0: "length (sibs ! 0) = depth" by (rule each(2) [OF lens(4), symmetric])
    have g1: "\<not> (?m < 1 \<or> length new_leaves \<noteq> ?m \<or> length sibs \<noteq> ?m \<or> length bits \<noteq> ?m)" using lens by simp
    have g2: "\<not> (depth < 1 \<or> \<not> list_all2 (\<lambda>s b. length s = depth \<and> length b = depth) sibs bits \<or> \<not> ?m * depth * N_REAL_ROWS \<le> ?n)"
    proof -
      have "list_all2 (\<lambda>s b. length s = depth \<and> length b = depth) sibs bits"
        using each(1) each(2) [symmetric] lens(1,3) by (simp add: list_all2_conv_all_nth)
      then show ?thesis using d(1) fit by simp
    qed
    have n: "N_MAIN_COLS = 85" by (simp add: N_MAIN_COLS_def)
    show ?thesis unfolding nut_build_trace_raw_def n Let_def if_not_P [OF g1] d0 if_not_P [OF g2] f prod.case roots nut_pad_join [OF lo]
      using lab by simp
  qed
  have shared: "length x = 45 \<and> length y = 45 \<and> cells x 36 5 = cells y 36 5" if "(x, y) \<in> set (zip ?A ?B)" for x y
  proof -
    have zz: "zip ?A ?B = concat (map (\<lambda>x. zip (?LA x) (?LB x)) layout) @ zip (pad_loop 13 ?pad ?oa) (pad_loop 13 ?pad ?ob)" using lab zc by simp
    have "(\<exists>z\<in>set layout. (x, y) \<in> set (zip (?LA z) (?LB z))) \<or> (x, y) \<in> set (zip (pad_loop 13 ?pad ?oa) (pad_loop 13 ?pad ?ob))"
      using that unfolding zz set_append set_concat set_map by blast
    then consider z where "z \<in> set layout" "(x, y) \<in> set (zip (?LA z) (?LB z))" | "(x, y) \<in> set (zip (pad_loop 13 ?pad ?oa) (pad_loop 13 ?pad ?ob))" by blast
    then show ?thesis
    proof cases
      case 1
      then obtain u j where uj: "z = (u, j)" "u < ?m" "j < depth" by (auto simp: lay)
      from 1(2) obtain r where r: "r < N_REAL_ROWS" "x = ?LA z ! r" "y = ?LB z ! r" by (auto simp: set_zip lv)
      note e = each [OF uj(2)]
      have j: "j < length (sibs ! u)" using uj(3) e(2) by simp
      show ?thesis unfolding r(2,3) uj(1)
        using level_row_facts(1) [OF j e(1,3) r(1)] level_row_facts(1) [OF j e(1,4) r(1)] level_row_shared [OF e(1) j e(3) r(1)] level_row_shared [OF e(1) j e(4) r(1)] by simp
    next
      case 2
      have p: "length (pad_row 13 s) = 45 \<and> cells (pad_row 13 s) 36 5 = replicate 5 0" if "length s = 8" for s
        using that by (simp add: pad_row_def cells_take)
      from 2 obtain i where i: "i < ?pad" "x = pad_row 13 (if i = 0 then ?oa else replicate 8 0)" "y = pad_row 13 (if i = 0 then ?ob else replicate 8 0)"
        by (auto simp: set_zip pad_loop_rows)
      have "length (if i = 0 then ?oa else replicate 8 0) = 8" "length (if i = 0 then ?ob else replicate 8 0) = 8" using lo by simp_all
      from p [OF this(1)] p [OF this(2)] show ?thesis unfolding i(2,3) by simp
    qed
  qed
  have l: "length ?A = length ?B" using lab by (simp add: pad_loop_rows)
  have z2: "0 < (2 :: nat)" "1 < (2 :: nat)" by simp_all
  have mj: "map (select (lane_main 0)) (map2 join ?A ?B) = ?A" "map (select (lane_main 1)) (map2 join ?A ?B) = ?B"
    by (rule map_select_join [OF l], erule shared)+
  have c0: "select (lane_main 0) ?cols = columns 45 ?A"
    unfolding select_columns [OF lane_bounds(1) [OF z2(1)]] lane_lengths mj(1) ..
  have c1: "select (lane_main 1) ?cols = columns 45 ?B"
    unfolding select_columns [OF lane_bounds(1) [OF z2(2)]] lane_lengths mj(2) ..
  have B: "build_paths_raw old_leaves sibs bits log_size = Some (columns 45 ?A, path_roots old_leaves sibs bits)"
    "build_paths_raw new_leaves sibs bits log_size = Some (columns 45 ?B, path_roots new_leaves sibs bits)"
    using build_paths_raw_eq [OF assms(1)] build_paths_raw_eq [OF assms(2)] last len by (simp_all add: layout_def [symmetric])
  show ?thesis
  proof (rule that [OF build])
    show "length ?cols = 85" by (simp add: columns_def)
    show "build_paths_raw old_leaves sibs bits log_size = Some (select (lane_main 0) ?cols, path_roots old_leaves sibs bits)" unfolding c0 by (rule B(1))
    show "build_paths_raw new_leaves sibs bits log_size = Some (select (lane_main 1) ?cols, path_roots new_leaves sibs bits)" unfolding c1 by (rule B(2))
  qed
qed

text \<open>Honest updates satisfy the circuit.\<close>

lemma nut_trace_complete:
  assumes i: "paths_in log_size (map pu_old_leaf updates) sibs bits" "paths_in log_size (map pu_new_leaf updates) sibs bits"
    and d: "1 \<le> depth" "depth \<le> 32" "\<forall>s\<in>set sibs. length s = depth"
    and idx: "\<And>u. u < length updates \<Longrightarrow> index_bits depth (unat (pu_index (updates ! u))) = bits ! u"
    and roots: "map pu_pre_root updates = path_roots (map pu_old_leaf updates) sibs bits" "map pu_post_root updates = path_roots (map pu_new_leaf updates) sibs bits"
  obtains cols pre where "nut_build_trace_raw (map pu_old_leaf updates) (map pu_new_leaf updates) sibs bits log_size
      = Some (cols, zip (map pu_pre_root updates) (map pu_post_root updates))" "length cols = 85"
    "nut_build_preproc updates depth log_size = Some pre" "length pre = 30" "cyclic_sat nut_evaluate pre cols (2 ^ log_size)"
proof -
  let ?old = "map pu_old_leaf updates" and ?new = "map pu_new_leaf updates" and ?m = "length updates"
  note a = i(1) [unfolded paths_in_def]
  have ne: "updates \<noteq> []" "length sibs = ?m" using a by auto
  have ds: "map length sibs = replicate ?m depth" using d(3) ne(2) by (intro nth_equalityI) simp_all
  have fit: "?m * depth * N_REAL_ROWS \<le> 2 ^ log_size" using a by (simp add: ds sum_list_replicate)
  obtain cols where c: "nut_build_trace_raw ?old ?new sibs bits log_size = Some (cols, zip (path_roots ?old sibs bits) (path_roots ?new sibs bits))" "length cols = 85"
    "build_paths_raw ?old sibs bits log_size = Some (select (lane_main 0) cols, path_roots ?old sibs bits)"
    "build_paths_raw ?new sibs bits log_size = Some (select (lane_main 1) cols, path_roots ?new sibs bits)"
    by (rule nut_build_lanes [OF i d(1,3)]) (rule that)
  obtain pre where p: "nut_build_preproc updates depth log_size = Some pre" using d(1,2) fit by (simp add: nut_build_preproc_def Let_def)
  note lanes = nut_preproc_lanes [OF p ne(1)]
  have li: "length (map pu_index updates) = length (map F updates)" for F :: "PinnedUpdate \<Rightarrow> u64 list" by simp
  have idx': "index_bits (length (sibs ! u)) (unat (map pu_index updates ! u)) = bits ! u" if "u < length (map F updates)" for u and F :: "PinnedUpdate \<Rightarrow> u64 list"
    using idx [of u] that d(3) ne(2) by simp
  obtain c0 p0 where s0: "build_paths_raw ?old sibs bits log_size = Some (c0, path_roots ?old sibs bits)"
    "build_preproc_multi_var ?old (map pu_index updates) (path_roots ?old sibs bits) (map length sibs) log_size = Some p0" "cyclic_sat path_evaluate p0 c0 (2 ^ log_size)"
    by (rule paths_trace_complete [OF i(1) li]) (erule idx', rule that)
  obtain c1 p1 where s1: "build_paths_raw ?new sibs bits log_size = Some (c1, path_roots ?new sibs bits)"
    "build_preproc_multi_var ?new (map pu_index updates) (path_roots ?new sibs bits) (map length sibs) log_size = Some p1" "cyclic_sat path_evaluate p1 c1 (2 ^ log_size)"
    by (rule paths_trace_complete [OF i(2) li]) (erule idx', rule that)
  have e: "c0 = select (lane_main 0) cols" "c1 = select (lane_main 1) cols" "p0 = select (lane_pre 0) pre" "p1 = select (lane_pre 1) pre"
    using c(3,4) s0(1,2) s1(1,2) lanes(2,3) unfolding ds roots by simp_all
  have "cyclic_sat nut_evaluate pre cols (2 ^ log_size)"
    using s0(3) s1(3) unfolding nut_sat_lanes [OF c(2) lanes(1)] e by (rule conjI)
  then show ?thesis using that c(1,2) p lanes(1) unfolding roots by blast
qed

end
