(* ===== verification/Nonce_Accumulator.thy ===== *)
theory Nonce_Accumulator
  imports Nonce_Tree Circuit_Nonce
begin

unbundle bit_operations_syntax

text \<open>
  The nonce accumulator (\<open>recursive/nonce_accumulator.rs\<close>): the public statement of a batch of nonce updates, what
  a verifier checks of it without a proof, the witness of the prover, and the functions that prove and verify with
  the library as a parameter, as in \<open>Path_Protocol\<close>. The end-to-end results join the tree of \<open>Nonce_Tree\<close>, the
  circuit of \<open>Circuit_Nonce\<close> and these checks.
\<close>

section \<open>Statements\<close>

definition MAX_UPDATES :: nat where "MAX_UPDATES = 512"

record NonceUpdate =
  nu_index :: u32
  nu_old_nonce :: u64
  nu_new_nonce :: u64
  nu_post_root :: "u64 list"

record NonceStatement =
  ns_old_root :: "u64 list"
  ns_new_root :: "u64 list"
  ns_updates :: "NonceUpdate list"
  ns_depth :: nat

datatype ns_error =
    TooManyUpdates nat
  | NsDepthRange nat
  | AirDepth nat
  | StepCount nat
  | EmptyMoves
  | SlotRange nat
  | NotStrict nat
  | LastRoot
  | EmptyBatch
  | CountMismatch nat nat
  | NotThisUpdate nat
  | RootsMismatch nat
  | PathDepth nat
  | OldLeafUnreached nat
  | NewLeafUnreached nat
  | NsLogExceeds nat
  | NsMalformed nat
  | NsStark string

definition validate_count :: "nat \<Rightarrow> ns_error option" where
  "validate_count n = (if n > MAX_UPDATES then Some (TooManyUpdates n) else None)"

definition validate_depth :: "nat \<Rightarrow> ns_error option" where
  "validate_depth d = (if d = 0 \<or> d > MAX_DEPTH then Some (NsDepthRange d)
     else if d > NUT_MAX_DEPTH then Some (AirDepth d) else None)"

fun check_steps :: "nat \<Rightarrow> nat \<Rightarrow> NonceTransition list \<Rightarrow> ns_error option" where
  "check_steps d i [] = None"
| "check_steps d i (t # ts) = (if length (tr_bits t) \<noteq> d \<or> length (tr_sibs t) \<noteq> d then Some (StepCount i) else check_steps d (Suc i) ts)"

definition from_transitions :: "NonceTransition list \<Rightarrow> bytes \<Rightarrow> bytes \<Rightarrow> nat \<Rightarrow> ns_error + NonceStatement" where
  "from_transitions transitions old_root new_root d =
     (case validate_count (length transitions) of Some e \<Rightarrow> Inl e | None \<Rightarrow>
      case validate_depth d of Some e \<Rightarrow> Inl e | None \<Rightarrow>
      case check_steps d 0 transitions of Some e \<Rightarrow> Inl e | None \<Rightarrow>
        Inr \<lparr>ns_old_root = p2t8_node_words old_root, ns_new_root = p2t8_node_words new_root,
             ns_updates = map (\<lambda>t. \<lparr>nu_index = of_nat (tr_index t), nu_old_nonce = old_nonce t, nu_new_nonce = new_nonce t,
               nu_post_root = p2t8_node_words (post_root t)\<rparr>) transitions, ns_depth = d\<rparr>)"

definition pre_roots :: "NonceStatement \<Rightarrow> u64 list list" where
  "pre_roots st = fst (foldl (\<lambda>(out, prev) u. (out @ [prev], nu_post_root u)) ([], ns_old_root st) (ns_updates st))"

fun check_updates :: "nat \<Rightarrow> nat \<Rightarrow> NonceUpdate list \<Rightarrow> ns_error option" where
  "check_updates d i [] = None"
| "check_updates d i (u # us) =
     (if unat (nu_index u) \<ge> 2 ^ d then Some (SlotRange i)
      else if nu_new_nonce u \<le> nu_old_nonce u then Some (NotStrict i)
      else check_updates d (Suc i) us)"

definition check_public :: "NonceStatement \<Rightarrow> ns_error option" where
  "check_public st =
     (case validate_count (length (ns_updates st)) of Some e \<Rightarrow> Some e | None \<Rightarrow>
      case validate_depth (ns_depth st) of Some e \<Rightarrow> Some e | None \<Rightarrow>
        if ns_updates st = [] then (if ns_old_root st \<noteq> ns_new_root st then Some EmptyMoves else None)
        else case check_updates (ns_depth st) 0 (ns_updates st) of Some e \<Rightarrow> Some e | None \<Rightarrow>
          if nu_post_root (ns_updates st ! (length (ns_updates st) - 1)) \<noteq> ns_new_root st then Some LastRoot else None)"

definition pinned_updates :: "NonceStatement \<Rightarrow> PinnedUpdate list" where
  "pinned_updates st = map2 (\<lambda>u pre. \<lparr>pu_old_leaf = p2t8_node_words (nonce_leaf (nu_old_nonce u)),
     pu_new_leaf = p2t8_node_words (nonce_leaf (nu_new_nonce u)), pu_index = nu_index u, pu_pre_root = pre, pu_post_root = nu_post_root u\<rparr>)
     (ns_updates st) (pre_roots st)"

text \<open>The words absorbed after the commitments.\<close>

definition statement_words :: "NonceStatement \<Rightarrow> u32 list" where
  "statement_words st =
     (let w = (\<lambda>v :: u64. ucast (v mod M31_P) :: u32)
      in [of_nat (length (ns_updates st)), of_nat (ns_depth st)] @ map w (ns_old_root st) @ map w (ns_new_root st)
         @ concat (map (\<lambda>u. [nu_index u, ucast (nu_old_nonce u AND 0xffffffff), ucast (drop_bit 32 (nu_old_nonce u)),
             ucast (nu_new_nonce u AND 0xffffffff), ucast (drop_bit 32 (nu_new_nonce u))] @ map w (nu_post_root u)) (ns_updates st)))"

definition statement_log_size :: "NonceStatement \<Rightarrow> ns_error + nat" where
  "statement_log_size st =
     (case check_public st of Some e \<Rightarrow> Inl e | None \<Rightarrow>
        if ns_updates st = [] then Inl EmptyBatch
        else let log_size = nut_log_size (length (ns_updates st)) (ns_depth st)
          in if log_size > NUT_MAX_LOG_SIZE then Inl (NsLogExceeds log_size) else Inr log_size)"

section \<open>Proving\<close>

definition nonce_witness :: "NonceTransition list \<Rightarrow> u64 list list list \<times> bool list list" where
  "nonce_witness transitions = (map (\<lambda>t. map p2t8_node_words (tr_sibs t)) transitions, map tr_bits transitions)"

fun check_links :: "nat \<Rightarrow> nat \<Rightarrow> NonceTransition list \<Rightarrow> NonceUpdate list \<Rightarrow> u64 list list \<Rightarrow> ns_error option" where
  "check_links d i (t # ts) (u # us) (pre # ps) =
     (if tr_index t \<noteq> unat (nu_index u) \<or> old_nonce t \<noteq> nu_old_nonce u \<or> new_nonce t \<noteq> nu_new_nonce u then Some (NotThisUpdate i)
      else if p2t8_node_words (pre_root t) \<noteq> pre \<or> p2t8_node_words (post_root t) \<noteq> nu_post_root u then Some (RootsMismatch i)
      else if length (tr_bits t) \<noteq> d \<or> length (tr_sibs t) \<noteq> d then Some (PathDepth i)
      else check_links d (Suc i) ts us ps)"
| "check_links d i _ _ _ = None"

fun check_reached :: "nat \<Rightarrow> (u64 list \<times> u64 list) list \<Rightarrow> PinnedUpdate list \<Rightarrow> ns_error option" where
  "check_reached i ((pre, post) # rs) (p # ps) =
     (if pre \<noteq> pu_pre_root p then Some (OldLeafUnreached i)
      else if post \<noteq> pu_post_root p then Some (NewLeafUnreached i)
      else check_reached (Suc i) rs ps)"
| "check_reached i _ _ = None"

definition checked_trace :: "NonceStatement \<Rightarrow> NonceTransition list \<Rightarrow> nat \<Rightarrow> (ns_error + int list list \<times> int list list) option" where
  "checked_trace st transitions log_size =
     (case check_public st of Some e \<Rightarrow> Some (Inl e) | None \<Rightarrow>
        if ns_updates st = [] then Some (Inl EmptyBatch)
        else if length transitions \<noteq> length (ns_updates st) then Some (Inl (CountMismatch (length transitions) (length (ns_updates st))))
        else case check_links (ns_depth st) 0 transitions (ns_updates st) (pre_roots st) of Some e \<Rightarrow> Some (Inl e) | None \<Rightarrow>
          let pins = pinned_updates st; (sibs, bits) = nonce_witness transitions
          in case nut_build_trace_raw (map pu_old_leaf pins) (map pu_new_leaf pins) sibs bits log_size of None \<Rightarrow> None
             | Some (main_cols, reached) \<Rightarrow>
                 case check_reached 0 reached pins of Some e \<Rightarrow> Some (Inl e) | None \<Rightarrow>
                   case nut_build_preproc pins (ns_depth st) log_size of None \<Rightarrow> None
                   | Some pre \<Rightarrow> Some (Inr (main_cols, pre)))"

definition raw_columns :: "NonceStatement \<Rightarrow> NonceTransition list \<Rightarrow> nat \<Rightarrow> int list list option" where
  "raw_columns st transitions log_size =
     (let pins = pinned_updates st; (sibs, bits) = nonce_witness transitions
      in map_option fst (nut_build_trace_raw (map pu_old_leaf pins) (map pu_new_leaf pins) sibs bits log_size))"

definition statement_trace_columns :: "NonceStatement \<Rightarrow> NonceTransition list \<Rightarrow> (ns_error + int list list \<times> nat) option" where
  "statement_trace_columns st transitions =
     (case check_public st of Some e \<Rightarrow> Some (Inl e) | None \<Rightarrow>
        if length transitions \<noteq> length (ns_updates st) then Some (Inl (CountMismatch (length transitions) (length (ns_updates st))))
        else case statement_log_size st of Inl e \<Rightarrow> Some (Inl e)
          | Inr log_size \<Rightarrow> map_option (\<lambda>cols. Inr (cols, log_size)) (raw_columns st transitions log_size))"

definition prove_nonce_transitions :: "'b path_prover \<Rightarrow> NonceStatement \<Rightarrow> NonceTransition list \<Rightarrow> (ns_error + 'b \<times> nat) option" where
  "prove_nonce_transitions stark_prove st transitions =
     (case statement_log_size st of Inl e \<Rightarrow> Some (Inl e)
      | Inr log_size \<Rightarrow>
          case checked_trace st transitions log_size of None \<Rightarrow> None
          | Some (Inl e) \<Rightarrow> Some (Inl e)
          | Some (Inr (main_cols, pre)) \<Rightarrow>
              Some (case stark_prove pre main_cols log_size (statement_words st) of Inl e \<Rightarrow> Inl (NsStark e) | Inr bytes \<Rightarrow> Inr (bytes, log_size)))"

section \<open>Verifying\<close>

definition verify_nonce_transitions ::
  "('b \<Rightarrow> string + 'p) \<Rightarrow> ('p \<Rightarrow> 'h list) \<Rightarrow> (int list list \<Rightarrow> nat \<Rightarrow> 'h) \<Rightarrow> ('h \<Rightarrow> 'h \<Rightarrow> nat \<Rightarrow> u32 list \<Rightarrow> 'p \<Rightarrow> bool)
   \<Rightarrow> 'b \<Rightarrow> nat \<Rightarrow> NonceStatement \<Rightarrow> (ns_error + bool) option" where
  "verify_nonce_transitions decode commitments preproc_root stark_verify proof_bytes log_size st =
     (case check_public st of Some e \<Rightarrow> Some (Inl e) | None \<Rightarrow>
        if ns_updates st = [] then Some (Inl EmptyBatch)
        else case statement_log_size st of Inl e \<Rightarrow> Some (Inl e)
          | Inr expected_log_size \<Rightarrow>
              if log_size \<noteq> expected_log_size then Some (Inr False)
              else case decode proof_bytes of Inl e \<Rightarrow> Some (Inl (NsStark e))
              | Inr pf \<Rightarrow>
                  if length (commitments pf) < 2 then Some (Inl (NsMalformed (length (commitments pf))))
                  else case nut_build_preproc (pinned_updates st) (ns_depth st) log_size of None \<Rightarrow> None
                  | Some pre \<Rightarrow>
                      if commitments pf ! 0 \<noteq> preproc_root pre log_size then Some (Inr False)
                      else Some (Inr (stark_verify (commitments pf ! 0) (commitments pf ! 1) log_size (statement_words st) pf)))"

section \<open>Public checks\<close>

lemma pre_roots_take: "pre_roots st = take (length (ns_updates st)) (ns_old_root st # map nu_post_root (ns_updates st))"
proof -
  have "foldl (\<lambda>(out, prev) u. (out @ [prev], nu_post_root u)) (out, prev) us
      = (out @ take (length us) (prev # map nu_post_root us), last (prev # map nu_post_root us))" for out prev us
    by (induction us arbitrary: out prev) simp_all
  note e = this
  show ?thesis unfolding pre_roots_def e by simp
qed

lemma length_pre_roots [simp]: "length (pre_roots st) = length (ns_updates st)"
  by (simp add: pre_roots_take)

lemma pre_roots_nth: "i < length (ns_updates st) \<Longrightarrow> pre_roots st ! i = (if i = 0 then ns_old_root st else nu_post_root (ns_updates st ! (i - 1)))"
  by (cases i) (simp_all add: pre_roots_take)

lemma length_pinned [simp]: "length (pinned_updates st) = length (ns_updates st)"
  by (simp add: pinned_updates_def)

lemma check_updates_None: "check_updates d i us = None \<longleftrightarrow> (\<forall>u\<in>set us. unat (nu_index u) < 2 ^ d \<and> nu_old_nonce u < nu_new_nonce u)"
  by (induction us arbitrary: i) (auto simp: not_le not_less)

lemma check_public_None:
  "check_public st = None \<longleftrightarrow> length (ns_updates st) \<le> MAX_UPDATES \<and> 1 \<le> ns_depth st \<and> ns_depth st \<le> MAX_DEPTH
     \<and> (ns_updates st = [] \<and> ns_old_root st = ns_new_root st
        \<or> ns_updates st \<noteq> [] \<and> (\<forall>u\<in>set (ns_updates st). unat (nu_index u) < 2 ^ ns_depth st \<and> nu_old_nonce u < nu_new_nonce u)
          \<and> nu_post_root (last (ns_updates st)) = ns_new_root st)"
proof -
  have v: "validate_count n = None \<longleftrightarrow> n \<le> MAX_UPDATES" "validate_depth d = None \<longleftrightarrow> 1 \<le> d \<and> d \<le> MAX_DEPTH" for n d
    by (auto simp: validate_count_def validate_depth_def MAX_DEPTH_def NUT_MAX_DEPTH_def)
  have "check_public st = None \<longleftrightarrow> validate_count (length (ns_updates st)) = None \<and> validate_depth (ns_depth st) = None
      \<and> (ns_updates st = [] \<and> ns_old_root st = ns_new_root st
        \<or> ns_updates st \<noteq> [] \<and> check_updates (ns_depth st) 0 (ns_updates st) = None \<and> nu_post_root (last (ns_updates st)) = ns_new_root st)"
    by (auto simp: check_public_def last_conv_nth split: option.splits)
  then show ?thesis unfolding v check_updates_None by (simp only: conj_assoc)
qed

lemma nut_log_size_fits:
  assumes "1 \<le> m" "m \<le> MAX_UPDATES" "1 \<le> d" "d \<le> MAX_DEPTH"
  shows "m * d * N_REAL_ROWS \<le> 2 ^ nut_log_size m d" "nut_log_size m d \<le> NUT_MAX_LOG_SIZE"
proof -
  let ?u = "max m 1 * max d 1 * N_REAL_ROWS" and ?l = "nut_log_size m d"
  have s: "5 \<le> ?l \<and> max ?u 1 \<le> 2 ^ ?l \<and> (?l = 5 \<or> 2 ^ (?l - 1) < max ?u 1)"
    using log_size_loop_spec [of 5 ?u] by (simp only: nut_log_size_def Let_def NUT_MIN_LOG_SIZE_def)
  have e: "max m 1 = m" "max d 1 = d" using assms by simp_all
  show "m * d * N_REAL_ROWS \<le> 2 ^ ?l" using s unfolding e by simp
  have "m * d * N_REAL_ROWS \<le> 512 * 28 * 22" using assms unfolding N_REAL_ROWS_val MAX_UPDATES_def MAX_DEPTH_def by (intro mult_le_mono) simp_all
  then have u: "max ?u 1 \<le> 2 ^ 19" unfolding e by simp
  show "?l \<le> NUT_MAX_LOG_SIZE"
  proof (rule ccontr)
    assume "\<not> ?l \<le> NUT_MAX_LOG_SIZE"
    then have l: "19 \<le> ?l - 1" "?l \<noteq> 5" by (simp_all add: NUT_MAX_LOG_SIZE_def)
    have "(2 :: nat) ^ 19 \<le> 2 ^ (?l - 1)" using l(1) by (rule power_increasing) simp
    with s l(2) u show False by linarith
  qed
qed

text \<open>The public checks bound the size: the check of the size never refuses.\<close>

lemma statement_log_size_iff:
  "statement_log_size st = Inr l \<longleftrightarrow> check_public st = None \<and> ns_updates st \<noteq> [] \<and> l = nut_log_size (length (ns_updates st)) (ns_depth st)"
proof (cases "check_public st = None \<and> ns_updates st \<noteq> []")
  case True
  then have "1 \<le> length (ns_updates st)" "length (ns_updates st) \<le> MAX_UPDATES" "1 \<le> ns_depth st" "ns_depth st \<le> MAX_DEPTH"
    by (simp_all add: check_public_None Suc_le_eq)
  from nut_log_size_fits(2) [OF this] True show ?thesis by (auto simp: statement_log_size_def Let_def)
qed (auto simp: statement_log_size_def Let_def split: option.splits if_splits)

section \<open>Directions and digests\<close>

lemma index_bits_idx: "index_bits d i = idx_bits d i"
proof (induction d arbitrary: i)
  case (Suc d)
  show ?case unfolding index_bits_Suc idx_bits.simps Suc.IH and_one_odd ..
qed (simp add: index_bits_def)

lemma bits_idx_bits: "i < 2 ^ d \<Longrightarrow> bits_idx (idx_bits d i) = i"
proof (induction d arbitrary: i)
  case (Suc d)
  have "bits_idx (idx_bits d (i div 2)) = i div 2" using Suc.prems by (intro Suc.IH) simp
  then show ?case by (simp add: mod2_eq_if)
qed simp

lemma wf_node_pack: "wf_state 4 w \<Longrightarrow> wf_node (p2t8_pack w)"
  by (auto simp: wf_node_def)

lemma fold_path_node:
  "wf_node leaf \<Longrightarrow> \<forall>x\<in>set sibs. wf_node x \<Longrightarrow> length sibs = length bits \<Longrightarrow> wf_node (fold_path hash_pair_p2t8 leaf sibs bits)"
proof (induction sibs arbitrary: leaf bits)
  case (Cons s sibs)
  then obtain b bs where "bits = b # bs" by (cases bits) auto
  then show ?case using Cons by (simp add: wf_node_pair)
qed simp

lemma fold_path_packed:
  assumes "wf_node leaf" "list_all (wf_state 4) S" "length S = length bits"
    and "fold_path compress_t8 (norm4 (p2t8_node_words leaf)) S bits = w"
  shows "fold_path hash_pair_p2t8 leaf (map p2t8_pack S) bits = p2t8_pack w"
proof -
  have n: "\<forall>x\<in>set (map p2t8_pack S). wf_node x" using assms(2) by (auto simp: list_all_iff wf_node_pack)
  have S: "map p2t8_node_words (map p2t8_pack S) = S" using assms(2) by (auto simp: list_all_iff node_words_pack_canon map_idI)
  have l: "length (map p2t8_pack S) = length bits" using assms(3) by simp
  have "w = p2t8_node_words (fold_path hash_pair_p2t8 leaf (map p2t8_pack S) bits)"
    using fold_path_words [OF assms(1) n l] assms(4) norm4_id [OF wf_node_words [OF assms(1)]] unfolding S by simp
  then show ?thesis using wf_node_pack_words [OF fold_path_node [OF assms(1) n l]] by simp
qed

lemma chain_loop_iff:
  "chain_loop ts \<longleftrightarrow> (\<forall>i<length ts. verify_transition (ts ! i) \<and> (Suc i < length ts \<longrightarrow> post_root (ts ! i) = pre_root (ts ! Suc i)))"
proof (induction ts rule: chain_loop.induct)
  case (3 t t' ts)
  have l: "length (t # t' # ts) = Suc (length (t' # ts))" "0 < length (t' # ts)" by simp_all
  show ?case unfolding l(1) All_less_Suc2 nth_Cons_Suc nth_Cons_0 Suc_less_eq chain_loop.simps
    using 3 l(2) by (cases "verify_transition t"; cases "post_root t = pre_root t'"; simp del: length_Cons)
qed simp_all

section \<open>Soundness\<close>

text \<open>The transitions an accepted trace of the circuit holds for a statement.\<close>

definition statement_links :: "NonceStatement \<Rightarrow> int list list \<Rightarrow> NonceTransition list" where
  "statement_links st cols = map (\<lambda>i. let u = ns_updates st ! i in
     \<lparr>tr_index = unat (nu_index u), old_nonce = nu_old_nonce u, new_nonce = nu_new_nonce u,
      tr_sibs = map p2t8_pack (nut_sibs cols (ns_depth st) i), tr_bits = index_bits (ns_depth st) (unat (nu_index u)),
      pre_root = p2t8_pack (norm4 (pre_roots st ! i)), post_root = p2t8_pack (norm4 (nu_post_root u))\<rparr>) [0..<length (ns_updates st)]"

lemma statement_links_chain:
  assumes pub: "check_public st = None" "ns_updates st \<noteq> []"
    and pre: "nut_build_preproc (pinned_updates st) (ns_depth st) log_size = Some pre" and len: "length cols = 85"
    and sat: "cyclic_sat nut_evaluate pre cols (2 ^ log_size)"
  shows "verify_chain (statement_links st cols) (p2t8_pack (norm4 (ns_old_root st))) (p2t8_pack (norm4 (ns_new_root st)))"
proof -
  let ?us = "ns_updates st" and ?d = "ns_depth st" and ?links = "statement_links st cols"
  note c = pub(1) [unfolded check_public_None]
  have ll: "length ?links = length ?us" by (simp add: statement_links_def)
  have v: "verify_transition (?links ! i)" if i: "i < length ?us" for i
  proof -
    let ?u = "?us ! i" and ?S = "nut_sibs cols ?d i" and ?b = "index_bits ?d (unat (nu_index (?us ! i)))"
    have p: "pinned_updates st ! i = \<lparr>pu_old_leaf = p2t8_node_words (nonce_leaf (nu_old_nonce ?u)),
        pu_new_leaf = p2t8_node_words (nonce_leaf (nu_new_nonce ?u)), pu_index = nu_index ?u, pu_pre_root = pre_roots st ! i, pu_post_root = nu_post_root ?u\<rparr>"
      using i by (simp add: pinned_updates_def)
    have i': "i < length (pinned_updates st)" using i by simp
    note s = nut_trace_sound [OF pre len sat i', unfolded p PinnedUpdate.simps]
    have lS: "length ?S = length ?b" using s(1) by simp
    have "?u \<in> set ?us" using i by simp
    then have "nu_old_nonce ?u < nu_new_nonce ?u" using c pub(2) by blast
    then show ?thesis
      using i fold_path_packed [OF wf_nonce_leaf s(2) lS s(3)] fold_path_packed [OF wf_nonce_leaf s(2) lS s(4)] lS
      by (simp add: statement_links_def Let_def verify_transition_def verify_batch_membership_def not_le [symmetric])
  qed
  have "chain_loop ?links"
    unfolding chain_loop_iff ll using v by (auto simp: statement_links_def Let_def pre_roots_nth)
  moreover have "pre_root (?links ! 0) = p2t8_pack (norm4 (ns_old_root st))" using pub(2) by (simp add: statement_links_def Let_def pre_roots_nth)
  moreover have "post_root (?links ! (length ?us - 1)) = p2t8_pack (norm4 (ns_new_root st))"
    using pub(2) c by (simp add: statement_links_def Let_def last_conv_nth)
  moreover have "?links \<noteq> []" using pub(2) ll by (metis length_0_conv)
  ultimately show ?thesis unfolding verify_chain_def ll by simp
qed

lemma statement_links_updates:
  assumes "check_public st = None" "ns_updates st \<noteq> []"
  shows "map (\<lambda>tr. (bits_idx (tr_bits tr), new_nonce tr)) (statement_links st cols) = map (\<lambda>u. (unat (nu_index u), nu_new_nonce u)) (ns_updates st)"
    "\<forall>tr\<in>set (statement_links st cols). length (tr_bits tr) = ns_depth st"
proof -
  note c = assms(1) [unfolded check_public_None]
  have "bits_idx (index_bits (ns_depth st) (unat (nu_index (ns_updates st ! i)))) = unat (nu_index (ns_updates st ! i))" if "i < length (ns_updates st)" for i
  proof -
    have "ns_updates st ! i \<in> set (ns_updates st)" using that by simp
    then show ?thesis using c assms(2) unfolding index_bits_idx by (intro bits_idx_bits) blast
  qed
  then show "map (\<lambda>tr. (bits_idx (tr_bits tr), new_nonce tr)) (statement_links st cols) = map (\<lambda>u. (unat (nu_index u), nu_new_nonce u)) (ns_updates st)"
    by (intro nth_equalityI) (simp_all add: statement_links_def Let_def)
  show "\<forall>tr\<in>set (statement_links st cols). length (tr_bits tr) = ns_depth st" by (auto simp: statement_links_def Let_def)
qed

section \<open>Honest batches\<close>

text \<open>What a link of an honest run is, and a chain of links between two roots.\<close>

definition link_ok :: "nat \<Rightarrow> NonceTransition \<Rightarrow> bool" where
  "link_ok d tr \<longleftrightarrow> old_nonce tr < new_nonce tr \<and> tr_index tr < 2 ^ d \<and> tr_bits tr = idx_bits d (tr_index tr) \<and> length (tr_sibs tr) = d
     \<and> (\<forall>s\<in>set (tr_sibs tr). wf_node s)
     \<and> fold_path hash_pair_p2t8 (nonce_leaf (old_nonce tr)) (tr_sibs tr) (tr_bits tr) = pre_root tr
     \<and> fold_path hash_pair_p2t8 (nonce_leaf (new_nonce tr)) (tr_sibs tr) (tr_bits tr) = post_root tr"

fun links_ok :: "nat \<Rightarrow> bytes \<Rightarrow> NonceTransition list \<Rightarrow> bytes \<Rightarrow> bool" where
  "links_ok d r [] r' \<longleftrightarrow> r = r'"
| "links_ok d r (tr # trs) r' \<longleftrightarrow> pre_root tr = r \<and> link_ok d tr \<and> links_ok d (post_root tr) trs r'"

lemma wf_dense_sibs: "\<forall>s\<in>set (dense_sibs f h n i). wf_node s"
  by (induction n arbitrary: h i) (simp_all add: wf_dense)

lemma apply_loop_links:
  "nt_wf t \<Longrightarrow> apply_loop t us = (t', Inr trs) \<Longrightarrow> links_ok (depth t) (nt_root t) trs (nt_root t')"
proof (induction us arbitrary: t trs)
  case (Cons u us)
  obtain i n where u: "u = (i, n)" by force
  obtain t1 tr rest where s: "apply_update t (i, n) = Inr (t1, tr)" "apply_loop t1 us = (t', Inr rest)" "trs = tr # rest"
    using Cons.prems(2) by (auto simp: u split: sum.splits prod.splits)
  note a = apply_update_ok(2) [OF Cons.prems(1) s(1)]
  then have w: "nt_wf t1" "depth t1 = depth t" "nt_get t1 = (nt_get t)(i := n)" "i < 2 ^ depth t" "nt_get t i < n"
    and tr: "tr = \<lparr>tr_index = i, old_nonce = nt_get t i, new_nonce = n, tr_sibs = dense_sibs (nt_get t) 0 (depth t) i,
           tr_bits = idx_bits (depth t) i, pre_root = nt_root t, post_root = nt_root t1\<rparr>"
    by simp_all
  have f: "fold_path hash_pair_p2t8 (nonce_leaf (g i)) (dense_sibs g 0 (depth t) i) (idx_bits (depth t) i) = dense g (depth t) 0" for g
    using fold_dense [of g 0 i "depth t"] w(4) by simp
  have sib: "dense_sibs (nt_get t) 0 (depth t) i = dense_sibs (nt_get t1) 0 (depth t) i"
    by (rule dense_sibs_cong) (simp add: w(3))
  have "link_ok (depth t) tr"
    using w(2-5) f [of "nt_get t"] f [of "nt_get t1", folded sib] wf_dense_sibs
    by (simp add: link_ok_def tr nt_root_dense [OF Cons.prems(1)] nt_root_dense [OF w(1)])
  with Cons.IH [OF w(1) s(2)] w(2) show ?case by (simp add: s(3) tr)
qed simp

lemma links_roots:
  "links_ok d r trs r' \<Longrightarrow> map pre_root trs = take (length trs) (r # map post_root trs) \<and> (trs \<noteq> [] \<longrightarrow> post_root (last trs) = r')
     \<and> (\<forall>tr\<in>set trs. link_ok d tr)"
  by (induction trs arbitrary: r) auto

lemma link_ok_length:
  assumes "link_ok d tr"
  shows "length (tr_bits tr) = d" "length (tr_sibs tr) = d"
  using assms by (simp_all add: link_ok_def)

lemma link_ok_folds:
  assumes "link_ok d tr"
  shows "fold_path hash_pair_p2t8 (nonce_leaf (old_nonce tr)) (tr_sibs tr) (tr_bits tr) = pre_root tr"
    "fold_path hash_pair_p2t8 (nonce_leaf (new_nonce tr)) (tr_sibs tr) (tr_bits tr) = post_root tr"
  using assms unfolding link_ok_def by blast+

lemma check_steps_ok: "\<forall>tr\<in>set trs. link_ok d tr \<Longrightarrow> check_steps d i trs = None"
  by (induction trs arbitrary: i) (simp_all add: link_ok_length)

definition update_of :: "NonceTransition \<Rightarrow> NonceUpdate" where
  "update_of t = \<lparr>nu_index = of_nat (tr_index t), nu_old_nonce = old_nonce t, nu_new_nonce = new_nonce t, nu_post_root = p2t8_node_words (post_root t)\<rparr>"

lemma unat_index:
  assumes "link_ok d tr" "d \<le> MAX_DEPTH"
  shows "unat (of_nat (tr_index tr) :: u32) = tr_index tr"
proof -
  have "tr_index tr < 2 ^ d" using assms(1) by (simp add: link_ok_def)
  also have "(2 :: nat) ^ d \<le> 2 ^ 28" using assms(2) by (intro power_increasing) (simp_all add: MAX_DEPTH_def)
  finally show ?thesis by (simp add: unat_of_nat take_bit_eq_mod)
qed

lemma check_links_ok:
  "\<forall>tr\<in>set trs. link_ok d tr \<Longrightarrow> d \<le> MAX_DEPTH \<Longrightarrow> check_links d i trs (map update_of trs) (map (\<lambda>t. p2t8_node_words (pre_root t)) trs) = None"
proof (induction trs arbitrary: i)
  case (Cons tr trs)
  have l: "link_ok d tr" using Cons.prems(1) by simp
  have "check_links d (Suc i) trs (map update_of trs) (map (\<lambda>t. p2t8_node_words (pre_root t)) trs) = None"
    using Cons.prems by (intro Cons.IH) simp_all
  then show ?case using unat_index [OF l Cons.prems(2)] link_ok_length [OF l]
    by (simp add: NonceUpdate.simps update_of_def [of tr])
qed simp

lemma check_reached_ok: "check_reached i (zip (map pu_pre_root pins) (map pu_post_root pins)) pins = None"
  by (induction pins arbitrary: i) simp_all

lemma fold_path_node_words:
  assumes "wf_node leaf" "\<forall>s\<in>set sibs. wf_node s" "length sibs = length bits"
  shows "fold_path compress_t8 (p2t8_node_words leaf) (map norm4 (map p2t8_node_words sibs)) bits = p2t8_node_words (fold_path hash_pair_p2t8 leaf sibs bits)"
proof -
  have e: "map norm4 (map p2t8_node_words sibs) = map p2t8_node_words sibs" using assms(2) by (simp add: norm4_id wf_node_words)
  show ?thesis unfolding e by (rule fold_path_words [OF assms])
qed

text \<open>The statement, sizes and trace of an honest chain.\<close>

lemma honest_nonce_batch:
  assumes links: "links_ok d r trs r'" and d: "1 \<le> d" "d \<le> MAX_DEPTH" and n: "trs \<noteq> []" "length trs \<le> MAX_UPDATES"
  obtains st cols pre where "from_transitions trs r r' d = Inr st" "ns_old_root st = p2t8_node_words r" "ns_new_root st = p2t8_node_words r'"
    "ns_updates st = map update_of trs" "ns_depth st = d" "check_public st = None" "statement_log_size st = Inr (nut_log_size (length trs) d)"
    "checked_trace st trs (nut_log_size (length trs) d) = Some (Inr (cols, pre))"
    "nut_build_preproc (pinned_updates st) d (nut_log_size (length trs) d) = Some pre" "length cols = 85" "length pre = 30"
    "cyclic_sat nut_evaluate pre cols (2 ^ nut_log_size (length trs) d)"
proof -
  let ?l = "nut_log_size (length trs) d"
  define st where "st = \<lparr>ns_old_root = p2t8_node_words r, ns_new_root = p2t8_node_words r', ns_updates = map update_of trs, ns_depth = d\<rparr>"
  note lr = links_roots [OF links]
  then have ok: "\<forall>tr\<in>set trs. link_ok d tr" by blast
  have ft: "from_transitions trs r r' d = Inr st"
    using d n(2) check_steps_ok [OF ok]
    by (simp add: from_transitions_def validate_count_def validate_depth_def MAX_DEPTH_def NUT_MAX_DEPTH_def st_def update_of_def [abs_def])
  have pub: "check_public st = None"
    unfolding check_public_None
  proof (intro conjI disjI2)
    show "length (ns_updates st) \<le> MAX_UPDATES" "1 \<le> ns_depth st" "ns_depth st \<le> MAX_DEPTH" "ns_updates st \<noteq> []" using d n by (simp_all add: st_def)
    show "\<forall>u\<in>set (ns_updates st). unat (nu_index u) < 2 ^ ns_depth st \<and> nu_old_nonce u < nu_new_nonce u"
      using ok unat_index [OF _ d(2)] by (auto simp: st_def update_of_def link_ok_def)
    show "nu_post_root (last (ns_updates st)) = ns_new_root st" using lr n(1) by (simp add: st_def update_of_def last_map)
  qed
  have ne: "ns_updates st \<noteq> []" using n(1) by (simp add: st_def)
  have size: "statement_log_size st = Inr ?l" unfolding statement_log_size_iff using pub ne by (simp add: st_def)
  have m: "1 \<le> length trs" using n(1) by (simp add: Suc_le_eq)
  note fits = nut_log_size_fits [OF m n(2) d]
  have pr: "pre_roots st = map (\<lambda>t. p2t8_node_words (pre_root t)) trs"
  proof -
    have "map (\<lambda>t. p2t8_node_words (pre_root t)) trs = map p2t8_node_words (map pre_root trs)" by simp
    also have "\<dots> = map p2t8_node_words (take (length trs) (r # map post_root trs))" using lr by simp
    also have "\<dots> = pre_roots st" by (simp only: pre_roots_take st_def) (simp add: take_map [symmetric] update_of_def o_def)
    finally show ?thesis by simp
  qed
  define pin where "pin t = \<lparr>pu_old_leaf = p2t8_node_words (nonce_leaf (old_nonce t)), pu_new_leaf = p2t8_node_words (nonce_leaf (new_nonce t)),
     pu_index = of_nat (tr_index t), pu_pre_root = p2t8_node_words (pre_root t), pu_post_root = p2t8_node_words (post_root t)\<rparr>" for t :: NonceTransition
  have pins: "pinned_updates st = map pin trs"
    unfolding pinned_updates_def pr by (rule nth_equalityI) (simp_all add: st_def pin_def update_of_def)
  let ?sibs = "map (\<lambda>t. map p2t8_node_words (tr_sibs t)) trs" and ?bits = "map tr_bits trs"
  have each: "length (tr_sibs t) = d" "length (tr_bits t) = d" "\<forall>s\<in>set (tr_sibs t). wf_node s" if "t \<in> set trs" for t
    using ok that by (auto simp: link_ok_def)
  have pin_in: "paths_in ?l (map F (map pin trs)) ?sibs ?bits" if "\<And>t. wf_state 4 (F (pin t))" for F
  proof -
    have "map length ?sibs = replicate (length trs) d" using each by (intro nth_equalityI) simp_all
    then have "sum_list (map length ?sibs) * N_REAL_ROWS \<le> 2 ^ ?l" using fits(1) by (simp add: sum_list_replicate)
    moreover have "list_all2 (\<lambda>b s. s \<noteq> [] \<and> length b = length s) ?bits ?sibs"
      unfolding list.rel_map
    proof (rule list.rel_refl_strong)
      fix t assume t: "t \<in> set trs"
      then have "tr_sibs t \<noteq> []" using each(1) d(1) by fastforce
      then show "map p2t8_node_words (tr_sibs t) \<noteq> [] \<and> length (tr_bits t) = length (map p2t8_node_words (tr_sibs t))" using each(1,2) t by simp
    qed
    ultimately show ?thesis using n(1) that by (simp add: paths_in_def list_all_length)
  qed
  have wl: "wf_state 4 (p2t8_node_words (nonce_leaf x))" for x by (rule wf_node_words [OF wf_nonce_leaf])
  have i0: "paths_in ?l (map pu_old_leaf (map pin trs)) ?sibs ?bits" by (rule pin_in) (simp add: pin_def wl)
  have i1: "paths_in ?l (map pu_new_leaf (map pin trs)) ?sibs ?bits" by (rule pin_in) (simp add: pin_def wl)
  have dd: "\<forall>s\<in>set ?sibs. length s = d" using each by simp
  have idx: "index_bits d (unat (pu_index (map pin trs ! u))) = ?bits ! u" if "u < length (map pin trs)" for u
  proof -
    have t: "trs ! u \<in> set trs" using that by simp
    have "link_ok d (trs ! u)" using ok t by blast
    from unat_index [OF this d(2)] this show ?thesis using that by (simp add: pin_def index_bits_idx link_ok_def)
  qed
  have roots: "map pu_pre_root (map pin trs) = path_roots (map pu_old_leaf (map pin trs)) ?sibs ?bits"
    "map pu_post_root (map pin trs) = path_roots (map pu_new_leaf (map pin trs)) ?sibs ?bits"
  proof -
    have f: "fold_path compress_t8 (p2t8_node_words (nonce_leaf (old_nonce t))) (map norm4 (map p2t8_node_words (tr_sibs t))) (tr_bits t) = p2t8_node_words (pre_root t)
        \<and> fold_path compress_t8 (p2t8_node_words (nonce_leaf (new_nonce t))) (map norm4 (map p2t8_node_words (tr_sibs t))) (tr_bits t) = p2t8_node_words (post_root t)"
      if "t \<in> set trs" for t
    proof -
      have "length (tr_sibs t) = length (tr_bits t)" using each [OF that] by simp
      note w = fold_path_node_words [OF wf_nonce_leaf each(3) [OF that] this]
      have "link_ok d t" using ok that by blast
      then show ?thesis unfolding w by (simp only: link_ok_folds simp_thms)
    qed
    show "map pu_pre_root (map pin trs) = path_roots (map pu_old_leaf (map pin trs)) ?sibs ?bits"
      by (rule nth_equalityI) (use f in \<open>simp_all add: path_roots_def pin_def\<close>)
    show "map pu_post_root (map pin trs) = path_roots (map pu_new_leaf (map pin trs)) ?sibs ?bits"
      by (rule nth_equalityI) (use f in \<open>simp_all add: path_roots_def pin_def\<close>)
  qed
  have d32: "d \<le> 32" using d(2) by (simp add: MAX_DEPTH_def)
  obtain cols pre where t: "nut_build_trace_raw (map pu_old_leaf (map pin trs)) (map pu_new_leaf (map pin trs)) ?sibs ?bits ?l
      = Some (cols, zip (map pu_pre_root (map pin trs)) (map pu_post_root (map pin trs)))" "length cols = 85"
    "nut_build_preproc (map pin trs) d ?l = Some pre" "length pre = 30" "cyclic_sat nut_evaluate pre cols (2 ^ ?l)"
    by (rule nut_trace_complete [OF i0 i1 d(1) d32 dd _ roots]) (erule idx, rule that)
  have len: "length trs = length (ns_updates st)" by (simp add: st_def)
  have cl: "check_links (ns_depth st) 0 trs (ns_updates st) (pre_roots st) = None" unfolding pr using check_links_ok [OF ok d(2)] by (simp add: st_def)
  have ct: "checked_trace st trs ?l = Some (Inr (cols, pre))"
    unfolding checked_trace_def pub option.case if_not_P [OF ne] Let_def pins nonce_witness_def prod.case cl t(1) check_reached_ok
    using len t(3) by (simp add: st_def)
  show ?thesis by (rule that [OF ft _ _ _ _ pub size ct _ t(2,4,5)]) (use t(3) pins in \<open>simp_all add: st_def\<close>)
qed

section \<open>Properties\<close>

text \<open>
  C30. What an accepted batch of nonce updates means, end to end. Let the library be such that the columns
  \<open>extract pf\<close> of an accepted proof \<open>pf\<close> are field cells that satisfy the circuit. If the verifier accepts a
  statement whose old root and depth are those of a reachable tree, then the tree applies the updates of the
  statement, in order, each with a nonce above the stored one, and reaches the new root; or the transitions read
  off the columns show a collision of the node or the leaf hash. It holds for any bytes, sizes and statements.
\<close>

theorem nonce_verify_sound:
  assumes "nt_reach t" "ns_old_root st = root_words t" "ns_depth st = depth t"
    and sound: "\<And>pre root l ws pf. stark_verify (preproc_root pre l) root l ws pf \<Longrightarrow>
      length (extract pf) = 85 \<and> cyclic_sat nut_evaluate pre (extract pf) (2 ^ l)"
    and "verify_nonce_transitions decode commitments preproc_root stark_verify bytes l st = Some (Inr True)"
  shows "\<exists>pf. decode bytes = Inr pf \<and>
    ((\<exists>t' trs. apply_loop t (map (\<lambda>u. (unat (nu_index u), nu_new_nonce u)) (ns_updates st)) = (t', Inr trs) \<and> root_words t' = norm4 (ns_new_root st))
     \<or> chain_clash (nt_get t) (statement_links st (extract pf)))"
proof -
  obtain pf pre where a: "check_public st = None" "ns_updates st \<noteq> []" "decode bytes = Inr pf"
    "nut_build_preproc (pinned_updates st) (ns_depth st) l = Some pre"
    "stark_verify (preproc_root pre l) (commitments pf ! 1) l (statement_words st) pf"
    using assms(5) by (auto simp: verify_nonce_transitions_def split: option.splits sum.splits if_splits)
  note w = reach_wf [OF assms(1)]
  have e: "length (extract pf) = 85" "cyclic_sat nut_evaluate pre (extract pf) (2 ^ l)" using sound [OF a(5)] by blast+
  have n: "wf_node (nt_root t)" unfolding nt_root_dense [OF w] by (rule wf_dense)
  have r: "p2t8_pack (norm4 (ns_old_root st)) = nt_root t"
    unfolding assms(2) root_words_def norm4_id [OF wf_node_words [OF n]] by (rule wf_node_pack_words [OF n])
  note u = statement_links_updates [OF a(1,2), of "extract pf"]
  have "(\<exists>t' trs. apply_loop t (map (\<lambda>u. (unat (nu_index u), nu_new_nonce u)) (ns_updates st)) = (t', Inr trs) \<and> nt_root t' = p2t8_pack (norm4 (ns_new_root st)))
      \<or> chain_clash (nt_get t) (statement_links st (extract pf))"
    using chain_sound [OF w statement_links_chain [OF a(1,2,4) e, unfolded r] u(2) [unfolded assms(3)]] unfolding u(1) by blast
  then show ?thesis using a(3) by (auto simp: root_words_def node_words_pack_canon [OF norm4_wf])
qed

text \<open>
  C32. The verifier answers every input. For any bytes, size and statement it returns an error or a Boolean and
  does not panic: the assertions of the preprocessed columns hold whenever the public checks pass and the size is
  the expected one; and a statement that fails the public checks is an error before any proof is read.
\<close>

theorem nonce_verify_total:
  "verify_nonce_transitions decode commitments preproc_root stark_verify bytes l st \<noteq> None
   \<and> (\<forall>e. check_public st = Some e \<longrightarrow> verify_nonce_transitions decode commitments preproc_root stark_verify bytes l st = Some (Inl e))"
proof -
  have "nut_build_preproc (pinned_updates st) (ns_depth st) l \<noteq> None" if "statement_log_size st = Inr l"
  proof -
    have s: "check_public st = None" "ns_updates st \<noteq> []" "l = nut_log_size (length (ns_updates st)) (ns_depth st)"
      using that unfolding statement_log_size_iff by blast+
    then have c: "1 \<le> length (ns_updates st)" "length (ns_updates st) \<le> MAX_UPDATES" "1 \<le> ns_depth st" "ns_depth st \<le> MAX_DEPTH"
      by (simp_all add: check_public_None Suc_le_eq)
    from nut_log_size_fits(1) [OF c] c(3,4) show ?thesis unfolding nut_build_preproc_def s(3) by (simp add: MAX_DEPTH_def)
  qed
  then show ?thesis by (auto simp: verify_nonce_transitions_def split: option.splits sum.splits)
qed

text \<open>
  C31. Proving and verifying a batch agree. If the library's prover answers a satisfied circuit with a proof that
  decodes, carries the root of the given preprocessed columns and is accepted, then every batch of one to
  \<open>MAX_UPDATES\<close> transitions that a reachable tree makes gives a statement with the roots of the tree before and
  after; it is proved without error or panic, and the verifier accepts the bytes for the statement.
\<close>

theorem nonce_prove_verify:
  assumes "nt_reach t" "apply_updates t us = (t', Inr (r0, r1, trs))" "trs \<noteq> []" "length trs \<le> MAX_UPDATES"
    and complete: "\<And>pre cols l words. length pre = 30 \<Longrightarrow> length cols = 85 \<Longrightarrow> cyclic_sat nut_evaluate pre cols (2 ^ l) \<Longrightarrow>
      \<exists>bytes pf root. stark_prove pre cols l words = Inr bytes \<and> decode bytes = Inr pf
        \<and> commitments pf = [preproc_root pre l, root] \<and> stark_verify (preproc_root pre l) root l words pf"
  shows "\<exists>st bytes l. from_transitions trs r0 r1 (depth t) = Inr st \<and> ns_old_root st = root_words t \<and> ns_new_root st = root_words t'
    \<and> prove_nonce_transitions stark_prove st trs = Some (Inr (bytes, l))
    \<and> verify_nonce_transitions decode commitments preproc_root stark_verify bytes l st = Some (Inr True)"
proof -
  note w = reach_wf [OF assms(1)]
  have "apply_loop t (sort (map (\<lambda>(h, n). (sender_slot (depth t) h, n)) us)) = (t', Inr trs) \<and> r0 = nt_root t \<and> r1 = nt_root t'"
    by (rule apply_updates_run [OF w assms(2)]) (auto simp: map_sum_def split: sum.splits)
  then have r: "r0 = nt_root t" "r1 = nt_root t'" and links: "links_ok (depth t) r0 trs r1" using apply_loop_links [OF w] by blast+
  have d: "1 \<le> depth t" "depth t \<le> MAX_DEPTH" using w by (simp_all add: nt_wf_def)
  obtain st cols pre where h: "from_transitions trs r0 r1 (depth t) = Inr st" "ns_old_root st = p2t8_node_words r0" "ns_new_root st = p2t8_node_words r1"
    "ns_updates st = map update_of trs" "ns_depth st = depth t" "check_public st = None" "statement_log_size st = Inr (nut_log_size (length trs) (depth t))"
    "checked_trace st trs (nut_log_size (length trs) (depth t)) = Some (Inr (cols, pre))"
    "nut_build_preproc (pinned_updates st) (depth t) (nut_log_size (length trs) (depth t)) = Some pre" "length cols = 85" "length pre = 30"
    "cyclic_sat nut_evaluate pre cols (2 ^ nut_log_size (length trs) (depth t))"
    by (rule honest_nonce_batch [OF links d assms(3,4)])
  let ?l = "nut_log_size (length trs) (depth t)"
  from complete [OF h(11,10,12), of "statement_words st"] obtain bytes pf root where
    p: "stark_prove pre cols ?l (statement_words st) = Inr bytes" "decode bytes = Inr pf" "commitments pf = [preproc_root pre ?l, root]"
      "stark_verify (preproc_root pre ?l) root ?l (statement_words st) pf" by blast
  have "prove_nonce_transitions stark_prove st trs = Some (Inr (bytes, ?l))"
    unfolding prove_nonce_transitions_def h(7) by (simp add: h(8) p(1))
  moreover have "verify_nonce_transitions decode commitments preproc_root stark_verify bytes ?l st = Some (Inr True)"
    unfolding verify_nonce_transitions_def h(5-7) using h(4,9) assms(3) p by simp
  ultimately show ?thesis using h(1-3) r unfolding root_words_def by blast
qed

text \<open>The verifier of the examples: proofs are the columns.\<close>

definition nut_plain_verify :: "int list list \<Rightarrow> int list list \<Rightarrow> nat \<Rightarrow> u32 list \<Rightarrow> int list list \<times> int list list \<Rightarrow> bool" where
  "nut_plain_verify root0 root1 log_size ws pf \<longleftrightarrow> pf = (root0, root1) \<and> length root1 = 85 \<and> cyclic_sat nut_evaluate root0 root1 (2 ^ log_size)"

lemma batch_trs:
  assumes "nt_reach t" "apply_updates t batch_ex = (t', Inr (r0, r1, trs))"
  shows "trs \<noteq> []" "length trs \<le> MAX_UPDATES"
proof -
  define xs where "xs = sort (map (\<lambda>(h, n). (sender_slot (depth t) h, n)) batch_ex)"
  have l: "apply_loop t xs = (t', Inr trs)" unfolding xs_def
    by (rule apply_updates_run [OF reach_wf [OF assms(1)] assms(2)]) (auto simp: map_sum_def split: sum.splits)
  have "apply_loop t us = (t', Inr trs) \<Longrightarrow> length trs = length us" for us t trs
    by (induction us arbitrary: t trs) (auto split: sum.splits prod.splits)
  from this [OF l] have "length trs = 3" by (simp add: xs_def batch_ex_def)
  then show "trs \<noteq> []" "length trs \<le> MAX_UPDATES" by (auto simp: MAX_UPDATES_def)
qed

theorem nonce_prove_verify_witness:
  "\<exists>t t' r0 r1 trs st bytes l. nt_new 2 = Inr t \<and> apply_updates t batch_ex = (t', Inr (r0, r1, trs)) \<and> from_transitions trs r0 r1 2 = Inr st
    \<and> ns_old_root st = root_words t \<and> ns_new_root st = root_words t'
    \<and> prove_nonce_transitions (\<lambda>pre cols l words. Inr (pre, cols)) st trs = Some (Inr (bytes, l))
    \<and> verify_nonce_transitions Inr (\<lambda>(pre, cols). [pre, cols]) (\<lambda>pre l. pre) nut_plain_verify bytes l st = Some (Inr True)"
proof (rule batch_applies)
  fix t t' r0 r1 trs
  assume t: "nt_new 2 = Inr t" "depth t = 2" "nt_reach t" "apply_updates t batch_ex = (t', Inr (r0, r1, trs))"
  from nonce_prove_verify [OF t(3,4) batch_trs [OF t(3,4)], of "\<lambda>pre cols l words. Inr (pre, cols)" Inr "\<lambda>(pre, cols). [pre, cols]" "\<lambda>pre l. pre" nut_plain_verify] t
  show ?thesis by (simp add: nut_plain_verify_def)
qed

theorem nonce_verify_total_witness:
  "\<exists>e. verify_nonce_transitions Inr (\<lambda>(pre, cols). [pre, cols]) (\<lambda>pre l. pre) nut_plain_verify ([], []) 5
     \<lparr>ns_old_root = [], ns_new_root = [], ns_updates = [], ns_depth = 0\<rparr> = Some (Inl e)"
proof -
  have "check_public \<lparr>ns_old_root = [], ns_new_root = [], ns_updates = [], ns_depth = 0\<rparr> = Some (NsDepthRange 0)"
    by (simp add: check_public_def validate_count_def validate_depth_def)
  then show ?thesis
    using nonce_verify_total [of Inr "\<lambda>(pre, cols). [pre, cols]" "\<lambda>pre l. pre" nut_plain_verify "([], [])" 5] by blast
qed

theorem nonce_verify_sound_witness:
  "\<exists>t st pre cols l. nt_new 2 = Inr t \<and> ns_old_root st = root_words t
    \<and> verify_nonce_transitions Inr (\<lambda>(pre, cols). [pre, cols]) (\<lambda>pre l. pre) nut_plain_verify (pre, cols) l st = Some (Inr True)
    \<and> ((\<exists>t' trs. apply_loop t (map (\<lambda>u. (unat (nu_index u), nu_new_nonce u)) (ns_updates st)) = (t', Inr trs) \<and> root_words t' = norm4 (ns_new_root st))
       \<or> chain_clash (nt_get t) (statement_links st cols))"
proof (rule batch_applies)
  fix t t' r0 r1 trs
  assume t: "nt_new 2 = Inr t" "depth t = 2" "nt_reach t" "apply_updates t batch_ex = (t', Inr (r0, r1, trs))"
  note w = reach_wf [OF t(3)]
  have "apply_loop t (sort (map (\<lambda>(h, n). (sender_slot (depth t) h, n)) batch_ex)) = (t', Inr trs) \<and> r0 = nt_root t \<and> r1 = nt_root t'"
    by (rule apply_updates_run [OF w t(4)]) (auto simp: map_sum_def split: sum.splits)
  then have r: "r0 = nt_root t" and links: "links_ok 2 r0 trs r1" using apply_loop_links [OF w] t(2) by auto
  have d: "1 \<le> (2 :: nat)" "2 \<le> MAX_DEPTH" by (simp_all add: MAX_DEPTH_def)
  obtain st cols pre where h: "ns_old_root st = p2t8_node_words r0" "ns_updates st = map update_of trs" "ns_depth st = 2" "check_public st = None"
    "statement_log_size st = Inr (nut_log_size (length trs) 2)" "nut_build_preproc (pinned_updates st) 2 (nut_log_size (length trs) 2) = Some pre"
    "length cols = 85" "cyclic_sat nut_evaluate pre cols (2 ^ nut_log_size (length trs) 2)"
    by (rule honest_nonce_batch [OF links d batch_trs [OF t(3,4)]])
  let ?l = "nut_log_size (length trs) 2"
  have v: "verify_nonce_transitions Inr (\<lambda>(pre, cols). [pre, cols]) (\<lambda>pre l. pre) nut_plain_verify (pre, cols) ?l st = Some (Inr True)"
    unfolding verify_nonce_transitions_def h(3-5) using h(2,6-8) batch_trs(1) [OF t(3,4)] by (simp add: nut_plain_verify_def)
  have o: "ns_old_root st = root_words t" using h(1) r by (simp add: root_words_def)
  have s: "length (snd pf) = 85 \<and> cyclic_sat nut_evaluate pre (snd pf) (2 ^ l)" if "nut_plain_verify pre r l ws pf" for pre r l ws pf
    using that unfolding nut_plain_verify_def by (metis prod.sel(2))
  have dd: "ns_depth st = depth t" using h(3) t(2) by simp
  have "\<exists>pf. (Inr (pre, cols) :: string + int list list \<times> int list list) = Inr pf \<and>
    ((\<exists>t' trs. apply_loop t (map (\<lambda>u. (unat (nu_index u), nu_new_nonce u)) (ns_updates st)) = (t', Inr trs) \<and> root_words t' = norm4 (ns_new_root st))
     \<or> chain_clash (nt_get t) (statement_links st (snd pf)))"
    by (rule nonce_verify_sound [OF t(3) o dd _ v]) (erule s)
  then have "(\<exists>t' trs. apply_loop t (map (\<lambda>u. (unat (nu_index u), nu_new_nonce u)) (ns_updates st)) = (t', Inr trs) \<and> root_words t' = norm4 (ns_new_root st))
     \<or> chain_clash (nt_get t) (statement_links st cols)"
    unfolding sum.inject by (elim exE conjE) (hypsubst, unfold prod.sel)
  with t(1) o v show ?thesis by blast
qed

end
