(* ===== verification/Circuit_Channel.thy ===== *)
theory Circuit_Channel
  imports Recursion_Inputs Path_Protocol
begin

unbundle bit_operations_syntax

text \<open>
  The circuit of the recursion channel (\<open>recursive/channel_t8_air.rs\<close>): one permutation of width 8 per step of a
  transcript, with the 22 rounds of \<open>Circuit_Poseidon\<close> and the whole state carried from block to block. The value a
  step adds, the drawn pairs and the final state are preprocessed columns the verifier fixes. The channel itself and
  its runs are in \<open>Channels\<close>; proving and verifying have the library as a parameter, as in \<open>Path_Protocol\<close>. The
  field \<open>cells\<close> of a channel and the range \<open>cells\<close> of a row are told apart by their qualifiers.
\<close>

section \<open>Constraints\<close>

definition chan_evaluate :: "'f::comm_ring_1 list \<Rightarrow> 'f list \<Rightarrow> 'f list \<Rightarrow> 'f list" where
  "chan_evaluate pre row prv =
     (let rc = Circuit_Base.cells pre 0 8; is_ext = pre ! 8; is_int = pre ! 9; is_block = pre ! 10; is_first = pre ! 11;
          word_pin = pre ! 12; is_draw = pre ! 13; drawn = Circuit_Base.cells pre 14 2; is_last = pre ! 16;
          digest_pin = Circuit_Base.cells pre 17 8;
          inp = Circuit_Base.cells row 0 8; sq = Circuit_Base.cells row 8 8; sbx = Circuit_Base.cells row 16 8;
          out = Circuit_Base.cells row 24 8; out_prev = Circuit_Base.cells prv 24 8; word = row ! 32;
          prev = map (\<lambda>i. (1 - is_first) * out_prev ! i) [0..<8];
          raw = map (\<lambda>i. if i = 0 then prev ! 0 + word else prev ! i) [0..<8];
          me_raw = mat_external_expr raw
      in round_constraints rc is_ext is_int inp sq sbx out
         @ map (\<lambda>i. inp ! i - (is_block * me_raw ! i + (1 - is_block) * out_prev ! i)) [0..<8]
         @ [is_block * (word - word_pin)]
         @ map (\<lambda>k. is_draw * (prev ! k - drawn ! k)) [0..<2]
         @ map (\<lambda>k. is_last * (out ! k - digest_pin ! k)) [0..<8])"

section \<open>Sizes\<close>

definition ROUNDS_PER_ABSORB :: nat where "ROUNDS_PER_ABSORB = 22"
definition CHAN_MIN_LOG_SIZE :: nat where "CHAN_MIN_LOG_SIZE = 5"
definition CHAN_MAX_LOG_SIZE :: nat where "CHAN_MAX_LOG_SIZE = 24"

definition n_rows :: "nat \<Rightarrow> nat" where
  "n_rows n_steps = n_steps * ROUNDS_PER_ABSORB"

definition chan_log_size :: "nat \<Rightarrow> nat" where
  "chan_log_size n_steps = (let rows = max (n_rows n_steps) 1 in max (log_size_loop rows 1) 5)"

definition total_blocks :: "Step list list \<Rightarrow> nat" where
  "total_blocks transcripts = sum_list (map length transcripts)"

definition chan_log_size_multi :: "Step list list \<Rightarrow> nat" where
  "chan_log_size_multi transcripts = chan_log_size (total_blocks transcripts)"

section \<open>Preprocessed columns\<close>

record ChannelRun =
  cr_digest :: "u64 list"
  cr_drawn :: "(u32 \<times> u32) list"

text \<open>The steps before step \<open>b\<close> that draw.\<close>

definition draw_count :: "Step list \<Rightarrow> nat \<Rightarrow> nat" where
  "draw_count steps b = length (filter (\<lambda>i. steps ! i = Draw) [0..<b])"

text \<open>Row \<open>r\<close> of block \<open>b\<close> of a transcript of which \<open>placed\<close> blocks fit; a missing run pins nothing.\<close>

definition chan_preproc_row :: "Step list \<Rightarrow> ChannelRun option \<Rightarrow> nat \<Rightarrow> nat \<Rightarrow> nat \<Rightarrow> int list" where
  "chan_preproc_row steps run placed b r =
     (let (is_ext, rc) = round_schedule r;
          is_draw = (r = 0 \<and> steps ! b = Draw);
          draw_i = draw_count steps b;
          is_last = (run \<noteq> None \<and> b = placed - 1 \<and> r = N_REAL_ROWS - 1)
      in map m31_cell rc @ [flag is_ext, flag (\<not> is_ext), flag (r = 0), flag (b = 0 \<and> r = 0)]
         @ [if r = 0 then m31_cell (step_addends steps ! b) else 0, flag is_draw]
         @ (case run of Some x \<Rightarrow> if is_draw \<and> draw_i < length (cr_drawn x)
                then (let (w0, w1) = cr_drawn x ! draw_i in [m31_cell (ucast w0), m31_cell (ucast w1)]) else [0, 0] | None \<Rightarrow> [0, 0])
         @ [flag is_last]
         @ (case run of Some x \<Rightarrow> if is_last then map (\<lambda>k. m31_cell (cr_digest x ! k)) [0..<8] else replicate 8 0 | None \<Rightarrow> replicate 8 0))"

definition chan_build_preproc :: "Step list \<Rightarrow> (u32 \<times> u32) list \<Rightarrow> u64 list \<Rightarrow> nat \<Rightarrow> int list list" where
  "chan_build_preproc steps drawn dig log_size =
     (let n = 2 ^ log_size; n_blocks = min (length steps) (n div N_REAL_ROWS); run = Some \<lparr>cr_digest = dig, cr_drawn = drawn\<rparr>
      in columns 25 (pad_rows n 25 (concat (map (\<lambda>b. map (chan_preproc_row steps run n_blocks b) [0..<N_REAL_ROWS]) [0..<n_blocks]))))"

definition chan_preproc_step :: "ChannelRun list \<Rightarrow> nat \<Rightarrow> int list list \<times> nat \<times> nat \<Rightarrow> Step list \<Rightarrow> int list list \<times> nat \<times> nat" where
  "chan_preproc_step runs cap = (\<lambda>(rows, block, t) steps.
     let placed = min (length steps) (cap - block); run = (if t < length runs then Some (runs ! t) else None)
     in (rows @ concat (map (\<lambda>b. map (chan_preproc_row steps run placed b) [0..<N_REAL_ROWS]) [0..<placed]), block + placed, Suc t))"

definition chan_preproc_multi :: "Step list list \<Rightarrow> ChannelRun list \<Rightarrow> nat \<Rightarrow> int list list" where
  "chan_preproc_multi transcripts runs log_size =
     (let n = 2 ^ log_size; cap = n div N_REAL_ROWS; (rows, _, _) = foldl (chan_preproc_step runs cap) ([], 0, 0) transcripts
      in columns 25 (pad_rows n 25 rows))"

section \<open>Traces\<close>

text \<open>One step: the value it adds on the first row, then the rounds; the channel is advanced beside the rows.\<close>

definition chan_trace_step :: "int list list \<times> P2TChannel \<times> (u32 \<times> u32) list \<times> u64 list \<Rightarrow> Step \<Rightarrow> int list list \<times> P2TChannel \<times> (u32 \<times> u32) list \<times> u64 list" where
  "chan_trace_step = (\<lambda>(rows, ch, drawn, carry) sp.
     let carried = P2TChannel.cells ch;
         addend = (case sp of Absorb w \<Rightarrow> reduce_word w | Draw \<Rightarrow> ucast (n_draws ch));
         (ch, drawn) = (case sp of Absorb w \<Rightarrow> (step_absorb w ch, drawn) | Draw \<Rightarrow> (let (p, ch) = step_draw ch in (ch, drawn @ [p])));
         (block, state) = perm_loop (\<lambda>r. [if r = 0 then m31_cell addend else 0]) (mat_external_t8 (carried[0 := m31_add (carried ! 0) addend]))
     in (rows @ block, ch, drawn, state))"

definition chan_build_trace :: "Step list \<Rightarrow> nat \<Rightarrow> int list list \<times> u64 list \<times> (u32 \<times> u32) list" where
  "chan_build_trace steps log_size =
     (let n = 2 ^ log_size; n_blocks = min (length steps) (n div N_REAL_ROWS);
          (rows, ch, drawn, carry) = foldl chan_trace_step ([], t8_init, [], replicate 8 0) (take n_blocks steps)
      in (columns 33 (rows @ pad_loop 1 (n - n_blocks * N_REAL_ROWS) (map (\<lambda>v. v mod M31_P) carry)), P2TChannel.cells ch, drawn))"

definition chan_run_step :: "nat \<Rightarrow> int list list \<times> ChannelRun list \<times> nat \<times> u64 list \<Rightarrow> Step list \<Rightarrow> int list list \<times> ChannelRun list \<times> nat \<times> u64 list" where
  "chan_run_step cap = (\<lambda>(rows, runs, block, carry) steps.
     let (rows, ch, drawn, carry) = foldl chan_trace_step (rows, t8_init, [], carry) (take (cap - block) steps)
     in (rows, runs @ [\<lparr>cr_digest = P2TChannel.cells ch, cr_drawn = drawn\<rparr>], block + min (length steps) (cap - block), carry))"

definition chan_build_trace_multi_raw :: "Step list list \<Rightarrow> nat \<Rightarrow> int list list \<times> ChannelRun list" where
  "chan_build_trace_multi_raw transcripts log_size =
     (let n = 2 ^ log_size; cap = n div N_REAL_ROWS;
          (rows, runs, block, carry) = foldl (chan_run_step cap) ([], [], 0, replicate 8 0) transcripts
      in (columns 33 (rows @ pad_loop 1 (n - block * N_REAL_ROWS) (map (\<lambda>v. v mod M31_P) carry)), runs))"

section \<open>Proving and verifying\<close>

datatype chan_error =
    NoSteps
  | TooManySteps nat
  | ChanLogExceeds nat
  | ChanLogRange nat
  | StepRange nat
  | DrawnMismatch
  | ChanCapacity nat nat
  | ChanMalformed nat
  | ChanStark string

definition chan_public_words :: "Step list \<Rightarrow> (u32 \<times> u32) list \<Rightarrow> u64 list \<Rightarrow> u32 list" where
  "chan_public_words steps drawn dig =
     [of_nat (length steps)]
     @ concat (map2 (\<lambda>st add. [case st of Absorb _ \<Rightarrow> 0 | Draw \<Rightarrow> 1, ucast (add mod M31_P)]) steps (step_addends steps))
     @ [of_nat (length drawn)]
     @ concat (map (\<lambda>(a, b). [ucast ((ucast a :: u64) mod M31_P), ucast ((ucast b :: u64) mod M31_P)]) drawn)
     @ map (\<lambda>d. ucast (d mod M31_P)) dig"

definition prove_channel_t8 :: "'b path_prover \<Rightarrow> Step list \<Rightarrow> chan_error + 'b \<times> nat \<times> u64 list \<times> (u32 \<times> u32) list" where
  "prove_channel_t8 stark_prove steps =
     (if steps = [] then Inl NoSteps
      else if length steps > MAX_STEPS then Inl (TooManySteps (length steps))
      else let log_size = chan_log_size (length steps) in
        if log_size > CHAN_MAX_LOG_SIZE then Inl (ChanLogExceeds log_size)
        else let (main_cols, dig, drawn) = chan_build_trace steps log_size;
                 pre = chan_build_preproc steps drawn dig log_size
             in case stark_prove pre main_cols log_size (chan_public_words steps drawn dig) of
                  Inl e \<Rightarrow> Inl (ChanStark e)
                | Inr bytes \<Rightarrow> Inr (bytes, log_size, dig, drawn))"

definition verify_channel_t8 ::
  "('b \<Rightarrow> string + 'p) \<Rightarrow> ('p \<Rightarrow> 'h list) \<Rightarrow> (int list list \<Rightarrow> nat \<Rightarrow> 'h) \<Rightarrow> ('h \<Rightarrow> 'h \<Rightarrow> nat \<Rightarrow> u32 list \<Rightarrow> 'p \<Rightarrow> bool)
   \<Rightarrow> 'b \<Rightarrow> nat \<Rightarrow> Step list \<Rightarrow> (u32 \<times> u32) list \<Rightarrow> u64 list \<Rightarrow> chan_error + bool" where
  "verify_channel_t8 decode commitments preproc_root stark_verify proof_bytes log_size steps drawn dig =
     (if \<not> (CHAN_MIN_LOG_SIZE \<le> log_size \<and> log_size \<le> CHAN_MAX_LOG_SIZE) then Inl (ChanLogRange log_size)
      else if steps = [] \<or> length steps > MAX_STEPS then Inl (StepRange (length steps))
      else if length drawn \<noteq> length (filter (\<lambda>s. s = Draw) steps) then Inl DrawnMismatch
      else if n_rows (length steps) > 2 ^ log_size then Inl (ChanCapacity (length steps) log_size)
      else case decode proof_bytes of Inl e \<Rightarrow> Inl (ChanStark e)
      | Inr pf \<Rightarrow>
          if length (commitments pf) < 2 then Inl (ChanMalformed (length (commitments pf)))
          else if commitments pf ! 0 \<noteq> preproc_root (chan_build_preproc steps drawn dig log_size) log_size then Inr False
          else Inr (stark_verify (commitments pf ! 0) (commitments pf ! 1) log_size (chan_public_words steps drawn dig) pf))"

section \<open>The channel step by step\<close>

definition step_of :: "Step \<Rightarrow> P2TChannel \<Rightarrow> P2TChannel" where
  "step_of st c = (case st of Absorb w \<Rightarrow> step_absorb w c | Draw \<Rightarrow> snd (step_draw c))"

definition addend_of :: "Step \<Rightarrow> P2TChannel \<Rightarrow> u64" where
  "addend_of st c = (case st of Absorb w \<Rightarrow> reduce_word w | Draw \<Rightarrow> ucast (n_draws c))"

definition pair_of :: "P2TChannel \<Rightarrow> u32 \<times> u32" where
  "pair_of c = (ucast (P2TChannel.cells c ! 0), ucast (P2TChannel.cells c ! 1))"

definition chan_from :: "P2TChannel \<Rightarrow> Step list \<Rightarrow> nat \<Rightarrow> P2TChannel" where
  "chan_from c steps b = foldl (\<lambda>c st. step_of st c) c (take b steps)"

definition added :: "u64 list \<Rightarrow> u64 \<Rightarrow> u64 list" where
  "added s a = s[0 := m31_add (s ! 0) a]"

lemma step_draw_pair: "step_draw c = (pair_of c, step_of Draw c)"
  by (simp add: step_of_def step_draw_def chan_draw_pair_def pair_of_def Let_def)

lemma step_of_cells: "P2TChannel.cells (step_of st c) = permute_t8 (added (P2TChannel.cells c) (addend_of st c))"
  by (cases st) (simp_all add: step_of_def addend_of_def added_def step_absorb_def reset_draws_def chan_absorb_def step_draw_def chan_draw_pair_def Let_def)

lemma step_of_draws: "n_draws (step_of st c) = (case st of Absorb w \<Rightarrow> 0 | Draw \<Rightarrow> n_draws c + 1)"
  by (cases st) (simp_all add: step_of_def step_absorb_def reset_draws_def chan_absorb_def step_draw_def chan_draw_pair_def Let_def)

lemma chan_from_simps [simp]: "chan_from c steps 0 = c" "chan_from c (st # steps) (Suc b) = chan_from (step_of st c) steps b"
  by (simp_all add: chan_from_def)

lemma chan_from_Suc: "b < length steps \<Longrightarrow> chan_from c steps (Suc b) = step_of (steps ! b) (chan_from c steps b)"
  by (simp add: chan_from_def take_Suc_conv_app_nth)

lemma step_addends_at: "b < length steps \<Longrightarrow> step_addends_from (n_draws c) steps ! b = addend_of (steps ! b) (chan_from c steps b)"
proof (induction steps arbitrary: c b)
  case (Cons st steps)
  have s: "step_addends_from (n_draws c) (st # steps) = addend_of st c # step_addends_from (n_draws (step_of st c)) steps"
    by (cases st) (simp_all add: addend_of_def step_of_draws)
  show ?case
  proof (cases b)
    case (Suc b')
    then show ?thesis using Cons.IH [of b' "step_of st c"] Cons.prems by (simp add: s)
  qed (simp add: s)
qed simp

lemma run_steps_from:
  "run_steps steps c = (map (\<lambda>b. pair_of (chan_from c steps b)) (filter (\<lambda>b. steps ! b = Draw) [0..<length steps]), chan_from c steps (length steps))"
proof (induction steps rule: rev_induct)
  case (snoc st steps)
  have f: "filter (\<lambda>b. (steps @ [st]) ! b = Draw) [0..<length steps] = filter (\<lambda>b. steps ! b = Draw) [0..<length steps]"
    by (rule filter_cong) (simp_all add: nth_append)
  have m: "map (\<lambda>b. pair_of (chan_from c (steps @ [st]) b)) (filter (\<lambda>b. steps ! b = Draw) [0..<length steps])
      = map (\<lambda>b. pair_of (chan_from c steps b)) (filter (\<lambda>b. steps ! b = Draw) [0..<length steps])"
    by (rule map_cong) (auto simp: chan_from_def)
  have l: "chan_from c (steps @ [st]) (Suc (length steps)) = step_of st (chan_from c steps (length steps))"
    "chan_from c (steps @ [st]) (length steps) = chan_from c steps (length steps)" by (simp_all add: chan_from_def)
  have one: "run_steps [st] d = (if st = Draw then [pair_of d] else [], step_of st d)" for d
    by (cases st) (simp_all add: step_draw_pair, simp add: step_of_def)
  have u: "[0..<Suc (length steps)] = [0..<length steps] @ [length steps]" by simp
  have n: "filter (\<lambda>b. (steps @ [st]) ! b = Draw) [length steps] = (if st = Draw then [length steps] else [])" by simp
  have e: "run_steps (steps @ [st]) c = (map (\<lambda>b. pair_of (chan_from c steps b)) (filter (\<lambda>b. steps ! b = Draw) [0..<length steps])
      @ (if st = Draw then [pair_of (chan_from c steps (length steps))] else []), step_of st (chan_from c steps (length steps)))"
    by (simp add: run_steps_append snoc one Let_def)
  show ?case unfolding e length_append_singleton u filter_append f n map_append m l if_distrib [of "map _"] list.map ..
qed simp

lemma canon_addend: "int (unat (n_draws c)) < P31 \<Longrightarrow> canon (addend_of st c)"
proof (cases st)
  case Draw
  assume a: "int (unat (n_draws c)) < P31"
  have "uint (ucast (n_draws c) :: u64) = uint (n_draws c)" by (rule ucast_up_uint)
  then show ?thesis using a by (simp add: Draw addend_of_def canon_uint)
qed (simp add: addend_of_def canon_reduce)

lemma added_wf: "wf_state 8 s \<Longrightarrow> canon a \<Longrightarrow> wf_state 8 (added s a)"
  unfolding added_def by (rule wf_state_add) simp_all

lemma chan_from_wf:
  assumes "wf_state 8 (P2TChannel.cells c)" "unat (n_draws c) \<le> k" "int (k + length steps) < P31"
  shows "wf_state 8 (P2TChannel.cells (chan_from c steps b)) \<and> unat (n_draws (chan_from c steps b)) \<le> k + length steps"
  using assms
proof (induction steps arbitrary: c b k)
  case Nil
  then show ?case by (simp add: chan_from_def)
next
  case (Cons st steps)
  show ?case
  proof (cases b)
    case (Suc b')
    have "unat (n_draws c + 1) \<le> Suc k" using Cons.prems(2) unat_word_ariths(1) [of "n_draws c" 1] by (simp add: le_trans [OF mod_less_eq_dividend])
    then have n: "unat (n_draws (step_of st c)) \<le> Suc k" by (cases st) (simp_all add: step_of_draws)
    have "canon (addend_of st c)" by (rule canon_addend) (use Cons.prems(2,3) in linarith)
    then have w: "wf_state 8 (P2TChannel.cells (step_of st c))"
      unfolding step_of_cells using Cons.prems(1) by (intro perm_wf added_wf)
    from Cons.IH [OF w n, of b'] Cons.prems(3) show ?thesis by (simp add: Suc)
  qed (use Cons.prems in simp)
qed

text \<open>The channel before step \<open>b\<close> of a transcript.\<close>

definition chan_at :: "Step list \<Rightarrow> nat \<Rightarrow> P2TChannel" where
  "chan_at steps b = chan_from t8_init steps b"

abbreviation state_b :: "Step list \<Rightarrow> nat \<Rightarrow> u64 list" where
  "state_b steps b \<equiv> P2TChannel.cells (chan_at steps b)"

lemma chan_at_facts:
  assumes "int (length steps) < P31"
  shows "wf_state 8 (state_b steps b)" "b < length steps \<Longrightarrow> canon (step_addends steps ! b)"
    "b < length steps \<Longrightarrow> state_b steps (Suc b) = permute_t8 (added (state_b steps b) (step_addends steps ! b))"
    "state_b steps 0 = replicate 8 0"
    "run_steps steps t8_init = (map (\<lambda>b. pair_of (chan_at steps b)) (filter (\<lambda>b. steps ! b = Draw) [0..<length steps]), chan_at steps (length steps))"
    "b < length steps \<Longrightarrow> step_addends steps ! b = addend_of (steps ! b) (chan_at steps b)"
proof -
  have z: "wf_state 8 (P2TChannel.cells t8_init)" "unat (n_draws t8_init) \<le> 0" "n_draws t8_init = 0" by (simp_all add: t8_init_def wf_state_def canon_zero)
  have w: "wf_state 8 (P2TChannel.cells (chan_from t8_init steps b)) \<and> unat (n_draws (chan_from t8_init steps b)) \<le> 0 + length steps" for b
    by (rule chan_from_wf [OF z(1,2)]) (use assms in simp)
  then show "wf_state 8 (state_b steps b)" by (simp add: chan_at_def)
  show a: "b < length steps \<Longrightarrow> step_addends steps ! b = addend_of (steps ! b) (chan_at steps b)"
    using step_addends_at [of b steps t8_init] by (simp add: step_addends_def chan_at_def z(3))
  show "b < length steps \<Longrightarrow> canon (step_addends steps ! b)"
    unfolding a chan_at_def by (rule canon_addend) (use w [of b] assms in linarith)
  show "b < length steps \<Longrightarrow> state_b steps (Suc b) = permute_t8 (added (state_b steps b) (step_addends steps ! b))"
    unfolding a by (simp add: chan_at_def chan_from_Suc step_of_cells)
  show "state_b steps 0 = replicate 8 0" by (simp add: chan_at_def t8_init_def)
  show "run_steps steps t8_init = (map (\<lambda>b. pair_of (chan_at steps b)) (filter (\<lambda>b. steps ! b = Draw) [0..<length steps]), chan_at steps (length steps))"
    by (simp add: run_steps_from chan_at_def)
qed

lemma filter_index:
  "i < length (filter P [0..<n]) \<Longrightarrow> filter P [0..<n] ! i < n \<and> P (filter P [0..<n] ! i) \<and> length (filter P [0..<filter P [0..<n] ! i]) = i"
proof (induction n)
  case (Suc n)
  show ?case
  proof (cases "i < length (filter P [0..<n])")
    case True
    then show ?thesis using Suc.IH by (auto simp: nth_append)
  next
    case False
    then have "P n" "i = length (filter P [0..<n])" using Suc.prems by (auto split: if_splits)
    then show ?thesis by (simp add: nth_append)
  qed
qed simp

lemma filter_count: "b < n \<Longrightarrow> P b \<Longrightarrow> length (filter P [0..<b]) < length (filter P [0..<n]) \<and> filter P [0..<n] ! length (filter P [0..<b]) = b"
proof (induction n)
  case (Suc n)
  then show ?case by (cases "b = n") (auto simp: nth_append)
qed simp

lemma filter_draws: "length (filter (\<lambda>s. s = Draw) steps) = length (filter (\<lambda>b. steps ! b = Draw) [0..<length steps])"
proof (induction steps rule: rev_induct)
  case (snoc st steps)
  have "filter (\<lambda>b. (steps @ [st]) ! b = Draw) [0..<length steps] = filter (\<lambda>b. steps ! b = Draw) [0..<length steps]"
    by (rule filter_cong) (simp_all add: nth_append)
  then show ?case using snoc by simp
qed simp

section \<open>One row\<close>

lemma m4_expr_mod:
  assumes "\<And>k. k < 4 \<Longrightarrow> s ! k mod P31 = t ! k mod P31" "k < 4"
  shows "m4_expr s ! k mod P31 = m4_expr t ! k mod P31"
  using less4 [OF assms(2)] assms(1) [of 0] assms(1) [of 1] assms(1) [of 2] assms(1) [of 3]
  by (elim disjE) (simp_all only: m4_expr_def nth_Cons_0 nth_Cons_Suc numeral_2_eq_2 numeral_3_eq_3 One_nat_def, (intro mod_add_cong mod_mult_cong refl; simp)+)

lemma mat_external_expr_mod:
  assumes "\<And>i. i < 8 \<Longrightarrow> a ! i mod P31 = b ! i mod P31" "i < 8"
  shows "mat_external_expr a ! i mod P31 = mat_external_expr b ! i mod P31"
proof -
  let ?v = "\<lambda>x n. m4_expr [x ! n, x ! (n + 1), x ! (n + 2), x ! (n + 3)] :: int list"
  have v: "?v a n ! k mod P31 = ?v b n ! k mod P31" if "k < 4" "n + 4 \<le> 8" for k n
  proof (rule m4_expr_mod [OF _ that(1)])
    fix j :: nat assume "j < 4"
    then show "[a ! n, a ! (n + 1), a ! (n + 2), a ! (n + 3)] ! j mod P31 = [b ! n, b ! (n + 1), b ! (n + 2), b ! (n + 3)] ! j mod P31"
      using assms(1) [of n] assms(1) [of "n + 1"] assms(1) [of "n + 2"] assms(1) [of "n + 3"] that(2) by (auto dest!: less4)
  qed
  have e: "mat_external_expr x = map (\<lambda>k. ?v x 0 ! k * 2 + ?v x 4 ! k) [0..<4] @ map (\<lambda>k. ?v x 0 ! k + ?v x 4 ! k * 2) [0..<4]" for x
    by (simp add: mat_external_expr_def Let_def numeral_eq_Suc)
  show ?thesis using less8 [OF assms(2)]
  proof
    assume k: "i < 4"
    have "mat_external_expr x ! i = ?v x 0 ! i * 2 + ?v x 4 ! i" for x unfolding e using k by (simp add: nth_append)
    then show ?thesis using v [OF k, of 0] v [OF k, of 4] by (simp only:) (intro mod_add_cong mod_mult_cong refl; simp)
  next
    assume "\<exists>k<4. i = 4 + k"
    then obtain k where k: "k < 4" "i = 4 + k" by blast
    have "mat_external_expr x ! i = ?v x 0 ! k + ?v x 4 ! k * 2" for x unfolding e using k by (simp add: nth_append)
    then show ?thesis using v [OF k(1), of 0] v [OF k(1), of 4] by (simp only:) (intro mod_add_cong mod_mult_cong refl; simp)
  qed
qed

text \<open>The first row of a block; \<open>fb\<close> marks the start of a run, where the carried state is zero.\<close>

lemma chan_first_row_iff:
  assumes r: "cells_ok row" "length row = 33" and v: "cells_ok prv" "length prv = 33"
    and p: "pre ! 10 = flag True" "pre ! 11 = flag fb" "pre ! 12 = uint a" "canon a" "pre ! 13 = flag d" "Circuit_Base.cells pre 14 2 = map uint dp" "wf_state 2 dp"
      "pre ! 16 = flag lt" "Circuit_Base.cells pre 17 8 = map uint dg" "wf_state 8 dg"
  defines "carried \<equiv> (if fb then replicate 8 0 else words prv 24 8)"
  shows "(\<forall>c\<in>set (chan_evaluate pre row prv). c mod P31 = 0) \<longleftrightarrow>
    round_ok pre row \<and> words row 0 8 = mat_external_t8 (added carried a) \<and> row ! 32 = uint a
    \<and> (d \<longrightarrow> take 2 carried = dp) \<and> (lt \<longrightarrow> words row 24 8 = dg)"
proof -
  have w: "wf_state n (words row a n)" "Circuit_Base.cells row a n = map uint (words row a n)" if "a + n \<le> 33" for a n
    using words_facts [OF r(1)] r(2) that by simp_all
  have wv: "wf_state 8 (words prv 24 8)" "Circuit_Base.cells prv 24 8 = map uint (words prv 24 8)" using words_facts [OF v(1)] v(2) by simp_all
  have wc: "wf_state 8 carried" using wv(1) canon_zero by (simp add: carried_def wf_state_def)
  have lc: "length carried = 8" using wc by (simp add: wf_state_def)
  have pv: "map (\<lambda>i. (1 - flag fb) * Circuit_Base.cells prv 24 8 ! i) [0..<8] = map uint carried"
    using wv lc by (intro nth_equalityI) (auto simp: carried_def flag_def wf_state_def)
  have one: "flag True * x = x" for x by (simp add: flag_def)
  have wa: "wf_state 8 (added carried a)" using wc p(4) by (rule added_wf)
  have word: "flag True * (row ! 32 - uint a) mod P31 = 0 \<longleftrightarrow> row ! 32 = uint a"
  proof -
    have b: "0 \<le> row ! 32" "row ! 32 < P31" using cells_ok_nth [OF r(1), of 32] r(2) by simp_all
    have "row ! 32 = uint a" if "(row ! 32 - uint a) mod P31 = 0"
    proof (rule small_eq [OF that])
      have "0 \<le> uint a" "uint a < P31" using p(4) by (simp_all add: canon_uint)
      then show "row ! 32 - uint a < P31" "uint a - row ! 32 < P31" using b by linarith+
    qed
    then show ?thesis unfolding one by auto
  qed
  have inp: "(\<forall>c\<in>set (map (\<lambda>i. Circuit_Base.cells row 0 8 ! i - (flag True * mat_external_expr (map (\<lambda>i. if i = 0 then map uint carried ! 0 + row ! 32 else map uint carried ! i) [0..<8]) ! i
      + (1 - flag True) * Circuit_Base.cells prv 24 8 ! i)) [0..<8]). c mod P31 = 0) \<longleftrightarrow> words row 0 8 = mat_external_t8 (added carried a)"
    if "row ! 32 = uint a"
  proof -
    let ?raw = "map (\<lambda>i. if i = 0 then map uint carried ! 0 + row ! 32 else map uint carried ! i) [0..<8]"
    have raw: "?raw ! i mod P31 = map uint (added carried a) ! i mod P31" if "i < 8" for i
    proof (cases "i = 0")
      case True
      have "canon (carried ! 0)" using wc by (rule wf_state_nth) simp
      then have "uint (m31_add (carried ! 0) a) = (uint (carried ! 0) + uint a) mod P31" using p(4) by (simp add: m31_add_uint canon_uint)
      then show ?thesis using lc True \<open>row ! 32 = uint a\<close> by (simp add: added_def)
    next
      case False
      then show ?thesis using that lc by (simp add: added_def)
    qed
    have m: "mat_external_expr ?raw ! i mod P31 = mat_external_expr (map uint (added carried a)) ! i mod P31" if "i < 8" for i
      by (rule mat_external_expr_mod [OF raw that])
    have "(x - (flag True * mat_external_expr ?raw ! i + (1 - flag True) * y)) mod P31
        = (x - (flag True * mat_external_expr (map uint (added carried a)) ! i + (1 - flag True) * y)) mod P31" if "i < 8" for i x y
      using m [OF that] by (simp add: flag_def) (rule mod_diff_cong [OF refl], simp)
    then have "(\<forall>c\<in>set (map (\<lambda>i. Circuit_Base.cells row 0 8 ! i - (flag True * mat_external_expr ?raw ! i + (1 - flag True) * Circuit_Base.cells prv 24 8 ! i)) [0..<8]). c mod P31 = 0)
      \<longleftrightarrow> (\<forall>c\<in>set (map (\<lambda>i. Circuit_Base.cells row 0 8 ! i - (flag True * mat_external_expr (map uint (added carried a)) ! i + (1 - flag True) * Circuit_Base.cells prv 24 8 ! i)) [0..<8]). c mod P31 = 0)"
      by simp
    then show ?thesis using in_iff [OF w(1) [of 0 8] wa wv(1), of True] by (simp add: w(2) wv(2))
  qed
  have two: "map (\<lambda>k. flag d * (map uint carried ! k - map uint dp ! k)) [0..<2] = map (\<lambda>k. flag d * (map uint (take 2 carried) ! k - map uint dp ! k)) [0..<2]"
    using lc by (intro map_cong refl) auto
  have w2: "wf_state 2 (take 2 carried)" using wc by (auto simp: wf_state_def dest: in_set_takeD)
  have single: "(\<forall>c\<in>set [x]. c mod P31 = 0) \<longleftrightarrow> x mod P31 = 0" for x :: int by simp
  have out: "(\<forall>c\<in>set (map (\<lambda>k. flag lt * (Circuit_Base.cells row 24 8 ! k - map uint dg ! k)) [0..<8]). c mod P31 = 0) \<longleftrightarrow> (lt \<longrightarrow> words row 24 8 = dg)"
    using pin_iff [OF w(1) [of 24 8] p(10), of lt] by (simp add: w(2))
  show ?thesis
    unfolding chan_evaluate_def Let_def set_append ball_Un round_ok_def [symmetric] p(1-3,5,6,8,9) pv two pin_iff [OF w2 p(7)] out single word
    using inp by blast
qed

lemma chan_row_iff:
  assumes r: "cells_ok row" "length row = 33" and v: "cells_ok prv" "length prv = 33"
    and p: "pre ! 10 = 0" "pre ! 13 = 0" "pre ! 16 = flag lt" "Circuit_Base.cells pre 17 8 = map uint dg" "wf_state 8 dg"
  shows "(\<forall>c\<in>set (chan_evaluate pre row prv). c mod P31 = 0) \<longleftrightarrow>
    round_ok pre row \<and> words row 0 8 = words prv 24 8 \<and> (lt \<longrightarrow> words row 24 8 = dg)"
proof -
  have w: "wf_state n (words row a n)" "Circuit_Base.cells row a n = map uint (words row a n)" if "a + n \<le> 33" for a n
    using words_facts [OF r(1)] r(2) that by simp_all
  have wv: "wf_state 8 (words prv 24 8)" "Circuit_Base.cells prv 24 8 = map uint (words prv 24 8)" using words_facts [OF v(1)] v(2) by simp_all
  have z: "(\<forall>c\<in>set (map (\<lambda>k. 0 * g k) ks). c mod P31 = 0)" "(\<forall>c\<in>set [0 * x]. c mod P31 = 0)" for g :: "nat \<Rightarrow> int" and ks and x :: int by simp_all
  have inp: "(\<forall>c\<in>set (map (\<lambda>i. Circuit_Base.cells row 0 8 ! i - (0 * h i + (1 - 0) * Circuit_Base.cells prv 24 8 ! i)) [0..<8]). c mod P31 = 0)
      \<longleftrightarrow> words row 0 8 = words prv 24 8" for h
    using in_iff [OF w(1) [of 0 8] wv(1) wv(1), of False] by (simp add: w(2) wv(2) flag_def)
  have out: "(\<forall>c\<in>set (map (\<lambda>k. flag lt * (Circuit_Base.cells row 24 8 ! k - map uint dg ! k)) [0..<8]). c mod P31 = 0) \<longleftrightarrow> (lt \<longrightarrow> words row 24 8 = dg)"
    using pin_iff [OF w(1) [of 24 8] p(5), of lt] by (simp add: w(2))
  show ?thesis
    unfolding chan_evaluate_def Let_def set_append ball_Un round_ok_def [symmetric] p(1-4) z inp out by simp
qed

section \<open>Layouts and preprocessed columns\<close>

text \<open>Blocks of 22 rows in the order of a layout, then other rows.\<close>

lemma layout_rows:
  fixes ds :: "nat list"
  assumes F: "\<And>p j. p < length ds \<Longrightarrow> j < ds ! p \<Longrightarrow> length (F p j) = N_REAL_ROWS"
  defines "rows \<equiv> concat (map (\<lambda>(p, j). F p j) (comp_layout ds))"
  shows "length rows = sum_list ds * N_REAL_ROWS"
    "p < length ds \<Longrightarrow> j < ds ! p \<Longrightarrow> r < N_REAL_ROWS \<Longrightarrow> length (F p j ! r) = w \<Longrightarrow>
      (sum_list (take p ds) + j) * N_REAL_ROWS + r < length rows
      \<and> trace_row (columns w (rows @ rest)) ((sum_list (take p ds) + j) * N_REAL_ROWS + r) = F p j ! r"
    "sum_list ds * N_REAL_ROWS \<le> i \<Longrightarrow> i < length (rows @ rest) \<Longrightarrow> length (rest ! (i - sum_list ds * N_REAL_ROWS)) = w \<Longrightarrow>
      trace_row (columns w (rows @ rest)) i = rest ! (i - sum_list ds * N_REAL_ROWS)"
proof -
  let ?xss = "map (\<lambda>(p, j). F p j) (comp_layout ds)"
  have l: "\<forall>xs\<in>set ?xss. length xs = N_REAL_ROWS"
  proof
    fix xs assume "xs \<in> set ?xss"
    then obtain c where c: "c < sum_list ds" "xs = ?xss ! c" by (auto simp: in_set_conv_nth)
    obtain p j where "p < length ds" "j < ds ! p" "comp_layout ds ! c = (p, j)" by (rule comp_layout_cases [OF c(1)])
    then show "length xs = N_REAL_ROWS" using F c by simp
  qed
  show len: "length rows = sum_list ds * N_REAL_ROWS" unfolding rows_def using concat_blocks(1) [OF l] by simp
  show "(sum_list (take p ds) + j) * N_REAL_ROWS + r < length rows
      \<and> trace_row (columns w (rows @ rest)) ((sum_list (take p ds) + j) * N_REAL_ROWS + r) = F p j ! r"
    if "p < length ds" "j < ds ! p" "r < N_REAL_ROWS" "length (F p j ! r) = w"
  proof -
    let ?c = "sum_list (take p ds) + j"
    have c: "?c < sum_list ds" "comp_layout ds ! ?c = (p, j)" using comp_layout_nth [OF that(1,2)] by simp_all
    have "rows ! (?c * N_REAL_ROWS + r) = ?xss ! ?c ! r" unfolding rows_def using c(1) that(3) by (intro concat_blocks(2) [OF l]) simp_all
    also have "\<dots> = F p j ! r" using c by simp
    finally have e: "rows ! (?c * N_REAL_ROWS + r) = F p j ! r" .
    have "?c * N_REAL_ROWS + r < Suc ?c * N_REAL_ROWS" using that(3) by simp
    also have "\<dots> \<le> sum_list ds * N_REAL_ROWS" using c(1) by (intro mult_right_mono) simp_all
    finally have i: "?c * N_REAL_ROWS + r < length rows" unfolding len .
    have n: "(rows @ rest) ! (?c * N_REAL_ROWS + r) = F p j ! r" using i e by (simp only: nth_append if_True)
    have "?c * N_REAL_ROWS + r < length (rows @ rest)" using i unfolding length_append by (rule trans_less_add1)
    moreover have "length ((rows @ rest) ! (?c * N_REAL_ROWS + r)) = w" unfolding n by (rule that(4))
    ultimately have "trace_row (columns w (rows @ rest)) (?c * N_REAL_ROWS + r) = (rows @ rest) ! (?c * N_REAL_ROWS + r)"
      by (intro trace_row_columns)
    then show ?thesis using i unfolding n by blast
  qed
  show "trace_row (columns w (rows @ rest)) i = rest ! (i - sum_list ds * N_REAL_ROWS)"
    if "sum_list ds * N_REAL_ROWS \<le> i" "i < length (rows @ rest)" "length (rest ! (i - sum_list ds * N_REAL_ROWS)) = w"
  proof -
    have n: "(rows @ rest) ! i = rest ! (i - sum_list ds * N_REAL_ROWS)" using that(1) by (simp add: nth_append len)
    show ?thesis using trace_row_columns [OF that(2), of w] that(3) unfolding n by blast
  qed
qed

definition norm8 :: "u64 list \<Rightarrow> u64 list" where
  "norm8 v = map (\<lambda>k. v ! k mod M31_P) [0..<8]"

lemma norm8_wf: "wf_state 8 (norm8 v)"
  by (auto simp: norm8_def wf_state_def canon_mod)

lemma norm8_id: "wf_state 8 v \<Longrightarrow> norm8 v = v"
  unfolding norm8_def by (intro nth_equalityI) (simp_all add: wf_state_def canon_mod_id)

lemma m31_cell_reduced: "m31_cell v = uint (v mod M31_P)"
proof -
  have "v mod M31_P mod M31_P = v mod M31_P" by (rule canon_mod_id [OF canon_mod])
  then have "m31_cell v = m31_cell (v mod M31_P)" by (simp only: m31_cell_def)
  then show ?thesis by (simp only: m31_cell_canon [OF canon_mod])
qed

text \<open>The pair fixed for a draw, as canonical words.\<close>

definition pin_pair :: "u32 \<times> u32 \<Rightarrow> u64 list" where
  "pin_pair p = [ucast (fst p) mod M31_P, ucast (snd p) mod M31_P]"

lemma pin_pair_wf: "wf_state 2 (pin_pair p)"
  by (simp add: pin_pair_def wf_state_def canon_mod)

definition draw_pin :: "ChannelRun option \<Rightarrow> nat \<Rightarrow> u64 list" where
  "draw_pin run i = (case run of Some x \<Rightarrow> if i < length (cr_drawn x) then pin_pair (cr_drawn x ! i) else [0, 0] | None \<Rightarrow> [0, 0])"

definition digest_of :: "ChannelRun option \<Rightarrow> u64 list" where
  "digest_of run = (case run of Some x \<Rightarrow> norm8 (cr_digest x) | None \<Rightarrow> replicate 8 0)"

lemma pins_wf: "wf_state 2 (draw_pin run i)" "wf_state 8 (digest_of run)"
  using pin_pair_wf norm8_wf canon_zero
  by (auto simp: draw_pin_def digest_of_def wf_state_def split: option.split)

lemma chan_preproc_row_facts:
  fixes run :: "ChannelRun option" and placed :: nat
  assumes "r < N_REAL_ROWS" "canon (step_addends steps ! b)"
  defines "pre \<equiv> chan_preproc_row steps run placed b r"
    and "d \<equiv> r = 0 \<and> steps ! b = Draw" and "l \<equiv> run \<noteq> None \<and> b = placed - 1 \<and> r = N_REAL_ROWS - 1"
  shows "length pre = 25" "Circuit_Base.cells pre 0 8 = map uint (snd (round_schedule r))" "pre ! 8 = flag (fst (round_schedule r))"
    "pre ! 9 = flag (\<not> fst (round_schedule r))" "pre ! 10 = flag (r = 0)" "pre ! 11 = flag (b = 0 \<and> r = 0)"
    "r = 0 \<Longrightarrow> pre ! 12 = uint (step_addends steps ! b)" "pre ! 13 = flag d"
    "Circuit_Base.cells pre 14 2 = map uint (if d then draw_pin run (draw_count steps b) else [0, 0])"
    "pre ! 16 = flag l" "Circuit_Base.cells pre 17 8 = map uint (if l then digest_of run else replicate 8 0)"
proof -
  obtain e rc where s: "round_schedule r = (e, rc)" by (cases "round_schedule r")
  have w: "wf_state 8 rc" using round_schedule_wf [OF assms(1)] s by simp
  define dp where "dp = (if d then draw_pin run (draw_count steps b) else [0, 0])"
  define dg where "dg = (if l then digest_of run else replicate 8 0)"
  define wc where "wc = (if r = 0 then uint (step_addends steps ! b) else 0)"
  have ln: "length rc = 8" "length dp = 2" "length dg = 8"
    using w pins_wf [of run] by (auto simp: wf_state_def dp_def dg_def)
  have a: "(case run of Some x \<Rightarrow> if d \<and> draw_count steps b < length (cr_drawn x)
                then (let (w0, w1) = cr_drawn x ! draw_count steps b in [m31_cell (ucast w0), m31_cell (ucast w1)]) else [0, 0] | None \<Rightarrow> [0, 0]) = map uint dp"
    by (simp add: dp_def draw_pin_def pin_pair_def m31_cell_reduced Let_def split_def split: option.split)
  have b: "(case run of Some x \<Rightarrow> if l then map (\<lambda>k. m31_cell (cr_digest x ! k)) [0..<8] else replicate 8 0 | None \<Rightarrow> replicate 8 0) = map uint dg"
    by (auto simp: dg_def digest_of_def norm8_def m31_cell_reduced l_def split: option.split)
  have c: "(if r = 0 then m31_cell (step_addends steps ! b) else 0) = wc" using assms(2) by (simp add: wc_def m31_cell_canon)
  have pre: "pre = map uint rc @ [flag e, flag (\<not> e), flag (r = 0), flag (b = 0 \<and> r = 0)] @ [wc, flag d] @ map uint dp @ [flag l] @ map uint dg"
    unfolding pre_def chan_preproc_row_def s Let_def [where s = "draw_count steps b"] Let_def [where s = "r = 0 \<and> steps ! b = Draw"]
      Let_def [where s = "run \<noteq> None \<and> b = placed - 1 \<and> r = N_REAL_ROWS - 1"] Let_def [where s = "(e, rc)"] prod.case
      d_def [symmetric] l_def [symmetric] Let_def [where s = d] Let_def [where s = l] a b c map_m31_cell [OF w] ..
  show "length pre = 25" using ln by (simp add: pre)
  show "Circuit_Base.cells pre 0 8 = map uint (snd (round_schedule r))" using ln by (simp add: pre s cells_take)
  show "Circuit_Base.cells pre 14 2 = map uint (if d then draw_pin run (draw_count steps b) else [0, 0])"
    unfolding dp_def [symmetric] using ln by (simp add: pre cells_take)
  show "Circuit_Base.cells pre 17 8 = map uint (if l then digest_of run else replicate 8 0)"
    unfolding dg_def [symmetric] using ln by (simp add: pre cells_take)
  show "pre ! 8 = flag (fst (round_schedule r))" "pre ! 9 = flag (\<not> fst (round_schedule r))" "pre ! 10 = flag (r = 0)" "pre ! 11 = flag (b = 0 \<and> r = 0)"
    "pre ! 13 = flag d" "pre ! 16 = flag l" "r = 0 \<Longrightarrow> pre ! 12 = uint (step_addends steps ! b)" using ln by (simp_all add: pre s nth_append wc_def)
qed

definition run_of :: "ChannelRun list \<Rightarrow> nat \<Rightarrow> ChannelRun option" where
  "run_of runs t = (if t < length runs then Some (runs ! t) else None)"

text \<open>Transcripts that fit a trace.\<close>

definition runs_fit :: "nat \<Rightarrow> Step list list \<Rightarrow> bool" where
  "runs_fit log_size transcripts \<longleftrightarrow> total_blocks transcripts * N_REAL_ROWS \<le> 2 ^ log_size \<and> log_size \<le> CHAN_MAX_LOG_SIZE"

lemma runs_fit_steps:
  assumes "runs_fit log_size transcripts" "t < length transcripts"
  shows "int (length (transcripts ! t)) < P31"
proof -
  have "length (transcripts ! t) \<le> total_blocks transcripts" unfolding total_blocks_def by (rule member_le_sum_list) (use assms(2) in simp_all)
  moreover have "total_blocks transcripts \<le> total_blocks transcripts * N_REAL_ROWS" by (simp add: N_REAL_ROWS_val)
  moreover have "(2 :: nat) ^ log_size \<le> 2 ^ 24" using assms(1) by (intro power_increasing) (simp_all add: runs_fit_def CHAN_MAX_LOG_SIZE_def)
  ultimately have "length (transcripts ! t) \<le> 2 ^ 24" using assms(1) unfolding runs_fit_def by linarith
  then show ?thesis by (simp add: P31_def)
qed

lemma chan_preproc_fold:
  assumes "total_blocks ts \<le> cap"
  shows "foldl (chan_preproc_step runs cap) ([], 0, 0) ts =
    (concat (map (\<lambda>(t, b). map (chan_preproc_row (ts ! t) (run_of runs t) (length (ts ! t)) b) [0..<N_REAL_ROWS]) (comp_layout (map length ts))),
     total_blocks ts, length ts)"
  using assms
proof (induction ts rule: rev_induct)
  case (snoc steps ts)
  have le: "total_blocks ts \<le> cap" and m: "min (length steps) (cap - total_blocks ts) = length steps" using snoc.prems by (simp_all add: total_blocks_def)
  have c: "map (\<lambda>(t, b). map (chan_preproc_row ((ts @ [steps]) ! t) (run_of runs t) (length ((ts @ [steps]) ! t)) b) [0..<N_REAL_ROWS]) (comp_layout (map length ts))
      = map (\<lambda>(t, b). map (chan_preproc_row (ts ! t) (run_of runs t) (length (ts ! t)) b) [0..<N_REAL_ROWS]) (comp_layout (map length ts))"
  proof (intro map_cong refl)
    fix x assume "x \<in> set (comp_layout (map length ts))"
    then obtain i where i: "i < sum_list (map length ts)" "x = comp_layout (map length ts) ! i" by (auto simp: in_set_conv_nth)
    obtain t b where "t < length (map length ts)" "x = (t, b)" by (rule comp_layout_cases [OF i(1)]) (simp add: i(2))
    then show "(case x of (t, b) \<Rightarrow> map (chan_preproc_row ((ts @ [steps]) ! t) (run_of runs t) (length ((ts @ [steps]) ! t)) b) [0..<N_REAL_ROWS])
        = (case x of (t, b) \<Rightarrow> map (chan_preproc_row (ts ! t) (run_of runs t) (length (ts ! t)) b) [0..<N_REAL_ROWS])" by (simp add: nth_append)
  qed
  have n: "(ts @ [steps]) ! length ts = steps" by simp
  have k: "comp_layout (map length ts @ [length steps]) = comp_layout (map length ts) @ map (Pair (length ts)) [0..<length steps]"
    using comp_layout_snoc [of "map length ts" "length steps"] by simp
  have step: "chan_preproc_step runs cap (R, total_blocks ts, length ts) steps = (R @ concat (map (\<lambda>b. map (chan_preproc_row steps (run_of runs (length ts)) (length steps) b)
      [0..<N_REAL_ROWS]) [0..<length steps]), total_blocks ts + length steps, Suc (length ts))" for R
    by (simp add: chan_preproc_step_def Let_def m run_of_def)
  show ?case unfolding foldl_append foldl.simps snoc.IH [OF le] step map_append list.map k concat_append c
    by (simp add: total_blocks_def n o_def)
qed (simp add: total_blocks_def comp_layout_def)

lemma chan_preproc_rows:
  fixes runs :: "ChannelRun list"
  assumes "runs_fit log_size ts"
  defines "pre \<equiv> chan_preproc_multi ts runs log_size" and "ds \<equiv> map length ts"
  shows "length pre = 25"
    "t < length ts \<Longrightarrow> b < length (ts ! t) \<Longrightarrow> r < N_REAL_ROWS \<Longrightarrow>
      trace_row pre ((sum_list (take t ds) + b) * N_REAL_ROWS + r) = chan_preproc_row (ts ! t) (run_of runs t) (length (ts ! t)) b r"
    "i < 2 ^ log_size \<Longrightarrow> total_blocks ts * N_REAL_ROWS \<le> i \<Longrightarrow> trace_row pre i = replicate 25 0"
proof -
  let ?n = "2 ^ log_size :: nat" and ?F = "\<lambda>t b. map (chan_preproc_row (ts ! t) (run_of runs t) (length (ts ! t)) b) [0..<N_REAL_ROWS]"
  let ?rows = "concat (map (\<lambda>(t, b). ?F t b) (comp_layout ds))"
  have cap: "total_blocks ts \<le> ?n div N_REAL_ROWS" using assms(1) by (simp add: runs_fit_def less_eq_div_iff_mult_less_eq N_REAL_ROWS_val)
  have tb: "sum_list ds = total_blocks ts" by (simp add: ds_def total_blocks_def)
  have F: "length (?F p j) = N_REAL_ROWS" for p j by simp
  note L = layout_rows [where F = ?F and ds = ds, OF F]
  have p: "pre = columns 25 (?rows @ replicate (?n - length ?rows) (replicate 25 0))"
    unfolding pre_def chan_preproc_multi_def Let_def chan_preproc_fold [OF cap] prod.case pad_rows_def ds_def ..
  show "length pre = 25" by (simp add: p columns_def)
  show "trace_row pre ((sum_list (take t ds) + b) * N_REAL_ROWS + r) = chan_preproc_row (ts ! t) (run_of runs t) (length (ts ! t)) b r"
    if "t < length ts" "b < length (ts ! t)" "r < N_REAL_ROWS"
  proof -
    have c: "canon (step_addends (ts ! t) ! b)" by (rule chan_at_facts(2) [OF runs_fit_steps [OF assms(1) that(1)] that(2)])
    have "t < length ds" "b < ds ! t" "length (?F t b ! r) = 25" using that chan_preproc_row_facts(1) [OF that(3) c] by (simp_all add: ds_def)
    from L(2) [OF this(1,2) that(3) this(3)] show ?thesis unfolding p using that(3) by simp
  qed
  show "trace_row pre i = replicate 25 0" if i: "i < ?n" "total_blocks ts * N_REAL_ROWS \<le> i"
  proof -
    have l: "i < length (?rows @ replicate (?n - length ?rows) (replicate 25 (0 :: int)))" using i(1) by simp
    have "i - sum_list ds * N_REAL_ROWS < ?n - length ?rows" using i unfolding L(1) tb by linarith
    then have e: "replicate (?n - length ?rows) (replicate 25 (0 :: int)) ! (i - sum_list ds * N_REAL_ROWS) = replicate 25 0" by (rule nth_replicate)
    show ?thesis unfolding p using L(3) [OF _ l, of 25] i(2) unfolding tb e [unfolded tb] by simp
  qed
qed

section \<open>Soundness\<close>

text \<open>One block of an accepted trace.\<close>

lemma chan_block_sound:
  fixes runs :: "ChannelRun list"
  assumes fit: "runs_fit log_size ts" and len: "length cols = 33"
    and sat: "cyclic_sat chan_evaluate (chan_preproc_multi ts runs log_size) cols (2 ^ log_size)" and t: "t < length ts" and b: "b < length (ts ! t)"
  defines "c \<equiv> (sum_list (take t (map length ts)) + b) * N_REAL_ROWS" and "steps \<equiv> ts ! t" and "run \<equiv> run_of runs t"
  defines "s \<equiv> (if b = 0 then replicate 8 0 else words (trace_row cols (c - 1)) 24 8)"
  shows "words (trace_row cols (c + (N_REAL_ROWS - 1))) 24 8 = permute_t8 (added s (step_addends steps ! b))"
    "steps ! b = Draw \<Longrightarrow> take 2 s = draw_pin run (draw_count steps b)"
    "b = length steps - 1 \<Longrightarrow> run \<noteq> None \<Longrightarrow> words (trace_row cols (c + (N_REAL_ROWS - 1))) 24 8 = digest_of run"
proof -
  let ?n = "2 ^ log_size :: nat" and ?ds = "map length ts" and ?p = "chan_preproc_row steps run (length steps) b" and ?a = "step_addends steps ! b"
  define row where "row i = trace_row cols i" for i
  have wf: "cells_ok (row i)" "length (row i) = 33" if "i < ?n" for i
    using sat that len by (simp_all add: cyclic_sat_def row_def) (simp add: trace_row_def)
  have prow: "trace_row (chan_preproc_multi ts runs log_size) (c + r) = ?p r" if "r < N_REAL_ROWS" for r
    using chan_preproc_rows(2) [OF fit t b that, of runs] by (simp add: c_def steps_def run_def)
  have ca: "canon ?a" using chan_at_facts(2) [OF runs_fit_steps [OF fit t] b] by (simp add: steps_def)
  note f = chan_preproc_row_facts [OF _ ca, where run = run and placed = "length steps"]
  have bound: "c + r < ?n" if "r < N_REAL_ROWS" for r
  proof -
    have "sum_list (take t ?ds) + b < sum_list ?ds" using comp_layout_nth [of t ?ds b] t b by simp
    then have "Suc (sum_list (take t ?ds) + b) * N_REAL_ROWS \<le> sum_list ?ds * N_REAL_ROWS" by (intro mult_right_mono) simp_all
    also have "\<dots> \<le> ?n" using fit by (simp add: runs_fit_def total_blocks_def)
    finally show ?thesis using that unfolding c_def mult_Suc by linarith
  qed
  have con: "\<forall>x\<in>set (chan_evaluate (?p r) (row (c + r)) (row ((c + r + ?n - 1) mod ?n))). x mod P31 = 0"
    if "r < N_REAL_ROWS" for r using sat bound [OF that] prow [OF that] by (simp add: cyclic_sat_def row_def)
  have z: "0 < N_REAL_ROWS" "0 \<noteq> N_REAL_ROWS - 1" by (simp_all add: N_REAL_ROWS_val)
  have w8: "wf_state 8 (if x then digest_of run else replicate 8 0)" for x
    using pins_wf(2) canon_zero by (simp add: wf_state_def)
  have w2: "wf_state 2 (if x then draw_pin run i else [0, 0])" for x i
    using pins_wf(1) canon_zero by (simp add: wf_state_def)
  define q where "q = (c + 0 + ?n - 1) mod ?n"
  have q: "q < ?n" by (simp add: q_def)
  have cn: "c < ?n" using bound [OF z(1)] by simp
  have carried: "(if b = 0 then replicate 8 0 else words (row q) 24 8) = s"
  proof (cases "b = 0")
    case False
    then have "0 < c" by (simp add: c_def N_REAL_ROWS_val)
    then have "q = c - 1" using cn by (simp add: q_def mod_if)
    then show ?thesis using False by (simp add: s_def row_def)
  qed (simp add: s_def)
  have first: "round_ok (?p 0) (row c) \<and> words (row c) 0 8 = mat_external_t8 (added s ?a) \<and> (steps ! b = Draw \<longrightarrow> take 2 s = draw_pin run (draw_count steps b))"
  proof -
    have k: "?p 0 ! 10 = flag True" "?p 0 ! 11 = flag (b = 0)" "?p 0 ! 12 = uint ?a" using f(5,6,7) [OF z(1)] by simp_all
    note i = chan_first_row_iff [OF wf [OF cn] wf [OF q] k ca f(8) [OF z(1)] f(9) [OF z(1)] w2 f(10) [OF z(1)] f(11) [OF z(1)] w8]
    from con [OF z(1)] have "\<forall>x\<in>set (chan_evaluate (?p 0) (row c) (row q)). x mod P31 = 0" by (simp add: q_def)
    from this [unfolded i] show ?thesis unfolding carried by simp
  qed
  have later: "round_ok (?p (Suc r)) (row (c + Suc r)) \<and> words (row (c + Suc r)) 0 8 = words (row (c + r)) 24 8
      \<and> (run \<noteq> None \<and> b = length steps - 1 \<and> Suc r = N_REAL_ROWS - 1 \<longrightarrow> words (row (c + Suc r)) 24 8 = digest_of run)"
    if r: "Suc r < N_REAL_ROWS" for r
  proof -
    have bd: "c + Suc r < ?n" "c + r < ?n" using bound [OF r] by simp_all
    have e: "(c + Suc r + ?n - 1) mod ?n = c + r" using bd by simp
    have k: "?p (Suc r) ! 10 = 0" "?p (Suc r) ! 13 = 0" using f(5,8) [OF r] by (simp_all add: flag_def)
    note i = chan_row_iff [OF wf [OF bd(1)] wf [OF bd(2)] k f(10) [OF r] f(11) [OF r] w8]
    from con [OF r] have "\<forall>x\<in>set (chan_evaluate (?p (Suc r)) (row (c + Suc r)) (row (c + r))). x mod P31 = 0"
      unfolding e .
    from this [unfolded i] show ?thesis by auto
  qed
  have rok: "round_ok (?p r) (row (c + r))" if "r < N_REAL_ROWS" for r
    using first later that by (cases r) simp_all
  have rnd: "words (row (c + r)) 24 8 = round_state (words (row (c + r)) 0 8) r" if r: "r < N_REAL_ROWS" for r
  proof -
    have "round_cells (fst (round_schedule r), snd (round_schedule r)) (words (row (c + r)) 0 8) = (words (row (c + r)) 8 8, words (row (c + r)) 16 8, words (row (c + r)) 24 8)"
      by (rule iffD1 [OF round_ok_real [OF wf(1) [OF bound [OF r]] _ f(2) [OF r] round_schedule_wf [OF r] f(3) [OF r] f(4) [OF r]] rok [OF r]])
        (simp add: wf(2) [OF bound [OF r]])
    then show ?thesis by (intro round_cells_state) simp
  qed
  have "words (row (c + (N_REAL_ROWS - 1))) 0 8 = state_at (mat_external_t8 (added s ?a)) (N_REAL_ROWS - 1)
      \<and> words (row (c + (N_REAL_ROWS - 1))) 24 8 = state_at (mat_external_t8 (added s ?a)) (Suc (N_REAL_ROWS - 1))"
  proof (rule state_chain [where n = N_REAL_ROWS and ins = "\<lambda>r. words (row (c + r)) 0 8" and outs = "\<lambda>r. words (row (c + r)) 24 8"])
    show "words (row (c + r)) 24 8 = round_state (words (row (c + r)) 0 8) r" if "r < N_REAL_ROWS" for r by (rule rnd [OF that])
    show "words (row (c + 0)) 0 8 = mat_external_t8 (added s ?a)" using first by simp
    show "words (row (c + Suc r)) 0 8 = words (row (c + r)) 24 8" if "Suc r < N_REAL_ROWS" for r using later [OF that] by blast
    show "N_REAL_ROWS - 1 < N_REAL_ROWS" by (simp add: N_REAL_ROWS_val)
  qed
  moreover have "Suc (N_REAL_ROWS - 1) = N_REAL_ROWS" by (simp add: N_REAL_ROWS_val)
  ultimately show "words (trace_row cols (c + (N_REAL_ROWS - 1))) 24 8 = permute_t8 (added s ?a)" by (simp only: permute_rounds row_def)
  show "steps ! b = Draw \<Longrightarrow> take 2 s = draw_pin run (draw_count steps b)" using first by blast
  show "words (trace_row cols (c + (N_REAL_ROWS - 1))) 24 8 = digest_of run" if "b = length steps - 1" "run \<noteq> None"
    using later [of "N_REAL_ROWS - 2"] that by (simp add: row_def N_REAL_ROWS_val)
qed

text \<open>The states at the ends of the blocks are those of the channel.\<close>

lemma chan_run_states:
  fixes runs :: "ChannelRun list"
  assumes fit: "runs_fit log_size ts" and len: "length cols = 33"
    and sat: "cyclic_sat chan_evaluate (chan_preproc_multi ts runs log_size) cols (2 ^ log_size)" and t: "t < length ts"
  defines "c b \<equiv> (sum_list (take t (map length ts)) + b) * N_REAL_ROWS"
  shows "b < length (ts ! t) \<Longrightarrow> words (trace_row cols (c b + (N_REAL_ROWS - 1))) 24 8 = state_b (ts ! t) (Suc b)
    \<and> (ts ! t ! b = Draw \<longrightarrow> take 2 (state_b (ts ! t) b) = draw_pin (run_of runs t) (draw_count (ts ! t) b))"
proof (induction b)
  case 0
  note s = chan_block_sound(1,2) [OF fit len sat t 0] and f = chan_at_facts [OF runs_fit_steps [OF fit t]]
  show ?case using s f(3) [OF 0] f(4) by (simp add: c_def)
next
  case (Suc b)
  then have b: "b < length (ts ! t)" by simp
  have e: "(sum_list (take t (map length ts)) + Suc b) * N_REAL_ROWS - 1 = c b + (N_REAL_ROWS - 1)" by (simp add: c_def N_REAL_ROWS_val)
  note s = chan_block_sound(1,2) [OF fit len sat t Suc.prems, unfolded e] and f = chan_at_facts [OF runs_fit_steps [OF fit t]]
  have i: "words (trace_row cols (c b + (N_REAL_ROWS - 1))) 24 8 = state_b (ts ! t) (Suc b)" using Suc.IH [OF b] by blast
  show ?case using s [unfolded i] f(3) [OF Suc.prems] by (simp add: c_def)
qed

lemma pin_pair_state:
  assumes "int (length steps) < P31"
  shows "pin_pair (pair_of (chan_at steps b)) = take 2 (state_b steps b)"
proof -
  have w: "wf_state 8 (state_b steps b)" by (rule chan_at_facts(1) [OF assms])
  have u: "(ucast (ucast x :: u32) :: u64) mod M31_P = x" if "canon x" for x
  proof -
    have "uint x < 2 ^ 32" using that by (simp add: canon_uint P31_def)
    then have "(ucast (ucast x :: u32) :: u64) = x" by (intro word_uint_eqI) (simp add: ucast_down_uint uint_up_ucast is_up)
    then show ?thesis using that by (simp add: canon_mod_id)
  qed
  have "take 2 (state_b steps b) = [state_b steps b ! 0, state_b steps b ! 1]"
    using w by (intro nth_equalityI) (auto simp: wf_state_def less_2_cases_iff)
  then show ?thesis using u wf_state_nth [OF w] by (simp add: pin_pair_def pair_of_def)
qed

lemma chan_runs_sound:
  fixes runs :: "ChannelRun list"
  assumes fit: "runs_fit log_size ts" and len: "length cols = 33"
    and sat: "cyclic_sat chan_evaluate (chan_preproc_multi ts runs log_size) cols (2 ^ log_size)" and t: "t < length ts" "t < length runs"
    and draws: "length (cr_drawn (runs ! t)) = length (filter (\<lambda>s. s = Draw) (ts ! t))"
  shows "map pin_pair (cr_drawn (runs ! t)) = map pin_pair (fst (run_steps (ts ! t) t8_init))"
    "ts ! t \<noteq> [] \<Longrightarrow> norm8 (cr_digest (runs ! t)) = P2TChannel.cells (snd (run_steps (ts ! t) t8_init))"
proof -
  let ?steps = "ts ! t" and ?P = "\<lambda>b. ts ! t ! b = Draw"
  note f = chan_at_facts [OF runs_fit_steps [OF fit t(1)]] and st = chan_run_states [OF fit len sat t(1)]
  have run: "run_of runs t = Some (runs ! t)" using t(2) by (simp add: run_of_def)
  have dl: "length (cr_drawn (runs ! t)) = length (filter ?P [0..<length ?steps])" using draws by (simp only: filter_draws)
  have pair: "pin_pair (pair_of (chan_at ?steps b)) = take 2 (state_b ?steps b)" for b
    by (rule pin_pair_state [OF runs_fit_steps [OF fit t(1)]])
  show "map pin_pair (cr_drawn (runs ! t)) = map pin_pair (fst (run_steps ?steps t8_init))"
  proof (rule nth_equalityI)
    show "length (map pin_pair (cr_drawn (runs ! t))) = length (map pin_pair (fst (run_steps ?steps t8_init)))" by (simp add: dl f(5))
    fix i assume "i < length (map pin_pair (cr_drawn (runs ! t)))"
    then have i: "i < length (filter ?P [0..<length ?steps])" by (simp add: dl)
    define b where "b = filter ?P [0..<length ?steps] ! i"
    have b: "b < length ?steps" "?P b" "draw_count ?steps b = i" using filter_index [OF i] by (simp_all add: b_def draw_count_def)
    have "pin_pair (cr_drawn (runs ! t) ! i) = draw_pin (run_of runs t) (draw_count ?steps b)"
      using i by (simp add: run draw_pin_def b(3) dl)
    also have "\<dots> = take 2 (state_b ?steps b)" using st [OF b(1)] b(2) by simp
    finally show "map pin_pair (cr_drawn (runs ! t)) ! i = map pin_pair (fst (run_steps ?steps t8_init)) ! i"
      using i by (simp add: f(5) pair dl b_def [symmetric])
  qed
  show "norm8 (cr_digest (runs ! t)) = P2TChannel.cells (snd (run_steps ?steps t8_init))" if ne: "?steps \<noteq> []"
  proof -
    have b: "length ?steps - 1 < length ?steps" "Suc (length ?steps - 1) = length ?steps" using ne by (simp_all add: Suc_le_eq)
    have rn: "run_of runs t \<noteq> None" by (simp add: run)
    show ?thesis using chan_block_sound(3) [OF fit len sat t(1) b(1) refl rn] st [OF b(1), unfolded b(2)] by (simp add: run digest_of_def f(5))
  qed
qed

section \<open>Completeness\<close>

definition chan_rest :: "Step list \<Rightarrow> nat \<Rightarrow> nat \<Rightarrow> int list" where
  "chan_rest steps b r = [if r = 0 then m31_cell (step_addends steps ! b) else 0]"

definition chan_in :: "Step list \<Rightarrow> nat \<Rightarrow> u64 list" where
  "chan_in steps b = mat_external_t8 (added (state_b steps b) (step_addends steps ! b))"

definition chan_rows :: "Step list \<Rightarrow> nat \<Rightarrow> int list list" where
  "chan_rows steps b = map (\<lambda>r. perm_row (chan_rest steps b) (round_schedule r) (state_at (chan_in steps b) r) r) [0..<N_REAL_ROWS]"

definition honest_run :: "Step list \<Rightarrow> ChannelRun" where
  "honest_run steps = \<lparr>cr_digest = P2TChannel.cells (snd (run_steps steps t8_init)), cr_drawn = fst (run_steps steps t8_init)\<rparr>"

lemma chan_trace_fold:
  assumes "int (length steps) < P31" "b \<le> length steps"
  shows "foldl chan_trace_step (rows, t8_init, [], carry) (take b steps) =
    (rows @ concat (map (chan_rows steps) [0..<b]), chan_at steps b, map (\<lambda>i. pair_of (chan_at steps i)) (filter (\<lambda>i. steps ! i = Draw) [0..<b]),
     if b = 0 then carry else state_b steps b)"
  using assms(2)
proof (induction b)
  case (Suc b)
  then have b: "b < length steps" by simp
  note f = chan_at_facts [OF assms(1)]
  have t: "take (Suc b) steps = take b steps @ [steps ! b]" using b by (rule take_Suc_conv_app_nth)
  have rest: "(\<lambda>r. [if r = 0 then m31_cell (step_addends steps ! b) else 0]) = chan_rest steps b" by (rule ext) (simp add: chan_rest_def)
  have loop: "perm_loop (chan_rest steps b) (mat_external_t8 (added (state_b steps b) (step_addends steps ! b))) = (chan_rows steps b, state_b steps (Suc b))"
    by (simp add: perm_loop_rows chan_rows_def chan_in_def permute_rounds f(3) [OF b])
  have ch: "chan_at steps (Suc b) = step_of (steps ! b) (chan_at steps b)" unfolding chan_at_def by (rule chan_from_Suc [OF b])
  have ad: "(case steps ! b of Absorb w \<Rightarrow> reduce_word w | Draw \<Rightarrow> ucast (n_draws (chan_at steps b))) = step_addends steps ! b"
    unfolding f(6) [OF b] addend_of_def ..
  have adv: "(case steps ! b of Absorb w \<Rightarrow> (step_absorb w (chan_at steps b), dr) | Draw \<Rightarrow> (let (p, ch) = step_draw (chan_at steps b) in (ch, dr @ [p])))
      = (chan_at steps (Suc b), if steps ! b = Draw then dr @ [pair_of (chan_at steps b)] else dr)" for dr
    unfolding ch by (cases "steps ! b") (simp add: step_of_def, simp add: step_draw_pair)
  have step: "chan_trace_step (rs, chan_at steps b, dr, cy) (steps ! b) =
      (rs @ chan_rows steps b, chan_at steps (Suc b), if steps ! b = Draw then dr @ [pair_of (chan_at steps b)] else dr, state_b steps (Suc b))" for rs dr cy
    unfolding chan_trace_step_def prod.case Let_def [where s = "state_b steps b"] ad Let_def [where s = "step_addends steps ! b"] adv rest
      added_def [symmetric] loop by simp
  show ?case unfolding t foldl_append foldl.simps Suc.IH [OF order.strict_implies_order [OF b]] step by simp
qed (simp add: chan_at_def)

lemma chan_run_fold:
  assumes "\<forall>steps\<in>set ts. steps \<noteq> [] \<and> int (length steps) < P31" "total_blocks ts \<le> cap"
  shows "foldl (chan_run_step cap) ([], [], 0, replicate 8 0) ts =
    (concat (map (\<lambda>(t, b). chan_rows (ts ! t) b) (comp_layout (map length ts))), map honest_run ts, total_blocks ts,
     if ts = [] then replicate 8 0 else state_b (last ts) (length (last ts)))"
  using assms
proof (induction ts rule: rev_induct)
  case (snoc steps ts)
  have le: "total_blocks ts \<le> cap" and m: "min (length steps) (cap - total_blocks ts) = length steps" "take (cap - total_blocks ts) steps = take (length steps) steps"
    using snoc.prems by (simp_all add: total_blocks_def)
  have s: "steps \<noteq> []" "int (length steps) < P31" using snoc.prems(1) by simp_all
  note f = chan_at_facts(5) [OF s(2)]
  have c: "map (\<lambda>(t, b). chan_rows ((ts @ [steps]) ! t) b) (comp_layout (map length ts)) = map (\<lambda>(t, b). chan_rows (ts ! t) b) (comp_layout (map length ts))"
  proof (intro map_cong refl)
    fix x assume "x \<in> set (comp_layout (map length ts))"
    then obtain i where i: "i < sum_list (map length ts)" "x = comp_layout (map length ts) ! i" by (auto simp: in_set_conv_nth)
    obtain t b where "t < length (map length ts)" "x = (t, b)" by (rule comp_layout_cases [OF i(1)]) (simp add: i(2))
    then show "(case x of (t, b) \<Rightarrow> chan_rows ((ts @ [steps]) ! t) b) = (case x of (t, b) \<Rightarrow> chan_rows (ts ! t) b)" by (simp add: nth_append)
  qed
  have k: "comp_layout (map length ts @ [length steps]) = comp_layout (map length ts) @ map (Pair (length ts)) [0..<length steps]"
    using comp_layout_snoc [of "map length ts" "length steps"] by simp
  have step: "chan_run_step cap (R, runs, total_blocks ts, carry) steps =
      (R @ concat (map (chan_rows steps) [0..<length steps]), runs @ [honest_run steps], total_blocks ts + length steps, state_b steps (length steps))" for R runs carry
    unfolding chan_run_step_def prod.case m chan_trace_fold [OF s(2) order.refl] Let_def honest_run_def f using s(1) by simp
  have IH: "foldl (chan_run_step cap) ([], [], 0, replicate 8 0) ts =
    (concat (map (\<lambda>(t, b). chan_rows (ts ! t) b) (comp_layout (map length ts))), map honest_run ts, total_blocks ts,
     if ts = [] then replicate 8 0 else state_b (last ts) (length (last ts)))" using snoc.prems(1) by (intro snoc.IH le) simp
  have n: "(ts @ [steps]) ! length ts = steps" by simp
  show ?case unfolding foldl_append foldl.simps IH step map_append list.map k concat_append c by (simp add: total_blocks_def n o_def)
qed (simp add: total_blocks_def comp_layout_def)

lemma chan_row_facts:
  assumes "int (length steps) < P31" "b < length steps" "r < N_REAL_ROWS"
  defines "row \<equiv> chan_rows steps b ! r" and "s \<equiv> chan_in steps b"
  shows "length row = 33" "cells_ok row" "words row 0 8 = state_at s r" "words row 24 8 = state_at s (Suc r)"
    "round_cells (round_schedule r) (words row 0 8) = (words row 8 8, words row 16 8, words row 24 8)"
    "r = 0 \<Longrightarrow> row ! 32 = uint (step_addends steps ! b)"
proof -
  let ?rest = "chan_rest steps b"
  note f = chan_at_facts [OF assms(1)]
  obtain e rc where sc: "round_schedule r = (e, rc)" by (cases "round_schedule r")
  have ca: "canon (step_addends steps ! b)" by (rule f(2) [OF assms(2)])
  have ws: "wf_state 8 s" unfolding s_def chan_in_def using f(1) ca by (intro mat_external_t8_wf added_wf)
  have w: "wf_state 8 (state_at s r)" "wf_state 8 rc" using state_at_wf [OF ws, of r] round_schedule_wf [OF assms(3)] assms(3) sc by simp_all
  have rr: "length (?rest r) = 1" "cells_ok (?rest r)" using ca by (simp_all add: chan_rest_def cells_ok_def m31_cell_canon canon_uint P31_def)
  have row: "row = perm_row ?rest (e, rc) (state_at s r) r" using assms(3) by (simp add: row_def chan_rows_def sc s_def)
  note p = perm_row_facts [where e = e and rest = ?rest and r = r, OF w rr, folded row]
  show "length row = 33" "cells_ok row" "words row 0 8 = state_at s r" using p(1-3) by simp_all
  show "round_cells (round_schedule r) (words row 0 8) = (words row 8 8, words row 16 8, words row 24 8)" using p(3,4) by (simp add: sc)
  then show "words row 24 8 = state_at s (Suc r)" using p(3) by (simp add: round_cells_state)
  assume r: "r = 0"
  have "row ! 32 = Circuit_Base.cells row 32 1 ! 0" by (simp add: Circuit_Base.cells_def)
  then show "row ! 32 = uint (step_addends steps ! b)" unfolding p(5) using ca r by (simp add: chan_rest_def m31_cell_canon)
qed

lemma chan_out: "int (length steps) < P31 \<Longrightarrow> b < length steps \<Longrightarrow> state_at (chan_in steps b) N_REAL_ROWS = state_b steps (Suc b)"
  by (simp add: chan_in_def permute_rounds chan_at_facts(3))

definition runs_in :: "nat \<Rightarrow> Step list list \<Rightarrow> bool" where
  "runs_in log_size ts \<longleftrightarrow> ts \<noteq> [] \<and> [] \<notin> set ts \<and> runs_fit log_size ts"

text \<open>The rows of an honest trace.\<close>

lemma chan_trace_rows:
  assumes i: "runs_in log_size ts"
  defines "ds \<equiv> map length ts" and "last_out \<equiv> state_b (last ts) (length (last ts))"
  obtains cols where "chan_build_trace_multi_raw ts log_size = (cols, map honest_run ts)" "length cols = 33"
    "\<And>t b r. t < length ts \<Longrightarrow> b < length (ts ! t) \<Longrightarrow> r < N_REAL_ROWS \<Longrightarrow>
      trace_row cols ((sum_list (take t ds) + b) * N_REAL_ROWS + r) = chan_rows (ts ! t) b ! r"
    "\<And>k. k < 2 ^ log_size \<Longrightarrow> total_blocks ts * N_REAL_ROWS \<le> k \<Longrightarrow>
      trace_row cols k = pad_row 1 (if k = total_blocks ts * N_REAL_ROWS then last_out else replicate 8 0)"
    "wf_state 8 last_out"
proof -
  let ?n = "2 ^ log_size :: nat" and ?T = "total_blocks ts * N_REAL_ROWS"
  note a = i [unfolded runs_in_def]
  have fit: "runs_fit log_size ts" using a by blast
  have T: "?T \<le> ?n" "total_blocks ts \<le> ?n div N_REAL_ROWS" using fit by (simp_all add: runs_fit_def less_eq_div_iff_mult_less_eq N_REAL_ROWS_val)
  have small: "int (length steps) < P31" if "steps \<in> set ts" for steps using runs_fit_steps [OF fit] that by (auto simp: in_set_conv_nth)
  have wl: "wf_state 8 last_out" unfolding last_out_def by (rule chan_at_facts(1)) (use small a in simp)
  have md: "map (\<lambda>v. v mod M31_P) last_out = last_out" using wl by (auto simp: wf_state_def canon_mod_id map_idI)
  have F: "length (chan_rows (ts ! p) j) = N_REAL_ROWS" for p j by (simp add: chan_rows_def)
  let ?rows = "concat (map (\<lambda>(t, b). chan_rows (ts ! t) b) (comp_layout ds))" and ?rest = "pad_loop 1 (?n - ?T) last_out"
  note L = layout_rows [where F = "\<lambda>t b. chan_rows (ts ! t) b" and ds = ds, OF F]
  have tb: "sum_list ds = total_blocks ts" by (simp add: ds_def total_blocks_def)
  have ne: "\<forall>steps\<in>set ts. steps \<noteq> [] \<and> int (length steps) < P31" using a small by blast
  have b: "chan_build_trace_multi_raw ts log_size = (columns 33 (?rows @ ?rest), map honest_run ts)"
    unfolding chan_build_trace_multi_raw_def Let_def chan_run_fold [OF ne T(2)] prod.case ds_def
    using a md by (simp add: last_out_def)
  show ?thesis
  proof (rule that [OF b])
    show "length (columns 33 (?rows @ ?rest)) = 33" by (simp add: columns_def)
    show "trace_row (columns 33 (?rows @ ?rest)) ((sum_list (take t ds) + b) * N_REAL_ROWS + r) = chan_rows (ts ! t) b ! r"
      if "t < length ts" "b < length (ts ! t)" "r < N_REAL_ROWS" for t b r
    proof -
      have "length (chan_rows (ts ! t) b ! r) = 33" using chan_row_facts(1) [OF small that(2,3)] that(1) by simp
      moreover have "t < length ds" "b < ds ! t" using that by (simp_all add: ds_def)
      ultimately show ?thesis using L(2) that(3) by blast
    qed
    show "trace_row (columns 33 (?rows @ ?rest)) k = pad_row 1 (if k = ?T then last_out else replicate 8 0)" if k: "k < ?n" "?T \<le> k" for k
    proof -
      have l: "k < length (?rows @ ?rest)" using k T(1) L(1) unfolding tb by (simp add: pad_loop_rows)
      have e: "?rest ! (k - sum_list ds * N_REAL_ROWS) = pad_row 1 (if k = ?T then last_out else replicate 8 0)"
        using k by (simp add: pad_loop_rows tb)
      have "wf_state 8 (if k = ?T then last_out else replicate 8 0)" using wl canon_zero by (simp add: wf_state_def)
      from pad_row_facts(1) [OF this, of 1] have "length (?rest ! (k - sum_list ds * N_REAL_ROWS)) = 33" unfolding e by simp
      then have "trace_row (columns 33 (?rows @ ?rest)) k = ?rest ! (k - sum_list ds * N_REAL_ROWS)" by (intro L(3) l) (use k(2) tb in simp)
      then show ?thesis unfolding e .
    qed
    show "wf_state 8 last_out" by (rule wl)
  qed
qed

text \<open>The honest trace satisfies the circuit with the preprocessed columns of its own runs.\<close>

lemma chan_trace_complete:
  assumes i: "runs_in log_size ts"
  obtains cols where "chan_build_trace_multi_raw ts log_size = (cols, map honest_run ts)" "length cols = 33"
    "length (chan_preproc_multi ts (map honest_run ts) log_size) = 25"
    "cyclic_sat chan_evaluate (chan_preproc_multi ts (map honest_run ts) log_size) cols (2 ^ log_size)"
proof -
  let ?ds = "map length ts" and ?n = "2 ^ log_size :: nat" and ?runs = "map honest_run ts"
  let ?T = "total_blocks ts * N_REAL_ROWS" and ?last = "state_b (last ts) (length (last ts))" and ?pre = "chan_preproc_multi ts ?runs log_size"
  note a = i [unfolded runs_in_def]
  have fit: "runs_fit log_size ts" using a by blast
  have tb: "sum_list ?ds = total_blocks ts" by (simp add: total_blocks_def)
  obtain cols where b: "chan_build_trace_multi_raw ts log_size = (cols, ?runs)" "length cols = 33"
    and real: "\<And>t b r. t < length ts \<Longrightarrow> b < length (ts ! t) \<Longrightarrow> r < N_REAL_ROWS \<Longrightarrow>
      trace_row cols ((sum_list (take t ?ds) + b) * N_REAL_ROWS + r) = chan_rows (ts ! t) b ! r"
    and pad: "\<And>k. k < ?n \<Longrightarrow> ?T \<le> k \<Longrightarrow> trace_row cols k = pad_row 1 (if k = ?T then ?last else replicate 8 0)"
    and wl: "wf_state 8 ?last" by (rule chan_trace_rows [OF i]) (rule that)
  note P = chan_preproc_rows [OF fit, where runs = ?runs]
  have small: "t < length ts \<Longrightarrow> int (length (ts ! t)) < P31" for t by (rule runs_fit_steps [OF fit])
  have zero: "wf_state 8 (replicate 8 0 :: u64 list)" using canon_zero by (simp add: wf_state_def)
  have wp: "wf_state 8 (if k = ?T then ?last else replicate 8 0)" for k :: nat using wl zero by simp
  have split: "k < ?n \<Longrightarrow> (?T \<le> k \<Longrightarrow> thesis) \<Longrightarrow> (\<And>t b r. t < length ts \<Longrightarrow> b < length (ts ! t) \<Longrightarrow> r < N_REAL_ROWS
      \<Longrightarrow> k = (sum_list (take t ?ds) + b) * N_REAL_ROWS + r \<Longrightarrow> thesis) \<Longrightarrow> thesis" for k thesis
  proof -
    assume "?T \<le> k \<Longrightarrow> thesis" and *: "\<And>t b r. t < length ts \<Longrightarrow> b < length (ts ! t) \<Longrightarrow> r < N_REAL_ROWS
      \<Longrightarrow> k = (sum_list (take t ?ds) + b) * N_REAL_ROWS + r \<Longrightarrow> thesis"
    show thesis
    proof (cases "?T \<le> k")
      case False
      then have "k div N_REAL_ROWS < sum_list ?ds" unfolding tb by (intro less_mult_imp_div_less) simp
      then obtain t b where tb: "t < length ?ds" "b < ?ds ! t" "k div N_REAL_ROWS = sum_list (take t ?ds) + b"
        by (rule comp_layout_cases)
      have "k = (sum_list (take t ?ds) + b) * N_REAL_ROWS + k mod N_REAL_ROWS" using div_mult_mod_eq [of k N_REAL_ROWS] unfolding tb(3) by simp
      moreover have "k mod N_REAL_ROWS < N_REAL_ROWS" by (simp add: N_REAL_ROWS_val)
      ultimately show thesis using * tb(1,2) by simp
    qed fact
  qed
  have ok: "cells_ok (trace_row cols k) \<and> length (trace_row cols k) = 33" if k: "k < ?n" for k
    using k
  proof (rule split)
    assume "?T \<le> k"
    from pad [OF k this] show ?thesis using pad_row_facts(1,2) [OF wp, of 1 k] by simp
  next
    fix t b r assume x: "t < length ts" "b < length (ts ! t)" "r < N_REAL_ROWS" and e: "k = (sum_list (take t ?ds) + b) * N_REAL_ROWS + r"
    show ?thesis using chan_row_facts(1,2) [OF small [OF x(1)] x(2,3)] real [OF x] e by simp
  qed
  have out_at: "words (trace_row cols ((sum_list (take t ?ds) + b) * N_REAL_ROWS + (N_REAL_ROWS - 1))) 24 8 = state_b (ts ! t) (Suc b)"
    if x: "t < length ts" "b < length (ts ! t)" for t b
  proof -
    have r: "N_REAL_ROWS - 1 < N_REAL_ROWS" "Suc (N_REAL_ROWS - 1) = N_REAL_ROWS" by (simp_all add: N_REAL_ROWS_val)
    show ?thesis unfolding real [OF x r(1)] chan_row_facts(4) [OF small [OF x(1)] x(2) r(1)] r(2) by (rule chan_out [OF small [OF x(1)] x(2)])
  qed
  have "cyclic_sat chan_evaluate ?pre cols ?n"
    unfolding cyclic_sat_def
  proof (intro allI impI conjI)
    fix k assume k: "k < ?n"
    define q where "q = (k + ?n - 1) mod ?n"
    have q: "q < ?n" by (simp add: q_def)
    have qk: "k \<noteq> 0 \<Longrightarrow> q = k - 1" using cyclic_prev [OF k] by (simp add: q_def)
    show "cells_ok (trace_row cols k)" using ok [OF k] by blast
    have rows: "cells_ok (trace_row cols k)" "length (trace_row cols k) = 33" "cells_ok (trace_row cols q)" "length (trace_row cols q) = 33"
      using ok [OF k] ok [OF q] by simp_all
    have "\<forall>c\<in>set (chan_evaluate (trace_row ?pre k) (trace_row cols k) (trace_row cols q)). c mod P31 = 0" using k
    proof (rule split)
      assume t: "?T \<le> k"
      let ?t = "length ts - 1" and ?b = "length (last ts) - 1"
      have ne: "last ts \<noteq> []" "last ts = ts ! ?t" "?t < length ts" "Suc ?t = length ts"
      proof -
        have "ts \<noteq> []" "last ts \<in> set ts" using a by simp_all
        then show "last ts \<noteq> []" "last ts = ts ! ?t" using a by (metis, metis last_conv_nth)
        show "?t < length ts" "Suc ?t = length ts" using a by simp_all
      qed
      have x: "?t < length ts" "?b < length (ts ! ?t)" "Suc ?b = length (last ts)" using ne by (simp_all add: Suc_le_eq)
      have tot: "total_blocks ts = Suc (sum_list (take ?t ?ds) + ?b)"
      proof -
        have "?ds = take ?t ?ds @ [length (last ts)]" using take_Suc_conv_app_nth [of ?t ?ds] ne by simp
        then have "sum_list ?ds = sum_list (take ?t ?ds) + length (last ts)" by (metis add_0_right sum_list.Cons sum_list.Nil sum_list_append)
        then show ?thesis using x(3) tb by simp
      qed
      have qe: "q = k - 1" "k \<noteq> 0" using t qk tot by (auto simp: N_REAL_ROWS_val)
      note f = pad_row_facts [OF wp, of 1 k, folded pad [OF k t]]
      have prev: "words (trace_row cols q) 24 8 = (if k = ?T then ?last else replicate 8 0)"
      proof (cases "k = ?T")
        case True
        have "q = (sum_list (take ?t ?ds) + ?b) * N_REAL_ROWS + (N_REAL_ROWS - 1)" unfolding qe(1) True tot by (simp add: N_REAL_ROWS_val)
        then show ?thesis using out_at [OF x(1,2)] True by (simp only: x(3) ne(2) [symmetric] simp_thms if_True)
      next
        case False
        then have "?T \<le> q" using t qe by linarith
        from pad [OF q this] show ?thesis using False qe t pad_row_facts(6) [OF wp, of 1 q] by simp
      qed
      have z: "replicate 25 (0 :: int) ! 10 = 0" "replicate 25 (0 :: int) ! 13 = 0" "replicate 25 (0 :: int) ! 16 = flag False"
        "Circuit_Base.cells (replicate 25 (0 :: int)) 17 8 = map uint (replicate 8 (0 :: u64))"
        "Circuit_Base.cells (replicate 25 (0 :: int)) 0 8 = replicate 8 0" "replicate 25 (0 :: int) ! 8 = 0" "replicate 25 (0 :: int) ! 9 = 0"
        by (simp_all add: flag_def cells_take)
      have rp: "round_ok (replicate 25 0) (trace_row cols k)"
        using round_ok_pad [OF rows(1) _ z(5-7)] rows(2) f(3-6) by simp
      show ?thesis unfolding P(3) [OF k t] chan_row_iff [OF rows z(1-4) zero] using rp f(3) prev by simp
    next
      fix t b r assume x: "t < length ts" "b < length (ts ! t)" "r < N_REAL_ROWS" and e: "k = (sum_list (take t ?ds) + b) * N_REAL_ROWS + r"
      let ?steps = "ts ! t" and ?run = "run_of ?runs t"
      note h = chan_at_facts [OF small [OF x(1)]]
      have run: "?run = Some (honest_run ?steps)" using x(1) by (simp add: run_of_def)
      have ca: "canon (step_addends ?steps ! b)" by (rule h(2) [OF x(2)])
      have prow: "trace_row ?pre k = chan_preproc_row ?steps ?run (length ?steps) b r" unfolding e by (rule P(2) [OF x])
      note pf = chan_preproc_row_facts [OF x(3) ca, where run = ?run and placed = "length ?steps", folded prow]
      note lf = chan_row_facts [OF small [OF x(1)] x(2,3), folded real [OF x], folded e]
      have w8: "wf_state 8 (if B then digest_of ?run else replicate 8 0)" for B using pins_wf(2) zero by simp
      have w2: "wf_state 2 (if B then draw_pin ?run j else [0, 0])" for B j using pins_wf(1) canon_zero by (simp add: wf_state_def)
      have rok: "round_ok (trace_row ?pre k) (trace_row cols k)"
        using round_ok_real [OF rows(1) _ pf(2) round_schedule_wf [OF x(3)] pf(3,4)] rows(2) lf(5) by simp
      have dig: "words (trace_row cols k) 24 8 = digest_of ?run" if "b = length ?steps - 1" "r = N_REAL_ROWS - 1"
      proof -
        have "Suc b = length ?steps" using that(1) x(2) by simp
        then have "words (trace_row cols k) 24 8 = state_b ?steps (length ?steps)" using out_at [OF x(1,2)] unfolding e that(2) by simp
        then show ?thesis using h(1) by (simp add: run digest_of_def honest_run_def h(5) norm8_id)
      qed
      show "\<forall>c\<in>set (chan_evaluate (trace_row ?pre k) (trace_row cols k) (trace_row cols q)). c mod P31 = 0"
      proof (cases "r = 0")
        case True
        have k10: "trace_row ?pre k ! 10 = flag True" "trace_row ?pre k ! 11 = flag (b = 0)" using pf(5,6) True by simp_all
        have carried: "(if b = 0 then replicate 8 0 else words (trace_row cols q) 24 8) = state_b ?steps b"
        proof (cases b)
          case 0
          then show ?thesis using h(4) by simp
        next
          case (Suc b')
          have "q = (sum_list (take t ?ds) + b') * N_REAL_ROWS + (N_REAL_ROWS - 1)" using qk e Suc True by (simp add: N_REAL_ROWS_val)
          then show ?thesis using out_at [OF x(1), of b'] x(2) Suc by simp
        qed
        have draw: "take 2 (state_b ?steps b) = draw_pin ?run (draw_count ?steps b)" if "?steps ! b = Draw"
        proof -
          note c = filter_count [OF x(2), of "\<lambda>i. ?steps ! i = Draw", OF that]
          then have "draw_count ?steps b < length (cr_drawn (honest_run ?steps))" "cr_drawn (honest_run ?steps) ! draw_count ?steps b = pair_of (chan_at ?steps b)"
            by (simp_all add: draw_count_def honest_run_def h(5))
          then show ?thesis by (simp add: run draw_pin_def pin_pair_state [OF small [OF x(1)]])
        qed
        note iff = chan_first_row_iff [OF rows k10 pf(7) [OF True] ca pf(8) pf(9) w2 pf(10) pf(11) w8]
        show ?thesis unfolding iff carried using rok lf(3) lf(6) [OF True] draw dig True by (simp add: chan_in_def)
      next
        case False
        have k10: "trace_row ?pre k ! 10 = 0" "trace_row ?pre k ! 13 = 0" using pf(5,8) False by (simp_all add: flag_def)
        have "k \<noteq> 0" using e False by simp
        then have "q = (sum_list (take t ?ds) + b) * N_REAL_ROWS + (r - 1)" using qk e False by simp
        then have tq: "trace_row cols q = chan_rows ?steps b ! (r - 1)" using real [OF x(1,2), of "r - 1"] x(3) by simp
        have "words (trace_row cols q) 24 8 = state_at (chan_in ?steps b) (Suc (r - 1))"
          using chan_row_facts(4) [OF small [OF x(1)] x(2), of "r - 1", folded tq] x(3) by simp
        then have prev: "words (trace_row cols k) 0 8 = words (trace_row cols q) 24 8" using lf(3) False by simp
        show ?thesis unfolding chan_row_iff [OF rows k10 pf(10) pf(11) w8] using rok prev dig by simp
      qed
    qed
    then show "\<forall>c\<in>set (chan_evaluate (trace_row ?pre k) (trace_row cols k) (trace_row cols ((k + ?n - 1) mod ?n))). c mod P31 = 0"
      unfolding q_def .
  qed
  then show ?thesis by (rule that [OF b P(1)])
qed

section \<open>One transcript, and sizes\<close>

text \<open>A trace of one transcript is a trace of a list of one.\<close>

lemma chan_preproc_one: "chan_build_preproc steps drawn dig log_size = chan_preproc_multi [steps] [\<lparr>cr_digest = dig, cr_drawn = drawn\<rparr>] log_size"
  by (simp add: chan_build_preproc_def chan_preproc_multi_def chan_preproc_step_def Let_def)

lemma chan_trace_one:
  "chan_build_trace steps log_size = (let (cols, runs) = chan_build_trace_multi_raw [steps] log_size in (cols, cr_digest (runs ! 0), cr_drawn (runs ! 0)))"
proof -
  have t: "take (min (length steps) n) steps = take n steps" for n by (cases "n \<le> length steps") (simp_all add: min_def)
  show ?thesis by (simp add: chan_build_trace_def chan_build_trace_multi_raw_def chan_run_step_def Let_def t split_def)
qed

lemma chan_log_size_fits:
  assumes "n \<le> MAX_STEPS"
  shows "n_rows n \<le> 2 ^ chan_log_size n" "CHAN_MIN_LOG_SIZE \<le> chan_log_size n" "chan_log_size n \<le> CHAN_MAX_LOG_SIZE"
proof -
  let ?r = "max (n_rows n) 1" and ?l = "log_size_loop (max (n_rows n) 1) 1"
  have s: "max ?r 1 \<le> 2 ^ ?l" "?l = 1 \<or> 2 ^ (?l - 1) < max ?r 1" using log_size_loop_spec [of 1 ?r] by blast+
  have "(2 :: nat) ^ ?l \<le> 2 ^ chan_log_size n" unfolding chan_log_size_def Let_def by (intro power_increasing) simp_all
  then show "n_rows n \<le> 2 ^ chan_log_size n" using s(1) by linarith
  show "CHAN_MIN_LOG_SIZE \<le> chan_log_size n" by (simp add: CHAN_MIN_LOG_SIZE_def chan_log_size_def Let_def)
  have "n * 22 \<le> 512 * 22" using assms unfolding MAX_STEPS_def by (rule mult_right_mono) simp
  then have u: "max ?r 1 \<le> 2 ^ 23" by (simp add: n_rows_def ROUNDS_PER_ABSORB_def)
  have "?l \<le> 24"
  proof (rule ccontr)
    assume "\<not> ?l \<le> 24"
    then have l: "23 \<le> ?l - 1" "?l \<noteq> 1" by simp_all
    have "(2 :: nat) ^ 23 \<le> 2 ^ (?l - 1)" using l(1) by (rule power_increasing) simp
    with s(2) l(2) u show False by linarith
  qed
  then show "chan_log_size n \<le> CHAN_MAX_LOG_SIZE" by (simp add: chan_log_size_def Let_def CHAN_MAX_LOG_SIZE_def)
qed

lemma runs_fit_one: "n_rows (length steps) \<le> 2 ^ log_size \<Longrightarrow> log_size \<le> CHAN_MAX_LOG_SIZE \<Longrightarrow> runs_fit log_size [steps]"
  by (simp add: runs_fit_def total_blocks_def n_rows_def ROUNDS_PER_ABSORB_def N_REAL_ROWS_val)

text \<open>The preprocessed columns depend on the runs only modulo the prime.\<close>

definition run_eq :: "ChannelRun \<Rightarrow> ChannelRun \<Rightarrow> bool" where
  "run_eq x y \<longleftrightarrow> map pin_pair (cr_drawn x) = map pin_pair (cr_drawn y) \<and> norm8 (cr_digest x) = norm8 (cr_digest y)"

lemma chan_preproc_row_eq:
  assumes "run_eq x y"
  shows "chan_preproc_row steps (Some x) placed b r = chan_preproc_row steps (Some y) placed b r"
proof -
  have l: "length (cr_drawn x) = length (cr_drawn y)" using assms unfolding run_eq_def by (metis length_map)
  have p: "pin_pair (cr_drawn x ! i) = pin_pair (cr_drawn y ! i)" if "i < length (cr_drawn y)" for i
    using assms that l unfolding run_eq_def by (metis nth_map)
  have d: "(let (w0, w1) = q in [m31_cell (ucast w0), m31_cell (ucast w1)]) = map uint (pin_pair q)" for q
    by (simp add: pin_pair_def m31_cell_reduced split_def)
  have g: "map (\<lambda>k. m31_cell (v ! k)) [0..<8] = map uint (norm8 v)" for v by (simp add: norm8_def m31_cell_reduced)
  have n: "norm8 (cr_digest x) = norm8 (cr_digest y)" using assms by (simp add: run_eq_def)
  show ?thesis unfolding chan_preproc_row_def option.case d g n l
    by (cases "draw_count steps b < length (cr_drawn y)") (simp_all add: p Let_def)
qed

lemma chan_preproc_multi_eq:
  assumes "total_blocks ts \<le> 2 ^ log_size div N_REAL_ROWS" "length runs = length ts" "length runs' = length ts"
    and eq: "\<And>t. t < length ts \<Longrightarrow> run_eq (runs ! t) (runs' ! t)"
  shows "chan_preproc_multi ts runs log_size = chan_preproc_multi ts runs' log_size"
proof -
  let ?row = "\<lambda>runs. \<lambda>(t, b). map (chan_preproc_row (ts ! t) (run_of runs t) (length (ts ! t)) b) [0..<N_REAL_ROWS]"
  have "map (?row runs) (comp_layout (map length ts)) = map (?row runs') (comp_layout (map length ts))"
  proof (intro map_cong refl)
    fix x assume "x \<in> set (comp_layout (map length ts))"
    then obtain i where i: "i < sum_list (map length ts)" "x = comp_layout (map length ts) ! i" by (auto simp: in_set_conv_nth)
    obtain t b where t: "t < length (map length ts)" "x = (t, b)" by (rule comp_layout_cases [OF i(1)]) (simp add: i(2))
    then have "run_of runs t = Some (runs ! t)" "run_of runs' t = Some (runs' ! t)" using assms(2,3) by (simp_all add: run_of_def)
    moreover have "run_eq (runs ! t) (runs' ! t)" using eq t(1) by simp
    ultimately show "?row runs x = ?row runs' x" using chan_preproc_row_eq t(2) by simp
  qed
  then show ?thesis unfolding chan_preproc_multi_def Let_def chan_preproc_fold [OF assms(1)] by (simp only:)
qed

text \<open>A run is that of the channel on a transcript, modulo the prime.\<close>

definition run_matches :: "ChannelRun \<Rightarrow> Step list \<Rightarrow> bool" where
  "run_matches run steps \<longleftrightarrow> map pin_pair (cr_drawn run) = map pin_pair (fst (run_steps steps t8_init))
     \<and> norm8 (cr_digest run) = P2TChannel.cells (snd (run_steps steps t8_init))"

lemma honest_matches: "int (length steps) < P31 \<Longrightarrow> run_matches (honest_run steps) steps"
  using norm8_id [OF chan_at_facts(1)] by (simp add: run_matches_def honest_run_def chan_at_facts(5))

text \<open>The transcripts and the library of the examples; the proofs of the library are the columns.\<close>

definition steps_ex :: "Step list" where
  "steps_ex = [Absorb 5, Draw]"

definition chan_plain_verify :: "int list list \<Rightarrow> int list list \<Rightarrow> nat \<Rightarrow> u32 list \<Rightarrow> int list list \<times> int list list \<Rightarrow> bool" where
  "chan_plain_verify root0 root1 log_size ws pf \<longleftrightarrow> pf = (root0, root1) \<and> length root1 = 33 \<and> cyclic_sat chan_evaluate root0 root1 (2 ^ log_size)"

section \<open>Properties\<close>

text \<open>
  C33. The channel circuit is exact on any number of transcripts in one trace. Given a drawn pair for every draw,
  some columns satisfy the circuit with the preprocessed columns of the program exactly when the drawn pairs and
  the digest of each run are, modulo the prime, those of the channel started from zero on its transcript; and then
  the columns of the builder do. No transcript influences another, and nothing the prover puts in the other cells
  changes a challenge.
\<close>

theorem chan_circuit_exact:
  assumes "ts \<noteq> []" "[] \<notin> set ts" "total_blocks ts * N_REAL_ROWS \<le> 2 ^ log_size" "log_size \<le> CHAN_MAX_LOG_SIZE"
    and "list_all2 (\<lambda>run steps. length (cr_drawn run) = length (filter (\<lambda>s. s = Draw) steps)) runs ts"
  shows "((\<exists>cols. length cols = 33 \<and> cyclic_sat chan_evaluate (chan_preproc_multi ts runs log_size) cols (2 ^ log_size)) \<longleftrightarrow> list_all2 run_matches runs ts)
    \<and> (list_all2 run_matches runs ts \<longrightarrow> cyclic_sat chan_evaluate (chan_preproc_multi ts runs log_size) (fst (chan_build_trace_multi_raw ts log_size)) (2 ^ log_size))"
proof -
  have i: "runs_in log_size ts" and fit: "runs_fit log_size ts" using assms(1-4) by (simp_all add: runs_in_def runs_fit_def)
  have l: "length runs = length ts" using assms(5) by (rule list_all2_lengthD)
  have honest: "length (fst (chan_build_trace_multi_raw ts log_size)) = 33
      \<and> cyclic_sat chan_evaluate (chan_preproc_multi ts runs log_size) (fst (chan_build_trace_multi_raw ts log_size)) (2 ^ log_size)"
    if "list_all2 run_matches runs ts"
  proof -
    obtain cols where c: "chan_build_trace_multi_raw ts log_size = (cols, map honest_run ts)" "length cols = 33"
      "cyclic_sat chan_evaluate (chan_preproc_multi ts (map honest_run ts) log_size) cols (2 ^ log_size)"
      by (rule chan_trace_complete [OF i])
    have "chan_preproc_multi ts runs log_size = chan_preproc_multi ts (map honest_run ts) log_size"
    proof (rule chan_preproc_multi_eq)
      show "total_blocks ts \<le> 2 ^ log_size div N_REAL_ROWS" using assms(3) by (simp add: less_eq_div_iff_mult_less_eq N_REAL_ROWS_val)
      show "length runs = length ts" "length (map honest_run ts) = length ts" using l by simp_all
      fix t assume t: "t < length ts"
      have "wf_state 8 (state_b (ts ! t) (length (ts ! t)))" by (rule chan_at_facts(1) [OF runs_fit_steps [OF fit t]])
      then have "norm8 (P2TChannel.cells (snd (run_steps (ts ! t) t8_init))) = P2TChannel.cells (snd (run_steps (ts ! t) t8_init))"
        by (simp add: chan_at_facts(5) [OF runs_fit_steps [OF fit t]] norm8_id)
      moreover have "run_matches (runs ! t) (ts ! t)" using list_all2_nthD2 [OF that t] .
      ultimately show "run_eq (runs ! t) (map honest_run ts ! t)" using t by (simp add: run_eq_def honest_run_def run_matches_def)
    qed
    then show ?thesis using c by simp
  qed
  moreover have "(\<exists>cols. length cols = 33 \<and> cyclic_sat chan_evaluate (chan_preproc_multi ts runs log_size) cols (2 ^ log_size)) \<longleftrightarrow> list_all2 run_matches runs ts"
  proof
    assume "\<exists>cols. length cols = 33 \<and> cyclic_sat chan_evaluate (chan_preproc_multi ts runs log_size) cols (2 ^ log_size)"
    then obtain cols where c: "length cols = 33" "cyclic_sat chan_evaluate (chan_preproc_multi ts runs log_size) cols (2 ^ log_size)" by blast
    show "list_all2 run_matches runs ts"
    proof (rule list_all2_all_nthI [OF l])
      fix t assume "t < length runs"
      then have t: "t < length runs" "t < length ts" using l by simp_all
      have "length (cr_drawn (runs ! t)) = length (filter (\<lambda>s. s = Draw) (ts ! t))" by (rule list_all2_nthD [OF assms(5) t(1)])
      from chan_runs_sound [OF fit c t(2,1) this] show "run_matches (runs ! t) (ts ! t)" unfolding run_matches_def using assms(2) t(2) by (metis nth_mem)
    qed
  qed (use honest in blast)
  ultimately show ?thesis by blast
qed

theorem chan_circuit_exact_witness:
  "\<exists>cols. length cols = 33 \<and> cyclic_sat chan_evaluate (chan_preproc_multi [steps_ex, [Draw]] [honest_run steps_ex, honest_run [Draw]] 7) cols (2 ^ 7)"
proof -
  have "run_matches (honest_run steps_ex) steps_ex" "run_matches (honest_run [Draw]) [Draw]"
    by (rule honest_matches, simp add: steps_ex_def P31_def)+
  moreover have "length (cr_drawn (honest_run steps_ex)) = length (filter (\<lambda>s. s = Draw) steps_ex)" "length (cr_drawn (honest_run [Draw])) = 1"
    by (simp_all add: honest_run_def steps_ex_def split_def Let_def)
  ultimately show ?thesis
    using chan_circuit_exact [of "[steps_ex, [Draw]]" 7 "[honest_run steps_ex, honest_run [Draw]]"]
    by (simp add: total_blocks_def N_REAL_ROWS_val CHAN_MAX_LOG_SIZE_def steps_ex_def)
qed

text \<open>
  C34. What the channel verifier's answer means. Let the library be such that an accepted proof has columns that
  satisfy the circuit with the preprocessed columns whose root it carries. Then whenever the verifier accepts, the
  drawn pairs and the digest are, modulo the prime, those of the channel started from zero on the transcript.
\<close>

theorem chan_verify_sound:
  assumes sound: "\<And>pre root l ws pf. stark_verify (preproc_root pre l) root l ws pf \<Longrightarrow>
      \<exists>cols. length cols = 33 \<and> cyclic_sat chan_evaluate pre cols (2 ^ l)"
    and "verify_channel_t8 decode commitments preproc_root stark_verify bytes l steps drawn dig = Inr True"
  shows "map pin_pair drawn = map pin_pair (fst (run_steps steps t8_init)) \<and> norm8 dig = P2TChannel.cells (snd (run_steps steps t8_init))"
proof -
  let ?run = "\<lparr>cr_digest = dig, cr_drawn = drawn\<rparr>"
  obtain pf where v: "l \<le> CHAN_MAX_LOG_SIZE" "steps \<noteq> []" "length drawn = length (filter (\<lambda>s. s = Draw) steps)" "n_rows (length steps) \<le> 2 ^ l"
    "stark_verify (preproc_root (chan_build_preproc steps drawn dig l) l) (commitments pf ! 1) l (chan_public_words steps drawn dig) pf"
    using assms(2) by (auto simp: verify_channel_t8_def split: if_splits sum.splits)
  obtain cols where c: "length cols = 33" "cyclic_sat chan_evaluate (chan_preproc_multi [steps] [?run] l) cols (2 ^ l)"
    using sound [OF v(5)] unfolding chan_preproc_one by blast
  have t: "0 < length [steps]" "0 < length [?run]" and d: "length (cr_drawn ([?run] ! 0)) = length (filter (\<lambda>s. s = Draw) ([steps] ! 0))"
    using v(3) by simp_all
  show ?thesis using chan_runs_sound [OF runs_fit_one [OF v(4,1)] c t d] v(2) by simp
qed

theorem chan_verify_sound_witness:
  "\<exists>pre cols drawn dig. verify_channel_t8 Inr (\<lambda>(pre, cols). [pre, cols]) (\<lambda>pre l. pre) chan_plain_verify (pre, cols) 6 steps_ex drawn dig = Inr True
    \<and> map pin_pair drawn = map pin_pair (fst (run_steps steps_ex t8_init)) \<and> norm8 dig = P2TChannel.cells (snd (run_steps steps_ex t8_init))"
proof -
  let ?dig = "P2TChannel.cells (snd (run_steps steps_ex t8_init))" and ?drawn = "fst (run_steps steps_ex t8_init)"
  have i: "runs_in 6 [steps_ex]" by (simp add: runs_in_def runs_fit_def total_blocks_def N_REAL_ROWS_val CHAN_MAX_LOG_SIZE_def steps_ex_def)
  obtain cols where c: "length cols = 33" "cyclic_sat chan_evaluate (chan_preproc_multi [steps_ex] (map honest_run [steps_ex]) 6) cols (2 ^ 6)"
    by (rule chan_trace_complete [OF i])
  have p: "chan_preproc_multi [steps_ex] (map honest_run [steps_ex]) 6 = chan_build_preproc steps_ex ?drawn ?dig 6"
    by (simp add: chan_preproc_one honest_run_def)
  have d: "length ?drawn = length (filter (\<lambda>s. s = Draw) steps_ex)" by (simp add: steps_ex_def split_def Let_def)
  have v: "verify_channel_t8 Inr (\<lambda>(pre, cols). [pre, cols]) (\<lambda>pre l. pre) chan_plain_verify (chan_build_preproc steps_ex ?drawn ?dig 6, cols) 6 steps_ex ?drawn ?dig = Inr True"
    using c d unfolding p by (simp add: verify_channel_t8_def chan_plain_verify_def CHAN_MIN_LOG_SIZE_def CHAN_MAX_LOG_SIZE_def n_rows_def
        ROUNDS_PER_ABSORB_def MAX_STEPS_def) (simp add: steps_ex_def)
  have s: "\<exists>cols. length cols = 33 \<and> cyclic_sat chan_evaluate pre cols (2 ^ l)" if "chan_plain_verify pre root l ws pf" for pre root l ws pf
    using that by (auto simp: chan_plain_verify_def)
  have "map pin_pair ?drawn = map pin_pair (fst (run_steps steps_ex t8_init)) \<and> norm8 ?dig = P2TChannel.cells (snd (run_steps steps_ex t8_init))"
    by (rule chan_verify_sound [OF _ v]) (erule s)
  with v show ?thesis by blast
qed

text \<open>
  Proving and verifying a transcript agree. If the library's prover answers a satisfied circuit with a proof
  that decodes, carries the root of the given preprocessed columns and is accepted, then every transcript of one to
  \<open>MAX_STEPS\<close> steps is proved without error, with the digest and the drawn pairs of the channel, and the verifier
  accepts the bytes for them.
\<close>

lemma chan_prove_verify:
  assumes "steps \<noteq> []" "length steps \<le> MAX_STEPS"
    and complete: "\<And>pre cols l words. length pre = 25 \<Longrightarrow> length cols = 33 \<Longrightarrow> cyclic_sat chan_evaluate pre cols (2 ^ l) \<Longrightarrow>
      \<exists>bytes pf root. stark_prove pre cols l words = Inr bytes \<and> decode bytes = Inr pf
        \<and> commitments pf = [preproc_root pre l, root] \<and> stark_verify (preproc_root pre l) root l words pf"
  shows "\<exists>bytes l. prove_channel_t8 stark_prove steps = Inr (bytes, l, P2TChannel.cells (snd (run_steps steps t8_init)), fst (run_steps steps t8_init))
    \<and> verify_channel_t8 decode commitments preproc_root stark_verify bytes l steps (fst (run_steps steps t8_init))
        (P2TChannel.cells (snd (run_steps steps t8_init))) = Inr True"
proof -
  let ?l = "chan_log_size (length steps)" and ?dig = "P2TChannel.cells (snd (run_steps steps t8_init))" and ?drawn = "fst (run_steps steps t8_init)"
  let ?pre = "chan_build_preproc steps ?drawn ?dig ?l"
  note fits = chan_log_size_fits [OF assms(2)]
  have i: "runs_in ?l [steps]" using runs_fit_one [OF fits(1,3)] assms(1) by (simp add: runs_in_def)
  obtain cols where c: "chan_build_trace_multi_raw [steps] ?l = (cols, map honest_run [steps])" "length cols = 33"
    "length (chan_preproc_multi [steps] (map honest_run [steps]) ?l) = 25"
    "cyclic_sat chan_evaluate (chan_preproc_multi [steps] (map honest_run [steps]) ?l) cols (2 ^ ?l)"
    by (rule chan_trace_complete [OF i])
  have h: "map honest_run [steps] = [\<lparr>cr_digest = ?dig, cr_drawn = ?drawn\<rparr>]" by (simp add: honest_run_def)
  have t: "chan_build_trace steps ?l = (cols, ?dig, ?drawn)" unfolding chan_trace_one c(1) h by simp
  from complete [OF c(3,2,4), unfolded h chan_preproc_one [symmetric], of "chan_public_words steps ?drawn ?dig"] obtain bytes pf root where
    p: "stark_prove ?pre cols ?l (chan_public_words steps ?drawn ?dig) = Inr bytes" "decode bytes = Inr pf" "commitments pf = [preproc_root ?pre ?l, root]"
      "stark_verify (preproc_root ?pre ?l) root ?l (chan_public_words steps ?drawn ?dig) pf" by blast
  have m: "int (length steps) < P31" using assms(2) by (simp add: MAX_STEPS_def P31_def)
  have d: "length ?drawn = length (filter (\<lambda>s. s = Draw) steps)" unfolding filter_draws chan_at_facts(5) [OF m] by simp
  have "prove_channel_t8 stark_prove steps = Inr (bytes, ?l, ?dig, ?drawn)"
    using assms(1,2) fits(3) t p(1) by (simp add: prove_channel_t8_def Let_def)
  moreover have "verify_channel_t8 decode commitments preproc_root stark_verify bytes ?l steps ?drawn ?dig = Inr True"
    using assms(1,2) fits d p(2-4) by (simp add: verify_channel_t8_def)
  ultimately show ?thesis by blast
qed


lemma chan_prove_verify_witness:
  "\<exists>bytes l. prove_channel_t8 (\<lambda>pre cols l words. Inr (pre, cols)) steps_ex
      = Inr (bytes, l, P2TChannel.cells (snd (run_steps steps_ex t8_init)), fst (run_steps steps_ex t8_init))
    \<and> verify_channel_t8 Inr (\<lambda>(pre, cols). [pre, cols]) (\<lambda>pre l. pre) chan_plain_verify bytes l steps_ex (fst (run_steps steps_ex t8_init))
        (P2TChannel.cells (snd (run_steps steps_ex t8_init))) = Inr True"
proof (rule chan_prove_verify)
  show "steps_ex \<noteq> []" "length steps_ex \<le> MAX_STEPS" by (simp_all add: steps_ex_def MAX_STEPS_def)
qed (simp add: chan_plain_verify_def)

end
