(* ===== verification/Spec2Isabelle.thy ===== *)
theory Spec2Isabelle
  imports MLDSA_Verify Nonce_Tree Recursion_Inputs Circuit_Matrix Circuit_Hint Circuit_NTT Recursion_Protocol Nonce_Accumulator Circuit_Channel
begin

text \<open>
  Verification development for the Rust prover crate of QLSA, \<open>stark_stwo/src\<close>.

  \<^bold>\<open>The program.\<close> QLSA batches ML-DSA-65 signatures and proves their verification with Circle STARKs.
  The crate has five parts. (1) \<open>mldsa/\<close> is a plain implementation of ML-DSA-65 verification. (2)
  \<open>mldsa_*_air.rs\<close> and \<open>range_check_air.rs\<close> are the circuits of the same computation: constraints over rows
  of field cells and builders of honest traces. (3) \<open>poseidon2*.rs\<close>, \<open>batch_tree.rs\<close> and \<open>nonce_tree.rs\<close> are
  the Poseidon2 hash over \<open>M31\<close>, the accumulator of a batch and the accumulator of the account nonces. (4)
  \<open>vfri2_bridge.rs\<close> repeats the folding argument of the prover so that a contract can check it: fields,
  circle, folds, Merkle trees, Fiat-Shamir channels, the FRI chain, its replay, and the inputs of the
  recursion. (5) \<open>recursive/\<close> are the recursion circuits and the statements of the nodes of a recursion
  tree. The STARK prover itself (\<open>stwo\<close>) and SHAKE (\<open>sha3\<close>), Keccak and Blake2s are libraries.

  \<^bold>\<open>Integers.\<close> \<open>i64\<close> values of part 1 and 2 are \<open>int\<close>, with lemmas that bound every product and sum of
  canonical values below \<open>2^63\<close>; \<open>%\<close> and \<open>/\<close> are \<open>smod\<close> and \<open>sdiv\<close>, \<open>rem_euclid\<close> is \<open>mod\<close>. In parts 3 to 5
  words keep their width (\<open>u8\<close>, \<open>u32\<close>, \<open>u64\<close>, \<open>u128\<close>), so that wrapping, masking and packing are those of
  the machine. \<open>usize\<close> is \<open>nat\<close> (the lengths and indices of data in memory), except \<open>num_folds\<close> of the recursion verifier,
  which its caller chooses freely: 64 bits. A panic (assertion, slice or index out of range, \<open>unwrap\<close>) is \<open>None\<close>, an
  \<open>Err\<close> is the left of a sum or a datatype of its messages, and a loop that may not end is
  \<open>partial_function (option)\<close>. The definitions are those of a release build: unsigned words wrap and debug
  assertions do not run. \<open>recursive_verifier.rs\<close> is modelled in both profiles (\<open>build_profile\<close>), with its debug
  assertions and the overflow of \<open>1 + num_folds\<close> as panics of \<open>dev\<close>, since they decide when its verifiers panic.

  \<^bold>\<open>Theories.\<close>

  QLSA_Prelude, Prime_Mod: shared type names, fact collections, truncated remainders, Fermat and a
  primality certificate by factors of \<open>p - 1\<close>.

  MLDSA_Field, MLDSA_NTT, MLDSA_NTT_Correct, MLDSA_NTT_Eval, MLDSA_Poly, MLDSA_PolyVec (\<open>mldsa/mod.rs\<close>,
  \<open>params.rs\<close>, \<open>field.rs\<close>, \<open>ntt.rs\<close>, \<open>poly.rs\<close>, \<open>polyvec.rs\<close>): constants, \<open>Z_q\<close>, the transforms as the
  loops of the source, polynomials, vectors, matrix product, rounding and hints. The transforms are the
  composition of eight stages, mutually inverse (locale \<open>stage_tower\<close>, interpreted both ways), and
  evaluate at the roots of \<open>X^256 + 1\<close>; the product through them is the schoolbook product.

  MLDSA_Encoding, MLDSA_XOF, MLDSA_Verify (\<open>encoding.rs\<close>, \<open>xof.rs\<close>, \<open>verify.rs\<close>): bit packing and codecs
  with their errors, the rejection samplers over a SHAKE output given as a stream, and \<open>ml_dsa_verify\<close>:
  what it decides, and that it returns when the streams are productive (each rejection loop meets enough
  accepted candidates; otherwise it returns nothing, and it is proved that it returns exactly then).

  M31_Field, Poseidon2, Poseidon2_Perm, Poseidon2_Sponge (\<open>poseidon2*.rs\<close>): the field \<open>2^31 - 1\<close> on \<open>u64\<close>
  (locale \<open>m31_ops\<close>), the permutations of width 2, 4, 8, 16 with their constants, proved bijective on
  canonical states (locale \<open>poseidon2_layers\<close>), sponges and compressions (locale \<open>sponge_perm\<close>).

  Merkle_T8, Batch_Tree, Nonce_Tree (\<open>batch_tree.rs\<close>, \<open>nonce_tree.rs\<close> and their hashes): leaves, trees,
  inclusion proofs, the sparse nonce tree over an ordered map (locale \<open>ordered_map\<close>), batches of updates
  and transition chains. Soundness is stated as: two accepted openings that disagree exhibit a collision.

  M31_Ext, Circle_Fold, Barycentric, Channels, FRI_Chain, FRI_Degree (\<open>vfri2_bridge.rs\<close>): \<open>M31\<close>, \<open>CM31\<close>
  and \<open>QM31\<close> in their packed forms, the circle group and its cosets, circle and line folds, barycentric
  evaluation, the backends and channels (locale \<open>duplex\<close>), the chain \<open>vfri_fri_chain\<close> on both Poseidon2
  backends (locale \<open>p2_backend\<close>) and what folding does to the degree.

  QM31_Limbs, Merkle_Paths, Recursion_Inputs (\<open>recursive/qm31_mul_air.rs\<close>, \<open>channel_t8_air.rs\<close>,
  \<open>recursive_verifier.rs\<close>, \<open>composition_channel_t8.rs\<close>, and \<open>vfri2_bridge.rs\<close>): limb arithmetic, paths in
  word form, the inputs of the recursion extracted from a chain, the challenge layouts, and the statement
  of a node of the recursion tree; they agree with the chain.

  Circuit_Base, Circuit_Arith, Circuit_Matrix, Circuit_Hint, Circuit_NTT (\<open>mldsa_*_air.rs\<close>,
  \<open>range_check_air.rs\<close>): \<open>evaluate\<close> of every circuit as a list of constraints over the cells of a row (and of
  the previous row and preprocessed columns where the circuit reads them), the trace builders, and
  satisfaction modulo \<open>2^31 - 1\<close>. Completeness: every builder satisfies its circuit and returns the value of
  part 1 (the recording loops of the transforms through the locale \<open>butterfly_loop\<close>). Soundness where it
  holds (ranges, norms, sums, hint weight) and counterexamples where it does not (products, butterflies).

  Circuit_FRI, Circuit_Recursion, Recursion_Protocol (\<open>recursive/qm31_mul_air.rs\<close>, \<open>fold_air.rs\<close>,
  \<open>oods_air.rs\<close>, \<open>query_step_air.rs\<close>, \<open>fri_fold_chain_air.rs\<close>, \<open>recursive_verifier.rs\<close>): the gadgets of the
  folding argument, which are exact (a satisfied row holds the values of the reference and no others), the
  chain of folds, the circuit of the recursion verifier with its preprocessed columns and builders, and the
  functions that prove and verify its queries with the library as a parameter, in the \<open>dev\<close> and \<open>release\<close> profiles. An accepted trace folds to the
  fixed final values under the fixed challenges; honest batches within the caps prove and verify; it is proved exactly when the verifiers panic; and, since
  the quotient combinations and the siblings are free cells, some accepted trace exists for any final value.

  Circuit_Poseidon, Circuit_Path, Path_Protocol (\<open>recursive/poseidon2_t8_air.rs\<close>, \<open>merkle_path_t8_air.rs\<close>):
  the circuits of one compression and of Merkle paths of width 8, one round of the permutation per row, with
  preprocessed columns, builders for one and for several paths, and the functions that prove and verify. The
  circuit of a compression is exact; the cells of an accepted path trace hold siblings that lead from the fixed
  leaf to the fixed root along the low bits of the fixed index; honest paths prove and verify.

  Circuit_Nonce, Nonce_Accumulator (\<open>recursive/nonce_update_t8_air.rs\<close>, \<open>nonce_accumulator.rs\<close>): the circuit of nonce
  updates, two lanes of a path over shared siblings, each lane the path circuit on a selection of the columns; the
  public statement of a batch, its checks, and the functions that prove and verify it. The end-to-end results join
  them with Nonce_Tree: a batch accepted from the root of a reachable tree is one the tree applies, up to hash
  collisions; every batch a tree applies proves and verifies; the verifier never panics.

  Circuit_Channel (\<open>recursive/channel_t8_air.rs\<close>): the circuit of the recursion channel of Channels, one permutation
  per step of a transcript, with builders for one and for several transcripts and the functions that prove and
  verify. The circuit is exact modulo the prime: it is satisfiable for the given drawn pairs and digests exactly when
  they are those of the channel.

  \<^bold>\<open>Bounds and fuel.\<close> No definition has fuel except \<open>field_inv\<close> and the tree walks, whose recursion is on the
  depth. FRI chains are of domains up to \<open>2^30\<close>; the replay of a chain takes up to 29 roots, as the source.

  \<^bold>\<open>Not modelled.\<close> \<open>lib.rs\<close>, \<open>mldsa_verify_stark.rs\<close>, \<open>main.rs\<close>: commitments, proving and verifying are calls
  of the \<open>stwo\<close> library and of PyO3. The order of the circle domain in which columns are stored is the
  library's. \<open>air.rs\<close>, \<open>trace.rs\<close>, \<open>poseidon2_air.rs\<close> and \<open>poseidon2_merkle_air.rs\<close> are circuits of the first
  prover. Of \<open>vfri2_bridge.rs\<close>, the Solidity encodings of the hints. Of \<open>recursive/\<close>, the
  compositions of proofs and the gadgets of other widths. \<open>archive/\<close>, the Python services and the contracts are not part of
  the crate.
\<close>

end
